(* ===== verification/Prelude.thy ===== *)
theory Prelude
  imports Main "HOL-Library.Word"
begin

text \<open>
  Prelude of the development: the machine integers of the 32-bit target, the
  result type of kernel code (a function returns, panics, or leaves the kernel
  without returning), generic facts about words, linked lists threaded through an
  array, and the interfaces (locales) that several components share.
\<close>

unbundle bit_operations_syntax

type_synonym u8 = "8 word"
type_synonym u16 = "16 word"
type_synonym u32 = "32 word"

named_theorems consts_defs "numeric constants of the headers"
named_theorems word_bounds "bounds of bit fields"
named_theorems step_defs "definitions of the atomic operations of a component"

section \<open>Results of kernel code\<close>

text \<open>Kernel code returns a value, calls \<^verbatim>\<open>panic\<close>, or leaves the kernel for good:
  it enters user mode (\<^verbatim>\<open>env_pop_tf\<close>), halts the CPU or drops into the monitor.\<close>

datatype kexit = ToUser nat | Halted | ToMonitor | Spinning

datatype ('a, 's) kres = Done 'a 's | Panic string | NoReturn kexit 's

fun kbind :: "('a, 's) kres \<Rightarrow> ('a \<Rightarrow> 's \<Rightarrow> ('b, 's) kres) \<Rightarrow> ('b, 's) kres" where
  "kbind (Done a s) f = f a s"
| "kbind (Panic m) f = Panic m"
| "kbind (NoReturn e s) f = NoReturn e s"

fun kresult :: "('a, 's) kres \<Rightarrow> 'a option" where
  "kresult (Done a s) = Some a"
| "kresult (Panic m) = None"
| "kresult (NoReturn e s) = None"

fun kstate :: "('a, 's) kres \<Rightarrow> 's option" where
  "kstate (Done a s) = Some s"
| "kstate (Panic m) = None"
| "kstate (NoReturn e s) = Some s"

definition kassert :: "bool \<Rightarrow> string \<Rightarrow> 's \<Rightarrow> (unit, 's) kres" where
  "kassert b m s = (if b then Done () s else Panic m)"

lemma kbind_Done_iff:
  "kbind m f = Done b t \<longleftrightarrow> (\<exists>a s. m = Done a s \<and> f a s = Done b t)"
  by (cases m) auto

lemma kbind_assoc: "kbind (kbind m f) g = kbind m (\<lambda>a s. kbind (f a s) g)"
  by (cases m) auto

lemma kassert_Done_iff [simp]: "kassert b m s = Done u t \<longleftrightarrow> b \<and> t = s"
  by (simp add: kassert_def) auto

lemma kassert_True [simp]: "b \<Longrightarrow> kbind (kassert b m s) f = f () s"
  by (simp add: kassert_def)

section \<open>Words\<close>

lemma word_u32_max: "unat (w :: u32) < 4294967296"
  using unsigned_less [of w] by simp

lemma unat_u16_max: "unat (w :: u16) < 65536"
  using unsigned_less [of w] by simp

lemma u32_not_less_0 [simp]: "\<not> (w :: u32) < 0"
  by (simp add: word_less_nat_alt)

lemma drop_bit_12_less [word_bounds]: "drop_bit 12 (w :: u32) < 0x100000"
  using word_u32_max [of w]
  by (simp add: word_less_nat_alt unat_div_distrib drop_bit_eq_div less_mult_imp_div_less)

lemma and_mask_less: "n < LENGTH('a) \<Longrightarrow> (w :: 'a :: len word) AND mask n < 2 ^ n"
  by (rule and_mask_less')

lemma and_3FF_less [word_bounds]: "(w :: u32) AND 0x3FF < 0x400"
  using and_mask_less [where w = w and n = 10] by (simp add: mask_eq_exp_minus_1)

lemma and_FFF_less [word_bounds]: "(w :: u32) AND 0xFFF < 0x1000"
  using and_mask_less [where w = w and n = 12] by (simp add: mask_eq_exp_minus_1)

lemma bit_less_exp:
  fixes w :: "'a :: len word"
  assumes "w < 2 ^ k" "k < LENGTH('a)" "bit w n" shows "n < k"
proof -
  have "w AND mask k = w"
    by (metis assms(1) mask_eq_iff word_2p_lem word_size assms(2))
  thus ?thesis using assms(3) by (metis bit_and_iff bit_mask_iff)
qed

lemma sint_u32: "sint (x :: u32) = (if uint x < 2147483648 then uint x else uint x - 4294967296)"
proof -
  have s: "sint x = (uint x + 2147483648) mod 4294967296 - 2147483648"
    by (simp add: sint_uint signed_take_bit_eq_take_bit_shift take_bit_eq_mod add.commute)
  have b: "0 \<le> uint x" "uint x < 4294967296" using uint_lt2p [of x] by simp_all
  show ?thesis
  proof (cases "uint x < 2147483648")
    case True thus ?thesis unfolding s using b by simp
  next
    case False
    have "uint x + 2147483648 = uint x - 2147483648 + 4294967296" by simp
    hence "(uint x + 2147483648) mod 4294967296 = (uint x - 2147483648 + 4294967296) mod 4294967296"
      by (simp only:)
    also have "\<dots> = uint x - 2147483648"
      using False b by (simp only: mod_add_self2) simp
    finally show ?thesis unfolding s using False by simp
  qed
qed

lemma sint_small: "unat (x :: u32) < 2147483648 \<Longrightarrow> sint x = int (unat x)"
proof -
  assume h: "unat x < 2147483648"
  have u: "uint x = int (unat x)" by simp
  have "int (unat x) < 2147483648" using h by linarith
  thus ?thesis unfolding sint_u32 u by simp
qed

lemma sint_pos_iff: "0 < sint (x :: u32) \<longleftrightarrow> x \<noteq> 0 \<and> unat x < 2147483648"
proof -
  have b: "0 \<le> uint x" "uint x < 4294967296" using uint_lt2p [of x] by simp_all
  have "uint x = int (unat x)" by simp
  hence "unat x < 2147483648 \<longleftrightarrow> uint x < 2147483648" by linarith
  moreover have "x \<noteq> 0 \<longleftrightarrow> uint x \<noteq> 0" by (simp only: word_uint_eq_iff uint_0_eq)
  moreover have "0 < uint x \<longleftrightarrow> uint x \<noteq> 0" using b(1) by linarith
  ultimately show ?thesis using b by (auto simp: sint_u32)
qed

lemma u32_masks: "(3 :: u32) = mask 2" "(0xFF :: u32) = mask 8" "(0x1FF :: u32) = mask 9"
  "(0xFFF :: u32) = mask 12" "(0xF :: u32) = mask 4"
  by (simp_all add: mask_eq_exp_minus_1)

lemma unat_plus: "unat (x :: u32) + unat y < 2 ^ 32 \<Longrightarrow> unat (x + y) = unat x + unat y"
  by (simp add: unat_word_ariths)

section \<open>Linked lists threaded through an array\<close>

text \<open>\<open>chain nxt h xs\<close>: following the links \<open>nxt\<close> from the head pointer \<open>h\<close> visits
  exactly the elements \<open>xs\<close> in order and then reaches NULL.\<close>

fun chain :: "('p \<Rightarrow> 'p option) \<Rightarrow> 'p option \<Rightarrow> 'p list \<Rightarrow> bool" where
  "chain nxt h [] \<longleftrightarrow> h = None"
| "chain nxt h (x # xs) \<longleftrightarrow> h = Some x \<and> chain nxt (nxt x) xs"

lemma chain_None [simp]: "chain nxt None xs \<longleftrightarrow> xs = []"
  by (cases xs) auto

lemma chain_Some: "chain nxt (Some x) xs \<longleftrightarrow> (\<exists>ys. xs = x # ys \<and> chain nxt (nxt x) ys)"
  by (cases xs) auto

lemma chain_unique: "chain nxt h xs \<Longrightarrow> chain nxt h ys \<Longrightarrow> xs = ys"
  by (induction xs arbitrary: h ys) (auto simp: chain_Some elim: chain.elims)

lemma chain_cong:
  "(\<And>x. x \<in> set xs \<Longrightarrow> nxt x = nxt' x) \<Longrightarrow> chain nxt h xs = chain nxt' h xs"
  by (induction xs arbitrary: h) auto

lemma chain_upd_notin [simp]: "p \<notin> set xs \<Longrightarrow> chain (nxt(p := q)) h xs = chain nxt h xs"
  by (rule chain_cong) auto

lemma chain_distinct:
  assumes "chain nxt h xs" shows "distinct xs"
proof (rule ccontr)
  assume "\<not> distinct xs"
  then obtain as bs cs x where xs: "xs = as @ [x] @ bs @ [x] @ cs"
    using not_distinct_decomp by blast
  have suf: "chain nxt (Some x) (x # ys)" if "chain nxt h (zs @ x # ys)" for zs ys h
    using that by (induction zs arbitrary: h) auto
  have "chain nxt (Some x) (x # bs @ x # cs)" using suf [of h as] assms xs by simp
  moreover have "chain nxt (Some x) (x # cs)"
    using suf [of h "as @ x # bs"] assms xs by simp
  ultimately have "x # bs @ x # cs = x # cs" by (rule chain_unique)
  thus False by simp
qed

lemma chain_next:
  "chain nxt h (xs @ x # ys) \<Longrightarrow> nxt x = (case ys of [] \<Rightarrow> None | y # _ \<Rightarrow> Some y)"
  by (induction xs arbitrary: h) (auto split: list.splits)

lemma chain_next_None_iff:
  assumes "chain nxt h xs" "x \<in> set xs" shows "nxt x = None \<longleftrightarrow> x = last xs"
proof -
  obtain as bs where xs: "xs = as @ x # bs" using assms(2) by (meson split_list)
  have d: "distinct xs" by (rule chain_distinct [OF assms(1)])
  have n: "nxt x = (case bs of [] \<Rightarrow> None | y # _ \<Rightarrow> Some y)"
    using assms(1) chain_next unfolding xs by fast
  show ?thesis
  proof (cases "bs = []")
    case True thus ?thesis using n xs by simp
  next
    case False
    hence "last xs \<in> set bs" using xs by simp
    thus ?thesis using n d xs False by (auto split: list.splits)
  qed
qed

text \<open>Linking the last element back to the head leaves a cycle: no list represents it.\<close>

lemma chain_reaches:
  "chain nxt h (xs @ [p]) \<Longrightarrow> chain nxt' h zs \<Longrightarrow> \<forall>x \<in> set xs. nxt x = nxt' x \<Longrightarrow> p \<in> set zs"
proof (induction xs arbitrary: h zs)
  case Nil thus ?case by (auto simp: chain_Some)
next
  case (Cons x xs)
  then obtain ys where ys: "zs = x # ys" "chain nxt' (nxt' x) ys" by (auto simp: chain_Some)
  moreover have "chain nxt (nxt' x) (xs @ [p])" using Cons.prems by simp
  ultimately show ?case using Cons.IH [of "nxt' x" ys] Cons.prems(3) by simp
qed

lemma chain_cycle:
  assumes "chain nxt h (xs @ [p])" shows "\<not> chain (nxt(p := h)) (Some p) zs"
proof
  assume z: "chain (nxt(p := h)) (Some p) zs"
  then obtain ys where ys: "zs = p # ys" "chain (nxt(p := h)) h ys" by (auto simp: chain_Some)
  have "p \<notin> set xs" using chain_distinct [OF assms] by simp
  hence "p \<in> set ys" using chain_reaches [OF assms ys(2)] by auto
  thus False using chain_distinct [OF z] ys(1) by simp
qed

end
