(* ===== verification/Mmu.thy ===== *)
theory Mmu
  imports Prelude
begin

text \<open>
  The memory-management unit and the memory layout: \<^verbatim>\<open>inc/mmu.h\<close> (address
  decomposition, PTE flags, segment and gate descriptors), \<^verbatim>\<open>inc/memlayout.h\<close>
  (the constants of the address space) and the rounding macros of
  \<^verbatim>\<open>inc/types.h\<close>.  Linear and physical addresses are 32-bit words, so every shift,
  mask and sum wraps as the code's \<^verbatim>\<open>uintptr_t\<close> and \<^verbatim>\<open>physaddr_t\<close> do.
\<close>

section \<open>Rounding (inc/types.h)\<close>

definition MIN_u32 :: "u32 \<Rightarrow> u32 \<Rightarrow> u32" where
  "MIN_u32 a b = (if a \<le> b then a else b)"

definition MAX_u32 :: "u32 \<Rightarrow> u32 \<Rightarrow> u32" where
  "MAX_u32 a b = (if b \<le> a then a else b)"

definition ROUNDDOWN :: "u32 \<Rightarrow> u32 \<Rightarrow> u32" where
  "ROUNDDOWN a n = a - a mod n"

definition ROUNDUP :: "u32 \<Rightarrow> u32 \<Rightarrow> u32" where
  "ROUNDUP a n = ROUNDDOWN (a + n - 1) n"

section \<open>Linear addresses (inc/mmu.h, part 1)\<close>

definition PGSHIFT :: nat where [simp]: "PGSHIFT = 12"
definition PTXSHIFT :: nat where [simp]: "PTXSHIFT = 12"
definition PDXSHIFT :: nat where [simp]: "PDXSHIFT = 22"
definition PGSIZE :: u32 where [simp]: "PGSIZE = 4096"
definition NPDENTRIES :: u32 where [simp]: "NPDENTRIES = 1024"
definition NPTENTRIES :: u32 where [simp]: "NPTENTRIES = 1024"
definition PTSIZE :: u32 where "PTSIZE = PGSIZE * NPTENTRIES"

lemma PTSIZE_val [simp]: "PTSIZE = 0x400000"
  by (simp add: PTSIZE_def)

definition PGNUM :: "u32 \<Rightarrow> u32" where
  "PGNUM la = drop_bit PTXSHIFT la"

definition PDX :: "u32 \<Rightarrow> u32" where
  "PDX la = drop_bit PDXSHIFT la AND 0x3FF"

definition PTX :: "u32 \<Rightarrow> u32" where
  "PTX la = drop_bit PTXSHIFT la AND 0x3FF"

definition PGOFF :: "u32 \<Rightarrow> u32" where
  "PGOFF la = la AND 0xFFF"

definition PGADDR :: "u32 \<Rightarrow> u32 \<Rightarrow> u32 \<Rightarrow> u32" where
  "PGADDR d t o' = push_bit PDXSHIFT d OR push_bit PTXSHIFT t OR o'"

definition PTE_P :: u32 where [simp]: "PTE_P = 0x001"
definition PTE_W :: u32 where [simp]: "PTE_W = 0x002"
definition PTE_U :: u32 where [simp]: "PTE_U = 0x004"
definition PTE_PWT :: u32 where [simp]: "PTE_PWT = 0x008"
definition PTE_PCD :: u32 where [simp]: "PTE_PCD = 0x010"
definition PTE_A :: u32 where [simp]: "PTE_A = 0x020"
definition PTE_D :: u32 where [simp]: "PTE_D = 0x040"
definition PTE_PS :: u32 where [simp]: "PTE_PS = 0x080"
definition PTE_G :: u32 where [simp]: "PTE_G = 0x100"
definition PTE_AVAIL :: u32 where [simp]: "PTE_AVAIL = 0xE00"

definition PTE_SYSCALL :: u32 where
  "PTE_SYSCALL = (PTE_AVAIL OR PTE_P OR PTE_W OR PTE_U)"

definition PTE_ADDR :: "u32 \<Rightarrow> u32" where
  "PTE_ADDR pte = pte AND NOT 0xFFF"

definition FL_IF :: u32 where [simp]: "FL_IF = 0x200"
definition FL_IOPL_MASK :: u32 where [simp]: "FL_IOPL_MASK = 0x3000"
definition FL_IOPL_3 :: u32 where [simp]: "FL_IOPL_3 = 0x3000"

text \<open>Library bits among those left to user programs.\<close>

definition PTE_SHARE :: u32 where [simp]: "PTE_SHARE = 0x400"
definition PTE_COW :: u32 where [simp]: "PTE_COW = 0x800"

definition FEC_PR :: u32 where [simp]: "FEC_PR = 1"
definition FEC_WR :: u32 where [simp]: "FEC_WR = 2"
definition FEC_U :: u32 where [simp]: "FEC_U = 4"

section \<open>Memory layout (inc/memlayout.h)\<close>

definition KERNBASE :: u32 where [simp]: "KERNBASE = 0xF0000000"
definition IOPHYSMEM :: u32 where [simp]: "IOPHYSMEM = 0x0A0000"
definition EXTPHYSMEM :: u32 where [simp]: "EXTPHYSMEM = 0x100000"
definition KSTACKTOP :: u32 where "KSTACKTOP = KERNBASE"
definition KSTKSIZE :: u32 where "KSTKSIZE = 8 * PGSIZE"
definition KSTKGAP :: u32 where "KSTKGAP = 8 * PGSIZE"
definition MMIOLIM :: u32 where "MMIOLIM = KSTACKTOP - PTSIZE"
definition MMIOBASE :: u32 where "MMIOBASE = MMIOLIM - PTSIZE"
definition ULIM :: u32 where "ULIM = MMIOBASE"
definition UVPT :: u32 where "UVPT = ULIM - PTSIZE"
definition UPAGES :: u32 where "UPAGES = UVPT - PTSIZE"
definition UENVS :: u32 where "UENVS = UPAGES - PTSIZE"
definition UTOP :: u32 where "UTOP = UENVS"
definition UXSTACKTOP :: u32 where "UXSTACKTOP = UTOP"
definition USTACKTOP :: u32 where "USTACKTOP = UTOP - 2 * PGSIZE"
definition UTEXT :: u32 where "UTEXT = 2 * PTSIZE"
definition UTEMP :: u32 where "UTEMP = PTSIZE"
definition PFTEMP :: u32 where "PFTEMP = UTEMP + PTSIZE - PGSIZE"
definition USTABDATA :: u32 where "USTABDATA = PTSIZE div 2"
definition MPENTRY_PADDR :: u32 where [simp]: "MPENTRY_PADDR = 0x7000"

lemma layout_vals [simp]:
  "KSTACKTOP = 0xF0000000" "KSTKSIZE = 0x8000" "KSTKGAP = 0x8000"
  "MMIOLIM = 0xEFC00000" "MMIOBASE = 0xEF800000" "ULIM = 0xEF800000"
  "UVPT = 0xEF400000" "UPAGES = 0xEF000000" "UENVS = 0xEEC00000" "UTOP = 0xEEC00000"
  "UXSTACKTOP = 0xEEC00000" "USTACKTOP = 0xEEBFE000" "UTEXT = 0x800000"
  "UTEMP = 0x400000" "PFTEMP = 0x7FF000" "USTABDATA = 0x200000"
  by (simp_all add: KSTACKTOP_def KSTKSIZE_def KSTKGAP_def MMIOLIM_def MMIOBASE_def ULIM_def
      UVPT_def UPAGES_def UENVS_def UTOP_def UXSTACKTOP_def USTACKTOP_def UTEXT_def UTEMP_def
      PFTEMP_def USTABDATA_def)

section \<open>Segment and gate descriptors (inc/mmu.h, parts 2 and 3)\<close>

text \<open>Bit-fields are words; a field of a width without a type of its own is kept in a wider
  word and truncated on assignment, as a C bit-field store truncates.\<close>

record Segdesc =
  sd_lim_15_0 :: u32
  sd_base_15_0 :: u32
  sd_base_23_16 :: u32
  sd_type :: u32
  sd_s :: u32
  sd_dpl :: u32
  sd_p :: u32
  sd_lim_19_16 :: u32
  sd_avl :: u32
  sd_rsv1 :: u32
  sd_db :: u32
  sd_g :: u32
  sd_base_31_24 :: u32

definition SEG_NULL :: Segdesc where
  "SEG_NULL = \<lparr>sd_lim_15_0 = 0, sd_base_15_0 = 0, sd_base_23_16 = 0, sd_type = 0, sd_s = 0,
     sd_dpl = 0, sd_p = 0, sd_lim_19_16 = 0, sd_avl = 0, sd_rsv1 = 0, sd_db = 0, sd_g = 0,
     sd_base_31_24 = 0\<rparr>"

definition SEG :: "u32 \<Rightarrow> u32 \<Rightarrow> u32 \<Rightarrow> u32 \<Rightarrow> Segdesc" where
  "SEG type base lim dpl = \<lparr>
     sd_lim_15_0 = drop_bit 12 lim AND 0xffff,
     sd_base_15_0 = base AND 0xffff,
     sd_base_23_16 = drop_bit 16 base AND 0xff,
     sd_type = take_bit 4 type, sd_s = 1, sd_dpl = take_bit 2 dpl, sd_p = 1,
     sd_lim_19_16 = take_bit 4 (drop_bit 28 lim), sd_avl = 0, sd_rsv1 = 0, sd_db = 1, sd_g = 1,
     sd_base_31_24 = take_bit 8 (drop_bit 24 base)\<rparr>"

definition SEG16 :: "u32 \<Rightarrow> u32 \<Rightarrow> u32 \<Rightarrow> u32 \<Rightarrow> Segdesc" where
  "SEG16 type base lim dpl = \<lparr>
     sd_lim_15_0 = lim AND 0xffff,
     sd_base_15_0 = base AND 0xffff,
     sd_base_23_16 = drop_bit 16 base AND 0xff,
     sd_type = take_bit 4 type, sd_s = 1, sd_dpl = take_bit 2 dpl, sd_p = 1,
     sd_lim_19_16 = take_bit 4 (drop_bit 16 lim), sd_avl = 0, sd_rsv1 = 0, sd_db = 1, sd_g = 0,
     sd_base_31_24 = take_bit 8 (drop_bit 24 base)\<rparr>"

definition STA_X :: u32 where [simp]: "STA_X = 8"
definition STA_W :: u32 where [simp]: "STA_W = 2"
definition STA_R :: u32 where [simp]: "STA_R = 2"
definition STS_T32A :: u32 where [simp]: "STS_T32A = 9"
definition STS_CG32 :: u32 where [simp]: "STS_CG32 = 12"
definition STS_IG32 :: u32 where [simp]: "STS_IG32 = 14"
definition STS_TG32 :: u32 where [simp]: "STS_TG32 = 15"

record Gatedesc =
  gd_off_15_0 :: u32
  gd_sel :: u32
  gd_args :: u32
  gd_rsv1 :: u32
  gd_type :: u32
  gd_s :: u32
  gd_dpl :: u32
  gd_p :: u32
  gd_off_31_16 :: u32

definition SETGATE :: "bool \<Rightarrow> u32 \<Rightarrow> u32 \<Rightarrow> u32 \<Rightarrow> Gatedesc" where
  "SETGATE istrap sel off dpl = \<lparr>
     gd_off_15_0 = off AND 0xffff,
     gd_sel = take_bit 16 sel,
     gd_args = 0, gd_rsv1 = 0,
     gd_type = (if istrap then STS_TG32 else STS_IG32),
     gd_s = 0, gd_dpl = take_bit 2 dpl, gd_p = 1,
     gd_off_31_16 = take_bit 16 (drop_bit 16 off)\<rparr>"

definition SETCALLGATE :: "u32 \<Rightarrow> u32 \<Rightarrow> u32 \<Rightarrow> Gatedesc" where
  "SETCALLGATE sel off dpl = \<lparr>
     gd_off_15_0 = off AND 0xffff,
     gd_sel = take_bit 16 sel,
     gd_args = 0, gd_rsv1 = 0,
     gd_type = STS_CG32,
     gd_s = 0, gd_dpl = take_bit 2 dpl, gd_p = 1,
     gd_off_31_16 = take_bit 16 (drop_bit 16 off)\<rparr>"

text \<open>What the processor reads back from a descriptor.\<close>

definition seg_base :: "Segdesc \<Rightarrow> u32" where
  "seg_base d = sd_base_15_0 d OR push_bit 16 (sd_base_23_16 d) OR push_bit 24 (sd_base_31_24 d)"

definition seg_limit :: "Segdesc \<Rightarrow> u32" where
  "seg_limit d = (let l = sd_lim_15_0 d OR push_bit 16 (sd_lim_19_16 d)
                  in if sd_g d = 1 then push_bit 12 l OR 0xFFF else l)"

definition gate_off :: "Gatedesc \<Rightarrow> u32" where
  "gate_off g = gd_off_15_0 g OR push_bit 16 (gd_off_31_16 g)"

section \<open>Laws of the address decomposition\<close>

lemma u32_low_mask:
  "(0x3FF :: u32) = mask 10" "(0xFFF :: u32) = mask 12" "(0xFFFF :: u32) = mask 16"
  "(0xFF :: u32) = mask 8"
  by (simp_all add: mask_eq_exp_minus_1)

lemmas addr_fields = PGNUM_def PDX_def PTX_def PGOFF_def PGADDR_def PTE_ADDR_def

lemma PGADDR_split: "PGADDR (PDX la) (PTX la) (PGOFF la) = la"
  unfolding addr_fields u32_low_mask
proof (rule bit_word_eqI)
  fix n assume "n < LENGTH(32)"
  then show "bit (push_bit PDXSHIFT (drop_bit PDXSHIFT la AND mask 10) OR
              push_bit PTXSHIFT (drop_bit PTXSHIFT la AND mask 10) OR (la AND mask 12)) n = bit la n"
    by (cases "n < 12"; cases "n < 22") (auto simp: bit_simps)
qed

lemma PGADDR_fields:
  assumes "d < 0x400" "t < 0x400" "o' < 0x1000"
  shows "PDX (PGADDR d t o') = d" "PTX (PGADDR d t o') = t" "PGOFF (PGADDR d t o') = o'"
proof -
  have b: "n < 10" if "bit d n" for n using assms(1) that bit_less_exp [of d 10 n] by simp
  have c: "n < 10" if "bit t n" for n using assms(2) that bit_less_exp [of t 10 n] by simp
  have e: "n < 12" if "bit o' n" for n using assms(3) that bit_less_exp [of o' 12 n] by simp
  show "PDX (PGADDR d t o') = d" unfolding addr_fields u32_low_mask 
    by (rule bit_word_eqI) (auto simp: bit_simps dest: b c e)
  show "PTX (PGADDR d t o') = t" unfolding addr_fields u32_low_mask 
    by (rule bit_word_eqI) (auto simp: bit_simps dest: b c e)
  show "PGOFF (PGADDR d t o') = o'" unfolding addr_fields u32_low_mask 
    by (rule bit_word_eqI) (auto simp: bit_simps dest: b c e)
qed

section \<open>Laws of the rounding macros\<close>

lemma unat_ROUNDDOWN: "unat (ROUNDDOWN a n) = unat a div unat n * unat n"
proof -
  have "a mod n \<le> a" by (simp add: word_le_nat_alt unat_mod_distrib)
  hence "unat (ROUNDDOWN a n) = unat a - unat a mod unat n"
    by (simp only: ROUNDDOWN_def unat_sub unat_mod_distrib)
  thus ?thesis by (simp only: minus_mod_eq_div_mult)
qed

lemma ROUNDDOWN_le: "ROUNDDOWN a n \<le> a"
  by (simp add: word_le_nat_alt unat_ROUNDDOWN)

lemma ROUNDDOWN_dvd: "unat n dvd unat (ROUNDDOWN a n)"
  by (simp add: unat_ROUNDDOWN)

lemma ROUNDDOWN_near: "n \<noteq> 0 \<Longrightarrow> unat a - unat (ROUNDDOWN a n) < unat n"
  by (simp add: unat_ROUNDDOWN minus_div_mult_eq_mod unat_eq_0 [symmetric] del: unat_eq_0)

lemma unat_ROUNDUP:
  assumes "n \<noteq> 0" "unat a + unat n - 1 < 2 ^ 32"
  shows "unat (ROUNDUP a n) = (unat a + unat n - 1) div unat n * unat n"
proof -
  have n: "0 < unat n" using assms(1) by (simp add: unat_gt_0)
  have m: "unat (n - 1) = unat n - 1" using assms(1) by (simp add: unat_minus_one)
  have "unat (a + n - 1) = unat (a + (n - 1))" by (simp only: add_diff_eq)
  also have "\<dots> = (unat a + (unat n - 1)) mod 2 ^ 32"
    by (simp only: unat_word_ariths m) simp
  finally have "unat (a + n - 1) = (unat a + (unat n - 1)) mod 2 ^ 32" .
  moreover have "unat a + (unat n - 1) = unat a + unat n - 1" using n by simp
  ultimately have "unat (a + n - 1) = unat a + unat n - 1"
    using assms(2) by simp
  thus ?thesis by (simp add: ROUNDUP_def unat_ROUNDDOWN)
qed

lemma ROUNDUP_least_multiple:
  assumes "n \<noteq> 0" "unat a + unat n - 1 < 2 ^ 32"
  shows "unat n dvd unat (ROUNDUP a n)" "a \<le> ROUNDUP a n"
    "unat n dvd m \<Longrightarrow> unat a \<le> m \<Longrightarrow> unat (ROUNDUP a n) \<le> m"
proof -
  let ?n = "unat n" and ?a = "unat a"
  have n: "0 < ?n" using assms(1) by (simp add: unat_gt_0)
  have u: "unat (ROUNDUP a n) = (?a + ?n - 1) div ?n * ?n" by (rule unat_ROUNDUP [OF assms])
  show "?n dvd unat (ROUNDUP a n)" by (simp add: u)
  have "(?a + ?n - 1) mod ?n < ?n" using n by simp
  moreover have "(?a + ?n - 1) div ?n * ?n + (?a + ?n - 1) mod ?n = ?a + ?n - 1" by simp
  ultimately show "a \<le> ROUNDUP a n" unfolding word_le_nat_alt u by linarith
  show "unat (ROUNDUP a n) \<le> m" if dv: "?n dvd m" and le: "?a \<le> m"
  proof -
    obtain k where k: "m = ?n * k" using dv by (elim dvdE)
    have "(?a + ?n - 1) div ?n < k + 1"
      using n le k by (simp add: less_mult_imp_div_less algebra_simps)
    thus ?thesis using u k by (simp add: mult.commute)
  qed
qed

lemma ROUNDUP_wraps: "ROUNDUP 0xFFFFFFFF PGSIZE = 0"
  by (simp add: ROUNDUP_def ROUNDDOWN_def)

section \<open>Page addresses and entries\<close>

lemma PGNUM_less [word_bounds]: "PGNUM la < 0x100000"
  by (simp add: PGNUM_def drop_bit_12_less)

lemma PDX_less [word_bounds]: "PDX la < 0x400"
  by (simp add: PDX_def and_3FF_less)

lemma PTX_less [word_bounds]: "PTX la < 0x400"
  by (simp add: PTX_def and_3FF_less)

lemma PGOFF_less [word_bounds]: "PGOFF la < 0x1000"
  by (simp add: PGOFF_def and_FFF_less)

lemma PGNUM_push [simp]:
  "pn < 0x100000 \<Longrightarrow> drop_bit 12 (push_bit 12 pn :: u32) = pn"
proof (rule bit_word_eqI)
  fix n assume a: "pn < 0x100000" and n: "n < LENGTH(32)"
  have "m < 20" if "bit pn m" for m using bit_less_exp [of pn 20 m] a that by simp
  thus "bit (drop_bit 12 (push_bit 12 pn)) n = bit pn n" using n by (auto simp: bit_simps)
qed

lemma PTE_ADDR_entry:
  assumes "perm < 0x1000"
  shows "PTE_ADDR (push_bit 12 pn OR perm) = push_bit 12 pn"
    and "(push_bit 12 pn OR perm) AND 0xFFF = perm"
proof -
  have b: "n < 12" if "bit perm n" for n using bit_less_exp [of perm 12 n] assms that by simp
  show "PTE_ADDR (push_bit 12 pn OR perm) = push_bit 12 pn" unfolding PTE_ADDR_def u32_low_mask
    by (rule bit_word_eqI) (auto simp: bit_simps dest: b)
  show "(push_bit 12 pn OR perm) AND 0xFFF = perm" unfolding u32_low_mask
    by (rule bit_word_eqI) (auto simp: bit_simps dest: b)
qed

lemma PTE_ADDR_PGNUM: "PTE_ADDR pte = push_bit 12 (PGNUM pte)"
  unfolding PTE_ADDR_def PGNUM_def u32_low_mask
  by (rule bit_word_eqI) (auto simp: bit_simps)

lemma PTE_ADDR_ROUNDDOWN: "PTE_ADDR a = ROUNDDOWN a PGSIZE"
proof -
  have "(a AND NOT 0xFFF) + (a AND 0xFFF) = (a AND NOT 0xFFF) OR (a AND 0xFFF)"
    by (rule disjunctive_add_eq_or) (rule bit_word_eqI, auto simp: bit_simps)
  also have "\<dots> = a" by (rule bit_word_eqI) (auto simp: bit_simps)
  finally have "PTE_ADDR a = a - (a AND 0xFFF)"
    by (simp add: PTE_ADDR_def eq_diff_eq)
  also have "a AND 0xFFF = a mod PGSIZE"
    unfolding u32_low_mask by (simp add: take_bit_eq_mask [symmetric] take_bit_eq_mod)
  finally show ?thesis by (simp add: ROUNDDOWN_def)
qed

lemma or_P_present [simp]: "(w OR 1) AND 1 = (1 :: u32)"
  by (rule bit_word_eqI) (auto simp: bit_simps)

section \<open>Descriptors decode to what they were built from\<close>

lemma SEG_base: "seg_base (SEG t b l d) = b"
proof (rule bit_word_eqI)
  fix n assume "n < LENGTH(32)"
  thus "bit (seg_base (SEG t b l d)) n = bit b n"
    unfolding seg_base_def SEG_def u32_low_mask
    by (cases "n < 16"; cases "n < 24") (auto simp: bit_simps)
qed

lemma SEG_limit: "seg_limit (SEG t b l d) = l OR 0xFFF"
proof (rule bit_word_eqI)
  fix n assume "n < LENGTH(32)"
  thus "bit (seg_limit (SEG t b l d)) n = bit (l OR 0xFFF) n"
    unfolding seg_limit_def SEG_def u32_low_mask Let_def
    by (cases "n < 12"; cases "n < 28") (auto simp: bit_simps)
qed

lemma SEG16_limit: "l < 0x100000 \<Longrightarrow> seg_limit (SEG16 t b l d) = l"
proof (rule bit_word_eqI)
  fix n assume a: "l < 0x100000" and n: "n < LENGTH(32)"
  have "n < 20" if "bit l n" using bit_less_exp [of l 20 n] a that by simp
  thus "bit (seg_limit (SEG16 t b l d)) n = bit l n" using n
    unfolding seg_limit_def SEG16_def u32_low_mask Let_def
    by (cases "n < 16"; cases "n < 20") (auto simp: bit_simps)
qed

lemma SETGATE_off: "gate_off (SETGATE tr sel off dpl) = off"
  unfolding gate_off_def SETGATE_def u32_low_mask
  by (rule bit_word_eqI) (auto simp: bit_simps)

lemma SETGATE_dpl: "dpl \<le> 3 \<Longrightarrow> gd_dpl (SETGATE tr sel off dpl) = dpl"
proof -
  assume "dpl \<le> 3"
  hence "dpl < 2 ^ 2" by (simp add: word_le_nat_alt word_less_nat_alt)
  hence "n < 2" if "bit dpl n" for n using bit_less_exp [of dpl 2 n] that by simp
  hence "take_bit 2 dpl = dpl" by (auto intro!: bit_word_eqI simp: bit_simps)
  thus ?thesis by (simp add: SETGATE_def)
qed

end
