(* ===== verification/Errors.thy ===== *)
theory Errors
  imports Prelude
begin

text \<open>The error codes shared by kernel, file server and user programs (\<^verbatim>\<open>inc/error.h\<close>).\<close>

definition E_UNSPECIFIED :: u32 where [simp]: "E_UNSPECIFIED = 1"
definition E_BAD_ENV :: u32 where [simp]: "E_BAD_ENV = 2"
definition E_INVAL :: u32 where [simp]: "E_INVAL = 3"
definition E_NO_MEM :: u32 where [simp]: "E_NO_MEM = 4"
definition E_NO_FREE_ENV :: u32 where [simp]: "E_NO_FREE_ENV = 5"
definition E_FAULT :: u32 where [simp]: "E_FAULT = 6"
definition E_IPC_NOT_RECV :: u32 where [simp]: "E_IPC_NOT_RECV = 7"
definition E_EOF :: u32 where [simp]: "E_EOF = 8"
definition E_NO_DISK :: u32 where [simp]: "E_NO_DISK = 9"
definition E_MAX_OPEN :: u32 where [simp]: "E_MAX_OPEN = 10"
definition E_NOT_FOUND :: u32 where [simp]: "E_NOT_FOUND = 11"
definition E_BAD_PATH :: u32 where [simp]: "E_BAD_PATH = 12"
definition E_FILE_EXISTS :: u32 where [simp]: "E_FILE_EXISTS = 13"
definition E_NOT_EXEC :: u32 where [simp]: "E_NOT_EXEC = 14"
definition E_NOT_SUPP :: u32 where [simp]: "E_NOT_SUPP = 15"
definition MAXERROR :: u32 where [simp]: "MAXERROR = 16"

end
