(* ===== verification/Kstate.thy ===== *)
theory Kstate
  imports Mmu Errors
begin

text \<open>
  The data model of the kernel: the structs of \<^verbatim>\<open>inc/memlayout.h\<close>, \<^verbatim>\<open>inc/env.h\<close>,
  \<^verbatim>\<open>inc/trap.h\<close> and \<^verbatim>\<open>kern/cpu.h\<close>, the global variables of \<^verbatim>\<open>kern/pmap.c\<close>,
  \<^verbatim>\<open>kern/env.c\<close>, \<^verbatim>\<open>kern/trap.c\<close> and \<^verbatim>\<open>kern/console.c\<close> as one state record, and
  physical memory as the kernel sees it through the mapping at \<open>KERNBASE\<close>.

  A \<^verbatim>\<open>struct PageInfo *\<close> is the page's index in \<open>pages\<close> and a \<^verbatim>\<open>struct Env *\<close> the
  index in \<open>envs\<close>; NULL is \<open>None\<close>.  Pointers to page directories and page-table
  entries stay 32-bit addresses (NULL is 0), because the code computes with them.
\<close>

section \<open>Structures\<close>

record PageInfo =
  pp_link :: "u32 option"
  pp_ref :: u16

record PushRegs =
  reg_edi :: u32
  reg_esi :: u32
  reg_ebp :: u32
  reg_oesp :: u32
  reg_ebx :: u32
  reg_edx :: u32
  reg_ecx :: u32
  reg_eax :: u32

record Trapframe =
  tf_regs :: PushRegs
  tf_es :: u16
  tf_ds :: u16
  tf_trapno :: u32
  tf_err :: u32
  tf_eip :: u32
  tf_cs :: u16
  tf_eflags :: u32
  tf_esp :: u32
  tf_ss :: u16

record UTrapframe =
  utf_fault_va :: u32
  utf_err :: u32
  utf_regs :: PushRegs
  utf_eip :: u32
  utf_eflags :: u32
  utf_esp :: u32

datatype env_stat = ENV_FREE | ENV_DYING | ENV_RUNNABLE | ENV_RUNNING | ENV_NOT_RUNNABLE

datatype EnvType = ENV_TYPE_USER | ENV_TYPE_FS

record Env =
  env_tf :: Trapframe
  env_link :: "nat option"
  env_id :: u32
  env_parent_id :: u32
  env_type :: EnvType
  env_status :: env_stat
  env_runs :: u32
  env_cpunum :: u32
  env_pgdir :: u32
  env_pgfault_upcall :: u32
  env_ipc_recving :: bool
  env_ipc_dstva :: u32
  env_ipc_value :: u32
  env_ipc_from :: u32
  env_ipc_perm :: u32

definition LOG2NENV :: nat where [simp]: "LOG2NENV = 10"
definition NENV :: nat where [simp]: "NENV = 1024"

definition ENVX :: "u32 \<Rightarrow> u32" where
  "ENVX envid = envid AND (of_nat NENV - 1)"

definition sizeof_Env :: u32 where [simp]: "sizeof_Env = 124"
definition sizeof_PageInfo :: u32 where [simp]: "sizeof_PageInfo = 8"

definition zero_regs :: PushRegs where
  "zero_regs = \<lparr>reg_edi = 0, reg_esi = 0, reg_ebp = 0, reg_oesp = 0, reg_ebx = 0, reg_edx = 0,
     reg_ecx = 0, reg_eax = 0\<rparr>"

definition zero_tf :: Trapframe where
  "zero_tf = \<lparr>tf_regs = zero_regs, tf_es = 0, tf_ds = 0, tf_trapno = 0, tf_err = 0, tf_eip = 0,
     tf_cs = 0, tf_eflags = 0, tf_esp = 0, tf_ss = 0\<rparr>"

text \<open>A \<^verbatim>\<open>struct Env\<close> of zero bytes.\<close>

definition zero_env :: Env where
  "zero_env = \<lparr>env_tf = zero_tf, env_link = None, env_id = 0, env_parent_id = 0,
     env_type = ENV_TYPE_USER, env_status = ENV_FREE, env_runs = 0, env_cpunum = 0,
     env_pgdir = 0, env_pgfault_upcall = 0, env_ipc_recving = False, env_ipc_dstva = 0,
     env_ipc_value = 0, env_ipc_from = 0, env_ipc_perm = 0\<rparr>"

definition NCPU :: nat where [simp]: "NCPU = 8"

datatype cpu_stat = CPU_UNUSED | CPU_STARTED | CPU_HALTED

text \<open>Of the task state only the three fields the kernel sets are kept.\<close>

record CpuInfo =
  cpu_id :: u8
  cpu_status :: cpu_stat
  cpu_env :: "nat option"
  ts_esp0 :: u32
  ts_ss0 :: u16
  ts_iomb :: u16

section \<open>The kernel state\<close>

text \<open>The globals of the kernel, and what the devices of the console hold: the bytes the serial
  port and the keyboard controller will deliver, the text screen, and in \<open>cons_out\<close> the bytes
  written to the serial port so far.\<close>

record kst =
  npages :: u32
  npages_basemem :: u32
  nextfree :: u32
  end_sym :: u32
  kern_pgdir :: u32
  pages_va :: u32
  envs_va :: u32
  pages :: "u32 \<Rightarrow> PageInfo"
  page_free_list :: "u32 option"
  pmem :: "u32 \<Rightarrow> u32 \<Rightarrow> u32"
  mmio_base :: u32
  user_mem_check_addr :: u32
  tlb_flushed :: "u32 list"
  envs :: "nat \<Rightarrow> Env"
  env_free_list :: "nat option"
  cpunum :: nat
  ncpu :: nat
  cpus :: "nat \<Rightarrow> CpuInfo"
  cr3 :: "nat \<Rightarrow> u32"
  klock :: "nat option"
  gdt :: "nat \<Rightarrow> Segdesc"
  idt :: "nat \<Rightarrow> Gatedesc"
  task_reg :: "nat \<Rightarrow> u16"
  cons_out :: "u8 list"
  cons_buf :: "nat \<Rightarrow> u8"
  cons_rpos :: u32
  cons_wpos :: u32
  serial_exists :: bool
  serial_in :: "u8 list"
  kbd_in :: "u8 list"
  kbd_shift :: u32
  crt_buf :: "nat \<Rightarrow> u16"
  crt_pos :: u16

text \<open>The globals as the loader leaves them: zeroed, except for the initialised
  \<^verbatim>\<open>static uintptr_t base = MMIOBASE\<close>.\<close>

definition bss_kst :: kst where
  "bss_kst = \<lparr>npages = 0, npages_basemem = 0, nextfree = 0, end_sym = 0, kern_pgdir = 0,
     pages_va = 0, envs_va = 0, pages = \<lambda>_. \<lparr>pp_link = None, pp_ref = 0\<rparr>,
     page_free_list = None, pmem = \<lambda>_ _. 0, mmio_base = MMIOBASE, user_mem_check_addr = 0,
     tlb_flushed = [], envs = \<lambda>_. zero_env, env_free_list = None, cpunum = 0, ncpu = 0,
     cpus = \<lambda>i. \<lparr>cpu_id = 0, cpu_status = CPU_UNUSED, cpu_env = None, ts_esp0 = 0, ts_ss0 = 0,
       ts_iomb = 0\<rparr>,
     cr3 = \<lambda>_. 0, klock = None, gdt = \<lambda>_. SEG_NULL,
     idt = \<lambda>_. \<lparr>gd_off_15_0 = 0, gd_sel = 0, gd_args = 0, gd_rsv1 = 0, gd_type = 0, gd_s = 0,
       gd_dpl = 0, gd_p = 0, gd_off_31_16 = 0\<rparr>,
     task_reg = \<lambda>_. 0, cons_out = [], cons_buf = \<lambda>_. 0, cons_rpos = 0, cons_wpos = 0,
     serial_exists = False, serial_in = [], kbd_in = [], kbd_shift = 0, crt_buf = \<lambda>_. 0,
     crt_pos = 0\<rparr>"

definition curenv :: "kst \<Rightarrow> nat option" where
  "curenv s = cpu_env (cpus s (cpunum s))"

definition set_curenv :: "nat option \<Rightarrow> kst \<Rightarrow> kst" where
  "set_curenv e s = s\<lparr>cpus := (cpus s)(cpunum s := (cpus s (cpunum s))\<lparr>cpu_env := e\<rparr>)\<rparr>"

definition upd_env :: "nat \<Rightarrow> (Env \<Rightarrow> Env) \<Rightarrow> kst \<Rightarrow> kst" where
  "upd_env e f s = s\<lparr>envs := (envs s)(e := f (envs s e))\<rparr>"

definition upd_page :: "u32 \<Rightarrow> (PageInfo \<Rightarrow> PageInfo) \<Rightarrow> kst \<Rightarrow> kst" where
  "upd_page pp f s = s\<lparr>pages := (pages s)(pp := f (pages s pp))\<rparr>"

section \<open>Physical memory\<close>

text \<open>Physical memory is an array of page frames of 1024 words; the kernel accesses it at
  \<open>KERNBASE + pa\<close>.\<close>

definition load32 :: "kst \<Rightarrow> u32 \<Rightarrow> u32" where
  "load32 s a = (let pa = a - KERNBASE in pmem s (PGNUM pa) (drop_bit 2 (PGOFF pa)))"

definition store32 :: "u32 \<Rightarrow> u32 \<Rightarrow> kst \<Rightarrow> kst" where
  "store32 a v s = (let pa = a - KERNBASE in
     s\<lparr>pmem := (pmem s)(PGNUM pa := (pmem s (PGNUM pa))(drop_bit 2 (PGOFF pa) := v))\<rparr>)"

text \<open>A byte is an eighth-bit slice of its word (little endian).\<close>

definition byte_of :: "u32 \<Rightarrow> u32 \<Rightarrow> u8" where
  "byte_of w a = ucast (drop_bit (8 * unat (a AND 3)) w)"

definition set_byte_of :: "u32 \<Rightarrow> u32 \<Rightarrow> u8 \<Rightarrow> u32" where
  "set_byte_of w a b = (let k = 8 * unat (a AND 3) in
     (w AND NOT (push_bit k 0xFF)) OR push_bit k (ucast b))"

definition load8 :: "kst \<Rightarrow> u32 \<Rightarrow> u8" where
  "load8 s a = byte_of (load32 s a) a"

definition store8 :: "u32 \<Rightarrow> u8 \<Rightarrow> kst \<Rightarrow> kst" where
  "store8 a b s = store32 a (set_byte_of (load32 s a) a b) s"

text \<open>\<^verbatim>\<open>memset(page, 0, PGSIZE)\<close> on the page at a page-aligned kernel address.\<close>

definition zero_page :: "u32 \<Rightarrow> kst \<Rightarrow> kst" where
  "zero_page kva s = s\<lparr>pmem := (pmem s)(PGNUM (kva - KERNBASE) := \<lambda>_. 0)\<rparr>"

section \<open>Address translation (kern/pmap.h)\<close>

definition PADDR :: "u32 \<Rightarrow> kst \<Rightarrow> (u32, kst) kres" where
  "PADDR kva s = (if kva < KERNBASE then Panic ''PADDR called with invalid kva''
                  else Done (kva - KERNBASE) s)"

definition KADDR :: "u32 \<Rightarrow> kst \<Rightarrow> (u32, kst) kres" where
  "KADDR pa s = (if npages s \<le> PGNUM pa then Panic ''KADDR called with invalid pa''
                 else Done (pa + KERNBASE) s)"

definition ALLOC_ZERO :: u32 where [simp]: "ALLOC_ZERO = 1"

definition page2pa :: "u32 \<Rightarrow> u32" where
  "page2pa pp = push_bit PGSHIFT pp"

definition pa2page :: "u32 \<Rightarrow> kst \<Rightarrow> (u32, kst) kres" where
  "pa2page pa s = (if npages s \<le> PGNUM pa then Panic ''pa2page called with invalid pa''
                   else Done (PGNUM pa) s)"

definition page2kva :: "u32 \<Rightarrow> kst \<Rightarrow> (u32, kst) kres" where
  "page2kva pp s = KADDR (page2pa pp) s"

section \<open>Laws of memory\<close>

lemma PGNUM_page2pa [simp]: "pp < 0x100000 \<Longrightarrow> PGNUM (page2pa pp) = pp"
  by (simp add: PGNUM_def page2pa_def)

lemma page2pa_aligned [simp]: "PGOFF (page2pa pp) = 0"
  unfolding PGOFF_def page2pa_def u32_low_mask PGSHIFT_def
  by (rule bit_word_eqI) (auto simp: bit_simps)

lemma PTE_ADDR_page2pa [simp]: "PTE_ADDR (page2pa pp) = page2pa pp"
  using PTE_ADDR_entry(1) [of 0 pp] by (simp add: page2pa_def)

lemma curenv_upd_env [simp]: "curenv (upd_env e f s) = curenv s"
  by (simp add: curenv_def upd_env_def)

lemma curenv_set_curenv [simp]: "curenv (set_curenv e s) = e"
  by (simp add: curenv_def set_curenv_def)

lemma curenv_upd_page [simp]: "curenv (upd_page p f s) = curenv s"
  by (simp add: curenv_def upd_page_def)

lemma curenv_store32 [simp]: "curenv (store32 a v s) = curenv s"
  by (simp add: curenv_def store32_def Let_def)

lemma store32_other [simp]:
  "npages (store32 a v s) = npages s" "pages (store32 a v s) = pages s"
  "page_free_list (store32 a v s) = page_free_list s" "envs (store32 a v s) = envs s"
  "env_free_list (store32 a v s) = env_free_list s" "kern_pgdir (store32 a v s) = kern_pgdir s"
  "cpus (store32 a v s) = cpus s" "cpunum (store32 a v s) = cpunum s"
  by (simp_all add: store32_def Let_def)

lemma upd_page_other [simp]:
  "npages (upd_page p f s) = npages s" "pmem (upd_page p f s) = pmem s"
  "page_free_list (upd_page p f s) = page_free_list s" "envs (upd_page p f s) = envs s"
  "env_free_list (upd_page p f s) = env_free_list s" "kern_pgdir (upd_page p f s) = kern_pgdir s"
  "cpus (upd_page p f s) = cpus s" "cpunum (upd_page p f s) = cpunum s"
  by (simp_all add: upd_page_def)

lemma pages_upd_page: "pages (upd_page p f s) q = (if q = p then f (pages s p) else pages s q)"
  by (simp add: upd_page_def)

lemma upd_env_other [simp]:
  "npages (upd_env e f s) = npages s" "pmem (upd_env e f s) = pmem s"
  "page_free_list (upd_env e f s) = page_free_list s" "pages (upd_env e f s) = pages s"
  "env_free_list (upd_env e f s) = env_free_list s" "kern_pgdir (upd_env e f s) = kern_pgdir s"
  "cpus (upd_env e f s) = cpus s" "cpunum (upd_env e f s) = cpunum s"
  by (simp_all add: upd_env_def)

lemma envs_upd_env: "envs (upd_env e f s) i = (if i = e then f (envs s e) else envs s i)"
  by (simp add: upd_env_def)

text \<open>Word \<open>i\<close> of the page frame \<open>pn\<close>, at its kernel address.\<close>

definition frame_addr :: "u32 \<Rightarrow> u32 \<Rightarrow> u32" where
  "frame_addr pn i = push_bit 12 pn + push_bit 2 i + KERNBASE"

lemma word_index_add:
  assumes "pn < 0x100000" "i < 0x400"
  shows "PGNUM (push_bit 12 pn + push_bit 2 i) = pn"
    and "drop_bit 2 (PGOFF (push_bit 12 pn + push_bit 2 i)) = i"
proof -
  have b: "n < 10" if "bit i n" for n using bit_less_exp [of i 10 n] assms(2) that by simp
  have c: "n < 20" if "bit pn n" for n using bit_less_exp [of pn 20 n] assms(1) that by simp
  have e: "push_bit 12 pn + push_bit 2 i = push_bit 12 pn OR push_bit 2 i"
    by (rule disjunctive_add_eq_or) (rule bit_word_eqI, auto simp: bit_simps dest: b)
  show "PGNUM (push_bit 12 pn + push_bit 2 i) = pn" unfolding e PGNUM_def
    by (rule bit_word_eqI) (auto simp: bit_simps dest: b c)
  show "drop_bit 2 (PGOFF (push_bit 12 pn + push_bit 2 i)) = i"
    unfolding e PGOFF_def u32_low_mask
    by (rule bit_word_eqI) (auto simp: bit_simps dest: b c)
qed

lemma load32_frame [simp]:
  "pn < 0x100000 \<Longrightarrow> i < 0x400 \<Longrightarrow> load32 s (frame_addr pn i) = pmem s pn i"
  by (simp add: load32_def frame_addr_def word_index_add Let_def)

lemma store32_frame [simp]:
  "pn < 0x100000 \<Longrightarrow> i < 0x400 \<Longrightarrow>
   pmem (store32 (frame_addr pn i) v s) = (pmem s)(pn := (pmem s pn)(i := v))"
  by (simp add: store32_def frame_addr_def word_index_add Let_def)

text \<open>Writing one byte of a word changes that byte and no other.\<close>

lemma byte_of_set_same: "byte_of (set_byte_of w a b) a = b"
  unfolding byte_of_def set_byte_of_def Let_def
proof (rule bit_word_eqI)
  fix n assume n: "n < LENGTH(8)"
  let ?j = "unat (a AND 3)"
  have "?j \<le> 3" using word_and_le1 [of a 3] by (simp add: word_le_nat_alt)
  hence m: "8 * ?j + n < 32" using n by simp
  have f: "(0xFF :: u32) = mask 8" by (simp add: mask_eq_exp_minus_1)
  show "bit (ucast (drop_bit (8 * ?j) (w AND NOT (push_bit (8 * ?j) 0xFF) OR
      push_bit (8 * ?j) (ucast b))) :: u8) n = bit b n"
    unfolding f using n m by (auto simp: bit_simps)
qed

end
