(* ===== verification/FreeList.thy ===== *)
theory FreeList
  imports Prelude
begin

text \<open>
  The contract of an allocator that keeps its free objects on a linked list and hands them
  out last-in first-out, and what follows from it for sequences of operations.  The page
  allocator of \<^verbatim>\<open>kern/pmap.c\<close> and the environment table of \<^verbatim>\<open>kern/env.c\<close> are its
  instances.
\<close>

locale lifo_allocator =
  fixes rep :: "'s \<Rightarrow> 'x list \<Rightarrow> bool"
    and take_one :: "'s \<Rightarrow> ('x \<times> 's) option"
    and give_back :: "'x \<Rightarrow> 's \<Rightarrow> 's option"
    and ready :: "'s \<Rightarrow> 'x \<Rightarrow> bool"
  assumes rep_distinct: "rep s xs \<Longrightarrow> distinct xs"
    and take_empty: "rep s [] \<Longrightarrow> take_one s = None"
    and take_cons: "rep s (x # xs) \<Longrightarrow> \<exists>t. take_one s = Some (x, t) \<and> rep t xs \<and> ready t x"
    and give_push: "rep s xs \<Longrightarrow> x \<notin> set xs \<Longrightarrow> ready s x \<Longrightarrow>
      \<exists>t. give_back x s = Some t \<and> rep t (x # xs)"
begin

fun take_many :: "nat \<Rightarrow> 's \<Rightarrow> ('x list \<times> 's) option" where
  "take_many 0 s = Some ([], s)"
| "take_many (Suc n) s = (case take_one s of None \<Rightarrow> None
     | Some (x, t) \<Rightarrow> (case take_many n t of None \<Rightarrow> None
         | Some (xs, u) \<Rightarrow> Some (x # xs, u)))"

lemma take_iff_nonempty: "rep s xs \<Longrightarrow> take_one s = None \<longleftrightarrow> xs = []"
  using take_cons take_empty by (cases xs) fastforce+

lemma take_many_enough:
  "rep s xs \<Longrightarrow> n \<le> length xs \<Longrightarrow> \<exists>t. take_many n s = Some (take n xs, t) \<and> rep t (drop n xs)"
proof (induction n arbitrary: s xs)
  case 0 thus ?case by simp
next
  case (Suc n)
  then obtain x ys where xs: "xs = x # ys" by (cases xs) auto
  obtain t where t: "take_one s = Some (x, t)" "rep t ys"
    using take_cons Suc.prems(1) xs by blast
  show ?case using Suc.IH [OF t(2)] Suc.prems(2) t(1) xs by auto
qed

lemma take_many_exhausted: "rep s xs \<Longrightarrow> length xs < n \<Longrightarrow> take_many n s = None"
proof (induction n arbitrary: s xs)
  case 0 thus ?case by simp
next
  case (Suc n)
  show ?case
  proof (cases xs)
    case Nil thus ?thesis using take_empty Suc.prems(1) by simp
  next
    case (Cons x ys)
    obtain t where "take_one s = Some (x, t)" "rep t ys"
      using take_cons Suc.prems(1) Cons by blast
    thus ?thesis using Suc.IH [of t ys] Suc.prems(2) Cons by simp
  qed
qed

lemma take_many_distinct:
  "rep s xs \<Longrightarrow> take_many n s = Some (ys, t) \<Longrightarrow> distinct ys \<and> set ys \<subseteq> set xs"
proof -
  assume r: "rep s xs" and m: "take_many n s = Some (ys, t)"
  have "n \<le> length xs" using take_many_exhausted [OF r, of n] m by (cases "n \<le> length xs") auto
  hence "ys = take n xs" using take_many_enough [OF r] m by fastforce
  thus ?thesis using rep_distinct [OF r] by (auto dest: in_set_takeD)
qed

lemma give_then_take:
  "rep s xs \<Longrightarrow> x \<notin> set xs \<Longrightarrow> ready s x \<Longrightarrow>
   \<exists>t u. give_back x s = Some t \<and> take_one t = Some (x, u) \<and> rep u xs"
  using give_push take_cons by meson

lemma take_then_give:
  assumes "rep s (x # xs)"
  shows "\<exists>t u. take_one s = Some (x, t) \<and> give_back x t = Some u \<and> rep u (x # xs)"
proof -
  obtain t where t: "take_one s = Some (x, t)" "rep t xs" "ready t x"
    using take_cons [OF assms] by blast
  have "x \<notin> set xs" using rep_distinct [OF assms] by simp
  thus ?thesis using give_push [OF t(2)] t by blast
qed

end

end
