(* ===== verification/Fifo.thy ===== *)
theory Fifo
  imports Prelude
begin

text \<open>
  The contract of a bounded first-in first-out buffer, shared by the console input buffer of
  \<^verbatim>\<open>kern/console.c\<close> and the pipes of \<^verbatim>\<open>lib/pipe.c\<close>: what goes in comes out in the same
  order, as long as the buffer is not overrun.  \<open>fits s xs\<close> is the number of elements that can still
  go in.
\<close>

locale fifo =
  fixes valid :: "'x \<Rightarrow> bool"
    and rep :: "'s \<Rightarrow> 'x list \<Rightarrow> bool"
    and fits :: "'s \<Rightarrow> 'x list \<Rightarrow> nat"
    and enq :: "'x \<Rightarrow> 's \<Rightarrow> 's"
    and deq :: "'s \<Rightarrow> ('x \<times> 's) option"
  assumes enq_rep: "valid x \<Longrightarrow> rep s xs \<Longrightarrow> 0 < fits s xs \<Longrightarrow> rep (enq x s) (xs @ [x])"
    and enq_fits: "valid x \<Longrightarrow> rep s xs \<Longrightarrow> 0 < fits s xs \<Longrightarrow> fits s xs \<le> Suc (fits (enq x s) (xs @ [x]))"
    and deq_empty: "rep s [] \<Longrightarrow> deq s = None"
    and deq_cons: "rep s (x # xs) \<Longrightarrow> \<exists>t. deq s = Some (x, t) \<and> rep t xs"
begin

definition enq_all :: "'x list \<Rightarrow> 's \<Rightarrow> 's" where
  "enq_all xs s = fold enq xs s"

fun deq_many :: "nat \<Rightarrow> 's \<Rightarrow> 'x list \<times> 's" where
  "deq_many 0 s = ([], s)"
| "deq_many (Suc n) s = (case deq s of None \<Rightarrow> ([], s)
     | Some (x, t) \<Rightarrow> (case deq_many n t of (xs, u) \<Rightarrow> (x # xs, u)))"

lemma enq_all_rep:
  "list_all valid ys \<Longrightarrow> rep s xs \<Longrightarrow> length ys \<le> fits s xs \<Longrightarrow> rep (enq_all ys s) (xs @ ys)"
proof (induction ys arbitrary: s xs)
  case Nil thus ?case by (simp add: enq_all_def)
next
  case (Cons y ys)
  have y: "valid y" "0 < fits s xs" using Cons.prems by auto
  have "length ys \<le> fits (enq y s) (xs @ [y])"
    using enq_fits [OF y(1) Cons.prems(2) y(2)] Cons.prems(3) by simp
  from Cons.IH [OF _ enq_rep [OF y(1) Cons.prems(2) y(2)] this] Cons.prems show ?case
    by (simp add: enq_all_def)
qed

lemma deq_many_rep:
  "rep s xs \<Longrightarrow> \<exists>t. deq_many n s = (take n xs, t) \<and> rep t (drop n xs)"
proof (induction n arbitrary: s xs)
  case 0 thus ?case by simp
next
  case (Suc n)
  show ?case
  proof (cases xs)
    case Nil thus ?thesis using deq_empty Suc.prems by simp
  next
    case (Cons x ys)
    obtain t where t: "deq s = Some (x, t)" "rep t ys" using deq_cons Suc.prems Cons by blast
    obtain u where "deq_many n t = (take n ys, u)" "rep u (drop n ys)" using Suc.IH [OF t(2)] by blast
    thus ?thesis using t Cons by simp
  qed
qed

lemma fifo_order:
  assumes "list_all valid ys" "rep s xs" "length ys \<le> fits s xs"
  shows "\<exists>t. deq_many (length xs + length ys) (enq_all ys s) = (xs @ ys, t) \<and> rep t []"
  using deq_many_rep [OF enq_all_rep [OF assms], of "length xs + length ys"] by simp

end

end
