(* ===== verification/PageAlloc.thy ===== *)
theory PageAlloc
  imports Kstate FreeList
begin

text \<open>
  Physical memory management of \<^verbatim>\<open>kern/pmap.c\<close>: memory detection, the boot-time
  allocator \<^verbatim>\<open>boot_alloc\<close>, \<^verbatim>\<open>page_init\<close> and the page allocator with its free list
  and reference counts.
\<close>

section \<open>Memory detection\<close>

definition NVRAM_BASELO :: u32 where [simp]: "NVRAM_BASELO = 0x15"
definition NVRAM_EXTLO :: u32 where [simp]: "NVRAM_EXTLO = 0x17"
definition NVRAM_EXT16LO :: u32 where [simp]: "NVRAM_EXT16LO = 0x34"

text \<open>\<open>cmos r\<close> is the byte the clock chip returns for register \<open>r\<close>
  (\<^verbatim>\<open>mc146818_read\<close>: two port accesses).\<close>

definition nvram_read :: "(u32 \<Rightarrow> u8) \<Rightarrow> u32 \<Rightarrow> u32" where
  "nvram_read cmos r = (ucast (cmos r) OR push_bit 8 (ucast (cmos (r + 1))))"

definition i386_detect_memory :: "(u32 \<Rightarrow> u8) \<Rightarrow> kst \<Rightarrow> kst" where
  "i386_detect_memory cmos s =
    (let basemem = nvram_read cmos NVRAM_BASELO;
         extmem = nvram_read cmos NVRAM_EXTLO;
         ext16mem = nvram_read cmos NVRAM_EXT16LO * 64;
         totalmem = (if ext16mem \<noteq> 0 then 16 * 1024 + ext16mem
                     else if extmem \<noteq> 0 then 1 * 1024 + extmem
                     else basemem)
     in s\<lparr>npages := totalmem div (PGSIZE div 1024),
          npages_basemem := basemem div (PGSIZE div 1024)\<rparr>)"

section \<open>The boot-time allocator\<close>

definition boot_alloc :: "u32 \<Rightarrow> kst \<Rightarrow> (u32, kst) kres" where
  "boot_alloc n s =
    (let s = (if nextfree s = 0 then s\<lparr>nextfree := ROUNDUP (end_sym s) PGSIZE\<rparr> else s);
         result = nextfree s
     in kbind (PADDR (nextfree s) s) (\<lambda>next_free_physical s.
          if npages s * PGSIZE \<le> next_free_physical
          then Panic ''boot_alloc: No hay suficiente memoria.''
          else if 0 < n
          then Done result (s\<lparr>nextfree := ROUNDUP (nextfree s + n) PGSIZE\<rparr>)
          else Done result s))"

section \<open>The free list of pages\<close>

definition page_init_step :: "u32 \<Rightarrow> u32 \<Rightarrow> u32 \<Rightarrow> kst \<Rightarrow> kst" where
  "page_init_step start_page_io end_page_kernel i s =
    (if start_page_io \<le> i \<and> i < end_page_kernel
     then upd_page i (\<lambda>p. p\<lparr>pp_ref := 1, pp_link := None\<rparr>) s
     else if i = MPENTRY_PADDR div PGSIZE
     then upd_page i (\<lambda>p. p\<lparr>pp_ref := 1, pp_link := None\<rparr>) s
     else (upd_page i (\<lambda>p. p\<lparr>pp_ref := 0, pp_link := page_free_list s\<rparr>) s)
            \<lparr>page_free_list := Some i\<rparr>)"

definition page_init :: "kst \<Rightarrow> (unit, kst) kres" where
  "page_init s =
    (let start_page_io = IOPHYSMEM div PGSIZE
     in kbind (boot_alloc 0 s) (\<lambda>k s. kbind (PADDR k s) (\<lambda>pa s.
          let end_page_kernel = pa div PGSIZE
          in Done () (fold (\<lambda>i. page_init_step start_page_io end_page_kernel (of_nat i))
                        [1..<unat (npages s)] s))))"

definition page_alloc :: "u32 \<Rightarrow> kst \<Rightarrow> (u32 option, kst) kres" where
  "page_alloc alloc_flags s =
    (case page_free_list s of
       None \<Rightarrow> Done None s
     | Some return_page \<Rightarrow>
         let s = s\<lparr>page_free_list := pp_link (pages s return_page)\<rparr>;
             s = upd_page return_page (\<lambda>p. p\<lparr>pp_link := None\<rparr>) s
         in if alloc_flags AND ALLOC_ZERO \<noteq> 0
            then kbind (page2kva return_page s) (\<lambda>kva s.
                   Done (Some return_page) (zero_page kva s))
            else Done (Some return_page) s)"

definition page_free :: "u32 \<Rightarrow> kst \<Rightarrow> (unit, kst) kres" where
  "page_free pp s =
    (if pp_ref (pages s pp) \<noteq> 0 then Panic ''page_free: pp->pp_ref no es cero''
     else if pp_link (pages s pp) \<noteq> None
     then Panic ''page_free: pp->pp_link es distinto de NULL''
     else Done () ((upd_page pp (\<lambda>p. p\<lparr>pp_link := page_free_list s\<rparr>) s)
                     \<lparr>page_free_list := Some pp\<rparr>))"

definition page_decref :: "u32 \<Rightarrow> kst \<Rightarrow> (unit, kst) kres" where
  "page_decref pp s =
    (let s = upd_page pp (\<lambda>p. p\<lparr>pp_ref := pp_ref p - 1\<rparr>) s
     in if pp_ref (pages s pp) = 0 then page_free pp s else Done () s)"

text \<open>\<open>page->pp_ref++\<close>\<close>

definition page_incref :: "u32 \<Rightarrow> kst \<Rightarrow> kst" where
  "page_incref pp s = upd_page pp (\<lambda>p. p\<lparr>pp_ref := pp_ref p + 1\<rparr>) s"

section \<open>The invariant of the allocator\<close>

text \<open>\<open>page_rep s fl\<close>: the free list visits exactly \<open>fl\<close>, in this order; free pages exist, are
  not page 0, and are unreferenced; a page that is not free has a NULL link.  A machine has at
  most 256 MB of memory mapped at \<open>KERNBASE\<close>.\<close>

definition page_rep :: "kst \<Rightarrow> u32 list \<Rightarrow> bool" where
  "page_rep s fl \<longleftrightarrow>
     chain (\<lambda>p. pp_link (pages s p)) (page_free_list s) fl \<and>
     (\<forall>p \<in> set fl. p \<noteq> 0 \<and> p < npages s \<and> pp_ref (pages s p) = 0) \<and>
     (\<forall>p. p < npages s \<longrightarrow> p \<notin> set fl \<longrightarrow> pp_link (pages s p) = None) \<and>
     npages s \<le> 0x10000"

definition page_take :: "u32 \<Rightarrow> kst \<Rightarrow> (u32 \<times> kst) option" where
  "page_take flags s = (case page_alloc flags s of Done (Some p) t \<Rightarrow> Some (p, t) | _ \<Rightarrow> None)"

definition page_give :: "u32 \<Rightarrow> kst \<Rightarrow> kst option" where
  "page_give p s = (case page_free p s of Done _ t \<Rightarrow> Some t | _ \<Rightarrow> None)"

definition page_ready :: "kst \<Rightarrow> u32 \<Rightarrow> bool" where
  "page_ready s p \<longleftrightarrow> p \<noteq> 0 \<and> p < npages s \<and> pp_ref (pages s p) = 0"

lemma page_rep_distinct: "page_rep s fl \<Longrightarrow> distinct fl"
  by (auto simp: page_rep_def dest: chain_distinct)

lemma page_rep_unique: "page_rep s fl \<Longrightarrow> page_rep s fl' \<Longrightarrow> fl = fl'"
  by (auto simp: page_rep_def dest: chain_unique)

lemma page_alloc_empty: "page_rep s [] \<Longrightarrow> page_alloc flags s = Done None s"
  by (simp add: page_rep_def page_alloc_def)

text \<open>What \<open>page_alloc\<close> does when the list is not empty: it never panics.\<close>

definition after_alloc :: "u32 \<Rightarrow> u32 \<Rightarrow> kst \<Rightarrow> kst" where
  "after_alloc flags p s =
    (let s' = upd_page p (\<lambda>q. q\<lparr>pp_link := None\<rparr>) (s\<lparr>page_free_list := pp_link (pages s p)\<rparr>)
     in if flags AND ALLOC_ZERO \<noteq> 0 then s'\<lparr>pmem := (pmem s)(p := \<lambda>_. 0)\<rparr> else s')"

lemma page_alloc_cons:
  assumes "page_rep s (p # fl)"
  shows "page_alloc flags s = Done (Some p) (after_alloc flags p s)"
proof -
  have p: "page_free_list s = Some p" "p < npages s" "npages s \<le> 0x10000"
    using assms by (auto simp: page_rep_def)
  have "p < 0x100000" using p(2,3) by (simp add: word_less_nat_alt word_le_nat_alt)
  hence k: "PGNUM (page2pa p) = p" by simp
  show ?thesis
    using p by (simp add: page_alloc_def after_alloc_def Let_def page2kva_def KADDR_def k
        zero_page_def not_le [symmetric])
qed

lemma after_alloc_rep:
  assumes "page_rep s (p # fl)"
  shows "page_rep (after_alloc flags p s) fl" and "page_ready (after_alloc flags p s) p"
proof -
  have d: "p \<notin> set fl" using page_rep_distinct [OF assms] by simp
  have c: "chain (\<lambda>q. pp_link (pages s q)) (pp_link (pages s p)) fl"
    using assms by (simp add: page_rep_def)
  have l: "chain (\<lambda>q. pp_link (pages (after_alloc flags p s) q)) (pp_link (pages s p)) fl"
    using c d by (subst chain_cong [where nxt' = "\<lambda>q. pp_link (pages s q)"])
      (auto simp: after_alloc_def Let_def pages_upd_page)
  show "page_rep (after_alloc flags p s) fl"
    using assms l d unfolding page_rep_def
    by (auto simp: after_alloc_def Let_def pages_upd_page)
  show "page_ready (after_alloc flags p s) p"
    using assms by (auto simp: page_ready_def page_rep_def after_alloc_def Let_def pages_upd_page)
qed

lemma page_free_ok:
  assumes "page_rep s fl" "p \<notin> set fl" "page_ready s p"
  shows "\<exists>t. page_free p s = Done () t \<and> page_rep t (p # fl) \<and> pmem t = pmem s"
proof -
  let ?t = "(upd_page p (\<lambda>q. q\<lparr>pp_link := page_free_list s\<rparr>) s)\<lparr>page_free_list := Some p\<rparr>"
  have lnk: "pp_link (pages s p) = None" using assms by (auto simp: page_rep_def page_ready_def)
  have f: "page_free p s = Done () ?t"
    using assms(3) lnk by (simp add: page_free_def page_ready_def)
  have c: "chain (\<lambda>q. pp_link (pages s q)) (page_free_list s) fl"
    using assms(1) by (simp add: page_rep_def)
  have "chain (\<lambda>q. pp_link (pages ?t q)) (page_free_list s) fl"
    using c assms(2) by (subst chain_cong [where nxt' = "\<lambda>q. pp_link (pages s q)"])
      (auto simp: pages_upd_page)
  hence "page_rep ?t (p # fl)"
    using assms unfolding page_rep_def page_ready_def by (auto simp: pages_upd_page)
  thus ?thesis using f by auto
qed

interpretation page_allocator: lifo_allocator page_rep "page_take flags" page_give page_ready
  for flags
proof unfold_locales
  fix s fl show "page_rep s fl \<Longrightarrow> distinct fl" by (rule page_rep_distinct)
next
  fix s show "page_rep s [] \<Longrightarrow> page_take flags s = None"
    by (simp add: page_take_def page_alloc_empty)
next
  fix s p fl assume "page_rep s (p # fl)"
  thus "\<exists>t. page_take flags s = Some (p, t) \<and> page_rep t fl \<and> page_ready t p"
    by (auto simp: page_take_def page_alloc_cons intro: after_alloc_rep)
next
  fix s fl p assume "page_rep s fl" "p \<notin> set fl" "page_ready s p"
  thus "\<exists>t. page_give p s = Some t \<and> page_rep t (p # fl)"
    using page_free_ok by (fastforce simp: page_give_def)
qed

section \<open>The boot-time allocator keeps its pointer aligned and only grows\<close>

lemma boot_alloc_first:
  "nextfree s = 0 \<Longrightarrow> boot_alloc n s = boot_alloc n (s\<lparr>nextfree := ROUNDUP (end_sym s) PGSIZE\<rparr>)"
  by (cases "ROUNDUP (end_sym s) PGSIZE = 0") (simp_all add: boot_alloc_def Let_def)

lemma boot_alloc_Done:
  assumes "nextfree s \<noteq> 0" "boot_alloc n s = Done r t"
  shows "r = nextfree s" "KERNBASE \<le> r" "r - KERNBASE < npages s * PGSIZE"
    "t = (if 0 < n then s\<lparr>nextfree := ROUNDUP (r + n) PGSIZE\<rparr> else s)"
  using assms by (auto simp: boot_alloc_def Let_def PADDR_def kbind_Done_iff not_less not_le
      split: if_splits)

text \<open>Consecutive boot allocations do not overlap.\<close>

lemma boot_alloc_disjoint:
  assumes "nextfree s \<noteq> 0" "boot_alloc n s = Done r t" "0 < n"
    and "unat r + unat n + 4095 < 2 ^ 32"
  shows "r + n \<le> nextfree t" "nextfree t \<noteq> 0" "unat PGSIZE dvd unat (nextfree t)"
proof -
  note b = boot_alloc_Done [OF assms(1,2)]
  have u: "unat (r + n) = unat r + unat n" using assms(4) by (simp add: unat_word_ariths)
  have m: "unat (r + n) + unat PGSIZE - 1 < 2 ^ 32" using assms(4) u by simp
  have t: "nextfree t = ROUNDUP (r + n) PGSIZE" using b(4) assms(3) by simp
  show "r + n \<le> nextfree t" "unat PGSIZE dvd unat (nextfree t)"
    unfolding t using ROUNDUP_least_multiple [OF _ m] by simp_all
  have "0 < unat (r + n)" using u assms(3) by (simp add: unat_gt_0 word_neq_0_conv)
  with \<open>r + n \<le> nextfree t\<close> show "nextfree t \<noteq> 0"
    by (auto simp: word_le_nat_alt)
qed

section \<open>\<^verbatim>\<open>page_init\<close> frees exactly the unreserved pages\<close>

definition boot_free :: "u32 \<Rightarrow> u32 \<Rightarrow> bool" where
  "boot_free k i \<longleftrightarrow> \<not> (0xA0 \<le> i \<and> i < k) \<and> i \<noteq> 7"

definition boot_list :: "u32 \<Rightarrow> nat \<Rightarrow> u32 list" where
  "boot_list k n = rev (filter (boot_free k) (map of_nat [1..<n]))"

lemma boot_list_Suc:
  "0 < n \<Longrightarrow> boot_list k (Suc n) =
     (if boot_free k (of_nat n) then of_nat n # boot_list k n else boot_list k n)"
  by (simp add: boot_list_def)

lemma set_boot_list:
  assumes "n \<le> 2 ^ 16"
  shows "set (boot_list k n) = {p. p \<noteq> 0 \<and> unat p < n \<and> boot_free k p}"
proof -
  have "p \<in> of_nat ` {1..<n}" if "p \<noteq> 0" "unat p < n" for p :: u32
  proof (rule image_eqI [where x = "unat p"])
    show "p = of_nat (unat p)" by simp
    show "unat p \<in> {1..<n}" using that by (simp add: Suc_le_eq unat_gt_0)
  qed
  moreover have "of_nat i \<noteq> (0 :: u32) \<and> unat (of_nat i :: u32) < n" if "1 \<le> i" "i < n" for i
  proof -
    have "unat (of_nat i :: u32) = i" using that assms by (simp add: unat_of_nat)
    thus ?thesis using that by (metis not_one_le_zero unat_0)
  qed
  ultimately show ?thesis unfolding boot_list_def by auto
qed

definition boot_inv :: "u32 \<Rightarrow> kst \<Rightarrow> nat \<Rightarrow> kst \<Rightarrow> bool" where
  "boot_inv k s n t \<longleftrightarrow>
     chain (\<lambda>p. pp_link (pages t p)) (page_free_list t) (boot_list k n) \<and>
     (\<forall>p. pp_ref (pages t p) = (if p = 0 \<or> n \<le> unat p then pp_ref (pages s p)
        else if boot_free k p then 0 else 1)) \<and>
     (\<forall>p. p \<noteq> 0 \<and> unat p < n \<and> boot_free k p \<or>
        pp_link (pages t p) = (if p = 0 \<or> n \<le> unat p then pp_link (pages s p) else None)) \<and>
     npages t = npages s \<and> pmem t = pmem s \<and> nextfree t = nextfree s"

lemma boot_inv_step:
  assumes inv: "boot_inv k s n t" and n: "0 < n" "n < 2 ^ 16"
  shows "boot_inv k s (Suc n) (page_init_step 0xA0 k (of_nat n) t)"
proof -
  let ?p = "of_nat n :: u32" and ?t = "page_init_step 0xA0 k (of_nat n) t"
  have u: "unat ?p = n" using n by (simp add: unat_of_nat)
  have p0: "?p \<noteq> 0" using u n(1) by (metis unat_0 less_irrefl)
  have ni: "?p \<notin> set (boot_list k n)" using n u by (simp add: set_boot_list)
  have eq: "q = ?p" if "unat q = n" for q :: u32 using that u by (metis word_unat_eq_iff)
  have pg: "q \<noteq> ?p \<Longrightarrow> pages ?t q = pages t q" for q
    by (simp add: page_init_step_def pages_upd_page)
  have c: "chain (\<lambda>p. pp_link (pages ?t p)) h (boot_list k n) =
           chain (\<lambda>p. pp_link (pages t p)) h (boot_list k n)" for h
    by (rule chain_cong) (metis ni pg)
  have ch: "chain (\<lambda>p. pp_link (pages ?t p)) (page_free_list ?t) (boot_list k (Suc n))"
  proof (cases "boot_free k ?p")
    case True
    hence "page_free_list ?t = Some ?p" "pp_link (pages ?t ?p) = page_free_list t"
      by (auto simp: page_init_step_def boot_free_def pages_upd_page)
    thus ?thesis using inv True n(1) by (simp add: boot_list_Suc c boot_inv_def)
  next
    case False
    hence "page_free_list ?t = page_free_list t"
      by (auto simp: page_init_step_def boot_free_def)
    thus ?thesis using inv False n(1) by (simp add: boot_list_Suc c boot_inv_def)
  qed
  have pp: "pp_ref (pages ?t ?p) = (if boot_free k ?p then 0 else 1)"
      "boot_free k ?p \<or> pp_link (pages ?t ?p) = None"
    by (auto simp: page_init_step_def boot_free_def pages_upd_page)
  have le: "Suc n \<le> unat q \<longleftrightarrow> n \<le> unat q" if "q \<noteq> ?p" for q :: u32
    using that eq [of q] by linarith
  have lt: "unat q < Suc n \<longleftrightarrow> unat q < n" if "q \<noteq> ?p" for q :: u32
    using that eq [of q] by linarith
  have "pp_ref (pages ?t q) = (if q = 0 \<or> Suc n \<le> unat q then pp_ref (pages s q)
        else if boot_free k q then 0 else 1)" for q
    using pp(1) p0 u pg [of q] le [of q] inv by (cases "q = ?p") (simp_all add: boot_inv_def)
  moreover have "q \<noteq> 0 \<and> unat q < Suc n \<and> boot_free k q \<or> pp_link (pages ?t q) =
      (if q = 0 \<or> Suc n \<le> unat q then pp_link (pages s q) else None)" for q
    using pp(2) p0 u pg [of q] le [of q] lt [of q] inv
    by (cases "q = ?p") (auto simp: boot_inv_def)
  moreover have "npages ?t = npages s" "pmem ?t = pmem s" "nextfree ?t = nextfree s"
    using inv by (simp_all add: page_init_step_def boot_inv_def) (simp_all add: upd_page_def)
  ultimately show ?thesis unfolding boot_inv_def using ch by blast
qed

lemma boot_inv_fold:
  assumes "page_free_list s = None" "0 < n" "n \<le> 2 ^ 16"
  shows "boot_inv k s n (fold (\<lambda>i. page_init_step 0xA0 k (of_nat i)) [1..<n] s)"
  using assms(2,3)
proof (induction n)
  case 0 thus ?case by simp
next
  case (Suc n)
  show ?case
  proof (cases "n = 0")
    case True
    thus ?thesis using assms(1)
      by (auto simp: boot_inv_def boot_list_def Suc_le_eq unat_gt_0)
  next
    case False
    thus ?thesis using Suc boot_inv_step by simp
  qed
qed

text \<open>The state in which \<^verbatim>\<open>mem_init\<close> calls \<open>page_init\<close>: the \<open>pages\<close> array is zeroed, the
  free list is empty and the boot allocator points below the end of memory.\<close>

definition boot_ready :: "kst \<Rightarrow> bool" where
  "boot_ready s \<longleftrightarrow> page_free_list s = None \<and> 0 < npages s \<and> npages s \<le> 0x10000 \<and>
     pages s 0 = \<lparr>pp_link = None, pp_ref = 0\<rparr> \<and>
     KERNBASE \<le> nextfree s \<and> nextfree s - KERNBASE < npages s * PGSIZE"

lemma page_init_spec:
  assumes "boot_ready s"
  defines "k \<equiv> (nextfree s - KERNBASE) div PGSIZE"
  shows "\<exists>t. page_init s = Done () t \<and> page_rep t (boot_list k (unat (npages s))) \<and>
           boot_inv k s (unat (npages s)) t"
proof -
  let ?n = "unat (npages s)"
  let ?t = "fold (\<lambda>i. page_init_step 0xA0 k (of_nat i)) [1..<?n] s"
  have n: "0 < ?n" "?n \<le> 2 ^ 16"
    using assms(1) by (auto simp: boot_ready_def word_less_nat_alt word_le_nat_alt)
  have nz: "nextfree s \<noteq> 0" "\<not> nextfree s < KERNBASE" "\<not> npages s * PGSIZE \<le> nextfree s - KERNBASE"
    using assms(1) by (auto simp: boot_ready_def)
  have "boot_alloc 0 s = Done (nextfree s) s"
    using nz by (simp add: boot_alloc_def Let_def PADDR_def)
  hence run: "page_init s = Done () ?t"
    using nz by (simp add: page_init_def Let_def PADDR_def k_def)
  have inv: "boot_inv k s ?n ?t"
    using boot_inv_fold n assms(1) by (simp add: boot_ready_def)
  have "page_rep ?t (boot_list k ?n)"
  proof -
    have np: "npages ?t = npages s" using inv by (simp add: boot_inv_def)
    have "p \<noteq> 0 \<and> p < npages ?t \<and> pp_ref (pages ?t p) = 0" if "p \<in> set (boot_list k ?n)" for p
    proof -
      have "p \<noteq> 0" "unat p < ?n" "boot_free k p" using that n(2) by (auto simp: set_boot_list)
      thus ?thesis using inv np by (simp add: word_less_nat_alt boot_inv_def)
    qed
    moreover have "pp_link (pages ?t p) = None" if "p < npages ?t" "p \<notin> set (boot_list k ?n)" for p
    proof -
      have "p = 0 \<or> unat p < ?n \<and> \<not> boot_free k p"
        using that n(2) np by (auto simp: set_boot_list word_less_nat_alt)
      moreover have "p \<noteq> 0 \<and> unat p < ?n \<and> boot_free k p \<or> pp_link (pages ?t p) =
          (if p = 0 \<or> ?n \<le> unat p then pp_link (pages s p) else None)"
        using inv unfolding boot_inv_def by blast
      ultimately show ?thesis using assms(1) by (auto simp: boot_ready_def split: if_splits)
    qed
    moreover have "chain (\<lambda>p. pp_link (pages ?t p)) (page_free_list ?t) (boot_list k ?n)"
      using inv by (simp only: boot_inv_def)
    moreover have "npages ?t \<le> 0x10000" using np assms(1) by (simp add: boot_ready_def)
    ultimately show ?thesis unfolding page_rep_def by blast
  qed
  thus ?thesis using run inv by blast
qed

section \<open>The allocator's self test\<close>

text \<open>Loops over the free list stop after \<open>npages + 1\<close> steps: a longer walk has met a page
  twice and would not end (\<open>None\<close>).\<close>

fun count_free :: "nat \<Rightarrow> (u32 \<Rightarrow> PageInfo) \<Rightarrow> u32 option \<Rightarrow> nat option" where
  "count_free fuel pgs None = Some 0"
| "count_free 0 pgs (Some p) = None"
| "count_free (Suc fuel) pgs (Some p) =
     (case count_free fuel pgs (pp_link (pgs p)) of None \<Rightarrow> None | Some n \<Rightarrow> Some (Suc n))"

definition walk_free :: "kst \<Rightarrow> (nat, kst) kres" where
  "walk_free s = (case count_free (Suc (unat (npages s))) (pages s) (page_free_list s) of
     None \<Rightarrow> NoReturn Spinning s | Some n \<Rightarrow> Done n s)"

text \<open>\<open>assert((pp = page_alloc(flags)))\<close>\<close>

definition alloc_or_die :: "u32 \<Rightarrow> kst \<Rightarrow> (u32, kst) kres" where
  "alloc_or_die flags s = kbind (page_alloc flags s) (\<lambda>r s.
     case r of None \<Rightarrow> Panic ''assertion failed: page_alloc'' | Some p \<Rightarrow> Done p s)"

definition fill_page :: "u32 \<Rightarrow> u32 \<Rightarrow> kst \<Rightarrow> kst" where
  "fill_page kva w s = s\<lparr>pmem := (pmem s)(PGNUM (kva - KERNBASE) := \<lambda>_. w)\<rparr>"

definition check_page_alloc :: "kst \<Rightarrow> (unit, kst) kres" where
  "check_page_alloc s =
    kbind (walk_free s) (\<lambda>nfree s.
    kbind (alloc_or_die 0 s) (\<lambda>pp0 s.
    kbind (alloc_or_die 0 s) (\<lambda>pp1 s.
    kbind (alloc_or_die 0 s) (\<lambda>pp2 s.
    kbind (kassert (pp1 \<noteq> pp0) ''pp1 && pp1 != pp0'' s) (\<lambda>_ s.
    kbind (kassert (pp2 \<noteq> pp1 \<and> pp2 \<noteq> pp0) ''pp2 && pp2 != pp1 && pp2 != pp0'' s) (\<lambda>_ s.
    kbind (kassert (page2pa pp0 < npages s * PGSIZE \<and> page2pa pp1 < npages s * PGSIZE \<and>
             page2pa pp2 < npages s * PGSIZE) ''page2pa(pp) < npages*PGSIZE'' s) (\<lambda>_ s.
    let fl = page_free_list s; s = s\<lparr>page_free_list := None\<rparr> in
    kbind (page_alloc 0 s) (\<lambda>r s.
    kbind (kassert (r = None) ''!page_alloc(0)'' s) (\<lambda>_ s.
    kbind (page_free pp0 s) (\<lambda>_ s.
    kbind (page_free pp1 s) (\<lambda>_ s.
    kbind (page_free pp2 s) (\<lambda>_ s.
    kbind (alloc_or_die 0 s) (\<lambda>pp0 s.
    kbind (alloc_or_die 0 s) (\<lambda>pp1 s.
    kbind (alloc_or_die 0 s) (\<lambda>pp2 s.
    kbind (kassert (pp1 \<noteq> pp0) ''pp1 && pp1 != pp0'' s) (\<lambda>_ s.
    kbind (kassert (pp2 \<noteq> pp1 \<and> pp2 \<noteq> pp0) ''pp2 && pp2 != pp1 && pp2 != pp0'' s) (\<lambda>_ s.
    kbind (page_alloc 0 s) (\<lambda>r s.
    kbind (kassert (r = None) ''!page_alloc(0)'' s) (\<lambda>_ s.
    kbind (page2kva pp0 s) (\<lambda>kva s.
    kbind (page_free pp0 (fill_page kva 0x01010101 s)) (\<lambda>_ s.
    kbind (alloc_or_die ALLOC_ZERO s) (\<lambda>pp s.
    kbind (kassert (pp0 = pp) ''pp && pp0 == pp'' s) (\<lambda>_ s.
    kbind (page2kva pp s) (\<lambda>c s.
    kbind (kassert (\<forall>i \<in> set [0..<1024].
             pmem s (PGNUM (c - KERNBASE)) (of_nat i) = 0) ''c[i] == 0'' s) (\<lambda>_ s.
    let s = s\<lparr>page_free_list := fl\<rparr> in
    kbind (page_free pp0 s) (\<lambda>_ s.
    kbind (page_free pp1 s) (\<lambda>_ s.
    kbind (page_free pp2 s) (\<lambda>_ s.
    kbind (walk_free s) (\<lambda>n s.
    kassert (n = nfree) ''nfree == 0'' s)))))))))))))))))))))))))))))"

lemma count_free_chain:
  "chain (\<lambda>p. pp_link (pgs p)) h fl \<Longrightarrow> length fl < n \<Longrightarrow> count_free n pgs h = Some (length fl)"
proof (induction fl arbitrary: h n)
  case Nil thus ?case by simp
next
  case (Cons x xs)
  then obtain m where "n = Suc m" by (cases n) auto
  thus ?case using Cons by auto
qed

lemma page_rep_length: "page_rep s fl \<Longrightarrow> length fl \<le> unat (npages s)"
proof -
  assume r: "page_rep s fl"
  have "unat ` set fl \<subseteq> {..<unat (npages s)}"
    using r by (auto simp: page_rep_def word_less_nat_alt)
  hence "card (unat ` set fl) \<le> unat (npages s)" by (metis card_lessThan card_mono finite_lessThan)
  moreover have "card (unat ` set fl) = length fl"
    using page_rep_distinct [OF r] by (simp add: card_image distinct_card inj_on_def word_unat_eq_iff)
  ultimately show ?thesis by simp
qed

lemma walk_free_rep: "page_rep s fl \<Longrightarrow> walk_free s = Done (length fl) s"
  using count_free_chain [of "pages s" "page_free_list s" fl "Suc (unat (npages s))"]
    page_rep_length [of s fl]
  by (simp add: walk_free_def page_rep_def)

lemma page_alloc_null: "page_free_list s = None \<Longrightarrow> page_alloc flags s = Done None s"
  by (simp add: page_alloc_def)

lemma page_alloc_head:
  assumes "page_free_list s = Some p" "p < npages s" "npages s \<le> 0x10000"
  shows "page_alloc flags s = Done (Some p) (after_alloc flags p s)"
proof -
  have "p < 0x100000" using assms(2,3) by (simp add: word_less_nat_alt word_le_nat_alt)
  hence k: "PGNUM (page2pa p) = p" by simp
  show ?thesis
    using assms by (simp add: page_alloc_def after_alloc_def Let_def page2kva_def KADDR_def k
        zero_page_def not_le [symmetric])
qed

lemma page2pa_bound:
  assumes "p < npages s" "npages s \<le> 0x10000"
  shows "page2pa p < npages s * PGSIZE"
proof -
  have n: "unat (npages s) \<le> 65536" using assms(2) by (simp add: word_le_nat_alt)
  have p: "unat p < unat (npages s)" using assms(1) by (simp add: word_less_nat_alt)
  have "unat (page2pa p) = unat p * 4096"
    using p n by (simp add: page2pa_def push_bit_eq_mult unat_word_ariths)
  moreover have "unat (npages s * PGSIZE) = unat (npages s) * 4096"
    using n by (simp add: unat_word_ariths)
  ultimately show ?thesis using p by (simp add: word_less_nat_alt)
qed

lemma check_page_alloc_passes:
  assumes r: "page_rep s (a # b # c # fl)"
  shows "\<exists>t. check_page_alloc s = Done () t \<and> page_rep t (a # b # c # fl)"
proof -
  have d: "a \<noteq> b" "a \<noteq> c" "b \<noteq> c" "a \<notin> set fl" "b \<notin> set fl" "c \<notin> set fl"
    using page_rep_distinct [OF r] by auto
  have p: "page_free_list s = Some a" "pp_link (pages s a) = Some b" "pp_link (pages s b) = Some c"
    "a < npages s" "b < npages s" "c < npages s" "npages s \<le> 0x10000"
    "pp_ref (pages s a) = 0" "pp_ref (pages s b) = 0" "pp_ref (pages s c) = 0"
    using r by (auto simp: page_rep_def)
  have k: "PGNUM (page2pa a) = a" "PGNUM (page2pa b) = b" "PGNUM (page2pa c) = c"
    using p(4-7) by (simp_all add: word_less_nat_alt word_le_nat_alt)
  have np: "\<not> npages s \<le> c" using p(6) by simp
  note b = np page2pa_bound [OF p(4,7)] page2pa_bound [OF p(5,7)] page2pa_bound [OF p(6,7)]
  let ?v = "s\<lparr>pmem := (pmem s)(c := \<lambda>_. 0), pages := (pages s)
      (b := (pages s b)\<lparr>pp_link := Some c\<rparr>, a := (pages s a)\<lparr>pp_link := Some b\<rparr>),
      page_free_list := Some a\<rparr>"
  have v: "page_free_list ?v = page_free_list s" "npages ?v = npages s"
    "pp_link (pages ?v q) = pp_link (pages s q)" "pp_ref (pages ?v q) = pp_ref (pages s q)" for q
    using p by simp_all
  have r': "page_rep ?v (a # b # c # fl)" using r unfolding page_rep_def v .
  note w = walk_free_rep [OF r] walk_free_rep [OF r']
  have "check_page_alloc s = Done () ?v"
    using p d b k by (simp add: check_page_alloc_def w alloc_or_die_def page_alloc_head
      page_alloc_null after_alloc_def Let_def page_free_def upd_page_def page2kva_def
      KADDR_def fill_page_def)
  thus ?thesis using r' by blast
qed


section \<open>Properties\<close>

text \<open>A machine with 8 MB of memory whose kernel ends at 2 MB, as \<^verbatim>\<open>page_init\<close> finds it.\<close>

definition demo_boot :: kst where
  "demo_boot = bss_kst\<lparr>npages := 0x800, npages_basemem := 0xA0, nextfree := 0xF0200000\<rparr>"

lemma demo_boot_ready: "boot_ready demo_boot"
  by (simp add: boot_ready_def demo_boot_def bss_kst_def)

lemma unat_set_boot_list:
  "npages s \<le> 0x10000 \<Longrightarrow> set (boot_list k (unat (npages s))) =
     {p. p \<noteq> 0 \<and> p < npages s \<and> p \<noteq> 7 \<and> \<not> (0xA0 \<le> p \<and> p < k)}"
  by (auto simp: set_boot_list word_le_nat_alt word_less_nat_alt boot_free_def)

text \<open>C6: \<^verbatim>\<open>page_init\<close> puts on the free list exactly the pages that are not page 0, not the
  entry code of the other processors, and not between the I/O hole and the first page after
  the boot allocations; every reserved page other than page 0 gets reference count 1.\<close>

theorem page_init_frees_unreserved:
  assumes "boot_ready s"
  shows "\<exists>t fl. page_init s = Done () t \<and> page_rep t fl \<and>
    set fl = {p. p \<noteq> 0 \<and> p < npages s \<and> p \<noteq> MPENTRY_PADDR div PGSIZE \<and>
      \<not> (IOPHYSMEM div PGSIZE \<le> p \<and> p < (nextfree s - KERNBASE) div PGSIZE)} \<and>
    (\<forall>p. p \<noteq> 0 \<and> p < npages s \<and> p \<notin> set fl \<longrightarrow> pp_ref (pages t p) = 1)"
proof -
  let ?k = "(nextfree s - KERNBASE) div PGSIZE" and ?n = "unat (npages s)"
  obtain t where t: "page_init s = Done () t" "page_rep t (boot_list ?k ?n)" "boot_inv ?k s ?n t"
    using page_init_spec [OF assms] by blast
  have n: "npages s \<le> 0x10000" using assms by (simp add: boot_ready_def)
  note fl = unat_set_boot_list [OF n, of ?k]
  have "pp_ref (pages t p) = 1" if "p \<noteq> 0" "p < npages s" "p \<notin> set (boot_list ?k ?n)" for p
  proof -
    have "\<not> boot_free ?k p" using that unfolding fl by (auto simp: boot_free_def)
    moreover have "\<not> ?n \<le> unat p" using that(2) by (simp add: word_less_nat_alt)
    ultimately show ?thesis using t(3) that(1) by (simp add: boot_inv_def)
  qed
  thus ?thesis using t(1,2) fl by (intro exI [of _ t] exI [of _ "boot_list ?k ?n"]) auto
qed

theorem page_init_frees_unreserved_witness:
  "\<exists>t fl. page_init demo_boot = Done () t \<and> page_rep t fl \<and>
     0x200 \<in> set fl \<and> 7 \<notin> set fl \<and> 0x1FF \<notin> set fl \<and> pp_ref (pages t 0x1FF) = 1"
proof -
  obtain t fl where t: "page_init demo_boot = Done () t" "page_rep t fl"
    and fl: "set fl = {p. p \<noteq> 0 \<and> p < 0x800 \<and> p \<noteq> 7 \<and> \<not> (0xA0 \<le> p \<and> p < 0x200)}"
    and r: "\<forall>p. p \<noteq> 0 \<and> p < 0x800 \<and> p \<notin> set fl \<longrightarrow> pp_ref (pages t p) = 1"
    using page_init_frees_unreserved [OF demo_boot_ready] by (simp add: demo_boot_def) blast
  have "pp_ref (pages t 0x1FF) = 1" using r fl by simp
  thus ?thesis using t fl by (intro exI [of _ t] exI [of _ fl]) simp
qed

text \<open>\<^verbatim>\<open>page_alloc\<close> hands out the head of the free list or NULL when there is none, never
  panics, clears the page when asked to and touches no other page; \<^verbatim>\<open>page_free\<close> of the page
  puts it back as the next one to be handed out.\<close>

theorem page_alloc_then_free:
  assumes "page_rep s fl"
  shows "case fl of
      [] \<Rightarrow> page_alloc flags s = Done None s
    | p # fl' \<Rightarrow> \<exists>t u. page_alloc flags s = Done (Some p) t \<and> page_rep t fl' \<and> p \<notin> set fl' \<and>
        (\<forall>i. pmem t p i = (if flags AND ALLOC_ZERO \<noteq> 0 then 0 else pmem s p i)) \<and>
        (\<forall>q. q \<noteq> p \<longrightarrow> pmem t q = pmem s q) \<and>
        page_free p t = Done () u \<and> page_rep u fl"
proof (cases fl)
  case Nil thus ?thesis using assms page_alloc_empty by simp
next
  case (Cons p fl')
  let ?t = "after_alloc flags p s"
  have r: "page_rep s (p # fl')" using assms Cons by simp
  have d: "p \<notin> set fl'" using page_rep_distinct [OF r] by simp
  obtain u where "page_free p ?t = Done () u" "page_rep u (p # fl')"
    using page_free_ok [OF after_alloc_rep(1) [OF r] d after_alloc_rep(2) [OF r]] by blast
  thus ?thesis using page_alloc_cons [OF r] after_alloc_rep(1) [OF r] d Cons
    by (auto simp: after_alloc_def Let_def)
qed

text \<open>A kernel state with three free pages, 3, 5 and 6 in this order.\<close>

definition demo_pages :: kst where
  "demo_pages = bss_kst\<lparr>npages := 8, page_free_list := Some 3,
     pages := (\<lambda>_. \<lparr>pp_link = None, pp_ref = 1\<rparr>)
       (3 := \<lparr>pp_link = Some 5, pp_ref = 0\<rparr>, 5 := \<lparr>pp_link = Some 6, pp_ref = 0\<rparr>,
        6 := \<lparr>pp_link = None, pp_ref = 0\<rparr>)\<rparr>"

lemma demo_pages_rep: "page_rep demo_pages [3, 5, 6]"
  by (simp add: page_rep_def demo_pages_def bss_kst_def)

theorem page_alloc_then_free_witness:
  "\<exists>t u. page_alloc 1 demo_pages = Done (Some 3) t \<and> page_rep t [5, 6] \<and>
     page_free 3 t = Done () u \<and> page_rep u [3, 5, 6]"
  using page_alloc_then_free [OF demo_pages_rep, of 1] by auto

text \<open>the allocator serves exactly as many requests as there are free pages, each with a
  different page.\<close>

theorem page_alloc_exhausts:
  assumes "page_rep s fl"
  shows "lifo_allocator.take_many (page_take flags) n s = None \<and> length fl < n \<or>
    n \<le> length fl \<and> distinct (take n fl) \<and>
    (\<exists>t. lifo_allocator.take_many (page_take flags) n s = Some (take n fl, t)
      \<and> page_rep t (drop n fl))"
  using page_allocator.take_many_enough [OF assms] page_allocator.take_many_exhausted [OF assms]
    page_rep_distinct [OF assms] by (cases "n \<le> length fl") auto

theorem page_alloc_exhausts_witness:
  "lifo_allocator.take_many (page_take 0) 4 demo_pages = None \<and>
   (\<exists>t. lifo_allocator.take_many (page_take 0) 2 demo_pages = Some ([3, 5], t) \<and> page_rep t [6])"
  using page_alloc_exhausts [OF demo_pages_rep, of 0 2]
    page_alloc_exhausts [OF demo_pages_rep, of 0 4] by auto

text \<open>The check against double frees catches every page of the free list except the last one,
  whose link is NULL: freeing that one again closes the list into a cycle.\<close>

theorem page_free_twice:
  assumes "page_rep s fl" "p \<in> set fl"
  shows "(p \<noteq> last fl \<longrightarrow>
      page_free p s = Panic ''page_free: pp->pp_link es distinto de NULL'') \<and>
    (p = last fl \<longrightarrow> (\<exists>t. page_free p s = Done () t \<and> (\<forall>xs. \<not> page_rep t xs)))"
proof -
  let ?t = "(upd_page p (\<lambda>q. q\<lparr>pp_link := page_free_list s\<rparr>) s)\<lparr>page_free_list := Some p\<rparr>"
  have c: "chain (\<lambda>q. pp_link (pages s q)) (page_free_list s) fl" and z: "pp_ref (pages s p) = 0"
    using assms by (auto simp: page_rep_def)
  have l: "pp_link (pages s p) = None \<longleftrightarrow> p = last fl"
    by (rule chain_next_None_iff [OF c assms(2)])
  have f: "page_free p s = (if p = last fl then Done () ?t
      else Panic ''page_free: pp->pp_link es distinto de NULL'')"
    using l z by (simp add: page_free_def)
  have "\<not> page_rep ?t xs" if "p = last fl" for xs
  proof -
    have "fl \<noteq> []" using assms(2) by auto
    hence "fl = butlast fl @ [p]" using that by simp
    hence "chain (\<lambda>q. pp_link (pages s q)) (page_free_list s) (butlast fl @ [p])" using c by simp
    hence "\<not> chain ((\<lambda>q. pp_link (pages s q))(p := page_free_list s)) (Some p) xs"
      by (rule chain_cycle)
    moreover have "(\<lambda>q. pp_link (pages ?t q)) = (\<lambda>q. pp_link (pages s q))(p := page_free_list s)"
      by (auto simp: fun_eq_iff pages_upd_page)
    ultimately show ?thesis by (simp add: page_rep_def)
  qed
  thus ?thesis using f by auto
qed

theorem page_free_twice_witness:
  "page_free 5 demo_pages = Panic ''page_free: pp->pp_link es distinto de NULL'' \<and>
   (\<exists>t. page_free 6 demo_pages = Done () t \<and> (\<forall>xs. \<not> page_rep t xs))"
proof -
  have "5 \<in> set [3, 5, 6 :: u32]" "5 \<noteq> last [3, 5, 6 :: u32]" by simp_all
  note five = page_free_twice [OF demo_pages_rep this(1)] this(2)
  have "6 \<in> set [3, 5, 6 :: u32]" "6 = last [3, 5, 6 :: u32]" by simp_all
  note six = page_free_twice [OF demo_pages_rep this(1)] this(2)
  show ?thesis using five six by blast
qed
text \<open>The self test of the page allocator passes whenever three pages are free, and gives
  the allocator back with the free list it started from.\<close>

theorem check_page_alloc_restores:
  assumes "page_rep s fl" "3 \<le> length fl"
  shows "\<exists>t. check_page_alloc s = Done () t \<and> page_rep t fl"
proof -
  obtain a b c fl' where "fl = a # b # c # fl'"
    using assms(2) by (auto simp: numeral_3_eq_3 Suc_le_length_iff)
  thus ?thesis using check_page_alloc_passes assms(1) by blast
qed

theorem check_page_alloc_restores_witness:
  "\<exists>t. check_page_alloc demo_pages = Done () t \<and> page_rep t [3, 5, 6]"
  using check_page_alloc_restores [OF demo_pages_rep] by simp

end
