(* ===== verification/VmSpec.thy ===== *)
theory VmSpec imports Vm begin

text \<open>
  What the page-table operations promise: \<open>page_insert\<close>, \<open>page_remove\<close> and
  \<open>page_lookup\<close> as operations on the address space \<open>vmap\<close>, with the reference counts
  they keep, and the range check of \<open>user_mem_check\<close>.
\<close>

section \<open>Reference counts\<close>

text \<open>The user pages of an address space that map the frame \<open>p\<close>.\<close>

definition maps :: "kst \<Rightarrow> u32 \<Rightarrow> u32 \<Rightarrow> u32 set" where
  "maps s pgdir p = {PGNUM va | va. va < UTOP \<and> vmap s pgdir va AND PTE_P \<noteq> 0 \<and>
     PGNUM (vmap s pgdir va) = p}"

text \<open>\<open>rc_inv s pgdir k\<close>: every frame is counted at least once for each user page of this
  address space that maps it and for each of the \<open>k\<close> references held elsewhere.\<close>

definition rc_inv :: "kst \<Rightarrow> u32 \<Rightarrow> (u32 \<Rightarrow> nat) \<Rightarrow> bool" where
  "rc_inv s pgdir k \<longleftrightarrow> (\<forall>p. card (maps s pgdir p) + k p \<le> unat (pp_ref (pages s p)))"

text \<open>\<open>t\<close> differs from \<open>s\<close> in the allocator's bookkeeping only.\<close>

definition pages_only :: "kst \<Rightarrow> kst \<Rightarrow> bool" where
  "pages_only s t \<longleftrightarrow> (\<exists>pg l. t = s\<lparr>pages := pg, page_free_list := l\<rparr>)"

lemma pages_onlyD:
  assumes "pages_only s t"
  shows "pmem t = pmem s" "npages t = npages s" "envs t = envs s" "curenv t = curenv s"
    "kern_pgdir t = kern_pgdir s" "env_free_list t = env_free_list s" "cpus t = cpus s"
    "cpunum t = cpunum s"
  using assms by (auto simp: pages_only_def curenv_def)

lemma pages_only_upd_page: "pages_only s (upd_page p f s)"
  unfolding pages_only_def upd_page_def
  by (rule exI [of _ "(pages s)(p := f (pages s p))"], rule exI [of _ "page_free_list s"]) simp

lemma page_decref_ok:
  assumes rep: "page_rep s fl" and p: "p \<notin> set fl" "p \<noteq> 0" "p < npages s"
  shows "\<exists>t. page_decref p s = Done () t \<and> pages_only s t \<and>
    page_rep t (if pp_ref (pages s p) = 1 then p # fl else fl) \<and>
    (\<forall>q. pp_ref (pages t q) = (if q = p then pp_ref (pages s p) - 1 else pp_ref (pages s q)))"
proof -
  let ?s = "upd_page p (\<lambda>q. q\<lparr>pp_ref := pp_ref q - 1\<rparr>) s"
  have "pp_link (pages ?s q) = pp_link (pages s q)" for q by (simp add: pages_upd_page)
  hence rep': "page_rep ?s fl"
    using rep p(1) unfolding page_rep_def by (auto simp: pages_upd_page)
  have ref: "pp_ref (pages ?s q) = (if q = p then pp_ref (pages s p) - 1 else pp_ref (pages s q))"
    for q by (simp add: pages_upd_page)
  have one: "pp_ref (pages s p) - 1 = 0 \<longleftrightarrow> pp_ref (pages s p) = 1" by simp
  show ?thesis
  proof (cases "pp_ref (pages s p) = 1")
    case False
    thus ?thesis using rep' ref one pages_only_upd_page [of s p]
      by (auto simp: page_decref_def Let_def)
  next
    case True
    have l: "pp_link (pages ?s p) = None" using rep' p by (auto simp: page_rep_def)
    let ?t = "(upd_page p (\<lambda>q. q\<lparr>pp_link := page_free_list ?s\<rparr>) ?s)\<lparr>page_free_list := Some p\<rparr>"
    have f: "page_decref p s = Done () ?t"
      using True l ref by (simp add: page_decref_def Let_def page_free_def)
    have "page_ready ?s p" using p True by (simp add: page_ready_def ref)
    then obtain t where t: "page_free p ?s = Done () t" "page_rep t (p # fl)"
      using page_free_ok [OF rep' p(1)] by blast
    have "t = ?t" using t(1) l ref True by (simp add: page_free_def)
    moreover have "pages_only s ?t"
      unfolding pages_only_def upd_page_def
      by (rule exI [of _ "pages ?t"], rule exI [of _ "Some p"]) (simp add: upd_page_def)
    moreover have "pp_ref (pages ?t q) = (if q = p then pp_ref (pages s p) - 1 else pp_ref (pages s q))"
      for q by (simp add: pages_upd_page)
    ultimately show ?thesis using f t(2) True by auto
  qed
qed

section \<open>The address space depends on memory only\<close>

lemma vmap_pmem: "pmem t = pmem s \<Longrightarrow> vmap t pgdir = vmap s pgdir"
  and pt_frame_pmem: "pmem t = pmem s \<Longrightarrow> pt_frame t pgdir = pt_frame s pgdir"
  by (simp_all add: vmap_def pt_frame_def fun_eq_iff)

lemma page_ok_mono:
  "page_ok s pgdir fl q \<Longrightarrow> pmem t = pmem s \<Longrightarrow> npages t = npages s \<Longrightarrow> q \<notin> set fl' \<Longrightarrow>
   page_ok t pgdir fl' q"
  by (simp add: page_ok_def pt_frame_pmem [of t s])

lemma vm_wf_mono:
  "vm_wf s pgdir fl \<Longrightarrow> pmem t = pmem s \<Longrightarrow> npages t = npages s \<Longrightarrow> set fl' \<subseteq> set fl \<Longrightarrow>
   vm_wf t pgdir fl'"
  by (auto simp: vm_wf_def page_ok_def pt_frame_pmem [of t s] vmap_pmem [of t s])

lemma vm_wf_push:
  assumes "vm_wf s pgdir fl" "pmem t = pmem s" "npages t = npages s"
    and "page_ok s pgdir fl p" "maps s pgdir p = {}"
  shows "vm_wf t pgdir (p # fl)"
proof -
  have "PGNUM (vmap s pgdir va) \<noteq> p" if "va < UTOP" "vmap s pgdir va AND PTE_P \<noteq> 0" for va
    using assms(5) that by (auto simp: maps_def)
  thus ?thesis using assms unfolding vm_wf_def page_ok_def
    by (auto simp: pt_frame_pmem [OF assms(2)] vmap_pmem [OF assms(2)])
qed

lemma maps_put_pte:
  assumes "vm_wf s pgdir fl" "va < UTOP" "pt_frame s pgdir (PDX va) \<noteq> 0"
  shows "maps (put_pte pgdir va v s) pgdir p =
    (maps s pgdir p - {PGNUM va}) \<union> (if v AND PTE_P \<noteq> 0 \<and> PGNUM v = p then {PGNUM va} else {})"
  using assms(2) by (auto simp: maps_def put_pte_vmap [OF assms])

lemma maps_pmem: "pmem t = pmem s \<Longrightarrow> maps t pgdir = maps s pgdir"
  by (rule ext) (simp add: maps_def vmap_pmem [of t s])

lemma maps_finite [simp]: "finite (maps s pgdir p)"
  by (rule finite)

section \<open>Lookup\<close>

lemma page_lookup_no_table:
  "vm_wf s pgdir fl \<Longrightarrow> pt_frame s pgdir (PDX va) = 0 \<Longrightarrow> page_lookup pgdir va s = Done None s"
  by (simp add: page_lookup_def walk_no_table)

lemma page_lookup_table:
  assumes "vm_wf s pgdir fl" "va < UTOP" "pt_frame s pgdir (PDX va) \<noteq> 0"
    and "PGNUM (vmap s pgdir va) < npages s"
  shows "page_lookup pgdir va s = Done (Some (PGNUM (vmap s pgdir va), pte_addr s pgdir va)) s"
proof -
  have "PGNUM (PTE_ADDR (vmap s pgdir va)) = PGNUM (vmap s pgdir va)"
    using PGNUM_less [of "vmap s pgdir va"] by (simp add: PTE_ADDR_PGNUM PGNUM_def)
  thus ?thesis using assms load_pte [OF assms(1-3)] walk_table [OF assms(1-3)]
    by (simp add: page_lookup_def pa2page_def not_le [symmetric])
qed

section \<open>Removal\<close>

lemma tlb_invalidate_other [simp]:
  "pmem (tlb_invalidate g va s) = pmem s" "npages (tlb_invalidate g va s) = npages s"
  "pages (tlb_invalidate g va s) = pages s" "page_free_list (tlb_invalidate g va s) = page_free_list s"
  "envs (tlb_invalidate g va s) = envs s" "curenv (tlb_invalidate g va s) = curenv s"
  "kern_pgdir (tlb_invalidate g va s) = kern_pgdir s" "cpus (tlb_invalidate g va s) = cpus s"
  "env_free_list (tlb_invalidate g va s) = env_free_list s"
  "cpunum (tlb_invalidate g va s) = cpunum s"
  "page_rep (tlb_invalidate g va s) fl = page_rep s fl"
  by (simp_all add: tlb_invalidate_def curenv_def page_rep_def split: option.splits)

lemma page_remove_table:
  assumes "vm_wf s pgdir fl" "va < UTOP" "pt_frame s pgdir (PDX va) \<noteq> 0"
    and "PGNUM (vmap s pgdir va) < npages s"
  shows "page_remove pgdir va s =
    kbind (page_decref (PGNUM (vmap s pgdir va)) (put_pte pgdir va 0 s))
      (\<lambda>_ s. Done () (tlb_invalidate pgdir va s))"
  using page_lookup_table [OF assms] walk_table [OF assms(1-3)] load_pte [OF assms(1-3)]
  by (simp add: page_remove_def put_pte_def Let_def)

lemma page_remove_no_table:
  "vm_wf s pgdir fl \<Longrightarrow> pt_frame s pgdir (PDX va) = 0 \<Longrightarrow> page_remove pgdir va s = Done () s"
  by (simp add: page_remove_def page_lookup_no_table)

lemma present_table: "vmap s pgdir va AND PTE_P \<noteq> 0 \<Longrightarrow> pt_frame s pgdir (PDX va) \<noteq> 0"
  by (auto simp: vmap_def)

text \<open>Removing a present mapping.\<close>

lemma page_remove_present:
  assumes wf: "vm_wf s pgdir fl" and rep: "page_rep s fl" and rc: "rc_inv s pgdir k"
    and va: "va < UTOP" and P: "vmap s pgdir va AND PTE_P \<noteq> 0"
  defines "p \<equiv> PGNUM (vmap s pgdir va)"
  shows "\<exists>t fl'. page_remove pgdir va s = Done () t \<and>
    fl' = (if pp_ref (pages s p) = 1 then p # fl else fl) \<and>
    page_rep t fl' \<and> vm_wf t pgdir fl' \<and> rc_inv t pgdir k \<and>
    (\<forall>a < UTOP. vmap t pgdir a = (if PGNUM a = PGNUM va then 0 else vmap s pgdir a)) \<and>
    (\<forall>q. pp_ref (pages t q) = (if q = p then pp_ref (pages s p) - 1 else pp_ref (pages s q))) \<and>
    (\<forall>d. pt_frame t pgdir d = pt_frame s pgdir d) \<and>
    (\<forall>f. f \<noteq> pt_frame s pgdir (PDX va) \<longrightarrow> pmem t f = pmem s f) \<and>
    (\<forall>f. f \<notin> vm_frames s pgdir \<longrightarrow> pmem t f = pmem s f) \<and>
    npages t = npages s \<and> envs t = envs s \<and> curenv t = curenv s"
proof -
  have pt: "pt_frame s pgdir (PDX va) \<noteq> 0" by (rule present_table [OF P])
  have ok: "page_ok s pgdir fl p" unfolding p_def by (rule vm_wf_mapped [OF wf va P])
  let ?u = "put_pte pgdir va 0 s"
  let ?fl = "if pp_ref (pages s p) = 1 then p # fl else fl"
  have "page_rep ?u fl" using rep by simp
  then obtain t where t: "page_decref p ?u = Done () t" "pages_only ?u t" "page_rep t ?fl"
    "\<forall>q. pp_ref (pages t q) = (if q = p then pp_ref (pages s p) - 1 else pp_ref (pages s q))"
    using page_decref_ok [of ?u fl p] ok by (auto simp: page_ok_def)
  note po = pages_onlyD [OF t(2)]
  have uwf: "vm_wf ?u pgdir fl" by (rule put_pte_wf [OF wf va pt]) simp
  have mu: "maps ?u pgdir q = maps s pgdir q - {PGNUM va}" for q
    by (simp add: maps_put_pte [OF wf va pt])
  have inp: "PGNUM va \<in> maps s pgdir p" using va P by (auto simp: maps_def p_def)
  have card: "card (maps ?u pgdir p) + 1 = card (maps s pgdir p)"
    using card_Suc_Diff1 [OF maps_finite inp] mu by simp
  have rcp: "card (maps s pgdir p) + k p \<le> unat (pp_ref (pages s p))" using rc by (simp add: rc_inv_def)
  have ge1: "1 \<le> unat (pp_ref (pages s p))" using card rcp by linarith
  hence dec: "unat (pp_ref (pages s p) - 1) = unat (pp_ref (pages s p)) - 1"
    by (metis not_one_le_zero unat_0 unat_minus_one)
  have twf: "vm_wf t pgdir ?fl"
  proof (cases "pp_ref (pages s p) = 1")
    case True
    have "unat (pp_ref (pages s p)) = 1" using True by simp
    hence "card (maps ?u pgdir p) = 0" using card rcp by linarith
    hence "maps ?u pgdir p = {}" by simp
    moreover have "page_ok ?u pgdir fl p" using ok put_pte_pt [OF wf va pt] by (simp add: page_ok_def)
    ultimately show ?thesis using vm_wf_push [OF uwf po(1,2)] True by simp
  next
    case False thus ?thesis using vm_wf_mono [OF uwf po(1,2)] by simp
  qed
  have "card (maps t pgdir q) + k q \<le> unat (pp_ref (pages t q))" for q
  proof (cases "q = p")
    case True
    thus ?thesis using card rcp dec t(4) maps_pmem [OF po(1)] by simp
  next
    case False
    have "card (maps ?u pgdir q) \<le> card (maps s pgdir q)" unfolding mu by (rule card_mono) auto
    moreover have "card (maps s pgdir q) + k q \<le> unat (pp_ref (pages s q))" using rc by (simp add: rc_inv_def)
    ultimately show ?thesis using False t(4) maps_pmem [OF po(1)] by simp
  qed
  hence trc: "rc_inv t pgdir k" by (simp add: rc_inv_def)
  let ?t = "tlb_invalidate pgdir va t"
  have run: "page_remove pgdir va s = Done () ?t"
    using page_remove_table [OF wf va pt] ok t(1) by (simp add: p_def page_ok_def)
  have fr0: "pmem t f = pmem s f" if "f \<noteq> pt_frame s pgdir (PDX va)" for f
    using that put_pte_pmem [OF wf va pt] po(1) by simp
  have fr: "pmem t f = pmem s f" if "f \<notin> vm_frames s pgdir" for f
    using that fr0 [of f] PDX_user [OF va] pt by (auto simp: vm_frames_def)
  have tp: "pmem ?t = pmem t" by simp
  show ?thesis
  proof (intro exI [of _ ?t] exI [of _ ?fl] conjI)
    show "vm_wf ?t pgdir ?fl" using vm_wf_mono [OF twf tp] by simp
    show "rc_inv ?t pgdir k" using trc by (simp add: rc_inv_def maps_pmem [OF tp])
  qed (use run t po fr fr0 in \<open>auto simp: vmap_pmem [OF tp] vmap_pmem [OF po(1)] pt_frame_pmem [OF tp]
      pt_frame_pmem [OF po(1)] put_pte_vmap [OF wf va pt] put_pte_pt [OF wf va pt]\<close>)
qed

section \<open>Insertion\<close>

text \<open>What an insertion at \<open>va\<close> does to the page tables: it takes at most one free page, for a table where
  there was none, and enters it with all permissions.\<close>

definition tables_step :: "kst \<Rightarrow> u32 \<Rightarrow> u32 \<Rightarrow> u32 list \<Rightarrow> kst \<Rightarrow> u32 list \<Rightarrow> bool" where
  "tables_step s pgdir va fl t fl' \<longleftrightarrow>
     (\<forall>d < 0x400. d \<noteq> PDX va \<or> pt_frame s pgdir (PDX va) \<noteq> 0 \<longrightarrow> pt_frame t pgdir d = pt_frame s pgdir d) \<and>
     pt_frame t pgdir (PDX va) \<noteq> 0 \<and>
     (if pt_frame s pgdir (PDX va) = 0
      then pt_frame t pgdir (PDX va) \<in> set fl \<and> length fl \<le> Suc (length fl') \<and>
        pmem t (pd_frame pgdir) = (pmem s (pd_frame pgdir))(PDX va := page2pa (pt_frame t pgdir (PDX va)) OR 7)
      else length fl \<le> length fl' \<and> pmem t (pd_frame pgdir) = pmem s (pd_frame pgdir))"

text \<open>After the walk with \<open>create\<close> there is a table for \<open>va\<close> and the address space is the
  same, or there was no memory for one and nothing has changed.\<close>

lemma walk_create_cases:
  assumes wf: "vm_wf s pgdir fl" and rep: "page_rep s fl" and rc: "rc_inv s pgdir k"
    and va: "va < UTOP"
  shows "(pt_frame s pgdir (PDX va) = 0 \<and> fl = [] \<and> pgdir_walk pgdir va True s = Done 0 s) \<or>
    (\<not> (pt_frame s pgdir (PDX va) = 0 \<and> fl = []) \<and>
     (\<exists>t fl'. pgdir_walk pgdir va True s = Done (pte_addr t pgdir va) t \<and>
       pt_frame t pgdir (PDX va) \<noteq> 0 \<and> set fl' \<subseteq> set fl \<and>
       page_rep t fl' \<and> vm_wf t pgdir fl' \<and> rc_inv t pgdir k \<and>
       (\<forall>a < UTOP. vmap t pgdir a = vmap s pgdir a) \<and>
       (\<forall>q. q \<notin> set fl \<longrightarrow> pp_ref (pages t q) = pp_ref (pages s q)) \<and>
       (\<forall>q. page_ok s pgdir fl q \<longrightarrow> page_ok t pgdir fl' q) \<and>
       (\<forall>f. f \<notin> vm_frames s pgdir \<longrightarrow> f \<notin> set fl \<longrightarrow> pmem t f = pmem s f) \<and>
       vm_frames t pgdir \<subseteq> vm_frames s pgdir \<union> set fl \<and> tables_step s pgdir va fl t fl' \<and>
       npages t = npages s \<and> envs t = envs s \<and> curenv t = curenv s))"
proof (cases "pt_frame s pgdir (PDX va) = 0")
  case False
  thus ?thesis using assms walk_table [OF wf va False]
    by (intro disjI2 conjI exI [of _ s] exI [of _ fl]) (auto simp: tables_step_def)
next
  case none: True
  show ?thesis
  proof (cases fl)
    case Nil
    thus ?thesis using walk_create_full [of s pgdir va] wf rep none by simp
  next
    case (Cons p fl')
    have n: "needs_table s pgdir p fl' va"
      using wf rep none va Cons by (simp add: needs_table_def)
    note D = needs_tableD [OF n]
    let ?t = "with_table pgdir va p s"
    have pt: "pt_frame ?t pgdir (PDX va) = p" by (simp add: with_table_pt [OF n])
    have run: "pgdir_walk pgdir va True s = Done (pte_addr ?t pgdir va) ?t"
      using walk_create_new [OF D(1,2,3)] pt by (simp add: pte_addr_def)
    have maps: "maps ?t pgdir q = maps s pgdir q" for q
      by (auto simp: maps_def with_table_vmap [OF n])
    have "card (maps s pgdir q) + k q \<le> unat (pp_ref (pages ?t q))" for q
    proof -
      have "card (maps s pgdir q) + k q \<le> unat (pp_ref (pages s q))"
        using rc by (simp add: rc_inv_def)
      thus ?thesis using D(11) by (auto simp: with_table_ref [OF n])
    qed
    hence rct: "rc_inv ?t pgdir k" by (simp add: rc_inv_def maps)
    have "vm_frames ?t pgdir \<subseteq> vm_frames s pgdir \<union> set fl"
    proof -
      have "pt_frame ?t pgdir d \<in> vm_frames s pgdir \<union> set fl"
        if "d < user_slots" "pt_frame ?t pgdir d \<noteq> 0" for d
      proof -
        have "d < 0x400" using that(1) by (simp add: word_less_nat_alt)
        thus ?thesis using that Cons by (auto simp: with_table_pt [OF n] vm_frames_def)
      qed
      thus ?thesis by (auto simp: vm_frames_def)
    qed
    moreover have "page_ok ?t pgdir fl' q" if "page_ok s pgdir fl q" for q
      using that Cons by (auto simp: page_ok_def with_table_pt [OF n])
    moreover have "pmem ?t f = pmem s f" if "f \<notin> vm_frames s pgdir" "f \<notin> set fl" for f
      using that Cons by (auto simp: with_table_pmem [OF n] vm_frames_def)
    moreover have "tables_step s pgdir va fl ?t fl'"
      using D Cons pt none unfolding tables_step_def
      by (simp add: with_table_pt [OF n]) (simp add: with_table_pmem [OF n])
    ultimately show ?thesis
      using run with_table_rep [OF n] with_table_wf [OF n] rct Cons pt D(5)
      by (intro disjI2 conjI exI [of _ ?t] exI [of _ fl'])
         (auto simp: with_table_vmap [OF n] with_table_ref [OF n])
  qed
qed

lemma entry_present [simp]: "(x OR perm OR 1) AND 1 = (1 :: u32)"
  using or_P_present [of "x OR perm"] by (simp only: or.assoc)

lemma perm_or_P: "perm < 0x1000 \<Longrightarrow> perm OR 1 < (0x1000 :: u32)"
proof -
  assume p: "perm < 0x1000"
  have b: "n < 12" if "bit perm n" for n using bit_less_exp [of perm 12 n] p that by simp
  have "(perm OR 1) AND mask 12 = perm OR 1"
    by (rule bit_word_eqI) (auto simp: bit_simps dest: b)
  moreover have "(perm OR 1) AND mask 12 < 2 ^ 12" by (rule and_mask_less) simp
  ultimately show ?thesis by simp
qed

lemma rc_inv_incref:
  assumes "rc_inv s pgdir k" "pp_ref (pages s pp) \<noteq> 0xFFFF"
  shows "rc_inv (page_incref pp s) pgdir (k(pp := k pp + 1))"
proof -
  have u: "unat (pp_ref (pages s pp) + 1) = unat (pp_ref (pages s pp)) + 1"
  proof -
    have "unat (pp_ref (pages s pp)) \<noteq> unat (0xFFFF :: u16)"
      using assms(2) word_unat_eq_iff by blast
    thus ?thesis using unat_u16_max [of "pp_ref (pages s pp)"] by (simp add: unat_word_ariths)
  qed
  show ?thesis unfolding rc_inv_def
  proof
    fix p
    have "card (maps s pgdir p) + k p \<le> unat (pp_ref (pages s p))"
      using assms(1) by (simp add: rc_inv_def)
    thus "card (maps (page_incref pp s) pgdir p) + (k(pp := k pp + 1)) p
        \<le> unat (pp_ref (pages (page_incref pp s) p))"
      using u by (auto simp: pp_ref_incref maps_pmem [of "page_incref pp s" s])
  qed
qed

text \<open>\<open>page_insert\<close>, on every branch: the address space is updated at the page of \<open>va\<close> and
  nowhere else, the invariants are kept with the same references held elsewhere, and memory
  outside the address space and the free pages is untouched; without memory for a page table
  it returns \<open>-E_NO_MEM\<close> and changes nothing.\<close>

lemma page_insert_cases:
  assumes wf: "vm_wf s pgdir fl" and rep: "page_rep s fl" and rc: "rc_inv s pgdir k"
    and va: "va < UTOP" and ok: "page_ok s pgdir fl pp" and sat: "pp_ref (pages s pp) \<noteq> 0xFFFF"
    and perm: "perm < 0x1000"
  shows "(pt_frame s pgdir (PDX va) = 0 \<and> fl = [] \<and> page_insert pgdir pp va perm s = Done (- E_NO_MEM) s) \<or>
    (\<not> (pt_frame s pgdir (PDX va) = 0 \<and> fl = []) \<and>
     (\<exists>t fl'. page_insert pgdir pp va perm s = Done 0 t \<and>
       page_rep t fl' \<and> vm_wf t pgdir fl' \<and> rc_inv t pgdir k \<and>
       (\<forall>a < UTOP. vmap t pgdir a = (if PGNUM a = PGNUM va then page2pa pp OR perm OR PTE_P
           else vmap s pgdir a)) \<and>
       (\<forall>q. q \<notin> set fl \<longrightarrow> pp_ref (pages t q) =
          (pp_ref (pages s q) + (if q = pp then 1 else 0)) -
          (if vmap s pgdir va AND PTE_P \<noteq> 0 \<and> q = PGNUM (vmap s pgdir va) then 1 else 0)) \<and>
       (\<forall>f. f \<notin> vm_frames s pgdir \<longrightarrow> f \<notin> set fl \<longrightarrow> pmem t f = pmem s f) \<and>
       tables_step s pgdir va fl t fl' \<and> set fl' \<subseteq> set fl \<union>
         (if vmap s pgdir va AND PTE_P \<noteq> 0 then {PGNUM (vmap s pgdir va)} else {}) \<and>
       npages t = npages s \<and> envs t = envs s \<and> curenv t = curenv s))"
proof (cases "pt_frame s pgdir (PDX va) = 0 \<and> fl = []")
  case True
  thus ?thesis using walk_create_cases [OF wf rep rc va]
    by (auto simp: page_insert_def)
next
  case False
  then obtain s1 fl1 where w: "pgdir_walk pgdir va True s = Done (pte_addr s1 pgdir va) s1"
    and pt1: "pt_frame s1 pgdir (PDX va) \<noteq> 0" and sub1: "set fl1 \<subseteq> set fl"
    and rep1: "page_rep s1 fl1" and wf1: "vm_wf s1 pgdir fl1" and rc1: "rc_inv s1 pgdir k"
    and v1: "\<forall>a < UTOP. vmap s1 pgdir a = vmap s pgdir a"
    and ref1: "\<forall>q. q \<notin> set fl \<longrightarrow> pp_ref (pages s1 q) = pp_ref (pages s q)"
    and okk: "\<forall>q. page_ok s pgdir fl q \<longrightarrow> page_ok s1 pgdir fl1 q"
    and fr1: "\<forall>f. f \<notin> vm_frames s pgdir \<longrightarrow> f \<notin> set fl \<longrightarrow> pmem s1 f = pmem s f"
    and ts1: "tables_step s pgdir va fl s1 fl1"
    and vf1: "vm_frames s1 pgdir \<subseteq> vm_frames s pgdir \<union> set fl"
    and o1: "npages s1 = npages s" "envs s1 = envs s" "curenv s1 = curenv s"
    using walk_create_cases [OF wf rep rc va] by (elim disjE exE conjE) blast+
  have ok1: "page_ok s1 pgdir fl1 pp" using okk ok by blast
  have ppf: "pp \<notin> set fl" "pp \<notin> set fl1" using ok ok1 by (simp_all add: page_ok_def)
  let ?s2 = "page_incref pp s1" and ?k = "k(pp := k pp + 1)"
  have m2: "pmem ?s2 = pmem s1" by simp
  have rep2: "page_rep ?s2 fl1" by (rule page_rep_incref [OF rep1 ppf(2)])
  have wf2: "vm_wf ?s2 pgdir fl1" using vm_wf_mono [OF wf1 m2] by simp
  have rc2: "rc_inv ?s2 pgdir ?k" using rc_inv_incref [OF rc1] ref1 ppf(1) sat by simp
  note pf2 = pt_frame_pmem [OF m2] and vm2 = vmap_pmem [OF m2]
  define b where "b \<longleftrightarrow> vmap s pgdir va AND PTE_P \<noteq> 0"
  define old where "old = PGNUM (vmap s pgdir va)"
  have vv: "vmap s1 pgdir va = vmap s pgdir va" using v1 va by blast
  have ld: "load32 ?s2 (pte_addr s1 pgdir va) = vmap s pgdir va"
    using load_pte(1) [OF wf2 va] pt1 by (simp add: pf2 vm2 vv pte_addr_def)
  have nz: "pte_addr s1 pgdir va \<noteq> 0" by (rule load_pte(2) [OF wf1 va pt1])
  have "\<exists>s3 fl3. (if b then page_remove pgdir va ?s2 else Done () ?s2) = Done () s3 \<and>
      page_rep s3 fl3 \<and> vm_wf s3 pgdir fl3 \<and> rc_inv s3 pgdir ?k \<and>
      (\<forall>a < UTOP. PGNUM a \<noteq> PGNUM va \<longrightarrow> vmap s3 pgdir a = vmap s pgdir a) \<and>
      (\<forall>q. pp_ref (pages s3 q) = pp_ref (pages ?s2 q) - (if b \<and> q = old then 1 else 0)) \<and>
      (\<forall>d. pt_frame s3 pgdir d = pt_frame s1 pgdir d) \<and>
      (\<forall>f. f \<notin> vm_frames s1 pgdir \<longrightarrow> pmem s3 f = pmem s1 f) \<and>
      (\<forall>f. f \<noteq> pt_frame s1 pgdir (PDX va) \<longrightarrow> pmem s3 f = pmem s1 f) \<and>
      set fl3 \<subseteq> set fl1 \<union> (if b then {old} else {}) \<and> length fl1 \<le> length fl3 \<and>
      npages s3 = npages s \<and> envs s3 = envs s \<and> curenv s3 = curenv s"
  proof (cases b)
    case False
    thus ?thesis using rep2 wf2 rc2 v1 o1
      by (intro exI [of _ ?s2] exI [of _ fl1]) (auto simp: pf2 vm2)
  next
    case True
    have P: "vmap ?s2 pgdir va AND PTE_P \<noteq> 0" using True vm2 vv by (simp add: b_def)
    have oq: "PGNUM (vmap ?s2 pgdir va) = old" using vm2 vv by (simp add: old_def)
    have vf: "vm_frames ?s2 pgdir = vm_frames s1 pgdir" by (simp add: vm_frames_def pf2)
    from page_remove_present [OF wf2 rep2 rc2 va P] obtain t fl' where
      t: "page_remove pgdir va ?s2 = Done () t" "fl' = (if pp_ref (pages ?s2 old) = 1 then old # fl1 else fl1)"
        "page_rep t fl'" "vm_wf t pgdir fl'" "rc_inv t pgdir ?k"
        "\<forall>a < UTOP. vmap t pgdir a = (if PGNUM a = PGNUM va then 0 else vmap ?s2 pgdir a)"
        "\<forall>q. pp_ref (pages t q) = (if q = old then pp_ref (pages ?s2 old) - 1 else pp_ref (pages ?s2 q))"
        "\<forall>d. pt_frame t pgdir d = pt_frame ?s2 pgdir d"
        "\<forall>f. f \<noteq> pt_frame ?s2 pgdir (PDX va) \<longrightarrow> pmem t f = pmem ?s2 f"
        "\<forall>f. f \<notin> vm_frames s1 pgdir \<longrightarrow> pmem t f = pmem ?s2 f"
        "npages t = npages ?s2" "envs t = envs ?s2" "curenv t = curenv ?s2"
      unfolding oq vf by blast
    have "set fl' \<subseteq> set fl1 \<union> (if b then {old} else {})" "length fl1 \<le> length fl'" using t(2) True by auto
    thus ?thesis using t(1,3-) True v1 o1
      by (intro exI [of _ t] exI [of _ fl'] conjI) (simp_all add: pf2 vm2)
  qed
  then obtain s3 fl3 where r: "(if b then page_remove pgdir va ?s2 else Done () ?s2) = Done () s3"
    and rep3: "page_rep s3 fl3" and wf3: "vm_wf s3 pgdir fl3" and rc3: "rc_inv s3 pgdir ?k"
    and v3: "\<forall>a < UTOP. PGNUM a \<noteq> PGNUM va \<longrightarrow> vmap s3 pgdir a = vmap s pgdir a"
    and ref3: "\<forall>q. pp_ref (pages s3 q) = pp_ref (pages ?s2 q) - (if b \<and> q = old then 1 else 0)"
    and pt3: "\<forall>d. pt_frame s3 pgdir d = pt_frame s1 pgdir d"
    and fr3: "\<forall>f. f \<notin> vm_frames s1 pgdir \<longrightarrow> pmem s3 f = pmem s1 f"
    and fr30: "\<forall>f. f \<noteq> pt_frame s1 pgdir (PDX va) \<longrightarrow> pmem s3 f = pmem s1 f"
    and sub3: "set fl3 \<subseteq> set fl1 \<union> (if b then {old} else {})" and len3: "length fl1 \<le> length fl3"
    and o3: "npages s3 = npages s" "envs s3 = envs s" "curenv s3 = curenv s" by blast
  let ?v = "page2pa pp OR perm OR PTE_P" and ?t = "put_pte pgdir va (page2pa pp OR perm OR PTE_P) s3"
  have pt: "pt_frame s3 pgdir (PDX va) \<noteq> 0" using pt1 pt3 by simp
  have pv: "PGNUM ?v = pp"
    using PGNUM_entry [OF perm_or_P [OF perm]] ok vm_wf_pgdir(3) [OF wf]
    by (simp add: page_ok_def or.assoc word_less_nat_alt word_le_nat_alt)
  have rcs: "card (maps s3 pgdir q) + ?k q \<le> unat (pp_ref (pages s3 q))" for q
    using rc3 unfolding rc_inv_def by blast
  have "pp_ref (pages s3 pp) \<noteq> 0" using rcs [of pp] by auto
  hence "pp \<notin> set fl3" using rep3 by (auto simp: page_rep_def)
  hence okv: "page_ok s3 pgdir fl3 (PGNUM ?v)"
    using ok1 o1 o3 pt3 unfolding pv by (simp add: page_ok_def)
  have run: "page_insert pgdir pp va perm s = Done 0 ?t"
  proof -
    have "pte_addr s3 pgdir va = pte_addr s1 pgdir va" using pt3 by (simp add: pte_addr_def)
    thus ?thesis using w nz ld r
      by (simp add: page_insert_def Let_def b_def put_pte_def split: if_splits)
  qed
  have wft: "vm_wf ?t pgdir fl3" by (rule put_pte_wf [OF wf3 va pt okv])
  have "card (maps ?t pgdir q) + k q \<le> unat (pp_ref (pages ?t q))" for q
  proof -
    have "card (maps ?t pgdir q) \<le> card (maps s3 pgdir q) + (if q = pp then 1 else 0)"
    proof -
      have "maps ?t pgdir q \<subseteq> maps s3 pgdir q \<union> (if q = pp then {PGNUM va} else {})"
        using pv by (auto simp: maps_put_pte [OF wf3 va pt])
      hence "card (maps ?t pgdir q) \<le> card (maps s3 pgdir q \<union> (if q = pp then {PGNUM va} else {}))"
        by (intro card_mono) auto
      also have "\<dots> \<le> card (maps s3 pgdir q) + card (if q = pp then {PGNUM va} else {})"
        by (rule card_Un_le)
      finally show ?thesis by (auto split: if_splits)
    qed
    thus ?thesis using rcs [of q] by (auto split: if_splits)
  qed
  hence rct: "rc_inv ?t pgdir k" by (simp add: rc_inv_def)
  have frt: "pmem ?t f = pmem s f" if "f \<notin> vm_frames s pgdir" "f \<notin> set fl" for f
  proof -
    have n1: "f \<notin> vm_frames s1 pgdir" using that vf1 by blast
    moreover have "f \<noteq> pt_frame s3 pgdir (PDX va)"
      using n1 pt1 pt3 PDX_user [OF va] by (auto simp: vm_frames_def)
    ultimately show ?thesis using fr3 fr1 that by (simp add: put_pte_pmem [OF wf3 va pt])
  qed
  have reft: "pp_ref (pages ?t q) = (pp_ref (pages s q) + (if q = pp then 1 else 0)) -
      (if b \<and> q = old then 1 else 0)" if "q \<notin> set fl" for q
    using that ref3 ref1 ppf by (simp add: pp_ref_incref)
  have "\<forall>a < UTOP. vmap ?t pgdir a = (if PGNUM a = PGNUM va then ?v else vmap s pgdir a)"
    using v3 by (simp add: put_pte_vmap [OF wf3 va pt])
  moreover have "set fl3 \<subseteq> set fl \<union> (if vmap s pgdir va AND PTE_P \<noteq> 0 then {PGNUM (vmap s pgdir va)} else {})"
    using sub1 sub3 unfolding old_def b_def by blast
  moreover have "tables_step s pgdir va fl ?t fl3"
  proof -
    have pdf: "pd_frame pgdir \<noteq> pt_frame s1 pgdir (PDX va)"
      using vm_wf_pt(4) [OF wf1 PDX_user [OF va] pt1] by simp
    hence "pmem ?t (pd_frame pgdir) = pmem s1 (pd_frame pgdir)"
      using fr30 pt3 by (simp add: put_pte_pmem [OF wf3 va pt])
    moreover have "pt_frame ?t pgdir d = pt_frame s1 pgdir d" for d
      using pt3 put_pte_pt [OF wf3 va pt] by simp
    ultimately show ?thesis using ts1 len3 unfolding tables_step_def by auto
  qed
  ultimately show ?thesis using run rep3 wft rct frt reft o3 False unfolding b_def old_def
    by (intro disjI2 conjI exI [of _ ?t] exI [of _ fl3]) auto
qed

section \<open>The check of user memory\<close>

text \<open>A walk without creation changes nothing and finds the entry that \<open>vmap\<close> reads.\<close>

definition pgdir_at_frame :: "u32 \<Rightarrow> bool" where
  "pgdir_at_frame pgdir \<longleftrightarrow> pgdir = frame_addr (pd_frame pgdir) 0"

lemma walk_False_Done:
  assumes "pgdir_at_frame pgdir" "pgdir_walk pgdir va False s = Done pte t"
  shows "t = s" "pte \<noteq> 0 \<Longrightarrow> load32 s pte = vmap s pgdir va"
    "npages s \<le> 0x10000 \<Longrightarrow> pte = 0 \<Longrightarrow> vmap s pgdir va = 0"
proof -
  let ?F = "pd_frame pgdir"
  have F: "?F < 0x100000" by (simp add: pd_frame_def PGNUM_less)
  have pf: "pt_frame s pgdir (PDX va) < 0x100000" by (simp add: pt_frame_def PGNUM_less)
  have a: "pgdir + push_bit 2 (PDX va) = frame_addr ?F (PDX va)"
    using assms(1) frame_addr_pgdir unfolding pgdir_at_frame_def by metis
  have ld: "load32 s (frame_addr ?F (PDX va)) = pmem s ?F (PDX va)"
    using F by simp
  have fa: "PTE_ADDR (pmem s ?F (PDX va)) + push_bit 2 (PTX va) + KERNBASE =
      frame_addr (pt_frame s pgdir (PDX va)) (PTX va)"
    by (simp add: frame_addr_def PTE_ADDR_PGNUM pt_frame_def)
  have c: "PTE_ADDR (pmem s ?F (PDX va)) = 0 \<longleftrightarrow> pt_frame s pgdir (PDX va) = 0"
    by (simp add: PTE_ADDR_0_iff pt_frame_def)
  have gn: "PGNUM (PTE_ADDR (pmem s ?F (PDX va)) + push_bit 2 (PTX va)) = pt_frame s pgdir (PDX va)"
    using word_index_add(1) [OF pf] by (simp add: PTE_ADDR_PGNUM pt_frame_def)
  have "t = s \<and> (pte \<noteq> 0 \<longrightarrow> load32 s pte = vmap s pgdir va) \<and>
      (npages s \<le> 0x10000 \<longrightarrow> pte = 0 \<longrightarrow> vmap s pgdir va = 0)"
  proof (cases "pt_frame s pgdir (PDX va) = 0")
    case True
    thus ?thesis using assms(2) c by (auto simp: pgdir_walk_def Let_def a ld vmap_def)
  next
    case False
    hence r: "t = s \<and> pte = frame_addr (pt_frame s pgdir (PDX va)) (PTX va) \<and>
        pt_frame s pgdir (PDX va) < npages s"
      using assms(2) c fa gn by (auto simp: pgdir_walk_def Let_def a ld KADDR_def split: if_splits)
    moreover have "pte \<noteq> 0" if "npages s \<le> 0x10000"
      using r that frame_addr_nonzero [of "pt_frame s pgdir (PDX va)" "PTX va"]
        order.strict_trans2 [of _ "npages s" "0x10000"] by simp
    ultimately show ?thesis using False pf by (simp add: vmap_def)
  qed
  thus "t = s" "pte \<noteq> 0 \<Longrightarrow> load32 s pte = vmap s pgdir va"
    "npages s \<le> 0x10000 \<Longrightarrow> pte = 0 \<Longrightarrow> vmap s pgdir va = 0" by auto
qed

text \<open>The page of \<open>va\<close> may be accessed from user mode with permissions \<open>perm\<close>.\<close>

definition user_access :: "kst \<Rightarrow> u32 \<Rightarrow> u32 \<Rightarrow> u32 \<Rightarrow> bool" where
  "user_access s pgdir perm va \<longleftrightarrow> va < ULIM \<and> vmap s pgdir va AND perm = perm \<and>
     vmap s pgdir va AND PTE_P \<noteq> 0"

lemma vmap_same_page: "PGNUM a = PGNUM b \<Longrightarrow> vmap s pgdir a = vmap s pgdir b"
  using PDX_PTX_eq_iff [of a b] by (simp add: vmap_def)

lemma unat_PGNUM: "unat (PGNUM a) = unat a div 4096"
  by (simp add: PGNUM_def drop_bit_eq_div unat_div_distrib)

lemma ULIM_pages: "PGNUM a = PGNUM b \<Longrightarrow> a < ULIM \<longleftrightarrow> b < ULIM"
proof -
  have "x < ULIM \<longleftrightarrow> unat (PGNUM x) < 0xEF800" for x
    by (simp add: unat_PGNUM word_less_nat_alt less_mult_imp_div_less div_less_iff_less_mult)
  thus "PGNUM a = PGNUM b \<Longrightarrow> a < ULIM \<longleftrightarrow> b < ULIM" by simp
qed

lemma user_access_page: "PGNUM a = PGNUM b \<Longrightarrow> user_access s g perm a = user_access s g perm b"
  using vmap_same_page [of a b s g] ULIM_pages [of a b] by (simp add: user_access_def)

lemma user_mem_check_loop_cases:
  assumes g: "pgdir_at_frame pgdir" and np: "npages s \<le> 0x10000" and "unat inicio = 4096 * i" "unat fin = 4096 * j" "j \<le> i + n"
    and "user_mem_check_loop n pgdir va0 perm inicio fin s = Done r t"
  shows "(r = 0 \<and> t = s \<and> (\<forall>a. i \<le> unat a div 4096 \<and> unat a div 4096 < j \<longrightarrow> user_access s pgdir perm a)) \<or>
    (r = - E_FAULT \<and> (\<exists>m. i \<le> m \<and> m < j \<and>
        (\<forall>a. i \<le> unat a div 4096 \<and> unat a div 4096 < m \<longrightarrow> user_access s pgdir perm a) \<and>
        (\<forall>a. unat a div 4096 = m \<longrightarrow> \<not> user_access s pgdir perm a) \<and>
        t = s\<lparr>user_mem_check_addr := (let q = of_nat (4096 * m) in if q < va0 then va0 else q)\<rparr>))"
  using assms(3-)
proof (induction n arbitrary: inicio i)
  case 0
  hence "\<not> inicio < fin" by (simp add: word_less_nat_alt)
  thus ?case using 0 by auto
next
  case (Suc n)
  show ?case
  proof (cases "inicio < fin")
    case False
    hence "j \<le> i" using Suc.prems(1,2) by (simp add: word_less_nat_alt)
    thus ?thesis using Suc.prems False by auto
  next
    case True
    hence ij: "i < j" using Suc.prems(1,2) by (simp add: word_less_nat_alt)
    have pg: "PGNUM a = PGNUM inicio \<longleftrightarrow> unat a div 4096 = i" for a
      using Suc.prems(1) by (simp add: word_unat_eq_iff unat_PGNUM)
    obtain pte s' where w: "pgdir_walk pgdir inicio False s = Done pte s'"
      using Suc.prems(4) True by (auto simp: kbind_Done_iff)
    have s': "s' = s" and ld: "pte \<noteq> 0 \<Longrightarrow> load32 s pte = vmap s pgdir inicio"
      using walk_False_Done [OF g w] by auto
    have nul: "pte = 0 \<Longrightarrow> vmap s pgdir inicio = 0"
      using walk_False_Done(3) [OF g w np] .
    define bad where "bad \<longleftrightarrow> pte = 0 \<or> ULIM \<le> inicio \<or> load32 s pte AND perm \<noteq> perm \<or>
        load32 s pte AND PTE_P = 0"
    have bad: "bad \<longleftrightarrow> \<not> user_access s pgdir perm inicio"
      using ld nul unfolding bad_def user_access_def by (cases "pte = 0") auto
    have acc: "user_access s pgdir perm a = user_access s pgdir perm inicio"
      if "unat a div 4096 = i" for a
      using user_access_page pg that by blast
    show ?thesis
    proof (cases bad)
      case B: True
      have "inicio = of_nat (4096 * i)" using Suc.prems(1) by (metis of_nat_unat ucast_id)
      hence "r = - E_FAULT \<and> t = s\<lparr>user_mem_check_addr := (let q = of_nat (4096 * i) in
          if q < va0 then va0 else q)\<rparr>"
        using Suc.prems(4) True w s' B by (simp add: bad_def Let_def)
      thus ?thesis using B bad acc ij by (intro disjI2) (auto intro!: exI [of _ i])
    next
      case G: False
      have step: "user_mem_check_loop n pgdir va0 perm (inicio + PGSIZE) fin s = Done r t"
        using Suc.prems(4) True w s' G by (simp add: bad_def)
      have "unat fin < 4294967296" by (rule word_u32_max)
      hence u: "unat (inicio + PGSIZE) = 4096 * (i + 1)"
        using Suc.prems(1,2) ij by (simp add: unat_word_ariths)
      have le: "j \<le> i + 1 + n" using Suc.prems(3) by simp
      have split: "i \<le> x \<longleftrightarrow> x = i \<or> i + 1 \<le> x" for x :: nat by auto
      show ?thesis using Suc.IH [OF u Suc.prems(2) le step] G bad acc split ij
        by (smt (verit) le_eq_less_or_eq less_add_one le_trans)
    qed
  qed
qed

lemma user_mem_check_cases:
  assumes g: "pgdir_at_frame (env_pgdir (envs s env))" and np: "npages s \<le> 0x10000"
    and len: "unat va + unat len + 4095 < 2 ^ 32"
    and run: "user_mem_check env va len perm s = Done r t"
  defines "i \<equiv> unat va div 4096" and "j \<equiv> (unat va + unat len + 4095) div 4096"
  shows "(r = 0 \<and> t = s \<and> (\<forall>a. i \<le> unat a div 4096 \<and> unat a div 4096 < j \<longrightarrow>
        user_access s (env_pgdir (envs s env)) perm a)) \<or>
    (r = - E_FAULT \<and> (\<exists>m. i \<le> m \<and> m < j \<and>
        (\<forall>a. i \<le> unat a div 4096 \<and> unat a div 4096 < m \<longrightarrow>
           user_access s (env_pgdir (envs s env)) perm a) \<and>
        (\<forall>a. unat a div 4096 = m \<longrightarrow> \<not> user_access s (env_pgdir (envs s env)) perm a) \<and>
        t = s\<lparr>user_mem_check_addr := (let q = of_nat (4096 * m) in if q < va then va else q)\<rparr>))"
proof -
  have u: "unat (va + len) = unat va + unat len" using len by (simp add: unat_word_ariths)
  have ini: "unat (ROUNDDOWN va PGSIZE) = 4096 * i" by (simp add: unat_ROUNDDOWN i_def)
  have fin: "unat (ROUNDUP (va + len) PGSIZE) = 4096 * j"
    using unat_ROUNDUP [of PGSIZE "va + len"] len u by (simp add: j_def)
  have "j < 0x100000" using len by (simp add: j_def less_mult_imp_div_less)
  hence "j \<le> i + 0x100000" by simp
  from user_mem_check_loop_cases [OF g np ini fin this] run
  show ?thesis by (simp add: user_mem_check_def Let_def)
qed

end
