(* ===== verification/VmProps.thy ===== *)
theory VmProps
  imports VmSpec
begin

text \<open>
  The properties of virtual memory: insertion, removal and lookup as operations on the
  address space, the reference counts, and the range check of user memory, each with an
  application to a concrete machine.
\<close>

section \<open>Two concrete machines\<close>

text \<open>16 pages of memory, an empty page directory in frame 8, free pages 3, 5 and 6, and an
  allocated page 9 without references.\<close>

definition demo_vm :: kst where
  "demo_vm = bss_kst\<lparr>npages := 16, page_free_list := Some 3, kern_pgdir := 0xF0008000,
     pages := (\<lambda>_. \<lparr>pp_link = None, pp_ref = 1\<rparr>)
       (3 := \<lparr>pp_link = Some 5, pp_ref = 0\<rparr>, 5 := \<lparr>pp_link = Some 6, pp_ref = 0\<rparr>,
        6 := \<lparr>pp_link = None, pp_ref = 0\<rparr>, 9 := \<lparr>pp_link = None, pp_ref = 0\<rparr>)\<rparr>"

text \<open>The same with page 9 mapped at \<open>0x1000\<close> through a page table in frame 5.\<close>

definition demo_mapped :: kst where
  "demo_mapped = bss_kst\<lparr>npages := 16, page_free_list := Some 3, kern_pgdir := 0xF0008000,
     pages := (\<lambda>_. \<lparr>pp_link = None, pp_ref = 1\<rparr>)
       (3 := \<lparr>pp_link = Some 6, pp_ref = 0\<rparr>, 6 := \<lparr>pp_link = None, pp_ref = 0\<rparr>),
     pmem := (\<lambda>_ _. 0)(8 := (\<lambda>_. 0)(0 := 0x5007), 5 := (\<lambda>_. 0)(1 := 0x9007))\<rparr>"

lemma demo_frame [simp]: "pd_frame 0xF0008000 = 8" "frame_addr 8 0 = 0xF0008000"
  by (simp_all add: pd_frame_def PGNUM_def frame_addr_def)

lemma demo_vm_fields [simp]:
  "npages demo_vm = 16" "pmem demo_vm = (\<lambda>_ _. 0)" "pt_frame demo_vm 0xF0008000 d = 0"
  "vmap demo_vm 0xF0008000 va = 0" "page_rep demo_vm [3, 5, 6]"
  by (simp_all add: demo_vm_def bss_kst_def page_rep_def pt_frame_def vmap_def PGNUM_def)

lemma demo_vm_wf: "vm_wf demo_vm 0xF0008000 [3, 5, 6]"
  by (simp add: vm_wf_def)

lemma demo_vm_rc: "rc_inv demo_vm 0xF0008000 (\<lambda>_. 0)"
  by (simp add: rc_inv_def maps_def)

lemma demo_vm_page: "page_ok demo_vm 0xF0008000 [3, 5, 6] 9" "pp_ref (pages demo_vm 9) = 0"
  by (simp add: page_ok_def) (simp add: demo_vm_def)

lemma demo_mapped_pt [simp]: "pt_frame demo_mapped 0xF0008000 d = (if d = 0 then 5 else 0)"
  by (simp add: demo_mapped_def pt_frame_def PGNUM_def)

lemma demo_mapped_vmap:
  "vmap demo_mapped 0xF0008000 va = (if PGNUM va = 1 then 0x9007 else 0)"
proof -
  have "PGNUM va = 1 \<longleftrightarrow> PDX va = 0 \<and> PTX va = 1"
    using PDX_PTX_eq_iff [where a = va and b = "0x1000"] by (simp add: PGNUM_def PDX_def PTX_def)
  thus ?thesis by (simp add: vmap_def) (simp add: demo_mapped_def)
qed

lemma demo_mapped_fields [simp]:
  "npages demo_mapped = 16" "page_rep demo_mapped [3, 6]" "pp_ref (pages demo_mapped 9) = 1"
  by (simp_all add: demo_mapped_def bss_kst_def page_rep_def)

lemma demo_mapped_wf: "vm_wf demo_mapped 0xF0008000 [3, 6]"
  by (auto simp: vm_wf_def demo_mapped_vmap page_ok_def PGNUM_def)

lemma demo_mapped_rc: "rc_inv demo_mapped 0xF0008000 (\<lambda>_. 0)"
proof -
  have m: "maps demo_mapped 0xF0008000 p = (if p = 9 then {1} else {})" for p
  proof (cases "p = 9")
    case True
    have "1 \<in> maps demo_mapped 0xF0008000 9"
      unfolding maps_def demo_mapped_vmap
      by (rule CollectI, rule exI [of _ "0x1000"]) (simp add: PGNUM_def)
    moreover have "maps demo_mapped 0xF0008000 9 \<subseteq> {1}"
      by (auto simp: maps_def demo_mapped_vmap split: if_splits)
    ultimately show ?thesis using True by auto
  next
    case False
    thus ?thesis by (auto simp: maps_def demo_mapped_vmap PGNUM_def split: if_splits)
  qed
  show ?thesis by (simp add: rc_inv_def m)
qed

section \<open>Insertion and removal\<close>

text \<open>The invariant of an address space: page tables in place, free list intact, every frame
  counted for its user mappings here and for \<open>k\<close> references elsewhere.\<close>

definition as_inv :: "kst \<Rightarrow> u32 \<Rightarrow> u32 list \<Rightarrow> (u32 \<Rightarrow> nat) \<Rightarrow> bool" where
  "as_inv s pgdir fl k \<longleftrightarrow> vm_wf s pgdir fl \<and> page_rep s fl \<and> rc_inv s pgdir k"

text \<open>C1: \<^verbatim>\<open>page_insert\<close> maps the page at the page of \<open>va\<close> and changes no other user mapping,
  keeps the page tables, the free list and the reference counts consistent, replaces an old
  mapping by giving its reference back, touches no memory outside this address space and the
  free pages; if there is no memory for a page table it returns \<open>-E_NO_MEM\<close> and changes
  nothing.\<close>

theorem page_insert_refines:
  assumes "as_inv s pgdir fl k" "va < UTOP" "page_ok s pgdir fl pp" "perm < 0x1000"
    and "pp_ref (pages s pp) \<noteq> 0xFFFF"
  shows "(pt_frame s pgdir (PDX va) = 0 \<and> fl = [] \<and>
      page_insert pgdir pp va perm s = Done (- E_NO_MEM) s) \<or>
    (\<exists>t fl'. page_insert pgdir pp va perm s = Done 0 t \<and> as_inv t pgdir fl' k \<and>
      (\<forall>a < UTOP. vmap t pgdir a = (if PGNUM a = PGNUM va then page2pa pp OR perm OR PTE_P
         else vmap s pgdir a)) \<and>
      (\<forall>q. q \<notin> set fl \<longrightarrow> pp_ref (pages t q) =
         (pp_ref (pages s q) + (if q = pp then 1 else 0)) -
         (if vmap s pgdir va AND PTE_P \<noteq> 0 \<and> q = PGNUM (vmap s pgdir va) then 1 else 0)) \<and>
      (\<forall>f. f \<notin> vm_frames s pgdir \<longrightarrow> f \<notin> set fl \<longrightarrow> pmem t f = pmem s f))"
  using page_insert_cases [of s pgdir fl k va pp perm] assms unfolding as_inv_def
  by (elim disjE exE conjE) blast+

theorem page_insert_refines_witness:
  "\<exists>t fl'. page_insert 0xF0008000 9 0x1000 PTE_W demo_vm = Done 0 t \<and>
     as_inv t 0xF0008000 fl' (\<lambda>_. 0) \<and> vmap t 0xF0008000 0x1000 = 0x9003 \<and>
     vmap t 0xF0008000 0x2000 = 0"
proof -
  have "as_inv demo_vm 0xF0008000 [3, 5, 6] (\<lambda>_. 0)"
    using demo_vm_wf demo_vm_rc by (simp add: as_inv_def)
  from page_insert_refines [OF this, where va = "0x1000" and pp = 9 and perm = PTE_W] demo_vm_page
  show ?thesis by (auto simp: PGNUM_def page2pa_def)
qed

text \<open>C2: \<^verbatim>\<open>page_remove\<close> of a mapped page clears exactly that mapping, drops one reference of
  the page and frees it when that was the last one, and keeps the invariant.\<close>

theorem page_remove_refines:
  assumes "as_inv s pgdir fl k" "va < UTOP" "vmap s pgdir va AND PTE_P \<noteq> 0"
  shows "\<exists>t. page_remove pgdir va s = Done () t \<and>
    as_inv t pgdir (if pp_ref (pages s (PGNUM (vmap s pgdir va))) = 1
      then PGNUM (vmap s pgdir va) # fl else fl) k \<and>
    (\<forall>a < UTOP. vmap t pgdir a = (if PGNUM a = PGNUM va then 0 else vmap s pgdir a)) \<and>
    (\<forall>q. pp_ref (pages t q) = pp_ref (pages s q) -
       (if q = PGNUM (vmap s pgdir va) then 1 else 0)) \<and>
    (\<forall>f. f \<notin> vm_frames s pgdir \<longrightarrow> pmem t f = pmem s f)"
proof -
  have "vm_wf s pgdir fl" "page_rep s fl" "rc_inv s pgdir k" using assms(1) by (simp_all add: as_inv_def)
  from page_remove_present [OF this assms(2,3)] show ?thesis unfolding as_inv_def
    by (elim exE conjE) (rule exI, intro conjI; simp)
qed

theorem page_remove_refines_witness:
  "\<exists>t. page_remove 0xF0008000 0x1000 demo_mapped = Done () t \<and>
     as_inv t 0xF0008000 [9, 3, 6] (\<lambda>_. 0) \<and> vmap t 0xF0008000 0x1000 = 0"
proof -
  have i: "as_inv demo_mapped 0xF0008000 [3, 6] (\<lambda>_. 0)"
    using demo_mapped_wf demo_mapped_rc by (simp add: as_inv_def)
  have v: "vmap demo_mapped 0xF0008000 0x1000 = 0x9007" by (simp add: demo_mapped_vmap PGNUM_def)
  have g: "PGNUM 0x9007 = 9" by (simp add: PGNUM_def)
  from page_remove_refines [OF i, where va = "0x1000"] show ?thesis by (auto simp: v g)
qed

text \<open>a lookup of an address that has a page table but no mapping does not return NULL: it
  returns physical page 0, and \<^verbatim>\<open>page_remove\<close> of such an address drops a reference of
  page 0.\<close>

theorem page_lookup_unmapped_is_page0:
  assumes "as_inv s pgdir fl k" "va < UTOP" "pt_frame s pgdir (PDX va) \<noteq> 0" "vmap s pgdir va = 0"
  shows "page_lookup pgdir va s = Done (Some (0, pte_addr s pgdir va)) s \<and>
    page_remove pgdir va s = kbind (page_decref 0 (put_pte pgdir va 0 s))
      (\<lambda>_ s. Done () (tlb_invalidate pgdir va s))"
proof -
  have wf: "vm_wf s pgdir fl" using assms(1) by (simp add: as_inv_def)
  have "0 < npages s"
    using vm_wf_pgdir(2) [OF wf] by (simp add: word_less_nat_alt)
  thus ?thesis
    using page_lookup_table [OF wf assms(2,3)] page_remove_table [OF wf assms(2,3)] assms(4)
    by (simp add: PGNUM_def)
qed

theorem page_lookup_unmapped_is_page0_witness:
  "\<exists>pte. page_lookup 0xF0008000 0x2000 demo_mapped = Done (Some (0, pte)) demo_mapped"
proof -
  have i: "as_inv demo_mapped 0xF0008000 [3, 6] (\<lambda>_. 0)"
    using demo_mapped_wf demo_mapped_rc by (simp add: as_inv_def)
  have "vmap demo_mapped 0xF0008000 0x2000 = 0" by (simp add: demo_mapped_vmap PGNUM_def)
  thus ?thesis using page_lookup_unmapped_is_page0 [OF i, where va = "0x2000"] by (simp add: PDX_def)
qed

section \<open>User memory\<close>

lemma user_mem_check_Done:
  assumes "pgdir_at_frame (env_pgdir (envs s env))" "npages s \<le> 0x10000"
    and "unat va + unat len + 4095 < 2 ^ 32" "0 < len"
    and "user_mem_check env va len perm s = Done r t"
  shows "(r = 0 \<and> t = s \<and>
      (\<forall>a. va \<le> a \<and> a < va + len \<longrightarrow> user_access s (env_pgdir (envs s env)) perm a)) \<or>
    (r = - E_FAULT \<and> va \<le> user_mem_check_addr t \<and> user_mem_check_addr t < va + len \<and>
      \<not> user_access s (env_pgdir (envs s env)) perm (user_mem_check_addr t) \<and>
      (\<forall>a. va \<le> a \<and> a < user_mem_check_addr t \<longrightarrow>
         user_access s (env_pgdir (envs s env)) perm a))"
proof -
  let ?i = "unat va div 4096" and ?j = "(unat va + unat len + 4095) div 4096"
  let ?acc = "user_access s (env_pgdir (envs s env)) perm"
  have u: "unat (va + len) = unat va + unat len" using assms(3) by (simp add: unat_word_ariths)
  have rng: "?i \<le> unat a div 4096 \<and> unat a div 4096 < ?j" if "va \<le> a" "a < va + len" for a
  proof -
    have "unat va \<le> unat a" "unat a < unat va + unat len"
      using that u by (simp_all add: word_le_nat_alt word_less_nat_alt)
    thus ?thesis by (auto intro: div_le_mono)
  qed
  from user_mem_check_cases [OF assms(1,2,3,5)] show ?thesis
  proof (elim disjE conjE exE)
    assume "r = 0" "t = s" "\<forall>a. ?i \<le> unat a div 4096 \<and> unat a div 4096 < ?j \<longrightarrow> ?acc a"
    thus ?thesis using rng by blast
  next
    fix m assume r: "r = - E_FAULT" and m: "?i \<le> m" "m < ?j"
      and ok: "\<forall>a. ?i \<le> unat a div 4096 \<and> unat a div 4096 < m \<longrightarrow> ?acc a"
      and bad: "\<forall>a. unat a div 4096 = m \<longrightarrow> \<not> ?acc a"
      and t: "t = s\<lparr>user_mem_check_addr := (let q = of_nat (4096 * m) in if q < va then va else q)\<rparr>"
    let ?q = "of_nat (4096 * m) :: u32"
    have "4096 * ?j \<le> unat va + unat len + 4095" by simp
    moreover have "4096 * (m + 1) \<le> 4096 * ?j" using m(2) by simp
    ultimately have mb: "4096 * m < unat va + unat len"  "4096 * m < 2 ^ 32"
      using assms(3) by simp_all
    have uq: "unat ?q = 4096 * m" using mb(2) by (simp del: of_nat_mult add: unat_of_nat)
    define x where "x = user_mem_check_addr t"
    have x: "x = (if ?q < va then va else ?q)" using t by (simp add: x_def Let_def)
    have ux: "unat x = max (unat va) (4096 * m)"
      using x uq by (auto simp: word_less_nat_alt max_def)
    have xm: "unat x div 4096 = m" using m ux by (auto simp: max_def)
    have lt: "unat x < unat va + unat len"
      using ux mb(1) assms(4) by (auto simp: max_def word_less_nat_alt)
    have "?acc a" if "va \<le> a" "a < x" for a
    proof -
      have "unat va \<le> unat a" "unat a < unat x"
        using that by (simp_all add: word_le_nat_alt word_less_nat_alt)
      hence "?i \<le> unat a div 4096" "unat a div 4096 < m"
        using ux by (auto simp: max_def div_le_mono less_mult_imp_div_less split: if_splits)
      thus ?thesis using ok by blast
    qed
    moreover have "va \<le> x" using ux by (simp add: word_le_nat_alt)
    moreover have "x < va + len" using lt u by (simp add: word_less_nat_alt)
    ultimately show ?thesis using r bad xm unfolding x_def by blast
  qed
qed

text \<open>Where the page tables are in memory, the check always returns: the walk does not panic and the fuel of
  its loop is never used up.\<close>

lemma walk_in_memory:
  assumes "pgdir_at_frame pgdir" "\<forall>d < 0x400. pt_frame s pgdir d < npages s" "npages s \<le> 0x10000"
  shows "\<exists>pte. pgdir_walk pgdir va False s = Done pte s"
proof -
  let ?F = "pd_frame pgdir" and ?p = "pt_frame s pgdir (PDX va)"
  have a: "pgdir + push_bit 2 (PDX va) = frame_addr ?F (PDX va)"
    using assms(1) frame_addr_pgdir unfolding pgdir_at_frame_def by metis
  have l: "load32 s (frame_addr ?F (PDX va)) = pmem s ?F (PDX va)"
    by (rule load32_frame) (simp_all add: pd_frame_def PGNUM_less PDX_less)
  have p: "?p < npages s" "?p < 0x100000" using assms(2) PDX_less [of va] PGNUM_less by (simp_all add: pt_frame_def)
  have "PTE_ADDR (pmem s ?F (PDX va)) = push_bit 12 ?p" by (simp add: pt_frame_def PTE_ADDR_PGNUM)
  moreover have "\<not> npages s \<le> PGNUM (push_bit 12 ?p + push_bit 2 (PTX va))"
    using p by (simp add: word_index_add PTX_less)
  ultimately show ?thesis by (simp add: pgdir_walk_def Let_def a l KADDR_def)
qed

lemma user_mem_check_loop_runs:
  assumes mem: "pgdir_at_frame pgdir" "\<forall>d < 0x400. pt_frame s pgdir d < npages s" "npages s \<le> 0x10000"
    and "unat inicio = 4096 * i" "unat fin = 4096 * j" "j \<le> i + n"
  shows "\<exists>r t. user_mem_check_loop n pgdir va0 perm inicio fin s = Done r t"
  using assms(4-)
proof (induction n arbitrary: inicio i)
  case 0
  hence "\<not> inicio < fin" by (simp add: word_less_nat_alt)
  thus ?case by simp
next
  case (Suc n)
  show ?case
  proof (cases "inicio < fin")
    case False thus ?thesis by simp
  next
    case True
    obtain pte where w: "pgdir_walk pgdir inicio False s = Done pte s" using walk_in_memory [OF mem] by blast
    have "i < j" using True Suc.prems(1,2) by (simp add: word_less_nat_alt)
    moreover have "unat fin < 4294967296" by (rule word_u32_max)
    ultimately have "unat (inicio + PGSIZE) = 4096 * (i + 1)"
      using Suc.prems(1,2) by (simp add: unat_word_ariths)
    hence "\<exists>r t. user_mem_check_loop n pgdir va0 perm (inicio + PGSIZE) fin s = Done r t"
      by (rule Suc.IH) (use Suc.prems in auto)
    thus ?thesis using True w by simp
  qed
qed

lemma user_mem_check_runs:
  assumes "pgdir_at_frame (env_pgdir (envs s env))" "\<forall>d < 0x400. pt_frame s (env_pgdir (envs s env)) d < npages s"
    "npages s \<le> 0x10000" "unat va + unat len + 4095 < 2 ^ 32"
  shows "\<exists>r t. user_mem_check env va len perm s = Done r t"
proof -
  let ?i = "unat va div 4096" and ?j = "(unat va + unat len + 4095) div 4096"
  have u: "unat (va + len) = unat va + unat len" using assms(4) by (simp add: unat_word_ariths)
  have ini: "unat (ROUNDDOWN va PGSIZE) = 4096 * ?i" by (simp add: unat_ROUNDDOWN)
  have fin: "unat (ROUNDUP (va + len) PGSIZE) = 4096 * ?j"
    using unat_ROUNDUP [of PGSIZE "va + len"] assms(4) u by simp
  have "?j < 0x100000" using assms(4) by (simp add: less_mult_imp_div_less)
  hence "?j \<le> ?i + 0x100000" by simp
  from user_mem_check_loop_runs [OF assms(1-3) ini fin this]
  show ?thesis by (simp add: user_mem_check_def Let_def)
qed

text \<open>When the end of the range lies in the last page of the address space, it is rounded up to 0.\<close>

lemma user_mem_check_last_page:
  assumes "2 ^ 32 \<le> unat va + unat len + 4095" "unat va + unat len \<le> 2 ^ 32"
  shows "user_mem_check env va len perm s = Done 0 s"
proof -
  have "unat (va + len + PGSIZE - 1) < 4096"
  proof -
    have e: "va + len + PGSIZE - 1 = va + len + 4095" by simp
    have "unat (va + len + 4095) = (unat va + unat len + 4095) mod 4294967296" by (simp add: unat_word_ariths mod_simps)
    moreover have "(unat va + unat len + 4095) mod 4294967296 = unat va + unat len + 4095 - 4294967296"
      using assms by (simp add: mod_if)
    ultimately have "unat (va + len + 4095) < 4096" using assms(2) by (simp del: unat_eq_0)
    thus ?thesis unfolding e .
  qed
  hence "unat (ROUNDUP (va + len) PGSIZE) = 0" unfolding ROUNDUP_def unat_ROUNDDOWN by simp
  hence "ROUNDUP (va + len) PGSIZE = 0" by (simp add: unat_eq_0)
  moreover have "user_mem_check_loop n g v perm i 0 s = Done 0 s" for n g v i by (cases n) simp_all
  ultimately show ?thesis by (simp add: user_mem_check_def Let_def)
qed

text \<open>C5: a range that ends, rounded up to a page, within the address space is always decided by
  \<^verbatim>\<open>user_mem_check\<close>: it accepts it if every byte is below \<open>ULIM\<close> and mapped with the permissions asked for,
  and otherwise reports \<open>-E_FAULT\<close> and the lowest address of the range that is not.  A range that ends in the
  last page of the address space is not decided so: rounding its end up wraps around to 0, and it is
  accepted whatever is mapped there.\<close>

theorem user_mem_check_sound:
  assumes "pgdir_at_frame (env_pgdir (envs s env))" "\<forall>d < 0x400. pt_frame s (env_pgdir (envs s env)) d < npages s"
    "npages s \<le> 0x10000" "0 < len"
  shows "(unat va + unat len + 4095 < 2 ^ 32 \<longrightarrow> (\<exists>r t. user_mem_check env va len perm s = Done r t \<and>
      ((r = 0 \<and> t = s \<and> (\<forall>a. va \<le> a \<and> a < va + len \<longrightarrow> user_access s (env_pgdir (envs s env)) perm a)) \<or>
       (r = - E_FAULT \<and> va \<le> user_mem_check_addr t \<and> user_mem_check_addr t < va + len \<and>
        \<not> user_access s (env_pgdir (envs s env)) perm (user_mem_check_addr t) \<and>
        (\<forall>a. va \<le> a \<and> a < user_mem_check_addr t \<longrightarrow> user_access s (env_pgdir (envs s env)) perm a))))) \<and>
    (2 ^ 32 \<le> unat va + unat len + 4095 \<and> unat va + unat len \<le> 2 ^ 32 \<longrightarrow>
      user_mem_check env va len perm s = Done 0 s)"
proof (intro conjI impI)
  assume l: "unat va + unat len + 4095 < 2 ^ 32"
  obtain r t where run: "user_mem_check env va len perm s = Done r t"
    using user_mem_check_runs [OF assms(1-3) l] by blast
  from user_mem_check_Done [OF assms(1,3) l assms(4) run] run show "\<exists>r t. user_mem_check env va len perm s = Done r t \<and>
      ((r = 0 \<and> t = s \<and> (\<forall>a. va \<le> a \<and> a < va + len \<longrightarrow> user_access s (env_pgdir (envs s env)) perm a)) \<or>
       (r = - E_FAULT \<and> va \<le> user_mem_check_addr t \<and> user_mem_check_addr t < va + len \<and>
        \<not> user_access s (env_pgdir (envs s env)) perm (user_mem_check_addr t) \<and>
        (\<forall>a. va \<le> a \<and> a < user_mem_check_addr t \<longrightarrow> user_access s (env_pgdir (envs s env)) perm a)))" by blast
next
  assume "2 ^ 32 \<le> unat va + unat len + 4095 \<and> unat va + unat len \<le> 2 ^ 32"
  thus "user_mem_check env va len perm s = Done 0 s" using user_mem_check_last_page by blast
qed

text \<open>On a well-formed address space and below \<open>UTOP\<close> the check always returns: the walk does
  not panic and the fuel of its loop is never used up.\<close>

lemma user_mem_check_loop_total:
  assumes wf: "vm_wf s pgdir fl" and "unat inicio = 4096 * i" "unat fin = 4096 * j" "j \<le> i + n"
    and "fin \<le> UTOP"
  shows "\<exists>r t. user_mem_check_loop n pgdir va0 perm inicio fin s = Done r t"
  using assms(2-)
proof (induction n arbitrary: inicio i)
  case 0
  hence "\<not> inicio < fin" by (simp add: word_less_nat_alt)
  thus ?case by simp
next
  case (Suc n)
  show ?case
  proof (cases "inicio < fin")
    case False thus ?thesis by simp
  next
    case True
    hence va: "inicio < UTOP" using Suc.prems(4) by simp
    obtain pte where w: "pgdir_walk pgdir inicio False s = Done pte s"
      using walk_no_table [OF wf] walk_table [OF wf va] by metis
    have "i < j" using True Suc.prems(1,2) by (simp add: word_less_nat_alt)
    moreover have "unat fin < 4294967296" by (rule word_u32_max)
    ultimately have "unat (inicio + PGSIZE) = 4096 * (i + 1)"
      using Suc.prems(1,2) by (simp add: unat_word_ariths)
    hence "\<exists>r t. user_mem_check_loop n pgdir va0 perm (inicio + PGSIZE) fin s = Done r t"
      by (rule Suc.IH) (use Suc.prems in auto)
    thus ?thesis using True w by simp
  qed
qed

lemma user_mem_check_total:
  assumes "vm_wf s (env_pgdir (envs s env)) fl" "unat va + unat len + 4095 < 2 ^ 32"
    and "ROUNDUP (va + len) PGSIZE \<le> UTOP"
  shows "\<exists>r t. user_mem_check env va len perm s = Done r t"
proof -
  let ?i = "unat va div 4096" and ?j = "(unat va + unat len + 4095) div 4096"
  have u: "unat (va + len) = unat va + unat len" using assms(2) by (simp add: unat_word_ariths)
  have ini: "unat (ROUNDDOWN va PGSIZE) = 4096 * ?i" by (simp add: unat_ROUNDDOWN)
  have fin: "unat (ROUNDUP (va + len) PGSIZE) = 4096 * ?j"
    using unat_ROUNDUP [of PGSIZE "va + len"] assms(2) u by simp
  have "?j < 0x100000" using assms(2) by (simp add: less_mult_imp_div_less)
  hence "?j \<le> ?i + 0x100000" by simp
  from user_mem_check_loop_total [OF assms(1) ini fin this assms(3)]
  show ?thesis by (simp add: user_mem_check_def Let_def)
qed

text \<open>The machine with the mapping of page 9, and environment 0 running in it.\<close>

definition demo_env :: kst where
  "demo_env = demo_mapped\<lparr>envs := (\<lambda>_. zero_env)(0 := zero_env\<lparr>env_pgdir := 0xF0008000\<rparr>)\<rparr>"

lemma demo_env_vm: "env_pgdir (envs demo_env 0) = 0xF0008000" "pmem demo_env = pmem demo_mapped"
  "npages demo_env = npages demo_mapped"
  by (simp_all add: demo_env_def)

theorem user_mem_check_sound_witness:
  "(\<exists>t. user_mem_check 0 0x1FF8 0x10 PTE_U demo_env = Done (- E_FAULT) t \<and> user_mem_check_addr t = 0x2000) \<and>
   user_mem_check 0 0xFFFFFFF8 0x8 PTE_U demo_env = Done 0 demo_env"
proof -
  let ?g = "0xF0008000 :: u32"
  have acc: "user_access demo_env ?g 4 a \<longleftrightarrow> PGNUM a = 1" for a
  proof -
    have "PGNUM a = 1 \<Longrightarrow> a < ULIM" using ULIM_pages [of a "0x1000"] by (simp add: PGNUM_def)
    thus ?thesis using vmap_pmem [OF demo_env_vm(2), of ?g] demo_mapped_vmap [of a]
      by (auto simp: user_access_def)
  qed
  have g: "pgdir_at_frame (env_pgdir (envs demo_env 0))"
    by (simp add: pgdir_at_frame_def demo_env_vm)
  have n: "npages demo_env \<le> 0x10000" by (simp add: demo_env_vm)
  have p: "\<forall>d < 0x400. pt_frame demo_env (env_pgdir (envs demo_env 0)) d < npages demo_env"
    by (simp add: demo_env_vm pt_frame_pmem [OF demo_env_vm(2)])
  have last: "user_mem_check 0 0xFFFFFFF8 0x8 PTE_U demo_env = Done 0 demo_env"
    using user_mem_check_sound [OF g p n, of "0x8" "0xFFFFFFF8" PTE_U] by simp
  obtain r t where run: "user_mem_check 0 0x1FF8 0x10 PTE_U demo_env = Done r t" and
    res: "(r = 0 \<and> t = demo_env \<and> (\<forall>a. 0x1FF8 \<le> a \<and> a < 0x1FF8 + 0x10 \<longrightarrow> user_access demo_env (env_pgdir (envs demo_env 0)) PTE_U a)) \<or>
       (r = - E_FAULT \<and> 0x1FF8 \<le> user_mem_check_addr t \<and> user_mem_check_addr t < 0x1FF8 + 0x10 \<and>
        \<not> user_access demo_env (env_pgdir (envs demo_env 0)) PTE_U (user_mem_check_addr t) \<and>
        (\<forall>a. 0x1FF8 \<le> a \<and> a < user_mem_check_addr t \<longrightarrow> user_access demo_env (env_pgdir (envs demo_env 0)) PTE_U a))"
    using user_mem_check_sound [OF g p n, of "0x10" "0x1FF8" PTE_U] by auto
  from res
  have alt: "(r = 0 \<and> (\<forall>a. 0x1FF8 \<le> a \<and> a < 0x2008 \<longrightarrow> PGNUM a = 1)) \<or>
    (r = - E_FAULT \<and> PGNUM (user_mem_check_addr t) \<noteq> 1 \<and> 0x1FF8 \<le> user_mem_check_addr t \<and>
     (\<forall>a. 0x1FF8 \<le> a \<and> a < user_mem_check_addr t \<longrightarrow> PGNUM a = 1))"
    by (auto simp: demo_env_vm acc)
  have p2: "PGNUM 0x2000 \<noteq> 1" by (simp add: PGNUM_def)
  hence r: "r = - E_FAULT" "PGNUM (user_mem_check_addr t) \<noteq> 1" "0x1FF8 \<le> user_mem_check_addr t"
    "\<not> 0x2000 < user_mem_check_addr t" using alt by auto
  have "\<not> user_mem_check_addr t < 0x2000"
  proof
    assume "user_mem_check_addr t < 0x2000"
    hence "unat (PGNUM (user_mem_check_addr t)) = 1"
      using r(3) by (simp add: unat_PGNUM word_le_nat_alt word_less_nat_alt)
    hence "unat (PGNUM (user_mem_check_addr t)) = unat (1 :: u32)" by simp
    thus False using r(2) word_unat_eq_iff by blast
  qed
  hence "user_mem_check_addr t = 0x2000" using r(4) by simp
  thus ?thesis using run r(1) last by blast
qed

text \<open>A range whose end wraps around the address space is accepted without looking at any
  page: every environment may pass 256 MB + 1 bytes of kernel memory, starting at
  \<open>KERNBASE\<close>.\<close>

theorem user_mem_check_wraps:
  "user_mem_check env KERNBASE 0x10000001 PTE_U s = Done 0 s \<and> ULIM \<le> KERNBASE"
proof -
  have "user_mem_check_loop n g va perm KERNBASE 0x1000 s = Done 0 s" for n g va perm
    by (cases n) simp_all
  moreover have d: "ROUNDDOWN KERNBASE PGSIZE = KERNBASE" by (simp add: ROUNDDOWN_def)
  moreover have k: "(KERNBASE + 0x10000001 :: u32) = 1" by simp
  moreover have u: "ROUNDUP 1 PGSIZE = 0x1000" by (simp add: ROUNDUP_def ROUNDDOWN_def)
  ultimately show ?thesis unfolding user_mem_check_def Let_def k d u by simp
qed

end
