(* ===== verification/EnvTab.thy ===== *)
theory EnvTab
  imports VmSpec
begin

text \<open>
  Environments (\<^verbatim>\<open>kern/env.c\<close>): the table of \<open>NENV\<close> environments with its free list,
  environment ids, creation with an address space and a program image, the release of an
  address space, and the switch to user mode.
\<close>

section \<open>Segments\<close>

definition GD_KT :: u32 where [simp]: "GD_KT = 0x08"
definition GD_KD :: u32 where [simp]: "GD_KD = 0x10"
definition GD_UT :: u32 where [simp]: "GD_UT = 0x18"
definition GD_UD :: u32 where [simp]: "GD_UD = 0x20"
definition GD_TSS0 :: u32 where [simp]: "GD_TSS0 = 0x28"

text \<open>The static initialiser of \<open>gdt\<close>; the entries of the processors' task states are filled
  in later.\<close>

definition gdt_init :: "nat \<Rightarrow> Segdesc" where
  "gdt_init = (\<lambda>_. SEG_NULL)
     (unat (drop_bit 3 GD_KT) := SEG (STA_X OR STA_R) 0 0xffffffff 0,
      unat (drop_bit 3 GD_KD) := SEG STA_W 0 0xffffffff 0,
      unat (drop_bit 3 GD_UT) := SEG (STA_X OR STA_R) 0 0xffffffff 3,
      unat (drop_bit 3 GD_UD) := SEG STA_W 0 0xffffffff 3,
      unat (drop_bit 3 GD_TSS0) := SEG_NULL)"

section \<open>Environment ids\<close>

definition ENVGENSHIFT :: nat where [simp]: "ENVGENSHIFT = 12"

text \<open>The index of \<open>envs[ENVX(envid)]\<close>.\<close>

definition env_index :: "u32 \<Rightarrow> nat" where
  "env_index envid = unat (ENVX envid)"

text \<open>The result is the error code or the value stored in \<open>*env_store\<close>, which is \<open>curenv\<close>
  (possibly NULL) for id 0.  Reading \<open>curenv->env_id\<close> without a current environment faults.\<close>

definition envid2env :: "u32 \<Rightarrow> bool \<Rightarrow> kst \<Rightarrow> (u32 + nat option, kst) kres" where
  "envid2env envid checkperm s =
    (if envid = 0 then Done (Inr (curenv s)) s
     else
       let e = env_index envid
       in if env_status (envs s e) = ENV_FREE \<or> env_id (envs s e) \<noteq> envid
          then Done (Inl (- E_BAD_ENV)) s
          else if checkperm \<and> curenv s \<noteq> Some e
          then (case curenv s of
                  None \<Rightarrow> Panic ''[Error]: page fault en el ring 0.''
                | Some c \<Rightarrow> if env_parent_id (envs s e) \<noteq> env_id (envs s c)
                    then Done (Inl (- E_BAD_ENV)) s else Done (Inr (Some e)) s)
          else Done (Inr (Some e)) s)"

definition next_generation :: "u32 \<Rightarrow> u32" where
  "next_generation old =
    (let generation = (old + push_bit ENVGENSHIFT 1) AND NOT (of_nat NENV - 1)
     in if sint generation \<le> 0 then push_bit ENVGENSHIFT 1 else generation)"

definition new_env_id :: "u32 \<Rightarrow> nat \<Rightarrow> u32" where
  "new_env_id old e = next_generation old OR of_nat e"

section \<open>The free list of environments\<close>

definition env_init_step :: "nat \<Rightarrow> kst \<Rightarrow> kst" where
  "env_init_step i s = upd_env i (\<lambda>e. e\<lparr>env_id := 0, env_status := ENV_FREE,
     env_link := Some (i + 1)\<rparr>) s"

text \<open>The segment registers loaded by \<^verbatim>\<open>env_init_percpu\<close> are not part of the state.\<close>

definition env_init :: "kst \<Rightarrow> kst" where
  "env_init s =
    (let s = fold env_init_step [0..<NENV - 1] s;
         s = upd_env (NENV - 1) (\<lambda>e. e\<lparr>env_link := None\<rparr>) s
     in s\<lparr>env_free_list := Some 0\<rparr>)"

definition env_list_pop :: "nat \<Rightarrow> kst \<Rightarrow> kst" where
  "env_list_pop e s = s\<lparr>env_free_list := env_link (envs s e)\<rparr>"

definition env_list_push :: "nat \<Rightarrow> kst \<Rightarrow> kst" where
  "env_list_push e s =
    (upd_env e (\<lambda>v. v\<lparr>env_status := ENV_FREE, env_link := env_free_list s\<rparr>) s)
      \<lparr>env_free_list := Some e\<rparr>"

section \<open>Creation\<close>

text \<open>\<^verbatim>\<open>memcpy(dst, src, PGSIZE)\<close> between page-aligned kernel addresses.\<close>

definition copy_page :: "u32 \<Rightarrow> u32 \<Rightarrow> kst \<Rightarrow> kst" where
  "copy_page dst src s = s\<lparr>pmem := (pmem s)(PGNUM (dst - KERNBASE) := pmem s (PGNUM (src - KERNBASE)))\<rparr>"

definition env_setup_vm :: "nat \<Rightarrow> kst \<Rightarrow> (u32, kst) kres" where
  "env_setup_vm e s =
    kbind (page_alloc ALLOC_ZERO s) (\<lambda>p s. case p of
        None \<Rightarrow> Done (- E_NO_MEM) s
      | Some p \<Rightarrow>
          kbind (page2kva p (page_incref p s)) (\<lambda>pgdir s.
          let s = upd_env e (\<lambda>v. v\<lparr>env_pgdir := pgdir\<rparr>) s;
              s = copy_page pgdir (kern_pgdir s) s
          in kbind (PADDR pgdir s) (\<lambda>pa s.
             Done 0 (store32 (pgdir + push_bit 2 (PDX UVPT)) (pa OR PTE_P OR PTE_U) s))))"

definition fresh_tf :: Trapframe where
  "fresh_tf = zero_tf\<lparr>tf_ds := ucast (GD_UD OR 3), tf_es := ucast (GD_UD OR 3),
     tf_ss := ucast (GD_UD OR 3), tf_esp := USTACKTOP, tf_cs := ucast (GD_UT OR 3),
     tf_eflags := 0 OR FL_IF\<rparr>"

definition env_alloc :: "u32 \<Rightarrow> kst \<Rightarrow> (u32 + nat, kst) kres" where
  "env_alloc parent_id s =
    (case env_free_list s of
       None \<Rightarrow> Done (Inl (- E_NO_FREE_ENV)) s
     | Some e \<Rightarrow>
         kbind (env_setup_vm e s) (\<lambda>r s.
         if sint r < 0 then Done (Inl r) s
         else
           let s = upd_env e (\<lambda>v. v\<lparr>env_id := new_env_id (env_id v) e,
                 env_parent_id := parent_id, env_type := ENV_TYPE_USER,
                 env_status := ENV_RUNNABLE, env_runs := 0, env_tf := fresh_tf,
                 env_pgfault_upcall := 0, env_ipc_recving := False\<rparr>) s
           in Done (Inr e) (env_list_pop e s)))"

section \<open>Loading a program image\<close>

fun region_alloc_loop :: "nat \<Rightarrow> nat \<Rightarrow> u32 \<Rightarrow> u32 \<Rightarrow> kst \<Rightarrow> (unit, kst) kres" where
  "region_alloc_loop 0 e inicio fin s =
     (if inicio < fin then NoReturn Spinning s else Done () s)"
| "region_alloc_loop (Suc n) e inicio fin s =
     (if inicio < fin
      then kbind (page_alloc 0 s) (\<lambda>pg s. case pg of
          None \<Rightarrow> Panic ''[Error]: No hay memoria disponible''
        | Some pg \<Rightarrow>
            kbind (page_insert (env_pgdir (envs s e)) pg inicio (PTE_W OR PTE_U) s)
              (\<lambda>page_flag s.
            if page_flag \<noteq> 0 then Panic ''[Error]: Fallo al intentar insertar la pagina''
            else region_alloc_loop n e (inicio + PGSIZE) fin s))
      else Done () s)"

definition region_alloc :: "nat \<Rightarrow> u32 \<Rightarrow> u32 \<Rightarrow> kst \<Rightarrow> (unit, kst) kres" where
  "region_alloc e va len s =
    (let inicio = ROUNDDOWN va PGSIZE;
         fin = ROUNDUP (va + len) PGSIZE
     in if UTOP < fin then Panic ''[Error] Se sobrepasa el limite UTOP''
        else region_alloc_loop 0x100000 e inicio fin s)"

text \<open>Accesses of the kernel to a user address go through the page tables in \<open>cr3\<close>; a missing or
  read-only page makes a page fault in kernel mode, which panics.\<close>

definition cur_pgdir :: "kst \<Rightarrow> u32" where
  "cur_pgdir s = cr3 s (cpunum s) + KERNBASE"

definition vstore8 :: "u32 \<Rightarrow> u8 \<Rightarrow> kst \<Rightarrow> (unit, kst) kres" where
  "vstore8 va b s =
    (let pte = vmap s (cur_pgdir s) va
     in if pte AND PTE_P = 0 \<or> pte AND PTE_W = 0 then Panic ''[Error]: page fault en el ring 0.''
        else Done () (store8 (PTE_ADDR pte + PGOFF va + KERNBASE) b s))"

definition vload8 :: "u32 \<Rightarrow> kst \<Rightarrow> (u8, kst) kres" where
  "vload8 va s =
    (let pte = vmap s (cur_pgdir s) va
     in if pte AND PTE_P = 0 then Panic ''[Error]: page fault en el ring 0.''
        else Done (load8 s (PTE_ADDR pte + PGOFF va + KERNBASE)) s)"

fun memcpy_in :: "nat \<Rightarrow> u32 \<Rightarrow> u32 \<Rightarrow> kst \<Rightarrow> (unit, kst) kres" where
  "memcpy_in 0 dst src s = Done () s"
| "memcpy_in (Suc n) dst src s =
     kbind (vstore8 dst (load8 s src) s) (\<lambda>_ s. memcpy_in n (dst + 1) (src + 1) s)"

fun memset_in :: "nat \<Rightarrow> u32 \<Rightarrow> u8 \<Rightarrow> kst \<Rightarrow> (unit, kst) kres" where
  "memset_in 0 dst b s = Done () s"
| "memset_in (Suc n) dst b s = kbind (vstore8 dst b s) (\<lambda>_ s. memset_in n (dst + 1) b s)"

text \<open>Fields of the image are read at their offsets in \<^verbatim>\<open>struct Elf\<close> and
  \<^verbatim>\<open>struct Proghdr\<close>, byte by byte because the image need not be aligned.\<close>

definition rd16 :: "kst \<Rightarrow> u32 \<Rightarrow> u32" where
  "rd16 s a = (ucast (load8 s a) OR push_bit 8 (ucast (load8 s (a + 1))))"

definition rd32 :: "kst \<Rightarrow> u32 \<Rightarrow> u32" where
  "rd32 s a = (rd16 s a OR push_bit 16 (rd16 s (a + 2)))"

definition ELF_MAGIC :: u32 where [simp]: "ELF_MAGIC = 0x464C457F"
definition ELF_PROG_LOAD :: u32 where [simp]: "ELF_PROG_LOAD = 1"

record Elf =
  e_magic :: u32
  e_entry :: u32
  e_phoff :: u32
  e_phnum :: u32

record Proghdr =
  p_type :: u32
  p_offset :: u32
  p_va :: u32
  p_filesz :: u32
  p_memsz :: u32

definition read_elf :: "kst \<Rightarrow> u32 \<Rightarrow> Elf" where
  "read_elf s b = \<lparr>e_magic = rd32 s b, e_entry = rd32 s (b + 24), e_phoff = rd32 s (b + 28),
     e_phnum = rd16 s (b + 44)\<rparr>"

definition read_ph :: "kst \<Rightarrow> u32 \<Rightarrow> Proghdr" where
  "read_ph s p = \<lparr>p_type = rd32 s p, p_offset = rd32 s (p + 4), p_va = rd32 s (p + 8),
     p_filesz = rd32 s (p + 16), p_memsz = rd32 s (p + 20)\<rparr>"

definition sizeof_Proghdr :: u32 where [simp]: "sizeof_Proghdr = 32"

fun load_segments :: "nat \<Rightarrow> nat \<Rightarrow> u32 \<Rightarrow> u32 \<Rightarrow> kst \<Rightarrow> (unit, kst) kres" where
  "load_segments 0 e binary ph s = Done () s"
| "load_segments (Suc n) e binary ph s =
     (let h = read_ph s ph
      in kbind (if p_type h = ELF_PROG_LOAD
           then if p_memsz h < p_filesz h
             then Panic ''[Error]: El tamanio del archivo debe ser menor.''
             else kbind (region_alloc e (p_va h) (p_memsz h) s) (\<lambda>_ s.
               kbind (memcpy_in (unat (p_filesz h)) (p_va h) (binary + p_offset h) s) (\<lambda>_ s.
               memset_in (unat (p_memsz h - p_filesz h)) (p_va h + p_filesz h) 0 s))
           else Done () s) (\<lambda>_ s.
         load_segments n e binary (ph + sizeof_Proghdr) s))"

definition lcr3 :: "u32 \<Rightarrow> kst \<Rightarrow> kst" where
  "lcr3 pa s = s\<lparr>cr3 := (cr3 s)(cpunum s := pa)\<rparr>"

definition load_icode :: "nat \<Rightarrow> u32 \<Rightarrow> kst \<Rightarrow> (unit, kst) kres" where
  "load_icode e binary s =
    (let elf = read_elf s binary
     in if e_magic elf \<noteq> ELF_MAGIC then Panic ''[Error] Binario no esta en formato ELF.''
        else kbind (PADDR (env_pgdir (envs s e)) s) (\<lambda>pa s.
          kbind (load_segments (unat (e_phnum elf)) e binary (binary + e_phoff elf) (lcr3 pa s))
            (\<lambda>_ s.
          kbind (PADDR (kern_pgdir s) s) (\<lambda>pa s.
          let s = lcr3 pa s;
              s = upd_env e (\<lambda>v. v\<lparr>env_tf := (env_tf v)\<lparr>tf_eip := e_entry elf\<rparr>\<rparr>) s
          in region_alloc e (USTACKTOP - PGSIZE) PGSIZE s))))"

definition env_create :: "u32 \<Rightarrow> EnvType \<Rightarrow> kst \<Rightarrow> (unit, kst) kres" where
  "env_create binary type s =
    kbind (env_alloc 0 s) (\<lambda>r s. case r of
        Inl err \<Rightarrow> Panic ''[Error] No se creo el ambiente''
      | Inr env \<Rightarrow>
          kbind (load_icode env binary s) (\<lambda>_ s.
          let s = upd_env env (\<lambda>v. v\<lparr>env_type := type\<rparr>) s
          in Done () (if type = ENV_TYPE_FS
               then upd_env env (\<lambda>v. v\<lparr>env_tf :=
                      (env_tf v)\<lparr>tf_eflags := tf_eflags (env_tf v) OR FL_IOPL_MASK\<rparr>\<rparr>) s
               else s)))"

section \<open>Release\<close>

fun unmap_table :: "u32 \<Rightarrow> u32 \<Rightarrow> u32 \<Rightarrow> u32 list \<Rightarrow> kst \<Rightarrow> (unit, kst) kres" where
  "unmap_table pgdir pdeno pt [] s = Done () s"
| "unmap_table pgdir pdeno pt (pteno # rest) s =
     (if load32 s (pt + push_bit 2 pteno) AND PTE_P \<noteq> 0
      then kbind (page_remove pgdir (PGADDR pdeno pteno 0) s) (\<lambda>_ s.
             unmap_table pgdir pdeno pt rest s)
      else unmap_table pgdir pdeno pt rest s)"

definition table_slots :: "u32 list" where
  "table_slots = map of_nat [0..<1024]"

fun free_tables :: "nat \<Rightarrow> u32 list \<Rightarrow> kst \<Rightarrow> (unit, kst) kres" where
  "free_tables e [] s = Done () s"
| "free_tables e (pdeno # rest) s =
     (let pgdir = env_pgdir (envs s e);
          pde = load32 s (pgdir + push_bit 2 pdeno)
      in if pde AND PTE_P = 0 then free_tables e rest s
         else
           let pa = PTE_ADDR pde
           in kbind (KADDR pa s) (\<lambda>pt s.
              kbind (unmap_table pgdir pdeno pt table_slots s) (\<lambda>_ s.
              let s = store32 (pgdir + push_bit 2 pdeno) 0 s
              in kbind (pa2page pa s) (\<lambda>pp s.
                 kbind (page_decref pp s) (\<lambda>_ s. free_tables e rest s)))))"

definition user_pdes :: "u32 list" where
  "user_pdes = map of_nat [0..<unat (PDX UTOP)]"

definition env_free :: "nat \<Rightarrow> kst \<Rightarrow> (unit, kst) kres" where
  "env_free e s =
    kbind (if curenv s = Some e
           then kbind (PADDR (kern_pgdir s) s) (\<lambda>pa s. Done () (lcr3 pa s))
           else Done () s) (\<lambda>_ s.
    kbind (free_tables e user_pdes s) (\<lambda>_ s.
    kbind (PADDR (env_pgdir (envs s e)) s) (\<lambda>pa s.
    let s = upd_env e (\<lambda>v. v\<lparr>env_pgdir := 0\<rparr>) s
    in kbind (pa2page pa s) (\<lambda>pp s.
       kbind (page_decref pp s) (\<lambda>_ s.
       Done () (env_list_push e s))))))"

section \<open>Entering user mode\<close>

definition unlock_kernel :: "kst \<Rightarrow> (unit, kst) kres" where
  "unlock_kernel s = (if klock s = Some (cpunum s) then Done () (s\<lparr>klock := None\<rparr>)
     else Panic ''spin_unlock'')"

definition env_pop_tf :: "kst \<Rightarrow> (unit, kst) kres" where
  "env_pop_tf s = (case curenv s of
     None \<Rightarrow> Panic ''[Error]: page fault en el ring 0.''
   | Some e \<Rightarrow> NoReturn (ToUser e) (upd_env e (\<lambda>v. v\<lparr>env_cpunum := of_nat (cpunum s)\<rparr>) s))"

definition env_run :: "nat \<Rightarrow> kst \<Rightarrow> (unit, kst) kres" where
  "env_run e s =
    (let s = (case curenv s of
                None \<Rightarrow> s
              | Some c \<Rightarrow> if env_status (envs s c) = ENV_RUNNING
                  then upd_env c (\<lambda>v. v\<lparr>env_status := ENV_RUNNABLE\<rparr>) s else s);
         s = set_curenv (Some e) s;
         s = upd_env e (\<lambda>v. v\<lparr>env_status := ENV_RUNNING\<rparr>) s;
         s = upd_env e (\<lambda>v. v\<lparr>env_runs := env_runs v + 1\<rparr>) s
     in kbind (PADDR (env_pgdir (envs s e)) s) (\<lambda>pa s.
        kbind (unlock_kernel (lcr3 pa s)) (\<lambda>_ s. env_pop_tf s)))"

end
