(* ===== verification/Sched.thy ===== *)
theory Sched
  imports EnvTab
begin

text \<open>
  The scheduler (\<^verbatim>\<open>kern/sched.c\<close>), the destruction of environments, which may enter it
  (\<^verbatim>\<open>env_destroy\<close> of \<^verbatim>\<open>kern/env.c\<close>), and the assertion on user memory of
  \<^verbatim>\<open>kern/pmap.c\<close>.
\<close>

definition lock_kernel :: "kst \<Rightarrow> (unit, kst) kres" where
  "lock_kernel s = (case klock s of
     None \<Rightarrow> Done () (s\<lparr>klock := Some (cpunum s)\<rparr>)
   | Some c \<Rightarrow> if c = cpunum s then Panic ''CPU cannot acquire kernel_lock: already holding''
              else NoReturn Spinning s)"

definition any_alive :: "kst \<Rightarrow> bool" where
  "any_alive s \<longleftrightarrow> list_ex (\<lambda>i. env_status (envs s i) = ENV_RUNNABLE \<or>
     env_status (envs s i) = ENV_RUNNING \<or> env_status (envs s i) = ENV_DYING) [0..<NENV]"

definition set_cpu_status :: "cpu_stat \<Rightarrow> kst \<Rightarrow> kst" where
  "set_cpu_status v s =
     s\<lparr>cpus := (cpus s)(cpunum s := (cpus s (cpunum s))\<lparr>cpu_status := v\<rparr>)\<rparr>"

definition sched_halt :: "kst \<Rightarrow> (unit, kst) kres" where
  "sched_halt s =
    (if \<not> any_alive s then NoReturn ToMonitor s
     else
       let s = set_curenv None s
       in kbind (PADDR (kern_pgdir s) s) (\<lambda>pa s.
          let s = set_cpu_status CPU_HALTED (lcr3 pa s)
          in kbind (unlock_kernel s) (\<lambda>_ s. NoReturn Halted s)))"

text \<open>The loop of \<open>sched_yield\<close>: the first runnable environment in circular order.\<close>

fun sched_scan :: "nat \<Rightarrow> nat list \<Rightarrow> kst \<Rightarrow> nat option" where
  "sched_scan curenv_idx [] s = None"
| "sched_scan curenv_idx (i # rest) s =
     (let idle = (curenv_idx + i) mod NENV
      in if env_status (envs s idle) = ENV_RUNNABLE then Some idle
         else sched_scan curenv_idx rest s)"

definition sched_start :: "kst \<Rightarrow> nat" where
  "sched_start s = (case curenv s of None \<Rightarrow> 0 | Some c \<Rightarrow> env_index (env_id (envs s c)))"

definition sched_yield :: "kst \<Rightarrow> (unit, kst) kres" where
  "sched_yield s =
    (case sched_scan (sched_start s) [0..<NENV] s of
       Some idle \<Rightarrow> env_run idle s
     | None \<Rightarrow> (case curenv s of
           Some c \<Rightarrow> if env_status (envs s c) = ENV_RUNNING then env_run c s else sched_halt s
         | None \<Rightarrow> sched_halt s))"

definition env_destroy :: "nat \<Rightarrow> kst \<Rightarrow> (unit, kst) kres" where
  "env_destroy e s =
    (if env_status (envs s e) = ENV_RUNNING \<and> curenv s \<noteq> Some e
     then Done () (upd_env e (\<lambda>v. v\<lparr>env_status := ENV_DYING\<rparr>) s)
     else kbind (env_free e s) (\<lambda>_ s.
       if curenv s = Some e then sched_yield (set_curenv None s) else Done () s))"

definition user_mem_assert :: "nat \<Rightarrow> u32 \<Rightarrow> u32 \<Rightarrow> u32 \<Rightarrow> kst \<Rightarrow> (unit, kst) kres" where
  "user_mem_assert env va len perm s =
    kbind (user_mem_check env va len (perm OR PTE_U) s) (\<lambda>r s.
      if sint r < 0 then env_destroy env s else Done () s)"

section \<open>The scan\<close>

lemma sched_scan_None:
  "sched_scan c xs s = None \<longleftrightarrow> (\<forall>i \<in> set xs. env_status (envs s ((c + i) mod NENV)) \<noteq> ENV_RUNNABLE)"
  by (induction xs) (auto simp: Let_def)

lemma sched_scan_Some:
  "sched_scan c [m..<n] s = Some e \<longleftrightarrow> (\<exists>i. m \<le> i \<and> i < n \<and> e = (c + i) mod NENV \<and>
     env_status (envs s e) = ENV_RUNNABLE \<and>
     (\<forall>j. m \<le> j \<and> j < i \<longrightarrow> env_status (envs s ((c + j) mod NENV)) \<noteq> ENV_RUNNABLE))"
proof (induction "n - m" arbitrary: m)
  case 0 thus ?case by simp
next
  case (Suc k)
  hence l: "[m..<n] = m # [Suc m..<n]" and k: "k = n - Suc m" by (auto simp: upt_conv_Cons)
  show ?case
  proof (cases "env_status (envs s ((c + m) mod NENV)) = ENV_RUNNABLE")
    case True
    thus ?thesis unfolding l using Suc.hyps(2)
      by (auto simp: Let_def intro!: exI [of _ m]) (metis le_neq_implies_less order_refl)
  next
    case False
    have "m \<le> i \<longleftrightarrow> i = m \<or> Suc m \<le> i" for i by auto
    thus ?thesis unfolding l using False Suc.hyps(1) [OF k] by (auto simp: Let_def)
  qed
qed

end
