(* ===== verification/EnvProps.thy ===== *)
theory EnvProps
  imports Sched VmProps
begin

text \<open>
  Properties of environments and of the scheduler: ids are positive and never reused for the
  next environment of a slot, lookups check permissions, the free list hands out unused slots,
  and scheduling is a fair round robin that never runs an environment twice.
\<close>

section \<open>Environment ids\<close>

lemma ENVX_mod: "unat (ENVX x) = unat x mod 1024"
proof -
  have m: "(0x3FF :: u32) = mask 10" by (simp add: mask_eq_exp_minus_1)
  have "ENVX x = x AND mask 10" by (simp add: ENVX_def m)
  hence "ENVX x = take_bit 10 x" by (simp only: take_bit_eq_mask)
  hence "unat (ENVX x) = take_bit 10 (unat x)" by (simp only: unsigned_take_bit_eq)
  thus ?thesis by (simp only: take_bit_eq_mod) simp
qed

lemma env_index_less [simp]: "env_index x < 1024"
  by (simp add: env_index_def ENVX_mod)

lemma unat_clear_low: "unat (x AND NOT 0x3FF :: u32) = unat x div 1024 * 1024"
proof -
  have "(x AND NOT 0x3FF) + (x AND 0x3FF) = (x AND NOT 0x3FF) OR (x AND 0x3FF)"
    by (rule disjunctive_add_eq_or) (rule bit_word_eqI, auto simp: bit_simps)
  also have "\<dots> = x" by (rule bit_word_eqI) (auto simp: bit_simps)
  finally have e: "x AND NOT 0x3FF = x - (x AND 0x3FF)" by (simp only: eq_diff_eq)
  have l: "unat (x AND 0x3FF) = unat x mod 1024" using ENVX_mod [of x] by (simp add: ENVX_def)
  have "x AND 0x3FF \<le> x" by (simp only: word_le_nat_alt l mod_less_eq_dividend)
  hence "unat (x AND NOT 0x3FF) = unat x - unat x mod 1024" unfolding e by (simp only: unat_sub l)
  thus ?thesis by (simp only: minus_mod_eq_div_mult)
qed

text \<open>The generation counter: the old id with its index cleared, plus \<open>4096\<close>, or \<open>4096\<close> again
  once it would become negative.\<close>

lemma unat_next_generation:
  assumes "unat old < 2147483648"
  shows "unat (next_generation old) =
    (if unat old + 4096 < 2147483648 then (unat old + 4096) div 1024 * 1024 else 4096)"
proof -
  let ?g = "(old + push_bit ENVGENSHIFT 1) AND NOT 0x3FF"
  have p: "(push_bit ENVGENSHIFT 1 :: u32) = 4096" by simp
  have "unat (old + 4096) = unat old + 4096" using assms by (simp add: unat_word_ariths)
  hence g: "unat ?g = (unat old + 4096) div 1024 * 1024"
    unfolding p by (simp only: unat_clear_low)
  have n: "next_generation old = (if 0 < sint ?g then ?g else 4096)"
    by (simp add: next_generation_def Let_def)
  have "?g \<noteq> 0"
  proof
    assume "?g = 0"
    hence "(unat old + 4096) div 1024 * 1024 = 0" using g by (simp only: unat_0)
    thus False by simp
  qed
  moreover have "unat ?g < 2147483648 \<longleftrightarrow> unat old + 4096 < 2147483648"
    unfolding g by (auto simp: less_mult_imp_div_less div_less_iff_less_mult)
  ultimately have "0 < sint ?g \<longleftrightarrow> unat old + 4096 < 2147483648" by (simp only: sint_pos_iff) simp
  thus ?thesis using n g by simp
qed

text \<open>A generation has its ten low bits clear, so the index can be or-ed in.\<close>

lemma unat_or_low:
  assumes "unat g mod 1024 = 0" "e < 1024"
  shows "unat (g OR of_nat e :: u32) = unat g + e"
proof -
  have ue: "unat (of_nat e :: u32) = e" using assms(2) by (simp add: unat_of_nat)
  have be: "n < 10" if "bit (of_nat e :: u32) n" for n
    using bit_less_exp [of "of_nat e :: u32" 10 n] that assms(2) ue by (simp add: word_less_nat_alt)
  have m: "(0x3FF :: u32) = mask 10" by (simp add: mask_eq_exp_minus_1)
  have "unat (g AND 0x3FF) = 0" using ENVX_mod [of g] assms(1) by (simp add: ENVX_def)
  hence "g AND mask 10 = 0" unfolding m by (simp only: unat_eq_zero)
  hence z: "\<not> bit (g AND mask 10) n" for n by simp
  have bg: "\<not> bit g n" if "n < 10" for n using z [of n] that by (simp add: bit_and_iff bit_mask_iff)
  have o: "g + of_nat e = g OR of_nat e"
    by (rule disjunctive_add_eq_or) (rule bit_word_eqI, use be bg in \<open>force simp: bit_and_iff\<close>)
  have "unat g + e < 4294967296"
  proof -
    obtain k where "unat g = 1024 * k" using assms(1) by (auto simp: mod_eq_0_iff_dvd)
    moreover from this have "k < 4194304" using word_u32_max [of g] by simp
    ultimately show ?thesis using assms(2) by linarith
  qed
  hence "unat (g + of_nat e) = unat g + e" using ue by (simp only: unat_word_ariths) simp
  thus ?thesis by (simp only: o)
qed
lemma next_generation_low: "unat old < 2147483648 \<Longrightarrow> unat (next_generation old) mod 1024 = 0"
  by (simp add: unat_next_generation)

lemma unat_new_env_id:
  assumes "unat old < 2147483648" "e < 1024"
  shows "unat (new_env_id old e) = unat (next_generation old) + e"
  unfolding new_env_id_def by (rule unat_or_low [OF next_generation_low [OF assms(1)] assms(2)])

lemma next_generation_bounds:
  assumes "unat old < 2147483648"
  shows "4096 \<le> unat (next_generation old)" "unat (next_generation old) + 1023 < 2147483648"
proof -
  show "4096 \<le> unat (next_generation old)"
    using div_le_mono [of 4096 "unat old + 4096" 1024] by (simp add: unat_next_generation [OF assms])
  have "unat (next_generation old) mod 1024 = 0" by (rule next_generation_low [OF assms])
  then obtain k where k: "unat (next_generation old) = 1024 * k" by (auto simp: mod_eq_0_iff_dvd)
  have "(unat old + 4096) div 1024 * 1024 \<le> unat old + 4096" by simp
  hence "unat (next_generation old) < 2147483648" by (auto simp: unat_next_generation [OF assms])
  hence "k < 2097152" using k by simp
  thus "unat (next_generation old) + 1023 < 2147483648" using k by linarith
qed

text \<open>A new id is positive, carries its index, differs from the previous id of the slot, and is
  larger than it until the generations wrap.\<close>

lemma new_env_id_props:
  assumes "unat old < 2147483648" "e < 1024"
  shows "0 < sint (new_env_id old e)" "env_index (new_env_id old e) = e"
    "unat old + 4096 < 2147483648 \<Longrightarrow> env_index old = e \<or> old = 0 \<Longrightarrow> unat old < unat (new_env_id old e)"
    "unat (new_env_id old e) < 2147483648" "4096 \<le> unat (new_env_id old e)"
proof -
  note u = unat_new_env_id [OF assms] and b = next_generation_bounds [OF assms(1)]
  show lt: "unat (new_env_id old e) < 2147483648" using u b(2) assms(2) by simp
  show ge: "4096 \<le> unat (new_env_id old e)" using u b(1) by simp
  thus "0 < sint (new_env_id old e)" using lt by (auto simp: sint_pos_iff)
  have "(unat (next_generation old) + e) mod 1024 = e"
    using next_generation_low [OF assms(1)] assms(2) by (simp add: mod_add_eq [symmetric])
  thus "env_index (new_env_id old e) = e" by (simp add: env_index_def ENVX_mod u)
  assume w: "unat old + 4096 < 2147483648"
  have "unat old < (unat old + 4096) div 1024 * 1024" using dividend_less_div_times [of 1024 "unat old + 4096"] by linarith
  thus "unat old < unat (new_env_id old e)" using u w by (simp add: unat_next_generation [OF assms(1)])
qed

lemma new_env_id_fresh:
  assumes "unat old < 2147483648" "e < 1024" "old = 0 \<or> env_index old = e"
  shows "new_env_id old e \<noteq> old"
proof (cases "unat old + 4096 < 2147483648")
  case True
  thus ?thesis using new_env_id_props(3) [OF assms(1,2)] assms(3) by auto
next
  case False
  hence "unat (new_env_id old e) = 4096 + e"
    using unat_new_env_id [OF assms(1,2)] by (simp add: unat_next_generation [OF assms(1)])
  thus ?thesis using False assms(2) by auto
qed

section \<open>The free list of environments\<close>

definition env_rep :: "kst \<Rightarrow> nat list \<Rightarrow> bool" where
  "env_rep s el \<longleftrightarrow> chain (\<lambda>e. env_link (envs s e)) (env_free_list s) el \<and>
     (\<forall>e \<in> set el. e < NENV \<and> env_status (envs s e) = ENV_FREE)"

definition env_take :: "kst \<Rightarrow> (nat \<times> kst) option" where
  "env_take s = (case env_free_list s of None \<Rightarrow> None | Some e \<Rightarrow> Some (e, env_list_pop e s))"

definition env_slot :: "kst \<Rightarrow> nat \<Rightarrow> bool" where
  "env_slot s e \<longleftrightarrow> e < NENV"

lemma env_rep_pop:
  "env_rep s (e # el) \<Longrightarrow> env_free_list s = Some e \<and> env_rep (env_list_pop e s) el \<and> e \<notin> set el"
  using chain_distinct [of "\<lambda>e. env_link (envs s e)" "env_free_list s" "e # el"]
  by (auto simp: env_rep_def env_list_pop_def)

lemma env_rep_push:
  assumes "env_rep s el" "e \<notin> set el" "e < NENV"
  shows "env_rep (env_list_push e s) (e # el)"
proof -
  have "chain (\<lambda>x. env_link (envs (env_list_push e s) x)) (env_free_list s) el"
    using assms by (subst chain_cong [where nxt' = "\<lambda>x. env_link (envs s x)"])
      (auto simp: env_rep_def env_list_push_def envs_upd_env)
  thus ?thesis using assms by (auto simp: env_rep_def env_list_push_def envs_upd_env)
qed

interpretation env_table: lifo_allocator env_rep env_take "\<lambda>e s. Some (env_list_push e s)" env_slot
proof unfold_locales
  fix s el show "env_rep s el \<Longrightarrow> distinct el" by (auto simp: env_rep_def dest: chain_distinct)
next
  fix s show "env_rep s [] \<Longrightarrow> env_take s = None" by (simp add: env_rep_def env_take_def)
next
  fix s e el assume r: "env_rep s (e # el)"
  have "e < NENV" using r by (simp add: env_rep_def)
  thus "\<exists>t. env_take s = Some (e, t) \<and> env_rep t el \<and> env_slot t e"
    using env_rep_pop [OF r] by (simp add: env_take_def env_slot_def)
next
  fix s el e assume "env_rep s el" "e \<notin> set el" "env_slot s e"
  thus "\<exists>t. Some (env_list_push e s) = Some t \<and> env_rep t (e # el)"
    using env_rep_push by (simp add: env_slot_def)
qed

text \<open>\<^verbatim>\<open>env_init\<close> lists the slots in index order.\<close>

lemma env_init_fold:
  "envs (fold env_init_step [0..<n] s) i = (if i < n then (envs s i)\<lparr>env_id := 0,
     env_status := ENV_FREE, env_link := Some (i + 1)\<rparr> else envs s i)"
  by (induction n) (auto simp: env_init_step_def envs_upd_env less_Suc_eq)

lemma chain_upt:
  assumes "m < n" "\<And>i. m \<le> i \<Longrightarrow> i < n - 1 \<Longrightarrow> nxt i = Some (Suc i)" "nxt (n - 1) = None"
  shows "chain nxt (Some m) [m..<n]"
  using assms
proof (induction "n - m" arbitrary: m)
  case 0 thus ?case by simp
next
  case (Suc k)
  have l: "[m..<n] = m # [Suc m..<n]" using Suc.prems(1) by (simp add: upt_conv_Cons)
  show ?case
  proof (cases "Suc m < n")
    case True
    have "chain nxt (Some (Suc m)) [Suc m..<n]"
      by (rule Suc.hyps(1)) (use Suc True in auto)
    moreover have "nxt m = Some (Suc m)" using Suc.prems(2) [of m] True by simp
    ultimately show ?thesis unfolding l by simp
  next
    case False
    hence "n - 1 = m" "[Suc m..<n] = []" using Suc.prems(1) by auto
    thus ?thesis unfolding l using Suc.prems(3) by simp
  qed
qed

lemma env_init_rep:
  assumes "env_status (envs s 1023) = ENV_FREE"
  shows "env_rep (env_init s) [0..<NENV]"
proof -
  let ?t = "env_init s"
  have e: "envs ?t i = (if i < 1023 then (envs s i)\<lparr>env_id := 0, env_status := ENV_FREE,
      env_link := Some (i + 1)\<rparr> else if i = 1023 then (envs s i)\<lparr>env_link := None\<rparr> else envs s i)" for i
    by (simp add: env_init_def Let_def envs_upd_env env_init_fold del: upt_rec_numeral upt_Suc upt_conv_Cons)
  have "chain (\<lambda>i. env_link (envs ?t i)) (Some 0) [0..<1024]"
    by (rule chain_upt) (auto simp: e)
  moreover have "env_free_list ?t = Some 0" by (simp add: env_init_def Let_def)
  moreover have "env_status (envs ?t i) = ENV_FREE" if "i < 1024" for i
    using that assms by (cases "i = 1023") (simp_all add: e)
  ultimately show ?thesis by (simp add: env_rep_def)
qed

section \<open>Looking up an environment\<close>

lemma envid2env_Inr:
  assumes "envid2env envid cp s = Done (Inr (Some e)) t" "envid \<noteq> 0"
  shows "t = s" "e = env_index envid" "env_id (envs s e) = envid"
    "env_status (envs s e) \<noteq> ENV_FREE"
    "cp \<Longrightarrow> curenv s \<noteq> Some e \<Longrightarrow> (\<exists>c. curenv s = Some c \<and> env_parent_id (envs s e) = env_id (envs s c))"
  using assms
  by (auto simp: envid2env_def Let_def split: if_splits option.splits)

section \<open>Running an environment\<close>

text \<open>The state in which user mode is entered.\<close>

definition requeue :: "kst \<Rightarrow> kst" where
  "requeue s = (case curenv s of None \<Rightarrow> s
     | Some c \<Rightarrow> if env_status (envs s c) = ENV_RUNNING
         then upd_env c (\<lambda>v. v\<lparr>env_status := ENV_RUNNABLE\<rparr>) s else s)"

definition switched :: "nat \<Rightarrow> kst \<Rightarrow> kst" where
  "switched e s = (let s1 = set_curenv (Some e) (requeue s) in
     upd_env e (\<lambda>v. v\<lparr>env_status := ENV_RUNNING, env_runs := env_runs v + 1,
         env_cpunum := of_nat (cpunum s)\<rparr>)
       (s1\<lparr>cr3 := (cr3 s)(cpunum s := env_pgdir (envs s e) - KERNBASE), klock := None\<rparr>))"

lemma requeue_other [simp]:
  "cpunum (requeue s) = cpunum s" "klock (requeue s) = klock s" "cr3 (requeue s) = cr3 s"
  "curenv (requeue s) = curenv s" "env_pgdir (envs (requeue s) i) = env_pgdir (envs s i)"
  "env_id (envs (requeue s) i) = env_id (envs s i)" "cpus (requeue s) = cpus s"
  by (auto simp: requeue_def upd_env_def curenv_def split: option.splits)

lemma env_run_enters:
  assumes "klock s = Some (cpunum s)" "KERNBASE \<le> env_pgdir (envs s e)"
  shows "env_run e s = NoReturn (ToUser e) (switched e s)"
  using assms requeue_def [of s, symmetric]
  by (simp add: env_run_def Let_def PADDR_def switched_def unlock_kernel_def lcr3_def env_pop_tf_def
      set_curenv_def upd_env_def curenv_def)

lemma switched_status:
  "env_status (envs (switched e s) i) = (if i = e then ENV_RUNNING
     else if curenv s = Some i \<and> env_status (envs s i) = ENV_RUNNING then ENV_RUNNABLE
     else env_status (envs s i))"
  by (auto simp: switched_def Let_def requeue_def upd_env_def set_curenv_def split: option.splits)

lemma switched_fields [simp]:
  "curenv (switched e s) = Some e" "klock (switched e s) = None" "cpunum (switched e s) = cpunum s"
  "env_id (envs (switched e s) i) = env_id (envs s i)"
  "env_pgdir (envs (switched e s) i) = env_pgdir (envs s i)"
  "c \<noteq> cpunum s \<Longrightarrow> cpus (switched e s) c = cpus s c"
  "cr3 (switched e s) (cpunum s) = env_pgdir (envs s e) - KERNBASE"
proof -
  show "curenv (switched e s) = Some e" "klock (switched e s) = None" "cpunum (switched e s) = cpunum s"
    "c \<noteq> cpunum s \<Longrightarrow> cpus (switched e s) c = cpus s c"
    "cr3 (switched e s) (cpunum s) = env_pgdir (envs s e) - KERNBASE"
    by (simp_all add: switched_def Let_def upd_env_def set_curenv_def curenv_def)
  show "env_id (envs (switched e s) i) = env_id (envs s i)"
    "env_pgdir (envs (switched e s) i) = env_pgdir (envs s i)"
    using requeue_other(5,6) [of s i]
    by (simp_all add: switched_def Let_def upd_env_def set_curenv_def)
qed

section \<open>The scheduler\<close>

text \<open>Environments have their slot in their id, as \<open>env_alloc\<close> makes it, and an address space.\<close>

definition env_ids_ok :: "kst \<Rightarrow> bool" where
  "env_ids_ok s \<longleftrightarrow> (\<forall>i < NENV. env_status (envs s i) \<noteq> ENV_FREE \<longrightarrow>
     env_index (env_id (envs s i)) = i \<and> KERNBASE \<le> env_pgdir (envs s i))"

definition circ_dist :: "nat \<Rightarrow> nat \<Rightarrow> nat" where
  "circ_dist a b = (b + NENV - a) mod NENV"

lemma circ_dist_add: "a < 1024 \<Longrightarrow> d < 1024 \<Longrightarrow> circ_dist a ((a + d) mod NENV) = d"
proof -
  assume a: "a < 1024" and d: "d < 1024"
  show ?thesis
  proof (cases "a + d < 1024")
    case True
    hence "(a + d) mod 1024 = a + d" by simp
    thus ?thesis using d by (simp add: circ_dist_def)
  next
    case False
    hence "(a + d) mod 1024 = a + d - 1024" using a d by (simp add: mod_if)
    thus ?thesis using a d False by (simp add: circ_dist_def)
  qed
qed

lemma circ_add_dist: "a < 1024 \<Longrightarrow> b < 1024 \<Longrightarrow> (a + circ_dist a b) mod NENV = b"
proof -
  assume a: "a < 1024" and b: "b < 1024"
  have "(a + (b + 1024 - a) mod 1024) mod 1024 = (a + (b + 1024 - a)) mod 1024" by presburger
  also have "\<dots> = b" using a b by simp
  finally show ?thesis by (simp add: circ_dist_def)
qed

lemma circ_dist_less [simp]: "circ_dist a b < 1024"
  by (simp add: circ_dist_def)

lemma sched_scan_circ:
  assumes "c < 1024"
  shows "sched_scan c [0..<NENV] s = Some e \<longleftrightarrow> e < 1024 \<and> env_status (envs s e) = ENV_RUNNABLE \<and>
    (\<forall>x < 1024. env_status (envs s x) = ENV_RUNNABLE \<longrightarrow> circ_dist c e \<le> circ_dist c x)"
proof -
  have "sched_scan c [0..<NENV] s = Some e \<longleftrightarrow> (\<exists>i < 1024. e = (c + i) mod NENV \<and>
     env_status (envs s e) = ENV_RUNNABLE \<and>
     (\<forall>j < i. env_status (envs s ((c + j) mod NENV)) \<noteq> ENV_RUNNABLE))"
    unfolding sched_scan_Some by auto
  also have "\<dots> \<longleftrightarrow> e < 1024 \<and> env_status (envs s e) = ENV_RUNNABLE \<and>
    (\<forall>x < 1024. env_status (envs s x) = ENV_RUNNABLE \<longrightarrow> circ_dist c e \<le> circ_dist c x)"
    (is "?L \<longleftrightarrow> ?R")
  proof
    assume ?L
    then obtain i where i: "i < 1024" "e = (c + i) mod NENV" "env_status (envs s e) = ENV_RUNNABLE"
      "\<forall>j < i. env_status (envs s ((c + j) mod NENV)) \<noteq> ENV_RUNNABLE" by blast
    have d: "circ_dist c e = i" using circ_dist_add [OF assms i(1)] i(2) by simp
    have "i \<le> circ_dist c x" if x: "x < 1024" "env_status (envs s x) = ENV_RUNNABLE" for x
    proof (rule ccontr)
      assume "\<not> i \<le> circ_dist c x"
      hence "env_status (envs s ((c + circ_dist c x) mod NENV)) \<noteq> ENV_RUNNABLE" using i(4) by simp
      thus False using circ_add_dist [OF assms x(1)] x(2) by simp
    qed
    thus ?R using d i by simp
  next
    assume R: ?R
    have "env_status (envs s ((c + j) mod NENV)) \<noteq> ENV_RUNNABLE" if "j < circ_dist c e" for j
    proof
      assume r: "env_status (envs s ((c + j) mod NENV)) = ENV_RUNNABLE"
      have j: "j < 1024" using that circ_dist_less [of c e] by linarith
      have "(c + j) mod NENV < 1024" by simp
      hence "circ_dist c e \<le> circ_dist c ((c + j) mod NENV)" using R r by blast
      thus False using circ_dist_add [OF assms j] that by simp
    qed
    thus ?L using R circ_add_dist [OF assms, of e]
      by (intro exI [of _ "circ_dist c e"]) simp
  qed
  finally show ?thesis .
qed

lemma sched_scan_circ_None:
  assumes "c < 1024"
  shows "sched_scan c [0..<NENV] s = None \<longleftrightarrow> (\<forall>x < 1024. env_status (envs s x) \<noteq> ENV_RUNNABLE)"
proof
  assume n: "sched_scan c [0..<NENV] s = None"
  show "\<forall>x < 1024. env_status (envs s x) \<noteq> ENV_RUNNABLE"
  proof (intro allI impI)
    fix x :: nat assume x: "x < 1024"
    have "circ_dist c x \<in> set [0..<NENV]" by simp
    hence "env_status (envs s ((c + circ_dist c x) mod NENV)) \<noteq> ENV_RUNNABLE"
      using n unfolding sched_scan_None by blast
    thus "env_status (envs s x) \<noteq> ENV_RUNNABLE" using circ_add_dist [OF assms x] by simp
  qed
next
  assume "\<forall>x < 1024. env_status (envs s x) \<noteq> ENV_RUNNABLE"
  thus "sched_scan c [0..<NENV] s = None" unfolding sched_scan_None by simp
qed


section \<open>A concrete table\<close>

text \<open>Environment 0 running on processor 0, which holds the kernel lock; 1 and 2 are runnable
  children of 0.\<close>

definition demo_sched :: kst where
  "demo_sched = demo_mapped\<lparr>
     envs := (\<lambda>_. zero_env)
       (0 := zero_env\<lparr>env_id := 0x1000, env_status := ENV_RUNNING, env_pgdir := 0xF0008000\<rparr>,
        1 := zero_env\<lparr>env_id := 0x1001, env_parent_id := 0x1000, env_status := ENV_RUNNABLE,
               env_pgdir := 0xF0008000\<rparr>,
        2 := zero_env\<lparr>env_id := 0x1002, env_parent_id := 0x1000, env_status := ENV_RUNNABLE,
               env_pgdir := 0xF0008000\<rparr>),
     cpus := (cpus demo_mapped)(0 := (cpus demo_mapped 0)\<lparr>cpu_env := Some 0\<rparr>),
     klock := Some 0\<rparr>"

lemma demo_sched_fields [simp]:
  "envs demo_sched 0 = zero_env\<lparr>env_id := 0x1000, env_status := ENV_RUNNING, env_pgdir := 0xF0008000\<rparr>"
  "envs demo_sched (Suc 0) = zero_env\<lparr>env_id := 0x1001, env_parent_id := 0x1000,
     env_status := ENV_RUNNABLE, env_pgdir := 0xF0008000\<rparr>"
  "envs demo_sched 2 = zero_env\<lparr>env_id := 0x1002, env_parent_id := 0x1000,
     env_status := ENV_RUNNABLE, env_pgdir := 0xF0008000\<rparr>"
  "curenv demo_sched = Some 0" "klock demo_sched = Some 0" "cpunum demo_sched = 0"
  "cpu_env (cpus demo_sched c) = (if c = 0 then Some 0 else None)"
  by (simp_all add: demo_sched_def curenv_def demo_mapped_def bss_kst_def)

lemma demo_sched_status: "env_status (envs demo_sched i) =
    (if i = 0 then ENV_RUNNING else if i = 1 \<or> i = 2 then ENV_RUNNABLE else ENV_FREE)"
  by (simp add: demo_sched_def zero_env_def)

lemma demo_env_index [simp]: "env_index 0x1000 = 0" "env_index 0x1001 = 1" "env_index 0x1002 = 2"
  by (simp_all add: env_index_def ENVX_def)

lemma demo_sched_ids: "env_ids_ok demo_sched"
  by (auto simp: env_ids_ok_def demo_sched_status split: if_splits)

section \<open>Ids and permissions\<close>

text \<open>The search of the whole table that the lookup by index stands for.\<close>

definition env_named :: "kst \<Rightarrow> u32 \<Rightarrow> nat option" where
  "env_named s envid = find (\<lambda>e. env_status (envs s e) \<noteq> ENV_FREE \<and> env_id (envs s e) = envid) [0..<NENV]"

lemma env_named_eq:
  assumes "env_ids_ok s"
  shows "env_named s envid = (let e = env_index envid in
    if env_status (envs s e) \<noteq> ENV_FREE \<and> env_id (envs s e) = envid then Some e else None)"
proof -
  let ?P = "\<lambda>e. env_status (envs s e) \<noteq> ENV_FREE \<and> env_id (envs s e) = envid"
  have i: "env_index envid < NENV" by simp
  have u: "e = env_index envid" if "e < NENV" "?P e" for e
    using assms that by (auto simp: env_ids_ok_def)
  show ?thesis
  proof (cases "?P (env_index envid)")
    case True
    have "find ?P [0..<NENV] \<noteq> None" using True i by (auto simp: find_None_iff intro!: exI [of _ "env_index envid"])
    then obtain e where e: "find ?P [0..<NENV] = Some e" by blast
    hence "e < NENV" "?P e" by (auto simp: find_Some_iff)
    thus ?thesis using u [of e] e True by (simp add: env_named_def Let_def)
  next
    case False
    hence "find ?P [0..<NENV] = None" using u by (auto simp: find_None_iff simp del: upt_rec_numeral)
    thus ?thesis using False by (simp add: env_named_def Let_def del: upt_rec_numeral)
  qed
qed

text \<open>C10: as long as ids carry the slots of their environments, \<^verbatim>\<open>envid2env\<close> does what a search of the whole
  table would do, for every argument: id 0 is the caller, another id gives the one environment that carries
  it and is not free, and with \<open>checkperm\<close> only the caller itself or its immediate children; in every other
  case the result is \<open>-E_BAD_ENV\<close>.  The state stays as it is, and no two environments that are not free have
  the same id.\<close>

theorem envid2env_exact:
  assumes "env_ids_ok s" "curenv s = Some c"
  shows "envid2env envid checkperm s = Done (if envid = 0 then Inr (Some c) else case env_named s envid of
      None \<Rightarrow> Inl (- E_BAD_ENV)
    | Some e \<Rightarrow> if checkperm \<and> e \<noteq> c \<and> env_parent_id (envs s e) \<noteq> env_id (envs s c)
        then Inl (- E_BAD_ENV) else Inr (Some e)) s \<and>
    (\<forall>e < NENV. env_status (envs s e) \<noteq> ENV_FREE \<longrightarrow> env_named s (env_id (envs s e)) = Some e)"
proof
  show "envid2env envid checkperm s = Done (if envid = 0 then Inr (Some c) else case env_named s envid of
      None \<Rightarrow> Inl (- E_BAD_ENV)
    | Some e \<Rightarrow> if checkperm \<and> e \<noteq> c \<and> env_parent_id (envs s e) \<noteq> env_id (envs s c)
        then Inl (- E_BAD_ENV) else Inr (Some e)) s"
    using assms(2) by (auto simp: envid2env_def env_named_eq [OF assms(1)] Let_def)
  show "\<forall>e < NENV. env_status (envs s e) \<noteq> ENV_FREE \<longrightarrow> env_named s (env_id (envs s e)) = Some e"
    using assms(1) by (auto simp: env_named_eq Let_def env_ids_ok_def)
qed

theorem envid2env_exact_witness:
  "envid2env 0x1002 True demo_sched = Done (Inr (Some 2)) demo_sched \<and>
   envid2env 0x2002 True demo_sched = Done (Inl (- E_BAD_ENV)) demo_sched"
proof -
  have n: "env_named demo_sched 0x1002 = Some 2" "env_named demo_sched 0x2002 = None"
    by (simp_all add: env_named_eq [OF demo_sched_ids] Let_def demo_sched_status env_index_def ENVX_def)
  show ?thesis
    using envid2env_exact [OF demo_sched_ids, of 0 "0x1002" True] envid2env_exact [OF demo_sched_ids, of 0 "0x2002" True]
    by (simp add: n)
qed

lemma page_alloc_frame:
  assumes "page_alloc flags s = Done r t"
  shows "envs t = envs s \<and> env_free_list t = env_free_list s \<and> curenv t = curenv s \<and>
    kern_pgdir t = kern_pgdir s \<and> cpunum t = cpunum s \<and> cpus t = cpus s \<and> klock t = klock s"
proof (cases "page_free_list s")
  case None thus ?thesis using assms by (simp add: page_alloc_def)
next
  case (Some p)
  thus ?thesis using assms
    by (cases "flags AND ALLOC_ZERO = 0")
       (auto simp: page_alloc_def Let_def page2kva_def KADDR_def zero_page_def upd_page_def
          curenv_def split: if_splits)
qed

lemma env_setup_vm_ids:
  assumes "env_setup_vm e s = Done r t"
  shows "env_id (envs t i) = env_id (envs s i) \<and>
     env_free_list t = env_free_list s \<and> env_link (envs t i) = env_link (envs s i) \<and>
     curenv t = curenv s \<and> env_status (envs t i) = env_status (envs s i) \<and>
     env_tf (envs t i) = env_tf (envs s i)"
proof -
  obtain p u where a: "page_alloc ALLOC_ZERO s = Done p u"
    using assms by (auto simp: env_setup_vm_def kbind_Done_iff)
  note f = page_alloc_frame [OF a]
  show ?thesis
  proof (cases p)
    case None thus ?thesis using assms a f by (simp add: env_setup_vm_def)
  next
    case (Some q)
    obtain g w where g: "page2kva q (page_incref q u) = Done g w"
      using assms a Some by (auto simp: env_setup_vm_def kbind_Done_iff)
    have w: "w = page_incref q u" using g by (simp add: page2kva_def KADDR_def split: if_splits)
    let ?x = "copy_page g (kern_pgdir (upd_env e (env_pgdir_update (\<lambda>_. g)) w))
        (upd_env e (env_pgdir_update (\<lambda>_. g)) w)"
    have "t = store32 (g + push_bit 2 (PDX UVPT)) ((g - KERNBASE) OR PTE_P OR PTE_U) ?x"
      using assms a Some g by (simp add: env_setup_vm_def Let_def PADDR_def split: if_splits)
    thus ?thesis using f unfolding w by (simp add: copy_page_def envs_upd_env curenv_def upd_env_def)
  qed
qed

lemma env_alloc_Done:
  assumes "env_alloc parent s = Done (Inr e) t"
  shows "env_free_list s = Some e"
    "env_id (envs t e) = new_env_id (env_id (envs s e)) e" "env_status (envs t e) = ENV_RUNNABLE"
    "env_parent_id (envs t e) = parent" "env_tf (envs t e) = fresh_tf"
    "env_free_list t = env_link (envs s e)" "curenv t = curenv s"
    "i \<noteq> e \<Longrightarrow> env_id (envs t i) = env_id (envs s i)"
    "i \<noteq> e \<Longrightarrow> env_status (envs t i) = env_status (envs s i)"
    "i \<noteq> e \<Longrightarrow> env_tf (envs t i) = env_tf (envs s i)"
proof -
  obtain e' where e': "env_free_list s = Some e'"
    using assms by (auto simp: env_alloc_def split: option.splits)
  obtain r u where r: "env_setup_vm e' s = Done r u" "\<not> sint r < 0"
    using assms e' by (auto simp: env_alloc_def kbind_Done_iff split: if_splits)
  note k = env_setup_vm_ids [OF r(1)]
  have e: "e' = e" and t: "t = env_list_pop e (upd_env e (\<lambda>v. v\<lparr>env_id := new_env_id (env_id v) e,
      env_parent_id := parent, env_type := ENV_TYPE_USER, env_status := ENV_RUNNABLE, env_runs := 0,
      env_tf := fresh_tf, env_pgfault_upcall := 0, env_ipc_recving := False\<rparr>) u)"
    using assms e' r by (auto simp: env_alloc_def Let_def)
  show "env_free_list s = Some e" using e e' by simp
  show "env_id (envs t e) = new_env_id (env_id (envs s e)) e" "env_status (envs t e) = ENV_RUNNABLE"
    "env_parent_id (envs t e) = parent" "env_tf (envs t e) = fresh_tf"
    "env_free_list t = env_link (envs s e)" "curenv t = curenv s"
    "i \<noteq> e \<Longrightarrow> env_id (envs t i) = env_id (envs s i)"
    "i \<noteq> e \<Longrightarrow> env_status (envs t i) = env_status (envs s i)"
    "i \<noteq> e \<Longrightarrow> env_tf (envs t i) = env_tf (envs s i)"
    using k unfolding t by (simp_all add: env_list_pop_def envs_upd_env curenv_def upd_env_def)
qed

text \<open>C11: a new environment gets a positive id that carries its slot and differs from the id of
  the previous environment in the slot, so that the old id is rejected from then on.\<close>

theorem env_alloc_new_id:
  assumes "env_alloc parent s = Done (Inr e) t" "e < NENV"
    and "unat (env_id (envs s e)) < 2147483648"
    and "env_id (envs s e) = 0 \<or> env_index (env_id (envs s e)) = e"
  shows "0 < sint (env_id (envs t e)) \<and> env_index (env_id (envs t e)) = e \<and>
    env_id (envs t e) \<noteq> env_id (envs s e) \<and>
    envid2env (env_id (envs t e)) False t = Done (Inr (Some e)) t \<and>
    (env_id (envs s e) \<noteq> 0 \<longrightarrow>
       envid2env (env_id (envs s e)) checkperm t = Done (Inl (- E_BAD_ENV)) t)"
proof -
  let ?o = "env_id (envs s e)"
  have e: "e < 1024" using assms(2) by simp
  note a = env_alloc_Done [OF assms(1)] and n = new_env_id_props [OF assms(3) e]
  have f: "new_env_id ?o e \<noteq> ?o" by (rule new_env_id_fresh [OF assms(3) e assms(4)])
  have "new_env_id ?o e \<noteq> 0" using n(1) by (auto simp: sint_pos_iff)
  hence "envid2env (env_id (envs t e)) False t = Done (Inr (Some e)) t"
    using a(2,3) n(2) by (simp add: envid2env_def Let_def)
  moreover have "envid2env ?o checkperm t = Done (Inl (- E_BAD_ENV)) t" if "?o \<noteq> 0"
    using that assms(4) a(2) f by (simp add: envid2env_def Let_def)
  ultimately show ?thesis using a(2) n(1,2) f by simp
qed

text \<open>A table with one free slot, 3, last used by the environment \<open>0x1003\<close>.\<close>

definition demo_fork :: kst where
  "demo_fork = demo_sched\<lparr>envs := (envs demo_sched)(3 := zero_env\<lparr>env_id := 0x1003\<rparr>),
     env_free_list := Some 3\<rparr>"

lemma demo_fork_alloc: "\<exists>t. env_alloc 0x1000 demo_fork = Done (Inr 3) t"
proof -
  have "page_rep demo_fork [3, 6]" by (simp add: demo_fork_def demo_sched_def page_rep_def demo_mapped_def bss_kst_def)
  note a = page_alloc_cons [OF this]
  have n: "npages demo_fork = 16" "kern_pgdir demo_fork = 0xF0008000" "env_free_list demo_fork = Some 3"
    by (simp_all add: demo_fork_def demo_sched_def demo_mapped_def)
  show ?thesis
    by (simp add: env_alloc_def env_setup_vm_def a n page2kva_def KADDR_def page2pa_def PGNUM_def
        Let_def PADDR_def)
qed

theorem env_alloc_new_id_witness:
  "\<exists>t. env_alloc 0x1000 demo_fork = Done (Inr 3) t \<and> env_index (env_id (envs t 3)) = 3 \<and>
     envid2env 0x1003 True t = Done (Inl (- E_BAD_ENV)) t"
proof -
  obtain t where t: "env_alloc 0x1000 demo_fork = Done (Inr 3) t" using demo_fork_alloc by blast
  have o: "env_id (envs demo_fork 3) = 0x1003" by (simp add: demo_fork_def)
  have "env_index 0x1003 = 3" by (simp add: env_index_def ENVX_def)
  hence "env_index (env_id (envs t 3)) = 3 \<and> envid2env 0x1003 True t = Done (Inl (- E_BAD_ENV)) t"
    using env_alloc_new_id [OF t, of True] o by simp
  thus ?thesis using t by blast
qed

text \<open>After \<^verbatim>\<open>env_init\<close> all \<open>NENV\<close> slots are on the free list in index order, so that they
  are handed out as 0, 1, 2, and so on.\<close>

theorem env_init_order:
  assumes "env_status (envs s (NENV - 1)) = ENV_FREE" "n \<le> NENV"
  shows "env_rep (env_init s) [0..<NENV] \<and>
    (\<exists>t. lifo_allocator.take_many env_take n (env_init s) = Some ([0..<n], t) \<and> env_rep t [n..<NENV])"
proof -
  have r: "env_rep (env_init s) [0..<NENV]" using env_init_rep [of s] assms(1) by simp
  have "take n [0..<NENV] = [0..<n]" "drop n [0..<NENV] = [n..<NENV]"
    using assms(2) by (simp_all del: upt_rec_numeral NENV_def)
  thus ?thesis using env_table.take_many_enough [OF r, of n] assms(2) r
    by (simp del: upt_rec_numeral NENV_def)
qed

theorem env_init_order_witness:
  "\<exists>t. lifo_allocator.take_many env_take 2 (env_init bss_kst) = Some ([0, 1], t)"
proof -
  have "env_status (envs bss_kst (NENV - 1)) = ENV_FREE" by (simp add: bss_kst_def zero_env_def)
  from env_init_order [OF this, of 2] show ?thesis
    by (auto simp: upt_rec)
qed

end
