(* ===== verification/SchedProps.thy ===== *)
theory SchedProps
  imports EnvProps
begin

text \<open>
  Properties of the scheduler: round robin, fairness, and exclusion between processors.
\<close>


section \<open>Round robin\<close>

text \<open>What the scheduler relies on: it runs with the kernel lock held, ids carry their slots, and
  the current environment, if there is one, has not been freed.\<close>

definition sched_ready :: "kst \<Rightarrow> bool" where
  "sched_ready s \<longleftrightarrow> env_ids_ok s \<and> klock s = Some (cpunum s) \<and>
     (case curenv s of None \<Rightarrow> True | Some c \<Rightarrow> c < NENV \<and> env_status (envs s c) \<noteq> ENV_FREE)"

lemma sched_start_ready: "sched_ready s \<Longrightarrow> sched_start s =
    (case curenv s of None \<Rightarrow> 0 | Some c \<Rightarrow> c)"
  by (auto simp: sched_ready_def sched_start_def env_ids_ok_def split: option.splits)

lemma sched_start_less [simp]: "sched_start s < 1024"
  by (auto simp: sched_start_def split: option.splits)

lemma sched_yield_runnable:
  assumes "sched_ready s" "e < 1024" "env_status (envs s e) = ENV_RUNNABLE"
    and "\<forall>x < 1024. env_status (envs s x) = ENV_RUNNABLE \<longrightarrow>
      circ_dist (sched_start s) e \<le> circ_dist (sched_start s) x"
  shows "sched_yield s = NoReturn (ToUser e) (switched e s)"
proof -
  have sc: "sched_scan (sched_start s) [0..<NENV] s = Some e"
    using sched_scan_circ [of "sched_start s" s e] assms by simp
  have "KERNBASE \<le> env_pgdir (envs s e)"
    using assms(1,2,3) by (simp add: sched_ready_def env_ids_ok_def)
  hence "env_run e s = NoReturn (ToUser e) (switched e s)"
    using env_run_enters assms(1) by (simp add: sched_ready_def)
  thus ?thesis unfolding sched_yield_def sc by simp
qed

text \<open>C12: when some environment is runnable, \<^verbatim>\<open>sched_yield\<close> enters user mode in a runnable one,
  the first in circular order from the current one; the environment that was running becomes
  runnable, no other status changes, and the kernel lock is released.\<close>

theorem sched_yield_round_robin:
  assumes "sched_ready s" "x < NENV" "env_status (envs s x) = ENV_RUNNABLE"
  shows "\<exists>e t. sched_yield s = NoReturn (ToUser e) t \<and> e < NENV \<and>
    env_status (envs s e) = ENV_RUNNABLE \<and>
    (\<forall>y < NENV. env_status (envs s y) = ENV_RUNNABLE \<longrightarrow>
       circ_dist (sched_start s) e \<le> circ_dist (sched_start s) y) \<and>
    (\<forall>i. env_status (envs t i) = (if i = e then ENV_RUNNING
       else if curenv s = Some i \<and> env_status (envs s i) = ENV_RUNNING then ENV_RUNNABLE
       else env_status (envs s i))) \<and>
    curenv t = Some e \<and> klock t = None \<and> cr3 t (cpunum s) = env_pgdir (envs s e) - KERNBASE"
proof -
  have "sched_scan (sched_start s) [0..<NENV] s \<noteq> None"
    using sched_scan_circ_None [of "sched_start s" s] assms by auto
  then obtain e where "sched_scan (sched_start s) [0..<NENV] s = Some e" by blast
  hence e: "e < 1024" "env_status (envs s e) = ENV_RUNNABLE"
    "\<forall>x < 1024. env_status (envs s x) = ENV_RUNNABLE \<longrightarrow>
       circ_dist (sched_start s) e \<le> circ_dist (sched_start s) x"
    using sched_scan_circ [of "sched_start s" s e] by auto
  show ?thesis
    using sched_yield_runnable [OF assms(1) e] e switched_status [of e s]
    by (intro exI [of _ e] exI [of _ "switched e s"]) simp
qed

lemma demo_sched_ready: "sched_ready demo_sched"
  using demo_sched_ids by (simp add: sched_ready_def demo_sched_status)

theorem sched_yield_round_robin_witness:
  "\<exists>t. sched_yield demo_sched = NoReturn (ToUser 1) t \<and>
     env_status (envs t 0) = ENV_RUNNABLE \<and> env_status (envs t 1) = ENV_RUNNING"
proof -
  have "env_status (envs demo_sched 2) = ENV_RUNNABLE" by (simp add: demo_sched_status)
  from sched_yield_round_robin [OF demo_sched_ready _ this]
  obtain e t where e: "sched_yield demo_sched = NoReturn (ToUser e) t"
    "env_status (envs demo_sched e) = ENV_RUNNABLE"
    "\<forall>y < 1024. env_status (envs demo_sched y) = ENV_RUNNABLE \<longrightarrow>
       circ_dist (sched_start demo_sched) e \<le> circ_dist (sched_start demo_sched) y"
    "\<forall>i. env_status (envs t i) = (if i = e then ENV_RUNNING
       else if curenv demo_sched = Some i \<and> env_status (envs demo_sched i) = ENV_RUNNING
         then ENV_RUNNABLE else env_status (envs demo_sched i))"
    by auto
  have st: "sched_start demo_sched = 0" by (simp add: sched_start_def)
  have "circ_dist 0 e \<le> circ_dist 0 1" using e(3) demo_sched_status [of 1] st by simp
  hence "e = 1" using e(2) by (auto simp: demo_sched_status circ_dist_def split: if_splits)
  thus ?thesis using e(1,4) by (simp add: demo_sched_status)
qed

text \<open>An environment that yields after it has been made runnable again (it may do so itself
  with \<^verbatim>\<open>sys_env_set_status\<close>) is chosen again, whoever else is runnable: the search starts
  at the current environment and not just after it.\<close>

theorem sched_yield_prefers_current:
  assumes "sched_ready s" "curenv s = Some c" "env_status (envs s c) = ENV_RUNNABLE"
  shows "sched_yield s = NoReturn (ToUser c) (switched c s)"
proof -
  have c: "c < 1024" using assms(1,2) by (simp add: sched_ready_def)
  have st: "sched_start s = c" using sched_start_ready [OF assms(1)] assms(2) by simp
  have "circ_dist c c = 0" using circ_dist_add [OF c, of 0] c by simp
  thus ?thesis using sched_yield_runnable [OF assms(1) c assms(3)] st by simp
qed

theorem sched_yield_prefers_current_witness:
  "\<exists>t. sched_yield (upd_env 0 (env_status_update (\<lambda>_. ENV_RUNNABLE)) demo_sched)
     = NoReturn (ToUser 0) t"
proof -
  let ?s = "upd_env 0 (env_status_update (\<lambda>_. ENV_RUNNABLE)) demo_sched"
  have k: "klock ?s = Some 0" by (simp add: upd_env_def)
  have "env_ids_ok ?s" using demo_sched_ids
    by (auto simp: env_ids_ok_def envs_upd_env demo_sched_status split: if_splits)
  hence "sched_ready ?s" using k by (simp add: sched_ready_def envs_upd_env)
  from sched_yield_prefers_current [OF this, of 0] show ?thesis by (simp add: envs_upd_env)
qed

text \<open>A processor in user mode that enters the kernel to give up the processor, by \<^verbatim>\<open>sys_yield\<close> or because of the
  timer: the lock is taken and the scheduler is entered.\<close>

definition yield_once :: "kst \<Rightarrow> (nat \<times> kst) option" where
  "yield_once s = (case kbind (lock_kernel s) (\<lambda>_ s. sched_yield s) of
     NoReturn (ToUser e) t \<Rightarrow> Some (e, t) | _ \<Rightarrow> None)"

definition user_running :: "nat \<Rightarrow> kst \<Rightarrow> bool" where
  "user_running c s \<longleftrightarrow> env_ids_ok s \<and> klock s = None \<and> curenv s = Some c \<and> c < NENV \<and>
     env_status (envs s c) = ENV_RUNNING"

lemma yield_once_step:
  assumes u: "user_running c s" and x: "x < NENV" "env_status (envs s x) = ENV_RUNNABLE"
  shows "\<exists>e t. yield_once s = Some (e, t) \<and> user_running e t \<and> e \<noteq> c \<and>
    (e = x \<or> env_status (envs t x) = ENV_RUNNABLE \<and> circ_dist e x < circ_dist c x)"
proof -
  let ?s = "s\<lparr>klock := Some (cpunum s)\<rparr>"
  have cu: "curenv ?s = Some c" using u by (simp add: curenv_def user_running_def)
  have ready: "sched_ready ?s"
    using u cu by (simp add: sched_ready_def user_running_def env_ids_ok_def)
  have st: "sched_start ?s = c" using sched_start_ready [OF ready] cu by simp
  have "sched_scan c [0..<NENV] ?s \<noteq> None"
    using sched_scan_circ_None [of c ?s] u x by (auto simp: user_running_def)
  then obtain e where "sched_scan c [0..<NENV] ?s = Some e" by blast
  hence e: "e < 1024" "env_status (envs s e) = ENV_RUNNABLE"
    "\<forall>y < 1024. env_status (envs s y) = ENV_RUNNABLE \<longrightarrow> circ_dist c e \<le> circ_dist c y"
    using sched_scan_circ [of c ?s e] u by (auto simp: user_running_def)
  have "sched_yield ?s = NoReturn (ToUser e) (switched e ?s)"
    using sched_yield_runnable [OF ready e(1)] e(2,3) st by simp
  hence y: "yield_once s = Some (e, switched e ?s)"
    using u by (simp add: yield_once_def lock_kernel_def user_running_def)
  have ids: "env_ids_ok (switched e ?s)"
    using u e(2) cu unfolding user_running_def env_ids_ok_def
    by (auto simp: switched_status split: if_splits)
  have run: "user_running e (switched e ?s)"
    using ids e(1) by (simp add: user_running_def switched_status)
  have ec: "e \<noteq> c" using e(2) u by (auto simp: user_running_def)
  have "env_status (envs (switched e ?s) x) = ENV_RUNNABLE \<and> circ_dist e x < circ_dist c x" if "e \<noteq> x"
  proof -
    have c: "c < 1024" and x': "x < 1024" using u x(1) by (simp_all add: user_running_def)
    have le: "circ_dist c e \<le> circ_dist c x" using e(3) x by simp
    have pos: "0 < circ_dist c e"
    proof (rule ccontr)
      assume "\<not> 0 < circ_dist c e"
      hence "e = c" using circ_add_dist [OF c e(1)] c by simp
      thus False using ec by simp
    qed
    have "(e + (circ_dist c x - circ_dist c e)) mod 1024 =
        ((c + circ_dist c e) mod 1024 + (circ_dist c x - circ_dist c e)) mod 1024"
      using circ_add_dist [OF c e(1)] by simp
    also have "\<dots> = (c + circ_dist c e + (circ_dist c x - circ_dist c e)) mod 1024" by presburger
    also have "\<dots> = x" using le circ_add_dist [OF c x'] by simp
    finally have "(e + (circ_dist c x - circ_dist c e)) mod NENV = x" by simp
    moreover have lt: "circ_dist c x - circ_dist c e < 1024" using circ_dist_less [of c x] by linarith
    ultimately have "circ_dist e x = circ_dist c x - circ_dist c e"
      using circ_dist_add [OF e(1) lt] by simp
    thus ?thesis using pos le that x(2) by (auto simp: switched_status)
  qed
  thus ?thesis using y run ec by blast
qed

text \<open>A run of one processor as seen from an environment \<open>x\<close> that waits: \<open>es i\<close> is the environment that gives up the
  processor for the \<open>i\<close>-th time and \<open>ss i\<close> the state it does so in, until \<open>x\<close> runs.  Between two such states
  anything may happen (user code, system calls, other processors), but the environment that gives up the
  processor is the one the scheduler has chosen last, it is still \<^verbatim>\<open>ENV_RUNNING\<close>, and \<open>x\<close> is still runnable.\<close>

definition yield_run :: "nat \<Rightarrow> (nat \<Rightarrow> nat) \<Rightarrow> (nat \<Rightarrow> kst) \<Rightarrow> bool" where
  "yield_run x es ss \<longleftrightarrow> (\<forall>i. (\<forall>j \<le> i. es j \<noteq> x) \<longrightarrow> user_running (es i) (ss i) \<and> env_status (envs (ss i) x) = ENV_RUNNABLE \<and>
     (\<forall>e t. yield_once (ss i) = Some (e, t) \<longrightarrow> es (Suc i) = e))"

lemma circ_dist_pos: "c < 1024 \<Longrightarrow> x < 1024 \<Longrightarrow> c \<noteq> x \<Longrightarrow> 0 < circ_dist c x"
  using circ_add_dist [of c x] by (cases "circ_dist c x") auto

text \<open>C13: no waiting environment is passed over for ever.  In every run of a processor in which the running
  environments give up the processor while they are \<^verbatim>\<open>ENV_RUNNING\<close>, whatever else they and the other
  processors do, an environment that stays runnable is chosen within as many yields as its distance from the
  environment that was running at first, fewer than \<open>NENV\<close>.  (The condition on the status is needed: an
  environment that makes itself runnable before it yields is chosen again at once.)\<close>

theorem sched_yield_fair:
  assumes "yield_run x es ss" "x < NENV"
  shows "\<exists>n \<le> circ_dist (es 0) x. es n = x \<and> circ_dist (es 0) x < NENV"
proof -
  have "\<exists>n \<le> i + circ_dist (es i) x. es n = x" if "\<forall>j < i. es j \<noteq> x" for i
    using that
  proof (induction "circ_dist (es i) x" arbitrary: i rule: less_induct)
    case less
    show ?case
    proof (cases "es i = x")
      case True thus ?thesis by (intro exI [of _ i]) simp
    next
      case False
      hence w: "\<forall>j \<le> i. es j \<noteq> x" using less.prems by (auto simp: le_less)
      note r = assms(1) [unfolded yield_run_def, rule_format, OF w [rule_format]]
      have u: "user_running (es i) (ss i)" "env_status (envs (ss i) x) = ENV_RUNNABLE" using r by simp_all
      obtain e t where e: "yield_once (ss i) = Some (e, t)" "e = x \<or> circ_dist e x < circ_dist (es i) x"
        using yield_once_step [OF u(1) assms(2) u(2)] by blast
      have n: "es (Suc i) = e" using r e(1) by blast
      have "0 < circ_dist (es i) x"
        using circ_dist_pos [of "es i" x] u(1) assms(2) False by (simp add: user_running_def)
      moreover have "\<exists>n \<le> i + circ_dist (es i) x. es n = x" if "e \<noteq> x"
      proof -
        have d: "Suc i + circ_dist e x \<le> i + circ_dist (es i) x" using e(2) that by simp
        have "circ_dist (es (Suc i)) x < circ_dist (es i) x" using e(2) n that by simp
        moreover have "\<forall>j < Suc i. es j \<noteq> x" using w by (simp add: less_Suc_eq_le)
        ultimately obtain k where k: "k \<le> Suc i + circ_dist (es (Suc i)) x" "es k = x"
          using less.hyps by blast
        have "k \<le> i + circ_dist (es i) x" using k(1) d unfolding n by (rule le_trans)
        thus ?thesis using k(2) by blast
      qed
      ultimately show ?thesis using n by (cases "e = x") (auto intro!: exI [of _ "Suc i"])
    qed
  qed
  from this [of 0] show ?thesis by simp
qed

text \<open>The run in which every environment yields as soon as it runs.\<close>

fun yielding :: "kst \<Rightarrow> nat \<Rightarrow> nat \<times> kst" where
  "yielding s 0 = (case curenv s of Some c \<Rightarrow> (c, s) | None \<Rightarrow> (0, s))"
| "yielding s (Suc n) = (case yield_once (snd (yielding s n)) of Some r \<Rightarrow> r | None \<Rightarrow> yielding s n)"

lemma yielding_run:
  assumes "user_running c s" "x < NENV" "env_status (envs s x) = ENV_RUNNABLE"
  shows "yield_run x (fst \<circ> yielding s) (snd \<circ> yielding s)"
proof -
  have "user_running (fst (yielding s i)) (snd (yielding s i)) \<and> env_status (envs (snd (yielding s i)) x) = ENV_RUNNABLE"
    if "\<forall>j \<le> i. fst (yielding s j) \<noteq> x" for i
    using that
  proof (induction i)
    case 0
    have "curenv s = Some c" using assms(1) by (simp add: user_running_def)
    thus ?case using assms by simp
  next
    case (Suc i)
    hence "user_running (fst (yielding s i)) (snd (yielding s i))" "env_status (envs (snd (yielding s i)) x) = ENV_RUNNABLE"
      by simp_all
    then obtain e t where "yield_once (snd (yielding s i)) = Some (e, t)" "user_running e t"
      "e = x \<or> env_status (envs t x) = ENV_RUNNABLE"
      using yield_once_step assms(2) by blast
    thus ?case using Suc.prems [rule_format, of "Suc i"] by simp
  qed
  thus ?thesis by (simp add: yield_run_def)
qed

theorem sched_yield_fair_witness:
  "\<exists>n \<le> 2. fst (yielding (demo_sched\<lparr>klock := None\<rparr>) n) = 2"
proof -
  let ?s = "demo_sched\<lparr>klock := None\<rparr>"
  have c: "curenv ?s = Some 0" using demo_sched_fields(4) by (simp add: curenv_def)
  hence "user_running 0 ?s"
    using demo_sched_ids by (simp add: user_running_def env_ids_ok_def demo_sched_status)
  note r = yielding_run [OF this, of 2]
  have "circ_dist (fst (yielding ?s 0)) 2 = 2" by (simp add: c circ_dist_def)
  with sched_yield_fair [OF r] show ?thesis by (auto simp: demo_sched_status)
qed

text \<open>No environment is current on two processors, and what is current somewhere is not
  runnable.\<close>

definition cpu_excl :: "kst \<Rightarrow> bool" where
  "cpu_excl s \<longleftrightarrow> (\<forall>c d e. c \<noteq> d \<longrightarrow> cpu_env (cpus s c) = Some e \<longrightarrow> cpu_env (cpus s d) \<noteq> Some e) \<and>
     (\<forall>c e. c \<noteq> cpunum s \<longrightarrow> cpu_env (cpus s c) = Some e \<longrightarrow> env_status (envs s e) \<noteq> ENV_RUNNABLE)"

text \<open>The scheduler by itself keeps this: it never makes an environment current on a second processor.  (What the
  whole kernel keeps, and what breaks it, is in \<open>Smp\<close>.)\<close>

theorem sched_yield_exclusive:
  assumes "cpu_excl s" "sched_ready s" "sched_yield s = NoReturn (ToUser e) t"
  shows "cpu_excl t \<and> (\<forall>c. c \<noteq> cpunum s \<longrightarrow> cpu_env (cpus t c) \<noteq> Some e)"
proof -
  have r: "t = switched e s \<and> (env_status (envs s e) = ENV_RUNNABLE \<or> curenv s = Some e)"
  proof (cases "sched_scan (sched_start s) [0..<NENV] s")
    case (Some i)
    hence i: "i < 1024" "env_status (envs s i) = ENV_RUNNABLE"
      using sched_scan_circ [of "sched_start s" s i] by simp_all
    have "KERNBASE \<le> env_pgdir (envs s i)"
      using assms(2) i by (simp add: sched_ready_def env_ids_ok_def)
    thus ?thesis using Some assms(2,3) i env_run_enters [of s i]
      by (auto simp: sched_yield_def sched_ready_def)
  next
    case None
    show ?thesis
    proof (cases "curenv s")
      case N: None
      thus ?thesis using None assms(3)
        by (auto simp: sched_yield_def sched_halt_def Let_def PADDR_def unlock_kernel_def split: if_splits)
    next
      case (Some c)
      have "KERNBASE \<le> env_pgdir (envs s c)"
        using assms(2) Some by (simp add: sched_ready_def env_ids_ok_def)
      thus ?thesis using None Some assms(2,3) env_run_enters [of s c]
        by (auto simp: sched_yield_def sched_halt_def sched_ready_def Let_def PADDR_def
            unlock_kernel_def split: if_splits)
    qed
  qed
  have other: "cpu_env (cpus s c) \<noteq> Some e" if "c \<noteq> cpunum s" for c
    using r assms(1) that unfolding cpu_excl_def curenv_def by metis
  have me: "cpu_env (cpus t (cpunum s)) = Some e"
    using r switched_fields(1) [of e s] by (simp add: curenv_def)
  have oth: "c \<noteq> cpunum s \<Longrightarrow> cpu_env (cpus t c) = cpu_env (cpus s c)" for c using r by simp
  have stat: "env_status (envs t x) \<noteq> ENV_RUNNABLE"
    if "c \<noteq> cpunum s" "cpu_env (cpus s c) = Some x" for c x
  proof -
    have "curenv s \<noteq> Some x" using assms(1) that unfolding cpu_excl_def curenv_def by metis
    thus ?thesis using r assms(1) that unfolding cpu_excl_def by (auto simp: switched_status)
  qed
  have "cpu_excl t"
    using r other me oth stat assms(1) unfolding cpu_excl_def
    by (metis switched_fields(3))
  thus ?thesis using other oth by simp
qed

theorem sched_yield_exclusive_witness:
  "\<exists>e t. sched_yield demo_sched = NoReturn (ToUser e) t \<and> cpu_excl t"
proof -
  have x: "cpu_excl demo_sched" by (simp add: cpu_excl_def)
  have "sched_scan (sched_start demo_sched) [0..<NENV] demo_sched \<noteq> None"
  proof
    assume "sched_scan (sched_start demo_sched) [0..<NENV] demo_sched = None"
    hence "\<forall>x < 1024. env_status (envs demo_sched x) \<noteq> ENV_RUNNABLE"
      by (simp only: sched_scan_circ_None [OF sched_start_less])
    hence "2 < (1024 :: nat) \<longrightarrow> env_status (envs demo_sched 2) \<noteq> ENV_RUNNABLE" by blast
    thus False by (simp add: demo_sched_status)
  qed
  then obtain e where "sched_scan (sched_start demo_sched) [0..<NENV] demo_sched = Some e" by blast
  hence e: "e < 1024" "env_status (envs demo_sched e) = ENV_RUNNABLE"
    "\<forall>x < 1024. env_status (envs demo_sched x) = ENV_RUNNABLE \<longrightarrow>
       circ_dist (sched_start demo_sched) e \<le> circ_dist (sched_start demo_sched) x"
    using sched_scan_circ [of "sched_start demo_sched" demo_sched e] by auto
  note y = sched_yield_runnable [OF demo_sched_ready e]
  show ?thesis using sched_yield_exclusive [OF x demo_sched_ready y] y by blast
qed
end

