(* ===== verification/Console.thy ===== *)
theory Console
  imports Kstate Fifo
begin

text \<open>
  The console driver (\<^verbatim>\<open>kern/console.c\<close>): the keyboard's scan codes and shift state, the
  circular input buffer that keyboard and serial port feed, and output to the serial port and
  to the text screen.  Delay loops, port initialisation and the parallel port are not modelled;
  the reboot on Ctrl-Alt-Del is not represented in the state.
\<close>

section \<open>The keyboard\<close>

definition SHIFT :: u32 where [simp]: "SHIFT = 1"
definition CTL :: u32 where [simp]: "CTL = 2"
definition ALT :: u32 where [simp]: "ALT = 4"
definition CAPSLOCK :: u32 where [simp]: "CAPSLOCK = 8"
definition NUMLOCK :: u32 where [simp]: "NUMLOCK = 16"
definition SCROLLLOCK :: u32 where [simp]: "SCROLLLOCK = 32"
definition E0ESC :: u32 where [simp]: "E0ESC = 64"

definition shiftcode :: "u8 \<Rightarrow> u32" where
  "shiftcode d = (if d = 0x1D then CTL else if d = 0x2A then SHIFT else if d = 0x36 then SHIFT
     else if d = 0x38 then ALT else if d = 0x9D then CTL else if d = 0xB8 then ALT else 0)"

definition togglecode :: "u8 \<Rightarrow> u32" where
  "togglecode d = (if d = 0x3A then CAPSLOCK else if d = 0x45 then NUMLOCK
     else if d = 0x46 then SCROLLLOCK else 0)"

definition normalmap_rows :: "u8 list" where
  "normalmap_rows = [
     0x00, 0x1B, 0x31, 0x32, 0x33, 0x34, 0x35, 0x36,
     0x37, 0x38, 0x39, 0x30, 0x2D, 0x3D, 0x08, 0x09,
     0x71, 0x77, 0x65, 0x72, 0x74, 0x79, 0x75, 0x69,
     0x6F, 0x70, 0x5B, 0x5D, 0x0A, 0x00, 0x61, 0x73,
     0x64, 0x66, 0x67, 0x68, 0x6A, 0x6B, 0x6C, 0x3B,
     0x27, 0x60, 0x00, 0x5C, 0x7A, 0x78, 0x63, 0x76,
     0x62, 0x6E, 0x6D, 0x2C, 0x2E, 0x2F, 0x00, 0x2A,
     0x00, 0x20, 0x00, 0x00, 0x00, 0x00, 0x00, 0x00,
     0x00, 0x00, 0x00, 0x00, 0x00, 0x00, 0x00, 0x37,
     0x38, 0x39, 0x2D, 0x34, 0x35, 0x36, 0x2B, 0x31,
     0x32, 0x33, 0x30, 0x2E, 0x00, 0x00, 0x00, 0x00]"

definition normalmap :: "u8 \<Rightarrow> u8" where
  "normalmap d = (if unat d < length normalmap_rows then normalmap_rows ! unat d
     else if d = 0xC7 then 0xE0
     else if d = 0x9C then 0x0A
     else if d = 0xB5 then 0x2F
     else if d = 0xC8 then 0xE2
     else if d = 0xC9 then 0xE6
     else if d = 0xCB then 0xE4
     else if d = 0xCD then 0xE5
     else if d = 0xCF then 0xE1
     else if d = 0xD0 then 0xE3
     else if d = 0xD1 then 0xE7
     else if d = 0xD2 then 0xE8
     else if d = 0xD3 then 0xE9
     else 0)"

definition shiftmap_rows :: "u8 list" where
  "shiftmap_rows = [
     0x00, 0x1B, 0x21, 0x40, 0x23, 0x24, 0x25, 0x5E,
     0x26, 0x2A, 0x28, 0x29, 0x5F, 0x2B, 0x08, 0x09,
     0x51, 0x57, 0x45, 0x52, 0x54, 0x59, 0x55, 0x49,
     0x4F, 0x50, 0x7B, 0x7D, 0x0A, 0x00, 0x41, 0x53,
     0x44, 0x46, 0x47, 0x48, 0x4A, 0x4B, 0x4C, 0x3A,
     0x22, 0x7E, 0x00, 0x7C, 0x5A, 0x58, 0x43, 0x56,
     0x42, 0x4E, 0x4D, 0x3C, 0x3E, 0x3F, 0x00, 0x2A,
     0x00, 0x20, 0x00, 0x00, 0x00, 0x00, 0x00, 0x00,
     0x00, 0x00, 0x00, 0x00, 0x00, 0x00, 0x00, 0x37,
     0x38, 0x39, 0x2D, 0x34, 0x35, 0x36, 0x2B, 0x31,
     0x32, 0x33, 0x30, 0x2E, 0x00, 0x00, 0x00, 0x00]"

definition shiftmap :: "u8 \<Rightarrow> u8" where
  "shiftmap d = (if unat d < length shiftmap_rows then shiftmap_rows ! unat d
     else if d = 0xC7 then 0xE0
     else if d = 0x9C then 0x0A
     else if d = 0xB5 then 0x2F
     else if d = 0xC8 then 0xE2
     else if d = 0xC9 then 0xE6
     else if d = 0xCB then 0xE4
     else if d = 0xCD then 0xE5
     else if d = 0xCF then 0xE1
     else if d = 0xD0 then 0xE3
     else if d = 0xD1 then 0xE7
     else if d = 0xD2 then 0xE8
     else if d = 0xD3 then 0xE9
     else 0)"

definition ctlmap_rows :: "u8 list" where
  "ctlmap_rows = [
     0x00, 0x00, 0x00, 0x00, 0x00, 0x00, 0x00, 0x00,
     0x00, 0x00, 0x00, 0x00, 0x00, 0x00, 0x00, 0x00,
     0x11, 0x17, 0x05, 0x12, 0x14, 0x19, 0x15, 0x09,
     0x0F, 0x10, 0x00, 0x00, 0x0D, 0x00, 0x01, 0x13,
     0x04, 0x06, 0x07, 0x08, 0x0A, 0x0B, 0x0C, 0x00,
     0x00, 0x00, 0x00, 0x1C, 0x1A, 0x18, 0x03, 0x16,
     0x02, 0x0E, 0x0D, 0x00, 0x00, 0xEF, 0x00, 0x00]"

definition ctlmap :: "u8 \<Rightarrow> u8" where
  "ctlmap d = (if unat d < length ctlmap_rows then ctlmap_rows ! unat d
     else if d = 0x97 then 0xE0
     else if d = 0xB5 then 0xEF
     else if d = 0xC8 then 0xE2
     else if d = 0xC9 then 0xE6
     else if d = 0xCB then 0xE4
     else if d = 0xCD then 0xE5
     else if d = 0xCF then 0xE1
     else if d = 0xD0 then 0xE3
     else if d = 0xD1 then 0xE7
     else if d = 0xD2 then 0xE8
     else if d = 0xD3 then 0xE9
     else 0)"

definition charcode :: "u32 \<Rightarrow> u8 \<Rightarrow> u8" where
  "charcode k d = (if k = 0 then normalmap d else if k = 1 then shiftmap d
     else ctlmap d)"

text \<open>One byte of the keyboard controller: the character it completes, or 0.\<close>

definition kbd_proc_data :: "u8 \<Rightarrow> kst \<Rightarrow> u8 \<times> kst" where
  "kbd_proc_data data s =
    (let shift = kbd_shift s
     in if data = 0xE0 then (0, s\<lparr>kbd_shift := shift OR E0ESC\<rparr>)
        else if data AND 0x80 \<noteq> 0
        then let data = (if shift AND E0ESC \<noteq> 0 then data else data AND 0x7F)
             in (0, s\<lparr>kbd_shift := shift AND NOT (shiftcode data OR E0ESC)\<rparr>)
        else
          let data = (if shift AND E0ESC \<noteq> 0 then data OR 0x80 else data);
              shift = (if shift AND E0ESC \<noteq> 0 then shift AND NOT E0ESC else shift);
              shift = shift OR shiftcode data;
              shift = xor shift (togglecode data);
              c = charcode (shift AND (CTL OR SHIFT)) data;
              c = (if shift AND CAPSLOCK \<noteq> 0
                   then if 0x61 \<le> c \<and> c \<le> 0x7A then c - 0x20
                        else if 0x41 \<le> c \<and> c \<le> 0x5A then c + 0x20 else c
                   else c)
          in (c, s\<lparr>kbd_shift := shift\<rparr>))"

section \<open>The input buffer\<close>

definition CONSBUFSIZE :: nat where [simp]: "CONSBUFSIZE = 512"

text \<open>The body of the loop of \<^verbatim>\<open>cons_intr\<close> for one character.\<close>

definition cons_store :: "u8 \<Rightarrow> kst \<Rightarrow> kst" where
  "cons_store c s =
    (if c = 0 then s
     else let s = s\<lparr>cons_buf := (cons_buf s)(unat (cons_wpos s) := c),
                    cons_wpos := cons_wpos s + 1\<rparr>
          in if cons_wpos s = of_nat CONSBUFSIZE then s\<lparr>cons_wpos := 0\<rparr> else s)"

definition serial_intr :: "kst \<Rightarrow> kst" where
  "serial_intr s = (if serial_exists s
     then (fold cons_store (serial_in s) s)\<lparr>serial_in := []\<rparr> else s)"

fun kbd_drain :: "u8 list \<Rightarrow> kst \<Rightarrow> kst" where
  "kbd_drain [] s = s"
| "kbd_drain (d # ds) s = (let (c, s) = kbd_proc_data d s in kbd_drain ds (cons_store c s))"

definition kbd_intr :: "kst \<Rightarrow> kst" where
  "kbd_intr s = (kbd_drain (kbd_in s) s)\<lparr>kbd_in := []\<rparr>"

text \<open>The buffer part of \<^verbatim>\<open>cons_getc\<close>.\<close>

definition cons_fetch :: "kst \<Rightarrow> (u8 \<times> kst) option" where
  "cons_fetch s =
    (if cons_rpos s \<noteq> cons_wpos s
     then let c = cons_buf s (unat (cons_rpos s));
              s = s\<lparr>cons_rpos := cons_rpos s + 1\<rparr>;
              s = (if cons_rpos s = of_nat CONSBUFSIZE then s\<lparr>cons_rpos := 0\<rparr> else s)
          in Some (c, s)
     else None)"

definition cons_getc :: "kst \<Rightarrow> u32 \<times> kst" where
  "cons_getc s =
    (let s = serial_intr s; s = kbd_intr s
     in case cons_fetch s of Some (c, s) \<Rightarrow> (ucast c, s) | None \<Rightarrow> (0, s))"

section \<open>Output\<close>

definition CRT_COLS :: nat where [simp]: "CRT_COLS = 80"
definition CRT_ROWS :: nat where [simp]: "CRT_ROWS = 25"
definition CRT_SIZE :: nat where "CRT_SIZE = CRT_ROWS * CRT_COLS"

lemma CRT_SIZE_val [simp]: "CRT_SIZE = 2000"
  by (simp add: CRT_SIZE_def)

text \<open>The last part of \<^verbatim>\<open>cga_putc\<close>: a full screen scrolls up by a line.\<close>

definition cga_scroll :: "kst \<Rightarrow> kst" where
  "cga_scroll s =
    (if of_nat CRT_SIZE \<le> crt_pos s
     then s\<lparr>crt_buf := (\<lambda>i. if i < CRT_SIZE - CRT_COLS then crt_buf s (i + CRT_COLS)
                 else if i < CRT_SIZE then 0x0720 else crt_buf s i),
            crt_pos := crt_pos s - of_nat CRT_COLS\<rparr>
     else s)"

definition cga_newline :: "kst \<Rightarrow> kst" where
  "cga_newline s = s\<lparr>crt_pos := crt_pos s - crt_pos s mod of_nat CRT_COLS\<rparr>"

text \<open>\<^verbatim>\<open>cga_putc\<close> for a character other than a tab.\<close>

definition cga_putc1 :: "u32 \<Rightarrow> kst \<Rightarrow> kst" where
  "cga_putc1 c s =
    (let c = (if c AND NOT 0xFF = 0 then c OR 0x0700 else c);
         k = c AND 0xff;
         s = (if k = 8
              then if 0 < crt_pos s
                   then let p = crt_pos s - 1
                        in s\<lparr>crt_pos := p, crt_buf := (crt_buf s)(unat p := ucast ((c AND NOT 0xff) OR 0x20))\<rparr>
                   else s
              else if k = 10 then cga_newline (s\<lparr>crt_pos := crt_pos s + of_nat CRT_COLS\<rparr>)
              else if k = 13 then cga_newline s
              else s\<lparr>crt_buf := (crt_buf s)(unat (crt_pos s) := ucast c), crt_pos := crt_pos s + 1\<rparr>)
     in cga_scroll s)"

definition serial_putc :: "u32 \<Rightarrow> kst \<Rightarrow> kst" where
  "serial_putc c s = s\<lparr>cons_out := cons_out s @ [ucast c]\<rparr>"

text \<open>\<^verbatim>\<open>cons_putc\<close> and \<^verbatim>\<open>cga_putc\<close> call each other: a tab on the screen puts five blanks on the
  whole console.\<close>

definition cons_putc1 :: "u32 \<Rightarrow> kst \<Rightarrow> kst" where
  "cons_putc1 c s = cga_putc1 c (serial_putc c s)"

definition cons_putc :: "u32 \<Rightarrow> kst \<Rightarrow> kst" where
  "cons_putc c s =
    (if c AND 0xff = 9
     then cga_scroll ((cons_putc1 0x20 ^^ 5) (serial_putc c s))
     else cons_putc1 c s)"

definition cputchar :: "u32 \<Rightarrow> kst \<Rightarrow> kst" where
  "cputchar c s = cons_putc c s"

section \<open>The input buffer is a queue\<close>

text \<open>The unread characters are those from \<open>rpos\<close> up to \<open>wpos\<close>, around the end of the buffer.\<close>

definition cons_rep :: "kst \<Rightarrow> u8 list \<Rightarrow> bool" where
  "cons_rep s xs \<longleftrightarrow> unat (cons_rpos s) < CONSBUFSIZE \<and> length xs < CONSBUFSIZE \<and>
     unat (cons_wpos s) = (unat (cons_rpos s) + length xs) mod CONSBUFSIZE \<and>
     (\<forall>i < length xs. xs ! i = cons_buf s ((unat (cons_rpos s) + i) mod CONSBUFSIZE)) \<and>
     0 \<notin> set xs"

lemma mod_add_Suc: "(a + Suc b) mod n = (if Suc ((a + b) mod n) = n then 0 else Suc ((a + b) mod n))"
  if "0 < n" for a b n :: nat
  using that by (simp add: mod_Suc)

lemma unat_succ_512:
  assumes "unat (w :: u32) < 512"
  shows "unat (w + 1) = Suc (unat w)" "w + 1 = 512 \<longleftrightarrow> Suc (unat w) = 512"
proof -
  show u: "unat (w + 1) = Suc (unat w)" using assms by (simp add: unat_word_ariths)
  show "w + 1 = 512 \<longleftrightarrow> Suc (unat w) = 512" using u by (simp add: word_unat_eq_iff)
qed

lemma cons_store_fields:
  assumes "c \<noteq> 0" "unat (cons_wpos s) < CONSBUFSIZE"
  shows "cons_rpos (cons_store c s) = cons_rpos s"
    and "unat (cons_wpos (cons_store c s)) = Suc (unat (cons_wpos s)) mod CONSBUFSIZE"
    and "cons_buf (cons_store c s) = (cons_buf s)(unat (cons_wpos s) := c)"
  using assms unat_succ_512 [of "cons_wpos s"] by (simp_all add: cons_store_def Let_def)

lemma cons_rep_wpos: "cons_rep s xs \<Longrightarrow> unat (cons_wpos s) < CONSBUFSIZE"
  by (simp add: cons_rep_def)

lemma ring_slots:
  "r < n \<Longrightarrow> i < k \<Longrightarrow> k < n \<Longrightarrow> (r + i) mod n \<noteq> (r + k) mod (n :: nat)"
  by (auto simp: mod_if)

lemma cons_store_rep:
  assumes c: "c \<noteq> 0" and rep: "cons_rep s xs" and room: "length xs < 511"
  shows "cons_rep (cons_store c s) (xs @ [c])"
proof -
  let ?r = "unat (cons_rpos s)" and ?t = "cons_store c s"
  note w = cons_rep_wpos [OF rep] and f = cons_store_fields [OF c cons_rep_wpos [OF rep]]
  have wp: "unat (cons_wpos s) = (?r + length xs) mod 512" and r: "?r < 512"
    and sl: "\<forall>i < length xs. xs ! i = cons_buf s ((?r + i) mod 512)"
    using rep by (simp_all add: cons_rep_def)
  have "(xs @ [c]) ! i = cons_buf ?t ((?r + i) mod 512)" if i: "i < Suc (length xs)" for i
  proof (cases "i = length xs")
    case True thus ?thesis by (simp add: f(3) wp)
  next
    case False
    hence l: "i < length xs" using i by simp
    have "(?r + i) mod 512 \<noteq> (?r + length xs) mod 512"
      using ring_slots [OF r l] room by simp
    thus ?thesis using sl l by (simp add: f(3) wp nth_append)
  qed
  moreover have "unat (cons_wpos ?t) = (?r + length (xs @ [c])) mod 512"
    using f(2) wp by (simp add: mod_Suc_eq)
  ultimately show ?thesis using r c room rep by (auto simp: cons_rep_def f(1))
qed

lemma cons_fetch_empty: "cons_rep s [] \<Longrightarrow> cons_fetch s = None"
  by (simp add: cons_rep_def cons_fetch_def word_unat_eq_iff)

lemma cons_fetch_cons:
  assumes rep: "cons_rep s (x # xs)"
  shows "\<exists>t. cons_fetch s = Some (x, t) \<and> cons_rep t xs"
proof -
  let ?r = "unat (cons_rpos s)"
  have r: "?r < 512" and l: "length xs < 511"
    and wp: "unat (cons_wpos s) = (?r + Suc (length xs)) mod 512"
    and sl: "\<forall>i < Suc (length xs). (x # xs) ! i = cons_buf s ((?r + i) mod 512)"
    and nz: "0 \<notin> set xs"
    using rep by (simp_all add: cons_rep_def)
  have ne: "cons_rpos s \<noteq> cons_wpos s"
    using ring_slots [OF r, of 0 "Suc (length xs)"] l r wp by (simp add: word_unat_eq_iff)
  obtain t where t: "cons_fetch s = Some (cons_buf s ?r, t)"
    "unat (cons_rpos t) = Suc ?r mod 512" "cons_wpos t = cons_wpos s" "cons_buf t = cons_buf s"
    using ne unat_succ_512 [of "cons_rpos s"] r by (auto simp: cons_fetch_def Let_def)
  have "xs ! i = cons_buf t ((unat (cons_rpos t) + i) mod 512)" if "i < length xs" for i
    using sl [rule_format, of "Suc i"] that by (simp add: t mod_simps)
  moreover have "unat (cons_wpos t) = (unat (cons_rpos t) + length xs) mod 512"
    by (simp add: t wp mod_simps)
  ultimately have "cons_rep t xs" using l nz by (simp add: cons_rep_def t(2))
  moreover have "cons_buf s ?r = x" using sl [rule_format, of 0] r by simp
  ultimately show ?thesis using t(1) by simp
qed

interpretation cons_queue: fifo "\<lambda>c. c \<noteq> 0" cons_rep "\<lambda>_ xs. 511 - length xs" cons_store cons_fetch
  by unfold_locales (auto intro: cons_store_rep cons_fetch_empty dest: cons_fetch_cons)

text \<open>Zero bytes leave the buffer alone, so the devices may deliver them.\<close>

lemma cons_store_zero [simp]: "cons_store 0 s = s"
  by (simp add: cons_store_def)

lemma fold_cons_store_filter: "fold cons_store cs s = fold cons_store (filter (\<lambda>c. c \<noteq> 0) cs) s"
  by (induction cs arbitrary: s) auto

text \<open>The characters that the keyboard's bytes complete, in order.\<close>

fun kbd_chars :: "u8 list \<Rightarrow> kst \<Rightarrow> u8 list" where
  "kbd_chars [] s = []"
| "kbd_chars (d # ds) s = fst (kbd_proc_data d s) # kbd_chars ds (snd (kbd_proc_data d s))"

lemma kbd_proc_data_only_shift:
  "\<exists>k. snd (kbd_proc_data d s) = s\<lparr>kbd_shift := k\<rparr>"
  by (auto simp: kbd_proc_data_def Let_def)

lemma kbd_shift_upd: "kbd_shift (s\<lparr>kbd_shift := k\<rparr>) = k"
  by simp

lemma kbd_proc_data_cong:
  assumes "kbd_shift s = kbd_shift t"
  shows "fst (kbd_proc_data d s) = fst (kbd_proc_data d t) \<and>
    kbd_shift (snd (kbd_proc_data d s)) = kbd_shift (snd (kbd_proc_data d t))"
  unfolding kbd_proc_data_def Let_def assms
  by (cases "d = 0xE0"; cases "d AND 0x80 \<noteq> 0") (simp_all split del: if_split)

lemma kbd_chars_cong: "kbd_shift s = kbd_shift t \<Longrightarrow> kbd_chars ds s = kbd_chars ds t"
proof (induction ds arbitrary: s t)
  case (Cons d ds)
  note p = kbd_proc_data_cong [OF Cons.prems, of d]
  have "kbd_chars ds (snd (kbd_proc_data d s)) = kbd_chars ds (snd (kbd_proc_data d t))"
    by (rule Cons.IH) (rule conjunct2 [OF p])
  thus ?case by (simp only: kbd_chars.simps conjunct1 [OF p])
qed simp

lemma kbd_shift_store [simp]: "kbd_shift (cons_store c s) = kbd_shift s"
  by (simp add: cons_store_def Let_def)

lemma kbd_drain_store:
  "\<exists>k. kbd_drain ds s = (fold cons_store (kbd_chars ds s) s)\<lparr>kbd_shift := k\<rparr>"
proof (induction ds arbitrary: s)
  case Nil
  have "kbd_drain [] s = s\<lparr>kbd_shift := kbd_shift s\<rparr>" by simp
  thus ?case by (metis kbd_chars.simps(1) fold_simps(1))
next
  case (Cons d ds)
  obtain c t where ct: "kbd_proc_data d s = (c, t)" by fastforce
  obtain j where j: "t = s\<lparr>kbd_shift := j\<rparr>" using kbd_proc_data_only_shift [of d s] ct by auto
  have sw: "cons_store c (u\<lparr>kbd_shift := j\<rparr>) = (cons_store c u)\<lparr>kbd_shift := j\<rparr>" for c u
    by (simp add: cons_store_def Let_def)
  have fsw: "fold cons_store cs (u\<lparr>kbd_shift := j\<rparr>) = (fold cons_store cs u)\<lparr>kbd_shift := j\<rparr>" for cs u
    by (induction cs arbitrary: u) (simp_all add: sw)
  obtain k where "kbd_drain ds (cons_store c t) =
      (fold cons_store (kbd_chars ds (cons_store c t)) (cons_store c t))\<lparr>kbd_shift := k\<rparr>"
    using Cons.IH by blast
  moreover have "kbd_chars ds (cons_store c t) = kbd_chars ds t" by (rule kbd_chars_cong) simp
  ultimately show ?case by (auto simp: ct j sw fsw)
qed

text \<open>What the next reads will see, when both devices have been drained into the buffer.\<close>

definition pending_input :: "kst \<Rightarrow> u8 list" where
  "pending_input s = filter (\<lambda>c. c \<noteq> 0) (if serial_exists s then serial_in s else [])
     @ filter (\<lambda>c. c \<noteq> 0) (kbd_chars (kbd_in s) s)"

fun getc_many :: "nat \<Rightarrow> kst \<Rightarrow> u32 list \<times> kst" where
  "getc_many 0 s = ([], s)"
| "getc_many (Suc n) s = (let (c, t) = cons_getc s; (cs, u) = getc_many n t in (c # cs, u))"

lemma cons_rep_other [simp]:
  "cons_rep (s\<lparr>serial_in := xs\<rparr>) ys = cons_rep s ys"
  "cons_rep (s\<lparr>kbd_in := xs\<rparr>) ys = cons_rep s ys"
  "cons_rep (s\<lparr>kbd_shift := k\<rparr>) ys = cons_rep s ys"
  by (simp_all add: cons_rep_def)

lemma store_all_rep:
  assumes "cons_rep s xs" "length xs + length (filter (\<lambda>c. c \<noteq> 0) cs) \<le> 511"
  shows "cons_rep (fold cons_store cs s) (xs @ filter (\<lambda>c. c \<noteq> 0) cs)"
  unfolding fold_cons_store_filter [of cs]
  using cons_queue.enq_all_rep [of "filter (\<lambda>c. c \<noteq> 0) cs" s xs] assms
  by (simp add: cons_queue.enq_all_def list_all_iff)

lemma fold_cons_store_same [simp]:
  "serial_in (fold cons_store cs s) = serial_in s" "kbd_in (fold cons_store cs s) = kbd_in s"
  "serial_exists (fold cons_store cs s) = serial_exists s"
  "kbd_shift (fold cons_store cs s) = kbd_shift s"
  by (induction cs arbitrary: s) (simp_all add: cons_store_def Let_def)

lemma interrupts_rep:
  assumes "cons_rep s xs" "length xs + length (pending_input s) \<le> 511"
  shows "cons_rep (kbd_intr (serial_intr s)) (xs @ pending_input s)"
proof -
  let ?A = "if serial_exists s then serial_in s else []" and ?t = "serial_intr s"
  have t: "?t = (fold cons_store ?A s)\<lparr>serial_in := if serial_exists s then [] else serial_in s\<rparr>"
    by (simp add: serial_intr_def)
  have a: "cons_rep ?t (xs @ filter (\<lambda>c. c \<noteq> 0) ?A)"
    unfolding t using store_all_rep [OF assms(1), of ?A] assms(2) by (simp add: pending_input_def)
  have in_t: "kbd_in ?t = kbd_in s" "kbd_shift ?t = kbd_shift s" by (simp_all add: t)
  have k: "kbd_chars (kbd_in s) ?t = kbd_chars (kbd_in s) s"
    by (rule kbd_chars_cong) (simp add: in_t)
  obtain j where "kbd_intr ?t = ((fold cons_store (kbd_chars (kbd_in s) s) ?t)\<lparr>kbd_shift := j\<rparr>)\<lparr>kbd_in := []\<rparr>"
    using kbd_drain_store [of "kbd_in s" ?t] by (auto simp: kbd_intr_def in_t k)
  thus ?thesis
    using store_all_rep [OF a, of "kbd_chars (kbd_in s) s"] assms(2) by (simp add: pending_input_def)
qed

lemma interrupts_drain: "pending_input (kbd_intr (serial_intr s)) = []"
  using kbd_drain_store [of "kbd_in (serial_intr s)" "serial_intr s"]
  by (auto simp: pending_input_def kbd_intr_def serial_intr_def)

lemma kbd_chars_rpos [simp]: "kbd_chars ds (s\<lparr>cons_rpos := r\<rparr>) = kbd_chars ds s"
  by (rule kbd_chars_cong) simp

lemma pending_input_fetch:
  "pending_input t = [] \<Longrightarrow> cons_fetch t = Some (c, u) \<Longrightarrow> pending_input u = []"
  by (auto simp: cons_fetch_def Let_def pending_input_def filter_empty_conv split: if_splits)

lemma cons_getc_step:
  assumes "cons_rep s xs" "length xs + length (pending_input s) \<le> 511"
  shows "case xs @ pending_input s of
      [] \<Rightarrow> \<exists>t. cons_getc s = (0, t) \<and> cons_rep t [] \<and> pending_input t = []
    | c # cs \<Rightarrow> \<exists>t. cons_getc s = (ucast c, t) \<and> cons_rep t cs \<and> pending_input t = []"
proof (cases "xs @ pending_input s")
  case Nil
  thus ?thesis using interrupts_rep [OF assms] interrupts_drain [of s] cons_fetch_empty
    by (auto simp: cons_getc_def)
next
  case (Cons c cs)
  then obtain t where "cons_fetch (kbd_intr (serial_intr s)) = Some (c, t)" "cons_rep t cs"
    using interrupts_rep [OF assms] cons_fetch_cons by metis
  thus ?thesis using Cons pending_input_fetch [OF interrupts_drain] by (simp add: cons_getc_def)
qed

text \<open>C15: reading the console yields, in this order, the characters already buffered, those the
  serial port delivers and those the keyboard's scan codes complete, and then 0, as long as no more
  than 511 characters wait.\<close>

theorem console_reads_in_order:
  assumes "cons_rep s xs" "length xs + length (pending_input s) \<le> 511"
  shows "\<exists>t. getc_many (length (xs @ pending_input s) + 1) s
           = (map ucast (xs @ pending_input s) @ [0], t) \<and> cons_rep t []"
  using assms
proof (induction "xs @ pending_input s" arbitrary: s xs)
  case Nil
  thus ?case using cons_getc_step [OF Nil.prems] by (auto simp: Let_def)
next
  case (Cons c cs)
  obtain t where t: "cons_getc s = (ucast c, t)" "cons_rep t cs" "pending_input t = []"
    using cons_getc_step [OF Cons.prems] by (auto simp flip: Cons.hyps(2))
  have l: "length cs \<le> 511" using Cons.prems(2) Cons.hyps(2) by (metis length_Cons length_append Suc_leD)
  have "\<exists>u. getc_many (length cs + 1) t = (map ucast cs @ [0], u) \<and> cons_rep u []"
    using Cons.hyps(1) [of cs t] t l by simp
  thus ?case using t(1) by (auto simp: Let_def simp flip: Cons.hyps(2))
qed

text \<open>A console with two characters on the serial line and a shifted \<open>a\<close> on the keyboard.\<close>

definition demo_console :: kst where
  "demo_console = bss_kst\<lparr>serial_exists := True, serial_in := [0x68, 0, 0x69],
     kbd_in := [0x2A, 0x1E, 0x9E, 0xAA]\<rparr>"

theorem console_reads_in_order_witness:
  "cons_rep demo_console [] \<and> pending_input demo_console = [0x68, 0x69, 0x41] \<and>
   (\<exists>t. getc_many 4 demo_console = ([0x68, 0x69, 0x41, 0], t) \<and> cons_rep t [])"
proof -
  have p: "pending_input demo_console = [0x68, 0x69, 0x41]" by code_simp
  have r: "cons_rep demo_console []" by (simp add: cons_rep_def demo_console_def bss_kst_def)
  have l: "length [] + length (pending_input demo_console) \<le> 511" by (simp add: p)
  have n: "length ([] @ pending_input demo_console) + 1 = 4" by (simp add: p)
  show ?thesis using console_reads_in_order [OF r l, unfolded n] p r by (simp del: getc_many.simps)
qed

text \<open>The buffer of 512 bytes cannot hold 512 characters: when exactly that many arrive
  before a read, the indices meet again and the console looks empty, so all of them are lost.\<close>

theorem console_overflow_loses_input:
  assumes "cons_rep s []" "0 \<notin> set cs" "length cs = CONSBUFSIZE"
  shows "cons_fetch (fold cons_store cs s) = None"
proof -
  obtain bs c where cs: "cs = bs @ [c]" using assms(3) by (cases cs rule: rev_cases) auto
  let ?t = "fold cons_store bs s"
  have bs: "length bs = 511" "filter (\<lambda>c. c \<noteq> 0) bs = bs" "c \<noteq> 0"
    using assms(2,3) by (auto simp: cs filter_id_conv)
  have rep: "cons_rep ?t bs" using store_all_rep [OF assms(1), of bs] bs by simp
  have r: "unat (cons_rpos ?t) < 512" and w: "unat (cons_wpos ?t) = (unat (cons_rpos ?t) + 511) mod 512"
    using rep bs(1) by (simp_all add: cons_rep_def)
  have "unat (cons_wpos (cons_store c ?t)) = unat (cons_rpos ?t)"
    using cons_store_fields(2) [OF bs(3) cons_rep_wpos [OF rep]] w r by (simp add: mod_Suc_eq)
  moreover have "cons_rpos (cons_store c ?t) = cons_rpos ?t"
    by (rule cons_store_fields(1) [OF bs(3) cons_rep_wpos [OF rep]])
  ultimately show ?thesis by (simp add: cs cons_fetch_def word_unat_eq_iff)
qed

theorem console_overflow_loses_input_witness:
  "cons_fetch (fold cons_store (replicate 512 0x61) bss_kst) = None \<and>
   cons_fetch (fold cons_store (replicate 511 0x61) bss_kst) \<noteq> None"
proof
  have r: "cons_rep bss_kst []" by (simp add: cons_rep_def bss_kst_def)
  show "cons_fetch (fold cons_store (replicate 512 0x61) bss_kst) = None"
    by (rule console_overflow_loses_input [OF r]) simp_all
  have "cons_rep (fold cons_store (replicate 511 0x61) bss_kst) (replicate 511 0x61)"
    using store_all_rep [OF r, of "replicate 511 0x61"] by simp
  hence "cons_rep (fold cons_store (replicate 511 0x61) bss_kst) (0x61 # replicate 510 0x61)"
    by (metis eval_nat_numeral(3) replicate_Suc semiring_norm(26,27) eval_nat_numeral)
  thus "cons_fetch (fold cons_store (replicate 511 0x61) bss_kst) \<noteq> None"
    using cons_fetch_cons by fastforce
qed

section \<open>The screen\<close>

definition crt_ok :: "kst \<Rightarrow> bool" where
  "crt_ok s \<longleftrightarrow> unat (crt_pos s) < CRT_SIZE"

lemma unat_u16_of_nat: "n < 65536 \<Longrightarrow> unat (of_nat n :: u16) = n"
  by (simp add: unat_of_nat)

lemma cga_scroll_ok:
  "unat (crt_pos s) < CRT_SIZE + CRT_COLS \<Longrightarrow> crt_ok (cga_scroll s)"
  by (auto simp: cga_scroll_def crt_ok_def word_le_nat_alt unat_sub)

lemma cga_newline_pos: "unat (crt_pos (cga_newline s)) \<le> unat (crt_pos s)"
proof -
  have "unat (crt_pos s mod 80) \<le> unat (crt_pos s)" by (simp add: unat_mod_distrib)
  thus ?thesis by (simp add: cga_newline_def unat_sub word_le_nat_alt)
qed

lemma cga_putc1_ok: assumes "crt_ok s" shows "crt_ok (cga_putc1 c s)"
proof -
  have p: "unat (crt_pos s) < 2000" using assms by (simp add: crt_ok_def)
  have d: "unat (crt_pos s - 1) < 2000" if "0 < crt_pos s"
    using that p by (simp add: unat_sub word_le_nat_alt word_less_nat_alt)
  have nl: "unat (crt_pos (cga_newline (s\<lparr>crt_pos := crt_pos s + 80\<rparr>))) < 2080"
    using cga_newline_pos [of "s\<lparr>crt_pos := crt_pos s + 80\<rparr>"] p by (simp add: unat_word_ariths)
  have cr: "unat (crt_pos (cga_newline s)) < 2080" using cga_newline_pos [of s] p by simp
  have i: "unat (crt_pos s + 1) < 2080" using p by (simp add: unat_word_ariths)
  have "crt_ok (cga_scroll (if k = 8
      then if 0 < crt_pos s then s\<lparr>crt_pos := crt_pos s - 1, crt_buf := b\<rparr> else s
      else if k = 10 then cga_newline (s\<lparr>crt_pos := crt_pos s + of_nat CRT_COLS\<rparr>)
      else if k = 13 then cga_newline s
      else s\<lparr>crt_buf := b', crt_pos := crt_pos s + 1\<rparr>))" for k :: u32 and b b'
    by (rule cga_scroll_ok) (use p d nl cr i in auto)
  thus ?thesis unfolding cga_putc1_def Let_def by blast
qed

lemma cga_scroll_frame: "CRT_SIZE \<le> i \<Longrightarrow> crt_buf (cga_scroll s) i = crt_buf s i"
  by (simp add: cga_scroll_def)

lemma cga_putc1_frame:
  assumes "crt_ok s" "CRT_SIZE \<le> i" shows "crt_buf (cga_putc1 c s) i = crt_buf s i"
proof -
  have p: "unat (crt_pos s) < 2000" "unat (crt_pos s) \<noteq> i" using assms by (auto simp: crt_ok_def)
  have d: "unat (crt_pos s - 1) \<noteq> i" if "0 < crt_pos s"
    using that p assms(2) by (simp add: unat_sub word_le_nat_alt word_less_nat_alt)
  have "crt_buf (if k = 8
      then if 0 < crt_pos s then s\<lparr>crt_pos := crt_pos s - 1,
          crt_buf := (crt_buf s)(unat (crt_pos s - 1) := b)\<rparr> else s
      else if k = 10 then cga_newline (s\<lparr>crt_pos := crt_pos s + of_nat CRT_COLS\<rparr>)
      else if k = 13 then cga_newline s
      else s\<lparr>crt_buf := (crt_buf s)(unat (crt_pos s) := b'), crt_pos := crt_pos s + 1\<rparr>) i
    = crt_buf s i" for k :: u32 and b b'
    using p d by (auto simp: cga_newline_def)
  thus ?thesis unfolding cga_putc1_def Let_def cga_scroll_frame [OF assms(2)] by blast
qed

lemma serial_putc_screen [simp]:
  "crt_ok (serial_putc c s) = crt_ok s" "crt_buf (serial_putc c s) = crt_buf s"
  by (simp_all add: serial_putc_def crt_ok_def)

lemma cons_putc1_safe:
  assumes "crt_ok s"
  shows "crt_ok (cons_putc1 c s)" "CRT_SIZE \<le> i \<Longrightarrow> crt_buf (cons_putc1 c s) i = crt_buf s i"
  using cga_putc1_ok [of "serial_putc c s"] cga_putc1_frame [of "serial_putc c s" i] assms
  by (simp_all add: cons_putc1_def)

lemma blanks_safe:
  assumes "crt_ok s"
  shows "crt_ok ((cons_putc1 c ^^ n) s)"
    and "CRT_SIZE \<le> i \<Longrightarrow> crt_buf ((cons_putc1 c ^^ n) s) i = crt_buf s i"
  by (induction n) (simp_all add: assms cons_putc1_safe)

text \<open>C16: output never writes outside the 25 by 80 screen: the cursor stays on it and no cell past
  its end changes, whatever character is printed.\<close>

theorem cputchar_stays_on_screen:
  assumes "crt_ok s"
  shows "crt_ok (cputchar c s) \<and> (\<forall>i. CRT_SIZE \<le> i \<longrightarrow> crt_buf (cputchar c s) i = crt_buf s i)"
proof -
  let ?t = "(cons_putc1 0x20 ^^ 5) (serial_putc c s)"
  have t: "crt_ok ?t" "CRT_SIZE \<le> i \<Longrightarrow> crt_buf ?t i = crt_buf s i" for i
    using blanks_safe [where s = "serial_putc c s" and c = "0x20" and n = 5] assms
    by (simp_all del: funpow.simps)
  have "crt_ok (cga_scroll ?t)" using t(1) by (intro cga_scroll_ok) (simp add: crt_ok_def)
  thus ?thesis using t(2) cons_putc1_safe [OF assms]
    by (simp add: cputchar_def cons_putc_def cga_scroll_frame del: funpow.simps)
qed

theorem cputchar_stays_on_screen_witness:
  "crt_ok (cputchar 9 (bss_kst\<lparr>crt_pos := 1998\<rparr>)) \<and>
   crt_buf (cputchar 9 (bss_kst\<lparr>crt_pos := 1998\<rparr>)) 2000 = 0"
proof -
  let ?s = "bss_kst\<lparr>crt_pos := 1998\<rparr>"
  have "crt_ok ?s" by (simp add: crt_ok_def)
  from cputchar_stays_on_screen [OF this, of 9] show ?thesis by (auto simp: bss_kst_def)
qed

end
