(* ===== verification/Strings.thy ===== *)
theory Strings
  imports Prelude
begin

text \<open>
  The string and memory routines shared by the kernel and user programs
  (\<^verbatim>\<open>lib/string.c\<close>), on a byte-addressed 32-bit memory.  A loop that only a NUL byte ends is a
  partial function: it has no value when memory holds no NUL.  \<open>cstr m p xs\<close> says that the C
  string at \<open>p\<close> has the contents \<open>xs\<close>.
\<close>

type_synonym mem = "u32 \<Rightarrow> u8"

section \<open>The routines\<close>

partial_function (option) strlen_loop :: "mem \<Rightarrow> u32 \<Rightarrow> u32 \<Rightarrow> u32 option" where
  "strlen_loop m s n = (if m s \<noteq> 0 then strlen_loop m (s + 1) (n + 1) else Some n)"

definition strlen :: "mem \<Rightarrow> u32 \<Rightarrow> u32 option" where
  "strlen m s = strlen_loop m s 0"

fun strnlen_loop :: "mem \<Rightarrow> nat \<Rightarrow> u32 \<Rightarrow> u32 \<Rightarrow> u32" where
  "strnlen_loop m 0 s n = n"
| "strnlen_loop m (Suc k) s n = (if m s \<noteq> 0 then strnlen_loop m k (s + 1) (n + 1) else n)"

definition strnlen :: "mem \<Rightarrow> u32 \<Rightarrow> u32 \<Rightarrow> u32" where
  "strnlen m s sz = strnlen_loop m (unat sz) s 0"

partial_function (option) strcpy_loop :: "u32 \<Rightarrow> u32 \<Rightarrow> mem \<Rightarrow> mem option" where
  "strcpy_loop dst src m =
    (let m' = m(dst := m src)
     in if m src \<noteq> 0 then strcpy_loop (dst + 1) (src + 1) m' else Some m')"

definition strcpy :: "u32 \<Rightarrow> u32 \<Rightarrow> mem \<Rightarrow> (u32 \<times> mem) option" where
  "strcpy dst src m = (case strcpy_loop dst src m of None \<Rightarrow> None | Some m \<Rightarrow> Some (dst, m))"

definition strcat :: "u32 \<Rightarrow> u32 \<Rightarrow> mem \<Rightarrow> (u32 \<times> mem) option" where
  "strcat dst src m = (case strlen m dst of None \<Rightarrow> None
     | Some len \<Rightarrow> (case strcpy (dst + len) src m of None \<Rightarrow> None | Some (_, m) \<Rightarrow> Some (dst, m)))"

fun strncpy_loop :: "nat \<Rightarrow> u32 \<Rightarrow> u32 \<Rightarrow> mem \<Rightarrow> mem" where
  "strncpy_loop 0 dst src m = m"
| "strncpy_loop (Suc n) dst src m =
     (let m = m(dst := m src)
      in strncpy_loop n (dst + 1) (if m src \<noteq> 0 then src + 1 else src) m)"

definition strncpy :: "u32 \<Rightarrow> u32 \<Rightarrow> u32 \<Rightarrow> mem \<Rightarrow> u32 \<times> mem" where
  "strncpy dst src sz m = (dst, strncpy_loop (unat sz) dst src m)"

text \<open>The loop runs while \<^verbatim>\<open>--size > 0\<close>; it leaves the final destination pointer.\<close>

fun strlcpy_loop :: "nat \<Rightarrow> u32 \<Rightarrow> u32 \<Rightarrow> mem \<Rightarrow> u32 \<times> mem" where
  "strlcpy_loop 0 dst src m = (dst, m)"
| "strlcpy_loop (Suc n) dst src m =
     (if 0 < n \<and> m src \<noteq> 0 then strlcpy_loop n (dst + 1) (src + 1) (m(dst := m src))
      else (dst, m))"

definition strlcpy :: "u32 \<Rightarrow> u32 \<Rightarrow> u32 \<Rightarrow> mem \<Rightarrow> u32 \<times> mem" where
  "strlcpy dst src sz m =
    (if 0 < sz
     then (case strlcpy_loop (unat sz) dst src m of (d, m) \<Rightarrow> (d - dst, m(d := 0)))
     else (0, m))"

partial_function (option) strcmp :: "mem \<Rightarrow> u32 \<Rightarrow> u32 \<Rightarrow> int option" where
  "strcmp m p q = (if m p \<noteq> 0 \<and> m p = m q then strcmp m (p + 1) (q + 1)
     else Some (uint (m p) - uint (m q)))"

fun strncmp :: "mem \<Rightarrow> u32 \<Rightarrow> u32 \<Rightarrow> nat \<Rightarrow> int" where
  "strncmp m p q 0 = 0"
| "strncmp m p q (Suc n) = (if m p \<noteq> 0 \<and> m p = m q then strncmp m (p + 1) (q + 1) n
     else uint (m p) - uint (m q))"

partial_function (option) strchr :: "mem \<Rightarrow> u32 \<Rightarrow> u8 \<Rightarrow> u32 option" where
  "strchr m s c = (if m s \<noteq> 0 then if m s = c then Some s else strchr m (s + 1) c else Some 0)"

partial_function (option) strfind :: "mem \<Rightarrow> u32 \<Rightarrow> u8 \<Rightarrow> u32 option" where
  "strfind m s c = (if m s \<noteq> 0 then if m s = c then Some s else strfind m (s + 1) c else Some s)"

text \<open>The string instructions \<^verbatim>\<open>rep stosb\<close>, \<^verbatim>\<open>rep movsb\<close> and their 32-bit forms, upwards and
  (after \<^verbatim>\<open>std\<close>) downwards.\<close>

fun rep_stosb :: "nat \<Rightarrow> u32 \<Rightarrow> u8 \<Rightarrow> mem \<Rightarrow> mem" where
  "rep_stosb 0 d c m = m"
| "rep_stosb (Suc n) d c m = rep_stosb n (d + 1) c (m(d := c))"

definition put4 :: "u32 \<Rightarrow> u32 \<Rightarrow> mem \<Rightarrow> mem" where
  "put4 d w m = m(d := ucast w, d + 1 := ucast (drop_bit 8 w), d + 2 := ucast (drop_bit 16 w),
     d + 3 := ucast (drop_bit 24 w))"

definition get4 :: "u32 \<Rightarrow> mem \<Rightarrow> u32" where
  "get4 s m = ucast (m s) OR push_bit 8 (ucast (m (s + 1))) OR push_bit 16 (ucast (m (s + 2))) OR
     push_bit 24 (ucast (m (s + 3)))"

fun rep_stosl :: "nat \<Rightarrow> u32 \<Rightarrow> u32 \<Rightarrow> mem \<Rightarrow> mem" where
  "rep_stosl 0 d w m = m"
| "rep_stosl (Suc n) d w m = rep_stosl n (d + 4) w (put4 d w m)"

fun rep_movsb :: "nat \<Rightarrow> u32 \<Rightarrow> u32 \<Rightarrow> mem \<Rightarrow> mem" where
  "rep_movsb 0 d s m = m"
| "rep_movsb (Suc n) d s m = rep_movsb n (d + 1) (s + 1) (m(d := m s))"

fun rep_movsl :: "nat \<Rightarrow> u32 \<Rightarrow> u32 \<Rightarrow> mem \<Rightarrow> mem" where
  "rep_movsl 0 d s m = m"
| "rep_movsl (Suc n) d s m = rep_movsl n (d + 4) (s + 4) (put4 d (get4 s m) m)"

fun std_movsb :: "nat \<Rightarrow> u32 \<Rightarrow> u32 \<Rightarrow> mem \<Rightarrow> mem" where
  "std_movsb 0 d s m = m"
| "std_movsb (Suc n) d s m = std_movsb n (d - 1) (s - 1) (m(d := m s))"

fun std_movsl :: "nat \<Rightarrow> u32 \<Rightarrow> u32 \<Rightarrow> mem \<Rightarrow> mem" where
  "std_movsl 0 d s m = m"
| "std_movsl (Suc n) d s m = std_movsl n (d - 4) (s - 4) (put4 d (get4 s m) m)"

definition memset :: "u32 \<Rightarrow> u32 \<Rightarrow> u32 \<Rightarrow> mem \<Rightarrow> mem" where
  "memset v c n m =
    (if n = 0 then m
     else if v mod 4 = 0 \<and> n mod 4 = 0
     then let c = c AND 0xFF;
              c = push_bit 24 c OR push_bit 16 c OR push_bit 8 c OR c
          in rep_stosl (unat (n div 4)) v c m
     else rep_stosb (unat n) v (ucast c) m)"

definition memmove :: "u32 \<Rightarrow> u32 \<Rightarrow> u32 \<Rightarrow> mem \<Rightarrow> mem" where
  "memmove dst src n m =
    (let s = src; d = dst
     in if s < d \<and> d < s + n
        then let s = s + n; d = d + n
             in if s mod 4 = 0 \<and> d mod 4 = 0 \<and> n mod 4 = 0
                then std_movsl (unat (n div 4)) (d - 4) (s - 4) m
                else std_movsb (unat n) (d - 1) (s - 1) m
        else if s mod 4 = 0 \<and> d mod 4 = 0 \<and> n mod 4 = 0
             then rep_movsl (unat (n div 4)) d s m
             else rep_movsb (unat n) d s m)"

definition memcpy :: "u32 \<Rightarrow> u32 \<Rightarrow> u32 \<Rightarrow> mem \<Rightarrow> mem" where
  "memcpy dst src n m = memmove dst src n m"

fun memcmp :: "mem \<Rightarrow> u32 \<Rightarrow> u32 \<Rightarrow> nat \<Rightarrow> int" where
  "memcmp m s1 s2 0 = 0"
| "memcmp m s1 s2 (Suc n) = (if m s1 \<noteq> m s2 then uint (m s1) - uint (m s2)
     else memcmp m (s1 + 1) (s2 + 1) n)"

fun memfind_loop :: "mem \<Rightarrow> nat \<Rightarrow> u32 \<Rightarrow> u8 \<Rightarrow> u32" where
  "memfind_loop m 0 s c = s"
| "memfind_loop m (Suc n) s c = (if m s = c then s else memfind_loop m n (s + 1) c)"

text \<open>The loop of \<^verbatim>\<open>memfind\<close> compares pointers: it does not start when \<open>s + n\<close> wraps around.\<close>

definition memfind :: "mem \<Rightarrow> u32 \<Rightarrow> u32 \<Rightarrow> u32 \<Rightarrow> u32" where
  "memfind m s c n = (let ends = s + n in
     if s < ends then memfind_loop m (unat (ends - s)) s (ucast c) else s)"

text \<open>\<^verbatim>\<open>strtol\<close>: blanks, a sign, a base prefix and digits.\<close>

partial_function (option) skip_blanks :: "mem \<Rightarrow> u32 \<Rightarrow> u32 option" where
  "skip_blanks m s = (if m s = 0x20 \<or> m s = 0x09 then skip_blanks m (s + 1) else Some s)"

definition digit_of :: "u8 \<Rightarrow> u32 option" where
  "digit_of c = (if 0x30 \<le> c \<and> c \<le> 0x39 then Some (ucast c - 0x30)
     else if 0x61 \<le> c \<and> c \<le> 0x7A then Some (ucast c - 0x61 + 10)
     else if 0x41 \<le> c \<and> c \<le> 0x5A then Some (ucast c - 0x41 + 10)
     else None)"

partial_function (option) strtol_digits :: "mem \<Rightarrow> u32 \<Rightarrow> u32 \<Rightarrow> u32 \<Rightarrow> (u32 \<times> u32) option" where
  "strtol_digits m s base val = (case digit_of (m s) of
      None \<Rightarrow> Some (s, val)
    | Some dig \<Rightarrow> if base <=s dig then Some (s, val)
        else strtol_digits m (s + 1) base (val * base + dig))"

definition strtol :: "mem \<Rightarrow> u32 \<Rightarrow> u32 \<Rightarrow> (u32 \<times> u32) option" where
  "strtol m s base =
    (case skip_blanks m s of None \<Rightarrow> None
     | Some s \<Rightarrow>
       let (s, neg) = (if m s = 0x2B then (s + 1, False) else if m s = 0x2D then (s + 1, True)
                       else (s, False));
           (s, base) = (if (base = 0 \<or> base = 16) \<and> m s = 0x30 \<and> m (s + 1) = 0x78
                        then (s + 2, 16)
                        else if base = 0 \<and> m s = 0x30 then (s + 1, 8)
                        else if base = 0 then (s, 10) else (s, base))
       in case strtol_digits m s base 0 of None \<Rightarrow> None
          | Some (s, val) \<Rightarrow> Some (if neg then - val else val, s))"

section \<open>Block copies\<close>

lemma unat_minus_1 [simp]: "unat (- 1 :: u32) = 4294967295"
  by (simp add: unsigned_minus_1_eq_mask mask_eq_exp_minus_1)


lemma unat_Suc_diff:
  "unat ((a :: u32) - (d + 1)) = (if a = d then 4294967295 else unat (a - d) - 1)"
proof -
  have e: "a - (d + 1) = (a - d) - 1" by simp
  show ?thesis
  proof (cases "a = d")
    case True thus ?thesis by simp
  next
    case False thus ?thesis unfolding e using unat_minus_one [of "a - d"] by simp
  qed
qed

text \<open>Copying upwards is right unless the destination starts inside the source.\<close>

lemma rep_movsb_spec:
  "n < 2 ^ 32 \<Longrightarrow> d = s \<or> n \<le> unat (d - s) \<Longrightarrow>
   rep_movsb n d s m a = (if unat (a - d) < n then m (s + (a - d)) else m a)"
proof (induction n arbitrary: d s m)
  case 0 thus ?case by simp
next
  case (Suc n)
  have IH: "rep_movsb n (d + 1) (s + 1) (m(d := m s)) a =
      (if unat (a - (d + 1)) < n then (m(d := m s)) (s + 1 + (a - (d + 1))) else (m(d := m s)) a)"
    by (rule Suc.IH) (use Suc.prems in auto)
  show ?case
  proof (cases "a = d")
    case True thus ?thesis using IH Suc.prems by (simp add: unat_Suc_diff)
  next
    case False
    have pos: "0 < unat (a - d)" using False by (simp add: unat_gt_0)
    have "s + (a - d) \<noteq> d \<or> d = s" if "unat (a - d) < Suc n"
    proof (rule disjCI)
      assume "d \<noteq> s"
      hence "Suc n \<le> unat (d - s)" using Suc.prems(2) by simp
      hence "a - d \<noteq> d - s" using that by auto
      thus "s + (a - d) \<noteq> d" by (metis add_diff_cancel_left')
    qed
    moreover have "unat (a - (d + 1)) < n \<longleftrightarrow> unat (a - d) < Suc n"
      using pos False by (auto simp: unat_Suc_diff)
    ultimately show ?thesis using IH False by auto
  qed
qed

text \<open>Copying downwards is right unless the source starts inside the destination.\<close>

lemma std_movsb_spec:
  "n < 2 ^ 32 \<Longrightarrow> d = s \<or> n \<le> unat (s - d) \<Longrightarrow>
   std_movsb n d s m a = (if unat (d - a) < n then m (s - (d - a)) else m a)"
proof (induction n arbitrary: d s m)
  case 0 thus ?case by simp
next
  case (Suc n)
  have IH: "std_movsb n (d - 1) (s - 1) (m(d := m s)) a =
      (if unat (d - 1 - a) < n then (m(d := m s)) (s - 1 - (d - 1 - a)) else (m(d := m s)) a)"
    by (rule Suc.IH) (use Suc.prems in auto)
  have u: "unat (d - 1 - a) = (if a = d then 4294967295 else unat (d - a) - 1)"
    using unat_minus_one [of "d - a"] by (auto simp: algebra_simps)
  show ?case
  proof (cases "a = d")
    case True thus ?thesis using IH Suc.prems u by simp
  next
    case False
    have pos: "0 < unat (d - a)" using False by (simp add: unat_gt_0)
    have "s - (d - a) \<noteq> d \<or> d = s" if "unat (d - a) < Suc n"
    proof (rule disjCI)
      assume "d \<noteq> s"
      hence "Suc n \<le> unat (s - d)" using Suc.prems(2) by simp
      hence "d - a \<noteq> s - d" using that by auto
      thus "s - (d - a) \<noteq> d" by (metis diff_diff_eq2 diff_eq_eq add.commute)
    qed
    moreover have "unat (d - 1 - a) < n \<longleftrightarrow> unat (d - a) < Suc n"
      using pos False u by auto
    ultimately show ?thesis using IH False by (auto simp: algebra_simps)
  qed
qed

lemma get4_bytes:
  "(ucast (get4 s m) :: u8) = m s" "(ucast (drop_bit 8 (get4 s m)) :: u8) = m (s + 1)"
  "(ucast (drop_bit 16 (get4 s m)) :: u8) = m (s + 2)"
  "(ucast (drop_bit 24 (get4 s m)) :: u8) = m (s + 3)"
  unfolding get4_def
  by (rule bit_word_eqI; auto simp: bit_simps dest: bit_imp_le_length)+

lemma put4_get4:
  "put4 d (get4 s m) m = m(d := m s, d + 1 := m (s + 1), d + 2 := m (s + 2), d + 3 := m (s + 3))"
  by (simp add: put4_def get4_bytes)

lemma word_of_bytes:
  "(ucast (ucast w :: u8) OR push_bit 8 (ucast (ucast (drop_bit 8 w) :: u8))
     OR push_bit 16 (ucast (ucast (drop_bit 16 w) :: u8))
     OR push_bit 24 (ucast (ucast (drop_bit 24 w) :: u8))) = (w :: u32)"
proof (rule bit_word_eqI)
  fix n assume "n < LENGTH(32)"
  hence "n < 8 \<or> (8 \<le> n \<and> n < 16) \<or> (16 \<le> n \<and> n < 24) \<or> (24 \<le> n \<and> n < 32)" by auto
  thus "bit (ucast (ucast w :: u8) OR push_bit 8 (ucast (ucast (drop_bit 8 w) :: u8))
     OR push_bit 16 (ucast (ucast (drop_bit 16 w) :: u8))
     OR push_bit 24 (ucast (ucast (drop_bit 24 w) :: u8)) :: u32) n = bit w n"
    by (elim disjE) (auto simp: bit_simps)
qed

lemma get4_put4_same: "get4 a (put4 a x m) = x"
  using word_of_bytes [of x] by (simp add: get4_def put4_def)

lemma get4_put4_apart:
  assumes "4 \<le> p - q" "4 \<le> q - (p :: u32)"
  shows "get4 (u + p) (put4 (u + q) x m) = get4 (u + p) m"
proof -
  have "p + i \<noteq> q + j" if "i \<in> {0, 1, 2, 3}" "j \<in> {0, 1, 2, 3}" for i j
  proof
    assume "p + i = q + j"
    hence "p - q = j - i" "q - p = i - j" by (simp_all add: algebra_simps)
    thus False using assms that by (auto simp: word_le_nat_alt)
  qed
  hence n: "u + p + i \<noteq> u + q + j" if "i \<in> {0, 1, 2, 3}" "j \<in> {0, 1, 2, 3}" for i j
    using that by (simp add: add.assoc)
  show ?thesis
    using n [of 0 0] n [of 0 1] n [of 0 2] n [of 0 3] n [of 1 0] n [of 1 1] n [of 1 2] n [of 1 3]
      n [of 2 0] n [of 2 1] n [of 2 2] n [of 2 3] n [of 3 0] n [of 3 1] n [of 3 2] n [of 3 3]
    unfolding get4_def put4_def by (simp add: fun_upd_def)
qed

lemma get4_put4_offsets:
  "4 \<le> p - q \<Longrightarrow> 4 \<le> q - (p :: u32) \<Longrightarrow> get4 (u + p) (put4 (u + q) x m) = get4 (u + p) m"
  "4 \<le> - q \<Longrightarrow> 4 \<le> q \<Longrightarrow> get4 u (put4 (u + q) x m) = get4 u m"
  "4 \<le> p \<Longrightarrow> 4 \<le> - p \<Longrightarrow> get4 (u + p) (put4 u x m) = get4 (u + p) m"
  using get4_put4_apart [of p q u] get4_put4_apart [of 0 q u] get4_put4_apart [of p 0 u] by simp_all

lemma put4_outside:
  assumes "4 \<le> a - b" shows "put4 b x m a = m a"
proof -
  have "a \<noteq> b + j" if "j \<in> {0, 1, 2, 3}" for j
    using assms that by (auto simp: word_le_nat_alt)
  from this [of 0] this [of 1] this [of 2] this [of 3] show ?thesis by (simp add: put4_def)
qed

definition al4 :: "u32 \<Rightarrow> bool" where
  "al4 x \<longleftrightarrow> 4 dvd unat x"

lemma mod4_al4: "(x :: u32) mod 4 = 0 \<longleftrightarrow> al4 x"
proof -
  have "x mod 4 = 0 \<longleftrightarrow> unat (x mod 4) = 0" by (simp only: unat_eq_zero)
  also have "\<dots> \<longleftrightarrow> unat x mod 4 = 0" by (simp add: unat_mod_distrib)
  finally show ?thesis by (simp only: al4_def dvd_eq_mod_eq_0)
qed

lemma al4_cases: "al4 x \<Longrightarrow> x \<noteq> 1 \<and> x \<noteq> 2 \<and> x \<noteq> 3"
  by (auto simp: al4_def)

lemma al4_diff: assumes "al4 a" "al4 b" shows "al4 (a - b)"
proof -
  have "unat (a - b) = (if unat b \<le> unat a then unat a - unat b else unat a + 4294967296 - unat b)"
    by (simp add: unat_sub_if_size word_size)
  moreover have "4 dvd (4294967296 :: nat)" by simp
  ultimately show ?thesis using assms by (auto simp: al4_def intro: dvd_diff_nat dvd_add)
qed

lemma al4_four: "al4 4" "al4 (- 4)"
proof -
  show "al4 4" by (simp add: al4_def)
  have "al4 0" by (simp add: al4_def)
  from al4_diff [OF this \<open>al4 4\<close>] show "al4 (- 4)" by simp
qed

lemma al4_step: "al4 x \<Longrightarrow> al4 (x + 4)" "al4 x \<Longrightarrow> al4 (x - 4)"
  using al4_diff [of x "- 4"] al4_diff [of x 4] al4_four by simp_all

lemma aligned_apart:
  assumes "al4 s" "al4 d"
  shows "s + 1 \<noteq> d" "s + 2 \<noteq> d" "s + 3 \<noteq> d" "s + 2 \<noteq> d + 1" "s + 3 \<noteq> d + 1" "s + 3 \<noteq> d + 2"
proof -
  have m: "d - s = k - j" if "s + k = d + j" for k j
    using that by (simp add: algebra_simps)
  note c = al4_cases [OF al4_diff [OF assms(2,1)]]
  show "s + 1 \<noteq> d" "s + 2 \<noteq> d" "s + 3 \<noteq> d" using m [of 1 0] m [of 2 0] m [of 3 0] c by auto
  show "s + 2 \<noteq> d + 1" "s + 3 \<noteq> d + 1" "s + 3 \<noteq> d + 2"
    using m [of 2 1] m [of 3 1] m [of 3 2] c by auto
qed

lemma four_Suc: "4 * Suc n = Suc (Suc (Suc (Suc (4 * n))))" for n
  by simp

lemma rep_movsl_movsb:
  "al4 s \<Longrightarrow> al4 d \<Longrightarrow> rep_movsl n d s m = rep_movsb (4 * n) d s m"
proof (induction n arbitrary: d s m)
  case 0 thus ?case by simp
next
  case (Suc n)
  note a = aligned_apart [OF Suc.prems]
  have "rep_movsl n (d + 4) (s + 4) M = rep_movsb (4 * n) (d + 4) (s + 4) M" for M
    by (rule Suc.IH) (use Suc.prems in \<open>auto intro: al4_step\<close>)
  thus ?case unfolding four_Suc
    using a by (simp add: put4_get4 add.assoc)
qed

lemma std_movsl_movsb:
  "al4 s \<Longrightarrow> al4 d \<Longrightarrow> std_movsl n d s m = std_movsb (4 * n) (d + 3) (s + 3) m"
proof (induction n arbitrary: d s m)
  case 0 thus ?case by simp
next
  case (Suc n)
  note a = aligned_apart [OF Suc.prems(2,1)]
  have "std_movsl n (d - 4) (s - 4) M = std_movsb (4 * n) (d - 4 + 3) (s - 4 + 3) M" for M
    by (rule Suc.IH) (use Suc.prems in \<open>auto intro: al4_step\<close>)
  moreover have "m(d := x, d + 1 := y, d + 2 := z, d + 3 := w) =
      m(d + 3 := w, d + 2 := z, d + 1 := y, d := x)" for x y z w
    by (auto simp: fun_upd_def fun_eq_iff)
  ultimately show ?case unfolding four_Suc
    using a [symmetric] by (simp add: put4_get4 ac_simps)
qed

text \<open>C20: \<^verbatim>\<open>memmove\<close> copies a block as if it read all of it before writing any of it, however
  the two blocks overlap and are aligned, and changes nothing else, provided that neither block
  wraps around the end of memory.\<close>

theorem memmove_copies:
  assumes "unat src + unat n \<le> 2 ^ 32" "unat dst + unat n \<le> 2 ^ 32"
  shows "memmove dst src n m a = (if unat (a - dst) < unat n then m (src + (a - dst)) else m a)"
proof (cases "src < dst \<and> dst < src + n")
  case True
  have lt: "unat src < unat dst" "unat src + unat n < 2 ^ 32 \<Longrightarrow> unat dst < unat src + unat n"
    using True by (auto simp: word_less_nat_alt unat_word_ariths)
  have n0: "0 < unat n"
  proof (rule ccontr)
    assume "\<not> 0 < unat n"
    hence "n = 0" by (simp add: unat_eq_zero)
    thus False using True by auto
  qed
  have "unat n \<le> unat src + 4294967296 - unat dst" using lt(1) assms(2) by simp
  hence d: "src - dst = 0 \<or> unat n \<le> unat (src - dst)"
    using lt(1) by (simp add: unat_sub_if_size word_size)
  have nn: "(dst + n - 1) - a = (n - 1) - (a - dst)" by simp
  have bk: "unat ((n - 1) - k) < unat n \<longleftrightarrow> unat k < unat n" for k
  proof -
    have n1: "unat (n - 1) = unat n - 1" using n0 unat_minus_one [of n] by (auto simp: unat_gt_0)
    show ?thesis using n0 n1 word_u32_max [of n] word_u32_max [of k]
      by (auto simp: unat_sub_if_size word_size)
  qed
  have eqn: "memmove dst src n m = std_movsb (unat n) (dst + n - 1) (src + n - 1) m"
  proof (cases "(src + n) mod 4 = 0 \<and> (dst + n) mod 4 = 0 \<and> n mod 4 = 0")
    case True
    hence al: "al4 (src + n)" "al4 (dst + n)" "al4 n" by (simp_all add: mod4_al4)
    have four: "4 * unat (n div 4) = unat n"
      using al(3) by (simp add: al4_def unat_div_distrib)
    have "memmove dst src n m = std_movsl (unat (n div 4)) (dst + n - 4) (src + n - 4) m"
      using \<open>src < dst \<and> dst < src + n\<close> True by (simp add: memmove_def Let_def)
    thus ?thesis using std_movsl_movsb [OF al4_step(2) [OF al(1)] al4_step(2) [OF al(2)]]
      by (simp add: four)
  next
    case False
    thus ?thesis using \<open>src < dst \<and> dst < src + n\<close> by (simp only: memmove_def Let_def if_True if_False simp_thms)
  qed
  have "std_movsb (unat n) (dst + n - 1) (src + n - 1) m a =
      (if unat (dst + n - 1 - a) < unat n then m (src + n - 1 - (dst + n - 1 - a)) else m a)"
    by (rule std_movsb_spec) (use d word_u32_max [of n] in auto)
  moreover have "src + n - 1 - (dst + n - 1 - a) = src + (a - dst)" by simp
  ultimately show ?thesis unfolding eqn nn bk by simp
next
  case False
  have d: "dst - src = 0 \<or> unat n \<le> unat (dst - src)"
  proof (cases "dst = src")
    case True thus ?thesis by simp
  next
    case ds: False
    hence ne: "unat src \<noteq> unat dst" by (simp add: word_unat_eq_iff)
    have "unat src < unat dst \<Longrightarrow> unat src + unat n < 2 ^ 32 \<Longrightarrow> unat src + unat n \<le> unat dst"
      using False by (auto simp: word_less_nat_alt unat_word_ariths not_less)
    hence "unat n \<le> unat (dst - src)" using ne assms by (auto simp: unat_sub_if_size word_size)
    thus ?thesis ..
  qed
  have eqn: "memmove dst src n m = rep_movsb (unat n) dst src m"
  proof (cases "src mod 4 = 0 \<and> dst mod 4 = 0 \<and> n mod 4 = 0")
    case True
    hence al: "al4 src" "al4 dst" "al4 n" by (simp_all add: mod4_al4)
    have four: "4 * unat (n div 4) = unat n"
      using al(3) by (simp add: al4_def unat_div_distrib)
    have "memmove dst src n m = rep_movsl (unat (n div 4)) dst src m"
      using False True by (simp only: memmove_def Let_def if_True if_False simp_thms)
    thus ?thesis using rep_movsl_movsb [OF al(1,2)] by (simp add: four)
  next
    case f: False
    thus ?thesis using False by (simp only: memmove_def Let_def if_False)
  qed
  show ?thesis unfolding eqn by (rule rep_movsb_spec) (use d word_u32_max [of n] in auto)
qed

theorem memmove_copies_witness:
  "memmove 0x1001 0x1000 3 (\<lambda>a. ucast a) 0x1003 = 2"
proof -
  have "unat (0x1000 :: u32) + unat (3 :: u32) \<le> 2 ^ 32" "unat (0x1001 :: u32) + unat (3 :: u32) \<le> 2 ^ 32"
    by simp_all
  from memmove_copies [OF this, of "\<lambda>a. ucast a" "0x1003"] show ?thesis by simp
qed

section \<open>C strings\<close>

definition cstr :: "mem \<Rightarrow> u32 \<Rightarrow> u8 list \<Rightarrow> bool" where
  "cstr m p xs \<longleftrightarrow> length xs < 2 ^ 32 \<and> (\<forall>i < length xs. m (p + of_nat i) = xs ! i) \<and> 0 \<notin> set xs \<and>
     m (p + of_nat (length xs)) = 0"

lemma cstr_Nil [simp]: "cstr m p [] \<longleftrightarrow> m p = 0"
  by (simp add: cstr_def)

lemma cstr_Cons:
  "cstr m p (x # xs) \<Longrightarrow> m p = x \<and> x \<noteq> 0 \<and> cstr m (p + 1) xs"
proof -
  assume a: "cstr m p (x # xs)"
  have h: "m (p + of_nat i) = (x # xs) ! i" if "i < Suc (length xs)" for i
    using a that by (simp add: cstr_def)
  have "m (p + 1 + of_nat i) = xs ! i" if "i < length xs" for i
    using h [of "Suc i"] that by (simp add: add.assoc)
  moreover have "m (p + 1 + of_nat (length xs)) = 0" using a by (simp add: cstr_def add.assoc)
  ultimately show ?thesis using a h [of 0] by (auto simp: cstr_def)
qed

lemma cstr_0: "cstr m p xs \<Longrightarrow> m p = 0 \<longleftrightarrow> xs = []"
  by (cases xs) (auto dest: cstr_Cons)

lemma strlen_loop_cstr: "cstr m p xs \<Longrightarrow> strlen_loop m p n = Some (n + of_nat (length xs))"
proof (induction xs arbitrary: p n)
  case Nil thus ?case by (simp add: strlen_loop.simps)
next
  case (Cons x xs)
  from cstr_Cons [OF Cons.prems] have "m p \<noteq> 0" "cstr m (p + 1) xs" by auto
  thus ?case using Cons.IH [of "p + 1" "n + 1"] by (simp add: strlen_loop.simps [of m p] add.assoc)
qed

lemma strnlen_loop_cstr:
  "cstr m p xs \<Longrightarrow> strnlen_loop m k p n = n + of_nat (min k (length xs))"
proof (induction xs arbitrary: p n k)
  case Nil thus ?case by (cases k) auto
next
  case (Cons x xs)
  from cstr_Cons [OF Cons.prems] have "m p \<noteq> 0" "cstr m (p + 1) xs" by auto
  thus ?case using Cons.IH [of "p + 1" _ "n + 1"] by (cases k) (auto simp: add.assoc)
qed

text \<open>Comparison: the sign of the result is the order of the strings as byte lists.\<close>

fun byte_order :: "u8 list \<Rightarrow> u8 list \<Rightarrow> int" where
  "byte_order [] [] = 0"
| "byte_order [] (y # ys) = - 1"
| "byte_order (x # xs) [] = 1"
| "byte_order (x # xs) (y # ys) = (if x = y then byte_order xs ys else if x < y then - 1 else 1)"

lemma byte_sgn: "sgn (uint (x :: u8) - uint y) = (if x = y then 0 else if x < y then - 1 else 1)"
  by (auto simp: word_less_def sgn_if word_uint_eq_iff)

lemma byte_order_eq_0: "byte_order xs ys = 0 \<longleftrightarrow> xs = ys"
  by (induction xs ys rule: byte_order.induct) auto

text \<open>\<^verbatim>\<open>strcmp\<close> ends on C strings and its result is zero, negative or positive as the strings
  are equal, ordered or in reverse order, byte by byte and as unsigned bytes.\<close>

theorem strcmp_orders:
  assumes "cstr m p xs" "cstr m q ys"
  shows "\<exists>r. strcmp m p q = Some r \<and> sgn r = byte_order xs ys"
  using assms
proof (induction xs ys arbitrary: p q rule: byte_order.induct)
  case 1 thus ?case by (simp add: strcmp.simps)
next
  case (2 y ys)
  have y: "m q \<noteq> 0" "m p = 0" using cstr_Cons [OF 2(2)] 2(1) by auto
  hence "sgn (uint (m p) - uint (m q)) = - 1" unfolding byte_sgn by (auto simp: word_gt_0)
  thus ?case using y by (simp add: strcmp.simps)
next
  case (3 x xs)
  have y: "m p \<noteq> 0" "m q = 0" using cstr_Cons [OF 3(1)] 3(2) by auto
  hence "sgn (uint (m p) - uint (m q)) = 1" unfolding byte_sgn by auto
  thus ?case using y by (simp add: strcmp.simps)
next
  case (4 x xs y ys)
  note c = cstr_Cons [OF 4(2)] cstr_Cons [OF 4(3)]
  show ?case
  proof (cases "x = y")
    case True
    with 4(1) [of "p + 1" "q + 1"] c show ?thesis by (simp add: strcmp.simps [of m p])
  next
    case False
    thus ?thesis using c by (simp add: strcmp.simps [of m p] byte_sgn)
  qed
qed

section \<open>Copying strings\<close>

text \<open>The bytes from \<open>d\<close> on become \<open>bs\<close>.\<close>

fun write_bytes :: "u32 \<Rightarrow> u8 list \<Rightarrow> mem \<Rightarrow> mem" where
  "write_bytes d [] m = m"
| "write_bytes d (b # bs) m = write_bytes (d + 1) bs (m(d := b))"

lemma write_bytes_frame:
  "length bs \<le> unat (a - d) \<Longrightarrow> write_bytes d bs m a = m a"
proof (induction bs arbitrary: d m)
  case Nil thus ?case by simp
next
  case (Cons b bs)
  hence n: "a \<noteq> d" by auto
  hence "length bs \<le> unat (a - (d + 1))" using Cons.prems by (simp add: unat_Suc_diff)
  thus ?case using Cons.IH n by simp
qed

lemma write_bytes_at:
  "i < length bs \<Longrightarrow> length bs \<le> 2 ^ 32 \<Longrightarrow> write_bytes d bs m (d + of_nat i) = bs ! i"
proof (induction bs arbitrary: d i m)
  case Nil thus ?case by simp
next
  case (Cons b bs)
  show ?case
  proof (cases i)
    case 0
    have "length bs \<le> unat (d - (d + 1))" using Cons.prems by simp
    thus ?thesis using 0 by (simp add: write_bytes_frame)
  next
    case (Suc j)
    thus ?thesis using Cons.IH [of j "d + 1"] Cons.prems by (simp add: add.assoc)
  qed
qed

text \<open>The source is read before it is overwritten: it lies after the destination or ends before it.\<close>

definition no_clobber :: "u32 \<Rightarrow> u32 \<Rightarrow> nat \<Rightarrow> bool" where
  "no_clobber dst src n \<longleftrightarrow> dst = src \<or> n \<le> unat (dst - src)"

lemma cstr_upd:
  "cstr m p xs \<Longrightarrow> length xs < unat (a - p) \<Longrightarrow> cstr (m(a := b)) p xs"
  unfolding cstr_def
proof (intro conjI allI impI; (elim conjE)?)
  fix i assume l: "length xs < unat (a - p)" and i: "i < length xs"
    and h: "\<forall>i<length xs. m (p + of_nat i) = xs ! i" and b: "length xs < 2 ^ 32"
  have "p + of_nat i \<noteq> a"
  proof
    assume "p + of_nat i = a"
    hence "unat (a - p) = i" using i b by (auto simp: unat_of_nat)
    thus False using l i by simp
  qed
  thus "(m(a := b)) (p + of_nat i) = xs ! i" using h i by simp
next
  assume l: "length xs < unat (a - p)" and b: "length xs < 2 ^ 32" and z: "m (p + of_nat (length xs)) = 0"
  have "p + of_nat (length xs) \<noteq> a"
  proof
    assume "p + of_nat (length xs) = a"
    hence "unat (a - p) = length xs" using b by (auto simp: unat_of_nat)
    thus False using l by simp
  qed
  thus "(m(a := b)) (p + of_nat (length xs)) = 0" using z by simp
qed auto

lemma strcpy_loop_cstr:
  "cstr m src xs \<Longrightarrow> length xs < unat (dst - src) \<Longrightarrow>
   strcpy_loop dst src m = Some (write_bytes dst (xs @ [0]) m)"
proof (induction xs arbitrary: dst src m)
  case Nil thus ?case by (simp add: strcpy_loop.simps [of dst src m] fun_upd_def Let_def)
next
  case (Cons x xs)
  note c = cstr_Cons [OF Cons.prems(1)]
  have e: "(dst + 1) - (src + 1) = dst - src" by simp
  have e2: "dst - (src + 1) = (dst - src) - 1" by simp
  have l: "length xs < unat (dst - (src + 1))"
    unfolding e2 using Cons.prems(2) unat_minus_one [of "dst - src"] by (cases "dst = src") auto
  have "cstr (m(dst := m src)) (src + 1) xs" using c l by (intro cstr_upd) auto
  from Cons.IH [OF this, of "dst + 1"] show ?case
    using c Cons.prems(2) by (simp add: strcpy_loop.simps [of dst src m] e Let_def fun_upd_def)
qed

text \<open>\<^verbatim>\<open>strcpy\<close> to a place outside the source string ends, leaves a copy of the string there and
  changes no byte outside the copy.\<close>

theorem strcpy_copies:
  assumes "cstr m src xs" "length xs < unat (dst - src)" "length xs + 1 < 2 ^ 32"
  shows "\<exists>m'. strcpy dst src m = Some (dst, m') \<and> cstr m' dst xs \<and>
    (\<forall>a. length xs + 1 \<le> unat (a - dst) \<longrightarrow> m' a = m a)"
proof -
  let ?m = "write_bytes dst (xs @ [0]) m"
  have s: "strcpy dst src m = Some (dst, ?m)"
    using strcpy_loop_cstr [OF assms(1,2)] by (simp add: strcpy_def)
  have "cstr ?m dst xs"
    using write_bytes_at [of _ "xs @ [0]" dst m] assms
    by (auto simp: cstr_def nth_append)
  thus ?thesis using s write_bytes_frame [of "xs @ [0]" _ dst m] by auto
qed


text \<open>A string as the loader of a test would place it.\<close>

definition demo_mem :: mem where
  "demo_mem = write_bytes 0x100 [0x61, 0x62, 0x63, 0] (write_bytes 0x200 [0x61, 0x62, 0] (\<lambda>_. 0xFF))"

lemma demo_strings: "cstr demo_mem 0x100 [0x61, 0x62, 0x63]" "cstr demo_mem 0x200 [0x61, 0x62]"
  by (auto simp: cstr_def demo_mem_def less_Suc_eq)

theorem strcmp_orders_witness:
  "(\<exists>r. strcmp demo_mem 0x100 0x200 = Some r \<and> sgn r = 1)"
  using strcmp_orders [OF demo_strings] by simp

theorem strcpy_copies_witness:
  "\<exists>m. strcpy 0x180 0x100 demo_mem = Some (0x180, m) \<and> cstr m 0x180 [0x61, 0x62, 0x63] \<and>
     m 0x184 = 0xFF"
proof -
  have "length [0x61, 0x62, 0x63 :: u8] < unat (0x180 - 0x100 :: u32)"
    "length [0x61, 0x62, 0x63 :: u8] + 1 < 2 ^ 32" by simp_all
  from strcpy_copies [OF demo_strings(1) this] obtain m where
    m: "strcpy 0x180 0x100 demo_mem = Some (0x180, m)" "cstr m 0x180 [0x61, 0x62, 0x63]"
      "\<forall>a. length [0x61, 0x62, 0x63 :: u8] + 1 \<le> unat (a - 0x180) \<longrightarrow> m a = demo_mem a" by blast
  have "m 0x184 = 0xFF" using m(3) [rule_format, of "0x184"] by (simp add: demo_mem_def)
  thus ?thesis using m by blast
qed

section \<open>Bounded copies\<close>

lemma strlcpy_loop_cstr:
  "cstr m src xs \<Longrightarrow> 0 < n \<Longrightarrow> length xs < unat (dst - src) \<Longrightarrow>
   strlcpy_loop n dst src m =
     (dst + of_nat (min (n - 1) (length xs)), write_bytes dst (take (n - 1) xs) m)"
proof (induction xs arbitrary: n dst src m)
  case Nil thus ?case by (cases n) auto
next
  case (Cons x xs)
  note c = cstr_Cons [OF Cons.prems(1)]
  obtain k where n: "n = Suc k" using Cons.prems(2) by (cases n) auto
  have e: "(dst + 1) - (src + 1) = dst - src" by simp
  have e2: "dst - (src + 1) = (dst - src) - 1" by simp
  have l: "length xs < unat (dst - (src + 1))"
    unfolding e2 using Cons.prems(3) unat_minus_one [of "dst - src"] by (cases "dst = src") auto
  have "cstr (m(dst := m src)) (src + 1) xs" using c l by (intro cstr_upd) auto
  note IH = Cons.IH [OF this, of k "dst + 1", unfolded e]
  show ?case
  proof (cases "k = 0")
    case True thus ?thesis by (simp add: n)
  next
    case k: False
    have "strlcpy_loop n dst src m = strlcpy_loop k (dst + 1) (src + 1) (m(dst := m src))"
      using c k by (simp only: n strlcpy_loop.simps) simp
    moreover have "min k (Suc (length xs)) = Suc (min (k - 1) (length xs))"
      "take k (x # xs) = x # take (k - 1) xs" using k by (simp_all add: take_Cons')
    ultimately show ?thesis using IH c k Cons.prems(3) by (simp add: n add.assoc fun_upd_def)
  qed
qed

text \<open>\<^verbatim>\<open>strlcpy\<close> into a buffer of \<open>sz\<close> bytes outside the source leaves there a C string, the
  longest prefix of the source that fits, returns its length and writes nothing past the buffer.\<close>

theorem strlcpy_truncates:
  assumes "cstr m src xs" "length xs < unat (dst - src)" "0 < sz"
  shows "case strlcpy dst src sz m of (r, m') \<Rightarrow>
    cstr m' dst (take (unat sz - 1) xs) \<and> unat r = min (unat sz - 1) (length xs) \<and>
    (\<forall>a. unat sz \<le> unat (a - dst) \<longrightarrow> m' a = m a)"
proof -
  let ?k = "min (unat sz - 1) (length xs)" and ?ys = "take (unat sz - 1) xs"
  have pos: "0 < unat sz" using assms(3) by (simp add: unat_gt_0)
  have k: "?k < 2 ^ 32" "?k < unat sz" using pos word_u32_max [of sz] by auto
  have len: "length ?ys = ?k" by simp
  have w: "write_bytes dst (bs @ [b]) M = (write_bytes dst bs M)(dst + of_nat (length bs) := b)"
    for dst :: u32 and bs b M by (induction bs arbitrary: dst M) (simp_all add: add.assoc)
  have r: "strlcpy dst src sz m = (of_nat ?k, write_bytes dst (?ys @ [0]) m)"
    using strlcpy_loop_cstr [OF assms(1) pos assms(2)] assms(3)
    by (simp add: strlcpy_def w min.commute)
  have "cstr (write_bytes dst (?ys @ [0]) m) dst ?ys"
    using write_bytes_at [of _ "?ys @ [0]" dst m] assms(1) k len
    by (auto simp: cstr_def nth_append dest: in_set_takeD)
  moreover have "write_bytes dst (?ys @ [0]) m a = m a" if "unat sz \<le> unat (a - dst)" for a
    using that k by (intro write_bytes_frame) simp
  moreover have "unat (of_nat ?k :: u32) = ?k" using k by (simp add: unat_of_nat)
  ultimately show ?thesis by (simp add: r)
qed

theorem strlcpy_truncates_witness:
  "case strlcpy 0x180 0x100 3 demo_mem of (r, m) \<Rightarrow> cstr m 0x180 [0x61, 0x62] \<and> unat r = 2 \<and> m 0x183 = 0xFF"
proof -
  have p: "length [0x61, 0x62, 0x63 :: u8] < unat (0x180 - 0x100 :: u32)" "0 < (3 :: u32)" by simp_all
  obtain r m where e: "strlcpy 0x180 0x100 3 demo_mem = (r, m)" by fastforce
  have h: "cstr m 0x180 [0x61, 0x62]" "unat r = 2" "\<forall>a. 3 \<le> unat (a - 0x180) \<longrightarrow> m a = demo_mem a"
    using strlcpy_truncates [OF demo_strings(1) p] by (simp_all add: e)
  have "m 0x183 = 0xFF" using h(3) [rule_format, of "0x183"] by (simp add: demo_mem_def)
  thus ?thesis using h e by simp
qed

end
