(* ===== verification/Printfmt.thy ===== *)
theory Printfmt
  imports Strings Errors
begin

text \<open>
  Formatted output: the formatter \<^verbatim>\<open>vprintfmt\<close> and \<^verbatim>\<open>vsnprintf\<close> of
  \<^verbatim>\<open>lib/printfmt.c\<close>, the buffered \<^verbatim>\<open>cprintf\<close> of user programs (\<^verbatim>\<open>lib/printf.c\<close>) and
  \<^verbatim>\<open>readline\<close> (\<^verbatim>\<open>lib/readline.c\<close>).  The formatter returns the values it passes to
  \<^verbatim>\<open>putch\<close>, in order.  A format string is the list of its bytes before the NUL; a string
  argument is the list of its readable bytes before its end, and how it ends.
\<close>

type_synonym u64 = "64 word"

datatype str_end = NulEnd | Unreadable | Endless

datatype parg = PInt u32 | PLong u64 | PStr "u8 list" str_end | PNull

text \<open>Outcomes other than output: a read of unmapped memory, an argument that was not passed (or
  of another size), a string without end.\<close>

datatype perr = PFault | PBadArg | PEndless

definition chars :: "string \<Rightarrow> u8 list" where
  "chars s = map of_char s"

section \<open>Numbers\<close>

definition hexdigit :: "nat \<Rightarrow> u8" where
  "hexdigit d = chars ''0123456789abcdef'' ! d"

fun printnum :: "nat \<Rightarrow> nat \<Rightarrow> int \<Rightarrow> u8 \<Rightarrow> u8 list" where
  "printnum num base width padc =
     (if base \<le> num \<and> 1 < base then printnum (num div base) base (width - 1) padc
      else replicate (nat (width - 1)) padc) @ [hexdigit (num mod base)]"

declare printnum.simps [simp del]

fun getuint :: "parg list \<Rightarrow> nat \<Rightarrow> perr + (u64 \<times> parg list)" where
  "getuint (PLong w # ap) lflag = (if 2 \<le> lflag then Inr (w, ap) else Inl PBadArg)"
| "getuint (PInt w # ap) lflag = (if 2 \<le> lflag then Inl PBadArg else Inr (ucast w, ap))"
| "getuint ap lflag = Inl PBadArg"

fun getint :: "parg list \<Rightarrow> nat \<Rightarrow> perr + (u64 \<times> parg list)" where
  "getint (PLong w # ap) lflag = (if 2 \<le> lflag then Inr (w, ap) else Inl PBadArg)"
| "getint (PInt w # ap) lflag = (if 2 \<le> lflag then Inl PBadArg else Inr (scast w, ap))"
| "getint ap lflag = Inl PBadArg"

definition error_string :: "u32 \<Rightarrow> u8 list option" where
  "error_string err =
    (if err = E_UNSPECIFIED then Some (chars ''unspecified error'')
     else if err = E_BAD_ENV then Some (chars ''bad environment'')
     else if err = E_INVAL then Some (chars ''invalid parameter'')
     else if err = E_NO_MEM then Some (chars ''out of memory'')
     else if err = E_NO_FREE_ENV then Some (chars ''out of environments'')
     else if err = E_FAULT then Some (chars ''segmentation fault'')
     else if err = E_IPC_NOT_RECV then Some (chars ''env is not recving'')
     else if err = E_EOF then Some (chars ''unexpected end of file'')
     else if err = E_NO_DISK then Some (chars ''no free space on disk'')
     else if err = E_MAX_OPEN then Some (chars ''too many files are open'')
     else if err = E_NOT_FOUND then Some (chars ''file or block not found'')
     else if err = E_BAD_PATH then Some (chars ''invalid path'')
     else if err = E_FILE_EXISTS then Some (chars ''file already exists'')
     else if err = E_NOT_EXEC then Some (chars ''file is not a valid executable'')
     else if err = E_NOT_SUPP then Some (chars ''operation not supported'')
     else None)"

section \<open>Conversion specifications\<close>

record pspec =
  padc :: u8
  width :: int
  precision :: int
  lflag :: nat
  altflag :: bool

definition pspec0 :: pspec where
  "pspec0 = \<lparr>padc = 0x20, width = - 1, precision = - 1, lflag = 0, altflag = False\<rparr>"

definition process_precision :: "int \<Rightarrow> pspec \<Rightarrow> pspec" where
  "process_precision p sp =
    (if width sp < 0 then sp\<lparr>width := p, precision := - 1\<rparr> else sp\<lparr>precision := p\<rparr>)"

definition is_digit :: "u8 \<Rightarrow> bool" where
  "is_digit c \<longleftrightarrow> 0x30 \<le> c \<and> c \<le> 0x39"

fun number_field :: "int \<Rightarrow> u8 list \<Rightarrow> int \<times> u8 list" where
  "number_field p [] = (p, [])"
| "number_field p (c # cs) = (if is_digit c then number_field (p * 10 + (uint c - 48)) cs else (p, c # cs))"

lemma number_field_shorter: "length (snd (number_field p cs)) \<le> length cs"
  by (induction p cs rule: number_field.induct) auto

text \<open>The flags, width and precision after a percent sign, up to the conversion character (0 at
  the end of the format), and what follows it.\<close>

function parse_spec :: "pspec \<Rightarrow> u8 list \<Rightarrow> parg list \<Rightarrow> perr + (u8 \<times> pspec \<times> u8 list \<times> parg list)" where
  "parse_spec sp [] ap = Inr (0, sp, [], ap)"
| "parse_spec sp (ch # cs) ap =
     (if ch = 0x2D then parse_spec (sp\<lparr>padc := 0x2D\<rparr>) cs ap
      else if ch = 0x30 then parse_spec (sp\<lparr>padc := 0x30\<rparr>) cs ap
      else if is_digit ch
      then parse_spec (process_precision (fst (number_field (uint ch - 48) cs)) sp)
             (snd (number_field (uint ch - 48) cs)) ap
      else if ch = 0x2A
      then (case ap of PInt w # ap \<Rightarrow> parse_spec (process_precision (sint w) sp) cs ap
            | _ \<Rightarrow> Inl PBadArg)
      else if ch = 0x2E then parse_spec (if width sp < 0 then sp\<lparr>width := 0\<rparr> else sp) cs ap
      else if ch = 0x23 then parse_spec (sp\<lparr>altflag := True\<rparr>) cs ap
      else if ch = 0x6C then parse_spec (sp\<lparr>lflag := lflag sp + 1\<rparr>) cs ap
      else Inr (ch, sp, cs, ap))"
  by pat_completeness auto
termination
  by (relation "measure (\<lambda>(sp, cs, ap). length cs)")
     (use number_field_shorter in \<open>auto simp: less_Suc_eq_le\<close>)

lemma parse_spec_shorter:
  "parse_spec sp cs ap = Inr (ch, sp', cs', ap') \<Longrightarrow> length cs' \<le> length cs"
proof (induction sp cs ap rule: parse_spec.induct)
  case (2 sp c cs ap)
  have n: "length (snd (number_field (uint c - 48) cs)) \<le> length cs" by (rule number_field_shorter)
  show ?case using 2 n by (auto split: if_splits list.splits parg.splits)
qed simp

section \<open>Conversions\<close>

text \<open>The loop that prints a string: the next byte, a signed \<^verbatim>\<open>char\<close>, is read before the precision is looked
  at.  It returns what it prints and the width that is left.\<close>

fun str_chars :: "u8 list \<Rightarrow> str_end \<Rightarrow> int \<Rightarrow> bool \<Rightarrow> int \<Rightarrow> perr + (u32 list \<times> int)" where
  "str_chars [] e prec alt w =
     (case e of NulEnd \<Rightarrow> Inr ([], w) | Unreadable \<Rightarrow> Inl PFault | Endless \<Rightarrow> Inl PEndless)"
| "str_chars (ch # p) e prec alt w =
     (if prec < 0 \<or> 0 \<le> prec - 1
      then (case str_chars p e (if prec < 0 then prec else prec - 1) alt (w - 1) of
              Inl err \<Rightarrow> Inl err
            | Inr (out, w) \<Rightarrow>
                Inr ((if alt \<and> (ch < 0x20 \<or> 0x7E < ch) then 0x3F else scast ch) # out, w))
      else Inr ([], w))"

text \<open>\<^verbatim>\<open>strnlen (p, precision)\<close>: a negative precision is a huge size.\<close>

definition str_prefix_len :: "u8 list \<Rightarrow> str_end \<Rightarrow> int \<Rightarrow> perr + int" where
  "str_prefix_len xs e prec =
    (if 0 \<le> prec \<and> prec \<le> int (length xs) then Inr prec
     else case e of NulEnd \<Rightarrow> Inr (int (length xs)) | Unreadable \<Rightarrow> Inl PFault | Endless \<Rightarrow> Inl PEndless)"

definition conv_string :: "pspec \<Rightarrow> u8 list \<Rightarrow> str_end \<Rightarrow> perr + u32 list" where
  "conv_string sp xs e =
    (case (if 0 < width sp \<and> padc sp \<noteq> 0x2D
           then (case str_prefix_len xs e (precision sp) of Inl err \<Rightarrow> Inl err
                 | Inr k \<Rightarrow> let w = width sp - k in Inr (replicate (nat w) (ucast (padc sp)), min w 0))
           else Inr ([], width sp)) of
       Inl err \<Rightarrow> Inl err
     | Inr (pad, w) \<Rightarrow> (case str_chars xs e (precision sp) (altflag sp) w of Inl err \<Rightarrow> Inl err
         | Inr (out, w) \<Rightarrow> Inr (pad @ out @ replicate (nat w) 0x20)))"

definition print_number :: "pspec \<Rightarrow> nat \<Rightarrow> u64 \<Rightarrow> u32 list" where
  "print_number sp base num = map ucast (printnum (unat num) base (width sp) (padc sp))"

definition conv_error :: "u32 \<Rightarrow> perr + u32 list" where
  "conv_error w =
    (let err = (if sint w < 0 then - w else w)
     in if w = 0x80000000 then Inl PBadArg
        else if sint MAXERROR \<le> sint err \<or> error_string err = None
        then Inr (map ucast (chars ''error '' @ printnum (unat err) 10 (- 1) 0x20))
        else Inr (map ucast (the (error_string err))))"

text \<open>One conversion: what it prints and the arguments that are left; \<open>None\<close> for an unknown
  conversion character.\<close>

definition convert :: "u8 \<Rightarrow> pspec \<Rightarrow> parg list \<Rightarrow> (perr + (u32 list \<times> parg list)) option" where
  "convert ch sp ap =
    (if ch = 0x63 then Some (case ap of PInt w # ap \<Rightarrow> Inr ([w], ap) | _ \<Rightarrow> Inl PBadArg)
     else if ch = 0x65
     then Some (case ap of PInt w # ap \<Rightarrow> (case conv_error w of Inl e \<Rightarrow> Inl e | Inr out \<Rightarrow> Inr (out, ap))
                | _ \<Rightarrow> Inl PBadArg)
     else if ch = 0x73
     then Some (case ap of
            PStr xs e # ap \<Rightarrow> (case conv_string sp xs e of Inl e \<Rightarrow> Inl e | Inr out \<Rightarrow> Inr (out, ap))
          | PNull # ap \<Rightarrow> (case conv_string sp (chars ''(null)'') NulEnd of Inl e \<Rightarrow> Inl e
                          | Inr out \<Rightarrow> Inr (out, ap))
          | _ \<Rightarrow> Inl PBadArg)
     else if ch = 0x64
     then Some (case getint ap (lflag sp) of Inl e \<Rightarrow> Inl e
          | Inr (num, ap) \<Rightarrow>
              if sint num < 0 then Inr (0x2D # print_number sp 10 (- num), ap)
              else Inr (print_number sp 10 num, ap))
     else if ch = 0x75
     then Some (case getuint ap (lflag sp) of Inl e \<Rightarrow> Inl e
          | Inr (num, ap) \<Rightarrow> Inr (print_number sp 10 num, ap))
     else if ch = 0x6F
     then Some (case getuint ap (lflag sp) of Inl e \<Rightarrow> Inl e
          | Inr (num, ap) \<Rightarrow> Inr (print_number sp 8 num, ap))
     else if ch = 0x70
     then Some (case ap of PInt w # ap \<Rightarrow> Inr ([0x30, 0x78] @ print_number sp 16 (ucast w), ap)
          | _ \<Rightarrow> Inl PBadArg)
     else if ch = 0x78
     then Some (case getuint ap (lflag sp) of Inl e \<Rightarrow> Inl e
          | Inr (num, ap) \<Rightarrow> Inr (print_number sp 16 num, ap))
     else if ch = 0x25 then Some (Inr ([0x25], ap))
     else None)"

definition emit :: "u32 list \<Rightarrow> perr + u32 list \<Rightarrow> perr + u32 list" where
  "emit out r = (case r of Inl e \<Rightarrow> Inl e | Inr rest \<Rightarrow> Inr (out @ rest))"

text \<open>An unknown conversion prints the percent sign and resumes right after it.\<close>

function vprintfmt :: "u8 list \<Rightarrow> parg list \<Rightarrow> perr + u32 list" where
  "vprintfmt [] ap = Inr []"
| "vprintfmt (ch # fmt) ap =
     (if ch \<noteq> 0x25 then emit [ucast ch] (vprintfmt fmt ap)
      else case parse_spec pspec0 fmt ap of
          Inl e \<Rightarrow> Inl e
        | Inr (c, sp, fmt', ap') \<Rightarrow> (case convert c sp ap' of
            None \<Rightarrow> emit [0x25] (vprintfmt fmt ap')
          | Some (Inl e) \<Rightarrow> Inl e
          | Some (Inr (out, ap'')) \<Rightarrow> emit out (vprintfmt fmt' ap'')))"
  by pat_completeness auto
termination
  by (relation "measure (\<lambda>(fmt, ap). length fmt)")
     (auto simp: less_Suc_eq_le dest!: sym [of _ "parse_spec _ _ _"] parse_spec_shorter)

declare vprintfmt.simps [simp del]

section \<open>The digits of a number\<close>

fun digs :: "nat \<Rightarrow> nat \<Rightarrow> nat list" where
  "digs b n = (if b \<le> n \<and> 1 < b then digs b (n div b) else []) @ [n mod b]"

declare digs.simps [simp del]

lemma digs_length: "0 < length (digs b n)"
  by (subst digs.simps) simp

lemma printnum_digs:
  "printnum n b w c = replicate (nat (w - int (length (digs b n)))) c @ map hexdigit (digs b n)"
proof (induction n b w c rule: printnum.induct)
  case (1 n b w c)
  show ?case
  proof (cases "b \<le> n \<and> 1 < b")
    case True
    have "digs b n = digs b (n div b) @ [n mod b]" using True by (subst digs.simps) simp
    moreover have "printnum n b w c = printnum (n div b) b (w - 1) c @ [hexdigit (n mod b)]"
      using True by (subst printnum.simps) simp
    ultimately show ?thesis using 1 [OF True] by (simp add: algebra_simps)
  next
    case False
    have "digs b n = [n mod b]" using False by (subst digs.simps) auto
    moreover have "printnum n b w c = replicate (nat (w - 1)) c @ [hexdigit (n mod b)]"
      using False by (subst printnum.simps) auto
    ultimately show ?thesis by simp
  qed
qed

lemma digs_value: "1 < b \<Longrightarrow> fold (\<lambda>d v. v * b + d) (digs b n) 0 = n"
proof (induction b n rule: digs.induct)
  case (1 b n)
  show ?case
  proof (cases "b \<le> n")
    case True
    have "digs b n = digs b (n div b) @ [n mod b]" using True 1 by (subst digs.simps) simp
    thus ?thesis using 1 True by simp
  next
    case False
    have "digs b n = [n mod b]" using False by (subst digs.simps) auto
    thus ?thesis using False by simp
  qed
qed

lemma digs_less: "0 < b \<Longrightarrow> d \<in> set (digs b n) \<Longrightarrow> d < b"
proof (induction b n rule: digs.induct)
  case (1 b n)
  show ?case using 1 by (subst (asm) (2) digs.simps) (auto split: if_splits)
qed

lemma digit_of_hexdigit:
  assumes "d < 16"
  shows "digit_of (hexdigit d) = Some (of_nat d) \<and> hexdigit d \<noteq> 0 \<and> hexdigit d \<noteq> 0x20 \<and>
     hexdigit d \<noteq> 0x09 \<and> hexdigit d \<noteq> 0x2B \<and> hexdigit d \<noteq> 0x2D \<and> hexdigit d \<noteq> 0x78 \<and> hexdigit d \<noteq> 0x25"
proof -
  have "list_all (\<lambda>d. digit_of (hexdigit d) = Some (of_nat d) \<and> hexdigit d \<noteq> 0 \<and> hexdigit d \<noteq> 0x20 \<and>
     hexdigit d \<noteq> 0x09 \<and> hexdigit d \<noteq> 0x2B \<and> hexdigit d \<noteq> 0x2D \<and> hexdigit d \<noteq> 0x78 \<and> hexdigit d \<noteq> 0x25)
     [0..<16]" by code_simp
  thus ?thesis using assms by (simp add: list_all_iff)
qed

lemma strtol_digits_digs:
  assumes "cstr m p (map hexdigit ds)" "\<forall>d \<in> set ds. d < b" "b \<le> 16"
  shows "strtol_digits m p (of_nat b) v =
    Some (p + of_nat (length ds), fold (\<lambda>d v. v * of_nat b + of_nat d) ds v)"
  using assms(1,2)
proof (induction ds arbitrary: p v)
  case Nil
  hence "digit_of (m p) = None" by (simp add: digit_of_def)
  thus ?case by (simp add: strtol_digits.simps)
next
  case (Cons d ds)
  have c: "m p = hexdigit d" "cstr m (p + 1) (map hexdigit ds)" and d: "d < b" "d < 16"
    using cstr_Cons [of m p "hexdigit d"] Cons.prems assms(3) by auto
  have lt: "\<not> (of_nat b :: u32) <=s of_nat d"
    using d assms(3) by (simp add: word_sle_eq sint_u32 uint_nat unat_of_nat)
  show ?case using Cons.IH [OF c(2)] Cons.prems(2) lt digit_of_hexdigit [OF d(2)]
    by (simp add: strtol_digits.simps [of m p] c(1) add.assoc)
qed

lemma fold_of_nat:
  "fold (\<lambda>d v. v * of_nat b + of_nat d) ds (of_nat v) = (of_nat (fold (\<lambda>d v. v * b + d) ds v) :: 'a :: len word)"
  by (induction ds arbitrary: v) (simp_all flip: of_nat_mult of_nat_add)

lemma strtol_digits_printed:
  assumes "cstr m p (map hexdigit (digs b n))" "1 < b" "b \<le> 16"
  shows "strtol_digits m p (of_nat b) 0 = Some (p + of_nat (length (digs b n)), of_nat n)"
  using strtol_digits_digs [OF assms(1) _ assms(3), of 0] digs_less [of b] assms(2)
    fold_of_nat [of b "digs b n" 0, where 'a = 32] digs_value [OF assms(2), of n]
  by simp

lemma digs_head: obtains d ds where "digs b n = d # ds" by (cases "digs b n") (use digs_length [of b n] in auto)

lemma strtol_unsigned:
  assumes "cstr m p (map hexdigit (digs b n))" "b = 8 \<or> b = 10 \<or> b = 16"
  shows "strtol m p (of_nat b) = Some (of_nat n, p + of_nat (length (digs b n)))"
proof -
  obtain d ds where ds: "digs b n = d # ds" by (rule digs_head)
  have lt: "x < 16" if "x \<in> set (digs b n)" for x using digs_less [of b x n] that assms(2) by auto
  have h: "m p = hexdigit d" "cstr m (p + 1) (map hexdigit ds)"
    using cstr_Cons [of m p "hexdigit d"] assms(1) by (auto simp: ds)
  have x: "m (p + 1) \<noteq> 0x78"
  proof (cases ds)
    case Nil thus ?thesis using h by simp
  next
    case (Cons e es)
    have "m (p + 1) = hexdigit e" using cstr_Cons [of m "p + 1" "hexdigit e"] h(2) Cons by auto
    thus ?thesis using digit_of_hexdigit [of e] lt [of e] by (simp add: ds Cons)
  qed
  have b: "skip_blanks m p = Some p"
    using digit_of_hexdigit [of d] lt [of d] by (simp add: skip_blanks.simps h(1) ds)
  have nb: "(of_nat b :: u32) \<noteq> 0" using assms(2) by auto
  show ?thesis using strtol_digits_printed [OF assms(1)] assms(2) x b nb digit_of_hexdigit [of d] lt [of d]
    by (auto simp: strtol_def h(1) ds Let_def)
qed

section \<open>Round trips\<close>

lemma chars_formats: "chars ''%d'' = [0x25, 0x64]" "chars ''%x'' = [0x25, 0x78]"
  "chars ''%-5d'' = [0x25, 0x2D, 0x35, 0x64]"
  by code_simp+

lemma u8_ucast [simp]: "ucast (ucast (c :: u8) :: u32) = c"
  by (rule bit_word_eqI) (auto simp: bit_simps)

lemma sint_scast64 [simp]: "sint (scast (w :: u32) :: u64) = sint w"
  using sint_ge [of w] sint_lt [of w] by (simp add: signed_scast_eq min_def signed_take_bit_int_eq_self)

lemma unat_ucast64 [simp]: "unat (ucast (w :: u32) :: u64) = unat w"
  using word_u32_max [of w] by (simp add: unsigned_ucast_eq take_bit_nat_eq_self)

lemma printed_unsigned:
  "map ucast (map ucast (printnum n b (- 1) c) :: u32 list) = (map hexdigit (digs b n) :: u8 list)"
proof -
  have "nat (- 1 - int (length (digs b n))) = 0" by simp
  thus ?thesis by (simp add: printnum_digs comp_def)
qed

lemma uint_scast64: "0 \<le> sint (w :: u32) \<Longrightarrow> uint (scast w :: u64) = sint w"
proof -
  assume that: "0 \<le> sint w"
  have "sint w < 2 ^ 64" using sint_lt [of w] by simp
  hence "take_bit 64 (sint w) = sint w" using that by (simp add: take_bit_int_eq_self)
  thus "uint (scast w :: u64) = sint w" 
   using uint_word_of_int_eq [of "sint w", where 'a = 64] unfolding scast_eq by simp
qed
lemma uint_neg_scast64: "sint (w :: u32) < 0 \<Longrightarrow> uint (- (scast w :: u64)) = - sint w"
proof -
  assume that: "sint w < 0"
  have "- sint w < 2 ^ 64" using sint_ge [of w] by simp
  hence t: "take_bit 64 (- sint w) = - sint w" using that by (simp add: take_bit_int_eq_self)
  thus "uint (- (scast w :: u64)) = - sint w" 
   using uint_word_of_int_eq [of "- sint w", where 'a = 64] t by simp
qed

lemma print_d:
  "vprintfmt (chars ''%d'') [PInt w] =
     Inr (if sint w < 0 then 0x2D # map ucast (printnum (nat (- sint w)) 10 (- 1) 0x20)
          else map ucast (printnum (nat (sint w)) 10 (- 1) 0x20))"
proof -
  have s: "sint (scast w :: u64) = sint w" by simp
  have p: "unat (scast w :: u64) = nat (sint w)" if "0 \<le> sint w"
    using uint_scast64 [OF that] by (metis nat_uint_eq)
  have n: "unat (- (scast w :: u64)) = nat (- sint w)" if "sint w < 0"
    using uint_neg_scast64 [OF that] by (metis nat_uint_eq)
  show ?thesis
    by (simp add: chars_formats vprintfmt.simps pspec0_def is_digit_def convert_def s emit_def
        print_number_def p n not_less)
qed

lemma print_x:
  "vprintfmt (chars ''%x'') [PInt w] = Inr (map ucast (printnum (unat w) 16 (- 1) 0x20))"
  by (simp add: chars_formats vprintfmt.simps pspec0_def is_digit_def convert_def emit_def
      print_number_def)

text \<open>C21: what \<^verbatim>\<open>%d\<close> and \<^verbatim>\<open>%x\<close> print for an \<^verbatim>\<open>int\<close> is read back as the same word by
  \<^verbatim>\<open>strtol\<close> in base 10 and 16, up to the end of the text.\<close>

theorem printfmt_strtol_roundtrip:
  assumes "base = 10 \<and> fmt = chars ''%d'' \<or> base = 16 \<and> fmt = chars ''%x''"
    "vprintfmt fmt [PInt w] = Inr out" "cstr m p (map ucast out)"
  shows "strtol m p base = Some (w, p + of_nat (length out))"
proof (cases "base = 16")
  case True
  hence o: "out = map ucast (printnum (unat w) 16 (- 1) 0x20)" using assms(1,2) print_x by auto
  have "cstr m p (map hexdigit (digs 16 (unat w)))"
    using assms(3) unfolding o printed_unsigned .
  from strtol_unsigned [OF this] show ?thesis
    using True by (simp add: o printnum_digs)
next
  case False
  hence d: "base = 10" "vprintfmt (chars ''%d'') [PInt w] = Inr out" using assms(1,2) by auto
  show ?thesis
  proof (cases "sint w < 0")
    case False
    hence o: "out = map ucast (printnum (nat (sint w)) 10 (- 1) 0x20)" using d(2) by (simp add: print_d)
    have "cstr m p (map hexdigit (digs 10 (nat (sint w))))"
      using assms(3) unfolding o printed_unsigned .
    from strtol_unsigned [OF this] show ?thesis
      using False d(1) by (simp add: o printnum_digs)
  next
    case True
    let ?n = "nat (- sint w)"
    have o: "out = 0x2D # map ucast (printnum ?n 10 (- 1) 0x20)" using d(2) True by (simp add: print_d)
    have c: "cstr m p (0x2D # map hexdigit (digs 10 ?n))"
      using assms(3) printed_unsigned [of ?n 10] by (simp add: o)
    note c1 = cstr_Cons [OF c]
    from digs_head [of 10 ?n] obtain x xs where x: "digs 10 ?n = x # xs" by blast
    have sk: "skip_blanks m p = Some p" using c1 by (simp add: skip_blanks.simps)
    have "strtol_digits m (p + 1) 10 0 = Some (p + 1 + of_nat (length (digs 10 ?n)), of_nat ?n)"
      using strtol_digits_printed [of m "p + 1" 10 ?n] c1 by simp
    thus ?thesis using sk c1 d(1) True by (simp add: strtol_def o printnum_digs)
  qed
qed

theorem printfmt_strtol_roundtrip_witness:
  "vprintfmt (chars ''%d'') [PInt (- 42)] = Inr [0x2D, 0x34, 0x32] \<and>
   strtol (write_bytes 0x100 [0x2D, 0x34, 0x32, 0] (\<lambda>_. 0)) 0x100 10 = Some (- 42, 0x103)"
proof -
  have v: "vprintfmt (chars ''%d'') [PInt (- 42)] = Inr [0x2D, 0x34, 0x32]" by code_simp
  have c: "cstr (write_bytes 0x100 [0x2D, 0x34, 0x32, 0] (\<lambda>_. 0)) 0x100 (map ucast [0x2D, 0x34, 0x32 :: u32])"
    by (auto simp: cstr_def less_Suc_eq)
  show ?thesis using printfmt_strtol_roundtrip [of 10 "chars ''%d''", OF _ v c] v by simp
qed

text \<open>A field width is the least number of characters of an unsigned number: it is padded on
  the left with the pad character and never cut.\<close>

theorem printnum_width:
  "length (printnum n b w c) = nat (max w (int (length (digs b n)))) \<and>
   drop (length (printnum n b w c) - length (digs b n)) (printnum n b w c) = map hexdigit (digs b n) \<and>
   set (take (length (printnum n b w c) - length (digs b n)) (printnum n b w c)) \<subseteq> {c}"
  by (auto simp: printnum_digs)

text \<open>The flag that the comments call padding on the right pads numbers on the left, with
  minus signs.\<close>

theorem minus_flag_pads_left: "vprintfmt (chars ''%-5d'') [PInt 42] = Inr (map ucast (chars ''---42''))"
  by code_simp

end
