(* ===== verification/Stdio.thy ===== *)
theory Stdio
  imports Printfmt
begin

text \<open>
  The users of the formatter: \<^verbatim>\<open>vsnprintf\<close> (\<^verbatim>\<open>lib/printfmt.c\<close>), the buffered console output
  and file output of user programs (\<^verbatim>\<open>lib/printf.c\<close>, \<^verbatim>\<open>lib/fprintf.c\<close>) and the line editor
  \<^verbatim>\<open>readline\<close> (\<^verbatim>\<open>lib/readline.c\<close>).
\<close>

section \<open>Printing into a buffer\<close>

record sprintbuf =
  sb_buf :: u32
  sb_ebuf :: u32
  sb_cnt :: u32

definition sprintputch :: "u32 \<Rightarrow> sprintbuf \<times> mem \<Rightarrow> sprintbuf \<times> mem" where
  "sprintputch ch bm =
    (let (b, m) = bm; b = b\<lparr>sb_cnt := sb_cnt b + 1\<rparr>
     in if sb_buf b < sb_ebuf b
        then (b\<lparr>sb_buf := sb_buf b + 1\<rparr>, m(sb_buf b := ucast ch)) else (b, m))"

definition vsnprintf :: "u32 \<Rightarrow> u32 \<Rightarrow> u8 list \<Rightarrow> parg list \<Rightarrow> mem \<Rightarrow> perr + (u32 \<times> mem)" where
  "vsnprintf buf n fmt ap m =
    (if buf = 0 \<or> sint n < 1 then Inr (- E_INVAL, m)
     else case vprintfmt fmt ap of
         Inl e \<Rightarrow> Inl e
       | Inr out \<Rightarrow>
           let (b, m) = fold sprintputch out (\<lparr>sb_buf = buf, sb_ebuf = buf + n - 1, sb_cnt = 0\<rparr>, m)
           in Inr (sb_cnt b, m(sb_buf b := 0)))"

lemma sprintputch_step:
  "p < e \<Longrightarrow> sprintputch x (\<lparr>sb_buf = p, sb_ebuf = e, sb_cnt = c\<rparr>, m) =
     (\<lparr>sb_buf = p + 1, sb_ebuf = e, sb_cnt = c + 1\<rparr>, m(p := ucast x))"
  "\<not> p < e \<Longrightarrow> sprintputch x (\<lparr>sb_buf = p, sb_ebuf = e, sb_cnt = c\<rparr>, m) =
     (\<lparr>sb_buf = p, sb_ebuf = e, sb_cnt = c + 1\<rparr>, m)"
  by (simp_all add: sprintputch_def)

lemma sprintputch_fold:
  "unat (e - p) < 2 ^ 32 - unat p \<Longrightarrow> unat p \<le> unat e \<Longrightarrow>
   fold sprintputch out (\<lparr>sb_buf = p, sb_ebuf = e, sb_cnt = c\<rparr>, m) =
     (\<lparr>sb_buf = p + of_nat (min (length out) (unat e - unat p)), sb_ebuf = e,
       sb_cnt = c + of_nat (length out)\<rparr>,
      write_bytes p (map ucast (take (unat e - unat p) out)) m)"
proof (induction out arbitrary: p c m)
  case Nil thus ?case by simp
next
  case (Cons x out)
  show ?case
  proof (cases "p < e")
    case True
    have lt: "unat p < unat e" using True by (simp add: word_less_nat_alt)
    have p1: "unat (p + 1) = unat p + 1"
      using lt word_u32_max [of e] by (simp add: unat_word_ariths)
    have d: "unat e - unat p = Suc (unat e - unat (p + 1))" using lt p1 by simp
    have "unat (e - (p + 1)) < 2 ^ 32 - unat (p + 1)" "unat (p + 1) \<le> unat e"
      using lt p1 Cons.prems by (simp_all add: unat_sub_if_size word_size)
    from Cons.IH [OF this, of "c + 1" "m(p := ucast x)"] True show ?thesis
      by (simp add: sprintputch_step d add.assoc fun_upd_def)
  next
    case False
    hence "unat e - unat p = 0" by (simp add: word_less_nat_alt)
    thus ?thesis using False Cons.IH [OF Cons.prems, of "c + 1" m]
      by (simp add: sprintputch_step add.assoc)
  qed
qed

text \<open>\<^verbatim>\<open>vsnprintf\<close> into a buffer of \<open>n\<close> bytes leaves the longest prefix of the output that fits,
  ended by a NUL, returns the length of the whole output and writes nowhere else.\<close>

theorem vsnprintf_bounded:
  assumes "buf \<noteq> 0" "1 \<le> sint n" "unat buf + unat n < 2 ^ 32" "vprintfmt fmt ap = Inr out"
  shows "vsnprintf buf n fmt ap m =
      Inr (of_nat (length out), write_bytes buf (map ucast (take (unat n - 1) out) @ [0]) m) \<and>
    (\<forall>a. unat n \<le> unat (a - buf) \<longrightarrow>
       write_bytes buf (map ucast (take (unat n - 1) out) @ [0]) m a = m a)"
proof -
  have n1: "1 \<le> unat n"
  proof (rule ccontr)
    assume "\<not> 1 \<le> unat n"
    hence "unat n = 0" by simp
    hence "n = 0" by (simp only: unat_eq_zero)
    thus False using assms(2) by simp
  qed
  have e: "unat (buf + n - 1) = unat buf + unat n - 1"
  proof -
    have "unat (buf + n) = unat buf + unat n" using assms(3) by (simp add: unat_word_ariths)
    moreover have "buf + n \<noteq> 0"
      using calculation n1 by (metis add_is_0 not_one_le_zero unat_0)
    ultimately show ?thesis using unat_minus_one [of "buf + n"] by simp
  qed
  have le: "unat buf \<le> unat (buf + n - 1)" "unat (buf + n - 1) - unat buf = unat n - 1"
    using e n1 by simp_all
  have "unat (buf + n - 1 - buf) < 2 ^ 32 - unat buf"
    using le assms(3) e n1 by (simp add: unat_sub_if_size word_size)
  note f = sprintputch_fold [OF this le(1), of out 0 m, unfolded le(2)]
  have w: "write_bytes buf (bs @ [b]) M = (write_bytes buf bs M)(buf + of_nat (length bs) := b)"
    for buf :: u32 and bs b M by (induction bs arbitrary: buf M) (simp_all add: add.assoc)
  have l: "length (map ucast (take (unat n - 1) out) @ [0]) \<le> unat n" using n1 by auto
  show ?thesis using assms f write_bytes_frame [OF order_trans [OF l]]
    by (simp add: vsnprintf_def w)
qed

theorem vsnprintf_bounded_witness:
  "vsnprintf 0x100 3 (chars ''%x'') [PInt 0x123] (\<lambda>_. 0xFF) =
     Inr (3, write_bytes 0x100 [0x31, 0x32, 0] (\<lambda>_. 0xFF))"
proof -
  have v: "vprintfmt (chars ''%x'') [PInt 0x123] = Inr [0x31, 0x32, 0x33]" by code_simp
  have "(0x100 :: u32) \<noteq> 0" "1 \<le> sint (3 :: u32)" "unat (0x100 :: u32) + unat (3 :: u32) < 2 ^ 32"
    by simp_all
  note conjunct1 [OF vsnprintf_bounded [OF this v, of "\<lambda>_. 0xFF"]]
  moreover have "map ucast (take (unat (3 :: u32) - 1) [0x31, 0x32, 0x33 :: u32]) @ [0 :: u8] = [0x31, 0x32, 0]"
    by simp
  moreover have "(of_nat (length [0x31, 0x32, 0x33 :: u32]) :: u32) = 3" by simp
  ultimately show ?thesis by (simp only:)
qed

section \<open>Console output of user programs\<close>

text \<open>Each element of the log is the string one \<^verbatim>\<open>sys_cputs\<close> is asked to print.\<close>

record printbuf =
  pb_idx :: nat
  pb_cnt :: u32
  pb_buf :: "nat \<Rightarrow> u8"

definition pb_contents :: "printbuf \<Rightarrow> u8 list" where
  "pb_contents b = map (pb_buf b) [0..<pb_idx b]"

definition putch :: "u32 \<Rightarrow> printbuf \<times> u8 list list \<Rightarrow> printbuf \<times> u8 list list" where
  "putch ch bl =
    (let (b, log) = bl;
         b = b\<lparr>pb_buf := (pb_buf b)(pb_idx b := ucast ch), pb_idx := pb_idx b + 1\<rparr>;
         (b, log) = (if pb_idx b = 256 - 1 then (b\<lparr>pb_idx := 0\<rparr>, log @ [pb_contents b]) else (b, log))
     in (b\<lparr>pb_cnt := pb_cnt b + 1\<rparr>, log))"

definition vcprintf :: "u8 list \<Rightarrow> parg list \<Rightarrow> perr + (u32 \<times> u8 list list)" where
  "vcprintf fmt ap = (case vprintfmt fmt ap of
      Inl e \<Rightarrow> Inl e
    | Inr out \<Rightarrow>
        let (b, log) = fold putch out (\<lparr>pb_idx = 0, pb_cnt = 0, pb_buf = \<lambda>_. 0\<rparr>, [])
        in Inr (pb_cnt b, log @ [pb_contents b]))"

lemma pb_contents_snoc:
  "pb_contents (b\<lparr>pb_buf := (pb_buf b)(pb_idx b := c), pb_idx := Suc (pb_idx b)\<rparr>) = pb_contents b @ [c]"
  by (simp add: pb_contents_def)

lemma pb_contents_full:
  "pb_idx b = 254 \<Longrightarrow>
   pb_contents (b\<lparr>pb_buf := (pb_buf b)(254 := c), pb_idx := 255\<rparr>) = pb_contents b @ [c]"
  using pb_contents_snoc [of b c] by simp

lemma pb_contents_other [simp]:
  "pb_contents (b\<lparr>pb_cnt := n\<rparr>) = pb_contents b" "pb_contents (b\<lparr>pb_buf := f, pb_idx := 0\<rparr>) = []"
  by (simp_all add: pb_contents_def)

lemma pb_contents_length [simp]: "length (pb_contents b) = pb_idx b"
  by (simp add: pb_contents_def)

lemma putch_fold:
  assumes "fold putch out (b, log) = (b', log')" "pb_idx b < 255" "\<forall>s \<in> set log. length s \<le> 255"
  shows "concat log' @ pb_contents b' = concat log @ pb_contents b @ map ucast out \<and>
    pb_cnt b' = pb_cnt b + of_nat (length out) \<and> pb_idx b' < 255 \<and> (\<forall>s \<in> set log'. length s \<le> 255)"
  using assms
proof (induction out arbitrary: b log)
  case Nil thus ?case by simp
next
  case (Cons x out)
  obtain b1 l1 where p: "putch x (b, log) = (b1, l1)" by fastforce
  have "concat l1 @ pb_contents b1 = concat log @ pb_contents b @ [ucast x] \<and>
      pb_cnt b1 = pb_cnt b + 1 \<and> pb_idx b1 < 255 \<and> (\<forall>s \<in> set l1. length s \<le> 255)"
    using p Cons.prems(2,3)
    by (auto simp: putch_def Let_def pb_contents_snoc pb_contents_full pb_contents_other
        pb_contents_length split: if_splits)
  thus ?case using Cons.IH [of b1 l1] Cons.prems(1) p by (auto simp: add.assoc)
qed

text \<open>the user \<^verbatim>\<open>cprintf\<close> never overruns its buffer, asks the kernel to print exactly the
  formatted text, in pieces of at most 255 bytes, and returns its length.\<close>

theorem vcprintf_prints_all:
  assumes "vprintfmt fmt ap = Inr out"
  shows "\<exists>log. vcprintf fmt ap = Inr (of_nat (length out), log) \<and> concat log = map ucast out \<and>
    (\<forall>s \<in> set log. length s \<le> 255)"
proof -
  obtain b log where f: "fold putch out (\<lparr>pb_idx = 0, pb_cnt = 0, pb_buf = \<lambda>_. 0\<rparr>, []) = (b, log)"
    by fastforce
  from putch_fold [OF this] have
    "concat log @ pb_contents b = map ucast out \<and> pb_cnt b = of_nat (length out) \<and> pb_idx b < 255 \<and>
     (\<forall>s \<in> set log. length s \<le> 255)" by (simp add: pb_contents_def)
  thus ?thesis using f assms
    by (intro exI [of _ "log @ [pb_contents b]"]) (auto simp: vcprintf_def pb_contents_def)
qed

theorem vcprintf_prints_all_witness:
  "\<exists>log. vcprintf (chars ''%x'') [PInt 0x12] = Inr (2, log) \<and> concat log = [0x31, 0x32]"
proof -
  have "vprintfmt (chars ''%x'') [PInt 0x12] = Inr [0x31, 0x32]" by code_simp
  from vcprintf_prints_all [OF this] show ?thesis by auto
qed

section \<open>Output to a file\<close>

text \<open>The system's \<^verbatim>\<open>write\<close> is a parameter: what it returns and the state it leaves.\<close>

type_synonym 's writer = "u32 \<Rightarrow> u8 list \<Rightarrow> 's \<Rightarrow> u32 \<times> 's"

record fprintbuf =
  fp_fd :: u32
  fp_idx :: nat
  fp_result :: u32
  fp_error :: u32
  fp_buf :: "nat \<Rightarrow> u8"

definition fp_contents :: "fprintbuf \<Rightarrow> u8 list" where
  "fp_contents b = map (fp_buf b) [0..<fp_idx b]"

definition writebuf :: "'s writer \<Rightarrow> fprintbuf \<times> 's \<Rightarrow> fprintbuf \<times> 's" where
  "writebuf write bs =
    (let (b, s) = bs
     in if 0 < sint (fp_error b)
        then let (result, s) = write (fp_fd b) (fp_contents b) s;
                 b = (if 0 < sint result then b\<lparr>fp_result := fp_result b + result\<rparr> else b);
                 b = (if result \<noteq> of_nat (fp_idx b)
                      then b\<lparr>fp_error := (if sint result < 0 then result else 0)\<rparr> else b)
             in (b, s)
        else (b, s))"

definition fputch :: "'s writer \<Rightarrow> u32 \<Rightarrow> fprintbuf \<times> 's \<Rightarrow> fprintbuf \<times> 's" where
  "fputch write ch bs =
    (let (b, s) = bs;
         b = b\<lparr>fp_buf := (fp_buf b)(fp_idx b := ucast ch), fp_idx := fp_idx b + 1\<rparr>
     in if fp_idx b = 256
        then let (b, s) = writebuf write (b, s) in (b\<lparr>fp_idx := 0\<rparr>, s) else (b, s))"

definition vfprintf :: "'s writer \<Rightarrow> u32 \<Rightarrow> u8 list \<Rightarrow> parg list \<Rightarrow> 's \<Rightarrow> perr + (u32 \<times> 's)" where
  "vfprintf write fd fmt ap s =
    (case vprintfmt fmt ap of
       Inl e \<Rightarrow> Inl e
     | Inr out \<Rightarrow>
         let (b, s) = fold (fputch write) out
               (\<lparr>fp_fd = fd, fp_idx = 0, fp_result = 0, fp_error = 1, fp_buf = \<lambda>_. 0\<rparr>, s);
             (b, s) = (if 0 < fp_idx b then writebuf write (b, s) else (b, s))
         in Inr (if fp_result b \<noteq> 0 then fp_result b else fp_error b, s))"

definition printf :: "'s writer \<Rightarrow> u8 list \<Rightarrow> parg list \<Rightarrow> 's \<Rightarrow> perr + (u32 \<times> 's)" where
  "printf write fmt ap s = vfprintf write 1 fmt ap s"

lemma fp_contents_snoc:
  "fp_contents (b\<lparr>fp_buf := (fp_buf b)(fp_idx b := c), fp_idx := Suc (fp_idx b)\<rparr>) = fp_contents b @ [c]"
  by (simp add: fp_contents_def)

lemma fp_contents_other [simp]:
  "fp_contents (b\<lparr>fp_result := r\<rparr>) = fp_contents b" "fp_contents (b\<lparr>fp_error := r\<rparr>) = fp_contents b"
  "length (fp_contents b) = fp_idx b"
  by (simp_all add: fp_contents_def)

text \<open>A file that takes everything it is given.\<close>

definition full_writer :: "(u32 \<Rightarrow> u8 list \<Rightarrow> u8 list \<Rightarrow> u32 \<times> u8 list) \<Rightarrow> bool" where
  "full_writer write \<longleftrightarrow>
     (\<forall>fd bs s. length bs \<le> 256 \<longrightarrow> write fd bs s = (of_nat (length bs), s @ bs))"

lemma writebuf_full:
  assumes "full_writer write" "fp_error b = 1" "fp_idx b \<le> 256"
  shows "writebuf write (b, s) = (b\<lparr>fp_result := fp_result b + of_nat (fp_idx b)\<rparr>, s @ fp_contents b)"
proof -
  have "write (fp_fd b) (fp_contents b) s = (of_nat (fp_idx b), s @ fp_contents b)"
    using assms(1,3) by (simp add: full_writer_def)
  moreover have "unat (of_nat (fp_idx b) :: u32) = fp_idx b" using assms(3) by (simp add: unat_of_nat)
  ultimately show ?thesis using assms(2,3)
    by (cases "fp_idx b = 0") (auto simp: writebuf_def sint_pos_iff)
qed

lemma fputch_fold:
  assumes "full_writer write" "fold (fputch write) out (b, s) = (b', s')" "fp_idx b < 256" "fp_error b = 1"
  shows "s' @ fp_contents b' = s @ fp_contents b @ map ucast out \<and> fp_error b' = 1 \<and> fp_idx b' < 256 \<and>
    fp_result b' + of_nat (fp_idx b') = fp_result b + of_nat (fp_idx b) + of_nat (length out)"
  using assms(2-)
proof (induction out arbitrary: b s)
  case Nil thus ?case by simp
next
  case (Cons x out)
  let ?c = "b\<lparr>fp_buf := (fp_buf b)(fp_idx b := ucast x), fp_idx := Suc (fp_idx b)\<rparr>"
  obtain b1 s1 where p: "fputch write x (b, s) = (b1, s1)" by fastforce
  have w: "writebuf write (?c, s) = (?c\<lparr>fp_result := fp_result b + of_nat (Suc (fp_idx b))\<rparr>, s @ fp_contents ?c)"
    using writebuf_full [OF assms(1), of ?c s] Cons.prems(2,3) by simp
  have "s1 @ fp_contents b1 = s @ fp_contents b @ [ucast x] \<and> fp_error b1 = 1 \<and> fp_idx b1 < 256 \<and>
      fp_result b1 + of_nat (fp_idx b1) = fp_result b + of_nat (fp_idx b) + 1"
  proof (cases "Suc (fp_idx b) = 256")
    case True
    have "b1 = ?c\<lparr>fp_result := fp_result b + of_nat (Suc (fp_idx b)), fp_idx := 0\<rparr>" "s1 = s @ fp_contents ?c"
      using p w True by (auto simp: fputch_def Let_def)
    moreover have "fp_contents (?c\<lparr>fp_result := r, fp_idx := 0\<rparr>) = []" for r by (simp add: fp_contents_def)
    ultimately show ?thesis using Cons.prems(3) fp_contents_snoc [of b "ucast x"] by (simp add: algebra_simps)
  next
    case False
    hence "b1 = ?c" "s1 = s" using p by (auto simp: fputch_def Let_def)
    thus ?thesis using Cons.prems(2,3) False fp_contents_snoc [of b "ucast x"] by (simp add: algebra_simps)
  qed
  thus ?case using Cons.IH [of b1 s1] Cons.prems(1) p by (auto simp: algebra_simps)
qed

text \<open>\<^verbatim>\<open>fprintf\<close> to a file that takes every write leaves in it exactly the formatted text and
  returns its length, except that printing nothing returns 1, the initial error value.\<close>

theorem vfprintf_writes_all:
  assumes "full_writer write" "vprintfmt fmt ap = Inr out"
  shows "vfprintf write fd fmt ap s =
    Inr (if (of_nat (length out) :: u32) = 0 then 1 else of_nat (length out), s @ map ucast out)"
proof -
  let ?b = "\<lparr>fp_fd = fd, fp_idx = 0, fp_result = 0, fp_error = 1, fp_buf = \<lambda>_. 0\<rparr>"
  obtain b t where f: "fold (fputch write) out (?b, s) = (b, t)" by fastforce
  have h: "t @ fp_contents b = s @ map ucast out \<and> fp_error b = 1 \<and> fp_idx b < 256 \<and>
      fp_result b + of_nat (fp_idx b) = of_nat (length out)"
    using fputch_fold [OF assms(1) f] by (simp add: fp_contents_def)
  show ?thesis
  proof (cases "fp_idx b = 0")
    case True
    hence "fp_contents b = []" by (simp add: fp_contents_def)
    thus ?thesis using f h True assms(2) by (simp add: vfprintf_def)
  next
    case False
    have "writebuf write (b, t) = (b\<lparr>fp_result := fp_result b + of_nat (fp_idx b)\<rparr>, t @ fp_contents b)"
      using writebuf_full [OF assms(1)] h by simp
    thus ?thesis using f h False assms(2) by (simp add: vfprintf_def)
  qed
qed

theorem vfprintf_writes_all_witness:
  "printf (\<lambda>fd bs s. (of_nat (length bs), s @ bs)) (chars ''%x'') [PInt 0x12] [] = Inr (2, [0x31, 0x32]) \<and>
   vfprintf (\<lambda>fd bs s. (of_nat (length bs), s @ bs)) 1 [] [] [] = Inr (1, [])"
proof -
  have w: "full_writer (\<lambda>fd bs s. (of_nat (length bs), s @ bs))" by (simp add: full_writer_def)
  have "vprintfmt (chars ''%x'') [PInt 0x12] = Inr [0x31, 0x32]" "vprintfmt [] [] = Inr []" by code_simp+
  from vfprintf_writes_all [OF w this(1)] vfprintf_writes_all [OF w this(2)] show ?thesis
    by (simp add: printf_def)
qed

section \<open>The line editor\<close>

definition BUFLEN :: nat where [simp]: "BUFLEN = 1024"

text \<open>The characters that \<^verbatim>\<open>getchar\<close> will return are a list; \<open>line\<close> is \<open>buf[0..i]\<close> and
  \<open>echo\<close> what went to the console.\<close>

datatype rl_result = Line "u8 list" "u32 list" | NoLine "u32 list" | Waiting "u8 list" "u32 list"

definition read_error :: "u32 \<Rightarrow> u32 list" where
  "read_error c = (case vprintfmt (chars ''read error: %e'' @ [0x0A]) [PInt c] of Inr out \<Rightarrow> out | Inl e \<Rightarrow> [])"

fun readline_loop :: "bool \<Rightarrow> u32 list \<Rightarrow> u8 list \<Rightarrow> u32 list \<Rightarrow> rl_result" where
  "readline_loop echoing [] line echo = Waiting line echo"
| "readline_loop echoing (c # cs) line echo =
     (if sint c < 0
      then NoLine (if c \<noteq> - E_EOF then echo @ read_error c else echo)
      else if (c = 0x08 \<or> c = 0x7F) \<and> 0 < length line
      then readline_loop echoing cs (butlast line) (if echoing then echo @ [0x08] else echo)
      else if 0x20 \<le> c \<and> length line < BUFLEN - 1
      then readline_loop echoing cs (line @ [ucast c]) (if echoing then echo @ [c] else echo)
      else if c = 0x0A \<or> c = 0x0D
      then Line line (if echoing then echo @ [0x0A] else echo)
      else readline_loop echoing cs line echo)"

definition readline :: "bool \<Rightarrow> u32 list \<Rightarrow> u8 list option \<Rightarrow> rl_result" where
  "readline echoing input prompt =
     readline_loop echoing input [] (case prompt of None \<Rightarrow> [] | Some p \<Rightarrow> map ucast p)"

lemma readline_loop_bound:
  "length line \<le> BUFLEN - 1 \<Longrightarrow> readline_loop e cs line echo = Line l out \<Longrightarrow> length l \<le> BUFLEN - 1"
proof (induction e cs line echo rule: readline_loop.induct)
  case (2 e c cs line echo)
  show ?case using 2 by (auto split: if_splits)
qed simp

text \<open>Printable characters are kept, one after the other.\<close>

lemma readline_loop_printable:
  "\<forall>c \<in> set xs. 0x20 \<le> c \<and> c < 0x7F \<Longrightarrow> length line + length xs \<le> BUFLEN - 1 \<Longrightarrow>
   readline_loop e (xs @ cs) line echo =
     readline_loop e cs (line @ map ucast xs) (if e then echo @ xs else echo)"
proof (induction xs arbitrary: line echo)
  case Nil thus ?case by simp
next
  case (Cons x xs)
  have r: "0x20 \<le> x" "x < 0x7F" using Cons.prems by auto
  hence "\<not> sint x < 0" "x \<noteq> 8" "x \<noteq> 0x7F"
    by (auto simp: sint_u32 word_less_def word_le_def)
  thus ?case using Cons r by simp
qed

text \<open>C22: a typed line of printable characters ended by a newline is returned as it was typed, and
  a line that is returned always leaves room for the NUL in the buffer of 1024 bytes.\<close>

theorem readline_returns_line:
  assumes "\<forall>c \<in> set xs. 0x20 \<le> c \<and> c < 0x7F" "length xs \<le> BUFLEN - 1"
  shows "(\<exists>echo. readline e (xs @ [0x0A]) p = Line (map ucast xs) echo) \<and>
    (\<forall>cs l echo. readline e cs p = Line l echo \<longrightarrow> length l \<le> BUFLEN - 1)"
  using readline_loop_printable [of xs "[]" e "[0x0A]"] assms readline_loop_bound [of "[]" e]
  by (auto simp: readline_def)

theorem readline_returns_line_witness:
  "\<exists>echo. readline True [0x6C, 0x73, 0x0A] None = Line [0x6C, 0x73] echo"
  using readline_returns_line [of "[0x6C, 0x73]" True None] by auto

text \<open>A delete key pressed on an empty line is not an edit: it becomes a character of the line.\<close>

lemma readline_delete_on_empty_line: "readline True [0x7F, 0x0A] None = Line [0x7F] [0x7F, 0x0A]"
  by (simp add: readline_def sint_u32)

end
