(* ===== verification/Args.thy ===== *)
theory Args
  imports Prelude
begin

text \<open>
  Command-line flags (\<^verbatim>\<open>lib/args.c\<close>).  The argument vector is the list of the C strings
  \<open>argv[0..argc-1]\<close>, each without its NUL; the pointers into it are the strings they point at.
\<close>

record Argstate =
  argv :: "u8 list list"
  curarg :: "u8 list option"
  cur_value :: "u8 list option"

text \<open>The \<open>i\<close>th byte of a C string, with its NUL.\<close>

definition cbyte :: "u8 list \<Rightarrow> nat \<Rightarrow> u8" where
  "cbyte s i = (if i < length s then s ! i else 0)"

definition argstart :: "u8 list list \<Rightarrow> Argstate" where
  "argstart av = \<lparr>argv = av, curarg = (if 1 < length av then Some [] else None), cur_value = None\<rparr>"

definition drop_arg :: "u8 list list \<Rightarrow> u8 list list" where
  "drop_arg av = take 1 av @ drop 2 av"

definition argnext :: "Argstate \<Rightarrow> u8 option \<times> Argstate" where
  "argnext args =
    (let args = args\<lparr>cur_value := None\<rparr>;
         endofargs = (\<lambda>args. (None, args\<lparr>curarg := None\<rparr>));
         flag = (\<lambda>args c. (Some (cbyte c 0), args\<lparr>curarg := Some (drop 1 c)\<rparr>))
     in case curarg args of
          None \<Rightarrow> (None, args)
        | Some c \<Rightarrow>
            if cbyte c 0 \<noteq> 0 then flag args c
            else if length (argv args) = 1 \<or> cbyte (argv args ! 1) 0 \<noteq> 0x2D \<or> cbyte (argv args ! 1) 1 = 0
            then endofargs args
            else let c = drop 1 (argv args ! 1);
                     args = args\<lparr>argv := drop_arg (argv args)\<rparr>
                 in if cbyte c 0 = 0x2D \<and> cbyte c 1 = 0 then endofargs args else flag args c)"

definition argnextvalue :: "Argstate \<Rightarrow> u8 list option \<times> Argstate" where
  "argnextvalue args =
    (case curarg args of
       None \<Rightarrow> (None, args)
     | Some c \<Rightarrow>
         let args = (if cbyte c 0 \<noteq> 0 then args\<lparr>cur_value := Some c, curarg := Some []\<rparr>
               else if 1 < length (argv args)
               then args\<lparr>cur_value := Some (argv args ! 1), argv := drop_arg (argv args)\<rparr>
               else args\<lparr>cur_value := None, curarg := None\<rparr>)
         in (cur_value args, args))"

definition argvalue :: "Argstate \<Rightarrow> u8 list option \<times> Argstate" where
  "argvalue args = (case cur_value args of Some v \<Rightarrow> (Some v, args) | None \<Rightarrow> argnextvalue args)"

text \<open>The caller's loop: flags until -1, at most \<open>n\<close> of them.\<close>

fun arg_flags :: "nat \<Rightarrow> Argstate \<Rightarrow> u8 list \<times> Argstate" where
  "arg_flags 0 args = ([], args)"
| "arg_flags (Suc n) args = (case argnext args of
     (None, args) \<Rightarrow> ([], args)
   | (Some f, args) \<Rightarrow> (case arg_flags n args of (fs, args) \<Rightarrow> (f # fs, args)))"

text \<open>What the header file promises: the flags and the arguments that are left.\<close>

fun flags_spec :: "u8 list list \<Rightarrow> u8 list \<times> u8 list list" where
  "flags_spec [] = ([], [])"
| "flags_spec (a # as) =
     (if a = [] \<or> hd a \<noteq> 0x2D \<or> a = [0x2D] then ([], a # as)
      else if a = [0x2D, 0x2D] then ([], as)
      else case flags_spec as of (fs, rest) \<Rightarrow> (tl a @ fs, rest))"

lemma cbyte_simps [simp]: "cbyte [] i = 0" "cbyte (c # s) 0 = c" "cbyte (c # s) (Suc i) = cbyte s i"
  by (simp_all add: cbyte_def)

lemma argnext_in_flag:
  "curarg args = Some (c # cs) \<Longrightarrow> c \<noteq> 0 \<Longrightarrow>
   argnext args = (Some c, args\<lparr>cur_value := None, curarg := Some cs\<rparr>)"
  by (simp add: argnext_def Let_def)

lemma arg_flags_in_flag:
  "curarg args = Some cs \<Longrightarrow> 0 \<notin> set cs \<Longrightarrow>
   arg_flags (length cs + n) args =
     (case arg_flags n (args\<lparr>cur_value := if cs = [] then cur_value args else None, curarg := Some []\<rparr>) of
        (fs, args) \<Rightarrow> (cs @ fs, args))"
proof (induction cs arbitrary: args)
  case Nil
  hence "args\<lparr>cur_value := cur_value args, curarg := Some []\<rparr> = args" by simp
  thus ?case by (simp split: prod.splits)
next
  case (Cons c cs)
  have "(if cs = [] then None else None) = (None :: u8 list option)" by simp
  thus ?case using Cons argnext_in_flag [of args c cs] by (auto split: prod.splits)
qed

text \<open>calling \<^verbatim>\<open>argnext\<close> until it returns -1 yields the flags in order and leaves the
  arguments that are not flags, as \<^verbatim>\<open>inc/args.h\<close> says: flags end at an argument that does not
  start with a dash, at a single dash, after a double dash, or with the arguments.\<close>

theorem argnext_flags:
  assumes "\<forall>a \<in> set as. 0 \<notin> set a" "length (fst (flags_spec as)) < n"
  shows "\<exists>args. arg_flags n (argstart (prog # as)) = (fst (flags_spec as), args) \<and>
    argv args = prog # snd (flags_spec as)"
proof -
  have "\<exists>args'. arg_flags n args = (fst (flags_spec as), args') \<and> argv args' = prog # snd (flags_spec as)"
    if "curarg args = Some []" "argv args = prog # as" for args
    using that assms
  proof (induction as arbitrary: n args)
    case Nil
    then obtain k where "n = Suc k" by (cases n) auto
    thus ?case using Nil by (simp add: argnext_def Let_def)
  next
    case (Cons a as)
    then obtain k where n: "n = Suc k" by (cases n) auto
    have b: "cbyte a 0 \<noteq> 0x2D \<or> cbyte a 1 = 0 \<longleftrightarrow> a = [] \<or> hd a \<noteq> 0x2D \<or> a = [0x2D]"
      using Cons.prems(3) by (cases a; cases "tl a") auto
    show ?case
    proof (cases "a = [] \<or> hd a \<noteq> 0x2D \<or> a = [0x2D]")
      case True
      thus ?thesis using Cons.prems(1,2) b by (auto simp: n argnext_def Let_def)
    next
      case False
      then obtain c cs where a: "a = 0x2D # c # cs" by (cases a; cases "tl a") auto
      have nz: "0 \<notin> set (c # cs)" using Cons.prems(3) a by auto
      show ?thesis
      proof (cases "c = 0x2D \<and> cs = []")
        case True
        thus ?thesis using Cons.prems(1,2) by (simp add: n a argnext_def Let_def drop_arg_def)
      next
        case f: False
        have nd: "\<not> (c = 0x2D \<and> cbyte cs 0 = 0)" using f nz by (cases cs) auto
        let ?t = "args\<lparr>cur_value := None, argv := prog # as, curarg := Some cs\<rparr>"
        have nx: "argnext args = (Some c, ?t)"
          using Cons.prems(1,2) nd nz by (simp add: a argnext_def Let_def drop_arg_def)
        have fs: "fst (flags_spec (a # as)) = c # cs @ fst (flags_spec as)"
          "snd (flags_spec (a # as)) = snd (flags_spec as)"
          using f by (auto simp: a split: prod.splits)
        have lk: "length cs + length (fst (flags_spec as)) < k"
          using Cons.prems(4) unfolding fs(1) n by simp
        define j where "j = k - length cs"
        have j: "k = length cs + j" "length (fst (flags_spec as)) < j" using lk by (simp_all add: j_def)
        let ?u = "?t\<lparr>cur_value := if cs = [] then cur_value ?t else None, curarg := Some []\<rparr>"
        obtain v where v: "arg_flags j ?u = (fst (flags_spec as), v)" "argv v = prog # snd (flags_spec as)"
          using Cons.IH [of ?u j] j(2) Cons.prems(3) by auto
        have "arg_flags k ?t = (cs @ fst (flags_spec as), v)"
          using arg_flags_in_flag [of ?t cs j] nz v j(1) by simp
        thus ?thesis using nx fs v by (simp add: n)
      qed
    qed
  qed
  note main = this
  show ?thesis
  proof (cases as)
    case Nil
    then obtain k where "n = Suc k" using assms(2) by (cases n) auto
    thus ?thesis using Nil by (simp add: argstart_def argnext_def Let_def)
  next
    case (Cons a bs)
    thus ?thesis by (intro main) (simp_all add: argstart_def)
  qed
qed

theorem argnext_flags_witness:
  "\<exists>args. arg_flags 3 (argstart [[0x73], [0x2D, 0x69, 0x6C], [0x66]]) = ([0x69, 0x6C], args) \<and>
     argv args = [[0x73], [0x66]]"
  using argnext_flags [of "[[0x2D, 0x69, 0x6C], [0x66]]" 3 "[0x73]"] by simp

end
