(* ===== verification/Syscalls.thy ===== *)
theory Syscalls
  imports Sched Console Printfmt
begin

text \<open>
  The system calls (\<^verbatim>\<open>kern/syscall.c\<close>) and the kernel's \<^verbatim>\<open>cprintf\<close>
  (\<^verbatim>\<open>kern/printf.c\<close>).  The messages the kernel prints for its own diagnosis are left out;
  \<^verbatim>\<open>sys_cputs\<close> prints.  A system call returns the word that ends up in \<open>eax\<close>.
\<close>

definition kernel_fault :: "('a, 's) kres" where
  "kernel_fault = Panic ''[Error]: page fault en el ring 0.''"

definition with_curenv :: "(nat \<Rightarrow> kst \<Rightarrow> ('a, kst) kres) \<Rightarrow> kst \<Rightarrow> ('a, kst) kres" where
  "with_curenv f s = (case curenv s of None \<Rightarrow> kernel_fault | Some e \<Rightarrow> f e s)"

section \<open>Console\<close>

definition vcprintf_kern :: "u8 list \<Rightarrow> parg list \<Rightarrow> kst \<Rightarrow> (u32, kst) kres" where
  "vcprintf_kern fmt ap s = (case vprintfmt fmt ap of
      Inr out \<Rightarrow> Done (of_nat (length out)) (fold cputchar out s)
    | Inl PFault \<Rightarrow> kernel_fault
    | Inl PBadArg \<Rightarrow> kernel_fault
    | Inl PEndless \<Rightarrow> NoReturn Spinning s)"

text \<open>The bytes of the C string at \<open>va\<close> in the current address space, at most \<open>n\<close> of them.\<close>

fun read_ustr :: "nat \<Rightarrow> u32 \<Rightarrow> kst \<Rightarrow> u8 list \<times> str_end" where
  "read_ustr 0 va s = ([], Endless)"
| "read_ustr (Suc n) va s = (case vload8 va s of
      Done b _ \<Rightarrow> if b = 0 then ([], NulEnd)
                 else (case read_ustr n (va + 1) s of (xs, e) \<Rightarrow> (b # xs, e))
    | _ \<Rightarrow> ([], Unreadable))"

text \<open>The format \<^verbatim>\<open>%.*s\<close> takes \<open>len\<close> as an \<^verbatim>\<open>int\<close> and looks at the byte after the last one it
  prints; a negative precision prints up to the NUL.\<close>

definition sys_cputs :: "u32 \<Rightarrow> u32 \<Rightarrow> kst \<Rightarrow> (unit, kst) kres" where
  "sys_cputs va len s = with_curenv (\<lambda>cur s.
    kbind (user_mem_assert cur va len PTE_U s) (\<lambda>_ s.
      let n = (if sint len < 0 then 2 ^ 32 else unat len + 1);
          arg = (if va = 0 then PNull else case read_ustr n va s of (xs, e) \<Rightarrow> PStr xs e)
      in kbind (vcprintf_kern (chars ''%.*s'') [PInt len, arg] s) (\<lambda>_ s. Done () s))) s"

definition sys_cgetc :: "kst \<Rightarrow> (u32, kst) kres" where
  "sys_cgetc s = (case cons_getc s of (c, s) \<Rightarrow> Done c s)"

section \<open>Environments\<close>

definition sys_getenvid :: "kst \<Rightarrow> (u32, kst) kres" where
  "sys_getenvid s = with_curenv (\<lambda>cur s. Done (env_id (envs s cur)) s) s"

definition sys_env_destroy :: "u32 \<Rightarrow> kst \<Rightarrow> (u32, kst) kres" where
  "sys_env_destroy envid s = kbind (envid2env envid True s) (\<lambda>r s. case r of
      Inl r \<Rightarrow> Done r s
    | Inr None \<Rightarrow> kernel_fault
    | Inr (Some e) \<Rightarrow> kbind (env_destroy e s) (\<lambda>_ s. Done 0 s))"

definition sys_yield :: "kst \<Rightarrow> (unit, kst) kres" where
  "sys_yield s = sched_yield s"

definition sys_exofork :: "kst \<Rightarrow> (u32, kst) kres" where
  "sys_exofork s = with_curenv (\<lambda>cur s.
    kbind (env_alloc (env_id (envs s cur)) s) (\<lambda>r s. case r of
        Inl error_code \<Rightarrow> Done error_code s
      | Inr env \<Rightarrow>
          let s = upd_env env (\<lambda>v. v\<lparr>env_status := ENV_NOT_RUNNABLE\<rparr>) s;
              s = upd_env env (\<lambda>v. v\<lparr>env_tf := env_tf (envs s cur)\<rparr>) s;
              s = upd_env env (\<lambda>v. v\<lparr>env_tf :=
                    (env_tf v)\<lparr>tf_regs := (tf_regs (env_tf v))\<lparr>reg_eax := 0\<rparr>\<rparr>\<rparr>) s
          in Done (env_id (envs s env)) s)) s"

text \<open>The statuses a caller may ask for, by their numbers in \<^verbatim>\<open>inc/env.h\<close>.\<close>

definition settable_status :: "u32 \<Rightarrow> env_stat option" where
  "settable_status status = (if status = 2 then Some ENV_RUNNABLE
     else if status = 4 then Some ENV_NOT_RUNNABLE else None)"

definition sys_env_set_status :: "u32 \<Rightarrow> u32 \<Rightarrow> kst \<Rightarrow> (u32, kst) kres" where
  "sys_env_set_status envid status s =
    (case settable_status status of
       None \<Rightarrow> Done (- E_INVAL) s
     | Some st \<Rightarrow> kbind (envid2env envid True s) (\<lambda>r s. case r of
           Inl error_code \<Rightarrow> Done error_code s
         | Inr None \<Rightarrow> kernel_fault
         | Inr (Some env) \<Rightarrow> Done 0 (upd_env env (\<lambda>v. v\<lparr>env_status := st\<rparr>) s)))"

definition sys_env_set_pgfault_upcall :: "u32 \<Rightarrow> u32 \<Rightarrow> kst \<Rightarrow> (u32, kst) kres" where
  "sys_env_set_pgfault_upcall envid func s = kbind (envid2env envid True s) (\<lambda>r s. case r of
      Inl _ \<Rightarrow> Done (- E_BAD_ENV) s
    | Inr None \<Rightarrow> kernel_fault
    | Inr (Some env) \<Rightarrow> Done 0 (upd_env env (\<lambda>v. v\<lparr>env_pgfault_upcall := func\<rparr>) s))"

section \<open>Memory\<close>

definition bad_user_va :: "u32 \<Rightarrow> bool" where
  "bad_user_va va \<longleftrightarrow> UTOP \<le> va \<or> PGOFF va \<noteq> 0"

definition bad_perm :: "u32 \<Rightarrow> bool" where
  "bad_perm perm \<longleftrightarrow> perm AND (PTE_U OR PTE_P) \<noteq> (PTE_U OR PTE_P) \<or> perm AND NOT PTE_SYSCALL \<noteq> 0"

definition sys_page_alloc :: "u32 \<Rightarrow> u32 \<Rightarrow> u32 \<Rightarrow> kst \<Rightarrow> (u32, kst) kres" where
  "sys_page_alloc envid va perm s =
    (if bad_user_va va then Done (- E_INVAL) s
     else if bad_perm perm then Done (- E_INVAL) s
     else kbind (envid2env envid True s) (\<lambda>r s. case r of
         Inl error_code \<Rightarrow> Done error_code s
       | Inr None \<Rightarrow> kernel_fault
       | Inr (Some env) \<Rightarrow>
           kbind (page_alloc perm s) (\<lambda>page_info s. case page_info of
               None \<Rightarrow> Done (- E_NO_MEM) s
             | Some page_info \<Rightarrow>
                 kbind (page_insert (env_pgdir (envs s env)) page_info va perm s) (\<lambda>error_code s.
                   if error_code \<noteq> 0
                   then kbind (page_free page_info s) (\<lambda>_ s. Done (- E_NO_MEM) s)
                   else Done 0 s))))"

definition sys_page_map :: "u32 \<Rightarrow> u32 \<Rightarrow> u32 \<Rightarrow> u32 \<Rightarrow> u32 \<Rightarrow> kst \<Rightarrow> (u32, kst) kres" where
  "sys_page_map srcenvid srcva dstenvid dstva perm s =
    (if bad_user_va srcva then Done (- E_INVAL) s
     else if bad_user_va dstva then Done (- E_INVAL) s
     else if bad_perm perm then Done (- E_INVAL) s
     else kbind (envid2env srcenvid True s) (\<lambda>r s. case r of
         Inl error_code \<Rightarrow> Done error_code s
       | Inr source_env \<Rightarrow> kbind (envid2env dstenvid True s) (\<lambda>r s. case r of
           Inl error_code \<Rightarrow> Done error_code s
         | Inr dest_env \<Rightarrow> (case (source_env, dest_env) of
             (Some source_env, Some dest_env) \<Rightarrow>
               kbind (page_lookup (env_pgdir (envs s source_env)) srcva s) (\<lambda>page_info s.
                 case page_info of
                   None \<Rightarrow> Done (- E_INVAL) s
                 | Some (page_info, pte) \<Rightarrow>
                     if load32 s pte AND PTE_W = 0 \<and> perm AND PTE_W = PTE_W
                     then Done (- E_INVAL) s
                     else page_insert (env_pgdir (envs s dest_env)) page_info dstva perm s)
           | _ \<Rightarrow> kernel_fault))))"

definition sys_page_unmap :: "u32 \<Rightarrow> u32 \<Rightarrow> kst \<Rightarrow> (u32, kst) kres" where
  "sys_page_unmap envid va s =
    (if bad_user_va va then Done (- E_INVAL) s
     else kbind (envid2env envid True s) (\<lambda>r s. case r of
         Inl error_code \<Rightarrow> Done error_code s
       | Inr None \<Rightarrow> kernel_fault
       | Inr (Some env) \<Rightarrow>
           kbind (page_remove (env_pgdir (envs s env)) va s) (\<lambda>_ s. Done 0 s)))"

section \<open>Message passing\<close>

text \<open>The last four assignments of \<^verbatim>\<open>sys_ipc_try_send\<close>.\<close>

definition ipc_deliver :: "nat \<Rightarrow> u32 \<Rightarrow> nat \<Rightarrow> kst \<Rightarrow> kst" where
  "ipc_deliver e value cur s =
     upd_env e (\<lambda>v. v\<lparr>env_ipc_recving := False, env_ipc_from := env_id (envs s cur),
       env_ipc_value := value, env_status := ENV_RUNNABLE\<rparr>) s"

definition sys_ipc_try_send :: "u32 \<Rightarrow> u32 \<Rightarrow> u32 \<Rightarrow> u32 \<Rightarrow> kst \<Rightarrow> (u32, kst) kres" where
  "sys_ipc_try_send envid value srcva perm s =
    kbind (envid2env envid False s) (\<lambda>r s. case r of
      Inl r \<Rightarrow> Done r s
    | Inr None \<Rightarrow> kernel_fault
    | Inr (Some e) \<Rightarrow>
        if \<not> env_ipc_recving (envs s e) then Done (- E_IPC_NOT_RECV) s
        else with_curenv (\<lambda>cur s.
          if srcva < UTOP
          then if PGOFF srcva \<noteq> 0 then Done (- E_INVAL) s
               else if bad_perm perm then Done (- E_INVAL) s
               else kbind (page_lookup (env_pgdir (envs s cur)) srcva s) (\<lambda>pp s. case pp of
                   None \<Rightarrow> Done (- E_INVAL) s
                 | Some (pp, pte) \<Rightarrow>
                     if load32 s pte AND PTE_W = 0 \<and> perm AND PTE_W = PTE_W
                     then Done (- E_INVAL) s
                     else kbind (page_insert (env_pgdir (envs s e)) pp (env_ipc_dstva (envs s e)) perm s)
                       (\<lambda>r s. if r \<noteq> 0 then Done r s
                          else Done 0 (ipc_deliver e value cur
                                 (upd_env e (\<lambda>v. v\<lparr>env_ipc_perm := perm\<rparr>) s))))
          else Done 0 (ipc_deliver e value cur (upd_env e (\<lambda>v. v\<lparr>env_ipc_perm := 0\<rparr>) s))) s)"

definition sys_ipc_recv :: "u32 \<Rightarrow> kst \<Rightarrow> (u32, kst) kres" where
  "sys_ipc_recv dstva s =
    (if dstva < UTOP \<and> PGOFF dstva \<noteq> 0 then Done (- E_INVAL) s
     else with_curenv (\<lambda>cur s.
       let s = upd_env cur (\<lambda>v. v\<lparr>env_ipc_recving := True, env_ipc_dstva := dstva,
                 env_status := ENV_NOT_RUNNABLE,
                 env_tf := (env_tf v)\<lparr>tf_regs := (tf_regs (env_tf v))\<lparr>reg_eax := 0\<rparr>\<rparr>\<rparr>) s
       in kbind (sys_yield s) (\<lambda>_ s. Done 0 s)) s)"

section \<open>The dispatcher\<close>

definition SYS_cputs :: u32 where [simp]: "SYS_cputs = 0"
definition SYS_cgetc :: u32 where [simp]: "SYS_cgetc = 1"
definition SYS_getenvid :: u32 where [simp]: "SYS_getenvid = 2"
definition SYS_env_destroy :: u32 where [simp]: "SYS_env_destroy = 3"
definition SYS_page_alloc :: u32 where [simp]: "SYS_page_alloc = 4"
definition SYS_page_map :: u32 where [simp]: "SYS_page_map = 5"
definition SYS_page_unmap :: u32 where [simp]: "SYS_page_unmap = 6"
definition SYS_exofork :: u32 where [simp]: "SYS_exofork = 7"
definition SYS_env_set_status :: u32 where [simp]: "SYS_env_set_status = 8"
definition SYS_env_set_trapframe :: u32 where [simp]: "SYS_env_set_trapframe = 9"
definition SYS_env_set_pgfault_upcall :: u32 where [simp]: "SYS_env_set_pgfault_upcall = 10"
definition SYS_yield :: u32 where [simp]: "SYS_yield = 11"
definition SYS_ipc_try_send :: u32 where [simp]: "SYS_ipc_try_send = 12"
definition SYS_ipc_recv :: u32 where [simp]: "SYS_ipc_recv = 13"

text \<open>The first case of the switch falls through to the second.\<close>

definition syscall :: "u32 \<Rightarrow> u32 \<Rightarrow> u32 \<Rightarrow> u32 \<Rightarrow> u32 \<Rightarrow> u32 \<Rightarrow> kst \<Rightarrow> (u32, kst) kres" where
  "syscall syscallno a1 a2 a3 a4 a5 s =
    (if syscallno = SYS_cputs then kbind (sys_cputs a1 a2 s) (\<lambda>_ s. sys_cgetc s)
     else if syscallno = SYS_cgetc then sys_cgetc s
     else if syscallno = SYS_getenvid
     then kbind (kassert (curenv s \<noteq> None) ''assertion failed: curenv'' s) (\<lambda>_ s. sys_getenvid s)
     else if syscallno = SYS_env_destroy then sys_env_destroy a1 s
     else if syscallno = SYS_yield then kbind (sys_yield s) (\<lambda>_ s. Done 0 s)
     else if syscallno = SYS_exofork then sys_exofork s
     else if syscallno = SYS_env_set_status then sys_env_set_status a1 a2 s
     else if syscallno = SYS_page_alloc then sys_page_alloc a1 a2 a3 s
     else if syscallno = SYS_page_map then sys_page_map a1 a2 a3 a4 a5 s
     else if syscallno = SYS_page_unmap then sys_page_unmap a1 a2 s
     else if syscallno = SYS_ipc_recv then sys_ipc_recv a1 s
     else if syscallno = SYS_ipc_try_send then sys_ipc_try_send a1 a2 a3 a4 s
     else if syscallno = SYS_env_set_pgfault_upcall then sys_env_set_pgfault_upcall a1 a2 s
     else Done (- E_INVAL) s)"

end
