(* ===== verification/SysProps.thy ===== *)
theory SysProps imports Syscalls EnvProps SchedProps VmProps begin

text \<open>
  Properties of the system calls: what they check, what they change, and the gaps.
\<close>

section \<open>Allocation\<close>

lemma vmap_off_frame:
  assumes wf: "vm_wf s pgdir (p # fl)"
  shows "pt_frame (after_alloc flags p s) pgdir d = pt_frame s pgdir d"
    and "vmap (after_alloc flags p s) pgdir va = vmap s pgdir va"
proof -
  have pd: "pd_frame pgdir \<noteq> p" using vm_wf_pgdir(5) [OF wf] by auto
  have pm: "pmem (after_alloc flags p s) f = pmem s f" if "f \<noteq> p" for f
    using that by (simp add: after_alloc_def Let_def)
  have pt: "pt_frame (after_alloc flags p s) pgdir d = pt_frame s pgdir d" for d
    by (simp add: pt_frame_def pm [OF pd])
  thus "pt_frame (after_alloc flags p s) pgdir d = pt_frame s pgdir d" .
  have "pt_frame s pgdir (PDX va) \<noteq> p"
  proof -
    have "\<forall>d < 0x400. pt_frame s pgdir d \<notin> set (p # fl)" using wf unfolding vm_wf_def by blast
    thus ?thesis using PDX_less [of va] by auto
  qed
  thus "vmap (after_alloc flags p s) pgdir va = vmap s pgdir va" by (simp add: vmap_def pt pm)
qed

lemma after_alloc_pages [simp]:
  "npages (after_alloc flags p s) = npages s" "envs (after_alloc flags p s) = envs s"
  "pp_ref (pages (after_alloc flags p s) q) = pp_ref (pages s q)"
  "curenv (after_alloc flags p s) = curenv s"
  by (simp_all add: after_alloc_def Let_def pages_upd_page curenv_def)

lemma after_alloc_inv:
  assumes inv: "as_inv s pgdir (p # fl) k"
  shows "as_inv (after_alloc flags p s) pgdir fl k" "page_ok (after_alloc flags p s) pgdir fl p"
proof -
  have wf: "vm_wf s pgdir (p # fl)" and rep: "page_rep s (p # fl)" and rc: "rc_inv s pgdir k"
    using inv by (simp_all add: as_inv_def)
  let ?t = "after_alloc flags p s"
  have pt: "d < 0x400 \<Longrightarrow> pt_frame ?t pgdir d = pt_frame s pgdir d" for d
    using vmap_off_frame(1) [OF wf, of flags d] by simp
  have us: "d < user_slots \<Longrightarrow> d < 0x400" for d by (simp add: word_less_nat_alt)
  have vm: "vmap ?t pgdir = vmap s pgdir" by (rule ext) (rule vmap_off_frame(2) [OF wf])
  have d: "p \<notin> set fl" using page_rep_distinct [OF rep] by simp
  have p: "p \<noteq> 0" "p < npages s" using rep by (auto simp: page_rep_def)
  have "\<forall>d < 0x400. pt_frame s pgdir d \<notin> set (p # fl)" using wf unfolding vm_wf_def by blast
  hence ptp: "d < 0x400 \<Longrightarrow> pt_frame s pgdir d \<noteq> p" for d by auto
  show "page_ok ?t pgdir fl p"
    using p d ptp vm_wf_pgdir(5) [OF wf] by (auto simp: page_ok_def pt)
  have "vm_wf ?t pgdir fl"
    using wf unfolding vm_wf_def page_ok_def by (simp add: pt us vm) 
  moreover have "page_rep ?t fl" by (rule after_alloc_rep(1) [OF rep])
  moreover have "rc_inv ?t pgdir k" using rc by (simp add: rc_inv_def maps_def vm)
  ultimately show "as_inv ?t pgdir fl k" by (simp add: as_inv_def)
qed

lemma perm_ok:
  assumes "\<not> bad_perm perm" shows "perm < 0x1000" "x OR perm OR PTE_P = x OR perm" "perm AND ALLOC_ZERO \<noteq> 0"
proof -
  have P: "bit perm 0"
  proof -
    have "perm AND 5 = 5" using assms by (simp add: bad_perm_def)
    hence "bit (perm AND 5) 0" by simp
    thus ?thesis by (simp add: bit_simps)
  qed
  have z: "perm AND NOT 0xE07 = 0" using assms by (simp add: bad_perm_def PTE_SYSCALL_def)
  have "perm AND mask 12 = perm"
  proof (rule bit_word_eqI)
    fix n assume n: "n < LENGTH(32)"
    have "\<not> bit (perm AND NOT 0xE07) n" unfolding z by simp
    moreover have "(0xE07 :: u32) < 2 ^ 12" by simp
    hence "bit (0xE07 :: u32) n \<longrightarrow> n < 12" using bit_less_exp [of "0xE07 :: u32" 12 n] by auto
    ultimately show "bit (perm AND mask 12) n = bit perm n" using n by (auto simp: bit_simps)
  qed
  thus "perm < 0x1000" using and_mask_less [where w = perm and n = 12] by simp
  have "x OR perm OR 1 = x OR perm"
    using P by (intro bit_word_eqI) (auto simp: bit_simps bit_1_iff)
  thus "x OR perm OR PTE_P = x OR perm" by simp
  have "bit (perm AND 1) 0" using P by (simp add: bit_simps)
  thus "perm AND ALLOC_ZERO \<noteq> 0" by auto
qed

lemma good_user_va: "\<not> bad_user_va va \<Longrightarrow> va < UTOP \<and> PGOFF va = 0"
  by (auto simp: bad_user_va_def)

lemma vm_frames_not_free:
  assumes "vm_wf s pgdir fl" "f \<in> set fl" shows "f \<notin> vm_frames s pgdir"
  using assms vm_wf_pgdir(5) vm_wf_pt(5) unfolding vm_frames_def by fastforce

text \<open>C17: \<^verbatim>\<open>sys_page_alloc\<close> with valid arguments maps a page that was free, full of zeros, at the
  page of \<open>va\<close> with exactly the permissions asked for and changes no other user mapping.  It fails exactly
  when there is no free page, or only one and a page table is missing for \<open>va\<close>; then the result is
  \<open>-E_NO_MEM\<close>, the address space is as before and no page is lost.\<close>

theorem sys_page_alloc_fresh:
  assumes "envid2env envid True s = Done (Inr (Some env)) s"
    and "as_inv s (env_pgdir (envs s env)) fl k" "\<not> bad_user_va va" "\<not> bad_perm perm"
  shows "if fl = [] \<or> pt_frame s (env_pgdir (envs s env)) (PDX va) = 0 \<and> length fl = 1
    then \<exists>t. sys_page_alloc envid va perm s = Done (- E_NO_MEM) t \<and>
      as_inv t (env_pgdir (envs s env)) fl k \<and>
      vmap t (env_pgdir (envs s env)) = vmap s (env_pgdir (envs s env))
    else \<exists>t p ps fl'. fl = p # ps \<and> sys_page_alloc envid va perm s = Done 0 t \<and>
      as_inv t (env_pgdir (envs s env)) fl' k \<and> (\<forall>i. pmem t p i = 0) \<and>
      (\<forall>a < UTOP. vmap t (env_pgdir (envs s env)) a = (if PGNUM a = PGNUM va
         then page2pa p OR perm else vmap s (env_pgdir (envs s env)) a))"
proof (cases fl)
  case Nil
  hence "page_alloc perm s = Done None s" using assms(2) page_alloc_empty by (simp add: as_inv_def)
  hence "sys_page_alloc envid va perm s = Done (- E_NO_MEM) s"
    using assms by (simp add: sys_page_alloc_def)
  thus ?thesis using assms(2) Nil by auto
next
  case (Cons p ps)
  let ?g = "env_pgdir (envs s env)" and ?u = "after_alloc perm p s"
  note va = good_user_va [OF assms(3)] and perm = perm_ok [OF assms(4)]
  have inv: "as_inv s ?g (p # ps) k" using assms(2) Cons by simp
  have rep: "page_rep s (p # ps)" and wf: "vm_wf s ?g (p # ps)" using inv by (simp_all add: as_inv_def)
  note ai = after_alloc_inv [OF inv, of perm] and vmu = vmap_off_frame(2) [OF wf, of perm]
  have ptu: "pt_frame ?u ?g (PDX va) = pt_frame s ?g (PDX va)" by (rule vmap_off_frame(1) [OF wf])
  have un: "sys_page_alloc envid va perm s =
      kbind (page_insert ?g p va perm ?u) (\<lambda>error_code s.
        if error_code \<noteq> 0 then kbind (page_free p s) (\<lambda>_ s. Done (- E_NO_MEM) s) else Done 0 s)"
    using assms page_alloc_cons [OF rep, of perm] by (simp add: sys_page_alloc_def)
  have ref: "pp_ref (pages ?u p) \<noteq> 0xFFFF" using rep by (auto simp: page_rep_def)
  have parts: "vm_wf ?u ?g ps" "page_rep ?u ps" "rc_inv ?u ?g k" using ai(1) by (simp_all add: as_inv_def)
  have zero: "pmem ?u p i = 0" for i using perm(3) by (simp add: after_alloc_def Let_def)
  have pfr: "p \<notin> vm_frames ?u ?g" "p \<notin> set ps"
  proof -
    show "p \<notin> set ps" using page_rep_distinct [OF rep] by simp
    have "vm_frames ?u ?g = vm_frames s ?g"
      using vmap_off_frame(1) [OF wf, of perm] by (simp add: vm_frames_def)
    thus "p \<notin> vm_frames ?u ?g" using vm_frames_not_free [OF wf, of p] by simp
  qed
  from page_insert_cases [OF parts conjunct1 [OF va] ai(2) ref perm(1)] show ?thesis
  proof (elim disjE exE conjE)
    assume n: "pt_frame ?u ?g (PDX va) = 0" "ps = []" "page_insert ?g p va perm ?u = Done (- E_NO_MEM) ?u"
    obtain t where t: "page_free p ?u = Done () t" "page_rep t (p # ps)"
      using page_free_ok [OF parts(2) pfr(2) after_alloc_rep(2) [OF rep]] by blast
    have tp: "pages_only ?u t" using t(1) unfolding page_free_def pages_only_def upd_page_def
      by (auto split: if_splits intro!: exI)
    note po = pages_onlyD [OF tp]
    have vm: "vmap t ?g = vmap s ?g"
      by (rule ext) (simp add: vmap_pmem [OF po(1)] vmu)
    have m0: "maps ?u ?g p = {}"
    proof (rule ccontr)
      assume "maps ?u ?g p \<noteq> {}"
      hence "card (maps ?u ?g p) \<noteq> 0" by simp
      moreover have "card (maps ?u ?g p) + k p \<le> unat (pp_ref (pages ?u p))"
        using parts(3) by (simp add: rc_inv_def)
      moreover have "pp_ref (pages ?u p) = 0" using rep by (simp add: page_rep_def)
      ultimately show False by simp
    qed
    have pr: "pp_ref (pages t q) = pp_ref (pages ?u q)" for q
      using t(1) by (auto simp: page_free_def pages_upd_page split: if_splits)
    have "vm_wf t ?g (p # ps)" by (rule vm_wf_push [OF parts(1) po(1,2) ai(2) m0])
    moreover have "rc_inv t ?g k" using parts(3) by (simp add: rc_inv_def maps_pmem [OF po(1)] pr)
    ultimately have "as_inv t ?g fl k" using t(2) Cons by (simp add: as_inv_def)
    moreover have "sys_page_alloc envid va perm s = Done (- E_NO_MEM) t" by (simp add: un n(2,3) t)
    moreover have "fl = [] \<or> pt_frame s ?g (PDX va) = 0 \<and> length fl = 1" using Cons n(1,2) ptu by simp
    ultimately show ?thesis using vm by (simp only: if_True) blast
  next
    fix t fl'
    assume nf: "\<not> (pt_frame ?u ?g (PDX va) = 0 \<and> ps = [])"
    assume t: "page_insert ?g p va perm ?u = Done 0 t" "page_rep t fl'" "vm_wf t ?g fl'" "rc_inv t ?g k"
      "\<forall>a < UTOP. vmap t ?g a = (if PGNUM a = PGNUM va then page2pa p OR perm OR PTE_P else vmap ?u ?g a)"
      "\<forall>f. f \<notin> vm_frames ?u ?g \<longrightarrow> f \<notin> set ps \<longrightarrow> pmem t f = pmem ?u f"
    have "pmem t p i = 0" for i using t(6) pfr zero by simp
    moreover have "as_inv t ?g fl' k" using t by (simp add: as_inv_def)
    moreover have "sys_page_alloc envid va perm s = Done 0 t" by (simp add: un t(1))
    moreover have "\<not> (fl = [] \<or> pt_frame s ?g (PDX va) = 0 \<and> length fl = 1)" using nf Cons ptu by simp
    ultimately show ?thesis using t(5) perm(2) vmu Cons unfolding if_not_P [OF \<open>\<not> (fl = [] \<or> pt_frame s ?g (PDX va) = 0 \<and> length fl = 1)\<close>]
      by (intro exI [of _ t] exI [of _ p] exI [of _ ps] exI [of _ fl']) (simp del: PTE_P_def)
  qed
qed


lemma as_inv_cong:
  assumes "pmem t = pmem s" "npages t = npages s" "pages t = pages s" "page_free_list t = page_free_list s"
  shows "as_inv t pgdir fl k = as_inv s pgdir fl k"
  using assms unfolding as_inv_def vm_wf_def page_rep_def rc_inv_def page_ok_def
  by (simp add: vmap_pmem [of t s] pt_frame_pmem [of t s] maps_pmem [of t s])

lemma demo_sched_inv: "as_inv demo_sched 0xF0008000 [3, 6] (\<lambda>_. 0)"
proof -
  have "as_inv demo_mapped 0xF0008000 [3, 6] (\<lambda>_. 0)"
    using demo_mapped_wf demo_mapped_rc by (simp add: as_inv_def)
  thus ?thesis by (subst as_inv_cong [of _ demo_mapped]) (simp_all add: demo_sched_def)
qed

lemma demo_sched_self: "envid2env 0 True demo_sched = Done (Inr (Some 0)) demo_sched"
  by (simp add: envid2env_def)

lemma demo_sched_pgdir: "env_pgdir (envs demo_sched 0) = 0xF0008000"
  by simp

lemma good_args: "\<not> bad_user_va 0x2000" "\<not> bad_user_va 0x1000" "\<not> bad_perm 7" "\<not> bad_perm 5"
  by (simp_all add: bad_user_va_def bad_perm_def PGOFF_def PTE_SYSCALL_def)

theorem sys_page_alloc_fresh_witness:
  "\<exists>t. sys_page_alloc 0 0x2000 7 demo_sched = Done 0 t \<and> vmap t 0xF0008000 0x2000 = 0x3007 \<and>
      vmap t 0xF0008000 0x1000 = 0x9007"
proof -
  have "vmap demo_sched 0xF0008000 = vmap demo_mapped 0xF0008000"
    by (rule vmap_pmem) (simp add: demo_sched_def)
  hence v: "vmap demo_sched 0xF0008000 0x1000 = 0x9007"
    using demo_mapped_vmap [of "0x1000"] by (simp add: PGNUM_def)
  from sys_page_alloc_fresh [OF demo_sched_self _ good_args(1) good_args(3), unfolded demo_sched_pgdir,
      OF demo_sched_inv]
  obtain t p ps fl' where t: "[3, 6] = p # ps" "sys_page_alloc 0 0x2000 7 demo_sched = Done 0 t"
    "\<forall>a<UTOP. vmap t 0xF0008000 a = (if PGNUM a = PGNUM 0x2000 then page2pa p OR 7 else
       vmap demo_sched 0xF0008000 a)"
    by auto
  have "vmap t 0xF0008000 0x2000 = 0x3007" "vmap t 0xF0008000 0x1000 = 0x9007"
    using t(1) t(3) [rule_format, of "0x2000"] t(3) [rule_format, of "0x1000"] v
    by (auto simp: PGNUM_def page2pa_def)
  thus ?thesis using t(2) by blast
qed

section \<open>Sharing\<close>

lemma and_two: "(x :: u32) AND PTE_W = PTE_W \<longleftrightarrow> x AND PTE_W \<noteq> 0"
proof -
  have "x AND 2 = (if bit x 1 then 2 else 0)"
    by (rule bit_word_eqI) (auto simp: bit_simps bit_2_iff)
  thus ?thesis by simp
qed

text \<open>The environments the current one may act on.\<close>

definition may_change :: "kst \<Rightarrow> nat \<Rightarrow> bool" where
  "may_change s e \<longleftrightarrow> curenv s = Some e \<or>
     (env_status (envs s e) \<noteq> ENV_FREE \<and>
      (\<exists>c. curenv s = Some c \<and> env_parent_id (envs s e) = env_id (envs s c)))"

lemma envid2env_may_change:
  "envid2env envid True s = Done (Inr (Some e)) t \<Longrightarrow> t = s \<and> may_change s e"
  by (auto simp: envid2env_def Let_def may_change_def split: if_splits option.splits)

lemma page_lookup_Done:
  assumes "vm_wf s pgdir fl" "va < UTOP" "page_lookup pgdir va s = Done (Some (pp, pte)) t"
  shows "t = s \<and> pp = PGNUM (vmap s pgdir va) \<and> load32 s pte = vmap s pgdir va"
proof -
  have pt: "pt_frame s pgdir (PDX va) \<noteq> 0"
    using assms(3) page_lookup_no_table [OF assms(1)] by auto
  note w = walk_table [OF assms(1,2) pt] and l = load_pte [OF assms(1,2) pt]
  have "PGNUM (PTE_ADDR (vmap s pgdir va)) = PGNUM (vmap s pgdir va)"
    using PGNUM_less [of "vmap s pgdir va"] by (simp add: PTE_ADDR_PGNUM PGNUM_def)
  thus ?thesis using assms(3) w l by (auto simp: page_lookup_def pa2page_def split: if_splits)
qed

text \<open>when \<^verbatim>\<open>sys_page_map\<close> succeeds, both addresses were page-aligned and below \<open>UTOP\<close>, both
  environments were the caller or its children, the permissions were user-readable without
  reserved bits, write permission was granted only on a page the source could write, and the
  mapping was made by \<^verbatim>\<open>page_insert\<close> of exactly the source's page; with any other arguments it
  changes nothing.\<close>

theorem sys_page_map_checks:
  assumes "\<And>e. may_change s e \<Longrightarrow> vm_wf s (env_pgdir (envs s e)) fl"
    and "sys_page_map srcenvid srcva dstenvid dstva perm s = Done r t"
  shows "(r \<noteq> 0 \<and> t = s) \<or>
    (\<exists>src dst. may_change s src \<and> may_change s dst \<and> srcva < UTOP \<and> PGOFF srcva = 0 \<and>
      dstva < UTOP \<and> PGOFF dstva = 0 \<and> \<not> bad_perm perm \<and>
      (perm AND PTE_W \<noteq> 0 \<longrightarrow> vmap s (env_pgdir (envs s src)) srcva AND PTE_W \<noteq> 0) \<and>
      page_insert (env_pgdir (envs s dst)) (PGNUM (vmap s (env_pgdir (envs s src)) srcva)) dstva perm s
        = Done r t)"
proof (cases "bad_user_va srcva \<or> bad_user_va dstva \<or> bad_perm perm")
  case True
  hence "sys_page_map srcenvid srcva dstenvid dstva perm s = Done (- E_INVAL) s"
    unfolding sys_page_map_def by auto
  thus ?thesis using assms(2) by simp
next
  case False
  hence g: "\<not> bad_user_va srcva" "\<not> bad_user_va dstva" "\<not> bad_perm perm" by auto
  note va = good_user_va [OF g(1)] good_user_va [OF g(2)]
  obtain r1 s1 where e1: "envid2env srcenvid True s = Done r1 s1"
    using assms(2) g by (auto simp: sys_page_map_def kbind_Done_iff)
  have s1: "s1 = s" using e1 by (auto simp: envid2env_def Let_def split: if_splits option.splits)
  have n0: "x \<noteq> 0" if "envid2env i True s = Done (Inl x) s" for i x
    using that by (auto simp: envid2env_def Let_def split: if_splits option.splits)
  show ?thesis
  proof (cases r1)
    case (Inl x) thus ?thesis using assms(2) g e1 s1 n0 by (auto simp: sys_page_map_def)
  next
    case src: (Inr src)
    obtain r2 s2 where e2: "envid2env dstenvid True s = Done r2 s2"
      using assms(2) g e1 s1 src by (auto simp: sys_page_map_def kbind_Done_iff)
    have s2: "s2 = s" using e2 by (auto simp: envid2env_def Let_def split: if_splits option.splits)
    show ?thesis
    proof (cases r2)
      case (Inl x) thus ?thesis using assms(2) g e1 s1 src e2 s2 n0 by (auto simp: sys_page_map_def)
    next
      case dst: (Inr dst)
      obtain a b where ab: "src = Some a" "dst = Some b"
        using assms(2) g e1 s1 src e2 s2 dst
        by (auto simp: sys_page_map_def kernel_fault_def split: option.splits)
      have mc: "may_change s a" "may_change s b"
        using envid2env_may_change e1 e2 src dst ab by blast+
      let ?g = "env_pgdir (envs s a)"
      have un: "kbind (page_lookup ?g srcva s) (\<lambda>page_info s. case page_info of
            None \<Rightarrow> Done (- E_INVAL) s
          | Some (page_info, pte) \<Rightarrow>
              if load32 s pte AND PTE_W = 0 \<and> perm AND PTE_W = PTE_W
              then Done (- E_INVAL) s
              else page_insert (env_pgdir (envs s b)) page_info dstva perm s) = Done r t"
        using assms(2) g e1 s1 src e2 s2 dst ab by (simp add: sys_page_map_def)
      then obtain l u where l: "page_lookup ?g srcva s = Done l u" by (auto simp: kbind_Done_iff)
      have u: "u = s" using l
        by (auto simp: page_lookup_def pa2page_def pgdir_walk_def KADDR_def Let_def split: if_splits)
      show ?thesis
      proof (cases l)
        case None thus ?thesis using un l u by auto
      next
        case (Some q)
        obtain pp pte where q: "q = (pp, pte)" by fastforce
        have lk: "pp = PGNUM (vmap s ?g srcva)" "load32 s pte = vmap s ?g srcva"
          using page_lookup_Done [OF assms(1) [OF mc(1)]] va l Some q u by auto
        have pw: "perm AND PTE_W = PTE_W \<longleftrightarrow> perm AND PTE_W \<noteq> 0" by (rule and_two)
        show ?thesis
        proof (cases "load32 s pte AND PTE_W = 0 \<and> perm AND PTE_W = PTE_W")
          case True
          thus ?thesis using un l u Some q by auto
        next
          case False
          hence "page_insert (env_pgdir (envs s b)) pp dstva perm s = Done r t"
            using un l u Some q by (auto split: if_splits)
          thus ?thesis using mc va g(3) lk pw False
            by (intro disjI2 exI [of _ a] exI [of _ b]) auto
        qed
      qed
    qed
  qed
qed


lemma demo_sched_page_map: "\<exists>t. sys_page_map 0 0x1000 0 0x2000 5 demo_sched = Done 0 t"
proof -
  have inv: "vm_wf demo_sched 0xF0008000 [3, 6]" "page_rep demo_sched [3, 6]"
    "rc_inv demo_sched 0xF0008000 (\<lambda>_. 0)" using demo_sched_inv by (simp_all add: as_inv_def)
  have pm: "pmem demo_sched = pmem demo_mapped" by (simp add: demo_sched_def)
  have vm: "vmap demo_sched 0xF0008000 0x1000 = 0x9007"
    using demo_mapped_vmap [of "0x1000"] by (simp add: vmap_pmem [OF pm] PGNUM_def)
  have pt: "pt_frame demo_sched 0xF0008000 (PDX 0x1000) \<noteq> 0" using vm by (auto simp: vmap_def)
  have n: "PGNUM (vmap demo_sched 0xF0008000 0x1000) < npages demo_sched"
    by (simp add: vm PGNUM_def) (simp add: demo_sched_def)
  have lk: "page_lookup 0xF0008000 0x1000 demo_sched =
      Done (Some (9, pte_addr demo_sched 0xF0008000 0x1000)) demo_sched"
    using page_lookup_table [OF inv(1) _ pt n] by (simp add: vm PGNUM_def)
  have w: "load32 demo_sched (pte_addr demo_sched 0xF0008000 0x1000) = 0x9007"
    using load_pte(1) [OF inv(1) _ pt] by (simp add: vm)
  have pf: "pt_frame demo_sched 0xF0008000 d = (if d = 0 then 5 else 0)" for d
    by (simp add: pt_frame_pmem [OF pm])
  have np: "npages demo_sched = 16" by (simp add: demo_sched_def)
  have ok: "page_ok demo_sched 0xF0008000 [3, 6] 9" by (simp add: page_ok_def pf np)
  have ref: "pp_ref (pages demo_sched 9) \<noteq> 0xFFFF" by (simp add: demo_sched_def)
  obtain t where t: "page_insert 0xF0008000 9 0x2000 5 demo_sched = Done 0 t"
    using page_insert_cases [OF inv _ ok ref, of "0x2000" 5] by auto
  show ?thesis
    using demo_sched_self demo_sched_pgdir good_args lk t
    by (auto simp: sys_page_map_def w simp del: demo_sched_fields)
qed

theorem sys_page_map_checks_witness:
  "\<exists>r t. sys_page_map 0 0x1000 0 0x2000 5 demo_sched = Done r t \<and>
     (r \<noteq> 0 \<and> t = demo_sched \<or>
      (\<exists>src dst. may_change demo_sched src \<and> may_change demo_sched dst \<and>
        page_insert (env_pgdir (envs demo_sched dst))
          (PGNUM (vmap demo_sched (env_pgdir (envs demo_sched src)) 0x1000)) 0x2000 5 demo_sched = Done r t))"
proof -
  obtain t where t: "sys_page_map 0 0x1000 0 0x2000 5 demo_sched = Done 0 t"
    using demo_sched_page_map by blast
  have g: "env_pgdir (envs demo_sched e) = 0xF0008000" if "may_change demo_sched e" for e
    using that by (auto simp: may_change_def demo_sched_status split: if_splits)
  have wf: "vm_wf demo_sched (env_pgdir (envs demo_sched e)) [3, 6]" if "may_change demo_sched e" for e
    using demo_sched_inv g [OF that] by (simp add: as_inv_def)
  show ?thesis using sys_page_map_checks [OF wf t] t by blast
qed

section \<open>Message passing\<close>

text \<open>sending a value without a page to an environment that waits for it delivers exactly the
  value and the sender's id, makes the receiver runnable and no longer waiting, and changes
  nothing else; to an environment that does not wait it fails and changes nothing.\<close>

theorem ipc_send_value:
  assumes "envid2env envid False s = Done (Inr (Some e)) s" "curenv s = Some c" "UTOP \<le> srcva"
  shows "sys_ipc_try_send envid value srcva perm s =
    (if env_ipc_recving (envs s e)
     then Done 0 (upd_env e (\<lambda>v. v\<lparr>env_ipc_perm := 0, env_ipc_recving := False,
            env_ipc_from := env_id (envs s c), env_ipc_value := value, env_status := ENV_RUNNABLE\<rparr>) s)
     else Done (- E_IPC_NOT_RECV) s)"
proof -
  have "env_id (envs (upd_env e (\<lambda>v. v\<lparr>env_ipc_perm := 0\<rparr>) s) c) = env_id (envs s c)"
    by (simp add: envs_upd_env)
  thus ?thesis using assms
    by (simp add: sys_ipc_try_send_def with_curenv_def ipc_deliver_def upd_env_def not_le [symmetric])
qed

theorem ipc_send_value_witness:
  "sys_ipc_try_send 0x1001 42 0xFFFFFFFF 0 demo_sched = Done (- E_IPC_NOT_RECV) demo_sched"
proof -
  have "envid2env 0x1001 False demo_sched = Done (Inr (Some 1)) demo_sched"
    by (simp add: envid2env_def Let_def)
  moreover have "UTOP \<le> (0xFFFFFFFF :: u32)" by simp
  ultimately show ?thesis using ipc_send_value [where s = demo_sched and c = 0] by (simp add: zero_env_def)
qed

text \<open>C18: a receiver's request is never checked against the user range: a page sent to an
  environment that asked with an address at or above \<open>UTOP\<close> (which means that it wants no page) is
  inserted at that kernel address.\<close>

theorem ipc_send_unchecked_dstva:
  assumes "envid2env envid False s = Done (Inr (Some e)) s" "curenv s = Some c"
    and "env_ipc_recving (envs s e)" "UTOP \<le> env_ipc_dstva (envs s e)"
    and "srcva < UTOP" "PGOFF srcva = 0" "\<not> bad_perm perm"
    and "page_lookup (env_pgdir (envs s c)) srcva s = Done (Some (pp, pte)) s" "load32 s pte AND PTE_W \<noteq> 0"
    and "page_insert (env_pgdir (envs s e)) pp (env_ipc_dstva (envs s e)) perm s = Done 0 t"
  shows "sys_ipc_try_send envid value srcva perm s =
    Done 0 (ipc_deliver e value c (upd_env e (\<lambda>v. v\<lparr>env_ipc_perm := perm\<rparr>) t))"
  using assms by (simp add: sys_ipc_try_send_def with_curenv_def)

text \<open>An environment that waits for a message without a page, as the library asks for one.\<close>

definition demo_ipc :: kst where
  "demo_ipc = demo_sched\<lparr>envs := (envs demo_sched)(1 := (envs demo_sched 1)\<lparr>env_ipc_recving := True,
     env_ipc_dstva := 0xF0000000\<rparr>)\<rparr>"

lemma demo_ipc_insert: "\<exists>t. page_insert 0xF0008000 9 0xF0000000 7 demo_ipc = Done 0 t"
proof -
  have inv: "as_inv demo_ipc 0xF0008000 [3, 6] (\<lambda>_. 0)"
    using demo_sched_inv by (subst as_inv_cong [of _ demo_sched]) (simp_all add: demo_ipc_def)
  have wf: "vm_wf demo_ipc 0xF0008000 (3 # [6])" and rep: "page_rep demo_ipc (3 # [6])"
    using inv by (simp_all add: as_inv_def)
  have pm: "pmem demo_ipc = pmem demo_mapped" by (simp add: demo_ipc_def demo_sched_def)
  have "pt_frame demo_ipc 0xF0008000 (PDX 0xF0000000) = 0"
    by (simp add: pt_frame_pmem [OF pm] PDX_def)
  note w = walk_create_new [OF wf rep this]
  have "load32 (page_incref 9 (with_table 0xF0008000 0xF0000000 3 demo_ipc)) (frame_addr 3 0) = 0"
    by (simp add: with_table_def after_alloc_def Let_def page_incref_def)
  moreover have "frame_addr 3 0 \<noteq> 0" by (simp add: frame_addr_def)
  ultimately show ?thesis using w by (simp add: page_insert_def Let_def PTX_def)
qed

theorem ipc_send_unchecked_dstva_witness:
  "\<exists>t. page_insert 0xF0008000 9 0xF0000000 7 demo_ipc = Done 0 t \<and>
     sys_ipc_try_send 0x1001 42 0x1000 7 demo_ipc =
       Done 0 (ipc_deliver 1 42 0 (upd_env 1 (\<lambda>v. v\<lparr>env_ipc_perm := 7\<rparr>) t))"
proof -
  obtain t where t: "page_insert 0xF0008000 9 0xF0000000 7 demo_ipc = Done 0 t"
    using demo_ipc_insert by blast
  have pm: "pmem demo_ipc = pmem demo_mapped" by (simp add: demo_ipc_def demo_sched_def)
  have inv: "as_inv demo_ipc 0xF0008000 [3, 6] (\<lambda>_. 0)"
    using demo_sched_inv by (subst as_inv_cong [of _ demo_sched]) (simp_all add: demo_ipc_def)
  hence wf: "vm_wf demo_ipc 0xF0008000 [3, 6]" by (simp add: as_inv_def)
  have va: "(0x1000 :: u32) < UTOP" by simp
  have vm: "vmap demo_ipc 0xF0008000 0x1000 = 0x9007"
    using demo_mapped_vmap [of "0x1000"] by (simp add: vmap_pmem [OF pm] PGNUM_def)
  have pt: "pt_frame demo_ipc 0xF0008000 (PDX 0x1000) \<noteq> 0" using vm by (auto simp: vmap_def)
  have n: "PGNUM (vmap demo_ipc 0xF0008000 0x1000) < npages demo_ipc"
    by (simp add: vm PGNUM_def) (simp add: demo_ipc_def demo_sched_def)
  have lk: "page_lookup 0xF0008000 0x1000 demo_ipc =
      Done (Some (9, pte_addr demo_ipc 0xF0008000 0x1000)) demo_ipc"
    using page_lookup_table [OF wf va pt n] by (simp add: vm PGNUM_def)
  have w: "load32 demo_ipc (pte_addr demo_ipc 0xF0008000 0x1000) AND PTE_W \<noteq> 0"
    using load_pte(1) [OF wf va pt] by (simp add: vm)
  have e: "envid2env 0x1001 False demo_ipc = Done (Inr (Some 1)) demo_ipc"
    by (simp add: envid2env_def Let_def demo_ipc_def)
  have f: "curenv demo_ipc = Some 0" "env_ipc_recving (envs demo_ipc 1)"
    "UTOP \<le> env_ipc_dstva (envs demo_ipc 1)" "env_ipc_dstva (envs demo_ipc 1) = 0xF0000000"
    "env_pgdir (envs demo_ipc 0) = 0xF0008000" "env_pgdir (envs demo_ipc 1) = 0xF0008000"
    using demo_sched_fields(4) by (simp_all add: demo_ipc_def curenv_def)
  show ?thesis
    using ipc_send_unchecked_dstva [OF e f(1,2,3) va _ good_args(3), where pp = 9 and t = t] lk w t f
    by (auto simp: PGOFF_def)
qed

section \<open>Dispatch\<close>

text \<open>An unknown system call number, and the number of the trap frame call that the dispatcher
  leaves out, return \<open>-E_INVAL\<close> and change nothing.\<close>

theorem syscall_unknown:
  assumes "SYS_ipc_recv < no \<or> no = SYS_env_set_trapframe"
  shows "syscall no a1 a2 a3 a4 a5 s = Done (- E_INVAL) s"
  using assms by (auto simp: syscall_def)

theorem syscall_unknown_witness: "syscall 9 1 2 3 4 5 bss_kst = Done (- E_INVAL) bss_kst"
  by (rule syscall_unknown) simp


text \<open>The call that prints goes on to read: it consumes a character of the console's input.\<close>

lemma syscall_cputs_reads:
  "sys_cputs a1 a2 s = Done () u \<Longrightarrow> cons_getc u = (c, v) \<Longrightarrow> syscall SYS_cputs a1 a2 a3 a4 a5 s = Done c v"
  by (simp add: syscall_def sys_cgetc_def)

section \<open>Receiving and sending together\<close>

lemma sched_yield_some:
  assumes "sched_ready s" "x < NENV" "env_status (envs s x) = ENV_RUNNABLE"
  shows "\<exists>e. sched_yield s = NoReturn (ToUser e) (switched e s) \<and> e < NENV \<and>
    env_status (envs s e) = ENV_RUNNABLE"
proof -
  have "sched_scan (sched_start s) [0..<NENV] s \<noteq> None"
    using sched_scan_circ_None [of "sched_start s" s] assms by auto
  then obtain e where "sched_scan (sched_start s) [0..<NENV] s = Some e" by blast
  hence e: "e < 1024" "env_status (envs s e) = ENV_RUNNABLE"
    "\<forall>x < 1024. env_status (envs s x) = ENV_RUNNABLE \<longrightarrow>
       circ_dist (sched_start s) e \<le> circ_dist (sched_start s) x"
    using sched_scan_circ [of "sched_start s" s e] by auto
  from sched_yield_runnable [OF assms(1) e] e show ?thesis by auto
qed

lemma switched_envs:
  "i \<noteq> e \<Longrightarrow> (curenv s = Some i \<Longrightarrow> env_status (envs s i) \<noteq> ENV_RUNNING) \<Longrightarrow>
   envs (switched e s) i = envs s i"
  by (auto simp: switched_def Let_def requeue_def upd_env_def set_curenv_def split: option.splits)

text \<open>The state in which the receiver has given up the processor.\<close>

definition recv_state :: "nat \<Rightarrow> u32 \<Rightarrow> kst \<Rightarrow> kst" where
  "recv_state r dstva s = upd_env r (\<lambda>v. v\<lparr>env_ipc_recving := True, env_ipc_dstva := dstva,
     env_status := ENV_NOT_RUNNABLE,
     env_tf := (env_tf v)\<lparr>tf_regs := (tf_regs (env_tf v))\<lparr>reg_eax := 0\<rparr>\<rparr>\<rparr>) s"

lemma recv_state_ready: "sched_ready s \<Longrightarrow> curenv s = Some r \<Longrightarrow> sched_ready (recv_state r dstva s)"
  by (auto simp: sched_ready_def env_ids_ok_def recv_state_def curenv_def upd_env_def split: if_splits)

text \<open>C19: a receive followed by a send hands over the message: while another environment is
  runnable, \<^verbatim>\<open>sys_ipc_recv\<close> blocks its caller and runs another environment \<open>c\<close>; when \<open>c\<close> then
  sends to the receiver's id, the receiver is runnable again, finds the value and the sender's id in
  its record and 0 as the result of its system call, and cannot be sent to a second time.\<close>

theorem ipc_handshake:
  assumes "sched_ready s" "curenv s = Some r" "\<not> (dstva < UTOP \<and> PGOFF dstva \<noteq> 0)"
    and "x < NENV" "x \<noteq> r" "env_status (envs s x) = ENV_RUNNABLE" "env_id (envs s r) \<noteq> 0"
  shows "\<exists>c t u. sys_ipc_recv dstva s = NoReturn (ToUser c) t \<and> c \<noteq> r \<and>
    env_status (envs t r) = ENV_NOT_RUNNABLE \<and>
    sys_ipc_try_send (env_id (envs s r)) value UTOP perm t = Done 0 u \<and>
    env_status (envs u r) = ENV_RUNNABLE \<and> env_ipc_value (envs u r) = value \<and>
    env_ipc_from (envs u r) = env_id (envs s c) \<and> env_ipc_perm (envs u r) = 0 \<and>
    reg_eax (tf_regs (env_tf (envs u r))) = 0 \<and>
    sys_ipc_try_send (env_id (envs s r)) value' UTOP perm' u = Done (- E_IPC_NOT_RECV) u"
proof -
  let ?w = "recv_state r dstva s"
  have w: "sched_ready ?w" by (rule recv_state_ready [OF assms(1,2)])
  have xw: "env_status (envs ?w x) = ENV_RUNNABLE"
    using assms(5,6) by (simp add: recv_state_def envs_upd_env)
  obtain c where c: "sched_yield ?w = NoReturn (ToUser c) (switched c ?w)" "c < NENV"
      "env_status (envs ?w c) = ENV_RUNNABLE"
    using sched_yield_some [OF w assms(4) xw] by blast
  have rw: "env_status (envs ?w r) = ENV_NOT_RUNNABLE" by (simp add: recv_state_def envs_upd_env)
  hence cr: "c \<noteq> r" using c(3) by auto
  let ?t = "switched c ?w"
  have run: "sys_ipc_recv dstva s = NoReturn (ToUser c) ?t"
    using assms(2,3) c(1) by (simp add: sys_ipc_recv_def with_curenv_def sys_yield_def Let_def
        flip: recv_state_def)
  have tr: "envs ?t r = envs ?w r" by (rule switched_envs) (use cr rw in auto)
  have idx: "env_index (env_id (envs s r)) = r" "env_id (envs s c) = env_id (envs ?t c)"
    using assms(1,2) cr by (auto simp: sched_ready_def env_ids_ok_def recv_state_def envs_upd_env)
  have idr: "env_id (envs ?t r) = env_id (envs s r)" "env_ipc_recving (envs ?t r)"
    using tr by (simp_all add: recv_state_def envs_upd_env)
  have e: "envid2env (env_id (envs s r)) False ?t = Done (Inr (Some r)) ?t"
    using assms(7) idx(1) idr rw tr by (simp add: envid2env_def Let_def)
  let ?f = "\<lambda>v. v\<lparr>env_ipc_perm := 0, env_ipc_recving := False, env_ipc_from := env_id (envs ?t c),
      env_ipc_value := value, env_status := ENV_RUNNABLE\<rparr>"
  let ?u = "upd_env r ?f ?t"
  have send: "sys_ipc_try_send (env_id (envs s r)) value UTOP perm ?t = Done 0 ?u"
    using e idr cr by (simp add: sys_ipc_try_send_def with_curenv_def ipc_deliver_def upd_env_def)
  have eu: "envid2env (env_id (envs s r)) False ?u = Done (Inr (Some r)) ?u"
    using assms(7) idx(1) idr by (simp add: envid2env_def Let_def envs_upd_env)
  have again: "sys_ipc_try_send (env_id (envs s r)) value' UTOP perm' ?u = Done (- E_IPC_NOT_RECV) ?u"
    using eu by (simp add: sys_ipc_try_send_def envs_upd_env)
  have "reg_eax (tf_regs (env_tf (envs ?w r))) = 0" by (simp add: recv_state_def envs_upd_env)
  hence eax: "reg_eax (tf_regs (env_tf (envs ?u r))) = 0" by (simp add: envs_upd_env tr)
  show ?thesis
    by (rule exI [of _ c], rule exI [of _ ?t], rule exI [of _ ?u])
       (use run cr rw tr send again idx eax in \<open>simp add: envs_upd_env\<close>)
qed

theorem ipc_handshake_witness:
  "\<exists>c t u. sys_ipc_recv UTOP demo_sched = NoReturn (ToUser c) t \<and>
     sys_ipc_try_send 0x1000 42 UTOP 0 t = Done 0 u \<and> env_ipc_value (envs u 0) = 42"
proof -
  have "\<not> (UTOP < UTOP \<and> PGOFF UTOP \<noteq> 0)" "1 < NENV" "(1 :: nat) \<noteq> 0"
    "env_status (envs demo_sched 1) = ENV_RUNNABLE" "env_id (envs demo_sched 0) \<noteq> 0"
    by (simp_all add: demo_sched_status)
  from ipc_handshake [of demo_sched "0" UTOP "1" "42" "0" "0" "0", OF demo_sched_ready _ this]
  show ?thesis by auto
qed

section \<open>Fork\<close>

text \<open>\<^verbatim>\<open>sys_exofork\<close> returns twice: the caller gets the positive id of a new environment, which
  is its child, cannot run yet and will resume with the caller's registers except for a zero in
  \<^verbatim>\<open>eax\<close>; no other environment changes its id or status.\<close>

theorem sys_exofork_child:
  assumes "curenv s = Some c" "env_alloc (env_id (envs s c)) s = Done (Inr e) u" "e < NENV" "e \<noteq> c"
    and "unat (env_id (envs s e)) < 2147483648"
  shows "\<exists>t. sys_exofork s = Done (env_id (envs t e)) t \<and> 0 < sint (env_id (envs t e)) \<and>
    env_index (env_id (envs t e)) = e \<and> env_status (envs t e) = ENV_NOT_RUNNABLE \<and>
    env_parent_id (envs t e) = env_id (envs s c) \<and>
    env_tf (envs t e) = (env_tf (envs s c))\<lparr>tf_regs := (tf_regs (env_tf (envs s c)))\<lparr>reg_eax := 0\<rparr>\<rparr> \<and>
    (\<forall>i. i \<noteq> e \<longrightarrow> env_id (envs t i) = env_id (envs s i) \<and> env_status (envs t i) = env_status (envs s i))"
proof -
  note a = env_alloc_Done [OF assms(2)]
  have n: "0 < sint (env_id (envs u e))" "env_index (env_id (envs u e)) = e"
    using new_env_id_props [OF assms(5), of e] a(2) assms(3) by simp_all
  let ?t = "upd_env e (\<lambda>v. v\<lparr>env_status := ENV_NOT_RUNNABLE,
      env_tf := (env_tf (envs u c))\<lparr>tf_regs := (tf_regs (env_tf (envs u c)))\<lparr>reg_eax := 0\<rparr>\<rparr>\<rparr>) u"
  have t: "sys_exofork s = Done (env_id (envs ?t e)) ?t"
    using assms(1,2,4) by (simp add: sys_exofork_def with_curenv_def Let_def upd_env_def)
  have o: "env_id (envs u i) = env_id (envs s i)" "env_status (envs u i) = env_status (envs s i)"
    if "i \<noteq> e" for i
    using env_alloc_Done(8,9) [OF assms(2), of i] that by simp_all
  have tf: "env_tf (envs u c) = env_tf (envs s c)"
    using env_alloc_Done(10) [OF assms(2), of c] assms(4) by simp
  show ?thesis
    by (rule exI [of _ ?t]) (use t n a(4) tf o in \<open>simp add: envs_upd_env\<close>)
qed

theorem sys_exofork_child_witness:
  "\<exists>t. sys_exofork demo_fork = Done (env_id (envs t 3)) t \<and> env_status (envs t 3) = ENV_NOT_RUNNABLE \<and>
     env_parent_id (envs t 3) = 0x1000"
proof -
  obtain u where u: "env_alloc 0x1000 demo_fork = Done (Inr 3) u" using demo_fork_alloc by blast
  have c: "curenv demo_fork = Some 0" "env_id (envs demo_fork 0) = 0x1000" "env_id (envs demo_fork 3) = 0x1003"
    using demo_sched_fields(4) by (simp_all add: demo_fork_def curenv_def)
  show ?thesis using sys_exofork_child [OF c(1), where e = 3 and u = u] u c by auto
qed

section \<open>Status changes\<close>

text \<open>\<^verbatim>\<open>sys_env_set_status\<close> does not look at the current status: a parent can make a child
  that is running on another processor runnable, and then the exclusion that the scheduler relies
  on is lost.\<close>

theorem set_status_breaks_exclusion:
  assumes "envid2env envid True s = Done (Inr (Some e)) s" "cpu_env (cpus s d) = Some e" "d \<noteq> cpunum s"
  shows "\<exists>t. sys_env_set_status envid 2 s = Done 0 t \<and> env_status (envs t e) = ENV_RUNNABLE \<and>
    cpu_env (cpus t d) = Some e \<and> \<not> cpu_excl t"
proof -
  let ?t = "upd_env e (\<lambda>v. v\<lparr>env_status := ENV_RUNNABLE\<rparr>) s"
  have "sys_env_set_status envid 2 s = Done 0 ?t"
    using assms(1) by (simp add: sys_env_set_status_def settable_status_def)
  moreover have "\<not> cpu_excl ?t"
    using assms(2,3) by (auto simp: cpu_excl_def envs_upd_env)
  ultimately show ?thesis using assms(2) by (auto simp: envs_upd_env)
qed

theorem set_status_breaks_exclusion_witness:
  "let s = demo_sched\<lparr>cpus := (cpus demo_sched)(1 := (cpus demo_sched 1)\<lparr>cpu_env := Some 1\<rparr>)\<rparr> in
   \<exists>t. sys_env_set_status 0x1001 2 s = Done 0 t \<and> \<not> cpu_excl t"
proof -
  let ?s = "demo_sched\<lparr>cpus := (cpus demo_sched)(1 := (cpus demo_sched 1)\<lparr>cpu_env := Some 1\<rparr>)\<rparr>"
  have "envid2env 0x1001 True ?s = Done (Inr (Some 1)) ?s"
    using demo_sched_fields by (simp add: envid2env_def Let_def curenv_def)
  from set_status_breaks_exclusion [OF this, of 1] show ?thesis by (auto simp: Let_def)
qed

end
