(* ===== verification/Trap.thy ===== *)
theory Trap
  imports Syscalls
begin

text \<open>
  Traps (\<^verbatim>\<open>kern/trap.c\<close>): the interrupt table, the per-processor task state, the entry
  into the kernel under the big lock, the dispatch, and the user-level page fault upcall.  A
  trap is the frame that the entry code has pushed and the value of \<^verbatim>\<open>cr2\<close>.  A panic ends a run of the
  model, so that the halt of the other processors after one (\<^verbatim>\<open>panicstr\<close>) is not part of \<open>trap\<close>, and neither is the
  assertion that interrupts are off: every gate that the model installs turns them off.
\<close>

definition T_DIVIDE :: nat where [simp]: "T_DIVIDE = 0"
definition T_DEBUG :: nat where [simp]: "T_DEBUG = 1"
definition T_NMI :: nat where [simp]: "T_NMI = 2"
definition T_BRKPT :: nat where [simp]: "T_BRKPT = 3"
definition T_OFLOW :: nat where [simp]: "T_OFLOW = 4"
definition T_BOUND :: nat where [simp]: "T_BOUND = 5"
definition T_ILLOP :: nat where [simp]: "T_ILLOP = 6"
definition T_DEVICE :: nat where [simp]: "T_DEVICE = 7"
definition T_DBLFLT :: nat where [simp]: "T_DBLFLT = 8"
definition T_TSS :: nat where [simp]: "T_TSS = 10"
definition T_SEGNP :: nat where [simp]: "T_SEGNP = 11"
definition T_STACK :: nat where [simp]: "T_STACK = 12"
definition T_GPFLT :: nat where [simp]: "T_GPFLT = 13"
definition T_PGFLT :: nat where [simp]: "T_PGFLT = 14"
definition T_FPERR :: nat where [simp]: "T_FPERR = 16"
definition T_ALIGN :: nat where [simp]: "T_ALIGN = 17"
definition T_MCHK :: nat where [simp]: "T_MCHK = 18"
definition T_SIMDERR :: nat where [simp]: "T_SIMDERR = 19"
definition T_SYSCALL :: nat where [simp]: "T_SYSCALL = 48"
definition IRQ_OFFSET :: nat where [simp]: "IRQ_OFFSET = 32"
definition IRQ_TIMER :: nat where [simp]: "IRQ_TIMER = 0"
definition IRQ_KBD :: nat where [simp]: "IRQ_KBD = 1"
definition IRQ_SERIAL :: nat where [simp]: "IRQ_SERIAL = 4"
definition IRQ_SPURIOUS :: nat where [simp]: "IRQ_SPURIOUS = 7"

section \<open>The tables\<close>

text \<open>The vectors \<^verbatim>\<open>trap_init\<close> fills, with the privilege level that may raise them; the address
  of the entry point of each vector is a parameter, as the linker assigns it.\<close>

definition gates :: "(nat \<times> u32) list" where
  "gates = [(T_DIVIDE, 0), (T_DEBUG, 0), (T_NMI, 0), (T_BRKPT, 3), (T_OFLOW, 0), (T_BOUND, 0),
     (T_ILLOP, 0), (T_DEVICE, 0), (T_FPERR, 0), (T_MCHK, 0), (T_SYSCALL, 3),
     (IRQ_OFFSET + IRQ_TIMER, 0), (T_SIMDERR, 0), (T_DBLFLT, 0), (T_TSS, 0), (T_SEGNP, 0),
     (T_STACK, 0), (T_GPFLT, 0), (T_PGFLT, 0), (T_ALIGN, 0)]"

definition set_gate :: "(nat \<Rightarrow> u32) \<Rightarrow> nat \<times> u32 \<Rightarrow> kst \<Rightarrow> kst" where
  "set_gate handler g s = s\<lparr>idt := (idt s)(fst g := SETGATE False GD_KT (handler (fst g)) (snd g))\<rparr>"

text \<open>The fields of the task state segment and their sizes in bytes.\<close>

definition Taskstate_layout :: "(string \<times> nat) list" where
  "Taskstate_layout =
    [(''ts_link'', 4), (''ts_esp0'', 4), (''ts_ss0'', 2), (''ts_padding1'', 2), (''ts_esp1'',
     4), (''ts_ss1'', 2), (''ts_padding2'', 2), (''ts_esp2'', 4), (''ts_ss2'', 2),
     (''ts_padding3'', 2), (''ts_cr3'', 4), (''ts_eip'', 4), (''ts_eflags'', 4), (''ts_eax'',
     4), (''ts_ecx'', 4), (''ts_edx'', 4), (''ts_ebx'', 4), (''ts_esp'', 4), (''ts_ebp'', 4),
     (''ts_esi'', 4), (''ts_edi'', 4), (''ts_es'', 2), (''ts_padding4'', 2), (''ts_cs'', 2),
     (''ts_padding5'', 2), (''ts_ss'', 2), (''ts_padding6'', 2), (''ts_ds'', 2),
     (''ts_padding7'', 2), (''ts_fs'', 2), (''ts_padding8'', 2), (''ts_gs'', 2),
     (''ts_padding9'', 2), (''ts_ldt'', 2), (''ts_padding10'', 2), (''ts_t'', 2), (''ts_iomb'',
     2)]"

definition sizeof_Taskstate :: u32 where
  "sizeof_Taskstate = of_nat (sum_list (map snd Taskstate_layout))"

lemma sizeof_Taskstate [simp]: "sizeof_Taskstate = 104"
  by (simp add: sizeof_Taskstate_def Taskstate_layout_def)

text \<open>\<open>ts_va\<close> is the address of this processor's task state.\<close>

definition trap_init_percpu :: "u32 \<Rightarrow> kst \<Rightarrow> kst" where
  "trap_init_percpu ts_va s =
    (let i = cpunum s;
         s = s\<lparr>cpus := (cpus s)(i := (cpus s i)\<lparr>
               ts_esp0 := KSTACKTOP - (of_nat i * (KSTKSIZE + KSTKGAP)),
               ts_ss0 := ucast GD_KD, ts_iomb := ucast sizeof_Taskstate\<rparr>)\<rparr>;
         idx = (ucast (drop_bit 3 GD_TSS0 + of_nat i) :: u16);
         seg = push_bit 3 idx;
         s = s\<lparr>gdt := (gdt s)(unat idx := (SEG16 STS_T32A ts_va (sizeof_Taskstate - 1) 0)\<lparr>sd_s := 0\<rparr>)\<rparr>
     in s\<lparr>task_reg := (task_reg s)(i := seg)\<rparr>)"

definition trap_init :: "(nat \<Rightarrow> u32) \<Rightarrow> u32 \<Rightarrow> kst \<Rightarrow> kst" where
  "trap_init handler ts_va s = trap_init_percpu ts_va (fold (set_gate handler) gates s)"

section \<open>The page fault upcall\<close>

text \<open>A 32-bit store through the current page tables, byte by byte.\<close>

definition vstore32 :: "u32 \<Rightarrow> u32 \<Rightarrow> kst \<Rightarrow> (unit, kst) kres" where
  "vstore32 va w s =
    kbind (vstore8 va (ucast w) s) (\<lambda>_ s.
    kbind (vstore8 (va + 1) (ucast (drop_bit 8 w)) s) (\<lambda>_ s.
    kbind (vstore8 (va + 2) (ucast (drop_bit 16 w)) s) (\<lambda>_ s.
    vstore8 (va + 3) (ucast (drop_bit 24 w)) s)))"

fun vstores :: "(u32 \<times> u32) list \<Rightarrow> kst \<Rightarrow> (unit, kst) kres" where
  "vstores [] s = Done () s"
| "vstores ((va, w) # rest) s = kbind (vstore32 va w s) (\<lambda>_ s. vstores rest s)"

definition sizeof_UTrapframe :: u32 where [simp]: "sizeof_UTrapframe = 52"

text \<open>The assignments to the fields of \<^verbatim>\<open>struct UTrapframe\<close> at \<open>u\<close>, in the order of the code.\<close>

definition utf_stores :: "u32 \<Rightarrow> u32 \<Rightarrow> Trapframe \<Rightarrow> (u32 \<times> u32) list" where
  "utf_stores u fault_va tf =
    (let r = tf_regs tf
     in [(u, fault_va), (u + 48, tf_esp tf), (u + 44, tf_eflags tf), (u + 40, tf_eip tf),
         (u + 8, reg_edi r), (u + 12, reg_esi r), (u + 16, reg_ebp r), (u + 20, reg_oesp r),
         (u + 24, reg_ebx r), (u + 28, reg_edx r), (u + 32, reg_ecx r), (u + 36, reg_eax r),
         (u + 4, tf_err tf)])"

text \<open>For a trap from user mode the frame is the one saved in the current environment.\<close>

definition page_fault_handler :: "u32 \<Rightarrow> Trapframe \<Rightarrow> kst \<Rightarrow> (unit, kst) kres" where
  "page_fault_handler fault_va tf s =
    (if tf_cs tf AND 3 = 0 then Panic ''[Error]: page fault en el ring 0.''
     else with_curenv (\<lambda>cur s.
       if env_pgfault_upcall (envs s cur) \<noteq> 0
       then
         let recursive = UXSTACKTOP - PGSIZE \<le> tf_esp tf \<and> tf_esp tf < UXSTACKTOP;
             u = (if recursive then tf_esp tf - 4 - sizeof_UTrapframe
                  else UXSTACKTOP - sizeof_UTrapframe)
         in kbind (if recursive then vstore32 (tf_esp tf - 4) 0 s else Done () s) (\<lambda>_ s.
            kbind (user_mem_assert cur u sizeof_UTrapframe (PTE_W OR PTE_U) s) (\<lambda>_ s.
            kbind (vstores (utf_stores u fault_va tf) s) (\<lambda>_ s.
            let s = upd_env cur (\<lambda>v. v\<lparr>env_tf := (env_tf v)\<lparr>tf_eip := env_pgfault_upcall v,
                      tf_esp := u\<rparr>\<rparr>) s
            in env_run cur s)))
       else env_destroy cur s) s)"

section \<open>Dispatch\<close>

text \<open>\<open>loc\<close> says where the frame is: in an environment, or on the kernel stack.  The monitor,
  which a breakpoint enters, runs commands for ever.\<close>

definition trap_dispatch :: "nat option \<Rightarrow> u32 \<Rightarrow> Trapframe \<Rightarrow> kst \<Rightarrow> (unit, kst) kres" where
  "trap_dispatch loc cr2 tf s =
    (if tf_trapno tf = of_nat T_PGFLT then page_fault_handler cr2 tf s
     else if tf_trapno tf = of_nat T_BRKPT then NoReturn ToMonitor s
     else if tf_trapno tf = of_nat T_SYSCALL
     then let r = tf_regs tf
          in kbind (syscall (reg_eax r) (reg_edx r) (reg_ecx r) (reg_ebx r) (reg_edi r) (reg_esi r) s)
               (\<lambda>v s. Done () (case loc of
                  None \<Rightarrow> s
                | Some e \<Rightarrow> upd_env e (\<lambda>x. x\<lparr>env_tf :=
                    (env_tf x)\<lparr>tf_regs := (tf_regs (env_tf x))\<lparr>reg_eax := v\<rparr>\<rparr>\<rparr>) s))
     else if tf_trapno tf = of_nat (IRQ_OFFSET + IRQ_SPURIOUS) then Done () s
     else if tf_trapno tf = of_nat (IRQ_OFFSET + IRQ_TIMER) then sched_yield s
     else if tf_cs tf = ucast GD_KT then Panic ''unhandled trap in kernel''
     else with_curenv env_destroy s)"

definition start_cpu :: "kst \<Rightarrow> (unit, kst) kres" where
  "start_cpu s =
    (let was = cpu_status (cpus s (cpunum s)); s = set_cpu_status CPU_STARTED s
     in if was = CPU_HALTED then lock_kernel s else Done () s)"

text \<open>The part of \<^verbatim>\<open>trap\<close> for traps from user mode, up to the saving of the frame.\<close>

definition trap_from_user :: "Trapframe \<Rightarrow> kst \<Rightarrow> (nat, kst) kres" where
  "trap_from_user tf s =
    kbind (lock_kernel s) (\<lambda>_ s.
    kbind (kassert (curenv s \<noteq> None) ''assertion failed: curenv'' s) (\<lambda>_ s.
    with_curenv (\<lambda>cur s.
      kbind (if env_status (envs s cur) = ENV_DYING
             then kbind (env_free cur s) (\<lambda>_ s. sched_yield (set_curenv None s))
             else Done () s) (\<lambda>_ s.
        Done cur (upd_env cur (\<lambda>v. v\<lparr>env_tf := tf\<rparr>) s))) s))"

definition trap_return :: "kst \<Rightarrow> (unit, kst) kres" where
  "trap_return s = (case curenv s of
      Some cur \<Rightarrow> if env_status (envs s cur) = ENV_RUNNING then env_run cur s else sched_yield s
    | None \<Rightarrow> sched_yield s)"

definition trap :: "u32 \<Rightarrow> Trapframe \<Rightarrow> kst \<Rightarrow> (unit, kst) kres" where
  "trap cr2 tf s =
    kbind (start_cpu s) (\<lambda>_ s.
    kbind (if tf_cs tf AND 3 = 3
           then kbind (trap_from_user tf s) (\<lambda>cur s. trap_dispatch (Some cur) cr2 tf s)
           else trap_dispatch None cr2 tf s) (\<lambda>_ s.
    trap_return s))"

end
