(* ===== verification/TrapProps.thy ===== *)
theory TrapProps
  imports Trap SysProps
begin

text \<open>
  Properties of traps: which vectors user code may raise, how a system call comes back to its
  caller, and what the user-level page fault handler finds on its stack.
\<close>

section \<open>Bytes of user memory\<close>

text \<open>A byte at a user address, as the page tables at \<open>pgdir\<close> map it.\<close>

definition ubyte :: "kst \<Rightarrow> u32 \<Rightarrow> u32 \<Rightarrow> u8" where
  "ubyte s pgdir va = load8 s (PTE_ADDR (vmap s pgdir va) + PGOFF va + KERNBASE)"

definition uword :: "kst \<Rightarrow> u32 \<Rightarrow> u32 \<Rightarrow> u32" where
  "uword s pgdir va = ucast (ubyte s pgdir va) OR push_bit 8 (ucast (ubyte s pgdir (va + 1)))
     OR push_bit 16 (ucast (ubyte s pgdir (va + 2))) OR push_bit 24 (ucast (ubyte s pgdir (va + 3)))"

lemma page_plus_offset:
  "PTE_ADDR p + PGOFF va = PTE_ADDR p OR PGOFF va"
  by (rule disjunctive_add_eq_or, rule bit_word_eqI) (auto simp: addr_fields bit_simps)

lemma user_pa:
  "PGNUM (PTE_ADDR p + PGOFF va) = PGNUM p" "PGOFF (PTE_ADDR p + PGOFF va) = PGOFF va"
  "(PTE_ADDR p + PGOFF va) AND 3 = va AND 3"
proof -
  show "PGNUM (PTE_ADDR p + PGOFF va) = PGNUM p" unfolding page_plus_offset unfolding addr_fields u32_masks
    by (rule bit_word_eqI) (auto simp: bit_simps dest: bit_imp_le_length)
  show "PGOFF (PTE_ADDR p + PGOFF va) = PGOFF va" unfolding page_plus_offset unfolding addr_fields u32_masks
    by (rule bit_word_eqI) (auto simp: bit_simps)
  show "(PTE_ADDR p + PGOFF va) AND 3 = va AND 3" unfolding page_plus_offset unfolding addr_fields u32_masks
    by (rule bit_word_eqI) (auto simp: bit_simps)
qed

lemma byte_lane: "(a + 0xF0000000) AND 3 = a AND (3 :: u32)"
proof -
  have "(a + 0xF0000000) AND mask 2 = a + (0xF0000000 AND mask 2) AND (mask 2 :: u32)"
    by (rule mask_eqs(2) [symmetric])
  also have "0xF0000000 AND mask 2 = (0 :: u32)" by (simp add: mask_eq_exp_minus_1)
  finally show ?thesis by (simp add: u32_masks)
qed

lemma byte_of_lane: "a AND 3 = b AND 3 \<Longrightarrow> byte_of w a = byte_of w b"
  "a AND 3 = b AND 3 \<Longrightarrow> set_byte_of w a x = set_byte_of w b x"
  by (simp_all add: byte_of_def set_byte_of_def)

lemma ubyte_frame:
  "ubyte s pgdir va = byte_of (pmem s (PGNUM (vmap s pgdir va)) (drop_bit 2 (PGOFF va))) va"
  unfolding ubyte_def load8_def load32_def Let_def
  by (simp add: user_pa) (rule byte_of_lane, simp add: byte_lane user_pa)

lemma byte_of_set_other:
  assumes "a AND 3 \<noteq> b AND 3" shows "byte_of (set_byte_of w a x) b = byte_of w b"
proof -
  let ?i = "unat (a AND 3)" and ?j = "unat (b AND 3)"
  have ij: "?i \<noteq> ?j" using assms by (simp add: word_unat_eq_iff)
  have le: "?i \<le> 3" "?j \<le> 3" using word_and_le1 [of a 3] word_and_le1 [of b 3]
    by (simp_all add: word_le_nat_alt)
  have f: "(0xFF :: u32) = mask 8" by (simp add: mask_eq_exp_minus_1)
  show ?thesis unfolding byte_of_def set_byte_of_def Let_def
  proof (rule bit_word_eqI)
    fix n assume n: "n < LENGTH(8)"
    have "\<not> (8 * ?i \<le> 8 * ?j + n \<and> 8 * ?j + n - 8 * ?i < 8)" using ij n by auto
    thus "bit (ucast (drop_bit (8 * ?j) (w AND NOT (push_bit (8 * ?i) 0xFF) OR
        push_bit (8 * ?i) (ucast x))) :: u8) n = bit (ucast (drop_bit (8 * ?j) w) :: u8) n"
      unfolding f using n le by (auto simp: bit_simps dest: bit_imp_le_length)
  qed
qed

lemma offset_parts: "drop_bit 2 (PGOFF a) = drop_bit 2 (PGOFF b) \<Longrightarrow> a AND 3 = b AND 3 \<Longrightarrow> PGOFF a = PGOFF b"
proof -
  assume h: "drop_bit 2 (PGOFF a) = drop_bit 2 (PGOFF b)" "a AND 3 = b AND 3"
  have e: "PGOFF x = push_bit 2 (drop_bit 2 (PGOFF x)) OR (x AND 3)" for x :: u32
  proof (rule bit_word_eqI)
    fix n assume "n < LENGTH(32)"
    show "bit (PGOFF x) n = bit (push_bit 2 (drop_bit 2 (PGOFF x)) OR (x AND 3)) n"
    proof (cases "n < 2")
      case True thus ?thesis unfolding addr_fields u32_masks by (auto simp: bit_simps)
    next
      case False
      hence "Suc (Suc (n - 2)) = n" by simp
      thus ?thesis using False unfolding addr_fields u32_masks by (auto simp: bit_simps)
    qed
  qed
  show ?thesis by (subst e [of a], subst e [of b]) (simp add: h)
qed

lemma and_PGOFF_3: "PGOFF a AND 3 = a AND 3"
  unfolding addr_fields u32_masks by (rule bit_word_eqI) (auto simp: bit_simps)

text \<open>Memory written outside the tables of an address space leaves the address space alone.\<close>

lemma off_tables:
  assumes wf: "vm_wf s pgdir fl" and p: "page_ok s pgdir fl p" and np: "npages t = npages s"
    and pm: "\<And>f. f \<noteq> p \<Longrightarrow> pmem t f = pmem s f"
  shows "pt_frame t pgdir = pt_frame s pgdir" "vmap t pgdir = vmap s pgdir" "vm_wf t pgdir fl"
    "page_ok t pgdir fl q = page_ok s pgdir fl q"
proof -
  show pt: "pt_frame t pgdir = pt_frame s pgdir"
    using p pm [of "pd_frame pgdir"] by (auto simp: pt_frame_def page_ok_def fun_eq_iff)
  have "pt_frame s pgdir (PDX va) \<noteq> p" for va using p PDX_less [of va] unfolding page_ok_def by blast
  thus vm: "vmap t pgdir = vmap s pgdir" by (auto simp: vmap_def pt pm fun_eq_iff)
  have ok: "page_ok t pgdir fl q = page_ok s pgdir fl q" for q by (simp add: page_ok_def pt np)
  show "vm_wf t pgdir fl" using wf unfolding vm_wf_def by (simp add: pt vm np ok)
  show "page_ok t pgdir fl q = page_ok s pgdir fl q" by (rule ok)
qed

lemma vstore8_user:
  assumes wf: "vm_wf s pgdir fl" and cur: "cur_pgdir s = pgdir" and va: "va < UTOP"
    and p: "vmap s pgdir va AND PTE_P \<noteq> 0" "vmap s pgdir va AND PTE_W \<noteq> 0"
  shows "\<exists>m. let t = s\<lparr>pmem := m\<rparr> in vstore8 va b s = Done () t \<and> vm_wf t pgdir fl \<and>
    vmap t pgdir = vmap s pgdir \<and>
    (\<forall>f. f \<noteq> PGNUM (vmap s pgdir va) \<longrightarrow> m f = pmem s f) \<and>
    (\<forall>a. PGNUM (vmap s pgdir a) = PGNUM (vmap s pgdir va) \<longrightarrow>
       ubyte t pgdir a = (if PGOFF a = PGOFF va then b else ubyte s pgdir a))"
proof -
  let ?e = "vmap s pgdir va" and ?f = "PGNUM (vmap s pgdir va)" and ?i = "drop_bit 2 (PGOFF va)"
  let ?m = "(pmem s)(?f := (pmem s ?f)(?i := set_byte_of (pmem s ?f ?i) va b))"
  let ?t = "s\<lparr>pmem := ?m\<rparr>"
  have ok: "page_ok s pgdir fl ?f" using wf va p(1) by (auto simp: vm_wf_def)
  have st: "vstore8 va b s = Done () ?t"
    using p cur unfolding vstore8_def store8_def store32_def load32_def Let_def
    by (simp add: user_pa byte_lane byte_of_lane(2) [of "_ + KERNBASE" va])
       (subst byte_of_lane(2) [of _ va], simp_all add: byte_lane user_pa)
  note off = off_tables [OF wf ok, of ?t]
  have vm: "vmap ?t pgdir = vmap s pgdir" by (rule off(2)) simp_all
  have "ubyte ?t pgdir a = (if PGOFF a = PGOFF va then b else ubyte s pgdir a)"
    if pg: "PGNUM (vmap s pgdir a) = ?f" for a
  proof (cases "drop_bit 2 (PGOFF a) = ?i")
    case i: True
    have lane: "PGOFF a = PGOFF va \<longleftrightarrow> a AND 3 = va AND 3"
      using offset_parts [OF i] by (metis and_PGOFF_3)
    show ?thesis
    proof (cases "a AND 3 = va AND 3")
      case True
      have "byte_of (set_byte_of (pmem s ?f ?i) va b) a = b"
        using byte_of_lane(1) [OF True] byte_of_set_same by simp
      thus ?thesis using True lane i pg by (simp add: ubyte_frame vm)
    next
      case False
      hence "byte_of (set_byte_of (pmem s ?f ?i) va b) a = byte_of (pmem s ?f ?i) a"
        by (intro byte_of_set_other) simp
      thus ?thesis using False lane i pg by (simp add: ubyte_frame vm)
    qed
  next
    case False
    thus ?thesis using pg by (auto simp: ubyte_frame vm)
  qed
  thus ?thesis using st off(3) vm by (intro exI [of _ ?m]) (simp add: Let_def)
qed

text \<open>\<open>user_write v g fl s t M\<close>: from \<open>s\<close> to \<open>t\<close> only the page of \<open>v\<close> was written, and
  it now reads as \<open>M\<close>.\<close>

definition user_write :: "u32 \<Rightarrow> u32 \<Rightarrow> u32 list \<Rightarrow> kst \<Rightarrow> kst \<Rightarrow> mem \<Rightarrow> bool" where
  "user_write v g fl s t M \<longleftrightarrow> t = s\<lparr>pmem := pmem t\<rparr> \<and> vm_wf t g fl \<and> vmap t g = vmap s g \<and>
     (\<forall>f. f \<noteq> PGNUM (vmap s g v) \<longrightarrow> pmem t f = pmem s f) \<and>
     (\<forall>a. PGNUM a = PGNUM v \<longrightarrow> ubyte t g a = M a)"

definition writable_page :: "kst \<Rightarrow> u32 \<Rightarrow> u32 \<Rightarrow> bool" where
  "writable_page s g v \<longleftrightarrow> cur_pgdir s = g \<and> v < UTOP \<and> vmap s g v AND PTE_P \<noteq> 0 \<and>
     vmap s g v AND PTE_W \<noteq> 0"

lemma UTOP_pages: "PGNUM a = PGNUM b \<Longrightarrow> a < UTOP \<longleftrightarrow> b < UTOP"
proof -
  have "x < UTOP \<longleftrightarrow> unat (PGNUM x) < 0xEEC00" for x
    by (simp add: unat_PGNUM word_less_nat_alt less_mult_imp_div_less div_less_iff_less_mult)
  thus "PGNUM a = PGNUM b \<Longrightarrow> a < UTOP \<longleftrightarrow> b < UTOP" by simp
qed

lemma same_page_eq: "PGNUM a = PGNUM b \<Longrightarrow> PGOFF a = PGOFF b \<longleftrightarrow> a = b"
proof -
  have "x = push_bit 12 (PGNUM x) OR PGOFF x" for x
  proof (rule bit_word_eqI)
    fix n assume n: "n < LENGTH(32)"
    show "bit x n = bit (push_bit 12 (PGNUM x) OR PGOFF x) n"
      using n unfolding addr_fields u32_masks by (cases "n < 12") (auto simp: bit_simps)
  qed
  thus "PGNUM a = PGNUM b \<Longrightarrow> PGOFF a = PGOFF b \<longleftrightarrow> a = b" by metis
qed

lemma user_write_refl: "vm_wf s g fl \<Longrightarrow> user_write v g fl s s (ubyte s g)"
  by (simp add: user_write_def)

lemma vstore8_write:
  assumes u: "user_write v g fl s0 s M" and w: "writable_page s0 g v" and va: "PGNUM va = PGNUM v"
  shows "\<exists>t. vstore8 va b s = Done () t \<and> user_write v g fl s0 t (M(va := b))"
proof -
  have s: "s = s0\<lparr>pmem := pmem s\<rparr>" and wf: "vm_wf s g fl" and vm: "vmap s g = vmap s0 g"
    using u by (simp_all add: user_write_def)
  have cur: "cur_pgdir s = g" using w by (subst s) (simp add: writable_page_def cur_pgdir_def)
  have e: "vmap s g a = vmap s0 g v" if "PGNUM a = PGNUM v" for a
    using vmap_same_page [OF that] vm by simp
  have lt: "va < UTOP" using UTOP_pages [OF va] w by (simp add: writable_page_def)
  have pw: "vmap s g va AND PTE_P \<noteq> 0" "vmap s g va AND PTE_W \<noteq> 0"
    using w e [OF va] by (simp_all add: writable_page_def)
  from vstore8_user [OF wf cur lt pw, of b] obtain m where
    m: "vstore8 va b s = Done () (s\<lparr>pmem := m\<rparr>)" "vm_wf (s\<lparr>pmem := m\<rparr>) g fl"
      "vmap (s\<lparr>pmem := m\<rparr>) g = vmap s g"
      "\<forall>f. f \<noteq> PGNUM (vmap s g va) \<longrightarrow> m f = pmem s f"
      "\<forall>a. PGNUM (vmap s g a) = PGNUM (vmap s g va) \<longrightarrow>
         ubyte (s\<lparr>pmem := m\<rparr>) g a = (if PGOFF a = PGOFF va then b else ubyte s g a)"
    by (auto simp: Let_def)
  have "ubyte (s\<lparr>pmem := m\<rparr>) g a = (M(va := b)) a" if a: "PGNUM a = PGNUM v" for a
    using m(5) e [OF va] e [OF a] same_page_eq [of a va] a va u by (auto simp: user_write_def)
  moreover have "s\<lparr>pmem := m\<rparr> = s0\<lparr>pmem := m\<rparr>" by (subst s) simp
  moreover have "\<forall>f. f \<noteq> PGNUM (vmap s0 g v) \<longrightarrow> m f = pmem s0 f"
    using m(4) e [OF va] u by (simp add: user_write_def)
  ultimately show ?thesis using m(1,2,3) vm by (auto simp: user_write_def)
qed

lemma vstore32_write:
  assumes u: "user_write v g fl s0 s M" and w: "writable_page s0 g v"
    and va: "\<forall>k < 4. PGNUM (va + of_nat k) = PGNUM v"
  shows "\<exists>t. vstore32 va x s = Done () t \<and> user_write v g fl s0 t (put4 va x M)"
proof -
  have va': "PGNUM va = PGNUM v" "PGNUM (va + 1) = PGNUM v" "PGNUM (va + 2) = PGNUM v"
    "PGNUM (va + 3) = PGNUM v"
    using va [rule_format, of 0] va [rule_format, of 1] va [rule_format, of 2] va [rule_format, of 3]
    by simp_all
  from vstore8_write [OF u w va'(1)] obtain s1
    where s1: "vstore8 va (ucast x) s = Done () s1" "user_write v g fl s0 s1 (M(va := ucast x))" by blast
  from vstore8_write [OF s1(2) w va'(2)] obtain s2
    where s2: "vstore8 (va + 1) (ucast (drop_bit 8 x)) s1 = Done () s2"
      "user_write v g fl s0 s2 (M(va := ucast x, va + 1 := ucast (drop_bit 8 x)))" by blast
  from vstore8_write [OF s2(2) w va'(3)] obtain s3
    where s3: "vstore8 (va + 2) (ucast (drop_bit 16 x)) s2 = Done () s3"
      "user_write v g fl s0 s3 (M(va := ucast x, va + 1 := ucast (drop_bit 8 x),
         va + 2 := ucast (drop_bit 16 x)))" by blast
  from vstore8_write [OF s3(2) w va'(4), of "ucast (drop_bit 24 x)"] s1 s2 s3 show ?thesis
    by (auto simp: vstore32_def put4_def)
qed

lemma vstores_write:
  assumes "user_write v g fl s0 s M" "writable_page s0 g v"
    and "\<forall>(va, x) \<in> set xs. \<forall>k < 4. PGNUM (va + of_nat k) = PGNUM v"
  shows "\<exists>t. vstores xs s = Done () t \<and> user_write v g fl s0 t (fold (\<lambda>(va, x). put4 va x) xs M)"
  using assms(1,3)
proof (induction xs arbitrary: s M)
  case Nil thus ?case by simp
next
  case (Cons e xs)
  obtain va x where e: "e = (va, x)" by fastforce
  from vstore32_write [OF Cons.prems(1) assms(2), of va x] obtain s1
    where s1: "vstore32 va x s = Done () s1" "user_write v g fl s0 s1 (put4 va x M)"
    using Cons.prems(2) e by auto
  from Cons.IH [OF s1(2)] Cons.prems(2) s1(1) show ?case by (simp add: e)
qed

section \<open>Stack frames in user memory\<close>

record UTrapframe =
  utf_fault_va :: u32
  utf_err :: u32
  utf_regs :: PushRegs
  utf_eip :: u32
  utf_eflags :: u32
  utf_esp :: u32

definition read_utf :: "u32 \<Rightarrow> mem \<Rightarrow> UTrapframe" where
  "read_utf u m = \<lparr>utf_fault_va = get4 u m, utf_err = get4 (u + 4) m,
     utf_regs = \<lparr>reg_edi = get4 (u + 8) m, reg_esi = get4 (u + 12) m, reg_ebp = get4 (u + 16) m,
       reg_oesp = get4 (u + 20) m, reg_ebx = get4 (u + 24) m, reg_edx = get4 (u + 28) m,
       reg_ecx = get4 (u + 32) m, reg_eax = get4 (u + 36) m\<rparr>,
     utf_eip = get4 (u + 40) m, utf_eflags = get4 (u + 44) m, utf_esp = get4 (u + 48) m\<rparr>"

lemma read_utf_stores:
  "read_utf u (fold (\<lambda>(va, x). put4 va x) (utf_stores u va tf) m) =
     \<lparr>utf_fault_va = va, utf_err = tf_err tf, utf_regs = tf_regs tf, utf_eip = tf_eip tf,
      utf_eflags = tf_eflags tf, utf_esp = tf_esp tf\<rparr>"
  by (simp add: read_utf_def utf_stores_def Let_def get4_put4_same get4_put4_offsets)

lemma utf_stores_outside:
  assumes "52 \<le> a - u"
  shows "fold (\<lambda>(va, x). put4 va x) (utf_stores u va tf) m a = m a"
proof -
  have o: "4 \<le> a - (u + q)" if "q \<le> 48" for q
  proof -
    have l: "52 \<le> unat (a - u)" "unat q \<le> 48" using assms that by (simp_all add: word_le_nat_alt)
    have "unat (a - u - q) = unat (a - u) - unat q"
      using l by (simp add: unat_sub_if_size)
    hence "4 \<le> unat (a - (u + q))" using l by (simp add: algebra_simps)
    thus ?thesis by (simp add: word_le_nat_alt)
  qed
  from o [of 0] have "4 \<le> a - u" by simp
  thus ?thesis by (simp add: utf_stores_def Let_def put4_outside o)
qed

section \<open>Into the kernel and back\<close>

text \<open>The situation in which user code traps: the processor runs environment \<open>c\<close> in user mode and
  does not hold the kernel lock, and nobody else does (otherwise it waits for it).\<close>

definition trap_ready :: "kst \<Rightarrow> nat \<Rightarrow> Trapframe \<Rightarrow> bool" where
  "trap_ready s c tf \<longleftrightarrow> tf_cs tf AND 3 = 3 \<and> cpu_status (cpus s (cpunum s)) \<noteq> CPU_HALTED \<and>
     klock s = None \<and> curenv s = Some c \<and> env_status (envs s c) = ENV_RUNNING"

text \<open>The state in which the trap is dispatched: the lock taken and the frame saved.\<close>

definition entered :: "nat \<Rightarrow> Trapframe \<Rightarrow> kst \<Rightarrow> kst" where
  "entered c tf s = upd_env c (\<lambda>v. v\<lparr>env_tf := tf\<rparr>)
     ((set_cpu_status CPU_STARTED s)\<lparr>klock := Some (cpunum s)\<rparr>)"

lemma entered_fields [simp]:
  "curenv (entered c tf s) = curenv s" "cpunum (entered c tf s) = cpunum s"
  "klock (entered c tf s) = Some (cpunum s)" "pmem (entered c tf s) = pmem s"
  "npages (entered c tf s) = npages s" "cr3 (entered c tf s) = cr3 s"
  "envs (entered c tf s) = (envs s)(c := (envs s c)\<lparr>env_tf := tf\<rparr>)"
  by (simp_all add: entered_def upd_env_def set_cpu_status_def curenv_def)

lemma trap_entered:
  assumes "trap_ready s c tf"
  shows "trap cr2 tf s = kbind (trap_dispatch (Some c) cr2 tf (entered c tf s)) (\<lambda>_ s. trap_return s)"
proof -
  have st: "start_cpu s = Done () (set_cpu_status CPU_STARTED s)"
    using assms by (simp add: start_cpu_def trap_ready_def Let_def)
  have cu: "curenv (set_cpu_status CPU_STARTED s\<lparr>klock := Some (cpunum s)\<rparr>) = Some c"
    using assms by (simp add: trap_ready_def curenv_def set_cpu_status_def)
  have lk: "lock_kernel (set_cpu_status CPU_STARTED s) =
      Done () (set_cpu_status CPU_STARTED s\<lparr>klock := Some (cpunum s)\<rparr>)"
    using assms by (simp add: lock_kernel_def trap_ready_def set_cpu_status_def)
  have "trap_from_user tf (set_cpu_status CPU_STARTED s) = Done c (entered c tf s)"
    using assms by (simp add: trap_from_user_def lk cu with_curenv_def entered_def kassert_def)
      (simp add: trap_ready_def set_cpu_status_def)
  thus ?thesis using assms by (simp add: trap_def st trap_ready_def)
qed

lemma switched_other:
  "env_tf (envs (switched e s) i) = env_tf (envs s i)" "pmem (switched e s) = pmem s"
  by (auto simp: switched_def Let_def requeue_def upd_env_def set_curenv_def split: option.splits)

text \<open>C23: a system call that returns while its caller still runs goes back to user mode in the
  caller, with the result in \<open>eax\<close> and every other register as the call left it, the kernel
  lock released and the other environments as the call left them.\<close>

theorem trap_syscall_returns:
  assumes "trap_ready s c tf" "tf_trapno tf = of_nat T_SYSCALL"
    and "syscall (reg_eax (tf_regs tf)) (reg_edx (tf_regs tf)) (reg_ecx (tf_regs tf))
           (reg_ebx (tf_regs tf)) (reg_edi (tf_regs tf)) (reg_esi (tf_regs tf)) (entered c tf s) = Done v t"
    and "curenv t = Some c" "klock t = Some (cpunum t)" "env_status (envs t c) = ENV_RUNNING"
      "KERNBASE \<le> env_pgdir (envs t c)"
  shows "\<exists>u. trap cr2 tf s = NoReturn (ToUser c) u \<and>
    env_tf (envs u c) = (env_tf (envs t c))\<lparr>tf_regs := (tf_regs (env_tf (envs t c)))\<lparr>reg_eax := v\<rparr>\<rparr> \<and>
    klock u = None \<and> curenv u = Some c \<and> pmem u = pmem t \<and> (\<forall>e. e \<noteq> c \<longrightarrow> envs u e = envs t e)"
proof -
  let ?t = "upd_env c (\<lambda>x. x\<lparr>env_tf := (env_tf x)\<lparr>tf_regs := (tf_regs (env_tf x))\<lparr>reg_eax := v\<rparr>\<rparr>\<rparr>) t"
  have d: "trap_dispatch (Some c) cr2 tf (entered c tf s) = Done () ?t"
    using assms(2,3) by (simp add: trap_dispatch_def Let_def)
  have r: "trap_return ?t = env_run c ?t"
    using assms(4,6) by (simp add: trap_return_def envs_upd_env)
  have k: "klock ?t = Some (cpunum ?t)" using assms(5) by (simp add: upd_env_def)
  have g: "KERNBASE \<le> env_pgdir (envs ?t c)" using assms(7) by (simp add: envs_upd_env)
  have o: "envs (switched c ?t) e = envs t e" if "e \<noteq> c" for e
    using that assms(4) by (simp add: switched_def requeue_def Let_def envs_upd_env set_curenv_def)
  show ?thesis
    using env_run_enters [OF k g] o
    by (simp add: trap_entered [OF assms(1)] d r switched_other envs_upd_env)
qed

definition demo_user :: kst where
  "demo_user = demo_sched\<lparr>klock := None\<rparr>"

lemma demo_user_fields [simp]:
  "envs demo_user = envs demo_sched" "klock demo_user = None" "cpunum demo_user = 0"
  "curenv demo_user = Some 0" "cpu_status (cpus demo_sched 0) = CPU_UNUSED" "pmem demo_user = pmem demo_mapped"
  "npages demo_user = 16" "cpus demo_user = cpus demo_sched"
  by (simp_all add: demo_user_def curenv_def demo_sched_def demo_mapped_def bss_kst_def)

theorem trap_syscall_returns_witness:
  "\<exists>u. trap 0 (env_tf zero_env\<lparr>tf_cs := 0x1B, tf_trapno := 48,
       tf_regs := (tf_regs (env_tf zero_env))\<lparr>reg_eax := 99\<rparr>\<rparr>) demo_user = NoReturn (ToUser 0) u \<and>
     reg_eax (tf_regs (env_tf (envs u 0))) = - E_INVAL \<and> klock u = None"
proof -
  let ?tf = "env_tf zero_env\<lparr>tf_cs := 0x1B, tf_trapno := 48,
       tf_regs := (tf_regs (env_tf zero_env))\<lparr>reg_eax := 99\<rparr>\<rparr>"
  have r: "trap_ready demo_user 0 ?tf" by (simp add: trap_ready_def)
  have "\<exists>u. trap 0 ?tf demo_user = NoReturn (ToUser 0) u \<and>
    env_tf (envs u 0) = (env_tf (envs (entered 0 ?tf demo_user) 0))\<lparr>tf_regs :=
      (tf_regs (env_tf (envs (entered 0 ?tf demo_user) 0)))\<lparr>reg_eax := - E_INVAL\<rparr>\<rparr> \<and>
    klock u = None \<and> curenv u = Some 0 \<and> pmem u = pmem (entered 0 ?tf demo_user) \<and>
    (\<forall>e. e \<noteq> 0 \<longrightarrow> envs u e = envs (entered 0 ?tf demo_user) e)"
    by (rule trap_syscall_returns [OF r]) (simp_all add: syscall_def)
  thus ?thesis by auto
qed

section \<open>The page fault upcall\<close>

text \<open>The page of the exception stack.\<close>

lemma xstack_page: "PGNUM a = PGNUM 0xEEBFF000 \<longleftrightarrow> 0xEEBFF000 \<le> a \<and> a < 0xEEC00000"
proof -
  have "PGNUM a = PGNUM 0xEEBFF000 \<longleftrightarrow> unat a div 4096 = 0xEEBFF"
    by (simp add: word_unat_eq_iff unat_PGNUM)
  also have "\<dots> \<longleftrightarrow> 0xEEBFF000 \<le> unat a \<and> unat a < 0xEEC00000" by auto
  finally show ?thesis by (simp add: word_le_nat_alt word_less_nat_alt)
qed

lemma entry_bits:
  assumes "(e :: u32) AND 7 = 7" shows "e AND 1 = 1" "e AND 2 = 2" "e AND 6 = 6"
proof -
  have "(e AND 7) AND 1 = 1" "(e AND 7) AND 2 = 2" "(e AND 7) AND 6 = 6" using assms by simp_all
  thus "e AND 1 = 1" "e AND 2 = 2" "e AND 6 = 6" by (simp_all add: and.assoc)
qed

lemma frame_in_xstack:
  assumes "0xEEBFF038 \<le> esp" "esp < (0xEEC00000 :: u32)"
  shows "0xEEBFF000 \<le> esp - 56" "unat (esp - 56) + 52 \<le> 0xEEC00000"
proof -
  have b: "0xEEBFF038 \<le> unat esp" "unat esp < 0xEEC00000"
    using assms by (simp_all add: word_le_nat_alt word_less_nat_alt)
  have d: "unat (esp - 56) = unat esp - 56" using b by (simp add: unat_sub_if_size)
  show "0xEEBFF000 \<le> esp - 56" using b d by (simp add: word_le_nat_alt)
  show "unat (esp - 56) + 52 \<le> 0xEEC00000" using b d by linarith
qed

lemma scratch_page:
  assumes "0xEEBFF038 \<le> esp" "esp < UXSTACKTOP"
  shows "\<forall>k < 4. PGNUM (esp - 4 + of_nat k) = PGNUM 0xEEBFF000"
proof (intro allI impI)
  fix k :: nat assume k: "k < 4"
  have b: "0xEEBFF038 \<le> unat esp" "unat esp < 0xEEC00000"
    using assms by (simp_all add: word_le_nat_alt word_less_nat_alt)
  have "unat (esp - 4) = unat esp - 4" using b by (simp add: unat_sub_if_size)
  moreover have "unat (of_nat k :: u32) = k" using k by (simp add: unat_of_nat)
  ultimately have "unat (esp - 4 + of_nat k) = unat esp - 4 + k"
    using b k by (simp add: unat_word_ariths)
  thus "PGNUM (esp - 4 + of_nat k) = PGNUM 0xEEBFF000"
    using b k by (simp add: xstack_page word_le_nat_alt word_less_nat_alt) linarith
qed

lemma user_mem_assert_xstack:
  assumes wf: "vm_wf s (env_pgdir (envs s c)) fl"
    and e: "vmap s (env_pgdir (envs s c)) 0xEEBFF000 AND 7 = 7"
    and u: "0xEEBFF000 \<le> u" "unat u + 52 \<le> 0xEEC00000"
  shows "user_mem_assert c u sizeof_UTrapframe (PTE_W OR PTE_U) s = Done () s"
proof -
  let ?g = "env_pgdir (envs s c)"
  have g: "pgdir_at_frame ?g" "npages s \<le> 0x10000"
    using vm_wf_pgdir [OF wf] by (simp_all add: pgdir_at_frame_def)
  have ul: "0xEEBFF000 \<le> unat u" using u(1) by (simp add: word_le_nat_alt)
  have l: "unat u + unat sizeof_UTrapframe + 4095 < 2 ^ 32" using u(2) by simp
  have up: "unat (u + 52) = unat u + 52" using u(2) by (simp add: unat_word_ariths)
  have "unat (ROUNDUP (u + sizeof_UTrapframe) PGSIZE) \<le> 0xEEC00000"
    using unat_ROUNDUP [of PGSIZE "u + 52"] u(2) up by simp
  hence r: "ROUNDUP (u + sizeof_UTrapframe) PGSIZE \<le> UTOP" by (simp add: word_le_nat_alt)
  obtain r t where run: "user_mem_check c u sizeof_UTrapframe 6 s = Done r t"
    using user_mem_check_total [OF wf l r] by blast
  have acc: "user_access s ?g 6 a" if "unat a div 4096 = 0xEEBFF" for a
  proof -
    have a: "PGNUM a = PGNUM 0xEEBFF000" using that by (simp add: word_unat_eq_iff unat_PGNUM)
    note b = entry_bits [of "vmap s ?g a"]
    have "vmap s ?g a AND 7 = 7" using e vmap_same_page [OF a] by simp
    thus ?thesis using b that by (simp add: user_access_def word_less_nat_alt)
  qed
  have i: "unat u div 4096 = 0xEEBFF" using ul u(2) by simp
  have j: "(unat u + unat sizeof_UTrapframe + 4095) div 4096 = 0xEEC00" using ul u(2) by simp
  from user_mem_check_cases [OF g l run, unfolded i j] have "r = 0 \<and> t = s"
  proof (elim disjE exE conjE)
    fix m :: nat assume m: "0xEEBFF \<le> m" "m < 0xEEC00" "\<forall>a. unat a div 4096 = m \<longrightarrow> \<not> user_access s ?g 6 a"
    hence "m = 0xEEBFF" by simp
    moreover have "unat (0xEEBFF000 :: u32) div 4096 = 0xEEBFF" by simp
    ultimately show ?thesis using m(3) acc by blast
  qed simp
  thus ?thesis using run by (simp add: user_mem_assert_def)
qed

lemma ubyte_pmem: "pmem t = pmem s \<Longrightarrow> ubyte t g = ubyte s g"
  by (rule ext) (simp add: ubyte_frame vmap_pmem [of t s])

lemma frame_page:
  assumes "0xEEBFF000 \<le> u" "unat u + 52 \<le> 0xEEC00000" "q + k < 52" "unat i = q + k"
  shows "PGNUM (u + i) = PGNUM 0xEEBFF000"
proof -
  have "unat (u + i) = unat u + unat i" using assms by (simp add: unat_word_ariths)
  thus ?thesis using assms by (simp add: xstack_page word_le_nat_alt word_less_nat_alt)
qed

lemma read_utf_cong:
  assumes "\<And>i. i < 52 \<Longrightarrow> m (u + i) = m' (u + i)"
  shows "read_utf u m = read_utf u m'"
  using assms assms [of 0] by (simp add: read_utf_def get4_def add.assoc)

lemma utf_stores_page:
  assumes "0xEEBFF000 \<le> u" "unat u + 52 \<le> 0xEEC00000"
  shows "\<forall>(va, x) \<in> set (utf_stores u v tf). \<forall>k < 4. PGNUM (va + of_nat k) = PGNUM 0xEEBFF000"
proof -
  have pg: "PGNUM (u + (q + of_nat k)) = PGNUM 0xEEBFF000" if "q \<le> 48" "k < 4" for q k
  proof -
    have q: "unat q \<le> 48" using that(1) by (simp add: word_le_nat_alt)
    have "unat (of_nat k :: u32) = k" using that(2) by (simp add: unat_of_nat)
    hence "unat (q + of_nat k) = unat q + k" using q that(2) by (simp add: unat_word_ariths)
    thus ?thesis using frame_page [OF assms, of "unat q" k] q that(2) by simp
  qed
  from pg [of 0] pg show ?thesis by (auto simp: utf_stores_def Let_def add.assoc)
qed

text \<open>C24: a page fault of an environment that has an upcall and a writable exception stack continues
  in user mode at the upcall; its stack pointer leads to a \<^verbatim>\<open>struct UTrapframe\<close> in user memory
  that holds the faulting address, the error code and the registers of the fault; the frame is at the
  top of the exception stack or, for a fault on the exception stack, below the word of scratch
  space under the trap-time stack pointer; the rest of the exception stack is as it was.\<close>

theorem page_fault_upcall:
  assumes "trap_ready s c tf" "tf_trapno tf = of_nat T_PGFLT" "env_pgfault_upcall (envs s c) \<noteq> 0"
    and "KERNBASE \<le> env_pgdir (envs s c)" "cur_pgdir s = env_pgdir (envs s c)"
    and "vm_wf s (env_pgdir (envs s c)) fl" "vmap s (env_pgdir (envs s c)) 0xEEBFF000 AND 7 = 7"
    and "UXSTACKTOP - PGSIZE + 56 \<le> tf_esp tf \<or> tf_esp tf < UXSTACKTOP - PGSIZE"
  defines "recursive \<equiv> UXSTACKTOP - PGSIZE \<le> tf_esp tf \<and> tf_esp tf < UXSTACKTOP"
  defines "u \<equiv> if recursive then tf_esp tf - 56 else UXSTACKTOP - 52"
  shows "\<exists>t. trap fault_va tf s = NoReturn (ToUser c) t \<and>
    env_tf (envs t c) = tf\<lparr>tf_eip := env_pgfault_upcall (envs s c), tf_esp := u\<rparr> \<and> klock t = None \<and>
    read_utf u (ubyte t (env_pgdir (envs s c))) =
      \<lparr>utf_fault_va = fault_va, utf_err = tf_err tf, utf_regs = tf_regs tf, utf_eip = tf_eip tf,
       utf_eflags = tf_eflags tf, utf_esp = tf_esp tf\<rparr> \<and>
    (\<forall>a. UXSTACKTOP - PGSIZE \<le> a \<and> a < UXSTACKTOP \<and> 56 \<le> a - u \<longrightarrow>
       ubyte t (env_pgdir (envs s c)) a = ubyte s (env_pgdir (envs s c)) a)"
proof -
  let ?g = "env_pgdir (envs s c)" and ?s = "entered c tf s" and ?v = "0xEEBFF000 :: u32"
  have wf: "vm_wf ?s ?g fl" by (rule vm_wf_mono [OF assms(6)]) simp_all
  have vm: "vmap ?s ?g = vmap s ?g" and ub: "ubyte ?s ?g = ubyte s ?g"
    by (simp_all add: vmap_pmem [of ?s s] ubyte_pmem [of ?s s])
  have cur: "curenv s = Some c" using assms(1) by (simp add: trap_ready_def)
  have up: "0xEEBFF000 \<le> u" "unat u + 52 \<le> 0xEEC00000"
    using frame_in_xstack [of "tf_esp tf"] assms(8) by (auto simp: u_def recursive_def)
  have wp: "writable_page ?s ?g ?v"
    using entry_bits [OF assms(7)] assms(5) by (simp add: writable_page_def vm cur_pgdir_def)
  define M where "M = (if recursive then put4 (tf_esp tf - 4) 0 (ubyte s ?g) else ubyte s ?g)"
  have "\<exists>s2. (if recursive then vstore32 (tf_esp tf - 4) 0 ?s else Done () ?s) = Done () s2 \<and>
      user_write ?v ?g fl ?s s2 M"
  proof (cases recursive)
    case True
    hence "0xEEBFF038 \<le> tf_esp tf" "tf_esp tf < UXSTACKTOP" using assms(8) by (auto simp: recursive_def)
    note sp = scratch_page [OF this]
    from vstore32_write [OF user_write_refl [OF wf] wp sp, of 0] show ?thesis
      using True by (simp add: M_def ub)
  next
    case False thus ?thesis using user_write_refl [OF wf] by (simp add: M_def ub)
  qed
  then obtain s2 where s2: "(if recursive then vstore32 (tf_esp tf - 4) 0 ?s else Done () ?s) = Done () s2"
    "user_write ?v ?g fl ?s s2 M" by blast
  have s2f: "s2 = ?s\<lparr>pmem := pmem s2\<rparr>" and wf2: "vm_wf s2 ?g fl" and vm2: "vmap s2 ?g = vmap s ?g"
    using s2(2) vm by (simp_all add: user_write_def)
  have e2: "envs s2 = envs ?s" by (subst s2f) simp
  have g2: "env_pgdir (envs s2 c) = ?g" by (simp add: e2)
  have asr: "user_mem_assert c u sizeof_UTrapframe (PTE_W OR PTE_U) s2 = Done () s2"
    by (rule user_mem_assert_xstack) (use wf2 vm2 g2 assms(7) up in simp_all)
  from vstores_write [OF s2(2) wp utf_stores_page [OF up], of fault_va tf] obtain s3
    where s3: "vstores (utf_stores u fault_va tf) s2 = Done () s3"
      "user_write ?v ?g fl ?s s3 (fold (\<lambda>(va, x). put4 va x) (utf_stores u fault_va tf) M)" by blast
  let ?M = "fold (\<lambda>(va, x). put4 va x) (utf_stores u fault_va tf) M"
  have s3f: "s3 = ?s\<lparr>pmem := pmem s3\<rparr>" and um: "\<And>a. PGNUM a = PGNUM ?v \<Longrightarrow> ubyte s3 ?g a = ?M a"
    using s3(2) by (simp_all add: user_write_def)
  have e3: "envs s3 = envs ?s" "klock s3 = Some (cpunum s3)" by (subst s3f, simp)+
  let ?s4 = "upd_env c (\<lambda>v. v\<lparr>env_tf := (env_tf v)\<lparr>tf_eip := env_pgfault_upcall v, tf_esp := u\<rparr>\<rparr>) s3"
  have run: "env_run c ?s4 = NoReturn (ToUser c) (switched c ?s4)"
    by (rule env_run_enters) (use e3 assms(4) in \<open>simp_all add: envs_upd_env\<close>, simp add: upd_env_def)
  have cs: "tf_cs tf AND 3 \<noteq> 0" using assms(1) by (simp add: trap_ready_def)
  have ueq: "(if recursive then tf_esp tf - 4 - sizeof_UTrapframe else UXSTACKTOP - sizeof_UTrapframe) = u"
    by (simp add: u_def)
  have h: "page_fault_handler fault_va tf ?s = NoReturn (ToUser c) (switched c ?s4)"
    using cs cur assms(3) s2(1) asr s3(1) run
    unfolding page_fault_handler_def with_curenv_def recursive_def [symmetric] Let_def ueq
    by simp
  have t: "trap fault_va tf s = NoReturn (ToUser c) (switched c ?s4)"
    using assms(2) by (simp add: trap_entered [OF assms(1)] trap_dispatch_def h)
  have ubt: "ubyte (switched c ?s4) ?g = ubyte s3 ?g"
    by (rule ubyte_pmem) (simp add: switched_other)
  have "read_utf u (ubyte s3 ?g) = read_utf u ?M"
  proof (rule read_utf_cong)
    fix i :: u32 assume "i < 52"
    hence "PGNUM (u + i) = PGNUM ?v"
      using frame_page [OF up, of "unat i" 0 i] by (simp add: word_less_nat_alt)
    thus "ubyte s3 ?g (u + i) = ?M (u + i)" by (rule um)
  qed
  moreover have "ubyte s3 ?g a = ubyte s ?g a" if "?v \<le> a" "a < 0xEEC00000" "56 \<le> a - u" for a
  proof -
    have "?M a = M a" by (rule utf_stores_outside) (use that(3) in \<open>simp add: word_le_nat_alt\<close>)
    moreover have "M a = ubyte s ?g a"
    proof (cases recursive)
      case True
      have "tf_esp tf - 4 = u + 52" using True by (simp add: u_def)
      moreover have "4 \<le> a - u - 52"
        using that(3) by (simp add: word_le_nat_alt unat_sub_if_size)
      ultimately show ?thesis using True by (simp add: M_def put4_outside algebra_simps)
    qed (simp add: M_def)
    ultimately show ?thesis using um [of a] that(1,2) by (simp add: xstack_page)
  qed
  ultimately show ?thesis
    using t e3(1) by (simp add: switched_other envs_upd_env ubt read_utf_stores)
qed

text \<open>Environment 0 with an upcall and the page 9 as its exception stack.\<close>

definition demo_fault :: kst where
  "demo_fault = demo_user\<lparr>
     pmem := (\<lambda>_ _. 0)(8 := (\<lambda>_. 0)(0x3BA := 0x5007), 5 := (\<lambda>_. 0)(0x3FF := 0x9007)),
     envs := (envs demo_user)(0 := (envs demo_user 0)\<lparr>env_pgfault_upcall := 0x800020\<rparr>),
     cr3 := \<lambda>_. 0x8000\<rparr>"

lemma demo_fault_pt: "pt_frame demo_fault 0xF0008000 d = (if d = 0x3BA then 5 else 0)"
  by (simp add: pt_frame_def demo_fault_def PGNUM_def)

lemma demo_fault_vmap:
  "vmap demo_fault 0xF0008000 va = (if PGNUM va = PGNUM 0xEEBFF000 then 0x9007 else 0)"
proof -
  have "PGNUM va = PGNUM 0xEEBFF000 \<longleftrightarrow> PDX va = 0x3BA \<and> PTX va = 0x3FF"
    using PDX_PTX_eq_iff [where a = va and b = "0xEEBFF000"] by (simp add: PDX_def PTX_def)
  thus ?thesis by (simp add: vmap_def demo_fault_pt) (simp add: demo_fault_def)
qed

lemma demo_fault_wf: "vm_wf demo_fault 0xF0008000 [3, 6]"
proof -
  have "npages demo_fault = 16" by (simp add: demo_fault_def)
  thus ?thesis
    by (auto simp: vm_wf_def demo_fault_vmap demo_fault_pt page_ok_def PGNUM_def split: if_splits)
qed

theorem page_fault_upcall_witness:
  "\<exists>t. trap 0xDEADBEEF (env_tf zero_env\<lparr>tf_cs := 0x1B, tf_trapno := 14, tf_esp := 0xEEBFDF00\<rparr>) demo_fault
       = NoReturn (ToUser 0) t \<and>
     tf_eip (env_tf (envs t 0)) = 0x800020 \<and> tf_esp (env_tf (envs t 0)) = 0xEEBFFFCC \<and>
     utf_fault_va (read_utf 0xEEBFFFCC (ubyte t 0xF0008000)) = 0xDEADBEEF \<and>
     utf_esp (read_utf 0xEEBFFFCC (ubyte t 0xF0008000)) = 0xEEBFDF00"
proof -
  let ?tf = "env_tf zero_env\<lparr>tf_cs := 0x1B, tf_trapno := 14, tf_esp := 0xEEBFDF00\<rparr>"
  have f: "curenv demo_fault = Some 0" "klock demo_fault = None"
    "cpu_status (cpus demo_fault (cpunum demo_fault)) = CPU_UNUSED"
    "envs demo_fault 0 = (envs demo_sched 0)\<lparr>env_pgfault_upcall := 0x800020\<rparr>"
    "cr3 demo_fault = (\<lambda>_. 0x8000)"
    by (simp_all add: demo_fault_def curenv_def)
  have r: "trap_ready demo_fault 0 ?tf" by (simp add: trap_ready_def f)
  have g: "env_pgdir (envs demo_fault 0) = 0xF0008000" by (simp add: f)
  have e: "vmap demo_fault (env_pgdir (envs demo_fault 0)) 0xEEBFF000 AND 7 = 7"
    by (simp add: g demo_fault_vmap)
  have wf: "vm_wf demo_fault (env_pgdir (envs demo_fault 0)) [3, 6]" using demo_fault_wf g by simp
  from page_fault_upcall [OF r _ _ _ _ wf e, of "0xDEADBEEF"] show ?thesis
    by (auto simp: f cur_pgdir_def)
qed

section \<open>The interrupt table\<close>

definition user_may_raise :: "kst \<Rightarrow> nat \<Rightarrow> bool" where
  "user_may_raise s i \<longleftrightarrow> gd_p (idt s i) = 1 \<and> gd_dpl (idt s i) = 3"

text \<open>of all vectors, user code may raise the breakpoint and the system call only; the keyboard
  and serial interrupts, which the console driver unmasks, have no gate at all.\<close>

theorem idt_user_vectors:
  "(user_may_raise (trap_init h ts bss_kst) i \<longleftrightarrow> i = T_BRKPT \<or> i = T_SYSCALL) \<and>
   gd_p (idt (trap_init h ts bss_kst) (IRQ_OFFSET + IRQ_TIMER)) = 1 \<and>
   gd_p (idt (trap_init h ts bss_kst) (IRQ_OFFSET + IRQ_KBD)) = 0 \<and>
   gd_p (idt (trap_init h ts bss_kst) (IRQ_OFFSET + IRQ_SERIAL)) = 0"
proof -
  have i: "idt (trap_init_percpu ts s) = idt s" for s by (simp add: trap_init_percpu_def Let_def)
  have p: "gd_p (SETGATE b sel off dpl) = 1" for b sel off dpl by (simp add: SETGATE_def)
  show ?thesis
    by (auto simp: user_may_raise_def trap_init_def i gates_def set_gate_def p SETGATE_dpl bss_kst_def)
qed

end
