(* ===== verification/BlockCache.thy ===== *)
theory BlockCache
  imports Strings Errors Mmu
begin

text \<open>
  The disk of the file server and its block cache (\<^verbatim>\<open>fs/ide.c\<close>, \<^verbatim>\<open>fs/bc.c\<close>).  Disk block \<open>n\<close> is
  mapped at \<open>DISKMAP + n * BLKSIZE\<close> when it is in memory; a touch of an address that is not
  mapped enters the page fault handler, which reads the block.
\<close>

section \<open>Constants\<close>

definition BLKSIZE :: u32 where [simp]: "BLKSIZE = 0x1000"
definition BLKBITSIZE :: u32 where [simp]: "BLKBITSIZE = 0x8000"
definition SECTSIZE :: u32 where [simp]: "SECTSIZE = 0x200"
definition BLKSECTS :: u32 where [simp]: "BLKSECTS = 8"
definition DISKMAP :: u32 where [simp]: "DISKMAP = 0x10000000"
definition DISKSIZE :: u32 where [simp]: "DISKSIZE = 0xC0000000"
definition IDE_DF :: u8 where [simp]: "IDE_DF = 0x20"
definition IDE_ERR :: u8 where [simp]: "IDE_ERR = 0x01"
definition IDE_BSY :: u8 where [simp]: "IDE_BSY = 0x80"

section \<open>The server's memory\<close>

text \<open>\<open>disks d l i\<close> is byte \<open>i\<close> of sector \<open>l\<close> of disk \<open>d\<close>, and \<open>sector_status d l\<close> the status
  the drive shows when it is ready for that sector.  \<open>bcmem\<close> is the memory from
  \<open>DISKMAP\<close> on, of which the blocks in \<open>bmapped\<close> exist; \<open>bdirty\<close> are the dirty bits of their page
  table entries.  The kernel refuses a page for the blocks in \<open>no_memory\<close>.  \<open>reqpage\<close> is the page
  of the client's request, at \<open>0x0ffff000\<close>.\<close>

record fss =
  disks :: "u32 \<Rightarrow> u32 \<Rightarrow> u32 \<Rightarrow> u8"
  sector_status :: "u32 \<Rightarrow> u32 \<Rightarrow> u8"
  diskno :: u32
  bcmem :: mem
  bmapped :: "u32 \<Rightarrow> bool"
  bdirty :: "u32 \<Rightarrow> bool"
  no_memory :: "u32 \<Rightarrow> bool"
  super_set :: bool
  bitmap_set :: bool
  reqpage :: mem

type_synonym 'a fsm = "fss \<Rightarrow> ('a, fss) kres"

definition blkof :: "u32 \<Rightarrow> u32" where
  "blkof a = drop_bit 12 (a - DISKMAP)"

section \<open>The disk driver\<close>

definition ide_wait_ready :: "bool \<Rightarrow> u8 \<Rightarrow> u32" where
  "ide_wait_ready check_error r = (if check_error \<and> r AND (IDE_DF OR IDE_ERR) \<noteq> 0 then - 1 else 0)"

text \<open>\<open>st x\<close> is the status byte of the \<open>x\<close>th poll.\<close>

definition ide_probe_disk1 :: "(nat \<Rightarrow> u8) \<Rightarrow> bool" where
  "ide_probe_disk1 st = list_ex (\<lambda>x. st x AND (IDE_BSY OR IDE_DF OR IDE_ERR) = 0) [0..<1000]"

definition ide_set_disk :: "u32 \<Rightarrow> unit fsm" where
  "ide_set_disk d s = (if d \<noteq> 0 \<and> d \<noteq> 1 then Panic ''bad disk number'' else Done () (s\<lparr>diskno := d\<rparr>))"

text \<open>The 28 bits of the sector number that reach the drive.\<close>

definition ide_lba :: "u32 \<Rightarrow> u32" where
  "ide_lba secno = (secno AND 0xFF) OR push_bit 8 (drop_bit 8 secno AND 0xFF) OR
     push_bit 16 (drop_bit 16 secno AND 0xFF) OR push_bit 24 (drop_bit 24 secno AND 0x0F)"

text \<open>The drive steps to the next sector by itself.\<close>

fun ide_read_sectors :: "nat \<Rightarrow> u32 \<Rightarrow> u32 \<Rightarrow> fss \<Rightarrow> u32 \<times> fss" where
  "ide_read_sectors 0 lba dst s = (0, s)"
| "ide_read_sectors (Suc n) lba dst s =
     (let d = diskno s AND 1; r = ide_wait_ready True (sector_status s d lba)
      in if sint r < 0 then (r, s)
         else ide_read_sectors n (lba + 1) (dst + SECTSIZE)
                (s\<lparr>bcmem := \<lambda>a. if a - dst < SECTSIZE then disks s d lba (a - dst) else bcmem s a\<rparr>))"

definition ide_read :: "u32 \<Rightarrow> u32 \<Rightarrow> u32 \<Rightarrow> u32 fsm" where
  "ide_read secno dst nsecs s =
    (if nsecs > 256 then Panic ''assertion failed: nsecs <= 256''
     else case ide_read_sectors (unat nsecs) (ide_lba secno) dst s of (r, s) \<Rightarrow> Done r s)"

fun ide_write_sectors :: "nat \<Rightarrow> u32 \<Rightarrow> u32 \<Rightarrow> fss \<Rightarrow> u32 \<times> fss" where
  "ide_write_sectors 0 lba src s = (0, s)"
| "ide_write_sectors (Suc n) lba src s =
     (let d = diskno s AND 1; r = ide_wait_ready True (sector_status s d lba)
      in if sint r < 0 then (r, s)
         else ide_write_sectors n (lba + 1) (src + SECTSIZE)
                (s\<lparr>disks := (disks s)(d := (disks s d)(lba := \<lambda>i. bcmem s (src + i)))\<rparr>))"

definition ide_write :: "u32 \<Rightarrow> u32 \<Rightarrow> u32 \<Rightarrow> u32 fsm" where
  "ide_write secno src nsecs s =
    (if nsecs > 256 then Panic ''assertion failed: nsecs <= 256''
     else case ide_write_sectors (unat nsecs) (ide_lba secno) src s of (r, s) \<Rightarrow> Done r s)"

section \<open>The page fault handler\<close>

text \<open>\<^verbatim>\<open>super->s_nblocks\<close> is the second word of block 1, and the bitmap starts at block 2.\<close>

definition s_nblocks :: "fss \<Rightarrow> u32" where
  "s_nblocks s = get4 (DISKMAP + BLKSIZE + 4) (bcmem s)"

definition BITMAP :: u32 where [simp]: "BITMAP = 0x10002000"

text \<open>\<open>touch\<close> stands for a memory access that faults the block in.\<close>

definition super_nblocks_via :: "(u32 \<Rightarrow> unit fsm) \<Rightarrow> u32 fsm" where
  "super_nblocks_via touch s =
     kbind (touch (DISKMAP + BLKSIZE + 4) s) (\<lambda>_ s. Done (s_nblocks s) s)"

definition block_is_free_via :: "(u32 \<Rightarrow> unit fsm) \<Rightarrow> u32 \<Rightarrow> bool fsm" where
  "block_is_free_via touch blockno s =
    (if \<not> super_set s then Done False s
     else kbind (super_nblocks_via touch s) (\<lambda>n s.
       if n \<le> blockno then Done False s
       else let a = BITMAP + 4 * (blockno div 32)
            in kbind (touch a s) (\<lambda>_ s.
               Done (get4 a (bcmem s) AND push_bit (unat (blockno mod 32)) 1 \<noteq> 0) s)))"

definition map_zero_page :: "u32 \<Rightarrow> fss \<Rightarrow> fss" where
  "map_zero_page b s = s\<lparr>bcmem := \<lambda>a. if blkof a = b then 0 else bcmem s a,
     bmapped := (bmapped s)(b := True), bdirty := (bdirty s)(b := False)\<rparr>"

text \<open>\<^verbatim>\<open>sys_page_alloc\<close> at a block, with the code's check of its result left to the caller.\<close>

definition sys_page_alloc_at :: "u32 \<Rightarrow> fss \<Rightarrow> u32 \<times> fss" where
  "sys_page_alloc_at addr s =
     (if no_memory s (blkof addr) then (- E_NO_MEM, s) else (0, map_zero_page (blkof addr) s))"

text \<open>\<^verbatim>\<open>sys_page_map\<close> of a page over itself: the entry loses its dirty bit.\<close>

definition clear_dirty :: "u32 \<Rightarrow> fss \<Rightarrow> fss" where
  "clear_dirty b s = s\<lparr>bdirty := (bdirty s)(b := False)\<rparr>"

text \<open>The handler runs on the exception stack and may fault itself; \<open>depth\<close> bounds the nesting.\<close>

primrec bc_pgfault :: "nat \<Rightarrow> u32 \<Rightarrow> unit fsm" where
  "bc_pgfault 0 addr s = Panic ''exception stack overflow''"
| "bc_pgfault (Suc depth) addr s =
    (let touch = (\<lambda>a s. if bmapped s (blkof a) then Done () s else bc_pgfault depth a s);
         blockno = blkof addr
     in if addr < DISKMAP \<or> DISKMAP + DISKSIZE \<le> addr then Panic ''page fault in FS''
        else kbind (if super_set s then super_nblocks_via touch s else Done 0 s) (\<lambda>n s.
          if super_set s \<and> n \<le> blockno then Panic ''reading non-existent block''
          else let addr = ROUNDDOWN addr PGSIZE; (r, s) = sys_page_alloc_at addr s
            in if sint r < 0 then Panic ''[error] bc_pgfault: sys_page_alloc''
               else kbind (ide_read (blockno * BLKSECTS) addr BLKSECTS s) (\<lambda>r s.
                 if sint r < 0 then Panic ''[error] bc_pgfault ide_read''
                 else let s = clear_dirty blockno s
                   in if \<not> bitmap_set s then Done () s
                      else kbind (block_is_free_via touch blockno s) (\<lambda>free s.
                        if free then Panic ''reading free block'' else Done () s))))"

text \<open>Block, then the block of its bitmap word, then the first bitmap block.\<close>

definition fault_depth :: nat where [simp]: "fault_depth = 4"

definition touch :: "u32 \<Rightarrow> unit fsm" where
  "touch a s = (if bmapped s (blkof a) then Done () s else bc_pgfault fault_depth a s)"

section \<open>Access to the cache\<close>

definition ld8 :: "u32 \<Rightarrow> u8 fsm" where
  "ld8 a s = kbind (touch a s) (\<lambda>_ s. Done (bcmem s a) s)"

definition st8 :: "u32 \<Rightarrow> u8 \<Rightarrow> unit fsm" where
  "st8 a b s = kbind (touch a s) (\<lambda>_ s.
     Done () (s\<lparr>bcmem := (bcmem s)(a := b), bdirty := (bdirty s)(blkof a := True)\<rparr>))"

definition ld32 :: "u32 \<Rightarrow> u32 fsm" where
  "ld32 a s = kbind (touch a s) (\<lambda>_ s. Done (get4 a (bcmem s)) s)"

definition st32 :: "u32 \<Rightarrow> u32 \<Rightarrow> unit fsm" where
  "st32 a w s = kbind (touch a s) (\<lambda>_ s.
     Done () (s\<lparr>bcmem := put4 a w (bcmem s), bdirty := (bdirty s)(blkof a := True)\<rparr>))"

definition super_nblocks :: "u32 fsm" where
  "super_nblocks = ld32 (DISKMAP + BLKSIZE + 4)"

section \<open>The block cache\<close>

definition diskaddr :: "u32 \<Rightarrow> u32 fsm" where
  "diskaddr blockno s =
    (if blockno = 0 then Panic ''bad block number in diskaddr''
     else kbind (if super_set s then super_nblocks s else Done 0 s) (\<lambda>n s.
       if super_set s \<and> n \<le> blockno then Panic ''bad block number in diskaddr''
       else Done (DISKMAP + blockno * BLKSIZE) s))"

definition va_is_mapped :: "u32 \<Rightarrow> fss \<Rightarrow> bool" where
  "va_is_mapped va s = bmapped s (blkof va)"

definition va_is_dirty :: "u32 \<Rightarrow> fss \<Rightarrow> bool" where
  "va_is_dirty va s = bdirty s (blkof va)"

definition flush_block :: "u32 \<Rightarrow> unit fsm" where
  "flush_block addr s =
    (let blockno = blkof addr
     in if addr < DISKMAP \<or> DISKMAP + DISKSIZE \<le> addr then Panic ''flush_block of bad va''
        else let addr = ROUNDDOWN addr BLKSIZE
          in if \<not> va_is_mapped addr s \<or> \<not> va_is_dirty addr s then Done () s
             else kbind (ide_write (blockno * BLKSECTS) addr BLKSECTS s) (\<lambda>r s.
               if r \<noteq> 0 then Panic ''[error] flush_block: ide_write failed''
               else Done () (clear_dirty blockno s)))"

text \<open>\<^verbatim>\<open>sys_page_unmap\<close> of a block.\<close>

definition unmap_block :: "u32 \<Rightarrow> fss \<Rightarrow> fss" where
  "unmap_block b s = s\<lparr>bmapped := (bmapped s)(b := False)\<rparr>"

fun ld_bytes :: "nat \<Rightarrow> u32 \<Rightarrow> u8 list fsm" where
  "ld_bytes 0 a s = Done [] s"
| "ld_bytes (Suc n) a s = kbind (ld8 a s) (\<lambda>b s. kbind (ld_bytes n (a + 1) s) (\<lambda>bs s. Done (b # bs) s))"

fun st_bytes :: "u8 list \<Rightarrow> u32 \<Rightarrow> unit fsm" where
  "st_bytes [] a s = Done () s"
| "st_bytes (b # bs) a s = kbind (st8 a b s) (\<lambda>_ s. st_bytes bs (a + 1) s)"

text \<open>Comparison of the string at an address with a string without its NUL.\<close>

fun str_eq :: "u32 \<Rightarrow> u8 list \<Rightarrow> bool fsm" where
  "str_eq a [] s = kbind (ld8 a s) (\<lambda>b s. Done (b = 0) s)"
| "str_eq a (c # cs) s = kbind (ld8 a s) (\<lambda>b s. if b = c then str_eq (a + 1) cs s else Done False s)"

definition sizeof_Super :: nat where [simp]: "sizeof_Super = 264"

definition OOPS :: "u8 list" where
  "OOPS = [0x4F, 0x4F, 0x50, 0x53, 0x21, 0x0A]"

text \<open>One round of \<^verbatim>\<open>check_bc\<close>: \<open>off\<close> is the offset given to \<^verbatim>\<open>flush_block\<close>, and
  \<open>look\<close> says whether the dirty bit is looked at.\<close>

definition check_bc_round :: "u32 \<Rightarrow> bool \<Rightarrow> unit fsm" where
  "check_bc_round off look s =
    kbind (diskaddr 1 s) (\<lambda>a s.
    kbind (ld_bytes sizeof_Super a s) (\<lambda>backup s.
    kbind (st_bytes (OOPS @ [0]) a s) (\<lambda>_ s.
    kbind (flush_block (a + off) s) (\<lambda>_ s.
    kbind (kassert (va_is_mapped a s) ''assertion failed: va_is_mapped(diskaddr(1))'' s) (\<lambda>_ s.
    kbind (kassert (look \<longrightarrow> \<not> va_is_dirty a s) ''assertion failed: !va_is_dirty(diskaddr(1))'' s) (\<lambda>_ s.
    let s = unmap_block 1 s
    in kbind (kassert (\<not> va_is_mapped a s) ''assertion failed: !va_is_mapped(diskaddr(1))'' s) (\<lambda>_ s.
       kbind (str_eq a OOPS s) (\<lambda>eq s.
       kbind (kassert eq ''assertion failed: strcmp'' s) (\<lambda>_ s.
       kbind (st_bytes backup a s) (\<lambda>_ s. flush_block a s))))))))))"

definition check_bc :: "unit fsm" where
  "check_bc s = kbind (check_bc_round 0 True s) (\<lambda>_ s. check_bc_round 20 False s)"

definition bc_init :: "unit fsm" where
  "bc_init s = kbind (check_bc s) (\<lambda>_ s.
     kbind (diskaddr 1 s) (\<lambda>a s. kbind (ld_bytes sizeof_Super a s) (\<lambda>_ s. Done () s)))"

section \<open>Blocks and sectors\<close>

lemma ide_lba_id: "secno < 0x10000000 \<Longrightarrow> ide_lba secno = secno"
proof -
  assume "secno < 0x10000000"
  hence b: "n < 28" if "bit secno n" for n using bit_less_exp [of secno 28 n] that by simp
  show ?thesis unfolding ide_lba_def u32_masks
  proof (rule bit_word_eqI)
    fix n assume n: "n < LENGTH(32)"
    hence "n < 8 \<or> (8 \<le> n \<and> n < 16) \<or> (16 \<le> n \<and> n < 24) \<or> (24 \<le> n \<and> n < 28) \<or> 28 \<le> n" by auto
    thus "bit (secno AND mask 8 OR push_bit 8 (drop_bit 8 secno AND mask 8) OR
        push_bit 16 (drop_bit 16 secno AND mask 8) OR push_bit 24 (drop_bit 24 secno AND mask 4)) n = bit secno n"
      using n by (elim disjE) (auto simp: bit_simps dest: b)
  qed
qed

text \<open>The sector of an address within its block.\<close>

definition secof :: "u32 \<Rightarrow> nat" where
  "secof a = unat (a - DISKMAP) mod 4096 div 512"

definition blkbase :: "u32 \<Rightarrow> u32" where
  "blkbase b = DISKMAP + b * BLKSIZE"

lemma unat_blkof: "unat (blkof a) = unat (a - DISKMAP) div 4096"
  by (simp add: blkof_def drop_bit_eq_div unat_div_distrib)

lemma secof_less [simp]: "secof a < 8"
  by (simp add: secof_def less_mult_imp_div_less)

lemma sector_range:
  assumes "k < (8 :: nat)"
  shows "x div 4096 = q \<and> x mod 4096 div 512 = k \<longleftrightarrow> 4096 * q + 512 * k \<le> x \<and> x < 4096 * q + 512 * k + 512"
proof -
  define d r where "d = x div 4096" and "r = x mod 4096"
  have x: "x = 4096 * d + r" and r: "r < 4096" by (simp_all add: d_def r_def)
  have s: "r div 512 = k \<longleftrightarrow> 512 * k \<le> r \<and> r < 512 * k + 512" by auto
  have "d = q \<and> 512 * k \<le> r \<and> r < 512 * k + 512 \<longleftrightarrow>
      4096 * q + 512 * k \<le> 4096 * d + r \<and> 4096 * d + r < 4096 * q + 512 * k + 512"
    using r assms by (cases d q rule: linorder_cases) auto
  thus ?thesis unfolding s [symmetric] d_def [symmetric] r_def [symmetric] x [symmetric] .
qed

lemma in_sector:
  assumes "unat b < 0xC0000" "k < 8"
  shows "a - (blkbase b + of_nat (512 * k)) < SECTSIZE \<longleftrightarrow> blkof a = b \<and> secof a = k"
    and "blkof a = b \<Longrightarrow> secof a = k \<Longrightarrow> a - (blkbase b + of_nat (512 * k)) = a AND 0x1FF"
proof -
  let ?x = "unat (a - DISKMAP)" and ?o = "4096 * unat b + 512 * k"
  have o: "?o + 512 \<le> 4096 * 0xC0000" using assms by simp
  have w: "a - (blkbase b + of_nat (512 * k)) = (a - DISKMAP) - of_nat ?o"
    by (simp add: blkbase_def algebra_simps)
  have uo: "unat (of_nat ?o :: u32) = ?o" using o by (simp del: of_nat_add of_nat_mult add: unat_of_nat)
  have lt: "?x < 2 ^ 32" using word_u32_max [of "a - DISKMAP"] by simp
  have iff: "blkof a = b \<and> secof a = k \<longleftrightarrow> ?o \<le> ?x \<and> ?x < ?o + 512"
  proof -
    have "blkof a = b \<longleftrightarrow> ?x div 4096 = unat b" by (simp only: word_unat_eq_iff unat_blkof)
    moreover have "?x div 4096 = unat b \<and> ?x mod 4096 div 512 = k \<longleftrightarrow> ?o \<le> ?x \<and> ?x < ?o + 512"
      using sector_range [OF assms(2), of ?x "unat b"] .
    ultimately show ?thesis by (simp add: secof_def)
  qed
  have sub: "unat ((a - DISKMAP) - of_nat ?o) = (if ?o \<le> ?x then ?x - ?o else ?x + 2 ^ 32 - ?o)"
    using uo lt o unat_sub_if_size [of "a - DISKMAP" "of_nat ?o"] by (simp add: word_size)
  show "a - (blkbase b + of_nat (512 * k)) < SECTSIZE \<longleftrightarrow> blkof a = b \<and> secof a = k"
    unfolding w iff word_less_nat_alt sub using o lt by auto
  assume h: "blkof a = b" "secof a = k"
  hence r: "?o \<le> ?x" "?x < ?o + 512" using iff by auto
  have "?x mod 512 = ?x - ?o"
  proof -
    have "?x = ?o + (?x - ?o)" using r by simp
    hence "?x mod 512 = (512 * (8 * unat b + k) + (?x - ?o)) mod 512" by simp
    also have "\<dots> = (?x - ?o) mod 512" by (rule mod_mult_self4)
    also have "\<dots> = ?x - ?o" using r by simp
    finally show ?thesis .
  qed
  moreover have "unat (a AND 0x1FF) = ?x mod 512"
  proof -
    have "a AND mask 9 = (a - DISKMAP) AND mask 9"
    proof -
      have "(a - DISKMAP) AND mask 9 = a - (DISKMAP AND mask 9) AND mask 9" by (rule mask_eqs(4) [symmetric])
      also have "DISKMAP AND mask 9 = 0" by (simp add: mask_eq_exp_minus_1)
      finally show ?thesis by simp
    qed
    thus ?thesis by (simp add: u32_masks unsigned_take_bit_eq take_bit_eq_mod unat_mod_distrib flip: take_bit_eq_mask)
  qed
  ultimately show "a - (blkbase b + of_nat (512 * k)) = a AND 0x1FF"
    unfolding w word_unat_eq_iff using sub r by simp
qed

text \<open>The byte of the disk that belongs at an address, and the memory as the file server sees it: a
  block that is not in the cache is read when it is touched.\<close>

definition dbyte :: "fss \<Rightarrow> u32 \<Rightarrow> u8" where
  "dbyte s a = disks s (diskno s AND 1) (blkof a * 8 + of_nat (secof a)) (a AND 0x1FF)"

definition view :: "fss \<Rightarrow> mem" where
  "view s a = (if bmapped s (blkof a) then bcmem s a else dbyte s a)"

definition sector_ok :: "fss \<Rightarrow> u32 \<Rightarrow> bool" where
  "sector_ok s l \<longleftrightarrow> sector_status s (diskno s AND 1) l AND (IDE_DF OR IDE_ERR) = 0"

definition block_ok :: "fss \<Rightarrow> u32 \<Rightarrow> bool" where
  "block_ok s b \<longleftrightarrow> unat b < 0xC0000 \<and> \<not> no_memory s b \<and> (\<forall>k < 8. sector_ok s (b * 8 + of_nat k))"

lemma ide_read_sectors_ok:
  assumes "unat b < 0xC0000" "\<forall>j < 8. sector_ok s (b * 8 + of_nat j)" "k + n \<le> 8"
  shows "ide_read_sectors n (b * 8 + of_nat k) (blkbase b + of_nat (512 * k)) s = (0, s\<lparr>bcmem :=
     \<lambda>a. if blkof a = b \<and> k \<le> secof a \<and> secof a < k + n then dbyte s a else bcmem s a\<rparr>)"
  using assms(2,3)
proof (induction n arbitrary: k s)
  case 0
  have "(\<lambda>a. if blkof a = b \<and> k \<le> secof a \<and> secof a < k then dbyte s a else bcmem s a) = bcmem s"
    by (rule ext) auto
  thus ?case by simp
next
  case (Suc n)
  let ?l = "b * 8 + of_nat k :: u32" and ?dst = "blkbase b + of_nat (512 * k) :: u32"
  let ?s = "s\<lparr>bcmem := \<lambda>a. if a - ?dst < SECTSIZE then disks s (diskno s AND 1) ?l (a - ?dst) else bcmem s a\<rparr>"
  have k: "k < 8" using Suc.prems by simp
  have st: "ide_wait_ready True (sector_status s (diskno s AND 1) ?l) = 0"
    using Suc.prems(1) k by (simp add: ide_wait_ready_def sector_ok_def)
  have e: "bcmem ?s a = (if blkof a = b \<and> secof a = k then dbyte s a else bcmem s a)" for a
    using in_sector [OF assms(1) k, of a] by (simp add: dbyte_def)
  have "\<forall>j < 8. sector_ok ?s (b * 8 + of_nat j)" using Suc.prems(1) by (simp add: sector_ok_def)
  from Suc.IH [OF this, of "Suc k"] Suc.prems(2)
  have "ide_read_sectors n (?l + 1) (?dst + SECTSIZE) ?s = (0, ?s\<lparr>bcmem :=
     \<lambda>a. if blkof a = b \<and> Suc k \<le> secof a \<and> secof a < Suc k + n then dbyte ?s a else bcmem ?s a\<rparr>)"
    by (simp add: algebra_simps)
  moreover have "(\<lambda>a. if blkof a = b \<and> Suc k \<le> secof a \<and> secof a < Suc k + n then dbyte ?s a else bcmem ?s a) =
      (\<lambda>a. if blkof a = b \<and> k \<le> secof a \<and> secof a < k + Suc n then dbyte s a else bcmem s a)"
    unfolding e by (rule ext) (auto simp: dbyte_def)
  moreover have "ide_read_sectors (Suc n) ?l ?dst s = ide_read_sectors n (?l + 1) (?dst + SECTSIZE) ?s"
    unfolding ide_read_sectors.simps Let_def st by simp
  ultimately show ?case by simp
qed

lemma blkno_small: "unat b < 0xC0000 \<Longrightarrow> b * BLKSECTS < 0x10000000"
  by (simp add: word_less_nat_alt unat_word_ariths)

lemma ide_read_block:
  assumes "block_ok s b"
  shows "ide_read (b * BLKSECTS) (blkbase b) BLKSECTS s =
    Done 0 (s\<lparr>bcmem := \<lambda>a. if blkof a = b then dbyte s a else bcmem s a\<rparr>)"
proof -
  have b: "unat b < 0xC0000" "\<forall>j < 8. sector_ok s (b * 8 + of_nat j)"
    using assms by (simp_all add: block_ok_def)
  have "ide_read_sectors 8 (b * 8) (blkbase b) s =
      (0, s\<lparr>bcmem := \<lambda>a. if blkof a = b then dbyte s a else bcmem s a\<rparr>)"
    using ide_read_sectors_ok [OF b, of 0 8] by (simp add: if_distrib)
  thus ?thesis using ide_lba_id [OF blkno_small [OF b(1)]] by (simp add: ide_read_def)
qed

lemma eight_digits: "j < 8 \<Longrightarrow> k < 8 \<Longrightarrow> 8 * x + j = 8 * y + (k :: nat) \<longleftrightarrow> x = y \<and> j = k"
  by (cases x y rule: linorder_cases) auto

lemma lba_inj:
  assumes "j < 8" "k < 8" "unat b < 0x100000" "unat c < 0x100000"
  shows "b * 8 + of_nat j = c * 8 + (of_nat k :: u32) \<longleftrightarrow> b = c \<and> j = k"
proof -
  have "unat (b * 8 + of_nat j) = 8 * unat b + j" "unat (c * 8 + of_nat k) = 8 * unat c + k"
    using assms by (simp_all add: unat_word_ariths unat_of_nat)
  hence "b * 8 + of_nat j = c * 8 + (of_nat k :: u32) \<longleftrightarrow> 8 * unat b + j = 8 * unat c + k"
    by (simp add: word_unat_eq_iff)
  also have "\<dots> \<longleftrightarrow> unat b = unat c \<and> j = k" using assms(1,2) eight_digits [of j k] by simp
  finally show ?thesis by (simp add: word_unat_eq_iff)
qed

lemma blkof_bound: "unat (blkof a) < 0x100000"
  using word_u32_max [of "a - DISKMAP"] by (simp add: unat_blkof less_mult_imp_div_less)

lemma ide_write_sectors_ok:
  assumes "unat b < 0xC0000" "\<forall>j < 8. sector_ok s (b * 8 + of_nat j)" "k + n \<le> 8"
  shows "\<exists>d. ide_write_sectors n (b * 8 + of_nat k) (blkbase b + of_nat (512 * k)) s = (0, s\<lparr>disks := d\<rparr>) \<and>
    (\<forall>a. dbyte (s\<lparr>disks := d\<rparr>) a =
       (if blkof a = b \<and> k \<le> secof a \<and> secof a < k + n then bcmem s a else dbyte s a))"
  using assms(2,3)
proof (induction n arbitrary: k s)
  case 0
  have "s\<lparr>disks := disks s\<rparr> = s" by simp
  thus ?case by (intro exI [of _ "disks s"]) auto
next
  case (Suc n)
  let ?l = "b * 8 + of_nat k :: u32" and ?src = "blkbase b + of_nat (512 * k) :: u32"
  let ?d = "(disks s)(diskno s AND 1 := (disks s (diskno s AND 1))(?l := \<lambda>i. bcmem s (?src + i)))"
  let ?s = "s\<lparr>disks := ?d\<rparr>"
  have k: "k < 8" using Suc.prems by simp
  have st: "ide_wait_ready True (sector_status s (diskno s AND 1) ?l) = 0"
    using Suc.prems(1) k by (simp add: ide_wait_ready_def sector_ok_def)
  have e: "dbyte ?s a = (if blkof a = b \<and> secof a = k then bcmem s a else dbyte s a)" for a
  proof -
    have "blkof a * 8 + of_nat (secof a) = ?l \<longleftrightarrow> blkof a = b \<and> secof a = k"
      using lba_inj [of "secof a" k "blkof a" b] k blkof_bound [of a] assms(1) by simp
    moreover have "?src + (a AND 0x1FF) = a" if "blkof a = b" "secof a = k"
      using in_sector(2) [OF assms(1) k that] by (metis add.commute diff_add_cancel)
    ultimately show ?thesis by (auto simp: dbyte_def)
  qed
  have "\<forall>j < 8. sector_ok ?s (b * 8 + of_nat j)" using Suc.prems(1) by (simp add: sector_ok_def)
  from Suc.IH [OF this, of "Suc k"] Suc.prems(2) obtain d where
    d: "ide_write_sectors n (?l + 1) (?src + SECTSIZE) ?s = (0, s\<lparr>disks := d\<rparr>)"
    "\<And>a. dbyte (s\<lparr>disks := d\<rparr>) a =
       (if blkof a = b \<and> Suc k \<le> secof a \<and> secof a < Suc k + n then bcmem s a else dbyte ?s a)"
    by (auto simp: algebra_simps)
  have "dbyte (s\<lparr>disks := d\<rparr>) a =
     (if blkof a = b \<and> k \<le> secof a \<and> secof a < k + Suc n then bcmem s a else dbyte s a)" for a
    unfolding d(2) e by auto
  moreover have "ide_write_sectors (Suc n) ?l ?src s = ide_write_sectors n (?l + 1) (?src + SECTSIZE) ?s"
    unfolding ide_write_sectors.simps Let_def st by simp
  ultimately show ?case using d(1) by auto
qed

lemma ide_write_block:
  assumes "block_ok s b"
  shows "\<exists>d. ide_write (b * BLKSECTS) (blkbase b) BLKSECTS s = Done 0 (s\<lparr>disks := d\<rparr>) \<and>
    (\<forall>a. dbyte (s\<lparr>disks := d\<rparr>) a = (if blkof a = b then bcmem s a else dbyte s a))"
proof -
  have b: "unat b < 0xC0000" "\<forall>j < 8. sector_ok s (b * 8 + of_nat j)"
    using assms by (simp_all add: block_ok_def)
  obtain d where "ide_write_sectors 8 (b * 8) (blkbase b) s = (0, s\<lparr>disks := d\<rparr>)"
    "\<forall>a. dbyte (s\<lparr>disks := d\<rparr>) a = (if blkof a = b then bcmem s a else dbyte s a)"
    using ide_write_sectors_ok [OF b, of 0 8] by auto
  thus ?thesis using ide_lba_id [OF blkno_small [OF b(1)]] by (auto simp: ide_write_def)
qed

section \<open>Faulting blocks in\<close>

text \<open>The state after the blocks of \<open>B\<close> have been read if they were not in memory.\<close>

definition load_set :: "u32 set \<Rightarrow> fss \<Rightarrow> fss" where
  "load_set B s = s\<lparr>bcmem := \<lambda>a. if blkof a \<in> B \<and> \<not> bmapped s (blkof a) then dbyte s a else bcmem s a,
     bmapped := \<lambda>b. bmapped s b \<or> b \<in> B, bdirty := \<lambda>b. bdirty s b \<and> (b \<in> B \<longrightarrow> bmapped s b)\<rparr>"

lemma load_set_fields [simp]:
  "bmapped (load_set B s) b \<longleftrightarrow> bmapped s b \<or> b \<in> B" "disks (load_set B s) = disks s"
  "super_set (load_set B s) = super_set s" "bitmap_set (load_set B s) = bitmap_set s"
  "no_memory (load_set B s) = no_memory s" "diskno (load_set B s) = diskno s"
  "reqpage (load_set B s) = reqpage s" "sector_status (load_set B s) = sector_status s" "dbyte (load_set B s) = dbyte s"
  "block_ok (load_set B s) b = block_ok s b" "sector_ok (load_set B s) l = sector_ok s l"
  by (auto simp: load_set_def dbyte_def block_ok_def sector_ok_def fun_eq_iff)

lemma view_load_set [simp]: "view (load_set B s) = view s"
  by (rule ext) (auto simp: view_def load_set_def dbyte_def)

lemma load_set_empty [simp]: "load_set {} s = s"
  by (simp add: load_set_def)

lemma load_set_load_set [simp]: "load_set B (load_set A s) = load_set (A \<union> B) s"
  unfolding load_set_def by (rule fss.equality) (auto simp: dbyte_def fun_eq_iff)

lemma bcmem_view: "bmapped s (blkof a) \<Longrightarrow> bcmem s a = view s a"
  by (simp add: view_def)

text \<open>The number of blocks and the bitmap, in the memory the server sees.\<close>

definition nblocks :: "mem \<Rightarrow> u32" where
  "nblocks V = get4 (DISKMAP + BLKSIZE + 4) V"

definition bm_addr :: "u32 \<Rightarrow> u32" where
  "bm_addr b = BITMAP + 4 * (b div 32)"

definition free_bit :: "mem \<Rightarrow> u32 \<Rightarrow> bool" where
  "free_bit V b \<longleftrightarrow> get4 (bm_addr b) V AND push_bit (unat (b mod 32)) 1 \<noteq> 0"

text \<open>A disk that \<^verbatim>\<open>fs_init\<close> accepts, on a drive without errors.\<close>

definition disk_wf :: "mem \<Rightarrow> bool" where
  "disk_wf V \<longleftrightarrow> nblocks V \<le> 0xC0000 \<and> 2 < nblocks V \<and> \<not> free_bit V 0 \<and> \<not> free_bit V 1 \<and>
     (\<forall>b < nblocks V. 2 + b div 0x8000 < nblocks V \<and> \<not> free_bit V (2 + b div 0x8000))"

definition cache_ready :: "fss \<Rightarrow> bool" where
  "cache_ready s \<longleftrightarrow> super_set s \<and> bitmap_set s \<and> bmapped s 1 \<and> disk_wf (view s) \<and>
     (\<forall>b < nblocks (view s). block_ok s b)"

definition used_block :: "mem \<Rightarrow> u32 \<Rightarrow> bool" where
  "used_block V b \<longleftrightarrow> b < nblocks V \<and> \<not> free_bit V b"

lemma cache_ready_load_set [simp]: "cache_ready s \<Longrightarrow> cache_ready (load_set B s)"
  by (simp add: cache_ready_def)

lemma blkof_aligned:
  assumes "unat a mod 4 = 0" "k < 4" shows "blkof (a + of_nat k) = blkof a"
proof -
  let ?x = "unat (a - DISKMAP)"
  have m: "?x mod 4 = 0"
  proof -
    have "unat ((a - DISKMAP) + 0x10000000) = (?x + 0x10000000) mod 2 ^ 32"
      by (simp only: unat_word_ariths) simp
    hence "unat a = (?x + 0x10000000) mod 2 ^ 32" by simp
    hence "unat a mod 4 = (?x + 4 * 67108864) mod 4" by (simp add: mod_mod_cancel)
    thus ?thesis using assms(1) by (simp only: mod_mult_self2)
  qed
  have "?x < 2 ^ 32" using word_u32_max [of "a - DISKMAP"] by simp
  moreover obtain q where q: "?x = 4 * q" using m by (meson dvdE mod_eq_0_iff_dvd)
  ultimately have x: "?x + 4 \<le> 2 ^ 32" by simp
  have e: "a + of_nat k - DISKMAP = (a - DISKMAP) + of_nat k" by (simp only: add_diff_eq add.commute diff_add_eq)
  have "unat (a + of_nat k - DISKMAP) = ?x + k"
    unfolding e using x assms(2) unat_plus [of "a - DISKMAP" "of_nat k"] by (simp add: unat_of_nat)
  moreover have "(?x + k) div 4096 = ?x div 4096"
    unfolding q using assms(2) by (simp add: div_mult2_eq [of _ 4 1024, simplified])
  ultimately show ?thesis by (simp add: word_unat_eq_iff unat_blkof)
qed

lemma get4_cong: "(\<And>k. k < 4 \<Longrightarrow> m (a + of_nat k) = m' (a + of_nat k)) \<Longrightarrow> get4 a m = get4 a m'"
proof -
  assume h: "\<And>k. k < 4 \<Longrightarrow> m (a + of_nat k) = m' (a + of_nat k)"
  show ?thesis using h [of 0] h [of 1] h [of 2] h [of 3] by (simp add: get4_def)
qed

lemma get4_bcmem: "unat a mod 4 = 0 \<Longrightarrow> bmapped s (blkof a) \<Longrightarrow> get4 a (bcmem s) = get4 a (view s)"
  by (rule get4_cong) (simp add: view_def blkof_aligned)

lemma s_nblocks_view: "bmapped s 1 \<Longrightarrow> s_nblocks s = nblocks (view s)"
  by (simp add: s_nblocks_def nblocks_def get4_bcmem blkof_def)

lemma bm_addr_facts:
  assumes "unat b < 0xC0000"
  shows "unat (bm_addr b) mod 4 = 0" "blkof (bm_addr b) = 2 + b div 0x8000"
    "DISKMAP \<le> bm_addr b" "bm_addr b < DISKMAP + DISKSIZE"
proof -
  have d: "unat (b div 32) = unat b div 32" by (simp add: unat_div_distrib)
  have s: "unat b div 32 < 0x6000" using assms by (simp add: less_mult_imp_div_less)
  have u: "unat (bm_addr b) = 0x10002000 + 4 * (unat b div 32)"
    using s d by (simp add: bm_addr_def unat_word_ariths)
  show "unat (bm_addr b) mod 4 = 0" unfolding u by (simp add: mod_add_eq [symmetric] mod_mult_self1_is_0)
  show "DISKMAP \<le> bm_addr b" "bm_addr b < DISKMAP + DISKSIZE"
    using s by (simp_all add: word_le_nat_alt word_less_nat_alt u)
  have "bm_addr b - DISKMAP = 0x2000 + 4 * (b div 32)" by (simp add: bm_addr_def)
  hence "unat (bm_addr b - DISKMAP) = 0x2000 + 4 * (unat b div 32)"
    using s d by (simp add: unat_word_ariths)
  hence "unat (blkof (bm_addr b)) = (0x2000 + 4 * (unat b div 32)) div 4096" by (simp only: unat_blkof)
  also have "\<dots> = (4 * (unat b div 32) + 2 * 4096) div 4096" by (simp add: add.commute)
  also have "\<dots> = 2 + 4 * (unat b div 32) div 4096" by (rule div_mult_self1) simp
  also have "\<dots> = 2 + unat b div 0x8000"
    using div_mult_mult1 [of 4 "unat b div 32" 1024] by (simp add: div_mult2_eq [symmetric])
  also have "\<dots> = unat (2 + b div 0x8000)"
    using assms by (simp add: unat_word_ariths unat_div_distrib)
  finally show "blkof (bm_addr b) = 2 + b div 0x8000" by (simp add: word_unat_eq_iff)
qed

lemma blkbase_facts:
  assumes "unat b < 0xC0000"
  shows "unat (blkbase b) = 0x10000000 + 4096 * unat b" "blkof (blkbase b) = b"
proof -
  show "unat (blkbase b) = 0x10000000 + 4096 * unat b"
    using assms by (simp add: blkbase_def unat_word_ariths)
  have "unat (blkbase b - DISKMAP) = 4096 * unat b"
    using assms by (simp add: blkbase_def unat_word_ariths)
  thus "blkof (blkbase b) = b" by (simp add: word_unat_eq_iff unat_blkof)
qed

text \<open>Addresses of existing blocks.\<close>

lemma cache_address:
  assumes "unat (blkof a) < 0xC0000"
  shows "DISKMAP \<le> a" "a < DISKMAP + DISKSIZE" "ROUNDDOWN a PGSIZE = blkbase (blkof a)"
proof -
  let ?x = "unat (a - DISKMAP)"
  have x: "?x < 0xC0000000" using assms by (simp add: unat_blkof div_less_iff_less_mult)
  have "unat ((a - DISKMAP) + 0x10000000) = (?x + 0x10000000) mod 2 ^ 32"
    by (simp only: unat_word_ariths) simp
  hence u: "unat a = ?x + 0x10000000" using x by simp
  show "DISKMAP \<le> a" "a < DISKMAP + DISKSIZE" using x u by (simp_all add: word_le_nat_alt word_less_nat_alt)
  have "unat (ROUNDDOWN a PGSIZE) = (?x + 0x10000000) div 4096 * 4096" by (simp add: unat_ROUNDDOWN u)
  also have "\<dots> = (?x + 65536 * 4096) div 4096 * 4096" by simp
  also have "\<dots> = 0x10000000 + 4096 * (?x div 4096)" by (subst div_mult_self1) simp_all
  also have "\<dots> = unat (blkbase (blkof a))" using blkbase_facts(1) [OF assms] by (simp add: unat_blkof)
  finally show "ROUNDDOWN a PGSIZE = blkbase (blkof a)" by (simp add: word_unat_eq_iff)
qed

lemma cache_readyD:
  assumes "cache_ready s"
  shows "super_set s" "bitmap_set s" "bmapped s 1" "s_nblocks s = nblocks (view s)"
    "nblocks (view s) \<le> 0xC0000" "b < nblocks (view s) \<Longrightarrow> block_ok s b"
    "b < nblocks (view s) \<Longrightarrow> unat b < 0xC0000"
    "b < nblocks (view s) \<Longrightarrow> used_block (view s) (2 + b div 0x8000)"
  using assms s_nblocks_view [of s]
  by (auto simp: cache_ready_def disk_wf_def used_block_def word_less_nat_alt word_le_nat_alt)

lemma load_one:
  assumes "\<not> bmapped s b"
  shows "clear_dirty b ((map_zero_page b s)\<lparr>bcmem := \<lambda>a. if blkof a = b then dbyte (map_zero_page b s) a
    else bcmem (map_zero_page b s) a\<rparr>) = load_set {b} s"
proof -
  have "(\<lambda>a. if blkof a = b then dbyte (map_zero_page b s) a else bcmem (map_zero_page b s) a) =
      (\<lambda>a. if blkof a \<in> {b} \<and> \<not> bmapped s (blkof a) then dbyte s a else bcmem s a)"
    using assms by (intro ext) (auto simp: map_zero_page_def dbyte_def)
  hence "clear_dirty b ((map_zero_page b s)\<lparr>bcmem := \<lambda>a. if blkof a = b then dbyte (map_zero_page b s) a
      else bcmem (map_zero_page b s) a\<rparr>) = clear_dirty b ((map_zero_page b s)\<lparr>bcmem :=
      \<lambda>a. if blkof a \<in> {b} \<and> \<not> bmapped s (blkof a) then dbyte s a else bcmem s a\<rparr>)"
    by simp
  also have "\<dots> = load_set {b} s"
    using assms unfolding clear_dirty_def load_set_def map_zero_page_def
    by (cases s) (auto simp: fun_eq_iff)
  finally show ?thesis .
qed

text \<open>One level of the fault handler, given what the access to the bitmap does.\<close>

lemma bc_pgfault_step:
  assumes r: "cache_ready s" and b: "blkof a = b" "used_block (view s) b" "\<not> bmapped s b"
    and inner: "(if bmapped (load_set {b} s) (2 + b div 0x8000) then Done () (load_set {b} s)
       else bc_pgfault d (bm_addr b) (load_set {b} s)) = Done () (load_set B (load_set {b} s))"
    and B: "bmapped s (2 + b div 0x8000) \<or> 2 + b div 0x8000 \<in> insert b B"
  shows "bc_pgfault (Suc d) a s = Done () (load_set (insert b B) s)"
proof -
  note R = cache_readyD [OF r]
  have bn: "b < nblocks (view s)" and fr: "\<not> free_bit (view s) b" using b(2) by (auto simp: used_block_def)
  have ub: "unat b < 0xC0000" by (rule R(7) [OF bn])
  have bk: "block_ok s b" by (rule R(6) [OF bn])
  note A = cache_address [of a, unfolded b(1), OF ub]
  let ?t = "\<lambda>a s. if bmapped s (blkof a) then Done () s else bc_pgfault d a s"
  have sn: "super_nblocks_via ?t s' = Done (nblocks (view s')) s'" if "bmapped s' 1" for s'
    using that s_nblocks_view [OF that] by (simp add: super_nblocks_via_def blkof_def)
  let ?z = "map_zero_page b s"
  have al: "sys_page_alloc_at (blkbase b) s = (0, ?z)"
    using bk by (simp add: sys_page_alloc_at_def block_ok_def blkbase_facts(2))
  have "block_ok ?z b" using bk by (simp add: block_ok_def sector_ok_def map_zero_page_def)
  note rd = ide_read_block [OF this]
  note ld = load_one [OF b(3)]
  let ?l = "load_set {b} s" and ?r = "load_set (insert b B) s"
  have l: "load_set B ?l = ?r" by simp
  have g: "get4 (bm_addr b) (bcmem ?r) AND push_bit (unat (b mod 32)) 1 = 0"
  proof -
    have "bmapped ?r (blkof (bm_addr b))" using B bm_addr_facts(2) [OF ub] by auto
    from get4_bcmem [OF bm_addr_facts(1) [OF ub] this] fr show ?thesis by (simp add: free_bit_def)
  qed
  have fb: "block_is_free_via ?t b ?l = Done False ?r"
    using inner sn [of ?l] R(1,3) bn g bm_addr_facts(2) [OF ub] l
    unfolding block_is_free_via_def Let_def bm_addr_def [symmetric] by (simp add: not_le)
  have n: "\<not> a < DISKMAP" "\<not> DISKMAP + DISKSIZE \<le> a" "\<not> nblocks (view s) \<le> b"
    using A(1,2) bn by (simp_all only: not_less not_le)
  show ?thesis
    unfolding bc_pgfault.simps Let_def b(1)
    by (simp only: n R(1) sn [OF R(3)] if_True if_False kbind.simps simp_thms al case_prod_conv A(3) rd ld
        load_set_fields R(2) fb sint_0 less_irrefl)
qed

text \<open>The first bitmap block describes itself, the other bitmap blocks are described by the first,
  and every block by a bitmap block: the handler nests three deep.\<close>

lemma fault_bitmap0:
  assumes r: "cache_ready s" and a: "blkof a = 2" "\<not> bmapped s 2"
  shows "bc_pgfault (Suc d) a s = Done () (load_set {2} s)"
proof -
  have two: "used_block (view s) 2"
  proof -
    have "0 < nblocks (view s)" using r by (auto simp: cache_ready_def disk_wf_def word_less_nat_alt)
    from cache_readyD(8) [OF r this] show ?thesis by simp
  qed
  show ?thesis by (rule bc_pgfault_step [OF r a(1) two a(2), of d "{}"]) simp_all
qed

lemma bitmap_block_small:
  assumes "cache_ready s" "c < nblocks (view s)"
  shows "(2 + c div 0x8000) div 0x8000 = (0 :: u32)"
proof -
  have "unat c < 0xC0000" by (rule cache_readyD(7) [OF assms])
  hence "unat c div 0x8000 < 24" by (simp add: less_mult_imp_div_less)
  hence "unat (2 + c div 0x8000) < 26" by (simp add: unat_word_ariths unat_div_distrib)
  thus ?thesis by (simp add: word_unat_eq_iff unat_div_distrib)
qed

lemma fault_bitmap:
  assumes r: "cache_ready s" and c: "c < nblocks (view s)" "blkof a = 2 + c div 0x8000"
    and m: "\<not> bmapped s (2 + c div 0x8000)"
  shows "\<exists>B. bc_pgfault (Suc (Suc d)) a s = Done () (load_set (insert (2 + c div 0x8000) B) s) \<and> B \<subseteq> {2}"
proof -
  let ?b = "2 + c div 0x8000"
  have u: "used_block (view s) ?b" by (rule cache_readyD(8) [OF r c(1)])
  have b2: "2 + ?b div 0x8000 = 2" using bitmap_block_small [OF r c(1)] by simp
  have ub: "unat ?b < 0xC0000" by (rule cache_readyD(7) [OF r]) (use u in \<open>simp add: used_block_def\<close>)
  show ?thesis
  proof (cases "bmapped (load_set {?b} s) 2")
    case True
    have "bc_pgfault (Suc (Suc d)) a s = Done () (load_set (insert ?b {}) s)"
      by (rule bc_pgfault_step [OF r c(2) u m]) (use True b2 in simp_all)
    thus ?thesis by blast
  next
    case False
    have i: "bc_pgfault (Suc d) (bm_addr ?b) (load_set {?b} s) = Done () (load_set {2} (load_set {?b} s))"
      by (rule fault_bitmap0) (use r bm_addr_facts(2) [OF ub] b2 False in simp_all)
    have "bc_pgfault (Suc (Suc d)) a s = Done () (load_set (insert ?b {2}) s)"
      by (rule bc_pgfault_step [OF r c(2) u m]) (use False b2 i in simp_all)
    thus ?thesis by blast
  qed
qed

lemma touch_ok:
  assumes r: "cache_ready s" and u: "used_block (view s) (blkof a)"
  shows "\<exists>B. touch a s = Done () (load_set B s) \<and> (bmapped s (blkof a) \<or> blkof a \<in> B)"
proof (cases "bmapped s (blkof a)")
  case True thus ?thesis by (intro exI [of _ "{}"]) (simp add: touch_def)
next
  case m: False
  let ?b = "blkof a"
  let ?w = "2 + ?b div 0x8000"
  have bn: "?b < nblocks (view s)" using u by (simp add: used_block_def)
  have ub: "unat ?b < 0xC0000" by (rule cache_readyD(7) [OF r bn])
  have d: "fault_depth = Suc (Suc (Suc (Suc 0)))" by simp
  show ?thesis
  proof (cases "bmapped (load_set {?b} s) ?w")
    case True
    have "bc_pgfault fault_depth a s = Done () (load_set (insert ?b {}) s)"
      unfolding d by (rule bc_pgfault_step [OF r refl u m]) (use True in simp_all)
    thus ?thesis using m by (auto simp: touch_def)
  next
    case False
    have rl: "cache_ready (load_set {?b} s)" using r by simp
    obtain B where B: "bc_pgfault (Suc (Suc (Suc 0))) (bm_addr ?b) (load_set {?b} s) =
        Done () (load_set (insert ?w B) (load_set {?b} s))"
      using fault_bitmap [OF rl, of ?b "bm_addr ?b" "Suc 0"] bn bm_addr_facts(2) [OF ub] False by auto
    have "bc_pgfault fault_depth a s = Done () (load_set (insert ?b (insert ?w B)) s)"
      unfolding d by (rule bc_pgfault_step [OF r refl u m]) (use False B in simp_all)
    thus ?thesis using m by (auto simp: touch_def)
  qed
qed

section \<open>The server's view of memory\<close>

text \<open>A clean block in the cache is as on the disk.\<close>

definition coherent :: "fss \<Rightarrow> bool" where
  "coherent s \<longleftrightarrow> (\<forall>a. bmapped s (blkof a) \<longrightarrow> \<not> bdirty s (blkof a) \<longrightarrow> bcmem s a = dbyte s a)"

text \<open>\<open>evolves s t V\<close>: code went from \<open>s\<close> to \<open>t\<close>, where the server sees the memory \<open>V\<close>.\<close>

definition evolves :: "fss \<Rightarrow> fss \<Rightarrow> mem \<Rightarrow> bool" where
  "evolves s t V \<longleftrightarrow> view t = V \<and> super_set t = super_set s \<and> bitmap_set t = bitmap_set s \<and>
     sector_status t = sector_status s \<and> diskno t = diskno s \<and> no_memory t = no_memory s \<and>
     reqpage t = reqpage s \<and> (\<forall>b. bmapped s b \<longrightarrow> bmapped t b) \<and> (coherent s \<longrightarrow> coherent t)"

lemma step_refl [simp]: "evolves s s V \<longleftrightarrow> view s = V"
  by (auto simp: evolves_def)

lemma step_trans: "evolves s t V \<Longrightarrow> evolves t u W \<Longrightarrow> evolves s u W"
  by (auto simp: evolves_def)

lemma step_view: "evolves s t V \<Longrightarrow> view t = V"
  by (simp add: evolves_def)

lemma step_block_ok: "evolves s t V \<Longrightarrow> block_ok t b = block_ok s b"
  by (simp add: evolves_def block_ok_def sector_ok_def)

lemma step_ready:
  assumes "cache_ready s" "evolves s t V" "disk_wf V" "nblocks V = nblocks (view s)"
  shows "cache_ready t"
  using assms step_block_ok [OF assms(2)] by (auto simp: cache_ready_def evolves_def)

lemma step_ready_same: "cache_ready s \<Longrightarrow> evolves s t (view s) \<Longrightarrow> cache_ready t"
  using step_ready [of s t "view s"] by (simp add: cache_ready_def)

lemma coherent_load_set: "coherent s \<Longrightarrow> coherent (load_set B s)"
  unfolding coherent_def load_set_fields by (simp add: load_set_def)

lemma step_load_set: "evolves s (load_set B s) (view s)"
  using coherent_load_set [of s B] by (simp add: evolves_def)

lemma touch_step:
  assumes "cache_ready s" "used_block (view s) (blkof a)"
  shows "\<exists>t. touch a s = Done () t \<and> evolves s t (view s) \<and> bmapped t (blkof a) \<and> dbyte t = dbyte s"
proof -
  obtain B where "touch a s = Done () (load_set B s)" "bmapped s (blkof a) \<or> blkof a \<in> B"
    using touch_ok [OF assms] by blast
  thus ?thesis using step_load_set by (intro exI [of _ "load_set B s"]) auto
qed

lemma ld8_step:
  assumes "cache_ready s" "used_block (view s) (blkof a)"
  shows "\<exists>t. ld8 a s = Done (view s a) t \<and> evolves s t (view s)"
proof -
  obtain t where t: "touch a s = Done () t" "evolves s t (view s)" "bmapped t (blkof a)"
    using touch_step [OF assms] by blast
  have "bcmem t a = view s a" using bcmem_view [OF t(3)] step_view [OF t(2)] by simp
  thus ?thesis using t by (simp add: ld8_def)
qed

lemma ld32_step:
  assumes "cache_ready s" "used_block (view s) (blkof a)" "unat a mod 4 = 0"
  shows "\<exists>t. ld32 a s = Done (get4 a (view s)) t \<and> evolves s t (view s)"
proof -
  obtain t where t: "touch a s = Done () t" "evolves s t (view s)" "bmapped t (blkof a)"
    using touch_step [OF assms(1,2)] by blast
  have "get4 a (bcmem t) = get4 a (view s)" using get4_bcmem [OF assms(3) t(3)] step_view [OF t(2)] by simp
  thus ?thesis using t by (simp add: ld32_def)
qed

text \<open>A write to a mapped block.\<close>

definition put_mem :: "u32 \<Rightarrow> mem \<Rightarrow> fss \<Rightarrow> fss" where
  "put_mem b m s = s\<lparr>bcmem := m, bdirty := (bdirty s)(b := True)\<rparr>"

lemma put_mem_step:
  assumes "bmapped s b" "\<And>a. blkof a \<noteq> b \<Longrightarrow> m a = bcmem s a"
  shows "evolves s (put_mem b m s) (\<lambda>a. if blkof a = b then m a else view s a)"
  using assms unfolding evolves_def coherent_def put_mem_def
  by (auto simp: view_def dbyte_def fun_eq_iff)

lemma st8_step:
  assumes "cache_ready s" "used_block (view s) (blkof a)"
  shows "\<exists>t. st8 a b s = Done () t \<and> evolves s t ((view s)(a := b))"
proof -
  obtain t where t: "touch a s = Done () t" "evolves s t (view s)" "bmapped t (blkof a)"
    using touch_step [OF assms] by blast
  let ?m = "(bcmem t)(a := b)"
  have st: "evolves t (put_mem (blkof a) ?m t) (\<lambda>x. if blkof x = blkof a then ?m x else view t x)"
    by (rule put_mem_step [OF t(3)]) auto
  have "(\<lambda>x. if blkof x = blkof a then ?m x else view t x) = (view s)(a := b)"
    using bcmem_view [of t] t(3) step_view [OF t(2)] by (intro ext) auto
  thus ?thesis using t(1) step_trans [OF t(2) st] by (simp add: st8_def put_mem_def)
qed

lemma st32_step:
  assumes "cache_ready s" "used_block (view s) (blkof a)" "unat a mod 4 = 0"
  shows "\<exists>t. st32 a w s = Done () t \<and> evolves s t (put4 a w (view s))"
proof -
  obtain t where t: "touch a s = Done () t" "evolves s t (view s)" "bmapped t (blkof a)"
    using touch_step [OF assms(1,2)] by blast
  let ?m = "put4 a w (bcmem t)"
  have k: "blkof a = blkof (a + of_nat k)" if "k < 4" for k
    using blkof_aligned [OF assms(3) that] by simp
  have o: "put4 a w m x = m x" if "blkof x \<noteq> blkof a" for m x
    using that k [of 1] k [of 2] k [of 3] by (auto simp: put4_def)
  have st: "evolves t (put_mem (blkof a) ?m t) (\<lambda>x. if blkof x = blkof a then ?m x else view t x)"
    by (rule put_mem_step [OF t(3)]) (simp add: o)
  have "(if blkof x = blkof a then ?m x else view t x) = put4 a w (view s) x" for x
    using bcmem_view [of t x] t(3) step_view [OF t(2)] o [of x "view s"] by (auto simp: put4_def)
  thus ?thesis using t(1) step_trans [OF t(2) st] by (simp add: st32_def put_mem_def)
qed

section \<open>Writing back\<close>

lemma flush_block_step:
  assumes "block_ok s (blkof a)"
  shows "\<exists>t. flush_block a s = Done () t \<and> evolves s t (view s) \<and>
    (\<forall>x. dbyte t x = (if blkof x = blkof a \<and> bmapped s (blkof a) \<and> bdirty s (blkof a)
       then view s x else dbyte s x)) \<and>
    bmapped t = bmapped s \<and> (\<forall>b. bdirty t b \<longrightarrow> bdirty s b) \<and> (bmapped s (blkof a) \<longrightarrow> \<not> bdirty t (blkof a))"
proof -
  have ub: "unat (blkof a) < 0xC0000" using assms by (simp add: block_ok_def)
  note A = cache_address [OF ub]
  have n: "\<not> a < DISKMAP" "\<not> DISKMAP + DISKSIZE \<le> a" using A(1,2) by (simp_all only: not_less not_le)
  have rd: "ROUNDDOWN a BLKSIZE = blkbase (blkof a)" using A(3) by simp
  have vm: "va_is_mapped (blkbase (blkof a)) s = bmapped s (blkof a)"
    "va_is_dirty (blkbase (blkof a)) s = bdirty s (blkof a)"
    by (simp_all add: va_is_mapped_def va_is_dirty_def blkbase_facts(2) [OF ub])
  show ?thesis
  proof (cases "bmapped s (blkof a) \<and> bdirty s (blkof a)")
    case False
    hence "flush_block a s = Done () s"
      using vm unfolding flush_block_def Let_def rd by (simp only: n if_False simp_thms) auto
    thus ?thesis using False by auto
  next
    case True
    obtain d where d: "ide_write (blkof a * BLKSECTS) (blkbase (blkof a)) BLKSECTS s = Done 0 (s\<lparr>disks := d\<rparr>)"
      "\<And>x. dbyte (s\<lparr>disks := d\<rparr>) x = (if blkof x = blkof a then bcmem s x else dbyte s x)"
      using ide_write_block [OF assms] by blast
    let ?t = "clear_dirty (blkof a) (s\<lparr>disks := d\<rparr>)"
    have fl: "flush_block a s = Done () ?t"
      using vm True d(1) unfolding flush_block_def Let_def rd by (simp only: n if_False simp_thms) auto
    have db: "dbyte ?t x = (if blkof x = blkof a then view s x else dbyte s x)" for x
    proof -
      have "dbyte ?t x = dbyte (s\<lparr>disks := d\<rparr>) x" by (simp add: dbyte_def clear_dirty_def)
      thus ?thesis using True bcmem_view [of s x] by (simp add: d(2))
    qed
    have vw: "view ?t = view s"
    proof
      fix x show "view ?t x = view s x"
        using db [of x] True by (simp add: view_def) (simp add: clear_dirty_def)
    qed
    have "coherent ?t" if "coherent s"
      using that db bcmem_view [of s] unfolding coherent_def by (auto simp: clear_dirty_def)
    hence "evolves s ?t (view s)" using vw by (simp add: evolves_def) (simp add: clear_dirty_def)
    moreover have "bmapped ?t = bmapped s" "bdirty ?t b \<longrightarrow> bdirty s b" "\<not> bdirty ?t (blkof a)" for b
      by (simp_all add: clear_dirty_def)
    ultimately show ?thesis using fl db True by auto
  qed
qed

section \<open>Metadata of the disk\<close>

lemma super_nblocks_ready: "cache_ready s \<Longrightarrow> super_nblocks s = Done (nblocks (view s)) s"
  using cache_readyD(3,4) [of s] by (simp add: super_nblocks_def ld32_def touch_def s_nblocks_def blkof_def)

lemma diskaddr_ready:
  "cache_ready s \<Longrightarrow> b \<noteq> 0 \<Longrightarrow> b < nblocks (view s) \<Longrightarrow> diskaddr b s = Done (blkbase b) s"
  using cache_readyD(1) [of s] by (simp add: diskaddr_def super_nblocks_ready blkbase_def not_le)

lemma diskaddr_bad:
  "cache_ready s \<Longrightarrow> b = 0 \<or> nblocks (view s) \<le> b \<Longrightarrow> diskaddr b s = Panic ''bad block number in diskaddr''"
  using cache_readyD(1) [of s] by (auto simp: diskaddr_def super_nblocks_ready)

text \<open>The blocks of the bitmap, and the addresses that hold the number of blocks and the bitmap.\<close>

definition meta_block :: "mem \<Rightarrow> u32 \<Rightarrow> bool" where
  "meta_block V c \<longleftrightarrow> (\<exists>b < nblocks V. c = 2 + b div 0x8000)"

definition meta_addr :: "mem \<Rightarrow> u32 \<Rightarrow> bool" where
  "meta_addr V x \<longleftrightarrow> x - 0x10001004 < 4 \<or> meta_block V (blkof x)"

definition reserved :: "mem \<Rightarrow> u32 \<Rightarrow> bool" where
  "reserved V c \<longleftrightarrow> c = 0 \<or> c = 1 \<or> meta_block V c"

lemma get4_block:
  assumes "unat a mod 4 = 0" "\<And>x. blkof x = blkof a \<Longrightarrow> V' x = V x"
  shows "get4 a V' = get4 a V"
  by (rule get4_cong) (simp add: assms(2) blkof_aligned [OF assms(1)])

lemma meta_agree:
  assumes wf: "disk_wf V" and eq: "\<And>x. meta_addr V x \<Longrightarrow> V' x = V x"
  shows "nblocks V' = nblocks V" "b < nblocks V \<Longrightarrow> free_bit V' b = free_bit V b" "disk_wf V'"
    "used_block V' b = used_block V b"
proof -
  show n: "nblocks V' = nblocks V" unfolding nblocks_def
    by (rule get4_cong) (auto intro!: eq simp: meta_addr_def word_less_nat_alt unat_of_nat)
  have f: "free_bit V' c = free_bit V c" if "c < nblocks V" for c
  proof -
    have u: "unat c < 0xC0000"
      using wf that by (simp add: disk_wf_def word_less_nat_alt word_le_nat_alt)
    have "get4 (bm_addr c) V' = get4 (bm_addr c) V"
      by (rule get4_block) (use bm_addr_facts [OF u] that in \<open>auto intro!: eq simp: meta_addr_def meta_block_def\<close>)
    thus ?thesis by (simp add: free_bit_def)
  qed
  thus "b < nblocks V \<Longrightarrow> free_bit V' b = free_bit V b" .
  have "0 < nblocks V" "1 < nblocks V"
    using wf by (auto simp: disk_wf_def word_less_nat_alt)
  thus "disk_wf V'" using wf f unfolding disk_wf_def n by auto
  show "used_block V' b = used_block V b" using f [of b] n by (auto simp: used_block_def)
qed

section \<open>Bits of the bitmap\<close>

lemma mod32_less: "unat (b mod 32 :: u32) < 32"
  by (simp add: unat_mod_distrib)

lemma bm_addr_apart:
  assumes "unat b < 0xC0000" "unat c < 0xC0000" "b div 32 \<noteq> c div 32"
  shows "4 \<le> bm_addr b - bm_addr c"
proof -
  have u: "unat (x div 32) < 0x6000" if "unat x < 0xC0000" for x :: u32
    using that by (simp add: unat_div_distrib less_mult_imp_div_less)
  let ?x = "b div 32" and ?y = "c div 32"
  have ne: "unat ?x \<noteq> unat ?y" using assms(3) by (simp add: word_unat_eq_iff)
  have a: "unat (bm_addr z) = 0x10002000 + 4 * unat (z div 32)" if "unat z < 0xC0000" for z
    using u [OF that] by (simp add: bm_addr_def unat_word_ariths)
  show ?thesis
    using ne u [OF assms(1)] u [OF assms(2)] unat_sub_if_size [of "bm_addr b" "bm_addr c"]
    by (simp add: word_le_nat_alt a [OF assms(1)] a [OF assms(2)] word_size) linarith
qed

lemma get4_put4_bm:
  assumes "unat b < 0xC0000" "unat c < 0xC0000"
  shows "get4 (bm_addr c) (put4 (bm_addr b) w V) = (if b div 32 = c div 32 then w else get4 (bm_addr c) V)"
proof (cases "b div 32 = c div 32")
  case True thus ?thesis by (simp add: bm_addr_def get4_put4_same)
next
  case False
  hence "4 \<le> bm_addr b - bm_addr c" "4 \<le> bm_addr c - bm_addr b"
    using bm_addr_apart [OF assms] bm_addr_apart [OF assms(2,1)] by metis+
  thus ?thesis using False get4_put4_apart [of "bm_addr c" "bm_addr b" 0 w V] by simp
qed

lemma div_mod_32: "(b :: u32) div 32 = c div 32 \<Longrightarrow> b mod 32 = c mod 32 \<longleftrightarrow> b = c"
  by (metis mult_div_mod_eq)

lemma bit_test: "w AND push_bit k 1 \<noteq> (0 :: u32) \<longleftrightarrow> bit w k"
proof (cases "k < 32")
  case True
  show ?thesis
  proof
    assume "w AND push_bit k 1 \<noteq> 0"
    then obtain n where "bit (w AND push_bit k 1) n" by (metis bit_0_eq bit_eqI zero_word_def bot_apply bot_bool_def)
    thus "bit w k" by (auto simp: bit_simps)
  next
    assume b: "bit w k"
    hence "bit (w AND push_bit k 1) k" using True by (auto simp: bit_simps)
    thus "w AND push_bit k 1 \<noteq> 0" by auto
  qed
next
  case False
  hence "push_bit k (1 :: u32) = 0" by (intro bit_word_eqI) (auto simp: bit_simps)
  hence "w AND push_bit k 1 = 0" by (simp only: and_zero_eq)
  thus ?thesis using False by (auto dest: bit_imp_le_length simp del: push_bit_of_1)
qed

text \<open>The memory after a block has been marked as used or as free.\<close>

definition mark_used :: "mem \<Rightarrow> u32 \<Rightarrow> mem" where
  "mark_used V b = put4 (bm_addr b) (get4 (bm_addr b) V AND NOT (push_bit (unat (b mod 32)) 1)) V"

definition mark_free :: "mem \<Rightarrow> u32 \<Rightarrow> mem" where
  "mark_free V b = put4 (bm_addr b) (get4 (bm_addr b) V OR push_bit (unat (b mod 32)) 1) V"

lemma free_bit_mark:
  assumes "unat b < 0xC0000" "unat c < 0xC0000"
  shows "free_bit (mark_used V b) c \<longleftrightarrow> c \<noteq> b \<and> free_bit V c"
    and "free_bit (mark_free V b) c \<longleftrightarrow> c = b \<or> free_bit V c"
proof -
  let ?k = "unat (c mod 32)"
  have k: "?k < 32" by (rule mod32_less)
  have u: "unat (c mod 32) = unat (b mod 32) \<longleftrightarrow> c mod 32 = b mod 32" by (simp add: word_unat_eq_iff)
  show "free_bit (mark_used V b) c \<longleftrightarrow> c \<noteq> b \<and> free_bit V c"
  proof (cases "b div 32 = c div 32")
    case True
    have a: "bm_addr b = bm_addr c" using True by (simp add: bm_addr_def)
    show ?thesis using True div_mod_32 [OF True] k u
      by (auto simp: free_bit_def mark_used_def get4_put4_same bit_test a bit_simps simp del: push_bit_of_1)
  qed (auto simp: free_bit_def mark_used_def get4_put4_bm [OF assms])
  show "free_bit (mark_free V b) c \<longleftrightarrow> c = b \<or> free_bit V c"
  proof (cases "b div 32 = c div 32")
    case True
    have a: "bm_addr b = bm_addr c" using True by (simp add: bm_addr_def)
    show ?thesis using True div_mod_32 [OF True] k u
      by (auto simp: free_bit_def mark_free_def get4_put4_same bit_test a bit_simps simp del: push_bit_of_1)
  qed (auto simp: free_bit_def mark_free_def get4_put4_bm [OF assms])
qed

lemma put4_off_block:
  assumes "unat a mod 4 = 0" "blkof x \<noteq> blkof a" shows "put4 a w V x = V x"
proof -
  have "x \<noteq> a + of_nat k" if "k < 4" for k using blkof_aligned [OF assms(1) that] assms(2) by auto
  from this [of 0] this [of 1] this [of 2] this [of 3] show ?thesis by (simp add: put4_def)
qed

lemma bm_block_not_1: "unat b < 0xC0000 \<Longrightarrow> 2 + b div 0x8000 \<noteq> (1 :: u32)"
proof
  assume "unat b < 0xC0000" "2 + b div 0x8000 = 1"
  hence "unat (2 + b div 0x8000) = 1" by (metis unat_1)
  moreover have "unat (2 + b div 0x8000) = 2 + unat b div 0x8000"
    using \<open>unat b < 0xC0000\<close> by (simp add: unat_word_ariths unat_div_distrib less_mult_imp_div_less)
  ultimately show False by simp
qed

lemma nblocks_mark:
  assumes "unat b < 0xC0000"
  shows "nblocks (mark_used V b) = nblocks V" "nblocks (mark_free V b) = nblocks V"
proof -
  have n: "nblocks (put4 (bm_addr b) w V) = nblocks V" for w
    unfolding nblocks_def
    by (rule get4_block, simp, rule put4_off_block [OF bm_addr_facts(1) [OF assms]])
      (use bm_addr_facts(2) [OF assms] bm_block_not_1 [OF assms] in \<open>simp add: blkof_def\<close>)
  show "nblocks (mark_used V b) = nblocks V" "nblocks (mark_free V b) = nblocks V"
    by (simp_all add: mark_used_def mark_free_def n)
qed

lemma disk_wf_mark:
  assumes wf: "disk_wf V" and b: "b < nblocks V"
  shows "disk_wf (mark_used V b)" "\<not> reserved V b \<Longrightarrow> disk_wf (mark_free V b)"
    and "used_block (mark_used V b) c \<longleftrightarrow> used_block V c \<or> c = b"
    and "used_block (mark_free V b) c \<longleftrightarrow> used_block V c \<and> c \<noteq> b"
proof -
  have u: "unat c < 0xC0000" if "c < nblocks V" for c
    using wf that by (simp add: disk_wf_def word_less_nat_alt word_le_nat_alt)
  note n = nblocks_mark [OF u [OF b], of V] and f = free_bit_mark [OF u [OF b]]
  have z: "0 < nblocks V" "1 < nblocks V" using wf by (auto simp: disk_wf_def word_less_nat_alt)
  show "used_block (mark_used V b) c \<longleftrightarrow> used_block V c \<or> c = b"
    using b u [of c] by (auto simp: used_block_def n f)
  show "used_block (mark_free V b) c \<longleftrightarrow> used_block V c \<and> c \<noteq> b"
    using b u [of c] by (auto simp: used_block_def n f)
  show "disk_wf (mark_used V b)"
    using wf z u f by (auto simp: disk_wf_def n)
  assume m: "\<not> reserved V b"
  have "2 + c div 0x8000 \<noteq> b" if "c < nblocks V" for c
    using m that by (auto simp: reserved_def meta_block_def)
  moreover have "b \<noteq> 1" "b \<noteq> 0" using m by (auto simp: reserved_def)
  ultimately show "disk_wf (mark_free V b)"
    using wf z u f unfolding disk_wf_def n by auto
qed

end
