(* ===== verification/Fs.thy ===== *)
theory Fs
  imports BlockCache "HOL-Library.Signed_Division"
begin

text \<open>
  The file system (\<^verbatim>\<open>fs/fs.c\<close>).  A \<^verbatim>\<open>struct File\<close> is the address of its 256 bytes in the block
  cache; functions that return an error or a pointer return a sum.  A path is the bytes of a C
  string without its NUL.
\<close>

section \<open>On-disk structures\<close>

definition FS_MAGIC :: u32 where [simp]: "FS_MAGIC = 0x4A0530AE"
definition MAXNAMELEN :: nat where [simp]: "MAXNAMELEN = 128"
definition MAXPATHLEN :: nat where [simp]: "MAXPATHLEN = 1024"
definition NDIRECT :: u32 where [simp]: "NDIRECT = 10"
definition NINDIRECT :: u32 where [simp]: "NINDIRECT = 1024"
definition MAXFILESIZE :: u32 where [simp]: "MAXFILESIZE = (NDIRECT + NINDIRECT) * BLKSIZE"
definition FTYPE_REG :: u32 where [simp]: "FTYPE_REG = 0"
definition FTYPE_DIR :: u32 where [simp]: "FTYPE_DIR = 1"
definition sizeof_File :: u32 where [simp]: "sizeof_File = 256"
definition BLKFILES :: u32 where [simp]: "BLKFILES = 16"

text \<open>Addresses of the fields of \<^verbatim>\<open>struct File\<close> and \<^verbatim>\<open>struct Super\<close>.\<close>

definition f_size :: "u32 \<Rightarrow> u32" where "f_size f = f + 128"
definition f_type :: "u32 \<Rightarrow> u32" where "f_type f = f + 132"
definition f_direct :: "u32 \<Rightarrow> u32 \<Rightarrow> u32" where "f_direct f i = f + 136 + 4 * i"
definition f_indirect :: "u32 \<Rightarrow> u32" where "f_indirect f = f + 176"
definition SUPER :: u32 where [simp]: "SUPER = 0x10001000"
definition s_root :: u32 where [simp]: "s_root = SUPER + 8"

text \<open>Division of signed 32-bit numbers as C has it.\<close>

definition sdiv32 :: "u32 \<Rightarrow> u32 \<Rightarrow> u32" where
  "sdiv32 a b = word_of_int (sint a sdiv sint b)"

definition smod32 :: "u32 \<Rightarrow> u32 \<Rightarrow> u32" where
  "smod32 a b = word_of_int (sint a smod sint b)"

section \<open>Super block and bitmap\<close>

definition check_super :: "unit fsm" where
  "check_super s =
    kbind (ld32 SUPER s) (\<lambda>magic s.
      if magic \<noteq> FS_MAGIC then Panic ''bad file system magic number''
      else kbind (super_nblocks s) (\<lambda>n s.
        if n > DISKSIZE div BLKSIZE then Panic ''file system is too large'' else Done () s))"

definition block_is_free :: "u32 \<Rightarrow> bool fsm" where
  "block_is_free = block_is_free_via touch"

definition free_block :: "u32 \<Rightarrow> unit fsm" where
  "free_block blockno s =
    (if blockno = 0 then Panic ''attempt to free zero block''
     else let a = BITMAP + 4 * (blockno div 32)
       in kbind (ld32 a s) (\<lambda>w s. st32 a (w OR push_bit (unat (blockno mod 32)) 1) s))"

fun alloc_scan :: "nat list \<Rightarrow> u32 fsm" where
  "alloc_scan [] s = Done (- E_NO_DISK) s"
| "alloc_scan (i # rest) s =
     kbind (block_is_free (of_nat i) s) (\<lambda>free s.
       if free
       then let a = BITMAP + 4 * (of_nat i div 32)
         in kbind (ld32 a s) (\<lambda>w s.
            kbind (st32 a (w AND NOT (push_bit (i mod 32) 1)) s) (\<lambda>_ s.
            kbind (flush_block BITMAP s) (\<lambda>_ s. Done (of_nat i) s)))
       else alloc_scan rest s)"

definition alloc_block :: "u32 fsm" where
  "alloc_block s = kbind (super_nblocks s) (\<lambda>n s. alloc_scan [0..<unat n] s)"

fun check_bitmap_blocks :: "nat list \<Rightarrow> unit fsm" where
  "check_bitmap_blocks [] s = Done () s"
| "check_bitmap_blocks (i # rest) s =
     kbind (block_is_free (2 + of_nat i) s) (\<lambda>free s.
     kbind (kassert (\<not> free) ''assertion failed: !block_is_free(2 + i)'' s) (\<lambda>_ s.
       check_bitmap_blocks rest s))"

text \<open>The bitmap blocks are those whose first bit stands for an existing block.\<close>

definition check_bitmap :: "unit fsm" where
  "check_bitmap s =
    kbind (super_nblocks s) (\<lambda>n s.
    kbind (check_bitmap_blocks [0..<(unat n + 0x7FFF) div 0x8000] s) (\<lambda>_ s.
    kbind (block_is_free 0 s) (\<lambda>free s.
    kbind (kassert (\<not> free) ''assertion failed: !block_is_free(0)'' s) (\<lambda>_ s.
    kbind (block_is_free 1 s) (\<lambda>free s. kassert (\<not> free) ''assertion failed: !block_is_free(1)'' s)))))"

definition fs_init :: "(nat \<Rightarrow> u8) \<Rightarrow> unit fsm" where
  "fs_init polls s =
    kbind (ide_set_disk (if ide_probe_disk1 polls then 1 else 0) s) (\<lambda>_ s.
    kbind (bc_init s) (\<lambda>_ s.
    kbind (diskaddr 1 s) (\<lambda>_ s.
    let s = s\<lparr>super_set := True\<rparr>
    in kbind (check_super s) (\<lambda>_ s.
       kbind (diskaddr 2 s) (\<lambda>_ s. check_bitmap (s\<lparr>bitmap_set := True\<rparr>))))))"

section \<open>Blocks of a file\<close>

text \<open>The value is an error or the address of the slot.\<close>

definition file_block_walk :: "u32 \<Rightarrow> u32 \<Rightarrow> bool \<Rightarrow> (u32 + u32) fsm" where
  "file_block_walk f filebno alloc s =
    (if filebno \<ge> NDIRECT + NINDIRECT then Done (Inl (- E_INVAL)) s
     else if filebno < NDIRECT then Done (Inr (f_direct f filebno)) s
     else
       let slot = (\<lambda>s. kbind (ld32 (f_indirect f) s) (\<lambda>ind s.
             kbind (diskaddr ind s) (\<lambda>a s. Done (Inr (a + 4 * (filebno - NDIRECT))) s)))
       in kbind (ld32 (f_indirect f) s) (\<lambda>ind s.
          if ind \<noteq> 0 then slot s
          else if \<not> alloc then Done (Inl (- E_NOT_FOUND)) s
          else kbind (alloc_block s) (\<lambda>indirect_block s.
            if sint indirect_block < 0 then Done (Inl (- E_NO_DISK)) s
            else kbind (st32 (f_indirect f) indirect_block s) (\<lambda>_ s.
                 kbind (diskaddr indirect_block s) (\<lambda>a s.
                 let (error, s) = sys_page_alloc_at a s
                 in if error \<noteq> 0 then Panic ''[file_block_walk] sys_page_alloc failed''
                    else kbind (st_bytes (replicate (unat BLKSIZE) 0) a s) (\<lambda>_ s.
                         kbind (flush_block a s) (\<lambda>_ s. slot s)))))))"

text \<open>The test for a full disk compares an unsigned word with zero.\<close>

definition file_get_block :: "u32 \<Rightarrow> u32 \<Rightarrow> (u32 + u32) fsm" where
  "file_get_block f filebno s =
    kbind (file_block_walk f filebno True s) (\<lambda>r s. case r of
      Inl errcode \<Rightarrow> Done (Inl errcode) s
    | Inr ref \<Rightarrow>
        kbind (ld32 ref s) (\<lambda>b s.
        kbind (if b = 0 then kbind (alloc_block s) (\<lambda>b s. st32 ref b s) else Done () s) (\<lambda>_ s.
        kbind (ld32 ref s) (\<lambda>b s.
          if b < 0 then Done (Inl (- E_NO_DISK)) s
          else kbind (diskaddr b s) (\<lambda>a s. Done (Inr a) s)))))"

section \<open>Directories\<close>

fun dir_scan_block :: "u8 list \<Rightarrow> nat list \<Rightarrow> u32 \<Rightarrow> u32 option fsm" where
  "dir_scan_block name [] blk s = Done None s"
| "dir_scan_block name (j # rest) blk s =
     kbind (str_eq (blk + of_nat j * sizeof_File) name s) (\<lambda>eq s.
       if eq then Done (Some (blk + of_nat j * sizeof_File)) s else dir_scan_block name rest blk s)"

fun dir_scan :: "u8 list \<Rightarrow> u32 \<Rightarrow> nat list \<Rightarrow> (u32 + u32) fsm" where
  "dir_scan name dir [] s = Done (Inl (- E_NOT_FOUND)) s"
| "dir_scan name dir (i # rest) s =
     kbind (file_get_block dir (of_nat i) s) (\<lambda>r s. case r of
       Inl e \<Rightarrow> Done (Inl e) s
     | Inr blk \<Rightarrow> kbind (dir_scan_block name [0..<unat BLKFILES] blk s) (\<lambda>f s. case f of
           Some f \<Rightarrow> Done (Inr f) s
         | None \<Rightarrow> dir_scan name dir rest s))"

text \<open>The size is a signed number; its quotient becomes an unsigned number of blocks.\<close>

definition dir_nblock :: "u32 \<Rightarrow> u32 fsm" where
  "dir_nblock dir s =
    kbind (ld32 (f_size dir) s) (\<lambda>sz s.
    kbind (kassert (smod32 sz BLKSIZE = 0) ''assertion failed: (dir->f_size % BLKSIZE) == 0'' s)
      (\<lambda>_ s. Done (sdiv32 sz BLKSIZE) s))"

definition dir_lookup :: "u32 \<Rightarrow> u8 list \<Rightarrow> (u32 + u32) fsm" where
  "dir_lookup dir name s =
    kbind (dir_nblock dir s) (\<lambda>nblock s. dir_scan name dir [0..<unat nblock] s)"

fun free_slot :: "nat list \<Rightarrow> u32 \<Rightarrow> u32 option fsm" where
  "free_slot [] blk s = Done None s"
| "free_slot (j # rest) blk s =
     kbind (ld8 (blk + of_nat j * sizeof_File) s) (\<lambda>c s.
       if c = 0 then Done (Some (blk + of_nat j * sizeof_File)) s else free_slot rest blk s)"

fun dir_free_scan :: "u32 \<Rightarrow> nat list \<Rightarrow> (u32 option + u32) fsm" where
  "dir_free_scan dir [] s = Done (Inl None) s"
| "dir_free_scan dir (i # rest) s =
     kbind (file_get_block dir (of_nat i) s) (\<lambda>r s. case r of
       Inl e \<Rightarrow> Done (Inl (Some e)) s
     | Inr blk \<Rightarrow> kbind (free_slot [0..<unat BLKFILES] blk s) (\<lambda>f s. case f of
           Some f \<Rightarrow> Done (Inr f) s
         | None \<Rightarrow> dir_free_scan dir rest s))"

definition dir_alloc_file :: "u32 \<Rightarrow> (u32 + u32) fsm" where
  "dir_alloc_file dir s =
    kbind (dir_nblock dir s) (\<lambda>nblock s.
    kbind (dir_free_scan dir [0..<unat nblock] s) (\<lambda>r s. case r of
        Inr f \<Rightarrow> Done (Inr f) s
      | Inl (Some e) \<Rightarrow> Done (Inl e) s
      | Inl None \<Rightarrow>
          kbind (ld32 (f_size dir) s) (\<lambda>sz s.
          kbind (st32 (f_size dir) (sz + BLKSIZE) s) (\<lambda>_ s. file_get_block dir nblock s))))"

section \<open>Paths\<close>

definition SLASH :: u8 where [simp]: "SLASH = 0x2F"

definition skip_slash :: "u8 list \<Rightarrow> u8 list" where
  "skip_slash p = dropWhile (\<lambda>c. c = SLASH) p"

text \<open>The error code, \<^verbatim>\<open>*pdir\<close>, \<^verbatim>\<open>*pf\<close> and, if it was copied, \<^verbatim>\<open>lastelem\<close>; 0 is NULL.\<close>

type_synonym walk_result = "u32 \<times> u32 \<times> u32 \<times> u8 list option"

function walk_elems :: "u8 list \<Rightarrow> u32 \<Rightarrow> u32 \<Rightarrow> walk_result fsm" where
  "walk_elems path dir f s =
    (if path = [] then Done (0, dir, f, None) s
     else
       let name = takeWhile (\<lambda>c. c \<noteq> SLASH) path;
           path' = skip_slash (dropWhile (\<lambda>c. c \<noteq> SLASH) path)
       in if length name \<ge> MAXNAMELEN then Done (- E_BAD_PATH, 0, 0, None) s
          else kbind (ld32 (f_type f) s) (\<lambda>type s.
            if type \<noteq> FTYPE_DIR then Done (- E_NOT_FOUND, 0, 0, None) s
            else kbind (dir_lookup f name s) (\<lambda>r s. case r of
                Inl r \<Rightarrow> if r = - E_NOT_FOUND \<and> path' = []
                         then Done (r, f, 0, Some name) s else Done (r, 0, 0, None) s
              | Inr f' \<Rightarrow> walk_elems path' f f' s)))"
  by pat_completeness auto

lemma skip_slash_length: "length (skip_slash p) \<le> length p"
  by (simp add: skip_slash_def length_dropWhile_le)

lemma next_elem_shorter:
  assumes "path \<noteq> []"
  shows "length (skip_slash (dropWhile (\<lambda>c. c \<noteq> SLASH) path)) < length path"
proof (cases "hd path = SLASH")
  case True
  then obtain cs where p: "path = SLASH # cs" using assms by (cases path) auto
  show ?thesis using skip_slash_length [of cs] by (simp add: p) (simp add: skip_slash_def)
next
  case False
  then obtain c cs where p: "path = c # cs" "c \<noteq> SLASH" using assms by (cases path) auto
  have "length (dropWhile (\<lambda>c. c \<noteq> SLASH) path) \<le> length cs"
    using p(2) by (simp add: p(1) length_dropWhile_le)
  thus ?thesis using skip_slash_length [of "dropWhile (\<lambda>c. c \<noteq> SLASH) path"] by (simp add: p(1))
qed

termination walk_elems
  by (relation "measure (\<lambda>(path, dir, f, s). length path)") (use next_elem_shorter in auto)

declare walk_elems.simps [simp del]

definition walk_path :: "u8 list \<Rightarrow> walk_result fsm" where
  "walk_path path s = walk_elems (skip_slash path) 0 s_root s"

section \<open>Files\<close>

text \<open>Memory of the server: the request page or the block cache.\<close>

definition FSREQ :: u32 where [simp]: "FSREQ = 0x0FFFF000"

definition srv_ld8 :: "u32 \<Rightarrow> u8 fsm" where
  "srv_ld8 a s = (if a - FSREQ < PGSIZE then Done (reqpage s a) s else ld8 a s)"

definition srv_st8 :: "u32 \<Rightarrow> u8 \<Rightarrow> unit fsm" where
  "srv_st8 a b s = (if a - FSREQ < PGSIZE then Done () (s\<lparr>reqpage := (reqpage s)(a := b)\<rparr>) else st8 a b s)"

fun srv_ld :: "nat \<Rightarrow> u32 \<Rightarrow> u8 list fsm" where
  "srv_ld 0 a s = Done [] s"
| "srv_ld (Suc n) a s = kbind (srv_ld8 a s) (\<lambda>b s. kbind (srv_ld n (a + 1) s) (\<lambda>bs s. Done (b # bs) s))"

fun srv_st :: "u8 list \<Rightarrow> u32 \<Rightarrow> unit fsm" where
  "srv_st [] a s = Done () s"
| "srv_st (b # bs) a s = kbind (srv_st8 a b s) (\<lambda>_ s. srv_st bs (a + 1) s)"

text \<open>\<^verbatim>\<open>memmove\<close>, which reads as if before it writes.\<close>

definition srv_memmove :: "u32 \<Rightarrow> u32 \<Rightarrow> u32 \<Rightarrow> unit fsm" where
  "srv_memmove dst src n s = kbind (srv_ld (unat n) src s) (\<lambda>bs s. srv_st bs dst s)"

fun flush_blocks :: "nat list \<Rightarrow> u32 \<Rightarrow> unit fsm" where
  "flush_blocks [] f s = Done () s"
| "flush_blocks (i # rest) f s =
     kbind (file_block_walk f (of_nat i) False s) (\<lambda>r s.
     kbind (case r of
         Inl e \<Rightarrow> Done () s
       | Inr pdiskbno \<Rightarrow> kbind (ld32 pdiskbno s) (\<lambda>b s.
           if b = 0 then Done () s else kbind (diskaddr b s) (\<lambda>a s. flush_block a s))) (\<lambda>_ s.
     flush_blocks rest f s))"

definition file_nblocks :: "u32 \<Rightarrow> u32" where
  "file_nblocks sz = sdiv32 (sz + BLKSIZE - 1) BLKSIZE"

text \<open>The size is not changed by the loop; its bound is a signed number.\<close>

definition file_flush :: "u32 \<Rightarrow> unit fsm" where
  "file_flush f s =
    kbind (ld32 (f_size f) s) (\<lambda>sz s.
    kbind (flush_blocks [0..<nat (sint (file_nblocks sz))] f s) (\<lambda>_ s.
    kbind (flush_block f s) (\<lambda>_ s.
    kbind (ld32 (f_indirect f) s) (\<lambda>ind s.
      if ind \<noteq> 0 then kbind (diskaddr ind s) (\<lambda>a s. flush_block a s) else Done () s))))"

definition file_free_block :: "u32 \<Rightarrow> u32 \<Rightarrow> u32 fsm" where
  "file_free_block f filebno s =
    kbind (file_block_walk f filebno False s) (\<lambda>r s. case r of
      Inl r \<Rightarrow> Done r s
    | Inr ptr \<Rightarrow> kbind (ld32 ptr s) (\<lambda>b s.
        if b \<noteq> 0 then kbind (free_block b s) (\<lambda>_ s. kbind (st32 ptr 0 s) (\<lambda>_ s. Done 0 s))
        else Done 0 s))"

fun truncate_loop :: "nat list \<Rightarrow> u32 \<Rightarrow> unit fsm" where
  "truncate_loop [] f s = Done () s"
| "truncate_loop (bno # rest) f s =
     kbind (file_free_block f (of_nat bno) s) (\<lambda>_ s. truncate_loop rest f s)"

definition file_truncate_blocks :: "u32 \<Rightarrow> u32 \<Rightarrow> unit fsm" where
  "file_truncate_blocks f newsize s =
    kbind (ld32 (f_size f) s) (\<lambda>sz s.
      let old_nblocks = file_nblocks sz; new_nblocks = file_nblocks newsize
      in kbind (truncate_loop [unat new_nblocks..<unat old_nblocks] f s) (\<lambda>_ s.
         kbind (ld32 (f_indirect f) s) (\<lambda>ind s.
           if new_nblocks \<le> NDIRECT \<and> ind \<noteq> 0
           then kbind (free_block ind s) (\<lambda>_ s. st32 (f_indirect f) 0 s) else Done () s)))"

definition file_set_size :: "u32 \<Rightarrow> u32 \<Rightarrow> u32 fsm" where
  "file_set_size f newsize s =
    kbind (ld32 (f_size f) s) (\<lambda>sz s.
    kbind (if sint sz > sint newsize then file_truncate_blocks f newsize s else Done () s) (\<lambda>_ s.
    kbind (st32 (f_size f) newsize s) (\<lambda>_ s.
    kbind (flush_block f s) (\<lambda>_ s. Done 0 s))))"

definition file_create :: "u8 list \<Rightarrow> (u32 + u32) fsm" where
  "file_create path s =
    kbind (walk_path path s) (\<lambda>w s. case w of (r, dir, f, name) \<Rightarrow>
      if r = 0 then Done (Inl (- E_FILE_EXISTS)) s
      else if r \<noteq> - E_NOT_FOUND \<or> dir = 0 then Done (Inl r) s
      else kbind (dir_alloc_file dir s) (\<lambda>a s. case a of
          Inl r \<Rightarrow> Done (Inl r) s
        | Inr f \<Rightarrow> kbind (st_bytes (the name @ [0]) f s) (\<lambda>_ s.
            kbind (file_flush dir s) (\<lambda>_ s. Done (Inr f) s))))"

definition file_open :: "u8 list \<Rightarrow> (u32 + u32) fsm" where
  "file_open path s = kbind (walk_path path s) (\<lambda>w s. case w of (r, dir, f, name) \<Rightarrow>
     if sint r < 0 then Done (Inl r) s else Done (Inr f) s)"

text \<open>The loops of \<^verbatim>\<open>file_read\<close> and \<^verbatim>\<open>file_write\<close>: \<open>step\<close> copies \<open>n\<close> bytes between
  the address in the block and the buffer.  Every turn advances the position, so \<open>fuel\<close> larger
  than the count is enough.\<close>

fun rw_loop :: "(u32 \<Rightarrow> u32 \<Rightarrow> u32 \<Rightarrow> unit fsm) \<Rightarrow> nat \<Rightarrow> u32 \<Rightarrow> u32 \<Rightarrow> u32 \<Rightarrow> u32 \<Rightarrow> u32 option fsm" where
  "rw_loop step 0 f buf fin pos s = NoReturn Spinning s"
| "rw_loop step (Suc fuel) f buf fin pos s =
     (if pos < fin
      then kbind (file_get_block f (sdiv32 pos BLKSIZE) s) (\<lambda>r s. case r of
          Inl r \<Rightarrow> Done (Some r) s
        | Inr blk \<Rightarrow>
            let bn = min (BLKSIZE - smod32 pos BLKSIZE) (fin - pos)
            in kbind (step (blk + smod32 pos BLKSIZE) buf bn s) (\<lambda>_ s.
               rw_loop step fuel f (buf + bn) fin (pos + bn) s))
      else Done None s)"

definition file_read :: "u32 \<Rightarrow> u32 \<Rightarrow> u32 \<Rightarrow> u32 \<Rightarrow> u32 fsm" where
  "file_read f buf count offset s =
    kbind (ld32 (f_size f) s) (\<lambda>sz s.
      if sint offset \<ge> sint sz then Done 0 s
      else let count = min count (sz - offset)
        in kbind (rw_loop (\<lambda>blk buf n. srv_memmove buf blk n) (Suc (unat count)) f buf (offset + count) offset s)
             (\<lambda>r s. Done (case r of None \<Rightarrow> count | Some r \<Rightarrow> r) s))"

definition file_write :: "u32 \<Rightarrow> u32 \<Rightarrow> u32 \<Rightarrow> u32 \<Rightarrow> u32 fsm" where
  "file_write f buf count offset s =
    kbind (ld32 (f_size f) s) (\<lambda>sz s.
    kbind (if offset + count > sz then file_set_size f (offset + count) s else Done 0 s) (\<lambda>r s.
      if sint r < 0 then Done r s
      else kbind (rw_loop (\<lambda>blk buf n. srv_memmove blk buf n) (Suc (unat count)) f buf (offset + count) offset s)
             (\<lambda>r s. Done (case r of None \<Rightarrow> count | Some r \<Rightarrow> r) s)))"

fun sync_blocks :: "nat list \<Rightarrow> unit fsm" where
  "sync_blocks [] s = Done () s"
| "sync_blocks (i # rest) s =
     kbind (diskaddr (of_nat i) s) (\<lambda>a s. kbind (flush_block a s) (\<lambda>_ s. sync_blocks rest s))"

definition fs_sync :: "unit fsm" where
  "fs_sync s = kbind (super_nblocks s) (\<lambda>n s. sync_blocks [1..<unat n] s)"

end
