(* ===== verification/FsBitmap.thy ===== *)
theory FsBitmap
  imports Fs
begin

text \<open>
  The free-block bitmap of the file system, and where the block pointers of a file are stored: which
  slots a \<^verbatim>\<open>struct File\<close> has, that no two slots coincide, and the invariant \<open>fs_inv\<close> of a set of files.
  The statements are about the memory the server sees, \<open>view s\<close>, in which the block cache and its
  faults do not show.
\<close>

section \<open>The bitmap\<close>

lemma step_ready_eq:
  "cache_ready s \<Longrightarrow> evolves s t V \<Longrightarrow> view s = V \<Longrightarrow> cache_ready t"
  using step_ready_same by blast

lemma block_is_free_step:
  assumes r: "cache_ready s"
  shows "\<exists>t. block_is_free b s = Done (b < nblocks (view s) \<and> free_bit (view s) b) t \<and> evolves s t (view s)"
proof -
  have sn: "super_nblocks_via touch s = Done (nblocks (view s)) s"
    using cache_readyD(3,4) [OF r] by (simp add: super_nblocks_via_def touch_def blkof_def)
  show ?thesis
  proof (cases "b < nblocks (view s)")
    case False
    thus ?thesis using cache_readyD(1) [OF r] sn
      by (simp add: block_is_free_def block_is_free_via_def not_less)
  next
    case True
    have u: "unat b < 0xC0000" by (rule cache_readyD(7) [OF r True])
    have "used_block (view s) (blkof (bm_addr b))"
      using cache_readyD(8) [OF r True] bm_addr_facts(2) [OF u] by simp
    from touch_step [OF r this] obtain t where t: "touch (bm_addr b) s = Done () t" "evolves s t (view s)"
      "bmapped t (blkof (bm_addr b))" by blast
    have "get4 (bm_addr b) (bcmem t) = get4 (bm_addr b) (view s)"
      using get4_bcmem [OF bm_addr_facts(1) [OF u] t(3)] step_view [OF t(2)] by simp
    thus ?thesis using cache_readyD(1) [OF r] sn True t
      unfolding block_is_free_def block_is_free_via_def Let_def bm_addr_def [symmetric]
      by (simp add: not_le [symmetric] free_bit_def del: push_bit_of_1)
  qed
qed

lemma bm_word_step:
  assumes r: "cache_ready s" and b: "b < nblocks (view s)"
  shows "\<exists>t. ld32 (bm_addr b) s = Done (get4 (bm_addr b) (view s)) t \<and> evolves s t (view s)"
    and "\<exists>t. st32 (bm_addr b) w s = Done () t \<and> evolves s t (put4 (bm_addr b) w (view s))"
proof -
  have u: "unat b < 0xC0000" by (rule cache_readyD(7) [OF r b])
  have ub: "used_block (view s) (blkof (bm_addr b))"
    using cache_readyD(8) [OF r b] bm_addr_facts(2) [OF u] by simp
  show "\<exists>t. ld32 (bm_addr b) s = Done (get4 (bm_addr b) (view s)) t \<and> evolves s t (view s)"
    by (rule ld32_step [OF r ub bm_addr_facts(1) [OF u]])
  show "\<exists>t. st32 (bm_addr b) w s = Done () t \<and> evolves s t (put4 (bm_addr b) w (view s))"
    by (rule st32_step [OF r ub bm_addr_facts(1) [OF u]])
qed

lemma flush_ready:
  assumes "cache_ready s" "blkof a < nblocks (view s)"
  shows "\<exists>t. flush_block a s = Done () t \<and> evolves s t (view s)"
  using flush_block_step [of s a] cache_readyD(6) [OF assms] by blast

lemma free_block_step:
  assumes r: "cache_ready s" and b: "b < nblocks (view s)" "b \<noteq> 0"
  shows "\<exists>t. free_block b s = Done () t \<and> evolves s t (mark_free (view s) b)"
proof -
  obtain t where t: "ld32 (bm_addr b) s = Done (get4 (bm_addr b) (view s)) t" "evolves s t (view s)"
    using bm_word_step(1) [OF r b(1)] by blast
  have rt: "cache_ready t" by (rule step_ready_same [OF r t(2)])
  have v: "view t = view s" by (rule step_view [OF t(2)])
  obtain u where u: "st32 (bm_addr b) (get4 (bm_addr b) (view s) OR push_bit (unat (b mod 32)) 1) t = Done () u"
    "evolves t u (mark_free (view s) b)"
    using bm_word_step(2) [OF rt, of b] b(1) v by (auto simp: mark_free_def)
  show ?thesis using t(1) u(1) b(2) step_trans [OF t(2) u(2)]
    unfolding free_block_def Let_def bm_addr_def [symmetric] by simp
qed

lemma alloc_scan_step:
  assumes "cache_ready s" "list_all (\<lambda>i. i < unat (nblocks (view s))) xs"
  shows "(\<exists>t i xs1 xs2. xs = xs1 @ i # xs2 \<and> alloc_scan xs s = Done (of_nat i) t \<and> free_bit (view s) (of_nat i) \<and>
      list_all (\<lambda>j. \<not> free_bit (view s) (of_nat j)) xs1 \<and> evolves s t (mark_used (view s) (of_nat i))) \<or>
    (\<exists>t. alloc_scan xs s = Done (- E_NO_DISK) t \<and> evolves s t (view s) \<and>
      list_all (\<lambda>i. \<not> free_bit (view s) (of_nat i)) xs)"
  using assms
proof (induction "xs" arbitrary: s)
  case Nil thus ?case by simp
next
  case (Cons i "xs")
  let ?b = "of_nat i :: u32" and ?V = "view s"
  have i: "i < unat (nblocks ?V)" using Cons.prems(2) by simp
  hence ui: "unat ?b = i" using word_u32_max [of "nblocks ?V"] by (simp add: unat_of_nat)
  have b: "?b < nblocks ?V" using i ui by (simp add: word_less_nat_alt)
  obtain t where t: "block_is_free ?b s = Done (free_bit ?V ?b) t" "evolves s t ?V"
    using block_is_free_step [OF Cons.prems(1), of ?b] b by auto
  have rt: "cache_ready t" by (rule step_ready_same [OF Cons.prems(1) t(2)])
  have vt: "view t = ?V" by (rule step_view [OF t(2)])
  show ?case
  proof (cases "free_bit ?V ?b")
    case False
    from Cons.IH [OF rt] Cons.prems(2) vt
    consider t' j xs1 xs2 where "xs = xs1 @ j # xs2" "alloc_scan xs t = Done (of_nat j) t'"
        "free_bit ?V (of_nat j)" "list_all (\<lambda>j. \<not> free_bit ?V (of_nat j)) xs1"
        "evolves t t' (mark_used ?V (of_nat j))"
      | t' where "alloc_scan xs t = Done (- E_NO_DISK) t'" "evolves t t' ?V"
        "list_all (\<lambda>i. \<not> free_bit ?V (of_nat i)) xs" by auto
    thus ?thesis
    proof cases
      case 1
      thus ?thesis using t(1) False step_trans [OF t(2) 1(5)]
        by (intro disjI1 exI [of _ t'] exI [of _ j] exI [of _ "i # xs1"] exI [of _ xs2]) simp
    next
      case 2
      thus ?thesis using t(1) False step_trans [OF t(2) 2(2)] by simp
    qed
  next
    case True
    obtain u where u: "ld32 (bm_addr ?b) t = Done (get4 (bm_addr ?b) ?V) u" "evolves t u ?V"
      using bm_word_step(1) [OF rt] b vt by auto
    have ru: "cache_ready u" using step_ready_eq [OF rt u(2) vt] .
    have m: "unat (?b mod 32) = i mod 32" by (simp add: unat_mod_distrib ui)
    obtain w where w: "st32 (bm_addr ?b) (get4 (bm_addr ?b) ?V AND NOT (push_bit (i mod 32) 1)) u = Done () w"
      "evolves u w (mark_used ?V ?b)"
      using bm_word_step(2) [OF ru, of ?b] b step_view [OF u(2)] by (auto simp: mark_used_def m)
    have wf: "disk_wf ?V" using Cons.prems(1) by (simp add: cache_ready_def)
    have ub: "unat ?b < 0xC0000" by (rule cache_readyD(7) [OF Cons.prems(1) b])
    have n: "nblocks (mark_used ?V ?b) = nblocks ?V" by (rule nblocks_mark(1) [OF ub])
    have rw: "cache_ready w"
      by (rule step_ready [OF ru w(2) disk_wf_mark(1) [OF wf b]]) (simp add: n step_view [OF u(2)])
    have two: "blkof BITMAP < nblocks (view w)"
      using wf step_view [OF w(2)] n by (simp add: disk_wf_def blkof_def)
    obtain x where x: "flush_block BITMAP w = Done () x" "evolves w x (mark_used ?V ?b)"
      using flush_ready [OF rw two] step_view [OF w(2)] by auto
    have st: "evolves s x (mark_used ?V ?b)"
      by (rule step_trans [OF step_trans [OF t(2) u(2)] step_trans [OF w(2) x(2)]])
    have "alloc_scan (i # xs) s = Done ?b x"
      using t(1) True u(1) w(1) x(1) unfolding alloc_scan.simps Let_def bm_addr_def [symmetric]
      by simp
    thus ?thesis using True st
      by (intro disjI1 exI [of _ x] exI [of _ i] exI [of _ "[]"] exI [of _ "xs"]) simp
  qed
qed

lemma upt_split: "[0..<n] = xs @ i # ys \<Longrightarrow> xs = [0..<i] \<and> i < n"
proof -
  assume h: "[0..<n] = xs @ i # ys"
  have l: "length xs < n" using arg_cong [OF h, of length] by simp
  have "[0..<n] ! length xs = i" using h by (simp add: nth_append)
  hence i: "i = length xs" using l by simp
  have "xs = take (length xs) [0..<n]" using h by simp
  thus ?thesis using i l by (simp add: take_upt)
qed

lemma alloc_block_step:
  assumes r: "cache_ready s"
  shows "(\<exists>t b. alloc_block s = Done b t \<and> b < nblocks (view s) \<and> free_bit (view s) b \<and>
      (\<forall>c < b. \<not> free_bit (view s) c) \<and> evolves s t (mark_used (view s) b) \<and> cache_ready t) \<or>
    (\<exists>t. alloc_block s = Done (- E_NO_DISK) t \<and> (\<forall>c < nblocks (view s). \<not> free_bit (view s) c) \<and>
      evolves s t (view s) \<and> cache_ready t)"
proof -
  let ?V = "view s" and ?n = "unat (nblocks (view s))"
  have wf: "disk_wf ?V" using r by (simp add: cache_ready_def)
  have un: "alloc_block s = alloc_scan [0..<?n] s" by (simp add: alloc_block_def super_nblocks_ready [OF r])
  have all: "list_all (\<lambda>i. i < ?n) [0..<?n]" by (simp add: list_all_iff)
  from alloc_scan_step [OF r all] show ?thesis
  proof (elim disjE exE conjE)
    fix t i xs1 xs2
    assume h: "[0..<?n] = xs1 @ i # xs2" "alloc_scan [0..<?n] s = Done (of_nat i) t" "free_bit ?V (of_nat i)"
      "list_all (\<lambda>j. \<not> free_bit ?V (of_nat j)) xs1" "evolves s t (mark_used ?V (of_nat i))"
    from upt_split [OF h(1)] have i: "xs1 = [0..<i]" "i < ?n" by auto
    have ui: "unat (of_nat i :: u32) = i" using i(2) word_u32_max [of "nblocks ?V"] by (simp add: unat_of_nat)
    have b: "of_nat i < nblocks ?V" using i(2) ui by (simp add: word_less_nat_alt)
    have ub: "unat (of_nat i :: u32) < 0xC0000" by (rule cache_readyD(7) [OF r b])
    have "\<not> free_bit ?V c" if "c < of_nat i" for c
    proof -
      have "unat c < i" using that ui by (simp add: word_less_nat_alt)
      moreover have "\<forall>j < i. \<not> free_bit ?V (of_nat j)" using h(4) by (simp add: i(1) list_all_iff)
      ultimately have "\<not> free_bit ?V (of_nat (unat c))" by blast
      thus ?thesis by simp
    qed
    moreover have "cache_ready t"
      by (rule step_ready [OF r h(5) disk_wf_mark(1) [OF wf b] nblocks_mark(1) [OF ub]])
    ultimately show ?thesis using un h(2,3,5) b by (intro disjI1 exI [of _ t] exI [of _ "of_nat i"]) simp
  next
    fix t assume h: "alloc_scan [0..<?n] s = Done (- E_NO_DISK) t" "evolves s t ?V"
      "list_all (\<lambda>i. \<not> free_bit ?V (of_nat i)) [0..<?n]"
    have "\<not> free_bit ?V c" if "c < nblocks ?V" for c
    proof -
      have "unat c < ?n" using that by (simp add: word_less_nat_alt)
      moreover have "\<forall>j < ?n. \<not> free_bit ?V (of_nat j)" using h(3) by (simp add: list_all_iff)
      ultimately have "\<not> free_bit ?V (of_nat (unat c))" by blast
      thus ?thesis by simp
    qed
    thus ?thesis using un h(1,2) step_ready_same [OF r h(2)] by (intro disjI2 exI [of _ t]) simp
  qed
qed

text \<open>C25: \<^verbatim>\<open>alloc_block\<close> returns the lowest free block and marks exactly that block as used, or
  reports a full disk when no block is free and changes nothing the server sees.\<close>

theorem alloc_block_lowest:
  assumes "cache_ready s"
  shows "(\<exists>t b. alloc_block s = Done b t \<and> b < nblocks (view s) \<and> free_bit (view s) b \<and>
      (\<forall>c < b. \<not> free_bit (view s) c) \<and> cache_ready t \<and> nblocks (view t) = nblocks (view s) \<and>
      (\<forall>c < nblocks (view s). free_bit (view t) c \<longleftrightarrow> c \<noteq> b \<and> free_bit (view s) c) \<and>
      (\<forall>a. \<not> meta_addr (view s) a \<longrightarrow> view t a = view s a)) \<or>
    (\<exists>t. alloc_block s = Done (- E_NO_DISK) t \<and> (\<forall>c < nblocks (view s). \<not> free_bit (view s) c) \<and>
      view t = view s \<and> cache_ready t)"
  using alloc_block_step [OF assms]
proof (elim disjE exE conjE)
  fix t b assume h: "alloc_block s = Done b t" "b < nblocks (view s)" "free_bit (view s) b"
    "\<forall>c < b. \<not> free_bit (view s) c" "evolves s t (mark_used (view s) b)" "cache_ready t"
  note u = cache_readyD(7) [OF assms]
  have v: "view t = mark_used (view s) b" by (rule step_view [OF h(5)])
  have "mark_used (view s) b a = view s a" if "\<not> meta_addr (view s) a" for a
  proof -
    have "blkof a \<noteq> blkof (bm_addr b)"
      using that h(2) bm_addr_facts(2) [OF u [OF h(2)]] by (auto simp: meta_addr_def meta_block_def)
    thus ?thesis using put4_off_block [OF bm_addr_facts(1) [OF u [OF h(2)]]] by (simp add: mark_used_def)
  qed
  thus ?thesis using h(1-4,6) nblocks_mark(1) [OF u [OF h(2)]] free_bit_mark(1) [OF u [OF h(2)] u]
    by (intro disjI1 exI [of _ t] exI [of _ b]) (simp add: v)
qed (auto simp: evolves_def)

section \<open>Words at aligned addresses\<close>

definition al :: "u32 \<Rightarrow> bool" where
  "al a \<longleftrightarrow> unat a mod 4 = 0"

lemma al_plus: "al a \<Longrightarrow> n mod 4 = 0 \<Longrightarrow> al (a + of_nat n)"
proof -
  assume h: "al a" "n mod 4 = 0"
  have "unat (a + of_nat n) = (unat a + n) mod 2 ^ 32"
    by (simp add: unat_word_ariths unat_of_nat mod_add_right_eq)
  moreover have "(unat a + n) mod 2 ^ 32 mod 4 = (unat a + n) mod 4" by (rule mod_mod_cancel) simp
  moreover have "(unat a + n) mod 4 = 0" using h by (metis add_cancel_left_left al_def mod_add_eq mod_0)
  ultimately show ?thesis by (simp add: al_def)
qed

lemma al_apart:
  assumes "al a" "al c" "a \<noteq> c" shows "4 \<le> a - c"
proof -
  obtain x y where x: "unat a = 4 * x" and y: "unat c = 4 * y"
    using assms(1,2) by (metis al_def dvdE mod_eq_0_iff_dvd)
  have ne: "x \<noteq> y" using assms(3) x y by (auto simp: word_unat_eq_iff)
  have b: "4 * y < 2 ^ 32" using word_u32_max [of c] y by simp
  hence y': "4 * y \<le> 2 ^ 32 - 4" by simp
  have "unat (a - c) = (if 4 * y \<le> 4 * x then 4 * x - 4 * y else 4 * x + 2 ^ 32 - 4 * y)"
    using unat_sub_if_size [of a c] by (simp add: x y word_size)
  hence "4 \<le> unat (a - c)" using ne y' by (auto split: if_splits)
  thus ?thesis by (simp add: word_le_nat_alt)
qed

lemma get4_put4_al: "al a \<Longrightarrow> al c \<Longrightarrow> get4 c (put4 a w V) = (if c = a then w else get4 c V)"
  using al_apart [of a c] al_apart [of c a] get4_put4_apart [of c a 0 w V] by (auto simp: get4_put4_same)

lemma of_nat_u32_eq: "i < 2 ^ 32 \<Longrightarrow> j < 2 ^ 32 \<Longrightarrow> of_nat i = (of_nat j :: u32) \<longleftrightarrow> i = j"
  by (simp add: word_unat_eq_iff unat_of_nat)

lemma blkof_off:
  assumes "unat b < 0xC0000" "j < 4096" shows "blkof (blkbase b + of_nat j) = b"
proof -
  have e: "blkbase b + of_nat j - DISKMAP = b * 0x1000 + of_nat j" by (simp add: blkbase_def)
  have "unat (blkbase b + of_nat j - DISKMAP) = 4096 * unat b + j"
    unfolding e using assms by (simp add: unat_word_ariths unat_of_nat)
  thus ?thesis using assms(2) by (simp add: word_unat_eq_iff unat_blkof)
qed

lemma blkbase_inj:
  assumes "unat b < 0xC0000" "unat c < 0xC0000" "i < 4096" "j < 4096"
  shows "blkbase b + of_nat i = blkbase c + of_nat j \<longleftrightarrow> b = c \<and> i = j"
proof
  assume h: "blkbase b + of_nat i = blkbase c + of_nat j"
  have b: "b = c" using blkof_off [OF assms(1,3)] blkof_off [OF assms(2,4)] h by simp
  hence "of_nat i = (of_nat j :: u32)" using h by simp
  hence "i = j" using assms(3,4) of_nat_u32_eq [of i j] by simp
  thus "b = c \<and> i = j" using b by simp
qed simp

section \<open>Files\<close>

definition field :: "u32 \<Rightarrow> nat \<Rightarrow> u32" where
  "field f o1 = f + of_nat o1"

text \<open>The block pointers of a file: \<open>k < 1034\<close> are its data blocks, 1034 is the indirect block.
  \<open>slot\<close> is where the pointer is stored.\<close>

definition ind :: "mem \<Rightarrow> u32 \<Rightarrow> u32" where
  "ind V f = get4 (field f 176) V"

definition slot :: "mem \<Rightarrow> u32 \<Rightarrow> nat \<Rightarrow> u32" where
  "slot V f k = (if k = 1034 then field f 176 else if k < 10 then field f (136 + 4 * k)
     else blkbase (ind V f) + of_nat (4 * (k - 10)))"

definition has_slot :: "mem \<Rightarrow> u32 \<Rightarrow> nat \<Rightarrow> bool" where
  "has_slot V f k \<longleftrightarrow> k \<le> 1034 \<and> (k < 10 \<or> k = 1034 \<or> ind V f \<noteq> 0)"

definition ptr :: "mem \<Rightarrow> u32 \<Rightarrow> nat \<Rightarrow> u32" where
  "ptr V f k = (if has_slot V f k then get4 (slot V f k) V else 0)"

definition fsize :: "mem \<Rightarrow> u32 \<Rightarrow> u32" where
  "fsize V f = get4 (field f 128) V"

lemma ptr_ind: "ptr V f 1034 = ind V f"
  by (simp add: ptr_def has_slot_def slot_def ind_def)

text \<open>A \<^verbatim>\<open>struct File\<close> lies within one block in use, off the bitmap.\<close>

definition file_at :: "mem \<Rightarrow> u32 \<Rightarrow> bool" where
  "file_at V f \<longleftrightarrow> al f \<and> used_block V (blkof f) \<and>
     (\<forall>k < 256. blkof (field f k) = blkof f \<and> \<not> meta_addr V (field f k))"

text \<open>The invariant for a set of files none of which is stored in a block of another: no block is
  used twice, and the blocks in use are marked.\<close>

definition fs_inv :: "mem \<Rightarrow> u32 set \<Rightarrow> bool" where
  "fs_inv V F \<longleftrightarrow> disk_wf V \<and> (\<forall>f \<in> F. file_at V f) \<and>
     (\<forall>f \<in> F. \<forall>g \<in> F. f \<noteq> g \<longrightarrow> 256 \<le> f - g) \<and>
     (\<forall>f \<in> F. \<forall>k. ptr V f k \<noteq> 0 \<longrightarrow> used_block V (ptr V f k) \<and> \<not> reserved V (ptr V f k) \<and>
        (\<forall>g \<in> F. ptr V f k \<noteq> blkof g)) \<and>
     (\<forall>f \<in> F. \<forall>g \<in> F. \<forall>k l. ptr V f k \<noteq> 0 \<longrightarrow> ptr V f k = ptr V g l \<longrightarrow> f = g \<and> k = l)"

lemma fs_invD:
  assumes "fs_inv V F" "f \<in> F"
  shows "disk_wf V" "file_at V f" "al f" "used_block V (blkof f)"
    "k < 256 \<Longrightarrow> blkof (field f k) = blkof f" "k < 256 \<Longrightarrow> \<not> meta_addr V (field f k)"
    "g \<in> F \<Longrightarrow> f \<noteq> g \<Longrightarrow> 256 \<le> f - g"
    "ptr V f k \<noteq> 0 \<Longrightarrow> used_block V (ptr V f k)" "ptr V f k \<noteq> 0 \<Longrightarrow> \<not> reserved V (ptr V f k)"
    "ptr V f k \<noteq> 0 \<Longrightarrow> g \<in> F \<Longrightarrow> ptr V f k \<noteq> blkof g"
    "ptr V f k \<noteq> 0 \<Longrightarrow> g \<in> F \<Longrightarrow> ptr V f k = ptr V g l \<Longrightarrow> f = g \<and> k = l"
  using assms unfolding fs_inv_def file_at_def by blast+

lemma field_neq:
  assumes "256 \<le> f - g" "256 \<le> g - f" "i < 256" "j < 256"
  shows "field f i \<noteq> field g j"
proof
  assume h: "field f i = field g j"
  have "f - g = of_nat j - of_nat i" "g - f = of_nat i - of_nat j"
    using h by (simp_all add: field_def algebra_simps)
  moreover have "unat (of_nat (j - i) :: u32) < 256" "unat (of_nat (i - j) :: u32) < 256"
    using assms(3,4) by (simp_all add: unat_of_nat)
  ultimately show False using assms(1,2) by (cases "i \<le> j") (auto simp: word_le_nat_alt of_nat_diff)
qed

lemma field_same: "i < 256 \<Longrightarrow> j < 256 \<Longrightarrow> field f i = field f j \<longleftrightarrow> i = j"
  using of_nat_u32_eq [of i j] by (simp add: field_def)

section \<open>Slots\<close>

lemma used_small: "disk_wf V \<Longrightarrow> used_block V b \<Longrightarrow> unat b < 0xC0000"
  by (simp add: disk_wf_def used_block_def word_less_nat_alt word_le_nat_alt)

lemma super_word_block: "x - 0x10001004 < 4 \<Longrightarrow> blkof x = 1"
proof -
  assume h: "x - 0x10001004 < 4"
  let ?d = "x - 0x10001004"
  have d: "unat ?d < 4" using h by (simp add: word_less_nat_alt)
  have e: "x - DISKMAP = 0x1004 + ?d" by simp
  have p: "unat (0x1004 + c) = 0x1004 + unat c" if "unat c < 4" for c :: u32
    using that by (simp add: unat_word_ariths)
  have "unat (x - DISKMAP) = 0x1004 + unat ?d" unfolding e by (rule p [OF d])
  hence "unat (blkof x) = (0x1004 + unat ?d) div 4096" by (simp only: unat_blkof)
  thus ?thesis using d by (simp add: word_unat_eq_iff)
qed

lemma not_reserved_addr: "\<not> reserved V (blkof x) \<Longrightarrow> \<not> meta_addr V x"
  using super_word_block [of x] by (auto simp: reserved_def meta_addr_def)

lemma has_slot_ind: "has_slot V f k \<Longrightarrow> \<not> k < 10 \<Longrightarrow> k \<noteq> 1034 \<Longrightarrow> ind V f \<noteq> 0 \<and> k < 1034"
  by (auto simp: has_slot_def)

lemma ind_facts:
  assumes "fs_inv V F" "f \<in> F" "ind V f \<noteq> 0"
  shows "used_block V (ind V f)" "\<not> reserved V (ind V f)" "unat (ind V f) < 0xC0000"
    "g \<in> F \<Longrightarrow> ind V f \<noteq> blkof g" "g \<in> F \<Longrightarrow> ind V f = ind V g \<Longrightarrow> f = g"
  using fs_invD(8,9,10) [OF assms(1,2), of 1034] fs_invD(11) [OF assms(1,2), of 1034 g 1034] assms(3)
    used_small [OF fs_invD(1) [OF assms(1,2)]] by (auto simp: ptr_ind)

lemma slot_block:
  assumes "fs_inv V F" "f \<in> F" "has_slot V f k"
  shows "blkof (slot V f k) = (if k < 10 \<or> k = 1034 then blkof f else ind V f)"
proof (cases "k < 10 \<or> k = 1034")
  case True
  thus ?thesis using fs_invD(5) [OF assms(1,2)] by (auto simp: slot_def)
next
  case False
  have "blkof (blkbase (ind V f) + of_nat (4 * (k - 10))) = ind V f"
    by (rule blkof_off, rule ind_facts(3) [OF assms(1,2)]) (use has_slot_ind [OF assms(3)] False in auto)
  thus ?thesis using False by (simp only: slot_def if_False) simp
qed

lemma slot_al:
  assumes "fs_inv V F" "f \<in> F" "has_slot V f k" shows "al (slot V f k)"
proof -
  have f: "al f" by (rule fs_invD(3) [OF assms(1,2)])
  show ?thesis
  proof (cases "k < 10 \<or> k = 1034")
    case True
    have "al (f + of_nat (136 + 4 * k))" "al (f + of_nat 176)" by (rule al_plus [OF f], simp)+
    thus ?thesis using True by (auto simp: slot_def field_def)
  next
    case False
    have "unat (blkbase (ind V f)) = 0x10000000 + 4096 * unat (ind V f)"
      by (rule blkbase_facts(1) [OF ind_facts(3) [OF assms(1,2)]]) (use has_slot_ind [OF assms(3)] False in auto)
    hence "al (blkbase (ind V f))" by (simp add: al_def mod_add_eq [symmetric] mod_mult_left_eq [symmetric])
    from al_plus [OF this, of "4 * (k - 10)"] show ?thesis using False by (simp add: slot_def)
  qed
qed

lemma field_al: "fs_inv V F \<Longrightarrow> f \<in> F \<Longrightarrow> k mod 4 = 0 \<Longrightarrow> al (field f k)"
  using al_plus [OF fs_invD(3)] by (simp add: field_def)

lemma slot_used:
  assumes "fs_inv V F" "f \<in> F" "has_slot V f k" shows "used_block V (blkof (slot V f k))"
  using slot_block [OF assms] fs_invD(4) [OF assms(1,2)] has_slot_ind [OF assms(3)] ind_facts(1) [OF assms(1,2)]
  by auto

lemma fields_neq:
  assumes "fs_inv V F" "f \<in> F" "g \<in> F" "i < 256" "j < 256"
  shows "field f i = field g j \<longleftrightarrow> f = g \<and> i = j"
proof (cases "f = g")
  case True thus ?thesis using field_same [OF assms(4,5)] by simp
next
  case False
  thus ?thesis using field_neq [OF fs_invD(7) [OF assms(1,2,3)] fs_invD(7) [OF assms(1,3,2)] assms(4,5)] by auto
qed

lemma slot_in_struct:
  "k < 10 \<or> k = 1034 \<Longrightarrow> slot V f k = field f (if k = 1034 then 176 else 136 + 4 * k)"
  by (auto simp: slot_def)

lemma slot_field_neq:
  assumes "fs_inv V F" "f \<in> F" "g \<in> F" "has_slot V f k" "j < 256"
    and "\<not> (136 \<le> j \<and> j \<le> 176)"
  shows "slot V f k \<noteq> field g j"
proof (cases "k < 10 \<or> k = 1034")
  case True
  show ?thesis unfolding slot_in_struct [OF True]
    using fields_neq [OF assms(1-3), of "if k = 1034 then 176 else 136 + 4 * k" j] True assms(5,6) by auto
next
  case False
  have "blkof (slot V f k) \<noteq> blkof (field g j)"
    using slot_block [OF assms(1,2,4)] False has_slot_ind [OF assms(4)] ind_facts(4) [OF assms(1,2) _ assms(3)]
      fs_invD(5) [OF assms(1,3,5)] by auto
  thus ?thesis by auto
qed

lemma slot_inj:
  assumes "fs_inv V F" "f \<in> F" "g \<in> F" "has_slot V f k" "has_slot V g l"
  shows "slot V f k = slot V g l \<longleftrightarrow> f = g \<and> k = l"
proof (cases "(k < 10 \<or> k = 1034) \<longleftrightarrow> (l < 10 \<or> l = 1034)")
  case same: True
  show ?thesis
  proof (cases "k < 10 \<or> k = 1034")
    case True
    hence l: "l < 10 \<or> l = 1034" using same by simp
    show ?thesis unfolding slot_in_struct [OF True] slot_in_struct [OF l]
      by (subst fields_neq [OF assms(1-3)]) (use True l in auto)
  next
    case False
    hence i: "ind V f \<noteq> 0" "k < 1034" "ind V g \<noteq> 0" "l < 1034" "\<not> l < 10" "\<not> k < 10"
      using same has_slot_ind [OF assms(4)] has_slot_ind [OF assms(5)] by auto
    have sk: "slot V f k = blkbase (ind V f) + of_nat (4 * (k - 10))"
      "slot V g l = blkbase (ind V g) + of_nat (4 * (l - 10))"
      using i by (simp_all only: slot_def if_False) simp_all
    have "slot V f k = slot V g l \<longleftrightarrow> ind V f = ind V g \<and> 4 * (k - 10) = 4 * (l - 10)"
      unfolding sk
      by (rule blkbase_inj [OF ind_facts(3) [OF assms(1,2) i(1)] ind_facts(3) [OF assms(1,3) i(3)]])
        (use i in linarith)+
    also have "\<dots> \<longleftrightarrow> f = g \<and> k = l"
      using ind_facts(5) [OF assms(1,2) i(1) assms(3)] i by auto
    finally show ?thesis .
  qed
next
  case False
  hence "blkof (slot V f k) \<noteq> blkof (slot V g l)"
    using slot_block [OF assms(1,2,4)] slot_block [OF assms(1,3,5)] has_slot_ind [OF assms(4)]
      has_slot_ind [OF assms(5)] ind_facts(4) [OF assms(1,2) _ assms(3)] ind_facts(4) [OF assms(1,3) _ assms(2)]
    by auto
  thus ?thesis using False by auto
qed

section \<open>A small disk\<close>

text \<open>A disk of five blocks of which the last two are free, with an empty root directory; the cache
  holds it and nothing has been written to the drive.\<close>

definition demo_image :: mem where
  "demo_image = put4 0x10001000 FS_MAGIC (put4 0x10001004 5 (put4 0x1000108C FTYPE_DIR
     (put4 0x10002000 0x18 (\<lambda>_. 0))))"

definition demo_fss :: fss where
  "demo_fss = \<lparr>disks = \<lambda>_ _ _. 0, sector_status = \<lambda>_ _. 0x50, diskno = 1,
     bcmem = demo_image, bmapped = \<lambda>_. True, bdirty = \<lambda>_. True, no_memory = \<lambda>_. False,
     super_set = True, bitmap_set = True, reqpage = \<lambda>_. 0x41\<rparr>"

lemma view_demo [simp]: "view demo_fss = demo_image"
  by (rule ext) (simp add: view_def demo_fss_def)

lemma demo_word: "al a \<Longrightarrow> get4 a demo_image = (if a = 0x10001000 then FS_MAGIC else if a = 0x10001004 then 5
    else if a = 0x1000108C then FTYPE_DIR else if a = 0x10002000 then 0x18 else 0)"
  using get4_put4_al [of _ a] by (simp add: demo_image_def al_def) (simp add: get4_def)

lemma nblocks_demo [simp]: "nblocks demo_image = 5"
  by (simp add: nblocks_def demo_word al_def)

lemma word_less5: "b < (5 :: u32) \<longleftrightarrow> b = 0 \<or> b = 1 \<or> b = 2 \<or> b = 3 \<or> b = 4"
proof -
  have "b < 5 \<longleftrightarrow> unat b < 5" by (simp add: word_less_nat_alt)
  also have "\<dots> \<longleftrightarrow> unat b = 0 \<or> unat b = 1 \<or> unat b = 2 \<or> unat b = 3 \<or> unat b = 4" by auto
  finally show ?thesis by (simp add: word_unat_eq_iff)
qed

lemma free_bit_demo: "b < 5 \<Longrightarrow> free_bit demo_image b \<longleftrightarrow> b = 3 \<or> b = 4"
  by (auto simp: word_less5 free_bit_def bm_addr_def demo_word al_def)

lemma demo_wf: "disk_wf demo_image"
  unfolding disk_wf_def nblocks_demo by (auto simp: word_less5 free_bit_demo)

lemma demo_ready: "cache_ready demo_fss"
  unfolding cache_ready_def view_demo nblocks_demo
  using demo_wf by (auto simp: word_less5 demo_fss_def block_ok_def sector_ok_def)

lemma demo_coherent: "coherent demo_fss"
  by (simp add: coherent_def demo_fss_def)

lemma demo_ptr: "ptr demo_image 0x10001008 k = 0"
proof -
  have i: "ind demo_image 0x10001008 = 0" by (simp add: ind_def field_def demo_word al_def)
  have "get4 (field 0x10001008 (136 + 4 * k)) demo_image = 0" if "k < 10"
  proof -
    have u: "unat (field 0x10001008 (136 + 4 * k)) = 0x10001090 + 4 * k"
      using that by (simp add: field_def unat_word_ariths unat_of_nat)
    hence "al (field 0x10001008 (136 + 4 * k))" by (simp add: al_def mod_add_eq [symmetric] mod_mult_right_eq [symmetric])
    thus ?thesis using u that by (simp add: demo_word word_unat_eq_iff)
  qed
  thus ?thesis using i by (auto simp: ptr_def has_slot_def slot_def) (simp add: ind_def)
qed

lemma demo_inv: "fs_inv demo_image {0x10001008}"
proof -
  have f: "blkof (field 0x10001008 k) = 1 \<and> \<not> meta_addr demo_image (field 0x10001008 k)" if k: "k < 256" for k
  proof -
    have e: "field 0x10001008 k - DISKMAP = of_nat (0x1008 + k)" "field 0x10001008 k - 0x10001004 = of_nat (4 + k)"
      by (simp_all add: field_def)
    have "unat (blkof (field 0x10001008 k)) = 1"
      unfolding unat_blkof e(1) using k by (simp add: unat_of_nat div_nat_eqI del: of_nat_add)
    hence b: "blkof (field 0x10001008 k) = 1" by (simp add: word_unat_eq_iff)
    moreover have "\<not> (of_nat (4 + k) :: u32) < 4" using k by (simp add: word_less_nat_alt unat_of_nat del: of_nat_add)
    moreover have "\<not> meta_block demo_image 1" by (auto simp: meta_block_def word_less5)
    ultimately show ?thesis by (simp add: meta_addr_def e(2))
  qed
  have "blkof 0x10001008 = 1" by (simp add: blkof_def)
  moreover have "used_block demo_image 1" by (simp add: used_block_def free_bit_demo)
  ultimately have "file_at demo_image 0x10001008" unfolding file_at_def using f by (simp add: al_def)
  thus ?thesis unfolding fs_inv_def using demo_wf by (simp add: demo_ptr)
qed

lemma alloc_block_lowest_witness:
  "\<exists>t b. alloc_block demo_fss = Done b t \<and> b = 3 \<and> free_bit (view demo_fss) 3 \<and> \<not> free_bit (view t) 3"
  using alloc_block_lowest [OF demo_ready]
  by (auto simp: free_bit_demo word_less5 dest: spec [of _ 3])

end
