(* ===== verification/FsBlocks.thy ===== *)
theory FsBlocks
  imports FsBitmap
begin

text \<open>
  How the operations of \<^verbatim>\<open>fs/fs.c\<close> change the blocks of a file: what a store to a pointer, to the
  bitmap, to a data block changes of the files, and the run of \<^verbatim>\<open>file_block_walk\<close> and
  \<^verbatim>\<open>file_get_block\<close> on a disk with free blocks.
\<close>

section \<open>What a store changes of the files\<close>

lemma ptr_eqI:
  assumes "ind V' g = ind V g" "has_slot V g l \<Longrightarrow> get4 (slot V g l) V' = get4 (slot V g l) V"
  shows "ptr V' g l = ptr V g l"
proof -
  have "has_slot V' g l = has_slot V g l" "slot V' g l = slot V g l"
    using assms(1) by (simp_all add: has_slot_def slot_def)
  thus ?thesis using assms(2) by (simp add: ptr_def)
qed

lemma slot_word_block:
  assumes "fs_inv V F" "g \<in> F" "has_slot V g l" "k < 4"
  shows "blkof (slot V g l + of_nat k) = blkof g \<or> ind V g \<noteq> 0 \<and> blkof (slot V g l + of_nat k) = ind V g"
    and "\<not> meta_addr V (slot V g l + of_nat k)"
proof -
  have a: "unat (slot V g l) mod 4 = 0" using slot_al [OF assms(1-3)] by (simp add: al_def)
  have b: "blkof (slot V g l + of_nat k) = blkof (slot V g l)" by (rule blkof_aligned [OF a assms(4)])
  show "blkof (slot V g l + of_nat k) = blkof g \<or> ind V g \<noteq> 0 \<and> blkof (slot V g l + of_nat k) = ind V g"
    unfolding b using slot_block [OF assms(1-3)] has_slot_ind [OF assms(3)] by auto
  show "\<not> meta_addr V (slot V g l + of_nat k)"
  proof (cases "l < 10 \<or> l = 1034")
    case True
    let ?j = "(if l = 1034 then 176 else 136 + 4 * l) + k"
    have "slot V g l + of_nat k = field g ?j"
      unfolding slot_in_struct [OF True] field_def of_nat_add by (simp only: add.assoc)
    moreover have "?j < 256" using True assms(4) by auto
    ultimately show ?thesis using fs_invD(6) [OF assms(1,2)] by metis
  next
    case False
    have "blkof (slot V g l) = ind V g" "ind V g \<noteq> 0"
      using slot_block [OF assms(1-3)] has_slot_ind [OF assms(3)] False by auto
    thus ?thesis using ind_facts(2) [OF assms(1,2)] not_reserved_addr b by simp
  qed
qed

lemma ptr_off:
  assumes i: "fs_inv V F" "g \<in> F"
    and eq: "\<And>x. blkof x = blkof g \<or> (ind V g \<noteq> 0 \<and> blkof x = ind V g) \<Longrightarrow> \<not> meta_addr V x \<Longrightarrow> V' x = V x"
  shows "ptr V' g l = ptr V g l"
proof -
  have g: "get4 (slot V g m) V' = get4 (slot V g m) V" if "has_slot V g m" for m
    by (rule get4_cong) (use slot_word_block [OF i that] eq in blast)
  have h: "has_slot V g 1034" "slot V g 1034 = field g 176" by (simp_all add: has_slot_def slot_def)
  have "ind V' g = ind V g" using g [OF h(1)] by (simp add: ind_def h(2))
  thus ?thesis by (rule ptr_eqI) (rule g)
qed

lemma field_off:
  assumes "fs_inv V F" "g \<in> F" "j < 256"
    and "\<And>x. blkof x = blkof g \<Longrightarrow> \<not> meta_addr V x \<Longrightarrow> V' x = V x"
  shows "V' (field g j) = V (field g j)"
  using assms fs_invD(5,6) [OF assms(1,2,3)] by simp

lemma meta_addr_same: "nblocks V' = nblocks V \<Longrightarrow> meta_addr V' = meta_addr V"
  by (auto simp: fun_eq_iff meta_addr_def meta_block_def)

lemma reserved_same: "nblocks V' = nblocks V \<Longrightarrow> reserved V' = reserved V"
  by (auto simp: fun_eq_iff reserved_def meta_block_def)

text \<open>The invariant when pointers are cleared and at most one is set, to a block of its own.\<close>

lemma fs_inv_change:
  assumes i: "fs_inv V F" and wf: "disk_wf V'" and n: "nblocks V' = nblocks V"
    and u: "\<And>g. g \<in> F \<Longrightarrow> used_block V' (blkof g)"
    and p: "\<And>g l. g \<in> F \<Longrightarrow> ptr V' g l \<noteq> 0 \<Longrightarrow>
      ptr V' g l = ptr V g l \<and> used_block V' (ptr V g l) \<or> g = f \<and> l = k \<and> ptr V' g l = b"
    and b: "b \<noteq> 0 \<Longrightarrow> used_block V' b \<and> \<not> reserved V b \<and> (\<forall>g \<in> F. b \<noteq> blkof g \<and> (\<forall>l. ptr V g l \<noteq> b))"
  shows "fs_inv V' F"
proof -
  note m = meta_addr_same [OF n] reserved_same [OF n]
  have "file_at V' g" if "g \<in> F" for g
    using fs_invD(2) [OF i that] u [OF that] by (simp add: file_at_def m)
  moreover have "\<forall>g \<in> F. \<forall>h \<in> F. g \<noteq> h \<longrightarrow> 256 \<le> g - h" using fs_invD(7) [OF i] by blast
  moreover have "used_block V' (ptr V' g l) \<and> \<not> reserved V' (ptr V' g l) \<and> (\<forall>h \<in> F. ptr V' g l \<noteq> blkof h)"
    if "g \<in> F" "ptr V' g l \<noteq> 0" for g l
    using p [OF that]
  proof
    assume h: "ptr V' g l = ptr V g l \<and> used_block V' (ptr V g l)"
    hence z: "ptr V g l \<noteq> 0" using that(2) by simp
    show ?thesis unfolding m using h fs_invD(9,10) [OF i that(1) z] by auto
  next
    assume "g = f \<and> l = k \<and> ptr V' g l = b"
    thus ?thesis unfolding m using b that(2) by auto
  qed
  moreover have "g = h \<and> l = j" if H: "g \<in> F" "h \<in> F" "ptr V' g l \<noteq> 0" "ptr V' g l = ptr V' h j" for g h l j
  proof -
    have nz: "ptr V' h j \<noteq> 0" using H(3,4) by simp
    consider "ptr V' g l = ptr V g l" "ptr V' h j = ptr V h j"
      | "g = f \<and> l = k \<and> ptr V' g l = b" "ptr V' h j = ptr V h j"
      | "ptr V' g l = ptr V g l" "h = f \<and> j = k \<and> ptr V' h j = b"
      | "g = f \<and> l = k" "h = f \<and> j = k"
      using p [OF H(1,3)] p [OF H(2) nz] by blast
    thus ?thesis
    proof cases
      case 1
      show ?thesis by (rule fs_invD(11) [OF i H(1) _ H(2)]) (use 1 H(3,4) in simp_all)
    next
      case 2 thus ?thesis using b H by metis
    next
      case 3 thus ?thesis using b H by metis
    qed simp
  qed
  ultimately show ?thesis using wf unfolding fs_inv_def by blast
qed

lemma fs_inv_same:
  assumes i: "fs_inv V F" and wf: "disk_wf V'" and n: "nblocks V' = nblocks V"
    and u: "\<And>b. used_block V b \<Longrightarrow> used_block V' b"
    and p: "\<And>g l. g \<in> F \<Longrightarrow> ptr V' g l = ptr V g l"
  shows "fs_inv V' F"
  by (rule fs_inv_change [OF i wf n, where b = 0]) (auto simp: p u fs_invD(4,8) [OF i])

lemma fs_inv_wf: "fs_inv V F \<Longrightarrow> disk_wf V"
  by (simp add: fs_inv_def)

section \<open>Marking blocks\<close>

lemma mark_off:
  assumes "disk_wf V" "b < nblocks V" "\<not> meta_addr V x"
  shows "mark_used V b x = V x" "mark_free V b x = V x"
proof -
  have u: "unat b < 0xC0000" using assms(1,2) by (simp add: disk_wf_def word_less_nat_alt word_le_nat_alt)
  have "blkof x \<noteq> blkof (bm_addr b)"
    using assms(2,3) bm_addr_facts(2) [OF u] by (auto simp: meta_addr_def meta_block_def)
  from put4_off_block [OF bm_addr_facts(1) [OF u] this] show "mark_used V b x = V x" "mark_free V b x = V x"
    by (simp_all add: mark_used_def mark_free_def)
qed

lemma ptr_mark:
  assumes "fs_inv V F" "b < nblocks V" "g \<in> F"
  shows "ptr (mark_used V b) g l = ptr V g l" "ptr (mark_free V b) g l = ptr V g l"
  by (rule ptr_off [OF assms(1,3)], rule mark_off [OF fs_inv_wf [OF assms(1)] assms(2)], assumption)+

lemma nblocks_mark_wf:
  assumes "disk_wf V" "b < nblocks V"
  shows "nblocks (mark_used V b) = nblocks V" "nblocks (mark_free V b) = nblocks V"
  using nblocks_mark [of b V] assms by (simp_all add: disk_wf_def word_less_nat_alt word_le_nat_alt)

lemma fs_inv_mark_used: "fs_inv V F \<Longrightarrow> b < nblocks V \<Longrightarrow> fs_inv (mark_used V b) F"
  by (rule fs_inv_same) (simp_all add: disk_wf_mark(1,3) fs_inv_wf nblocks_mark_wf ptr_mark)

text \<open>A free block is no block of a file.\<close>

lemma reserved_used: "disk_wf V \<Longrightarrow> reserved V b \<Longrightarrow> used_block V b"
  by (auto simp: disk_wf_def used_block_def reserved_def meta_block_def word_less_nat_alt)

lemma free_block_fresh:
  assumes "fs_inv V F" "b < nblocks V" "free_bit V b"
  shows "\<not> reserved V b" "b \<noteq> 0" "g \<in> F \<Longrightarrow> b \<noteq> blkof g" "g \<in> F \<Longrightarrow> ptr V g l \<noteq> b"
proof -
  have nu: "\<not> used_block V b" using assms(3) by (simp add: used_block_def)
  show nr: "\<not> reserved V b" using nu reserved_used [OF fs_inv_wf [OF assms(1)]] by blast
  show z: "b \<noteq> 0" using nr by (auto simp: reserved_def)
  show "b \<noteq> blkof g" if "g \<in> F" using nu fs_invD(4) [OF assms(1) that] by auto
  show "ptr V g l \<noteq> b" if "g \<in> F" using nu z fs_invD(8) [OF assms(1) that, of l] by auto
qed

section \<open>Setting a pointer\<close>

lemma slot_not_meta: "fs_inv V F \<Longrightarrow> f \<in> F \<Longrightarrow> has_slot V f k \<Longrightarrow> meta_addr V x \<Longrightarrow> put4 (slot V f k) w V x = V x"
proof -
  assume h: "fs_inv V F" "f \<in> F" "has_slot V f k" "meta_addr V x"
  have "x \<noteq> slot V f k + of_nat j" if "j < 4" for j using slot_word_block(2) [OF h(1-3) that] h(4) by auto
  from this [of 0] this [of 1] this [of 2] this [of 3] show ?thesis by (simp add: put4_def)
qed

lemma put_slot_meta:
  assumes "fs_inv V F" "f \<in> F" "has_slot V f k"
  shows "nblocks (put4 (slot V f k) w V) = nblocks V" "disk_wf (put4 (slot V f k) w V)"
    "used_block (put4 (slot V f k) w V) c = used_block V c"
    "c < nblocks V \<Longrightarrow> free_bit (put4 (slot V f k) w V) c = free_bit V c"
proof -
  have e: "put4 (slot V f k) w V x = V x" if "meta_addr V x" for x by (rule slot_not_meta [OF assms that])
  note m = meta_agree [OF fs_inv_wf [OF assms(1)], of "put4 (slot V f k) w V", OF e]
  show "nblocks (put4 (slot V f k) w V) = nblocks V" by (rule m(1))
  show "disk_wf (put4 (slot V f k) w V)" by (rule m(3))
  show "used_block (put4 (slot V f k) w V) c = used_block V c" by (rule m(4))
  show "c < nblocks V \<Longrightarrow> free_bit (put4 (slot V f k) w V) c = free_bit V c" by (rule m(2))
qed

lemma put_slot_ptr:
  assumes i: "fs_inv V F" "f \<in> F" "g \<in> F" "has_slot V f k" and k: "k \<noteq> 1034"
  shows "ptr (put4 (slot V f k) w V) g l = (if g = f \<and> l = k then w else ptr V g l)"
proof -
  let ?V = "put4 (slot V f k) w V"
  have h: "has_slot V h 1034" "slot V h 1034 = field h 176" for h by (simp_all add: has_slot_def slot_def)
  have s: "get4 (slot V g m) ?V = (if g = f \<and> m = k then w else get4 (slot V g m) V)" if "has_slot V g m" for m
    using get4_put4_al [OF slot_al [OF i(1,2,4)] slot_al [OF i(1,3) that]] slot_inj [OF i(1,3,2) that i(4)] by simp
  have e: "ind ?V g = ind V g" using s [OF h(1)] k by (simp add: ind_def h(2))
  hence hs: "has_slot ?V g l = has_slot V g l" "slot ?V g l = slot V g l"
    by (simp_all add: has_slot_def slot_def)
  show ?thesis
  proof (cases "g = f \<and> l = k")
    case True
    thus ?thesis using s [of l] i(4) unfolding ptr_def hs by auto
  next
    case False
    thus ?thesis using s [of l] unfolding ptr_def hs by (simp only: if_False) auto
  qed
qed

lemma put_slot_inv:
  assumes i: "fs_inv V F" "f \<in> F" "has_slot V f k" "k \<noteq> 1034"
    and b: "w \<noteq> 0 \<Longrightarrow> used_block V w \<and> \<not> reserved V w \<and> (\<forall>g \<in> F. w \<noteq> blkof g \<and> (\<forall>l. ptr V g l \<noteq> w))"
  shows "fs_inv (put4 (slot V f k) w V) F"
proof (rule fs_inv_change [OF i(1) put_slot_meta(2) [OF i(1-3)] put_slot_meta(1) [OF i(1-3)], where b = w])
  show "used_block (put4 (slot V f k) w V) (blkof g)" if "g \<in> F" for g
    using fs_invD(4) [OF i(1) that] by (simp add: put_slot_meta(3) [OF i(1-3)])
  show "ptr (put4 (slot V f k) w V) g l = ptr V g l \<and> used_block (put4 (slot V f k) w V) (ptr V g l) \<or>
     g = f \<and> l = k \<and> ptr (put4 (slot V f k) w V) g l = w"
    if "g \<in> F" "ptr (put4 (slot V f k) w V) g l \<noteq> 0" for g l
    using that(2) fs_invD(8) [OF i(1) that(1), of l]
    unfolding put_slot_ptr [OF i(1,2) that(1) i(3,4)] put_slot_meta(3) [OF i(1-3)] by auto
  show "used_block (put4 (slot V f k) w V) w \<and> \<not> reserved V w \<and> (\<forall>g \<in> F. w \<noteq> blkof g \<and> (\<forall>l. ptr V g l \<noteq> w))"
    if "w \<noteq> 0" using b [OF that] by (simp add: put_slot_meta(3) [OF i(1-3)])
qed

section \<open>A new indirect block\<close>

definition fresh_block :: "mem \<Rightarrow> u32 set \<Rightarrow> u32 \<Rightarrow> bool" where
  "fresh_block V F b \<longleftrightarrow> b \<noteq> 0 \<and> used_block V b \<and> \<not> reserved V b \<and>
     (\<forall>g \<in> F. b \<noteq> blkof g \<and> (\<forall>l. ptr V g l \<noteq> b))"

lemma fresh_mark_used:
  assumes "fs_inv V F" "b < nblocks V" "free_bit V b"
  shows "fresh_block (mark_used V b) F b"
  unfolding fresh_block_def
  using free_block_fresh [OF assms] disk_wf_mark(3) [OF fs_inv_wf [OF assms(1)] assms(2)]
    reserved_same [OF nblocks_mark_wf(1) [OF fs_inv_wf [OF assms(1)] assms(2)]] ptr_mark(1) [OF assms(1,2)]
  by simp

lemma fresh_slot:
  assumes "fs_inv V F" "g \<in> F" "has_slot V g l" "fresh_block V F b" "k < 4"
  shows "blkof (slot V g l + of_nat k) \<noteq> b"
  using slot_word_block(1) [OF assms(1,2,3,5)] assms(2,4) ptr_ind [of V g] unfolding fresh_block_def by metis

definition zero_block :: "u32 \<Rightarrow> mem \<Rightarrow> mem" where
  "zero_block b V = (\<lambda>x. if blkof x = b then 0 else V x)"

lemma get4_zero_block: "unat a mod 4 = 0 \<Longrightarrow> blkof a = b \<Longrightarrow> get4 a (zero_block b V) = 0"
proof -
  assume h: "unat a mod 4 = 0" "blkof a = b"
  have "get4 a (zero_block b V) = get4 a (\<lambda>_. 0)"
    by (rule get4_cong) (simp add: zero_block_def blkof_aligned [OF h(1)] h(2))
  thus ?thesis by (simp add: get4_def)
qed

lemma set_ind_meta:
  assumes "fs_inv V F" "f \<in> F" "fresh_block V F b"
  defines "V' \<equiv> zero_block b (put4 (slot V f 1034) b V)"
  shows "nblocks V' = nblocks V" "disk_wf V'" "used_block V' c = used_block V c"
    "c < nblocks V \<Longrightarrow> free_bit V' c = free_bit V c"
proof -
  have h: "has_slot V f 1034" by (simp add: has_slot_def)
  have "V' x = V x" if "meta_addr V x" for x
  proof -
    have "blkof x \<noteq> b" using that assms(3) not_reserved_addr by (auto simp: fresh_block_def)
    thus ?thesis using slot_not_meta [OF assms(1,2) h that] by (simp add: V'_def zero_block_def)
  qed
  note m = meta_agree [OF fs_inv_wf [OF assms(1)], of V', OF this]
  show "nblocks V' = nblocks V" by (rule m(1))
  show "disk_wf V'" by (rule m(3))
  show "used_block V' c = used_block V c" by (rule m(4))
  show "c < nblocks V \<Longrightarrow> free_bit V' c = free_bit V c" by (rule m(2))
qed

lemma set_ind_ptr:
  assumes i: "fs_inv V F" "f \<in> F" "g \<in> F" and b: "fresh_block V F b" and z: "ptr V f 1034 = 0"
  shows "ptr (zero_block b (put4 (slot V f 1034) b V)) g l = (if g = f \<and> l = 1034 then b else ptr V g l)"
    (is "ptr ?V g l = _")
proof -
  have h: "has_slot V x 1034" "slot V x 1034 = field x 176" for x by (simp_all add: has_slot_def slot_def)
  have s: "get4 (slot V g m) ?V = (if g = f \<and> m = 1034 then b else get4 (slot V g m) V)" if "has_slot V g m" for m
  proof -
    have "get4 (slot V g m) ?V = get4 (slot V g m) (put4 (slot V f 1034) b V)"
      by (rule get4_cong) (simp add: zero_block_def fresh_slot [OF i(1,3) that b])
    also have "\<dots> = (if g = f \<and> m = 1034 then b else get4 (slot V g m) V)"
      using get4_put4_al [OF slot_al [OF i(1,2) h(1)] slot_al [OF i(1,3) that]] slot_inj [OF i(1,3,2) that h(1)] by simp
    finally show ?thesis .
  qed
  show ?thesis
  proof (cases "g = f")
    case False
    have "ind ?V g = ind V g" using s [OF h(1)] False unfolding ind_def h(2) by (simp only: simp_thms if_False)
    hence "ptr ?V g l = ptr V g l"
      by (rule ptr_eqI) (use s [of l] False in \<open>simp only: simp_thms if_False\<close>)
    thus ?thesis using False by simp
  next
    case g: True
    have iz: "ind V f = 0" using z by (simp add: ptr_ind)
    have ib: "ind ?V f = b" using s [OF h(1)] g by (simp add: ind_def h(2))
    have ub: "unat b < 0xC0000" "b \<noteq> 0"
      using b used_small [OF fs_inv_wf [OF i(1)]] by (auto simp: fresh_block_def)
    consider "l = 1034" | "l < 10" | "10 \<le> l" "l < 1034" | "1034 < l" by linarith
    thus ?thesis
    proof cases
      case 1 thus ?thesis using g ib by (simp add: ptr_ind)
    next
      case 2
      have hl: "has_slot V f l" "has_slot ?V f l" "slot ?V f l = slot V f l"
        using 2 by (simp_all add: has_slot_def slot_def)
      thus ?thesis using g s [of l] 2 by (simp add: ptr_def)
    next
      case 3
      let ?a = "blkbase b + of_nat (4 * (l - 10))"
      have o: "4 * (l - 10) < 4096" using 3 by simp
      have "al (blkbase b)"
        using blkbase_facts(1) [OF ub(1)] by (simp add: al_def mod_add_eq [symmetric] mod_mult_left_eq [symmetric])
      hence a: "al ?a" by (rule al_plus) simp
      have "has_slot ?V f l" using 3 ib ub by (simp add: has_slot_def)
      moreover have "slot ?V f l = ?a" using 3 ib by (simp only: slot_def) simp
      moreover have "get4 ?a ?V = 0"
        by (rule get4_zero_block) (use a blkof_off [OF ub(1) o] in \<open>simp_all only: al_def\<close>)
      moreover have "\<not> has_slot V f l" using 3 iz by (simp add: has_slot_def)
      ultimately show ?thesis using g 3 by (simp add: ptr_def)
    next
      case 4 thus ?thesis by (simp add: ptr_def has_slot_def)
    qed
  qed
qed

lemma set_ind_inv:
  assumes i: "fs_inv V F" "f \<in> F" and b: "fresh_block V F b" and z: "ptr V f 1034 = 0"
  shows "fs_inv (zero_block b (put4 (slot V f 1034) b V)) F"
proof (rule fs_inv_change [OF i(1) set_ind_meta(2) [OF i b] set_ind_meta(1) [OF i b], where b = b])
  show "used_block (zero_block b (put4 (slot V f 1034) b V)) (blkof g)" if "g \<in> F" for g
    using fs_invD(4) [OF i(1) that] by (simp add: set_ind_meta(3) [OF i b])
  show "ptr (zero_block b (put4 (slot V f 1034) b V)) g l = ptr V g l \<and>
     used_block (zero_block b (put4 (slot V f 1034) b V)) (ptr V g l) \<or>
     g = f \<and> l = 1034 \<and> ptr (zero_block b (put4 (slot V f 1034) b V)) g l = b"
    if "g \<in> F" "ptr (zero_block b (put4 (slot V f 1034) b V)) g l \<noteq> 0" for g l
    using that(2) fs_invD(8) [OF i(1) that(1), of l]
    unfolding set_ind_ptr [OF i that(1) b z] set_ind_meta(3) [OF i b] by (auto split: if_splits)
qed (use b set_ind_meta(3) [OF i b] in \<open>simp add: fresh_block_def\<close>)

section \<open>Counting free blocks\<close>

definition nfree :: "mem \<Rightarrow> nat" where
  "nfree V = card {b. b < nblocks V \<and> free_bit V b}"

lemma nfree_cong: "nblocks V' = nblocks V \<Longrightarrow> (\<And>b. b < nblocks V \<Longrightarrow> free_bit V' b = free_bit V b) \<Longrightarrow> nfree V' = nfree V"
  unfolding nfree_def by (rule arg_cong [where f = card]) auto

lemma nfree_mark_used:
  assumes "disk_wf V" "b < nblocks V" "free_bit V b"
  shows "nfree V = Suc (nfree (mark_used V b))"
proof -
  have u: "unat c < 0xC0000" if "c < nblocks V" for c
    using assms(1) that by (simp add: disk_wf_def word_less_nat_alt word_le_nat_alt)
  have "{c. c < nblocks V \<and> free_bit V c} =
      insert b {c. c < nblocks (mark_used V b) \<and> free_bit (mark_used V b) c}"
    using assms(2,3) free_bit_mark(1) [OF u [OF assms(2)] u]
    by (auto simp: nblocks_mark_wf [OF assms(1,2)])
  moreover have "b \<notin> {c. c < nblocks (mark_used V b) \<and> free_bit (mark_used V b) c}"
    using free_bit_mark(1) [OF u [OF assms(2)] u [OF assms(2)]] by simp
  ultimately show ?thesis unfolding nfree_def by simp
qed

lemma nfree_pos: "0 < nfree V \<Longrightarrow> \<exists>c < nblocks V. free_bit V c"
proof -
  assume "0 < nfree V"
  hence "{b. b < nblocks V \<and> free_bit V b} \<noteq> {}" unfolding nfree_def by (metis card.empty less_irrefl)
  thus ?thesis by auto
qed

section \<open>Runs of the server's code\<close>

text \<open>\<open>runs x s r V R\<close>: the code \<open>x\<close>, started in \<open>s\<close>, returns \<open>r\<close>; the server then sees the memory
  \<open>V\<close> in the cache and \<open>R\<close> in the request page.\<close>

definition runs :: "('a, fss) kres \<Rightarrow> fss \<Rightarrow> 'a \<Rightarrow> mem \<Rightarrow> mem \<Rightarrow> bool" where
  "runs x s r V R \<longleftrightarrow> (\<exists>t. x = Done r t \<and> evolves s (t\<lparr>reqpage := reqpage s\<rparr>) V \<and> cache_ready t \<and> reqpage t = R)"

lemma view_reqpage [simp]: "view (s\<lparr>reqpage := R\<rparr>) = view s"
  by (rule ext) (simp add: view_def dbyte_def)

lemma block_ok_reqpage [simp]: "block_ok (s\<lparr>reqpage := R\<rparr>) = block_ok s"
  by (rule ext) (simp add: block_ok_def sector_ok_def)

lemma cache_ready_reqpage [simp]: "cache_ready (s\<lparr>reqpage := R\<rparr>) = cache_ready s"
  by (simp add: cache_ready_def)

lemma evolves_reqpage: "evolves s t V \<Longrightarrow> evolves (s\<lparr>reqpage := R\<rparr>) (t\<lparr>reqpage := R\<rparr>) V"
  by (simp add: evolves_def coherent_def dbyte_def)

lemma runsI: "x = Done r t \<Longrightarrow> evolves s t V \<Longrightarrow> cache_ready t \<Longrightarrow> runs x s r V (reqpage s)"
proof -
  assume h: "x = Done r t" "evolves s t V" "cache_ready t"
  have "reqpage t = reqpage s" using h(2) by (simp add: evolves_def)
  moreover have "t\<lparr>reqpage := reqpage t\<rparr> = t" by simp
  ultimately show ?thesis using h unfolding runs_def by metis
qed

lemma runs_Done: "runs (Done r s) s r' V R \<longleftrightarrow> r' = r \<and> V = view s \<and> cache_ready s \<and> R = reqpage s"
  by (auto simp: runs_def evolves_def)

lemma runs_bind:
  assumes "runs x s r V R"
    and "\<And>t. cache_ready t \<Longrightarrow> view t = V \<Longrightarrow> reqpage t = R \<Longrightarrow> runs (k r t) t r' W S"
  shows "runs (kbind x k) s r' W S"
proof -
  obtain t where t: "x = Done r t" "evolves s (t\<lparr>reqpage := reqpage s\<rparr>) V" "cache_ready t" "reqpage t = R"
    using assms(1) by (auto simp: runs_def)
  have "view t = V" using t(2) by (simp add: evolves_def)
  from assms(2) [OF t(3) this t(4)] obtain u where
    u: "k r t = Done r' u" "evolves t (u\<lparr>reqpage := reqpage t\<rparr>) W" "cache_ready u" "reqpage u = S"
    by (auto simp: runs_def)
  have "evolves (t\<lparr>reqpage := reqpage s\<rparr>) (u\<lparr>reqpage := reqpage s\<rparr>) W"
    using evolves_reqpage [OF u(2), of "reqpage s"] by simp
  from step_trans [OF t(2) this] show ?thesis using t(1) u by (auto simp: runs_def)
qed

lemma runs_step:
  assumes "cache_ready s" "\<exists>t. x = Done r t \<and> evolves s t V" "disk_wf V" "nblocks V = nblocks (view s)"
  shows "runs x s r V (reqpage s)"
  using assms step_ready by (auto intro!: runsI)

lemma ready_wf: "cache_ready s \<Longrightarrow> disk_wf (view s)"
  by (simp add: cache_ready_def)

lemma runs_same:
  "cache_ready s \<Longrightarrow> \<exists>t. x = Done r t \<and> evolves s t (view s) \<Longrightarrow> runs x s r (view s) (reqpage s)"
  by (rule runs_step) (simp_all add: ready_wf)

lemma runs_ld32: "cache_ready s \<Longrightarrow> used_block (view s) (blkof a) \<Longrightarrow> al a \<Longrightarrow>
    runs (ld32 a s) s (get4 a (view s)) (view s) (reqpage s)"
  by (rule runs_same, assumption, rule ld32_step) (simp_all add: al_def)

lemma runs_ld8: "cache_ready s \<Longrightarrow> used_block (view s) (blkof a) \<Longrightarrow>
    runs (ld8 a s) s (view s a) (view s) (reqpage s)"
  by (rule runs_same, assumption, rule ld8_step)

lemma runs_st32:
  assumes "cache_ready s" "used_block (view s) (blkof a)" "al a"
    and "disk_wf (put4 a w (view s))" "nblocks (put4 a w (view s)) = nblocks (view s)"
  shows "runs (st32 a w s) s () (put4 a w (view s)) (reqpage s)"
  by (rule runs_step [OF assms(1) st32_step [OF assms(1,2)]]) (use assms(3-5) in \<open>simp_all add: al_def\<close>)

lemma runs_flush: "cache_ready s \<Longrightarrow> blkof a < nblocks (view s) \<Longrightarrow>
    runs (flush_block a s) s () (view s) (reqpage s)"
  by (rule runs_same, assumption, rule flush_ready)

lemma runs_diskaddr: "cache_ready s \<Longrightarrow> b \<noteq> 0 \<Longrightarrow> b < nblocks (view s) \<Longrightarrow>
    runs (diskaddr b s) s (blkbase b) (view s) (reqpage s)"
  by (rule runsI [OF diskaddr_ready]) (simp_all add: evolves_def)

lemma runs_alloc_block:
  assumes r: "cache_ready s" and p: "0 < nfree (view s)"
  shows "\<exists>b. runs (alloc_block s) s b (mark_used (view s) b) (reqpage s) \<and>
    b < nblocks (view s) \<and> free_bit (view s) b"
  using alloc_block_step [OF r]
proof (elim disjE exE conjE)
  fix t b assume h: "alloc_block s = Done b t" "b < nblocks (view s)" "free_bit (view s) b"
    "evolves s t (mark_used (view s) b)" "cache_ready t"
  show ?thesis using runsI [OF h(1,4,5)] h(2,3) by blast
next
  assume "\<forall>c<nblocks (view s). \<not> free_bit (view s) c"
  thus ?thesis using nfree_pos [OF p] by blast
qed

section \<open>Clearing a new block\<close>

definition dirty_block :: "u32 \<Rightarrow> fss \<Rightarrow> fss" where
  "dirty_block b s = s\<lparr>bdirty := (bdirty s)(b := True)\<rparr>"

lemma dirty_block_facts:
  "dirty_block b (dirty_block b s) = dirty_block b s" "bmapped (dirty_block b s) = bmapped s"
  "bcmem (dirty_block b s) = bcmem s"
  by (simp_all add: dirty_block_def fun_upd_def)

lemma st_zero:
  assumes "bmapped s b" "\<And>x. blkof x = b \<Longrightarrow> bcmem s x = 0" "blkof a = b"
  shows "st8 a 0 s = Done () (dirty_block b s)"
proof -
  have "(bcmem s)(a := 0) = bcmem s" using assms(2) [OF assms(3)] by (simp add: fun_upd_idem)
  thus ?thesis using assms(1,3) by (simp add: st8_def touch_def dirty_block_def)
qed

lemma st_zeros:
  assumes "bmapped s b" "\<And>x. blkof x = b \<Longrightarrow> bcmem s x = 0" "\<forall>i < Suc n. blkof (a + of_nat i) = b"
  shows "st_bytes (replicate (Suc n) 0) a s = Done () (dirty_block b s)"
  using assms
proof (induction n arbitrary: a s)
  case 0
  thus ?case using st_zero [OF 0(1,2)] by simp
next
  case (Suc n)
  have b: "blkof a = b" using Suc.prems(3) [rule_format, of 0] by simp
  have "\<forall>i < Suc n. blkof (a + 1 + of_nat i) = b"
  proof (intro allI impI)
    fix i assume "i < Suc n"
    thus "blkof (a + 1 + of_nat i) = b" using Suc.prems(3) [rule_format, of "Suc i"] by (simp add: algebra_simps)
  qed
  from Suc.IH [OF _ _ this, of "dirty_block b s"] Suc.prems(1,2)
  have i: "st_bytes (replicate (Suc n) 0) (a + 1) (dirty_block b s) = Done () (dirty_block b s)"
    by (simp only: dirty_block_facts)
  have "st8 a 0 s = Done () (dirty_block b s)"
    by (rule st_zero) (use Suc.prems(1,2) b in simp_all)
  thus ?case unfolding replicate_Suc [of "Suc n"] st_bytes.simps by (simp only: kbind.simps i)
qed

lemma clear_block_step:
  assumes r: "cache_ready s" and b: "b < nblocks (view s)" "\<not> reserved (view s) b"
  shows "\<exists>t. sys_page_alloc_at (blkbase b) s = (0, t) \<and>
    runs (st_bytes (replicate (unat BLKSIZE) 0) (blkbase b) t) s () (zero_block b (view s)) (reqpage s)"
proof -
  have u: "unat b < 0xC0000" by (rule cache_readyD(7) [OF r b(1)])
  let ?t = "map_zero_page b s"
  have al: "sys_page_alloc_at (blkbase b) s = (0, ?t)"
    using cache_readyD(6) [OF r b(1)] by (simp add: sys_page_alloc_at_def block_ok_def blkbase_facts(2) [OF u])
  have n: "unat BLKSIZE = Suc 4095" by simp
  let ?u = "dirty_block b ?t"
  have st: "st_bytes (replicate (unat BLKSIZE) 0) (blkbase b) ?t = Done () ?u"
    unfolding n by (rule st_zeros) (simp_all add: map_zero_page_def blkof_off [OF u])
  have v: "view ?u = zero_block b (view s)"
    by (rule ext) (simp add: view_def dbyte_def zero_block_def map_zero_page_def dirty_block_def)
  have e: "evolves s ?u (zero_block b (view s))"
    unfolding evolves_def using v by (auto simp: coherent_def dbyte_def map_zero_page_def dirty_block_def)
  have "zero_block b (view s) x = view s x" if "meta_addr (view s) x" for x
    using that b(2) not_reserved_addr by (auto simp: zero_block_def)
  note m = meta_agree [OF ready_wf [OF r] this]
  have "runs (st_bytes (replicate (unat BLKSIZE) 0) (blkbase b) ?t) s () (zero_block b (view s)) (reqpage s)"
    by (rule runs_step [OF r]) (use st e m in auto)
  thus ?thesis using al by blast
qed

section \<open>What allocation keeps\<close>

text \<open>From \<open>V\<close> to \<open>V'\<close> only pointers of \<open>f\<close> that were zero have been set; the other fields of the
  files and their data are as before.\<close>

definition kept :: "mem \<Rightarrow> u32 set \<Rightarrow> u32 \<Rightarrow> mem \<Rightarrow> bool" where
  "kept V F f V' \<longleftrightarrow> fs_inv V' F \<and> nblocks V' = nblocks V \<and>
     (\<forall>g \<in> F. \<forall>l. ptr V g l \<noteq> 0 \<longrightarrow> ptr V' g l = ptr V g l) \<and>
     (\<forall>g \<in> F. g \<noteq> f \<longrightarrow> (\<forall>l. ptr V' g l = ptr V g l)) \<and>
     (\<forall>g \<in> F. \<forall>j < 256. j < 136 \<or> 180 \<le> j \<longrightarrow> V' (field g j) = V (field g j)) \<and>
     (\<forall>g \<in> F. \<forall>l < 1034. ptr V g l \<noteq> 0 \<longrightarrow> (\<forall>x. blkof x = ptr V g l \<longrightarrow> V' x = V x))"

lemma keptD:
  assumes "kept V F f V'"
  shows "fs_inv V' F" "nblocks V' = nblocks V"
    "g \<in> F \<Longrightarrow> ptr V g l \<noteq> 0 \<Longrightarrow> ptr V' g l = ptr V g l"
    "g \<in> F \<Longrightarrow> g \<noteq> f \<Longrightarrow> ptr V' g l = ptr V g l"
    "g \<in> F \<Longrightarrow> j < 256 \<Longrightarrow> j < 136 \<or> 180 \<le> j \<Longrightarrow> V' (field g j) = V (field g j)"
    "g \<in> F \<Longrightarrow> l < 1034 \<Longrightarrow> ptr V g l \<noteq> 0 \<Longrightarrow> blkof x = ptr V g l \<Longrightarrow> V' x = V x"
  using assms unfolding kept_def by blast+

lemma kept_refl: "fs_inv V F \<Longrightarrow> kept V F f V"
  by (simp add: kept_def)

lemma kept_trans:
  assumes k: "kept V F f V'" and k': "kept V' F f V''"
  shows "kept V F f V''"
proof -
  have p: "ptr V'' g l = ptr V g l" if "g \<in> F" "ptr V g l \<noteq> 0" for g l
    using keptD(3) [OF k that] keptD(3) [OF k' that(1), of l] that(2) by simp
  moreover have "ptr V'' g l = ptr V g l" if "g \<in> F" "g \<noteq> f" for g l
    using keptD(4) [OF k that] keptD(4) [OF k' that] by simp
  moreover have "V'' (field g j) = V (field g j)" if "g \<in> F" "j < 256" "j < 136 \<or> 180 \<le> j" for g j
    using keptD(5) [OF k that] keptD(5) [OF k' that] by simp
  moreover have "V'' x = V x" if "g \<in> F" "l < 1034" "ptr V g l \<noteq> 0" "blkof x = ptr V g l" for g l x
    using keptD(6) [OF k that] keptD(6) [OF k' that(1,2), of x] keptD(3) [OF k that(1,3)] that(3,4) by simp
  ultimately show ?thesis
    unfolding kept_def using keptD(1) [OF k'] keptD(2) [OF k] keptD(2) [OF k'] by simp
qed

text \<open>Blocks that hold data are apart from the blocks of the structures.\<close>

lemma data_block_apart:
  assumes i: "fs_inv V F" "g \<in> F" "l < 1034" "ptr V g l \<noteq> 0" and x: "blkof x = ptr V g l"
  shows "\<not> meta_addr V x" "h \<in> F \<Longrightarrow> blkof x \<noteq> blkof h" "h \<in> F \<Longrightarrow> ind V h \<noteq> 0 \<Longrightarrow> blkof x \<noteq> ind V h"
proof -
  show "\<not> meta_addr V x" using fs_invD(9) [OF i(1,2,4)] not_reserved_addr x by simp
  show "blkof x \<noteq> blkof h" if "h \<in> F" using fs_invD(10) [OF i(1,2,4) that] x by simp
  show "blkof x \<noteq> ind V h" if "h \<in> F" "ind V h \<noteq> 0"
    using fs_invD(11) [OF i(1,2,4) that(1), of 1034] x i(3) by (auto simp: ptr_ind)
qed

lemma put_slot_off:
  assumes "fs_inv V F" "f \<in> F" "has_slot V f k" "blkof x \<noteq> blkof f" "ind V f \<noteq> 0 \<Longrightarrow> blkof x \<noteq> ind V f"
  shows "put4 (slot V f k) w V x = V x"
  by (rule put4_off_block)
    (use slot_al [OF assms(1-3)] slot_block [OF assms(1-3)] has_slot_ind [OF assms(3)] assms(4,5) in
      \<open>auto simp: al_def split: if_splits\<close>)

lemma put_slot_field:
  assumes i: "fs_inv V F" "f \<in> F" "g \<in> F" "has_slot V f k" and j: "j < 256" "j < 136 \<or> 180 \<le> j"
  shows "put4 (slot V f k) w V (field g j) = V (field g j)"
proof -
  have "field g j \<noteq> slot V f k + of_nat m" if m: "m < 4" for m
  proof (cases "k < 10 \<or> k = 1034")
    case True
    have "slot V f k + of_nat m = field f ((if k = 1034 then 176 else 136 + 4 * k) + m)"
      unfolding slot_in_struct [OF True] field_def of_nat_add by (simp only: add.assoc)
    thus ?thesis using fields_neq [OF i(1,3,2) j(1), of "(if k = 1034 then 176 else 136 + 4 * k) + m"] True m j(2)
      by auto
  next
    case False
    have a: "unat (slot V f k) mod 4 = 0" using slot_al [OF i(1,2,4)] by (simp add: al_def)
    have "blkof (slot V f k + of_nat m) = ind V f"
      using slot_block [OF i(1,2,4)] blkof_aligned [OF a m] False by simp
    thus ?thesis using fs_invD(5) [OF i(1,3) j(1)] ind_facts(4) [OF i(1,2) _ i(3)] has_slot_ind [OF i(4)] False
      by auto
  qed
  from this [of 0] this [of 1] this [of 2] this [of 3] show ?thesis by (simp add: put4_def)
qed

lemma kept_mark:
  assumes "fs_inv V F" "b < nblocks V"
  shows "kept V F f (mark_used V b)"
proof -
  note wf = fs_inv_wf [OF assms(1)]
  have "mark_used V b (field g j) = V (field g j)" if "g \<in> F" "j < 256" for g j
    by (rule field_off [OF assms(1) that]) (rule mark_off [OF wf assms(2)])
  moreover have "mark_used V b x = V x" if "g \<in> F" "l < 1034" "ptr V g l \<noteq> 0" "blkof x = ptr V g l" for g l x
    by (rule mark_off [OF wf assms(2)]) (rule data_block_apart(1) [OF assms(1) that])
  ultimately show ?thesis unfolding kept_def
    using fs_inv_mark_used [OF assms] nblocks_mark_wf [OF wf assms(2)] ptr_mark [OF assms] by auto
qed

lemma kept_put_slot:
  assumes i: "fs_inv V F" "f \<in> F" "has_slot V f k" "k \<noteq> 1034" and b: "fresh_block V F b" and z: "ptr V f k = 0"
  shows "kept V F f (put4 (slot V f k) b V)"
proof -
  have "fs_inv (put4 (slot V f k) b V) F"
    by (rule put_slot_inv [OF i]) (use b in \<open>simp add: fresh_block_def\<close>)
  moreover have "put4 (slot V f k) b V x = V x" if "g \<in> F" "l < 1034" "ptr V g l \<noteq> 0" "blkof x = ptr V g l" for g l x
    by (rule put_slot_off [OF i(1-3)]) (use data_block_apart(2,3) [OF i(1) that i(2)] in auto)
  ultimately show ?thesis unfolding kept_def
    using put_slot_meta(1) [OF i(1-3)] put_slot_ptr [OF i(1,2) _ i(3,4)] z put_slot_field [OF i(1,2) _ i(3)] by auto
qed

lemma kept_set_ind:
  assumes i: "fs_inv V F" "f \<in> F" and b: "fresh_block V F b" and z: "ptr V f 1034 = 0"
  shows "kept V F f (zero_block b (put4 (slot V f 1034) b V))" (is "kept V F f ?V")
proof -
  have h: "has_slot V f 1034" by (simp add: has_slot_def)
  have iz: "ind V f = 0" using z by (simp add: ptr_ind)
  have "?V (field g j) = V (field g j)" if "g \<in> F" "j < 256" "j < 136 \<or> 180 \<le> j" for g j
    using put_slot_field [OF i(1,2) that(1) h that(2,3)] fs_invD(5) [OF i(1) that(1,2)] b that(1)
    by (auto simp: zero_block_def fresh_block_def)
  moreover have "?V x = V x" if "g \<in> F" "l < 1034" "ptr V g l \<noteq> 0" "blkof x = ptr V g l" for g l x
  proof -
    have "put4 (slot V f 1034) b V x = V x"
      by (rule put_slot_off [OF i h]) (use data_block_apart(2) [OF i(1) that i(2)] iz in auto)
    thus ?thesis using b that(1,4) by (auto simp: zero_block_def fresh_block_def)
  qed
  ultimately show ?thesis unfolding kept_def
    using set_ind_inv [OF i b z] set_ind_meta(1) [OF i b] set_ind_ptr [OF i _ b z] z by auto
qed

text \<open>A write to a data block.\<close>

lemma data_write:
  assumes i: "fs_inv V F" "f \<in> F" "n < 1034" "ptr V f n \<noteq> 0" and eq: "\<And>x. blkof x \<noteq> ptr V f n \<Longrightarrow> V' x = V x"
  shows "fs_inv V' F" "nblocks V' = nblocks V" "nfree V' = nfree V" "g \<in> F \<Longrightarrow> ptr V' g l = ptr V g l"
    "g \<in> F \<Longrightarrow> j < 256 \<Longrightarrow> V' (field g j) = V (field g j)"
proof -
  note a = data_block_apart [OF i]
  have m: "V' x = V x" if "meta_addr V x" for x using a(1) that eq by blast
  note A = meta_agree [OF fs_inv_wf [OF i(1)], of V', OF m]
  show n: "nblocks V' = nblocks V" by (rule A(1))
  show "nfree V' = nfree V" by (rule nfree_cong [OF n A(2)])
  show p: "ptr V' g l = ptr V g l" if "g \<in> F" for g l
    by (rule ptr_off [OF i(1) that], rule eq) (use a(2,3) that in metis)
  show "fs_inv V' F" by (rule fs_inv_same [OF i(1) A(3) n]) (simp_all add: A(4) p)
  show "V' (field g j) = V (field g j)" if "g \<in> F" "j < 256"
    by (rule field_off [OF i(1) that], rule eq) (use a(2) that(1) in metis)
qed

section \<open>Finding and allocating a block of a file\<close>

text \<open>The blocks that are still free keep their contents.\<close>

definition free_kept :: "mem \<Rightarrow> mem \<Rightarrow> bool" where
  "free_kept V V' \<longleftrightarrow> (\<forall>b < nblocks V. free_bit V' b \<longrightarrow> free_bit V b \<and> (\<forall>x. blkof x = b \<longrightarrow> V' x = V x))"

lemma free_kept_refl [simp]: "free_kept V V"
  by (simp add: free_kept_def)

lemma free_kept_trans: "free_kept V V' \<Longrightarrow> free_kept V' V'' \<Longrightarrow> nblocks V' = nblocks V \<Longrightarrow> free_kept V V''"
  unfolding free_kept_def by metis

lemma free_apart:
  assumes "fs_inv V F" "f \<in> F" "b < nblocks V" "free_bit V b" "blkof x = b"
  shows "\<not> meta_addr V x" "blkof x \<noteq> blkof f" "ind V f \<noteq> 0 \<Longrightarrow> blkof x \<noteq> ind V f"
proof -
  note a = free_block_fresh [OF assms(1,3,4)]
  show "\<not> meta_addr V x" using a(1) not_reserved_addr assms(5) by simp
  show "blkof x \<noteq> blkof f" using a(3) assms(2,5) by simp
  show "blkof x \<noteq> ind V f" using a(4) [OF assms(2), of 1034] assms(5) by (simp add: ptr_ind)
qed

lemma mark_used_facts:
  assumes i: "fs_inv V F" "f \<in> F" and b: "b < nblocks V" "free_bit V b"
  shows "free_kept V (mark_used V b)" "blkof x = b \<Longrightarrow> mark_used V b x = V x"
proof -
  note wf = fs_inv_wf [OF i(1)]
  have u: "unat c < 0xC0000" if "c < nblocks V" for c
    using wf that by (simp add: disk_wf_def word_less_nat_alt word_le_nat_alt)
  have o: "mark_used V b x = V x" if "c < nblocks V" "free_bit V c" "blkof x = c" for c x
    by (rule mark_off(1) [OF wf b(1) free_apart(1) [OF i that]])
  show "free_kept V (mark_used V b)" unfolding free_kept_def
    using free_bit_mark(1) [OF u [OF b(1)] u] o by blast
  show "blkof x = b \<Longrightarrow> mark_used V b x = V x" by (rule o [OF b])
qed

lemma put_slot_free_kept:
  assumes i: "fs_inv V F" "f \<in> F" "has_slot V f k"
  shows "free_kept V (put4 (slot V f k) w V)"
proof -
  have "put4 (slot V f k) w V x = V x" if "b < nblocks V" "free_bit V b" "blkof x = b" for b x
    by (rule put_slot_off [OF i free_apart(2,3) [OF i(1,2) that]])
  thus ?thesis unfolding free_kept_def using put_slot_meta(4) [OF i] by auto
qed

lemma set_ind_free_kept:
  assumes i: "fs_inv V F" "f \<in> F" and b: "fresh_block V F b"
  shows "free_kept V (zero_block b (put4 (slot V f 1034) b V))"
proof -
  have h: "has_slot V f 1034" by (simp add: has_slot_def)
  have "zero_block b (put4 (slot V f 1034) b V) x = V x" if "c < nblocks V" "free_bit V c" "blkof x = c" for c x
    using put_slot_off [OF i h free_apart(2,3) [OF i that]] b that
    by (auto simp: zero_block_def fresh_block_def used_block_def)
  thus ?thesis unfolding free_kept_def using set_ind_meta(4) [OF i b] by auto
qed

text \<open>The block that is allocated next depends on the bitmap only.\<close>

lemma runs_alloc:
  assumes p: "0 < nfree V"
  shows "\<exists>b. b < nblocks V \<and> free_bit V b \<and>
    (\<forall>s. cache_ready s \<longrightarrow> view s = V \<longrightarrow> runs (alloc_block s) s b (mark_used V b) (reqpage s))"
proof -
  define P where "P b \<longleftrightarrow> b < nblocks V \<and> free_bit V b \<and> (\<forall>c < b. \<not> free_bit V c)" for b
  have un: "b = c" if "P b" "P c" for b c using that unfolding P_def by (meson linorder_cases)
  have ex: "\<exists>b. P b \<and> runs (alloc_block s) s b (mark_used V b) (reqpage s)" if s: "cache_ready s" "view s = V" for s
    using alloc_block_step [OF s(1)]
  proof (elim disjE exE conjE)
    fix t b assume h: "alloc_block s = Done b t" "b < nblocks (view s)" "free_bit (view s) b"
      "\<forall>c < b. \<not> free_bit (view s) c" "evolves s t (mark_used (view s) b)" "cache_ready t"
    show ?thesis using runsI [OF h(1,5,6)] h(2-4) s(2) unfolding P_def by blast
  next
    assume "\<forall>c<nblocks (view s). \<not> free_bit (view s) c"
    thus ?thesis using nfree_pos [OF p] s(2) by blast
  qed
  show ?thesis
  proof (cases "\<exists>s. cache_ready s \<and> view s = V")
    case True
    then obtain b where "P b" using ex by blast
    thus ?thesis using ex un P_def by metis
  next
    case False
    thus ?thesis using nfree_pos [OF p] by blast
  qed
qed

text \<open>The slot of a direct block, and of an indirect one when there is an indirect block.\<close>

lemma slot_direct: "unat fb < 10 \<Longrightarrow> f_direct f fb = slot V f (unat fb)"
  by (simp add: f_direct_def slot_def field_def)

lemma slot_indirect:
  assumes "10 \<le> unat fb" "unat fb < 1034"
  shows "blkbase (ind V f) + 4 * (fb - NDIRECT) = slot V f (unat fb)"
proof -
  have "unat (fb - 10) = unat fb - 10" using assms(1) by (simp add: unat_sub word_le_nat_alt)
  hence "fb - 10 = of_nat (unat fb - 10)" by (metis of_nat_unat ucast_id)
  thus ?thesis using assms by (simp add: slot_def)
qed

lemma ind_word: "get4 (f_indirect f) V = ind V f"
  by (simp add: f_indirect_def ind_def field_def)

lemma ind_al: "fs_inv V F \<Longrightarrow> f \<in> F \<Longrightarrow> al (f_indirect f) \<and> used_block V (blkof (f_indirect f))"
  using field_al [of V F f 176] fs_invD(4) [of V F f] fs_invD(5) [of V F f 176]
  by (simp add: f_indirect_def field_def)

definition new_ind :: "mem \<Rightarrow> u32 \<Rightarrow> nat \<Rightarrow> nat" where
  "new_ind V f n = (if 10 \<le> n \<and> ind V f = 0 then 1 else 0)"

lemma walk_limits: "unat fb < 1034 \<Longrightarrow> (NDIRECT + NINDIRECT \<le> fb) = False"
  "(fb < NDIRECT) = (unat fb < 10)"
  by (simp_all add: word_le_nat_alt word_less_nat_alt)

lemma small_positive: "unat b < 0xC0000 \<Longrightarrow> sint (b :: u32) < 0 \<longleftrightarrow> False"
proof -
  assume h: "unat b < 0xC0000"
  have "uint b = int (unat b)" by simp
  hence "uint b < 0xC0000" using h by linarith
  moreover have "0 \<le> uint b" by simp
  ultimately show ?thesis by (simp add: sint_u32)
qed

lemma runs_clear:
  assumes r: "cache_ready t" and b: "b < nblocks (view t)" "\<not> reserved (view t) b"
    and k: "\<And>u. cache_ready u \<Longrightarrow> view u = zero_block b (view t) \<Longrightarrow> reqpage u = reqpage t \<Longrightarrow> runs (k () u) u x W S"
  shows "runs (case sys_page_alloc_at (blkbase b) t of (error, s) \<Rightarrow>
      if error \<noteq> 0 then e else kbind (st_bytes (replicate (unat BLKSIZE) 0) (blkbase b) s) k) t x W S"
proof -
  obtain u where u: "sys_page_alloc_at (blkbase b) t = (0, u)"
    "runs (st_bytes (replicate (unat BLKSIZE) 0) (blkbase b) u) t () (zero_block b (view t)) (reqpage t)"
    using clear_block_step [OF r b] by blast
  show ?thesis unfolding u(1) case_prod_conv
    by (simp only: simp_thms if_False) (rule runs_bind [OF u(2)], rule k)
qed

lemma walk_alloc:
  assumes r: "cache_ready s" and i: "fs_inv (view s) F" "f \<in> F" and fb: "unat fb < 1034"
    and p: "new_ind (view s) f (unat fb) \<le> nfree (view s)"
  shows "\<exists>V. runs (file_block_walk f fb True s) s (Inr (slot V f (unat fb))) V (reqpage s) \<and>
    kept (view s) F f V \<and> has_slot V f (unat fb) \<and> ptr V f (unat fb) = ptr (view s) f (unat fb) \<and>
    nfree (view s) = nfree V + new_ind (view s) f (unat fb) \<and> free_kept (view s) V \<and>
    (new_ind (view s) f (unat fb) = 0 \<longrightarrow> V = view s)"
proof -
  let ?V = "view s" and ?n = "unat fb"
  note wf = fs_inv_wf [OF i(1)] and lim = walk_limits [of fb]
  consider (direct) "?n < 10" | (old) "10 \<le> ?n" "ind ?V f \<noteq> 0" | (new) "10 \<le> ?n" "ind ?V f = 0" by linarith
  thus ?thesis
  proof cases
    case direct
    have "runs (file_block_walk f fb True s) s (Inr (slot ?V f ?n)) ?V (reqpage s)"
      using direct fb r slot_direct [OF direct] by (simp add: file_block_walk_def lim runs_Done del: NDIRECT_def NINDIRECT_def)
    thus ?thesis using direct kept_refl [OF i(1)] by (auto simp: new_ind_def has_slot_def)
  next
    case old
    have ub: "ind ?V f < nblocks ?V" using ind_facts(1) [OF i old(2)] by (simp add: used_block_def)
    have ld: "runs (ld32 (f_indirect f) t) t (ind ?V f) ?V (reqpage s)"
      if "cache_ready t" "view t = ?V" "reqpage t = reqpage s" for t
      using runs_ld32 [OF that(1), of "f_indirect f"] ind_al [OF i] that(2,3) by (simp add: ind_word)
    have da: "runs (diskaddr (ind ?V f) t) t (blkbase (ind ?V f)) ?V (reqpage s)"
      if "cache_ready t" "view t = ?V" "reqpage t = reqpage s" for t
      using runs_diskaddr [OF that(1) old(2)] ub that(2,3) by simp
    have "runs (file_block_walk f fb True s) s (Inr (slot ?V f ?n)) ?V (reqpage s)"
      unfolding file_block_walk_def Let_def lim(2) using old(1) lim(1) [OF fb]
      apply (simp only: if_False not_less [symmetric])
      apply (rule runs_bind [OF ld [OF r refl refl]])
      apply (simp only: old(2) not_False_eq_True if_True)
      apply (rule runs_bind [OF ld], assumption+)
      apply (rule runs_bind [OF da], assumption+)
      apply (simp only: runs_Done slot_indirect [OF old(1) fb] simp_thms)
      done
    thus ?thesis using old fb kept_refl [OF i(1)] by (intro exI [of _ ?V]) (simp add: new_ind_def has_slot_def)
  next
    case new
    hence "0 < nfree ?V" using p by (simp add: new_ind_def)
    from runs_alloc [OF this] obtain b where b: "b < nblocks ?V" "free_bit ?V b"
      and run: "\<And>t. cache_ready t \<Longrightarrow> view t = ?V \<Longrightarrow> runs (alloc_block t) t b (mark_used ?V b) (reqpage t)" by blast
    let ?V1 = "mark_used ?V b"
    let ?V2 = "put4 (slot ?V1 f 1034) b ?V1"
    let ?V3 = "zero_block b ?V2"
    note wf1 = nblocks_mark_wf [OF wf b(1)]
    have i1: "fs_inv ?V1 F" by (rule fs_inv_mark_used [OF i(1) b(1)])
    have fr: "fresh_block ?V1 F b" by (rule fresh_mark_used [OF i(1) b])
    have h: "has_slot ?V1 f 1034" by (simp add: has_slot_def)
    have z: "ptr ?V1 f 1034 = 0" using new(2) ptr_mark(1) [OF i(1) b(1) i(2), of 1034] ptr_ind [of ?V f] by simp
    have sl: "slot ?V1 f 1034 = f_indirect f" by (simp add: slot_def f_indirect_def field_def)
    have b0: "b \<noteq> 0" "\<not> reserved ?V1 b" using fr by (simp_all add: fresh_block_def)
    have n: "nblocks ?V1 = nblocks ?V" "nblocks ?V2 = nblocks ?V" "nblocks ?V3 = nblocks ?V"
      using wf1 put_slot_meta(1) [OF i1 i(2) h] set_ind_meta(1) [OF i1 i(2) fr] by simp_all
    have i3: "fs_inv ?V3 F" by (rule set_ind_inv [OF i1 i(2) fr z])
    have p3: "ptr ?V3 f l = (if l = 1034 then b else ptr ?V f l)" for l
      using set_ind_ptr [OF i1 i(2) i(2) fr z, of l] ptr_mark(1) [OF i(1) b(1) i(2), of l] by simp
    hence ind3: "ind ?V3 f = b" using p3 [of 1034] by (simp add: ptr_ind)
    have fin: "blkbase b + 4 * (fb - NDIRECT) = slot ?V3 f ?n"
      using slot_indirect [OF new(1) fb, of ?V3 f] unfolding ind3 .
    have pos: "\<not> sint b < 0" using small_positive [OF cache_readyD(7) [OF r b(1)]] by simp
    have ld: "runs (ld32 (f_indirect f) t) t (ind (view t) f) (view t) (reqpage t)"
      if "cache_ready t" "fs_inv (view t) F" for t
      using runs_ld32 [OF that(1), of "f_indirect f"] ind_al [OF that(2) i(2)] by (simp add: ind_word)
    have st: "runs (st32 (f_indirect f) b t) t () ?V2 (reqpage t)" if "cache_ready t" "view t = ?V1" for t
      using runs_st32 [OF that(1), of "f_indirect f" b] ind_al [OF i1 i(2)] that(2) put_slot_meta(1,2) [OF i1 i(2) h, of b]
      by (simp add: sl)
    have da: "runs (diskaddr c t) t (blkbase b) (view t) (reqpage t)"
      if "cache_ready t" "nblocks (view t) = nblocks ?V" "c = b" for t c
      using runs_diskaddr [OF that(1) b0(1)] b(1) that(2,3) by simp
    have fl: "runs (flush_block (blkbase b) t) t () (view t) (reqpage t)"
      if "cache_ready t" "nblocks (view t) = nblocks ?V" for t
      using runs_flush [OF that(1)] b(1) that(2) blkbase_facts(2) [OF cache_readyD(7) [OF r b(1)]] by simp
    have "runs (file_block_walk f fb True s) s (Inr (slot ?V3 f ?n)) ?V3 (reqpage s)"
      unfolding file_block_walk_def Let_def lim(2) using new(1) lim(1) [OF fb]
      apply (simp only: if_False not_less [symmetric])
      apply (rule runs_bind [OF ld [OF r i(1)]])
      apply (simp only: new(2) simp_thms if_False)
      apply (rule runs_bind [OF run], assumption+)
      apply (simp only: pos if_False)
      apply (rule runs_bind [OF st], assumption+)
      apply (rule runs_bind [OF da], assumption, simp only: n, rule refl)
      apply (rule runs_clear, assumption)
        apply (simp only: n b(1))
       apply (simp only: reserved_same [OF trans [OF n(2) n(1) [symmetric]]] b0(2) not_False_eq_True)
      apply (rule runs_bind [OF fl], assumption, simp only: n)
      apply (rule runs_bind [OF ld], assumption, simp only: i3)
      apply (rule runs_bind [OF da], assumption, simp only: n, simp only: ind3)
      apply (simp only: runs_Done fin simp_thms)
      done
    moreover have "kept ?V F f ?V3"
      by (rule kept_trans [OF kept_mark [OF i(1) b(1)] kept_set_ind [OF i1 i(2) fr z]])
    moreover have "nfree ?V = nfree ?V3 + new_ind ?V f ?n"
    proof -
      have "nfree ?V3 = nfree ?V1"
        by (rule nfree_cong) (use set_ind_meta(1,4) [OF i1 i(2) fr] in auto)
      thus ?thesis using nfree_mark_used [OF wf b] new by (simp add: new_ind_def)
    qed
    moreover have "free_kept ?V ?V3"
      by (rule free_kept_trans [OF mark_used_facts(1) [OF i b] set_ind_free_kept [OF i1 i(2) fr] n(1)])
    moreover have "has_slot ?V3 f ?n" using ind3 b0(1) fb by (simp add: has_slot_def)
    moreover have "ptr ?V3 f ?n = ptr ?V f ?n" using p3 fb by simp
    ultimately show ?thesis using new by (intro exI [of _ ?V3]) (simp add: new_ind_def)
  qed
qed

definition new_ptr :: "mem \<Rightarrow> u32 \<Rightarrow> nat \<Rightarrow> nat" where
  "new_ptr V f n = (if ptr V f n = 0 then 1 else 0)"

text \<open>The slot of a pointer after another block has been marked.\<close>

lemma slot_mark_used:
  assumes "fs_inv V F" "f \<in> F" "b < nblocks V"
  shows "slot (mark_used V b) f n = slot V f n" "has_slot (mark_used V b) f n = has_slot V f n"
  using ptr_mark(1) [OF assms(1,3,2), of 1034] by (simp_all add: ptr_ind slot_def has_slot_def)

lemma get_block_alloc:
  assumes i: "fs_inv V F" "f \<in> F" and n: "has_slot V f n" "n \<noteq> 1034" "ptr V f n = 0" and b: "b < nblocks V" "free_bit V b"
  defines "V' \<equiv> put4 (slot V f n) b (mark_used V b)"
  shows "kept V F f V'" "ptr V' f n = b" "nfree V = Suc (nfree V')" "b \<noteq> 0" "nblocks V' = nblocks V" "disk_wf V'"
    "used_block V' (blkof (slot V f n))" "blkof x = b \<Longrightarrow> V' x = V x" "free_kept V V'"
proof -
  let ?V1 = "mark_used V b"
  note wf = fs_inv_wf [OF i(1)]
  have i1: "fs_inv ?V1 F" by (rule fs_inv_mark_used [OF i(1) b(1)])
  have fr: "fresh_block ?V1 F b" by (rule fresh_mark_used [OF i(1) b])
  note sl = slot_mark_used [OF i b(1)]
  have h1: "has_slot ?V1 f n" using n(1) by (simp add: sl)
  have p1: "ptr ?V1 f n = 0" using n(3) ptr_mark(1) [OF i(1) b(1) i(2)] by simp
  have V': "V' = put4 (slot ?V1 f n) b ?V1" by (simp add: V'_def sl)
  have k: "kept ?V1 F f V'" unfolding V' by (rule kept_put_slot [OF i1 i(2) h1 n(2) fr p1])
  show "kept V F f V'" by (rule kept_trans [OF kept_mark [OF i(1) b(1)] k])
  show "ptr V' f n = b" unfolding V' using put_slot_ptr [OF i1 i(2) i(2) h1 n(2)] by simp
  have "nfree V' = nfree ?V1" unfolding V'
    by (rule nfree_cong [OF put_slot_meta(1,4) [OF i1 i(2) h1]])
  thus "nfree V = Suc (nfree V')" using nfree_mark_used [OF wf b] by simp
  show "b \<noteq> 0" using fr by (simp add: fresh_block_def)
  show nb: "nblocks V' = nblocks V" using keptD(2) [OF k] nblocks_mark_wf [OF wf b(1)] by simp
  show "disk_wf V'" by (rule fs_inv_wf [OF keptD(1) [OF k]])
  show "used_block V' (blkof (slot V f n))"
    using slot_used [OF i1 i(2) h1] put_slot_meta(3) [OF i1 i(2) h1] by (simp add: V' sl(1))
  show "V' x = V x" if "blkof x = b"
  proof -
    have "V' x = ?V1 x" unfolding V'
      by (rule put_slot_off [OF i1 i(2) h1])
        (use fr i(2) that ptr_ind [of ?V1 f] in \<open>auto simp: fresh_block_def\<close>)
    thus ?thesis using mark_used_facts(2) [OF i b that] by simp
  qed
  show "free_kept V V'"
    unfolding V' by (rule free_kept_trans [OF mark_used_facts(1) [OF i b] put_slot_free_kept [OF i1 i(2) h1]
      nblocks_mark_wf(1) [OF wf b(1)]])
qed

text \<open>The part of \<^verbatim>\<open>file_get_block\<close> after the walk.\<close>

definition fill_slot :: "u32 \<Rightarrow> (u32 + u32) fsm" where
  "fill_slot ref s =
    kbind (ld32 ref s) (\<lambda>b s.
    kbind (if b = 0 then kbind (alloc_block s) (\<lambda>b s. st32 ref b s) else Done () s) (\<lambda>_ s.
    kbind (ld32 ref s) (\<lambda>b s.
      if b < 0 then Done (Inl (- E_NO_DISK)) s
      else kbind (diskaddr b s) (\<lambda>a s. Done (Inr a) s))))"

lemma file_get_block_eq:
  "file_get_block f filebno s = kbind (file_block_walk f filebno True s)
     (\<lambda>r s. case r of Inl e \<Rightarrow> Done (Inl e) s | Inr ref \<Rightarrow> fill_slot ref s)"
  unfolding file_get_block_def fill_slot_def by (rule refl)

lemma fill_slot_run:
  assumes i: "fs_inv V F" "f \<in> F" and h: "has_slot V f n" "n \<noteq> 1034" and p: "new_ptr V f n \<le> nfree V"
  shows "\<exists>W. (\<forall>s. cache_ready s \<longrightarrow> view s = V \<longrightarrow>
        runs (fill_slot (slot V f n) s) s (Inr (blkbase (ptr W f n))) W (reqpage s)) \<and>
    kept V F f W \<and> ptr W f n \<noteq> 0 \<and> nfree V = nfree W + new_ptr V f n \<and> (ptr V f n \<noteq> 0 \<longrightarrow> W = V) \<and>
    (ptr V f n = 0 \<longrightarrow> free_bit V (ptr W f n) \<and> (\<forall>x. blkof x = ptr W f n \<longrightarrow> W x = V x)) \<and>
    nblocks W = nblocks V \<and> ptr W f n < nblocks V"
proof -
  have al: "al (slot V f n)" by (rule slot_al [OF i h(1)])
  have us: "used_block V (blkof (slot V f n))" by (rule slot_used [OF i h(1)])
  have pe: "get4 (slot V f n) V = ptr V f n" using h(1) by (simp add: ptr_def)
  have ld: "runs (ld32 (slot V f n) t) t (get4 (slot V f n) (view t)) (view t) (reqpage t)"
    if "cache_ready t" "used_block (view t) (blkof (slot V f n))" for t
    by (rule runs_ld32 [OF that al])
  have nz: "\<not> b < (0 :: u32)" for b by simp
  show ?thesis
  proof (cases "ptr V f n = 0")
    case False
    have u: "ptr V f n < nblocks V" using fs_invD(8) [OF i False] by (simp add: used_block_def)
    have da: "runs (diskaddr (ptr V f n) t) t (blkbase (ptr V f n)) V (reqpage t)"
      if "cache_ready t" "view t = V" for t
      using runs_diskaddr [OF that(1) False] u that(2) by simp
    have "runs (fill_slot (slot V f n) s) s (Inr (blkbase (ptr V f n))) V (reqpage s)"
      if s: "cache_ready s" "view s = V" for s
      unfolding fill_slot_def
      apply (rule runs_bind [OF ld [OF s(1)]], simp only: s us)
      apply (simp only: s pe False if_False kbind.simps)
      apply (rule runs_bind [OF ld], assumption, simp only: us)
      apply (simp only: pe nz if_False)
      apply (rule runs_bind [OF da], assumption+)
      apply (simp only: runs_Done simp_thms)
      done
    thus ?thesis using False u kept_refl [OF i(1)] by (intro exI [of _ V]) (simp add: new_ptr_def)
  next
    case True
    hence "0 < nfree V" using p by (simp add: new_ptr_def)
    from runs_alloc [OF this] obtain b where b: "b < nblocks V" "free_bit V b"
      and run: "\<And>t. cache_ready t \<Longrightarrow> view t = V \<Longrightarrow> runs (alloc_block t) t b (mark_used V b) (reqpage t)" by blast
    let ?V1 = "mark_used V b"
    let ?V2 = "put4 (slot V f n) b ?V1"
    note g = get_block_alloc [OF i h True b]
    have st: "runs (st32 (slot V f n) b t) t () ?V2 (reqpage t)" if "cache_ready t" "view t = ?V1" for t
      using runs_st32 [OF that(1) _ al, of b] g(5,6) us that(2) nblocks_mark_wf(1) [OF fs_inv_wf [OF i(1)] b(1)]
        disk_wf_mark(3) [OF fs_inv_wf [OF i(1)] b(1)] by simp
    have da: "runs (diskaddr b t) t (blkbase b) ?V2 (reqpage t)" if "cache_ready t" "view t = ?V2" for t
      using runs_diskaddr [OF that(1) g(4)] b(1) g(5) that(2) by simp
    have al_st: "runs (kbind (alloc_block t) (\<lambda>b s. st32 (slot V f n) b s)) t () ?V2 (reqpage t)"
      if t: "cache_ready t" "view t = V" for t
    proof (rule runs_bind [OF run [OF t]])
      fix u assume "cache_ready u" "view u = ?V1" "reqpage u = reqpage t"
      thus "runs (st32 (slot V f n) b u) u () ?V2 (reqpage t)" using st by metis
    qed
    have g4: "get4 (slot V f n) ?V2 = b" by (simp add: get4_put4_same)
    have "runs (fill_slot (slot V f n) s) s (Inr (blkbase b)) ?V2 (reqpage s)"
      if s: "cache_ready s" "view s = V" for s
      unfolding fill_slot_def
      apply (rule runs_bind [OF ld [OF s(1)]], simp only: s us)
      apply (simp only: s pe True simp_thms if_True)
      apply (rule runs_bind [OF al_st], assumption+)
      apply (rule runs_bind [OF ld], assumption, simp only: g(7))
      apply (simp only: g4 nz if_False)
      apply (rule runs_bind [OF da], assumption+)
      apply (simp only: runs_Done simp_thms)
      done
    thus ?thesis using True g b by (intro exI [of _ ?V2]) (simp add: new_ptr_def)
  qed
qed

lemma get_block:
  assumes r: "cache_ready s" and i: "fs_inv (view s) F" "f \<in> F" and fb: "unat fb < 1034"
    and p: "new_ind (view s) f (unat fb) + new_ptr (view s) f (unat fb) \<le> nfree (view s)"
  shows "\<exists>V. runs (file_get_block f fb s) s (Inr (blkbase (ptr V f (unat fb)))) V (reqpage s) \<and>
    kept (view s) F f V \<and> ptr V f (unat fb) \<noteq> 0 \<and>
    nfree (view s) = nfree V + new_ind (view s) f (unat fb) + new_ptr (view s) f (unat fb) \<and>
    (ptr (view s) f (unat fb) \<noteq> 0 \<longrightarrow> V = view s) \<and>
    (ptr (view s) f (unat fb) = 0 \<longrightarrow> free_bit (view s) (ptr V f (unat fb)) \<and>
      (\<forall>x. blkof x = ptr V f (unat fb) \<longrightarrow> V x = view s x))"
proof -
  let ?V = "view s" and ?n = "unat fb"
  obtain W where W: "runs (file_block_walk f fb True s) s (Inr (slot W f ?n)) W (reqpage s)"
    "kept ?V F f W" "has_slot W f ?n" "ptr W f ?n = ptr ?V f ?n" "nfree ?V = nfree W + new_ind ?V f ?n"
    "free_kept ?V W" "new_ind ?V f ?n = 0 \<longrightarrow> W = ?V"
    using walk_alloc [OF r i fb] p by auto
  have pe: "new_ptr W f ?n = new_ptr ?V f ?n" using W(4) by (simp add: new_ptr_def)
  have "new_ptr W f ?n \<le> nfree W" using p W(5) pe by simp
  from fill_slot_run [OF keptD(1) [OF W(2)] i(2) W(3) _ this] fb obtain V where
    run: "\<And>t. cache_ready t \<Longrightarrow> view t = W \<Longrightarrow>
      runs (fill_slot (slot W f ?n) t) t (Inr (blkbase (ptr V f ?n))) V (reqpage t)"
    and V: "kept W F f V" "ptr V f ?n \<noteq> 0" "nfree W = nfree V + new_ptr W f ?n" "ptr W f ?n \<noteq> 0 \<longrightarrow> V = W"
    "ptr W f ?n = 0 \<longrightarrow> free_bit W (ptr V f ?n) \<and> (\<forall>x. blkof x = ptr V f ?n \<longrightarrow> V x = W x)"
    "ptr V f ?n < nblocks W" by auto
  have "runs (file_get_block f fb s) s (Inr (blkbase (ptr V f ?n))) V (reqpage s)"
    unfolding file_get_block_eq
    by (rule runs_bind [OF W(1)], simp only: sum.case) (use run in metis)
  moreover have "kept ?V F f V" by (rule kept_trans [OF W(2) V(1)])
  moreover have "new_ind ?V f ?n = 0" if "ptr ?V f ?n \<noteq> 0"
    using that fb by (auto simp: new_ind_def ptr_def has_slot_def split: if_splits)
  moreover have "free_bit ?V (ptr V f ?n) \<and> (\<forall>x. blkof x = ptr V f ?n \<longrightarrow> V x = ?V x)" if "ptr ?V f ?n = 0"
    using W(4,6) V(5,6) that keptD(2) [OF W(2)] unfolding free_kept_def by auto
  ultimately show ?thesis using V W(4,5,7) pe by (intro exI [of _ V]) auto
qed

section \<open>Copying between the request page and a block\<close>

lemma write_bytes_out:
  assumes "\<forall>i < length bs. x \<noteq> a + of_nat i" shows "write_bytes a bs V x = V x"
proof (cases "length bs \<le> unat (x - a)")
  case True thus ?thesis by (rule write_bytes_frame)
next
  case False
  hence "x \<noteq> a + of_nat (unat (x - a))" using assms not_le by blast
  moreover have "x = a + of_nat (unat (x - a))" by simp
  ultimately show ?thesis by blast
qed

text \<open>A range of the request page.\<close>

definition in_page :: "u32 \<Rightarrow> nat \<Rightarrow> bool" where
  "in_page a n \<longleftrightarrow> unat (a - FSREQ) + n \<le> 4096"

lemma in_page_Suc:
  assumes "in_page a (Suc n)" shows "a - FSREQ < PGSIZE" "in_page (a + 1) n"
proof -
  have l: "unat (a - FSREQ) < 4096" using assms by (simp add: in_page_def)
  thus "a - FSREQ < PGSIZE" by (simp add: word_less_nat_alt)
  have p: "unat (w + 1) = unat w + 1" if "unat w < 4096" for w :: u32 using that unat_plus [of w 1] by simp
  have e: "a + 1 - FSREQ = (a - FSREQ) + 1" by simp
  show "in_page (a + 1) n" unfolding in_page_def e p [OF l] using assms by (simp add: in_page_def)
qed

lemma in_page_plus: "in_page a (m + n) \<Longrightarrow> in_page (a + of_nat m) n"
  by (induction m arbitrary: a) (use in_page_Suc(2) in \<open>force simp: add.assoc\<close>)+

lemma srv_ld_page: "in_page a n \<Longrightarrow> srv_ld n a s = Done (map (\<lambda>i. reqpage s (a + of_nat i)) [0..<n]) s"
proof (induction n arbitrary: a)
  case (Suc n)
  show ?case
    using Suc.IH [OF in_page_Suc(2) [OF Suc.prems]] in_page_Suc(1) [OF Suc.prems]
    by (simp add: srv_ld8_def upt_conv_Cons map_Suc_upt [symmetric] add.assoc del: upt_Suc FSREQ_def)
qed simp

lemma srv_st_page: "in_page a (length bs) \<Longrightarrow>
    srv_st bs a s = Done () (s\<lparr>reqpage := write_bytes a bs (reqpage s)\<rparr>)"
proof (induction bs arbitrary: a s)
  case (Cons b bs)
  have p: "in_page a (Suc (length bs))" using Cons.prems by simp
  have "srv_st8 a b s = Done () (s\<lparr>reqpage := (reqpage s)(a := b)\<rparr>)"
    using in_page_Suc(1) [OF p] by (simp only: srv_st8_def if_True)
  thus ?case using Cons.IH [OF in_page_Suc(2) [OF p], of "s\<lparr>reqpage := (reqpage s)(a := b)\<rparr>"]
    by (simp del: fun_upd_apply)
qed simp

lemma block_off_page: "unat b < 0xC0000 \<Longrightarrow> j < 4096 \<Longrightarrow> \<not> blkbase b + of_nat j - FSREQ < PGSIZE"
proof -
  assume h: "unat b < 0xC0000" "j < 4096"
  have e: "blkbase b + of_nat j - FSREQ = b * 0x1000 + of_nat j + 0x1000" by (simp add: blkbase_def)
  have "unat (b * 0x1000 + of_nat j + 0x1000) = 4096 * unat b + j + 4096"
    using h by (simp add: unat_word_ariths unat_of_nat)
  thus ?thesis unfolding e by (simp add: word_less_nat_alt)
qed

lemma srv_ld_block:
  assumes "cache_ready s" "used_block (view s) b" "j + n \<le> 4096"
  shows "runs (srv_ld n (blkbase b + of_nat j) s) s (map (\<lambda>i. view s (blkbase b + of_nat (j + i))) [0..<n])
    (view s) (reqpage s)"
  using assms
proof (induction n arbitrary: j s)
  case 0 thus ?case by (simp add: runs_Done)
next
  case (Suc n)
  let ?a = "blkbase b + of_nat j"
  have u: "unat b < 0xC0000" using used_small [OF ready_wf] Suc.prems(1,2) by blast
  have j: "j < 4096" using Suc.prems(3) by simp
  have ld: "srv_ld8 ?a s = ld8 ?a s" for s
    using block_off_page [OF u j] by (simp only: srv_ld8_def if_False)
  have r8: "runs (ld8 ?a s) s (view s ?a) (view s) (reqpage s)"
    by (rule runs_ld8 [OF Suc.prems(1)]) (simp only: blkof_off [OF u j] Suc.prems(2))
  have "runs (srv_ld n (?a + 1) t) t (map (\<lambda>i. view s (blkbase b + of_nat (Suc j + i))) [0..<n]) (view s) (reqpage s)"
    if t: "cache_ready t" "view t = view s" "reqpage t = reqpage s" for t
    using Suc.IH [of t "Suc j"] Suc.prems(2,3) t by (simp add: algebra_simps)
  hence "runs (srv_ld (Suc n) ?a s) s
      (view s ?a # map (\<lambda>i. view s (blkbase b + of_nat (Suc j + i))) [0..<n]) (view s) (reqpage s)"
    unfolding srv_ld.simps ld by (intro runs_bind [OF r8] runs_bind) (auto simp: runs_Done)
  moreover have "map (\<lambda>i. view s (blkbase b + of_nat (j + i))) [0..<Suc n] =
      view s ?a # map (\<lambda>i. view s (blkbase b + of_nat (Suc j + i))) [0..<n]"
    by (simp add: upt_conv_Cons map_Suc_upt [symmetric] add_ac del: upt_Suc)
  ultimately show ?case by metis
qed

lemma srv_st_block:
  assumes "cache_ready s" "used_block (view s) b" "\<not> reserved (view s) b" "j + length bs \<le> 4096"
  shows "runs (srv_st bs (blkbase b + of_nat j) s) s () (write_bytes (blkbase b + of_nat j) bs (view s)) (reqpage s)"
  using assms
proof (induction bs arbitrary: j s)
  case Nil thus ?case by (simp add: runs_Done)
next
  case (Cons c bs)
  let ?a = "blkbase b + of_nat j" and ?V = "view s"
  have u: "unat b < 0xC0000" using used_small [OF ready_wf] Cons.prems(1,2) by blast
  have j: "j < 4096" using Cons.prems(4) by simp
  have st: "srv_st8 ?a c s = st8 ?a c s" for s
    using block_off_page [OF u j] by (simp only: srv_st8_def if_False)
  note ab = blkof_off [OF u j]
  have "(?V(?a := c)) x = ?V x" if "meta_addr ?V x" for x
    using that Cons.prems(3) not_reserved_addr ab by auto
  note m = meta_agree [OF ready_wf [OF Cons.prems(1)], of "?V(?a := c)", OF this]
  have r8: "runs (st8 ?a c s) s () (?V(?a := c)) (reqpage s)"
    by (rule runs_step [OF Cons.prems(1) st8_step [OF Cons.prems(1)] m(3,1)]) (simp only: ab Cons.prems(2))
  have "runs (srv_st bs (?a + 1) t) t () (write_bytes (?a + 1) bs (?V(?a := c))) (reqpage s)"
    if t: "cache_ready t" "view t = ?V(?a := c)" "reqpage t = reqpage s" for t
  proof -
    have "\<not> reserved (view t) b" using reserved_same [of "view t" ?V] Cons.prems(3) m(1) t(2) by simp
    moreover have "used_block (view t) b" using m(4) Cons.prems(2) t(2) by simp
    ultimately show ?thesis using Cons.IH [of t "Suc j"] Cons.prems(4) t
      by (simp add: algebra_simps del: fun_upd_apply)
  qed
  thus ?case unfolding srv_st.simps st write_bytes.simps by (intro runs_bind [OF r8]) auto
qed

end
