(* ===== verification/FsFiles.thy ===== *)
theory FsFiles
  imports FsBlocks
begin

text \<open>
  Files as lists of bytes: \<^verbatim>\<open>file_write\<close>, \<^verbatim>\<open>file_read\<close> and \<^verbatim>\<open>fs_sync\<close> against what they promise.
\<close>

section \<open>The contents of a file\<close>

definition fdata :: "mem \<Rightarrow> u32 \<Rightarrow> nat \<Rightarrow> u8" where
  "fdata V f p = V (blkbase (ptr V f (p div 4096)) + of_nat (p mod 4096))"

text \<open>From \<open>V\<close> to \<open>V'\<close> the \<open>n\<close> bytes of \<open>f\<close> from \<open>p\<close> on have become \<open>ds\<close>, and blocks have been
  allocated for them; the other data of the files is as before.\<close>

definition wrote :: "mem \<Rightarrow> u32 set \<Rightarrow> u32 \<Rightarrow> nat \<Rightarrow> nat \<Rightarrow> (nat \<Rightarrow> u8) \<Rightarrow> mem \<Rightarrow> bool" where
  "wrote V F f p n ds V' \<longleftrightarrow> fs_inv V' F \<and> nblocks V' = nblocks V \<and>
     (\<forall>g \<in> F. \<forall>l. ptr V g l \<noteq> 0 \<longrightarrow> ptr V' g l = ptr V g l) \<and>
     (\<forall>g \<in> F. g \<noteq> f \<longrightarrow> (\<forall>l. ptr V' g l = ptr V g l)) \<and>
     (\<forall>g \<in> F. \<forall>j < 256. j < 136 \<or> 180 \<le> j \<longrightarrow> V' (field g j) = V (field g j)) \<and>
     (\<forall>i < n. ptr V' f ((p + i) div 4096) \<noteq> 0 \<and> fdata V' f (p + i) = ds i) \<and>
     (\<forall>g \<in> F. \<forall>q < 1034 * 4096. ptr V g (q div 4096) \<noteq> 0 \<longrightarrow> \<not> (g = f \<and> p \<le> q \<and> q < p + n) \<longrightarrow>
        fdata V' g q = fdata V g q)"

lemma wroteD:
  assumes "wrote V F f p n ds V'"
  shows "fs_inv V' F" "nblocks V' = nblocks V"
    "g \<in> F \<Longrightarrow> ptr V g l \<noteq> 0 \<Longrightarrow> ptr V' g l = ptr V g l"
    "g \<in> F \<Longrightarrow> g \<noteq> f \<Longrightarrow> ptr V' g l = ptr V g l"
    "g \<in> F \<Longrightarrow> j < 256 \<Longrightarrow> j < 136 \<or> 180 \<le> j \<Longrightarrow> V' (field g j) = V (field g j)"
    "i < n \<Longrightarrow> ptr V' f ((p + i) div 4096) \<noteq> 0" "i < n \<Longrightarrow> fdata V' f (p + i) = ds i"
    "g \<in> F \<Longrightarrow> q < 1034 * 4096 \<Longrightarrow> ptr V g (q div 4096) \<noteq> 0 \<Longrightarrow> \<not> (g = f \<and> p \<le> q \<and> q < p + n) \<Longrightarrow>
       fdata V' g q = fdata V g q"
  using assms unfolding wrote_def by blast+

lemma wrote_trans:
  assumes f: "f \<in> F" and e: "p + m + n \<le> 1034 * 4096"
    and w: "wrote V F f p m ds V1" and w': "wrote V1 F f (p + m) n (\<lambda>i. ds (m + i)) V2"
  shows "wrote V F f p (m + n) ds V2"
proof -
  have p: "ptr V2 g l = ptr V g l" if "g \<in> F" "ptr V g l \<noteq> 0" for g l
    using wroteD(3) [OF w that] wroteD(3) [OF w' that(1), of l] that(2) by simp
  moreover have "ptr V2 g l = ptr V g l" if "g \<in> F" "g \<noteq> f" for g l
    using wroteD(4) [OF w that] wroteD(4) [OF w' that] by simp
  moreover have "V2 (field g j) = V (field g j)" if "g \<in> F" "j < 256" "j < 136 \<or> 180 \<le> j" for g j
    using wroteD(5) [OF w that] wroteD(5) [OF w' that] by simp
  moreover have "ptr V2 f ((p + i) div 4096) \<noteq> 0 \<and> fdata V2 f (p + i) = ds i" if i: "i < m + n" for i
  proof (cases "i < m")
    case True
    note a = wroteD(6) [OF w True] wroteD(7) [OF w True]
    show ?thesis using a wroteD(3) [OF w' f a(1)] wroteD(8) [OF w' f _ a(1)] True e by simp
  next
    case False
    thus ?thesis using wroteD(6,7) [OF w', of "i - m"] i by simp
  qed
  moreover have "fdata V2 g q = fdata V g q"
    if "g \<in> F" "q < 1034 * 4096" "ptr V g (q div 4096) \<noteq> 0" "\<not> (g = f \<and> p \<le> q \<and> q < p + (m + n))" for g q
  proof -
    have "fdata V1 g q = fdata V g q" by (rule wroteD(8) [OF w that(1-3)]) (use that(4) in auto)
    moreover have "fdata V2 g q = fdata V1 g q"
      by (rule wroteD(8) [OF w' that(1,2)]) (use that(3,4) wroteD(3) [OF w that(1,3)] in auto)
    ultimately show ?thesis by simp
  qed
  ultimately show ?thesis
    unfolding wrote_def using wroteD(1) [OF w'] wroteD(2) [OF w] wroteD(2) [OF w'] by simp
qed

lemma fdata_block:
  assumes "fs_inv V F" "g \<in> F" "q < 1034 * 4096" "ptr V g (q div 4096) \<noteq> 0"
  shows "q div 4096 < 1034" "unat (ptr V g (q div 4096)) < 0xC0000"
    "blkof (blkbase (ptr V g (q div 4096)) + of_nat (q mod 4096)) = ptr V g (q div 4096)"
proof -
  show "q div 4096 < 1034" using assms(3) by (simp add: less_mult_imp_div_less)
  show u: "unat (ptr V g (q div 4096)) < 0xC0000"
    by (rule used_small [OF fs_inv_wf [OF assms(1)] fs_invD(8) [OF assms(1,2,4)]])
  show "blkof (blkbase (ptr V g (q div 4096)) + of_nat (q mod 4096)) = ptr V g (q div 4096)"
    by (rule blkof_off [OF u]) simp
qed

lemma kept_fdata:
  assumes "fs_inv V F" "kept V F f V'" "g \<in> F" "q < 1034 * 4096" "ptr V g (q div 4096) \<noteq> 0"
  shows "fdata V' g q = fdata V g q"
  using keptD(3) [OF assms(2,3,5)] keptD(6) [OF assms(2,3) _ assms(5)] fdata_block [OF assms(1,3-5)]
  by (simp add: fdata_def)

lemma wrote_nothing:
  assumes "fs_inv V F" "kept V F f V'" shows "wrote V F f p 0 ds V'"
  unfolding wrote_def using keptD(1-5) [OF assms(2)] kept_fdata [OF assms] by auto

text \<open>Bytes stored into one block.\<close>

lemma block_store:
  assumes i: "fs_inv V F" "f \<in> F" and n: "n < 1034" "ptr V f n \<noteq> 0" and m: "j + length bs \<le> 4096"
  defines "V' \<equiv> write_bytes (blkbase (ptr V f n) + of_nat j) bs V"
  shows "fs_inv V' F" "nblocks V' = nblocks V" "nfree V' = nfree V" "g \<in> F \<Longrightarrow> ptr V' g l = ptr V g l"
    "g \<in> F \<Longrightarrow> k < 256 \<Longrightarrow> V' (field g k) = V (field g k)"
proof -
  have u: "unat (ptr V f n) < 0xC0000" by (rule used_small [OF fs_inv_wf [OF i(1)] fs_invD(8) [OF i n(2)]])
  have off: "V' x = V x" if "blkof x \<noteq> ptr V f n" for x
    unfolding V'_def
  proof (rule write_bytes_out, intro allI impI)
    fix k assume "k < length bs"
    hence "j + k < 4096" using m by simp
    from blkof_off [OF u this] show "x \<noteq> blkbase (ptr V f n) + of_nat j + of_nat k"
      using that by (auto simp: add.assoc)
  qed
  show "fs_inv V' F" "nblocks V' = nblocks V" "nfree V' = nfree V"
    by (rule data_write(1,2,3) [OF i n], rule off, assumption)+
  show "g \<in> F \<Longrightarrow> ptr V' g l = ptr V g l"
    by (rule data_write(4) [OF i n]) (rule off)
  show "g \<in> F \<Longrightarrow> k < 256 \<Longrightarrow> V' (field g k) = V (field g k)"
    by (rule data_write(5) [OF i n]) (rule off)
qed

lemma wrote_block:
  assumes i: "fs_inv V F" "f \<in> F" and n: "p div 4096 < 1034" "ptr V f (p div 4096) \<noteq> 0"
    and m: "p mod 4096 + length bs \<le> 4096"
  shows "wrote V F f p (length bs) ((!) bs) (write_bytes (blkbase (ptr V f (p div 4096)) + of_nat (p mod 4096)) bs V)"
    (is "wrote V F f p _ _ ?V")
proof -
  let ?c = "ptr V f (p div 4096)" and ?o = "p mod 4096"
  let ?a = "blkbase ?c + of_nat ?o"
  have u: "unat ?c < 0xC0000" by (rule used_small [OF fs_inv_wf [OF i(1)] fs_invD(8) [OF i n(2)]])
  have ad: "?a + of_nat j = blkbase ?c + of_nat (?o + j)" for j by (simp add: add.assoc)
  note W = block_store(1,2) [OF i n m] and Wp = block_store(4) [OF i n m] and Wf = block_store(5) [OF i n m]
  have at: "fdata ?V f (p + j) = bs ! j" "(p + j) div 4096 = p div 4096" if j: "j < length bs" for j
  proof -
    have jo: "?o + j < 4096" using j m by simp
    have e: "p + j = 4096 * (p div 4096) + (?o + j)" by simp
    show d: "(p + j) div 4096 = p div 4096" by (rule div_nat_eqI) (use jo e mult_Suc_right [of 4096 "p div 4096"] in linarith)+
    have "(p + j) mod 4096 = ?o + j" using e div_mult_mod_eq [of "p + j" 4096] d by linarith
    thus "fdata ?V f (p + j) = bs ! j"
      using write_bytes_at [of j bs ?a V] j m unfolding fdata_def d Wp [OF i(2)] ad by simp
  qed
  have "fdata ?V g q = fdata V g q"
    if "g \<in> F" "q < 1034 * 4096" "ptr V g (q div 4096) \<noteq> 0" "\<not> (g = f \<and> p \<le> q \<and> q < p + length bs)" for g q
  proof -
    note F = fdata_block [OF i(1) that(1-3)]
    have "?V (blkbase (ptr V g (q div 4096)) + of_nat (q mod 4096)) = V (blkbase (ptr V g (q div 4096)) + of_nat (q mod 4096))"
    proof (rule write_bytes_out, intro allI impI notI)
      fix j assume j: "j < length bs"
        and h: "blkbase (ptr V g (q div 4096)) + of_nat (q mod 4096) = ?a + of_nat j"
      have "ptr V g (q div 4096) = ?c \<and> q mod 4096 = ?o + j"
        using h blkbase_inj [OF F(2) u, of "q mod 4096" "?o + j"] j m unfolding ad by simp
      moreover from this have "g = f \<and> q div 4096 = p div 4096" using fs_invD(11) [OF i(1) that(1,3) i(2)] by metis
      ultimately have "g = f" "q = p + j" using div_mult_mod_eq [of q 4096] div_mult_mod_eq [of p 4096] by linarith+
      thus False using that(4) j by simp
    qed
    thus ?thesis using Wp [OF that(1)] by (simp add: fdata_def)
  qed
  thus ?thesis unfolding wrote_def using W Wp Wf at n(2) i(2) by simp
qed

section \<open>Positions in a file\<close>

lemma pos_div:
  assumes "p < 1034 * 4096"
  shows "sdiv32 (of_nat p) BLKSIZE = of_nat (p div 4096)" "smod32 (of_nat p) BLKSIZE = of_nat (p mod 4096)"
    "unat (of_nat (p div 4096) :: u32) = p div 4096"
proof -
  have s: "sint (of_nat p :: u32) = int p" using assms by (simp add: sint_u32 uint_nat unat_of_nat)
  have b: "sint (0x1000 :: u32) = 4096" by (simp add: sint_u32)
  show "sdiv32 (of_nat p) BLKSIZE = of_nat (p div 4096)"
    using s b of_nat_div [of p 4096, where 'a = int] by (simp add: sdiv32_def signed_divide_int_def)
      (metis of_int_of_nat_eq)
  show "smod32 (of_nat p) BLKSIZE = of_nat (p mod 4096)"
    using s b of_nat_mod [of p 4096, where 'a = int]
    by (simp add: smod32_def signed_modulo_int_def signed_divide_int_def) (metis of_int_of_nat_eq)
  show "unat (of_nat (p div 4096) :: u32) = p div 4096"
    using assms by (simp add: unat_of_nat)
qed

section \<open>Writing\<close>

lemma wrote_cong: "wrote V F f p n ds V' \<Longrightarrow> (\<forall>i < n. ds i = ds' i) \<Longrightarrow> wrote V F f p n ds' V'"
  unfolding wrote_def by simp

text \<open>The number of blocks that the positions from \<open>p\<close> up to \<open>e\<close> lie in, and the free blocks that
  are enough to write there.\<close>

definition nspan :: "nat \<Rightarrow> nat \<Rightarrow> nat" where
  "nspan p e = (if p < e then (e - 1) div 4096 + 1 - p div 4096 else 0)"

definition room :: "mem \<Rightarrow> u32 \<Rightarrow> nat \<Rightarrow> nat \<Rightarrow> bool" where
  "room V f p e \<longleftrightarrow> (if ind V f = 0 then 1 else 0) + nspan p e \<le> nfree V"

lemma nspan_step:
  assumes "p < e" "m = min (4096 - p mod 4096) (e - p)"
  shows "0 < m" "p + m \<le> e" "p mod 4096 + m \<le> 4096" "nspan (p + m) e + 1 \<le> nspan p e"
proof -
  have r: "p mod 4096 < 4096" by simp
  show "0 < m" "p + m \<le> e" "p mod 4096 + m \<le> 4096" using assms r by auto
  have a: "p div 4096 \<le> (e - 1) div 4096" by (rule div_le_mono) (use assms(1) in simp)
  show "nspan (p + m) e + 1 \<le> nspan p e"
  proof (cases "p + m < e")
    case False
    thus ?thesis using assms(1) a by (simp add: nspan_def)
  next
    case True
    hence "m + p mod 4096 = 4096" using assms r by auto
    moreover have "p + m = 4096 * (p div 4096) + (m + p mod 4096)" by simp
    ultimately have e: "p + m = 4096 * (p div 4096 + 1)" by simp
    hence d: "(p + m) div 4096 = p div 4096 + 1" by simp
    have "(p + m) div 4096 \<le> (e - 1) div 4096" by (rule div_le_mono) (use True in simp)
    thus ?thesis using True assms(1) a unfolding nspan_def d by (simp add: Suc_diff_le)
  qed
qed

lemma step_size:
  assumes "p < e" "e \<le> 1034 * 4096"
  shows "min (BLKSIZE - smod32 (of_nat p) BLKSIZE) (of_nat e - of_nat p) =
      of_nat (min (4096 - p mod 4096) (e - p))"
    and "unat (of_nat (min (4096 - p mod 4096) (e - p)) :: u32) = min (4096 - p mod 4096) (e - p)"
proof -
  have r: "p mod 4096 < 4096" by simp
  have a: "BLKSIZE - smod32 (of_nat p) BLKSIZE = of_nat (4096 - p mod 4096)"
    using pos_div(2) [of p] assms r by (simp add: of_nat_diff)
  have b: "of_nat e - of_nat p = (of_nat (e - p) :: u32)" using assms by (simp add: of_nat_diff)
  have u: "unat (of_nat (4096 - p mod 4096) :: u32) = 4096 - p mod 4096" "unat (of_nat (e - p) :: u32) = e - p"
    using assms by (simp_all add: unat_of_nat del: of_nat_diff)
  show "min (BLKSIZE - smod32 (of_nat p) BLKSIZE) (of_nat e - of_nat p) =
      of_nat (min (4096 - p mod 4096) (e - p))"
    unfolding a b min_def word_le_nat_alt u by (simp only: if_distrib [of "of_nat :: nat \<Rightarrow> u32"])
  show "unat (of_nat (min (4096 - p mod 4096) (e - p)) :: u32) = min (4096 - p mod 4096) (e - p)"
    using u by (simp add: min_def)
qed

lemma memmove_to_block:
  assumes "cache_ready s" "used_block (view s) b" "\<not> reserved (view s) b" "j + m \<le> 4096" "in_page buf m"
  shows "runs (srv_memmove (blkbase b + of_nat j) buf (of_nat m) s) s ()
    (write_bytes (blkbase b + of_nat j) (map (\<lambda>i. reqpage s (buf + of_nat i)) [0..<m]) (view s)) (reqpage s)"
proof -
  have u: "unat (of_nat m :: u32) = m" using assms(4) by (simp add: unat_of_nat)
  show ?thesis
    unfolding srv_memmove_def u srv_ld_page [OF assms(5)] kbind.simps
    by (rule srv_st_block [OF assms(1-3)]) (use assms(4) in simp)
qed

lemma room_step:
  assumes r: "room V f p e" "p < e" "m = min (4096 - p mod 4096) (e - p)"
    and k: "kept V F f V1" "f \<in> F" "ptr V1 f (p div 4096) \<noteq> 0" "p div 4096 < 1034"
      "nfree V = nfree V1 + new_ind V f (p div 4096) + new_ptr V f (p div 4096)"
    and W: "nfree V2 = nfree V1" "ptr V2 f 1034 = ptr V1 f 1034"
  shows "room V2 f (p + m) e"
proof -
  let ?A = "\<lambda>V. if ind V f = 0 then 1 else 0 :: nat"
  have "?A V1 + new_ind V f (p div 4096) \<le> ?A V"
  proof (cases "ind V f = 0")
    case False
    thus ?thesis using keptD(3) [OF k(1,2), of 1034] by (simp add: ptr_ind new_ind_def)
  next
    case True
    have "ind V1 f \<noteq> 0" if "10 \<le> p div 4096"
      using k(3,4) that by (auto simp: ptr_def has_slot_def split: if_splits)
    thus ?thesis using True by (simp add: new_ind_def)
  qed
  moreover have "?A V2 = ?A V1" using W(2) by (simp add: ptr_ind)
  moreover have "new_ptr V f (p div 4096) \<le> 1" by (simp add: new_ptr_def)
  ultimately show ?thesis using r(1) nspan_step(4) [OF r(2,3)] k(5) W(1) unfolding room_def by linarith
qed

lemma room_get_block:
  assumes "room V f p e" "p < e"
  shows "new_ind V f (p div 4096) + new_ptr V f (p div 4096) \<le> nfree V"
proof -
  have "p div 4096 \<le> (e - 1) div 4096" by (rule div_le_mono) (use assms(2) in simp)
  hence "1 \<le> nspan p e" using assms(2) by (simp add: nspan_def)
  thus ?thesis using assms(1) unfolding room_def new_ind_def new_ptr_def by (auto split: if_splits)
qed

text \<open>The memory after the rest of the code may depend on the state.\<close>

lemma runs_then:
  assumes "runs x s r V R"
    and "\<And>t. cache_ready t \<Longrightarrow> view t = V \<Longrightarrow> reqpage t = R \<Longrightarrow> \<exists>W. runs (k r t) t r' W S \<and> P W"
  shows "\<exists>W. runs (kbind x k) s r' W S \<and> P W"
proof -
  obtain t where t: "x = Done r t" "cache_ready t" "reqpage t = R" "view t = V"
    "evolves s (t\<lparr>reqpage := reqpage s\<rparr>) V"
    using assms(1) by (auto simp: runs_def evolves_def)
  obtain W where W: "runs (k r t) t r' W S" "P W" using assms(2) [OF t(2,4,3)] by blast
  obtain v where v: "k r t = Done r' v" "evolves t (v\<lparr>reqpage := reqpage t\<rparr>) W" "cache_ready v" "reqpage v = S"
    using W(1) by (auto simp: runs_def)
  have "evolves s (v\<lparr>reqpage := reqpage s\<rparr>) W"
    using evolves_reqpage [OF v(2), of "reqpage s"] step_trans [OF t(5)] by simp
  thus ?thesis using v W(2) t(1) by (auto simp: runs_def)
qed

lemma write_loop:
  assumes "cache_ready s" "fs_inv (view s) F" "f \<in> F" "p \<le> e" "e \<le> 1034 * 4096" "in_page buf (e - p)"
    "e - p < fuel" "room (view s) f p e"
  shows "\<exists>W. runs (rw_loop (\<lambda>blk buf n. srv_memmove blk buf n) fuel f buf (of_nat e) (of_nat p) s) s None W (reqpage s) \<and>
    wrote (view s) F f p (e - p) (\<lambda>i. reqpage s (buf + of_nat i)) W"
  using assms
proof (induction fuel arbitrary: s p buf)
  case 0 thus ?case by simp
next
  case (Suc fuel)
  let ?V = "view s" and ?R = "reqpage s"
  have e32: "of_nat p < (of_nat e :: u32) \<longleftrightarrow> p < e"
    using Suc.prems(4,5) by (simp add: word_less_nat_alt unat_of_nat)
  show ?case
  proof (cases "p < e")
    case False
    hence "e - p = 0" by simp
    thus ?thesis using False e32 Suc.prems(1) wrote_nothing [OF Suc.prems(2) kept_refl [OF Suc.prems(2)]]
      by (intro exI [of _ ?V]) (simp add: runs_Done)
  next
    case pe: True
    let ?n = "p div 4096"
    define m where "m = min (4096 - p mod 4096) (e - p)"
    note ms = nspan_step [OF pe m_def]
    have p: "p < 1034 * 4096" using pe Suc.prems(5) by simp
    have n: "?n < 1034" using p by (simp add: less_mult_imp_div_less)
    note pd = pos_div [OF p]
    obtain V1 where g: "runs (file_get_block f (of_nat ?n) s) s (Inr (blkbase (ptr V1 f ?n))) V1 ?R"
      and k: "kept ?V F f V1" "ptr V1 f ?n \<noteq> 0" "nfree ?V = nfree V1 + new_ind ?V f ?n + new_ptr ?V f ?n"
      using get_block [OF Suc.prems(1-3), of "of_nat ?n"] room_get_block [OF Suc.prems(8) pe] n unfolding pd(3) by blast
    note i1 = keptD(1) [OF k(1)]
    let ?bs = "map (\<lambda>i. ?R (buf + of_nat i)) [0..<m]"
    let ?V2 = "write_bytes (blkbase (ptr V1 f ?n) + of_nat (p mod 4096)) ?bs V1"
    have wb: "wrote V1 F f p m ((!) ?bs) ?V2"
      using wrote_block [OF i1 Suc.prems(3) n k(2), of ?bs] ms(3) by simp
    have w: "wrote ?V F f p m (\<lambda>i. ?R (buf + of_nat i)) ?V2"
      by (rule wrote_trans [where m = 0, simplified, OF Suc.prems(3) _ wrote_nothing [OF Suc.prems(2) k(1)]
            wrote_cong [OF wb]]) (use ms(2) Suc.prems(5) in simp_all)
    have pg: "in_page buf m" "in_page (buf + of_nat m) (e - (p + m))"
      using Suc.prems(6) in_page_plus [of buf m "e - (p + m)"] ms(2) by (auto simp: in_page_def)
    have i2: "fs_inv ?V2 F" by (rule wroteD(1) [OF wb])
    have l: "p mod 4096 + length ?bs \<le> 4096" using ms(3) by simp
    have ro: "room ?V2 f (p + m) e"
      by (rule room_step [OF Suc.prems(8) pe m_def k(1) Suc.prems(3) k(2) n k(3)
        block_store(3) [OF i1 Suc.prems(3) n k(2) l] block_store(4) [OF i1 Suc.prems(3) n k(2) l Suc.prems(3)]])
    have mm: "runs (srv_memmove (blkbase (ptr V1 f ?n) + of_nat (p mod 4096)) buf (of_nat m) t) t () ?V2 ?R"
      if t: "cache_ready t" "view t = V1" "reqpage t = ?R" for t
      using memmove_to_block [OF t(1), of "ptr V1 f ?n" "p mod 4096" m buf] t(2,3) ms(3) pg(1)
        fs_invD(8,9) [OF i1 Suc.prems(3) k(2)] by simp
    have st: "\<exists>W. runs (rw_loop (\<lambda>blk buf n. srv_memmove blk buf n) fuel f (buf + of_nat m) (of_nat e) (of_nat (p + m)) t)
          t None W ?R \<and> wrote ?V2 F f (p + m) (e - (p + m)) (\<lambda>i. ?R (buf + of_nat m + of_nat i)) W"
      if t: "cache_ready t" "view t = ?V2" "reqpage t = ?R" for t
      using Suc.IH [of t "p + m" "buf + of_nat m"] t i2 Suc.prems(3,5,7) ms(1,2) pg(2) ro by simp
    have ds: "wrote ?V F f p (e - p) (\<lambda>i. ?R (buf + of_nat i)) W"
      if "wrote ?V2 F f (p + m) (e - (p + m)) (\<lambda>i. ?R (buf + of_nat m + of_nat i)) W" for W
    proof -
      have "wrote ?V F f p (m + (e - (p + m))) (\<lambda>i. ?R (buf + of_nat i)) W"
        by (rule wrote_trans [OF Suc.prems(3) _ w wrote_cong [OF that]]) (use ms(2) Suc.prems(5) in \<open>simp_all add: add.assoc\<close>)
      thus ?thesis using ms(2) by simp
    qed
    show ?thesis
      unfolding rw_loop.simps Let_def pd(1,2) e32 if_P [OF pe]
    proof (rule runs_then [OF g])
      fix t assume t: "cache_ready t" "view t = V1" "reqpage t = ?R"
      show "\<exists>W. runs (case Inr (blkbase (ptr V1 f ?n)) of Inl r \<Rightarrow> Done (Some r) t
          | Inr blk \<Rightarrow> kbind (srv_memmove (blk + of_nat (p mod 4096)) buf (min (BLKSIZE - of_nat (p mod 4096)) (of_nat e - of_nat p)) t)
              (\<lambda>_. rw_loop (\<lambda>blk buf n. srv_memmove blk buf n) fuel f
                 (buf + min (BLKSIZE - of_nat (p mod 4096)) (of_nat e - of_nat p)) (of_nat e)
                 (of_nat p + min (BLKSIZE - of_nat (p mod 4096)) (of_nat e - of_nat p)))) t None W ?R \<and>
          wrote ?V F f p (e - p) (\<lambda>i. ?R (buf + of_nat i)) W"
        unfolding sum.case step_size(1) [OF pe Suc.prems(5), unfolded pd(2)] m_def [symmetric] of_nat_add [symmetric]
        by (rule runs_then [OF mm [OF t]]) (use st ds in blast)
    qed
  qed
qed

text \<open>A store to a word of a file structure before the block pointers.\<close>

lemma put_field:
  fixes w :: u32
  assumes i: "fs_inv V F" "f \<in> F" and k: "k mod 4 = 0" "k < 136"
  defines "V' \<equiv> put4 (field f k) w V"
  shows "fs_inv V' F" "nblocks V' = nblocks V" "disk_wf V'" "nfree V' = nfree V"
    "g \<in> F \<Longrightarrow> ptr V' g l = ptr V g l"
    "g \<in> F \<Longrightarrow> l < 1034 \<Longrightarrow> ptr V g l \<noteq> 0 \<Longrightarrow> blkof x = ptr V g l \<Longrightarrow> V' x = V x"
    "g \<in> F \<Longrightarrow> m mod 4 = 0 \<Longrightarrow> m < 256 \<Longrightarrow> get4 (field g m) V' = (if g = f \<and> m = k then w else get4 (field g m) V)"
proof -
  note a = field_al [OF i k(1)]
  have kb: "k < 256" using k(2) by simp
  have wd: "field f k + of_nat j = field f (k + j)" for j by (simp add: field_def add.assoc)
  have nm: "\<not> meta_addr V (field f k + of_nat j)" if "j < 4" for j
    unfolding wd by (rule fs_invD(6) [OF i]) (use that k(2) in simp)
  have "V' x = V x" if m: "meta_addr V x" for x
  proof -
    have "x \<noteq> field f k + of_nat j" if "j < 4" for j using nm [OF that] m by auto
    from this [of 0] this [of 1] this [of 2] this [of 3] show ?thesis by (simp add: V'_def put4_def)
  qed
  note M = meta_agree [OF fs_inv_wf [OF i(1)], of V', OF this]
  show n: "nblocks V' = nblocks V" by (rule M(1))
  show wf: "disk_wf V'" by (rule M(3))
  show "nfree V' = nfree V" by (rule nfree_cong [OF n M(2)])
  show g4: "get4 (field g m) V' = (if g = f \<and> m = k then w else get4 (field g m) V)"
    if "g \<in> F" "m mod 4 = 0" "m < 256" for g m
    using get4_put4_al [OF a field_al [OF i(1) that(1,2)]] fields_neq [OF i(1) that(1) i(2) that(3) kb]
    by (simp add: V'_def)
  show p: "ptr V' g l = ptr V g l" if g: "g \<in> F" for g l
  proof (rule ptr_eqI)
    show "ind V' g = ind V g" unfolding ind_def using g4 [OF g, of 176] k(2) by simp
    assume h: "has_slot V g l"
    have "slot V g l \<noteq> field f k" by (rule slot_field_neq [OF i(1) g i(2) h kb]) (use k(2) in simp)
    thus "get4 (slot V g l) V' = get4 (slot V g l) V"
      using get4_put4_al [OF a slot_al [OF i(1) g h]] by (simp add: V'_def)
  qed
  show "fs_inv V' F" by (rule fs_inv_same [OF i(1) wf n]) (simp_all add: p M(4))
  show "V' x = V x" if "g \<in> F" "l < 1034" "ptr V g l \<noteq> 0" "blkof x = ptr V g l"
    unfolding V'_def
    by (rule put4_off_block) (use a data_block_apart(2) [OF i(1) that i(2)] fs_invD(5) [OF i kb] in \<open>auto simp: al_def\<close>)
qed

lemma fsize_run:
  assumes "cache_ready s" "fs_inv (view s) F" "f \<in> F"
  shows "runs (ld32 (f_size f) s) s (fsize (view s) f) (view s) (reqpage s)"
    and "runs (st32 (f_size f) w s) s () (put4 (field f 128) w (view s)) (reqpage s)"
    and "runs (flush_block f s) s () (view s) (reqpage s)"
proof -
  have a: "al (f_size f)" and e: "f_size f = field f 128"
    using field_al [OF assms(2,3), of 128] by (simp_all add: f_size_def field_def)
  have u: "used_block (view s) (blkof (f_size f))"
    unfolding e using fs_invD(4) [OF assms(2,3)] fs_invD(5) [OF assms(2,3), of 128] by simp
  show "runs (ld32 (f_size f) s) s (fsize (view s) f) (view s) (reqpage s)"
    using runs_ld32 [OF assms(1) u a] by (simp add: fsize_def e)
  show "runs (st32 (f_size f) w s) s () (put4 (field f 128) w (view s)) (reqpage s)"
    using runs_st32 [OF assms(1) u a, of w] put_field(2,3) [OF assms(2,3), where k = 128 and w = w] by (simp add: e)
  show "runs (flush_block f s) s () (view s) (reqpage s)"
    by (rule runs_flush [OF assms(1)]) (use fs_invD(4) [OF assms(2,3)] in \<open>simp add: used_block_def\<close>)
qed

text \<open>Growing a file changes its size only; its new blocks are allocated when they are used.\<close>

lemma grow_run:
  assumes "cache_ready s" "fs_inv (view s) F" "f \<in> F" "sint (fsize (view s) f) \<le> sint n"
  shows "runs (file_set_size f n s) s 0 (put4 (field f 128) n (view s)) (reqpage s)"
  unfolding file_set_size_def
proof (rule runs_bind [OF fsize_run(1) [OF assms(1-3)]])
  fix t assume t: "cache_ready t" "view t = view s" "reqpage t = reqpage s"
  have i: "fs_inv (put4 (field f 128) n (view s)) F" by (rule put_field(1) [OF assms(2,3)]) simp_all
  show "runs (kbind (if sint n < sint (fsize (view s) f) then file_truncate_blocks f n t else Done () t)
      (\<lambda>_ s. kbind (st32 (f_size f) n s) (\<lambda>_ s. kbind (flush_block f s) (\<lambda>_. Done 0)))) t 0
      (put4 (field f 128) n (view s)) (reqpage s)"
    using assms(4)
    apply (simp only: not_less [symmetric] if_False kbind.simps)
    apply (rule runs_bind)
     apply (rule fsize_run(2) [OF t(1), of F], simp only: t assms, rule assms)
    apply (rule runs_bind)
     apply (rule fsize_run(3) [of _ F], assumption, simp only: t i, rule assms)
    apply (simp add: runs_Done t)
    done
qed

lemma fsize_wrote: "wrote V F f p n ds W \<Longrightarrow> g \<in> F \<Longrightarrow> fsize W g = fsize V g"
proof -
  assume h: "wrote V F f p n ds W" "g \<in> F"
  have "field g 128 + of_nat k = field g (128 + k)" for k by (simp add: field_def add.assoc)
  thus ?thesis unfolding fsize_def using wroteD(5) [OF h] by (intro get4_cong) simp
qed

lemma fdata_put_field:
  assumes "fs_inv V F" "f \<in> F" "g \<in> F" "k mod 4 = 0" "k < 136" "q < 1034 * 4096" "ptr V g (q div 4096) \<noteq> 0"
  shows "fdata (put4 (field f k) w V) g q = fdata V g q"
  using put_field(5,6) [OF assms(1,2,4,5)] fdata_block [OF assms(1,3,6,7)] assms(3,7) by (simp add: fdata_def)

text \<open>The run of \<^verbatim>\<open>file_write\<close>.\<close>

lemma file_write_run:
  assumes r: "cache_ready s" and i: "fs_inv (view s) F" "f \<in> F" and e: "unat offset + unat count \<le> 1034 * 4096"
    and b: "in_page buf (unat count)" and ro: "room (view s) f (unat offset) (unat offset + unat count)"
  defines "V \<equiv> if fsize (view s) f < offset + count then put4 (field f 128) (offset + count) (view s) else view s"
  shows "\<exists>W. runs (file_write f buf count offset s) s count W (reqpage s) \<and>
    wrote V F f (unat offset) (unat count) (\<lambda>i. reqpage s (buf + of_nat i)) W"
proof -
  let ?e = "unat offset + unat count"
  have s: "unat (offset + count) = ?e" using e by (intro unat_plus) simp
  have iV: "fs_inv V F" and nV: "nfree V = nfree (view s)" and pV: "ptr V f 1034 = ptr (view s) f 1034"
    using i put_field(1,4) [OF i, where k = 128 and w = "offset + count"]
      put_field(5) [OF i _ _ i(2), where k = 128 and w = "offset + count"] by (auto simp: V_def)
  have roV: "room V f (unat offset) ?e" using ro nV pV by (simp add: room_def ptr_ind)
  have grow: "runs (if fsize (view s) f < offset + count then file_set_size f (offset + count) t else Done 0 t) t 0 V (reqpage t)"
    if t: "cache_ready t" "view t = view s" for t
  proof (cases "fsize (view s) f < offset + count")
    case False thus ?thesis using t by (simp add: V_def runs_Done)
  next
    case True
    hence l: "unat (fsize (view s) f) < ?e" using s by (simp add: word_less_nat_alt)
    have "sint (fsize (view s) f) \<le> sint (offset + count)"
    proof -
      have "sint (fsize (view s) f) = int (unat (fsize (view s) f))" by (rule sint_small) (use l e in linarith)
      moreover have "sint (offset + count) = int ?e" unfolding s [symmetric] by (rule sint_small) (use s e in linarith)
      ultimately show ?thesis using l by linarith
    qed
    thus ?thesis using grow_run [OF t(1), of F f "offset + count"] i t True by (simp add: V_def)
  qed
  have loop: "\<exists>W. runs (rw_loop (\<lambda>blk buf n. srv_memmove blk buf n) (Suc (unat count)) f buf (offset + count) offset t)
      t None W (reqpage s) \<and> wrote V F f (unat offset) (unat count) (\<lambda>i. reqpage s (buf + of_nat i)) W"
    if t: "cache_ready t" "view t = V" "reqpage t = reqpage s" for t
    using write_loop [OF t(1), of F f "unat offset" ?e buf "Suc (unat count)"] iV i(2) e b roV t(2,3) by simp
  have n0: "\<not> sint (0 :: u32) < 0" by simp
  show ?thesis
    unfolding file_write_def
    apply (rule runs_then [OF fsize_run(1) [OF r i]])
    apply (rule runs_then [OF grow], assumption+)
    apply (simp only: n0 if_False)
    subgoal premises prems for t u
    proof -
      from loop [OF prems(4,5)] prems(3,6) obtain W where
        W: "runs (rw_loop (\<lambda>blk buf n. srv_memmove blk buf n) (Suc (unat count)) f buf (offset + count) offset u)
          u None W (reqpage s)"
        "wrote V F f (unat offset) (unat count) (\<lambda>i. reqpage s (buf + of_nat i)) W" by auto
      show ?thesis
        by (rule exI [of _ W], rule conjI [OF _ W(2)], rule runs_bind [OF W(1)]) (simp add: runs_Done)
    qed
    done
qed

section \<open>Reading\<close>

lemma write_bytes_append:
  "write_bytes a (xs @ ys) V = write_bytes (a + of_nat (length xs)) ys (write_bytes a xs V)"
  by (induction xs arbitrary: a V) (simp_all add: add.assoc)

lemma map_upt_split: "map h [0..<m + k] = map h [0..<m] @ map (\<lambda>i. h (m + i)) [0..<k]"
proof -
  have u: "[0..<m + k] = [0..<m] @ [m..<m + k]" by (rule upt_add_eq_append) simp
  have v: "[m..<m + k] = map (\<lambda>i. m + i) [0..<k]" using map_add_upt [of m k] by (simp add: add.commute)
  show ?thesis unfolding u v by (simp add: comp_def)
qed

lemma runs_page: "cache_ready t \<Longrightarrow> runs (Done r (t\<lparr>reqpage := R\<rparr>)) t r (view t) R"
  by (simp add: runs_def)

lemma memmove_from_block:
  assumes "cache_ready s" "used_block (view s) b" "j + m \<le> 4096" "in_page buf m"
  shows "runs (srv_memmove buf (blkbase b + of_nat j) (of_nat m) s) s () (view s)
    (write_bytes buf (map (\<lambda>i. view s (blkbase b + of_nat (j + i))) [0..<m]) (reqpage s))"
proof -
  have u: "unat (of_nat m :: u32) = m" using assms(3) by (simp add: unat_of_nat)
  show ?thesis
    unfolding srv_memmove_def u
  proof (rule runs_bind [OF srv_ld_block [OF assms(1-3)]])
    fix t assume t: "cache_ready t" "view t = view s" "reqpage t = reqpage s"
    show "runs (srv_st (map (\<lambda>i. view s (blkbase b + of_nat (j + i))) [0..<m]) buf t) t () (view s)
      (write_bytes buf (map (\<lambda>i. view s (blkbase b + of_nat (j + i))) [0..<m]) (reqpage s))"
      using srv_st_page [of buf "map (\<lambda>i. view s (blkbase b + of_nat (j + i))) [0..<m]" t] assms(4)
        runs_page [OF t(1), of "()"] t(2,3) by simp
  qed
qed

lemma read_loop:
  assumes "cache_ready s" "view s = V" "fs_inv V F" "f \<in> F" "p \<le> e" "e \<le> 1034 * 4096" "in_page buf (e - p)"
    "e - p < fuel" "\<forall>q. p \<le> q \<and> q < e \<longrightarrow> ptr V f (q div 4096) \<noteq> 0"
  shows "runs (rw_loop (\<lambda>blk buf n. srv_memmove buf blk n) fuel f buf (of_nat e) (of_nat p) s) s None V
    (write_bytes buf (map (\<lambda>i. fdata V f (p + i)) [0..<e - p]) (reqpage s))"
  using assms
proof (induction fuel arbitrary: s p buf)
  case 0 thus ?case by simp
next
  case (Suc fuel)
  have e32: "of_nat p < (of_nat e :: u32) \<longleftrightarrow> p < e"
    using Suc.prems(5,6) by (simp add: word_less_nat_alt unat_of_nat)
  show ?case
  proof (cases "p < e")
    case False
    hence "e - p = 0" by simp
    thus ?thesis using False e32 Suc.prems(1,2) by (simp add: runs_Done)
  next
    case pe: True
    let ?n = "p div 4096"
    define m where "m = min (4096 - p mod 4096) (e - p)"
    note ms = nspan_step [OF pe m_def]
    have p: "p < 1034 * 4096" using pe Suc.prems(6) by simp
    have n: "?n < 1034" using p by (simp add: less_mult_imp_div_less)
    note pd = pos_div [OF p]
    have z: "ptr V f ?n \<noteq> 0" using Suc.prems(9) pe by simp
    hence ni: "new_ind V f ?n = 0" "new_ptr V f ?n = 0"
      using n by (auto simp: new_ind_def new_ptr_def ptr_def has_slot_def split: if_splits)
    have g: "runs (file_get_block f (of_nat ?n) s) s (Inr (blkbase (ptr V f ?n))) V (reqpage s)"
      using get_block [OF Suc.prems(1), of F f "of_nat ?n"] Suc.prems(2-4) n z ni unfolding pd(3) by auto
    let ?bs = "map (\<lambda>i. fdata V f (p + i)) [0..<m]"
    have bs: "map (\<lambda>i. V (blkbase (ptr V f ?n) + of_nat (p mod 4096 + i))) [0..<m] = ?bs"
    proof (rule map_cong [OF refl])
      fix i assume "i \<in> set [0..<m]"
      hence l: "p mod 4096 + i < 4096" using ms(3) by simp
      have q: "p + i = 4096 * (p div 4096) + (p mod 4096 + i)" by simp
      have d: "(p + i) div 4096 = ?n"
        by (rule div_nat_eqI) (use l q mult_Suc_right [of 4096 ?n] in linarith)+
      have "(p + i) mod 4096 = p mod 4096 + i" using q div_mult_mod_eq [of "p + i" 4096] d by linarith
      thus "V (blkbase (ptr V f ?n) + of_nat (p mod 4096 + i)) = fdata V f (p + i)" by (simp add: fdata_def d)
    qed
    have pg: "in_page buf m" "in_page (buf + of_nat m) (e - (p + m))"
      using Suc.prems(7) in_page_plus [of buf m "e - (p + m)"] ms(2) by (auto simp: in_page_def)
    have mm: "runs (srv_memmove buf (blkbase (ptr V f ?n) + of_nat (p mod 4096)) (of_nat m) t) t () V
        (write_bytes buf ?bs (reqpage s))"
      if t: "cache_ready t" "view t = V" "reqpage t = reqpage s" for t
    proof -
      have "used_block (view t) (ptr V f ?n)" using fs_invD(8) [OF Suc.prems(3,4) z] t(2) by simp
      from memmove_from_block [OF t(1) this ms(3) pg(1)] show ?thesis unfolding t(2,3) bs .
    qed
    have fin: "write_bytes (buf + of_nat m) (map (\<lambda>i. fdata V f (p + m + i)) [0..<e - (p + m)]) (write_bytes buf ?bs R) =
        write_bytes buf (map (\<lambda>i. fdata V f (p + i)) [0..<e - p]) R" for R
    proof -
      have ep: "e - p = m + (e - (p + m))" using ms(2) by simp
      have "map (\<lambda>i. fdata V f (p + i)) [0..<e - p] = ?bs @ map (\<lambda>i. fdata V f (p + m + i)) [0..<e - (p + m)]"
        using map_upt_split [of "\<lambda>i. fdata V f (p + i)" m "e - (p + m)"] ep by (simp add: add.assoc)
      thus ?thesis by (simp add: write_bytes_append)
    qed
    have fu: "e - (p + m) < fuel" using Suc.prems(8) ms(1,2) pe by linarith
    have st: "runs (rw_loop (\<lambda>blk buf n. srv_memmove buf blk n) fuel f (buf + of_nat m) (of_nat e) (of_nat (p + m)) t)
          t None V (write_bytes buf (map (\<lambda>i. fdata V f (p + i)) [0..<e - p]) (reqpage s))"
      if t: "cache_ready t" "view t = V" "reqpage t = write_bytes buf ?bs (reqpage s)" for t
      using Suc.IH [OF t(1,2) Suc.prems(3,4) ms(2) Suc.prems(6) pg(2) fu] Suc.prems(9) ms(1) t(3) fin by simp
    show ?thesis
      unfolding rw_loop.simps Let_def pd(1,2) e32 if_P [OF pe]
    proof (rule runs_bind [OF g])
      fix t assume t: "cache_ready t" "view t = V" "reqpage t = reqpage s"
      show "runs (case Inr (blkbase (ptr V f ?n)) of Inl r \<Rightarrow> Done (Some r) t
          | Inr blk \<Rightarrow> kbind (srv_memmove buf (blk + of_nat (p mod 4096)) (min (BLKSIZE - of_nat (p mod 4096)) (of_nat e - of_nat p)) t)
              (\<lambda>_. rw_loop (\<lambda>blk buf n. srv_memmove buf blk n) fuel f
                 (buf + min (BLKSIZE - of_nat (p mod 4096)) (of_nat e - of_nat p)) (of_nat e)
                 (of_nat p + min (BLKSIZE - of_nat (p mod 4096)) (of_nat e - of_nat p)))) t None V
          (write_bytes buf (map (\<lambda>i. fdata V f (p + i)) [0..<e - p]) (reqpage s))"
        unfolding sum.case step_size(1) [OF pe Suc.prems(6), unfolded pd(2)] m_def [symmetric] of_nat_add [symmetric]
        by (rule runs_bind [OF mm [OF t]]) (rule st)
    qed
  qed
qed

section \<open>Files as lists of bytes\<close>

definition contents :: "mem \<Rightarrow> u32 \<Rightarrow> u8 list" where
  "contents V f = map (fdata V f) [0..<unat (fsize V f)]"

text \<open>A file whose size is in bounds and which has all its blocks.\<close>

definition solid :: "mem \<Rightarrow> u32 \<Rightarrow> bool" where
  "solid V f \<longleftrightarrow> unat (fsize V f) \<le> 1034 * 4096 \<and> (\<forall>q < unat (fsize V f). ptr V f (q div 4096) \<noteq> 0)"

text \<open>What a write does to the list.\<close>

definition splice :: "nat \<Rightarrow> u8 list \<Rightarrow> u8 list \<Rightarrow> u8 list" where
  "splice p ds c = take p c @ ds @ drop (p + length ds) c"

lemma splice_read: "p \<le> length c \<Longrightarrow> take (length ds) (drop p (splice p ds c)) = ds"
  by (simp add: splice_def)

lemma contents_eq:
  "fsize V' g = fsize V g \<Longrightarrow> (\<forall>q < unat (fsize V g). fdata V' g q = fdata V g q) \<Longrightarrow> contents V' g = contents V g"
  by (simp add: contents_def)

lemma splice_nth:
  assumes "p \<le> length c" "q < max (length c) (p + length ds)"
  shows "splice p ds c ! q = (if p \<le> q \<and> q < p + length ds then ds ! (q - p) else c ! q)"
  using assms by (auto simp: splice_def nth_append)

lemma splice_length: "p \<le> length c \<Longrightarrow> length (splice p ds c) = max (length c) (p + length ds)"
  by (auto simp: splice_def)

lemma wrote_contents:
  assumes i: "fs_inv V F" "f \<in> F" and so: "\<forall>g \<in> F. solid V g" and n: "unat offset \<le> unat (fsize V f)"
    "unat offset + unat count \<le> 1034 * 4096"
    and w: "wrote (if fsize V f < offset + count then put4 (field f 128) (offset + count) V else V)
      F f (unat offset) (unat count) ((!) ds) W" "length ds = unat count"
  shows "\<forall>g \<in> F. solid W g" "contents W f = splice (unat offset) ds (contents V f)"
    "g \<in> F \<Longrightarrow> g \<noteq> f \<Longrightarrow> contents W g = contents V g"
proof -
  let ?U = "if fsize V f < offset + count then put4 (field f 128) (offset + count) V else V"
  let ?p = "unat offset" and ?n = "unat count"
  have s: "unat (offset + count) = ?p + ?n" using n(2) by (intro unat_plus) simp
  have pU: "ptr ?U g l = ptr V g l" if "g \<in> F" for g l
    using put_field(5) [OF i _ _ that, where k = 128 and w = "offset + count"] by simp
  have fU: "fdata ?U g q = fdata V g q" if "g \<in> F" "q < 1034 * 4096" "ptr V g (q div 4096) \<noteq> 0" for g q
    using fdata_put_field [OF i that(1) _ _ that(2,3), where k = 128 and w = "offset + count"] by simp
  have sU: "fsize ?U g = (if g = f \<and> fsize V f < offset + count then offset + count else fsize V g)" if "g \<in> F" for g
    using put_field(7) [OF i _ _ that, where k = 128 and w = "offset + count" and m = 128] by (auto simp: fsize_def)
  have sW: "fsize W g = (if g = f \<and> fsize V f < offset + count then offset + count else fsize V g)" if "g \<in> F" for g
    using fsize_wrote [OF w(1) that] sU [OF that] by simp
  have usW: "unat (fsize W f) = max (unat (fsize V f)) (?p + ?n)"
    using sW [OF i(2)] s by (auto simp: word_less_nat_alt)
  have old: "ptr W g (q div 4096) \<noteq> 0 \<and> (g = f \<and> ?p \<le> q \<and> q < ?p + ?n \<or> fdata W g q = fdata V g q)"
    if g: "g \<in> F" and q: "q < unat (fsize V g)" for g q
  proof -
    have z: "ptr V g (q div 4096) \<noteq> 0" "q < 1034 * 4096" using so g q by (auto simp: solid_def)
    have zU: "ptr ?U g (q div 4096) \<noteq> 0" using z(1) pU [OF g] by simp
    have "ptr W g (q div 4096) \<noteq> 0" using wroteD(3) [OF w(1) g zU] zU by simp
    moreover have "fdata W g q = fdata V g q" if "\<not> (g = f \<and> ?p \<le> q \<and> q < ?p + ?n)"
      using wroteD(8) [OF w(1) g z(2) zU that] fU [OF g z(2,1)] by simp
    ultimately show ?thesis by blast
  qed
  have new: "ptr W f (q div 4096) \<noteq> 0 \<and> fdata W f q = ds ! (q - ?p)" if "?p \<le> q" "q < ?p + ?n" for q
    using wroteD(6,7) [OF w(1), of "q - ?p"] that by simp
  show oth: "contents W g = contents V g" if "g \<in> F" "g \<noteq> f" for g
    by (rule contents_eq) (use sW [OF that(1)] old [OF that(1)] that(2) in auto)
  show "\<forall>g \<in> F. solid W g"
  proof
    fix g assume g: "g \<in> F"
    show "solid W g"
    proof (cases "g = f")
      case False
      have "fsize W g = fsize V g" using sW [OF g] False by simp
      thus ?thesis using old [OF g] so g unfolding solid_def by auto
    next
      case True
      have "ptr W f (q div 4096) \<noteq> 0" if "q < unat (fsize W f)" for q
        using old [OF i(2), of q] new [of q] that n(1) unfolding usW by (cases "q < unat (fsize V f)") auto
      moreover have "unat (fsize W f) \<le> 1034 * 4096" using so i(2) n(2) unfolding usW solid_def by auto
      ultimately show ?thesis using True by (simp add: solid_def)
    qed
  qed
  have l: "length (contents V f) = unat (fsize V f)" by (simp add: contents_def)
  have pl: "?p \<le> length (contents V f)" using n(1) l by simp
  show "contents W f = splice ?p ds (contents V f)"
  proof (rule nth_equalityI)
    show "length (contents W f) = length (splice ?p ds (contents V f))"
      using splice_length [OF pl, of ds] l w(2) by (simp add: contents_def usW)
    fix q assume "q < length (contents W f)"
    hence q: "q < max (unat (fsize V f)) (?p + ?n)" by (simp add: contents_def usW)
    have "contents W f ! q = fdata W f q" using q by (simp add: contents_def usW)
    also have "\<dots> = (if ?p \<le> q \<and> q < ?p + ?n then ds ! (q - ?p) else contents V f ! q)"
      using new [of q] old [OF i(2), of q] q n(1) by (cases "q < unat (fsize V f)") (auto simp: contents_def)
    also have "\<dots> = splice ?p ds (contents V f) ! q" using splice_nth [OF pl, of q ds] q l w(2) by simp
    finally show "contents W f ! q = splice ?p ds (contents V f) ! q" .
  qed
qed

definition page_bytes :: "fss \<Rightarrow> u32 \<Rightarrow> nat \<Rightarrow> u8 list" where
  "page_bytes s a n = map (\<lambda>i. reqpage s (a + of_nat i)) [0..<n]"

text \<open>The files \<open>F\<close> of a server that is ready: well-formed, apart from each other, without holes.\<close>

definition serves :: "fss \<Rightarrow> u32 set \<Rightarrow> bool" where
  "serves s F \<longleftrightarrow> cache_ready s \<and> fs_inv (view s) F \<and> (\<forall>g \<in> F. solid (view s) g)"

lemma write_contents_run:
  assumes "serves s F" "f \<in> F" "unat offset \<le> length (contents (view s) f)"
    "unat offset + unat count \<le> unat MAXFILESIZE"
    "in_page buf (unat count)" "room (view s) f (unat offset) (unat offset + unat count)"
  shows "\<exists>W. runs (file_write f buf count offset s) s count W (reqpage s) \<and> fs_inv W F \<and> (\<forall>g \<in> F. solid W g) \<and>
    contents W f = splice (unat offset) (page_bytes s buf (unat count)) (contents (view s) f) \<and>
    (\<forall>g \<in> F - {f}. contents W g = contents (view s) g)"
proof -
  let ?V = "view s"
  note i = assms(1) [unfolded serves_def]
  have e: "unat offset + unat count \<le> 1034 * 4096" using assms(4) by simp
  obtain W where W: "runs (file_write f buf count offset s) s count W (reqpage s)"
    "wrote (if fsize ?V f < offset + count then put4 (field f 128) (offset + count) ?V else ?V) F f
      (unat offset) (unat count) (\<lambda>i. reqpage s (buf + of_nat i)) W"
    using file_write_run [OF _ _ assms(2) e assms(5,6)] i by auto
  have w: "wrote (if fsize ?V f < offset + count then put4 (field f 128) (offset + count) ?V else ?V) F f
      (unat offset) (unat count) ((!) (page_bytes s buf (unat count))) W"
    by (rule wrote_cong [OF W(2)]) (simp add: page_bytes_def)
  have n: "unat offset \<le> unat (fsize ?V f)" using assms(3) by (simp add: contents_def)
  have l: "length (page_bytes s buf (unat count)) = unat count" by (simp add: page_bytes_def)
  note C = wrote_contents [OF _ assms(2) _ n e w l]
  show ?thesis using W(1) C i wroteD(1) [OF w] by (intro exI [of _ W]) simp
qed

lemma runs_result: "runs x s r V R \<Longrightarrow> \<exists>t. x = Done r t \<and> cache_ready t \<and> view t = V \<and> reqpage t = R"
  by (auto simp: runs_def evolves_def)

text \<open>C26: \<^verbatim>\<open>file_write\<close> refines splicing into a list of bytes: with room on the disk it returns its count,
  replaces the bytes at the offset by those of the request page, extends the file where they reach
  past its end, and leaves every other file as it was.\<close>

theorem file_write_refines:
  assumes "serves s F" "f \<in> F" "unat offset \<le> length (contents (view s) f)"
    "unat offset + unat count \<le> unat MAXFILESIZE"
    "in_page buf (unat count)" "room (view s) f (unat offset) (unat offset + unat count)"
  shows "\<exists>t. file_write f buf count offset s = Done count t \<and> serves t F \<and> reqpage t = reqpage s \<and>
    contents (view t) f = splice (unat offset) (page_bytes s buf (unat count)) (contents (view s) f) \<and>
    (\<forall>g \<in> F - {f}. contents (view t) g = contents (view s) g)"
  using write_contents_run [OF assms] by (auto simp: serves_def dest!: runs_result)

lemma file_read_run:
  assumes "serves s F" "f \<in> F" "unat offset < 2147483648"
    and "ds = take (unat count) (drop (unat offset) (contents (view s) f))" "in_page buf (length ds)"
  shows "runs (file_read f buf count offset s) s (of_nat (length ds)) (view s) (write_bytes buf ds (reqpage s))"
proof -
  let ?V = "view s" and ?sz = "unat (fsize (view s) f)" and ?p = "unat offset"
  have i: "cache_ready s" "fs_inv ?V F" "solid ?V f" using assms(1,2) by (auto simp: serves_def)
  have szb: "?sz \<le> 1034 * 4096" using i(3) by (simp add: solid_def)
  have ss: "sint (fsize ?V f) = int ?sz" by (rule sint_small) (use szb in linarith)
  have so: "sint offset = int ?p" by (rule sint_small) (use assms(3) in simp)
  have cmp: "sint (fsize ?V f) \<le> sint offset \<longleftrightarrow> ?sz \<le> ?p" unfolding ss so by (rule of_nat_le_iff)
  show ?thesis
    unfolding file_read_def
  proof (rule runs_bind [OF fsize_run(1) [OF i(1,2) assms(2)]])
    fix t assume t: "cache_ready t" "view t = ?V" "reqpage t = reqpage s"
    show "runs (if sint (fsize ?V f) \<le> sint offset then Done 0 t
        else let count = min count (fsize ?V f - offset)
          in kbind (rw_loop (\<lambda>blk buf n. srv_memmove buf blk n) (Suc (unat count)) f buf (offset + count) offset t)
            (\<lambda>r. Done (case r of None \<Rightarrow> count | Some r \<Rightarrow> r))) t (of_nat (length ds)) ?V (write_bytes buf ds (reqpage s))"
    proof (cases "?sz \<le> ?p")
      case True
      hence "ds = []" using assms(4) by (simp add: contents_def)
      thus ?thesis using True cmp t by (simp add: runs_Done)
    next
      case False
      let ?c = "min count (fsize ?V f - offset)" and ?m = "min (unat count) (?sz - ?p)"
      have "offset \<le> fsize ?V f" using False by (simp add: word_le_nat_alt)
      hence "unat (fsize ?V f - offset) = ?sz - ?p" by (simp add: unat_sub)
      hence c: "unat ?c = ?m" by (simp add: min_def word_le_nat_alt)
      have pm: "?p + ?m \<le> ?sz" using False by linarith
      hence pb: "?p + ?m \<le> 1034 * 4096" using szb by linarith
      have oc: "unat (offset + ?c) = ?p + ?m" using unat_plus [of offset ?c] c pb by simp
      have ds: "ds = map (\<lambda>i. fdata ?V f (?p + i)) [0..<?m]"
        unfolding assms(4) contents_def by (rule nth_equalityI) (use False in auto)
      have ld: "length ds = ?m" unfolding ds by simp
      have "?c = of_nat (unat ?c)" by simp
      hence cc: "?c = of_nat (length ds)" unfolding c ld .
      have e1: "of_nat (?p + ?m) = offset + ?c" unfolding oc [symmetric] by simp
      have e2: "of_nat ?p = offset" "?p + ?m - ?p = ?m" by simp_all
      have "runs (rw_loop (\<lambda>blk buf n. srv_memmove buf blk n) (Suc (unat ?c)) f buf
          (of_nat (?p + ?m)) (of_nat ?p) t) t None ?V
          (write_bytes buf (map (\<lambda>i. fdata ?V f (?p + i)) [0..<?p + ?m - ?p]) (reqpage t))"
        by (rule read_loop [OF t(1,2) i(2) assms(2)])
          (use i(3) pm pb c ld assms(5) in \<open>auto simp: solid_def simp del: min_less_iff_conj\<close>)
      hence l: "runs (rw_loop (\<lambda>blk buf n. srv_memmove buf blk n) (Suc (unat ?c)) f buf (offset + ?c) offset t)
          t None ?V (write_bytes buf ds (reqpage s))"
        unfolding e1 e2 t(3) ds [symmetric] .
      show ?thesis unfolding cmp Let_def using False
        by (simp only: if_False) (rule runs_bind [OF l], simp add: runs_Done cc)
    qed
  qed
qed

text \<open>C27: \<^verbatim>\<open>file_read\<close> of a file without holes puts the bytes at the offset, as many as were asked for
  and the file has, into the request page, returns their number, and changes nothing else.\<close>

theorem file_read_refines:
  assumes "serves s F" "f \<in> F" "unat offset < 2147483648"
    and "ds = take (unat count) (drop (unat offset) (contents (view s) f))" "in_page buf (length ds)"
  shows "\<exists>t. file_read f buf count offset s = Done (of_nat (length ds)) t \<and> cache_ready t \<and> view t = view s \<and>
    reqpage t = write_bytes buf ds (reqpage s)"
  using file_read_run [OF assms] by (rule runs_result)

text \<open>C28: What \<^verbatim>\<open>file_write\<close> has stored \<^verbatim>\<open>file_read\<close> finds again, whatever the request page holds by then.\<close>

theorem write_read_roundtrip:
  assumes "serves s F" "f \<in> F" "unat offset \<le> length (contents (view s) f)"
    "unat offset + unat count \<le> unat MAXFILESIZE"
    "in_page buf (unat count)" "room (view s) f (unat offset) (unat offset + unat count)"
    "in_page buf' (unat count)"
  shows "\<exists>t u. file_write f buf count offset s = Done count t \<and>
    file_read f buf' count offset (t\<lparr>reqpage := R\<rparr>) = Done count u \<and>
    page_bytes u buf' (unat count) = page_bytes s buf (unat count)"
proof -
  let ?ds = "page_bytes s buf (unat count)"
  have l: "length ?ds = unat count" by (simp add: page_bytes_def)
  obtain t where t: "file_write f buf count offset s = Done count t" "serves t F"
    "contents (view t) f = splice (unat offset) ?ds (contents (view s) f)"
    using write_contents_run [OF assms(1-6)] by (auto simp: serves_def dest!: runs_result)
  have o: "unat offset < 2147483648" using assms(4) by simp
  have ds: "?ds = take (unat count) (drop (unat offset) (contents (view (t\<lparr>reqpage := R\<rparr>)) f))"
    using splice_read [OF assms(3), of ?ds] t(3) l by simp
  have s: "serves (t\<lparr>reqpage := R\<rparr>) F" using t(2) by (simp add: serves_def)
  have p: "in_page buf' (length ?ds)" using assms(7) l by simp
  have "of_nat (length ?ds) = count" using l by simp
  then obtain u where u: "file_read f buf' count offset (t\<lparr>reqpage := R\<rparr>) = Done count u" "reqpage u = write_bytes buf' ?ds R"
    using runs_result [OF file_read_run [OF s assms(2) o ds p]] by auto
  have "page_bytes u buf' (unat count) = ?ds"
    unfolding page_bytes_def u(2)
    by (rule nth_equalityI) (use l write_bytes_at [of _ ?ds buf' R] assms(7) in \<open>auto simp: in_page_def page_bytes_def\<close>)
  thus ?thesis using t(1) u(1) by blast
qed

section \<open>Writing everything back\<close>

text \<open>A block whose bytes are on the disk.\<close>

definition stored :: "fss \<Rightarrow> u32 \<Rightarrow> bool" where
  "stored s b \<longleftrightarrow> (\<forall>x. blkof x = b \<longrightarrow> dbyte s x = view s x)"

lemma flush_stored:
  assumes "coherent s" "block_ok s (blkof a)"
  shows "\<exists>t. flush_block a s = Done () t \<and> evolves s t (view s) \<and> stored t (blkof a) \<and>
    (\<forall>b. stored s b \<longrightarrow> stored t b)"
proof -
  obtain t where t: "flush_block a s = Done () t" "evolves s t (view s)"
    "\<And>x. dbyte t x = (if blkof x = blkof a \<and> bmapped s (blkof a) \<and> bdirty s (blkof a) then view s x else dbyte s x)"
    using flush_block_step [OF assms(2)] by blast
  have v: "view t = view s" by (rule step_view [OF t(2)])
  have "dbyte t x = view s x" if "blkof x = blkof a" for x
    using that assms(1) t(3) [of x] by (auto simp: coherent_def view_def)
  thus ?thesis using t v by (auto simp: stored_def)
qed

lemma sync_blocks_run:
  assumes "cache_ready s" "coherent s" "list_all (\<lambda>i. 0 < i \<and> i < unat (nblocks (view s))) xs"
  shows "\<exists>t. sync_blocks xs s = Done () t \<and> evolves s t (view s) \<and>
    list_all (\<lambda>i. stored t (of_nat i)) xs \<and> (\<forall>b. stored s b \<longrightarrow> stored t b)"
  using assms
proof (induction "xs" arbitrary: s)
  case (Cons i "xs")
  let ?b = "of_nat i :: u32"
  have "unat ?b = i" using Cons.prems(3) word_u32_max [of "nblocks (view s)"] by (simp add: unat_of_nat)
  hence b: "?b < nblocks (view s)" "?b \<noteq> 0" using Cons.prems(3) by (auto simp: word_less_nat_alt)
  have u: "unat ?b < 0xC0000" by (rule cache_readyD(7) [OF Cons.prems(1) b(1)])
  have bk: "blkof (blkbase ?b) = ?b" by (rule blkbase_facts(2) [OF u])
  obtain t where t: "flush_block (blkbase ?b) s = Done () t" "evolves s t (view s)" "stored t ?b" "\<forall>b. stored s b \<longrightarrow> stored t b"
    using flush_stored [OF Cons.prems(2), of "blkbase ?b"] cache_readyD(6) [OF Cons.prems(1) b(1)] bk by auto
  have rt: "cache_ready t" "coherent t" "view t = view s"
    using step_ready_same [OF Cons.prems(1) t(2)] t(2) Cons.prems(2) by (auto simp: evolves_def)
  obtain w where w: "sync_blocks xs t = Done () w" "evolves t w (view t)"
    "list_all (\<lambda>i. stored w (of_nat i)) xs" "\<forall>b. stored t b \<longrightarrow> stored w b"
    using Cons.IH [OF rt(1,2)] Cons.prems(3) rt(3) by auto
  have "sync_blocks (i # xs) s = Done () w"
    using diskaddr_ready [OF Cons.prems(1) b(2,1)] t(1) w(1) by simp
  thus ?case using w t(3,4) step_trans [OF t(2) w(2)] rt(3) by (intro exI [of _ w]) simp
qed simp

text \<open>The machine is switched off: nothing is in memory any more.\<close>

definition power_off :: "fss \<Rightarrow> fss" where
  "power_off s = s\<lparr>bmapped := \<lambda>_. False, bdirty := \<lambda>_. False\<rparr>"

text \<open>C29: After \<^verbatim>\<open>fs_sync\<close> the disk holds everything: what the server saw before, it sees again in every
  block after the machine has been switched off.\<close>

theorem fs_sync_durable:
  assumes "cache_ready s" "coherent s"
  shows "\<exists>t. fs_sync s = Done () t \<and> view t = view s \<and>
    (\<forall>a. blkof a \<noteq> 0 \<longrightarrow> blkof a < nblocks (view s) \<longrightarrow> view (power_off t) a = view s a)"
proof -
  let ?n = "unat (nblocks (view s))"
  have "list_all (\<lambda>i. 0 < i \<and> i < ?n) [1..<?n]" by (auto simp: list_all_iff)
  from sync_blocks_run [OF assms this] obtain t where
    t: "sync_blocks [1..<?n] s = Done () t" "evolves s t (view s)" "list_all (\<lambda>i. stored t (of_nat i)) [1..<?n]" by blast
  have "view (power_off t) a = view s a" if a: "blkof a \<noteq> 0" "blkof a < nblocks (view s)" for a
  proof -
    have "unat (blkof a) \<in> set [1..<?n]" using a by (simp add: word_less_nat_alt Suc_le_eq unat_gt_0)
    hence "stored t (of_nat (unat (blkof a)))" using t(3) unfolding list_all_iff by blast
    hence "dbyte t a = view t a" by (simp add: stored_def)
    thus ?thesis using step_view [OF t(2)] by (simp add: view_def power_off_def dbyte_def)
  qed
  thus ?thesis using t(1) step_view [OF t(2)] super_nblocks_ready [OF assms(1)]
    by (intro exI [of _ t]) (simp add: fs_sync_def)
qed


section \<open>On the small disk\<close>

lemma demo_nfree: "nfree demo_image = 2"
proof -
  have "{b. b < nblocks demo_image \<and> free_bit demo_image b} = {3, 4}"
    by (auto simp: free_bit_demo)
  thus ?thesis by (simp add: nfree_def)
qed

lemma demo_serves: "serves demo_fss {0x10001008}" "fsize demo_image 0x10001008 = 0"
proof -
  show s: "fsize demo_image 0x10001008 = 0" by (simp add: fsize_def field_def demo_word al_def)
  thus "serves demo_fss {0x10001008}"
    unfolding serves_def view_demo using demo_ready demo_inv by (simp add: solid_def)
qed

lemma demo_room: "room demo_image 0x10001008 0 5"
  by (simp add: room_def nspan_def demo_nfree)

lemma file_write_refines_witness:
  "\<exists>t. file_write 0x10001008 (FSREQ + 8) 5 0 demo_fss = Done 5 t \<and> contents (view t) 0x10001008 = replicate 5 0x41"
proof -
  have "contents demo_image 0x10001008 = []" by (simp add: contents_def demo_serves(2))
  moreover have "page_bytes demo_fss (FSREQ + 8) 5 = replicate 5 0x41"
    by (simp add: page_bytes_def demo_fss_def map_replicate_const)
  ultimately show ?thesis
    using file_write_refines [OF demo_serves(1), where f = "0x10001008" and offset = 0 and count = 5 and buf = "FSREQ + 8"] demo_room
    by (auto simp: in_page_def splice_def)
qed

lemma file_read_refines_witness:
  "\<exists>t u. file_write 0x10001008 (FSREQ + 8) 5 0 demo_fss = Done 5 t \<and>
     file_read 0x10001008 FSREQ 9 2 t = Done 3 u \<and> page_bytes u FSREQ 3 = replicate 3 0x41"
proof -
  have "contents demo_image 0x10001008 = []" by (simp add: contents_def demo_serves(2))
  moreover have "page_bytes demo_fss (FSREQ + 8) 5 = replicate 5 0x41"
    by (simp add: page_bytes_def demo_fss_def map_replicate_const)
  ultimately obtain t where t: "file_write 0x10001008 (FSREQ + 8) 5 0 demo_fss = Done 5 t" "serves t {0x10001008}"
    "contents (view t) 0x10001008 = replicate 5 0x41"
    using write_contents_run [OF demo_serves(1), where f = "0x10001008" and offset = 0 and count = 5 and buf = "FSREQ + 8"] demo_room
    by (auto simp: in_page_def splice_def serves_def dest!: runs_result)
  have "\<exists>u. file_read 0x10001008 FSREQ 9 2 t = Done (of_nat (length (replicate 3 (0x41 :: u8)))) u \<and> cache_ready u \<and>
      view u = view t \<and> reqpage u = write_bytes FSREQ (replicate 3 0x41) (reqpage t)"
    by (rule file_read_refines [OF t(2)]) (use t(3) in \<open>simp_all add: in_page_def\<close>)
  thus ?thesis using t(1) by (auto simp: page_bytes_def numeral_eq_Suc)
qed

lemma write_read_roundtrip_witness:
  "\<exists>t u. file_write 0x10001008 (FSREQ + 8) 5 0 demo_fss = Done 5 t \<and>
    file_read 0x10001008 FSREQ 5 0 (t\<lparr>reqpage := \<lambda>_. 0\<rparr>) = Done 5 u \<and>
    page_bytes u FSREQ 5 = page_bytes demo_fss (FSREQ + 8) 5"
  using write_read_roundtrip [OF demo_serves(1), where f = "0x10001008" and offset = 0 and count = 5 and buf = "FSREQ + 8" and
    buf' = FSREQ and R = "\<lambda>_. 0"] demo_room
  by (auto simp: in_page_def contents_def)

lemma fs_sync_durable_witness:
  "\<exists>t. fs_sync demo_fss = Done () t \<and> view (power_off demo_fss) 0x10001004 = 0 \<and> view (power_off t) 0x10001004 = 5"
proof -
  have "view (power_off demo_fss) 0x10001004 = 0" by (simp add: view_def power_off_def demo_fss_def dbyte_def)
  moreover have "demo_image 0x10001004 = 5" by (simp add: demo_image_def put4_def)
  ultimately show ?thesis using fs_sync_durable [OF demo_ready demo_coherent] by (auto simp: blkof_def)
qed

end
