(* ===== verification/FileServ.thy ===== *)
theory FileServ
  imports FsFiles
begin

text \<open>
  The file server (\<^verbatim>\<open>fs/serv.c\<close>): the table of open files, whose entries share a page with the
  clients that have the file open, and the handlers of the requests.  A client may change its
  request page and a shared \<^verbatim>\<open>struct Fd\<close> at any time; the model takes them as they are when the
  request is served.
\<close>

section \<open>Open files\<close>

definition O_ACCMODE :: u32 where [simp]: "O_ACCMODE = 0x0003"
definition O_CREAT :: u32 where [simp]: "O_CREAT = 0x0100"
definition O_TRUNC :: u32 where [simp]: "O_TRUNC = 0x0200"
definition O_EXCL :: u32 where [simp]: "O_EXCL = 0x0400"
definition MAXOPEN :: nat where [simp]: "MAXOPEN = 1024"
definition FILEVA :: u32 where [simp]: "FILEVA = 0xD0000000"

record OpenFile =
  o_fileid :: u32
  o_file :: u32
  o_mode :: u32
  o_fd :: u32

record Fd =
  fd_dev_id :: u32
  fd_offset :: u32
  fd_omode :: u32
  fd_file_id :: u32

definition zero_fd :: Fd where
  "zero_fd = \<lparr>fd_dev_id = 0, fd_offset = 0, fd_omode = 0, fd_file_id = 0\<rparr>"

text \<open>\<open>fd_page va\<close> is the \<^verbatim>\<open>struct Fd\<close> at an address and \<open>fd_ref va\<close> the references to its page, 0 when
  nothing is mapped there; \<open>fd_no_mem\<close> says that the kernel has no page to give.\<close>

record srv =
  fsst :: fss
  opentab :: "nat \<Rightarrow> OpenFile"
  fd_page :: "u32 \<Rightarrow> Fd"
  fd_ref :: "u32 \<Rightarrow> nat"
  fd_no_mem :: bool

type_synonym 'a srvm = "srv \<Rightarrow> ('a, srv) kres"

definition on_fs :: "'a fsm \<Rightarrow> 'a srvm" where
  "on_fs m s = (case m (fsst s) of
      Done a t \<Rightarrow> Done a (s\<lparr>fsst := t\<rparr>)
    | Panic msg \<Rightarrow> Panic msg
    | NoReturn e t \<Rightarrow> NoReturn e (s\<lparr>fsst := t\<rparr>))"

definition serve_init :: "srv \<Rightarrow> srv" where
  "serve_init s = s\<lparr>opentab := \<lambda>i. if i < MAXOPEN
     then (opentab s i)\<lparr>o_fileid := of_nat i, o_fd := FILEVA + of_nat i * PGSIZE\<rparr> else opentab s i\<rparr>"

text \<open>\<^verbatim>\<open>pageref\<close> of the shared page.\<close>

definition fd_pageref :: "nat \<Rightarrow> srv \<Rightarrow> nat" where
  "fd_pageref i s = fd_ref s (o_fd (opentab s i))"

text \<open>The entry is taken: a new id, a cleared page.\<close>

definition openfile_take :: "nat \<Rightarrow> (u32 \<times> nat) srvm" where
  "openfile_take i s =
    (let s = s\<lparr>opentab := (opentab s)(i := (opentab s i)\<lparr>o_fileid := o_fileid (opentab s i) + of_nat MAXOPEN\<rparr>)\<rparr>;
         s = s\<lparr>fd_page := (fd_page s)(o_fd (opentab s i) := zero_fd)\<rparr>
     in Done (o_fileid (opentab s i), i) s)"

fun openfile_scan :: "nat list \<Rightarrow> (u32 \<times> nat) srvm" where
  "openfile_scan [] s = Done (- E_MAX_OPEN, 0) s"
| "openfile_scan (i # rest) s =
     (if fd_pageref i s = 0
      then if fd_no_mem s then Done (- E_NO_MEM, 0) s
           else openfile_take i (s\<lparr>fd_ref := (fd_ref s)(o_fd (opentab s i) := 1)\<rparr>)
      else if fd_pageref i s = 1 then openfile_take i s
      else openfile_scan rest s)"

definition openfile_alloc :: "(u32 \<times> nat) srvm" where
  "openfile_alloc = openfile_scan [0..<MAXOPEN]"

definition openfile_lookup :: "u32 \<Rightarrow> srv \<Rightarrow> u32 + nat" where
  "openfile_lookup fileid s =
    (let i = unat fileid mod MAXOPEN
     in if fd_pageref i s \<le> 1 \<or> o_fileid (opentab s i) \<noteq> fileid then Inl (- E_INVAL) else Inr i)"

section \<open>The request page\<close>

definition req_word :: "u32 \<Rightarrow> srv \<Rightarrow> u32" where
  "req_word off s = get4 (FSREQ + off) (reqpage (fsst s))"

definition req_fileid :: "srv \<Rightarrow> u32" where
  "req_fileid = req_word 0"

text \<open>The path of an open request, cut at \<^verbatim>\<open>MAXPATHLEN\<close>.\<close>

definition req_path :: "srv \<Rightarrow> u8 list" where
  "req_path s = takeWhile (\<lambda>c. c \<noteq> 0)
     (map (\<lambda>i. reqpage (fsst s) (FSREQ + of_nat i)) [0..<MAXPATHLEN - 1])"

section \<open>Handlers\<close>

text \<open>The result code, the page to send back and its permission.\<close>

type_synonym reply = "u32 \<times> u32 \<times> u32"

definition serve_open :: "u32 \<Rightarrow> reply srvm" where
  "serve_open perm s =
    (let path = req_path s; fail = (\<lambda>r s. Done (r, 0, perm) s)
     in kbind (openfile_alloc s) (\<lambda>r s. case r of (fileid, o1) \<Rightarrow>
        if sint fileid < 0 then fail fileid s
        else let omode = req_word 1024 s;
            try_open = on_fs (file_open path)
          in kbind (if omode AND O_CREAT \<noteq> 0
                    then kbind (on_fs (file_create path) s) (\<lambda>r s. case r of
                        Inl e \<Rightarrow> if omode AND O_EXCL = 0 \<and> e = - E_FILE_EXISTS then try_open s else Done (Inl e) s
                      | Inr f \<Rightarrow> Done (Inr f) s)
                    else try_open s) (\<lambda>r s. case r of
              Inl e \<Rightarrow> fail e s
            | Inr f \<Rightarrow> kbind (if omode AND O_TRUNC \<noteq> 0 then on_fs (file_set_size f 0) s else Done 0 s) (\<lambda>r s.
                if sint r < 0 then fail r s
                else kbind (on_fs (file_open path) s) (\<lambda>r s. case r of
                    Inl e \<Rightarrow> fail e s
                  | Inr f \<Rightarrow>
                      let s = s\<lparr>opentab := (opentab s)(o1 := (opentab s o1)\<lparr>o_file := f, o_mode := omode\<rparr>)\<rparr>;
                          fd = o_fd (opentab s o1);
                          s = s\<lparr>fd_page := (fd_page s)(fd := (fd_page s fd)\<lparr>fd_file_id := o_fileid (opentab s o1),
                                fd_omode := omode AND O_ACCMODE, fd_dev_id := 0x66\<rparr>)\<rparr>
                      in Done (0, fd, PTE_P OR PTE_U OR PTE_W OR PTE_SHARE) s)))))"

definition with_open :: "(nat \<Rightarrow> u32 srvm) \<Rightarrow> u32 srvm" where
  "with_open f s = (case openfile_lookup (req_fileid s) s of Inl r \<Rightarrow> Done r s | Inr i \<Rightarrow> f i s)"

definition serve_set_size :: "u32 srvm" where
  "serve_set_size = with_open (\<lambda>i s. on_fs (file_set_size (o_file (opentab s i)) (req_word 4 s)) s)"

definition advance :: "nat \<Rightarrow> u32 \<Rightarrow> u32 srvm" where
  "advance i r s =
    (if sint r < 0 then Done r s
     else let fd = o_fd (opentab s i)
       in Done r (s\<lparr>fd_page := (fd_page s)(fd := (fd_page s fd)\<lparr>fd_offset := fd_offset (fd_page s fd) + r\<rparr>)\<rparr>))"

definition serve_read :: "u32 srvm" where
  "serve_read = with_open (\<lambda>i s.
     kbind (on_fs (file_read (o_file (opentab s i)) FSREQ (min (req_word 4 s) PGSIZE)
              (fd_offset (fd_page s (o_fd (opentab s i))))) s) (advance i))"

definition serve_write :: "u32 srvm" where
  "serve_write = with_open (\<lambda>i s.
     kbind (on_fs (file_write (o_file (opentab s i)) (FSREQ + 8) (req_word 4 s)
              (fd_offset (fd_page s (o_fd (opentab s i))))) s) (advance i))"

text \<open>\<^verbatim>\<open>strcpy\<close> in the server's memory; after \<open>2 ^ 32\<close> bytes it has overwritten its own source.\<close>

fun srv_strcpy :: "nat \<Rightarrow> u32 \<Rightarrow> u32 \<Rightarrow> unit fsm" where
  "srv_strcpy 0 dst src s = NoReturn Spinning s"
| "srv_strcpy (Suc fuel) dst src s =
     kbind (srv_ld8 src s) (\<lambda>b s. kbind (srv_st8 dst b s) (\<lambda>_ s.
       if b = 0 then Done () s else srv_strcpy fuel (dst + 1) (src + 1) s))"

definition srv_put4 :: "u32 \<Rightarrow> u32 \<Rightarrow> fss \<Rightarrow> fss" where
  "srv_put4 a w s = s\<lparr>reqpage := put4 a w (reqpage s)\<rparr>"

definition serve_stat :: "u32 srvm" where
  "serve_stat = with_open (\<lambda>i s.
     let f = o_file (opentab s i)
     in on_fs (\<lambda>s. kbind (srv_strcpy (2 ^ 32) FSREQ f s) (\<lambda>_ s.
          kbind (ld32 (f_size f) s) (\<lambda>sz s. let s = srv_put4 (FSREQ + 128) sz s
          in kbind (ld32 (f_type f) s) (\<lambda>type s.
             Done 0 (srv_put4 (FSREQ + 132) (if type = FTYPE_DIR then 1 else 0) s))))) s)"

definition serve_flush :: "u32 srvm" where
  "serve_flush = with_open (\<lambda>i s. kbind (on_fs (file_flush (o_file (opentab s i))) s) (\<lambda>_ s. Done 0 s))"

definition serve_sync :: "u32 srvm" where
  "serve_sync s = kbind (on_fs fs_sync s) (\<lambda>_ s. Done 0 s)"

section \<open>The server loop\<close>

definition FSREQ_OPEN :: u32 where [simp]: "FSREQ_OPEN = 1"
definition FSREQ_SET_SIZE :: u32 where [simp]: "FSREQ_SET_SIZE = 2"
definition FSREQ_READ :: u32 where [simp]: "FSREQ_READ = 3"
definition FSREQ_WRITE :: u32 where [simp]: "FSREQ_WRITE = 4"
definition FSREQ_STAT :: u32 where [simp]: "FSREQ_STAT = 5"
definition FSREQ_FLUSH :: u32 where [simp]: "FSREQ_FLUSH = 6"
definition FSREQ_REMOVE :: u32 where [simp]: "FSREQ_REMOVE = 7"
definition FSREQ_SYNC :: u32 where [simp]: "FSREQ_SYNC = 8"

text \<open>The table has no entry for the open request, which is served apart, and none for removal.\<close>

definition handlers :: "u32 \<Rightarrow> u32 srvm option" where
  "handlers req =
    (if req = FSREQ_READ then Some serve_read
     else if req = FSREQ_STAT then Some serve_stat
     else if req = FSREQ_FLUSH then Some serve_flush
     else if req = FSREQ_WRITE then Some serve_write
     else if req = FSREQ_SET_SIZE then Some serve_set_size
     else if req = FSREQ_SYNC then Some serve_sync
     else None)"

text \<open>One turn of the loop for a request that has been received: the reply that is sent, if any.\<close>

definition serve :: "u32 \<Rightarrow> u32 \<Rightarrow> reply option srvm" where
  "serve req perm s =
    (if perm AND PTE_P = 0 then Done None s
     else kbind (if req = FSREQ_OPEN then serve_open perm s
                 else case handlers req of
                     Some h \<Rightarrow> kbind (h s) (\<lambda>r s. Done (r, 0, perm) s)
                   | None \<Rightarrow> Done (- E_INVAL, 0, perm) s) (\<lambda>rep s. Done (Some rep) s))"

section \<open>Ids of open files\<close>

text \<open>Every entry has its own page, and its id leads back to it.\<close>

definition opentab_wf :: "srv \<Rightarrow> bool" where
  "opentab_wf s \<longleftrightarrow> (\<forall>i < MAXOPEN. o_fd (opentab s i) = FILEVA + of_nat i * PGSIZE \<and>
     unat (o_fileid (opentab s i)) mod MAXOPEN = i)"

lemma fd_addr_inj: "i < MAXOPEN \<Longrightarrow> j < MAXOPEN \<Longrightarrow>
    FILEVA + of_nat i * PGSIZE = FILEVA + of_nat j * PGSIZE \<longleftrightarrow> i = j"
proof -
  assume h: "i < MAXOPEN" "j < MAXOPEN"
  have u: "unat (of_nat k * PGSIZE) = 4096 * k" if "k < MAXOPEN" for k
    using that by (simp add: unat_word_ariths unat_of_nat)
  show ?thesis using u [OF h(1)] u [OF h(2)] by (metis add_left_cancel mult_cancel1 zero_neq_numeral)
qed

lemma serve_init_wf: "opentab_wf (serve_init s)"
  by (simp add: opentab_wf_def serve_init_def unat_of_nat)

lemma next_fileid: "unat (x :: u32) mod 1024 = i \<Longrightarrow> unat (x + 1024) mod 1024 = i"
  by (simp add: unat_word_ariths mod_mod_cancel)

lemma openfile_take_result:
  assumes "opentab_wf s" "i < MAXOPEN" "openfile_take i s = Done (r, j) t"
  shows "j = i" "r = o_fileid (opentab s i) + 1024" "o_fileid (opentab t i) = r" "opentab_wf t"
    "fd_page t (o_fd (opentab t i)) = zero_fd" "fd_ref t = fd_ref s" "fsst t = fsst s"
    "k \<noteq> i \<Longrightarrow> opentab t k = opentab s k" "k < MAXOPEN \<Longrightarrow> o_fd (opentab t k) = o_fd (opentab s k)"
    "k < MAXOPEN \<Longrightarrow> k \<noteq> i \<Longrightarrow> fd_page t (o_fd (opentab t k)) = fd_page s (o_fd (opentab s k))"
  using assms next_fileid [of "o_fileid (opentab s i)" i] fd_addr_inj
  by (auto simp: openfile_take_def Let_def opentab_wf_def fd_addr_inj simp del: FILEVA_def PGSIZE_def)

lemma openfile_scan_find:
  "openfile_scan xs s = (case find (\<lambda>i. fd_pageref i s \<le> 1) xs of
      None \<Rightarrow> Done (- E_MAX_OPEN, 0) s
    | Some i \<Rightarrow> if fd_pageref i s = 0 \<and> fd_no_mem s then Done (- E_NO_MEM, 0) s
        else openfile_take i (s\<lparr>fd_ref := (fd_ref s)(o_fd (opentab s i) := 1)\<rparr>))"
proof (induction "xs")
  case (Cons i "xs")
  have "(fd_ref s)(o_fd (opentab s i) := Suc 0) = fd_ref s" if "fd_pageref i s = 1"
    using that by (simp add: fd_pageref_def fun_upd_idem_iff)
  thus ?case using Cons by (auto simp: le_Suc_eq)
qed simp

text \<open>C30: An open request gets the first entry that no client holds, with a cleared page and an id larger
  by \<^verbatim>\<open>MAXOPEN\<close> than the last one of the entry; the entries that clients hold are not touched.  As
  soon as the client shares the page, that id and no other leads to the entry; while it does not yet, no id
  does.\<close>

theorem openfile_alloc_fresh:
  assumes "opentab_wf s" "openfile_alloc s = Done (r, i) t" "0 \<le> sint r"
  shows "i < MAXOPEN \<and> fd_pageref i s \<le> 1 \<and> (\<forall>j < i. 1 < fd_pageref j s) \<and>
    r = o_fileid (opentab s i) + 1024 \<and> opentab_wf t \<and> fd_page t (o_fd (opentab t i)) = zero_fd \<and>
    (\<forall>j < MAXOPEN. j \<noteq> i \<longrightarrow> opentab t j = opentab s j \<and> fd_pageref j t = fd_pageref j s \<and>
       fd_page t (o_fd (opentab t j)) = fd_page s (o_fd (opentab s j))) \<and>
    (\<forall>n. openfile_lookup n (t\<lparr>fd_ref := (fd_ref t)(o_fd (opentab t i) := 2)\<rparr>) =
       (if n = r then Inr i else if unat n mod MAXOPEN = i then Inl (- E_INVAL) else openfile_lookup n s)) \<and>
    (\<forall>n. unat n mod MAXOPEN = i \<longrightarrow> openfile_lookup n t = Inl (- E_INVAL))"
proof -
  have neg: "sint (- E_MAX_OPEN) < 0" "sint (- E_NO_MEM) < 0" by (simp_all add: sint_u32)
  let ?s = "\<lambda>i. s\<lparr>fd_ref := (fd_ref s)(o_fd (opentab s i) := 1)\<rparr>"
  obtain j where j: "find (\<lambda>i. fd_pageref i s \<le> 1) [0..<MAXOPEN] = Some j"
    "openfile_take j (?s j) = Done (r, i) t"
    using assms(2,3) neg unfolding openfile_alloc_def openfile_scan_find
    by (auto split: option.splits if_splits)
  have ji: "j < MAXOPEN" "fd_pageref j s \<le> 1" "\<forall>k < j. 1 < fd_pageref k s"
    using j(1) by (auto simp: find_Some_iff not_le)
  have wf: "opentab_wf (?s j)" using assms(1) by (simp add: opentab_wf_def)
  note T = openfile_take_result [OF wf ji(1) j(2)]
  have fd: "o_fd (opentab s k) = FILEVA + of_nat k * PGSIZE" if "k < MAXOPEN" for k
    using assms(1) that by (simp add: opentab_wf_def)
  have id: "unat r mod MAXOPEN = i" using T(1,3,4) ji(1) by (auto simp: opentab_wf_def)
  have "opentab t k = opentab s k \<and> fd_pageref k t = fd_pageref k s \<and>
      fd_page t (o_fd (opentab t k)) = fd_page s (o_fd (opentab s k))" if "k < MAXOPEN" "k \<noteq> i" for k
    using T(1,6) T(8) [of k] T(9) [of k] T(10) [of k] that ji(1) fd fd_addr_inj [OF that(1) ji(1)]
    by (auto simp: fd_pageref_def simp del: FILEVA_def PGSIZE_def)
  note other = this
  let ?t = "t\<lparr>fd_ref := (fd_ref t)(o_fd (opentab t i) := 2)\<rparr>"
  have "fd_pageref k ?t = fd_pageref k s" if "k < MAXOPEN" "k \<noteq> i" for k
  proof -
    have "o_fd (opentab t k) \<noteq> o_fd (opentab t i)"
      using T(1) T(9) that ji(1) fd fd_addr_inj [OF that(1) ji(1)] by (simp del: FILEVA_def PGSIZE_def)
    thus ?thesis using other [OF that] by (auto simp: fd_pageref_def)
  qed
  hence away: "openfile_lookup n ?t = openfile_lookup n s" if "unat n mod MAXOPEN \<noteq> i" for n
    using that other by (simp add: openfile_lookup_def Let_def)
  have "o_fileid (opentab ?t i) = r" "fd_pageref i ?t = 2" using T(1,3) by (simp_all add: fd_pageref_def)
  hence "openfile_lookup n ?t =
      (if n = r then Inr i else if unat n mod MAXOPEN = i then Inl (- E_INVAL) else openfile_lookup n s)" for n
    using away [of n] id by (auto simp: openfile_lookup_def Let_def simp del: MAXOPEN_def)
  moreover have "fd_pageref i t \<le> 1"
    using T(1,6) T(9) [of i] ji(1) by (simp add: fd_pageref_def)
  hence "openfile_lookup n t = Inl (- E_INVAL)" if "unat n mod MAXOPEN = i" for n
    using that by (simp add: openfile_lookup_def Let_def)
  ultimately show ?thesis using T ji other by simp
qed

definition demo_srv :: srv where
  "demo_srv = serve_init \<lparr>fsst = demo_fss, opentab = \<lambda>_. \<lparr>o_fileid = 0, o_file = 0x10001008, o_mode = 0, o_fd = 0\<rparr>,
     fd_page = \<lambda>_. zero_fd, fd_ref = \<lambda>a. if a = 0xD0000000 then 2 else 0, fd_no_mem = False\<rparr>"

lemma openfile_alloc_fresh_witness:
  "\<exists>t. openfile_alloc demo_srv = Done (1025, 1) t \<and> opentab_wf t \<and>
    openfile_lookup 1025 (t\<lparr>fd_ref := (fd_ref t)(o_fd (opentab t 1) := 2)\<rparr>) = Inr 1 \<and>
    openfile_lookup 1 (t\<lparr>fd_ref := (fd_ref t)(o_fd (opentab t 1) := 2)\<rparr>) = Inl (- E_INVAL)"
proof -
  have u: "[0..<MAXOPEN] = 0 # 1 # [2..<MAXOPEN]"
    using upt_conv_Cons [of 0 MAXOPEN] upt_conv_Cons [of 1 MAXOPEN] by (simp add: numeral_2_eq_2 del: upt_rec_numeral)
  have "\<exists>t. openfile_alloc demo_srv = Done (1025, 1) t"
    unfolding openfile_alloc_def u
    by (simp add: demo_srv_def serve_init_def fd_pageref_def openfile_take_def Let_def del: upt_rec_numeral)
  then obtain t where t: "openfile_alloc demo_srv = Done (1025, 1) t" by blast
  have "opentab_wf demo_srv" unfolding demo_srv_def by (rule serve_init_wf)
  from openfile_alloc_fresh [OF this t] show ?thesis using t by (simp add: sint_u32)
qed


section \<open>Reading through the server\<close>

text \<open>C31: A read request delivers the bytes of the open file from its seek position on, as many as were
  asked for, fit into a page and are left, and moves the position behind them; the file system
  stays as it is.  So consecutive requests deliver consecutive pieces of the file.\<close>

theorem serve_read_slice:
  assumes "serves (fsst s) F" "openfile_lookup (req_fileid s) s = Inr i" "o_file (opentab s i) = f" "f \<in> F"
    and "fd_offset (fd_page s (o_fd (opentab s i))) = off" "unat off < 2147483648"
    and "ds = take (min (unat (req_word 4 s)) 4096) (drop (unat off) (contents (view (fsst s)) f))"
  shows "\<exists>t. serve_read s = Done (of_nat (length ds)) t \<and> page_bytes (fsst t) FSREQ (length ds) = ds \<and>
    fd_offset (fd_page t (o_fd (opentab s i))) = off + of_nat (length ds) \<and> opentab t = opentab s \<and>
    fd_ref t = fd_ref s \<and> serves (fsst t) F \<and> view (fsst t) = view (fsst s)"
proof -
  let ?c = "min (req_word 4 s) PGSIZE"
  have l: "length ds \<le> 4096" using assms(7) by simp
  have c: "unat ?c = min (unat (req_word 4 s)) 4096" by (simp add: min_def word_le_nat_alt)
  have pg: "in_page FSREQ (length ds)" using l by (simp add: in_page_def)
  have ds: "ds = take (unat ?c) (drop (unat off) (contents (view (fsst s)) f))" using assms(7) by (simp only: c)
  obtain u where u: "file_read f FSREQ ?c off (fsst s) = Done (of_nat (length ds)) u" "cache_ready u"
    "view u = view (fsst s)" "reqpage u = write_bytes FSREQ ds (reqpage (fsst s))"
    using runs_result [OF file_read_run [OF assms(1,4,6) ds pg]] by auto
  have p: "\<not> sint (of_nat (length ds) :: u32) < 0"
  proof -
    have "unat (of_nat (length ds) :: u32) = length ds" using l by (simp add: unat_of_nat)
    hence "sint (of_nat (length ds) :: u32) = int (length ds)"
      using sint_small [of "of_nat (length ds)"] l by simp
    thus ?thesis by simp
  qed
  have b: "page_bytes u FSREQ (length ds) = ds"
    unfolding page_bytes_def u(4)
    by (rule nth_equalityI) (use l write_bytes_at [of _ ds FSREQ "reqpage (fsst s)"] in auto)
  have "serves u F" using u(2,3) assms(1) by (simp add: serves_def)
  moreover have "serve_read s = Done (of_nat (length ds)) (s\<lparr>fsst := u, fd_page := (fd_page s)(o_fd (opentab s i) :=
      (fd_page s (o_fd (opentab s i)))\<lparr>fd_offset := off + of_nat (length ds)\<rparr>)\<rparr>)"
    using assms(2,3,5) u(1) p by (simp add: serve_read_def with_open_def on_fs_def advance_def Let_def)
  ultimately show ?thesis using b u(3) by simp
qed

text \<open>A request for nine bytes of the open file 0, seeked to position 2, after a write of five bytes.\<close>

lemma serve_read_slice_witness:
  "\<exists>t u. file_write 0x10001008 (FSREQ + 8) 5 0 demo_fss = Done 5 t \<and>
     serve_read (demo_srv\<lparr>fsst := t\<lparr>reqpage := put4 (FSREQ + 4) 9 (\<lambda>_. 0)\<rparr>,
       fd_page := \<lambda>_. zero_fd\<lparr>fd_offset := 2\<rparr>\<rparr>) = Done 3 u \<and>
     page_bytes (fsst u) FSREQ 3 = replicate 3 0x41 \<and> fd_offset (fd_page u 0xD0000000) = 5"
proof -
  have "contents demo_image 0x10001008 = []" by (simp add: contents_def demo_serves(2))
  moreover have "page_bytes demo_fss (FSREQ + 8) 5 = replicate 5 0x41"
    by (simp add: page_bytes_def demo_fss_def map_replicate_const)
  ultimately obtain t where t: "file_write 0x10001008 (FSREQ + 8) 5 0 demo_fss = Done 5 t" "serves t {0x10001008}"
    "contents (view t) 0x10001008 = replicate 5 0x41"
    using write_contents_run [OF demo_serves(1), where f = "0x10001008" and offset = 0 and count = 5 and buf = "FSREQ + 8"] demo_room
    by (auto simp: in_page_def splice_def serves_def dest!: runs_result)
  define s where "s = demo_srv\<lparr>fsst := t\<lparr>reqpage := put4 (FSREQ + 4) 9 (\<lambda>_. 0)\<rparr>,
       fd_page := \<lambda>_. zero_fd\<lparr>fd_offset := 2\<rparr>\<rparr>"
  have q: "req_word 4 s = 9" "req_fileid s = 0"
    by (simp_all add: req_fileid_def req_word_def s_def get4_put4_same) (simp add: get4_def put4_def)
  have o: "opentab s 0 = \<lparr>o_fileid = 0, o_file = 0x10001008, o_mode = 0, o_fd = 0xD0000000\<rparr>"
    by (simp add: s_def demo_srv_def serve_init_def)
  have l: "openfile_lookup (req_fileid s) s = Inr 0"
    by (simp add: q openfile_lookup_def fd_pageref_def o) (simp add: s_def demo_srv_def serve_init_def)
  have sv: "serves (fsst s) {0x10001008}" using t(2) by (simp add: s_def serves_def)
  have c: "contents (view (fsst s)) 0x10001008 = replicate 5 0x41" using t(3) by (simp add: s_def)
  have ds: "replicate 3 0x41 = take (min (unat (req_word 4 s)) 4096) (drop (unat (2 :: u32)) (contents (view (fsst s)) 0x10001008))"
    by (simp add: c q)
  have "\<exists>u. serve_read s = Done (of_nat (length (replicate 3 (0x41 :: u8)))) u \<and>
      page_bytes (fsst u) FSREQ (length (replicate 3 (0x41 :: u8))) = replicate 3 0x41 \<and>
      fd_offset (fd_page u (o_fd (opentab s 0))) = 2 + of_nat (length (replicate 3 (0x41 :: u8))) \<and> opentab u = opentab s \<and>
      fd_ref u = fd_ref s \<and> serves (fsst u) {0x10001008} \<and> view (fsst u) = view (fsst s)"
    by (rule serve_read_slice [OF sv l _ _ _ _ ds]) (simp_all add: o, simp add: s_def)
  thus ?thesis by (intro exI [of _ t], unfold s_def [symmetric]) (use t(1) in \<open>auto simp: o\<close>)
qed

end
