(* ===== verification/Kdebug.thy ===== *)
theory Kdebug
  imports Printfmt
begin

text \<open>
  Debugging information (\<^verbatim>\<open>kern/kdebug.c\<close>, \<^verbatim>\<open>inc/stab.h\<close>): the search for the stab that contains
  an address, and what \<^verbatim>\<open>debuginfo_eip\<close> reports about it once the table has been found.  A stab has
  12 bytes, so that there are fewer than \<open>2 ^ 29\<close> of them in an address space and the indices, of
  type \<^verbatim>\<open>int\<close>, cannot overflow; the addresses are kept at their width.
\<close>

section \<open>Stabs\<close>

definition N_FUN :: u8 where [simp]: "N_FUN = 0x24"
definition N_SLINE :: u8 where [simp]: "N_SLINE = 0x44"
definition N_SO :: u8 where [simp]: "N_SO = 0x64"
definition N_SOL :: u8 where [simp]: "N_SOL = 0x84"
definition N_PSYM :: u8 where [simp]: "N_PSYM = 0xA0"

record Stab =
  n_strx :: u32
  n_type :: u8
  n_other :: u8
  n_desc :: u16
  n_value :: u32

type_synonym stabs = "int \<Rightarrow> Stab"

section \<open>Searching\<close>

text \<open>Both inner loops of the search: from an index down to the first stab of the type, but not below a
  bound.\<close>

function scan_back :: "stabs \<Rightarrow> u8 \<Rightarrow> int \<Rightarrow> int \<Rightarrow> int" where
  "scan_back stabs type l m = (if l \<le> m \<and> n_type (stabs m) \<noteq> type then scan_back stabs type l (m - 1) else m)"
  by pat_completeness auto
termination by (relation "measure (\<lambda>(stabs, type, l, m). nat (m - l + 1))") auto

declare scan_back.simps [simp del]

lemma scan_back_le: "scan_back stabs type l m \<le> m"
  by (induction stabs type l m rule: scan_back.induct) (subst scan_back.simps, force)

lemma scan_back_ge: "l \<le> m + 1 \<Longrightarrow> l - 1 \<le> scan_back stabs type l m"
  by (induction stabs type l m rule: scan_back.induct) (subst scan_back.simps, force)

lemma scan_back_skips: "scan_back stabs type l m < i \<Longrightarrow> i \<le> m \<Longrightarrow> n_type (stabs i) \<noteq> type"
proof (induction stabs type l m rule: scan_back.induct)
  case (1 stabs type l m)
  show ?case
  proof (cases "l \<le> m \<and> n_type (stabs m) \<noteq> type")
    case True
    thus ?thesis using 1 by (cases "i = m") (auto simp: scan_back.simps [of stabs type l m])
  next
    case False
    hence "scan_back stabs type l m = m" by (subst scan_back.simps) (simp only: if_not_P if_False)
    thus ?thesis using "1.prems" by simp
  qed
qed

lemma scan_back_hit: "l \<le> scan_back stabs type l m \<Longrightarrow> n_type (stabs (scan_back stabs type l m)) = type"
  by (induction stabs type l m rule: scan_back.induct) (subst (asm) (2) scan_back.simps, subst scan_back.simps, force)

record bsearch =
  bs_l :: int
  bs_r :: int
  any_matches :: bool
  region_left :: int
  region_right :: int
  bs_addr :: u32

text \<open>The body of the loop.\<close>

definition bsearch_step :: "stabs \<Rightarrow> u8 \<Rightarrow> bsearch \<Rightarrow> bsearch" where
  "bsearch_step stabs type b =
    (let true_m = (bs_l b + bs_r b) div 2; m = scan_back stabs type (bs_l b) true_m
     in if m < bs_l b then b\<lparr>bs_l := true_m + 1\<rparr>
        else let b = b\<lparr>any_matches := True\<rparr>
          in if n_value (stabs m) < bs_addr b then b\<lparr>region_left := m, bs_l := true_m + 1\<rparr>
             else if n_value (stabs m) > bs_addr b then b\<lparr>region_right := m - 1, bs_r := m - 1\<rparr>
             else b\<lparr>region_left := m, bs_l := m, bs_addr := bs_addr b + 1\<rparr>)"

lemma mid_between: "l \<le> r \<Longrightarrow> l \<le> (l + r) div 2" "l \<le> r \<Longrightarrow> (l + r) div 2 \<le> (r :: int)"
  by simp_all

text \<open>After an exact match the interval may stay as it is, but then the address is no longer that of its
  first stab.\<close>

function bsearch_loop :: "stabs \<Rightarrow> u8 \<Rightarrow> bsearch \<Rightarrow> bsearch" where
  "bsearch_loop stabs type b =
    (if bs_l b \<le> bs_r b then bsearch_loop stabs type (bsearch_step stabs type b) else b)"
  by pat_completeness auto

termination
proof (relation "measures [\<lambda>(stabs, type, b). nat (bs_r b - bs_l b + 1),
    \<lambda>(stabs, type, b). if n_value (stabs (bs_l b)) = bs_addr b then 1 else 0]")
  fix stabs type and b :: bsearch
  assume h: "bs_l b \<le> bs_r b"
  let ?m = "scan_back stabs type (bs_l b) ((bs_l b + bs_r b) div 2)"
  note m = mid_between [OF h] scan_back_le [of stabs type "bs_l b" "(bs_l b + bs_r b) div 2"]
  define b' where "b' = bsearch_step stabs type b"
  have "bs_r b' - bs_l b' < bs_r b - bs_l b \<or> bs_r b' = bs_r b \<and> bs_l b' = bs_l b \<and>
      n_value (stabs (bs_l b)) = bs_addr b \<and> bs_addr b' = bs_addr b + 1"
    using h m unfolding b'_def bsearch_step_def Let_def
    using linorder_less_linear [of "n_value (stabs (bs_l b))" "bs_addr b"] by (cases "?m = bs_l b") auto
  thus "((stabs, type, bsearch_step stabs type b), stabs, type, b)
    \<in> measures [\<lambda>(stabs, type, b). nat (bs_r b - bs_l b + 1),
        \<lambda>(stabs, type, b). if n_value (stabs (bs_l b)) = bs_addr b then 1 else 0]"
    using h unfolding b'_def [symmetric] by (elim disjE conjE) simp_all
qed simp

declare bsearch_loop.simps [simp del]

definition stab_binsearch :: "stabs \<Rightarrow> int \<Rightarrow> int \<Rightarrow> u8 \<Rightarrow> u32 \<Rightarrow> int \<times> int" where
  "stab_binsearch stabs left right type addr =
    (let b = bsearch_loop stabs type \<lparr>bs_l = left, bs_r = right, any_matches = False,
           region_left = left, region_right = right, bs_addr = addr\<rparr>
     in if \<not> any_matches b then (region_left b, region_left b - 1)
        else (scan_back stabs type (region_left b + 1) (region_right b), region_right b))"


section \<open>What the search finds\<close>

definition of_type :: "stabs \<Rightarrow> u8 \<Rightarrow> int \<Rightarrow> int \<Rightarrow> int set" where
  "of_type stabs type left right = {i. left \<le> i \<and> i \<le> right \<and> n_type (stabs i) = type}"

text \<open>The stabs of the type are in increasing order of their addresses.\<close>

definition ordered :: "stabs \<Rightarrow> int set \<Rightarrow> bool" where
  "ordered stabs S \<longleftrightarrow> (\<forall>i \<in> S. \<forall>j \<in> S. i \<le> j \<longrightarrow> n_value (stabs i) \<le> n_value (stabs j))"

text \<open>The stabs below the interval are at or below the address, and not after the best one so far;
  those above it are above the address.\<close>

definition bs_inv :: "stabs \<Rightarrow> int set \<Rightarrow> int \<Rightarrow> int \<Rightarrow> u32 \<Rightarrow> bsearch \<Rightarrow> bool" where
  "bs_inv stabs S L R addr b \<longleftrightarrow> L \<le> bs_l b \<and> region_right b = bs_r b \<and> bs_r b \<le> R \<and> L - 1 \<le> bs_r b \<and>
     (\<forall>i \<in> S. i < bs_l b \<longrightarrow> n_value (stabs i) \<le> addr \<and> any_matches b \<and> i \<le> region_left b) \<and>
     (\<forall>i \<in> S. bs_r b < i \<longrightarrow> addr < n_value (stabs i) \<and> any_matches b) \<and>
     (bs_r b = R \<or> bs_r b + 1 \<in> S) \<and> (any_matches b \<longrightarrow> S \<noteq> {}) \<and>
     (region_left b = L \<or> region_left b \<in> S \<and> n_value (stabs (region_left b)) \<le> addr) \<and>
     (any_matches b \<or> region_left b = L) \<and>
     (bs_addr b = addr \<or> bs_addr b = addr + 1 \<and> (\<exists>i \<in> S. n_value (stabs i) = addr))"

lemma u32_less_add1: "(a :: u32) + 1 \<noteq> 0 \<Longrightarrow> x < a + 1 \<longleftrightarrow> x \<le> a"
  using unatSuc [of a] by (simp add: word_less_nat_alt word_le_nat_alt less_Suc_eq_le add.commute)

lemma bs_inv_step:
  assumes inv: "bs_inv stabs S L R addr b" and S: "S = of_type stabs type L R" and ord: "ordered stabs S"
    and nxt: "addr + 1 \<noteq> 0" "\<forall>i \<in> S. n_value (stabs i) \<noteq> addr + 1" and lr: "bs_l b \<le> bs_r b"
  shows "bs_inv stabs S L R addr (bsearch_step stabs type b)"
proof -
  define tm where "tm = (bs_l b + bs_r b) div 2"
  define m where "m = scan_back stabs type (bs_l b) tm"
  have t: "bs_l b \<le> tm" "tm \<le> bs_r b" using mid_between [OF lr] by (simp_all add: tm_def)
  have mt: "m \<le> tm" "bs_l b - 1 \<le> m" using scan_back_le scan_back_ge t unfolding m_def by auto
  have gap: "i \<le> m" if "i \<in> S" "i \<le> tm" for i
    using scan_back_skips [of stabs type "bs_l b" tm i] that S by (force simp: m_def of_type_def)
  have I: "L \<le> bs_l b" "region_right b = bs_r b" "bs_r b \<le> R" "L - 1 \<le> bs_r b"
    "\<And>i. i \<in> S \<Longrightarrow> i < bs_l b \<Longrightarrow> n_value (stabs i) \<le> addr \<and> any_matches b \<and> i \<le> region_left b"
    "\<And>i. i \<in> S \<Longrightarrow> bs_r b < i \<Longrightarrow> addr < n_value (stabs i) \<and> any_matches b"
    "bs_r b = R \<or> bs_r b + 1 \<in> S" "any_matches b \<longrightarrow> S \<noteq> {}"
    "region_left b = L \<or> region_left b \<in> S \<and> n_value (stabs (region_left b)) \<le> addr"
    "any_matches b \<or> region_left b = L"
    "bs_addr b = addr \<or> bs_addr b = addr + 1 \<and> (\<exists>i \<in> S. n_value (stabs i) = addr)"
    using inv unfolding bs_inv_def by blast+
  show ?thesis
  proof (cases "m < bs_l b")
    case True
    have "i < bs_l b" if "i \<in> S" "i < tm + 1" for i using gap [of i] that True by linarith
    moreover have "bsearch_step stabs type b = b\<lparr>bs_l := tm + 1\<rparr>"
      using True by (simp add: bsearch_step_def Let_def tm_def m_def)
    ultimately show ?thesis using I t unfolding bs_inv_def by simp
  next
    case False
    hence mS: "m \<in> S" using scan_back_hit [of "bs_l b" stabs type tm] I(1,3) t mt(1) S
      by (auto simp: m_def of_type_def)
    have le: "n_value (stabs i) \<le> n_value (stabs m)" if "i \<in> S" "i \<le> m" for i
      using ord mS that by (auto simp: ordered_def)
    have ge: "n_value (stabs m) \<le> n_value (stabs i)" if "i \<in> S" "m \<le> i" for i
      using ord mS that by (auto simp: ordered_def)
    consider (lt) "n_value (stabs m) < bs_addr b" | (gt) "bs_addr b < n_value (stabs m)" | (eq) "n_value (stabs m) = bs_addr b"
      by (rule linorder_less_linear [THEN disjE]) auto
    thus ?thesis
    proof cases
      case lt
      hence v: "n_value (stabs m) \<le> addr" 
        using I(11) u32_less_add1 [OF nxt(1), of "n_value (stabs m)"] by (metis less_imp_le)
      have "n_value (stabs i) \<le> addr \<and> i \<le> m" if "i \<in> S" "i < tm + 1" for i
        using gap [of i] le [of i] v that by auto
      moreover have "bsearch_step stabs type b = b\<lparr>any_matches := True, region_left := m, bs_l := tm + 1\<rparr>"
        using False lt by (simp add: bsearch_step_def Let_def tm_def m_def)
      ultimately show ?thesis using I(1-4,6,7,11) t mS v unfolding bs_inv_def by auto
    next
      case gt
      have v: "addr < n_value (stabs m)"
        using I(11) gt u32_less_add1 [OF nxt(1), of addr] by (metis less_trans order_refl)
      have "addr < n_value (stabs i)" if "i \<in> S" "m \<le> i" for i using ge [OF that] v by simp
      moreover have "bsearch_step stabs type b = b\<lparr>any_matches := True, region_right := m - 1, bs_r := m - 1\<rparr>"
        using False gt by (simp add: bsearch_step_def Let_def tm_def m_def)
      moreover have "L \<le> m" "m \<le> R" using mS S by (auto simp: of_type_def)
      ultimately show ?thesis using I(1,5,9,11) mS unfolding bs_inv_def by auto
    next
      case eq
      hence v: "n_value (stabs m) = addr" "bs_addr b = addr" using I(11) nxt(2) mS by metis+
      hence "bsearch_step stabs type b = b\<lparr>any_matches := True, region_left := m, bs_l := m, bs_addr := addr + 1\<rparr>"
        using False by (simp add: bsearch_step_def Let_def tm_def m_def)
      moreover have "n_value (stabs i) \<le> addr" if "i \<in> S" "i < m" for i using le [of i] v that by simp
      moreover have "L \<le> m" using mS S by (auto simp: of_type_def)
      ultimately show ?thesis using I(1-4,6,7) v mS unfolding bs_inv_def by auto
    qed
  qed
qed

lemma bs_inv_loop:
  "bs_inv stabs S L R addr b \<Longrightarrow> S = of_type stabs type L R \<Longrightarrow> ordered stabs S \<Longrightarrow> addr + 1 \<noteq> 0 \<Longrightarrow>
   \<forall>i \<in> S. n_value (stabs i) \<noteq> addr + 1 \<Longrightarrow>
   bs_inv stabs S L R addr (bsearch_loop stabs type b) \<and>
   bs_r (bsearch_loop stabs type b) < bs_l (bsearch_loop stabs type b)"
proof (induction stabs type b rule: bsearch_loop.induct)
  case (1 stabs type b)
  show ?case
  proof (cases "bs_l b \<le> bs_r b")
    case True
    from "1.IH" [OF True bs_inv_step [OF "1.prems" True] "1.prems"(2-5)] show ?thesis
      using True by (simp add: bsearch_loop.simps [of stabs type b])
  next
    case False thus ?thesis using "1.prems"(1) by (simp add: bsearch_loop.simps [of stabs type b])
  qed
qed


text \<open>Of the stabs of the type in the region, which must be in address order, the search returns the
  last one at or below the address, with the region up to the next one.  When there are none the
  region comes back empty, but when they are all above the address it does not: it is then the
  region before the first of them.\<close>

theorem stab_binsearch_brackets:
  assumes "S = of_type stabs type L R" "ordered stabs S" "L \<le> R + 1" "addr + 1 \<noteq> 0"
    and "\<forall>i \<in> S. n_value (stabs i) \<noteq> addr + 1" "stab_binsearch stabs L R type addr = (lf, rt)"
  shows "S = {} \<and> lf = L \<and> rt = L - 1 \<or>
    lf \<in> S \<and> lf \<le> rt \<and> rt \<le> R \<and> (\<forall>i \<in> S. n_value (stabs i) \<le> addr \<longleftrightarrow> i \<le> lf) \<and>
      (\<forall>i \<in> S. i \<le> lf \<or> rt < i) \<and> (rt = R \<or> rt + 1 \<in> S) \<or>
    S \<noteq> {} \<and> (\<forall>i \<in> S. addr < n_value (stabs i) \<and> rt < i) \<and> rt + 1 \<in> S \<and> lf = min L rt"
proof -
  let ?b = "bsearch_loop stabs type \<lparr>bs_l = L, bs_r = R, any_matches = False,
           region_left = L, region_right = R, bs_addr = addr\<rparr>"
  have "bs_inv stabs S L R addr \<lparr>bs_l = L, bs_r = R, any_matches = False,
           region_left = L, region_right = R, bs_addr = addr\<rparr>"
    using assms(1,3) by (auto simp: bs_inv_def of_type_def)
  from bs_inv_loop [OF this assms(1,2,4,5)]
  have inv: "bs_inv stabs S L R addr ?b" and lr: "bs_r ?b < bs_l ?b" by blast+
  define b where "b = ?b"
  have I: "L \<le> bs_l b" "region_right b = bs_r b" "bs_r b \<le> R" "L - 1 \<le> bs_r b"
    "\<And>i. i \<in> S \<Longrightarrow> i < bs_l b \<Longrightarrow> n_value (stabs i) \<le> addr \<and> any_matches b \<and> i \<le> region_left b"
    "\<And>i. i \<in> S \<Longrightarrow> bs_r b < i \<Longrightarrow> addr < n_value (stabs i) \<and> any_matches b"
    "bs_r b = R \<or> bs_r b + 1 \<in> S" "any_matches b \<longrightarrow> S \<noteq> {}"
    "region_left b = L \<or> region_left b \<in> S \<and> n_value (stabs (region_left b)) \<le> addr"
    "any_matches b \<or> region_left b = L"
    using inv unfolding bs_inv_def b_def [symmetric] by blast+
  have side: "i < bs_l b \<or> bs_r b < i" for i using lr unfolding b_def by linarith
  have low: "L \<le> i \<and> i \<le> R" if "i \<in> S" for i using that assms(1) by (simp add: of_type_def)
  have res: "(lf, rt) = (if \<not> any_matches b then (region_left b, region_left b - 1)
        else (scan_back stabs type (region_left b + 1) (region_right b), region_right b))"
    using assms(6) by (simp only: stab_binsearch_def Let_def b_def)
  define e where "e = scan_back stabs type (region_left b + 1) (bs_r b)"
  have between: "e \<le> bs_r b" "i \<notin> S \<or> i \<le> e" if "i \<le> bs_r b" for i
    using scan_back_le scan_back_skips [of stabs type "region_left b + 1" "bs_r b" i] that assms(1)
    unfolding e_def by (auto simp: of_type_def not_le)
  have hit: "e \<in> S" if "region_left b < e" "L \<le> region_left b"
    using scan_back_hit [of "region_left b + 1" stabs type "bs_r b"] that I(3) assms(1)
      scan_back_le [of stabs type "region_left b + 1" "bs_r b"] unfolding e_def by (auto simp: of_type_def)
  show ?thesis
  proof (cases "any_matches b")
    case False
    hence "i \<notin> S" for i using side [of i] I(5) [of i] I(6) [of i] by blast
    thus ?thesis using False res I(10) by auto
  next
    case any: True
    have out: "lf = e" "rt = bs_r b" using res any I(2) by (simp_all add: e_def)
    show ?thesis
    proof (cases "\<exists>i \<in> S. n_value (stabs i) \<le> addr")
      case True
      then obtain i where i: "i \<in> S" "n_value (stabs i) \<le> addr" by blast
      hence "i \<le> region_left b" using side [of i] I(5,6) [of i] by auto
      hence lS: "region_left b \<in> S" "n_value (stabs (region_left b)) \<le> addr"
        using I(9) low [OF i(1)] i by auto
      have ler: "region_left b \<le> bs_r b" using I(6) [OF lS(1)] lS(2) by (meson not_le)
      have "e = region_left b"
      proof (rule ccontr)
        assume "e \<noteq> region_left b"
        hence lt: "region_left b < e" using scan_back_ge [of "region_left b + 1" "bs_r b" stabs type] ler
          unfolding e_def by linarith
        have "e \<in> S" by (rule hit [OF lt]) (use low [OF lS(1)] in simp)
        thus False using lt side [of e] I(5) [of e] scan_back_le [of stabs type "region_left b + 1" "bs_r b"]
          unfolding e_def by linarith
      qed
      moreover have "n_value (stabs j) \<le> addr \<longleftrightarrow> j \<le> region_left b" "j \<le> region_left b \<or> bs_r b < j" if "j \<in> S" for j
        using side [of j] I(5) [OF that] I(6) [OF that] ler by (meson not_le order_trans)+
      ultimately show ?thesis using lS ler I(3,7) out by auto
    next
      case False
      hence no: "addr < n_value (stabs i) \<and> bs_r b < i" if "i \<in> S" for i
        
        using that False I(5) [OF that] side [of i] by (meson not_le)
      obtain i where "i \<in> S" using I(8) any by blast
      hence "bs_r b + 1 \<in> S" using I(7) no low by force
      moreover have "region_left b = L" using I(9) no by (auto simp: not_le [symmetric])
      moreover have "e = min L (bs_r b)"
      proof (rule ccontr)
        assume ne: "e \<noteq> min L (bs_r b)"
        have "e \<le> bs_r b" "L \<le> bs_r b \<longrightarrow> L \<le> e" "bs_r b < L \<longrightarrow> e = bs_r b"
          using scan_back_le [of stabs type "L + 1" "bs_r b"] scan_back_ge [of "L + 1" "bs_r b" stabs type] I(4)
            scan_back.simps [of stabs type "L + 1" "bs_r b"]
          unfolding e_def \<open>region_left b = L\<close> by auto
        hence "L < e" using ne by (auto simp: min_def split: if_splits)
        hence "e \<in> S" using hit \<open>region_left b = L\<close> by simp
        thus False using no \<open>e \<le> bs_r b\<close> by force
      qed
      ultimately show ?thesis using no out by auto
    qed
  qed
qed

text \<open>The functions of a small program, at the addresses of the example in the source.\<close>

definition demo_stabs :: stabs where
  "demo_stabs i = \<lparr>n_strx = 0, n_type = (if i \<in> {0, 13, 117, 118, 555, 556, 657} then N_SO else N_FUN),
     n_other = 0, n_desc = 0, n_value =
       (if i < 13 then 0xF0100000 else if i < 117 then 0xF0100040 else if i < 118 then 0xF0100176
        else if i < 555 then 0xF0100178 else if i < 556 then 0xF0100652 else if i < 657 then 0xF0100654
        else 0xF0100849)\<rparr>"

lemma demo_stabs_type: "of_type demo_stabs N_SO 0 657 = {0, 13, 117, 118, 555, 556, 657}"
  by (auto simp: of_type_def demo_stabs_def split: if_splits)

lemma stab_binsearch_brackets_witness: "stab_binsearch demo_stabs 0 657 N_SO 0xF0100184 = (118, 554)"
proof -
  obtain lf rt where r: "stab_binsearch demo_stabs 0 657 N_SO 0xF0100184 = (lf, rt)" by fastforce
  have "ordered demo_stabs (of_type demo_stabs N_SO 0 657)"
    unfolding demo_stabs_type by (simp add: ordered_def demo_stabs_def)
  from stab_binsearch_brackets [OF refl this _ _ _ r] show ?thesis unfolding demo_stabs_type r
    by (auto simp: demo_stabs_def)
qed

text \<open>The address is counted up after an exact match, to go on to the end of the region, and then
  taken for the one that is looked for: with a stab at the next address, the search returns that one
  although it is above the address.\<close>

theorem stab_binsearch_overshoots:
  assumes "n_type (stabs 0) = type" "n_type (stabs 1) = type" "n_value (stabs 0) = a" "n_value (stabs 1) = a + 1"
    "unat a < 2 ^ 31"
  shows "stab_binsearch stabs 0 1 type a = (1, 1)"
proof -
  have u: "unat (a + 1) = Suc (unat a)" "unat (a + 1 + 1) = Suc (Suc (unat a))"
    using assms(5) by (simp_all add: unat_word_ariths)
  have lt: "a < a + 1" "a + 1 < a + 1 + 1" using u by (simp_all add: word_less_nat_alt)
  have sb: "scan_back stabs type 0 0 = 0" "scan_back stabs type 1 1 = 1" "scan_back stabs type 2 1 = 1"
    using assms(1,2) by (simp_all add: scan_back.simps)
  show ?thesis
    unfolding stab_binsearch_def
    using assms lt sb
    by (simp add: bsearch_loop.simps [where b = "\<lparr>bs_l = 0, bs_r = _, any_matches = _, region_left = _, region_right = _, bs_addr = _\<rparr>"]
        bsearch_loop.simps [where b = "\<lparr>bs_l = 1, bs_r = _, any_matches = _, region_left = _, region_right = _, bs_addr = _\<rparr>"]
        bsearch_loop.simps [where b = "\<lparr>bs_l = 2, bs_r = _, any_matches = _, region_left = _, region_right = _, bs_addr = _\<rparr>"]
        bsearch_step_def Let_def)
qed

definition adjacent_stabs :: stabs where
  "adjacent_stabs i = \<lparr>n_strx = 0, n_type = N_FUN, n_other = 0, n_desc = 0, n_value = 10 + of_int i\<rparr>"

lemma stab_binsearch_overshoots_witness:
  "stab_binsearch adjacent_stabs 0 1 N_FUN 10 = (1, 1) \<and> n_value (adjacent_stabs 1) = 11"
  using stab_binsearch_overshoots [of adjacent_stabs N_FUN 10] by (simp add: adjacent_stabs_def)

section \<open>Information about an address\<close>

text \<open>The table and the strings, once they are found; names are given as bytes, as the pointers into the
  string table are only read.\<close>

record stab_table =
  tab_stabs :: stabs
  tab_count :: int
  tab_strs :: "u8 list"

record Eipdebuginfo =
  eip_file :: "u8 list"
  eip_line :: u16
  eip_fn_name :: "u8 list"
  eip_fn_namelen :: nat
  eip_fn_addr :: u32
  eip_fn_narg :: nat

definition str_at :: "stab_table \<Rightarrow> int \<Rightarrow> u8 list option" where
  "str_at T i = (let o1 = unat (n_strx (tab_stabs T i)) in
     if o1 < length (tab_strs T) then Some (takeWhile (\<lambda>c. c \<noteq> 0) (drop o1 (tab_strs T))) else None)"

text \<open>The loop that looks for a file name backwards from the line.\<close>

function file_stab :: "stabs \<Rightarrow> int \<Rightarrow> int \<Rightarrow> int" where
  "file_stab stabs lfile l =
    (if lfile \<le> l \<and> n_type (stabs l) \<noteq> N_SOL \<and> (n_type (stabs l) \<noteq> N_SO \<or> n_value (stabs l) = 0)
     then file_stab stabs lfile (l - 1) else l)"
  by pat_completeness auto
termination by (relation "measure (\<lambda>(stabs, lfile, l). nat (l - lfile + 1))") auto

text \<open>The number of parameter stabs after the function's.\<close>

function count_params :: "stabs \<Rightarrow> int \<Rightarrow> int \<Rightarrow> nat" where
  "count_params stabs l r = (if l < r \<and> n_type (stabs l) = N_PSYM then Suc (count_params stabs (l + 1) r) else 0)"
  by pat_completeness auto
termination by (relation "measure (\<lambda>(stabs, l, r). nat (r - l))") auto

declare file_stab.simps [simp del] count_params.simps [simp del]

definition eip_unknown :: "u32 \<Rightarrow> Eipdebuginfo" where
  "eip_unknown addr = \<lparr>eip_file = chars ''<unknown>'', eip_line = 0, eip_fn_name = chars ''<unknown>'',
     eip_fn_namelen = 9, eip_fn_addr = addr, eip_fn_narg = 0\<rparr>"

text \<open>The search proper, once the table is known.  A region that starts at a negative index holds that one
  index alone, so that the middle of a region is never that of a negative odd sum, which C would round
  the other way.\<close>

definition eip_search :: "stab_table \<Rightarrow> u32 \<Rightarrow> int \<times> Eipdebuginfo" where
  "eip_search T addr =
    (let stabs = tab_stabs T; info = eip_unknown addr in
     if tab_strs T = [] \<or> last (tab_strs T) \<noteq> 0 then (- 1, info)
     else case stab_binsearch stabs 0 (tab_count T - 1) N_SO addr of (lfile, rfile) \<Rightarrow>
     if lfile = 0 then (- 1, info)
     else case stab_binsearch stabs lfile rfile N_FUN addr of (lfun, rfun) \<Rightarrow>
     let (addr, lline, rline, info) =
          (if lfun \<le> rfun
           then let info = (case str_at T lfun of Some name \<Rightarrow> info\<lparr>eip_fn_name := name\<rparr> | None \<Rightarrow> info)
             in (addr - n_value (stabs lfun), lfun, rfun, info\<lparr>eip_fn_addr := n_value (stabs lfun)\<rparr>)
           else (addr, lfile, rfile, info\<lparr>eip_fn_addr := addr\<rparr>));
         info = info\<lparr>eip_fn_namelen := length (takeWhile (\<lambda>c. c \<noteq> 0x3A) (eip_fn_name info))\<rparr>
     in case stab_binsearch stabs lline rline N_SLINE addr of (lline, rline) \<Rightarrow>
     let info = (if lline \<le> rline then info\<lparr>eip_line := n_desc (stabs lline)\<rparr> else info);
         lline = file_stab stabs lfile lline;
         info = (if lfile \<le> lline then case str_at T lline of Some name \<Rightarrow> info\<lparr>eip_file := name\<rparr> | None \<Rightarrow> info
                 else info)
     in (0, if lfun < rfun then info\<lparr>eip_fn_narg := eip_fn_narg info + count_params stabs (lfun + 1) rfun\<rparr> else info))"

end
