(* ===== verification/Spinlock.thy ===== *)
theory Spinlock
  imports Prelude
begin

text \<open>
  The spin lock (\<^verbatim>\<open>kern/spinlock.c\<close>, \<^verbatim>\<open>kern/spinlock.h\<close>, \<^verbatim>\<open>xchg\<close> of \<^verbatim>\<open>inc/x86.h\<close>), as the
  processors run it against each other: every access to the lock is a step of its own and the steps
  of the processors interleave in any order.  The name of the lock and the call stack it records,
  which only a message of \<^verbatim>\<open>spin_unlock\<close> reads, are left out.
\<close>

section \<open>The lock\<close>

record spinlock =
  locked :: u32
  lk_cpu :: "nat option"

definition spin_initlock :: "spinlock \<Rightarrow> spinlock" where
  "spin_initlock lk = lk\<lparr>locked := 0, lk_cpu := None\<rparr>"

definition xchg_locked :: "u32 \<Rightarrow> spinlock \<Rightarrow> u32 \<times> spinlock" where
  "xchg_locked newval lk = (locked lk, lk\<lparr>locked := newval\<rparr>)"

section \<open>Processors\<close>

text \<open>What a processor is about to do: to read \<open>lock->locked\<close> and \<open>lock->cpu\<close> for \<^verbatim>\<open>holding\<close>, in one of
  the two functions, to exchange the lock word, to record itself in the lock, to clear the record and
  to unlock.  A processor that is \<open>Running\<close> is outside of both functions.\<close>

datatype lock_fn = Spin_lock | Spin_unlock

datatype lock_pc = Running | AtLocked lock_fn | AtCpu lock_fn | AtXchg | AtRecord | AtClear | AtUnlock
  | Panicked lock_fn

text \<open>\<open>owners\<close> is no part of the program: the processors that have taken the lock and not given it back.\<close>

record lock_state =
  lock :: spinlock
  lock_pcs :: "nat \<Rightarrow> lock_pc"
  owners :: "nat set"

definition go :: "nat \<Rightarrow> lock_pc \<Rightarrow> lock_state \<Rightarrow> lock_state" where
  "go c p s = s\<lparr>lock_pcs := (lock_pcs s)(c := p)\<rparr>"

text \<open>The two functions do opposite things with the result of \<^verbatim>\<open>holding\<close>.\<close>

fun after_holding :: "lock_fn \<Rightarrow> bool \<Rightarrow> lock_pc" where
  "after_holding Spin_lock held = (if held then Panicked Spin_lock else AtXchg)"
| "after_holding Spin_unlock held = (if held then AtClear else Panicked Spin_unlock)"

text \<open>The statements of the functions, one access to the lock each.\<close>

fun lock_exec :: "nat \<Rightarrow> lock_pc \<Rightarrow> lock_state \<Rightarrow> lock_state" where
  "lock_exec c (AtLocked f) s = go c (if locked (lock s) = 0 then after_holding f False else AtCpu f) s"
| "lock_exec c (AtCpu f) s = go c (after_holding f (lk_cpu (lock s) = Some c)) s"
| "lock_exec c AtXchg s = (case xchg_locked 1 (lock s) of (old, l) \<Rightarrow>
     if old \<noteq> 0 then s\<lparr>lock := l\<rparr> else go c AtRecord (s\<lparr>lock := l, owners := insert c (owners s)\<rparr>))"
| "lock_exec c AtRecord s = go c Running (s\<lparr>lock := (lock s)\<lparr>lk_cpu := Some c\<rparr>\<rparr>)"
| "lock_exec c AtClear s = go c AtUnlock (s\<lparr>lock := (lock s)\<lparr>lk_cpu := None\<rparr>\<rparr>)"
| "lock_exec c AtUnlock s =
     go c Running (s\<lparr>lock := snd (xchg_locked 0 (lock s)), owners := owners s - {c}\<rparr>)"
| "lock_exec c Running s = s"
| "lock_exec c (Panicked f) s = s"

text \<open>A running processor may call either function at any time, rightly or wrongly.\<close>

inductive lock_step :: "lock_state \<Rightarrow> lock_state \<Rightarrow> bool" where
  call: "lock_pcs s c = Running \<Longrightarrow> lock_step s (go c (AtLocked f) s)"
| exec: "lock_step s (lock_exec c (lock_pcs s c) s)"

inductive_cases lock_stepE: "lock_step s t"

inductive lock_reachable :: "lock_state \<Rightarrow> bool" where
  init: "lock_reachable \<lparr>lock = spin_initlock lk, lock_pcs = \<lambda>_. Running, owners = {}\<rparr>"
| step: "lock_reachable s \<Longrightarrow> lock_step s t \<Longrightarrow> lock_reachable t"

section \<open>Mutual exclusion\<close>

text \<open>Where a processor can be if it has the lock, and if it has not.\<close>

fun pc_owner :: "lock_pc \<Rightarrow> bool option" where
  "pc_owner AtXchg = Some False"
| "pc_owner (Panicked Spin_lock) = Some True"
| "pc_owner (Panicked Spin_unlock) = Some False"
| "pc_owner AtRecord = Some True"
| "pc_owner AtClear = Some True"
| "pc_owner AtUnlock = Some True"
| "pc_owner Running = None"
| "pc_owner (AtLocked f) = None"
| "pc_owner (AtCpu f) = None"

definition recorded :: "lock_pc \<Rightarrow> bool" where
  "recorded p \<longleftrightarrow> p \<noteq> AtRecord \<and> p \<noteq> AtUnlock"

definition lock_inv :: "lock_state \<Rightarrow> bool" where
  "lock_inv s \<longleftrightarrow> (locked (lock s) \<noteq> 0 \<longleftrightarrow> owners s \<noteq> {}) \<and>
     (\<forall>c d. c \<in> owners s \<longrightarrow> d \<in> owners s \<longrightarrow> c = d) \<and>
     (\<forall>c. lk_cpu (lock s) = Some c \<longleftrightarrow> c \<in> owners s \<and> recorded (lock_pcs s c)) \<and>
     (\<forall>c b. pc_owner (lock_pcs s c) = Some b \<longrightarrow> (c \<in> owners s \<longleftrightarrow> b))"

lemma lock_inv_init: "lock_inv \<lparr>lock = spin_initlock lk, lock_pcs = \<lambda>_. Running, owners = {}\<rparr>"
  by (simp add: lock_inv_def spin_initlock_def)

text \<open>Steps that only move a processor.\<close>

lemma lock_inv_go:
  assumes "lock_inv s" "recorded p \<longleftrightarrow> recorded (lock_pcs s c)" "\<forall>b. pc_owner p = Some b \<longrightarrow> (c \<in> owners s \<longleftrightarrow> b)"
  shows "lock_inv (go c p s)"
  using assms by (auto simp: lock_inv_def go_def)

lemma holding_right:
  assumes "lock_inv s" "lock_pcs s c = AtCpu f"
  shows "lk_cpu (lock s) = Some c \<longleftrightarrow> c \<in> owners s"
  using assms by (simp add: lock_inv_def recorded_def)

lemma lock_inv_exec:
  assumes "lock_inv s" shows "lock_inv (lock_exec c (lock_pcs s c) s)"
proof (cases "lock_pcs s c")
  case (AtLocked f)
  have "c \<notin> owners s" if "locked (lock s) = 0" using assms that by (auto simp: lock_inv_def)
  thus ?thesis using AtLocked by (cases f) (auto intro!: lock_inv_go [OF assms] simp: recorded_def)
next
  case (AtCpu f)
  thus ?thesis using holding_right [OF assms AtCpu]
    by (cases f) (auto intro!: lock_inv_go [OF assms] simp: recorded_def)
next
  case AtXchg
  have "c \<notin> owners s" using assms AtXchg by (auto simp: lock_inv_def)
  moreover have "owners s = {} \<longrightarrow> (\<forall>d. pc_owner (lock_pcs s d) \<noteq> Some True)"
    using assms unfolding lock_inv_def by blast
  ultimately show ?thesis using assms AtXchg
    by (auto simp: xchg_locked_def lock_inv_def go_def recorded_def)
next
  case AtRecord
  have "c \<in> owners s" using assms AtRecord by (auto simp: lock_inv_def)
  thus ?thesis using assms AtRecord by (auto simp: lock_inv_def go_def recorded_def)
next
  case AtClear
  have "c \<in> owners s" using assms AtClear by (auto simp: lock_inv_def)
  thus ?thesis using assms AtClear by (auto simp: lock_inv_def go_def recorded_def)
next
  case AtUnlock
  have "owners s = {c}" using assms AtUnlock by (auto simp: lock_inv_def)
  moreover have "lk_cpu (lock s) = None"
    using assms AtUnlock calculation by (cases "lk_cpu (lock s)") (auto simp: lock_inv_def recorded_def)
  ultimately show ?thesis using assms AtUnlock by (auto simp: xchg_locked_def lock_inv_def go_def recorded_def)
qed (use assms in simp_all)

lemma lock_inv_step: "lock_step s t \<Longrightarrow> lock_inv s \<Longrightarrow> lock_inv t"
  by (erule lock_stepE) (auto intro: lock_inv_exec intro!: lock_inv_go simp: recorded_def)

lemma lock_inv_reachable: "lock_reachable s \<Longrightarrow> lock_inv s"
  by (induction rule: lock_reachable.induct) (auto intro: lock_inv_init lock_inv_step)

text \<open>C32: At most one processor has the lock at any time, whatever the order of the accesses.  A processor
  that has it is stopped when it calls \<^verbatim>\<open>spin_lock\<close> again, instead of waiting for itself, and one that
  has not is stopped when it calls \<^verbatim>\<open>spin_unlock\<close>; no other call is stopped.\<close>

theorem spinlock_mutex:
  assumes "lock_reachable s"
  shows "(\<forall>c d. {c, d} \<subseteq> owners s \<longrightarrow> c = d) \<and> (\<forall>c. lock_pcs s c = AtXchg \<longrightarrow> c \<notin> owners s) \<and>
    (\<forall>c. lock_pcs s c = Panicked Spin_lock \<longrightarrow> c \<in> owners s) \<and>
    (\<forall>c. lock_pcs s c \<in> {AtClear, AtUnlock} \<longrightarrow> c \<in> owners s) \<and>
    (\<forall>c. lock_pcs s c = Panicked Spin_unlock \<longrightarrow> c \<notin> owners s)"
  using lock_inv_reachable [OF assms] by (auto simp: lock_inv_def)

text \<open>Two processors call \<^verbatim>\<open>spin_lock\<close>; the second finds the lock taken.\<close>

definition race :: "lock_state" where
  "race = lock_exec 1 AtXchg (lock_exec 0 AtXchg (lock_exec 1 (AtLocked Spin_lock) (lock_exec 0 (AtLocked Spin_lock)
     (go 1 (AtLocked Spin_lock) (go 0 (AtLocked Spin_lock)
       \<lparr>lock = spin_initlock \<lparr>locked = 0, lk_cpu = None\<rparr>, lock_pcs = \<lambda>_. Running, owners = {}\<rparr>)))))"

lemma race_reachable: "lock_reachable race"
proof -
  let ?s0 = "\<lparr>lock = spin_initlock \<lparr>locked = 0, lk_cpu = None\<rparr>, lock_pcs = \<lambda>_. Running, owners = {}\<rparr>"
  let ?s1 = "go 0 (AtLocked Spin_lock) ?s0"
  let ?s2 = "go 1 (AtLocked Spin_lock) ?s1"
  let ?s3 = "lock_exec 0 (AtLocked Spin_lock) ?s2"
  let ?s4 = "lock_exec 1 (AtLocked Spin_lock) ?s3"
  let ?s5 = "lock_exec 0 AtXchg ?s4"
  have "lock_reachable ?s1" by (rule lock_reachable.step [OF init call]) simp
  hence s2: "lock_reachable ?s2" by (rule lock_reachable.step [OF _ call]) (simp add: go_def)
  have s3: "lock_reachable ?s3" using lock_reachable.step [OF s2 exec [of _ 0]] by (simp add: go_def)
  have s4: "lock_reachable ?s4"
    using lock_reachable.step [OF s3 exec [of _ 1]] by (simp add: go_def spin_initlock_def)
  have s5: "lock_reachable ?s5"
    using lock_reachable.step [OF s4 exec [of _ 0]] by (simp add: go_def spin_initlock_def)
  show ?thesis unfolding race_def
    using lock_reachable.step [OF s5 exec [of _ 1]] by (simp add: go_def spin_initlock_def xchg_locked_def)
qed

lemma spinlock_mutex_witness: "owners race = {0} \<and> lock_pcs race 1 = AtXchg \<and> 1 \<notin> owners race"
proof -
  have "owners race = {0}" "lock_pcs race 1 = AtXchg"
    by (simp_all add: race_def go_def spin_initlock_def xchg_locked_def)
  thus ?thesis using spinlock_mutex [OF race_reachable] by blast
qed

end
