(* ===== verification/Pipe.thy ===== *)
theory Pipe
  imports Fifo Mmu Errors "HOL-Library.Signed_Division" "HOL-Library.Sublist"
begin

text \<open>
  Pipes (\<^verbatim>\<open>lib/pipe.c\<close>): the ring buffer, the reader and the writer as two environments whose
  accesses to it interleave in any order, and the test for a closed pipe.  The kernel may switch
  environments between any two accesses, so each access that the other side can see is a step.
\<close>

section \<open>The buffer\<close>

text \<open>The positions are of type \<^verbatim>\<open>off_t\<close>, a signed word, and grow for ever; the index is the signed
  remainder, which is negative when the position is.\<close>

record Pipe =
  p_rpos :: u32
  p_wpos :: u32
  p_buf :: "int \<Rightarrow> u8"

definition PIPEBUFSIZ :: nat where [simp]: "PIPEBUFSIZ = 32"

definition pipe_index :: "u32 \<Rightarrow> int" where
  "pipe_index pos = sint pos smod 32"

definition pipe_empty :: "Pipe \<Rightarrow> bool" where
  "pipe_empty p \<longleftrightarrow> p_rpos p = p_wpos p"

text \<open>\<^verbatim>\<open>sizeof\<close> makes the comparison unsigned.\<close>

definition pipe_full :: "Pipe \<Rightarrow> bool" where
  "pipe_full p \<longleftrightarrow> p_rpos p + of_nat PIPEBUFSIZ \<le> p_wpos p"

definition peek :: "Pipe \<Rightarrow> u8" where
  "peek p = p_buf p (pipe_index (p_rpos p))"

definition took :: "Pipe \<Rightarrow> Pipe" where
  "took p = p\<lparr>p_rpos := p_rpos p + 1\<rparr>"

definition poke :: "u8 \<Rightarrow> Pipe \<Rightarrow> Pipe" where
  "poke b p = p\<lparr>p_buf := (p_buf p)(pipe_index (p_wpos p) := b)\<rparr>"

definition put_in :: "Pipe \<Rightarrow> Pipe" where
  "put_in p = p\<lparr>p_wpos := p_wpos p + 1\<rparr>"

section \<open>Reader and writer\<close>

text \<open>Where the reader is in \<^verbatim>\<open>devpipe_read\<close>: not in it, before the test of the loop, between taking the
  byte and counting it, or before the test whether the pipe is closed.  \<open>r_buf\<close> holds the bytes stored
  in the caller's buffer.\<close>

datatype rd_pc = RIdle | RLoop | RCount | RClosed

record reader =
  r_pc :: rd_pc
  r_n :: nat
  r_i :: nat
  r_buf :: "u8 list"
  r_ret :: nat
  r_open :: bool

datatype wr_pc = WIdle | WLoop | WCount | WClosed

record writer =
  w_pc :: wr_pc
  w_data :: "u8 list"
  w_i :: nat
  w_ret :: nat
  w_open :: bool

text \<open>\<open>sent\<close> and \<open>got\<close> are no part of the program: the bytes that have been counted in and out.\<close>

record pipe_sys =
  pipe_mem :: Pipe
  rd :: reader
  wr :: writer
  sent :: "u8 list"
  got :: "u8 list"

definition set_rd :: "(reader \<Rightarrow> reader) \<Rightarrow> pipe_sys \<Rightarrow> pipe_sys" where
  "set_rd f s = s\<lparr>rd := f (rd s)\<rparr>"

definition set_wr :: "(writer \<Rightarrow> writer) \<Rightarrow> pipe_sys \<Rightarrow> pipe_sys" where
  "set_wr f s = s\<lparr>wr := f (wr s)\<rparr>"

definition on_pipe :: "(Pipe \<Rightarrow> Pipe) \<Rightarrow> pipe_sys \<Rightarrow> pipe_sys" where
  "on_pipe f s = s\<lparr>pipe_mem := f (pipe_mem s)\<rparr>"

text \<open>One step of \<^verbatim>\<open>devpipe_read\<close>; yielding to the other environments leaves the state as it is.  The test for a
  closed pipe is one look at whether the other side has its end open, which \<^verbatim>\<open>_pipeisclosed\<close> tells from
  reference counts.\<close>

definition devpipe_read :: "pipe_sys \<Rightarrow> pipe_sys" where
  "devpipe_read s = (let r = rd s; p = pipe_mem s in
     case r_pc r of
       RIdle \<Rightarrow> s
     | RLoop \<Rightarrow>
         if r_i r = r_n r then set_rd (\<lambda>r. r\<lparr>r_pc := RIdle, r_ret := r_i r\<rparr>) s
         else if pipe_empty p
         then if 0 < r_i r then set_rd (\<lambda>r. r\<lparr>r_pc := RIdle, r_ret := r_i r\<rparr>) s
              else set_rd (\<lambda>r. r\<lparr>r_pc := RClosed\<rparr>) s
         else set_rd (\<lambda>r. r\<lparr>r_pc := RCount, r_buf := r_buf r @ [peek p]\<rparr>) s
     | RClosed \<Rightarrow>
         if \<not> w_open (wr s) then set_rd (\<lambda>r. r\<lparr>r_pc := RIdle, r_ret := 0\<rparr>) s
         else set_rd (\<lambda>r. r\<lparr>r_pc := RLoop\<rparr>) s
     | RCount \<Rightarrow>
         (set_rd (\<lambda>r. r\<lparr>r_pc := RLoop, r_i := r_i r + 1\<rparr>) (on_pipe took s))\<lparr>got := got s @ [last (r_buf r)]\<rparr>)"

definition devpipe_write :: "pipe_sys \<Rightarrow> pipe_sys" where
  "devpipe_write s = (let w = wr s; p = pipe_mem s in
     case w_pc w of
       WIdle \<Rightarrow> s
     | WLoop \<Rightarrow>
         if w_i w = length (w_data w) then set_wr (\<lambda>w. w\<lparr>w_pc := WIdle, w_ret := w_i w\<rparr>) s
         else if pipe_full p then set_wr (\<lambda>w. w\<lparr>w_pc := WClosed\<rparr>) s
         else set_wr (\<lambda>w. w\<lparr>w_pc := WCount\<rparr>) (on_pipe (poke (w_data w ! w_i w)) s)
     | WClosed \<Rightarrow>
         if \<not> r_open (rd s) then set_wr (\<lambda>w. w\<lparr>w_pc := WIdle, w_ret := 0\<rparr>) s
         else set_wr (\<lambda>w. w\<lparr>w_pc := WLoop\<rparr>) s
     | WCount \<Rightarrow>
         (set_wr (\<lambda>w. w\<lparr>w_pc := WLoop, w_i := w_i w + 1\<rparr>) (on_pipe put_in s))\<lparr>sent := sent s @ [w_data w ! w_i w]\<rparr>)"

text \<open>Either side may start a call when it is not in one, or close its end, and either may take a step.\<close>

inductive pipe_step :: "pipe_sys \<Rightarrow> pipe_sys \<Rightarrow> bool" where
  call_read: "r_pc (rd s) = RIdle \<Longrightarrow> r_open (rd s) \<Longrightarrow>
    pipe_step s (set_rd (\<lambda>r. r\<lparr>r_pc := RLoop, r_n := n, r_i := 0, r_buf := []\<rparr>) s)"
| call_write: "w_pc (wr s) = WIdle \<Longrightarrow> w_open (wr s) \<Longrightarrow>
    pipe_step s (set_wr (\<lambda>w. w\<lparr>w_pc := WLoop, w_data := bs, w_i := 0\<rparr>) s)"
| close_read: "r_pc (rd s) = RIdle \<Longrightarrow> pipe_step s (set_rd (\<lambda>r. r\<lparr>r_open := False\<rparr>) s)"
| close_write: "w_pc (wr s) = WIdle \<Longrightarrow> pipe_step s (set_wr (\<lambda>w. w\<lparr>w_open := False\<rparr>) s)"
| read_step: "pipe_step s (devpipe_read s)"
| write_step: "pipe_step s (devpipe_write s)"

inductive_cases pipe_stepE: "pipe_step s t"

definition pipe_init :: "pipe_sys" where
  "pipe_init = \<lparr>pipe_mem = \<lparr>p_rpos = 0, p_wpos = 0, p_buf = \<lambda>_. 0\<rparr>,
     rd = \<lparr>r_pc = RIdle, r_n = 0, r_i = 0, r_buf = [], r_ret = 0, r_open = True\<rparr>,
     wr = \<lparr>w_pc = WIdle, w_data = [], w_i = 0, w_ret = 0, w_open = True\<rparr>, sent = [], got = []\<rparr>"

inductive pipe_reachable :: "pipe_sys \<Rightarrow> bool" where
  init: "pipe_reachable pipe_init"
| step: "pipe_reachable s \<Longrightarrow> pipe_step s t \<Longrightarrow> pipe_reachable t"

text \<open>\<^verbatim>\<open>_pipeisclosed\<close> reads the environment's run counter, the reference counts of the descriptor and of
  the buffer and the counter again, until it has not been switched out in between.  Each sample is
  the four values that one turn of the loop reads.\<close>

fun pipeisclosed_loop :: "(u32 \<times> nat \<times> nat \<times> u32) list \<Rightarrow> bool option" where
  "pipeisclosed_loop [] = None"
| "pipeisclosed_loop ((n, ref_fd, ref_p, nn) # rest) =
     (if n = nn then Some (ref_fd = ref_p) else pipeisclosed_loop rest)"

section \<open>The ring buffer is a queue\<close>

definition pipe_rep :: "Pipe \<Rightarrow> u8 list \<Rightarrow> bool" where
  "pipe_rep p xs \<longleftrightarrow> unat (p_wpos p) = unat (p_rpos p) + length xs \<and> unat (p_wpos p) < 2 ^ 31 \<and>
     length xs \<le> 32 \<and> (\<forall>i < length xs. p_buf p (int ((unat (p_rpos p) + i) mod 32)) = xs ! i)"

text \<open>The room in the buffer, as long as the positions stay positive.\<close>

definition pipe_fits :: "Pipe \<Rightarrow> u8 list \<Rightarrow> nat" where
  "pipe_fits p xs = min (32 - length xs) (2 ^ 31 - 1 - unat (p_wpos p))"

definition pipe_put :: "u8 \<Rightarrow> Pipe \<Rightarrow> Pipe" where
  "pipe_put b p = put_in (poke b p)"

definition pipe_get :: "Pipe \<Rightarrow> (u8 \<times> Pipe) option" where
  "pipe_get p = (if pipe_empty p then None else Some (peek p, took p))"

lemma pipe_index_small: "unat pos < 2 ^ 31 \<Longrightarrow> pipe_index pos = int (unat pos mod 32)"
proof -
  assume h: "unat pos < 2 ^ 31"
  hence "sint pos = int (unat pos)" using sint_small [of pos] by simp
  thus ?thesis by (simp add: pipe_index_def smod_mod_positive zmod_int)
qed

lemma Suc_u32: "unat (x :: u32) < 2 ^ 31 \<Longrightarrow> unat (x + 1) = Suc (unat x)"
  by (simp add: unat_word_ariths)

lemma mod32_apart: "i < k \<Longrightarrow> k < 32 \<Longrightarrow> (a + i) mod 32 \<noteq> (a + k) mod (32 :: nat)"
proof
  assume h: "i < k" "k < 32" "(a + i) mod 32 = (a + k) mod 32"
  hence "32 dvd (a + k) - (a + i)" by (metis mod_eq_dvd_iff_nat add_le_cancel_left less_imp_le)
  thus False using h(1,2) by (auto dest: dvd_imp_le)
qed

lemma poke_rep:
  assumes "pipe_rep p xs" "length xs < 32"
  shows "pipe_rep (poke x p) xs" "p_buf (poke x p) (pipe_index (p_wpos (poke x p))) = x"
proof -
  have R: "unat (p_wpos p) = unat (p_rpos p) + length xs" "unat (p_wpos p) < 2 ^ 31"
    using assms(1) by (auto simp: pipe_rep_def)
  have "int ((unat (p_rpos p) + i) mod 32) \<noteq> int (unat (p_wpos p) mod 32)" if "i < length xs" for i
    using mod32_apart [OF that assms(2), of "unat (p_rpos p)"] R(1) by (metis of_nat_eq_iff)
  thus "pipe_rep (poke x p) xs" using assms R(2) by (auto simp: pipe_rep_def poke_def pipe_index_small)
  show "p_buf (poke x p) (pipe_index (p_wpos (poke x p))) = x" by (simp add: poke_def)
qed

lemma put_in_rep:
  assumes "pipe_rep p xs" "length xs < 32" "unat (p_wpos p) < 2 ^ 31 - 1"
    and "p_buf p (pipe_index (p_wpos p)) = x"
  shows "pipe_rep (put_in p) (xs @ [x])"
proof -
  have R: "unat (p_wpos p) = unat (p_rpos p) + length xs" "unat (p_wpos p) < 2 ^ 31"
    using assms(1) by (auto simp: pipe_rep_def)
  show ?thesis using assms R Suc_u32 [OF R(2)]
    by (auto simp: pipe_rep_def put_in_def pipe_index_small nth_append less_Suc_eq)
qed

lemma pipe_put_rep: "pipe_rep p xs \<Longrightarrow> 0 < pipe_fits p xs \<Longrightarrow> pipe_rep (pipe_put x p) (xs @ [x])"
  unfolding pipe_put_def
  by (rule put_in_rep [OF poke_rep(1) _ _ poke_rep(2)]) (auto simp: pipe_fits_def poke_def)

lemma pipe_get_rep:
  assumes "pipe_rep p (x # xs)"
  shows "\<not> pipe_empty p" "peek p = x" "pipe_rep (took p) xs"
proof -
  have R: "unat (p_wpos p) = unat (p_rpos p) + Suc (length xs)" "unat (p_wpos p) < 2 ^ 31"
    "\<And>i. i < Suc (length xs) \<Longrightarrow> p_buf p (int ((unat (p_rpos p) + i) mod 32)) = (x # xs) ! i"
    using assms by (auto simp: pipe_rep_def)
  show "\<not> pipe_empty p" using R(1) by (auto simp: pipe_empty_def)
  have r: "unat (p_rpos p) < 2 ^ 31" using R(1,2) by linarith
  show "peek p = x" using R(3) [of 0] pipe_index_small [OF r] by (simp add: peek_def)
  have "p_buf p (int (Suc (unat (p_rpos p) + i) mod 32)) = xs ! i" if "i < length xs" for i
    using R(3) [of "Suc i"] that by simp
  thus "pipe_rep (took p) xs" using assms Suc_u32 [OF r] by (simp add: pipe_rep_def took_def)
qed

lemma pipe_empty_rep: "pipe_rep p xs \<Longrightarrow> pipe_empty p \<longleftrightarrow> xs = []"
  using word_unat_eq_iff [of "p_rpos p" "p_wpos p"] by (auto simp: pipe_rep_def pipe_empty_def)

lemma pipe_full_rep: "pipe_rep p xs \<Longrightarrow> pipe_full p \<longleftrightarrow> length xs = 32"
  by (auto simp: pipe_rep_def pipe_full_def word_le_nat_alt unat_word_ariths)

interpretation pipe_queue: fifo "\<lambda>_. True" pipe_rep pipe_fits pipe_put pipe_get
proof
  fix p xs and x :: u8
  assume "pipe_rep p xs" "0 < pipe_fits p xs"
  thus "pipe_fits p xs \<le> Suc (pipe_fits (pipe_put x p) (xs @ [x]))"
    using Suc_u32 [of "p_wpos p"] by (auto simp: pipe_fits_def pipe_put_def put_in_def poke_def pipe_rep_def)
qed (auto simp: pipe_get_def pipe_empty_rep dest: pipe_get_rep intro: pipe_put_rep)


section \<open>Every interleaving\<close>

definition rd_ok :: "reader \<Rightarrow> u8 list \<Rightarrow> u8 list \<Rightarrow> bool" where
  "rd_ok r xs g \<longleftrightarrow> (case r_pc r of
       RIdle \<Rightarrow> r_ret r = length (r_buf r) \<and> suffix (r_buf r) g
     | RLoop \<Rightarrow> length (r_buf r) = r_i r \<and> suffix (r_buf r) g
     | RCount \<Rightarrow> xs \<noteq> [] \<and> length (r_buf r) = Suc (r_i r) \<and> last (r_buf r) = hd xs \<and> suffix (butlast (r_buf r)) g
     | RClosed \<Rightarrow> r_buf r = [] \<and> r_i r = 0)"

definition wr_ok :: "writer \<Rightarrow> Pipe \<Rightarrow> u8 list \<Rightarrow> u8 list \<Rightarrow> bool" where
  "wr_ok w p xs st \<longleftrightarrow> (case w_pc w of
       WIdle \<Rightarrow> w_ret w = 0 \<or> w_ret w = length (w_data w) \<and> suffix (w_data w) st
     | WCount \<Rightarrow> length xs < 32 \<and> w_i w < length (w_data w) \<and>
         p_buf p (pipe_index (p_wpos p)) = w_data w ! w_i w \<and> suffix (take (w_i w) (w_data w)) st
     | _ \<Rightarrow> w_i w \<le> length (w_data w) \<and> suffix (take (w_i w) (w_data w)) st)"

definition pipe_inv :: "pipe_sys \<Rightarrow> bool" where
  "pipe_inv s \<longleftrightarrow> (\<exists>xs. sent s = got s @ xs \<and> pipe_rep (pipe_mem s) xs \<and>
     unat (p_rpos (pipe_mem s)) = length (got s) \<and> rd_ok (rd s) xs (got s) \<and> wr_ok (wr s) (pipe_mem s) xs (sent s))"

lemma pipe_inv_init: "pipe_inv pipe_init"
  by (simp add: pipe_inv_def pipe_init_def pipe_rep_def rd_ok_def wr_ok_def)

lemma suffix_snoc: "suffix xs ys \<Longrightarrow> suffix (xs @ [x]) (ys @ [x])"
  by (auto simp: suffix_def)

lemma pipe_inv_read:
  assumes "pipe_inv s" shows "pipe_inv (devpipe_read s)"
proof -
  obtain xs where I: "sent s = got s @ xs" "pipe_rep (pipe_mem s) xs" "unat (p_rpos (pipe_mem s)) = length (got s)"
    "rd_ok (rd s) xs (got s)" "wr_ok (wr s) (pipe_mem s) xs (sent s)"
    using assms unfolding pipe_inv_def by blast
  show ?thesis
  proof (cases "r_pc (rd s)")
    case RCount
    then obtain x ys where xs: "xs = x # ys" using I(4) by (cases xs) (auto simp: rd_ok_def)
    have b: "r_buf (rd s) \<noteq> []" "last (r_buf (rd s)) = x" "length (r_buf (rd s)) = Suc (r_i (rd s))"
      "suffix (butlast (r_buf (rd s))) (got s)"
      using I(4) RCount xs by (auto simp: rd_ok_def)
    have "suffix (r_buf (rd s)) (got s @ [x])" using suffix_snoc [OF b(4), of x] b(1,2)
      by (metis append_butlast_last_id)
    moreover have "unat (p_rpos (took (pipe_mem s))) = Suc (length (got s))"
      using I(2,3) Suc_u32 [of "p_rpos (pipe_mem s)"] by (auto simp: took_def pipe_rep_def)
    moreover have "wr_ok (wr s) (took (pipe_mem s)) ys (sent s)"
      using I(5) xs by (auto simp: wr_ok_def took_def split: wr_pc.splits)
    ultimately show ?thesis using I pipe_get_rep(3) [of "pipe_mem s" x ys] RCount xs b
      by (auto simp: pipe_inv_def devpipe_read_def Let_def set_rd_def on_pipe_def rd_ok_def)
  next
    case RLoop
    show ?thesis
    proof (cases xs)
      case Nil
      thus ?thesis using I RLoop pipe_empty_rep [OF I(2)]
        by (auto simp: pipe_inv_def devpipe_read_def Let_def set_rd_def rd_ok_def)
    next
      case (Cons x ys)
      thus ?thesis using I RLoop pipe_get_rep [of "pipe_mem s" x ys]
        by (auto simp: pipe_inv_def devpipe_read_def Let_def set_rd_def rd_ok_def)
    qed
  qed (use I in \<open>auto simp: pipe_inv_def devpipe_read_def Let_def set_rd_def rd_ok_def\<close>)
qed

lemma pipe_inv_write:
  assumes "pipe_inv s" "length (sent (devpipe_write s)) < 2 ^ 31"
  shows "pipe_inv (devpipe_write s)"
proof -
  obtain xs where I: "sent s = got s @ xs" "pipe_rep (pipe_mem s) xs" "unat (p_rpos (pipe_mem s)) = length (got s)"
    "rd_ok (rd s) xs (got s)" "wr_ok (wr s) (pipe_mem s) xs (sent s)"
    using assms unfolding pipe_inv_def by blast
  have wp: "unat (p_wpos (pipe_mem s)) = length (sent s)" using I(1,2,3) by (simp add: pipe_rep_def)
  show ?thesis
  proof (cases "w_pc (wr s)")
    case WCount
    let ?w = "wr s"
    have W: "length xs < 32" "w_i ?w < length (w_data ?w)"
      "p_buf (pipe_mem s) (pipe_index (p_wpos (pipe_mem s))) = w_data ?w ! w_i ?w"
      "suffix (take (w_i ?w) (w_data ?w)) (sent s)"
      using I(5) WCount by (auto simp: wr_ok_def)
    have "length (sent s) < 2 ^ 31 - 1"
      using assms(2) WCount by (simp add: devpipe_write_def Let_def set_wr_def on_pipe_def)
    hence "pipe_rep (put_in (pipe_mem s)) (xs @ [w_data ?w ! w_i ?w])"
      using put_in_rep [OF I(2) W(1) _ W(3)] wp by simp
    moreover have "suffix (take (Suc (w_i ?w)) (w_data ?w)) (sent s @ [w_data ?w ! w_i ?w])"
      using suffix_snoc [OF W(4)] W(2) by (simp add: take_Suc_conv_app_nth)
    moreover have "rd_ok (rd s) (xs @ [w_data ?w ! w_i ?w]) (got s)"
      using I(4) by (auto simp: rd_ok_def split: rd_pc.splits)
    ultimately show ?thesis using I W WCount
      by (auto simp: pipe_inv_def devpipe_write_def Let_def set_wr_def on_pipe_def wr_ok_def put_in_def)
  next
    case WLoop
    show ?thesis
    proof (cases "length xs = 32 \<or> w_i (wr s) = length (w_data (wr s))")
      case True
      thus ?thesis using I WLoop pipe_full_rep [OF I(2)]
        by (auto simp: pipe_inv_def devpipe_write_def Let_def set_wr_def wr_ok_def)
    next
      case False
      hence "length xs < 32" using I(2) by (auto simp: pipe_rep_def)
      thus ?thesis using I WLoop False pipe_full_rep [OF I(2)] poke_rep [OF I(2)]
        by (auto simp: pipe_inv_def devpipe_write_def Let_def set_wr_def on_pipe_def wr_ok_def poke_def)
    qed
  qed (use I in \<open>auto simp: pipe_inv_def devpipe_write_def Let_def set_wr_def wr_ok_def\<close>)
qed

lemma sent_read [simp]: "sent (devpipe_read s) = sent s"
  by (auto simp: devpipe_read_def Let_def set_rd_def on_pipe_def split: rd_pc.splits)

lemma sent_write: "length (sent s) \<le> length (sent (devpipe_write s))"
  by (auto simp: devpipe_write_def Let_def set_wr_def on_pipe_def split: wr_pc.splits)

lemma ok_call [simp]:
  "rd_ok (r\<lparr>r_open := b\<rparr>) xs g = rd_ok r xs g" "wr_ok (w\<lparr>w_open := b\<rparr>) p xs g = wr_ok w p xs g"
  "rd_ok (r\<lparr>r_pc := RLoop, r_n := n, r_i := 0, r_buf := []\<rparr>) xs g"
  "wr_ok (w\<lparr>w_pc := WLoop, w_data := bs, w_i := 0\<rparr>) p xs g"
  by (simp_all add: rd_ok_def wr_ok_def split: rd_pc.splits wr_pc.splits)

lemma pipe_inv_call:
  "pipe_inv s \<Longrightarrow> r_pc (rd s) = RIdle \<Longrightarrow> pipe_inv (set_rd (\<lambda>r. r\<lparr>r_pc := RLoop, r_n := n, r_i := 0, r_buf := []\<rparr>) s)"
  "pipe_inv s \<Longrightarrow> w_pc (wr s) = WIdle \<Longrightarrow> pipe_inv (set_wr (\<lambda>w. w\<lparr>w_pc := WLoop, w_data := bs, w_i := 0\<rparr>) s)"
  "pipe_inv s \<Longrightarrow> pipe_inv (set_rd (\<lambda>r. r\<lparr>r_open := False\<rparr>) s)"
  "pipe_inv s \<Longrightarrow> pipe_inv (set_wr (\<lambda>w. w\<lparr>w_open := False\<rparr>) s)"
  by (auto simp: pipe_inv_def set_rd_def set_wr_def)

lemma pipe_inv_reachable: "pipe_reachable s \<Longrightarrow> length (sent s) < 2 ^ 31 \<Longrightarrow> pipe_inv s"
proof (induction rule: pipe_reachable.induct)
  case (step s t)
  have "length (sent s) \<le> length (sent t)"
    using step.hyps(2) by (elim pipe_stepE) (auto simp: set_rd_def set_wr_def sent_write)
  hence "pipe_inv s" using step.IH step.prems by simp
  thus ?case using step.hyps(2) step.prems
    by (elim pipe_stepE) (auto intro: pipe_inv_call pipe_inv_read pipe_inv_write)
qed (rule pipe_inv_init)

text \<open>C33: Whatever the order in which the reader's and the writer's accesses to the buffer happen, the
  bytes that come out are the bytes that went in, in the same order, and at most 32 are under way,
  up to two gigabytes.  A read returns the number of bytes it has stored, and these are the last that
  came out; a write that does not return 0 has sent all its bytes.\<close>

theorem pipe_order:
  assumes "pipe_reachable s" "length (sent s) < 2 ^ 31"
  shows "prefix (got s) (sent s) \<and> length (sent s) \<le> length (got s) + 32 \<and>
    (r_pc (rd s) = RIdle \<longrightarrow> r_ret (rd s) = length (r_buf (rd s)) \<and> suffix (r_buf (rd s)) (got s)) \<and>
    (w_pc (wr s) = WIdle \<longrightarrow> w_ret (wr s) = 0 \<or> w_ret (wr s) = length (w_data (wr s)) \<and> suffix (w_data (wr s)) (sent s))"
proof -
  obtain xs where I: "sent s = got s @ xs" "pipe_rep (pipe_mem s) xs" "rd_ok (rd s) xs (got s)"
    "wr_ok (wr s) (pipe_mem s) xs (sent s)"
    using pipe_inv_reachable [OF assms] unfolding pipe_inv_def by blast
  have "length xs \<le> 32" using I(2) by (simp add: pipe_rep_def)
  moreover have "r_ret (rd s) = length (r_buf (rd s)) \<and> suffix (r_buf (rd s)) (got s)" if "r_pc (rd s) = RIdle"
    using I(3) that by (simp add: rd_ok_def)
  moreover have "w_ret (wr s) = 0 \<or> w_ret (wr s) = length (w_data (wr s)) \<and> suffix (w_data (wr s)) (sent s)"
    if "w_pc (wr s) = WIdle"
    using I(4) that by (simp add: wr_ok_def)
  ultimately show ?thesis using I(1) by simp
qed

text \<open>A writer that sends one byte and a reader, step by step.\<close>

lemma reach_read: "pipe_reachable s \<Longrightarrow> pipe_reachable (devpipe_read s)"
  and reach_write: "pipe_reachable s \<Longrightarrow> pipe_reachable (devpipe_write s)"
  by (auto intro: pipe_reachable.step read_step write_step)

lemma reach_call:
  "pipe_reachable s \<Longrightarrow> r_pc (rd s) = RIdle \<Longrightarrow> r_open (rd s) \<Longrightarrow>
   pipe_reachable (set_rd (\<lambda>r. r\<lparr>r_pc := RLoop, r_n := n, r_i := 0, r_buf := []\<rparr>) s)"
  "pipe_reachable s \<Longrightarrow> w_pc (wr s) = WIdle \<Longrightarrow> w_open (wr s) \<Longrightarrow>
   pipe_reachable (set_wr (\<lambda>w. w\<lparr>w_pc := WLoop, w_data := bs, w_i := 0\<rparr>) s)"
  "pipe_reachable s \<Longrightarrow> w_pc (wr s) = WIdle \<Longrightarrow> pipe_reachable (set_wr (\<lambda>w. w\<lparr>w_open := False\<rparr>) s)"
  by (auto intro: pipe_reachable.step call_read call_write close_write)

definition one_byte :: "pipe_sys" where
  "one_byte = devpipe_write (devpipe_write (devpipe_write
     (set_wr (\<lambda>w. w\<lparr>w_pc := WLoop, w_data := [0x41], w_i := 0\<rparr>)
       (devpipe_read (set_rd (\<lambda>r. r\<lparr>r_pc := RLoop, r_n := 5, r_i := 0, r_buf := []\<rparr>) pipe_init)))))"

lemmas pipe_run_simps = pipe_init_def devpipe_read_def devpipe_write_def set_rd_def set_wr_def on_pipe_def
  pipe_empty_def pipe_full_def poke_def put_in_def took_def peek_def pipe_index_def

lemma one_byte_fields: "sent one_byte = [0x41]" "got one_byte = []" "r_pc (rd one_byte) = RClosed" "r_n (rd one_byte) = 5"
  "w_pc (wr one_byte) = WIdle" "w_open (wr one_byte)" "w_ret (wr one_byte) = 1" "w_data (wr one_byte) = [0x41]"
  by (simp_all add: one_byte_def pipe_run_simps Let_def)

lemma one_byte_reachable: "pipe_reachable one_byte"
  unfolding one_byte_def
  by (intro reach_write reach_call reach_read init) (simp_all add: pipe_run_simps Let_def)

lemma pipe_order_witness:
  "\<exists>s. s = devpipe_read (devpipe_read (devpipe_read (devpipe_read one_byte))) \<and> pipe_reachable s \<and>
     got s = [0x41] \<and> prefix (got s) (sent s) \<and> r_ret (rd s) = length (r_buf (rd s))"
proof -
  let ?s = "devpipe_read (devpipe_read (devpipe_read (devpipe_read one_byte)))"
  have r: "pipe_reachable ?s" by (intro reach_read one_byte_reachable)
  have s: "sent ?s = [0x41]" by (simp add: one_byte_fields)
  have "got ?s = [0x41] \<and> r_pc (rd ?s) = RIdle" by (simp add: one_byte_def pipe_run_simps Let_def)
  thus ?thesis using pipe_order [OF r] r s by simp
qed

text \<open>C34: End of file can be reported with data in the pipe: the reader finds the buffer empty, the writer
  sends its bytes and closes its end, and only then does the reader ask whether the pipe is closed.\<close>

theorem pipe_eof_loses_data:
  "\<exists>s. pipe_reachable s \<and> r_pc (rd s) = RIdle \<and> r_n (rd s) = 5 \<and> r_ret (rd s) = 0 \<and> \<not> w_open (wr s) \<and>
     w_ret (wr s) = 1 \<and> sent s = [0x41] \<and> got s = []"
proof (intro exI conjI)
  let ?s = "devpipe_read (set_wr (\<lambda>w. w\<lparr>w_open := False\<rparr>) one_byte)"
  show "pipe_reachable ?s"
    by (intro reach_read reach_call one_byte_reachable) (simp add: one_byte_fields)
qed (simp_all add: one_byte_def pipe_run_simps Let_def)

text \<open>After two gigabytes the index is negative, and so the byte before the buffer is used; where the
  positions wrap around, an empty pipe passes for a full one and both sides wait.\<close>

lemma pipe_index_negative: "pipe_index 0x80000001 = - 31"
  by (simp add: pipe_index_def)

lemma pipe_empty_and_full:
  "pipe_empty \<lparr>p_rpos = 0xFFFFFFE0, p_wpos = 0xFFFFFFE0, p_buf = b\<rparr> \<and>
   pipe_full \<lparr>p_rpos = 0xFFFFFFE0, p_wpos = 0xFFFFFFE0, p_buf = b\<rparr>"
  by (simp add: pipe_empty_def pipe_full_def)

end
