(* ===== verification/Ulib.thy ===== *)
theory Ulib
  imports SysProps
begin

text \<open>
  What user programs build on: the system call stubs (\<^verbatim>\<open>lib/syscall.c\<close>), the window on their own page
  tables (\<^verbatim>\<open>lib/entry.S\<close>), the reference counts (\<^verbatim>\<open>lib/pageref.c\<close>), message passing (\<^verbatim>\<open>lib/ipc.c\<close>) and
  the installation of a page fault handler (\<^verbatim>\<open>lib/pgfault.c\<close>).  The program that runs is that of the
  current environment.  A trap into the kernel and back again is modelled in \<^verbatim>\<open>Trap\<close>; here a system call
  is the call of the kernel's dispatcher, and the accesses of the library to its own stack and globals
  are left out.  \<open>Panic\<close> also stands for the \<^verbatim>\<open>panic\<close> of user programs (\<^verbatim>\<open>lib/panic.c\<close>), which prints a
  message and traps into the kernel's monitor for ever.
\<close>

section \<open>System calls\<close>

definition usyscall :: "u32 \<Rightarrow> bool \<Rightarrow> u32 \<Rightarrow> u32 \<Rightarrow> u32 \<Rightarrow> u32 \<Rightarrow> u32 \<Rightarrow> kst \<Rightarrow> (u32, kst) kres" where
  "usyscall num check a1 a2 a3 a4 a5 s = kbind (syscall num a1 a2 a3 a4 a5 s) (\<lambda>ret s.
     if check \<and> 0 < sint ret then Panic ''syscall %d returned %d (> 0)'' else Done ret s)"

definition u_sys_cputs :: "u32 \<Rightarrow> u32 \<Rightarrow> kst \<Rightarrow> (u32, kst) kres" where
  "u_sys_cputs str len = usyscall SYS_cputs False str len 0 0 0"

definition u_sys_cgetc :: "kst \<Rightarrow> (u32, kst) kres" where
  "u_sys_cgetc = usyscall SYS_cgetc False 0 0 0 0 0"

definition u_sys_env_destroy :: "u32 \<Rightarrow> kst \<Rightarrow> (u32, kst) kres" where
  "u_sys_env_destroy envid = usyscall SYS_env_destroy True envid 0 0 0 0"

definition u_sys_getenvid :: "kst \<Rightarrow> (u32, kst) kres" where
  "u_sys_getenvid = usyscall SYS_getenvid False 0 0 0 0 0"

definition u_sys_yield :: "kst \<Rightarrow> (u32, kst) kres" where
  "u_sys_yield = usyscall SYS_yield False 0 0 0 0 0"

definition u_sys_page_alloc :: "u32 \<Rightarrow> u32 \<Rightarrow> u32 \<Rightarrow> kst \<Rightarrow> (u32, kst) kres" where
  "u_sys_page_alloc envid va perm = usyscall SYS_page_alloc True envid va perm 0 0"

definition u_sys_page_map :: "u32 \<Rightarrow> u32 \<Rightarrow> u32 \<Rightarrow> u32 \<Rightarrow> u32 \<Rightarrow> kst \<Rightarrow> (u32, kst) kres" where
  "u_sys_page_map srcenv srcva dstenv dstva perm = usyscall SYS_page_map True srcenv srcva dstenv dstva perm"

definition u_sys_page_unmap :: "u32 \<Rightarrow> u32 \<Rightarrow> kst \<Rightarrow> (u32, kst) kres" where
  "u_sys_page_unmap envid va = usyscall SYS_page_unmap True envid va 0 0 0"

definition u_sys_exofork :: "kst \<Rightarrow> (u32, kst) kres" where
  "u_sys_exofork = usyscall SYS_exofork False 0 0 0 0 0"

definition u_sys_env_set_status :: "u32 \<Rightarrow> u32 \<Rightarrow> kst \<Rightarrow> (u32, kst) kres" where
  "u_sys_env_set_status envid status = usyscall SYS_env_set_status True envid status 0 0 0"

definition u_sys_env_set_pgfault_upcall :: "u32 \<Rightarrow> u32 \<Rightarrow> kst \<Rightarrow> (u32, kst) kres" where
  "u_sys_env_set_pgfault_upcall envid upcall = usyscall SYS_env_set_pgfault_upcall True envid upcall 0 0 0"

definition u_sys_ipc_try_send :: "u32 \<Rightarrow> u32 \<Rightarrow> u32 \<Rightarrow> u32 \<Rightarrow> kst \<Rightarrow> (u32, kst) kres" where
  "u_sys_ipc_try_send envid value srcva perm = usyscall SYS_ipc_try_send False envid value srcva perm 0"

definition u_sys_ipc_recv :: "u32 \<Rightarrow> kst \<Rightarrow> (u32, kst) kres" where
  "u_sys_ipc_recv dstva = usyscall SYS_ipc_recv True dstva 0 0 0 0"

text \<open>The stub of a call that the kernel's dispatcher does not know.\<close>

definition u_sys_env_set_trapframe :: "u32 \<Rightarrow> u32 \<Rightarrow> kst \<Rightarrow> (u32, kst) kres" where
  "u_sys_env_set_trapframe envid tf = usyscall SYS_env_set_trapframe True envid tf 0 0 0"

section \<open>User memory\<close>

definition user_fault :: "('a, 's) kres" where
  "user_fault = Panic ''page fault in user mode''"

text \<open>An aligned word, as the processor reads it in user mode.\<close>

definition uload32 :: "u32 \<Rightarrow> kst \<Rightarrow> (u32, kst) kres" where
  "uload32 va s =
    (let pte = vmap s (cur_pgdir s) va
     in if pte AND PTE_P = 0 \<or> pte AND PTE_U = 0 then user_fault
        else Done (load32 s (PTE_ADDR pte + PGOFF va + KERNBASE)) s)"

text \<open>\<^verbatim>\<open>memcpy\<close> or \<^verbatim>\<open>memmove\<close> of a page between page-aligned addresses.\<close>

definition ucopy_page :: "u32 \<Rightarrow> u32 \<Rightarrow> kst \<Rightarrow> (unit, kst) kres" where
  "ucopy_page dst src s =
    (let p = vmap s (cur_pgdir s) src; q = vmap s (cur_pgdir s) dst
     in if p AND PTE_P = 0 \<or> p AND PTE_U = 0 \<or> q AND PTE_P = 0 \<or> q AND PTE_U = 0 \<or> q AND PTE_W = 0
        then user_fault
        else Done () (s\<lparr>pmem := (pmem s)(PGNUM q := pmem s (PGNUM p))\<rparr>))"

text \<open>The page tables, in the window that the directory's entry for itself opens.\<close>

definition uvpt :: "u32 \<Rightarrow> kst \<Rightarrow> (u32, kst) kres" where
  "uvpt pn = uload32 (UVPT + push_bit 2 pn)"

definition uvpd :: "u32 \<Rightarrow> kst \<Rightarrow> (u32, kst) kres" where
  "uvpd d = uload32 (UVPT + push_bit 2 (drop_bit 12 UVPT) + push_bit 2 d)"

text \<open>The test that a page is mapped, as the library writes it everywhere.\<close>

definition mapped :: "u32 \<Rightarrow> kst \<Rightarrow> (bool, kst) kres" where
  "mapped va s = kbind (uvpd (PDX va) s) (\<lambda>pde s.
     if pde AND PTE_P = 0 then Done False s
     else kbind (uvpt (PGNUM va) s) (\<lambda>pte s. Done (pte AND PTE_P \<noteq> 0) s))"

definition pageref :: "u32 \<Rightarrow> kst \<Rightarrow> (u16, kst) kres" where
  "pageref v s = kbind (uvpd (PDX v) s) (\<lambda>pde s.
     if pde AND PTE_P = 0 then Done 0 s
     else kbind (uvpt (PGNUM v) s) (\<lambda>pte s.
       if pte AND PTE_P = 0 then Done 0 s else Done (pp_ref (pages s (PGNUM pte))) s))"

section \<open>Page fault handlers\<close>

text \<open>The result is the new value of \<open>_pgfault_handler\<close>; \<open>old\<close> is its value before.\<close>

definition set_pgfault_handler :: "nat \<Rightarrow> u32 \<Rightarrow> u32 \<Rightarrow> u32 \<Rightarrow> kst \<Rightarrow> (u32, kst) kres" where
  "set_pgfault_handler thisenv upcall old handler s =
    kbind (if old = 0
      then kbind (u_sys_page_alloc (env_id (envs s thisenv)) (UXSTACKTOP - PGSIZE) (PTE_W OR PTE_U OR PTE_P) s) (\<lambda>r s.
        if r \<noteq> 0 then Panic ''set_pgfault_handler: %e''
        else kbind (u_sys_env_set_pgfault_upcall (env_id (envs s thisenv)) upcall s) (\<lambda>r s.
          if r \<noteq> 0 then Panic ''set_pgfault_handler: %e'' else Done () s))
      else Done () s) (\<lambda>_ s. Done handler s)"

section \<open>Messages\<close>

text \<open>A receiver leaves the processor in the system call; it goes on with the result when a message has
  come, and reads it from its environment.\<close>

definition ipc_recv_call :: "u32 \<Rightarrow> kst \<Rightarrow> (u32, kst) kres" where
  "ipc_recv_call pg = u_sys_ipc_recv (if pg = 0 then UTOP else pg)"

definition ipc_recv_result :: "nat \<Rightarrow> u32 \<Rightarrow> kst \<Rightarrow> u32 \<times> u32 \<times> u32" where
  "ipc_recv_result thisenv r s =
    (if sint r < 0 then (r, 0, 0)
     else (env_ipc_value (envs s thisenv), env_ipc_from (envs s thisenv), env_ipc_perm (envs s thisenv)))"

text \<open>One turn of the loop of \<^verbatim>\<open>ipc_send\<close>, which ends or yields and tries again.\<close>

definition ipc_send_try :: "u32 \<Rightarrow> u32 \<Rightarrow> u32 \<Rightarrow> u32 \<Rightarrow> kst \<Rightarrow> (unit, kst) kres" where
  "ipc_send_try to_env val pg perm s =
    kbind (u_sys_ipc_try_send to_env val (if pg = 0 then UTOP else pg) perm s) (\<lambda>ret s.
      if ret = - E_IPC_NOT_RECV then kbind (u_sys_yield s) (\<lambda>_ s. Done () s)
      else if sint ret < 0 then Panic ''sys_ipc_try_send error: %d '' else Done () s)"

definition ipc_find_env :: "EnvType \<Rightarrow> kst \<Rightarrow> u32" where
  "ipc_find_env type s = (case find (\<lambda>i. env_type (envs s i) = type) [0..<NENV] of
      Some i \<Rightarrow> env_id (envs s i) | None \<Rightarrow> 0)"

text \<open>The condition of the loop in which \<^verbatim>\<open>wait\<close> yields.\<close>

definition wait_again :: "u32 \<Rightarrow> kst \<Rightarrow> bool" where
  "wait_again envid s = (let e = envs s (unat (ENVX envid)) in env_id e = envid \<and> env_status e \<noteq> ENV_FREE)"

section \<open>The window on the page tables\<close>

definition self_map :: "kst \<Rightarrow> u32 \<Rightarrow> bool" where
  "self_map s pgdir \<longleftrightarrow> pd_frame pgdir \<noteq> 0 \<and> pt_frame s pgdir (PDX UVPT) = pd_frame pgdir \<and>
     pmem s (pd_frame pgdir) (PDX UVPT) AND PTE_P \<noteq> 0 \<and> pmem s (pd_frame pgdir) (PDX UVPT) AND PTE_U \<noteq> 0"

lemma window_fields:
  fixes pn w :: u32
  assumes "pn < 0x100000" "w AND mask 22 = 0"
  shows "PDX (w + push_bit 2 pn) = PDX w" "PTX (w + push_bit 2 pn) = drop_bit 10 pn"
    "PGOFF (w + push_bit 2 pn) = push_bit 2 (pn AND 0x3FF)"
proof -
  have b: "n < 20" if "bit pn n" for n using bit_less_exp [of pn 20 n] assms(1) that by simp
  have U: "22 \<le> n" if "bit w n" for n
    using that assms(2) by (metis bit_and_iff bit_mask_iff bit_0_eq bot_apply impossible_bit not_le_imp_less bot_bool_def)
  have e: "w + push_bit 2 pn = w OR push_bit 2 pn"
    by (rule disjunctive_add_eq_or, rule bit_word_eqI) (use U b in \<open>force simp: bit_simps\<close>)
  show "PDX (w + push_bit 2 pn) = PDX w" unfolding e addr_fields u32_low_mask
    by (rule bit_word_eqI) (use b in \<open>force simp: bit_simps\<close>)
  show "PTX (w + push_bit 2 pn) = drop_bit 10 pn" unfolding e addr_fields u32_low_mask
    by (rule bit_word_eqI) (use U b in \<open>force simp: bit_simps\<close>)
  show "PGOFF (w + push_bit 2 pn) = push_bit 2 (pn AND 0x3FF)" unfolding e addr_fields u32_low_mask
    by (rule bit_word_eqI) (use U in \<open>force simp: bit_simps\<close>)
qed

lemma UVPT_low: "UVPT AND mask 22 = 0"
  by (simp add: mask_eq_exp_minus_1)

text \<open>Reading in the window is reading the page table that the directory entry selects.\<close>

lemma vmap_window:
  assumes "self_map s g" "pn < 0x100000"
  shows "vmap s g (UVPT + push_bit 2 pn) = pmem s (pd_frame g) (drop_bit 10 pn)"
  using assms window_fields [OF assms(2) UVPT_low] unfolding vmap_def self_map_def by simp

lemma uvpt_read:
  assumes "cur_pgdir s = g" "self_map s g" "pn < 0x100000"
    and "pmem s (pd_frame g) (drop_bit 10 pn) AND PTE_P \<noteq> 0" "pmem s (pd_frame g) (drop_bit 10 pn) AND PTE_U \<noteq> 0"
  shows "uvpt pn s = Done (pmem s (pt_frame s g (drop_bit 10 pn)) (pn AND 0x3FF)) s"
proof -
  let ?pde = "pmem s (pd_frame g) (drop_bit 10 pn)" and ?i = "pn AND 0x3FF"
  have i: "?i < 0x400" using and_mask_less [where w = pn and n = 10] unfolding u32_low_mask by simp
  have "PTE_ADDR ?pde + push_bit 2 ?i + KERNBASE = frame_addr (PGNUM ?pde) ?i"
    by (simp add: frame_addr_def PTE_ADDR_PGNUM)
  moreover have "PGOFF (UVPT + push_bit 2 pn) = push_bit 2 ?i" by (rule window_fields(3) [OF assms(3) UVPT_low])
  ultimately show ?thesis
    unfolding uvpt_def uload32_def Let_def assms(1) vmap_window [OF assms(2,3)]
    using assms(4,5) i PGNUM_less [of ?pde] by (simp add: pt_frame_def)
qed

lemma slot_split:
  fixes c d :: u32 assumes "d < 0x400" "c < 0x400"
  shows "drop_bit 10 (push_bit 10 c + d) = c" "(push_bit 10 c + d) AND 0x3FF = d"
proof -
  have b: "n < 10" if "bit d n" for n using bit_less_exp [of d 10 n] assms(1) that by simp
  have c: "n < 10" if "bit c n" for n using bit_less_exp [of c 10 n] assms(2) that by simp
  have e: "push_bit 10 c + d = push_bit 10 c OR d"
    by (rule disjunctive_add_eq_or, rule bit_word_eqI) (use b in \<open>force simp: bit_simps\<close>)
  show "drop_bit 10 (push_bit 10 c + d) = c" unfolding e
    by (rule bit_word_eqI) (use b c in \<open>force simp: bit_simps\<close>)
  show "(push_bit 10 c + d) AND 0x3FF = d" unfolding e u32_low_mask
    by (rule bit_word_eqI) (use b in \<open>force simp: bit_simps\<close>)
qed

lemma uvpd_read:
  assumes "cur_pgdir s = g" "self_map s g" "d < 0x400"
  shows "uvpd d s = Done (pmem s (pd_frame g) d) s"
proof -
  let ?pn = "push_bit 10 0x3BD + d"
  have f: "drop_bit 10 ?pn = 0x3BD" and l: "?pn AND 0x3FF = d"
    by (rule slot_split [OF assms(3)], simp) (rule slot_split [OF assms(3)], simp)
  have n: "?pn < 0x100000" using assms(3) by (simp add: word_less_nat_alt unat_word_ariths)
  have U: "PDX 0xEF400000 = 0x3BD" by (simp add: PDX_def)
  have D: "drop_bit 12 UVPT = push_bit 10 (0x3BD :: u32)" by simp
  have "uvpd d s = uvpt ?pn s"
    unfolding uvpd_def uvpt_def D by (simp only: push_bit_add add.assoc)
  also have "\<dots> = Done (pmem s (pd_frame g) d) s"
    using uvpt_read [OF assms(1,2) n] assms(2) unfolding f l by (simp add: self_map_def U)
  finally show ?thesis .
qed

text \<open>The directory entries of page tables are present and accessible, and the others are not present.\<close>

definition pde_flags :: "kst \<Rightarrow> u32 \<Rightarrow> bool" where
  "pde_flags s g \<longleftrightarrow> (\<forall>d < user_slots. (pmem s (pd_frame g) d AND PTE_P \<noteq> 0 \<longleftrightarrow> pt_frame s g d \<noteq> 0) \<and>
     (pt_frame s g d \<noteq> 0 \<longrightarrow> pmem s (pd_frame g) d AND PTE_U \<noteq> 0))"

lemma PGNUM_split: "drop_bit 10 (PGNUM va) = PDX va" "PGNUM va AND 0x3FF = PTX va"
proof -
  show "drop_bit 10 (PGNUM va) = PDX va" unfolding addr_fields u32_low_mask
    by (rule bit_word_eqI) (auto simp: bit_simps dest: bit_imp_le_length)
  show "PGNUM va AND 0x3FF = PTX va" unfolding addr_fields by simp
qed

lemma uvpt_user:
  assumes "cur_pgdir s = g" "self_map s g" "pde_flags s g" "va < UTOP" "pt_frame s g (PDX va) \<noteq> 0"
  shows "uvpt (PGNUM va) s = Done (vmap s g va) s"
proof -
  have "pmem s (pd_frame g) (PDX va) AND PTE_P \<noteq> 0" "pmem s (pd_frame g) (PDX va) AND PTE_U \<noteq> 0"
    using assms(3,5) PDX_user [OF assms(4)] unfolding pde_flags_def by blast+
  thus ?thesis using uvpt_read [OF assms(1,2) PGNUM_less, of va] assms(5) by (simp add: PGNUM_split vmap_def)
qed

lemma mapped_user:
  assumes "cur_pgdir s = g" "self_map s g" "pde_flags s g" "va < UTOP"
  shows "mapped va s = Done (vmap s g va AND PTE_P \<noteq> 0) s"
proof (cases "pt_frame s g (PDX va) = 0")
  case True
  thus ?thesis using assms PDX_user [OF assms(4)] uvpd_read [OF assms(1,2) PDX_less]
    by (simp add: mapped_def pde_flags_def vmap_def)
next
  case False
  hence "pmem s (pd_frame g) (PDX va) AND PTE_P \<noteq> 0"
    using assms(3) PDX_user [OF assms(4)] unfolding pde_flags_def by blast
  thus ?thesis using uvpt_user [OF assms False] uvpd_read [OF assms(1,2) PDX_less]
    by (simp add: mapped_def)
qed

end
