(* ===== verification/Fork.thy ===== *)
theory Fork
  imports Ulib
begin

text \<open>
  Copy-on-write fork (\<^verbatim>\<open>lib/fork.c\<close>) over the kernel's system calls.  The parent runs it; the child
  comes back from the same \<^verbatim>\<open>sys_exofork\<close> with 0.  The addresses of the handler \<^verbatim>\<open>pgfault\<close> and of the
  assembly entry \<^verbatim>\<open>_pgfault_upcall\<close> are set by the linker and are arguments here.
\<close>

section \<open>The library functions\<close>

definition ucheck :: "string \<Rightarrow> u32 \<Rightarrow> kst \<Rightarrow> (unit, kst) kres" where
  "ucheck msg r s = (if r \<noteq> 0 then Panic msg else Done () s)"

text \<open>The handler, for a fault at \<open>addr\<close> with the error code \<open>err\<close>.\<close>

definition pgfault :: "u32 \<Rightarrow> u32 \<Rightarrow> kst \<Rightarrow> (unit, kst) kres" where
  "pgfault addr err s = kbind (uvpt (PGNUM addr) s) (\<lambda>pte s.
    if err AND FEC_PR = 0 then Panic ''[pgfault] pgfault por pagina no mapeada''
    else if err AND FEC_WR = 0 then Panic ''[pgfault] pgfault por lectura''
    else if pte AND PTE_COW = 0 then Panic ''[pgfault] pgfault COW no configurado''
    else
      kbind (kbind (u_sys_page_alloc 0 PFTEMP (PTE_W OR PTE_U OR PTE_P) s) (ucheck ''pgfault: %e'')) (\<lambda>_ s.
      kbind (ucopy_page PFTEMP (ROUNDDOWN addr PGSIZE) s) (\<lambda>_ s.
      kbind (kbind (u_sys_page_map 0 PFTEMP 0 (ROUNDDOWN addr PGSIZE) (PTE_W OR PTE_U OR PTE_P) s)
               (ucheck ''pgfault: %e'')) (\<lambda>_ s.
      kbind (u_sys_page_unmap 0 PFTEMP s) (ucheck ''pgfault: %e'')))))"

definition duppage :: "u32 \<Rightarrow> u32 \<Rightarrow> kst \<Rightarrow> (unit, kst) kres" where
  "duppage envid pn s = kbind (uvpt pn s) (\<lambda>pte s.
    let va = push_bit PTXSHIFT pn in
    if pte AND PTE_SHARE \<noteq> 0
    then kbind (u_sys_page_map 0 va envid va (pte AND PTE_SYSCALL) s) (ucheck ''[duppage] sys_page_map: %e'')
    else if pte AND PTE_W \<noteq> 0 \<or> pte AND PTE_COW \<noteq> 0
    then kbind (kbind (u_sys_page_map 0 va envid va (PTE_COW OR PTE_U OR PTE_P) s)
                 (ucheck ''[duppage] sys_page_map: %e'')) (\<lambda>_ s.
         kbind (u_sys_page_map 0 va 0 va (PTE_COW OR PTE_U OR PTE_P) s) (ucheck ''[duppage] sys_page_map: %e''))
    else kbind (u_sys_page_map 0 va envid va (PTE_U OR PTE_P) s) (ucheck ''[duppage] sys_page_map: %e''))"

definition dup_or_share :: "u32 \<Rightarrow> u32 \<Rightarrow> u32 \<Rightarrow> kst \<Rightarrow> (unit, kst) kres" where
  "dup_or_share dstenv va perm s =
    (if perm AND PTE_W = 0
     then kbind (u_sys_page_map 0 va dstenv va perm s) (\<lambda>r s.
            if sint r < 0 then Panic ''sys_page_map: %e'' else Done () s)
     else kbind (u_sys_page_alloc dstenv va perm s) (\<lambda>r s.
       if sint r < 0 then Panic ''sys_page_alloc: %e''
       else kbind (u_sys_page_map dstenv va 0 UTEMP perm s) (\<lambda>r s.
         if sint r < 0 then Panic ''sys_page_map: %e''
         else kbind (ucopy_page UTEMP va s) (\<lambda>_ s.
           kbind (u_sys_page_unmap 0 UTEMP s) (\<lambda>r s.
             if sint r < 0 then Panic ''sys_page_unmap: %e'' else Done () s)))))"

text \<open>The loops over the pages below \<open>UTOP\<close>, of which there are fewer than \<open>0x100000\<close>.\<close>

fun fork_v0_loop :: "nat \<Rightarrow> u32 \<Rightarrow> u32 \<Rightarrow> kst \<Rightarrow> (unit, kst) kres" where
  "fork_v0_loop 0 envid addr s = NoReturn Spinning s"
| "fork_v0_loop (Suc n) envid addr s =
     (if addr < UTOP
      then kbind (mapped addr s) (\<lambda>m s.
           kbind (if m then kbind (uvpt (PGNUM addr) s) (\<lambda>pte s. dup_or_share envid addr (pte AND PTE_SYSCALL) s)
                  else Done () s) (\<lambda>_ s.
           fork_v0_loop n envid (addr + PGSIZE) s))
      else Done () s)"

text \<open>In the child \<open>thisenv\<close> is set anew: the results are the id, and the new \<open>thisenv\<close>.\<close>

definition fork_v0 :: "nat \<Rightarrow> kst \<Rightarrow> (u32 \<times> nat, kst) kres" where
  "fork_v0 thisenv s = kbind (u_sys_exofork s) (\<lambda>envid s.
    if sint envid < 0 then Panic ''[fork_v0] sys_exofork failed: %e''
    else if envid = 0 then kbind (u_sys_getenvid s) (\<lambda>id s. Done (0, unat (ENVX id)) s)
    else kbind (fork_v0_loop 0x100000 envid 0 s) (\<lambda>_ s.
         kbind (u_sys_env_set_status envid 2 s) (\<lambda>r s.
         if sint r < 0 then Panic ''[fork_v0] sys_env_set_status: %e'' else Done (envid, thisenv) s)))"

fun fork_loop :: "nat \<Rightarrow> u32 \<Rightarrow> u32 \<Rightarrow> kst \<Rightarrow> (unit, kst) kres" where
  "fork_loop 0 envid addr s = NoReturn Spinning s"
| "fork_loop (Suc n) envid addr s =
     (if addr < UTOP
      then if UXSTACKTOP - PGSIZE \<le> addr \<and> addr < UXSTACKTOP then fork_loop n envid (addr + PGSIZE) s
           else kbind (mapped addr s) (\<lambda>m s.
                kbind (if m then duppage envid (PGNUM addr) s else Done () s) (\<lambda>_ s.
                fork_loop n envid (addr + PGSIZE) s))
      else Done () s)"

text \<open>The results are the id, the new \<open>thisenv\<close> and the new \<open>_pgfault_handler\<close>.\<close>

definition fork :: "nat \<Rightarrow> u32 \<Rightarrow> u32 \<Rightarrow> u32 \<Rightarrow> kst \<Rightarrow> (u32 \<times> nat \<times> u32, kst) kres" where
  "fork thisenv upcall old pgfault_fn s =
    kbind (set_pgfault_handler thisenv upcall old pgfault_fn s) (\<lambda>h s.
    kbind (u_sys_exofork s) (\<lambda>envid s.
    if sint envid < 0 then Panic ''sys_exofork: %e''
    else if envid = 0 then kbind (u_sys_getenvid s) (\<lambda>id s. Done (0, unat (ENVX id), h) s)
    else kbind (u_sys_page_alloc envid (UXSTACKTOP - PGSIZE) (PTE_P OR PTE_W OR PTE_U) s) (\<lambda>r s.
      if sint r < 0 then Panic ''sys_page_alloc has failed: %d''
      else kbind (u_sys_env_set_pgfault_upcall envid upcall s) (\<lambda>r s.
        if sint r < 0 then Panic ''sys_env_set_pgfault_upcall has failed: %d''
        else kbind (fork_loop 0x100000 envid 0 s) (\<lambda>_ s.
          kbind (u_sys_env_set_status envid 2 s) (\<lambda>r s.
            if sint r < 0 then Panic ''sys_env_set_status has failed: %d''
            else Done (envid, thisenv, h) s))))))"

definition sfork :: "kst \<Rightarrow> (u32, kst) kres" where
  "sfork s = Panic ''sfork not implemented''"

end
