(* ===== verification/ForkSpec.thy ===== *)
theory ForkSpec
  imports Fork
begin

text \<open>
  Two address spaces at once.  \<open>pair_inv\<close> is the invariant of a parent and its child in a fork: each is
  consistent in itself (\<open>as_inv\<close>), with the mappings of the other counted among the references from
  outside, and they share pages but no page tables.  Inserting a page keeps it (\<open>pair_insert\<close>), so
  \<^verbatim>\<open>duppage\<close> does (\<open>duppage_ok\<close>), and the loop of \<^verbatim>\<open>fork\<close> ends with every page of the parent
  passed on (\<open>fork_loop_ok\<close>).
\<close>

section \<open>What the memory operations leave alone\<close>

text \<open>Only memory, the page structures, the free list and the log of flushes change.\<close>

definition rest :: "kst \<Rightarrow> kst" where
  "rest s = s\<lparr>pmem := \<lambda>_ _. 0, pages := \<lambda>_. \<lparr>pp_link = None, pp_ref = 0\<rparr>, page_free_list := None, tlb_flushed := []\<rparr>"

definition vm_only :: "kst \<Rightarrow> kst \<Rightarrow> bool" where
  "vm_only s t \<longleftrightarrow> rest t = rest s"

lemma rest_fields:
  "cr3 (rest s) = cr3 s" "cpunum (rest s) = cpunum s" "cpus (rest s) = cpus s" "envs (rest s) = envs s"
  "klock (rest s) = klock s" "env_free_list (rest s) = env_free_list s" "curenv (rest s) = curenv s"
  "cur_pgdir (rest s) = cur_pgdir s" "npages (rest s) = npages s" "kern_pgdir (rest s) = kern_pgdir s"
  by (simp_all add: rest_def curenv_def cur_pgdir_def)

lemma vm_onlyD:
  assumes "vm_only s t"
  shows "cr3 t = cr3 s" "cpunum t = cpunum s" "cpus t = cpus s" "envs t = envs s" "klock t = klock s"
    "env_free_list t = env_free_list s" "curenv t = curenv s" "cur_pgdir t = cur_pgdir s" "npages t = npages s"
    "kern_pgdir t = kern_pgdir s"
  using assms rest_fields unfolding vm_only_def by metis+

lemma vm_only_refl [simp]: "vm_only s s"
  by (simp add: vm_only_def)

lemma vm_only_trans: "vm_only s t \<Longrightarrow> vm_only t u \<Longrightarrow> vm_only s u"
  by (simp add: vm_only_def)

lemma vm_only_steps:
  "vm_only s (store32 a v s)" "vm_only s (upd_page p f s)" "vm_only s (page_incref p s)" "vm_only s (zero_page a s)"
  "vm_only s (s\<lparr>page_free_list := l\<rparr>)" "vm_only s (tlb_invalidate g va s)"
  by (simp_all add: vm_only_def rest_def store32_def Let_def upd_page_def page_incref_def zero_page_def
      tlb_invalidate_def split: option.splits)

lemma rest_steps [simp]:
  "rest (store32 a v s) = rest s" "rest (upd_page p f s) = rest s" "rest (page_incref p s) = rest s"
  "rest (zero_page a s) = rest s" "rest (s\<lparr>page_free_list := l\<rparr>) = rest s" "rest (tlb_invalidate g va s) = rest s"
  using vm_only_steps by (simp_all add: vm_only_def)

lemma rest_kva: "KADDR pa s = Done r t \<Longrightarrow> rest t = rest s" "page2kva pp s = Done r t \<Longrightarrow> rest t = rest s"
    "pa2page pa s = Done r' t \<Longrightarrow> rest t = rest s"
  by (auto simp: KADDR_def page2kva_def pa2page_def split: if_splits)

lemma rest_page_alloc: "page_alloc f s = Done r t \<Longrightarrow> rest t = rest s"
  by (auto simp: page_alloc_def Let_def kbind_Done_iff dest!: rest_kva split: option.splits if_splits)

lemma rest_page_free: "page_free p s = Done r t \<Longrightarrow> rest t = rest s"
  by (auto simp: page_free_def split: if_splits)

lemma rest_walk: "pgdir_walk g va c s = Done r t \<Longrightarrow> rest t = rest s"
  by (auto simp: pgdir_walk_def Let_def kbind_Done_iff dest!: rest_kva rest_page_alloc split: option.splits if_splits)

lemma rest_lookup: "page_lookup g va s = Done r t \<Longrightarrow> rest t = rest s"
  by (auto simp: page_lookup_def kbind_Done_iff dest!: rest_kva rest_walk split: if_splits)

lemma rest_decref: "page_decref p s = Done r t \<Longrightarrow> rest t = rest s"
  by (auto simp: page_decref_def Let_def dest!: rest_page_free split: if_splits)

lemma rest_remove: "page_remove g va s = Done r t \<Longrightarrow> rest t = rest s"
  by (auto simp: page_remove_def Let_def kbind_Done_iff dest!: rest_lookup rest_walk rest_decref
      split: option.splits if_splits)

lemma rest_insert: "page_insert g pp va perm s = Done r t \<Longrightarrow> rest t = rest s"
  by (auto simp: page_insert_def Let_def kbind_Done_iff dest!: rest_walk rest_remove split: if_splits)

lemma page_insert_vm_only: "page_insert g pp va perm s = Done r t \<Longrightarrow> vm_only s t"
  by (simp add: vm_only_def rest_insert)

section \<open>Two address spaces\<close>

text \<open>References to a frame from outside of one address space: the mappings in the other one, and \<open>k\<close>
  elsewhere.\<close>

definition refs :: "kst \<Rightarrow> u32 \<Rightarrow> (u32 \<Rightarrow> nat) \<Rightarrow> u32 \<Rightarrow> nat" where
  "refs s g k p = card (maps s g p) + k p"

text \<open>Two address spaces that may share pages but no page tables below \<open>UTOP\<close>, and that have the same
  page tables above, apart from the windows on themselves.\<close>

definition pair_inv :: "kst \<Rightarrow> u32 \<Rightarrow> u32 \<Rightarrow> u32 list \<Rightarrow> (u32 \<Rightarrow> nat) \<Rightarrow> bool" where
  "pair_inv s A B fl k \<longleftrightarrow> as_inv s A fl (refs s B k) \<and> as_inv s B fl (refs s A k) \<and>
     vm_frames s A \<inter> vm_frames s B = {} \<and>
     (\<forall>va < UTOP. vmap s A va AND PTE_P \<noteq> 0 \<longrightarrow> page_ok s B fl (PGNUM (vmap s A va))) \<and>
     (\<forall>va < UTOP. vmap s B va AND PTE_P \<noteq> 0 \<longrightarrow> page_ok s A fl (PGNUM (vmap s B va))) \<and>
     (\<forall>d < 0x400. user_slots \<le> d \<longrightarrow> pt_frame s A d = pt_frame s B d \<or>
        pt_frame s A d = pd_frame A \<and> pt_frame s B d = pd_frame B)"

lemma pair_inv_sym: "pair_inv s A B fl k \<Longrightarrow> pair_inv s B A fl k"
  unfolding pair_inv_def by (simp add: Int_commute) metis

lemma vmap_frames_eq:
  assumes "\<forall>f \<in> vm_frames s A. pmem t f = pmem s f" "va < UTOP"
  shows "vmap t A va = vmap s A va"
  using assms PDX_user [OF assms(2)] by (auto simp: vmap_def pt_frame_def vm_frames_def)

lemma pt_frame_frames_eq: "\<forall>f \<in> vm_frames s A. pmem t f = pmem s f \<Longrightarrow> pt_frame t A d = pt_frame s A d"
  by (simp add: pt_frame_def vm_frames_def)

lemma maps_frames_eq: "\<forall>f \<in> vm_frames s A. pmem t f = pmem s f \<Longrightarrow> maps t A p = maps s A p"
  unfolding maps_def using vmap_frames_eq [of s A t] by auto

lemma mapped_in_maps: "va < UTOP \<Longrightarrow> vmap s g va AND PTE_P \<noteq> 0 \<Longrightarrow> PGNUM va \<in> maps s g (PGNUM (vmap s g va))"
  by (auto simp: maps_def)

lemma mapped_counted:
  assumes "rc_inv s g k" "va < UTOP" "vmap s g va AND PTE_P \<noteq> 0"
  shows "pp_ref (pages s (PGNUM (vmap s g va))) \<noteq> 0"
proof -
  let ?p = "PGNUM (vmap s g va)"
  have "maps s g ?p \<noteq> {}" using mapped_in_maps [OF assms(2,3)] by blast
  hence "0 < card (maps s g ?p)" by (simp add: card_gt_0_iff)
  moreover have "card (maps s g ?p) + k ?p \<le> unat (pp_ref (pages s ?p))" using assms(1) by (simp add: rc_inv_def)
  ultimately have "0 < unat (pp_ref (pages s ?p))" by linarith
  thus ?thesis by auto
qed

lemma counted_not_free: "page_rep s fl \<Longrightarrow> pp_ref (pages s p) \<noteq> 0 \<Longrightarrow> p \<notin> set fl"
  by (auto simp: page_rep_def)


text \<open>Inserting a page that both may map, into the second address space.\<close>

lemma pair_insert:
  assumes inv: "pair_inv s A B fl k" and va: "va < UTOP" and ok: "page_ok s A fl pp" "page_ok s B fl pp"
    and sat: "pp_ref (pages s pp) \<noteq> 0xFFFF" and perm: "perm < 0x1000"
    and room: "pt_frame s B (PDX va) \<noteq> 0 \<or> fl \<noteq> []"
  shows "\<exists>t fl'. page_insert B pp va perm s = Done 0 t \<and> pair_inv t A B fl' k \<and>
    (\<forall>a < UTOP. vmap t B a = (if PGNUM a = PGNUM va then page2pa pp OR perm OR PTE_P else vmap s B a)) \<and>
    (\<forall>f \<in> vm_frames s A. pmem t f = pmem s f) \<and>
    (\<forall>f. f \<notin> vm_frames s B \<longrightarrow> f \<notin> set fl \<longrightarrow> pmem t f = pmem s f) \<and>
    (\<forall>q. q \<notin> set fl \<longrightarrow> pp_ref (pages t q) =
       (pp_ref (pages s q) + (if q = pp then 1 else 0)) -
       (if vmap s B va AND PTE_P \<noteq> 0 \<and> q = PGNUM (vmap s B va) then 1 else 0)) \<and>
    tables_step s B va fl t fl' \<and> vm_only s t \<and>
    set fl' \<subseteq> set fl \<union> (if vmap s B va AND PTE_P \<noteq> 0 then {PGNUM (vmap s B va)} else {})"
proof -
  have IA: "vm_wf s A fl" "page_rep s fl" "rc_inv s A (refs s B k)" and IB: "vm_wf s B fl" "rc_inv s B (refs s A k)"
    using inv by (simp_all add: pair_inv_def as_inv_def)
  have dis: "vm_frames s A \<inter> vm_frames s B = {}"
    and AinB: "\<And>a. a < UTOP \<Longrightarrow> vmap s A a AND PTE_P \<noteq> 0 \<Longrightarrow> page_ok s B fl (PGNUM (vmap s A a))"
    and BinA: "\<And>a. a < UTOP \<Longrightarrow> vmap s B a AND PTE_P \<noteq> 0 \<Longrightarrow> page_ok s A fl (PGNUM (vmap s B a))"
    and ker: "\<And>d. d < 0x400 \<Longrightarrow> user_slots \<le> d \<Longrightarrow> pt_frame s A d = pt_frame s B d \<or>
        pt_frame s A d = pd_frame A \<and> pt_frame s B d = pd_frame B"
    using inv unfolding pair_inv_def by blast+
  obtain t fl' where run: "page_insert B pp va perm s = Done 0 t"
    and T: "page_rep t fl'" "vm_wf t B fl'" "rc_inv t B (refs s A k)"
    and vm: "\<forall>a < UTOP. vmap t B a = (if PGNUM a = PGNUM va then page2pa pp OR perm OR PTE_P else vmap s B a)"
    and ref: "\<forall>q. q \<notin> set fl \<longrightarrow> pp_ref (pages t q) =
       (pp_ref (pages s q) + (if q = pp then 1 else 0)) -
       (if vmap s B va AND PTE_P \<noteq> 0 \<and> q = PGNUM (vmap s B va) then 1 else 0)"
    and fr: "\<forall>f. f \<notin> vm_frames s B \<longrightarrow> f \<notin> set fl \<longrightarrow> pmem t f = pmem s f"
    and ts: "tables_step s B va fl t fl'"
    and sub: "set fl' \<subseteq> set fl \<union> (if vmap s B va AND PTE_P \<noteq> 0 then {PGNUM (vmap s B va)} else {})"
    and o1: "npages t = npages s" "envs t = envs s" "curenv t = curenv s"
    using page_insert_cases [OF IB(1) IA(2) IB(2) va ok(2) sat perm] room by (elim disjE exE conjE) blast+
  have Afr: "pmem t f = pmem s f" if "f \<in> vm_frames s A" for f
    using fr that dis vm_frames_not_free [OF IA(1)] by blast
  hence AfrB: "\<forall>f \<in> vm_frames s A. pmem t f = pmem s f" by blast
  note vA = vmap_frames_eq [OF AfrB] and ptA = pt_frame_frames_eq [OF AfrB] and mA = maps_frames_eq [OF AfrB]
  have rA: "refs t A k = refs s A k" by (rule ext) (simp add: refs_def mA)
  have asB: "as_inv t B fl' (refs t A k)" using T by (simp add: as_inv_def rA)
  have tot: "card (maps t B p) + (card (maps t A p) + k p) \<le> unat (pp_ref (pages t p))" for p
    using T(3) by (simp add: rc_inv_def refs_def mA)
  have rcA: "rc_inv t A (refs t B k)" using tot by (simp add: rc_inv_def refs_def add.left_commute)
  have mapA: "PGNUM (vmap s A a) \<notin> set fl'" if "a < UTOP" "vmap s A a AND PTE_P \<noteq> 0" for a
    using mapped_counted [OF rcA that(1)] that(2) vA [OF that(1)] by (intro counted_not_free [OF T(1)]) simp
  have mapB: "PGNUM (vmap t B a) \<notin> set fl'" if "a < UTOP" "vmap t B a AND PTE_P \<noteq> 0" for a
    using mapped_counted [OF T(3) that] by (rule counted_not_free [OF T(1)])
  have oldA: "page_ok s A fl (PGNUM (vmap s B va))" if "vmap s B va AND PTE_P \<noteq> 0" using BinA [OF va that] .
  have pdA: "pd_frame A \<notin> set fl'"
    using sub oldA vm_wf_pgdir(5) [OF IA(1)] unfolding page_ok_def by (auto split: if_splits)
  have ptAf: "pt_frame s A d \<notin> set fl'" if d: "d < 0x400" for d
  proof -
    have "pt_frame s A d \<notin> set fl" using IA(1) d unfolding vm_wf_def by blast
    moreover have "pt_frame s A d \<noteq> PGNUM (vmap s B va)" if "vmap s B va AND PTE_P \<noteq> 0"
      using oldA [OF that] d unfolding page_ok_def by metis
    ultimately show ?thesis using sub by (auto split: if_splits)
  qed
  have okA: "page_ok t A fl' q" if "page_ok s A fl q" "q \<notin> set fl'" for q
    using that ptA o1 by (simp add: page_ok_def)
  have wfA: "vm_wf t A fl'"
    unfolding vm_wf_def
  proof (intro conjI allI impI)
    fix a assume a: "a < UTOP" "vmap t A a AND PTE_P \<noteq> 0"
    have "page_ok s A fl (PGNUM (vmap s A a))" using vm_wf_mapped [OF IA(1) a(1)] a vA by simp
    thus "page_ok t A fl' (PGNUM (vmap t A a))" using okA mapA a vA by simp
  qed (use IA(1) o1 pdA ptAf ptA in \<open>simp_all add: vm_wf_def\<close>)
  have asA: "as_inv t A fl' (refs t B k)" using wfA T(1) rcA by (simp add: as_inv_def)
  have ptB: "pt_frame t B d = pt_frame s B d \<or> d = PDX va \<and> pt_frame t B d \<in> set fl" if "d < 0x400" for d
    using ts that unfolding tables_step_def by (cases "d = PDX va") (auto split: if_splits)
  have dst: "vm_frames t A \<inter> vm_frames t B = {}"
  proof -
    have "pd_frame B \<notin> vm_frames s A" using dis by (auto simp: vm_frames_def)
    moreover have "pt_frame t B d \<notin> vm_frames s A" if "d < user_slots" "pt_frame t B d \<noteq> 0" for d
    proof -
      have "d < 0x400" using that(1) by (simp add: word_less_nat_alt)
      hence "pt_frame t B d \<in> vm_frames s B \<union> set fl" using ptB [of d] that by (auto simp: vm_frames_def)
      thus ?thesis using dis vm_frames_not_free [OF IA(1)] by blast
    qed
    ultimately have "x \<notin> vm_frames s A" if "x \<in> vm_frames t B" for x
      using that unfolding vm_frames_def [of t B] by blast
    moreover have "vm_frames t A = vm_frames s A" using ptA by (simp add: vm_frames_def)
    ultimately show ?thesis by blast
  qed
  have AB: "page_ok t B fl' (PGNUM (vmap t A a))" if a: "a < UTOP" "vmap t A a AND PTE_P \<noteq> 0" for a
  proof -
    have p: "page_ok s B fl (PGNUM (vmap s A a))" using AinB a vA by simp
    have "PGNUM (vmap s A a) \<noteq> pt_frame t B d" if "d < 0x400" for d
      using ptB [OF that] p that unfolding page_ok_def by auto
    thus ?thesis using p mapA [of a] a vA o1 by (simp add: page_ok_def)
  qed
  have BA: "page_ok t A fl' (PGNUM (vmap t B a))" if a: "a < UTOP" "vmap t B a AND PTE_P \<noteq> 0" for a
  proof (cases "PGNUM a = PGNUM va")
    case True
    have "pp < 0x100000" using ok(1) vm_wf_pgdir(3) [OF IA(1)] by (simp add: page_ok_def word_less_nat_alt word_le_nat_alt)
    hence "PGNUM (vmap t B a) = pp"
      using vm a(1) True PGNUM_entry [OF perm_or_P [OF perm], of pp] by (simp add: or.assoc)
    thus ?thesis using okA [OF ok(1)] mapB [OF a] by simp
  next
    case False
    thus ?thesis using okA [OF BinA [OF a(1)]] mapB [OF a] vm a by simp
  qed
  have "pair_inv t A B fl' k"
    unfolding pair_inv_def
  proof (intro conjI allI impI)
    fix d :: u32 assume d: "d < 0x400" "user_slots \<le> d"
    have "d \<noteq> PDX va" using PDX_user [OF va] d(2) by auto
    hence "pt_frame t B d = pt_frame s B d" using ts d(1) unfolding tables_step_def by blast
    thus "pt_frame t A d = pt_frame t B d \<or> pt_frame t A d = pd_frame A \<and> pt_frame t B d = pd_frame B"
      using ker [OF d] ptA by simp
  qed (use asA asB dst AB BA in simp_all)
  thus ?thesis using run vm AfrB fr ref ts sub page_insert_vm_only [OF run] by blast
qed

section \<open>Duplicating a page\<close>

lemma envid2env_vm_only:
  assumes "vm_only s t" "envid2env envid b s = Done r s" shows "envid2env envid b t = Done r t"
  using assms(2) vm_onlyD(4,7) [OF assms(1)]
  by (auto simp: envid2env_def Let_def split: if_splits option.splits)

lemma envid2env_0: "envid2env 0 b s = Done (Inr (curenv s)) s"
  by (simp add: envid2env_def)

text \<open>A system call of the environment \<open>c\<close> that maps one of its pages in \<open>e\<close>, and one that does so at the
  same address.\<close>

lemma u_page_map_to:
  assumes cur: "curenv s = Some c" and e: "envid2env envid True s = Done (Inr (Some e)) s"
    and wf: "vm_wf s (env_pgdir (envs s c)) fl" and va: "va < UTOP" "PGOFF va = 0" and dva: "dva < UTOP" "PGOFF dva = 0"
    and P: "vmap s (env_pgdir (envs s c)) va AND PTE_P \<noteq> 0" and perm: "\<not> bad_perm perm"
    and W: "perm AND PTE_W = 0 \<or> vmap s (env_pgdir (envs s c)) va AND PTE_W \<noteq> 0"
    and ins: "page_insert (env_pgdir (envs s e)) (PGNUM (vmap s (env_pgdir (envs s c)) va)) dva perm s = Done 0 t"
  shows "u_sys_page_map 0 va envid dva perm s = Done 0 t"
proof -
  note pt = present_table [OF P]
  have np: "PGNUM (vmap s (env_pgdir (envs s c)) va) < npages s"
    using vm_wf_mapped [OF wf va(1) P] by (simp add: page_ok_def)
  note lk = page_lookup_table [OF wf va(1) pt np]
  have bad: "\<not> bad_user_va va" "\<not> bad_user_va dva" using va dva by (simp_all add: bad_user_va_def)
  have "\<not> (load32 s (pte_addr s (env_pgdir (envs s c)) va) AND PTE_W = 0 \<and> perm AND PTE_W = PTE_W)"
    using W load_pte(1) [OF wf va(1) pt] by (auto simp: and_two)
  hence "sys_page_map 0 va envid dva perm s = Done 0 t"
    using bad perm e lk ins cur by (simp add: sys_page_map_def envid2env_0)
  thus ?thesis by (simp add: u_sys_page_map_def usyscall_def syscall_def)
qed

lemma u_page_map:
  assumes "curenv s = Some c" "envid2env envid True s = Done (Inr (Some e)) s"
    "vm_wf s (env_pgdir (envs s c)) fl" "va < UTOP" "PGOFF va = 0"
    "vmap s (env_pgdir (envs s c)) va AND PTE_P \<noteq> 0" "\<not> bad_perm perm"
    "perm AND PTE_W = 0 \<or> vmap s (env_pgdir (envs s c)) va AND PTE_W \<noteq> 0"
    "page_insert (env_pgdir (envs s e)) (PGNUM (vmap s (env_pgdir (envs s c)) va)) va perm s = Done 0 t"
  shows "u_sys_page_map 0 va envid va perm s = Done 0 t"
  using u_page_map_to [of s c envid e fl va va perm t] assms by simp

text \<open>The entries that child and parent end up with for an entry of the parent.\<close>

definition entry_with :: "u32 \<Rightarrow> u32 \<Rightarrow> u32" where
  "entry_with x perm = page2pa (PGNUM x) OR perm OR PTE_P"

definition cow_perm :: u32 where "cow_perm = (PTE_COW OR PTE_U OR PTE_P)"

definition child_pte :: "u32 \<Rightarrow> u32" where
  "child_pte x = entry_with x (if x AND PTE_SHARE \<noteq> 0 then x AND PTE_SYSCALL
      else if x AND PTE_W \<noteq> 0 \<or> x AND PTE_COW \<noteq> 0 then cow_perm else PTE_U OR PTE_P)"

definition parent_pte :: "u32 \<Rightarrow> u32" where
  "parent_pte x = (if x AND PTE_SHARE = 0 \<and> (x AND PTE_W \<noteq> 0 \<or> x AND PTE_COW \<noteq> 0)
     then entry_with x cow_perm else x)"

lemma syscall_perm_less: "x AND PTE_SYSCALL < 0x1000"
proof -
  have "x AND PTE_SYSCALL \<le> PTE_SYSCALL" by (rule word_and_le1)
  thus ?thesis by (simp add: PTE_SYSCALL_def word_le_nat_alt word_less_nat_alt)
qed

lemma entry_with_frame [simp]: "perm < 0x1000 \<Longrightarrow> PGNUM (entry_with x perm) = PGNUM x"
  using PGNUM_entry [OF perm_or_P PGNUM_less] by (simp add: entry_with_def or.assoc)

lemma entry_with_present [simp]: "entry_with x perm AND PTE_P \<noteq> 0"
  using or_P_present [of "page2pa (PGNUM x) OR perm"] by (simp add: entry_with_def)

lemma cow_perm_less [simp]: "cow_perm < 0x1000"
  by (simp add: cow_perm_def)

lemma pte_frames [simp]: "PGNUM (child_pte x) = PGNUM x" "PGNUM (parent_pte x) = PGNUM x"
  using syscall_perm_less [of x] by (simp_all add: child_pte_def parent_pte_def)

lemma pte_present: "child_pte x AND PTE_P \<noteq> 0" "x AND PTE_P \<noteq> 0 \<Longrightarrow> parent_pte x AND PTE_P \<noteq> 0"
  using entry_with_present [of x] by (simp_all add: child_pte_def parent_pte_def)

text \<open>The parent \<open>c\<close> runs on \<open>A\<close> and has the child \<open>e\<close> with the address space \<open>B\<close>; there is a free page
  for each page table that the parent has or the exception stack needs, and the child lacks.\<close>

definition wants :: "kst \<Rightarrow> u32 \<Rightarrow> u32 \<Rightarrow> bool" where
  "wants s g d \<longleftrightarrow> pt_frame s g d \<noteq> 0 \<or> d = 0x3BA"

definition lacking :: "kst \<Rightarrow> u32 \<Rightarrow> u32 \<Rightarrow> nat" where
  "lacking s A B = card {d. d < user_slots \<and> wants s A d \<and> pt_frame s B d = 0}"

definition forking :: "kst \<Rightarrow> nat \<Rightarrow> nat \<Rightarrow> u32 \<Rightarrow> u32 \<Rightarrow> u32 \<Rightarrow> u32 list \<Rightarrow> (u32 \<Rightarrow> nat) \<Rightarrow> bool" where
  "forking s c e envid A B fl k \<longleftrightarrow> curenv s = Some c \<and> env_pgdir (envs s c) = A \<and> env_pgdir (envs s e) = B \<and>
     cur_pgdir s = A \<and> self_map s A \<and> pde_flags s A \<and> pair_inv s A B fl k \<and> lacking s A B \<le> length fl \<and>
     envid2env envid True s = Done (Inr (Some e)) s"

lemma lacking_step:
  assumes ts: "tables_step s B va fl t fl'" and va: "va < UTOP" and l: "lacking s A B \<le> length fl"
    and A: "\<And>d. pt_frame t A d = pt_frame s A d" and w: "wants s A (PDX va)"
  shows "lacking t A B \<le> length fl'"
proof -
  let ?L = "{d. d < user_slots \<and> wants s A d \<and> pt_frame s B d = 0}"
    and ?M = "{d. d < user_slots \<and> wants t A d \<and> pt_frame t B d = 0}"
  have u: "PDX va < user_slots" by (rule PDX_user [OF va])
  have s4: "d < 0x400" if "d < user_slots" for d using that by (simp add: word_less_nat_alt)
  have M: "?M = (if pt_frame s B (PDX va) = 0 then ?L - {PDX va} else ?L)"
  proof -
    have "pt_frame t B d = 0 \<longleftrightarrow> pt_frame s B d = 0 \<and> (pt_frame s B (PDX va) = 0 \<longrightarrow> d \<noteq> PDX va)" if "d < user_slots" for d
    proof -
      have "pt_frame t B d = pt_frame s B d \<or> d = PDX va \<and> pt_frame s B (PDX va) = 0" "pt_frame t B (PDX va) \<noteq> 0"
        using ts s4 [OF that] unfolding tables_step_def by blast+
      thus ?thesis by metis
    qed
    thus ?thesis by (auto simp: wants_def A)
  qed
  show ?thesis
  proof (cases "pt_frame s B (PDX va) = 0")
    case True
    hence "PDX va \<in> ?L" using u w by simp
    hence "Suc (card ?M) = card ?L" using M True card_Suc_Diff1 [of ?L "PDX va"] by simp
    thus ?thesis using ts l True unfolding tables_step_def lacking_def by simp
  next
    case False thus ?thesis using ts l M unfolding tables_step_def lacking_def by simp
  qed
qed

lemma lacking_room:
  assumes l: "lacking s A B \<le> length fl" and va: "va < UTOP" and w: "wants s A (PDX va)"
  shows "pt_frame s B (PDX va) \<noteq> 0 \<or> fl \<noteq> []"
proof (rule ccontr)
  assume "\<not> ?thesis"
  hence L: "PDX va \<in> {d. d < user_slots \<and> wants s A d \<and> pt_frame s B d = 0}" "lacking s A B = 0"
    using PDX_user [OF va] l w by auto
  hence "{d. d < user_slots \<and> wants s A d \<and> pt_frame s B d = 0} \<noteq> {}" by blast
  hence "0 < card {d. d < user_slots \<and> wants s A d \<and> pt_frame s B d = 0}" by (simp add: card_gt_0_iff)
  thus False using L(2) unfolding lacking_def by linarith
qed

lemma lacking_cong:
  "(\<And>d. pt_frame t A d = pt_frame s A d) \<Longrightarrow> (\<And>d. pt_frame t B d = pt_frame s B d) \<Longrightarrow> lacking t A B = lacking s A B"
  by (simp add: lacking_def wants_def)

lemma pair_insert_forking:
  assumes f: "forking s c e envid A B fl k" and va: "va < UTOP" and ok: "page_ok s A fl pp" "page_ok s B fl pp"
    and sat: "pp_ref (pages s pp) \<noteq> 0xFFFF" and perm: "perm < 0x1000"
    and nB: "vmap s B va AND PTE_P = 0" and w: "wants s A (PDX va)"
  shows "\<exists>t fl'. page_insert B pp va perm s = Done 0 t \<and> forking t c e envid A B fl' k \<and> vm_only s t \<and>
    (\<forall>a < UTOP. vmap t B a = (if PGNUM a = PGNUM va then page2pa pp OR perm OR PTE_P else vmap s B a)) \<and>
    (\<forall>a < UTOP. vmap t A a = vmap s A a) \<and> vm_frames t A = vm_frames s A \<and>
    (\<forall>f. f \<notin> vm_frames s B \<longrightarrow> f \<notin> set fl \<longrightarrow> pmem t f = pmem s f) \<and>
    (\<forall>q. q \<notin> set fl \<longrightarrow> pp_ref (pages t q) = pp_ref (pages s q) + (if q = pp then 1 else 0)) \<and>
    set fl' \<subseteq> set fl"
proof -
  have F: "curenv s = Some c" "env_pgdir (envs s c) = A" "env_pgdir (envs s e) = B" "cur_pgdir s = A"
    "self_map s A" "pde_flags s A" "pair_inv s A B fl k" "lacking s A B \<le> length fl"
    "envid2env envid True s = Done (Inr (Some e)) s"
    using f by (simp_all add: forking_def)
  obtain t fl' where t: "page_insert B pp va perm s = Done 0 t" "pair_inv t A B fl' k"
    "\<forall>a < UTOP. vmap t B a = (if PGNUM a = PGNUM va then page2pa pp OR perm OR PTE_P else vmap s B a)"
    "\<forall>f \<in> vm_frames s A. pmem t f = pmem s f"
    "\<forall>f. f \<notin> vm_frames s B \<longrightarrow> f \<notin> set fl \<longrightarrow> pmem t f = pmem s f"
    "\<forall>q. q \<notin> set fl \<longrightarrow> pp_ref (pages t q) =
       (pp_ref (pages s q) + (if q = pp then 1 else 0)) -
       (if vmap s B va AND PTE_P \<noteq> 0 \<and> q = PGNUM (vmap s B va) then 1 else 0)"
    "tables_step s B va fl t fl'" "vm_only s t"
    "set fl' \<subseteq> set fl \<union> (if vmap s B va AND PTE_P \<noteq> 0 then {PGNUM (vmap s B va)} else {})"
    using pair_insert [OF F(7) va ok sat perm] lacking_room [OF F(8) va w] by blast
  have pd: "pmem t (pd_frame A) = pmem s (pd_frame A)" using t(4) by (simp add: vm_frames_def)
  have "self_map t A" "pde_flags t A" using F(5,6) pd by (simp_all add: self_map_def pde_flags_def pt_frame_def)
  moreover have "lacking t A B \<le> length fl'" by (rule lacking_step [OF t(7) va F(8) pt_frame_frames_eq [OF t(4)] w])
  ultimately have "forking t c e envid A B fl' k"
    using F(1-4,9) t(2) vm_onlyD(4,7,8) [OF t(8)] envid2env_vm_only [OF t(8) F(9)] by (simp add: forking_def)
  moreover have "vm_frames t A = vm_frames s A" using pt_frame_frames_eq [OF t(4)] by (simp add: vm_frames_def)
  ultimately show ?thesis using t nB vmap_frames_eq [OF t(4)] by (intro exI [of _ t] exI [of _ fl'] conjI) simp_all
qed

text \<open>The parent maps a page of its own again, with other permissions.\<close>

lemma self_insert_forking:
  assumes f: "forking s c e envid A B fl k" and va: "va < UTOP" and P: "vmap s A va AND PTE_P \<noteq> 0"
    and sat: "pp_ref (pages s (PGNUM (vmap s A va))) \<noteq> 0xFFFF" and perm: "perm < 0x1000"
  shows "\<exists>t fl'. page_insert A (PGNUM (vmap s A va)) va perm s = Done 0 t \<and> forking t c e envid A B fl' k \<and> vm_only s t \<and>
    (\<forall>a < UTOP. vmap t A a = (if PGNUM a = PGNUM va then entry_with (vmap s A va) perm else vmap s A a)) \<and>
    (\<forall>a < UTOP. vmap t B a = vmap s B a) \<and>
    (\<forall>f. f \<notin> vm_frames s A \<longrightarrow> f \<notin> set fl \<longrightarrow> pmem t f = pmem s f) \<and>
    (\<forall>q. q \<notin> set fl \<longrightarrow> pp_ref (pages t q) = pp_ref (pages s q)) \<and> set fl' \<subseteq> set fl"
proof -
  let ?p = "PGNUM (vmap s A va)"
  have F: "curenv s = Some c" "env_pgdir (envs s c) = A" "env_pgdir (envs s e) = B" "cur_pgdir s = A"
    "self_map s A" "pde_flags s A" "pair_inv s A B fl k" "lacking s A B \<le> length fl"
    "envid2env envid True s = Done (Inr (Some e)) s"
    using f by (simp_all add: forking_def)
  have wf: "vm_wf s A fl" using F(7) by (simp add: pair_inv_def as_inv_def)
  have ok: "page_ok s A fl ?p" "page_ok s B fl ?p"
    using vm_wf_mapped [OF wf va P] F(7) va P unfolding pair_inv_def by blast+
  note pt = present_table [OF P]
  obtain t fl' where t: "page_insert A ?p va perm s = Done 0 t" "pair_inv t B A fl' k"
    "\<forall>a < UTOP. vmap t A a = (if PGNUM a = PGNUM va then page2pa ?p OR perm OR PTE_P else vmap s A a)"
    "\<forall>f \<in> vm_frames s B. pmem t f = pmem s f"
    "\<forall>f. f \<notin> vm_frames s A \<longrightarrow> f \<notin> set fl \<longrightarrow> pmem t f = pmem s f"
    "\<forall>q. q \<notin> set fl \<longrightarrow> pp_ref (pages t q) =
       (pp_ref (pages s q) + (if q = ?p then 1 else 0)) -
       (if vmap s A va AND PTE_P \<noteq> 0 \<and> q = ?p then 1 else 0)"
    "tables_step s A va fl t fl'" "vm_only s t" "set fl' \<subseteq> set fl \<union> {?p}"
    using pair_insert [OF pair_inv_sym [OF F(7)] va ok(2,1) sat perm] pt P by auto
  have pd: "pmem t (pd_frame A) = pmem s (pd_frame A)" "length fl \<le> length fl'"
    using t(7) pt by (simp_all add: tables_step_def)
  have ptA: "pt_frame t A d = pt_frame s A d" for d using pd by (simp add: pt_frame_def)
  have inv: "pair_inv t A B fl' k" by (rule pair_inv_sym [OF t(2)])
  have pf: "PGNUM (vmap t A va) = ?p" "vmap t A va AND PTE_P \<noteq> 0"
    using t(3) va perm entry_with_frame [of perm "vmap s A va"] entry_with_present [of "vmap s A va" perm]
    by (simp_all add: entry_with_def)
  have "?p \<notin> set fl'"
  proof -
    have "rc_inv t A (refs t B k)" "page_rep t fl'" using inv by (simp_all add: pair_inv_def as_inv_def)
    thus ?thesis using mapped_counted [of t A _ va] counted_not_free va pf by metis
  qed
  hence "set fl' \<subseteq> set fl" using t(9) by blast
  moreover have "self_map t A" "pde_flags t A" using F(5,6) pd ptA by (simp_all add: self_map_def pde_flags_def)
  moreover have "lacking t A B \<le> length fl'"
    using F(8) pd lacking_cong [of t A s B, OF ptA pt_frame_frames_eq [OF t(4)]] by simp
  ultimately show ?thesis
    using F(1-4,9) t inv P vm_onlyD(4,7,8) [OF t(8)] envid2env_vm_only [OF t(8) F(9)] vmap_frames_eq [OF t(4)]
    by (intro exI [of _ t] exI [of _ fl'] conjI) (simp_all add: forking_def entry_with_def)
qed


lemma page_addr: "PGOFF va = 0 \<Longrightarrow> push_bit 12 (PGNUM va) = va"
proof -
  assume "PGOFF va = 0"
  hence "va AND mask 12 = 0" unfolding PGOFF_def u32_low_mask .
  hence b: "\<not> (bit va n \<and> n < 12)" for n by (metis bit_and_iff bit_mask_iff bit_0_eq bot_apply bot_bool_def impossible_bit)
  show ?thesis unfolding addr_fields by (rule bit_word_eqI) (use b in \<open>auto simp: bit_simps not_less\<close>)
qed

lemma and_push_bit_1: "\<not> bit x n \<Longrightarrow> x AND push_bit n 1 = (0 :: u32)"
  by (rule bit_word_eqI) (auto simp: bit_simps bit_1_iff)

lemma and_push_bit_1': "bit x n \<Longrightarrow> x AND push_bit n 1 = (push_bit n 1 :: u32)"
  by (rule bit_word_eqI) (auto simp: bit_simps bit_1_iff)

lemma share_perm:
  assumes "x AND PTE_U \<noteq> 0" "x AND PTE_P \<noteq> 0" shows "\<not> bad_perm (x AND PTE_SYSCALL)"
proof -
  have "bit x 2"
  proof (rule ccontr)
    assume "\<not> bit x 2"
    hence "x AND push_bit 2 1 = 0" by (rule and_push_bit_1)
    thus False using assms(1) by simp
  qed
  moreover have "bit x 0"
  proof (rule ccontr)
    assume "\<not> bit x 0"
    hence "x AND push_bit 0 1 = 0" by (rule and_push_bit_1)
    thus False using assms(2) by simp
  qed
  ultimately have "x AND (push_bit 2 1 OR push_bit 0 1) = push_bit 2 1 OR push_bit 0 1"
    by (simp only: bit.conj_disj_distrib and_push_bit_1')
  hence "x AND 5 = 5" by simp
  hence "(x AND PTE_SYSCALL) AND 5 = 5"
    by (simp add: PTE_SYSCALL_def and.assoc)
  thus ?thesis by (simp add: bad_perm_def PTE_SYSCALL_def and.assoc)
qed

lemma good_perms: "\<not> bad_perm cow_perm" "\<not> bad_perm (PTE_U OR PTE_P)"
  by (simp_all add: bad_perm_def cow_perm_def PTE_SYSCALL_def)

text \<open>\<^verbatim>\<open>duppage\<close> on a page that the parent has and the child has not.\<close>

lemma duppage_ok:
  assumes f: "forking s c e envid A B fl k" and va: "va < UTOP" "PGOFF va = 0" and P: "vmap s A va AND PTE_P \<noteq> 0"
    and U: "vmap s A va AND PTE_U \<noteq> 0" and nB: "vmap s B va AND PTE_P = 0"
    and sat: "unat (pp_ref (pages s (PGNUM (vmap s A va)))) < 0xFFFE"
  shows "\<exists>t fl'. duppage envid (PGNUM va) s = Done () t \<and> forking t c e envid A B fl' k \<and> vm_only s t \<and>
    (\<forall>a < UTOP. vmap t B a = (if PGNUM a = PGNUM va then child_pte (vmap s A va) else vmap s B a)) \<and>
    (\<forall>a < UTOP. vmap t A a = (if PGNUM a = PGNUM va then parent_pte (vmap s A va) else vmap s A a)) \<and>
    (\<forall>f. f \<notin> vm_frames s A \<union> vm_frames s B \<union> set fl \<longrightarrow> pmem t f = pmem s f) \<and>
    (\<forall>q. q \<notin> set fl \<longrightarrow> pp_ref (pages t q) =
       pp_ref (pages s q) + (if q = PGNUM (vmap s A va) then 1 else 0)) \<and> set fl' \<subseteq> set fl"
proof -
  let ?x = "vmap s A va" and ?p = "PGNUM (vmap s A va)"
  have F: "curenv s = Some c" "env_pgdir (envs s c) = A" "env_pgdir (envs s e) = B" "cur_pgdir s = A"
    "self_map s A" "pde_flags s A" "pair_inv s A B fl k" "envid2env envid True s = Done (Inr (Some e)) s"
    using f by (simp_all add: forking_def)
  have wf: "vm_wf s A fl" using F(7) by (simp add: pair_inv_def as_inv_def)
  have ok: "page_ok s A fl ?p" "page_ok s B fl ?p"
    using vm_wf_mapped [OF wf va(1) P] F(7) va P unfolding pair_inv_def by blast+
  have ref: "pp_ref (pages s ?p) \<noteq> 0xFFFF" using sat by auto
  have uv: "uvpt (PGNUM va) s = Done ?x s" by (rule uvpt_user [OF F(4,5,6) va(1) present_table [OF P]])
  note pa = page_addr [OF va(2)]
  define perm where "perm = (if ?x AND PTE_SHARE \<noteq> 0 then ?x AND PTE_SYSCALL
      else if ?x AND PTE_W \<noteq> 0 \<or> ?x AND PTE_COW \<noteq> 0 then cow_perm else PTE_U OR PTE_P)"
  have perm: "\<not> bad_perm perm" "perm AND PTE_W = 0 \<or> ?x AND PTE_W \<noteq> 0"
    using share_perm [OF U P] good_perms by (auto simp: perm_def cow_perm_def PTE_SYSCALL_def and.assoc)
  obtain t1 fl1 where t1: "page_insert B ?p va perm s = Done 0 t1" "forking t1 c e envid A B fl1 k" "vm_only s t1"
    "\<forall>a < UTOP. vmap t1 B a = (if PGNUM a = PGNUM va then page2pa ?p OR perm OR PTE_P else vmap s B a)"
    "\<forall>a < UTOP. vmap t1 A a = vmap s A a" "vm_frames t1 A = vm_frames s A"
    "\<forall>f. f \<notin> vm_frames s B \<longrightarrow> f \<notin> set fl \<longrightarrow> pmem t1 f = pmem s f"
    "\<forall>q. q \<notin> set fl \<longrightarrow> pp_ref (pages t1 q) = pp_ref (pages s q) + (if q = ?p then 1 else 0)" "set fl1 \<subseteq> set fl"
    using pair_insert_forking [OF f va(1) ok ref perm_ok(1) [OF perm(1)] nB] present_table [OF P] by (auto simp: wants_def)
  have child: "page2pa ?p OR perm OR PTE_P = child_pte ?x"
    by (simp add: child_pte_def entry_with_def perm_def)
  have m1: "u_sys_page_map 0 va envid va perm s = Done 0 t1"
    by (rule u_page_map [OF F(1) F(8) _ va _ perm(1)]) (use F wf P perm t1(1) in simp_all)
  show ?thesis
  proof (cases "?x AND PTE_SHARE = 0 \<and> (?x AND PTE_W \<noteq> 0 \<or> ?x AND PTE_COW \<noteq> 0)")
    case False
    have "duppage envid (PGNUM va) s = Done () t1"
      using False m1 unfolding duppage_def uv by (simp add: pa perm_def ucheck_def Let_def split: if_splits)
    moreover have "vmap t1 A a = (if PGNUM a = PGNUM va then parent_pte ?x else vmap s A a)" if "a < UTOP" for a
    proof -
      have "parent_pte ?x = ?x" using False by (auto simp: parent_pte_def)
      moreover have "vmap s A a = ?x" if "PGNUM a = PGNUM va" by (rule vmap_same_page [OF that])
      ultimately show ?thesis using t1(5) that by (cases "PGNUM a = PGNUM va") simp_all
    qed
    ultimately show ?thesis using t1(2-4,7-) unfolding child
      by (intro exI [of _ t1] exI [of _ fl1] conjI) simp_all
  next
    case True
    have x1: "vmap t1 A va = ?x" using t1(5) va by simp
    have ref1: "pp_ref (pages t1 ?p) \<noteq> 0xFFFF"
    proof -
      have "pp_ref (pages t1 ?p) = pp_ref (pages s ?p) + 1" using t1(8) ok(1) by (simp add: page_ok_def)
      hence "unat (pp_ref (pages t1 ?p)) = unat (pp_ref (pages s ?p)) + 1" using sat by (simp add: unat_word_ariths)
      thus ?thesis using sat by auto
    qed
    have P1: "vmap t1 A va AND PTE_P \<noteq> 0" using x1 P by simp
    obtain t fl' where t: "page_insert A ?p va cow_perm t1 = Done 0 t" "forking t c e envid A B fl' k" "vm_only t1 t"
      "\<forall>a < UTOP. vmap t A a = (if PGNUM a = PGNUM va then entry_with ?x cow_perm else vmap t1 A a)"
      "\<forall>a < UTOP. vmap t B a = vmap t1 B a"
      "\<forall>f. f \<notin> vm_frames t1 A \<longrightarrow> f \<notin> set fl1 \<longrightarrow> pmem t f = pmem t1 f"
      "\<forall>q. q \<notin> set fl1 \<longrightarrow> pp_ref (pages t q) = pp_ref (pages t1 q)" "set fl' \<subseteq> set fl1"
      using self_insert_forking [OF t1(2) va(1) P1, of cow_perm] ref1 unfolding x1 by auto
    have F1: "curenv t1 = Some c" "env_pgdir (envs t1 c) = A" "vm_wf t1 A fl1"
      using t1(2) by (simp_all add: forking_def pair_inv_def as_inv_def)
    have m2: "u_sys_page_map 0 va 0 va cow_perm t1 = Done 0 t"
      by (rule u_page_map [OF F1(1) _ _ va _ good_perms(1), where e = c])
         (use F1 P1 x1 t(1) in \<open>simp_all add: envid2env_0 cow_perm_def\<close>)
    have pm: "perm = cow_perm" using True by (simp add: perm_def)
    have "duppage envid (PGNUM va) s = Done () t"
      using True m1 m2 unfolding duppage_def uv pm by (simp add: pa cow_perm_def ucheck_def Let_def)
    moreover have "parent_pte ?x = entry_with ?x cow_perm" using True by (simp add: parent_pte_def)
    moreover have "pmem t f = pmem s f" if "f \<notin> vm_frames s A \<union> vm_frames s B \<union> set fl" for f
      using that t(6) t1(6,7,9) by auto
    moreover have "pp_ref (pages t q) = pp_ref (pages s q) + (if q = ?p then 1 else 0)" if "q \<notin> set fl" for q
      using that t(7) t1(8,9) by auto
    ultimately show ?thesis using t t1 child vm_only_trans [OF t1(3) t(3)]
      by (intro exI [of _ t] exI [of _ fl'] conjI) auto
  qed
qed


section \<open>The loop over the pages\<close>

definition pg :: "u32 \<Rightarrow> nat" where
  "pg va = unat va div 4096"

lemma pg_eq: "PGNUM a = PGNUM b \<longleftrightarrow> pg a = pg b"
  by (simp add: pg_def word_unat_eq_iff unat_PGNUM)

text \<open>What parent and child map once the pages below number \<open>i\<close> are done, \<open>M\<close> being what the parent mapped
  before and \<open>w\<close> the child's entry for the exception stack, page \<open>0xEEBFF\<close>.\<close>

definition dup_parent :: "(u32 \<Rightarrow> u32) \<Rightarrow> nat \<Rightarrow> u32 \<Rightarrow> u32" where
  "dup_parent M i a = (if pg a < i \<and> pg a \<noteq> 0xEEBFF \<and> M a AND PTE_P \<noteq> 0 then parent_pte (M a) else M a)"

definition dup_child :: "(u32 \<Rightarrow> u32) \<Rightarrow> u32 \<Rightarrow> nat \<Rightarrow> u32 \<Rightarrow> u32" where
  "dup_child M w i a = (if pg a = 0xEEBFF then w
     else if pg a < i \<and> M a AND PTE_P \<noteq> 0 then child_pte (M a) else 0)"

definition fork_inv :: "kst \<Rightarrow> nat \<Rightarrow> nat \<Rightarrow> u32 \<Rightarrow> u32 \<Rightarrow> u32 \<Rightarrow> (u32 \<Rightarrow> nat) \<Rightarrow> u32 \<Rightarrow> nat \<Rightarrow> u32 list \<Rightarrow> kst \<Rightarrow> bool" where
  "fork_inv s0 c e envid A B k w i fl s \<longleftrightarrow> forking s c e envid A B fl k \<and> vm_only s0 s \<and>
     (\<forall>a < UTOP. vmap s A a = dup_parent (vmap s0 A) i a) \<and>
     (\<forall>a < UTOP. vmap s B a = dup_child (vmap s0 A) w i a) \<and>
     (\<forall>a < UTOP. vmap s0 A a AND PTE_P \<noteq> 0 \<longrightarrow>
        pmem s (PGNUM (vmap s0 A a)) = pmem s0 (PGNUM (vmap s0 A a)) \<and>
        unat (pp_ref (pages s (PGNUM (vmap s0 A a)))) \<le>
          unat (pp_ref (pages s0 (PGNUM (vmap s0 A a)))) + card (maps s B (PGNUM (vmap s0 A a)))) \<and>
     (w AND PTE_P \<noteq> 0 \<longrightarrow> pmem s (PGNUM w) = pmem s0 (PGNUM w))"

text \<open>The parent's pages before the loop: accessible, and not shared so often that a reference count could
  overflow.\<close>

definition fork_pages :: "kst \<Rightarrow> u32 \<Rightarrow> bool" where
  "fork_pages s A \<longleftrightarrow> (\<forall>a < UTOP. vmap s A a AND PTE_P \<noteq> 0 \<longrightarrow> vmap s A a AND PTE_U \<noteq> 0 \<and>
     card (maps s A (PGNUM (vmap s A a))) \<le> unat (pp_ref (pages s (PGNUM (vmap s A a)))) \<and>
     unat (pp_ref (pages s (PGNUM (vmap s A a)))) \<le> 0x7FF0)"

lemma dup_parent_frame: "M a AND PTE_P \<noteq> 0 \<Longrightarrow> PGNUM (dup_parent M i a) = PGNUM (M a) \<and> dup_parent M i a AND PTE_P \<noteq> 0"
  using pte_present by (simp add: dup_parent_def)

lemma child_maps_bound:
  assumes "\<forall>a < UTOP. vmap s B a = dup_child (vmap s0 A) w i a"
  shows "card (maps s B p) \<le> Suc (card (maps s0 A p))"
proof -
  have "maps s B p \<subseteq> insert 0xEEBFF (maps s0 A p)"
  proof
    fix n assume "n \<in> maps s B p"
    then obtain a where a: "n = PGNUM a" "a < UTOP" "vmap s B a AND PTE_P \<noteq> 0" "PGNUM (vmap s B a) = p"
      by (auto simp: maps_def)
    show "n \<in> insert 0xEEBFF (maps s0 A p)"
    proof (cases "pg a = 0xEEBFF")
      case True
      hence "PGNUM a = 0xEEBFF" by (simp add: word_unat_eq_iff unat_PGNUM pg_def)
      thus ?thesis using a(1) by simp
    next
      case False
      have "vmap s B a = dup_child (vmap s0 A) w i a" using assms a(2) by blast
      hence "vmap s0 A a AND PTE_P \<noteq> 0 \<and> PGNUM (vmap s0 A a) = p" using False a(3,4)
        by (auto simp: dup_child_def split: if_splits)
      thus ?thesis using a(1,2) by (auto simp: maps_def)
    qed
  qed
  hence "card (maps s B p) \<le> card (insert 0xEEBFF (maps s0 A p))" by (rule card_mono [rotated]) simp
  also have "\<dots> \<le> Suc (card (maps s0 A p))" by (rule card_insert_le_m1) simp_all
  finally show ?thesis .
qed

lemma fork_inv_step:
  assumes inv: "fork_inv s0 c e envid A B k w i fl s" and pgs: "fork_pages s0 A"
    and x: "unat x = 4096 * i" "i < 0xEEC00" "i \<noteq> 0xEEBFF" and P: "vmap s0 A x AND PTE_P \<noteq> 0"
  shows "\<exists>t fl'. duppage envid (PGNUM x) s = Done () t \<and> fork_inv s0 c e envid A B k w (Suc i) fl' t"
proof -
  let ?M = "vmap s0 A"
  have I: "forking s c e envid A B fl k" "vm_only s0 s" "\<And>a. a < UTOP \<Longrightarrow> vmap s A a = dup_parent ?M i a"
    "\<And>a. a < UTOP \<Longrightarrow> vmap s B a = dup_child ?M w i a"
    "\<And>a. a < UTOP \<Longrightarrow> ?M a AND PTE_P \<noteq> 0 \<Longrightarrow> pmem s (PGNUM (?M a)) = pmem s0 (PGNUM (?M a)) \<and>
        unat (pp_ref (pages s (PGNUM (?M a)))) \<le>
          unat (pp_ref (pages s0 (PGNUM (?M a)))) + card (maps s B (PGNUM (?M a)))"
    "w AND PTE_P \<noteq> 0 \<Longrightarrow> pmem s (PGNUM w) = pmem s0 (PGNUM w)"
    using inv unfolding fork_inv_def by blast+
  have xl: "x < UTOP" using x(1,2) by (simp add: word_less_nat_alt)
  have xo: "PGOFF x = 0"
  proof -
    have "unat (x AND mask 12) = 0" using x(1) by (simp flip: take_bit_eq_mask add: take_bit_eq_mod unat_mod)
    thus ?thesis unfolding PGOFF_def u32_low_mask by (simp add: unat_eq_zero)
  qed
  have px: "pg x = i" using x(1) by (simp add: pg_def)
  have xA: "vmap s A x = ?M x" using I(3) [OF xl] px by (simp add: dup_parent_def)
  have xB: "vmap s B x = 0" using I(4) [OF xl] px x(3) by (simp add: dup_child_def)
  have Q: "vmap s0 A x AND PTE_U \<noteq> 0" "card (maps s0 A (PGNUM (?M x))) \<le> unat (pp_ref (pages s0 (PGNUM (?M x))))"
    "unat (pp_ref (pages s0 (PGNUM (?M x)))) \<le> 0x7FF0"
    using pgs xl P unfolding fork_pages_def by blast+
  have sat: "unat (pp_ref (pages s (PGNUM (vmap s A x)))) < 0xFFFE"
    using I(5) [OF xl P] child_maps_bound [of s B s0 A w i "PGNUM (?M x)"] I(4) Q(2,3) unfolding xA by auto
  obtain t fl' where t: "duppage envid (PGNUM x) s = Done () t" "forking t c e envid A B fl' k" "vm_only s t"
    "\<And>a. a < UTOP \<Longrightarrow> vmap t B a = (if PGNUM a = PGNUM x then child_pte (?M x) else vmap s B a)"
    "\<And>a. a < UTOP \<Longrightarrow> vmap t A a = (if PGNUM a = PGNUM x then parent_pte (?M x) else vmap s A a)"
    "\<And>f. f \<notin> vm_frames s A \<union> vm_frames s B \<union> set fl \<Longrightarrow> pmem t f = pmem s f"
    "\<And>q. q \<notin> set fl \<Longrightarrow> pp_ref (pages t q) = pp_ref (pages s q) + (if q = PGNUM (?M x) then 1 else 0)"
    using duppage_ok [OF I(1) xl xo _ _ _ sat] P Q(1) unfolding xA xB by auto
  have same: "?M a = ?M x" if "pg a = i" for a
    by (rule vmap_same_page) (use that px in \<open>simp add: pg_eq\<close>)
  have A: "vmap t A a = dup_parent ?M (Suc i) a" if "a < UTOP" for a
    using t(5) [OF that] I(3) [OF that] same [of a] P x(3) px by (auto simp: dup_parent_def pg_eq less_Suc_eq)
  have B: "vmap t B a = dup_child ?M w (Suc i) a" if "a < UTOP" for a
    using t(4) [OF that] I(4) [OF that] same [of a] P x(3) px by (auto simp: dup_child_def pg_eq less_Suc_eq)
  have frame: "PGNUM (?M a) \<notin> vm_frames s A \<union> vm_frames s B \<union> set fl" if a: "a < UTOP" "?M a AND PTE_P \<noteq> 0" for a
  proof -
    have m: "PGNUM (vmap s A a) = PGNUM (?M a)" "vmap s A a AND PTE_P \<noteq> 0"
      using I(3) [OF a(1)] dup_parent_frame [of ?M a i] a(2) by simp_all
    have "page_ok s A fl (PGNUM (vmap s A a))" "page_ok s B fl (PGNUM (vmap s A a))"
      using I(1) a(1) m(2) vm_wf_mapped [of s A fl a] by (auto simp: forking_def pair_inv_def as_inv_def)
    hence ok: "page_ok s A fl (PGNUM (?M a))" "page_ok s B fl (PGNUM (?M a))" using m(1) by simp_all
    have "d < 0x400" if "d < user_slots" for d using that by (simp add: word_less_nat_alt)
    thus ?thesis using ok unfolding page_ok_def vm_frames_def by blast
  qed
  have stack: "pmem t (PGNUM w) = pmem s0 (PGNUM w)" if w: "w AND PTE_P \<noteq> 0"
  proof -
    have l: "(0xEEBFF000 :: u32) < UTOP" by simp
    have m: "vmap s B 0xEEBFF000 = w" using I(4) [OF l] by (simp add: dup_child_def pg_def)
    hence P: "vmap s B 0xEEBFF000 AND PTE_P \<noteq> 0" using w by simp
    have "\<forall>va < UTOP. vmap s B va AND PTE_P \<noteq> 0 \<longrightarrow> page_ok s A fl (PGNUM (vmap s B va))" and wfB: "vm_wf s B fl"
      using I(1) unfolding forking_def pair_inv_def as_inv_def by blast+
    hence "page_ok s A fl (PGNUM w)" "page_ok s B fl (PGNUM w)"
      using l P m vm_wf_mapped [OF wfB l P] by metis+
    moreover have "d < 0x400" if "d < user_slots" for d using that by (simp add: word_less_nat_alt)
    ultimately have "PGNUM w \<notin> vm_frames s A \<union> vm_frames s B \<union> set fl" unfolding page_ok_def vm_frames_def by blast
    thus ?thesis using t(6) I(6) [OF w] by simp
  qed
  have sub: "maps s B q \<subseteq> maps t B q" for q
  proof
    fix n assume "n \<in> maps s B q"
    then obtain a where a: "n = PGNUM a" "a < UTOP" "vmap s B a AND PTE_P \<noteq> 0" "PGNUM (vmap s B a) = q"
      by (auto simp: maps_def)
    have "PGNUM a \<noteq> PGNUM x" using a(3) vmap_same_page [of a x s B] xB by auto
    thus "n \<in> maps t B q" using t(4) [OF a(2)] a by (auto simp: maps_def)
  qed
  have new: "PGNUM x \<in> maps t B (PGNUM (?M x))" "PGNUM x \<notin> maps s B (PGNUM (?M x))"
  proof -
    show "PGNUM x \<in> maps t B (PGNUM (?M x))"
      using mapped_in_maps [OF xl, of t B] t(4) [OF xl] pte_present(1) [of "?M x"] by simp
    show "PGNUM x \<notin> maps s B (PGNUM (?M x))"
      using vmap_same_page [of _ x s B] xB by (fastforce simp: maps_def)
  qed
  have ref: "unat (pp_ref (pages t q)) \<le> unat (pp_ref (pages s0 q)) + card (maps t B q)"
    if a: "a < UTOP" "?M a AND PTE_P \<noteq> 0" "q = PGNUM (?M a)" for a q
  proof -
    have q: "q \<notin> set fl" using frame [OF a(1,2)] a(3) by blast
    have old: "unat (pp_ref (pages s q)) \<le> unat (pp_ref (pages s0 q)) + card (maps s B q)"
      using I(5) [OF a(1,2)] a(3) by blast
    show ?thesis
    proof (cases "q = PGNUM (?M x)")
      case True
      have "Suc (card (maps s B q)) \<le> card (maps t B q)"
        using card_mono [of "maps t B q" "insert (PGNUM x) (maps s B q)"] sub [of q] new True by simp
      moreover have "unat (pp_ref (pages t q)) \<le> Suc (unat (pp_ref (pages s q)))"
        using t(7) [OF q] True sat xA by (simp add: unat_word_ariths)
      ultimately show ?thesis using old by linarith
    next
      case False
      have "card (maps s B q) \<le> card (maps t B q)" by (rule card_mono [OF maps_finite sub])
      thus ?thesis using t(7) [OF q] False old by simp
    qed
  qed
  have "pmem t (PGNUM (?M a)) = pmem s0 (PGNUM (?M a))" if "a < UTOP" "?M a AND PTE_P \<noteq> 0" for a
    using t(6) [OF frame [OF that]] I(5) [OF that] by simp
  thus ?thesis using t(1,2) vm_only_trans [OF I(2) t(3)] A B ref stack
    unfolding fork_inv_def by (intro exI [of _ t] exI [of _ fl'] conjI) blast+
qed


lemma fork_inv_skip:
  assumes inv: "fork_inv s0 c e envid A B k w i fl s"
    and no: "\<And>a. a < UTOP \<Longrightarrow> pg a = i \<Longrightarrow> i = 0xEEBFF \<or> vmap s0 A a AND PTE_P = 0"
  shows "fork_inv s0 c e envid A B k w (Suc i) fl s"
proof -
  have "dup_parent (vmap s0 A) (Suc i) a = dup_parent (vmap s0 A) i a"
    "dup_child (vmap s0 A) w (Suc i) a = dup_child (vmap s0 A) w i a" if "a < UTOP" for a
    using no [OF that] by (auto simp: dup_parent_def dup_child_def less_Suc_eq)
  thus ?thesis using inv unfolding fork_inv_def by simp
qed

lemma fork_loop_ok:
  assumes "fork_inv s0 c e envid A B k w i fl s" "fork_pages s0 A" "unat x = 4096 * i" "i \<le> 0xEEC00" "0xEEC00 < n + i"
  shows "\<exists>t fl'. fork_loop n envid x s = Done () t \<and> fork_inv s0 c e envid A B k w 0xEEC00 fl' t"
  using assms(1,3-5)
proof (induction n arbitrary: i x fl s)
  case 0 thus ?case by simp
next
  case (Suc n)
  show ?case
  proof (cases "i < 0xEEC00")
    case False
    hence i: "i = 0xEEC00" using Suc.prems(3) by simp
    hence "\<not> x < UTOP" using Suc.prems(2) by (simp add: word_less_nat_alt)
    thus ?thesis using Suc.prems(1) i by auto
  next
    case True
    have xl: "x < UTOP" using Suc.prems(2) True by (simp add: word_less_nat_alt)
    have nx: "unat (x + PGSIZE) = 4096 * Suc i" using Suc.prems(2) True by (simp add: unat_word_ariths)
    have px: "pg x = i" using Suc.prems(2) by (simp add: pg_def)
    note IH = Suc.IH [OF _ nx]
    have go: "Suc i \<le> 0xEEC00" "0xEEC00 < n + Suc i" using True Suc.prems(4) by simp_all
    have ux: "UXSTACKTOP - PGSIZE \<le> x \<and> x < UXSTACKTOP \<longleftrightarrow> i = 0xEEBFF"
      using Suc.prems(2) by (auto simp: word_le_nat_alt word_less_nat_alt)
    have F: "cur_pgdir s = A" "self_map s A" "pde_flags s A"
      using Suc.prems(1) by (simp_all add: fork_inv_def forking_def)
    have same: "vmap s0 A a = vmap s0 A x" if "pg a = i" for a
      by (rule vmap_same_page) (use that px in \<open>simp add: pg_eq\<close>)
    have "vmap s A x = vmap s0 A x"
      using Suc.prems(1) xl px by (simp add: fork_inv_def dup_parent_def)
    hence m: "mapped x s = Done (vmap s0 A x AND PTE_P \<noteq> 0) s" using mapped_user [OF F xl] by simp
    show ?thesis
    proof (cases "i \<noteq> 0xEEBFF \<and> vmap s0 A x AND PTE_P \<noteq> 0")
      case False
      have "fork_inv s0 c e envid A B k w (Suc i) fl s"
        by (rule fork_inv_skip [OF Suc.prems(1)]) (use same False in auto)
      from IH [OF this go] show ?thesis using xl ux m False by auto
    next
      case T: True
      obtain u fl1 where u: "duppage envid (PGNUM x) s = Done () u" "fork_inv s0 c e envid A B k w (Suc i) fl1 u"
        using fork_inv_step [OF Suc.prems(1) assms(2) Suc.prems(2) True] T by blast
      have f: "fork_loop (Suc n) envid x s = fork_loop n envid (x + PGSIZE) u" using xl ux m T u(1) by simp
      show ?thesis unfolding f by (rule IH [OF u(2) go])
    qed
  qed
qed

end
