(* ===== verification/ForkProps.thy ===== *)
theory ForkProps
  imports ForkSpec
begin

text \<open>
  The address space that \<^verbatim>\<open>env_setup_vm\<close> makes for the child, what \<^verbatim>\<open>fork\<close> returns, and what its page fault
  handler does.
\<close>

section \<open>The child's address space\<close>

lemma pair_inv_mem:
  assumes "pmem t = pmem s" "pages t = pages s" "page_free_list t = page_free_list s" "npages t = npages s"
  shows "pair_inv t A B fl k = pair_inv s A B fl k"
proof -
  have pt: "pt_frame t g = pt_frame s g" for g using assms by (intro ext) (simp add: pt_frame_def)
  have vm: "vmap t g = vmap s g" for g using assms by (intro ext) (simp add: vmap_def pt)
  have m: "maps t g = maps s g" for g by (intro ext) (simp add: maps_def vm)
  have "page_ok t g f = page_ok s g f" for g f using assms by (intro ext) (simp add: page_ok_def pt)
  moreover have "refs t g k = refs s g k" for g by (intro ext) (simp add: refs_def m)
  ultimately show ?thesis using assms
    by (simp add: pair_inv_def as_inv_def vm_wf_def rc_inv_def page_rep_def vm_frames_def pt vm m)
qed

lemma page_rep_mem:
  assumes "pages t = pages s" "page_free_list t = page_free_list s" "npages t = npages s"
  shows "page_rep t fl = page_rep s fl"
  using assms by (simp add: page_rep_def)

lemma page_incref_rep:
  assumes "page_rep s fl" "p \<notin> set fl" shows "page_rep (page_incref p s) fl"
proof -
  have l: "pp_link (pages (page_incref p s) q) = pp_link (pages s q)" for q
    by (simp add: page_incref_def pages_upd_page)
  have r: "pp_ref (pages (page_incref p s) q) = pp_ref (pages s q)" if "q \<in> set fl" for q
    using that assms(2) by (auto simp: page_incref_def pages_upd_page)
  have o: "page_free_list (page_incref p s) = page_free_list s" "npages (page_incref p s) = npages s"
    by (simp_all add: page_incref_def upd_page_def)
  show ?thesis using assms(1) by (simp add: page_rep_def l r o)
qed

lemma frame_kernel:
  assumes "F < 0x10000"
  shows "frame_addr F 0 - KERNBASE = page2pa F" "\<not> frame_addr F 0 < KERNBASE" "page2pa F + KERNBASE = frame_addr F 0"
proof -
  have u: "unat (push_bit 12 F) = unat F * 4096" using assms by (simp add: push_bit_eq_mult unat_word_ariths word_less_nat_alt)
  have "unat (frame_addr F 0) = unat F * 4096 + 0xF0000000"
    using assms u by (simp add: frame_addr_def unat_word_ariths word_less_nat_alt)
  thus "\<not> frame_addr F 0 < KERNBASE" by (simp add: word_less_nat_alt)
qed (simp_all add: frame_addr_def page2pa_def)

definition self_pde :: "u32 \<Rightarrow> u32" where
  "self_pde p = (page2pa p OR PTE_P OR PTE_U)"

lemma env_setup_vm_new:
  assumes rep: "page_rep s (p # fl)" and kern: "pd_frame (kern_pgdir s) \<noteq> p"
  shows "\<exists>t. env_setup_vm e s = Done 0 t \<and> page_rep t fl \<and>
    pmem t = (pmem s)(p := (pmem s (pd_frame (kern_pgdir s)))(0x3BD := self_pde p)) \<and>
    (\<forall>q. pp_ref (pages t q) = pp_ref (pages s q) + (if q = p then 1 else 0)) \<and>
    envs t = (envs s)(e := (envs s e)\<lparr>env_pgdir := frame_addr p 0\<rparr>) \<and>
    npages t = npages s \<and> curenv t = curenv s \<and> cur_pgdir t = cur_pgdir s \<and> env_free_list t = env_free_list s \<and>
    kern_pgdir t = kern_pgdir s"
proof -
  have p: "p < npages s" "npages s \<le> 0x10000" and d: "p \<notin> set fl"
    using rep page_rep_distinct [OF rep] by (auto simp: page_rep_def)
  hence p16: "p < 0x10000" by (simp add: word_less_nat_alt word_le_nat_alt)
  hence p20: "p < 0x100000" by (simp add: word_less_nat_alt)
  let ?u = "after_alloc ALLOC_ZERO p s"
  let ?v = "upd_env e (\<lambda>v. v\<lparr>env_pgdir := frame_addr p 0\<rparr>) (page_incref p ?u)"
  let ?w = "copy_page (frame_addr p 0) (kern_pgdir ?v) ?v"
  let ?t = "store32 (frame_addr p 0x3BD) (self_pde p) ?w"
  have U: "PDX 0xEF400000 = 0x3BD" by (simp add: PDX_def)
  have a: "frame_addr p 0 + 0xEF4 = frame_addr p 0x3BD" using frame_addr_pgdir [where F = p and i = "0x3BD"] by simp
  have k: "page2kva p (page_incref p ?u) = Done (frame_addr p 0) (page_incref p ?u)"
    using p p20 frame_kernel(3) [OF p16]
    by (simp add: page2kva_def KADDR_def page_incref_def upd_page_def not_le [symmetric])
  have pa: "PADDR (frame_addr p 0) x = Done (page2pa p) x" for x
    using frame_kernel(1,2) [OF p16] by (simp add: PADDR_def)
  have run: "env_setup_vm e s = Done 0 ?t"
    using page_alloc_cons [OF rep, of ALLOC_ZERO] k
    by (simp add: env_setup_vm_def Let_def pa U a self_pde_def del: PTE_P_def PTE_U_def)
  have kg: "kern_pgdir ?v = kern_pgdir s" by (simp add: page_incref_def upd_page_def upd_env_def)
  have pmv: "pmem ?v f = (if f = p then (\<lambda>_. 0) else pmem s f)" for f
    by (simp add: page_incref_def upd_page_def after_alloc_def Let_def)
  have pd: "pd_frame (frame_addr p 0) = p" using p20 by simp
  have pm: "pmem ?t = (pmem s)(p := (pmem s (pd_frame (kern_pgdir s)))(0x3BD := self_pde p))"
  proof
    fix f
    have "pmem ?w f = (if f = p then pmem s (pd_frame (kern_pgdir s)) else pmem s f)"
      using pmv kern pd unfolding copy_page_def kg by (simp add: pd_frame_def)
    moreover have "pmem ?w p = pmem s (pd_frame (kern_pgdir s))"
      using pmv kern pd unfolding copy_page_def kg by (simp add: pd_frame_def)
    ultimately show "pmem ?t f = ((pmem s)(p := (pmem s (pd_frame (kern_pgdir s)))(0x3BD := self_pde p))) f"
      using p20 by simp
  qed
  have rep': "page_rep ?t fl"
  proof -
    have "page_rep (page_incref p ?u) fl" by (rule page_incref_rep [OF after_alloc_rep(1) [OF rep] d])
    thus ?thesis by (simp add: page_rep_def copy_page_def store32_def Let_def upd_env_def)
  qed
  show ?thesis
    by (intro exI [of _ ?t] conjI run rep' pm)
       (auto simp: copy_page_def store32_def Let_def upd_env_def page_incref_def upd_page_def after_alloc_def
         curenv_def cur_pgdir_def)
qed

text \<open>The kernel's directory has nothing in the user part and the same page tables as the address spaces
  above it.\<close>

definition kern_slots :: "kst \<Rightarrow> u32 \<Rightarrow> bool" where
  "kern_slots s A \<longleftrightarrow> (\<forall>d < user_slots. pmem s (pd_frame (kern_pgdir s)) d = 0) \<and>
     (\<forall>d < 0x400. user_slots \<le> d \<longrightarrow> d \<noteq> 0x3BD \<longrightarrow> pt_frame s (kern_pgdir s) d = pt_frame s A d)"

lemma self_pde_frame: "p < 0x100000 \<Longrightarrow> PGNUM (self_pde p) = p"
  using PGNUM_entry [of 5 p] by (simp add: self_pde_def or.assoc)

lemma pair_new:
  assumes inv: "as_inv s A (p # fl) k" and ks: "kern_slots s A" and sm: "self_map s A"
    and kf: "pd_frame (kern_pgdir s) \<noteq> p"
    and rep: "page_rep t fl" and np: "npages t = npages s"
    and pm: "pmem t = (pmem s)(p := (pmem s (pd_frame (kern_pgdir s)))(0x3BD := self_pde p))"
    and rf: "\<forall>q. pp_ref (pages t q) = pp_ref (pages s q) + (if q = p then 1 else 0)"
  shows "pair_inv t A (frame_addr p 0) fl k" "\<And>a. a < UTOP \<Longrightarrow> vmap t (frame_addr p 0) a = 0"
    "\<And>a. vmap t A a = vmap s A a" "\<And>d. pt_frame t A d = pt_frame s A d" "pmem t (pd_frame A) = pmem s (pd_frame A)"
    "\<And>d. d < user_slots \<Longrightarrow> pt_frame t (frame_addr p 0) d = 0"
proof -
  let ?B = "frame_addr p 0"
  have wf: "vm_wf s A (p # fl)" and rc: "rc_inv s A k" and reps: "page_rep s (p # fl)" using inv by (simp_all add: as_inv_def)
  have p: "p < npages s" "npages s \<le> 0x10000" "pp_ref (pages s p) = 0" "p \<noteq> 0" and d: "p \<notin> set fl"
    using reps page_rep_distinct [OF reps] by (auto simp: page_rep_def)
  have p20: "p < 0x100000" using p by (simp add: word_less_nat_alt word_le_nat_alt)
  have pdB: "pd_frame ?B = p" using p20 by simp
  have pdA: "pd_frame A \<noteq> p" "pd_frame A \<notin> set fl" using vm_wf_pgdir(5) [OF wf] by auto
  have s4: "d < 0x400" if "d < user_slots" for d using that by (simp add: word_less_nat_alt)
  have off: "\<forall>d < 0x400. pt_frame s A d \<notin> set (p # fl)" using wf unfolding vm_wf_def by blast
  show pA: "pmem t (pd_frame A) = pmem s (pd_frame A)" using pm pdA by simp
  show ptA: "pt_frame t A d = pt_frame s A d" for d using pA by (simp add: pt_frame_def)
  show vA: "vmap t A a = vmap s A a" for a
  proof -
    have "pt_frame s A (PDX a) \<noteq> p" using off PDX_less [of a] by auto
    thus ?thesis using pm ptA by (simp add: vmap_def)
  qed
  have ptB: "pt_frame t ?B d = (if d = 0x3BD then p else pt_frame s (kern_pgdir s) d)" for d
    using pm self_pde_frame [OF p20] unfolding pt_frame_def pdB by simp
  show userB: "pt_frame t ?B d = 0" if "d < user_slots" for d
    using ks that unfolding ptB kern_slots_def by (auto simp: pt_frame_def PGNUM_def)
  show vB: "vmap t ?B a = 0" if "a < UTOP" for a using userB PDX_user [OF that] by (simp add: vmap_def)
  have U: "PDX 0xEF400000 = 0x3BD" by (simp add: PDX_def)
  have kerB: "pt_frame t ?B d = (if d = 0x3BD then p else pt_frame s A d)" if "d < 0x400" "user_slots \<le> d" for d
    using ks that unfolding ptB kern_slots_def by auto
  have selfA: "pt_frame s A 0x3BD = pd_frame A" using sm U by (simp add: self_map_def)
  have mA: "maps t A q = maps s A q" for q by (simp add: maps_def vA)
  have mB: "maps t ?B q = {}" for q using vB by (auto simp: maps_def)
  have refs_ge: "unat (pp_ref (pages s q)) \<le> unat (pp_ref (pages t q))" for q using rf p(3) by simp
  have rcA: "rc_inv t A (refs t ?B k)" "rc_inv t ?B (refs t A k)"
    using rc refs_ge unfolding rc_inv_def refs_def mA mB by (auto intro: order_trans)
  have okA: "page_ok t A fl q \<and> page_ok t ?B fl q" if "page_ok s A (p # fl) q" for q
  proof -
    have q: "q \<noteq> 0" "q < npages s" "q \<noteq> p" "q \<notin> set fl" "q \<noteq> pd_frame A" "\<And>d. d < 0x400 \<Longrightarrow> q \<noteq> pt_frame s A d"
      using that unfolding page_ok_def by auto
    have "q \<noteq> pt_frame t ?B d" if "d < 0x400" for d
      using kerB [OF that] userB [of d] q that by (cases "d < user_slots") auto
    thus ?thesis using q np ptA pdB by (simp add: page_ok_def)
  qed
  have mapped: "page_ok t A fl (PGNUM (vmap t A a)) \<and> page_ok t ?B fl (PGNUM (vmap t A a))"
    if "a < UTOP" "vmap t A a AND PTE_P \<noteq> 0" for a
    using okA vm_wf_mapped [OF wf that(1)] that(2) unfolding vA by blast
  have wfA: "vm_wf t A fl"
    unfolding vm_wf_def
  proof (intro conjI allI impI)
    fix a assume "a < UTOP" "vmap t A a AND PTE_P \<noteq> 0" thus "page_ok t A fl (PGNUM (vmap t A a))" using mapped by blast
  qed (use wf np ptA in \<open>simp_all add: vm_wf_def\<close>)
  have offB: "pt_frame t ?B d \<notin> set fl" if "d < 0x400" for d
  proof (cases "d < user_slots")
    case True thus ?thesis using userB rep by (auto simp: page_rep_def)
  next
    case False thus ?thesis using kerB [OF that] off that d by auto
  qed
  have wfB: "vm_wf t ?B fl"
    unfolding vm_wf_def
    by (intro conjI allI impI) (use np p d pdB userB offB vB in \<open>simp_all\<close>)
  have "vm_frames t ?B = {p}" using userB by (auto simp: vm_frames_def pdB)
  moreover have "vm_frames t A = vm_frames s A" by (simp add: vm_frames_def ptA)
  ultimately have dis: "vm_frames t A \<inter> vm_frames t ?B = {}" using vm_frames_not_free [OF wf, of p] by simp
  show "pair_inv t A ?B fl k"
    unfolding pair_inv_def
  proof (intro conjI allI impI)
    fix dd :: u32 assume dd: "dd < 0x400" "user_slots \<le> dd"
    show "pt_frame t A dd = pt_frame t ?B dd \<or> pt_frame t A dd = pd_frame A \<and> pt_frame t ?B dd = pd_frame ?B"
      using kerB [OF dd] ptA selfA pdB by auto
  qed (use wfA wfB rep rcA dis mapped vB in \<open>simp_all add: as_inv_def\<close>)
qed

lemma pair_alloc:
  assumes inv: "pair_inv s A B (p # fl) k"
  shows "pair_inv (after_alloc flags p s) A B fl k" "page_ok (after_alloc flags p s) A fl p"
    "page_ok (after_alloc flags p s) B fl p"
    "\<And>a. vmap (after_alloc flags p s) A a = vmap s A a" "\<And>a. vmap (after_alloc flags p s) B a = vmap s B a"
    "\<And>d. pt_frame (after_alloc flags p s) A d = pt_frame s A d"
    "\<And>d. pt_frame (after_alloc flags p s) B d = pt_frame s B d"
proof -
  let ?t = "after_alloc flags p s"
  have I: "as_inv s A (p # fl) (refs s B k)" "as_inv s B (p # fl) (refs s A k)"
    using inv by (simp_all add: pair_inv_def)
  hence wf: "vm_wf s A (p # fl)" "vm_wf s B (p # fl)" by (simp_all add: as_inv_def)
  show v: "vmap ?t A a = vmap s A a" "vmap ?t B a = vmap s B a" for a
    by (rule vmap_off_frame(2) [OF wf(1)], rule vmap_off_frame(2) [OF wf(2)])
  show f: "pt_frame ?t A d = pt_frame s A d" "pt_frame ?t B d = pt_frame s B d" for d
    by (rule vmap_off_frame(1) [OF wf(1)], rule vmap_off_frame(1) [OF wf(2)])
  show "page_ok ?t A fl p" "page_ok ?t B fl p"
    by (rule after_alloc_inv(2) [OF I(1)], rule after_alloc_inv(2) [OF I(2)])
  have r: "refs ?t A k = refs s A k" "refs ?t B k = refs s B k" by (simp_all add: refs_def maps_def v fun_eq_iff)
  have ok: "page_ok ?t g fl q" if "page_ok s g (p # fl) q" "\<And>d. pt_frame ?t g d = pt_frame s g d" for g q
    using that by (simp add: page_ok_def)
  show "pair_inv ?t A B fl k"
    using inv after_alloc_inv(1) [OF I(1), of flags] after_alloc_inv(1) [OF I(2), of flags]
    unfolding pair_inv_def vm_frames_def by (simp add: v f r ok)
qed

section \<open>The system calls before the loop\<close>

text \<open>The caller \<open>c\<close> runs on \<open>A\<close>, the slot \<open>e\<close> is the next free one, and there is a page for the child's
  directory, for its exception stack and for each page table it will need.\<close>

definition fork_ready :: "kst \<Rightarrow> nat \<Rightarrow> nat \<Rightarrow> u32 \<Rightarrow> u32 list \<Rightarrow> (u32 \<Rightarrow> nat) \<Rightarrow> bool" where
  "fork_ready s c e A fl k \<longleftrightarrow> curenv s = Some c \<and> env_pgdir (envs s c) = A \<and> cur_pgdir s = A \<and> self_map s A \<and>
     pde_flags s A \<and> as_inv s A fl k \<and> kern_slots s A \<and> pd_frame (kern_pgdir s) \<notin> set fl \<and> fork_pages s A \<and>
     env_free_list s = Some e \<and> e < NENV \<and> e \<noteq> c \<and> unat (env_id (envs s e)) < 2147483648 \<and>
     card {d. d < user_slots \<and> wants s A d} + 2 \<le> length fl"

definition fork_tf :: "Trapframe \<Rightarrow> Trapframe" where
  "fork_tf tf = tf\<lparr>tf_regs := (tf_regs tf)\<lparr>reg_eax := 0\<rparr>\<rparr>"

lemma exofork_forking:
  assumes r: "fork_ready s c e A fl k"
  shows "\<exists>p fl' t. fl = p # fl' \<and> u_sys_exofork s = Done (env_id (envs t e)) t \<and> 0 < sint (env_id (envs t e)) \<and>
    forking t c e (env_id (envs t e)) A (frame_addr p 0) fl' k \<and> fl' \<noteq> [] \<and>
    lacking t A (frame_addr p 0) + 1 \<le> length fl' \<and>
    (\<forall>a < UTOP. vmap t (frame_addr p 0) a = 0) \<and> vmap t A = vmap s A \<and>
    (\<forall>f. f \<noteq> p \<longrightarrow> pmem t f = pmem s f) \<and> (\<forall>q. q \<noteq> p \<longrightarrow> pp_ref (pages t q) = pp_ref (pages s q)) \<and>
    env_tf (envs t e) = fork_tf (env_tf (envs s c)) \<and> env_status (envs t e) = ENV_NOT_RUNNABLE"
proof -
  have R: "curenv s = Some c" "env_pgdir (envs s c) = A" "cur_pgdir s = A" "self_map s A" "pde_flags s A"
    "as_inv s A fl k" "kern_slots s A" "pd_frame (kern_pgdir s) \<notin> set fl" "env_free_list s = Some e"
    "e < NENV" "e \<noteq> c" "unat (env_id (envs s e)) < 2147483648" "card {d. d < user_slots \<and> wants s A d} + 2 \<le> length fl"
    using r by (simp_all add: fork_ready_def)
  obtain p fl' where fl: "fl = p # fl'" using R(13) by (cases fl) auto
  let ?B = "frame_addr p 0"
  have rep: "page_rep s (p # fl')" using R(6) fl by (simp add: as_inv_def)
  have kf: "pd_frame (kern_pgdir s) \<noteq> p" using R(8) fl by auto
  obtain u where u: "env_setup_vm e s = Done 0 u" "page_rep u fl'"
    "pmem u = (pmem s)(p := (pmem s (pd_frame (kern_pgdir s)))(0x3BD := self_pde p))"
    "\<forall>q. pp_ref (pages u q) = pp_ref (pages s q) + (if q = p then 1 else 0)"
    "envs u = (envs s)(e := (envs s e)\<lparr>env_pgdir := ?B\<rparr>)"
    "npages u = npages s" "curenv u = curenv s" "cur_pgdir u = cur_pgdir s" "env_free_list u = env_free_list s"
    using env_setup_vm_new [OF rep kf] by blast
  define id where "id = new_env_id (env_id (envs s e)) e"
  have n: "0 < sint id" "env_index id = e" using new_env_id_props [OF R(12), of e] R(10) by (simp_all add: id_def)
  have n0: "id \<noteq> 0" using n(1) by auto
  define v where "v = (envs s e)\<lparr>env_pgdir := ?B, env_id := id, env_parent_id := env_id (envs s c),
      env_type := ENV_TYPE_USER, env_runs := 0, env_pgfault_upcall := 0, env_ipc_recving := False,
      env_status := ENV_NOT_RUNNABLE, env_tf := fork_tf (env_tf (envs s c))\<rparr>"
  define t where "t = u\<lparr>env_free_list := env_link (envs s e), envs := (envs s)(e := v)\<rparr>"
  have run: "sys_exofork s = Done id t"
    using R(1,9,11) u(1,5)
    by (simp add: sys_exofork_def with_curenv_def env_alloc_def Let_def t_def v_def id_def upd_env_def env_list_pop_def
        fork_tf_def)
  have tm: "pmem t = pmem u" "pages t = pages u" "page_free_list t = page_free_list u" "npages t = npages u"
    by (simp_all add: t_def)
  have te: "envs t = (envs s)(e := v)" and tc: "curenv t = curenv s" "cur_pgdir t = cur_pgdir s"
    using u(7,8) by (simp_all add: t_def curenv_def cur_pgdir_def)
  have ide: "env_id (envs t e) = id" "env_pgdir (envs t e) = ?B" "env_status (envs t e) = ENV_NOT_RUNNABLE"
    "env_parent_id (envs t e) = env_id (envs s c)" "env_tf (envs t e) = fork_tf (env_tf (envs s c))"
    using te by (simp_all add: v_def)
  have cc: "envs t c = envs s c" using te R(11) by simp
  have rept: "page_rep t fl'" using u(2) page_rep_mem [OF tm(2-4)] by simp
  have tp: "npages t = npages s"
    "pmem t = (pmem s)(p := (pmem s (pd_frame (kern_pgdir s)))(0x3BD := self_pde p))"
    "\<forall>q. pp_ref (pages t q) = pp_ref (pages s q) + (if q = p then 1 else 0)"
    using tm u(3,4,6) by simp_all
  note P = pair_new [OF R(6) [unfolded fl] R(7,4) kf rept tp]
  have env: "envid2env id True t = Done (Inr (Some e)) t"
    using n0 n(2) ide tc R(1) cc by (simp add: envid2env_def Let_def)
  have lack: "lacking t A ?B + 1 \<le> length fl'"
  proof -
    have "{d. d < user_slots \<and> wants t A d \<and> pt_frame t ?B d = 0} = {d. d < user_slots \<and> wants s A d}"
      using P(4,6) by (auto simp: wants_def)
    thus ?thesis using R(13) fl unfolding lacking_def by simp
  qed
  have "self_map t A" "pde_flags t A" using R(4,5) P(4,5) by (simp_all add: self_map_def pde_flags_def)
  hence fk: "forking t c e id A ?B fl' k"
    using R(1,2,3) tc cc ide(2) P(1) env lack by (simp add: forking_def)
  have call: "u_sys_exofork s = Done id t" using run by (simp add: u_sys_exofork_def usyscall_def syscall_def)
  have vA: "vmap t A = vmap s A" using P(3) by (intro ext) simp
  show ?thesis using fl call n(1) fk lack P(2) vA ide u(3,4) tm
    by (intro exI [of _ p] exI [of _ fl'] exI [of _ t]) auto
qed

lemma child_stack:
  assumes f: "forking s c e envid A B (q # fl) k" and l: "lacking s A B \<le> length fl"
    and B: "\<And>a. a < UTOP \<Longrightarrow> vmap s B a = 0"
  shows "\<exists>t fl'. u_sys_page_alloc envid 0xEEBFF000 7 s = Done 0 t \<and> forking t c e envid A B fl' k \<and> vm_only s t \<and>
    (\<forall>a < UTOP. vmap t B a = (if PGNUM a = 0xEEBFF then page2pa q OR 7 else 0)) \<and>
    (\<forall>a < UTOP. vmap t A a = vmap s A a) \<and> (\<forall>i. pmem t q i = 0) \<and>
    (\<forall>f. f \<notin> vm_frames s B \<longrightarrow> f \<notin> set (q # fl) \<longrightarrow> pmem t f = pmem s f) \<and>
    (\<forall>x. x \<notin> set (q # fl) \<longrightarrow> pp_ref (pages t x) = pp_ref (pages s x))"
proof -
  have F: "curenv s = Some c" "env_pgdir (envs s c) = A" "env_pgdir (envs s e) = B" "cur_pgdir s = A"
    "self_map s A" "pde_flags s A" "pair_inv s A B (q # fl) k" "envid2env envid True s = Done (Inr (Some e)) s"
    using f by (simp_all add: forking_def)
  have rep: "page_rep s (q # fl)" and wfA: "vm_wf s A (q # fl)" and wfB: "vm_wf s B (q # fl)"
    using F(7) by (simp_all add: pair_inv_def as_inv_def)
  have q: "pp_ref (pages s q) = 0" "q \<notin> set fl" using rep page_rep_distinct [OF rep] by (auto simp: page_rep_def)
  let ?u = "after_alloc 7 q s"
  note P = pair_alloc [OF F(7), of 7]
  have vo: "vm_only s ?u" by (simp add: vm_only_def rest_def after_alloc_def Let_def upd_page_def)
  note V = vm_onlyD [OF vo]
  have pd: "pmem ?u f = pmem s f" if "f \<noteq> q" for f using that by (simp add: after_alloc_def Let_def)
  have "pd_frame A \<noteq> q" using vm_wf_pgdir(5) [OF wfA] by auto
  hence sm: "self_map ?u A" "pde_flags ?u A"
    using F(5,6) pd [of "pd_frame A"] P(6) by (simp_all add: self_map_def pde_flags_def)
  have fk: "forking ?u c e envid A B fl k"
    using F(1-4) V sm P(1) l lacking_cong [of ?u A s B, OF P(6,7)] envid2env_vm_only [OF vo F(8)]
    by (simp add: forking_def)
  have va: "(0xEEBFF000 :: u32) < UTOP" and X: "PDX 0xEEBFF000 = 0x3BA" "PGNUM 0xEEBFF000 = 0xEEBFF"
    by (simp_all add: PDX_def PGNUM_def)
  have "pp_ref (pages ?u q) \<noteq> 0xFFFF" "vmap ?u B 0xEEBFF000 AND PTE_P = 0" "wants ?u A (PDX 0xEEBFF000)"
    using q(1) P(5) B [OF va] X by (simp_all add: wants_def)
  then obtain t fl' where t: "page_insert B q 0xEEBFF000 7 ?u = Done 0 t" "forking t c e envid A B fl' k" "vm_only ?u t"
    "\<forall>a < UTOP. vmap t B a = (if PGNUM a = PGNUM 0xEEBFF000 then page2pa q OR 7 OR PTE_P else vmap ?u B a)"
    "\<forall>a < UTOP. vmap t A a = vmap ?u A a" "vm_frames t A = vm_frames ?u A"
    "\<forall>f. f \<notin> vm_frames ?u B \<longrightarrow> f \<notin> set fl \<longrightarrow> pmem t f = pmem ?u f"
    "\<forall>x. x \<notin> set fl \<longrightarrow> pp_ref (pages t x) = pp_ref (pages ?u x) + (if x = q then 1 else 0)" "set fl' \<subseteq> set fl"
    using pair_insert_forking [OF fk va P(2,3), of 7] by auto
  have fr: "vm_frames ?u B = vm_frames s B" by (simp add: vm_frames_def P(7))
  have qf: "q \<notin> vm_frames s B" using vm_frames_not_free [OF wfB] by simp
  have pr: "\<not> bad_perm 7" "\<not> bad_user_va 0xEEBFF000" by (simp_all add: bad_perm_def bad_user_va_def PTE_SYSCALL_def PGOFF_def)
  have run: "u_sys_page_alloc envid 0xEEBFF000 7 s = Done 0 t"
    using pr F(3,8) V(4) t(1) page_alloc_cons [OF rep, of 7]
    by (simp add: u_sys_page_alloc_def usyscall_def syscall_def sys_page_alloc_def)
  have P7: "x OR 7 OR 1 = (x OR 7 :: u32)" for x by (simp add: or.assoc)
  have z: "pmem ?u q i = 0" for i by (simp add: after_alloc_def Let_def)
  have "\<forall>a < UTOP. vmap t B a = (if PGNUM a = 0xEEBFF then page2pa q OR 7 else 0)"
    using t(4) P(5) B X P7 by simp
  moreover have "\<forall>i. pmem t q i = 0" using t(7) fr qf q(2) z by simp
  ultimately show ?thesis using run t(2,5,7,8) vm_only_trans [OF vo t(3)] P(4) fr pd
    by (intro exI [of _ t] exI [of _ fl'] conjI) auto
qed

section \<open>Who may write\<close>

lemma entry_with_W: "entry_with x perm AND PTE_W = perm AND PTE_W"
proof -
  have z: "push_bit n f AND mask m = (0 :: u32)" if "m \<le> n" for n m :: nat and f
    by (rule bit_word_eqI) (use that in \<open>auto simp: bit_simps\<close>)
  have a: "page2pa (PGNUM x) AND 2 = (page2pa (PGNUM x) AND 3) AND 2" by (simp add: and.assoc)
  have b: "page2pa (PGNUM x) AND 3 = 0" using z [of 2 12 "PGNUM x"] by (simp add: page2pa_def mask_eq_exp_minus_1)
  have "page2pa (PGNUM x) AND 2 = 0" by (subst a, subst b) simp
  thus ?thesis by (simp add: entry_with_def bit.conj_disj_distrib2)
qed

text \<open>Only a page marked shared stays writable.\<close>

lemma pte_writable:
  "child_pte x AND PTE_W \<noteq> 0 \<Longrightarrow> x AND PTE_SHARE \<noteq> 0" "parent_pte x AND PTE_W \<noteq> 0 \<Longrightarrow> x AND PTE_SHARE \<noteq> 0"
  unfolding child_pte_def parent_pte_def using entry_with_W [of x]
  by (auto simp: cow_perm_def split: if_splits)

section \<open>What fork returns\<close>

lemma upd_env_mem:
  "pmem (upd_env e f s) = pmem s" "pages (upd_env e f s) = pages s" "page_free_list (upd_env e f s) = page_free_list s"
  "npages (upd_env e f s) = npages s" "curenv (upd_env e f s) = curenv s" "cur_pgdir (upd_env e f s) = cur_pgdir s"
  "pt_frame (upd_env e f s) g d = pt_frame s g d" "vmap (upd_env e f s) g a = vmap s g a"
  by (simp_all add: upd_env_def curenv_def cur_pgdir_def pt_frame_def vmap_def)

lemma forking_upd:
  assumes f: "forking s c e envid A B fl k" and ce: "c \<noteq> e"
    and k: "env_pgdir (f (envs s e)) = env_pgdir (envs s e)" "env_id (f (envs s e)) = env_id (envs s e)"
      "env_parent_id (f (envs s e)) = env_parent_id (envs s e)" "env_status (f (envs s e)) \<noteq> ENV_FREE"
  shows "forking (upd_env e f s) c e envid A B fl k"
proof -
  have "envid2env envid True (upd_env e f s) = Done (Inr (Some e)) (upd_env e f s)"
    using f ce k unfolding forking_def envid2env_def Let_def
    by (auto simp: upd_env_mem(5) envs_upd_env split: if_splits option.splits)
  moreover have "lacking (upd_env e f s) A B = lacking s A B" by (rule lacking_cong) (rule upd_env_mem)+
  ultimately show ?thesis
    using f ce k(1) pair_inv_mem [of "upd_env e f s" s A B fl k]
    by (simp add: forking_def upd_env_mem envs_upd_env self_map_def pde_flags_def)
qed

lemma forking_envs:
  assumes "forking s c e envid A B fl k" "envid \<noteq> 0"
  shows "env_status (envs s e) \<noteq> ENV_FREE"
  using assms by (auto simp: forking_def envid2env_def Let_def split: if_splits option.splits)

lemma fork_pages_cong:
  assumes "fork_pages s A" "\<And>a. a < UTOP \<Longrightarrow> vmap t A a = vmap s A a"
    and "\<And>a. a < UTOP \<Longrightarrow> vmap s A a AND PTE_P \<noteq> 0 \<Longrightarrow>
      pp_ref (pages t (PGNUM (vmap s A a))) = pp_ref (pages s (PGNUM (vmap s A a)))"
  shows "fork_pages t A"
proof -
  have "maps t A p = maps s A p" for p using assms(2) by (auto simp: maps_def)
  thus ?thesis using assms unfolding fork_pages_def by simp
qed

lemma fork_inv_start:
  assumes f: "forking s c e envid A B fl k"
    and B: "\<And>a. a < UTOP \<Longrightarrow> vmap s B a = (if PGNUM a = 0xEEBFF then w else 0)"
  shows "fork_inv s c e envid A B k w 0 fl s"
proof -
  have "pg a = 0xEEBFF \<longleftrightarrow> PGNUM a = 0xEEBFF" for a
    by (simp add: word_unat_eq_iff unat_PGNUM pg_def)
  thus ?thesis using f B by (simp add: fork_inv_def dup_parent_def dup_child_def)
qed

text \<open>A page of \<open>s\<close> as \<open>t\<close> has it: the parent's entry, the child's entry and the contents.\<close>

definition passed_on :: "kst \<Rightarrow> kst \<Rightarrow> u32 \<Rightarrow> u32 \<Rightarrow> u32 \<Rightarrow> bool" where
  "passed_on s t A B a \<longleftrightarrow>
    (if vmap s A a AND PTE_P = 0 then vmap t A a = vmap s A a \<and> vmap t B a = 0
     else vmap t A a = parent_pte (vmap s A a) \<and> vmap t B a = child_pte (vmap s A a) \<and>
       pmem t (PGNUM (vmap s A a)) = pmem s (PGNUM (vmap s A a)))"

lemma fork_ok:
  assumes h: "set_pgfault_handler thisenv upcall old h s0 = Done h s" and r: "fork_ready s c e A fl k"
  shows "\<exists>t B q envid fl'. fork thisenv upcall old h s0 = Done (envid, thisenv, h) t \<and>
    0 < sint envid \<and> forking t c e envid A B fl' k \<and>
    env_status (envs t e) = ENV_RUNNABLE \<and> env_pgfault_upcall (envs t e) = upcall \<and>
    env_tf (envs t e) = fork_tf (env_tf (envs s c)) \<and>
    (\<forall>a < UTOP. PGNUM a \<noteq> 0xEEBFF \<longrightarrow> passed_on s t A B a) \<and>
    (\<forall>a < UTOP. PGNUM a = 0xEEBFF \<longrightarrow> vmap t A a = vmap s A a \<and> vmap t B a = page2pa q OR 7) \<and>
    (\<forall>i. pmem t q i = 0) \<and> maps t A q = {}"
proof -
  obtain p fl1 t1 where fl: "fl = p # fl1" and t1: "u_sys_exofork s = Done (env_id (envs t1 e)) t1" "0 < sint (env_id (envs t1 e))"
    "forking t1 c e (env_id (envs t1 e)) A (frame_addr p 0) fl1 k" "fl1 \<noteq> []" "lacking t1 A (frame_addr p 0) + 1 \<le> length fl1"
    "\<forall>a < UTOP. vmap t1 (frame_addr p 0) a = 0" "vmap t1 A = vmap s A"
    "\<forall>f. f \<noteq> p \<longrightarrow> pmem t1 f = pmem s f" "\<forall>q. q \<noteq> p \<longrightarrow> pp_ref (pages t1 q) = pp_ref (pages s q)"
    "env_tf (envs t1 e) = fork_tf (env_tf (envs s c))"
    using exofork_forking [OF r] by blast
  define envid where "envid = env_id (envs t1 e)"
  define B where "B = frame_addr p 0"
  note t1 = t1 [folded envid_def, folded B_def]
  have ce: "c \<noteq> e" and fp: "fork_pages s A" and ai: "as_inv s A fl k" using r by (auto simp: fork_ready_def)
  obtain q fl2 where q: "fl1 = q # fl2" using t1(4) by (cases fl1) auto
  obtain t2 fl3 where t2: "u_sys_page_alloc envid 0xEEBFF000 7 t1 = Done 0 t2" "forking t2 c e envid A B fl3 k" "vm_only t1 t2"
    "\<forall>a < UTOP. vmap t2 B a = (if PGNUM a = 0xEEBFF then page2pa q OR 7 else 0)"
    "\<forall>a < UTOP. vmap t2 A a = vmap t1 A a" "\<forall>i. pmem t2 q i = 0"
    "\<forall>f. f \<notin> vm_frames t1 B \<longrightarrow> f \<notin> set (q # fl2) \<longrightarrow> pmem t2 f = pmem t1 f"
    "\<forall>x. x \<notin> set (q # fl2) \<longrightarrow> pp_ref (pages t2 x) = pp_ref (pages t1 x)"
    using child_stack [of t1 c e envid A B q fl2 k] t1(3,5,6) unfolding q by auto
  have id0: "envid \<noteq> 0" using t1(2) by auto
  have e2: "envid2env envid True t2 = Done (Inr (Some e)) t2" using t2(2) by (simp add: forking_def)
  define t3 where "t3 = upd_env e (\<lambda>v. v\<lparr>env_pgfault_upcall := upcall\<rparr>) t2"
  have f3: "forking t3 c e envid A B fl3 k" unfolding t3_def
    by (rule forking_upd [OF t2(2) ce]) (use forking_envs [OF t2(2) id0] in simp_all)
  have v3: "vmap t3 g a = vmap t2 g a" and m3: "pmem t3 = pmem t2" "pages t3 = pages t2" for g a
    by (simp_all add: t3_def upd_env_mem)
  let ?w = "page2pa q OR 7"
  have A3: "vmap t3 A a = vmap s A a" if "a < UTOP" for a using that v3 t2(5) t1(7) by simp
  have used: "PGNUM (vmap s A a) \<notin> set fl \<and> PGNUM (vmap s A a) \<notin> vm_frames t1 B"
    if a: "a < UTOP" "vmap s A a AND PTE_P \<noteq> 0" for a
  proof -
    have "page_ok s A fl (PGNUM (vmap s A a))" using ai a vm_wf_mapped [of s A fl a] by (simp add: as_inv_def)
    moreover have "page_ok t1 B fl1 (PGNUM (vmap s A a))"
      using t1(3) a t1(7) unfolding forking_def pair_inv_def by metis
    moreover have "d < 0x400" if "d < user_slots" for d using that by (simp add: word_less_nat_alt)
    ultimately show ?thesis unfolding page_ok_def vm_frames_def by blast
  qed
  have mem3: "pmem t3 (PGNUM (vmap s A a)) = pmem s (PGNUM (vmap s A a)) \<and>
      pp_ref (pages t3 (PGNUM (vmap s A a))) = pp_ref (pages s (PGNUM (vmap s A a)))"
    if a: "a < UTOP" "vmap s A a AND PTE_P \<noteq> 0" for a
    using used [OF a] t2(7,8) t1(8,9) unfolding m3 fl q by auto
  have inv: "fork_inv t3 c e envid A B k ?w 0 fl3 t3"
    by (rule fork_inv_start [OF f3]) (use t2(4) v3 in simp)
  have pgs: "fork_pages t3 A" by (rule fork_pages_cong [OF fp A3]) (use mem3 in auto)
  obtain t4 fl4 where t4: "fork_loop 0x100000 envid 0 t3 = Done () t4" "fork_inv t3 c e envid A B k ?w 0xEEC00 fl4 t4"
    using fork_loop_ok [OF inv pgs, of 0 "0x100000"] by auto
  have f4: "forking t4 c e envid A B fl4 k" and vo: "vm_only t3 t4" using t4(2) by (simp_all add: fork_inv_def)
  have e4: "envid2env envid True t4 = Done (Inr (Some e)) t4" using f4 by (simp add: forking_def)
  define t5 where "t5 = upd_env e (\<lambda>v. v\<lparr>env_status := ENV_RUNNABLE\<rparr>) t4"
  have f5: "forking t5 c e envid A B fl4 k" unfolding t5_def by (rule forking_upd [OF f4 ce]) simp_all
  have m5: "pmem t5 = pmem t4" "vmap t5 g a = vmap t4 g a" for g a by (simp_all add: t5_def upd_env_mem)
  have run: "fork thisenv upcall old h s0 = Done (envid, thisenv, h) t5"
    using h t1(1,2) id0 t2(1) e2 t4(1) e4
    by (simp add: fork_def u_sys_env_set_pgfault_upcall_def u_sys_env_set_status_def usyscall_def syscall_def
        sys_env_set_pgfault_upcall_def sys_env_set_status_def settable_status_def t3_def t5_def del: fork_loop.simps)
  have a4: "vmap t4 A a = dup_parent (vmap t3 A) 0xEEC00 a" "vmap t4 B a = dup_child (vmap t3 A) ?w 0xEEC00 a"
    if "a < UTOP" for a using t4(2) that by (simp_all add: fork_inv_def)
  have pgl: "pg a < 0xEEC00" "pg a = 0xEEBFF \<longleftrightarrow> PGNUM a = 0xEEBFF" if "a < UTOP" for a
    using that by (simp_all add: pg_def word_less_nat_alt word_unat_eq_iff unat_PGNUM)
  have mem: "pmem t4 (PGNUM (vmap s A a)) = pmem s (PGNUM (vmap s A a))" if a: "a < UTOP" "vmap s A a AND PTE_P \<noteq> 0" for a
    using t4(2) a A3 [OF a(1)] mem3 [OF a] unfolding fork_inv_def by metis
  have pages: "passed_on s t5 A B a" if "a < UTOP" "PGNUM a \<noteq> 0xEEBFF" for a
    using that a4 pgl mem A3 unfolding passed_on_def m5 dup_parent_def dup_child_def by simp
  have stack: "vmap t5 A a = vmap s A a" "vmap t5 B a = ?w" if "a < UTOP" "PGNUM a = 0xEEBFF" for a
    using that a4 pgl A3 unfolding m5 dup_parent_def dup_child_def by simp_all
  have "q < 0x100000"
  proof -
    have "page_rep t1 fl1" using t1(3) by (simp add: forking_def pair_inv_def as_inv_def)
    thus ?thesis unfolding q by (auto simp: page_rep_def word_less_nat_alt word_le_nat_alt)
  qed
  hence w: "PGNUM ?w = q" "?w AND PTE_P \<noteq> 0" using PGNUM_entry [of 7 q] by (simp_all add: bit.conj_disj_distrib2)
  have "pmem t4 (PGNUM ?w) = pmem t3 (PGNUM ?w)" using t4(2) w(2) unfolding fork_inv_def by blast
  hence zero: "\<forall>i. pmem t5 q i = 0" using t2(6) m3 m5 w(1) by simp
  have priv: "maps t5 A q = {}"
  proof -
    have "PGNUM (vmap t5 A a) \<noteq> q" if a: "a < UTOP" "vmap t5 A a AND PTE_P \<noteq> 0" for a
    proof -
      have "PGNUM (vmap t5 A a) = PGNUM (vmap s A a) \<and> vmap s A a AND PTE_P \<noteq> 0"
        using a a4(1) [OF a(1)] A3 [OF a(1)] unfolding m5 by (auto simp: dup_parent_def split: if_splits)
      thus ?thesis using used [OF a(1)] unfolding fl q by auto
    qed
    thus ?thesis by (auto simp: maps_def)
  qed
  have envs: "env_status (envs t5 e) = ENV_RUNNABLE" "env_pgfault_upcall (envs t5 e) = upcall"
    "env_tf (envs t5 e) = fork_tf (env_tf (envs s c))"
    using vm_onlyD(4) [OF vo] vm_onlyD(4) [OF t2(3)] t1(10) by (simp_all add: t5_def t3_def envs_upd_env)
  show ?thesis using run t1(2) f5 envs pages stack zero priv by blast
qed

text \<open>C3: \<^verbatim>\<open>fork\<close> gives its caller the id of a runnable child that will resume with the caller's registers and a
  zero in \<^verbatim>\<open>eax\<close>.  Every page of the caller, apart from the exception stack, is at the same address in both
  with the contents it had; of these, none but the pages marked shared is writable in either, and what the
  caller did not map the child does not map.  The child has an exception stack of its own, zero-filled and
  writable, and the two address spaces have no page table in common.\<close>

theorem fork_cow:
  assumes "set_pgfault_handler thisenv upcall old h s0 = Done h s" "fork_ready s c e A fl k"
  shows "\<exists>t B q envid fl'. fork thisenv upcall old h s0 = Done (envid, thisenv, h) t \<and>
    0 < sint envid \<and> envid2env envid True t = Done (Inr (Some e)) t \<and> env_pgdir (envs t e) = B \<and>
    env_status (envs t e) = ENV_RUNNABLE \<and> env_pgfault_upcall (envs t e) = upcall \<and>
    env_tf (envs t e) = fork_tf (env_tf (envs s c)) \<and> pair_inv t A B fl' k \<and>
    (\<forall>a < UTOP. PGNUM a \<noteq> 0xEEBFF \<longrightarrow> passed_on s t A B a \<and>
       (vmap t A a AND PTE_P \<noteq> 0 \<and> vmap t A a AND PTE_W \<noteq> 0 \<or> vmap t B a AND PTE_W \<noteq> 0 \<longrightarrow>
          vmap s A a AND PTE_SHARE \<noteq> 0)) \<and>
    (\<forall>a < UTOP. PGNUM a = 0xEEBFF \<longrightarrow> vmap t A a = vmap s A a \<and> vmap t B a = page2pa q OR 7) \<and>
    (\<forall>i. pmem t q i = 0) \<and> maps t A q = {}"
proof -
  obtain t B q envid fl' where t: "fork thisenv upcall old h s0 = Done (envid, thisenv, h) t" "0 < sint envid"
    "forking t c e envid A B fl' k" "env_status (envs t e) = ENV_RUNNABLE" "env_pgfault_upcall (envs t e) = upcall"
    "env_tf (envs t e) = fork_tf (env_tf (envs s c))"
    "\<forall>a < UTOP. PGNUM a \<noteq> 0xEEBFF \<longrightarrow> passed_on s t A B a"
    "\<forall>a < UTOP. PGNUM a = 0xEEBFF \<longrightarrow> vmap t A a = vmap s A a \<and> vmap t B a = page2pa q OR 7"
    "\<forall>i. pmem t q i = 0" "maps t A q = {}"
    using fork_ok [OF assms] by blast
  have w: "vmap s A a AND PTE_SHARE \<noteq> 0"
    if "passed_on s t A B a" "vmap t A a AND PTE_P \<noteq> 0 \<and> vmap t A a AND PTE_W \<noteq> 0 \<or> vmap t B a AND PTE_W \<noteq> 0" for a
    using that pte_writable [of "vmap s A a"] unfolding passed_on_def by (auto split: if_splits)
  show ?thesis using t(1,2,4-) t(3) w unfolding forking_def by blast
qed

text \<open>A caller with the page 9 at \<open>0x1000\<close>, writable, and four free pages; the kernel's directory is empty.\<close>

definition demo_cow :: kst where
  "demo_cow = demo_fork\<lparr>page_free_list := Some 3, kern_pgdir := 0xF0007000,
     pages := (\<lambda>_. \<lparr>pp_link = None, pp_ref = 1\<rparr>)
       (3 := \<lparr>pp_link = Some 6, pp_ref = 0\<rparr>, 6 := \<lparr>pp_link = Some 10, pp_ref = 0\<rparr>,
        10 := \<lparr>pp_link = Some 11, pp_ref = 0\<rparr>, 11 := \<lparr>pp_link = None, pp_ref = 0\<rparr>),
     pmem := (\<lambda>_ _. 0)(8 := (\<lambda>_. 0)(0 := 0x5007, 0x3BD := 0x8005), 5 := (\<lambda>_. 0)(1 := 0x9007), 9 := (\<lambda>_. 42)),
     cr3 := (\<lambda>_. 0x8000)\<rparr>"

lemma demo_cow_pt: "pt_frame demo_cow 0xF0008000 d = (if d = 0 then 5 else if d = 0x3BD then 8 else 0)"
  by (simp add: demo_cow_def pt_frame_def PGNUM_def)

lemma demo_cow_vmap: "va < UTOP \<Longrightarrow> vmap demo_cow 0xF0008000 va = (if PGNUM va = 1 then 0x9007 else 0)"
proof -
  assume "va < UTOP"
  hence d: "PDX va \<noteq> 0x3BD" using PDX_user by fastforce
  have "PGNUM va = 1 \<longleftrightarrow> PDX va = 0 \<and> PTX va = 1"
    using PDX_PTX_eq_iff [where a = va and b = "0x1000"] by (simp add: PGNUM_def PDX_def PTX_def)
  thus ?thesis using d by (simp add: vmap_def demo_cow_pt) (simp add: demo_cow_def)
qed

lemma demo_cow_fields:
  "npages demo_cow = 16" "page_rep demo_cow [3, 6, 10, 11]" "pp_ref (pages demo_cow 9) = 1" "curenv demo_cow = Some 0"
  "env_pgdir (envs demo_cow 0) = 0xF0008000" "cur_pgdir demo_cow = 0xF0008000" "kern_pgdir demo_cow = 0xF0007000"
  "env_free_list demo_cow = Some 3" "env_id (envs demo_cow 3) = 0x1003" "pmem demo_cow 9 = (\<lambda>_. 42)"
  by (simp_all add: demo_cow_def demo_fork_def demo_sched_def demo_mapped_def bss_kst_def page_rep_def curenv_def
      cur_pgdir_def)

lemma demo_cow_maps: "maps demo_cow 0xF0008000 p = (if p = 9 then {1} else {})"
proof (cases "p = 9")
  case True
  have l: "(0x1000 :: u32) < UTOP" by simp
  have "1 \<in> maps demo_cow 0xF0008000 9"
    using mapped_in_maps [OF l, of demo_cow "0xF0008000"] demo_cow_vmap [OF l] by (simp add: PGNUM_def)
  moreover have "maps demo_cow 0xF0008000 9 \<subseteq> {1}"
    by (auto simp: maps_def demo_cow_vmap split: if_splits)
  ultimately show ?thesis using True by auto
next
  case False
  have "PGNUM 0x9007 = 9" by (simp add: PGNUM_def)
  thus ?thesis using False by (auto simp: maps_def demo_cow_vmap split: if_splits)
qed

lemma demo_cow_ready: "fork_ready demo_cow 0 3 0xF0008000 [3, 6, 10, 11] (\<lambda>_. 0)"
proof -
  have P9: "PGNUM 0x9007 = 9" by (simp add: PGNUM_def)
  have wf: "vm_wf demo_cow 0xF0008000 [3, 6, 10, 11]"
    by (auto simp: vm_wf_def demo_cow_vmap demo_cow_pt demo_cow_fields page_ok_def P9)
  have rc: "rc_inv demo_cow 0xF0008000 (\<lambda>_. 0)" by (simp add: rc_inv_def demo_cow_maps demo_cow_fields)
  have U: "PDX 0xEF400000 = 0x3BD" by (simp add: PDX_def)
  have sm: "self_map demo_cow 0xF0008000" by (simp add: self_map_def U demo_cow_pt) (simp add: demo_cow_def)
  have pf: "pde_flags demo_cow 0xF0008000" by (auto simp: pde_flags_def demo_cow_pt) (auto simp: demo_cow_def)
  have K: "pd_frame 0xF0007000 = 7" by (simp add: pd_frame_def PGNUM_def)
  have ks: "kern_slots demo_cow 0xF0008000"
    unfolding kern_slots_def demo_cow_fields demo_cow_pt K by (auto simp: demo_cow_def pt_frame_def K PGNUM_def)
  have fp: "fork_pages demo_cow 0xF0008000"
    by (auto simp: fork_pages_def demo_cow_vmap demo_cow_maps demo_cow_fields P9)
  have "{d. d < user_slots \<and> wants demo_cow 0xF0008000 d} \<subseteq> {0, 0x3BA}"
    by (auto simp: wants_def demo_cow_pt split: if_splits)
  from card_mono [OF _ this] have "card {d. d < user_slots \<and> wants demo_cow 0xF0008000 d} \<le> 2" by simp
  thus ?thesis using wf rc sm pf ks fp demo_cow_fields K by (simp add: fork_ready_def as_inv_def)
qed

theorem fork_cow_witness:
  "\<exists>t B envid q. fork 0 0x800100 0x800200 0x800200 demo_cow = Done (envid, 0, 0x800200) t \<and>
     env_status (envs t 3) = ENV_RUNNABLE \<and> vmap t 0xF0008000 0x1000 = 0x9805 \<and> vmap t B 0x1000 = 0x9805 \<and>
     pmem t 9 = (\<lambda>_. 42) \<and> vmap t B 0xEEBFF000 = page2pa q OR 7"
proof -
  have h: "set_pgfault_handler 0 0x800100 0x800200 0x800200 demo_cow = Done 0x800200 demo_cow"
    by (simp add: set_pgfault_handler_def)
  have l: "(0x1000 :: u32) < UTOP" "(0xEEBFF000 :: u32) < UTOP" by simp_all
  have P: "PGNUM 0x1000 = 1" "PGNUM 0x9007 = 9" "PGNUM 0xEEBFF000 = 0xEEBFF" by (simp_all add: PGNUM_def)
  have v: "vmap demo_cow 0xF0008000 0x1000 = 0x9007" using demo_cow_vmap [OF l(1)] P by simp
  have pte: "parent_pte 0x9007 = 0x9805" "child_pte 0x9007 = 0x9805"
    by (simp_all add: parent_pte_def child_pte_def entry_with_def cow_perm_def page2pa_def P)
  obtain t B q envid where t: "fork 0 0x800100 0x800200 0x800200 demo_cow = Done (envid, 0, 0x800200) t"
    "env_status (envs t 3) = ENV_RUNNABLE" "\<forall>a < UTOP. PGNUM a \<noteq> 0xEEBFF \<longrightarrow> passed_on demo_cow t 0xF0008000 B a"
    "\<forall>a < UTOP. PGNUM a = 0xEEBFF \<longrightarrow> vmap t B a = page2pa q OR 7"
    using fork_cow [OF h demo_cow_ready] by blast
  have "passed_on demo_cow t 0xF0008000 B 0x1000" using t(3) l(1) P by simp
  hence "vmap t 0xF0008000 0x1000 = 0x9805" "vmap t B 0x1000 = 0x9805" "pmem t 9 = (\<lambda>_. 42)"
    unfolding passed_on_def v using P pte demo_cow_fields by simp_all
  moreover have "vmap t B 0xEEBFF000 = page2pa q OR 7" using t(4) l(2) P by simp
  ultimately show ?thesis using t(1,2) by blast
qed

end
