(* ===== verification/Pgfault.thy ===== *)
theory Pgfault
  imports ForkProps
begin

text \<open>
  The page fault handler of a program that has forked: a write to a copy-on-write page gets the writer a
  copy of its own.
\<close>

lemma as_insert:
  assumes inv: "as_inv s A fl k" and va: "va < UTOP" and ok: "page_ok s A fl pp" and sat: "pp_ref (pages s pp) \<noteq> 0xFFFF"
    and perm: "perm < 0x1000" and room: "pt_frame s A (PDX va) \<noteq> 0 \<or> fl \<noteq> []"
  shows "\<exists>t fl'. page_insert A pp va perm s = Done 0 t \<and> as_inv t A fl' k \<and> vm_only s t \<and>
    (\<forall>a < UTOP. vmap t A a = (if PGNUM a = PGNUM va then page2pa pp OR perm OR PTE_P else vmap s A a)) \<and>
    (\<forall>q. q \<notin> set fl \<longrightarrow> pp_ref (pages t q) =
       (pp_ref (pages s q) + (if q = pp then 1 else 0)) -
       (if vmap s A va AND PTE_P \<noteq> 0 \<and> q = PGNUM (vmap s A va) then 1 else 0)) \<and>
    (\<forall>f. f \<notin> vm_frames s A \<longrightarrow> f \<notin> set fl \<longrightarrow> pmem t f = pmem s f) \<and>
    set fl' \<subseteq> set fl \<union> (if vmap s A va AND PTE_P \<noteq> 0 then {PGNUM (vmap s A va)} else {}) \<and>
    vm_frames t A \<subseteq> vm_frames s A \<union> set fl"
proof -
  have I: "vm_wf s A fl" "page_rep s fl" "rc_inv s A k" using inv by (simp_all add: as_inv_def)
  obtain t fl' where t: "page_insert A pp va perm s = Done 0 t" "as_inv t A fl' k"
    "\<forall>a < UTOP. vmap t A a = (if PGNUM a = PGNUM va then page2pa pp OR perm OR PTE_P else vmap s A a)"
    "\<forall>q. q \<notin> set fl \<longrightarrow> pp_ref (pages t q) =
       (pp_ref (pages s q) + (if q = pp then 1 else 0)) -
       (if vmap s A va AND PTE_P \<noteq> 0 \<and> q = PGNUM (vmap s A va) then 1 else 0)"
    "\<forall>f. f \<notin> vm_frames s A \<longrightarrow> f \<notin> set fl \<longrightarrow> pmem t f = pmem s f"
    "tables_step s A va fl t fl'"
    "set fl' \<subseteq> set fl \<union> (if vmap s A va AND PTE_P \<noteq> 0 then {PGNUM (vmap s A va)} else {})"
    using page_insert_cases [OF I va ok sat perm] room unfolding as_inv_def by (elim disjE exE conjE) blast+
  have "pt_frame t A d \<in> vm_frames s A \<union> set fl" if d: "d < user_slots" "pt_frame t A d \<noteq> 0" for d
  proof -
    have "d < 0x400" using d(1) by (simp add: word_less_nat_alt)
    hence "pt_frame t A d = pt_frame s A d \<or> pt_frame t A d \<in> set fl"
      using t(6) unfolding tables_step_def by (cases "d = PDX va") (auto split: if_splits)
    thus ?thesis using d by (auto simp: vm_frames_def)
  qed
  hence "vm_frames t A \<subseteq> vm_frames s A \<union> set fl" unfolding vm_frames_def [of t A] by (auto simp: vm_frames_def)
  thus ?thesis using t page_insert_vm_only [OF t(1)] by blast
qed

text \<open>Writing a frame that is neither directory nor page table.\<close>

lemma as_inv_write:
  fixes m :: "u32 \<Rightarrow> u32"
  assumes inv: "as_inv s A fl k" and f: "f \<notin> vm_frames s A" "\<forall>d < 0x400. f \<noteq> pt_frame s A d"
  defines "t \<equiv> s\<lparr>pmem := (pmem s)(f := m)\<rparr>"
  shows "as_inv t A fl k" "\<And>a. vmap t A a = vmap s A a" "vm_frames t A = vm_frames s A" "vm_only s t"
    "\<And>d. pt_frame t A d = pt_frame s A d"
proof -
  have pd: "pmem t (pd_frame A) = pmem s (pd_frame A)" using f(1) by (auto simp: t_def vm_frames_def)
  show pt: "pt_frame t A d = pt_frame s A d" for d using pd by (simp add: pt_frame_def)
  show vm: "vmap t A a = vmap s A a" for a
  proof -
    have "pt_frame s A (PDX a) \<noteq> f" using f(2) PDX_less [of a] by blast
    thus ?thesis by (simp add: vmap_def pt) (simp add: t_def)
  qed
  show "vm_frames t A = vm_frames s A" by (simp add: vm_frames_def pt)
  show "vm_only s t" by (simp add: vm_only_def rest_def t_def)
  have m: "maps t A = maps s A" by (intro ext) (simp add: maps_def vm)
  have o: "npages t = npages s" "pages t = pages s" "page_free_list t = page_free_list s" by (simp_all add: t_def)
  have "page_ok t A fl q = page_ok s A fl q" for q by (simp add: page_ok_def pt o)
  thus "as_inv t A fl k"
    using inv by (simp add: as_inv_def vm_wf_def page_rep_def rc_inv_def pt vm m o)
qed

lemma page_ok_not_frame: "page_ok s A fl q \<Longrightarrow> q \<notin> vm_frames s A \<and> (\<forall>d < 0x400. q \<noteq> pt_frame s A d)"
proof -
  have "d < 0x400" if "d < user_slots" for d using that by (simp add: word_less_nat_alt)
  thus "page_ok s A fl q \<Longrightarrow> ?thesis" unfolding page_ok_def vm_frames_def by blast
qed

lemma rounddown_page: "PGNUM (ROUNDDOWN a PGSIZE) = PGNUM a" "PGOFF (ROUNDDOWN a PGSIZE) = 0"
  "a < UTOP \<Longrightarrow> ROUNDDOWN a PGSIZE < UTOP"
proof -
  have e: "ROUNDDOWN a PGSIZE = push_bit 12 (PGNUM a)"
    using PTE_ADDR_PGNUM [of a] PTE_ADDR_ROUNDDOWN [of a] by simp
  show "PGNUM (ROUNDDOWN a PGSIZE) = PGNUM a" unfolding e PGNUM_def
    by (rule bit_word_eqI) (auto simp: bit_simps dest: bit_imp_le_length)
  show "PGOFF (ROUNDDOWN a PGSIZE) = 0" unfolding e PGOFF_def u32_low_mask
    by (rule bit_word_eqI) (auto simp: bit_simps)
  show "a < UTOP \<Longrightarrow> ROUNDDOWN a PGSIZE < UTOP" using ROUNDDOWN_le [of a PGSIZE] by (rule le_less_trans)
qed

lemma u_page_alloc_self:
  assumes cur: "curenv s = Some c" "env_pgdir (envs s c) = A" and inv: "as_inv s A (q # fl) k"
    and va: "va < UTOP" "PGOFF va = 0" and nP: "vmap s A va AND PTE_P = 0" and room: "fl \<noteq> []"
  shows "\<exists>t fl'. u_sys_page_alloc 0 va 7 s = Done 0 t \<and> as_inv t A fl' k \<and> vm_only s t \<and>
    (\<forall>a < UTOP. vmap t A a = (if PGNUM a = PGNUM va then page2pa q OR 7 else vmap s A a)) \<and>
    (\<forall>x. x \<notin> set fl \<longrightarrow> pp_ref (pages t x) = pp_ref (pages s x) + (if x = q then 1 else 0)) \<and>
    (\<forall>f. f \<notin> vm_frames s A \<longrightarrow> f \<notin> set (q # fl) \<longrightarrow> pmem t f = pmem s f) \<and> set fl' \<subseteq> set fl \<and>
    vm_frames t A \<subseteq> vm_frames s A \<union> set fl"
proof -
  have rep: "page_rep s (q # fl)" and wf: "vm_wf s A (q # fl)" using inv by (simp_all add: as_inv_def)
  let ?u = "after_alloc 7 q s"
  note ai = after_alloc_inv [OF inv, of 7] and vm = vmap_off_frame(2) [OF wf, of 7] and pt = vmap_off_frame(1) [OF wf, of 7]
  have vo: "vm_only s ?u" by (simp add: vm_only_def rest_def after_alloc_def Let_def upd_page_def)
  have q0: "pp_ref (pages ?u q) \<noteq> 0xFFFF" using rep by (simp add: page_rep_def)
  obtain t fl' where t: "page_insert A q va 7 ?u = Done 0 t" "as_inv t A fl' k" "vm_only ?u t"
    "\<forall>a < UTOP. vmap t A a = (if PGNUM a = PGNUM va then page2pa q OR 7 OR PTE_P else vmap ?u A a)"
    "\<forall>x. x \<notin> set fl \<longrightarrow> pp_ref (pages t x) = pp_ref (pages ?u x) + (if x = q then 1 else 0)"
    "\<forall>f. f \<notin> vm_frames ?u A \<longrightarrow> f \<notin> set fl \<longrightarrow> pmem t f = pmem ?u f" "set fl' \<subseteq> set fl"
    "vm_frames t A \<subseteq> vm_frames ?u A \<union> set fl"
    using as_insert [OF ai(1) va(1) ai(2) q0, of 7] nP room unfolding vm by auto
  have fr: "vm_frames ?u A = vm_frames s A" by (simp add: vm_frames_def pt)
  have pr: "\<not> bad_perm 7" "\<not> bad_user_va va" using va by (simp_all add: bad_perm_def bad_user_va_def PTE_SYSCALL_def)
  have run: "u_sys_page_alloc 0 va 7 s = Done 0 t"
    using pr cur t(1) vm_onlyD(4) [OF vo] page_alloc_cons [OF rep, of 7]
    by (simp add: u_sys_page_alloc_def usyscall_def syscall_def sys_page_alloc_def envid2env_0)
  have P7: "x OR 7 OR 1 = (x OR 7 :: u32)" for x by (simp add: or.assoc)
  have pd: "pmem ?u f = pmem s f" if "f \<noteq> q" for f using that by (simp add: after_alloc_def Let_def)
  show ?thesis
    using run t vm_only_trans [OF vo t(3)] fr pd P7 vm
    by (intro exI [of _ t] exI [of _ fl'] conjI) auto
qed

text \<open>C4: a write to a copy-on-write page gives the writer a page of its own at the same address: it was
  free, is mapped nowhere else, is writable and holds what the old page held.  The old page loses one
  reference and keeps its contents for the others, \<open>PFTEMP\<close> is unmapped again, and no other mapping of the
  writer and no memory in use changes.\<close>

theorem pgfault_copies:
  assumes cur: "curenv s = Some c" "env_pgdir (envs s c) = A" "cur_pgdir s = A"
    and win: "self_map s A" "pde_flags s A" and inv: "as_inv s A (q # fl) k" and room: "fl \<noteq> []"
    and va: "va < UTOP" "PGNUM va \<noteq> PGNUM PFTEMP" and tmp: "vmap s A PFTEMP AND PTE_P = 0"
    and x: "vmap s A va AND PTE_P \<noteq> 0" "vmap s A va AND PTE_U \<noteq> 0" "vmap s A va AND PTE_COW \<noteq> 0"
    and err: "err AND FEC_PR \<noteq> 0" "err AND FEC_WR \<noteq> 0"
  shows "\<exists>t fl'. pgfault va err s = Done () t \<and> as_inv t A fl' k \<and>
    (\<forall>a < UTOP. vmap t A a = (if PGNUM a = PGNUM va then page2pa q OR 7
       else if PGNUM a = PGNUM PFTEMP then 0 else vmap s A a)) \<and>
    pmem t q = pmem s (PGNUM (vmap s A va)) \<and> pp_ref (pages t q) = 1 \<and>
    pp_ref (pages t (PGNUM (vmap s A va))) = pp_ref (pages s (PGNUM (vmap s A va))) - 1 \<and>
    (\<forall>f. f \<notin> vm_frames s A \<longrightarrow> f \<notin> set (q # fl) \<longrightarrow> pmem t f = pmem s f)"
proof -
  let ?old = "PGNUM (vmap s A va)" and ?va = "ROUNDDOWN va PGSIZE"
  have rep: "page_rep s (q # fl)" and wf: "vm_wf s A (q # fl)" using inv by (simp_all add: as_inv_def)
  have q: "pp_ref (pages s q) = 0" "q \<notin> set fl" "q < 0x100000"
    using rep page_rep_distinct [OF rep] by (auto simp: page_rep_def word_less_nat_alt word_le_nat_alt)
  have w: "PGNUM (page2pa q OR 7) = q" using PGNUM_entry [of 7 q] q(3) by simp
  note rd = rounddown_page(1,2) [of va] rounddown_page(3) [OF va(1)]
  have T: "PFTEMP < UTOP" "PGOFF PFTEMP = 0" by (simp_all add: PGOFF_def)
  have uv: "uvpt (PGNUM va) s = Done (vmap s A va) s"
    by (rule uvpt_user [OF cur(3) win va(1) present_table [OF x(1)]])
  have vold: "page_ok s A (q # fl) ?old" by (rule vm_wf_mapped [OF wf va(1) x(1)])
  obtain s1 fl1 where s1: "u_sys_page_alloc 0 PFTEMP 7 s = Done 0 s1" "as_inv s1 A fl1 k" "vm_only s s1"
    "\<forall>a < UTOP. vmap s1 A a = (if PGNUM a = PGNUM PFTEMP then page2pa q OR 7 else vmap s A a)"
    "\<forall>x. x \<notin> set fl \<longrightarrow> pp_ref (pages s1 x) = pp_ref (pages s x) + (if x = q then 1 else 0)"
    "\<forall>f. f \<notin> vm_frames s A \<longrightarrow> f \<notin> set (q # fl) \<longrightarrow> pmem s1 f = pmem s f" "set fl1 \<subseteq> set fl"
    "vm_frames s1 A \<subseteq> vm_frames s A \<union> set fl"
    using u_page_alloc_self [OF cur(1,2) inv T tmp room] by blast
  have v1: "vmap s1 A PFTEMP = page2pa q OR 7" "vmap s1 A ?va = vmap s A va"
    using s1(4) T rd va(2) vmap_same_page [OF rd(1), of s A] by simp_all
  have wb: "(page2pa q OR 7) AND PTE_P \<noteq> 0" "(page2pa q OR 7) AND PTE_U \<noteq> 0" "(page2pa q OR 7) AND PTE_W \<noteq> 0"
    by (simp_all add: bit.conj_disj_distrib2)
  have wf1: "vm_wf s1 A fl1" using s1(2) by (simp add: as_inv_def)
  have ok1: "page_ok s1 A fl1 q" using vm_wf_mapped [OF wf1 T(1)] v1 wb w by simp
  let ?s2 = "s1\<lparr>pmem := (pmem s1)(q := pmem s1 ?old)\<rparr>"
  note W = as_inv_write [OF s1(2) conjunct1 [OF page_ok_not_frame [OF ok1]] conjunct2 [OF page_ok_not_frame [OF ok1]],
      where m = "pmem s1 ?old"]
  have cur1: "cur_pgdir s1 = A" using vm_onlyD(8) [OF s1(3)] cur(3) by simp
  have cp: "ucopy_page PFTEMP ?va s1 = Done () ?s2"
    unfolding ucopy_page_def Let_def cur1 v1 w using wb x by simp
  have cur2: "curenv ?s2 = Some c" "env_pgdir (envs ?s2 c) = A"
    using vm_onlyD(4,7) [OF s1(3)] cur vm_onlyD(4,7) [OF W(4)] by simp_all
  have wf2: "vm_wf ?s2 A fl1" and ok2: "page_ok ?s2 A fl1 q"
    using W(1) ok1 W(5) by (simp_all add: as_inv_def page_ok_def)
  have r2: "pp_ref (pages ?s2 q) = 1" using s1(5) q by simp
  have pt2: "pt_frame ?s2 A (PDX ?va) \<noteq> 0"
    by (rule present_table) (use W(2) [of ?va] v1(2) x(1) in simp)
  have r2': "pp_ref (pages ?s2 q) \<noteq> 0xFFFF" using r2 by simp
  obtain s3 fl3 where s3: "page_insert A q ?va 7 ?s2 = Done 0 s3" "as_inv s3 A fl3 k" "vm_only ?s2 s3"
    "\<forall>a < UTOP. vmap s3 A a = (if PGNUM a = PGNUM va then page2pa q OR 7 OR PTE_P else vmap s1 A a)"
    "\<forall>x. x \<notin> set fl1 \<longrightarrow> pp_ref (pages s3 x) =
       (pp_ref (pages s1 x) + (if x = q then 1 else 0)) - (if x = ?old then 1 else 0)"
    "\<forall>f. f \<notin> vm_frames s1 A \<longrightarrow> f \<notin> set fl1 \<longrightarrow> pmem s3 f = pmem ?s2 f"
    "vm_frames s3 A \<subseteq> vm_frames s1 A \<union> set fl1"
    using as_insert [OF W(1) rd(3) ok2 r2', of 7] pt2 x(1) unfolding W(2,3) v1(2) rd(1) by auto
  have m3: "u_sys_page_map 0 PFTEMP 0 ?va 7 ?s2 = Done 0 s3"
  proof (rule u_page_map_to [OF cur2(1) _ _ T rd(3,2), where e = c and fl = fl1])
    show "envid2env 0 True ?s2 = Done (Inr (Some c)) ?s2" using cur2(1) by (simp add: envid2env_0)
    show "\<not> bad_perm 7" by (simp add: bad_perm_def PTE_SYSCALL_def)
  qed (use cur2 wf2 W(2) v1 w wb s3(1) in simp_all)
  have cur3: "curenv s3 = Some c" "env_pgdir (envs s3 c) = A" using vm_onlyD(4,7) [OF s3(3)] cur2 by simp_all
  have I3: "vm_wf s3 A fl3" "page_rep s3 fl3" "rc_inv s3 A k" using s3(2) by (simp_all add: as_inv_def)
  have v3: "vmap s3 A PFTEMP = page2pa q OR 7" using s3(4) T va(2) v1 by simp
  have nq: "?old \<noteq> q" using vold by (auto simp: page_ok_def)
  have r3: "pp_ref (pages s3 q) = 2" using s3(5) ok2 r2 nq by (auto simp: page_ok_def)
  obtain t fl' where t: "page_remove A PFTEMP s3 = Done () t" "page_rep t fl'" "vm_wf t A fl'" "rc_inv t A k"
    "\<forall>a < UTOP. vmap t A a = (if PGNUM a = PGNUM PFTEMP then 0 else vmap s3 A a)"
    "\<forall>x. pp_ref (pages t x) = (if x = q then pp_ref (pages s3 q) - 1 else pp_ref (pages s3 x))"
    "\<forall>f. f \<notin> vm_frames s3 A \<longrightarrow> pmem t f = pmem s3 f"
    using page_remove_present [OF I3 T(1)] wb(1) unfolding v3 w by blast
  have m4: "u_sys_page_unmap 0 PFTEMP s3 = Done 0 t"
    using t(1) cur3 T by (simp add: u_sys_page_unmap_def usyscall_def syscall_def sys_page_unmap_def bad_user_va_def envid2env_0)
  have run: "pgfault va err s = Done () t"
    using s1(1) cp m3 m4 err x(3) unfolding pgfault_def uv by (simp add: ucheck_def)
  have P7: "x OR 7 OR 1 = (x OR 7 :: u32)" for x by (simp add: or.assoc)
  have maps: "vmap t A a = (if PGNUM a = PGNUM va then page2pa q OR 7
       else if PGNUM a = PGNUM PFTEMP then 0 else vmap s A a)" if "a < UTOP" for a
    using that t(5) s3(4) s1(4) va(2) P7 by simp
  have "PGNUM (vmap t A va) = q" "vmap t A va AND PTE_P \<noteq> 0" using maps [OF va(1)] w wb(1) by simp_all
  hence okt: "page_ok t A fl' q" using vm_wf_mapped [OF t(3) va(1)] by simp
  have ok3: "page_ok s3 A fl3 q" using vm_wf_mapped [OF I3(1) T(1)] v3 w wb(1) by simp
  have content: "pmem t q = pmem s ?old"
    using t(7) s3(6) page_ok_not_frame [OF ok3] page_ok_not_frame [OF ok1] ok1 s1(6) page_ok_not_frame [OF vold] vold
    by (auto simp: page_ok_def)
  have refs: "pp_ref (pages t q) = 1" "pp_ref (pages t ?old) = pp_ref (pages s ?old) - 1"
    using t(6) r3 s3(5) s1(5,7) nq vold by (auto simp: page_ok_def)
  have others: "pmem t f = pmem s f" if "f \<notin> vm_frames s A" "f \<notin> set (q # fl)" for f
  proof -
    have n1: "f \<notin> vm_frames s1 A" "f \<notin> set fl1" "f \<noteq> q" using that s1(7,8) by auto
    hence "f \<notin> vm_frames s3 A" using s3(7) by blast
    hence "pmem t f = pmem s3 f" using t(7) by blast
    also have "\<dots> = pmem s1 f" using s3(6) n1 by simp
    also have "\<dots> = pmem s f" using s1(6) that by blast
    finally show ?thesis .
  qed
  show ?thesis using run t(2-4) maps content refs others unfolding as_inv_def by blast
qed

text \<open>The page 9, full of 42, is copy-on-write at \<open>0x1000\<close> and shared with another address space.\<close>

definition demo_shared :: kst where
  "demo_shared = page_incref 9 (demo_cow\<lparr>pmem := (pmem demo_cow)(5 := (\<lambda>_. 0)(1 := 0x9805))\<rparr>)"

lemma demo_shared_pmem: "pmem demo_shared = (pmem demo_cow)(5 := (\<lambda>_. 0)(1 := 0x9805))"
  by (simp add: demo_shared_def page_incref_def upd_page_def)

lemma demo_shared_pt: "pt_frame demo_shared 0xF0008000 d = (if d = 0 then 5 else if d = 0x3BD then 8 else 0)"
  by (simp add: demo_shared_pmem demo_cow_def pt_frame_def PGNUM_def)

lemma demo_shared_vmap: "va < UTOP \<Longrightarrow> vmap demo_shared 0xF0008000 va = (if PGNUM va = 1 then 0x9805 else 0)"
proof -
  assume "va < UTOP"
  hence d: "PDX va \<noteq> 0x3BD" using PDX_user by fastforce
  have "PGNUM va = 1 \<longleftrightarrow> PDX va = 0 \<and> PTX va = 1"
    using PDX_PTX_eq_iff [where a = va and b = "0x1000"] by (simp add: PGNUM_def PDX_def PTX_def)
  thus ?thesis using d by (simp add: vmap_def demo_shared_pt) (simp add: demo_shared_pmem)
qed

lemma demo_shared_fields:
  "npages demo_shared = 16" "page_rep demo_shared [3, 6, 10, 11]" "pp_ref (pages demo_shared 9) = 2"
  "curenv demo_shared = Some 0" "env_pgdir (envs demo_shared 0) = 0xF0008000" "cur_pgdir demo_shared = 0xF0008000"
  "pmem demo_shared 9 = (\<lambda>_. 42)"
proof -
  have "page_rep (demo_cow\<lparr>pmem := (pmem demo_cow)(5 := (\<lambda>_. 0)(1 := 0x9805))\<rparr>) [3, 6, 10, 11]"
    using demo_cow_fields(2) by (simp add: page_rep_def)
  thus "page_rep demo_shared [3, 6, 10, 11]" unfolding demo_shared_def by (rule page_incref_rep) simp
  have vo: "vm_only demo_cow demo_shared"
    by (simp add: vm_only_def rest_def demo_shared_def page_incref_def upd_page_def)
  show "npages demo_shared = 16" "curenv demo_shared = Some 0" "env_pgdir (envs demo_shared 0) = 0xF0008000"
    "cur_pgdir demo_shared = 0xF0008000"
    using vm_onlyD [OF vo] demo_cow_fields by simp_all
  show "pp_ref (pages demo_shared 9) = 2" using demo_cow_fields(3) by (simp add: demo_shared_def page_incref_def pages_upd_page)
  show "pmem demo_shared 9 = (\<lambda>_. 42)" by (simp add: demo_shared_pmem demo_cow_fields)
qed

lemma demo_shared_inv: "as_inv demo_shared 0xF0008000 [3, 6, 10, 11] (\<lambda>_. 0)"
proof -
  have P9: "PGNUM 0x9805 = 9" by (simp add: PGNUM_def)
  have wf: "vm_wf demo_shared 0xF0008000 [3, 6, 10, 11]"
    by (auto simp: vm_wf_def demo_shared_vmap demo_shared_pt demo_shared_fields page_ok_def P9)
  have sub: "maps demo_shared 0xF0008000 p \<subseteq> (if p = 9 then {1} else {})" for p
    by (auto simp: maps_def demo_shared_vmap P9 split: if_splits)
  have c: "card (maps demo_shared 0xF0008000 p) \<le> (if p = 9 then 1 else 0)" for p
    using card_mono [OF _ sub [of p]] by (cases "p = 9") simp_all
  have "card (maps demo_shared 0xF0008000 p) + 0 \<le> unat (pp_ref (pages demo_shared p))" for p
    using c [of p] demo_shared_fields(3) by (cases "p = 9") simp_all
  hence "rc_inv demo_shared 0xF0008000 (\<lambda>_. 0)" unfolding rc_inv_def by blast
  thus ?thesis using wf demo_shared_fields by (simp add: as_inv_def)
qed

theorem pgfault_copies_witness:
  "\<exists>t. pgfault 0x1004 7 demo_shared = Done () t \<and> vmap t 0xF0008000 0x1000 = 0x3007 \<and> pmem t 3 = (\<lambda>_. 42) \<and>
     pp_ref (pages t 9) = 1"
proof -
  have l: "(0x1004 :: u32) < UTOP" "PFTEMP < UTOP" "(0x1000 :: u32) < UTOP" by simp_all
  have P: "PGNUM 0x1004 = 1" "PGNUM 0x1000 = 1" "PGNUM PFTEMP = 0x7FF" "PGNUM 0x9805 = 9" by (simp_all add: PGNUM_def)
  have v: "vmap demo_shared 0xF0008000 0x1004 = 0x9805" "vmap demo_shared 0xF0008000 PFTEMP = 0"
    using demo_shared_vmap l P by simp_all
  have U: "PDX 0xEF400000 = 0x3BD" by (simp add: PDX_def)
  have sm: "self_map demo_shared 0xF0008000"
    by (simp add: self_map_def U demo_shared_pt) (simp add: demo_shared_pmem demo_cow_def)
  have pf: "pde_flags demo_shared 0xF0008000"
    by (auto simp: pde_flags_def demo_shared_pt) (auto simp: demo_shared_pmem demo_cow_def)
  obtain t where t: "pgfault 0x1004 7 demo_shared = Done () t"
    "\<forall>a < UTOP. vmap t 0xF0008000 a = (if PGNUM a = PGNUM 0x1004 then page2pa 3 OR 7
       else if PGNUM a = PGNUM PFTEMP then 0 else vmap demo_shared 0xF0008000 a)"
    "pmem t 3 = pmem demo_shared 9" "pp_ref (pages t 9) = pp_ref (pages demo_shared 9) - 1"
    using pgfault_copies [OF demo_shared_fields(4-6) sm pf demo_shared_inv _ l(1), where err = 7] v P by auto
  have "vmap t 0xF0008000 0x1000 = 0x3007" using t(2) l(3) P by (simp add: page2pa_def)
  thus ?thesis using t demo_shared_fields by auto
qed

end
