(* ===== verification/FdTable.thy ===== *)
theory FdTable
  imports Pgfault FileServ
begin

text \<open>
  File descriptors (\<^verbatim>\<open>lib/fd.c\<close>), console descriptors (\<^verbatim>\<open>lib/console.c\<close>), the creation and release of pipes
  (\<^verbatim>\<open>lib/pipe.c\<close>) and the client of the file server (\<^verbatim>\<open>lib/file.c\<close>).  A descriptor is a page of the
  program's memory at a fixed address, shared after a fork or \<^verbatim>\<open>dup\<close>; its device is found by the number in
  it.  The exchange of a message with the file server, during which other environments run, is the argument
  \<open>fsipc\<close>; it acts on the request page at \<open>buf\<close>, the address of the library's \<^verbatim>\<open>fsipcbuf\<close>.
\<close>

section \<open>Memory of the program\<close>

definition uwritable :: "kst \<Rightarrow> u32 \<Rightarrow> bool" where
  "uwritable s va = (let pte = vmap s (cur_pgdir s) va
     in pte AND PTE_P \<noteq> 0 \<and> pte AND PTE_U \<noteq> 0 \<and> pte AND PTE_W \<noteq> 0)"

definition uaddr :: "kst \<Rightarrow> u32 \<Rightarrow> u32" where
  "uaddr s va = PTE_ADDR (vmap s (cur_pgdir s) va) + PGOFF va + KERNBASE"

definition ustore32 :: "u32 \<Rightarrow> u32 \<Rightarrow> kst \<Rightarrow> (unit, kst) kres" where
  "ustore32 va v s = (if uwritable s va then Done () (store32 (uaddr s va) v s) else user_fault)"

definition uload8 :: "u32 \<Rightarrow> kst \<Rightarrow> (u8, kst) kres" where
  "uload8 va s = (let pte = vmap s (cur_pgdir s) va
     in if pte AND PTE_P = 0 \<or> pte AND PTE_U = 0 then user_fault else Done (load8 s (uaddr s va)) s)"

definition ustore8 :: "u32 \<Rightarrow> u8 \<Rightarrow> kst \<Rightarrow> (unit, kst) kres" where
  "ustore8 va b s = (if uwritable s va then Done () (store8 (uaddr s va) b s) else user_fault)"

text \<open>\<^verbatim>\<open>memmove\<close> reads all bytes before it overwrites any of them.\<close>

fun uload_bytes :: "nat \<Rightarrow> u32 \<Rightarrow> kst \<Rightarrow> (u8 list, kst) kres" where
  "uload_bytes 0 va s = Done [] s"
| "uload_bytes (Suc n) va s = kbind (uload8 va s) (\<lambda>b s. kbind (uload_bytes n (va + 1) s) (\<lambda>bs s. Done (b # bs) s))"

fun ustore_bytes :: "u32 \<Rightarrow> u8 list \<Rightarrow> kst \<Rightarrow> (unit, kst) kres" where
  "ustore_bytes va [] s = Done () s"
| "ustore_bytes va (b # bs) s = kbind (ustore8 va b s) (\<lambda>_ s. ustore_bytes (va + 1) bs s)"

definition umemmove :: "u32 \<Rightarrow> u32 \<Rightarrow> nat \<Rightarrow> kst \<Rightarrow> (unit, kst) kres" where
  "umemmove dst src n s = kbind (uload_bytes n src s) (\<lambda>bs s. ustore_bytes dst bs s)"

text \<open>A string of at most \<open>n\<close> bytes.\<close>

fun uload_string :: "nat \<Rightarrow> u32 \<Rightarrow> kst \<Rightarrow> (u8 list, kst) kres" where
  "uload_string 0 va s = Done [] s"
| "uload_string (Suc n) va s = kbind (uload8 va s) (\<lambda>b s. if b = 0 then Done [] s
     else kbind (uload_string n (va + 1) s) (\<lambda>bs s. Done (b # bs) s))"

section \<open>Descriptors\<close>

definition MAXFD :: nat where [simp]: "MAXFD = 32"
definition FDTABLE :: u32 where [simp]: "FDTABLE = 0xD0000000"
definition FILEDATA :: u32 where [simp]: "FILEDATA = FDTABLE + of_nat MAXFD * PGSIZE"
definition O_RDONLY :: u32 where [simp]: "O_RDONLY = 0"
definition O_WRONLY :: u32 where [simp]: "O_WRONLY = 1"
definition O_RDWR :: u32 where [simp]: "O_RDWR = 2"

definition INDEX2FD :: "u32 \<Rightarrow> u32" where "INDEX2FD i = FDTABLE + i * PGSIZE"
definition INDEX2DATA :: "u32 \<Rightarrow> u32" where "INDEX2DATA i = FILEDATA + i * PGSIZE"

definition fd2num :: "u32 \<Rightarrow> u32" where
  "fd2num fd = (fd - FDTABLE) div PGSIZE"

definition fd2data :: "u32 \<Rightarrow> u32" where
  "fd2data fd = INDEX2DATA (fd2num fd)"

text \<open>The fields of \<^verbatim>\<open>struct Fd\<close>: \<^verbatim>\<open>fd_dev_id\<close> at 0, \<^verbatim>\<open>fd_offset\<close> at 4, \<^verbatim>\<open>fd_omode\<close> at 8 and \<^verbatim>\<open>fd_file.id\<close> at 12.\<close>

definition fd_field :: "u32 \<Rightarrow> u32 \<Rightarrow> kst \<Rightarrow> (u32, kst) kres" where
  "fd_field off fd = uload32 (fd + off)"

fun fd_alloc_loop :: "u32 list \<Rightarrow> kst \<Rightarrow> (u32 \<times> u32, kst) kres" where
  "fd_alloc_loop [] s = Done (- E_MAX_OPEN, 0) s"
| "fd_alloc_loop (i # is) s = kbind (mapped (INDEX2FD i) s) (\<lambda>m s.
     if \<not> m then Done (0, INDEX2FD i) s else fd_alloc_loop is s)"

definition fd_numbers :: "u32 list" where
  "fd_numbers = map of_nat [0..<MAXFD]"

definition fd_alloc :: "kst \<Rightarrow> (u32 \<times> u32, kst) kres" where
  "fd_alloc = fd_alloc_loop fd_numbers"

definition fd_lookup :: "u32 \<Rightarrow> kst \<Rightarrow> (u32 + u32, kst) kres" where
  "fd_lookup fdnum s =
    (if sint fdnum < 0 \<or> int MAXFD \<le> sint fdnum then Done (Inl (- E_INVAL)) s
     else kbind (mapped (INDEX2FD fdnum) s) (\<lambda>m s. Done (if m then Inr (INDEX2FD fdnum) else Inl (- E_INVAL)) s))"

section \<open>Devices\<close>

record Stat =
  st_name :: "u8 list"
  st_size :: u32
  st_isdir :: u32
  st_dev :: u32

record Dev =
  dev_id :: u32
  dev_read :: "(u32 \<Rightarrow> u32 \<Rightarrow> u32 \<Rightarrow> kst \<Rightarrow> (u32, kst) kres) option"
  dev_write :: "(u32 \<Rightarrow> u32 \<Rightarrow> u32 \<Rightarrow> kst \<Rightarrow> (u32, kst) kres) option"
  dev_close :: "(u32 \<Rightarrow> kst \<Rightarrow> (u32, kst) kres) option"
  dev_stat :: "(u32 \<Rightarrow> Stat \<Rightarrow> kst \<Rightarrow> (u32 \<times> Stat, kst) kres) option"
  dev_trunc :: "(u32 \<Rightarrow> u32 \<Rightarrow> kst \<Rightarrow> (u32, kst) kres) option"

definition dev_lookup :: "Dev list \<Rightarrow> u32 \<Rightarrow> u32 + Dev" where
  "dev_lookup devtab i = (case find (\<lambda>d. dev_id d = i) devtab of Some d \<Rightarrow> Inr d | None \<Rightarrow> Inl (- E_INVAL))"

definition fd_close :: "Dev list \<Rightarrow> u32 \<Rightarrow> bool \<Rightarrow> kst \<Rightarrow> (u32, kst) kres" where
  "fd_close devtab fd must_exist s = kbind (fd_lookup (fd2num fd) s) (\<lambda>l s. case l of
      Inl r \<Rightarrow> Done (if must_exist then r else 0) s
    | Inr fd2 \<Rightarrow>
        if fd \<noteq> fd2 then Done 0 s
        else kbind (fd_field 0 fd s) (\<lambda>i s.
             kbind (case dev_lookup devtab i of
                 Inl r \<Rightarrow> Done r s
               | Inr dev \<Rightarrow> (case dev_close dev of Some f \<Rightarrow> f fd s | None \<Rightarrow> Done 0 s)) (\<lambda>r s.
             kbind (u_sys_page_unmap 0 fd s) (\<lambda>_ s. Done r s))))"

definition u_close :: "Dev list \<Rightarrow> u32 \<Rightarrow> kst \<Rightarrow> (u32, kst) kres" where
  "u_close devtab fdnum s = kbind (fd_lookup fdnum s) (\<lambda>l s. case l of
      Inl r \<Rightarrow> Done r s | Inr fd \<Rightarrow> fd_close devtab fd True s)"

fun close_all_loop :: "Dev list \<Rightarrow> u32 list \<Rightarrow> kst \<Rightarrow> (unit, kst) kres" where
  "close_all_loop devtab [] s = Done () s"
| "close_all_loop devtab (i # is) s = kbind (u_close devtab i s) (\<lambda>_ s. close_all_loop devtab is s)"

definition close_all :: "Dev list \<Rightarrow> kst \<Rightarrow> (unit, kst) kres" where
  "close_all devtab = close_all_loop devtab fd_numbers"

definition dup_err :: "u32 \<Rightarrow> u32 \<Rightarrow> u32 \<Rightarrow> kst \<Rightarrow> (u32, kst) kres" where
  "dup_err newfd nva r s = kbind (u_sys_page_unmap 0 newfd s) (\<lambda>_ s. kbind (u_sys_page_unmap 0 nva s) (\<lambda>_ s. Done r s))"

definition u_dup :: "Dev list \<Rightarrow> u32 \<Rightarrow> u32 \<Rightarrow> kst \<Rightarrow> (u32, kst) kres" where
  "u_dup devtab oldfdnum newfdnum s = kbind (fd_lookup oldfdnum s) (\<lambda>l s. case l of
      Inl r \<Rightarrow> Done r s
    | Inr oldfd \<Rightarrow> kbind (u_close devtab newfdnum s) (\<lambda>_ s.
        let newfd = INDEX2FD newfdnum; ova = fd2data oldfd; nva = fd2data newfd
        in kbind (mapped ova s) (\<lambda>m s.
           kbind (if m then kbind (uvpt (PGNUM ova) s) (\<lambda>pte s. u_sys_page_map 0 ova 0 nva (pte AND PTE_SYSCALL) s)
                  else Done 0 s) (\<lambda>r s.
           if sint r < 0 then dup_err newfd nva r s
           else kbind (uvpt (PGNUM oldfd) s) (\<lambda>pte s.
                kbind (u_sys_page_map 0 oldfd 0 newfd (pte AND PTE_SYSCALL) s) (\<lambda>r s.
                if sint r < 0 then dup_err newfd nva r s else Done newfdnum s))))))"

text \<open>The descriptor and its device, if both are there.\<close>

definition with_dev :: "Dev list \<Rightarrow> u32 \<Rightarrow> (u32 \<Rightarrow> Dev \<Rightarrow> kst \<Rightarrow> (u32, kst) kres) \<Rightarrow> kst \<Rightarrow> (u32, kst) kres" where
  "with_dev devtab fdnum f s = kbind (fd_lookup fdnum s) (\<lambda>l s. case l of
      Inl r \<Rightarrow> Done r s
    | Inr fd \<Rightarrow> kbind (fd_field 0 fd s) (\<lambda>i s. case dev_lookup devtab i of
        Inl r \<Rightarrow> Done r s | Inr dev \<Rightarrow> f fd dev s))"

definition u_read :: "Dev list \<Rightarrow> u32 \<Rightarrow> u32 \<Rightarrow> u32 \<Rightarrow> kst \<Rightarrow> (u32, kst) kres" where
  "u_read devtab fdnum buf n = with_dev devtab fdnum (\<lambda>fd dev s. kbind (fd_field 8 fd s) (\<lambda>omode s.
     if omode AND O_ACCMODE = O_WRONLY then Done (- E_INVAL) s
     else case dev_read dev of None \<Rightarrow> Done (- E_NOT_SUPP) s | Some f \<Rightarrow> f fd buf n s))"

definition u_write :: "Dev list \<Rightarrow> u32 \<Rightarrow> u32 \<Rightarrow> u32 \<Rightarrow> kst \<Rightarrow> (u32, kst) kres" where
  "u_write devtab fdnum buf n = with_dev devtab fdnum (\<lambda>fd dev s. kbind (fd_field 8 fd s) (\<lambda>omode s.
     if omode AND O_ACCMODE = O_RDONLY then Done (- E_INVAL) s
     else case dev_write dev of None \<Rightarrow> Done (- E_NOT_SUPP) s | Some f \<Rightarrow> f fd buf n s))"

definition u_ftruncate :: "Dev list \<Rightarrow> u32 \<Rightarrow> u32 \<Rightarrow> kst \<Rightarrow> (u32, kst) kres" where
  "u_ftruncate devtab fdnum newsize = with_dev devtab fdnum (\<lambda>fd dev s. kbind (fd_field 8 fd s) (\<lambda>omode s.
     if omode AND O_ACCMODE = O_RDONLY then Done (- E_INVAL) s
     else case dev_trunc dev of None \<Rightarrow> Done (- E_NOT_SUPP) s | Some f \<Rightarrow> f fd newsize s))"

text \<open>\<open>readn\<close> reads on until \<open>n\<close> bytes are there; each turn but the last reads at least one.\<close>

fun readn_loop :: "nat \<Rightarrow> Dev list \<Rightarrow> u32 \<Rightarrow> u32 \<Rightarrow> u32 \<Rightarrow> u32 \<Rightarrow> kst \<Rightarrow> (u32, kst) kres" where
  "readn_loop 0 devtab fdnum buf n tot s = NoReturn Spinning s"
| "readn_loop (Suc k) devtab fdnum buf n tot s =
     (if tot < n
      then kbind (u_read devtab fdnum (buf + tot) (n - tot) s) (\<lambda>m s.
           if sint m < 0 then Done m s else if m = 0 then Done tot s
           else readn_loop k devtab fdnum buf n (tot + m) s)
      else Done tot s)"

definition readn :: "Dev list \<Rightarrow> u32 \<Rightarrow> u32 \<Rightarrow> u32 \<Rightarrow> kst \<Rightarrow> (u32, kst) kres" where
  "readn devtab fdnum buf n = readn_loop (Suc (unat n)) devtab fdnum buf n 0"

definition u_seek :: "u32 \<Rightarrow> u32 \<Rightarrow> kst \<Rightarrow> (u32, kst) kres" where
  "u_seek fdnum offset s = kbind (fd_lookup fdnum s) (\<lambda>l s. case l of
      Inl r \<Rightarrow> Done r s | Inr fd \<Rightarrow> kbind (ustore32 (fd + 4) offset s) (\<lambda>_ s. Done 0 s))"

definition u_fstat :: "Dev list \<Rightarrow> u32 \<Rightarrow> Stat \<Rightarrow> kst \<Rightarrow> (u32 \<times> Stat, kst) kres" where
  "u_fstat devtab fdnum st s = kbind (fd_lookup fdnum s) (\<lambda>l s. case l of
      Inl r \<Rightarrow> Done (r, st) s
    | Inr fd \<Rightarrow> kbind (fd_field 0 fd s) (\<lambda>i s. case dev_lookup devtab i of
        Inl r \<Rightarrow> Done (r, st) s
      | Inr dev \<Rightarrow> (case dev_stat dev of
          None \<Rightarrow> Done (- E_NOT_SUPP, st) s
        | Some f \<Rightarrow> f fd \<lparr>st_name = [], st_size = 0, st_isdir = 0, st_dev = dev_id dev\<rparr> s)))"

end
