(* ===== verification/Devices.thy ===== *)
theory Devices
  imports FdTable
begin

text \<open>
  The devices behind file descriptors: the console (\<^verbatim>\<open>lib/console.c\<close>), pipes (\<^verbatim>\<open>lib/pipe.c\<close>) and files
  (\<^verbatim>\<open>lib/file.c\<close>).  Reading and writing a pipe, which interleave with the other end, are modelled in
  \<^verbatim>\<open>Pipe\<close> and are arguments of the table of devices here; \<open>tmp\<close> is the address of a buffer on the program's
  stack.
\<close>

section \<open>The console\<close>

definition uput :: "u32 \<Rightarrow> u32 \<Rightarrow> kst \<Rightarrow> (u32, kst) kres" where
  "uput tmp ch s = kbind (ustore8 tmp (ucast ch) s) (\<lambda>_ s. u_sys_cputs tmp 1 s)"

definition ugetchar :: "Dev list \<Rightarrow> u32 \<Rightarrow> kst \<Rightarrow> (u32, kst) kres" where
  "ugetchar devtab tmp s = kbind (u_read devtab 0 tmp 1 s) (\<lambda>r s.
     if sint r < 0 then Done r s else if sint r < 1 then Done (- E_EOF) s
     else kbind (uload8 tmp s) (\<lambda>c s. Done (ucast c) s))"

text \<open>Without input the program gives up the processor; it tries again when it is resumed.\<close>

definition devcons_read :: "u32 \<Rightarrow> u32 \<Rightarrow> u32 \<Rightarrow> kst \<Rightarrow> (u32, kst) kres" where
  "devcons_read fd vbuf n s =
    (if n = 0 then Done 0 s
     else kbind (u_sys_cgetc s) (\<lambda>c s.
       if c = 0 then kbind (u_sys_yield s) (\<lambda>_ s. NoReturn Spinning s)
       else if sint c < 0 then Done c s
       else if c = 4 then Done 0 s
       else kbind (ustore8 vbuf (ucast c) s) (\<lambda>_ s. Done 1 s)))"

fun devcons_write_loop :: "nat \<Rightarrow> u32 \<Rightarrow> u32 \<Rightarrow> u32 \<Rightarrow> u32 \<Rightarrow> kst \<Rightarrow> (u32, kst) kres" where
  "devcons_write_loop 0 tmp vbuf n tot s = NoReturn Spinning s"
| "devcons_write_loop (Suc k) tmp vbuf n tot s =
     (if tot < n
      then let m = min (n - tot) 127
        in kbind (umemmove tmp (vbuf + tot) (unat m) s) (\<lambda>_ s. kbind (u_sys_cputs tmp m s) (\<lambda>_ s.
           devcons_write_loop k tmp vbuf n (tot + m) s))
      else Done tot s)"

definition devcons_write :: "u32 \<Rightarrow> u32 \<Rightarrow> u32 \<Rightarrow> u32 \<Rightarrow> kst \<Rightarrow> (u32, kst) kres" where
  "devcons_write tmp fd vbuf n = devcons_write_loop (Suc (unat n)) tmp vbuf n 0"

definition devcons_close :: "u32 \<Rightarrow> kst \<Rightarrow> (u32, kst) kres" where
  "devcons_close fd s = Done 0 s"

definition devcons_stat :: "u32 \<Rightarrow> Stat \<Rightarrow> kst \<Rightarrow> (u32 \<times> Stat, kst) kres" where
  "devcons_stat fd st s = Done (0, st\<lparr>st_name := [0x3C, 0x63, 0x6F, 0x6E, 0x73, 0x3E]\<rparr>) s"

definition devcons :: "u32 \<Rightarrow> Dev" where
  "devcons tmp = \<lparr>dev_id = 0x63, dev_read = Some devcons_read, dev_write = Some (devcons_write tmp),
     dev_close = Some devcons_close, dev_stat = Some devcons_stat, dev_trunc = None\<rparr>"

definition iscons :: "u32 \<Rightarrow> kst \<Rightarrow> (u32, kst) kres" where
  "iscons fdnum s = kbind (fd_lookup fdnum s) (\<lambda>l s. case l of
      Inl r \<Rightarrow> Done r s
    | Inr fd \<Rightarrow> kbind (fd_field 0 fd s) (\<lambda>i s. Done (if i = 0x63 then 1 else 0) s))"

definition fd_perm :: u32 where [simp]: "fd_perm = 0x407"

definition opencons :: "kst \<Rightarrow> (u32, kst) kres" where
  "opencons s = kbind (fd_alloc s) (\<lambda>(r, fd) s. if sint r < 0 then Done r s
     else kbind (u_sys_page_alloc 0 fd fd_perm s) (\<lambda>r s. if sint r < 0 then Done r s
       else kbind (ustore32 fd 0x63 s) (\<lambda>_ s. kbind (ustore32 (fd + 8) O_RDWR s) (\<lambda>_ s. Done (fd2num fd) s))))"

section \<open>Pipes\<close>

fun unmap_all :: "u32 list \<Rightarrow> kst \<Rightarrow> (unit, kst) kres" where
  "unmap_all [] s = Done () s"
| "unmap_all (va # vas) s = kbind (u_sys_page_unmap 0 va s) (\<lambda>_ s. unmap_all vas s)"

definition pipe_fail :: "u32 list \<Rightarrow> u32 \<Rightarrow> kst \<Rightarrow> (u32 + u32 \<times> u32, kst) kres" where
  "pipe_fail vas r s = kbind (unmap_all vas s) (\<lambda>_ s. Done (Inl r) s)"

definition u_pipe :: "kst \<Rightarrow> (u32 + u32 \<times> u32, kst) kres" where
  "u_pipe s =
    kbind (fd_alloc s) (\<lambda>(r, fd0) s. if sint r < 0 then pipe_fail [] r s else
    kbind (u_sys_page_alloc 0 fd0 fd_perm s) (\<lambda>r s. if sint r < 0 then pipe_fail [] r s else
    kbind (fd_alloc s) (\<lambda>(r, fd1) s. if sint r < 0 then pipe_fail [fd0] r s else
    kbind (u_sys_page_alloc 0 fd1 fd_perm s) (\<lambda>r s. if sint r < 0 then pipe_fail [fd0] r s else
    let va = fd2data fd0 in
    kbind (u_sys_page_alloc 0 va fd_perm s) (\<lambda>r s. if sint r < 0 then pipe_fail [fd1, fd0] r s else
    kbind (u_sys_page_map 0 va 0 (fd2data fd1) fd_perm s) (\<lambda>r s. if sint r < 0 then pipe_fail [va, fd1, fd0] r s else
    kbind (ustore32 fd0 0x70 s) (\<lambda>_ s. kbind (ustore32 (fd0 + 8) O_RDONLY s) (\<lambda>_ s.
    kbind (ustore32 fd1 0x70 s) (\<lambda>_ s. kbind (ustore32 (fd1 + 8) O_WRONLY s) (\<lambda>_ s.
    Done (Inr (fd2num fd0, fd2num fd1)) s))))))))))"

text \<open>Within one turn of the program its count of runs stays, so the first sample is taken.\<close>

definition u_pipeisclosed :: "u32 \<Rightarrow> kst \<Rightarrow> (u32, kst) kres" where
  "u_pipeisclosed fdnum s = kbind (fd_lookup fdnum s) (\<lambda>l s. case l of
      Inl r \<Rightarrow> Done r s
    | Inr fd \<Rightarrow> kbind (pageref fd s) (\<lambda>a s. kbind (pageref (fd2data fd) s) (\<lambda>b s.
        Done (if a = b then 1 else 0) s)))"

definition devpipe_stat :: "u32 \<Rightarrow> Stat \<Rightarrow> kst \<Rightarrow> (u32 \<times> Stat, kst) kres" where
  "devpipe_stat fd st s = kbind (uload32 (fd2data fd + 4) s) (\<lambda>w s. kbind (uload32 (fd2data fd) s) (\<lambda>r s.
     Done (0, st\<lparr>st_name := [0x3C, 0x70, 0x69, 0x70, 0x65, 0x3E], st_size := w - r, st_isdir := 0, st_dev := 0x70\<rparr>) s))"

definition devpipe_close :: "u32 \<Rightarrow> kst \<Rightarrow> (u32, kst) kres" where
  "devpipe_close fd s = kbind (u_sys_page_unmap 0 fd s) (\<lambda>_ s. u_sys_page_unmap 0 (fd2data fd) s)"

definition devpipe :: "(u32 \<Rightarrow> u32 \<Rightarrow> u32 \<Rightarrow> kst \<Rightarrow> (u32, kst) kres) \<Rightarrow>
    (u32 \<Rightarrow> u32 \<Rightarrow> u32 \<Rightarrow> kst \<Rightarrow> (u32, kst) kres) \<Rightarrow> Dev" where
  "devpipe pread pwrite = \<lparr>dev_id = 0x70, dev_read = Some pread, dev_write = Some pwrite,
     dev_close = Some devpipe_close, dev_stat = Some devpipe_stat, dev_trunc = None\<rparr>"

section \<open>Files\<close>

type_synonym fsipc = "u32 \<Rightarrow> u32 \<Rightarrow> kst \<Rightarrow> (u32, kst) kres"

definition uassert :: "bool \<Rightarrow> string \<Rightarrow> kst \<Rightarrow> (unit, kst) kres" where
  "uassert b msg s = (if b then Done () s else Panic msg)"

text \<open>A request with the file's id and one more word.\<close>

definition req_of :: "u32 \<Rightarrow> u32 \<Rightarrow> u32 \<Rightarrow> kst \<Rightarrow> (unit, kst) kres" where
  "req_of buf fd x s = kbind (fd_field 12 fd s) (\<lambda>i s. kbind (ustore32 buf i s) (\<lambda>_ s. ustore32 (buf + 4) x s))"

definition devfile_flush :: "fsipc \<Rightarrow> u32 \<Rightarrow> u32 \<Rightarrow> kst \<Rightarrow> (u32, kst) kres" where
  "devfile_flush fsipc buf fd s = kbind (fd_field 12 fd s) (\<lambda>i s. kbind (ustore32 buf i s) (\<lambda>_ s. fsipc FSREQ_FLUSH 0 s))"

definition devfile_read :: "fsipc \<Rightarrow> u32 \<Rightarrow> u32 \<Rightarrow> u32 \<Rightarrow> u32 \<Rightarrow> kst \<Rightarrow> (u32, kst) kres" where
  "devfile_read fsipc buf fd dst n s = kbind (req_of buf fd n s) (\<lambda>_ s. kbind (fsipc FSREQ_READ 0 s) (\<lambda>r s.
     if sint r < 0 then Done r s
     else kbind (uassert (r \<le> n) ''assertion failed: r <= n'' s) (\<lambda>_ s.
          kbind (uassert (sint r \<le> 4096) ''assertion failed: r <= PGSIZE'' s) (\<lambda>_ s.
          kbind (umemmove dst buf (unat r) s) (\<lambda>_ s. Done r s)))))"

definition devfile_write :: "fsipc \<Rightarrow> u32 \<Rightarrow> u32 \<Rightarrow> u32 \<Rightarrow> u32 \<Rightarrow> kst \<Rightarrow> (u32, kst) kres" where
  "devfile_write fsipc buf fd src n s = kbind (req_of buf fd n s) (\<lambda>_ s.
     kbind (uassert (n \<le> PGSIZE - 8) ''assertion failed: n <= PGSIZE - (sizeof(int) + sizeof(size_t))'' s) (\<lambda>_ s.
     kbind (umemmove (buf + 8) src (unat n) s) (\<lambda>_ s. kbind (fsipc FSREQ_WRITE 0 s) (\<lambda>r s.
       if sint r < 0 then Done r s
       else kbind (uassert (r \<le> n) ''assertion failed: r <= n'' s) (\<lambda>_ s. Done r s)))))"

definition devfile_stat :: "fsipc \<Rightarrow> u32 \<Rightarrow> u32 \<Rightarrow> Stat \<Rightarrow> kst \<Rightarrow> (u32 \<times> Stat, kst) kres" where
  "devfile_stat fsipc buf fd st s = kbind (fd_field 12 fd s) (\<lambda>i s. kbind (ustore32 buf i s) (\<lambda>_ s.
     kbind (fsipc FSREQ_STAT 0 s) (\<lambda>r s. if sint r < 0 then Done (r, st) s
     else kbind (uload_string 4294967296 buf s) (\<lambda>name s. kbind (uload32 (buf + 128) s) (\<lambda>size s.
          kbind (uload32 (buf + 132) s) (\<lambda>isdir s.
          Done (0, st\<lparr>st_name := name, st_size := size, st_isdir := isdir\<rparr>) s))))))"

definition devfile_trunc :: "fsipc \<Rightarrow> u32 \<Rightarrow> u32 \<Rightarrow> u32 \<Rightarrow> kst \<Rightarrow> (u32, kst) kres" where
  "devfile_trunc fsipc buf fd newsize s = kbind (req_of buf fd newsize s) (\<lambda>_ s. fsipc FSREQ_SET_SIZE 0 s)"

definition usync :: "fsipc \<Rightarrow> kst \<Rightarrow> (u32, kst) kres" where
  "usync fsipc = fsipc FSREQ_SYNC 0"

definition devfile :: "fsipc \<Rightarrow> u32 \<Rightarrow> Dev" where
  "devfile fsipc buf = \<lparr>dev_id = 0x66, dev_read = Some (devfile_read fsipc buf),
     dev_write = Some (devfile_write fsipc buf), dev_close = Some (devfile_flush fsipc buf),
     dev_stat = Some (devfile_stat fsipc buf), dev_trunc = Some (devfile_trunc fsipc buf)\<rparr>"

definition u_open :: "Dev list \<Rightarrow> fsipc \<Rightarrow> u32 \<Rightarrow> u32 \<Rightarrow> u32 \<Rightarrow> kst \<Rightarrow> (u32, kst) kres" where
  "u_open devtab fsipc buf path mode s = kbind (uload_string 4294967296 path s) (\<lambda>name s.
     if MAXPATHLEN \<le> length name then Done (- E_BAD_PATH) s
     else kbind (fd_alloc s) (\<lambda>(r, fd) s. if sint r < 0 then Done r s
       else kbind (ustore_bytes buf (name @ [0]) s) (\<lambda>_ s. kbind (ustore32 (buf + 1024) mode s) (\<lambda>_ s.
            kbind (fsipc FSREQ_OPEN fd s) (\<lambda>r s.
            if sint r < 0 then kbind (fd_close devtab fd False s) (\<lambda>_ s. Done r s)
            else Done (fd2num fd) s)))))"

definition u_stat :: "Dev list \<Rightarrow> fsipc \<Rightarrow> u32 \<Rightarrow> u32 \<Rightarrow> Stat \<Rightarrow> kst \<Rightarrow> (u32 \<times> Stat, kst) kres" where
  "u_stat devtab fsipc buf path st s = kbind (u_open devtab fsipc buf path O_RDONLY s) (\<lambda>fd s.
     if sint fd < 0 then Done (fd, st) s
     else kbind (u_fstat devtab fd st s) (\<lambda>(r, st) s. kbind (u_close devtab fd s) (\<lambda>_ s. Done (r, st) s)))"

definition devtab :: "fsipc \<Rightarrow> u32 \<Rightarrow> u32 \<Rightarrow> (u32 \<Rightarrow> u32 \<Rightarrow> u32 \<Rightarrow> kst \<Rightarrow> (u32, kst) kres) \<Rightarrow>
    (u32 \<Rightarrow> u32 \<Rightarrow> u32 \<Rightarrow> kst \<Rightarrow> (u32, kst) kres) \<Rightarrow> Dev list" where
  "devtab fsipc buf tmp pread pwrite = [devfile fsipc buf, devpipe pread pwrite, devcons tmp]"

text \<open>A program that ends closes its descriptors first (\<^verbatim>\<open>lib/exit.c\<close>).\<close>

definition u_exit :: "Dev list \<Rightarrow> kst \<Rightarrow> (u32, kst) kres" where
  "u_exit devs s = kbind (close_all devs s) (\<lambda>_ s. u_sys_env_destroy 0 s)"

end
