(* ===== verification/FdProps.thy ===== *)
theory FdProps
  imports Devices
begin

text \<open>
  What descriptors promise: \<^verbatim>\<open>fd_alloc\<close> finds the lowest free one, \<^verbatim>\<open>dup\<close> makes two numbers for one
  descriptor, \<^verbatim>\<open>pipe\<close> makes two descriptors with one buffer; and where they do not keep it.
\<close>

section \<open>The memory of a running program\<close>

definition user_as :: "kst \<Rightarrow> nat \<Rightarrow> u32 \<Rightarrow> u32 list \<Rightarrow> (u32 \<Rightarrow> nat) \<Rightarrow> bool" where
  "user_as s c A fl k \<longleftrightarrow> curenv s = Some c \<and> env_pgdir (envs s c) = A \<and> cur_pgdir s = A \<and> self_map s A \<and>
     pde_flags s A \<and> as_inv s A fl k"

lemma user_asD:
  assumes "user_as s c A fl k"
  shows "curenv s = Some c" "env_pgdir (envs s c) = A" "cur_pgdir s = A" "self_map s A" "pde_flags s A"
    "as_inv s A fl k" "vm_wf s A fl" "page_rep s fl" "rc_inv s A k"
  using assms by (simp_all add: user_as_def as_inv_def)

lemma user_mapped: "user_as s c A fl k \<Longrightarrow> va < UTOP \<Longrightarrow> mapped va s = Done (vmap s A va AND PTE_P \<noteq> 0) s"
  using mapped_user [of s A va] by (simp add: user_as_def)

lemma user_uvpt: "user_as s c A fl k \<Longrightarrow> va < UTOP \<Longrightarrow> vmap s A va AND PTE_P \<noteq> 0 \<Longrightarrow> uvpt (PGNUM va) s = Done (vmap s A va) s"
  using uvpt_user present_table by (metis user_asD(3-5))

lemma tables_step_window:
  assumes ts: "tables_step s A va fl t fl'" and va: "va < UTOP" and sm: "self_map s A" and pf: "pde_flags s A"
  shows "self_map t A" "pde_flags t A"
proof -
  have u: "PDX va < user_slots" by (rule PDX_user [OF va])
  have U: "PDX 0xEF400000 = 0x3BD" by (simp add: PDX_def)
  have ne: "PDX va \<noteq> 0x3BD" using u by auto
  have d4: "d < 0x400" if "d < user_slots" for d using that by (simp add: word_less_nat_alt)
  have pd: "pmem t (pd_frame A) d = pmem s (pd_frame A) d" if "d \<noteq> PDX va \<or> pt_frame s A (PDX va) \<noteq> 0" for d
    using ts that unfolding tables_step_def by (auto split: if_splits)
  have nz: "pt_frame t A (PDX va) \<noteq> 0" using ts unfolding tables_step_def by blast
  show "self_map t A" using sm pd [where d = "0x3BD"] ne by (simp add: self_map_def U pt_frame_def)
  show "pde_flags t A" unfolding pde_flags_def
  proof (intro allI impI)
    fix d assume d: "d < user_slots"
    show "(pmem t (pd_frame A) d AND PTE_P \<noteq> 0 \<longleftrightarrow> pt_frame t A d \<noteq> 0) \<and>
        (pt_frame t A d \<noteq> 0 \<longrightarrow> pmem t (pd_frame A) d AND PTE_U \<noteq> 0)"
    proof (cases "d \<noteq> PDX va \<or> pt_frame s A (PDX va) \<noteq> 0")
      case True
      thus ?thesis using pf d pd [OF True] unfolding pde_flags_def pt_frame_def by metis
    next
      case False
      hence "pmem t (pd_frame A) d = page2pa (pt_frame t A d) OR 7" "pt_frame t A d \<noteq> 0"
        using ts nz unfolding tables_step_def by simp_all
      thus ?thesis by (simp add: bit.conj_disj_distrib2)
    qed
  qed
qed

lemma user_insert:
  assumes us: "user_as s c A fl k" and va: "va < UTOP" and ok: "page_ok s A fl pp" and sat: "pp_ref (pages s pp) \<noteq> 0xFFFF"
    and perm: "perm < 0x1000" and room: "pt_frame s A (PDX va) \<noteq> 0 \<or> fl \<noteq> []"
  shows "\<exists>t fl'. page_insert A pp va perm s = Done 0 t \<and> user_as t c A fl' k \<and>
    (\<forall>a < UTOP. vmap t A a = (if PGNUM a = PGNUM va then page2pa pp OR perm OR PTE_P else vmap s A a)) \<and>
    (\<forall>q. q \<notin> set fl \<longrightarrow> pp_ref (pages t q) =
       (pp_ref (pages s q) + (if q = pp then 1 else 0)) -
       (if vmap s A va AND PTE_P \<noteq> 0 \<and> q = PGNUM (vmap s A va) then 1 else 0)) \<and>
    (\<forall>f. f \<notin> vm_frames s A \<longrightarrow> f \<notin> set fl \<longrightarrow> pmem t f = pmem s f) \<and> tables_step s A va fl t fl' \<and>
    set fl' \<subseteq> set fl \<union> (if vmap s A va AND PTE_P \<noteq> 0 then {PGNUM (vmap s A va)} else {}) \<and> envs t = envs s"
proof -
  note U = user_asD [OF us]
  obtain t fl' where t: "page_insert A pp va perm s = Done 0 t" "page_rep t fl'" "vm_wf t A fl'" "rc_inv t A k"
    "\<forall>a < UTOP. vmap t A a = (if PGNUM a = PGNUM va then page2pa pp OR perm OR PTE_P else vmap s A a)"
    "\<forall>q. q \<notin> set fl \<longrightarrow> pp_ref (pages t q) =
       (pp_ref (pages s q) + (if q = pp then 1 else 0)) -
       (if vmap s A va AND PTE_P \<noteq> 0 \<and> q = PGNUM (vmap s A va) then 1 else 0)"
    "\<forall>f. f \<notin> vm_frames s A \<longrightarrow> f \<notin> set fl \<longrightarrow> pmem t f = pmem s f" "tables_step s A va fl t fl'"
    "set fl' \<subseteq> set fl \<union> (if vmap s A va AND PTE_P \<noteq> 0 then {PGNUM (vmap s A va)} else {})"
    using page_insert_cases [OF U(7-9) va ok sat perm] room by (elim disjE exE conjE) blast+
  note V = vm_onlyD [OF page_insert_vm_only [OF t(1)]]
  have "user_as t c A fl' k"
    using U V t(2-4) tables_step_window [OF t(8) va U(4,5)] by (simp add: user_as_def as_inv_def)
  thus ?thesis using t V(4) by blast
qed

text \<open>A system call that maps a page of the program a second time.\<close>

lemma user_map:
  assumes us: "user_as s c A fl k" and va: "va < UTOP" "PGOFF va = 0" "dva < UTOP" "PGOFF dva = 0"
    and P: "vmap s A va AND PTE_P \<noteq> 0" and perm: "\<not> bad_perm perm" and W: "perm AND PTE_W = 0 \<or> vmap s A va AND PTE_W \<noteq> 0"
    and sat: "pp_ref (pages s (PGNUM (vmap s A va))) \<noteq> 0xFFFF" and room: "pt_frame s A (PDX dva) \<noteq> 0 \<or> fl \<noteq> []"
  shows "\<exists>t fl'. u_sys_page_map 0 va 0 dva perm s = Done 0 t \<and> user_as t c A fl' k \<and>
    (\<forall>a < UTOP. vmap t A a = (if PGNUM a = PGNUM dva then entry_with (vmap s A va) perm else vmap s A a)) \<and>
    (\<forall>q. q \<notin> set fl \<longrightarrow> pp_ref (pages t q) =
       (pp_ref (pages s q) + (if q = PGNUM (vmap s A va) then 1 else 0)) -
       (if vmap s A dva AND PTE_P \<noteq> 0 \<and> q = PGNUM (vmap s A dva) then 1 else 0)) \<and>
    (\<forall>f. f \<notin> vm_frames s A \<longrightarrow> f \<notin> set fl \<longrightarrow> pmem t f = pmem s f) \<and> tables_step s A dva fl t fl' \<and>
    set fl' \<subseteq> set fl \<union> (if vmap s A dva AND PTE_P \<noteq> 0 then {PGNUM (vmap s A dva)} else {})"
proof -
  note U = user_asD [OF us]
  obtain t fl' where t: "page_insert A (PGNUM (vmap s A va)) dva perm s = Done 0 t" "user_as t c A fl' k"
    "\<forall>a < UTOP. vmap t A a = (if PGNUM a = PGNUM dva then page2pa (PGNUM (vmap s A va)) OR perm OR PTE_P else vmap s A a)"
    "\<forall>q. q \<notin> set fl \<longrightarrow> pp_ref (pages t q) =
       (pp_ref (pages s q) + (if q = PGNUM (vmap s A va) then 1 else 0)) -
       (if vmap s A dva AND PTE_P \<noteq> 0 \<and> q = PGNUM (vmap s A dva) then 1 else 0)"
    "\<forall>f. f \<notin> vm_frames s A \<longrightarrow> f \<notin> set fl \<longrightarrow> pmem t f = pmem s f" "tables_step s A dva fl t fl'"
    "set fl' \<subseteq> set fl \<union> (if vmap s A dva AND PTE_P \<noteq> 0 then {PGNUM (vmap s A dva)} else {})"
    using user_insert [OF us va(3) vm_wf_mapped [OF U(7) va(1) P] sat perm_ok(1) [OF perm] room] by blast
  have run: "u_sys_page_map 0 va 0 dva perm s = Done 0 t"
  proof (rule u_page_map_to [OF U(1) _ _ va])
    show "envid2env 0 True s = Done (Inr (Some c)) s" using U(1) by (simp add: envid2env_0)
  qed (use U P perm W t(1) in simp_all)
  show ?thesis unfolding entry_with_def using run t(2-) by blast
qed

lemma user_unmap:
  assumes us: "user_as s c A fl k" and va: "va < UTOP" "PGOFF va = 0" and P: "vmap s A va AND PTE_P \<noteq> 0"
  shows "\<exists>t fl'. u_sys_page_unmap 0 va s = Done 0 t \<and> user_as t c A fl' k \<and>
    (\<forall>a < UTOP. vmap t A a = (if PGNUM a = PGNUM va then 0 else vmap s A a)) \<and>
    (\<forall>q. pp_ref (pages t q) =
       (if q = PGNUM (vmap s A va) then pp_ref (pages s (PGNUM (vmap s A va))) - 1 else pp_ref (pages s q))) \<and>
    (\<forall>d. pt_frame t A d = pt_frame s A d) \<and> (\<forall>f. f \<notin> vm_frames s A \<longrightarrow> pmem t f = pmem s f)"
proof -
  note U = user_asD [OF us]
  obtain t fl' where t: "page_remove A va s = Done () t" "page_rep t fl'" "vm_wf t A fl'" "rc_inv t A k"
    "\<forall>a < UTOP. vmap t A a = (if PGNUM a = PGNUM va then 0 else vmap s A a)"
    "\<forall>q. pp_ref (pages t q) =
       (if q = PGNUM (vmap s A va) then pp_ref (pages s (PGNUM (vmap s A va))) - 1 else pp_ref (pages s q))"
    "\<forall>d. pt_frame t A d = pt_frame s A d" "\<forall>f. f \<noteq> pt_frame s A (PDX va) \<longrightarrow> pmem t f = pmem s f"
    "\<forall>f. f \<notin> vm_frames s A \<longrightarrow> pmem t f = pmem s f"
    using page_remove_present [OF U(7-9) va(1) P] by blast
  have pd: "pmem t (pd_frame A) = pmem s (pd_frame A)"
    using t(8) vm_wf_pt(4) [OF U(7) PDX_user [OF va(1)] present_table [OF P]] by metis
  have "vm_only s t" using rest_remove [OF t(1)] by (simp add: vm_only_def)
  note V = vm_onlyD [OF this]
  have "user_as t c A fl' k" using U V t(2-4) pd by (simp add: user_as_def as_inv_def self_map_def pde_flags_def pt_frame_def)
  moreover have "u_sys_page_unmap 0 va s = Done 0 t"
    using t(1) U va by (simp add: u_sys_page_unmap_def usyscall_def syscall_def sys_page_unmap_def bad_user_va_def envid2env_0)
  ultimately show ?thesis using t by blast
qed

text \<open>A store changes one word of the frame that the address is mapped to.\<close>

lemma page_offset: "PGOFF va = 0 \<Longrightarrow> i < 0x400 \<Longrightarrow>
   PGNUM (va + push_bit 2 i) = PGNUM va \<and> PGOFF (va + push_bit 2 i) = push_bit 2 i"
proof -
  assume va: "PGOFF va = 0" and i: "i < 0x400"
  have b: "n < 10" if "bit i n" for n using bit_less_exp [of i 10 n] i that by simp
  have l: "\<not> (bit va n \<and> n < 12)" for n
  proof -
    have "va AND mask 12 = 0" using va unfolding PGOFF_def u32_low_mask .
    thus ?thesis by (metis bit_and_iff bit_mask_iff bit_0_eq bot_apply bot_bool_def impossible_bit)
  qed
  have e: "va + push_bit 2 i = va OR push_bit 2 i"
    by (rule disjunctive_add_eq_or, rule bit_word_eqI) (use b l in \<open>force simp: bit_simps\<close>)
  show ?thesis unfolding e addr_fields u32_low_mask
    by (intro conjI bit_word_eqI) (use b l in \<open>force simp: bit_simps\<close>)+
qed

lemma uaddr_word:
  assumes "PGOFF va = 0" "i < 0x400" "cur_pgdir s = A"
  shows "uaddr s (va + push_bit 2 i) = frame_addr (PGNUM (vmap s A va)) i"
  using page_offset [OF assms(1,2)] vmap_same_page [of "va + push_bit 2 i" va s A] assms(3)
  by (simp add: uaddr_def frame_addr_def PTE_ADDR_PGNUM)

lemma user_load:
  assumes us: "user_as s c A fl k" and va: "va < UTOP" "PGOFF va = 0" "i < 0x400"
    and P: "vmap s A va AND PTE_P \<noteq> 0" "vmap s A va AND PTE_U \<noteq> 0"
  shows "uload32 (va + push_bit 2 i) s = Done (pmem s (PGNUM (vmap s A va)) i) s"
proof -
  have n: "PGNUM (vmap s A va) < 0x100000" by (rule PGNUM_less)
  show ?thesis using uaddr_word [OF va(2,3) user_asD(3) [OF us]] P n va(3) page_offset [OF va(2,3)]
      vmap_same_page [of "va + push_bit 2 i" va s A] user_asD(3) [OF us]
    by (simp add: uload32_def Let_def uaddr_def)
qed

lemma user_store:
  assumes us: "user_as s c A fl k" and va: "va < UTOP" "PGOFF va = 0" "i < 0x400"
    and P: "vmap s A va AND PTE_P \<noteq> 0" "vmap s A va AND PTE_U \<noteq> 0" "vmap s A va AND PTE_W \<noteq> 0"
  defines "F \<equiv> PGNUM (vmap s A va)"
  shows "\<exists>t. ustore32 (va + push_bit 2 i) v s = Done () t \<and> user_as t c A fl k \<and> vmap t A = vmap s A \<and>
    pmem t = (pmem s)(F := (pmem s F)(i := v)) \<and> pages t = pages s \<and> (\<forall>d. pt_frame t A d = pt_frame s A d)"
proof -
  note U = user_asD [OF us]
  let ?t = "s\<lparr>pmem := (pmem s)(F := (pmem s F)(i := v))\<rparr>"
  have ok: "page_ok s A fl F" unfolding F_def by (rule vm_wf_mapped [OF U(7) va(1) P(1)])
  note W = as_inv_write [OF U(6) conjunct1 [OF page_ok_not_frame [OF ok]] conjunct2 [OF page_ok_not_frame [OF ok]],
      where m = "(pmem s F)(i := v)"]
  have n: "F < 0x100000" unfolding F_def by (rule PGNUM_less)
  have same: "vmap s A (va + push_bit 2 i) = vmap s A va" using page_offset [OF va(2,3)] by (intro vmap_same_page) simp
  have "store32 (frame_addr F i) v s = ?t"
    using n va(3) by (simp add: store32_def frame_addr_def word_index_add Let_def)
  hence run: "ustore32 (va + push_bit 2 i) v s = Done () ?t"
    using uaddr_word [OF va(2,3) U(3)] P same U(3) by (simp add: ustore32_def uwritable_def Let_def F_def)
  have "pd_frame A \<noteq> F" using ok by (auto simp: page_ok_def)
  hence "user_as ?t c A fl k" using U W(1) W(5) by (simp add: user_as_def self_map_def pde_flags_def curenv_def cur_pgdir_def)
  moreover have "vmap ?t A = vmap s A" using W(2) by (intro ext) simp
  ultimately show ?thesis using run W(5) by (intro exI [of _ ?t]) simp
qed

section \<open>Addresses of descriptors\<close>

lemma fd_addr:
  assumes "i < 128"
  shows "INDEX2FD i < UTOP" "PGOFF (INDEX2FD i) = 0" "PGNUM (INDEX2FD i) = 0xD0000 + i" "PDX (INDEX2FD i) = 0x340"
proof -
  have i: "unat i < 128" using assms by (simp add: word_less_nat_alt)
  have u: "unat (INDEX2FD i) = 0xD0000000 + 4096 * unat i"
    using i by (simp add: INDEX2FD_def unat_word_ariths)
  show "INDEX2FD i < UTOP" using u i by (simp add: word_less_nat_alt)
  have "unat (INDEX2FD i AND mask 12) = 0"
    using u by (simp flip: take_bit_eq_mask add: take_bit_eq_mod unat_mod)
  thus "PGOFF (INDEX2FD i) = 0" unfolding PGOFF_def u32_low_mask by (simp add: unat_eq_zero)
  have "unat (PGNUM (INDEX2FD i)) = unat (0xD0000 + i)" using u i by (simp add: unat_PGNUM unat_word_ariths)
  thus n: "PGNUM (INDEX2FD i) = 0xD0000 + i" by (simp add: word_unat_eq_iff)
  have "unat (PDX (INDEX2FD i)) = 0x340"
    using i by (simp flip: PGNUM_split(1) add: n drop_bit_eq_div unat_div_distrib unat_word_ariths)
  thus "PDX (INDEX2FD i) = 0x340" by (simp add: word_unat_eq_iff)
qed

lemma fd2num_INDEX2FD: "i < 128 \<Longrightarrow> fd2num (INDEX2FD i) = i"
proof -
  assume "i < 128"
  hence i: "unat i < 128" by (simp add: word_less_nat_alt)
  have "unat (fd2num (INDEX2FD i)) = unat i"
    using i by (simp add: fd2num_def INDEX2FD_def unat_div_distrib unat_word_ariths)
  thus ?thesis by (simp add: word_unat_eq_iff)
qed

lemma data_is_fd: "INDEX2DATA i = INDEX2FD (i + 32)"
  by (simp add: INDEX2DATA_def INDEX2FD_def algebra_simps)

lemma fd2data_INDEX2FD: "i < 128 \<Longrightarrow> fd2data (INDEX2FD i) = INDEX2FD (i + 32)"
  by (simp add: fd2data_def fd2num_INDEX2FD data_is_fd)

lemma fd_page_eq: "i < 128 \<Longrightarrow> j < 128 \<Longrightarrow> PGNUM (INDEX2FD i) = PGNUM (INDEX2FD j) \<longleftrightarrow> i = j"
  by (simp add: fd_addr)

section \<open>Allocation and lookup\<close>

lemma fd_lookup_number:
  assumes us: "user_as s c A fl k" and i: "i < 32"
  shows "fd_lookup i s = Done (if vmap s A (INDEX2FD i) AND PTE_P \<noteq> 0 then Inr (INDEX2FD i) else Inl (- E_INVAL)) s"
proof -
  have "i < 128" using i by (rule less_trans) simp
  have a: "sint i = int (unat i)" "unat i < 32" using i by (simp_all add: sint_small word_less_nat_alt)
  have "\<not> (sint i < 0 \<or> int MAXFD \<le> sint i)" unfolding a(1) MAXFD_def using a(2) by linarith
  thus ?thesis using user_mapped [OF us fd_addr(1) [OF \<open>i < 128\<close>]] unfolding fd_lookup_def by simp
qed

lemma fd_alloc_loop_find:
  assumes "user_as s c A fl k" "\<forall>i \<in> set is. i < 32"
  shows "fd_alloc_loop is s = (case find (\<lambda>i. vmap s A (INDEX2FD i) AND PTE_P = 0) is of
      None \<Rightarrow> Done (- E_MAX_OPEN, 0) s | Some i \<Rightarrow> Done (0, INDEX2FD i) s)"
  using assms(2)
proof (induction "is")
  case (Cons i "is")
  have "i < 128" using Cons.prems by (auto intro: less_trans)
  thus ?case using Cons user_mapped [OF assms(1) fd_addr(1)] by simp
qed simp

text \<open>\<^verbatim>\<open>fd_alloc\<close> gives the lowest descriptor that is not in use and changes nothing; it fails exactly when all
  32 are in use.\<close>

theorem fd_alloc_lowest:
  assumes "user_as s c A fl k"
  shows "(\<exists>n < 32. fd_alloc s = Done (0, INDEX2FD (of_nat n)) s \<and> vmap s A (INDEX2FD (of_nat n)) AND PTE_P = 0 \<and>
      (\<forall>m < n. vmap s A (INDEX2FD (of_nat m)) AND PTE_P \<noteq> 0)) \<or>
    fd_alloc s = Done (- E_MAX_OPEN, 0) s \<and> (\<forall>n < 32. vmap s A (INDEX2FD (of_nat n)) AND PTE_P \<noteq> 0)"
proof -
  let ?free = "\<lambda>i. vmap s A (INDEX2FD i) AND PTE_P = 0"
  have e: "fd_alloc s = (case find ?free fd_numbers of None \<Rightarrow> Done (- E_MAX_OPEN, 0) s | Some i \<Rightarrow> Done (0, INDEX2FD i) s)"
    unfolding fd_alloc_def
  proof (rule fd_alloc_loop_find [OF assms])
    show "\<forall>i \<in> set fd_numbers. i < 32" by (auto simp: fd_numbers_def word_less_nat_alt unat_of_nat simp del: upt_rec_numeral)
  qed
  show ?thesis
  proof (cases "find ?free fd_numbers")
    case None
    hence "\<forall>i \<in> set fd_numbers. \<not> ?free i" by (simp add: find_None_iff)
    hence "\<forall>n < 32. vmap s A (INDEX2FD (of_nat n)) AND PTE_P \<noteq> 0" by (simp add: fd_numbers_def del: upt_rec_numeral)
    thus ?thesis using e None by simp
  next
    case (Some i)
    then obtain n where n: "n < length fd_numbers" "?free (fd_numbers ! n)" "i = fd_numbers ! n"
      "\<forall>m < n. \<not> ?free (fd_numbers ! m)"
      by (auto simp: find_Some_iff)
    have len: "length fd_numbers = 32" by (simp add: fd_numbers_def)
    have nth: "fd_numbers ! m = of_nat m" if "m < 32" for m using that by (simp add: fd_numbers_def del: upt_rec_numeral)
    have "n < 32" using n(1) len by simp
    moreover have "vmap s A (INDEX2FD (of_nat m)) AND PTE_P \<noteq> 0" if "m < n" for m
      using n(4) that nth [of m] \<open>n < 32\<close> by auto
    ultimately show ?thesis using e Some n(2,3) nth [of n] by auto
  qed
qed

section \<open>Duplication\<close>

lemma entry_with_bits:
  assumes "m < 0x1000" "m AND 1 = 0" shows "entry_with x perm AND m = perm AND m"
proof -
  have "page2pa (PGNUM x) AND m = 0"
  proof (rule bit_word_eqI)
    fix n
    have "bit m n \<Longrightarrow> n < 12" using bit_less_exp [of m 12 n] assms(1) by simp
    thus "bit (page2pa (PGNUM x) AND m) n = bit (0 :: u32) n" by (auto simp: page2pa_def bit_simps)
  qed
  moreover have "PTE_P AND m = 0" using assms(2) by (simp add: and.commute)
  ultimately show ?thesis unfolding entry_with_def by (simp only: bit.conj_disj_distrib2) simp
qed

lemma syscall_bits: "(x AND PTE_SYSCALL) AND PTE_U = x AND PTE_U" "(x AND PTE_SYSCALL) AND PTE_W = x AND PTE_W"
  by (simp_all add: PTE_SYSCALL_def and.assoc)

lemma table_same: "tables_step s A va fl t fl' \<Longrightarrow> pt_frame s A (PDX va) \<noteq> 0 \<Longrightarrow> d < 0x400 \<Longrightarrow> pt_frame t A d = pt_frame s A d"
  unfolding tables_step_def by blast

lemma frames_same:
  assumes "tables_step s A va fl t fl'" "pt_frame s A (PDX va) \<noteq> 0"
  shows "vm_frames t A = vm_frames s A"
proof -
  have "d < 0x400" if "d < user_slots" for d using that by (simp add: word_less_nat_alt)
  hence eq: "pt_frame t A d = pt_frame s A d" if "d < user_slots" for d using table_same [OF assms] that by blast
  show ?thesis by (rule set_eqI) (simp add: vm_frames_def, metis eq user_slots_def)
qed

definition dup_entry :: "u32 \<Rightarrow> u32" where
  "dup_entry x = entry_with x (x AND PTE_SYSCALL)"

text \<open>\<^verbatim>\<open>dup\<close>, when closing the new descriptor has nothing to do.\<close>

lemma dup_ok:
  assumes us: "user_as s c A fl k" and i: "old < 32" "new < 64"
    and cl: "u_close devs new s = Done r s"
    and x: "x = vmap s A (INDEX2FD old)" "x AND PTE_P \<noteq> 0" "x AND PTE_U \<noteq> 0" "unat (pp_ref (pages s (PGNUM x))) < 0xFFFE"
    and y: "y = vmap s A (INDEX2DATA old)" "y AND PTE_P \<noteq> 0 \<Longrightarrow> y AND PTE_U \<noteq> 0 \<and>
        unat (pp_ref (pages s (PGNUM y))) < 0xFFFE \<and> vmap s A (INDEX2DATA new) AND PTE_P = 0"
  shows "\<exists>t fl'. u_dup devs old new s = Done new t \<and> user_as t c A fl' k \<and>
    (\<forall>a < UTOP. vmap t A a = (if PGNUM a = PGNUM (INDEX2FD new) then dup_entry x
       else if y AND PTE_P \<noteq> 0 \<and> PGNUM a = PGNUM (INDEX2DATA new) then dup_entry y else vmap s A a)) \<and>
    (\<forall>f. f \<notin> vm_frames s A \<longrightarrow> f \<notin> set fl \<longrightarrow> pmem t f = pmem s f)"
proof -
  have lt: "old < 128" "new < 128" "new + 32 < 128" "old + 32 < 128" "new + 32 \<noteq> old"
    using i by (auto simp: word_less_nat_alt unat_word_ariths)
  note O = fd_addr [OF lt(1)] and N = fd_addr [OF lt(2)] and OD = fd_addr [OF lt(4)] and ND = fd_addr [OF lt(3)]
  note U = user_asD [OF us]
  have pt: "pt_frame s A 0x340 \<noteq> 0" using present_table [of s A "INDEX2FD old"] x(1,2) O(4) by simp
  have fl: "PGNUM x \<notin> set fl" "1 \<le> unat (pp_ref (pages s (PGNUM x)))"
  proof -
    show "PGNUM x \<notin> set fl" using vm_wf_mapped [OF U(7) O(1)] x(1,2) by (simp add: page_ok_def)
    have "pp_ref (pages s (PGNUM x)) \<noteq> 0" using mapped_counted [OF U(9) O(1)] x(1,2) by simp
    thus "1 \<le> unat (pp_ref (pages s (PGNUM x)))" by (simp add: unat_gt_0 Suc_le_eq)
  qed
  have lk: "fd_lookup old s = Done (Inr (INDEX2FD old)) s" using fd_lookup_number [OF us i(1)] x(1,2) by simp
  have m: "mapped (INDEX2FD (old + 32)) s = Done (y AND PTE_P \<noteq> 0) s"
    using user_mapped [OF us OD(1)] y(1) by (simp add: data_is_fd)
  obtain t1 fl1 where t1: "(if y AND PTE_P \<noteq> 0 then kbind (uvpt (PGNUM (INDEX2FD (old + 32))) s)
        (\<lambda>pte s. u_sys_page_map 0 (INDEX2FD (old + 32)) 0 (INDEX2FD (new + 32)) (pte AND PTE_SYSCALL) s) else Done 0 s) = Done 0 t1"
    "user_as t1 c A fl1 k" "set fl1 \<subseteq> set fl" "vm_frames t1 A = vm_frames s A" "pt_frame t1 A 0x340 \<noteq> 0"
    "\<forall>a < UTOP. vmap t1 A a = (if y AND PTE_P \<noteq> 0 \<and> PGNUM a = PGNUM (INDEX2FD (new + 32)) then dup_entry y else vmap s A a)"
    "pp_ref (pages t1 (PGNUM x)) \<noteq> 0xFFFF" "\<forall>f. f \<notin> vm_frames s A \<longrightarrow> f \<notin> set fl \<longrightarrow> pmem t1 f = pmem s f"
  proof (cases "y AND PTE_P \<noteq> 0")
    case False
    have "pp_ref (pages s (PGNUM x)) \<noteq> 0xFFFF" using x(4) by auto
    thus ?thesis using that [of s fl] False us pt by simp
  next
    case True
    have Y: "y AND PTE_U \<noteq> 0" "unat (pp_ref (pages s (PGNUM y))) < 0xFFFE" "vmap s A (INDEX2FD (new + 32)) AND PTE_P = 0"
      using y(2) [OF True] by (simp_all add: data_is_fd)
    have yo: "y = vmap s A (INDEX2FD (old + 32))" using y(1) by (simp add: data_is_fd)
    have uv: "uvpt (PGNUM (INDEX2FD (old + 32))) s = Done y s" using user_uvpt [OF us OD(1)] True yo by simp
    have sat: "pp_ref (pages s (PGNUM y)) \<noteq> 0xFFFF" using Y(2) by auto
    have ptd: "pt_frame s A (PDX (INDEX2FD (new + 32))) \<noteq> 0" using pt ND(4) by simp
    have w: "(y AND PTE_SYSCALL) AND PTE_W = 0 \<or> y AND PTE_W \<noteq> 0" using syscall_bits(2) [of y] by metis
    obtain t fl' where t: "u_sys_page_map 0 (INDEX2FD (old + 32)) 0 (INDEX2FD (new + 32)) (y AND PTE_SYSCALL) s = Done 0 t"
      "user_as t c A fl' k"
      "\<forall>a < UTOP. vmap t A a = (if PGNUM a = PGNUM (INDEX2FD (new + 32)) then entry_with y (y AND PTE_SYSCALL) else vmap s A a)"
      "\<forall>q. q \<notin> set fl \<longrightarrow> pp_ref (pages t q) = (pp_ref (pages s q) + (if q = PGNUM y then 1 else 0)) -
         (if vmap s A (INDEX2FD (new + 32)) AND PTE_P \<noteq> 0 \<and> q = PGNUM (vmap s A (INDEX2FD (new + 32))) then 1 else 0)"
      "\<forall>f. f \<notin> vm_frames s A \<longrightarrow> f \<notin> set fl \<longrightarrow> pmem t f = pmem s f"
      "tables_step s A (INDEX2FD (new + 32)) fl t fl'"
      "set fl' \<subseteq> set fl \<union> (if vmap s A (INDEX2FD (new + 32)) AND PTE_P \<noteq> 0 then {PGNUM (vmap s A (INDEX2FD (new + 32)))} else {})"
      using user_map [OF us OD(1,2) ND(1,2), folded yo, OF True share_perm [OF Y(1) True] w sat disjI1 [OF ptd]] by blast
    have t: "u_sys_page_map 0 (INDEX2FD (old + 32)) 0 (INDEX2FD (new + 32)) (y AND PTE_SYSCALL) s = Done 0 t"
      "user_as t c A fl' k"
      "\<forall>a < UTOP. vmap t A a = (if PGNUM a = PGNUM (INDEX2FD (new + 32)) then entry_with y (y AND PTE_SYSCALL) else vmap s A a)"
      "\<forall>q. q \<notin> set fl \<longrightarrow> pp_ref (pages t q) = pp_ref (pages s q) + (if q = PGNUM y then 1 else 0)"
      "\<forall>f. f \<notin> vm_frames s A \<longrightarrow> f \<notin> set fl \<longrightarrow> pmem t f = pmem s f"
      "tables_step s A (INDEX2FD (new + 32)) fl t fl'" "set fl' \<subseteq> set fl"
      using t Y(3) by simp_all
    have "pt_frame t A 0x340 \<noteq> 0" using table_same [OF t(6) ptd, of "0x340"] pt by simp
    moreover have "pp_ref (pages t (PGNUM x)) \<noteq> 0xFFFF"
    proof -
      have "unat (pp_ref (pages t (PGNUM x))) \<le> Suc (unat (pp_ref (pages s (PGNUM x))))"
        using t(4) fl(1) x(4) by (simp add: unat_word_ariths)
      thus ?thesis using x(4) by auto
    qed
    moreover have "(if y AND PTE_P \<noteq> 0 then kbind (uvpt (PGNUM (INDEX2FD (old + 32))) s)
        (\<lambda>pte s. u_sys_page_map 0 (INDEX2FD (old + 32)) 0 (INDEX2FD (new + 32)) (pte AND PTE_SYSCALL) s) else Done 0 s) = Done 0 t"
      using True uv t(1) by simp
    ultimately show ?thesis using that [OF _ t(2,7) frames_same [OF t(6) ptd]] t(3,5) True by (simp add: dup_entry_def)
  qed
  have x1: "vmap t1 A (INDEX2FD old) = x" using t1(6) O(1) x(1) fd_page_eq [OF lt(1,3)] lt(5) by simp
  have uv1: "uvpt (PGNUM (INDEX2FD old)) t1 = Done x t1" using user_uvpt [OF t1(2) O(1)] x1 x(2) by simp
  have w: "(x AND PTE_SYSCALL) AND PTE_W = 0 \<or> x AND PTE_W \<noteq> 0" using syscall_bits(2) [of x] by metis
  have ptn: "pt_frame t1 A (PDX (INDEX2FD new)) \<noteq> 0" using t1(5) N(4) by simp
  obtain t fl' where t: "u_sys_page_map 0 (INDEX2FD old) 0 (INDEX2FD new) (x AND PTE_SYSCALL) t1 = Done 0 t" "user_as t c A fl' k"
    "\<forall>a < UTOP. vmap t A a = (if PGNUM a = PGNUM (INDEX2FD new) then entry_with x (x AND PTE_SYSCALL) else vmap t1 A a)"
    "\<forall>f. f \<notin> vm_frames t1 A \<longrightarrow> f \<notin> set fl1 \<longrightarrow> pmem t f = pmem t1 f"
    using user_map [OF t1(2) O(1,2) N(1,2), unfolded x1, OF x(2) share_perm [OF x(3,2)] w t1(7) disjI1 [OF ptn]] by blast
  have run: "u_dup devs old new s = Done new t"
    using lk cl m t1(1) uv1 t(1) lt by (simp add: u_dup_def fd2data_INDEX2FD Let_def split: if_splits)
  show ?thesis
    using run t t1(3,4,6,8) by (intro exI [of _ t] exI [of _ fl'] conjI) (auto simp: dup_entry_def data_is_fd)
qed

lemma dup_entry_page [simp]: "PGNUM (dup_entry x) = PGNUM x" "dup_entry x AND 1 \<noteq> 0"
  "dup_entry x AND 4 = x AND 4" "dup_entry x AND 2 = x AND 2"
  using syscall_perm_less [of x] entry_with_bits [of 4 x "x AND PTE_SYSCALL"] entry_with_bits [of 2 x "x AND PTE_SYSCALL"]
    syscall_bits [of x] entry_with_present [of x "x AND PTE_SYSCALL"]
  by (simp_all add: dup_entry_def)

text \<open>An open descriptor: mapped for the program to read and write, with the page of its device if it has one.\<close>

definition fd_open :: "kst \<Rightarrow> u32 \<Rightarrow> u32 \<Rightarrow> bool" where
  "fd_open s A i \<longleftrightarrow> (let x = vmap s A (INDEX2FD i); y = vmap s A (INDEX2DATA i)
     in x AND PTE_P \<noteq> 0 \<and> x AND PTE_U \<noteq> 0 \<and> x AND PTE_W \<noteq> 0 \<and> unat (pp_ref (pages s (PGNUM x))) < 0xFFFE \<and>
       (y AND PTE_P \<noteq> 0 \<longrightarrow> y AND PTE_U \<noteq> 0 \<and> unat (pp_ref (pages s (PGNUM y))) < 0xFFFE))"

text \<open>C35: \<^verbatim>\<open>dup\<close> of an open descriptor onto a free number gives two numbers for one descriptor: both map the
  same page, and the same page of the device, so that a \<^verbatim>\<open>seek\<close> through one moves the offset of the other;
  nothing else is mapped differently.\<close>

theorem dup_shares_offset:
  assumes us: "user_as s c A fl k" and i: "old < 32" "new < 32" and op: "fd_open s A old"
    and free: "vmap s A (INDEX2FD new) AND PTE_P = 0" "vmap s A (INDEX2DATA new) AND PTE_P = 0"
  shows "\<exists>t u fl'. u_dup devs old new s = Done new t \<and> user_as t c A fl' k \<and>
    PGNUM (vmap t A (INDEX2FD new)) = PGNUM (vmap s A (INDEX2FD old)) \<and> vmap t A (INDEX2FD old) = vmap s A (INDEX2FD old) \<and>
    (vmap s A (INDEX2DATA old) AND PTE_P \<noteq> 0 \<longrightarrow>
       PGNUM (vmap t A (INDEX2DATA new)) = PGNUM (vmap s A (INDEX2DATA old))) \<and>
    (\<forall>a < UTOP. PGNUM a \<noteq> PGNUM (INDEX2FD new) \<longrightarrow> PGNUM a \<noteq> PGNUM (INDEX2DATA new) \<longrightarrow> vmap t A a = vmap s A a) \<and>
    u_seek new off t = Done 0 u \<and> fd_field 4 (INDEX2FD old) u = Done off u"
proof -
  let ?x = "vmap s A (INDEX2FD old)" and ?y = "vmap s A (INDEX2DATA old)"
  have lt: "old < 128" "new < 128" "new + 32 < 128" "new < 64" "old \<noteq> new + 32"
    using i by (auto simp: word_less_nat_alt unat_word_ariths)
  note O = fd_addr [OF lt(1)] and N = fd_addr [OF lt(2)] and ND = fd_addr [OF lt(3)]
  have x: "?x AND PTE_P \<noteq> 0" "?x AND PTE_U \<noteq> 0" "?x AND PTE_W \<noteq> 0" "unat (pp_ref (pages s (PGNUM ?x))) < 0xFFFE"
    and y: "?y AND PTE_P \<noteq> 0 \<Longrightarrow> ?y AND PTE_U \<noteq> 0 \<and> unat (pp_ref (pages s (PGNUM ?y))) < 0xFFFE \<and>
        vmap s A (INDEX2DATA new) AND PTE_P = 0"
    using op free(2) by (auto simp: fd_open_def Let_def)
  have ne: "old \<noteq> new" using x(1) free(1) by auto
  have cl: "u_close devs new s = Done (- E_INVAL) s"
    using fd_lookup_number [OF us i(2)] free(1) by (simp add: u_close_def)
  obtain t fl' where t: "u_dup devs old new s = Done new t" "user_as t c A fl' k"
    "\<forall>a < UTOP. vmap t A a = (if PGNUM a = PGNUM (INDEX2FD new) then dup_entry ?x
       else if ?y AND PTE_P \<noteq> 0 \<and> PGNUM a = PGNUM (INDEX2DATA new) then dup_entry ?y else vmap s A a)"
    using dup_ok [OF us i(1) lt(4) cl refl x(1,2,4) refl y] by blast
  have v: "vmap t A (INDEX2FD new) = dup_entry ?x" "vmap t A (INDEX2FD old) = ?x"
    using t(3) O(1) N(1) fd_page_eq [OF lt(1,2)] fd_page_eq [OF lt(1,3)] ne lt(5) by (simp_all add: data_is_fd)
  have d: "?y AND PTE_P \<noteq> 0 \<Longrightarrow> vmap t A (INDEX2DATA new) = dup_entry ?y"
    using t(3) ND(1) fd_page_eq [OF lt(3,2)] by (simp add: data_is_fd)
  have lk: "fd_lookup new t = Done (Inr (INDEX2FD new)) t"
    using fd_lookup_number [OF t(2) i(2)] v(1) by simp
  have w1: "(1 :: u32) < 0x400" by simp
  have n: "vmap t A (INDEX2FD new) AND PTE_P \<noteq> 0" "vmap t A (INDEX2FD new) AND PTE_U \<noteq> 0" "vmap t A (INDEX2FD new) AND PTE_W \<noteq> 0"
    using v(1) x dup_entry_page [of ?x] by simp_all
  obtain u where u: "ustore32 (INDEX2FD new + push_bit 2 1) off t = Done () u" "user_as u c A fl' k" "vmap u A = vmap t A"
    "pmem u = (pmem t)(PGNUM ?x := (pmem t (PGNUM ?x))(1 := off))"
    using user_store [OF t(2) N(1,2) w1 n, where v = off] unfolding v(1) dup_entry_page(1) by blast
  have "u_seek new off t = Done 0 u" using lk u(1) by (simp add: u_seek_def)
  moreover have "vmap u A (INDEX2FD old) = ?x" using u(3) v(2) by simp
  hence "fd_field 4 (INDEX2FD old) u = Done off u"
    using user_load [OF u(2) O(1,2) w1] x(1,2) u(4) by (simp add: fd_field_def)
  moreover have "vmap t A a = vmap s A a" if "a < UTOP" "PGNUM a \<noteq> PGNUM (INDEX2FD new)" "PGNUM a \<noteq> PGNUM (INDEX2DATA new)" for a
    using t(3) that by simp
  ultimately show ?thesis using t(1,2) v d by (intro exI [of _ t] exI [of _ u] exI [of _ fl'] conjI) auto
qed

text \<open>\<^verbatim>\<open>dup\<close> does not check the new number: with \<open>32 + j\<close> it succeeds and maps the descriptor over the
  device page of descriptor \<open>j\<close>.\<close>

theorem dup_overwrites_data:
  assumes us: "user_as s c A fl k" and i: "old < 32" "j < 32" and op: "fd_open s A old"
    and free: "vmap s A (INDEX2DATA (32 + j)) AND PTE_P = 0"
  shows "\<exists>t. u_dup devs old (32 + j) s = Done (32 + j) t \<and>
    PGNUM (vmap t A (INDEX2DATA j)) = PGNUM (vmap s A (INDEX2FD old)) \<and> vmap t A (INDEX2DATA j) AND PTE_P \<noteq> 0"
proof -
  let ?x = "vmap s A (INDEX2FD old)" and ?y = "vmap s A (INDEX2DATA old)"
  have lt: "32 + j < 64" "32 + j < 128" using i by (auto simp: word_less_nat_alt unat_word_ariths)
  have un: "unat (32 + j) = 32 + unat j" using i by (simp add: unat_word_ariths word_less_nat_alt)
  have x: "?x AND PTE_P \<noteq> 0" "?x AND PTE_U \<noteq> 0" "unat (pp_ref (pages s (PGNUM ?x))) < 0xFFFE"
    and y: "?y AND PTE_P \<noteq> 0 \<Longrightarrow> ?y AND PTE_U \<noteq> 0 \<and> unat (pp_ref (pages s (PGNUM ?y))) < 0xFFFE \<and>
        vmap s A (INDEX2DATA (32 + j)) AND PTE_P = 0"
    using op free by (auto simp: fd_open_def Let_def)
  have "unat (32 + j) < 2147483648" using lt(1) by (simp add: word_less_nat_alt)
  hence si: "sint (32 + j) = int (unat (32 + j))" by (rule sint_small)
  have "int MAXFD \<le> sint (32 + j)" unfolding si un by simp
  hence "fd_lookup (32 + j) s = Done (Inl (- E_INVAL)) s" by (simp add: fd_lookup_def)
  hence cl: "u_close devs (32 + j) s = Done (- E_INVAL) s" by (simp add: u_close_def)
  obtain t where t: "u_dup devs old (32 + j) s = Done (32 + j) t"
    "\<forall>a < UTOP. vmap t A a = (if PGNUM a = PGNUM (INDEX2FD (32 + j)) then dup_entry ?x
       else if ?y AND PTE_P \<noteq> 0 \<and> PGNUM a = PGNUM (INDEX2DATA (32 + j)) then dup_entry ?y else vmap s A a)"
    using dup_ok [OF us i(1) lt(1) cl refl x refl y] by blast
  have "INDEX2DATA j = INDEX2FD (32 + j)" by (simp add: data_is_fd add.commute)
  hence "vmap t A (INDEX2DATA j) = dup_entry ?x" using t(2) fd_addr(1) [OF lt(2)] by simp
  thus ?thesis using t(1) by (intro exI [of _ t]) simp
qed

section \<open>Closing a pipe\<close>

lemma user_unmap_again:
  assumes us: "user_as s c A fl k" and va: "va < UTOP" "PGOFF va = 0" and pt: "pt_frame s A (PDX va) \<noteq> 0" and z: "vmap s A va = 0"
  shows "\<exists>t. u_sys_page_unmap 0 va s = Done 0 t \<and> pp_ref (pages t 0) = pp_ref (pages s 0) - 1 \<and>
    (pp_ref (pages s 0) = 1 \<longrightarrow> page_free_list t = Some 0)"
proof -
  note U = user_asD [OF us]
  have n0: "0 < npages s" using vm_wf_pgdir(2) [OF U(7)] by (simp add: word_less_nat_alt)
  have "0 \<notin> set fl" using U(8) by (auto simp: page_rep_def)
  hence l0: "pp_link (pages s 0) = None" using U(8) n0 by (simp add: page_rep_def)
  let ?u = "put_pte A va 0 s"
  have up: "pages ?u = pages s" "page_free_list ?u = page_free_list s" by (simp_all add: put_pte_def)
  obtain w where w: "page_decref 0 ?u = Done () w" "pp_ref (pages w 0) = pp_ref (pages s 0) - 1"
    "pp_ref (pages s 0) = 1 \<longrightarrow> page_free_list w = Some 0"
    using l0 up by (cases "pp_ref (pages s 0) = 1")
      (simp_all add: page_decref_def Let_def page_free_def pages_upd_page)
  have pg0: "PGNUM (vmap s A va) = 0" using z by (simp add: PGNUM_def)
  have r: "page_remove A va s = Done () (tlb_invalidate A va w)"
    using page_remove_table [OF U(7) va(1) pt] n0 w(1) by (simp add: pg0)
  have "pages (tlb_invalidate A va w) = pages w" "page_free_list (tlb_invalidate A va w) = page_free_list w"
    by (simp_all add: tlb_invalidate_def split: option.splits)
  moreover have "u_sys_page_unmap 0 va s = Done 0 (tlb_invalidate A va w)"
    using r U va by (simp add: u_sys_page_unmap_def usyscall_def syscall_def sys_page_unmap_def bad_user_va_def envid2env_0)
  ultimately show ?thesis using w by (intro exI [of _ "tlb_invalidate A va w"]) simp
qed

text \<open>C36: \<^verbatim>\<open>close\<close> of a pipe unmaps the descriptor's page twice, the second time \<^verbatim>\<open>just to be sure\<close>; since the
  kernel takes the empty entry for a mapping of the physical page 0, every such \<^verbatim>\<open>close\<close> takes a reference
  from that page, and when its count comes to 0 the page of the BIOS is given to the allocator.\<close>

theorem close_pipe_drops_page0:
  assumes us: "user_as s c A fl k" and i: "i < 32" and op: "fd_open s A i"
    and dev: "pmem s (PGNUM (vmap s A (INDEX2FD i))) 0 = 0x70" and data: "vmap s A (INDEX2DATA i) AND PTE_P \<noteq> 0"
  shows "\<exists>t. u_close (devtab fsipc buf tmp pread pwrite) i s = Done 0 t \<and> pp_ref (pages t 0) = pp_ref (pages s 0) - 1 \<and>
    (pp_ref (pages s 0) = 1 \<longrightarrow> page_free_list t = Some 0)"
proof -
  let ?x = "vmap s A (INDEX2FD i)"
  have lt: "i < 128" "i + 32 < 128" "i + 32 \<noteq> i" using i by (auto simp: word_less_nat_alt unat_word_ariths)
  note O = fd_addr [OF lt(1)] and D = fd_addr [OF lt(2)]
  note U = user_asD [OF us]
  have x: "?x AND PTE_P \<noteq> 0" "?x AND PTE_U \<noteq> 0" using op by (simp_all add: fd_open_def Let_def)
  have w0: "(0 :: u32) < 0x400" by simp
  have ld: "fd_field 0 (INDEX2FD i) s = Done 0x70 s"
    using user_load [OF us O(1,2) w0 x] dev by (simp add: fd_field_def)
  have lk: "fd_lookup i s = Done (Inr (INDEX2FD i)) s" using fd_lookup_number [OF us i] x(1) by simp
  have nz: "PGNUM (vmap s A a) \<noteq> 0" if "a < UTOP" "vmap s A a AND PTE_P \<noteq> 0" for a
    using vm_wf_mapped [OF U(7) that] by (simp add: page_ok_def)
  obtain s1 fl1 where s1: "u_sys_page_unmap 0 (INDEX2FD i) s = Done 0 s1" "user_as s1 c A fl1 k"
    "\<forall>a < UTOP. vmap s1 A a = (if PGNUM a = PGNUM (INDEX2FD i) then 0 else vmap s A a)"
    "\<forall>q. pp_ref (pages s1 q) = (if q = PGNUM ?x then pp_ref (pages s (PGNUM ?x)) - 1 else pp_ref (pages s q))"
    "\<forall>d. pt_frame s1 A d = pt_frame s A d"
    using user_unmap [OF us O(1,2) x(1)] by blast
  have v1: "vmap s1 A (INDEX2FD (i + 32)) = vmap s A (INDEX2DATA i)"
    using s1(3) D(1) fd_page_eq [OF lt(2,1)] lt(3) by (simp add: data_is_fd)
  have P1: "vmap s1 A (INDEX2FD (i + 32)) AND PTE_P \<noteq> 0" using v1 data by simp
  obtain s2 fl2 where s2: "u_sys_page_unmap 0 (INDEX2FD (i + 32)) s1 = Done 0 s2" "user_as s2 c A fl2 k"
    "\<forall>a < UTOP. vmap s2 A a = (if PGNUM a = PGNUM (INDEX2FD (i + 32)) then 0 else vmap s1 A a)"
    "\<forall>q. pp_ref (pages s2 q) = (if q = PGNUM (vmap s1 A (INDEX2FD (i + 32)))
       then pp_ref (pages s1 (PGNUM (vmap s1 A (INDEX2FD (i + 32))))) - 1 else pp_ref (pages s1 q))"
    "\<forall>d. pt_frame s2 A d = pt_frame s1 A d"
    using user_unmap [OF s1(2) D(1,2) P1] by blast
  have z: "vmap s2 A (INDEX2FD i) = 0" using s2(3) s1(3) O(1) by simp
  have pt: "pt_frame s2 A (PDX (INDEX2FD i)) \<noteq> 0" using s2(5) s1(5) present_table [OF x(1)] by simp
  have r0: "pp_ref (pages s2 0) = pp_ref (pages s 0)"
    using s2(4) s1(4) nz [OF O(1) x(1)] nz [OF D(1)] data v1 by (simp add: data_is_fd)
  obtain t where t: "u_sys_page_unmap 0 (INDEX2FD i) s2 = Done 0 t" "pp_ref (pages t 0) = pp_ref (pages s2 0) - 1"
    "pp_ref (pages s2 0) = 1 \<longrightarrow> page_free_list t = Some 0"
    using user_unmap_again [OF s2(2) O(1,2) pt z] by blast
  have "dev_lookup (devtab fsipc buf tmp pread pwrite) 0x70 = Inr (devpipe pread pwrite)"
    by (simp add: dev_lookup_def devtab_def devfile_def devpipe_def)
  moreover have "devpipe_close (INDEX2FD i) s = Done 0 s2"
    using s1(1) s2(1) by (simp add: devpipe_close_def fd2data_INDEX2FD [OF lt(1)])
  ultimately have "u_close (devtab fsipc buf tmp pread pwrite) i s = Done 0 t"
    using lk ld t(1) by (simp add: u_close_def fd_close_def fd2num_INDEX2FD [OF lt(1)] devpipe_def)
  thus ?thesis using t(2,3) r0 by (intro exI [of _ t]) simp
qed

section \<open>A concrete program\<close>

text \<open>Descriptor 0 in frame 9, of a pipe, with the buffer in frame 12.\<close>

definition demo_fd :: kst where
  "demo_fd = demo_cow\<lparr>pmem := (\<lambda>_ _. 0)(8 := (\<lambda>_. 0)(0x340 := 0x5007, 0x3BD := 0x8005),
     5 := (\<lambda>_. 0)(0 := 0x9407, 32 := 0xC407), 9 := (\<lambda>_. 0)(0 := 0x70))\<rparr>"

lemma demo_fd_pt: "pt_frame demo_fd 0xF0008000 d = (if d = 0x340 then 5 else if d = 0x3BD then 8 else 0)"
  by (simp add: demo_fd_def pt_frame_def PGNUM_def)

lemma demo_fd_vmap: "va < UTOP \<Longrightarrow> vmap demo_fd 0xF0008000 va =
    (if PGNUM va = 0xD0000 then 0x9407 else if PGNUM va = 0xD0020 then 0xC407 else 0)"
proof -
  assume "va < UTOP"
  hence d: "PDX va \<noteq> 0x3BD" using PDX_user by fastforce
  have "PGNUM va = 0xD0000 \<longleftrightarrow> PDX va = 0x340 \<and> PTX va = 0" "PGNUM va = 0xD0020 \<longleftrightarrow> PDX va = 0x340 \<and> PTX va = 32"
    using PDX_PTX_eq_iff [where a = va and b = "0xD0000000"] PDX_PTX_eq_iff [where a = va and b = "0xD0020000"]
    by (simp_all add: PGNUM_def PDX_def PTX_def)
  thus ?thesis using d by (simp add: vmap_def demo_fd_pt) (simp add: demo_fd_def)
qed

lemma demo_fd_user: "user_as demo_fd 0 0xF0008000 [3, 6, 10, 11] (\<lambda>_. 0)"
proof -
  have P: "PGNUM 0x9407 = 9" "PGNUM 0xC407 = 12" by (simp_all add: PGNUM_def)
  have f: "npages demo_fd = 16" "page_rep demo_fd [3, 6, 10, 11]" "curenv demo_fd = Some 0"
    "env_pgdir (envs demo_fd 0) = 0xF0008000" "cur_pgdir demo_fd = 0xF0008000"
    using demo_cow_fields by (simp_all add: demo_fd_def page_rep_def curenv_def cur_pgdir_def)
  have r: "pp_ref (pages demo_fd 9) = 1" "pp_ref (pages demo_fd 12) = 1" by (simp_all add: demo_fd_def demo_cow_def)
  have wf: "vm_wf demo_fd 0xF0008000 [3, 6, 10, 11]"
    by (auto simp: vm_wf_def demo_fd_vmap demo_fd_pt f page_ok_def P)
  have sub: "maps demo_fd 0xF0008000 p \<subseteq> (if p = 9 then {0xD0000} else if p = 12 then {0xD0020} else {})" for p
    by (auto simp: maps_def demo_fd_vmap P split: if_splits)
  have c: "card (maps demo_fd 0xF0008000 p) \<le> (if p = 9 \<or> p = 12 then 1 else 0)" for p
    using card_mono [OF _ sub [of p]] by (cases "p = 9"; cases "p = 12") simp_all
  have "card (maps demo_fd 0xF0008000 p) + 0 \<le> unat (pp_ref (pages demo_fd p))" for p
    using c [of p] r by (cases "p = 9"; cases "p = 12") simp_all
  hence rc: "rc_inv demo_fd 0xF0008000 (\<lambda>_. 0)" unfolding rc_inv_def by blast
  have U: "PDX 0xEF400000 = 0x3BD" by (simp add: PDX_def)
  have sm: "self_map demo_fd 0xF0008000" by (simp add: self_map_def U demo_fd_pt) (simp add: demo_fd_def)
  have pf: "pde_flags demo_fd 0xF0008000" by (auto simp: pde_flags_def demo_fd_pt) (auto simp: demo_fd_def)
  show ?thesis using f wf rc sm pf by (simp add: user_as_def as_inv_def)
qed

lemma demo_fd_open: "fd_open demo_fd 0xF0008000 0" "vmap demo_fd 0xF0008000 (INDEX2FD 0) = 0x9407"
  "vmap demo_fd 0xF0008000 (INDEX2DATA 0) = 0xC407" "vmap demo_fd 0xF0008000 (INDEX2FD 1) = 0"
  "vmap demo_fd 0xF0008000 (INDEX2DATA 1) = 0" "vmap demo_fd 0xF0008000 (INDEX2DATA 33) = 0"
proof -
  have n: "PGNUM (INDEX2FD i) = 0xD0000 + i" "INDEX2FD i < UTOP" if "i < 128" for i using fd_addr [OF that] by simp_all
  have v: "vmap demo_fd 0xF0008000 (INDEX2FD i) = (if i = 0 then 0x9407 else if i = 32 then 0xC407 else 0)" if "i < 128" for i
    using demo_fd_vmap [OF n(2) [OF that]] n(1) [OF that] by simp
  show x: "vmap demo_fd 0xF0008000 (INDEX2FD 0) = 0x9407" "vmap demo_fd 0xF0008000 (INDEX2DATA 0) = 0xC407"
    "vmap demo_fd 0xF0008000 (INDEX2FD 1) = 0" "vmap demo_fd 0xF0008000 (INDEX2DATA 1) = 0"
    "vmap demo_fd 0xF0008000 (INDEX2DATA 33) = 0"
    using v [of 0] v [of 32] v [of 1] v [of 33] v [where i = "65"] by (simp_all add: data_is_fd)
  have r: "pp_ref (pages demo_fd 9) = 1" "pp_ref (pages demo_fd 12) = 1" by (simp_all add: demo_fd_def demo_cow_def)
  have P: "PGNUM 0x9407 = 9" "PGNUM 0xC407 = 12" by (simp_all add: PGNUM_def)
  show "fd_open demo_fd 0xF0008000 0" using x r P by (simp add: fd_open_def)
qed

theorem fd_alloc_lowest_witness:
  "fd_alloc demo_fd = Done (0, INDEX2FD 1) demo_fd"
proof -
  consider n where "n < 32" "fd_alloc demo_fd = Done (0, INDEX2FD (of_nat n)) demo_fd"
      "vmap demo_fd 0xF0008000 (INDEX2FD (of_nat n)) AND PTE_P = 0"
      "\<forall>m < n. vmap demo_fd 0xF0008000 (INDEX2FD (of_nat m)) AND PTE_P \<noteq> 0"
    | "\<forall>n < 32. vmap demo_fd 0xF0008000 (INDEX2FD (of_nat n)) AND PTE_P \<noteq> 0"
    using fd_alloc_lowest [OF demo_fd_user] by blast
  thus ?thesis
  proof cases
    case 1
    have "n \<noteq> 0" using 1(3) demo_fd_open(2) by (cases n) simp_all
    moreover have "\<not> 1 < n" using 1(4) demo_fd_open(4) by auto
    ultimately have "n = 1" by simp
    thus ?thesis using 1(2) by simp
  next
    case 2
    from 2 [rule_format, of 1] show ?thesis using demo_fd_open(4) by simp
  qed
qed

theorem dup_shares_offset_witness:
  "\<exists>t u. u_dup [] 0 1 demo_fd = Done 1 t \<and> u_seek 1 42 t = Done 0 u \<and> fd_field 4 (INDEX2FD 0) u = Done 42 u"
proof -
  have i: "(0 :: u32) < 32" "(1 :: u32) < 32" by simp_all
  show ?thesis using dup_shares_offset [OF demo_fd_user i demo_fd_open(1), where devs = "[]" and off = 42] demo_fd_open
    by auto
qed

theorem dup_overwrites_data_witness:
  "\<exists>t. u_dup [] 0 33 demo_fd = Done 33 t \<and> PGNUM (vmap t 0xF0008000 (INDEX2DATA 1)) = 9"
proof -
  have i: "(0 :: u32) < 32" "(1 :: u32) < 32" by simp_all
  have "vmap demo_fd 0xF0008000 (INDEX2DATA (32 + 1)) AND PTE_P = 0" using demo_fd_open(6) by simp
  from dup_overwrites_data [OF demo_fd_user i demo_fd_open(1) this, where devs = "[]"]
  show ?thesis using demo_fd_open(2) by (auto simp: PGNUM_def)
qed

theorem close_pipe_drops_page0_witness:
  "\<exists>t. u_close (devtab (\<lambda>_ _ s. Done 0 s) 0x804000 0xEEBFDF00 (\<lambda>_ _ _ s. Done 0 s) (\<lambda>_ _ _ s. Done 0 s)) 0 demo_fd = Done 0 t \<and>
     pp_ref (pages t 0) = 0 \<and> page_free_list t = Some 0"
proof -
  have i: "(0 :: u32) < 32" by simp
  have P: "PGNUM 0x9407 = 9" by (simp add: PGNUM_def)
  have "pmem demo_fd (PGNUM (vmap demo_fd 0xF0008000 (INDEX2FD 0))) 0 = 0x70" "vmap demo_fd 0xF0008000 (INDEX2DATA 0) AND PTE_P \<noteq> 0"
    using demo_fd_open(2,3) P by (simp_all add: demo_fd_def)
  moreover have "pp_ref (pages demo_fd 0) = 1" by (simp add: demo_fd_def demo_cow_def)
  ultimately show ?thesis
    using close_pipe_drops_page0 [OF demo_fd_user i demo_fd_open(1), where fsipc = "\<lambda>_ _ s. Done 0 s" and buf = "0x804000"
      and tmp = "0xEEBFDF00" and pread = "\<lambda>_ _ _ s. Done 0 s" and pwrite = "\<lambda>_ _ _ s. Done 0 s"] by auto
qed

end
