(* ===== verification/Shell.thy ===== *)
theory Shell
  imports Main "HOL-Library.Sublist"
begin

text \<open>
  The shell of \<^verbatim>\<open>src/labs/shell\<close>: reading a line (\<^verbatim>\<open>readline.c\<close>), string helpers (\<^verbatim>\<open>utils.c\<close>), commands
  (\<^verbatim>\<open>types.h\<close>, \<^verbatim>\<open>createcmd.c\<close>) and the parser (\<^verbatim>\<open>parsing.c\<close>).  A C string is the list of its characters
  without the terminator; a buffer that the parser cuts into pieces is a list that may hold terminators,
  and what follows it is zero.  \<open>None\<close> is an access outside an array or a heap block of the program, after
  which C promises nothing.  The C library is the argument \<open>lib\<close>: the variables that \<^verbatim>\<open>getenv\<close> finds, and how many
  bytes can be written to the heap block that \<^verbatim>\<open>malloc\<close> or \<^verbatim>\<open>realloc\<close> returns for a size (C promises the
  size itself; 0 stands for no memory).  The commands and tokens, whose sizes are constants, always get theirs.
\<close>

section \<open>Strings\<close>

definition NUL :: char where "NUL = CHR 0x00"
definition SPACE :: char where [simp]: "SPACE = CHR '' ''"
definition BUFLEN_sh :: nat where [simp]: "BUFLEN_sh = 1024"
definition MAXARGS :: nat where [simp]: "MAXARGS = 20"
definition ARGSIZE :: nat where [simp]: "ARGSIZE = 1024"

definition sh_cstr :: "string \<Rightarrow> string" where
  "sh_cstr b = takeWhile (\<lambda>c. c \<noteq> NUL) b"

text \<open>The characters come from \<^verbatim>\<open>getchar\<close>; the results are the buffer, no line at the end of the input, and
  the input that is left.  The buffer is not checked for its length.\<close>

fun read_chars :: "nat \<Rightarrow> string \<Rightarrow> string \<Rightarrow> (string option \<times> string) option" where
  "read_chars i buf [] = (if i \<le> BUFLEN_sh then Some (None, []) else None)"
| "read_chars i buf (c # cs) =
     (if c = CHR 0x0A then (if i < BUFLEN_sh then Some (Some buf, cs) else None)
      else read_chars (Suc i) (buf @ [c]) cs)"

definition read_line :: "string \<Rightarrow> (string option \<times> string) option" where
  "read_line = read_chars 0 []"

fun bc_from :: "int \<Rightarrow> string \<Rightarrow> char \<Rightarrow> int" where
  "bc_from i [] c = - 1"
| "bc_from i (x # xs) c = (if x = c then i else bc_from (i + 1) xs c)"

definition block_contains :: "string \<Rightarrow> char \<Rightarrow> int" where
  "block_contains buf c = bc_from 0 buf c"

text \<open>The two parts: the string before the splitter, and the buffer from the first character after it that is
  no space.\<close>

definition split_line :: "string \<Rightarrow> char \<Rightarrow> string \<times> string" where
  "split_line buf splitter =
    (takeWhile (\<lambda>c. c \<noteq> splitter \<and> c \<noteq> NUL) buf,
     dropWhile (\<lambda>c. c = SPACE) (drop 1 (dropWhile (\<lambda>c. c \<noteq> splitter \<and> c \<noteq> NUL) buf)))"

text \<open>The loop of \<^verbatim>\<open>remover_caracter\<close> over the array with its terminator.\<close>

function remover_loop :: "string \<Rightarrow> int \<Rightarrow> nat \<Rightarrow> nat \<Rightarrow> nat \<Rightarrow> string" where
  "remover_loop arg pos tam i contador =
    (if i < tam
     then let i = (if int contador = pos then Suc i else i)
       in remover_loop (arg[contador := arg ! i]) pos tam (Suc i) (Suc contador)
     else arg[contador := NUL])"
  by pat_completeness auto
termination by (relation "measure (\<lambda>(arg, pos, tam, i, contador). tam - i)") auto

declare remover_loop.simps [simp del]

definition remover_caracter :: "string \<Rightarrow> char \<Rightarrow> string" where
  "remover_caracter arg c = sh_cstr (remover_loop (arg @ [NUL]) (block_contains arg c) (length arg) 0 0)"

section \<open>The C library\<close>

record clib =
  getenv :: "string \<Rightarrow> string option"
  usable :: "nat \<Rightarrow> nat"

text \<open>\<^verbatim>\<open>strcpy\<close> to a block asked for with \<open>n\<close> bytes, terminator included.\<close>

definition heap_copy :: "(nat \<Rightarrow> nat) \<Rightarrow> nat \<Rightarrow> string \<Rightarrow> string option" where
  "heap_copy block n s = (if length s < block n then Some s else None)"

section \<open>Commands\<close>

record execcmd =
  redir :: bool
  scmd :: string
  argv :: "string option list"
  eargv :: "string list"
  out_file :: string
  in_file :: string
  err_file :: string

text \<open>The children of a pipe may be the null pointer.\<close>

datatype cmd = ExecCmd execcmd | BackCmd string cmd | PipeCmd "cmd option" cmd

definition new_exec :: "string \<Rightarrow> execcmd" where
  "new_exec s = \<lparr>redir = False, scmd = s, argv = [], eargv = [], out_file = [], in_file = [], err_file = []\<rparr>"

text \<open>The text of the command is copied to an array of \<^verbatim>\<open>BUFLEN\<close> bytes without a check.\<close>

definition exec_cmd_create :: "string \<Rightarrow> execcmd option" where
  "exec_cmd_create buf_cmd = (if length buf_cmd < BUFLEN_sh then Some (new_exec buf_cmd) else None)"

fun cmd_scmd :: "cmd \<Rightarrow> string" where
  "cmd_scmd (ExecCmd e) = scmd e"
| "cmd_scmd (BackCmd s c) = s"
| "cmd_scmd (PipeCmd l r) = []"

definition back_cmd_create :: "cmd \<Rightarrow> cmd option" where
  "back_cmd_create c = (if length (cmd_scmd c) < BUFLEN_sh then Some (BackCmd (cmd_scmd c) c) else None)"

definition pipe_cmd_create :: "cmd option \<Rightarrow> cmd option \<Rightarrow> cmd option" where
  "pipe_cmd_create left right = (case right of None \<Rightarrow> left | Some r \<Rightarrow> Some (PipeCmd left r))"

section \<open>Parsing a command\<close>

definition get_token :: "string \<Rightarrow> nat \<Rightarrow> string" where
  "get_token buf idx = takeWhile (\<lambda>c. c \<noteq> SPACE \<and> c \<noteq> NUL) (drop idx buf)"

definition parse_redir_flow :: "execcmd \<Rightarrow> string \<Rightarrow> execcmd option" where
  "parse_redir_flow c arg =
    (let outIdx = block_contains arg (CHR ''>'')
     in if 0 \<le> outIdx
        then Some ((if outIdx = 0 then c\<lparr>out_file := drop 1 arg\<rparr>
                    else if outIdx = 1 then c\<lparr>err_file := drop 2 arg\<rparr> else c)\<lparr>redir := True\<rparr>)
        else if 0 \<le> block_contains arg (CHR ''<'') then Some (c\<lparr>in_file := drop 1 arg, redir := True\<rparr>)
        else None)"

definition parse_environ_var :: "execcmd \<Rightarrow> string \<Rightarrow> execcmd option" where
  "parse_environ_var c arg =
    (if 0 < block_contains arg (CHR ''='') \<and> block_contains arg (CHR ''-'') < 0
     then Some (c\<lparr>eargv := eargv c @ [arg]\<rparr>) else None)"

text \<open>\<^verbatim>\<open>$?\<close> prints the status of the last command and becomes a null pointer.  A value is copied to a block asked
  for with its length, which leaves out the terminator.\<close>

definition expand_environ_var :: "clib \<Rightarrow> string \<Rightarrow> string option option" where
  "expand_environ_var lib arg =
    (if block_contains arg (CHR ''$'') = 0
     then if block_contains arg (CHR ''?'') = 1 then Some None
       else (case getenv lib (remover_caracter arg (CHR ''$'')) of None \<Rightarrow> Some (Some [])
         | Some v \<Rightarrow> if v = [] then Some (Some []) else map_option Some (heap_copy (usable lib) (length v) v))
     else Some (Some arg))"

text \<open>One token.  The arrays of a command have room for \<^verbatim>\<open>MAXARGS\<close> pointers, the token and the names of
  files for 1024 characters with the terminator.\<close>

definition parse_token :: "clib \<Rightarrow> execcmd \<Rightarrow> string \<Rightarrow> execcmd option" where
  "parse_token lib c tok =
    (if ARGSIZE \<le> length tok then None
     else case parse_redir_flow c tok of
       Some c' \<Rightarrow> Some c'
     | None \<Rightarrow> (case parse_environ_var c tok of
           Some c' \<Rightarrow> if length (eargv c) < MAXARGS then Some c' else None
         | None \<Rightarrow> (case expand_environ_var lib tok of None \<Rightarrow> None
           | Some a \<Rightarrow> if length (argv c) < MAXARGS then Some (c\<lparr>argv := argv c @ [a]\<rparr>) else None)))"

function parse_exec_loop :: "clib \<Rightarrow> string \<Rightarrow> nat \<Rightarrow> execcmd \<Rightarrow> execcmd option" where
  "parse_exec_loop lib buf idx c =
    (if idx < length buf
     then let tok = get_token buf idx; idx = idx + length tok; idx = (if idx < length buf then Suc idx else idx)
       in (case parse_token lib c tok of None \<Rightarrow> None | Some c \<Rightarrow> parse_exec_loop lib buf idx c)
     else if length (argv c) < MAXARGS then Some c else None)"
  by pat_completeness auto
termination
proof (relation "measure (\<lambda>(lib, buf, idx, c). length buf - idx)")
  fix lib buf and idx :: nat and c :: execcmd and x xa xb x2
  assume h: "idx < length buf" "x = get_token buf idx" "xa = idx + length x" "xb = (if xa < length buf then Suc xa else xa)"
  have "idx < xb"
  proof (cases "xa < length buf")
    case False
    hence "xb = xa" using h(4) by simp
    thus ?thesis using False h(1) by linarith
  qed (use h in simp)
  thus "((lib, buf, xb, x2), lib, buf, idx, c) \<in> measure (\<lambda>(lib, buf, idx, c). length buf - idx)" using h(1) by simp
qed simp

declare parse_exec_loop.simps [simp del]

definition parse_exec :: "clib \<Rightarrow> string \<Rightarrow> cmd option" where
  "parse_exec lib buf_cmd = (case exec_cmd_create buf_cmd of None \<Rightarrow> None
     | Some c \<Rightarrow> map_option ExecCmd (parse_exec_loop lib buf_cmd 0 c))"

definition parse_back :: "clib \<Rightarrow> string \<Rightarrow> cmd option" where
  "parse_back lib buf_cmd = (case parse_exec lib (takeWhile (\<lambda>c. c \<noteq> CHR ''&'') buf_cmd) of None \<Rightarrow> None
     | Some e \<Rightarrow> back_cmd_create e)"

text \<open>The results are the command, if there is one, and where the string was cut; \<open>prev\<close> is the character in
  front of it in memory, which the test looks at when the string begins with an ampersand.\<close>

definition in_back :: "char \<Rightarrow> string \<Rightarrow> bool" where
  "in_back prev buf_cmd = (let idx = block_contains buf_cmd (CHR ''&'')
     in 0 \<le> idx \<and> (if idx = 0 then prev else buf_cmd ! nat (idx - 1)) \<noteq> CHR ''>'')"

definition parse_cmd :: "clib \<Rightarrow> char \<Rightarrow> string \<Rightarrow> (cmd option \<times> nat option) option" where
  "parse_cmd lib prev buf_cmd =
    (if buf_cmd = [] then Some (None, None)
     else if in_back prev buf_cmd
     then map_option (\<lambda>c. (Some c, Some (nat (block_contains buf_cmd (CHR ''&''))))) (parse_back lib buf_cmd)
     else map_option (\<lambda>c. (Some c, None)) (parse_exec lib buf_cmd))"

text \<open>The right part is parsed as one command first, which may cut it at an ampersand, and again as a line when
  it holds a pipe after its first character.  The character in front of it is a space or the terminator.\<close>

function parse_line :: "clib \<Rightarrow> char \<Rightarrow> string \<Rightarrow> cmd option option" where
  "parse_line lib prev buf =
    (let left = fst (split_line buf (CHR ''|'')); right = snd (split_line buf (CHR ''|''))
     in case parse_cmd lib prev left of None \<Rightarrow> None | Some (l, _) \<Rightarrow>
       (case parse_cmd lib SPACE (sh_cstr right) of None \<Rightarrow> None | Some (r, amp) \<Rightarrow>
         let right = (case amp of None \<Rightarrow> right | Some i \<Rightarrow> right[i := NUL])
         in if 0 < block_contains (sh_cstr right) (CHR ''|'') \<and> length right < length buf
            then (case parse_line lib SPACE right of None \<Rightarrow> None | Some r \<Rightarrow> Some (pipe_cmd_create l r))
            else Some (pipe_cmd_create l r)))"
  by pat_completeness auto
termination by (relation "measure (\<lambda>(lib, prev, buf). length buf)") (auto simp: Let_def)

declare parse_line.simps [simp del]

text \<open>The right part is shorter than the whole, so the second condition of the recursion always holds there.\<close>

lemma split_line_shorter: "snd (split_line buf c) \<noteq> [] \<Longrightarrow> length (snd (split_line buf c)) < length buf"
proof -
  assume h: "snd (split_line buf c) \<noteq> []"
  let ?d = "dropWhile (\<lambda>x. x \<noteq> c \<and> x \<noteq> NUL) buf"
  have "length (snd (split_line buf c)) \<le> length (drop 1 ?d)"
    unfolding split_line_def snd_conv by (rule length_dropWhile_le)
  moreover have "?d \<noteq> []"
  proof
    assume "?d = []"
    thus False using h unfolding split_line_def by (simp del: dropWhile_eq_Nil_conv)
  qed
  hence "length (drop 1 ?d) < length ?d" by (cases ?d) simp_all
  moreover have "length ?d \<le> length buf" by (rule length_dropWhile_le)
  ultimately show ?thesis by linarith
qed


section \<open>Lemmas on strings\<close>

lemma bc_from_not: "c \<notin> set xs \<Longrightarrow> bc_from i xs c = - 1"
  by (induction xs arbitrary: i) auto

lemma bc_from_split: "c \<notin> set xs \<Longrightarrow> bc_from i (xs @ c # ys) c = i + int (length xs)"
  by (induction xs arbitrary: i) auto

lemma block_contains_not: "c \<notin> set xs \<Longrightarrow> block_contains xs c = - 1"
  by (simp add: block_contains_def bc_from_not)

lemma block_contains_split: "c \<notin> set xs \<Longrightarrow> block_contains (xs @ c # ys) c = int (length xs)"
  by (simp add: block_contains_def bc_from_split)

lemma sh_cstr_no_NUL: "NUL \<notin> set xs \<Longrightarrow> sh_cstr xs = xs"
  unfolding sh_cstr_def by (induction xs) auto

lemma sh_cstr_append_NUL: "sh_cstr (xs @ NUL # ys) = sh_cstr xs"
  unfolding sh_cstr_def by (induction xs) auto

section \<open>Removing a character\<close>

lemma remover_keep:
  assumes "length xs = Suc n" "k \<le> p" "p \<le> n" "int p \<le> pos \<or> pos < 0"
  shows "remover_loop xs pos n k k = remover_loop xs pos n p p"
  using assms(2)
proof (induction "p - k" arbitrary: k)
  case 0 thus ?case by simp
next
  case (Suc d)
  have "k < n" "int k \<noteq> pos" using Suc(2) assms(3,4) by auto
  hence "remover_loop xs pos n k k = remover_loop xs pos n (Suc k) (Suc k)" by (subst remover_loop.simps) simp
  also have "\<dots> = remover_loop xs pos n p p" using Suc by (intro Suc(1)) auto
  finally show ?case .
qed

lemma sh_cstr_update_NUL: "n < length xs \<Longrightarrow> sh_cstr (xs[n := NUL]) = sh_cstr (take n xs)"
  by (simp add: upd_conv_take_nth_drop sh_cstr_append_NUL)

lemma remover_shift:
  assumes "length xs = Suc n" "xs ! n = NUL" "pos < int k" "k \<le> n"
  shows "sh_cstr (remover_loop xs pos n (Suc k) k) = sh_cstr (take k xs @ drop (Suc k) xs)"
  using assms
proof (induction "n - k" arbitrary: k xs)
  case 0 thus ?case by (subst remover_loop.simps) (simp add: sh_cstr_update_NUL)
next
  case (Suc d)
  show ?case
  proof (cases "Suc k < n")
    case True
    let ?x = "xs[k := xs ! Suc k]"
    have "sh_cstr (remover_loop xs pos n (Suc k) k) = sh_cstr (remover_loop ?x pos n (Suc (Suc k)) (Suc k))"
      using True Suc(5) by (subst remover_loop.simps) simp
    also have "\<dots> = sh_cstr (take (Suc k) ?x @ drop (Suc (Suc k)) ?x)" using True Suc by (intro Suc(1)) auto
    also have "take (Suc k) ?x @ drop (Suc (Suc k)) ?x = take k xs @ drop (Suc k) xs"
      using True Suc(3) by (simp add: take_Suc_conv_app_nth Cons_nth_drop_Suc)
    finally show ?thesis .
  next
    case False
    hence n: "n = Suc k" using Suc(2,6) by linarith
    have "drop (Suc k) xs = [NUL]" using Suc(3,4) n by (metis Cons_nth_drop_Suc drop_all lessI order_refl)
    thus ?thesis using Suc(3) n by (subst remover_loop.simps) (simp add: sh_cstr_update_NUL sh_cstr_append_NUL)
  qed
qed

lemma remover_hit:
  assumes "length xs = Suc n" "xs ! n = NUL" "p < n"
  shows "sh_cstr (remover_loop xs (int p) n 0 0) = sh_cstr (take p xs @ drop (Suc p) xs)"
proof -
  let ?x = "xs[p := xs ! Suc p]"
  have "remover_loop xs (int p) n 0 0 = remover_loop xs (int p) n p p" using assms by (intro remover_keep) auto
  also have "\<dots> = remover_loop ?x (int p) n (Suc (Suc p)) (Suc p)" using assms(3) by (subst remover_loop.simps) simp
  finally have "sh_cstr (remover_loop xs (int p) n 0 0) = sh_cstr (take (Suc p) ?x @ drop (Suc (Suc p)) ?x)"
    using assms by (simp add: remover_shift)
  also have "take (Suc p) ?x @ drop (Suc (Suc p)) ?x = take p xs @ drop (Suc p) xs"
    using assms by (simp add: take_Suc_conv_app_nth Cons_nth_drop_Suc)
  finally show ?thesis .
qed

text \<open>\<^verbatim>\<open>remover_caracter\<close>, which shifts the characters of the array in place, removes the first occurrence of
  the character and nothing else, also when the character does not occur or is the last one, where the loop
  reads the terminator.\<close>

lemma remover_eq: "NUL \<notin> set arg \<Longrightarrow> remover_caracter arg c = remove1 c arg"
proof -
  assume N: "NUL \<notin> set arg"
  show ?thesis
  proof (cases "c \<in> set arg")
    case True
    then obtain a b where ab: "arg = a @ c # b" "c \<notin> set a" by (meson split_list_first)
    let ?x = "arg @ [NUL]"
    have "remover_caracter arg c = sh_cstr (remover_loop ?x (int (length a)) (length arg) 0 0)"
      by (simp add: remover_caracter_def ab block_contains_split)
    also have "\<dots> = sh_cstr (take (length a) ?x @ drop (Suc (length a)) ?x)" 
    proof (rule remover_hit)
      show "length a < length arg" by (simp add: ab)
    qed simp_all
    also have "\<dots> = sh_cstr ((a @ b) @ NUL # [])" by (simp add: ab)
    also have "\<dots> = a @ b" using N by (subst sh_cstr_append_NUL, subst sh_cstr_no_NUL) (auto simp: ab)
    finally show ?thesis by (simp add: ab remove1_append)
  next
    case False
    have "remover_caracter arg c = sh_cstr (remover_loop (arg @ [NUL]) (- 1) (length arg) 0 0)"
      by (simp add: remover_caracter_def block_contains_not False)
    also have "\<dots> = sh_cstr (remover_loop (arg @ [NUL]) (- 1) (length arg) (length arg) (length arg))"
      by (subst remover_keep[of _ "length arg" 0 "length arg"]) simp_all
    also have "\<dots> = arg" using N by (subst remover_loop.simps) (simp add: sh_cstr_append_NUL sh_cstr_no_NUL)
    finally show ?thesis by (simp add: False remove1_idem)
  qed
qed

section \<open>Commands of plain words\<close>

text \<open>The tokens of a string, and the words that mean nothing special to the parser: \<open>plain\<close> words may hold a pipe.\<close>

function toks :: "string \<Rightarrow> string list" where
  "toks s = (if s = [] then []
     else takeWhile (\<lambda>c. c \<noteq> SPACE) s # toks (drop 1 (dropWhile (\<lambda>c. c \<noteq> SPACE) s)))"
  by pat_completeness auto
termination
proof (relation "measure length")
  fix s :: string
  assume "s \<noteq> []"
  let ?d = "dropWhile (\<lambda>c. c \<noteq> SPACE) s"
  have "length ?d \<le> length s" "0 < length s" using \<open>s \<noteq> []\<close> by (simp_all add: length_dropWhile_le del: SPACE_def)
  hence "length ?d - 1 < length s" by linarith
  thus "(drop 1 ?d, s) \<in> measure length" by (simp del: SPACE_def)
qed simp

declare toks.simps [simp del]

fun unwords :: "string list \<Rightarrow> string" where
  "unwords [] = []"
| "unwords [w] = w"
| "unwords (w # ws) = w @ SPACE # unwords ws"

definition plain :: "string \<Rightarrow> bool" where
  "plain w = (w \<noteq> [] \<and> length w < ARGSIZE \<and>
     list_all (\<lambda>c. c \<noteq> SPACE \<and> c \<noteq> NUL \<and> c \<notin> set ''&<>=$'') w)"

definition word :: "string \<Rightarrow> bool" where
  "word w = (plain w \<and> CHR ''|'' \<notin> set w)"

text \<open>The words of a pipeline with its bars, and the tree it stands for.\<close>

fun pipe_words :: "string list list \<Rightarrow> string list" where
  "pipe_words [] = []"
| "pipe_words [c] = c"
| "pipe_words (c # cs) = c @ ''|'' # pipe_words cs"

definition simple_cmd :: "string \<Rightarrow> string list \<Rightarrow> cmd" where
  "simple_cmd s ws = ExecCmd ((new_exec s)\<lparr>argv := map Some ws\<rparr>)"

fun pipe_tree :: "string list list \<Rightarrow> cmd" where
  "pipe_tree [] = simple_cmd [] []"
| "pipe_tree [c] = simple_cmd (unwords c) c"
| "pipe_tree (c # cs) = PipeCmd (Some (simple_cmd (unwords c @ [SPACE]) c)) (pipe_tree cs)"

text \<open>The pipelines that fit into the arrays of the parser.\<close>

definition line_fits :: "string list list \<Rightarrow> bool" where
  "line_fits cs =
    (length (hd cs) < MAXARGS \<and> length (pipe_words (tl cs)) < MAXARGS \<and>
     length (unwords (hd cs)) + (if tl cs = [] then 0 else 1) < BUFLEN_sh \<and> length (unwords (pipe_words (tl cs))) < BUFLEN_sh)"

fun parse_tokens :: "clib \<Rightarrow> execcmd \<Rightarrow> string list \<Rightarrow> execcmd option" where
  "parse_tokens lib c [] = Some c"
| "parse_tokens lib c (t # ts) = (case parse_token lib c t of None \<Rightarrow> None | Some c \<Rightarrow> parse_tokens lib c ts)"

lemma drop_takeWhile_length: "drop (length (takeWhile P xs)) xs = dropWhile P xs"
  by (metis append_eq_conv_conj takeWhile_dropWhile_id)

lemma parse_exec_loop_toks:
  assumes "NUL \<notin> set buf"
  shows "parse_exec_loop lib buf idx c = (case parse_tokens lib c (toks (drop idx buf)) of None \<Rightarrow> None
     | Some c \<Rightarrow> if length (argv c) < MAXARGS then Some c else None)"
  using assms
proof (induction lib buf idx c rule: parse_exec_loop.induct)
  case (1 lib buf idx c)
  show ?case
  proof (cases "idx < length buf")
    case True
    let ?s = "drop idx buf"
    let ?t = "takeWhile (\<lambda>c. c \<noteq> SPACE) ?s"
    let ?j = "idx + length ?t"
    let ?i = "if ?j < length buf then Suc ?j else ?j"
    have "NUL \<notin> set ?s" using 1(2) by (meson in_set_dropD)
    hence t: "get_token buf idx = ?t" unfolding get_token_def by (intro takeWhile_cong) auto
    have "drop ?i buf = drop 1 (drop ?j buf)" by simp
    also have "drop ?j buf = drop (length ?t) ?s" by (simp add: add.commute)
    also have "\<dots> = dropWhile (\<lambda>c. c \<noteq> SPACE) ?s" by (rule drop_takeWhile_length)
    finally have d: "toks (drop ?i buf) = toks (drop 1 (dropWhile (\<lambda>c. c \<noteq> SPACE) ?s))" by (rule arg_cong)
    have tk: "toks ?s = ?t # toks (drop ?i buf)" unfolding d using True by (subst toks.simps) simp
    have IH: "parse_exec_loop lib buf ?i c' = (case parse_tokens lib c' (toks (drop ?i buf)) of None \<Rightarrow> None
       | Some c \<Rightarrow> if length (argv c) < MAXARGS then Some c else None)" if "parse_token lib c ?t = Some c'" for c'
      using 1(1)[OF True t[symmetric] refl refl that 1(2)] .
    have step: "parse_exec_loop lib buf idx c =
       (case parse_token lib c ?t of None \<Rightarrow> None | Some c \<Rightarrow> parse_exec_loop lib buf ?i c)"
      using True by (subst parse_exec_loop.simps) (simp only: t Let_def if_True)
    show ?thesis
    proof (cases "parse_token lib c ?t")
      case None
      thus ?thesis by (simp only: step tk parse_tokens.simps option.case)
    next
      case (Some c')
      show ?thesis unfolding step tk parse_tokens.simps Some option.case by (rule IH[OF Some])
    qed
  next
    case False
    thus ?thesis by (subst parse_exec_loop.simps) (simp add: toks.simps)
  qed
qed

lemma plainD:
  assumes "plain w"
  shows "w \<noteq> []" "length w < ARGSIZE" "SPACE \<notin> set w" "NUL \<notin> set w" "CHR ''&'' \<notin> set w" "CHR ''<'' \<notin> set w"
    "CHR ''>'' \<notin> set w" "CHR ''='' \<notin> set w" "CHR ''$'' \<notin> set w"
  using assms by (auto simp: plain_def list_all_iff)

lemma parse_token_plain:
  assumes "plain w"
  shows "parse_token lib c w = (if length (argv c) < MAXARGS then Some (c\<lparr>argv := argv c @ [Some w]\<rparr>) else None)"
  using plainD[OF assms]
  by (simp add: parse_token_def parse_redir_flow_def parse_environ_var_def expand_environ_var_def block_contains_not
      del: ARGSIZE_def MAXARGS_def)

lemma parse_tokens_plain:
  "list_all plain ws \<Longrightarrow> length (argv c) \<le> MAXARGS \<Longrightarrow> parse_tokens lib c ws =
     (if length (argv c) + length ws \<le> MAXARGS then Some (c\<lparr>argv := argv c @ map Some ws\<rparr>) else None)"
  by (induction ws arbitrary: c) (simp_all add: parse_token_plain del: MAXARGS_def)

lemma takeWhile_word: "SPACE \<notin> set w \<Longrightarrow> takeWhile (\<lambda>c. c \<noteq> SPACE) (w @ SPACE # s) = w"
  "SPACE \<notin> set w \<Longrightarrow> dropWhile (\<lambda>c. c \<noteq> SPACE) (w @ SPACE # s) = SPACE # s"
  by (induction w) auto

lemma toks_cons: "w \<noteq> [] \<Longrightarrow> SPACE \<notin> set w \<Longrightarrow> toks (w @ SPACE # s) = w # toks s"
  by (subst toks.simps) (simp add: takeWhile_word del: SPACE_def)

lemma toks_one: "w \<noteq> [] \<Longrightarrow> SPACE \<notin> set w \<Longrightarrow> toks w = [w]"
proof -
  assume h: "w \<noteq> []" "SPACE \<notin> set w"
  have t: "takeWhile (\<lambda>c. c \<noteq> SPACE) w = w" "dropWhile (\<lambda>c. c \<noteq> SPACE) w = []" using h(2) by (auto simp: takeWhile_eq_all_conv)
  have "toks w = takeWhile (\<lambda>c. c \<noteq> SPACE) w # toks (drop 1 (dropWhile (\<lambda>c. c \<noteq> SPACE) w))"
    using h(1) by (subst toks.simps) (simp only: if_False)
  also have "\<dots> = w # toks []" by (simp only: t drop_Nil)
  finally show ?thesis by (simp add: toks.simps)
qed

lemma toks_unwords: "list_all plain ws \<Longrightarrow> toks (unwords ws) = ws"
proof (induction ws rule: unwords.induct)
  case 1 thus ?case by (simp add: toks.simps)
next
  case (2 w) thus ?case using plainD[of w] by (simp add: toks_one)
next
  case (3 w v vs) thus ?case using plainD(1,3)[of w] by (simp add: toks_cons del: SPACE_def)
qed

lemma toks_unwords_space: "list_all plain ws \<Longrightarrow> ws \<noteq> [] \<Longrightarrow> toks (unwords ws @ [SPACE]) = ws"
proof (induction ws rule: unwords.induct)
  case (2 w) thus ?case using plainD[of w] by (simp add: toks_cons toks.simps[of "[]"] del: SPACE_def)
next
  case (3 w v vs) thus ?case using plainD(1,3)[of w] by (simp add: toks_cons del: SPACE_def)
qed simp

lemma set_unwords: "set (unwords ws) \<subseteq> insert SPACE (\<Union>w \<in> set ws. set w)"
  by (induction ws rule: unwords.induct) auto


section \<open>Lines\<close>

lemma unwords_append: "a \<noteq> [] \<Longrightarrow> b \<noteq> [] \<Longrightarrow> unwords (a @ b) = unwords a @ SPACE # unwords b"
  by (induction a rule: unwords.induct) (auto simp: neq_Nil_conv simp del: SPACE_def)

lemma unwords_bar: "b \<noteq> [] \<Longrightarrow> unwords (''|'' # b) = CHR ''|'' # SPACE # unwords b"
  by (cases b) simp_all

lemma plain_bar [simp]: "plain ''|''"
  by (simp add: plain_def NUL_def)

lemma plain_words: "list_all word c \<Longrightarrow> list_all plain c"
  by (auto simp: list_all_iff word_def)

lemma pipe_words_plain: "list_all (list_all word) cs \<Longrightarrow> list_all plain (pipe_words cs)"
  by (induction cs rule: pipe_words.induct) (auto simp: plain_words)

lemma unwords_chars:
  assumes "list_all plain ws"
  shows "NUL \<notin> set (unwords ws)" "CHR ''&'' \<notin> set (unwords ws)"
  using assms set_unwords[of ws] plainD(4,5) by (fastforce simp: list_all_iff NUL_def)+

lemma unwords_no_bar: "list_all word ws \<Longrightarrow> CHR ''|'' \<notin> set (unwords ws)"
  using set_unwords[of ws] by (fastforce simp: list_all_iff word_def)

lemma unwords_nonempty: "list_all plain ws \<Longrightarrow> ws \<noteq> [] \<Longrightarrow> unwords ws \<noteq> []"
  using plainD(1) by (induction ws rule: unwords.induct) auto

lemma parse_cmd_plain:
  assumes "list_all plain ws" "ws \<noteq> []" "s = unwords ws \<or> s = unwords ws @ [SPACE]"
  shows "parse_cmd lib p s =
    (if length ws < MAXARGS \<and> length s < BUFLEN_sh then Some (Some (simple_cmd s ws), None) else None)"
proof -
  have t: "toks s = ws" using assms toks_unwords toks_unwords_space by blast
  have n: "NUL \<notin> set s" "CHR ''&'' \<notin> set s" "s \<noteq> []"
    using assms(3) unwords_chars[OF assms(1)] unwords_nonempty[OF assms(1,2)] by (auto simp: NUL_def)
  have a: "argv (new_exec s) = []" by (simp add: new_exec_def)
  have "parse_tokens lib (new_exec s) ws =
      (if length ws \<le> MAXARGS then Some ((new_exec s)\<lparr>argv := map Some ws\<rparr>) else None)"
    using parse_tokens_plain[OF assms(1), of "new_exec s" lib] by (simp add: a del: MAXARGS_def)
  hence "parse_exec_loop lib s 0 (new_exec s) =
      (if length ws < MAXARGS then Some ((new_exec s)\<lparr>argv := map Some ws\<rparr>) else None)"
    using parse_exec_loop_toks[OF n(1), of lib 0 "new_exec s"] by (simp add: t del: MAXARGS_def)
  thus ?thesis using n(2,3)
    by (simp add: parse_cmd_def in_back_def block_contains_not parse_exec_def exec_cmd_create_def simple_cmd_def
        del: MAXARGS_def BUFLEN_sh_def)
qed

lemma takeWhile_until: "set a \<inter> {c, NUL} = {} \<Longrightarrow>
    takeWhile (\<lambda>x. x \<noteq> c \<and> x \<noteq> NUL) (a @ c # s) = a \<and> dropWhile (\<lambda>x. x \<noteq> c \<and> x \<noteq> NUL) (a @ c # s) = c # s"
  by (induction a) auto

lemma takeWhile_none: "set a \<inter> {c, NUL} = {} \<Longrightarrow>
    takeWhile (\<lambda>x. x \<noteq> c \<and> x \<noteq> NUL) a = a \<and> dropWhile (\<lambda>x. x \<noteq> c \<and> x \<noteq> NUL) a = []"
  by (induction a) auto

lemma hd_unwords: "list_all plain ws \<Longrightarrow> ws \<noteq> [] \<Longrightarrow> hd (unwords ws) \<noteq> SPACE"
  using plainD(1,3)[of "hd ws"] by (cases ws rule: unwords.cases) (auto simp: hd_append neq_Nil_conv)

lemma dropWhile_unwords: "list_all plain ws \<Longrightarrow> dropWhile (\<lambda>c. c = SPACE) (unwords ws) = unwords ws"
proof (cases "ws = []")
  case False
  assume "list_all plain ws"
  from hd_unwords[OF this False] unwords_nonempty[OF this False]
  show ?thesis by (cases "unwords ws") (simp_all del: SPACE_def)
qed simp

lemma split_single:
  assumes "list_all word ws"
  shows "split_line (unwords ws) (CHR ''|'') = (unwords ws, [])"
proof -
  have "set (unwords ws) \<inter> {CHR ''|'', NUL} = {}"
    using unwords_no_bar[OF assms] unwords_chars[OF plain_words[OF assms]] by simp
  from takeWhile_none[OF this] show ?thesis unfolding split_line_def by (elim conjE) (simp only: drop_Nil dropWhile.simps)
qed

lemma split_pipe:
  assumes "list_all word c" "c \<noteq> []" "list_all plain ws" "ws \<noteq> []"
  shows "split_line (unwords (c @ ''|'' # ws)) (CHR ''|'') = (unwords c @ [SPACE], unwords ws)"
proof -
  have "unwords (c @ ''|'' # ws) = (unwords c @ [SPACE]) @ CHR ''|'' # SPACE # unwords ws"
    using assms(2,4) by (simp add: unwords_append unwords_bar)
  moreover have "set (unwords c @ [SPACE]) \<inter> {CHR ''|'', NUL} = {}"
    using unwords_no_bar[OF assms(1)] unwords_chars[OF plain_words[OF assms(1)]] by (auto simp: NUL_def)
  ultimately show ?thesis
    using takeWhile_until[of "unwords c @ [SPACE]" "CHR ''|''" "SPACE # unwords ws"] dropWhile_unwords[OF assms(3)]
    by (simp add: split_line_def)
qed


lemma pipe_words_nonempty: "cs \<noteq> [] \<Longrightarrow> list_all (\<lambda>c. c \<noteq> []) cs \<Longrightarrow> pipe_words cs \<noteq> []"
  by (cases cs rule: pipe_words.cases) auto

lemma parse_cmd_nil: "parse_cmd lib p [] = Some (None, None)"
  by (simp add: parse_cmd_def)

text \<open>One step of the parser on a line whose right part is made of plain words.\<close>

lemma parse_line_one:
  assumes "list_all word c" "c \<noteq> []"
  shows "parse_line lib p (unwords c) =
    (if length c < MAXARGS \<and> length (unwords c) < BUFLEN_sh then Some (Some (simple_cmd (unwords c) c)) else None)"
  by (subst parse_line.simps)
     (simp add: split_single[OF assms(1)] parse_cmd_plain[OF plain_words[OF assms(1)] assms(2)] parse_cmd_nil sh_cstr_def
        block_contains_not pipe_cmd_create_def del: MAXARGS_def BUFLEN_sh_def)

lemma parse_line_bar:
  assumes c: "list_all word c" "c \<noteq> []" and ws: "list_all plain ws" "ws \<noteq> []"
  shows "parse_line lib p (unwords (c @ ''|'' # ws)) =
    (if length c < MAXARGS \<and> length ws < MAXARGS \<and> length (unwords c) + 1 < BUFLEN_sh \<and> length (unwords ws) < BUFLEN_sh
     then (if 0 < block_contains (unwords ws) (CHR ''|'')
           then map_option (pipe_cmd_create (Some (simple_cmd (unwords c @ [SPACE]) c))) (parse_line lib SPACE (unwords ws))
           else Some (Some (PipeCmd (Some (simple_cmd (unwords c @ [SPACE]) c)) (simple_cmd (unwords ws) ws))))
     else None)"
proof -
  let ?b = "unwords (c @ ''|'' # ws)"
  have sp: "split_line ?b (CHR ''|'') = (unwords c @ [SPACE], unwords ws)" by (rule split_pipe[OF c ws])
  have cs: "sh_cstr (unwords ws) = unwords ws" by (rule sh_cstr_no_NUL) (rule unwords_chars(1)[OF ws(1)])
  have len: "length (unwords ws) < length ?b"
    using split_line_shorter[of ?b "CHR ''|''"] unwords_nonempty[OF ws] by (simp add: sp)
  have l: "parse_cmd lib p (unwords c @ [SPACE]) =
      (if length c < MAXARGS \<and> length (unwords c) + 1 < BUFLEN_sh
       then Some (Some (simple_cmd (unwords c @ [SPACE]) c), None) else None)"
    using parse_cmd_plain[OF plain_words[OF c(1)] c(2), of "unwords c @ [SPACE]" lib p]
    by (simp del: MAXARGS_def BUFLEN_sh_def)
  have r: "parse_cmd lib SPACE (unwords ws) =
      (if length ws < MAXARGS \<and> length (unwords ws) < BUFLEN_sh then Some (Some (simple_cmd (unwords ws) ws), None) else None)"
    by (rule parse_cmd_plain[OF ws]) simp
  show ?thesis
    by (subst parse_line.simps)
       (auto simp: sp cs l r len pipe_cmd_create_def map_option_case Let_def simp del: MAXARGS_def SPACE_def BUFLEN_sh_def
          split: option.splits)
qed

lemma block_contains_bar:
  assumes "list_all word c" "c \<noteq> []" "ws \<noteq> []"
  shows "0 < block_contains (unwords (c @ ''|'' # ws)) (CHR ''|'')"
proof -
  have "unwords (c @ ''|'' # ws) = (unwords c @ [SPACE]) @ CHR ''|'' # SPACE # unwords ws"
    using assms(2,3) by (simp add: unwords_append unwords_bar)
  moreover have "CHR ''|'' \<notin> set (unwords c @ [SPACE])" using unwords_no_bar[OF assms(1)] by simp
  ultimately have "block_contains (unwords (c @ ''|'' # ws)) (CHR ''|'') = int (length (unwords c @ [SPACE]))"
    using block_contains_split[of "CHR ''|''" "unwords c @ [SPACE]" "SPACE # unwords ws"] by (simp only: simp_thms)
  thus ?thesis by simp
qed

text \<open>What follows a bar fits by itself as soon as it fits as one command.\<close>

lemma line_fits_tail:
  assumes "length (pipe_words (d # ds)) < MAXARGS" "length (unwords (pipe_words (d # ds))) < BUFLEN_sh"
    "d \<noteq> []" "ds \<noteq> [] \<longrightarrow> pipe_words ds \<noteq> []"
  shows "line_fits (d # ds)"
proof (cases ds)
  case Nil
  thus ?thesis using assms by (simp add: line_fits_def)
next
  case (Cons e es)
  hence w: "pipe_words (d # ds) = d @ ''|'' # pipe_words ds" "pipe_words ds \<noteq> []" using assms(4) by simp_all
  have "unwords (pipe_words (d # ds)) = unwords d @ SPACE # CHR ''|'' # SPACE # unwords (pipe_words ds)"
    unfolding w(1) using assms(3) w(2) by (simp add: unwords_append unwords_bar del: SPACE_def)
  thus ?thesis using assms(1,2) unfolding w(1) by (simp add: line_fits_def Cons)
qed

lemma parse_pipeline_eq:
  "cs \<noteq> [] \<Longrightarrow> list_all (\<lambda>c. c \<noteq> []) cs \<Longrightarrow> list_all (list_all word) cs \<Longrightarrow>
   parse_line lib p (unwords (pipe_words cs)) = (if line_fits cs then Some (Some (pipe_tree cs)) else None)"
proof (induction cs arbitrary: p rule: pipe_words.induct)
  case (2 c)
  thus ?case using parse_line_one[of c lib p] by (simp add: line_fits_def)
next
  case (3 c d ds)
  let ?w = "pipe_words (d # ds)"
  have c: "list_all word c" "c \<noteq> []" and ws: "list_all plain ?w" "?w \<noteq> []"
    using 3(3,4) pipe_words_plain[of "d # ds"] pipe_words_nonempty[of "d # ds"] by auto
  have IH: "parse_line lib SPACE (unwords ?w) = (if line_fits (d # ds) then Some (Some (pipe_tree (d # ds))) else None)"
    using 3 by (simp del: SPACE_def)
  have fits: "line_fits (c # d # ds) \<longleftrightarrow> length c < MAXARGS \<and> length ?w < MAXARGS \<and>
      length (unwords c) + 1 < BUFLEN_sh \<and> length (unwords ?w) < BUFLEN_sh"
    by (auto simp: line_fits_def simp del: MAXARGS_def BUFLEN_sh_def)
  have tail: "line_fits (d # ds)" if "line_fits (c # d # ds)"
    using that 3(3) pipe_words_nonempty[of ds] unfolding fits by (intro line_fits_tail) auto
  note step = parse_line_bar[OF c ws, of lib p, folded fits]
  show ?case
  proof (cases ds)
    case Nil
    have "block_contains (unwords d) (CHR ''|'') = - 1"
      using 3(4) by (intro block_contains_not unwords_no_bar) simp
    thus ?thesis using step by (simp add: Nil del: SPACE_def)
  next
    case (Cons e es)
    have d: "list_all word d" "d \<noteq> []" "pipe_words ds \<noteq> []"
      using 3(3,4) pipe_words_nonempty[of ds] by (auto simp: Cons)
    have w: "?w = d @ ''|'' # pipe_words ds" by (simp add: Cons)
    have "0 < block_contains (unwords ?w) (CHR ''|'')" unfolding w by (rule block_contains_bar[OF d])
    thus ?thesis using step IH tail by (simp add: w Cons pipe_cmd_create_def del: SPACE_def)
  qed
qed simp



end
