(* ===== verification/ShellExec.thy ===== *)
theory ShellExec
  imports Shell
begin

text \<open>
  Running the commands of the shell of \<^verbatim>\<open>src/labs/shell\<close>: \<^verbatim>\<open>exec.c\<close>, \<^verbatim>\<open>builtin.c\<close>, \<^verbatim>\<open>runcmd.c\<close>, and the test in the
  loop of \<^verbatim>\<open>sh.c\<close>.  A process is its environment and its table of descriptors; \<^verbatim>\<open>open\<close> and \<^verbatim>\<open>pipe\<close> hand out the
  lowest free descriptors, as POSIX says, and what the system allows is the argument \<open>os\<close>, which also has the sizes
  of heap blocks.  The outcome of a piece of code is the tree of the processes it forks, each with the program it
  ends in, its exit or where it goes on.
\<close>

section \<open>Processes\<close>

datatype oflag = O_RDWR | O_CLOEXEC | O_TRUNC | O_APPEND | O_CREAT

text \<open>What a descriptor stands for; pipes are named by the place of their node in the tree.\<close>

datatype fobj = Inherited nat | OpenFile string "oflag list" | PipeRd "nat list" | PipeWr "nat list"

record proc =
  penv :: "string \<rightharpoonup> string"
  fds :: "fobj option list"

record os =
  can_open :: "string \<Rightarrow> oflag list \<Rightarrow> bool"
  can_exec :: "string \<Rightarrow> bool"
  can_pipe :: "nat list \<Rightarrow> bool"
  can_fork :: "nat list \<Rightarrow> bool"
  can_wait :: bool
  heap :: "nat \<Rightarrow> nat"

fun first_free :: "fobj option list \<Rightarrow> nat" where
  "first_free [] = 0"
| "first_free (None # xs) = 0"
| "first_free (Some f # xs) = Suc (first_free xs)"

definition fd_set :: "nat \<Rightarrow> fobj \<Rightarrow> fobj option list \<Rightarrow> fobj option list" where
  "fd_set n f t = (t @ replicate (Suc n - length t) None)[n := Some f]"

definition fd_new :: "fobj \<Rightarrow> proc \<Rightarrow> nat \<times> proc" where
  "fd_new f p = (first_free (fds p), p\<lparr>fds := fd_set (first_free (fds p)) f (fds p)\<rparr>)"

definition fd_get :: "proc \<Rightarrow> nat \<Rightarrow> fobj option" where
  "fd_get p n = (if n < length (fds p) then fds p ! n else None)"

definition dup2 :: "nat \<Rightarrow> nat \<Rightarrow> proc \<Rightarrow> proc" where
  "dup2 old new p = (case fd_get p old of None \<Rightarrow> p | Some f \<Rightarrow> p\<lparr>fds := fd_set new f (fds p)\<rparr>)"

definition close_fd :: "nat \<Rightarrow> proc \<Rightarrow> proc" where
  "close_fd n p = p\<lparr>fds := (fds p)[n := None]\<rparr>"

section \<open>Environment variables\<close>

definition get_environ_key :: "string \<Rightarrow> string" where
  "get_environ_key arg = takeWhile (\<lambda>c. c \<noteq> CHR ''='') arg"

definition get_environ_value :: "string \<Rightarrow> nat \<Rightarrow> string" where
  "get_environ_value arg idx = drop (idx + 1) arg"

text \<open>The buffers for the key and the value have \<^verbatim>\<open>MAXARGS\<close> bytes; \<open>None\<close> is writing past them.\<close>

fun set_environ_vars :: "string list \<Rightarrow> proc \<Rightarrow> proc option" where
  "set_environ_vars [] p = Some p"
| "set_environ_vars (e # es) p =
    (let key = get_environ_key e; val = get_environ_value e (nat (block_contains e (CHR ''='')))
     in if length key < MAXARGS \<and> length val < MAXARGS then set_environ_vars es (p\<lparr>penv := (penv p)(key \<mapsto> val)\<rparr>) else None)"

section \<open>Running a command\<close>

text \<open>What becomes of a process: it runs a program, exits, crashes, forks a child and goes on, returns from the code
  that is looked at, or is about to read a line in the loop of the shell.  A process that waits for its
  children goes on when they have ended.\<close>

datatype outcome =
  Ran string "string list" "string \<rightharpoonup> string" "fobj option list"
| Exited int
| Crashed
| Spawned outcome outcome
| Returned proc
| Reading proc

fun and_then :: "outcome \<Rightarrow> (proc \<Rightarrow> outcome) \<Rightarrow> outcome" where
  "and_then (Returned p) k = k p"
| "and_then (Spawned c r) k = Spawned c (and_then r k)"
| "and_then r k = r"

text \<open>\<^verbatim>\<open>execvp\<close> takes the arguments up to the first null pointer; a failure ends the process.\<close>

definition case_exec_cmd :: "os \<Rightarrow> execcmd \<Rightarrow> proc \<Rightarrow> outcome" where
  "case_exec_cmd os e p =
    (let args = map the (takeWhile (\<lambda>a. a \<noteq> None) (argv e))
     in case args of [] \<Rightarrow> Exited (- 1)
        | prog # _ \<Rightarrow> if can_exec os prog then Ran prog args (penv p) (fds p) else Exited (- 1))"

definition redir_to :: "os \<Rightarrow> string \<Rightarrow> oflag list \<Rightarrow> nat \<Rightarrow> proc \<Rightarrow> proc option" where
  "redir_to os file flags n p =
    (if can_open os file flags
     then (let (fd, p) = fd_new (OpenFile file flags) p in Some (close_fd fd (dup2 fd n p)))
     else None)"

definition redir_in :: "os \<Rightarrow> execcmd \<Rightarrow> proc \<Rightarrow> proc option" where
  "redir_in os r p = (if 0 < length (in_file r) then redir_to os (in_file r) [O_RDWR, O_CLOEXEC] 0 p else Some p)"

definition redir_out :: "os \<Rightarrow> execcmd \<Rightarrow> proc \<Rightarrow> proc option" where
  "redir_out os r p =
    (if 0 < length (out_file r)
     then redir_to os (out_file r)
       (if err_file r = ''&1'' then [O_RDWR, O_CLOEXEC, O_APPEND, O_CREAT] else [O_RDWR, O_CLOEXEC, O_TRUNC, O_CREAT]) 1 p
     else Some p)"

definition redir_err :: "os \<Rightarrow> execcmd \<Rightarrow> proc \<Rightarrow> proc option" where
  "redir_err os r p =
    (if 0 < length (err_file r)
     then if err_file r = ''&1'' then Some (dup2 1 2 p)
       else redir_to os (err_file r) [O_RDWR, O_CLOEXEC, O_TRUNC, O_CREAT] 2 p
     else Some p)"

definition case_redir_md :: "os \<Rightarrow> execcmd \<Rightarrow> proc \<Rightarrow> outcome" where
  "case_redir_md os r p =
    (case redir_in os r p of None \<Rightarrow> Exited (- 1) | Some p \<Rightarrow>
     (case redir_out os r p of None \<Rightarrow> Exited (- 1) | Some p \<Rightarrow>
      (case redir_err os r p of None \<Rightarrow> Exited (- 1) | Some p \<Rightarrow> case_exec_cmd os r p)))"

text \<open>The node of a pipe: the pipe, the two children with their ends of it, and the parent, which closes both
  ends, waits and returns.  The arguments are the calls of \<^verbatim>\<open>exec_cmd\<close> for the two sides.\<close>

definition pipe_fds :: "nat list \<Rightarrow> proc \<Rightarrow> nat \<times> nat \<times> proc" where
  "pipe_fds n p = (let (r, p) = fd_new (PipeRd n) p; (w, p) = fd_new (PipeWr n) p in (r, w, p))"

definition left_proc :: "nat list \<Rightarrow> proc \<Rightarrow> proc" where
  "left_proc n p = (let (r, w, p) = pipe_fds n p in close_fd w (dup2 w 1 (close_fd r p)))"

definition right_proc :: "nat list \<Rightarrow> proc \<Rightarrow> proc" where
  "right_proc n p = (let (r, w, p) = pipe_fds n p in close_fd r (dup2 r 0 (close_fd w p)))"

definition parent_proc :: "nat list \<Rightarrow> proc \<Rightarrow> proc" where
  "parent_proc n p = (let (r, w, p) = pipe_fds n p in close_fd w (close_fd r p))"

definition case_pipe_cmd :: "os \<Rightarrow> nat list \<Rightarrow> (proc \<Rightarrow> outcome) \<Rightarrow> (proc \<Rightarrow> outcome) \<Rightarrow> proc \<Rightarrow> outcome" where
  "case_pipe_cmd os n left right p =
    (if \<not> can_pipe os n then Exited (- 1)
     else if \<not> can_fork os (0 # n) then Exited (- 1)
     else Spawned (and_then (left (left_proc n p)) (\<lambda>_. Exited 0))
       (if \<not> can_fork os (1 # n) then Exited (- 1)
        else Spawned (and_then (right (right_proc n p)) (\<lambda>_. Exited 0))
          (Returned (parent_proc n p))))"

text \<open>The cases of a single command and of one in the background end the process, that of a pipe does not.\<close>

fun exec_cmd :: "os \<Rightarrow> nat list \<Rightarrow> cmd \<Rightarrow> proc \<Rightarrow> outcome" where
  "exec_cmd os n (ExecCmd e) p =
    (if redir e then and_then (case_redir_md os e p) (\<lambda>_. Exited (- 1))
     else case set_environ_vars (eargv e) p of None \<Rightarrow> Crashed
       | Some p \<Rightarrow> and_then (case_exec_cmd os e p) (\<lambda>_. Exited (- 1)))"
| "exec_cmd os n (BackCmd s c) p = and_then (exec_cmd os n c p) (\<lambda>_. Exited (- 1))"
| "exec_cmd os n (PipeCmd l r) p =
    case_pipe_cmd os n (\<lambda>p. case l of None \<Rightarrow> Crashed | Some l \<Rightarrow> exec_cmd os (0 # n) l p)
      (\<lambda>p. exec_cmd os (1 # n) r p) p"

section \<open>Built-in commands and lines\<close>

definition strtok :: "string \<Rightarrow> (string \<times> string) option" where
  "strtok s = (let t = dropWhile (\<lambda>c. c = SPACE) s
     in if t = [] then None else Some (takeWhile (\<lambda>c. c \<noteq> SPACE) t, drop 1 (dropWhile (\<lambda>c. c \<noteq> SPACE) t)))"

text \<open>The directory is \<open>None\<close> for the one of \<^verbatim>\<open>HOME\<close>.\<close>

datatype action = NoAction | Chdir "string option" | PrintDir | ExitShell | ShellCrash | Launch bool cmd "outcome option"

text \<open>The line is copied to a block asked for with its length, which leaves out the terminator.\<close>

definition cd :: "os \<Rightarrow> string \<Rightarrow> action" where
  "cd os cmd = (case heap_copy (heap os) (length cmd) cmd of None \<Rightarrow> ShellCrash
     | Some copia \<Rightarrow> (case strtok copia of None \<Rightarrow> ShellCrash
       | Some (first, rest) \<Rightarrow>
          if first = ''cd''
          then (case strtok rest of None \<Rightarrow> Chdir None | Some (dir, _) \<Rightarrow> Chdir (Some (remover_caracter dir (CHR ''/''))))
          else NoAction))"

definition exit_shell :: "string \<Rightarrow> bool" where "exit_shell cmd = (cmd = ''exit'')"
definition pwd :: "string \<Rightarrow> bool" where "pwd cmd = (cmd = ''pwd'')"

text \<open>The end of \<^verbatim>\<open>run_cmd\<close>, behind \<^verbatim>\<open>fork\<close>, with the value it returns, and the loop of \<^verbatim>\<open>run_shell\<close> with that value.  The
  shell gets there, and so does its child when \<^verbatim>\<open>exec_cmd\<close> returns.\<close>

definition EXIT_SHELL :: int where "EXIT_SHELL = 1"

definition finish_cmd :: "os \<Rightarrow> cmd \<Rightarrow> int" where
  "finish_cmd os parsed = (case parsed of BackCmd _ _ \<Rightarrow> if can_wait os then 0 else - 1 | _ \<Rightarrow> 0)"

definition run_shell :: "int \<Rightarrow> proc \<Rightarrow> outcome" where
  "run_shell result p = (if result = EXIT_SHELL then Exited 0 else Reading p)"

text \<open>\<open>Launch\<close> has whether the shell does not wait, the command, and what becomes of its child if there is one.\<close>

definition run_cmd :: "os \<Rightarrow> proc \<Rightarrow> string \<Rightarrow> action" where
  "run_cmd os p cmd =
    (if cmd = [] then NoAction
     else case cd os cmd of
       NoAction \<Rightarrow>
         if exit_shell cmd then ExitShell
         else if pwd cmd then PrintDir
         else (case parse_line \<lparr>getenv = penv p, usable = heap os\<rparr> NUL cmd of
             None \<Rightarrow> ShellCrash
           | Some None \<Rightarrow> ShellCrash
           | Some (Some parsed) \<Rightarrow>
               Launch (case parsed of BackCmd _ _ \<Rightarrow> True | _ \<Rightarrow> False) parsed
                 (if can_fork os []
                  then Some (and_then (exec_cmd os [] parsed p) (run_shell (finish_cmd os parsed)))
                  else None))
     | a \<Rightarrow> a)"

section \<open>Pipelines\<close>

text \<open>The processes of a pipeline: every program writes to the pipe the next one reads, and \<open>after\<close> is what the
  process that started them does in the end.  The ones that start the rest of the pipeline exit.\<close>

fun stages :: "(string \<rightharpoonup> string) \<Rightarrow> fobj \<Rightarrow> fobj \<Rightarrow> fobj \<Rightarrow> nat list \<Rightarrow> outcome \<Rightarrow> string list list \<Rightarrow> outcome" where
  "stages v i out err n after [] = after"
| "stages v i out err n after [c] = Ran (hd c) c v [Some i, Some out, Some err, None, None]"
| "stages v i out err n after (c # cs) =
    Spawned (Ran (hd c) c v [Some i, Some (PipeWr n), Some err, None, None])
      (Spawned (stages v (PipeRd n) out err (1 # n) (Exited 0) cs) after)"

lemma takeWhile_Some: "map the (takeWhile (\<lambda>a. \<exists>y. a = Some y) (map Some xs)) = xs"
  by (induction xs) simp_all

lemma exec_simple:
  assumes "c \<noteq> []" "can_exec os (hd c)"
  shows "exec_cmd os n (simple_cmd s c) p = Ran (hd c) c (penv p) (fds p)"
  using assms takeWhile_Some[of "tl c"]
  by (cases c) (simp_all add: simple_cmd_def new_exec_def case_exec_cmd_def Let_def)

lemma sides:
  assumes "fds p = [Some i, Some out, Some err] \<or> fds p = [Some i, Some out, Some err, None, None]"
  shows "fds (left_proc n p) = [Some i, Some (PipeWr n), Some err, None, None]" "penv (left_proc n p) = penv p"
    "fds (right_proc n p) = [Some (PipeRd n), Some out, Some err, None, None]" "penv (right_proc n p) = penv p"
    "parent_proc n p = p\<lparr>fds := [Some i, Some out, Some err, None, None]\<rparr>"
  using assms
  by (auto simp: left_proc_def right_proc_def parent_proc_def pipe_fds_def fd_new_def fd_set_def close_fd_def dup2_def
      fd_get_def Let_def split: prod.splits)

lemma exec_stages:
  assumes "list_all (\<lambda>c. c \<noteq> [] \<and> can_exec os (hd c)) cs" "2 \<le> length cs"
    "\<forall>n. can_pipe os n \<and> can_fork os n"
    "fds p = [Some i, Some out, Some err] \<or> fds p = [Some i, Some out, Some err, None, None]"
  shows "and_then (exec_cmd os n (pipe_tree cs) p) k =
    stages (penv p) i out err n (k (p\<lparr>fds := [Some i, Some out, Some err, None, None]\<rparr>)) cs"
  using assms
proof (induction cs arbitrary: n p i k rule: pipe_tree.induct)
  case (3 c d ds)
  note side = sides[OF 3(5), of n]
  have "and_then (exec_cmd os (1 # n) (pipe_tree (d # ds)) (right_proc n p)) (\<lambda>_. Exited 0) =
      stages (penv p) (PipeRd n) out err (1 # n) (Exited 0) (d # ds)"
  proof (cases ds)
    case Nil
    thus ?thesis using 3(2) side by (simp add: exec_simple)
  next
    case (Cons e es)
    thus ?thesis using 3(1)[of "right_proc n p" "PipeRd n" "1 # n" "\<lambda>_. Exited 0"] 3(2,4) side by simp
  qed
  thus ?case using 3(2,4) side by (simp add: exec_simple case_pipe_cmd_def)
qed simp_all

lemma strtok_words: "list_all word c \<Longrightarrow> c \<noteq> [] \<Longrightarrow> \<exists>r. strtok (unwords (c @ ws)) = Some (hd c, r)"
proof -
  assume c: "list_all word c" "c \<noteq> []"
  then obtain w vs where cv: "c = w # vs" by (cases c) auto
  have w: "w \<noteq> []" "SPACE \<notin> set w" using c plainD(1,3)[of w] by (auto simp: cv word_def)
  have d: "dropWhile (\<lambda>x. x = SPACE) (w @ s) = w @ s" for s using w by (cases w) auto
  have "takeWhile (\<lambda>x. x \<noteq> SPACE) w = w" using w(2) by (auto simp: takeWhile_eq_all_conv)
  hence t: "takeWhile (\<lambda>x. x \<noteq> SPACE) (unwords (w # u)) = w" for u
    using takeWhile_word(1)[OF w(2)] by (cases u) (simp_all del: SPACE_def)
  have "dropWhile (\<lambda>x. x = SPACE) (unwords (w # u)) = unwords (w # u)" "unwords (w # u) \<noteq> []" for u
    using d[of "[]"] d w(1) by (cases u; simp del: SPACE_def)+
  thus ?thesis by (simp add: strtok_def Let_def cv t del: SPACE_def)
qed

text \<open>Where \<^verbatim>\<open>malloc\<close> gives no more than it is asked for, every line overruns the block of \<^verbatim>\<open>cd\<close>, which looks at all
  of them.\<close>

lemma cd_overruns: "heap os (length cmd) = length cmd \<Longrightarrow> cmd \<noteq> [] \<Longrightarrow> run_cmd os p cmd = ShellCrash"
  by (simp add: run_cmd_def cd_def heap_copy_def)

text \<open>C40: A line that is a pipeline of plain words, typed with the three standard descriptors open, is parsed and
  run as the pipeline: the program of every command is started with its words, its standard output is the
  pipe that the next one has as standard input, the two ends outside are those of the shell, and no program
  has any other descriptor of a pipe left open, so that a reader sees the end of its input.  The processes in
  between exit, but the child of the shell that runs the pipeline does not: it goes on reading lines beside the
  shell.  The line and its commands have to fit into the arrays, and the system has to give \<^verbatim>\<open>cd\<close> at least one
  byte more than it asks for.\<close>

theorem run_pipeline:
  assumes "2 \<le> length cs" "list_all (\<lambda>c. c \<noteq> [] \<and> can_exec os (hd c)) cs" "list_all (list_all word) cs"
    "length (hd cs) < MAXARGS" "length (pipe_words (tl cs)) < MAXARGS" "line = unwords (pipe_words cs)"
    "length line < BUFLEN_sh" "length line < heap os (length line)"
    "\<forall>n. can_pipe os n \<and> can_fork os n" "fds p = [Some i, Some out, Some err]" "hd (hd cs) \<noteq> ''cd''"
  shows "run_cmd os p line = Launch False (pipe_tree cs) (Some (stages (penv p) i out err []
    (Reading (p\<lparr>fds := [Some i, Some out, Some err, None, None]\<rparr>)) cs))"
proof -
  obtain c d ds where cs: "cs = c # d # ds" using assms(1) by (cases cs rule: pipe_tree.cases) auto
  let ?w = "pipe_words (d # ds)"
  have w: "?w \<noteq> []" using assms(2) pipe_words_nonempty[of "d # ds"] by (simp add: cs list_all_iff)
  have line: "line = unwords c @ SPACE # CHR ''|'' # SPACE # unwords ?w"
    using assms(2,6) w by (simp add: cs unwords_append unwords_bar del: SPACE_def)
  have bar: "CHR ''|'' \<in> set line" by (simp add: line)
  have "\<exists>r. strtok line = Some (hd c, r)"
    using strtok_words[of c "''|'' # ?w"] assms(2,3,6) by (simp add: cs)
  hence cd: "cd os line = NoAction" using assms(8,11) by (auto simp: cd_def cs heap_copy_def)
  have no: "line \<noteq> ''exit''" "line \<noteq> ''pwd''" "line \<noteq> []" using bar by auto
  have "line_fits cs" using assms(4,5,7) unfolding line line_fits_def by (simp add: cs)
  hence "parse_line lib NUL line = Some (Some (pipe_tree cs))" for lib
    using parse_pipeline_eq[of cs lib NUL] assms(2,3,6) by (simp add: cs list_all_iff)
  thus ?thesis
    using cd no exec_stages[OF assms(2,1,9), of p i out err "[]" "run_shell 0"] assms(9,10)
    by (simp add: run_cmd_def exit_shell_def pwd_def cs finish_cmd_def run_shell_def EXIT_SHELL_def)
qed

text \<open>A system that allows everything and rounds the sizes of heap blocks up to 24 modulo 16, as the GNU library does.\<close>

definition all_os :: os where
  "all_os = \<lparr>can_open = \<lambda>f fl. True, can_exec = \<lambda>f. True, can_pipe = \<lambda>n. True, can_fork = \<lambda>n. True, can_wait = True,
     heap = \<lambda>n. max 24 ((n + 23) div 16 * 16 - 8)\<rparr>"

theorem run_pipeline_witness:
  "run_cmd all_os \<lparr>penv = Map.empty, fds = map (Some \<circ> Inherited) [0, 1, 2]\<rparr> ''ls -l | wc'' =
     Launch False (pipe_tree [[''ls'', ''-l''], [''wc'']]) (Some (Spawned
       (Ran ''ls'' [''ls'', ''-l''] Map.empty [Some (Inherited 0), Some (PipeWr []), Some (Inherited 2), None, None])
       (Spawned (Ran ''wc'' [''wc''] Map.empty [Some (PipeRd []), Some (Inherited 1), Some (Inherited 2), None, None])
         (Reading \<lparr>penv = Map.empty, fds = [Some (Inherited 0), Some (Inherited 1), Some (Inherited 2), None, None]\<rparr>))))"
  using run_pipeline[of "[[''ls'', ''-l''], [''wc'']]" all_os "''ls -l | wc''"
      "\<lparr>penv = Map.empty, fds = map (Some \<circ> Inherited) [0, 1, 2]\<rparr>" "Inherited 0" "Inherited 1" "Inherited 2"]
  by (simp add: all_os_def word_def plain_def NUL_def)

section \<open>Redirections\<close>

definition out_flags :: "execcmd \<Rightarrow> oflag list" where
  "out_flags r = (if err_file r = ''&1'' then [O_RDWR, O_CLOEXEC, O_APPEND, O_CREAT] else [O_RDWR, O_CLOEXEC, O_TRUNC, O_CREAT])"

definition std_in :: "execcmd \<Rightarrow> fobj \<Rightarrow> fobj" where
  "std_in r a = (if in_file r = [] then a else OpenFile (in_file r) [O_RDWR, O_CLOEXEC])"

definition std_out :: "execcmd \<Rightarrow> fobj \<Rightarrow> fobj" where
  "std_out r a = (if out_file r = [] then a else OpenFile (out_file r) (out_flags r))"

definition std_err :: "execcmd \<Rightarrow> fobj \<Rightarrow> fobj \<Rightarrow> fobj" where
  "std_err r a b = (if err_file r = [] then b else if err_file r = ''&1'' then std_out r a
     else OpenFile (err_file r) [O_RDWR, O_CLOEXEC, O_TRUNC, O_CREAT])"

lemma redir_to_std:
  assumes "can_open os f fl" "fds p = Some a # Some b # Some c # t" "t = [] \<or> t = [None]"
  shows "redir_to os f fl 0 p = Some (p\<lparr>fds := [Some (OpenFile f fl), Some b, Some c, None]\<rparr>)"
    "redir_to os f fl 1 p = Some (p\<lparr>fds := [Some a, Some (OpenFile f fl), Some c, None]\<rparr>)"
    "redir_to os f fl 2 p = Some (p\<lparr>fds := [Some a, Some b, Some (OpenFile f fl), None]\<rparr>)"
  using assms
  by (auto simp: redir_to_def fd_new_def fd_set_def close_fd_def dup2_def fd_get_def Let_def numeral_2_eq_2 numeral_3_eq_3)

lemma dup2_std: "fds p = Some a # Some b # Some c # t \<Longrightarrow> dup2 1 2 p = p\<lparr>fds := Some a # Some b # Some b # t\<rparr>"
  by (simp add: dup2_def fd_get_def fd_set_def numeral_2_eq_2)

text \<open>A command with redirections starts its program with exactly the descriptors it asks for, for every
  combination of the three files: standard input the input file, standard output the output file, standard
  error the error file or, for \<^verbatim>\<open>2>&1\<close>, the same open file as the standard output, and the ones without
  a redirection as they were; the descriptors used on the way are closed again.\<close>

theorem redirections:
  assumes "argv r = map Some args" "args \<noteq> []" "can_exec os (hd args)" "\<forall>f fl. can_open os f fl"
    "fds p = [Some a, Some b, Some c]"
  shows "\<exists>t. (t = [] \<or> t = [None]) \<and> case_redir_md os r p =
    Ran (hd args) args (penv p) ([Some (std_in r a), Some (std_out r b), Some (std_err r b c)] @ t)"
proof -
  have pe: "p\<lparr>fds := [Some a, Some b, Some c]\<rparr> = p" using assms(5) by (cases p) simp
  have "\<exists>t. (t = [] \<or> t = [None]) \<and> redir_in os r p = Some (p\<lparr>fds := Some (std_in r a) # Some b # Some c # t\<rparr>)"
  proof (cases "in_file r = []")
    case True
    show ?thesis by (rule exI[of _ "[]"]) (simp add: True redir_in_def std_in_def pe)
  next
    case False
    show ?thesis
      by (rule exI[of _ "[None]"])
         (simp add: False redir_in_def std_in_def redir_to_std(1)[of os _ _ p a b c "[]"] assms(4,5))
  qed
  then obtain t q where q: "redir_in os r p = Some (p\<lparr>fds := q\<rparr>)" "q = Some (std_in r a) # Some b # Some c # t" "t = [] \<or> t = [None]"
    by blast
  have "\<exists>t'. redir_out os r (p\<lparr>fds := q\<rparr>) = Some (p\<lparr>fds := Some (std_in r a) # Some (std_out r b) # Some c # t'\<rparr>) \<and>
      (t' = [] \<or> t' = [None])"
    using assms(4) q(2,3) redir_to_std(2)[of os "out_file r" "out_flags r" "p\<lparr>fds := q\<rparr>" "std_in r a" b c t]
    by (auto simp: redir_out_def std_out_def out_flags_def)
  then obtain t' where o: "redir_out os r (p\<lparr>fds := q\<rparr>) = Some (p\<lparr>fds := Some (std_in r a) # Some (std_out r b) # Some c # t'\<rparr>)"
    "t' = [] \<or> t' = [None]" by blast
  let ?o = "p\<lparr>fds := Some (std_in r a) # Some (std_out r b) # Some c # t'\<rparr>"
  have "\<exists>t''. redir_err os r ?o = Some (p\<lparr>fds := Some (std_in r a) # Some (std_out r b) # Some (std_err r b c) # t''\<rparr>) \<and>
      (t'' = [] \<or> t'' = [None])"
    using assms(4) o(2) dup2_std[of ?o "std_in r a" "std_out r b" c t']
      redir_to_std(3)[of os "err_file r" "[O_RDWR, O_CLOEXEC, O_TRUNC, O_CREAT]" ?o "std_in r a" "std_out r b" c t']
    by (auto simp: redir_err_def std_err_def)
  then obtain t'' where e: "redir_err os r ?o = Some (p\<lparr>fds := Some (std_in r a) # Some (std_out r b) # Some (std_err r b c) # t''\<rparr>)"
    "t'' = [] \<or> t'' = [None]" by blast
  have "map the (takeWhile (\<lambda>x. x \<noteq> None) (argv r)) = args" using takeWhile_Some[of args] assms(1) by simp
  hence "case_exec_cmd os r (p\<lparr>fds := z\<rparr>) = Ran (hd args) args (penv p) z" for z
    using assms(2,3) by (cases args) (simp_all add: case_exec_cmd_def Let_def)
  thus ?thesis using e(2) by (auto simp: case_redir_md_def q(1) o(1) e(1))
qed

theorem redirections_witness:
  "\<exists>t. (t = [] \<or> t = [None]) \<and>
     case_redir_md all_os ((new_exec [])\<lparr>argv := [Some ''sort''], out_file := ''out'', err_file := ''&1''\<rparr>)
       \<lparr>penv = Map.empty, fds = map (Some \<circ> Inherited) [0, 1, 2]\<rparr> =
     Ran ''sort'' [''sort''] Map.empty ([Some (Inherited 0),
       Some (OpenFile ''out'' [O_RDWR, O_CLOEXEC, O_APPEND, O_CREAT]), Some (OpenFile ''out'' [O_RDWR, O_CLOEXEC, O_APPEND, O_CREAT])] @ t)"
  using redirections[of "(new_exec [])\<lparr>argv := [Some ''sort''], out_file := ''out'', err_file := ''&1''\<rparr>" "[''sort'']" all_os
      "\<lparr>penv = Map.empty, fds = map (Some \<circ> Inherited) [0, 1, 2]\<rparr>" "Inherited 0" "Inherited 1" "Inherited 2"]
  by (simp add: all_os_def new_exec_def std_in_def std_out_def std_err_def out_flags_def)

text \<open>The directory of \<^verbatim>\<open>cd\<close> loses its first slash: an absolute path becomes a relative one.\<close>

lemma cd_absolute: "d \<noteq> [] \<Longrightarrow> SPACE \<notin> set d \<Longrightarrow> NUL \<notin> set d \<Longrightarrow> length (''cd /'' @ d) < heap os (length (''cd /'' @ d)) \<Longrightarrow>
  cd os (''cd /'' @ d) = Chdir (Some d)"
proof -
  assume d: "d \<noteq> []" "SPACE \<notin> set d" "NUL \<notin> set d" "length (''cd /'' @ d) < heap os (length (''cd /'' @ d))"
  have t: "takeWhile (\<lambda>x. x \<noteq> CHR '' '') d = d" using d(2) by (auto simp: takeWhile_eq_all_conv)
  have "remover_caracter (CHR ''/'' # d) (CHR ''/'') = d"
    using d(3) by (subst remover_eq) (simp_all add: NUL_def)
  thus ?thesis using d(4) by (simp add: cd_def heap_copy_def strtok_def Let_def t)
qed

end
