(* ===== verification/MemInit.thy ===== *)
theory MemInit
  imports VmProps
begin

text \<open>
  Setting up memory (\<^verbatim>\<open>kern/pmap.c\<close>): \<^verbatim>\<open>mem_init\<close> from the detection of memory to the kernel's page
  directory, with all its self tests.  The addresses the linker chooses (\<^verbatim>\<open>bootstack\<close>, \<^verbatim>\<open>percpu_kstacks\<close>) and
  what the clock chip says about memory are arguments.  Memory is accessed as it is laid out at
  \<^verbatim>\<open>KERNBASE\<close>, whichever page directory is loaded.
\<close>

section \<open>Sequences of tests\<close>

fun kseq :: "('s \<Rightarrow> (unit, 's) kres) list \<Rightarrow> 's \<Rightarrow> (unit, 's) kres" where
  "kseq [] s = Done () s"
| "kseq (f # fs) s = kbind (f s) (\<lambda>_ s. kseq fs s)"

lemma kseq_append: "kseq (fs @ gs) s = kbind (kseq fs s) (\<lambda>_ s. kseq gs s)"
proof (induction fs arbitrary: s)
  case (Cons f fs) thus ?case by (cases "f s") simp_all
qed simp

lemma kseq_same: "(\<And>f. f \<in> set fs \<Longrightarrow> f s = Done () s) \<Longrightarrow> kseq fs s = Done () s"
proof (induction fs)
  case (Cons f fs)
  have "f s = Done () s" by (rule Cons(2)) simp
  moreover have "kseq fs s = Done () s" by (rule Cons(1), rule Cons(2)) simp
  ultimately show ?case by simp
qed simp

definition no_memory :: "kst \<Rightarrow> (unit, kst) kres" where
  "no_memory s = kbind (page_alloc 0 s) (\<lambda>r s. kassert (r = None) ''!page_alloc(0)'' s)"

definition insert_ok :: "u32 \<Rightarrow> u32 \<Rightarrow> u32 \<Rightarrow> kst \<Rightarrow> (unit, kst) kres" where
  "insert_ok pp va perm s = kbind (page_insert (kern_pgdir s) pp va perm s) (\<lambda>r s. kassert (r = 0) ''page_insert == 0'' s)"

definition insert_fails :: "u32 \<Rightarrow> u32 \<Rightarrow> u32 \<Rightarrow> kst \<Rightarrow> (unit, kst) kres" where
  "insert_fails pp va perm s = kbind (page_insert (kern_pgdir s) pp va perm s) (\<lambda>r s. kassert (sint r < 0) ''page_insert < 0'' s)"

definition va_is :: "u32 \<Rightarrow> u32 \<Rightarrow> kst \<Rightarrow> (unit, kst) kres" where
  "va_is va x s = kbind (check_va2pa (kern_pgdir s) va s) (\<lambda>p s. kassert (p = x) ''check_va2pa'' s)"

definition ref_is :: "u32 \<Rightarrow> u16 \<Rightarrow> kst \<Rightarrow> (unit, kst) kres" where
  "ref_is pp n s = kassert (pp_ref (pages s pp) = n) ''pp_ref'' s"

definition pte_is :: "u32 \<Rightarrow> (u32 \<Rightarrow> bool) \<Rightarrow> kst \<Rightarrow> (unit, kst) kres" where
  "pte_is va P s = kbind (pgdir_walk (kern_pgdir s) va False s) (\<lambda>p s. kassert (P (load32 s p)) ''*pgdir_walk'' s)"

definition pde_is :: "u32 \<Rightarrow> (u32 \<Rightarrow> bool) \<Rightarrow> kst \<Rightarrow> (unit, kst) kres" where
  "pde_is i P s = kassert (P (load32 s (kern_pgdir s + push_bit 2 i))) ''kern_pgdir[i]'' s"

definition set_pde :: "u32 \<Rightarrow> u32 \<Rightarrow> kst \<Rightarrow> (unit, kst) kres" where
  "set_pde i x s = Done () (store32 (kern_pgdir s + push_bit 2 i) x s)"

definition set_ref :: "u32 \<Rightarrow> u16 \<Rightarrow> kst \<Rightarrow> (unit, kst) kres" where
  "set_ref pp n s = Done () (upd_page pp (\<lambda>p. p\<lparr>pp_ref := n\<rparr>) s)"

definition alloc_is :: "u32 \<Rightarrow> kst \<Rightarrow> (unit, kst) kres" where
  "alloc_is pp s = kbind (page_alloc 0 s) (\<lambda>r s. kassert (r = Some pp) ''(pp = page_alloc(0)) && pp == ...'' s)"

definition remove_page :: "u32 \<Rightarrow> kst \<Rightarrow> (unit, kst) kres" where
  "remove_page va s = page_remove (kern_pgdir s) va s"

text \<open>\<^verbatim>\<open>memset(page2kva(pp), c, PGSIZE)\<close> with a word of four bytes \<open>c\<close>.\<close>

definition fill :: "u32 \<Rightarrow> u32 \<Rightarrow> kst \<Rightarrow> (unit, kst) kres" where
  "fill pp w s = kbind (page2kva pp s) (\<lambda>k s. Done () (fill_page k w s))"

section \<open>Checking the free list\<close>

text \<open>A list is built by writing through a pointer to its last link: \<open>None\<close> is the head, \<open>Some p\<close> the link of
  the page \<open>p\<close>.\<close>

definition set_tail :: "u32 option \<Rightarrow> u32 option \<Rightarrow> u32 option \<times> kst \<Rightarrow> u32 option \<times> kst" where
  "set_tail tp v hs = (case tp of None \<Rightarrow> (v, snd hs) | Some p \<Rightarrow> (fst hs, upd_page p (\<lambda>q. q\<lparr>pp_link := v\<rparr>) (snd hs)))"

text \<open>The heads \<open>h0\<close>, \<open>h1\<close> and the ends \<open>t0\<close>, \<open>t1\<close> of the two lists; \<open>None\<close> where the walk does not end.\<close>

fun sort_low :: "nat \<Rightarrow> u32 \<Rightarrow> u32 option \<Rightarrow> u32 option \<Rightarrow> u32 option \<Rightarrow> u32 option \<Rightarrow> u32 option \<Rightarrow> kst \<Rightarrow>
    (u32 option \<times> u32 option \<times> u32 option \<times> u32 option \<times> kst) option" where
  "sort_low fuel lim None h0 t0 h1 t1 s = Some (h0, t0, h1, t1, s)"
| "sort_low 0 lim (Some pp) h0 t0 h1 t1 s = None"
| "sort_low (Suc fuel) lim (Some pp) h0 t0 h1 t1 s =
    (if lim \<le> PDX (page2pa pp)
     then let (h1, s) = set_tail t1 (Some pp) (h1, s) in sort_low fuel lim (pp_link (pages s pp)) h0 t0 h1 (Some pp) s
     else let (h0, s) = set_tail t0 (Some pp) (h0, s) in sort_low fuel lim (pp_link (pages s pp)) h0 (Some pp) h1 t1 s)"

definition low_first :: "u32 \<Rightarrow> kst \<Rightarrow> (unit, kst) kres" where
  "low_first lim s =
    (case sort_low (Suc (unat (npages s))) lim (page_free_list s) None None None None s of
       None \<Rightarrow> NoReturn Spinning s
     | Some (h0, t0, h1, t1, s) \<Rightarrow>
         let (h1, s) = set_tail t1 None (h1, s); (h0, s) = set_tail t0 h1 (h0, s)
         in Done () (s\<lparr>page_free_list := h0\<rparr>))"

text \<open>The pages of the free list, from the head.\<close>

fun free_pages :: "nat \<Rightarrow> (u32 \<Rightarrow> PageInfo) \<Rightarrow> u32 option \<Rightarrow> u32 list option" where
  "free_pages fuel pgs None = Some []"
| "free_pages 0 pgs (Some p) = None"
| "free_pages (Suc fuel) pgs (Some p) = map_option ((#) p) (free_pages fuel pgs (pp_link (pgs p)))"

definition poison :: "u32 \<Rightarrow> u32 \<Rightarrow> kst \<Rightarrow> (unit, kst) kres" where
  "poison lim pp s =
    (if PDX (page2pa pp) < lim
     then kbind (page2kva pp s) (\<lambda>k s. let f = PGNUM (k - KERNBASE)
       in Done () (s\<lparr>pmem := (pmem s)(f := \<lambda>i. if i < 32 then 0x97979797 else pmem s f i)\<rparr>))
     else Done () s)"

definition check_free_page :: "u32 \<Rightarrow> u32 \<Rightarrow> kst \<Rightarrow> (unit, kst) kres" where
  "check_free_page first_free_page pp s =
    kbind (kassert (pp < npages s) ''pp < pages + npages'' s) (\<lambda>_ s.
    kbind (kassert (page2pa pp \<noteq> 0 \<and> page2pa pp \<noteq> IOPHYSMEM \<and> page2pa pp \<noteq> EXTPHYSMEM - PGSIZE \<and>
             page2pa pp \<noteq> EXTPHYSMEM) ''page2pa(pp) != ...'' s) (\<lambda>_ s.
    kbind (if page2pa pp < EXTPHYSMEM then Done () s
           else kbind (page2kva pp s) (\<lambda>k s. kassert (first_free_page \<le> k) ''page2kva(pp) >= first_free_page'' s)) (\<lambda>_ s.
    kassert (page2pa pp \<noteq> MPENTRY_PADDR) ''page2pa(pp) != MPENTRY_PADDR'' s)))"

definition check_page_free_list :: "bool \<Rightarrow> kst \<Rightarrow> (unit, kst) kres" where
  "check_page_free_list only_low_memory s =
    (let pdx_limit = (if only_low_memory then 1 else NPDENTRIES)
     in if page_free_list s = None then Panic '''page_free_list' is a null pointer!''
     else kbind (if only_low_memory then low_first pdx_limit s else Done () s) (\<lambda>_ s.
       case free_pages (Suc (unat (npages s))) (pages s) (page_free_list s) of
         None \<Rightarrow> NoReturn Spinning s
       | Some fl \<Rightarrow>
           kbind (kseq (map (poison pdx_limit) fl) s) (\<lambda>_ s.
           kbind (boot_alloc 0 s) (\<lambda>first_free_page s.
           kbind (kseq (map (check_free_page first_free_page) fl) s) (\<lambda>_ s.
           kassert ((\<exists>pp \<in> set fl. page2pa pp < EXTPHYSMEM) \<and> (\<exists>pp \<in> set fl. EXTPHYSMEM \<le> page2pa pp))
             ''nfree_basemem > 0, nfree_extmem > 0'' s)))))"

section \<open>Checking insertion and removal\<close>

text \<open>\<^verbatim>\<open>check_page\<close> in its parts: pages come and go in the order of the code.\<close>

definition check_page_insert :: "u32 \<Rightarrow> u32 \<Rightarrow> u32 \<Rightarrow> kst \<Rightarrow> (unit, kst) kres" where
  "check_page_insert pp0 pp1 pp2 = kseq [
     no_memory,
     (\<lambda>s. kbind (page_lookup (kern_pgdir s) 0 s) (\<lambda>r s. kassert (r = None) ''page_lookup == NULL'' s)),
     insert_fails pp1 0 PTE_W,
     page_free pp0,
     insert_ok pp1 0 PTE_W,
     pde_is 0 (\<lambda>e. PTE_ADDR e = page2pa pp0),
     va_is 0 (page2pa pp1), ref_is pp1 1, ref_is pp0 1,
     insert_ok pp2 PGSIZE PTE_W, va_is PGSIZE (page2pa pp2), ref_is pp2 1,
     no_memory,
     insert_ok pp2 PGSIZE PTE_W, va_is PGSIZE (page2pa pp2), ref_is pp2 1,
     no_memory,
     (\<lambda>s. kbind (KADDR (PTE_ADDR (load32 s (kern_pgdir s + push_bit 2 (PDX PGSIZE)))) s) (\<lambda>ptep s.
        kbind (pgdir_walk (kern_pgdir s) PGSIZE False s) (\<lambda>p s.
        kassert (p = ptep + push_bit 2 (PTX PGSIZE)) ''ptep + PTX(PGSIZE)'' s))),
     insert_ok pp2 PGSIZE (PTE_W OR PTE_U), va_is PGSIZE (page2pa pp2), ref_is pp2 1,
     pte_is PGSIZE (\<lambda>e. e AND PTE_U \<noteq> 0), pde_is 0 (\<lambda>e. e AND PTE_U \<noteq> 0),
     insert_ok pp2 PGSIZE PTE_W,
     pte_is PGSIZE (\<lambda>e. e AND PTE_W \<noteq> 0), pte_is PGSIZE (\<lambda>e. e AND PTE_U = 0),
     insert_fails pp0 PTSIZE PTE_W]"

definition check_page_remove :: "u32 \<Rightarrow> u32 \<Rightarrow> u32 \<Rightarrow> kst \<Rightarrow> (unit, kst) kres" where
  "check_page_remove pp0 pp1 pp2 = kseq [
     insert_ok pp1 PGSIZE PTE_W, pte_is PGSIZE (\<lambda>e. e AND PTE_U = 0),
     va_is 0 (page2pa pp1), va_is PGSIZE (page2pa pp1), ref_is pp1 2, ref_is pp2 0,
     alloc_is pp2,
     remove_page 0, va_is 0 (NOT 0), va_is PGSIZE (page2pa pp1), ref_is pp1 1, ref_is pp2 0,
     insert_ok pp1 PGSIZE 0,
     (\<lambda>s. kassert (pp_ref (pages s pp1) \<noteq> 0 \<and> pp_link (pages s pp1) = None) ''pp1->pp_ref, pp1->pp_link == NULL'' s),
     remove_page PGSIZE, va_is 0 (NOT 0), va_is PGSIZE (NOT 0), ref_is pp1 0, ref_is pp2 0,
     alloc_is pp1,
     no_memory,
     pde_is 0 (\<lambda>e. PTE_ADDR e = page2pa pp0), set_pde 0 0, ref_is pp0 1, set_ref pp0 0]"

definition check_page_walk :: "u32 \<Rightarrow> kst \<Rightarrow> (unit, kst) kres" where
  "check_page_walk pp0 = kseq [
     page_free pp0,
     (\<lambda>s. let va = PGSIZE * NPDENTRIES + PGSIZE
        in kbind (pgdir_walk (kern_pgdir s) va True s) (\<lambda>ptep s.
           kbind (KADDR (PTE_ADDR (load32 s (kern_pgdir s + push_bit 2 (PDX va)))) s) (\<lambda>ptep1 s.
           kbind (kassert (ptep = ptep1 + push_bit 2 (PTX va)) ''ptep == ptep1 + PTX(va)'' s) (\<lambda>_ s.
           set_pde (PDX va) 0 s)))),
     set_ref pp0 0,
     fill pp0 0xFFFFFFFF,
     page_free pp0,
     (\<lambda>s. kbind (pgdir_walk (kern_pgdir s) 0 True s) (\<lambda>_ s. Done () s)),
     (\<lambda>s. kbind (page2kva pp0 s) (\<lambda>ptep s.
        kassert (\<forall>i \<in> set [0..<1024]. load32 s (ptep + push_bit 2 (of_nat i)) AND PTE_P = 0) ''(ptep[i] & PTE_P) == 0'' s)),
     set_pde 0 0,
     set_ref pp0 0]"

definition clear_pte :: "u32 \<Rightarrow> kst \<Rightarrow> (unit, kst) kres" where
  "clear_pte va s = kbind (pgdir_walk (kern_pgdir s) va False s) (\<lambda>p s. Done () (store32 p 0 s))"

definition check_mmio :: "kst \<Rightarrow> (unit, kst) kres" where
  "check_mmio s =
    kbind (mmio_map_region 0 4097 s) (\<lambda>mm1 s.
    kbind (mmio_map_region 0 4096 s) (\<lambda>mm2 s.
    kseq [
     kassert (MMIOBASE \<le> mm1 \<and> mm1 + 8096 < MMIOLIM) ''mm1 >= MMIOBASE && mm1 + 8096 < MMIOLIM'',
     kassert (MMIOBASE \<le> mm2 \<and> mm2 + 8096 < MMIOLIM) ''mm2 >= MMIOBASE && mm2 + 8096 < MMIOLIM'',
     kassert (mm1 mod PGSIZE = 0 \<and> mm2 mod PGSIZE = 0) ''mm1 % PGSIZE == 0 && mm2 % PGSIZE == 0'',
     kassert (mm1 + 8096 \<le> mm2) ''mm1 + 8096 <= mm2'',
     va_is mm1 0, va_is (mm1 + PGSIZE) PGSIZE, va_is mm2 0, va_is (mm2 + PGSIZE) (NOT 0),
     pte_is mm1 (\<lambda>e. e AND (PTE_W OR PTE_PWT OR PTE_PCD) \<noteq> 0), pte_is mm1 (\<lambda>e. e AND PTE_U = 0),
     clear_pte mm1, clear_pte (mm1 + PGSIZE), clear_pte mm2] s))"

definition check_page :: "kst \<Rightarrow> (unit, kst) kres" where
  "check_page s =
    kbind (alloc_or_die 0 s) (\<lambda>pp0 s.
    kbind (alloc_or_die 0 s) (\<lambda>pp1 s.
    kbind (alloc_or_die 0 s) (\<lambda>pp2 s.
    kbind (kassert (pp1 \<noteq> pp0 \<and> pp2 \<noteq> pp1 \<and> pp2 \<noteq> pp0) ''pp1 != pp0, pp2 != pp1 && pp2 != pp0'' s) (\<lambda>_ s.
    let fl = page_free_list s in
    kseq [check_page_insert pp0 pp1 pp2, check_page_remove pp0 pp1 pp2, check_page_walk pp0,
          (\<lambda>s. Done () (s\<lparr>page_free_list := fl\<rparr>)),
          page_free pp0, page_free pp1, page_free pp2,
          check_mmio] (s\<lparr>page_free_list := None\<rparr>)))))"

text \<open>Memory as the loaded page directory shows it.\<close>

definition vload :: "kst \<Rightarrow> u32 \<Rightarrow> u32" where
  "vload s va = pmem s (PGNUM (vmap s (kern_pgdir s) va)) (drop_bit 2 (PGOFF va))"

definition vstore :: "u32 \<Rightarrow> u32 \<Rightarrow> kst \<Rightarrow> (unit, kst) kres" where
  "vstore va x s = (let f = PGNUM (vmap s (kern_pgdir s) va)
     in Done () (s\<lparr>pmem := (pmem s)(f := (pmem s f)(drop_bit 2 (PGOFF va) := x))\<rparr>))"

definition vload_is :: "u32 \<Rightarrow> u32 \<Rightarrow> kst \<Rightarrow> (unit, kst) kres" where
  "vload_is va x s = kassert (vload s va = x) ''*(uint32_t *) PGSIZE'' s"

definition insert_any :: "u32 \<Rightarrow> u32 \<Rightarrow> u32 \<Rightarrow> kst \<Rightarrow> (unit, kst) kres" where
  "insert_any pp va perm s = kbind (page_insert (kern_pgdir s) pp va perm s) (\<lambda>_ s. Done () s)"

definition check_page_installed_pgdir :: "kst \<Rightarrow> (unit, kst) kres" where
  "check_page_installed_pgdir s =
    kbind (alloc_or_die 0 s) (\<lambda>pp0 s.
    kbind (alloc_or_die 0 s) (\<lambda>pp1 s.
    kbind (alloc_or_die 0 s) (\<lambda>pp2 s.
    kseq [
     page_free pp0, fill pp1 0x01010101, fill pp2 0x02020202,
     insert_any pp1 PGSIZE PTE_W, ref_is pp1 1, vload_is PGSIZE 0x01010101,
     insert_any pp2 PGSIZE PTE_W, vload_is PGSIZE 0x02020202, ref_is pp2 1, ref_is pp1 0,
     vstore PGSIZE 0x03030303,
     (\<lambda>s. kbind (page2kva pp2 s) (\<lambda>k s. kassert (load32 s k = 0x03030303) ''*page2kva(pp2)'' s)),
     remove_page PGSIZE, ref_is pp2 0,
     pde_is 0 (\<lambda>e. PTE_ADDR e = page2pa pp0), set_pde 0 0, ref_is pp0 1, set_ref pp0 0,
     page_free pp0] s)))"

section \<open>The kernel's address space\<close>

definition mem_init_mp :: "u32 \<Rightarrow> kst \<Rightarrow> (unit, kst) kres" where
  "mem_init_mp percpu_kstacks = kseq (map (\<lambda>i s.
     let kstacktop_i = KSTACKTOP - of_nat i * (KSTKSIZE + KSTKGAP)
     in kbind (PADDR (percpu_kstacks + of_nat i * KSTKSIZE) s) (\<lambda>pa s.
        boot_map_region (kern_pgdir s) (kstacktop_i - KSTKSIZE) KSTKSIZE pa PTE_W s)) [0..<NCPU])"

definition map_kernel :: "u32 \<Rightarrow> kst \<Rightarrow> (unit, kst) kres" where
  "map_kernel bootstack = kseq [
     (\<lambda>s. kbind (PADDR (pages_va s) s) (\<lambda>pa s.
        boot_map_region (kern_pgdir s) UPAGES (ROUNDUP (npages s * sizeof_PageInfo) PGSIZE) pa (PTE_U OR PTE_P) s)),
     (\<lambda>s. kbind (PADDR (envs_va s) s) (\<lambda>pa s.
        boot_map_region (kern_pgdir s) UENVS PTSIZE pa (PTE_U OR PTE_P) s)),
     (\<lambda>s. kbind (PADDR bootstack s) (\<lambda>pa s.
        boot_map_region (kern_pgdir s) (KSTACKTOP - KSTKSIZE) KSTKSIZE pa PTE_W s)),
     (\<lambda>s. boot_map_region (kern_pgdir s) KERNBASE (- KERNBASE) 0 PTE_W s)]"

text \<open>The offsets of the pages of a region of \<open>n\<close> bytes.\<close>

definition page_offs :: "u32 \<Rightarrow> u32 list" where
  "page_offs n = map (\<lambda>i. of_nat i * PGSIZE) [0..<unat n div 4096]"

definition check_pde :: "u32 \<Rightarrow> kst \<Rightarrow> (unit, kst) kres" where
  "check_pde i =
    (if i \<in> {PDX UVPT, PDX (KSTACKTOP - 1), PDX UPAGES, PDX UENVS, PDX MMIOBASE} then pde_is i (\<lambda>e. e AND PTE_P \<noteq> 0)
     else if PDX KERNBASE \<le> i then pde_is i (\<lambda>e. e AND PTE_P \<noteq> 0 \<and> e AND PTE_W \<noteq> 0)
     else pde_is i (\<lambda>e. e = 0))"

definition check_user_region :: "u32 \<Rightarrow> u32 \<Rightarrow> u32 \<Rightarrow> kst \<Rightarrow> (unit, kst) kres" where
  "check_user_region va pa n = kseq (concat (map (\<lambda>i.
     [va_is (va + i) (pa + i), pte_is (va + i) (\<lambda>e. PGOFF e = PTE_U OR PTE_P)]) (page_offs n)))"

definition check_kstack :: "u32 \<Rightarrow> nat \<Rightarrow> kst \<Rightarrow> (unit, kst) kres" where
  "check_kstack percpu_kstacks n s =
    (let base = KSTACKTOP - (KSTKSIZE + KSTKGAP) * of_nat (n + 1)
     in kbind (PADDR (percpu_kstacks + of_nat n * KSTKSIZE) s) (\<lambda>pa s.
        kseq (map (\<lambda>i. va_is (base + KSTKGAP + i) (pa + i)) (page_offs KSTKSIZE) @
              map (\<lambda>i. va_is (base + i) (NOT 0)) (page_offs KSTKGAP)) s))"

definition check_kern_pgdir :: "u32 \<Rightarrow> kst \<Rightarrow> (unit, kst) kres" where
  "check_kern_pgdir percpu_kstacks s =
    kbind (PADDR (pages_va s) s) (\<lambda>pa s.
    kbind (check_user_region UPAGES pa (ROUNDUP (npages s * sizeof_PageInfo) PGSIZE) s) (\<lambda>_ s.
    kbind (PADDR (envs_va s) s) (\<lambda>pa s.
    kbind (check_user_region UENVS pa (ROUNDUP (of_nat NENV * sizeof_Env) PGSIZE) s) (\<lambda>_ s.
    kbind (kseq (map (\<lambda>i. va_is (KERNBASE + i) i) (page_offs (npages s * PGSIZE))) s) (\<lambda>_ s.
    kbind (kseq (map (check_kstack percpu_kstacks) [0..<NCPU]) s) (\<lambda>_ s.
    kseq (map (\<lambda>i. check_pde (of_nat i)) [0..<1024]) s))))))"

text \<open>With \<^verbatim>\<open>TP1_PSE\<close> defined, regions are mapped with large pages where both addresses allow it.  The loop ends
  when the size is exactly zero; \<open>fuel\<close> counts its rounds, at most one for every page of the address space if
  it ends at all.\<close>

fun boot_map_region_pse :: "nat \<Rightarrow> u32 \<Rightarrow> u32 \<Rightarrow> u32 \<Rightarrow> u32 \<Rightarrow> u32 \<Rightarrow> kst \<Rightarrow> (unit, kst) kres" where
  "boot_map_region_pse fuel pgdir va size_count pa perm s =
    (if size_count = 0 then Done () s
     else case fuel of 0 \<Rightarrow> NoReturn Spinning s
     | Suc fuel \<Rightarrow>
       if va mod PTSIZE = 0 \<and> pa mod PTSIZE = 0
       then boot_map_region_pse fuel pgdir (va + PTSIZE) (size_count - PTSIZE) (pa + PTSIZE) perm
              (store32 (pgdir + push_bit 2 (PDX va)) (pa OR PTE_P OR PTE_PS OR perm) s)
       else kbind (pgdir_walk pgdir va True s) (\<lambda>page_table_entry s.
              if page_table_entry = 0 then Panic ''No hay mas memoria.''
              else boot_map_region_pse fuel pgdir (va + PGSIZE) (size_count - PGSIZE) (pa + PGSIZE) perm
                     (store32 page_table_entry (pa OR perm OR PTE_P) s)))"

declare boot_map_region_pse.simps [simp del]

definition check_kern_pgdir_pse :: "kst \<Rightarrow> (unit, kst) kres" where
  "check_kern_pgdir_pse s = kseq (map (\<lambda>i. pde_is (of_nat i) (\<lambda>e. e AND PTE_PS \<noteq> 0 \<and>
     PTE_ADDR e = push_bit PDXSHIFT (of_nat i - PDX KERNBASE))) [unat (PDX KERNBASE)..<1024]) s"

text \<open>A region smaller than a large page, at addresses that allow one, is not mapped as asked: the size that is left
  wraps around.\<close>

lemma boot_map_region_pse_wraps:
  assumes "va mod PTSIZE = 0" "pa mod PTSIZE = 0"
  shows "boot_map_region_pse (Suc fuel) pgdir va PGSIZE pa perm s =
    boot_map_region_pse fuel pgdir (va + PTSIZE) (PGSIZE - PTSIZE) (pa + PTSIZE) perm
      (store32 (pgdir + push_bit 2 (PDX va)) (pa OR PTE_P OR PTE_PS OR perm) s)"
    "PTSIZE < PGSIZE - PTSIZE"
  using assms by (subst boot_map_region_pse.simps, simp) simp

section \<open>All of it\<close>

definition CR0_set :: u32 where "CR0_set = 0x80050023"
definition CR0_clear :: u32 where "CR0_clear = 0x0000000C"

text \<open>\<^verbatim>\<open>memset\<close> of the two tables of structures.\<close>

definition zero_pages :: "kst \<Rightarrow> kst" where
  "zero_pages s = s\<lparr>pages := \<lambda>i. if i < npages s then \<lparr>pp_link = None, pp_ref = 0\<rparr> else pages s i\<rparr>"

definition zero_envs :: "kst \<Rightarrow> kst" where
  "zero_envs s = s\<lparr>envs := \<lambda>i. if i < NENV then zero_env else envs s i\<rparr>"

text \<open>The kernel's data: its directory with the directory as a page table in it, and the tables.\<close>

definition boot_tables :: "kst \<Rightarrow> (unit, kst) kres" where
  "boot_tables s =
    kbind (boot_alloc PGSIZE s) (\<lambda>pd s.
    let s = zero_page pd (s\<lparr>kern_pgdir := pd\<rparr>) in
    kbind (PADDR (kern_pgdir s) s) (\<lambda>pa s.
    let s = store32 (kern_pgdir s + push_bit 2 (PDX UVPT)) (pa OR PTE_U OR PTE_P) s in
    kbind (boot_alloc (sizeof_PageInfo * npages s) s) (\<lambda>pg s.
    let s = zero_pages (s\<lparr>pages_va := pg\<rparr>) in
    kbind (boot_alloc (sizeof_Env * of_nat NENV) s) (\<lambda>en s.
    Done () (zero_envs (s\<lparr>envs_va := en\<rparr>))))))"

text \<open>The result is the value written to the control register \<^verbatim>\<open>cr0\<close>, which held \<open>cr0\<close>.\<close>

definition mem_init :: "(u32 \<Rightarrow> u8) \<Rightarrow> u32 \<Rightarrow> u32 \<Rightarrow> u32 \<Rightarrow> kst \<Rightarrow> (u32, kst) kres" where
  "mem_init cmos bootstack percpu_kstacks cr0 s =
    kbind (kseq [boot_tables, page_init, check_page_free_list True, check_page_alloc, check_page,
             map_kernel bootstack, mem_init_mp percpu_kstacks, check_kern_pgdir percpu_kstacks,
             (\<lambda>s. kbind (PADDR (kern_pgdir s) s) (\<lambda>pa s. Done () (s\<lparr>cr3 := (cr3 s)(cpunum s := pa)\<rparr>))),
             check_page_free_list False, check_page_installed_pgdir]
           (i386_detect_memory cmos s))
      (\<lambda>_ s. Done ((cr0 OR CR0_set) AND NOT CR0_clear) s)"

end
