(* ===== verification/FreeCheck.thy ===== *)
theory FreeCheck
  imports MemInit
begin

text \<open>
  The check of the free list in \<^verbatim>\<open>mem_init\<close>: sorting the list by links is a stable partition of it, and on the
  list that \<^verbatim>\<open>page_init\<close> builds the check succeeds.
\<close>

section \<open>Paths along links\<close>

text \<open>Following the links from \<open>h\<close> visits \<open>xs\<close> and then stands at \<open>e\<close>.\<close>

fun path :: "('p \<Rightarrow> 'p option) \<Rightarrow> 'p option \<Rightarrow> 'p list \<Rightarrow> 'p option \<Rightarrow> bool" where
  "path nxt h [] e \<longleftrightarrow> h = e"
| "path nxt h (x # xs) e \<longleftrightarrow> h = Some x \<and> path nxt (nxt x) xs e"

lemma path_chain: "path nxt h xs None = chain nxt h xs"
  by (induction xs arbitrary: h) auto

lemma path_append: "path nxt h (xs @ ys) e \<longleftrightarrow> (\<exists>m. path nxt h xs m \<and> path nxt m ys e)"
  by (induction xs arbitrary: h) auto

lemma path_cong: "(\<And>x. x \<in> set xs \<Longrightarrow> nxt x = nxt' x) \<Longrightarrow> path nxt h xs e = path nxt' h xs e"
  by (induction xs arbitrary: h) auto

abbreviation link :: "kst \<Rightarrow> u32 \<Rightarrow> u32 option" where
  "link s p \<equiv> pp_link (pages s p)"

text \<open>A list under construction: its head, the place of its last link, and its pages.\<close>

definition open_list :: "kst \<Rightarrow> u32 option \<Rightarrow> u32 option \<Rightarrow> u32 list \<Rightarrow> bool" where
  "open_list s h t xs = (if xs = [] then h = None \<and> t = None
     else t = Some (last xs) \<and> path (link s) h (butlast xs) (Some (last xs)))"

text \<open>What a change of links leaves alone.\<close>

definition same_but_links :: "u32 set \<Rightarrow> kst \<Rightarrow> kst \<Rightarrow> bool" where
  "same_but_links A s t \<longleftrightarrow> (\<exists>f. t = s\<lparr>pages := f\<rparr> \<and> (\<forall>p. pp_ref (f p) = pp_ref (pages s p)) \<and>
     (\<forall>p. p \<notin> A \<longrightarrow> f p = pages s p))"

lemma same_refl [simp]: "same_but_links A s s"
  unfolding same_but_links_def by (rule exI[of _ "pages s"]) simp

lemma same_trans: "same_but_links A s t \<Longrightarrow> same_but_links A t u \<Longrightarrow> same_but_links A s u"
  unfolding same_but_links_def by (elim exE conjE) (rule exI, auto)

lemma same_mono: "same_but_links A s t \<Longrightarrow> A \<subseteq> B \<Longrightarrow> same_but_links B s t"
  unfolding same_but_links_def by blast

text \<open>Writing through the last link.\<close>

lemma set_tail_open:
  assumes "open_list s h t xs" "distinct xs" "set_tail t v (h, s) = (h', s')"
  shows "path (link s') h' xs v" "same_but_links (set xs) s s'" "q \<notin> set xs \<Longrightarrow> link s' q = link s q"
proof -
  have "path (link s') h' xs v \<and> same_but_links (set xs) s s' \<and> (q \<notin> set xs \<longrightarrow> link s' q = link s q)"
  proof (cases "xs = []")
    case True
    thus ?thesis using assms by (simp add: open_list_def set_tail_def)
  next
    case False
    let ?l = "last xs"
    have t: "t = Some ?l" and p: "path (link s) h (butlast xs) (Some ?l)" using assms(1) False by (auto simp: open_list_def)
    have s': "s' = upd_page ?l (\<lambda>q. q\<lparr>pp_link := v\<rparr>) s" "h' = h" using assms(3) by (auto simp: set_tail_def t)
    have xs: "xs = butlast xs @ [?l]" using False by simp
    have "?l \<notin> set (butlast xs)" using assms(2) False by (metis append_butlast_last_id distinct_butlast not_distinct_conv_prefix)
    hence "path (link s') h (butlast xs) (Some ?l)"
      using p by (subst path_cong[of _ _ "link s"]) (auto simp: s' pages_upd_page)
    hence "path (link s') h (butlast xs @ [?l]) v" by (simp add: path_append s' pages_upd_page)
    hence "path (link s') h' xs v" using xs s'(2) by simp
    moreover have "same_but_links (set xs) s s'"
      unfolding same_but_links_def s' using False
      by (intro exI[of _ "(pages s)(?l := (pages s ?l)\<lparr>pp_link := v\<rparr>)"]) (auto simp: upd_page_def)
    moreover have "q \<notin> set xs \<longrightarrow> link s' q = link s q" using False by (auto simp: s' pages_upd_page)
    ultimately show ?thesis by simp
  qed
  thus "path (link s') h' xs v" "same_but_links (set xs) s s'" "q \<notin> set xs \<Longrightarrow> link s' q = link s q" by auto
qed

lemma open_list_cong: "(\<And>x. x \<in> set xs \<Longrightarrow> link s x = link s' x) \<Longrightarrow> open_list s h t xs = open_list s' h t xs"
proof -
  assume h: "\<And>x. x \<in> set xs \<Longrightarrow> link s x = link s' x"
  have "path (link s) h (butlast xs) e = path (link s') h (butlast xs) e" for e
    by (rule path_cong, rule h, rule in_set_butlastD)
  thus ?thesis by (simp add: open_list_def)
qed

text \<open>A page appended at the last link.\<close>

lemma set_tail_snoc:
  assumes "open_list s h t xs" "distinct (xs @ [p])" "set_tail t (Some p) (h, s) = (h', s')"
  shows "open_list s' h' (Some p) (xs @ [p])"
  using set_tail_open(1)[OF assms(1) _ assms(3)] assms(2) by (simp add: open_list_def)

section \<open>Sorting is a stable partition\<close>

abbreviation low :: "u32 \<Rightarrow> u32 \<Rightarrow> bool" where
  "low lim p \<equiv> PDX (page2pa p) < lim"

lemma sort_low_partition:
  assumes "path (link s) c rest None" "open_list s h0 t0 L" "open_list s h1 t1 H"
    "distinct (rest @ L @ H)" "length rest \<le> fuel"
  shows "\<exists>h0' t0' h1' t1' s'. sort_low fuel lim c h0 t0 h1 t1 s = Some (h0', t0', h1', t1', s') \<and>
    open_list s' h0' t0' (L @ filter (low lim) rest) \<and> open_list s' h1' t1' (H @ filter (\<lambda>p. \<not> low lim p) rest) \<and>
    same_but_links (set (rest @ L @ H)) s s'"
  using assms
proof (induction rest arbitrary: c h0 t0 h1 t1 s L H fuel)
  case Nil
  thus ?case by simp
next
  case (Cons p rest)
  then obtain n where n: "fuel = Suc n" "length rest \<le> n" by (cases fuel) auto
  have c: "c = Some p" using Cons(2) by simp
  show ?case
  proof (cases "low lim p")
    case True
    obtain g u where g: "set_tail t0 (Some p) (h0, s) = (g, u)" by (cases "set_tail t0 (Some p) (h0, s)")
    have dL: "distinct L" using Cons(5) by simp
    note st = set_tail_open[OF Cons(3) dL g]
    have "path (link u) (link u p) rest None"
      using Cons(2,5) st(3) by (subst path_cong[of _ _ "link s"]) auto
    moreover have "open_list u g (Some p) (L @ [p])" by (rule set_tail_snoc[OF Cons(3) _ g]) (use Cons(5) in auto)
    moreover have "open_list u h1 t1 H"
      using Cons(4,5) st(3) open_list_cong[of H s u h1 t1] by (metis disjoint_iff distinct_append)
    ultimately obtain a b d e s' where r: "sort_low n lim (link u p) g (Some p) h1 t1 u = Some (a, b, d, e, s')"
      "open_list s' a b ((L @ [p]) @ filter (low lim) rest)" "open_list s' d e (H @ filter (\<lambda>p. \<not> low lim p) rest)"
      "same_but_links (set (rest @ (L @ [p]) @ H)) u s'"
      using Cons(1)[of u "link u p" g "Some p" "L @ [p]" h1 t1 H n] Cons(5) n(2) by fastforce
    have "sort_low fuel lim c h0 t0 h1 t1 s = Some (a, b, d, e, s')"
    proof -
      have "\<not> lim \<le> PDX (page2pa p)" using True by (simp add: not_le)
      thus ?thesis using r(1) g by (simp add: n(1) c)
    qed
    moreover have "same_but_links (set ((p # rest) @ L @ H)) s s'"
      by (rule same_trans[OF same_mono[OF st(2)] same_mono[OF r(4)]]) auto
    ultimately show ?thesis using r(2,3) True by auto
  next
    case False
    obtain g u where g: "set_tail t1 (Some p) (h1, s) = (g, u)" by (cases "set_tail t1 (Some p) (h1, s)")
    have dH: "distinct H" using Cons(5) by simp
    note st = set_tail_open[OF Cons(4) dH g]
    have "path (link u) (link u p) rest None"
      using Cons(2,5) st(3) by (subst path_cong[of _ _ "link s"]) auto
    moreover have "open_list u g (Some p) (H @ [p])" by (rule set_tail_snoc[OF Cons(4) _ g]) (use Cons(5) in auto)
    moreover have "open_list u h0 t0 L"
      using Cons(3,5) st(3) open_list_cong[of L s u h0 t0] by (metis disjoint_iff distinct_append)
    ultimately obtain a b d e s' where r: "sort_low n lim (link u p) h0 t0 g (Some p) u = Some (a, b, d, e, s')"
      "open_list s' a b (L @ filter (low lim) rest)" "open_list s' d e ((H @ [p]) @ filter (\<lambda>p. \<not> low lim p) rest)"
      "same_but_links (set (rest @ L @ H @ [p])) u s'"
      using Cons(1)[of u "link u p" h0 t0 L g "Some p" "H @ [p]" n] Cons(5) n(2) by fastforce
    have "sort_low fuel lim c h0 t0 h1 t1 s = Some (a, b, d, e, s')"
    proof -
      have "lim \<le> PDX (page2pa p)" using False by (simp add: not_less)
      thus ?thesis using r(1) g by (simp add: n(1) c)
    qed
    moreover have "same_but_links (set ((p # rest) @ L @ H)) s s'"
      by (rule same_trans[OF same_mono[OF st(2)] same_mono[OF r(4)]]) auto
    ultimately show ?thesis using r(2,3) False by auto
  qed
qed


lemma same_but_links_rep:
  assumes "same_but_links A s t" "\<And>p. p \<notin> set fl \<Longrightarrow> p \<notin> A" "page_rep s fl" "set fl' = set fl"
    "chain (link t) (Some (hd fl')) fl'" "fl \<noteq> []"
  shows "page_rep (t\<lparr>page_free_list := Some (hd fl')\<rparr>) fl'"
proof -
  obtain f where f: "t = s\<lparr>pages := f\<rparr>" "\<And>p. pp_ref (f p) = pp_ref (pages s p)" "\<And>p. p \<notin> A \<Longrightarrow> f p = pages s p"
    using assms(1) unfolding same_but_links_def by blast
  have "pp_link (f p) = None" if "p < npages s" "p \<notin> set fl" for p
    using that f(3)[of p] assms(2)[of p] assms(3) by (simp add: page_rep_def)
  thus ?thesis using assms(3-5) f(1,2) by (simp add: page_rep_def)
qed

lemma low_first_ok:
  assumes "page_rep s fl" "fl \<noteq> []"
  shows "\<exists>t. low_first lim s = Done () t \<and>
    page_rep t (filter (low lim) fl @ filter (\<lambda>p. \<not> low lim p) fl) \<and> (\<exists>f h. t = s\<lparr>pages := f, page_free_list := h\<rparr>)"
proof -
  let ?L = "filter (low lim) fl" and ?H = "filter (\<lambda>p. \<not> low lim p) fl"
  have d: "distinct fl" by (rule page_rep_distinct[OF assms(1)])
  have p: "path (link s) (page_free_list s) fl None" using assms(1) by (simp add: path_chain page_rep_def)
  have e: "open_list s None None []" by (simp add: open_list_def)
  obtain h0 t0 h1 t1 u where r:
    "sort_low (Suc (unat (npages s))) lim (page_free_list s) None None None None s = Some (h0, t0, h1, t1, u)"
    "open_list u h0 t0 ?L" "open_list u h1 t1 ?H" "same_but_links (set fl) s u"
    using sort_low_partition[OF p e e, of "Suc (unat (npages s))" lim] d page_rep_length[OF assms(1)] by auto
  obtain g1 v where g1: "set_tail t1 None (h1, u) = (g1, v)" by (cases "set_tail t1 None (h1, u)")
  note st1 = set_tail_open[OF r(3) distinct_filter[OF d] g1]
  have o: "open_list v h0 t0 ?L" using r(2) open_list_cong[of ?L u v h0 t0] st1(3) by (metis (mono_tags, lifting) mem_Collect_eq set_filter)
  obtain g0 w where g0: "set_tail t0 g1 (h0, v) = (g0, w)" by (cases "set_tail t0 g1 (h0, v)")
  note st0 = set_tail_open[OF o distinct_filter[OF d] g0]
  have "path (link w) g1 ?H None" using st1(1) st0(3) by (subst path_cong[of _ _ "link v"]) auto
  hence ch: "chain (link w) g0 (?L @ ?H)" using st0(1) unfolding path_chain[symmetric] path_append by blast
  moreover have ne: "?L @ ?H \<noteq> []" using assms(2) by (cases fl) auto
  ultimately have hd: "g0 = Some (hd (?L @ ?H))" by (cases "?L @ ?H") auto
  have sm: "same_but_links (set fl) s w"
    by (rule same_trans[OF r(4) same_trans[OF same_mono[OF st1(2)] same_mono[OF st0(2)]]]) auto
  have "page_rep (w\<lparr>page_free_list := Some (hd (?L @ ?H))\<rparr>) (?L @ ?H)"
    by (rule same_but_links_rep[OF sm _ assms(1) _ _ assms(2)]) (use ch hd in auto)
  moreover have "low_first lim s = Done () (w\<lparr>page_free_list := g0\<rparr>)" by (simp add: low_first_def r(1) g1 g0)
  moreover obtain f where "w = s\<lparr>pages := f\<rparr>" using sm unfolding same_but_links_def by blast
  ultimately show ?thesis using hd by (intro exI[of _ "w\<lparr>page_free_list := g0\<rparr>"]) auto
qed

section \<open>The check of the free list succeeds\<close>

lemma free_pages_chain:
  "chain (\<lambda>p. pp_link (pgs p)) h fl \<Longrightarrow> length fl < n \<Longrightarrow> free_pages n pgs h = Some fl"
proof (induction fl arbitrary: h n)
  case (Cons x xs)
  then obtain m where "n = Suc m" by (cases n) auto
  thus ?case using Cons by auto
qed simp

lemma free_pages_rep: "page_rep s fl \<Longrightarrow> free_pages (Suc (unat (npages s))) (pages s) (page_free_list s) = Some fl"
  using free_pages_chain[of "pages s" "page_free_list s" fl "Suc (unat (npages s))"] page_rep_length[of s fl]
  by (simp add: page_rep_def)

text \<open>Poisoning writes to free pages only.\<close>

lemma poison_all:
  assumes "\<forall>p \<in> set ps. p < npages s" "npages s \<le> 0x10000"
  shows "\<exists>m. kseq (map (poison lim) ps) s = Done () (s\<lparr>pmem := m\<rparr>) \<and> (\<forall>f. f \<notin> set ps \<longrightarrow> m f = pmem s f)"
  using assms
proof (induction ps arbitrary: s)
  case Nil
  show ?case by (rule exI[of _ "pmem s"]) simp
next
  case (Cons p ps)
  have p: "p < npages s" "p < 0x100000" using Cons(2,3) by (auto simp: word_less_nat_alt word_le_nat_alt)
  have k: "page2kva p s = Done (page2pa p + KERNBASE) s" using p by (simp add: page2kva_def KADDR_def not_le)
  let ?m = "if low lim p then (pmem s)(p := \<lambda>i. if i < 32 then 0x97979797 else pmem s p i) else pmem s"
  have fr: "PGNUM (page2pa p + KERNBASE - KERNBASE) = p" using p(2) by simp
  have "poison lim p s = Done () (s\<lparr>pmem := ?m\<rparr>)" unfolding poison_def k Let_def kbind.simps fr by simp
  moreover obtain m where "kseq (map (poison lim) ps) (s\<lparr>pmem := ?m\<rparr>) = Done () (s\<lparr>pmem := m\<rparr>)"
    "\<forall>f. f \<notin> set ps \<longrightarrow> m f = ?m f" using Cons(1)[of "s\<lparr>pmem := ?m\<rparr>"] Cons(2,3) by auto
  ultimately show ?case by (intro exI[of _ m]) auto
qed


lemma unat_page2pa: "p < 0x100000 \<Longrightarrow> unat (page2pa p) = unat p * 4096"
  by (simp add: page2pa_def push_bit_eq_mult unat_word_ariths word_less_nat_alt)

lemma page2pa_is: "p < 0x100000 \<Longrightarrow> page2pa p = c \<Longrightarrow> p = PGNUM c"
  using PGNUM_page2pa by metis

text \<open>The first free page after the kernel, where the boot allocator points to a page.\<close>

lemma first_free:
  assumes "boot_ready s" "4096 dvd unat (nextfree s)"
  defines "k \<equiv> (nextfree s - KERNBASE) div PGSIZE"
  shows "unat (nextfree s) = unat k * 4096 + 0xF0000000" "k < npages s"
proof -
  have nf: "KERNBASE \<le> nextfree s" "nextfree s - KERNBASE < npages s * PGSIZE" "npages s \<le> 0x10000"
    using assms(1) by (auto simp: boot_ready_def)
  have u: "unat (nextfree s - KERNBASE) = unat (nextfree s) - 0xF0000000" using nf(1) by (simp add: unat_sub)
  have d: "4096 dvd unat (nextfree s) - 0xF0000000" using assms(2) by (rule dvd_diff_nat) simp
  have k: "unat k = (unat (nextfree s) - 0xF0000000) div 4096" using u by (simp add: k_def unat_div_distrib)
  hence "unat k * 4096 = unat (nextfree s) - 0xF0000000" using d by simp
  moreover have "0xF0000000 \<le> unat (nextfree s)" using nf(1) by (simp add: word_le_nat_alt)
  ultimately show e: "unat (nextfree s) = unat k * 4096 + 0xF0000000" by linarith
  have "unat (npages s * PGSIZE) = unat (npages s) * 4096" using nf(3) by (simp add: unat_word_ariths word_le_nat_alt)
  hence "unat k * 4096 < unat (npages s) * 4096" using nf(2) u e by (simp add: word_less_nat_alt)
  thus "k < npages s" by (simp add: word_less_nat_alt)
qed

text \<open>The test of one page of the list that \<^verbatim>\<open>page_init\<close> builds.\<close>

lemma check_free_page_ok:
  assumes p: "p \<noteq> 0" "p < npages s" "p \<noteq> 7" "\<not> (0xA0 \<le> p \<and> p < k)"
    and k: "0x100 < k" "unat (nextfree s) = unat k * 4096 + 0xF0000000" and n: "npages s \<le> 0x10000"
  shows "check_free_page (nextfree s) p s = Done () s"
proof -
  have s: "p < 0x10000" "p < 0x100000" using p(2) n by (auto simp: word_less_nat_alt word_le_nat_alt)
  have ne: "page2pa p \<noteq> c" if "PGNUM c = 0 \<or> PGNUM c = 7 \<or> (0xA0 \<le> PGNUM c \<and> PGNUM c < k)" for c
    using page2pa_is[OF s(2), of c] that p by auto
  have g: "PGNUM 0 = 0" "PGNUM 0x7000 = 7" "PGNUM 0xA0000 = 0xA0" "PGNUM 0xFF000 = 0xFF" "PGNUM 0x100000 = 0x100"
    by (simp_all add: PGNUM_def drop_bit_eq_div)
  have lt: "0xA0 < k" "0xFF < k" using k(1) by (auto simp: word_less_nat_alt)
  have kv: "page2kva p s = Done (page2pa p + KERNBASE) s" using p(2) s by (simp add: page2kva_def KADDR_def not_le)
  have above: "nextfree s \<le> page2pa p + KERNBASE" if "\<not> page2pa p < EXTPHYSMEM"
  proof -
    have "0x100 \<le> unat p" using that unat_page2pa[OF s(2)] by (simp add: word_less_nat_alt)
    hence "unat k \<le> unat p" using p(4) by (auto simp: word_less_nat_alt word_le_nat_alt)
    moreover have "unat (page2pa p + KERNBASE) = unat p * 4096 + 0xF0000000"
      using unat_page2pa[OF s(2)] s(1) by (simp add: unat_word_ariths word_less_nat_alt)
    ultimately show ?thesis using k(2) by (simp add: word_le_nat_alt)
  qed
  have "page2pa p \<noteq> 0" "page2pa p \<noteq> 0xA0000" "page2pa p \<noteq> 0xFF000" "page2pa p \<noteq> 0x100000" "page2pa p \<noteq> 0x7000"
    by (rule ne, use g lt k(1) in simp)+
  thus ?thesis using p(2) above by (auto simp: check_free_page_def kassert_def kv)
qed

lemma page_rep_pmem: "page_rep (s\<lparr>pmem := m\<rparr>) fl = page_rep s fl"
  by (simp add: page_rep_def)

lemma check_free_list_steps:
  assumes "page_free_list s \<noteq> None" "low_first 1 s = Done () v"
    "free_pages (Suc (unat (npages v))) (pages v) (page_free_list v) = Some fl"
    "kseq (map (poison 1) fl) v = Done () u" "boot_alloc 0 u = Done f w" "kseq (map (check_free_page f) fl) w = Done () x"
    "(\<exists>pp \<in> set fl. page2pa pp < EXTPHYSMEM) \<and> (\<exists>pp \<in> set fl. EXTPHYSMEM \<le> page2pa pp)"
  shows "check_page_free_list True s = Done () x"
  using assms by (simp add: check_page_free_list_def kassert_def)

text \<open>C7: The test of the free list with which \<^verbatim>\<open>mem_init\<close> checks \<^verbatim>\<open>page_init\<close> succeeds on every machine whose kernel
  ends above the first megabyte and whose boot allocator stands at a page below the end of memory; on the
  way it rebuilds the list by its links so that the pages of the first four megabytes come first and both
  parts keep their order, a stable partition, and writes to free pages only.\<close>

theorem page_init_check_succeeds:
  assumes "boot_ready s" "4096 dvd unat (nextfree s)" "KERNBASE + EXTPHYSMEM < nextfree s"
  shows "\<exists>t fl u. page_init s = Done () t \<and> page_rep t fl \<and> check_page_free_list True t = Done () u \<and>
    page_rep u (filter (\<lambda>p. PDX (page2pa p) < 1) fl @ filter (\<lambda>p. \<not> PDX (page2pa p) < 1) fl) \<and>
    (\<forall>p. p \<notin> set fl \<longrightarrow> pmem u p = pmem s p)"
proof -
  let ?k = "(nextfree s - KERNBASE) div PGSIZE" and ?n = "unat (npages s)"
  let ?fl = "boot_list ?k ?n"
  let ?sorted = "filter (low 1) ?fl @ filter (\<lambda>p. \<not> low 1 p) ?fl"
  obtain t where t: "page_init s = Done () t" "page_rep t ?fl" "boot_inv ?k s ?n t"
    using page_init_spec[OF assms(1)] by blast
  have n: "npages s \<le> 0x10000" using assms(1) by (simp add: boot_ready_def)
  note ff = first_free[OF assms(1,2)]
  have "0x100 * 4096 < unat ?k * 4096" using assms(3) ff(1) by (simp add: word_less_nat_alt)
  hence k: "0x100 < ?k" by (simp add: word_less_nat_alt)
  have tt: "npages t = npages s" "pmem t = pmem s" "nextfree t = nextfree s" using t(3) by (simp_all add: boot_inv_def)
  note set = unat_set_boot_list[OF n, of ?k]
  have one: "1 < npages s" using ff(2) k by (auto simp: word_less_nat_alt)
  have low1: "1 \<in> set ?fl" unfolding set using one by (simp add: word_le_nat_alt)
  have kin: "?k \<in> set ?fl" unfolding set using ff(2) k by (auto simp: word_less_nat_alt)
  obtain v where v: "low_first 1 t = Done () v" "page_rep v ?sorted" "\<exists>f h. v = t\<lparr>pages := f, page_free_list := h\<rparr>"
    using low_first_ok[OF t(2), of 1] low1 by fastforce
  have vt: "npages v = npages s" "pmem v = pmem s" "nextfree v = nextfree s" using v(3) tt by auto
  have ss: "set ?sorted = set ?fl" by auto
  obtain m where m: "kseq (map (poison 1) ?sorted) v = Done () (v\<lparr>pmem := m\<rparr>)" "\<forall>f. f \<notin> set ?sorted \<longrightarrow> m f = pmem v f"
    using poison_all[of ?sorted v 1] n unfolding vt(1) ss set by blast
  let ?u = "v\<lparr>pmem := m\<rparr>"
  have nf: "nextfree s \<noteq> 0" "\<not> nextfree s < KERNBASE" "\<not> npages s * PGSIZE \<le> nextfree s - KERNBASE"
    using assms(1) by (auto simp: boot_ready_def)
  have ba: "boot_alloc 0 ?u = Done (nextfree s) ?u" using nf by (simp add: boot_alloc_def Let_def PADDR_def vt)
  have "check_free_page (nextfree ?u) p ?u = Done () ?u" if "p \<in> set ?sorted" for p
    using that k ff(1) n unfolding ss set by (intro check_free_page_ok[of p ?u ?k]) (auto simp: vt)
  hence ck: "kseq (map (check_free_page (nextfree s)) ?sorted) ?u = Done () ?u" by (intro kseq_same) (auto simp: vt)
  have lo: "page2pa 1 < EXTPHYSMEM" by (simp add: page2pa_def)
  have "?k < 0x100000" using ff(2) n by (auto simp: word_less_nat_alt word_le_nat_alt)
  hence hi: "EXTPHYSMEM \<le> page2pa ?k" using unat_page2pa[of ?k] k by (simp add: word_le_nat_alt word_less_nat_alt)
  have "page_free_list t \<noteq> None" using t(2) low1 by (cases ?fl) (auto simp: page_rep_def)
  moreover have "(\<exists>pp \<in> set ?sorted. page2pa pp < EXTPHYSMEM) \<and> (\<exists>pp \<in> set ?sorted. EXTPHYSMEM \<le> page2pa pp)"
    unfolding ss by (rule conjI, rule bexI[where x = 1], rule lo, rule low1, rule bexI[where x = ?k], rule hi, rule kin)
  ultimately have "check_page_free_list True t = Done () ?u"
    by (rule check_free_list_steps[OF _ v(1) free_pages_rep[OF v(2)] m(1) ba ck])
  moreover have "page_rep ?u ?sorted" using v(2) by (simp only: page_rep_pmem)
  moreover have "\<forall>p. p \<notin> set ?fl \<longrightarrow> pmem ?u p = pmem s p" using m(2) vt(2) ss by simp
  ultimately show ?thesis using t(1,2) by (intro exI conjI)
qed

theorem page_init_check_succeeds_witness:
  "\<exists>t fl u. page_init demo_boot = Done () t \<and> page_rep t fl \<and> check_page_free_list True t = Done () u \<and>
    page_rep u (filter (\<lambda>p. PDX (page2pa p) < 1) fl @ filter (\<lambda>p. \<not> PDX (page2pa p) < 1) fl) \<and>
    (\<forall>p. p \<notin> set fl \<longrightarrow> pmem u p = pmem demo_boot p)"
  by (rule page_init_check_succeeds[OF demo_boot_ready]) (simp_all add: demo_boot_def)

end
