(* ===== verification/KernMap.thy ===== *)
theory KernMap
  imports MemInit
begin

text \<open>
  The kernel's address space: \<^verbatim>\<open>boot_map_region\<close> as an update of the map of a page directory, and the regions
  that \<^verbatim>\<open>mem_init\<close> and \<^verbatim>\<open>mem_init_mp\<close> map with it.
\<close>

section \<open>The kernel's page directory\<close>

abbreviation uvpt_slot :: u32 where "uvpt_slot \<equiv> 0x3BD"

text \<open>\<open>kvm s pgdir fl\<close>: every slot of the directory but the one that holds the directory itself is empty or
  leads to a page table of its own, off the free list \<open>fl\<close>.\<close>

definition kvm :: "kst \<Rightarrow> u32 \<Rightarrow> u32 list \<Rightarrow> bool" where
  "kvm s pgdir fl \<longleftrightarrow> page_rep s fl \<and> pgdir = frame_addr (pd_frame pgdir) 0 \<and> pd_frame pgdir < npages s \<and>
     pd_frame pgdir \<notin> set fl \<and>
     (\<forall>d < 0x400. d \<noteq> uvpt_slot \<longrightarrow> pmem s (pd_frame pgdir) d = 0 \<or>
        pmem s (pd_frame pgdir) d = page2pa (pt_frame s pgdir d) OR 7 \<and> pt_frame s pgdir d \<noteq> 0 \<and>
        pt_frame s pgdir d < npages s \<and> pt_frame s pgdir d \<noteq> pd_frame pgdir \<and> pt_frame s pgdir d \<notin> set fl) \<and>
     (\<forall>d < 0x400. \<forall>d' < 0x400. d \<noteq> uvpt_slot \<longrightarrow> d' \<noteq> uvpt_slot \<longrightarrow> d \<noteq> d' \<longrightarrow> pt_frame s pgdir d \<noteq> 0 \<longrightarrow>
        pt_frame s pgdir d \<noteq> pt_frame s pgdir d')"

lemma kvmD:
  assumes "kvm s pgdir fl"
  shows "page_rep s fl" "pgdir = frame_addr (pd_frame pgdir) 0" "pd_frame pgdir < npages s" "npages s \<le> 0x10000"
    "pd_frame pgdir < 0x100000" "pd_frame pgdir \<notin> set fl"
  using assms by (auto simp: kvm_def page_rep_def word_less_nat_alt word_le_nat_alt)

lemma kvm_empty:
  assumes "kvm s pgdir fl" "d < 0x400" "d \<noteq> uvpt_slot"
  shows "pt_frame s pgdir d = 0 \<longleftrightarrow> pmem s (pd_frame pgdir) d = 0"
  using assms unfolding kvm_def by (auto simp: pt_frame_def PGNUM_def)

lemma kvm_pt:
  assumes "kvm s pgdir fl" "d < 0x400" "d \<noteq> uvpt_slot" "pt_frame s pgdir d \<noteq> 0"
  shows "pmem s (pd_frame pgdir) d = page2pa (pt_frame s pgdir d) OR 7" "pt_frame s pgdir d < npages s"
    "pt_frame s pgdir d < 0x10000" "pt_frame s pgdir d < 0x100000" "pt_frame s pgdir d \<noteq> pd_frame pgdir"
    "pt_frame s pgdir d \<notin> set fl"
    "d' < 0x400 \<Longrightarrow> d' \<noteq> uvpt_slot \<Longrightarrow> d \<noteq> d' \<Longrightarrow> pt_frame s pgdir d' \<noteq> pt_frame s pgdir d"
proof -
  have "pmem s (pd_frame pgdir) d \<noteq> 0" using kvm_empty[OF assms(1-3)] assms(4) by simp
  hence "pmem s (pd_frame pgdir) d = page2pa (pt_frame s pgdir d) OR 7 \<and> pt_frame s pgdir d < npages s \<and>
      pt_frame s pgdir d \<noteq> pd_frame pgdir \<and> pt_frame s pgdir d \<notin> set fl"
    using assms(1-3) unfolding kvm_def by blast
  thus "pmem s (pd_frame pgdir) d = page2pa (pt_frame s pgdir d) OR 7" "pt_frame s pgdir d < npages s"
    "pt_frame s pgdir d < 0x10000" "pt_frame s pgdir d < 0x100000" "pt_frame s pgdir d \<noteq> pd_frame pgdir"
    "pt_frame s pgdir d \<notin> set fl" using kvmD(4)[OF assms(1)] by (auto simp: word_less_nat_alt word_le_nat_alt)
  show "d' < 0x400 \<Longrightarrow> d' \<noteq> uvpt_slot \<Longrightarrow> d \<noteq> d' \<Longrightarrow> pt_frame s pgdir d' \<noteq> pt_frame s pgdir d"
    using assms unfolding kvm_def by metis
qed

section \<open>The walk\<close>

lemma kload_pde:
  "kvm s pgdir fl \<Longrightarrow> d < 0x400 \<Longrightarrow> load32 s (pgdir + push_bit 2 d) = pmem s (pd_frame pgdir) d"
  using kvmD(2,5) by (metis frame_addr_pgdir load32_frame)

lemma kwalk_table:
  assumes "kvm s pgdir fl" "PDX va \<noteq> uvpt_slot" "pt_frame s pgdir (PDX va) \<noteq> 0"
  shows "pgdir_walk pgdir va c s = Done (pte_addr s pgdir va) s" "pte_addr s pgdir va \<noteq> 0"
    "load32 s (pte_addr s pgdir va) = vmap s pgdir va"
proof -
  note w = kvm_pt[OF assms(1) _ assms(2,3), simplified]
  have "\<not> npages s \<le> PGNUM (push_bit 12 (pt_frame s pgdir (PDX va)) + push_bit 2 (PTX va))"
    using w by (simp add: word_index_add PTX_less)
  moreover have "push_bit 12 (PGNUM (pmem s (pd_frame pgdir) (PDX va))) \<noteq> 0"
    using assms(3) PTE_ADDR_0_iff by (simp add: pt_frame_def PTE_ADDR_PGNUM [symmetric])
  ultimately show "pgdir_walk pgdir va c s = Done (pte_addr s pgdir va) s" using assms
    by (simp add: pgdir_walk_def Let_def kload_pde PTE_ADDR_0_iff pt_frame_def KADDR_def
        pte_addr_def frame_addr_def PTE_ADDR_PGNUM)
  show "pte_addr s pgdir va \<noteq> 0" "load32 s (pte_addr s pgdir va) = vmap s pgdir va"
    using w assms(3) by (simp_all add: pte_addr_def vmap_def frame_addr_nonzero)
qed

lemma kwalk_new:
  assumes "kvm s pgdir (p # fl)" "pt_frame s pgdir (PDX va) = 0"
  shows "pgdir_walk pgdir va True s = Done (frame_addr p (PTX va)) (with_table pgdir va p s)"
proof -
  note r = kvmD(1)[OF assms(1)]
  have p: "p < npages s" "npages s \<le> 0x10000" using r by (auto simp: page_rep_def)
  hence k: "PGNUM (page2pa p) = p" by (simp add: word_less_nat_alt word_le_nat_alt)
  have a: "pgdir + push_bit 2 (PDX va) = frame_addr (pd_frame pgdir) (PDX va)"
    using kvmD(2)[OF assms(1)] frame_addr_pgdir by metis
  have ld: "PTE_ADDR (load32 s (frame_addr (pd_frame pgdir) (PDX va))) = 0"
    using assms(2) kvmD(5)[OF assms(1)] by (simp add: PTE_ADDR_0_iff pt_frame_def)
  have fa: "page2pa p + KERNBASE + push_bit 2 (PTX va) = frame_addr p (PTX va)"
    by (simp add: frame_addr_def page2pa_def)
  have np: "\<not> npages s \<le> p" using p by simp
  show ?thesis using np fa
    by (simp add: pgdir_walk_def Let_def a ld page_alloc_cons [OF r] with_table_def KADDR_def k or.assoc)
qed

section \<open>A new page table\<close>

lemma kwith_pmem:
  assumes "kvm s pgdir (p # fl)"
  shows "pmem (with_table pgdir va p s) = (pmem s)(p := \<lambda>_. 0,
     pd_frame pgdir := (pmem s (pd_frame pgdir))(PDX va := page2pa p OR 7))"
  using kvmD[OF assms] by (simp add: with_table_def after_alloc_def Let_def)

lemma kfree_head:
  assumes "kvm s pgdir (p # fl)"
  shows "p \<noteq> 0" "p < npages s" "p < 0x100000" "p \<noteq> pd_frame pgdir" "p \<notin> set fl"
    "d < 0x400 \<Longrightarrow> d \<noteq> uvpt_slot \<Longrightarrow> pt_frame s pgdir d \<noteq> p"
proof -
  note D = kvmD[OF assms]
  show "p \<noteq> 0" "p < npages s" "p < 0x100000" "p \<noteq> pd_frame pgdir" "p \<notin> set fl"
    using D page_rep_distinct[OF D(1)] by (auto simp: page_rep_def word_less_nat_alt word_le_nat_alt)
  thus "d < 0x400 \<Longrightarrow> d \<noteq> uvpt_slot \<Longrightarrow> pt_frame s pgdir d \<noteq> p" using kvm_pt(6)[OF assms, of d] by auto
qed

lemma kwith_pt:
  assumes "kvm s pgdir (p # fl)"
  shows "pt_frame (with_table pgdir va p s) pgdir d = (if d = PDX va then p else pt_frame s pgdir d)"
  using kfree_head[OF assms] PGNUM_entry [of 7 p] by (simp add: pt_frame_def kwith_pmem [OF assms])

lemma kwith_kvm:
  assumes "kvm s pgdir (p # fl)" "PDX va \<noteq> uvpt_slot" "pt_frame s pgdir (PDX va) = 0"
  shows "kvm (with_table pgdir va p s) pgdir fl"
proof -
  note D = kvmD[OF assms(1)] and P = kfree_head[OF assms(1)]
  let ?t = "with_table pgdir va p s" and ?F = "pd_frame pgdir"
  have r: "page_rep ?t fl"
    using after_alloc_rep(1)[OF D(1), of ALLOC_ZERO] P(5) by (simp add: with_table_def page_rep_incref)
  have slot: "pmem ?t ?F d = 0 \<or> pmem ?t ?F d = page2pa (pt_frame ?t pgdir d) OR 7 \<and> pt_frame ?t pgdir d \<noteq> 0 \<and>
        pt_frame ?t pgdir d < npages ?t \<and> pt_frame ?t pgdir d \<noteq> ?F \<and> pt_frame ?t pgdir d \<notin> set fl"
    if d: "d < 0x400" "d \<noteq> uvpt_slot" for d
  proof (cases "d = PDX va")
    case True
    thus ?thesis using P by (simp add: kwith_pt[OF assms(1)] kwith_pmem[OF assms(1)])
  next
    case False
    show ?thesis
    proof (cases "pt_frame s pgdir d = 0")
      case True
      thus ?thesis using False kvm_empty[OF assms(1) d] by (simp add: kwith_pmem[OF assms(1)])
    next
      case nz: False
      show ?thesis using False nz kvm_pt[OF assms(1) d nz]
        by (simp add: kwith_pt[OF assms(1)]) (simp add: kwith_pmem[OF assms(1)])
    qed
  qed
  have "pt_frame ?t pgdir d \<noteq> pt_frame ?t pgdir d'"
    if "d < 0x400" "d' < 0x400" "d \<noteq> uvpt_slot" "d' \<noteq> uvpt_slot" "d \<noteq> d'" "pt_frame ?t pgdir d \<noteq> 0" for d d'
    using that P(6)[of d] P(6)[of d'] kvm_pt(7)[OF assms(1), of d d']
    by (auto simp: kwith_pt[OF assms(1)] split: if_splits)
  thus ?thesis unfolding kvm_def using r slot D(2,3,6) by simp
qed

lemma kwith_vmap:
  assumes "kvm s pgdir (p # fl)" "PDX va \<noteq> uvpt_slot" "pt_frame s pgdir (PDX va) = 0" "PDX a \<noteq> uvpt_slot"
  shows "vmap (with_table pgdir va p s) pgdir a = vmap s pgdir a"
proof -
  note P = kfree_head[OF assms(1)]
  show ?thesis
  proof (cases "PDX a = PDX va")
    case True
    thus ?thesis using assms(3) P
      by (simp add: vmap_def kwith_pt[OF assms(1)]) (simp add: kwith_pmem[OF assms(1)])
  next
    case False
    show ?thesis
    proof (cases "pt_frame s pgdir (PDX a) = 0")
      case True thus ?thesis using False by (simp add: vmap_def kwith_pt[OF assms(1)])
    next
      case t: False
      have "pt_frame s pgdir (PDX a) \<noteq> pd_frame pgdir" "pt_frame s pgdir (PDX a) \<noteq> p"
        using kvm_pt(5)[OF assms(1) _ assms(4) t] P(6)[of "PDX a"] assms(4) by simp_all
      thus ?thesis using False
        by (simp add: vmap_def kwith_pt[OF assms(1)]) (simp add: kwith_pmem[OF assms(1)])
    qed
  qed
qed

section \<open>Storing an entry\<close>

lemma kput_pmem:
  assumes "kvm s pgdir fl" "PDX va \<noteq> uvpt_slot" "pt_frame s pgdir (PDX va) \<noteq> 0"
  shows "pmem (put_pte pgdir va v s) = (pmem s)(pt_frame s pgdir (PDX va) :=
    (pmem s (pt_frame s pgdir (PDX va)))(PTX va := v))"
  using kvm_pt(4)[OF assms(1) _ assms(2,3)] by (simp add: put_pte_def pte_addr_def)

lemma kput_pd:
  assumes "kvm s pgdir fl" "PDX va \<noteq> uvpt_slot" "pt_frame s pgdir (PDX va) \<noteq> 0"
  shows "pmem (put_pte pgdir va v s) (pd_frame pgdir) = pmem s (pd_frame pgdir)"
    "pt_frame (put_pte pgdir va v s) pgdir d = pt_frame s pgdir d"
proof -
  show pd: "pmem (put_pte pgdir va v s) (pd_frame pgdir) = pmem s (pd_frame pgdir)"
    using kvm_pt(5)[OF assms(1) _ assms(2,3)] by (simp add: kput_pmem[OF assms])
  show "pt_frame (put_pte pgdir va v s) pgdir d = pt_frame s pgdir d" by (simp add: pt_frame_def pd)
qed

lemma kput_kvm:
  assumes "kvm s pgdir fl" "PDX va \<noteq> uvpt_slot" "pt_frame s pgdir (PDX va) \<noteq> 0"
  shows "kvm (put_pte pgdir va v s) pgdir fl"
  using assms(1) unfolding kvm_def by (simp add: kput_pd[OF assms])

lemma kput_vmap:
  assumes "kvm s pgdir fl" "PDX va \<noteq> uvpt_slot" "pt_frame s pgdir (PDX va) \<noteq> 0" "PDX a \<noteq> uvpt_slot"
  shows "vmap (put_pte pgdir va v s) pgdir a = (if PGNUM a = PGNUM va then v else vmap s pgdir a)"
proof -
  have "pt_frame s pgdir (PDX a) = pt_frame s pgdir (PDX va) \<Longrightarrow> PDX a = PDX va"
    using kvm_pt(7)[OF assms(1) _ assms(2,3), of "PDX a"] assms(4) by force
  thus ?thesis using assms(3) PDX_PTX_eq_iff [of a va]
    by (auto simp: vmap_def kput_pd(2)[OF assms(1-3)] kput_pmem[OF assms(1-3)])
qed


section \<open>Regions\<close>

definition in_region :: "u32 \<Rightarrow> nat \<Rightarrow> u32 \<Rightarrow> bool" where
  "in_region va n a \<longleftrightarrow> unat va \<le> unat a \<and> unat a < unat va + n * 4096"

definition region_pte :: "u32 \<Rightarrow> u32 \<Rightarrow> u32 \<Rightarrow> u32 \<Rightarrow> u32" where
  "region_pte va pa perm a = (pa + of_nat ((unat a - unat va) div 4096) * 4096) OR perm OR PTE_P"

text \<open>The free pages are enough for the page tables that the slots \<open>D\<close> lack.\<close>

definition kroom :: "kst \<Rightarrow> u32 \<Rightarrow> u32 set \<Rightarrow> u32 list \<Rightarrow> bool" where
  "kroom s pgdir D fl \<longleftrightarrow> card {d \<in> D. pt_frame s pgdir d = 0} \<le> length fl"

text \<open>What mapping leaves alone: only memory, the page structures and the free list change.\<close>

definition maps_only :: "kst \<Rightarrow> kst \<Rightarrow> bool" where
  "maps_only s t \<longleftrightarrow> (\<exists>m g h. t = s\<lparr>pmem := m, pages := g, page_free_list := h\<rparr>)"

lemma maps_only_refl [simp]: "maps_only s s"
  unfolding maps_only_def by (intro exI[of _ "pmem s"] exI[of _ "pages s"] exI[of _ "page_free_list s"]) simp

lemma maps_only_trans: "maps_only s t \<Longrightarrow> maps_only t u \<Longrightarrow> maps_only s u"
  unfolding maps_only_def by (elim exE) (intro exI, simp)

lemma maps_only_fields:
  "maps_only s t \<Longrightarrow> npages t = npages s \<and> kern_pgdir t = kern_pgdir s \<and> pages_va t = pages_va s \<and> envs_va t = envs_va s"
  by (auto simp: maps_only_def)

lemma maps_onlyI: "t = s\<lparr>pmem := pmem t, pages := pages t, page_free_list := page_free_list t\<rparr> \<Longrightarrow> maps_only s t"
  unfolding maps_only_def by blast

lemma maps_only_put: "maps_only s (put_pte pgdir va v s)"
  by (rule maps_onlyI) (simp add: put_pte_def store32_def Let_def)

lemma maps_only_with: "maps_only s (with_table pgdir va p s)"
  by (rule maps_onlyI) (simp add: with_table_def after_alloc_def page_incref_def upd_page_def store32_def Let_def)

text \<open>One page: the walk finds or makes the page table.\<close>

lemma kwalk_create:
  assumes k: "kvm s pgdir fl" and r: "kroom s pgdir D fl" and D: "D \<subseteq> {d. d < 0x400 \<and> d \<noteq> uvpt_slot}" "PDX va \<in> D"
  shows "\<exists>s' fl'. pgdir_walk pgdir va True s = Done (pte_addr s' pgdir va) s' \<and> kvm s' pgdir fl' \<and> kroom s' pgdir D fl' \<and>
    pt_frame s' pgdir (PDX va) \<noteq> 0 \<and> (\<forall>a. PDX a \<noteq> uvpt_slot \<longrightarrow> vmap s' pgdir a = vmap s pgdir a) \<and>
    (\<forall>d. pt_frame s' pgdir d = 0 \<longleftrightarrow> pt_frame s pgdir d = 0 \<and> d \<noteq> PDX va) \<and>
    pmem s' (pd_frame pgdir) uvpt_slot = pmem s (pd_frame pgdir) uvpt_slot \<and> maps_only s s'"
proof -
  have u: "PDX va \<noteq> uvpt_slot" using D by auto
  show ?thesis
  proof (cases "pt_frame s pgdir (PDX va) = 0")
    case False
    show ?thesis
      by (intro exI[of _ s] exI[of _ fl]) (use k r False kwalk_table(1)[OF k u False] in auto)
  next
    case True
    let ?A = "{d \<in> D. pt_frame s pgdir d = 0}"
    have "PDX va \<in> ?A" using True D(2) by simp
    hence c: "card ?A = Suc (card (?A - {PDX va}))" by (metis (no_types, lifting) card.remove finite)
    then obtain p fl' where fl: "fl = p # fl'" using r by (cases fl) (simp_all add: kroom_def)
    note k' = k[unfolded fl]
    let ?t = "with_table pgdir va p s"
    have pt: "pt_frame ?t pgdir d = 0 \<longleftrightarrow> pt_frame s pgdir d = 0 \<and> d \<noteq> PDX va" for d
      using kfree_head(1)[OF k'] True by (simp add: kwith_pt[OF k'])
    have "{d \<in> D. pt_frame ?t pgdir d = 0} = ?A - {PDX va}" using pt by auto
    hence room: "kroom ?t pgdir D fl'" using r c by (simp add: kroom_def fl)
    have "pgdir_walk pgdir va True s = Done (pte_addr ?t pgdir va) ?t"
      using kwalk_new[OF k' True] by (simp add: pte_addr_def kwith_pt[OF k'])
    moreover have "pmem ?t (pd_frame pgdir) uvpt_slot = pmem s (pd_frame pgdir) uvpt_slot"
      using u by (simp add: kwith_pmem[OF k'])
    ultimately show ?thesis
      using room pt True kwith_kvm[OF k' u True] kwith_vmap[OF k' u True] maps_only_with
      by (intro exI[of _ ?t] exI[of _ fl']) auto
  qed
qed

lemma div_page_iff: "x div 4096 = q \<longleftrightarrow> 4096 * q \<le> x \<and> x < 4096 * q + (4096 :: nat)"
proof
  assume "x div 4096 = q"
  thus "4096 * q \<le> x \<and> x < 4096 * q + 4096"
    using mult_div_mod_eq[of 4096 x] mod_less_divisor[of 4096 x] by linarith
next
  assume "4096 * q \<le> x \<and> x < 4096 * q + 4096"
  thus "x div 4096 = q" by (intro div_nat_eqI) simp_all
qed

lemma div_page_Suc: "(x + 4096) div 4096 = Suc (x div (4096 :: nat))"
  by simp

lemma PGNUM_eq_region: "4096 dvd unat va \<Longrightarrow> PGNUM a = PGNUM va \<longleftrightarrow> in_region va 1 a"
proof -
  assume d: "4096 dvd unat va"
  have g: "unat (PGNUM x) = unat x div 4096" for x by (simp add: PGNUM_def drop_bit_eq_div unat_div_distrib)
  have "PGNUM a = PGNUM va \<longleftrightarrow> unat a div 4096 = unat va div 4096" using g word_unat_eq_iff by metis
  also have "\<dots> \<longleftrightarrow> in_region va 1 a"
  proof -
    obtain q where q: "unat va = 4096 * q" using d by (auto elim: dvdE)
    have "unat a div 4096 = q \<longleftrightarrow> 4096 * q \<le> unat a \<and> unat a < 4096 * q + 4096" by (rule div_page_iff)
    thus ?thesis unfolding in_region_def q by simp
  qed
  finally show ?thesis .
qed

lemma region_Suc:
  assumes "4096 dvd unat va" "unat va + Suc n * 4096 \<le> 2 ^ 32" "0 < n"
  shows "unat (va + PGSIZE) = unat va + 4096" "4096 dvd unat (va + PGSIZE)"
    "in_region va (Suc n) a \<longleftrightarrow> in_region va 1 a \<or> in_region (va + PGSIZE) n a" "\<not> (in_region va 1 a \<and> in_region (va + PGSIZE) n a)"
    "in_region (va + PGSIZE) n a \<Longrightarrow> region_pte (va + PGSIZE) (pa + PGSIZE) perm a = region_pte va pa perm a"
proof -
  have "unat va + 4096 < 2 ^ 32" using assms(2,3) by (cases n) simp_all
  thus u: "unat (va + PGSIZE) = unat va + 4096" by (simp add: unat_word_ariths)
  show "4096 dvd unat (va + PGSIZE)" unfolding u using assms(1) by simp
  show "in_region va (Suc n) a \<longleftrightarrow> in_region va 1 a \<or> in_region (va + PGSIZE) n a"
    "\<not> (in_region va 1 a \<and> in_region (va + PGSIZE) n a)" unfolding in_region_def u by auto
  assume "in_region (va + PGSIZE) n a"
  hence "unat a - unat va = (unat a - (unat va + 4096)) + 4096" unfolding in_region_def u by linarith
  hence "(unat a - unat va) div 4096 = (unat a - (unat va + 4096) + 4096) div 4096" by (rule arg_cong)
  hence "(unat a - unat va) div 4096 = Suc ((unat a - unat (va + PGSIZE)) div 4096)" unfolding u div_page_Suc .
  thus "region_pte (va + PGSIZE) (pa + PGSIZE) perm a = region_pte va pa perm a"
    by (simp add: region_pte_def algebra_simps)
qed

lemma region_pte_first: "in_region va 1 a \<Longrightarrow> region_pte va pa perm a = pa OR perm OR PTE_P"
proof -
  assume "in_region va 1 a"
  hence "unat a - unat va < 4096" unfolding in_region_def by linarith
  hence "(unat a - unat va) div 4096 = 0" by simp
  thus ?thesis by (simp add: region_pte_def)
qed


text \<open>\<^verbatim>\<open>boot_map_region\<close> maps the \<open>n\<close> pages of a region, makes the page tables it lacks and leaves every other
  address as it was.\<close>

definition region_mapped :: "kst \<Rightarrow> kst \<Rightarrow> u32 \<Rightarrow> u32 \<Rightarrow> nat \<Rightarrow> u32 \<Rightarrow> u32 \<Rightarrow> bool" where
  "region_mapped s t pgdir va n pa perm \<longleftrightarrow>
     (\<forall>a. PDX a \<noteq> uvpt_slot \<longrightarrow> vmap t pgdir a = (if in_region va n a then region_pte va pa perm a else vmap s pgdir a)) \<and>
     (\<forall>d. pt_frame t pgdir d = 0 \<longleftrightarrow> pt_frame s pgdir d = 0 \<and> (\<forall>a. in_region va n a \<longrightarrow> PDX a \<noteq> d)) \<and>
     pmem t (pd_frame pgdir) uvpt_slot = pmem s (pd_frame pgdir) uvpt_slot \<and> maps_only s t"

lemma region_0: "\<not> in_region va 0 a"
  by (simp add: in_region_def)

lemma boot_map_region_ok:
  assumes "kvm s pgdir fl" "kroom s pgdir D fl" "D \<subseteq> {d. d < 0x400 \<and> d \<noteq> uvpt_slot}"
    "4096 dvd unat va" "unat va + n * 4096 \<le> 2 ^ 32" "n < 0x100000" "\<forall>a. in_region va n a \<longrightarrow> PDX a \<in> D"
  shows "\<exists>t fl'. boot_map_region pgdir va (of_nat (n * 4096)) pa perm s = Done () t \<and> kvm t pgdir fl' \<and>
    kroom t pgdir D fl' \<and> region_mapped s t pgdir va n pa perm"
  using assms
proof (induction n arbitrary: va pa s fl)
  case 0
  show ?case using 0(1,2)
    by (intro exI[of _ s] exI[of _ fl], subst boot_map_region.simps) (simp add: region_mapped_def region_0)
next
  case (Suc n)
  have sz: "unat (of_nat (Suc n * 4096) :: u32) = Suc n * 4096" 
  proof -
    have "Suc n * 4096 < 2 ^ 32" using Suc(7) by simp
    thus ?thesis by (simp only: unat_of_nat) simp
  qed
  have s1: "PGSIZE \<le> of_nat (Suc n * 4096)" unfolding word_le_nat_alt sz by simp
  have s2: "of_nat (Suc n * 4096) - PGSIZE = of_nat (n * 4096)" by (simp add: algebra_simps)
  have self: "in_region va (Suc n) va" by (simp add: in_region_def)
  hence va: "PDX va \<in> D" using Suc(8) by blast
  hence u: "PDX va \<noteq> uvpt_slot" using Suc(4) by auto
  obtain s' f where w: "pgdir_walk pgdir va True s = Done (pte_addr s' pgdir va) s'" "kvm s' pgdir f" "kroom s' pgdir D f"
    "pt_frame s' pgdir (PDX va) \<noteq> 0" "\<forall>a. PDX a \<noteq> uvpt_slot \<longrightarrow> vmap s' pgdir a = vmap s pgdir a"
    "\<forall>d. pt_frame s' pgdir d = 0 \<longleftrightarrow> pt_frame s pgdir d = 0 \<and> d \<noteq> PDX va"
    "pmem s' (pd_frame pgdir) uvpt_slot = pmem s (pd_frame pgdir) uvpt_slot" "maps_only s s'"
    using kwalk_create[OF Suc(2-4) va] by blast
  let ?v = "pa OR perm OR PTE_P" and ?u = "put_pte pgdir va (pa OR perm OR PTE_P) s'"
  have nz: "pte_addr s' pgdir va \<noteq> 0" using kwalk_table(2)[OF w(2) u w(4)] .
  have run: "boot_map_region pgdir va (of_nat (Suc n * 4096)) pa perm s =
      boot_map_region pgdir (va + PGSIZE) (of_nat (n * 4096)) (pa + PGSIZE) perm ?u"
    using s1 by (subst boot_map_region.simps) (simp only: if_True w(1) kbind.simps nz if_False s2 put_pte_def)
  have ku: "kvm ?u pgdir f" by (rule kput_kvm[OF w(2) u w(4)])
  have ru: "kroom ?u pgdir D f" using w(3) by (simp add: kroom_def kput_pd(2)[OF w(2) u w(4)])
  have vu: "vmap ?u pgdir a = (if in_region va 1 a then ?v else vmap s pgdir a)" if "PDX a \<noteq> uvpt_slot" for a
    using kput_vmap[OF w(2) u w(4) that] w(5) that PGNUM_eq_region[OF Suc(5)] by simp
  have pu: "pt_frame ?u pgdir d = 0 \<longleftrightarrow> pt_frame s pgdir d = 0 \<and> d \<noteq> PDX va" for d
    using w(6) by (simp add: kput_pd(2)[OF w(2) u w(4)])
  have mu: "pmem ?u (pd_frame pgdir) uvpt_slot = pmem s (pd_frame pgdir) uvpt_slot" "maps_only s ?u"
    using w(7) maps_only_trans[OF w(8) maps_only_put] by (simp_all add: kput_pd(1)[OF w(2) u w(4)])
  have one: "PDX a = PDX va" if "in_region va 1 a" for a
    using that PGNUM_eq_region[OF Suc(5)] PDX_PTX_eq_iff by blast
  show ?case
  proof (cases "n = 0")
    case True
    have "boot_map_region pgdir (va + PGSIZE) (of_nat (n * 4096)) (pa + PGSIZE) perm ?u = Done () ?u"
      by (subst boot_map_region.simps) (simp add: True)
    moreover have "region_mapped s ?u pgdir va (Suc n) pa perm"
    proof -
      have S: "Suc n = 1" using True by simp
      have "vmap ?u pgdir a = (if in_region va 1 a then region_pte va pa perm a else vmap s pgdir a)"
        if "PDX a \<noteq> uvpt_slot" for a
        unfolding vu[OF that] using region_pte_first[of va a pa perm] by (cases "in_region va 1 a") (simp_all only: if_True if_False)
      moreover have "pt_frame ?u pgdir d = 0 \<longleftrightarrow> pt_frame s pgdir d = 0 \<and> (\<forall>a. in_region va 1 a \<longrightarrow> PDX a \<noteq> d)" for d
        using pu[of d] one self[unfolded S] by blast
      ultimately show ?thesis unfolding region_mapped_def S using mu by blast
    qed
    ultimately show ?thesis using run ku ru by metis
  next
    case False
    hence n0: "0 < n" by simp
    note R = region_Suc[OF Suc(5,6) n0]
    have "unat (va + PGSIZE) + n * 4096 \<le> 2 ^ 32" "n < 0x100000" using Suc(6,7) unfolding R(1) by simp_all
    moreover have "\<forall>a. in_region (va + PGSIZE) n a \<longrightarrow> PDX a \<in> D" using R(3) Suc(8) by blast
    ultimately obtain t fl' where t: "boot_map_region pgdir (va + PGSIZE) (of_nat (n * 4096)) (pa + PGSIZE) perm ?u = Done () t"
      "kvm t pgdir fl'" "kroom t pgdir D fl'" "region_mapped ?u t pgdir (va + PGSIZE) n (pa + PGSIZE) perm"
      using Suc(1)[OF ku ru Suc(4) R(2)] by blast
    have m: "vmap t pgdir a = (if in_region va (Suc n) a then region_pte va pa perm a else vmap s pgdir a)"
      if a: "PDX a \<noteq> uvpt_slot" for a
    proof -
      have "vmap t pgdir a = (if in_region (va + PGSIZE) n a then region_pte (va + PGSIZE) (pa + PGSIZE) perm a else vmap ?u pgdir a)"
        using t(4) a unfolding region_mapped_def by blast
      thus ?thesis using vu[OF a] R(3,4)[of a] R(5)[of a pa perm] region_pte_first[of va a pa perm] by auto
    qed
    have p: "pt_frame t pgdir d = 0 \<longleftrightarrow> pt_frame s pgdir d = 0 \<and> (\<forall>a. in_region va (Suc n) a \<longrightarrow> PDX a \<noteq> d)" for d
    proof -
      have "pt_frame t pgdir d = 0 \<longleftrightarrow> pt_frame ?u pgdir d = 0 \<and> (\<forall>a. in_region (va + PGSIZE) n a \<longrightarrow> PDX a \<noteq> d)"
        using t(4) unfolding region_mapped_def by blast
      thus ?thesis using pu[of d] R(3) one self by blast
    qed
    have "region_mapped s t pgdir va (Suc n) pa perm"
      unfolding region_mapped_def
    proof (intro conjI allI impI)
      note T = t(4)[unfolded region_mapped_def]
      show "pmem t (pd_frame pgdir) uvpt_slot = pmem s (pd_frame pgdir) uvpt_slot" using T mu(1) by presburger
      show "maps_only s t" using T maps_only_trans[OF mu(2)] by blast
    qed (use m p in blast)+
    thus ?thesis using run t(1-3) by metis
  qed
qed

section \<open>Many regions\<close>

text \<open>A region is its address, its number of pages, its physical address and its permissions.\<close>

type_synonym region = "u32 \<times> nat \<times> u32 \<times> u32"

fun map_regions :: "u32 \<Rightarrow> region list \<Rightarrow> kst \<Rightarrow> (unit, kst) kres" where
  "map_regions pgdir [] s = Done () s"
| "map_regions pgdir ((va, n, pa, perm) # rs) s =
     kbind (boot_map_region pgdir va (of_nat (n * 4096)) pa perm s) (\<lambda>_ s. map_regions pgdir rs s)"

fun region_ok :: "u32 set \<Rightarrow> region \<Rightarrow> bool" where
  "region_ok D (va, n, pa, perm) \<longleftrightarrow> 4096 dvd unat va \<and> unat va + n * 4096 \<le> 2 ^ 32 \<and> n < 0x100000 \<and>
     (\<forall>a. in_region va n a \<longrightarrow> PDX a \<in> D)"

fun overlay :: "region list \<Rightarrow> (u32 \<Rightarrow> u32) \<Rightarrow> u32 \<Rightarrow> u32" where
  "overlay [] f a = f a"
| "overlay ((va, n, pa, perm) # rs) f a = overlay rs (\<lambda>a. if in_region va n a then region_pte va pa perm a else f a) a"

fun region_slots :: "region list \<Rightarrow> u32 set" where
  "region_slots [] = {}"
| "region_slots ((va, n, pa, perm) # rs) = {PDX a | a. in_region va n a} \<union> region_slots rs"

lemma overlay_cong: "f a = g a \<Longrightarrow> overlay rs f a = overlay rs g a"
proof (induction rs arbitrary: f g)
  case (Cons r rs)
  obtain va n pa perm where r: "r = (va, n, pa, perm)" by (cases r)
  show ?case unfolding r overlay.simps by (rule Cons(1)) (simp add: Cons(2))
qed simp

lemma map_regions_ok:
  assumes "kvm s pgdir fl" "kroom s pgdir D fl" "D \<subseteq> {d. d < 0x400 \<and> d \<noteq> uvpt_slot}" "\<forall>r \<in> set rs. region_ok D r"
  shows "\<exists>t fl'. map_regions pgdir rs s = Done () t \<and> kvm t pgdir fl' \<and> kroom t pgdir D fl' \<and>
    (\<forall>a. PDX a \<noteq> uvpt_slot \<longrightarrow> vmap t pgdir a = overlay rs (vmap s pgdir) a) \<and>
    (\<forall>d. pt_frame t pgdir d = 0 \<longleftrightarrow> pt_frame s pgdir d = 0 \<and> d \<notin> region_slots rs) \<and>
    pmem t (pd_frame pgdir) uvpt_slot = pmem s (pd_frame pgdir) uvpt_slot \<and> maps_only s t"
  using assms
proof (induction rs arbitrary: s fl)
  case Nil
  thus ?case by (intro exI[of _ s] exI[of _ fl]) simp
next
  case (Cons r rs)
  obtain va n pa perm where r: "r = (va, n, pa, perm)" by (cases r)
  have ok: "4096 dvd unat va" "unat va + n * 4096 \<le> 2 ^ 32" "n < 0x100000" "\<forall>a. in_region va n a \<longrightarrow> PDX a \<in> D"
    using Cons(5) by (simp_all add: r)
  obtain u f where u: "boot_map_region pgdir va (of_nat (n * 4096)) pa perm s = Done () u" "kvm u pgdir f"
    "kroom u pgdir D f" "region_mapped s u pgdir va n pa perm"
    using boot_map_region_ok[OF Cons(2-4) ok] by blast
  have rest: "\<forall>r \<in> set rs. region_ok D r" using Cons(5) by simp
  obtain t fl' where t: "map_regions pgdir rs u = Done () t" "kvm t pgdir fl'" "kroom t pgdir D fl'"
    "\<forall>a. PDX a \<noteq> uvpt_slot \<longrightarrow> vmap t pgdir a = overlay rs (vmap u pgdir) a"
    "\<forall>d. pt_frame t pgdir d = 0 \<longleftrightarrow> pt_frame u pgdir d = 0 \<and> d \<notin> region_slots rs"
    "pmem t (pd_frame pgdir) uvpt_slot = pmem u (pd_frame pgdir) uvpt_slot" "maps_only u t"
    using Cons(1)[OF u(2,3) Cons(4) rest] by blast
  note M = u(4)[unfolded region_mapped_def]
  have v: "vmap t pgdir a = overlay (r # rs) (vmap s pgdir) a" if "PDX a \<noteq> uvpt_slot" for a
  proof -
    have "vmap t pgdir a = overlay rs (vmap u pgdir) a" using t(4) that by blast
    also have "\<dots> = overlay rs (\<lambda>a. if in_region va n a then region_pte va pa perm a else vmap s pgdir a) a"
      by (rule overlay_cong) (use M that in blast)
    finally show ?thesis by (simp only: r overlay.simps)
  qed
  have "region_slots (r # rs) = {PDX a | a. in_region va n a} \<union> region_slots rs" by (simp add: r)
  hence "pt_frame t pgdir d = 0 \<longleftrightarrow> pt_frame s pgdir d = 0 \<and> d \<notin> region_slots (r # rs)" for d
    using t(5) M by auto
  moreover have "map_regions pgdir (r # rs) s = Done () t" using u(1) t(1) by (simp add: r)
  moreover have "maps_only s t" "pmem t (pd_frame pgdir) uvpt_slot = pmem s (pd_frame pgdir) uvpt_slot"
    using M t(6,7) maps_only_trans by auto
  ultimately show ?case using v t(2,3) by (intro exI[of _ t] exI[of _ fl']) blast
qed

end
