(* ===== verification/KernSpace.thy ===== *)
theory KernSpace
  imports KernMap
begin

text \<open>
  The address space that \<^verbatim>\<open>mem_init\<close> builds for the kernel: the regions are mapped where
  \<^verbatim>\<open>inc/memlayout.h\<close> draws them, nothing else changes, and the self test \<^verbatim>\<open>check_kern_pgdir\<close> succeeds.
\<close>

section \<open>Mapping keeps the rest of the state\<close>

lemma page_alloc_maps_only: "page_alloc fl s = Done r t \<Longrightarrow> maps_only s t"
  by (rule maps_onlyI)
     (auto simp: page_alloc_def Let_def kbind_Done_iff page2kva_def KADDR_def zero_page_def upd_page_def
       split: option.splits if_splits)

lemma store32_maps_only: "maps_only s (store32 a v s)"
  by (rule maps_onlyI) (simp add: store32_def Let_def)

lemma page_incref_maps_only: "maps_only s (page_incref p s)"
  by (rule maps_onlyI) (simp add: page_incref_def upd_page_def)

lemma KADDR_Done_iff: "KADDR pa s = Done r t \<longleftrightarrow> \<not> npages s \<le> PGNUM pa \<and> r = pa + KERNBASE \<and> t = s"
  by (auto simp: KADDR_def)

lemma pgdir_walk_maps_only:
  assumes "pgdir_walk pgdir va c s = Done r t" shows "maps_only s t"
proof -
  let ?pde = "pgdir + push_bit 2 (PDX va)"
  consider "t = s" | p where "page_alloc ALLOC_ZERO s = Done p t"
    | p u where "page_alloc ALLOC_ZERO s = Done (Some p) u"
      "t = page_incref p (store32 ?pde (page2pa p OR PTE_P OR PTE_W OR PTE_U) u)"
    using assms unfolding pgdir_walk_def Let_def
    by (auto simp: kbind_Done_iff KADDR_Done_iff simp del: ALLOC_ZERO_def split: if_splits option.splits)
  thus ?thesis
  proof cases
    case 3
    thus ?thesis
      using maps_only_trans[OF page_alloc_maps_only[OF 3(1)] maps_only_trans[OF store32_maps_only page_incref_maps_only]] by blast
  qed (use page_alloc_maps_only in auto)
qed

lemma boot_map_region_maps_only:
  "boot_map_region pgdir va sz pa perm s = Done () t \<Longrightarrow> maps_only s t"
proof (induction pgdir va sz pa perm s rule: boot_map_region.induct)
  case (1 pgdir va sz pa perm s)
  show ?case
  proof (cases "PGSIZE \<le> sz")
    case True
    then obtain q u where w: "pgdir_walk pgdir va True s = Done q u" "q \<noteq> 0"
      "boot_map_region pgdir (va + PGSIZE) (sz - PGSIZE) (pa + PGSIZE) perm (store32 q (pa OR perm OR PTE_P) u) = Done () t"
      using 1(2) by (subst (asm) boot_map_region.simps) (auto simp: kbind_Done_iff simp del: PGSIZE_def split: if_splits)
    have "maps_only (store32 q (pa OR perm OR PTE_P) u) t" by (rule 1(1)[OF True w(2,3)])
    thus ?thesis using pgdir_walk_maps_only[OF w(1)] store32_maps_only maps_only_trans by blast
  next
    case False
    thus ?thesis using 1(2) by (subst (asm) boot_map_region.simps) (simp del: PGSIZE_def)
  qed
qed

text \<open>A sequence of statements that each map a region, in a state of which the mapping code only changes memory,
  is the sequence of the regions.\<close>

fun maps_region :: "kst \<Rightarrow> u32 \<Rightarrow> (kst \<Rightarrow> (unit, kst) kres) \<Rightarrow> region \<Rightarrow> bool" where
  "maps_region s pgdir f (va, n, pa, perm) \<longleftrightarrow>
     (\<forall>u. maps_only s u \<longrightarrow> f u = boot_map_region pgdir va (of_nat (n * 4096)) pa perm u)"

lemma maps_regionI:
  "(\<And>u. maps_only s u \<Longrightarrow> f u = boot_map_region pgdir va (of_nat (n * 4096)) pa perm u) \<Longrightarrow>
   maps_region s pgdir f (va, n, pa, perm)"
  by simp

lemma kseq_regions:
  assumes "list_all2 (maps_region s pgdir) fs rs" "maps_only s u" "map_regions pgdir rs u = Done () t"
  shows "kseq fs u = Done () t"
  using assms
proof (induction fs rs arbitrary: u rule: list_all2_induct)
  case Nil
  thus ?case by simp
next
  case (Cons f fs r rs)
  obtain va n pa perm where r: "r = (va, n, pa, perm)" by (cases r)
  obtain v where v: "boot_map_region pgdir va (of_nat (n * 4096)) pa perm u = Done () v" "map_regions pgdir rs v = Done () t"
    using Cons(5) by (auto simp: r kbind_Done_iff)
  have "f u = Done () v" using Cons(1,4) v(1) by (simp add: r)
  moreover have "maps_only s v" using maps_only_trans[OF Cons(4) boot_map_region_maps_only[OF v(1)]] .
  ultimately show ?case using Cons(3) v(2) by simp
qed

section \<open>The kernel's regions\<close>

definition pages_of :: "kst \<Rightarrow> nat" where
  "pages_of s = (unat (npages s) * 8 + 4095) div 4096"

definition kstack_region :: "u32 \<Rightarrow> nat \<Rightarrow> region" where
  "kstack_region ks i = (KSTACKTOP - of_nat i * (KSTKSIZE + KSTKGAP) - KSTKSIZE, 8, ks - KERNBASE + of_nat i * KSTKSIZE, PTE_W)"

definition user_regions :: "kst \<Rightarrow> region list" where
  "user_regions s = [(UPAGES, pages_of s, pages_va s - KERNBASE, PTE_U OR PTE_P), (UENVS, 1024, envs_va s - KERNBASE, PTE_U OR PTE_P)]"

text \<open>The regions as \<^verbatim>\<open>mem_init\<close> maps them; the stack of the boot processor is mapped twice.\<close>

definition mapped_regions :: "kst \<Rightarrow> u32 \<Rightarrow> u32 \<Rightarrow> region list" where
  "mapped_regions s bootstack ks = user_regions s @
     [(KSTACKTOP - KSTKSIZE, 8, bootstack - KERNBASE, PTE_W), (KERNBASE, 0x10000, 0, PTE_W)] @ map (kstack_region ks) [0..<NCPU]"

text \<open>The regions that remain.\<close>

definition kernel_regions :: "kst \<Rightarrow> u32 \<Rightarrow> region list" where
  "kernel_regions s ks = user_regions s @ [(KERNBASE, 0x10000, 0, PTE_W)] @ map (kstack_region ks) [0..<NCPU]"

text \<open>What the linker and \<^verbatim>\<open>boot_alloc\<close> provide.\<close>

definition kernel_placed :: "kst \<Rightarrow> u32 \<Rightarrow> u32 \<Rightarrow> bool" where
  "kernel_placed s bootstack ks \<longleftrightarrow> npages s \<le> 0x10000 \<and> 0 < npages s \<and> KERNBASE \<le> pages_va s \<and> KERNBASE \<le> envs_va s \<and>
     KERNBASE \<le> bootstack \<and> KERNBASE \<le> ks \<and> unat ks + 0x40000 \<le> 2 ^ 32"

lemma PADDR_Done: "KERNBASE \<le> a \<Longrightarrow> PADDR a s = Done (a - KERNBASE) s"
  by (simp add: PADDR_def not_less [symmetric])

lemma maps_region_of:
  assumes "KERNBASE \<le> a" "\<And>u. maps_only s u \<Longrightarrow> g u = a" "\<And>u. maps_only s u \<Longrightarrow> h u = of_nat (n * 4096)"
  shows "maps_region s (kern_pgdir s) (\<lambda>s. kbind (PADDR (g s) s) (\<lambda>pa s.
    boot_map_region (kern_pgdir s) va (h s) pa perm s)) (va, n, a - KERNBASE, perm)"
proof (rule maps_regionI)
  fix u assume m: "maps_only s u"
  hence k: "kern_pgdir u = kern_pgdir s" using maps_only_fields by blast
  show "kbind (PADDR (g u) u) (\<lambda>pa s. boot_map_region (kern_pgdir s) va (h s) pa perm s) =
      boot_map_region (kern_pgdir s) va (of_nat (n * 4096)) (a - KERNBASE) perm u"
    unfolding assms(2)[OF m] PADDR_Done[OF assms(1)] kbind.simps k assms(3)[OF m] by (rule refl)
qed

lemma pages_of_size:
  assumes "npages s \<le> 0x10000"
  shows "ROUNDUP (npages s * sizeof_PageInfo) PGSIZE = of_nat (pages_of s * 4096)" "pages_of s \<le> 128"
proof -
  have n: "unat (npages s) \<le> 0x10000" using assms by (simp add: word_le_nat_alt)
  hence u: "unat (npages s * sizeof_PageInfo) = unat (npages s) * 8" by (simp add: unat_word_ariths)
  have m: "unat (npages s * sizeof_PageInfo) + unat PGSIZE - 1 < 2 ^ 32" unfolding u using n by simp
  have e: "unat (ROUNDUP (npages s * sizeof_PageInfo) PGSIZE) = pages_of s * 4096"
    using unat_ROUNDUP[OF _ m] unfolding u pages_of_def by simp
  have "ROUNDUP (npages s * sizeof_PageInfo) PGSIZE = of_nat (unat (ROUNDUP (npages s * sizeof_PageInfo) PGSIZE))" by simp
  thus "ROUNDUP (npages s * sizeof_PageInfo) PGSIZE = of_nat (pages_of s * 4096)" by (simp only: e)
  have "unat (npages s) * 8 + 4095 \<le> 0x80FFF" using n by simp
  hence "pages_of s \<le> 0x80FFF div 4096" unfolding pages_of_def by (rule div_le_mono)
  thus "pages_of s \<le> 128" by simp
qed

lemma kstack_PADDR:
  assumes "KERNBASE \<le> ks" "unat ks + 0x40000 \<le> 2 ^ 32" "i < 8"
  shows "PADDR (ks + of_nat i * KSTKSIZE) s = Done (ks - KERNBASE + of_nat i * KSTKSIZE) s"
proof -
  have i: "unat (of_nat i * KSTKSIZE :: u32) = i * 0x8000" using assms(3) by (simp add: unat_word_ariths unat_of_nat)
  have "unat ks + i * 0x8000 < 2 ^ 32" using assms(2,3) by simp
  hence "unat (ks + of_nat i * KSTKSIZE) = unat ks + i * 0x8000" using i by (simp add: unat_word_ariths)
  hence "KERNBASE \<le> ks + of_nat i * KSTKSIZE" using assms(1) by (simp add: word_le_nat_alt)
  thus ?thesis by (simp add: PADDR_Done algebra_simps)
qed

lemma kstack_maps:
  assumes "KERNBASE \<le> ks" "unat ks + 0x40000 \<le> 2 ^ 32" "i < 8"
  shows "maps_region s (kern_pgdir s) (\<lambda>s. let kstacktop_i = KSTACKTOP - of_nat i * (KSTKSIZE + KSTKGAP)
     in kbind (PADDR (ks + of_nat i * KSTKSIZE) s) (\<lambda>pa s.
        boot_map_region (kern_pgdir s) (kstacktop_i - KSTKSIZE) KSTKSIZE pa PTE_W s)) (kstack_region ks i)"
  unfolding kstack_region_def
proof (rule maps_regionI)
  fix u assume "maps_only s u"
  hence k: "kern_pgdir u = kern_pgdir s" using maps_only_fields by blast
  have sz: "KSTKSIZE = of_nat (8 * 4096)" by simp
  show "(let kstacktop_i = KSTACKTOP - of_nat i * (KSTKSIZE + KSTKGAP)
     in kbind (PADDR (ks + of_nat i * KSTKSIZE) u) (\<lambda>pa s.
        boot_map_region (kern_pgdir s) (kstacktop_i - KSTKSIZE) KSTKSIZE pa PTE_W s)) =
    boot_map_region (kern_pgdir s) (KSTACKTOP - of_nat i * (KSTKSIZE + KSTKGAP) - KSTKSIZE) (of_nat (8 * 4096))
      (ks - KERNBASE + of_nat i * KSTKSIZE) PTE_W u"
    unfolding Let_def kstack_PADDR[OF assms] kbind.simps k by (simp only: sz[symmetric])
qed

lemma minus_KERNBASE: "(- 0xF0000000 :: u32) = 0x10000000"
proof -
  have "(0x10000000 :: u32) + 0xF0000000 = 0" by simp
  thus ?thesis using eq_neg_iff_add_eq_0 by metis
qed

lemma mapping_is_regions:
  assumes "kernel_placed s bootstack ks" "map_regions (kern_pgdir s) (mapped_regions s bootstack ks) s = Done () t"
  shows "kbind (map_kernel bootstack s) (\<lambda>_ s. mem_init_mp ks s) = Done () t"
proof -
  let ?f = "\<lambda>i s. let kstacktop_i = KSTACKTOP - of_nat i * (KSTKSIZE + KSTKGAP)
     in kbind (PADDR (ks + of_nat i * KSTKSIZE) s) (\<lambda>pa s.
        boot_map_region (kern_pgdir s) (kstacktop_i - KSTKSIZE) KSTKSIZE pa PTE_W s)"
  have P: "KERNBASE \<le> pages_va s" "KERNBASE \<le> envs_va s" "KERNBASE \<le> bootstack" "KERNBASE \<le> ks"
    "unat ks + 0x40000 \<le> 2 ^ 32" "npages s \<le> 0x10000" using assms(1) by (simp_all add: kernel_placed_def)
  have fu: "npages u = npages s" "kern_pgdir u = kern_pgdir s" "pages_va u = pages_va s" "envs_va u = envs_va s"
    if "maps_only s u" for u using maps_only_fields[OF that] by simp_all
  have st: "maps_region s (kern_pgdir s) (?f i) (kstack_region ks i)" if "i \<in> set [0..<NCPU]" for i
    using that by (intro kstack_maps[OF P(4,5)]) simp
  have "list_all2 (maps_region s (kern_pgdir s)) (map ?f [0..<NCPU]) (map (kstack_region ks) [0..<NCPU])"
    unfolding list_all2_map1 list_all2_map2 list_all2_same using st by blast
  moreover have "maps_region s (kern_pgdir s) (\<lambda>s. kbind (PADDR (pages_va s) s) (\<lambda>pa s.
        boot_map_region (kern_pgdir s) UPAGES (ROUNDUP (npages s * sizeof_PageInfo) PGSIZE) pa (PTE_U OR PTE_P) s))
      (UPAGES, pages_of s, pages_va s - KERNBASE, PTE_U OR PTE_P)"
    by (rule maps_region_of[OF P(1)], erule fu(3), subst fu(1), assumption, rule pages_of_size(1)[OF P(6)])
  moreover have "maps_region s (kern_pgdir s) (\<lambda>s. kbind (PADDR (envs_va s) s) (\<lambda>pa s.
        boot_map_region (kern_pgdir s) UENVS PTSIZE pa (PTE_U OR PTE_P) s))
      (UENVS, 1024, envs_va s - KERNBASE, PTE_U OR PTE_P)"
    by (rule maps_region_of[OF P(2)], erule fu(4), simp)
  moreover have "maps_region s (kern_pgdir s) (\<lambda>s. kbind (PADDR bootstack s) (\<lambda>pa s.
        boot_map_region (kern_pgdir s) (KSTACKTOP - KSTKSIZE) KSTKSIZE pa PTE_W s))
      (KSTACKTOP - KSTKSIZE, 8, bootstack - KERNBASE, PTE_W)"
    by (rule maps_region_of[OF P(3)]) simp_all
  moreover have "maps_region s (kern_pgdir s) (\<lambda>s. boot_map_region (kern_pgdir s) KERNBASE (- KERNBASE) 0 PTE_W s)
      (KERNBASE, 0x10000, 0, PTE_W)"
    by (rule maps_regionI, subst fu(2), assumption, simp add: minus_KERNBASE)
  ultimately have "list_all2 (maps_region s (kern_pgdir s)) ([
     (\<lambda>s. kbind (PADDR (pages_va s) s) (\<lambda>pa s.
        boot_map_region (kern_pgdir s) UPAGES (ROUNDUP (npages s * sizeof_PageInfo) PGSIZE) pa (PTE_U OR PTE_P) s)),
     (\<lambda>s. kbind (PADDR (envs_va s) s) (\<lambda>pa s.
        boot_map_region (kern_pgdir s) UENVS PTSIZE pa (PTE_U OR PTE_P) s)),
     (\<lambda>s. kbind (PADDR bootstack s) (\<lambda>pa s.
        boot_map_region (kern_pgdir s) (KSTACKTOP - KSTKSIZE) KSTKSIZE pa PTE_W s)),
     (\<lambda>s. boot_map_region (kern_pgdir s) KERNBASE (- KERNBASE) 0 PTE_W s)] @ map ?f [0..<NCPU]) (mapped_regions s bootstack ks)"
    unfolding mapped_regions_def user_regions_def append.simps list.rel_inject by blast
  from kseq_regions[OF this maps_only_refl assms(2)]
  show ?thesis unfolding map_kernel_def mem_init_mp_def kseq_append .
qed


section \<open>The regions fit and do not overlap\<close>

definition kernel_slots :: "u32 set" where
  "kernel_slots = {d. d = 0x3BB \<or> d = 0x3BC \<or> 0x3BF \<le> d \<and> d < 0x400}"

lemma kernel_slots_sub: "kernel_slots \<subseteq> {d. d < 0x400 \<and> d \<noteq> uvpt_slot}"
  by (auto simp: kernel_slots_def word_le_nat_alt word_less_nat_alt)

lemma unat_u32: "unat (a :: u32) < 2 ^ 32"
  using unsigned_less[where 'a = nat, of a] by simp

lemma unat_small: "i < 0x10000 \<Longrightarrow> unat (of_nat i :: u32) = i"
  by (simp add: unat_of_nat)

lemma unat_PDX: "unat (PDX a) = unat a div 0x400000"
proof -
  have "unat a < 2 ^ 32" by (rule unat_u32)
  hence "unat a div 0x400000 < 0x400" by (intro less_mult_imp_div_less) simp
  hence "unat (drop_bit 22 a) < 0x400" by (simp add: drop_bit_eq_div unat_div_distrib)
  hence "drop_bit 22 a < (0x400 :: u32)" by (simp add: word_less_nat_alt)
  hence "drop_bit 22 a AND 0x3FF = drop_bit 22 a"
    unfolding u32_low_mask by (intro bit_word_eqI) (auto simp: bit_simps dest: bit_imp_le_length)
  thus ?thesis by (simp add: PDX_def drop_bit_eq_div unat_div_distrib)
qed

lemma PDX_is: "d * 0x400000 \<le> unat a \<Longrightarrow> unat a < Suc d * 0x400000 \<Longrightarrow> unat (PDX a) = d"
  unfolding unat_PDX by (rule div_nat_eqI) (simp_all add: mult.commute)

text \<open>Where the regions lie, as numbers.\<close>

lemma stack_start: "i < 8 \<Longrightarrow> unat (KSTACKTOP - of_nat i * (KSTKSIZE + KSTKGAP) - KSTKSIZE) = 0xEFFF8000 - i * 0x10000"
proof -
  assume i: "i < 8"
  have m: "unat (of_nat i * (KSTKSIZE + KSTKGAP) :: u32) = i * 0x10000" using i by (simp add: unat_word_ariths unat_of_nat)
  have "of_nat i * (KSTKSIZE + KSTKGAP) \<le> (0xEFFF8000 :: u32)" unfolding word_le_nat_alt m using i by simp
  hence "unat (0xEFFF8000 - of_nat i * (KSTKSIZE + KSTKGAP) :: u32) = 0xEFFF8000 - i * 0x10000"
    using m by (simp add: unat_sub)
  thus ?thesis by (simp add: algebra_simps)
qed

lemma in_user_region:
  "in_region UPAGES n a \<longleftrightarrow> 0xEF000000 \<le> unat a \<and> unat a < 0xEF000000 + n * 4096"
  "in_region UENVS 1024 a \<longleftrightarrow> 0xEEC00000 \<le> unat a \<and> unat a < 0xEF000000"
  "in_region KERNBASE 0x10000 a \<longleftrightarrow> 0xF0000000 \<le> unat a"
  "in_region (KSTACKTOP - KSTKSIZE) 8 a \<longleftrightarrow> 0xEFFF8000 \<le> unat a \<and> unat a < 0xF0000000"
  using unat_u32[of a] by (auto simp: in_region_def)

lemma in_stack:
  "i < 8 \<Longrightarrow> in_region (KSTACKTOP - of_nat i * (KSTKSIZE + KSTKGAP) - KSTKSIZE) 8 a \<longleftrightarrow>
    0xEFFF8000 - i * 0x10000 \<le> unat a \<and> unat a < 0xF0000000 - i * 0x10000"
  unfolding in_region_def stack_start by auto

lemma stack_ok: "i < 8 \<Longrightarrow> region_ok kernel_slots (kstack_region ks i)"
proof -
  assume i: "i < 8"
  have "4096 dvd (0xEFFF8000 - i * 0x10000 :: nat)" by (rule dvd_diff_nat) (simp_all add: dvd_mult)
  moreover have "PDX a \<in> kernel_slots"
    if "in_region (KSTACKTOP - of_nat i * (KSTKSIZE + KSTKGAP) - KSTKSIZE) 8 a" for a
  proof -
    have "0xEFFF8000 - i * 0x10000 \<le> unat a" "unat a < 0xF0000000 - i * 0x10000" using that in_stack[OF i] by blast+
    moreover have "i * 0x10000 \<le> 7 * 0x10000" using i by simp
    ultimately have "0xEFC00000 \<le> unat a \<and> unat a < 0xF0000000" by linarith
    hence "unat (PDX a) = 0x3BF" by (intro PDX_is) simp_all
    thus ?thesis by (simp add: kernel_slots_def word_le_nat_alt word_less_nat_alt)
  qed
  ultimately show ?thesis unfolding kstack_region_def region_ok.simps stack_start[OF i] by simp
qed

lemma mapped_regions_ok:
  assumes "npages s \<le> 0x10000" "r \<in> set (mapped_regions s bootstack ks)"
  shows "region_ok kernel_slots r"
proof -
  have n: "pages_of s \<le> 128" by (rule pages_of_size(2)[OF assms(1)])
  have p: "region_ok kernel_slots (UPAGES, pages_of s, pa, perm)" for pa perm
  proof -
    have "PDX a \<in> kernel_slots" if "in_region UPAGES (pages_of s) a" for a
    proof -
      have "unat (PDX a) = 0x3BC" by (rule PDX_is) (use that n in_user_region(1) in simp_all)
      hence "PDX a = 0x3BC" by (simp add: word_unat_eq_iff)
      thus ?thesis by (simp add: kernel_slots_def)
    qed
    thus ?thesis using n by (simp del: layout_vals) simp
  qed
  have e: "region_ok kernel_slots (UENVS, 1024, pa, perm)" for pa perm
  proof -
    have "PDX a \<in> kernel_slots" if "in_region UENVS 1024 a" for a
    proof -
      have "unat (PDX a) = 0x3BB" by (rule PDX_is) (use that in_user_region(2) in simp_all)
      hence "PDX a = 0x3BB" by (simp add: word_unat_eq_iff)
      thus ?thesis by (simp add: kernel_slots_def)
    qed
    thus ?thesis by (simp del: layout_vals) simp
  qed
  have k: "region_ok kernel_slots (KERNBASE, 0x10000, pa, perm)" for pa perm
  proof -
    have "PDX a \<in> kernel_slots" if "in_region KERNBASE 0x10000 a" for a
    proof -
      have "0xF0000000 div 0x400000 \<le> unat a div 0x400000"
        using that in_user_region(3) by (intro div_le_mono) simp
      hence "0x3C0 \<le> unat (PDX a)" by (simp add: unat_PDX)
      thus ?thesis using PDX_less[of a] by (simp add: kernel_slots_def word_le_nat_alt)
    qed
    thus ?thesis by (simp del: KERNBASE_def) simp
  qed
  have b: "region_ok kernel_slots (KSTACKTOP - KSTKSIZE, 8, pa, perm)" for pa perm
    using stack_ok[of 0] by (simp add: kstack_region_def)
  show ?thesis using assms(2) p e k b stack_ok unfolding mapped_regions_def user_regions_def
    by (auto simp del: region_ok.simps)
qed


lemma overlay_none:
  "(\<forall>(va, n, pa, perm) \<in> set rs. \<not> in_region va n a) \<Longrightarrow> overlay rs f a = f a"
proof (induction rs arbitrary: f)
  case (Cons r rs)
  obtain va n pa perm where r: "r = (va, n, pa, perm)" by (cases r)
  have "overlay (r # rs) f a = (if in_region va n a then region_pte va pa perm a else f a)"
    unfolding r overlay.simps by (rule Cons(1)) (use Cons(2) in simp)
  thus ?case using Cons(2) by (simp add: r)
qed simp

lemma overlay_append: "overlay (xs @ ys) f a = overlay ys (overlay xs f) a"
proof (induction xs arbitrary: f)
  case Nil
  have "overlay [] f = f" by (rule ext) simp
  thus ?case by (simp only: append_Nil)
next
  case (Cons r xs)
  obtain va n pa perm where r: "r = (va, n, pa, perm)" by (cases r)
  have "overlay (r # xs) f = overlay xs (\<lambda>a. if in_region va n a then region_pte va pa perm a else f a)"
    by (rule ext) (simp only: r overlay.simps)
  thus ?case by (simp only: append.simps r overlay.simps Cons)
qed

lemma overlay_last:
  assumes "in_region va n a" "\<forall>(va, n, pa, perm) \<in> set ys. \<not> in_region va n a"
  shows "overlay (xs @ (va, n, pa, perm) # ys) f a = region_pte va pa perm a"
  unfolding overlay_append overlay.simps using overlay_none[OF assms(2)] assms(1) by simp

lemma in_stacks:
  assumes "(va, n, pa, perm) \<in> set (map (kstack_region ks) is)" "set is \<subseteq> {..<8}" "in_region va n a"
  shows "\<exists>i \<in> set is. 0xEFFF8000 - i * 0x10000 \<le> unat a \<and> unat a < 0xF0000000 - i * 0x10000"
    "0xEFF88000 \<le> unat a" "unat a < 0xF0000000"
proof -
  obtain i where i: "i \<in> set is" "(va, n, pa, perm) = kstack_region ks i" using assms(1) by auto
  have i8: "i < 8" using i(1) assms(2) by auto
  have b: "0xEFFF8000 - i * 0x10000 \<le> unat a" "unat a < 0xF0000000 - i * 0x10000"
    using i(2) assms(3) in_stack[OF i8, of a] by (simp_all only: kstack_region_def prod.inject)
  thus "\<exists>i \<in> set is. 0xEFFF8000 - i * 0x10000 \<le> unat a \<and> unat a < 0xF0000000 - i * 0x10000" using i(1) by blast
  have "i * 0x10000 \<le> 7 * 0x10000" using i8 by simp
  thus "0xEFF88000 \<le> unat a" "unat a < 0xF0000000" using b by linarith+
qed

lemma no_stack:
  assumes "unat a < 0xEFF88000 \<or> 0xF0000000 \<le> unat a" "set is \<subseteq> {..<8}"
  shows "\<forall>(va, n, pa, perm) \<in> set (map (kstack_region ks) is). \<not> in_region va n a"
proof (intro ballI, clarify)
  fix va n pa perm assume "(va, n, pa, perm) \<in> set (map (kstack_region ks) is)" "in_region va n a"
  from in_stacks(2,3)[OF this(1) assms(2) this(2)] show False using assms(1) by linarith
qed

text \<open>Every address of a region gets its entry, although the stack of the boot processor is mapped first.\<close>

lemma overlay_mapped:
  assumes n: "npages s \<le> 0x10000" and r: "(va, n, pa, perm) \<in> set (kernel_regions s ks)" "in_region va n a"
  shows "overlay (mapped_regions s bootstack ks) f a = region_pte va pa perm a"
proof -
  let ?b = "(KSTACKTOP - KSTKSIZE, 8, bootstack - KERNBASE, PTE_W)" and ?k = "(KERNBASE, 0x10000, 0, PTE_W)"
  let ?p = "(UPAGES, pages_of s, pages_va s - KERNBASE, PTE_U OR PTE_P)" and ?e = "(UENVS, 1024, envs_va s - KERNBASE, PTE_U OR PTE_P)"
  let ?st = "map (kstack_region ks) [0..<NCPU]"
  have pn: "pages_of s \<le> 128" by (rule pages_of_size(2)[OF n])
  have ns: "unat a < 0xEFF88000 \<or> 0xF0000000 \<le> unat a \<Longrightarrow> \<forall>(va, n, pa, perm) \<in> set ?st. \<not> in_region va n a"
    by (rule no_stack) auto
  have m: "mapped_regions s bootstack ks = ?p # ?e # ?b # ?k # ?st" by (simp add: mapped_regions_def user_regions_def del: layout_vals KERNBASE_def NCPU_def)
  consider "(va, n, pa, perm) = ?p" | "(va, n, pa, perm) = ?e" | "(va, n, pa, perm) = ?k" | "(va, n, pa, perm) \<in> set ?st"
    using r(1) unfolding kernel_regions_def user_regions_def by auto
  thus ?thesis
  proof cases
    case 1
    have b: "0xEF000000 \<le> unat a" "unat a < 0xEF080000" using r(2) 1 in_user_region(1)[of "pages_of s" a] pn by auto
    have "\<forall>(va, n, pa, perm) \<in> set (?e # ?b # ?k # ?st). \<not> in_region va n a"
      using b ns in_user_region(2-4)[of a] by (simp del: layout_vals KERNBASE_def NCPU_def)
    moreover have "mapped_regions s bootstack ks = [] @ (va, n, pa, perm) # ?e # ?b # ?k # ?st" by (simp only: m 1 append_Cons append_Nil)
    ultimately show ?thesis using overlay_last[OF r(2)] by (simp only:)
  next
    case 2
    have b: "0xEEC00000 \<le> unat a" "unat a < 0xEF000000" using r(2) 2 in_user_region(2)[of a] by auto
    have "\<forall>(va, n, pa, perm) \<in> set (?b # ?k # ?st). \<not> in_region va n a"
      using b ns in_user_region(2-4)[of a] by (simp del: layout_vals KERNBASE_def NCPU_def)
    moreover have "mapped_regions s bootstack ks = [?p] @ (va, n, pa, perm) # ?b # ?k # ?st" by (simp only: m 2 append_Cons append_Nil)
    ultimately show ?thesis using overlay_last[OF r(2)] by (simp only:)
  next
    case 3
    have b: "0xF0000000 \<le> unat a" using r(2) 3 in_user_region(3)[of a] by auto
    hence "\<forall>(va, n, pa, perm) \<in> set ?st. \<not> in_region va n a" by (intro ns) simp
    moreover have "mapped_regions s bootstack ks = [?p, ?e, ?b] @ (va, n, pa, perm) # ?st" by (simp only: m 3 append_Cons append_Nil)
    ultimately show ?thesis using overlay_last[OF r(2)] by (simp only:)
  next
    case 4
    then obtain i where i: "i < 8" "(va, n, pa, perm) = kstack_region ks i" by auto
    have b: "0xEFFF8000 - i * 0x10000 \<le> unat a" "unat a < 0xF0000000 - i * 0x10000"
      using i(2) r(2) in_stack[OF i(1), of a] by (simp_all only: kstack_region_def prod.inject)
    have later: "\<forall>(va, n, pa, perm) \<in> set (map (kstack_region ks) [Suc i..<8]). \<not> in_region va n a"
    proof (intro ballI, clarify)
      fix va n pa perm assume h: "(va, n, pa, perm) \<in> set (map (kstack_region ks) [Suc i..<8])" "in_region va n a"
      have "set [Suc i..<8] \<subseteq> {..<8}" by auto
      from in_stacks(1)[OF h(1) this h(2)]
      obtain j where j: "j \<in> set [Suc i..<8]" "unat a < 0xF0000000 - j * 0x10000" by blast
      have "i * 0x10000 + 0x10000 \<le> j * 0x10000" using j(1) by simp
      thus False using b j(2) by linarith
    qed
    have "[0..<i + (8 - i)] = [0..<i] @ [i..<i + (8 - i)]" by (rule upt_add_eq_append) simp
    moreover have "i + (8 - i) = 8" using i(1) by simp
    ultimately have "[0..<8] = [0..<i] @ i # [Suc i..<8]" using upt_conv_Cons[OF i(1)] by (simp only:)
    hence "mapped_regions s bootstack ks = (?p # ?e # ?b # ?k # map (kstack_region ks) [0..<i]) @ (va, n, pa, perm) # map (kstack_region ks) [Suc i..<8]"
      unfolding m i(2) by (simp del: layout_vals KERNBASE_def upt_rec_numeral)
    thus ?thesis using overlay_last[OF r(2) later] by metis
  qed
qed

lemma overlay_unmapped:
  assumes "\<forall>(va, n, pa, perm) \<in> set (kernel_regions s ks). \<not> in_region va n a"
  shows "overlay (mapped_regions s bootstack ks) f a = f a"
proof (rule overlay_none)
  have "kstack_region ks 0 \<in> set (map (kstack_region ks) [0..<NCPU])" by simp
  hence "kstack_region ks 0 \<in> set (kernel_regions s ks)" by (simp only: kernel_regions_def set_append Un_iff simp_thms)
  hence "\<not> in_region (KSTACKTOP - of_nat 0 * (KSTKSIZE + KSTKGAP) - KSTKSIZE) 8 a" using assms unfolding kstack_region_def by blast
  hence "\<not> in_region (KSTACKTOP - KSTKSIZE) 8 a" by simp
  thus "\<forall>(va, n, pa, perm) \<in> set (mapped_regions s bootstack ks). \<not> in_region va n a"
    using assms unfolding mapped_regions_def kernel_regions_def by (auto simp del: layout_vals KERNBASE_def NCPU_def)
qed

lemma kernel_slots_card: "card {d \<in> kernel_slots. P d} \<le> 67"
proof -
  have sub: "kernel_slots \<subseteq> of_nat ` ({0x3BB, 0x3BC} \<union> {0x3BF..<0x400})"
  proof
    fix d assume "d \<in> kernel_slots"
    hence "unat d \<in> {0x3BB, 0x3BC} \<union> {0x3BF..<0x400}" by (auto simp: kernel_slots_def word_le_nat_alt word_less_nat_alt)
    thus "d \<in> of_nat ` ({0x3BB, 0x3BC} \<union> {0x3BF..<0x400})" by (rule rev_image_eqI) simp
  qed
  have "card kernel_slots \<le> card ({0x3BB, 0x3BC} \<union> {0x3BF..<0x400 :: nat})" by (rule surj_card_le[OF _ sub]) simp
  moreover have "card ({0x3BB, 0x3BC} \<union> {0x3BF..<0x400 :: nat}) = 67" by (subst card_Un_disjoint) auto
  moreover have "card {d \<in> kernel_slots. P d} \<le> card kernel_slots" by (rule card_mono) auto
  ultimately show ?thesis by linarith
qed


section \<open>The kernel's address space\<close>

lemma kernel_mapped:
  assumes "kernel_placed s bootstack ks" "kvm s (kern_pgdir s) fl" "67 \<le> length fl"
  shows "\<exists>t fl'. kbind (map_kernel bootstack s) (\<lambda>_ s. mem_init_mp ks s) = Done () t \<and> kvm t (kern_pgdir s) fl' \<and>
    (\<forall>a. PDX a \<noteq> uvpt_slot \<longrightarrow> vmap t (kern_pgdir s) a = overlay (mapped_regions s bootstack ks) (vmap s (kern_pgdir s)) a) \<and>
    (\<forall>d. pt_frame t (kern_pgdir s) d = 0 \<longleftrightarrow> pt_frame s (kern_pgdir s) d = 0 \<and> d \<notin> region_slots (mapped_regions s bootstack ks)) \<and>
    pmem t (pd_frame (kern_pgdir s)) uvpt_slot = pmem s (pd_frame (kern_pgdir s)) uvpt_slot \<and> maps_only s t"
proof -
  have n: "npages s \<le> 0x10000" using assms(1) by (simp add: kernel_placed_def)
  have room: "kroom s (kern_pgdir s) kernel_slots fl"
    unfolding kroom_def using kernel_slots_card[of "\<lambda>d. pt_frame s (kern_pgdir s) d = 0"] assms(3) by linarith
  have ok: "\<forall>r \<in> set (mapped_regions s bootstack ks). region_ok kernel_slots r" using mapped_regions_ok[OF n] by blast
  from map_regions_ok[OF assms(2) room kernel_slots_sub ok] show ?thesis
    using mapping_is_regions[OF assms(1)] by blast
qed

lemma kernel_regions_slots:
  assumes "npages s \<le> 0x10000" "(va, n, pa, perm) \<in> set (kernel_regions s ks)" "in_region va n a"
  shows "PDX a \<in> kernel_slots" "PDX a \<noteq> uvpt_slot"
proof -
  have "(va, n, pa, perm) \<in> set (mapped_regions s 0 ks)" using assms(2) unfolding kernel_regions_def mapped_regions_def by auto
  from mapped_regions_ok[OF assms(1) this] show "PDX a \<in> kernel_slots" using assms(3) by simp
  thus "PDX a \<noteq> uvpt_slot" using kernel_slots_sub by blast
qed

text \<open>C8: The kernel's address space as \<^verbatim>\<open>mem_init\<close> and \<^verbatim>\<open>mem_init_mp\<close> build it, in any state with 67 free pages for
  page tables: the copies of the page structures and the environments that users can read, all of physical
  memory from \<^verbatim>\<open>KERNBASE\<close> to the end of the address space, and a stack for every processor with an unmapped
  gap below it are mapped with the permissions of the code, page for page; no other address outside the
  slot of the directory itself changes, so the gaps stay unmapped.\<close>

theorem kernel_space:
  assumes "kernel_placed s bootstack ks" "kvm s (kern_pgdir s) fl" "67 \<le> length fl"
  shows "\<exists>t fl'. kbind (map_kernel bootstack s) (\<lambda>_ s. mem_init_mp ks s) = Done () t \<and> kvm t (kern_pgdir s) fl' \<and>
    (\<forall>(va, n, pa, perm) \<in> set (kernel_regions s ks). \<forall>a. in_region va n a \<longrightarrow>
       vmap t (kern_pgdir s) a = region_pte va pa perm a) \<and>
    (\<forall>a. PDX a \<noteq> PDX UVPT \<longrightarrow> (\<forall>(va, n, pa, perm) \<in> set (kernel_regions s ks). \<not> in_region va n a) \<longrightarrow>
       vmap t (kern_pgdir s) a = vmap s (kern_pgdir s) a)"
proof -
  have n: "npages s \<le> 0x10000" using assms(1) by (simp add: kernel_placed_def)
  have u: "PDX UVPT = uvpt_slot" by (simp add: PDX_def drop_bit_eq_div)
  obtain t fl' where t: "kbind (map_kernel bootstack s) (\<lambda>_ s. mem_init_mp ks s) = Done () t" "kvm t (kern_pgdir s) fl'"
    "\<forall>a. PDX a \<noteq> uvpt_slot \<longrightarrow> vmap t (kern_pgdir s) a = overlay (mapped_regions s bootstack ks) (vmap s (kern_pgdir s)) a"
    using kernel_mapped[OF assms] by blast
  have "vmap t (kern_pgdir s) a = region_pte va pa perm a"
    if "(va, n, pa, perm) \<in> set (kernel_regions s ks)" "in_region va n a" for va n pa perm a
    using t(3) kernel_regions_slots(2)[OF n that] overlay_mapped[OF n that] by metis
  moreover have "vmap t (kern_pgdir s) a = vmap s (kern_pgdir s) a"
    if "PDX a \<noteq> PDX UVPT" "\<forall>(va, n, pa, perm) \<in> set (kernel_regions s ks). \<not> in_region va n a" for a
    using t(3) that(1) overlay_unmapped[OF that(2)] unfolding u by metis
  ultimately show ?thesis using t(1,2) by (intro exI[of _ t] exI[of _ fl']) blast
qed


text \<open>A machine with 8 MB of memory after \<^verbatim>\<open>page_init\<close>, with a directory as \<^verbatim>\<open>check_page\<close> leaves it in page \<open>0x1FF\<close>.\<close>

definition demo_pgdir :: "kst \<Rightarrow> kst" where
  "demo_pgdir t = t\<lparr>kern_pgdir := 0xF01FF000, pages_va := 0xF01F0000, envs_va := 0xF0180000,
     pmem := (pmem t)(0x1FF := (\<lambda>_. 0)(0x3BD := 0x1FF005, 0x3BE := 0x1FE007))\<rparr>"

lemma demo_pgdir_ready:
  "\<exists>t fl. page_init demo_boot = Done () t \<and> npages t = 0x800 \<and> kvm (demo_pgdir t) 0xF01FF000 fl \<and> 67 \<le> length fl"
proof -
  let ?fl = "boot_list 0x200 0x800"
  obtain t where t: "page_init demo_boot = Done () t" "page_rep t ?fl" "boot_inv 0x200 demo_boot 0x800 t"
    using page_init_spec[OF demo_boot_ready] by (auto simp: demo_boot_def)
  have np: "npages t = 0x800" using t(3) by (simp add: boot_inv_def demo_boot_def)
  have set: "set ?fl = {p. p \<noteq> 0 \<and> p < 0x800 \<and> p \<noteq> 7 \<and> \<not> (0xA0 \<le> p \<and> p < 0x200)}"
    using unat_set_boot_list[of demo_boot "0x200"] by (simp add: demo_boot_def)
  have pd: "pd_frame 0xF01FF000 = 0x1FF" "(0xF01FF000 :: u32) = frame_addr 0x1FF 0"
    by (simp_all add: pd_frame_def PGNUM_def drop_bit_eq_div frame_addr_def)
  let ?s = "demo_pgdir t"
  have m: "pmem ?s 0x1FF d = (if d = 0x3BE then 0x1FE007 else if d = 0x3BD then 0x1FF005 else 0)" for d
    by (simp add: demo_pgdir_def)
  have pt: "pt_frame ?s 0xF01FF000 d = (if d = 0x3BE then 0x1FE else if d = 0x3BD then 0x1FF else 0)" for d
    unfolding pt_frame_def pd(1) m by (simp add: PGNUM_def drop_bit_eq_div)
  have e: "page2pa 0x1FE OR 7 = (0x1FE007 :: u32)" by (simp add: page2pa_def)
  have "page_rep ?s ?fl" using t(2) by (simp add: page_rep_def demo_pgdir_def)
  hence "kvm ?s 0xF01FF000 ?fl"
    unfolding kvm_def pd(1) pt m set using pd(2) np e by (simp add: demo_pgdir_def)
  moreover have "67 \<le> length ?fl"
  proof -
    have "of_nat ` {0x200..<0x243} \<subseteq> set ?fl"
    proof
      fix p :: u32 assume "p \<in> of_nat ` {0x200..<0x243}"
      then obtain i where i: "p = of_nat i" "0x200 \<le> i" "i < 0x243" by auto
      hence "unat p = i" by (simp add: unat_of_nat)
      thus "p \<in> set ?fl" unfolding set using i by (auto simp: word_less_nat_alt word_le_nat_alt)
    qed
    hence "card (of_nat ` {0x200..<0x243} :: u32 set) \<le> card (set ?fl)" by (rule card_mono[OF List.finite_set])
    moreover have "inj_on (of_nat :: nat \<Rightarrow> u32) {0x200..<0x243}"
    proof (rule inj_onI)
      fix i j :: nat assume h: "i \<in> {0x200..<0x243}" "j \<in> {0x200..<0x243}" "(of_nat i :: u32) = of_nat j"
      have "i < 0x10000" "j < 0x10000" using h(1,2) unfolding atLeastLessThan_iff by linarith+
      hence u: "unat (of_nat i :: u32) = i" "unat (of_nat j :: u32) = j" by (simp_all only: unat_small)
      have "unat (of_nat i :: u32) = unat (of_nat j :: u32)" by (rule arg_cong[OF h(3)])
      thus "i = j" by (simp only: u)
    qed
    hence "card (of_nat ` {0x200..<0x243} :: u32 set) = card {0x200..<0x243 :: nat}" by (rule card_image)
    moreover have "card {0x200..<0x243 :: nat} = 67" by simp
    ultimately show ?thesis using card_length[of ?fl] by linarith
  qed
  ultimately show ?thesis using t(1) np by blast
qed

lemma demo_pgdir_fields [simp]:
  "kern_pgdir (demo_pgdir t) = 0xF01FF000" "pages_va (demo_pgdir t) = 0xF01F0000" "envs_va (demo_pgdir t) = 0xF0180000"
  "npages (demo_pgdir t) = npages t"
  by (simp_all add: demo_pgdir_def)

lemma demo_placed: "npages t = 0x800 \<Longrightarrow> kernel_placed (demo_pgdir t) 0xF0110000 0xF0120000"
  by (simp add: kernel_placed_def)

theorem kernel_space_witness:
  "\<exists>s t. page_init demo_boot = Done () s \<and>
     kbind (map_kernel 0xF0110000 (demo_pgdir s)) (\<lambda>_ s. mem_init_mp 0xF0120000 s) = Done () t \<and>
     vmap t 0xF01FF000 0xF0001000 = 0x1003"
proof -
  obtain s fl where s: "page_init demo_boot = Done () s" "npages s = 0x800" "kvm (demo_pgdir s) 0xF01FF000 fl" "67 \<le> length fl"
    using demo_pgdir_ready by blast
  have k: "kvm (demo_pgdir s) (kern_pgdir (demo_pgdir s)) fl" using s(3) by simp
  obtain t where t: "kbind (map_kernel 0xF0110000 (demo_pgdir s)) (\<lambda>_ s. mem_init_mp 0xF0120000 s) = Done () t"
    "\<forall>(va, n, pa, perm) \<in> set (kernel_regions (demo_pgdir s) 0xF0120000). \<forall>a. in_region va n a \<longrightarrow>
       vmap t 0xF01FF000 a = region_pte va pa perm a"
    using kernel_space[OF demo_placed[OF s(2)] k s(4)] unfolding demo_pgdir_fields by blast
  have "(KERNBASE, 0x10000, 0, PTE_W) \<in> set (kernel_regions (demo_pgdir s) 0xF0120000)" by (simp add: kernel_regions_def)
  hence "vmap t 0xF01FF000 0xF0001000 = region_pte KERNBASE 0 PTE_W 0xF0001000" using t(2) by (auto simp: in_region_def)
  also have "\<dots> = 0x1003" by (simp add: region_pte_def)
  finally show ?thesis using s(1) t(1) by blast
qed

end
