(* ===== verification/KernCheck.thy ===== *)
theory KernCheck
  imports KernSpace
begin

text \<open>
  The self test \<^verbatim>\<open>check_kern_pgdir\<close> succeeds on the address space that \<^verbatim>\<open>mem_init\<close> has built.
\<close>

section \<open>Entries\<close>

lemma and_low: "k AND 0xFFF = k \<Longrightarrow> (x :: u32) AND k = (x AND 0xFFF) AND k"
  by (metis and.assoc and.commute)

lemma pde_bits: "(page2pa p OR 7) AND 1 = (1 :: u32)" "(page2pa p OR 7) AND 2 = (2 :: u32)" "(page2pa p OR 7) AND 0x80 = (0 :: u32)"
  "PTE_ADDR (page2pa p OR 7) = page2pa p"
proof -
  have l: "(page2pa p OR 7) AND 0xFFF = 7" "PTE_ADDR (page2pa p OR 7) = page2pa p"
    using PTE_ADDR_entry[of 7 p] by (simp_all add: page2pa_def)
  show "(page2pa p OR 7) AND 1 = (1 :: u32)" "(page2pa p OR 7) AND 2 = (2 :: u32)" "(page2pa p OR 7) AND 0x80 = (0 :: u32)"
    by (subst and_low, simp, subst l(1), simp)+
  show "PTE_ADDR (page2pa p OR 7) = page2pa p" by (rule l(2))
qed

lemma check_va2pa_ok:
  assumes "kvm t P fl" "PDX va \<noteq> uvpt_slot" "pt_frame t P (PDX va) \<noteq> 0"
  shows "check_va2pa P va t = Done (if vmap t P va AND PTE_P = 0 then NOT 0 else PTE_ADDR (vmap t P va)) t"
proof -
  note w = kvm_pt[OF assms(1) _ assms(2,3), simplified]
  have k: "KADDR (page2pa (pt_frame t P (PDX va))) t = Done (frame_addr (pt_frame t P (PDX va)) 0) t"
  proof -
    have "page2pa x + KERNBASE = frame_addr x 0" for x by (simp add: frame_addr_def page2pa_def)
    thus ?thesis unfolding KADDR_def PGNUM_page2pa[OF w(4)] using w(2) by (simp only: not_le[symmetric] if_False)
  qed
  have l: "load32 t (frame_addr (pt_frame t P (PDX va)) 0 + push_bit 2 (PTX va)) = vmap t P va"
    using w assms(3) by (simp add: frame_addr_pgdir vmap_def)
  show ?thesis unfolding check_va2pa_def Let_def kload_pde[OF assms(1) PDX_400] w(1) pde_bits(4) k kbind.simps l
    using pde_bits by simp
qed

lemma va_is_ok:
  assumes "kvm t (kern_pgdir t) fl" "PDX va \<noteq> uvpt_slot" "pt_frame t (kern_pgdir t) (PDX va) \<noteq> 0"
    "x = (if vmap t (kern_pgdir t) va AND PTE_P = 0 then NOT 0 else PTE_ADDR (vmap t (kern_pgdir t) va))"
  shows "va_is va x t = Done () t"
  by (simp add: va_is_def check_va2pa_ok[OF assms(1-3)] assms(4) kassert_def)

lemma pte_is_ok:
  assumes "kvm t (kern_pgdir t) fl" "PDX va \<noteq> uvpt_slot" "pt_frame t (kern_pgdir t) (PDX va) \<noteq> 0" "P (vmap t (kern_pgdir t) va)"
  shows "pte_is va P t = Done () t"
  by (simp add: pte_is_def kwalk_table[OF assms(1-3)] assms(4) kassert_def)

lemma page_at_offset:
  assumes "unat va + n * 4096 \<le> 2 ^ 32" "j < n"
  shows "unat (va + of_nat j * PGSIZE) = unat va + j * 4096" "in_region va n (va + of_nat j * PGSIZE)"
    "region_pte va pa perm (va + of_nat j * PGSIZE) = (pa + of_nat j * PGSIZE) OR perm OR PTE_P"
proof -
  have j: "j * 4096 + 4096 \<le> n * 4096" using assms(2) by (simp flip: mult_Suc add: add.commute)
  hence "j * 4096 < 2 ^ 32" using assms(1) by linarith
  hence u: "unat (of_nat j * PGSIZE :: u32) = j * 4096" by (simp add: unat_word_ariths unat_of_nat)
  have "unat va + j * 4096 < 2 ^ 32" using j assms(1) by linarith
  thus v: "unat (va + of_nat j * PGSIZE) = unat va + j * 4096" using u by (simp add: unat_word_ariths)
  show "in_region va n (va + of_nat j * PGSIZE)" unfolding in_region_def v using j by linarith
  show "region_pte va pa perm (va + of_nat j * PGSIZE) = (pa + of_nat j * PGSIZE) OR perm OR PTE_P"
    unfolding region_pte_def v by simp
qed

lemma entry_fields:
  assumes "4096 dvd unat pa" "perm < 0x1000"
  shows "PTE_ADDR ((pa + of_nat j * PGSIZE) OR perm) = pa + of_nat j * PGSIZE" "((pa + of_nat j * PGSIZE) OR perm) AND 0xFFF = perm"
proof -
  obtain m where m: "unat pa = 4096 * m" using assms(1) by (auto elim: dvdE)
  have "pa = of_nat (unat pa)" by simp
  hence "pa = of_nat (4096 * m)" by (simp only: m)
  hence "pa + of_nat j * PGSIZE = push_bit 12 (of_nat m + of_nat j)" by (simp add: push_bit_eq_mult algebra_simps)
  thus "PTE_ADDR ((pa + of_nat j * PGSIZE) OR perm) = pa + of_nat j * PGSIZE" "((pa + of_nat j * PGSIZE) OR perm) AND 0xFFF = perm"
    using PTE_ADDR_entry[OF assms(2)] by simp_all
qed

section \<open>The state that is checked\<close>

text \<open>The directory as \<^verbatim>\<open>check_page\<close> leaves it: a page table for devices, and itself.\<close>

definition fresh_pgdir :: "kst \<Rightarrow> bool" where
  "fresh_pgdir s \<longleftrightarrow> (\<forall>d < 0x400. d \<noteq> PDX UVPT \<longrightarrow> (pt_frame s (kern_pgdir s) d \<noteq> 0 \<longleftrightarrow> d = PDX MMIOBASE)) \<and>
     pmem s (pd_frame (kern_pgdir s)) (PDX UVPT) AND PTE_P \<noteq> 0"

definition tables_aligned :: "kst \<Rightarrow> u32 \<Rightarrow> bool" where
  "tables_aligned s ks \<longleftrightarrow> 4096 dvd unat (pages_va s) \<and> 4096 dvd unat (envs_va s) \<and> 4096 dvd unat ks"

definition mapped_state :: "kst \<Rightarrow> u32 \<Rightarrow> kst \<Rightarrow> u32 list \<Rightarrow> bool" where
  "mapped_state s ks t fl \<longleftrightarrow> kvm t (kern_pgdir t) fl \<and>
     npages t = npages s \<and> pages_va t = pages_va s \<and> envs_va t = envs_va s \<and> npages s \<le> 0x10000 \<and>
     (\<forall>(va, n, pa, perm) \<in> set (kernel_regions s ks). \<forall>a. in_region va n a \<longrightarrow>
        PDX a \<noteq> uvpt_slot \<and> pt_frame t (kern_pgdir t) (PDX a) \<noteq> 0 \<and> vmap t (kern_pgdir t) a = region_pte va pa perm a)"

lemma mapped_at:
  assumes "mapped_state s ks t fl" "(va, n, pa, perm) \<in> set (kernel_regions s ks)" "unat va + n * 4096 \<le> 2 ^ 32" "j < n"
    "4096 dvd unat pa" "perm OR PTE_P < 0x1000" "(perm OR PTE_P) AND 1 = 1"
  shows "va_is (va + of_nat j * PGSIZE) (pa + of_nat j * PGSIZE) t = Done () t"
    "Q = (\<lambda>e. PGOFF e = perm OR PTE_P) \<Longrightarrow> pte_is (va + of_nat j * PGSIZE) Q t = Done () t"
proof -
  let ?a = "va + of_nat j * PGSIZE"
  note o = page_at_offset[OF assms(3,4)]
  have k: "kvm t (kern_pgdir t) fl" using assms(1) by (simp add: mapped_state_def)
  have r: "PDX ?a \<noteq> uvpt_slot" "pt_frame t (kern_pgdir t) (PDX ?a) \<noteq> 0" "vmap t (kern_pgdir t) ?a = region_pte va pa perm ?a"
    using assms(1,2) o(2) unfolding mapped_state_def by blast+
  have v: "vmap t (kern_pgdir t) ?a = (pa + of_nat j * PGSIZE) OR (perm OR PTE_P)" using r(3) o(3) by simp
  note f = entry_fields[OF assms(5,6), of j]
  have "((pa + of_nat j * PGSIZE) OR (perm OR PTE_P)) AND 1 = 1" by (subst and_low, simp, subst f(2), rule assms(7))
  hence "vmap t (kern_pgdir t) ?a AND PTE_P \<noteq> 0" unfolding v by simp
  thus "va_is ?a (pa + of_nat j * PGSIZE) t = Done () t" using f(1) unfolding v[symmetric]
    by (intro va_is_ok[OF k r(1,2)]) simp
  assume "Q = (\<lambda>e. PGOFF e = perm OR PTE_P)"
  thus "pte_is ?a Q t = Done () t" using f(2) unfolding v[symmetric] by (intro pte_is_ok[OF k r(1,2)]) (simp add: PGOFF_def)
qed

lemma aligned_PADDR: "4096 dvd unat a \<Longrightarrow> KERNBASE \<le> a \<Longrightarrow> 4096 dvd unat (a - KERNBASE)"
  by (simp add: unat_sub dvd_diff_nat)

lemma check_user_region_ok:
  assumes "mapped_state s ks t fl" "(va, n, pa, PTE_U OR PTE_P) \<in> set (kernel_regions s ks)" "unat va + n * 4096 \<le> 2 ^ 32"
    "4096 dvd unat pa" "unat sz div 4096 \<le> n"
  shows "check_user_region va pa sz t = Done () t"
  unfolding check_user_region_def
proof (rule kseq_same)
  fix f assume "f \<in> set (concat (map (\<lambda>i. [va_is (va + i) (pa + i), pte_is (va + i) (\<lambda>e. PGOFF e = PTE_U OR PTE_P)]) (page_offs sz)))"
  then obtain j where n: "j < unat sz div 4096" and f: "f = va_is (va + of_nat j * PGSIZE) (pa + of_nat j * PGSIZE) \<or>
      f = pte_is (va + of_nat j * PGSIZE) (\<lambda>e. PGOFF e = PTE_U OR PTE_P)"
    unfolding page_offs_def by (auto simp del: PGSIZE_def PTE_U_def PTE_P_def)
  have j: "j < n" using n assms(5) by linarith
  have "va_is (va + of_nat j * PGSIZE) (pa + of_nat j * PGSIZE) t = Done () t"
    by (rule mapped_at(1)[OF assms(1-3) j assms(4)]) simp_all
  moreover have "pte_is (va + of_nat j * PGSIZE) (\<lambda>e. PGOFF e = PTE_U OR PTE_P) t = Done () t"
    by (rule mapped_at(2)[OF assms(1-3) j assms(4)]) simp_all
  ultimately show "f t = Done () t" using f by blast
qed


section \<open>Stacks and physical memory\<close>

lemma kern_region_in: "(KERNBASE, 0x10000, 0, PTE_W) \<in> set (kernel_regions s ks)"
  "(UPAGES, pages_of s, pages_va s - KERNBASE, PTE_U OR PTE_P) \<in> set (kernel_regions s ks)"
  "(UENVS, 1024, envs_va s - KERNBASE, PTE_U OR PTE_P) \<in> set (kernel_regions s ks)"
  "i < 8 \<Longrightarrow> kstack_region ks i \<in> set (kernel_regions s ks)"
  by (simp_all add: kernel_regions_def user_regions_def del: upt_rec_numeral)

lemma check_phys_ok:
  assumes "mapped_state s ks t fl"
  shows "kseq (map (\<lambda>i. va_is (KERNBASE + i) i) (page_offs (npages s * PGSIZE))) t = Done () t"
proof (rule kseq_same)
  fix f assume "f \<in> set (map (\<lambda>i. va_is (KERNBASE + i) i) (page_offs (npages s * PGSIZE)))"
  then obtain j where j: "j < unat (npages s * PGSIZE) div 4096" "f = va_is (KERNBASE + of_nat j * PGSIZE) (0 + of_nat j * PGSIZE)"
    unfolding page_offs_def by (auto simp del: PGSIZE_def KERNBASE_def)
  have "npages s \<le> 0x10000" using assms by (simp add: mapped_state_def)
  hence "unat (npages s * PGSIZE) div 4096 \<le> 0x10000" by (simp add: unat_word_ariths word_le_nat_alt)
  hence "j < 0x10000" using j(1) by linarith
  thus "f t = Done () t" unfolding j(2) by (intro mapped_at(1)[OF assms kern_region_in(1)]) simp_all
qed

lemma stack_base: "KSTACKTOP - (KSTKSIZE + KSTKGAP) * of_nat (n + 1) + KSTKGAP = KSTACKTOP - of_nat n * (KSTKSIZE + KSTKGAP) - KSTKSIZE"
  by (simp add: algebra_simps)

lemma gap_start: "n < 8 \<Longrightarrow> unat (KSTACKTOP - (KSTKSIZE + KSTKGAP) * of_nat (n + 1)) = 0xEFFF0000 - n * 0x10000"
proof -
  assume n: "n < 8"
  have m: "unat ((KSTKSIZE + KSTKGAP) * of_nat (n + 1) :: u32) = (n + 1) * 0x10000"
    using n by (simp add: unat_word_ariths unat_of_nat)
  have "(KSTKSIZE + KSTKGAP) * of_nat (n + 1) \<le> KSTACKTOP" unfolding word_le_nat_alt m using n by simp
  hence "unat (KSTACKTOP - (KSTKSIZE + KSTKGAP) * of_nat (n + 1)) = unat KSTACKTOP - (n + 1) * 0x10000" using m by (simp only: unat_sub)
  thus ?thesis using n by simp
qed

text \<open>No region meets the gap below a stack.\<close>

lemma gap_free:
  assumes "n < 8" "0xEFFF0000 - n * 0x10000 \<le> unat a" "unat a < 0xEFFF8000 - n * 0x10000" "npages s \<le> 0x10000"
  shows "\<forall>(va, m, pa, perm) \<in> set (kernel_regions s ks). \<not> in_region va m a" "unat (PDX a) = 0x3BF"
proof -
  have b: "n * 0x10000 \<le> 7 * 0x10000" using assms(1) by simp
  have lo: "0xEFF80000 \<le> unat a" "unat a < 0xEFFF8000" using assms(2,3) b by linarith+
  show "unat (PDX a) = 0x3BF" using lo by (intro PDX_is) simp_all
  have pn: "pages_of s \<le> 128" by (rule pages_of_size(2)[OF assms(4)])
  have st: "\<not> in_region va m a" if "(va, m, pa, perm) \<in> set (map (kstack_region ks) [0..<NCPU])" for va m pa perm
  proof
    assume r: "in_region va m a"
    have sub: "set [0..<NCPU] \<subseteq> {..<8}" by auto
    from in_stacks(1)[OF that sub r]
    obtain i where i0: "i \<in> set [0..<NCPU]" and i: "0xEFFF8000 - i * 0x10000 \<le> unat a" "unat a < 0xF0000000 - i * 0x10000"
      by blast
    show False
    proof (cases "i \<le> n")
      case True
      hence "i * 0x10000 \<le> n * 0x10000" by simp
      thus False using i(1) assms(3) b by linarith
    next
      case False
      hence "n * 0x10000 + 0x10000 \<le> i * 0x10000" by simp
      thus False using i(2) assms(2) by linarith
    qed
  qed
  have stA: "\<forall>(va, m, pa, perm) \<in> set (map (kstack_region ks) [0..<NCPU]). \<not> in_region va m a"
    by (intro ballI, clarify) (use st in blast)
  have "\<not> in_region UPAGES (pages_of s) a" "\<not> in_region UENVS 1024 a" "\<not> in_region KERNBASE 0x10000 a"
    using lo pn in_user_region(1)[of "pages_of s" a] in_user_region(2,3)[of a] by auto
  thus "\<forall>(va, m, pa, perm) \<in> set (kernel_regions s ks). \<not> in_region va m a"
    using stA unfolding kernel_regions_def user_regions_def
    by (simp only: ball_Un set_append list.set ball_simps prod.case simp_thms)
qed

lemma check_kstack_ok:
  assumes m: "mapped_state s ks t fl" and n: "n < 8" and ks: "KERNBASE \<le> ks" "unat ks + 0x40000 \<le> 2 ^ 32" "4096 dvd unat ks"
    and slot: "pt_frame t (kern_pgdir t) 0x3BF \<noteq> 0"
    and gaps: "\<And>a. PDX a = 0x3BF \<Longrightarrow> \<forall>(va, m, pa, perm) \<in> set (kernel_regions s ks). \<not> in_region va m a \<Longrightarrow> vmap t (kern_pgdir t) a = 0"
  shows "check_kstack ks n t = Done () t"
proof -
  let ?pa = "ks - KERNBASE + of_nat n * KSTKSIZE" and ?base = "KSTACKTOP - (KSTKSIZE + KSTKGAP) * of_nat (n + 1)"
  let ?va = "KSTACKTOP - of_nat n * (KSTKSIZE + KSTKGAP) - KSTKSIZE"
  have k: "kvm t (kern_pgdir t) fl" "npages s \<le> 0x10000" using m by (auto simp: mapped_state_def)
  have pa: "4096 dvd unat ?pa"
  proof -
    have e: "?pa = (ks - KERNBASE) + of_nat (8 * n) * PGSIZE" by (simp add: algebra_simps)
    have "PTE_ADDR ?pa = ?pa" using entry_fields(1)[OF aligned_PADDR[OF ks(3,1)], of 0 "8 * n"] unfolding e by simp
    hence "push_bit 12 (PGNUM ?pa) = ?pa" by (simp only: PTE_ADDR_PGNUM)
    hence "unat ?pa = unat (PGNUM ?pa * 4096)" by (simp add: push_bit_eq_mult)
    thus ?thesis by (simp add: unat_word_ariths dvd_mod)
  qed
  have fit: "unat ?va + 8 * 4096 \<le> 2 ^ 32" unfolding stack_start[OF n] by simp
  have in_r: "(?va, 8, ?pa, PTE_W) \<in> set (kernel_regions s ks)"
    using kern_region_in(4)[OF n, of ks s] unfolding kstack_region_def .
  have up: "va_is (?base + KSTKGAP + of_nat j * PGSIZE) (?pa + of_nat j * PGSIZE) t = Done () t" if "j < 8" for j
    unfolding stack_base by (rule mapped_at(1)[OF m in_r fit that pa]) simp_all
  have gap: "va_is (?base + of_nat j * PGSIZE) (NOT 0) t = Done () t" if "j < 8" for j
  proof -
    let ?a = "?base + of_nat j * PGSIZE"
    have "unat ?base + 8 * 4096 \<le> 2 ^ 32" unfolding gap_start[OF n] by simp
    from page_at_offset(1)[OF this that] have u: "unat ?a = 0xEFFF0000 - n * 0x10000 + j * 4096" unfolding gap_start[OF n] .
    have nn: "n * 0x10000 \<le> 7 * 0x10000" and jj: "j * 4096 \<le> 7 * 4096" using n that by simp_all
    have "0xEFFF0000 - n * 0x10000 \<le> unat ?a" "unat ?a < 0xEFFF8000 - n * 0x10000" unfolding u using nn jj by linarith+
    note g = gap_free[OF n this k(2)]
    have d: "PDX ?a = 0x3BF" using g(2) by (simp add: word_unat_eq_iff)
    show ?thesis by (rule va_is_ok[OF k(1)]) (use d slot gaps[OF d g(1)] in simp_all)
  qed
  have off: "page_offs KSTKSIZE = map (\<lambda>j. of_nat j * PGSIZE) [0..<8]" "page_offs KSTKGAP = map (\<lambda>j. of_nat j * PGSIZE) [0..<8]"
    by (simp_all add: page_offs_def del: upt_rec_numeral)
  have "kseq (map (\<lambda>i. va_is (?base + KSTKGAP + i) (?pa + i)) (page_offs KSTKSIZE) @ map (\<lambda>i. va_is (?base + i) (NOT 0)) (page_offs KSTKGAP)) t
      = Done () t"
    unfolding off by (rule kseq_same) (use up gap in \<open>auto simp del: upt_rec_numeral PGSIZE_def layout_vals\<close>)
  thus ?thesis unfolding check_kstack_def Let_def kstack_PADDR[OF ks(1,2) n] kbind.simps .
qed


section \<open>Directory entries\<close>

lemma region_slots_mem: "(va, n, pa, perm) \<in> set rs \<Longrightarrow> in_region va n a \<Longrightarrow> PDX a \<in> region_slots rs"
proof (induction rs)
  case (Cons r rs) thus ?case by (cases r) auto
qed simp

lemma region_slots_sub: "\<forall>r \<in> set rs. region_ok D r \<Longrightarrow> region_slots rs \<subseteq> D"
proof (induction rs)
  case (Cons r rs) thus ?case by (cases r) auto
qed simp

lemma mapped_slots:
  assumes "npages s \<le> 0x10000" "0 < npages s"
  shows "region_slots (mapped_regions s bootstack ks) = kernel_slots"
proof
  let ?r = "mapped_regions s bootstack ks"
  show "region_slots ?r \<subseteq> kernel_slots" using mapped_regions_ok[OF assms(1)] by (intro region_slots_sub) blast
  have "0 < unat (npages s)" using assms(2) by (simp add: word_less_nat_alt)
  hence pp: "0 < pages_of s" unfolding pages_of_def by (simp add: div_greater_zero_iff)
  have m: "(UPAGES, pages_of s, pages_va s - KERNBASE, PTE_U OR PTE_P) \<in> set ?r" "(UENVS, 1024, envs_va s - KERNBASE, PTE_U OR PTE_P) \<in> set ?r"
    "(KSTACKTOP - KSTKSIZE, 8, bootstack - KERNBASE, PTE_W) \<in> set ?r" "(KERNBASE, 0x10000, 0, PTE_W) \<in> set ?r"
    unfolding mapped_regions_def user_regions_def by (simp_all only: set_append list.set Un_iff insert_iff simp_thms)
  show "kernel_slots \<subseteq> region_slots ?r"
  proof
    fix d assume "d \<in> kernel_slots"
    then consider "d = 0x3BB" | "d = 0x3BC" | "d = 0x3BF" | "0x3C0 \<le> unat d" "unat d < 0x400"
    proof -
      assume cs: "d = 0x3BB \<Longrightarrow> thesis" "d = 0x3BC \<Longrightarrow> thesis" "d = 0x3BF \<Longrightarrow> thesis" "0x3C0 \<le> unat d \<Longrightarrow> unat d < 0x400 \<Longrightarrow> thesis"
      have "d = 0x3BB \<or> d = 0x3BC \<or> 0x3BF \<le> unat d \<and> unat d < 0x400"
        using \<open>d \<in> kernel_slots\<close> by (simp add: kernel_slots_def word_le_nat_alt word_less_nat_alt)
      moreover have "unat d = 0x3BF \<Longrightarrow> d = 0x3BF" by (simp add: word_unat_eq_iff)
      ultimately show thesis using cs by linarith
    qed
    thus "d \<in> region_slots ?r"
    proof cases
      case 1
      have "in_region UENVS 1024 0xEEC00000" by (simp add: in_region_def)
      from region_slots_mem[OF m(2) this] show ?thesis using 1 by (simp add: PDX_def drop_bit_eq_div)
    next
      case 2
      have "in_region UPAGES (pages_of s) 0xEF000000" using pp by (simp add: in_region_def)
      from region_slots_mem[OF m(1) this] show ?thesis using 2 by (simp add: PDX_def drop_bit_eq_div)
    next
      case 3
      have "in_region (KSTACKTOP - KSTKSIZE) 8 0xEFFF8000" by (simp add: in_region_def)
      from region_slots_mem[OF m(3) this] show ?thesis using 3 by (simp add: PDX_def drop_bit_eq_div)
    next
      case 4
      have u: "unat (push_bit 22 d) = unat d * 0x400000" using 4(2) by (simp add: push_bit_eq_mult unat_word_ariths)
      have "in_region KERNBASE 0x10000 (push_bit 22 d)" unfolding in_user_region(3) u using 4(1) by simp
      from region_slots_mem[OF m(4) this] have "PDX (push_bit 22 d) \<in> region_slots ?r" .
      moreover have "unat (PDX (push_bit 22 d)) = unat d" unfolding unat_PDX u by simp
      hence "PDX (push_bit 22 d) = d" by (simp add: word_unat_eq_iff)
      ultimately show ?thesis by simp
    qed
  qed
qed

lemma pde_is_ok:
  assumes "kvm t (kern_pgdir t) fl" "i < 0x400" "P (pmem t (pd_frame (kern_pgdir t)) i)"
  shows "pde_is i P t = Done () t"
  using assms by (simp add: pde_is_def kload_pde[OF assms(1,2)] kassert_def)

lemma slot_numbers: "PDX UVPT = 0x3BD" "PDX (KSTACKTOP - 1) = 0x3BF" "PDX UPAGES = 0x3BC" "PDX UENVS = 0x3BB" "PDX MMIOBASE = 0x3BE"
  "PDX KERNBASE = 0x3C0"
  by (simp_all add: PDX_def drop_bit_eq_div)

lemma check_pde_ok:
  assumes k: "kvm t (kern_pgdir t) fl" and i: "i < 0x400"
    and self: "pmem t (pd_frame (kern_pgdir t)) 0x3BD AND 1 \<noteq> 0"
    and pt: "\<forall>d < 0x400. d \<noteq> 0x3BD \<longrightarrow> (pt_frame t (kern_pgdir t) d \<noteq> 0 \<longleftrightarrow> d = 0x3BE \<or> d \<in> kernel_slots)"
  shows "check_pde i t = Done () t"
proof -
  have present: "pmem t (pd_frame (kern_pgdir t)) i AND 1 \<noteq> 0" "pmem t (pd_frame (kern_pgdir t)) i AND 2 \<noteq> 0"
    if "i \<noteq> 0x3BD" "i = 0x3BE \<or> i \<in> kernel_slots"
  proof -
    have "pt_frame t (kern_pgdir t) i \<noteq> 0" using pt i that by blast
    from kvm_pt(1)[OF k i _ this] that(1) show "pmem t (pd_frame (kern_pgdir t)) i AND 1 \<noteq> 0" "pmem t (pd_frame (kern_pgdir t)) i AND 2 \<noteq> 0"
      using pde_bits by simp_all
  qed
  have absent: "pmem t (pd_frame (kern_pgdir t)) i = 0" if "i \<noteq> 0x3BD" "\<not> (i = 0x3BE \<or> i \<in> kernel_slots)"
    using that pt i kvm_empty[OF k i that(1)] by blast
  consider "i \<in> {0x3BD, 0x3BF, 0x3BC, 0x3BB, 0x3BE}" | "i \<notin> {0x3BD, 0x3BF, 0x3BC, 0x3BB, 0x3BE}" "0x3C0 \<le> i"
    | "i \<notin> {0x3BD, 0x3BF, 0x3BC, 0x3BB, 0x3BE}" "\<not> 0x3C0 \<le> i" by blast
  thus ?thesis
  proof cases
    case 1
    hence "i = 0x3BD \<or> i = 0x3BE \<or> i \<in> kernel_slots" using i by (auto simp: kernel_slots_def word_le_nat_alt)
    hence "pmem t (pd_frame (kern_pgdir t)) i AND PTE_P \<noteq> 0" using self present(1) by (cases "i = 0x3BD") simp_all
    hence "pde_is i (\<lambda>e. e AND PTE_P \<noteq> 0) t = Done () t" by (rule pde_is_ok[OF k i])
    thus ?thesis using 1 unfolding check_pde_def slot_numbers by (simp only: if_True)
  next
    case 2
    have "i \<in> kernel_slots" using 2(2) i by (auto simp: kernel_slots_def word_le_nat_alt word_less_nat_alt)
    hence "pmem t (pd_frame (kern_pgdir t)) i AND PTE_P \<noteq> 0 \<and> pmem t (pd_frame (kern_pgdir t)) i AND PTE_W \<noteq> 0"
      using present 2(1) by simp
    hence "pde_is i (\<lambda>e. e AND PTE_P \<noteq> 0 \<and> e AND PTE_W \<noteq> 0) t = Done () t" by (rule pde_is_ok[OF k i])
    thus ?thesis using 2 unfolding check_pde_def slot_numbers by (simp only: if_True if_False)
  next
    case 3
    have "unat i \<noteq> 0x3BF" using 3(1) by (auto simp: word_unat_eq_iff)
    hence "i \<notin> kernel_slots" using 3 by (auto simp: kernel_slots_def word_le_nat_alt)
    hence "pmem t (pd_frame (kern_pgdir t)) i = 0" using absent 3(1) by simp
    hence "pde_is i (\<lambda>e. e = 0) t = Done () t" by (rule pde_is_ok[OF k i])
    thus ?thesis using 3 unfolding check_pde_def slot_numbers by (simp only: if_False)
  qed
qed


section \<open>The whole test\<close>

lemma mapped_stateI:
  assumes "kernel_placed s bootstack ks" "kvm s (kern_pgdir s) fl" "67 \<le> length fl"
  shows "\<exists>t fl'. kbind (map_kernel bootstack s) (\<lambda>_ s. mem_init_mp ks s) = Done () t \<and> mapped_state s ks t fl' \<and>
    kern_pgdir t = kern_pgdir s \<and>
    (\<forall>d. pt_frame t (kern_pgdir t) d = 0 \<longleftrightarrow> pt_frame s (kern_pgdir s) d = 0 \<and> d \<notin> kernel_slots) \<and>
    pmem t (pd_frame (kern_pgdir t)) uvpt_slot = pmem s (pd_frame (kern_pgdir s)) uvpt_slot \<and>
    (\<forall>a. PDX a \<noteq> uvpt_slot \<longrightarrow> (\<forall>(va, n, pa, perm) \<in> set (kernel_regions s ks). \<not> in_region va n a) \<longrightarrow>
       vmap t (kern_pgdir t) a = vmap s (kern_pgdir s) a)"
proof -
  have n: "npages s \<le> 0x10000" "0 < npages s" using assms(1) by (simp_all add: kernel_placed_def)
  obtain t fl' where t: "kbind (map_kernel bootstack s) (\<lambda>_ s. mem_init_mp ks s) = Done () t" "kvm t (kern_pgdir s) fl'"
    "\<forall>a. PDX a \<noteq> uvpt_slot \<longrightarrow> vmap t (kern_pgdir s) a = overlay (mapped_regions s bootstack ks) (vmap s (kern_pgdir s)) a"
    "\<forall>d. pt_frame t (kern_pgdir s) d = 0 \<longleftrightarrow> pt_frame s (kern_pgdir s) d = 0 \<and> d \<notin> region_slots (mapped_regions s bootstack ks)"
    "pmem t (pd_frame (kern_pgdir s)) uvpt_slot = pmem s (pd_frame (kern_pgdir s)) uvpt_slot" "maps_only s t"
    using kernel_mapped[OF assms] by blast
  note f = maps_only_fields[OF t(6)] and sl = mapped_slots[OF n, of bootstack ks]
  have kp: "kern_pgdir t = kern_pgdir s" using f by blast
  have E: "PDX a \<noteq> uvpt_slot \<and> pt_frame t (kern_pgdir s) (PDX a) \<noteq> 0 \<and> vmap t (kern_pgdir s) a = region_pte va pa perm a"
    if r: "(va, n, pa, perm) \<in> set (kernel_regions s ks)" "in_region va n a" for va n pa perm a
    using t(3,4) kernel_regions_slots[OF n(1) r] overlay_mapped[OF n(1) r] unfolding sl by metis
  have "\<forall>(va, n, pa, perm) \<in> set (kernel_regions s ks). \<forall>a. in_region va n a \<longrightarrow>
      PDX a \<noteq> uvpt_slot \<and> pt_frame t (kern_pgdir s) (PDX a) \<noteq> 0 \<and> vmap t (kern_pgdir s) a = region_pte va pa perm a"
    by (intro ballI, clarify) (use E in blast)
  hence "mapped_state s ks t fl'" unfolding mapped_state_def kp using t(2) f n(1) by blast
  moreover have "vmap t (kern_pgdir s) a = vmap s (kern_pgdir s) a"
    if "PDX a \<noteq> uvpt_slot" "\<forall>(va, n, pa, perm) \<in> set (kernel_regions s ks). \<not> in_region va n a" for a
    using t(3) that(1) overlay_unmapped[OF that(2)] by metis
  ultimately show ?thesis using t(1,4,5) f unfolding sl by (intro exI[of _ t] exI[of _ fl']) simp
qed

text \<open>C9: The self test of the kernel's address space succeeds: after \<^verbatim>\<open>mem_init\<close> has mapped the regions into the
  directory that \<^verbatim>\<open>check_page\<close> leaves, which holds itself and one page table for devices, every assertion of
  \<^verbatim>\<open>check_kern_pgdir\<close> is true, on the translations of the user copies, of physical memory and of the stacks,
  on their gaps and permissions, and on every slot of the directory.\<close>

theorem check_kern_pgdir_succeeds:
  assumes "kernel_placed s bootstack ks" "kvm s (kern_pgdir s) fl" "67 \<le> length fl" "fresh_pgdir s" "tables_aligned s ks"
  shows "\<exists>t. kseq [map_kernel bootstack, mem_init_mp ks, check_kern_pgdir ks] s = Done () t"
proof -
  obtain t fl' where t: "kbind (map_kernel bootstack s) (\<lambda>_ s. mem_init_mp ks s) = Done () t" and m: "mapped_state s ks t fl'"
    and p: "kern_pgdir t = kern_pgdir s"
    and pt: "\<forall>d. pt_frame t (kern_pgdir t) d = 0 \<longleftrightarrow> pt_frame s (kern_pgdir s) d = 0 \<and> d \<notin> kernel_slots"
    and self: "pmem t (pd_frame (kern_pgdir t)) uvpt_slot = pmem s (pd_frame (kern_pgdir s)) uvpt_slot"
    and same: "\<forall>a. PDX a \<noteq> uvpt_slot \<longrightarrow> (\<forall>(va, n, pa, perm) \<in> set (kernel_regions s ks). \<not> in_region va n a) \<longrightarrow>
       vmap t (kern_pgdir t) a = vmap s (kern_pgdir s) a"
    using mapped_stateI[OF assms(1-3)] by blast
  have P: "npages s \<le> 0x10000" "KERNBASE \<le> pages_va s" "KERNBASE \<le> envs_va s" "KERNBASE \<le> ks" "unat ks + 0x40000 \<le> 2 ^ 32"
    using assms(1) by (simp_all add: kernel_placed_def)
  have A: "4096 dvd unat (pages_va s)" "4096 dvd unat (envs_va s)" "4096 dvd unat ks" using assms(5) by (simp_all add: tables_aligned_def)
  have f: "npages t = npages s" "pages_va t = pages_va s" "envs_va t = envs_va s" "kvm t (kern_pgdir t) fl'"
    using m by (simp_all add: mapped_state_def)
  have fresh: "\<forall>d < 0x400. d \<noteq> 0x3BD \<longrightarrow> (pt_frame s (kern_pgdir s) d \<noteq> 0 \<longleftrightarrow> d = 0x3BE)"
    "pmem s (pd_frame (kern_pgdir s)) 0x3BD AND 1 \<noteq> 0" using assms(4) unfolding fresh_pgdir_def slot_numbers by simp_all
  have slots: "\<forall>d < 0x400. d \<noteq> 0x3BD \<longrightarrow> (pt_frame t (kern_pgdir t) d \<noteq> 0 \<longleftrightarrow> d = 0x3BE \<or> d \<in> kernel_slots)"
    using pt fresh(1) by blast
  have pg: "check_user_region UPAGES (pages_va s - KERNBASE) (ROUNDUP (npages s * sizeof_PageInfo) PGSIZE) t = Done () t"
  proof (rule check_user_region_ok[OF m kern_region_in(2)])
    have "pages_of s \<le> 128" by (rule pages_of_size(2)[OF P(1)])
    thus "unat UPAGES + pages_of s * 4096 \<le> 2 ^ 32" by simp
    have "unat (of_nat (pages_of s * 4096) :: u32) = pages_of s * 4096"
      using \<open>pages_of s \<le> 128\<close> by (simp only: unat_of_nat) simp
    thus "unat (ROUNDUP (npages s * sizeof_PageInfo) PGSIZE) div 4096 \<le> pages_of s" unfolding pages_of_size(1)[OF P(1)] by simp
  qed (rule aligned_PADDR[OF A(1) P(2)])
  have en: "check_user_region UENVS (envs_va s - KERNBASE) (ROUNDUP (of_nat NENV * sizeof_Env) PGSIZE) t = Done () t"
  proof (rule check_user_region_ok[OF m kern_region_in(3)])
    have "unat (ROUNDUP (0x1F000 :: u32) PGSIZE) = 0x1F000" by (subst unat_ROUNDUP) simp_all
    thus "unat (ROUNDUP (of_nat NENV * sizeof_Env) PGSIZE) div 4096 \<le> 1024" by simp
  qed (simp_all add: aligned_PADDR[OF A(2) P(3), simplified])
  have gap: "vmap t (kern_pgdir t) a = 0"
    if "PDX a = 0x3BF" "\<forall>(va, m, pa, perm) \<in> set (kernel_regions s ks). \<not> in_region va m a" for a
  proof -
    have "pt_frame s (kern_pgdir s) 0x3BF = 0" using fresh(1)[rule_format, of "0x3BF"] by simp
    hence z: "vmap s (kern_pgdir s) a = 0" using that(1) by (simp add: vmap_def)
    have "PDX a \<noteq> uvpt_slot" using that(1) by simp
    hence "vmap t (kern_pgdir t) a = vmap s (kern_pgdir s) a" using same that(2) by blast
    thus ?thesis using z by simp
  qed
  have "pt_frame t (kern_pgdir t) 0x3BF \<noteq> 0" using slots by (simp add: kernel_slots_def word_le_nat_alt word_less_nat_alt)
  hence "check_kstack ks n t = Done () t" if "n < 8" for n using check_kstack_ok[OF m that P(4,5) A(3)] gap by blast
  hence st: "kseq (map (check_kstack ks) [0..<NCPU]) t = Done () t" by (intro kseq_same) auto
  have "check_pde (of_nat i) t = Done () t" if "i < 1024" for i
  proof (rule check_pde_ok[OF f(4) _ _ slots])
    have "unat (of_nat i :: u32) = i" by (rule unat_small) (use that in simp)
    thus "of_nat i < (0x400 :: u32)" using that by (simp add: word_less_nat_alt)
    show "pmem t (pd_frame (kern_pgdir t)) 0x3BD AND 1 \<noteq> 0" using self fresh(2) by simp
  qed
  hence pde: "kseq (map (\<lambda>i. check_pde (of_nat i)) [0..<1024]) t = Done () t" by (intro kseq_same) auto
  have ck: "check_kern_pgdir ks t = Done () t"
    unfolding check_kern_pgdir_def f(1-3) PADDR_Done[OF P(2)] PADDR_Done[OF P(3)] kbind.simps pg en check_phys_ok[OF m] st pde ..
  obtain u where "map_kernel bootstack s = Done () u" "mem_init_mp ks u = Done () t" using t by (auto simp: kbind_Done_iff)
  thus ?thesis using ck by simp
qed

theorem check_kern_pgdir_succeeds_witness:
  "\<exists>s t. page_init demo_boot = Done () s \<and>
     kseq [map_kernel 0xF0110000, mem_init_mp 0xF0120000, check_kern_pgdir 0xF0120000] (demo_pgdir s) = Done () t"
proof -
  obtain s fl where s: "page_init demo_boot = Done () s" "npages s = 0x800" "kvm (demo_pgdir s) 0xF01FF000 fl" "67 \<le> length fl"
    using demo_pgdir_ready by blast
  have k: "kvm (demo_pgdir s) (kern_pgdir (demo_pgdir s)) fl" using s(3) by simp
  have pd: "pd_frame 0xF01FF000 = 0x1FF" by (simp add: pd_frame_def PGNUM_def drop_bit_eq_div)
  have m: "pmem (demo_pgdir s) 0x1FF d = (if d = 0x3BE then 0x1FE007 else if d = 0x3BD then 0x1FF005 else 0)" for d
    by (simp add: demo_pgdir_def)
  have "fresh_pgdir (demo_pgdir s)"
    unfolding fresh_pgdir_def slot_numbers demo_pgdir_fields pt_frame_def pd m by (simp add: PGNUM_def drop_bit_eq_div)
  moreover have "tables_aligned (demo_pgdir s) 0xF0120000" by (simp add: tables_aligned_def)
  ultimately show ?thesis using check_kern_pgdir_succeeds[OF demo_placed[OF s(2)] k s(4)] s(1) by blast
qed

end
