(* ===== verification/Spawn.thy ===== *)
theory Spawn
  imports FdProps
begin

text \<open>
  Running a program from the file system (\<^verbatim>\<open>lib/spawn.c\<close>): the stack page with the arguments, the segments of
  the program and the new environment.  \<open>ebuf\<close> and \<open>ptf\<close> are the addresses of the local buffers for the
  file's header and for the trap frame, \<open>buf\<close> and \<open>fsipc\<close> belong to the client of the file server.
\<close>

section \<open>Strings and vectors in user memory\<close>

text \<open>Lengths that no string or vector in a 32-bit memory reaches without wrapping around.\<close>

definition max_string :: nat where "max_string = 4294967296"
definition max_vector :: nat where "max_vector = 1073741824"

definition ustrlen :: "u32 \<Rightarrow> kst \<Rightarrow> (u32, kst) kres" where
  "ustrlen p s = kbind (uload_string max_string p s) (\<lambda>bs s. Done (of_nat (length bs)) s)"

fun ustrcpy :: "nat \<Rightarrow> u32 \<Rightarrow> u32 \<Rightarrow> kst \<Rightarrow> (unit, kst) kres" where
  "ustrcpy 0 dst src s = NoReturn Spinning s"
| "ustrcpy (Suc n) dst src s = kbind (uload8 src s) (\<lambda>b s. kbind (ustore8 dst b s) (\<lambda>_ s.
     if b = 0 then Done () s else ustrcpy n (dst + 1) (src + 1) s))"

fun ustore_words :: "u32 \<Rightarrow> u32 list \<Rightarrow> kst \<Rightarrow> (unit, kst) kres" where
  "ustore_words va [] s = Done () s"
| "ustore_words va (w # ws) s = kbind (ustore32 va w s) (\<lambda>_ s. ustore_words (va + 4) ws s)"

text \<open>Words that need not be aligned.\<close>

definition uread16 :: "u32 \<Rightarrow> kst \<Rightarrow> (u32, kst) kres" where
  "uread16 va s = kbind (uload8 va s) (\<lambda>a s. kbind (uload8 (va + 1) s) (\<lambda>b s.
     Done (ucast a OR push_bit 8 (ucast b)) s))"

definition uread32 :: "u32 \<Rightarrow> kst \<Rightarrow> (u32, kst) kres" where
  "uread32 va s = kbind (uread16 va s) (\<lambda>a s. kbind (uread16 (va + 2) s) (\<lambda>b s. Done (a OR push_bit 16 b) s))"

section \<open>The stack of the new program\<close>

definition UTEMP2USTACK :: "u32 \<Rightarrow> u32" where
  "UTEMP2USTACK a = a + (USTACKTOP - PGSIZE) - UTEMP"

text \<open>The number of arguments and the size of their strings.\<close>

fun count_args :: "nat \<Rightarrow> u32 \<Rightarrow> u32 \<Rightarrow> u32 \<Rightarrow> kst \<Rightarrow> (u32 \<times> u32, kst) kres" where
  "count_args 0 argv argc sz s = NoReturn Spinning s"
| "count_args (Suc n) argv argc sz s = kbind (uload32 (argv + 4 * argc) s) (\<lambda>p s.
     if p = 0 then Done (argc, sz) s
     else kbind (ustrlen p s) (\<lambda>l s. count_args n argv (argc + 1) (sz + (l + 1)) s))"

text \<open>The loop from argument \<open>i\<close> on, with \<open>n\<close> to go; the result is \<^verbatim>\<open>string_store\<close> at its end.\<close>

fun store_args :: "nat \<Rightarrow> u32 \<Rightarrow> u32 \<Rightarrow> u32 \<Rightarrow> u32 \<Rightarrow> kst \<Rightarrow> (u32, kst) kres" where
  "store_args 0 argv argv_store string_store i s = Done string_store s"
| "store_args (Suc n) argv argv_store string_store i s =
     kbind (ustore32 (argv_store + 4 * i) (UTEMP2USTACK string_store) s) (\<lambda>_ s.
     kbind (uload32 (argv + 4 * i) s) (\<lambda>p s.
     kbind (ustrcpy max_string string_store p s) (\<lambda>_ s.
     kbind (uload32 (argv + 4 * i) s) (\<lambda>p s.
     kbind (ustrlen p s) (\<lambda>l s. store_args n argv argv_store (string_store + (l + 1)) (i + 1) s)))))"

definition init_stack_fail :: "u32 \<Rightarrow> kst \<Rightarrow> (u32 + u32, kst) kres" where
  "init_stack_fail r s = kbind (u_sys_page_unmap 0 UTEMP s) (\<lambda>_ s. Done (Inl r) s)"

text \<open>The result is the error or the stack pointer, which the code stores at \<^verbatim>\<open>*init_esp\<close>.\<close>

definition init_stack :: "u32 \<Rightarrow> u32 \<Rightarrow> kst \<Rightarrow> (u32 + u32, kst) kres" where
  "init_stack child argv s = kbind (count_args max_vector argv 0 0 s) (\<lambda>(argc, string_size) s.
     let string_store = UTEMP + PGSIZE - string_size;
         argv_store = ROUNDDOWN string_store 4 - 4 * (argc + 1)
     in if argv_store - 8 < UTEMP then Done (Inl (- E_NO_MEM)) s
        else kbind (u_sys_page_alloc 0 UTEMP (PTE_P OR PTE_U OR PTE_W) s) (\<lambda>r s.
        if sint r < 0 then Done (Inl r) s
        else kbind (store_args (unat argc) argv argv_store string_store 0 s) (\<lambda>string_end s.
        kbind (ustore32 (argv_store + 4 * argc) 0 s) (\<lambda>_ s.
        kbind (uassert (string_end = UTEMP + PGSIZE) ''assertion failed: string_store == (char *)UTEMP + PGSIZE'' s) (\<lambda>_ s.
        kbind (ustore32 (argv_store - 4) (UTEMP2USTACK argv_store) s) (\<lambda>_ s.
        kbind (ustore32 (argv_store - 8) argc s) (\<lambda>_ s.
        let init_esp = UTEMP2USTACK (argv_store - 8)
        in kbind (u_sys_page_map 0 UTEMP child (USTACKTOP - PGSIZE) (PTE_P OR PTE_U OR PTE_W) s) (\<lambda>r s.
           if sint r < 0 then init_stack_fail r s
           else kbind (u_sys_page_unmap 0 UTEMP s) (\<lambda>r s.
                if sint r < 0 then init_stack_fail r s else Done (Inr init_esp) s)))))))))"

section \<open>The segments\<close>

text \<open>The loop from offset \<open>i\<close> on.  It has a turn for each page of the segment, unless the size is so close
  to \<open>2^32\<close> that \<open>i\<close> wraps around, and then it does not end.\<close>

fun map_pages :: "nat \<Rightarrow> Dev list \<Rightarrow> u32 \<Rightarrow> u32 \<Rightarrow> u32 \<Rightarrow> u32 \<Rightarrow> u32 \<Rightarrow> u32 \<Rightarrow> u32 \<Rightarrow> u32 \<Rightarrow> kst \<Rightarrow> (u32, kst) kres" where
  "map_pages 0 devs child va memsz fd filesz fileoffset perm i s = NoReturn Spinning s"
| "map_pages (Suc n) devs child va memsz fd filesz fileoffset perm i s =
     (if \<not> i < memsz then Done 0 s
      else if filesz \<le> i
      then kbind (u_sys_page_alloc child (va + i) perm s) (\<lambda>r s.
           if sint r < 0 then Done r s
           else map_pages n devs child va memsz fd filesz fileoffset perm (i + PGSIZE) s)
      else kbind (u_sys_page_alloc 0 UTEMP (PTE_P OR PTE_U OR PTE_W) s) (\<lambda>r s.
           if sint r < 0 then Done r s
           else kbind (u_seek fd (fileoffset + i) s) (\<lambda>r s.
           if sint r < 0 then Done r s
           else kbind (readn devs fd UTEMP (min PGSIZE (filesz - i)) s) (\<lambda>r s.
           if sint r < 0 then Done r s
           else kbind (u_sys_page_map 0 UTEMP child (va + i) perm s) (\<lambda>r s.
           if sint r < 0 then Panic ''spawn: sys_page_map data: %e''
           else kbind (u_sys_page_unmap 0 UTEMP s) (\<lambda>_ s.
                map_pages n devs child va memsz fd filesz fileoffset perm (i + PGSIZE) s))))))"

definition map_segment :: "Dev list \<Rightarrow> u32 \<Rightarrow> u32 \<Rightarrow> u32 \<Rightarrow> u32 \<Rightarrow> u32 \<Rightarrow> u32 \<Rightarrow> u32 \<Rightarrow> kst \<Rightarrow> (u32, kst) kres" where
  "map_segment devs child va memsz fd filesz fileoffset perm s =
     (let i = PGOFF va
      in map_pages (unat (memsz + i) div 4096 + 2) devs child (va - i) (memsz + i) fd (filesz + i) (fileoffset - i) perm 0 s)"

definition copy_shared_pages :: "u32 \<Rightarrow> kst \<Rightarrow> (u32, kst) kres" where
  "copy_shared_pages child s = Done 0 s"

section \<open>The new environment\<close>

definition ELF_PROG_FLAG_WRITE :: u32 where [simp]: "ELF_PROG_FLAG_WRITE = 2"

text \<open>A program header, and its field \<^verbatim>\<open>p_flags\<close>.\<close>

definition uread_ph :: "u32 \<Rightarrow> kst \<Rightarrow> (Proghdr \<times> u32, kst) kres" where
  "uread_ph p s = kbind (uread32 p s) (\<lambda>ty s. kbind (uread32 (p + 4) s) (\<lambda>off s. kbind (uread32 (p + 8) s) (\<lambda>va s.
     kbind (uread32 (p + 16) s) (\<lambda>fsz s. kbind (uread32 (p + 20) s) (\<lambda>msz s. kbind (uread32 (p + 24) s) (\<lambda>fl s.
     Done (\<lparr>p_type = ty, p_offset = off, p_va = va, p_filesz = fsz, p_memsz = msz\<rparr>, fl) s))))))"

fun spawn_segments :: "nat \<Rightarrow> Dev list \<Rightarrow> u32 \<Rightarrow> u32 \<Rightarrow> u32 \<Rightarrow> kst \<Rightarrow> (u32, kst) kres" where
  "spawn_segments 0 devs child fd ph s = Done 0 s"
| "spawn_segments (Suc n) devs child fd ph s = kbind (uread_ph ph s) (\<lambda>(h, flags) s.
     if p_type h \<noteq> ELF_PROG_LOAD then spawn_segments n devs child fd (ph + sizeof_Proghdr) s
     else let perm = PTE_P OR PTE_U OR (if flags AND ELF_PROG_FLAG_WRITE \<noteq> 0 then PTE_W else 0)
       in kbind (map_segment devs child (p_va h) (p_memsz h) fd (p_filesz h) (p_offset h) perm s) (\<lambda>r s.
          if sint r < 0 then Done r s else spawn_segments n devs child fd (ph + sizeof_Proghdr) s))"

definition spawn_fail :: "Dev list \<Rightarrow> u32 \<Rightarrow> u32 \<Rightarrow> u32 \<Rightarrow> kst \<Rightarrow> (u32, kst) kres" where
  "spawn_fail devs child fd r s = kbind (u_sys_env_destroy child s) (\<lambda>_ s. kbind (u_close devs fd s) (\<lambda>_ s. Done r s))"

text \<open>\<^verbatim>\<open>struct Trapframe\<close> as words; its padding is zero here.\<close>

definition tf_words :: "Trapframe \<Rightarrow> u32 list" where
  "tf_words tf = (let r = tf_regs tf in
     [reg_edi r, reg_esi r, reg_ebp r, reg_oesp r, reg_ebx r, reg_edx r, reg_ecx r, reg_eax r,
      ucast (tf_es tf), ucast (tf_ds tf), tf_trapno tf, tf_err tf, tf_eip tf, ucast (tf_cs tf),
      tf_eflags tf, tf_esp tf, ucast (tf_ss tf)])"

text \<open>The frame in which the program would start.\<close>

definition spawn_tf :: "Trapframe \<Rightarrow> u32 \<Rightarrow> u32 \<Rightarrow> Trapframe" where
  "spawn_tf tf entry esp = tf\<lparr>tf_eip := entry, tf_esp := esp, tf_eflags := tf_eflags tf OR FL_IOPL_3\<rparr>"

text \<open>What follows once the segments are mapped.  The local trap frame is written to memory where its
  address is passed.\<close>

definition spawn_start :: "u32 \<Rightarrow> u32 \<Rightarrow> Trapframe \<Rightarrow> kst \<Rightarrow> (u32, kst) kres" where
  "spawn_start child ptf tf s = kbind (copy_shared_pages child s) (\<lambda>r s.
     if sint r < 0 then Panic ''copy_shared_pages: %e''
     else kbind (ustore_words ptf (tf_words tf) s) (\<lambda>_ s.
       kbind (u_sys_env_set_trapframe child ptf s) (\<lambda>r s.
       if sint r < 0 then Panic ''sys_env_set_trapframe: %e''
       else kbind (u_sys_env_set_status child 2 s) (\<lambda>r s.
         if sint r < 0 then Panic ''sys_env_set_status: %e'' else Done child s))))"

definition spawn :: "Dev list \<Rightarrow> fsipc \<Rightarrow> u32 \<Rightarrow> u32 \<Rightarrow> u32 \<Rightarrow> u32 \<Rightarrow> u32 \<Rightarrow> kst \<Rightarrow> (u32, kst) kres" where
  "spawn devs fsipc buf ebuf ptf prog argv s = kbind (u_open devs fsipc buf prog O_RDONLY s) (\<lambda>fd s.
     if sint fd < 0 then Done fd s
     else kbind (readn devs fd ebuf 512 s) (\<lambda>n s.
     kbind (if n \<noteq> 512 then Done False s else kbind (uread32 ebuf s) (\<lambda>m s. Done (m = ELF_MAGIC) s)) (\<lambda>ok s.
     if \<not> ok then kbind (u_close devs fd s) (\<lambda>_ s. Done (- E_NOT_EXEC) s)
     else kbind (u_sys_exofork s) (\<lambda>child s.
     if sint child < 0 then Done child s
     else let tf = env_tf (envs s (unat (ENVX child)))
     in kbind (uread32 (ebuf + 24) s) (\<lambda>entry s.
     kbind (init_stack child argv s) (\<lambda>st s. case st of
         Inl r \<Rightarrow> Done r s
       | Inr esp \<Rightarrow>
         kbind (uread32 (ebuf + 28) s) (\<lambda>phoff s. kbind (uread16 (ebuf + 44) s) (\<lambda>phnum s.
         kbind (spawn_segments (unat phnum) devs child fd (ebuf + phoff) s) (\<lambda>r s.
         if sint r < 0 then spawn_fail devs child fd r s
         else kbind (u_close devs fd s) (\<lambda>_ s. spawn_start child ptf (spawn_tf tf entry esp) s))))))))))"

text \<open>\<^verbatim>\<open>spawnl\<close>: \<open>args\<close> are the words after \<open>arg0\<close>, up to the first null pointer, and \<open>vec\<close> is the address of
  the vector on its stack.\<close>

definition spawnl :: "Dev list \<Rightarrow> fsipc \<Rightarrow> u32 \<Rightarrow> u32 \<Rightarrow> u32 \<Rightarrow> u32 \<Rightarrow> u32 \<Rightarrow> u32 \<Rightarrow> u32 list \<Rightarrow> kst \<Rightarrow> (u32, kst) kres" where
  "spawnl devs fsipc buf ebuf ptf vec prog arg0 args s = (let args = takeWhile (\<lambda>a. a \<noteq> 0) args in
     kbind (ustore32 vec arg0 s) (\<lambda>_ s.
     kbind (ustore32 (vec + 4 * (of_nat (length args) + 1)) 0 s) (\<lambda>_ s.
     kbind (ustore_words (vec + 4) args s) (\<lambda>_ s. spawn devs fsipc buf ebuf ptf prog vec s))))"

end
