(* ===== verification/SpawnProps.thy ===== *)
theory SpawnProps
  imports Spawn TrapProps
begin

text \<open>
  What \<^verbatim>\<open>spawn\<close> promises: the new program finds its arguments on its stack as the caller gave them.
\<close>

section \<open>What a program can read\<close>

definition user_at :: "kst \<Rightarrow> u32 \<Rightarrow> u32 \<Rightarrow> bool" where
  "user_at s g va \<longleftrightarrow> va < UTOP \<and> vmap s g va AND PTE_P \<noteq> 0 \<and> vmap s g va AND PTE_U \<noteq> 0"

definition urd8 :: "kst \<Rightarrow> u32 \<Rightarrow> u32 \<Rightarrow> u8 option" where
  "urd8 s g va = (if user_at s g va then Some (ubyte s g va) else None)"

definition urd32 :: "kst \<Rightarrow> u32 \<Rightarrow> u32 \<Rightarrow> u32 option" where
  "urd32 s g va = (if user_at s g va then Some (pmem s (PGNUM (vmap s g va)) (drop_bit 2 (PGOFF va))) else None)"

text \<open>A string that ends with a zero, and a vector of pointers to strings that ends with a null pointer.\<close>

fun string_at :: "(u32 \<Rightarrow> u8 option) \<Rightarrow> u32 \<Rightarrow> u8 list \<Rightarrow> bool" where
  "string_at r p [] \<longleftrightarrow> r p = Some 0"
| "string_at r p (b # bs) \<longleftrightarrow> r p = Some b \<and> b \<noteq> 0 \<and> string_at r (p + 1) bs"

fun argv_at :: "(u32 \<Rightarrow> u8 option) \<Rightarrow> (u32 \<Rightarrow> u32 option) \<Rightarrow> u32 \<Rightarrow> u8 list list \<Rightarrow> bool" where
  "argv_at r8 r32 argv [] \<longleftrightarrow> r32 argv = Some 0"
| "argv_at r8 r32 argv (bs # args) \<longleftrightarrow> (case r32 argv of None \<Rightarrow> False
     | Some p \<Rightarrow> p \<noteq> 0 \<and> string_at r8 p bs \<and> argv_at r8 r32 (argv + 4) args)"

definition strings_len :: "u8 list list \<Rightarrow> nat" where
  "strings_len args = (\<Sum>bs\<leftarrow>args. length bs + 1)"

lemma strings_len_simps [simp]: "strings_len [] = 0" "strings_len (bs # args) = length bs + 1 + strings_len args"
  by (simp_all add: strings_len_def)

lemma load32_user: "load32 s (PTE_ADDR p + PGOFF va + KERNBASE) = pmem s (PGNUM p) (drop_bit 2 (PGOFF va))"
  using user_pa(1,2) [of p va] by (simp add: load32_def)

lemma uload_rd:
  assumes "cur_pgdir s = A"
  shows "urd8 s A va = Some b \<Longrightarrow> uload8 va s = Done b s" "urd32 s A va = Some w \<Longrightarrow> uload32 va s = Done w s"
  using assms by (auto simp: urd8_def urd32_def user_at_def uload8_def uload32_def uaddr_def ubyte_def Let_def
      load32_user [unfolded KERNBASE_def] split: if_splits)

lemma uload_string_at:
  assumes "cur_pgdir s = A" "string_at (urd8 s A) p bs" "length bs < n"
  shows "uload_string n p s = Done bs s"
  using assms(2,3)
proof (induction bs arbitrary: p n)
  case Nil
  then obtain k where "n = Suc k" by (cases n) auto
  thus ?case using Nil uload_rd(1) [OF assms(1)] by simp
next
  case (Cons b bs)
  then obtain k where "n = Suc k" by (cases n) auto
  thus ?case using Cons uload_rd(1) [OF assms(1), of p b] by simp
qed

lemma ustrlen_at:
  assumes "cur_pgdir s = A" "string_at (urd8 s A) p bs" "length bs < max_string"
  shows "ustrlen p s = Done (of_nat (length bs)) s"
  using uload_string_at [OF assms] by (simp add: ustrlen_def)

lemma count_args_at:
  assumes "cur_pgdir s = A" "argv_at (urd8 s A) (urd32 s A) (argv + 4 * argc) args" "length args < n"
    "\<forall>bs \<in> set args. length bs < max_string"
  shows "count_args n argv argc sz s = Done (argc + of_nat (length args), sz + of_nat (strings_len args)) s"
  using assms(2-)
proof (induction args arbitrary: argc sz n)
  case Nil
  then obtain k where "n = Suc k" by (cases n) auto
  thus ?case using Nil uload_rd(2) [OF assms(1), of "argv + 4 * argc" 0] by simp
next
  case (Cons bs args)
  then obtain k where k: "n = Suc k" by (cases n) auto
  obtain p where p: "urd32 s A (argv + 4 * argc) = Some p" "p \<noteq> 0" "string_at (urd8 s A) p bs"
    "argv_at (urd8 s A) (urd32 s A) (argv + 4 * argc + 4) args"
    using Cons.prems(1) by (auto split: option.splits)
  have e: "argv + 4 * (argc + 1) = argv + 4 * argc + 4" by (simp add: algebra_simps)
  have q: "argv_at (urd8 s A) (urd32 s A) (argv + 4 * (argc + 1)) args" unfolding e by (rule p(4))
  have "count_args k argv (argc + 1) z s =
      Done (argc + 1 + of_nat (length args), z + of_nat (strings_len args)) s" for z
    by (rule Cons.IH [OF q]) (use Cons.prems k in simp_all)
  thus ?case using k p uload_rd(2) [OF assms(1) p(1)] ustrlen_at [OF assms(1) p(3)] Cons.prems(3)
    by (simp add: algebra_simps)
qed

section \<open>A page as bytes and words\<close>

text \<open>Byte \<open>j\<close> of a page, and the page with that byte changed.\<close>

definition page_byte :: "(u32 \<Rightarrow> u32) \<Rightarrow> nat \<Rightarrow> u8" where
  "page_byte m j = byte_of (m (of_nat (j div 4))) (of_nat j)"

definition put_byte :: "(u32 \<Rightarrow> u32) \<Rightarrow> nat \<Rightarrow> u8 \<Rightarrow> u32 \<Rightarrow> u32" where
  "put_byte m j b = m(of_nat (j div 4) := set_byte_of (m (of_nat (j div 4))) (of_nat j) b)"

fun put_bytes :: "(u32 \<Rightarrow> u32) \<Rightarrow> nat \<Rightarrow> u8 list \<Rightarrow> u32 \<Rightarrow> u32" where
  "put_bytes m j [] = m"
| "put_bytes m j (b # bs) = put_bytes (put_byte m j b) (Suc j) bs"

lemma of_nat_inj: "i < 4096 \<Longrightarrow> j < 4096 \<Longrightarrow> (of_nat i :: u32) = of_nat j \<longleftrightarrow> i = j"
  by (auto simp: word_unat_eq_iff unat_of_nat)

lemma of_nat_lane: "(of_nat i AND 3 :: u32) = of_nat (i mod 4)"
proof -
  have "(of_nat i AND mask 2 :: u32) = of_nat (i mod 4)"
    by (simp flip: take_bit_eq_mask add: take_bit_eq_mod of_nat_mod word_unat_eq_iff unat_of_nat unat_mod)
       (simp add: mod_mod_cancel)
  thus ?thesis by (simp add: mask_eq_exp_minus_1)
qed

lemma put_byte_word: "w < 1024 \<Longrightarrow> j < 4096 \<Longrightarrow> w \<noteq> j div 4 \<Longrightarrow> put_byte m j b (of_nat w) = m (of_nat w)"
  using of_nat_inj [of w "j div 4"] by (simp add: put_byte_def)

lemma put_byte_byte:
  assumes "i < 4096" "j < 4096"
  shows "page_byte (put_byte m j b) i = (if i = j then b else page_byte m i)"
proof (cases "i div 4 = j div 4")
  case True
  show ?thesis
  proof (cases "i = j")
    case False
    hence "i mod 4 \<noteq> j mod 4" using True by (metis div_mult_mod_eq)
    hence "(of_nat j AND 3 :: u32) \<noteq> of_nat i AND 3"
      using of_nat_inj [of "j mod 4" "i mod 4"] by (auto simp: of_nat_lane)
    thus ?thesis using False True by (simp add: page_byte_def put_byte_def byte_of_set_other)
  qed (simp add: page_byte_def put_byte_def byte_of_set_same)
next
  case False
  hence "(of_nat (i div 4) :: u32) \<noteq> of_nat (j div 4)" using assms of_nat_inj by simp
  thus ?thesis using False by (auto simp: page_byte_def put_byte_def)
qed

lemma put_word_byte: "i < 4096 \<Longrightarrow> w < 1024 \<Longrightarrow> i div 4 \<noteq> w \<Longrightarrow> page_byte (m(of_nat w := v)) i = page_byte m i"
  using of_nat_inj [of "i div 4" w] by (simp add: page_byte_def)

lemma put_bytes_byte:
  "i < 4096 \<Longrightarrow> j + length bs \<le> 4096 \<Longrightarrow>
   page_byte (put_bytes m j bs) i = (if j \<le> i \<and> i < j + length bs then bs ! (i - j) else page_byte m i)"
proof (induction bs arbitrary: m j)
  case (Cons b bs)
  have B: "page_byte (put_byte m j b) i = (if i = j then b else page_byte m i)"
    by (rule put_byte_byte) (use Cons.prems in simp_all)
  have I: "page_byte (put_bytes (put_byte m j b) (Suc j) bs) i =
      (if Suc j \<le> i \<and> i < Suc j + length bs then bs ! (i - Suc j) else page_byte (put_byte m j b) i)"
    by (rule Cons.IH) (use Cons.prems in simp_all)
  show ?case
  proof (cases "Suc j \<le> i")
    case True
    hence "(b # bs) ! (i - j) = bs ! (i - Suc j)" by (simp add: nth_Cons')
    thus ?thesis using True I B by auto
  next
    case False
    thus ?thesis using I B by (cases "i = j") auto
  qed
qed auto

lemma put_bytes_word:
  "w < 1024 \<Longrightarrow> j + length bs \<le> 4096 \<Longrightarrow> 4 * w + 4 \<le> j \<Longrightarrow> put_bytes m j bs (of_nat w) = m (of_nat w)"
proof (induction bs arbitrary: m j)
  case (Cons b bs)
  thus ?case using put_byte_word [of w j m b] by simp
qed simp

text \<open>The vector in the words from \<open>a\<close> on and its strings from byte \<open>j\<close> on, as the page will be mapped at
  \<^verbatim>\<open>USTACKTOP - PGSIZE\<close>.\<close>

definition stack_page :: u32 where "stack_page = 0xEEBFD000"

fun put_args :: "(u32 \<Rightarrow> u32) \<Rightarrow> nat \<Rightarrow> nat \<Rightarrow> u8 list list \<Rightarrow> u32 \<Rightarrow> u32" where
  "put_args m a j [] = m"
| "put_args m a j (bs # args) =
     put_args (put_bytes (m(of_nat a := stack_page + of_nat j)) j (bs @ [0])) (Suc a) (j + length bs + 1) args"

lemma put_args_word:
  "w < a \<Longrightarrow> a + length args \<le> 1024 \<Longrightarrow> j + strings_len args \<le> 4096 \<Longrightarrow> 4 * w + 4 \<le> j \<Longrightarrow>
   put_args m a j args (of_nat w) = m (of_nat w)"
proof (induction args arbitrary: m a j)
  case (Cons bs args)
  have "(of_nat w :: u32) \<noteq> of_nat a" using Cons.prems of_nat_inj [of w a] by simp
  thus ?case using Cons put_bytes_word [of w j "bs @ [0]"] by simp
qed simp

lemma put_args_byte:
  "i < j \<Longrightarrow> 4 * (a + length args) \<le> i \<Longrightarrow> j + strings_len args \<le> 4096 \<Longrightarrow>
   page_byte (put_args m a j args) i = page_byte m i"
proof (induction args arbitrary: m a j)
  case (Cons bs args)
  have "i div 4 \<noteq> a" "i < 4096" "a < 1024" using Cons.prems by auto
  thus ?case using Cons put_bytes_byte [of i j "bs @ [0]"] put_word_byte [of i a] by simp
qed simp

text \<open>A page that agrees with it is read as these arguments.\<close>

lemma string_at_bytes:
  "0 \<notin> set bs \<Longrightarrow> (\<And>i. i \<le> length bs \<Longrightarrow> r (p + of_nat i) = Some ((bs @ [0]) ! i)) \<Longrightarrow> string_at r p bs"
proof (induction bs arbitrary: p)
  case Nil
  thus ?case using Nil(2) [of 0] by simp
next
  case (Cons b bs)
  have "string_at r (p + 1) bs"
  proof (rule Cons.IH)
    show "r (p + 1 + of_nat i) = Some ((bs @ [0]) ! i)" if "i \<le> length bs" for i
      using Cons.prems(2) [of "Suc i"] that by (simp add: algebra_simps)
  qed (use Cons.prems(1) in simp)
  thus ?case using Cons.prems(1) Cons.prems(2) [of 0] by auto
qed

lemma put_args_read:
  assumes "4 * (a + length args + 1) \<le> j" "j + strings_len args \<le> 4096" "\<forall>bs \<in> set args. 0 \<notin> set bs"
    and "\<And>w. a \<le> w \<Longrightarrow> w < a + length args \<Longrightarrow> r32 (stack_page + 4 * of_nat w) = Some (put_args m a j args (of_nat w))"
    and "r32 (stack_page + 4 * of_nat (a + length args)) = Some 0"
    and "\<And>i. j \<le> i \<Longrightarrow> i < j + strings_len args \<Longrightarrow> r8 (stack_page + of_nat i) = Some (page_byte (put_args m a j args) i)"
  shows "argv_at r8 r32 (stack_page + 4 * of_nat a) args"
  using assms
proof (induction args arbitrary: m a j)
  case (Cons bs args)
  let ?m = "put_bytes (m(of_nat a := stack_page + of_nat j)) j (bs @ [0])" and ?j = "j + length bs + 1"
  have bounds: "4 * (Suc a + length args + 1) \<le> ?j" "?j + strings_len args \<le> 4096" "a < 1024" "a < Suc a"
    using Cons.prems(1,2) by simp_all
  have "put_args ?m (Suc a) ?j args (of_nat a) = ?m (of_nat a)" using put_args_word [of a "Suc a" args ?j] bounds by simp
  also have "\<dots> = stack_page + of_nat j" using put_bytes_word [of a j "bs @ [0]"] Cons.prems(1,2) by simp
  finally have p: "r32 (stack_page + 4 * of_nat a) = Some (stack_page + of_nat j)" using Cons.prems(4) [of a] by simp
  have u: "unat (stack_page + of_nat j) = 0xEEBFD000 + j"
    using Cons.prems(2) by (simp add: stack_page_def unat_word_ariths unat_of_nat)
  hence p0: "stack_page + of_nat j \<noteq> 0" by auto
  have str: "string_at r8 (stack_page + of_nat j) bs"
  proof (rule string_at_bytes)
    show "0 \<notin> set bs" using Cons.prems(3) by simp
    fix i assume i: "i \<le> length bs"
    have "page_byte (put_args ?m (Suc a) ?j args) (j + i) = page_byte ?m (j + i)"
      by (rule put_args_byte) (use i Cons.prems(1,2) in simp_all)
    also have "\<dots> = (bs @ [0]) ! i"
      using put_bytes_byte [of "j + i" j "bs @ [0]"] i Cons.prems(2) by simp
    finally show "r8 (stack_page + of_nat j + of_nat i) = Some ((bs @ [0]) ! i)"
      using Cons.prems(6) [of "j + i"] i by (simp add: add.assoc)
  qed
  have "argv_at r8 r32 (stack_page + 4 * of_nat (Suc a)) args"
    by (rule Cons.IH [OF bounds(1,2)]) (use Cons.prems(3-) in \<open>simp_all\<close>)
  thus ?case using p p0 str by (simp add: algebra_simps)
qed simp

section \<open>Filling the page\<close>

text \<open>Offsets within a page.\<close>

lemma of_nat_low: "j < 4096 \<Longrightarrow> \<not> (bit (of_nat j :: u32) n \<and> 12 \<le> n)"
  using bit_less_exp [of "of_nat j :: u32" 12 n] by (auto simp: word_less_nat_alt unat_of_nat)

lemma page_at:
  assumes "PGOFF P = 0" "j < 4096"
  shows "PGNUM (P + of_nat j) = PGNUM P" "PGOFF (P + of_nat j) = of_nat j"
    "drop_bit 2 (PGOFF (P + of_nat j)) = of_nat (j div 4)" "(P + of_nat j) AND 3 = of_nat j AND 3"
proof -
  have l: "\<not> (bit P n \<and> n < 12)" for n
  proof -
    have "P AND mask 12 = 0" using assms(1) unfolding PGOFF_def u32_low_mask .
    thus ?thesis by (metis bit_and_iff bit_mask_iff bit_0_eq bot_apply bot_bool_def impossible_bit)
  qed
  note b = of_nat_low [OF assms(2)]
  have e: "P + of_nat j = P OR of_nat j"
    by (rule disjunctive_add_eq_or, rule bit_word_eqI) (use b l in \<open>force simp: bit_and_iff\<close>)
  have h: "\<not> bit (of_nat j :: u32) (12 + n)" for n using b [of "12 + n"] by simp
  show "PGNUM (P + of_nat j) = PGNUM P" unfolding e PGNUM_def
    by (rule bit_word_eqI) (use h in \<open>auto simp: bit_drop_bit_eq bit_or_iff\<close>)
  show o: "PGOFF (P + of_nat j) = of_nat j" unfolding e PGOFF_def u32_low_mask
  proof (rule bit_word_eqI)
    fix n
    show "bit ((P OR of_nat j) AND mask 12) n = bit (of_nat j :: u32) n"
      using b [of n] l [of n] by (cases "n < 12") (auto simp: bit_and_iff bit_or_iff bit_mask_iff dest: bit_imp_le_length)
  qed
  show "drop_bit 2 (PGOFF (P + of_nat j)) = of_nat (j div 4)" unfolding o
    by (simp add: drop_bit_eq_div word_unat_eq_iff unat_div_distrib unat_of_nat) (use assms(2) in simp)
  have "(P + of_nat j) AND 3 = PGOFF (P + of_nat j) AND 3" unfolding PGOFF_def by (simp add: and.assoc)
  thus "(P + of_nat j) AND 3 = of_nat j AND 3" unfolding o .
qed

lemma page_at_words: "PGOFF P = 0 \<Longrightarrow> w < 1024 \<Longrightarrow> drop_bit 2 (PGOFF (P + 4 * of_nat w)) = of_nat w \<and>
    PGNUM (P + 4 * of_nat w) = PGNUM P"
  using page_at(1,3) [of P "4 * w"] by simp

definition page_write :: "u32 \<Rightarrow> (u32 \<Rightarrow> u32) \<Rightarrow> kst \<Rightarrow> kst" where
  "page_write F m s = s\<lparr>pmem := (pmem s)(F := m)\<rparr>"

lemma page_write_simps [simp]:
  "page_write F m (page_write F m' s) = page_write F m s" "pmem (page_write F m s) F = m"
  "cur_pgdir (page_write F m s) = cur_pgdir s" "page_write F (pmem s F) s = s"
  "f \<noteq> F \<Longrightarrow> pmem (page_write F m s) f = pmem s f"
  by (simp_all add: page_write_def cur_pgdir_def)

text \<open>The frame \<open>F\<close> is mapped at \<open>UTEMP\<close> and holds no page table, and what \<open>r8\<close> and \<open>r32\<close> read is elsewhere.\<close>

definition filling :: "kst \<Rightarrow> u32 \<Rightarrow> u32 \<Rightarrow> (u32 \<Rightarrow> u8 option) \<Rightarrow> (u32 \<Rightarrow> u32 option) \<Rightarrow> bool" where
  "filling s A F r8 r32 \<longleftrightarrow> cur_pgdir s = A \<and> vmap s A UTEMP = page2pa F OR 7 \<and> F < 0x100000 \<and>
     F \<noteq> pd_frame A \<and> (\<forall>d < 0x400. F \<noteq> pt_frame s A d) \<and>
     (\<forall>va b. r8 va = Some b \<longrightarrow> urd8 s A va = Some b \<and> PGNUM (vmap s A va) \<noteq> F) \<and>
     (\<forall>va w. r32 va = Some w \<longrightarrow> urd32 s A va = Some w \<and> PGNUM (vmap s A va) \<noteq> F)"

lemma page_write_maps:
  assumes "F \<noteq> pd_frame A" "\<forall>d < 0x400. F \<noteq> pt_frame s A d"
  shows "pt_frame (page_write F m s) A = pt_frame s A" "vmap (page_write F m s) A = vmap s A"
proof -
  show pt: "pt_frame (page_write F m s) A = pt_frame s A"
    using assms(1) by (intro ext) (simp add: pt_frame_def page_write_def)
  show "vmap (page_write F m s) A = vmap s A"
  proof
    fix va
    have "pt_frame s A (PDX va) \<noteq> F" using assms(2) PDX_less [of va] by blast
    thus "vmap (page_write F m s) A va = vmap s A va" by (simp add: vmap_def pt)
  qed
qed

lemma filling_write:
  assumes f: "filling s A F r8 r32" shows "filling (page_write F m s) A F r8 r32"
proof -
  have F: "F \<noteq> pd_frame A" "\<forall>d < 0x400. F \<noteq> pt_frame s A d" using f by (simp_all add: filling_def)
  note W = page_write_maps [OF F, of m]
  have "urd8 (page_write F m s) A va = urd8 s A va" "urd32 (page_write F m s) A va = urd32 s A va"
    if "PGNUM (vmap s A va) \<noteq> F" for va
    using that by (simp_all add: urd8_def urd32_def user_at_def W ubyte_frame)
  thus ?thesis using f unfolding filling_def by (auto simp: W)
qed

lemma filling_store:
  assumes f: "filling s A F r8 r32"
  shows "j < 4096 \<Longrightarrow> ustore8 (UTEMP + of_nat j) b s = Done () (page_write F (put_byte (pmem s F) j b) s)"
    and "w < 1024 \<Longrightarrow> ustore32 (UTEMP + 4 * of_nat w) v s = Done () (page_write F ((pmem s F)(of_nat w := v)) s)"
proof -
  have F: "cur_pgdir s = A" "vmap s A UTEMP = page2pa F OR 7" "F < 0x100000" using f by (simp_all add: filling_def)
  have U: "PGOFF UTEMP = 0" by (simp add: UTEMP_def PGOFF_def)
  have n: "PGNUM (page2pa F OR 7) = F" using entry_with_frame [of 7 "page2pa F"] F(3) by (simp add: entry_with_def or.assoc)
  have P: "(page2pa F OR 7) AND PTE_P \<noteq> 0" "(page2pa F OR 7) AND PTE_U \<noteq> 0" "(page2pa F OR 7) AND PTE_W \<noteq> 0"
    by (simp_all add: bit.conj_disj_distrib2)
  have m: "vmap s A (UTEMP + of_nat i) = page2pa F OR 7" if "i < 4096" for i
    using vmap_same_page [OF page_at(1) [OF U that]] F(2) by simp
  show "ustore8 (UTEMP + of_nat j) b s = Done () (page_write F (put_byte (pmem s F) j b) s)" if j: "j < 4096"
  proof -
    let ?a = "PTE_ADDR (page2pa F OR 7) + PGOFF (UTEMP + of_nat j)"
    have q: "PGNUM ?a = F" "drop_bit 2 (PGOFF ?a) = of_nat (j div 4)" "?a AND 3 = of_nat j AND 3"
      using user_pa [of "page2pa F OR 7" "UTEMP + of_nat j"] page_at [OF U j] n by simp_all
    have lane: "(?a + KERNBASE) AND 3 = of_nat j AND 3" using byte_lane [of ?a] q(3) by simp
    have "store8 (?a + KERNBASE) b s = page_write F (put_byte (pmem s F) j b) s"
      using q byte_of_lane(2) [OF lane]
      by (simp add: store8_def store32_def load32_def page_write_def put_byte_def)
    thus ?thesis using m [OF j] F(1) P by (simp add: ustore8_def uwritable_def uaddr_def)
  qed
  show "ustore32 (UTEMP + 4 * of_nat w) v s = Done () (page_write F ((pmem s F)(of_nat w := v)) s)" if w: "w < 1024"
  proof -
    let ?va = "UTEMP + 4 * of_nat w :: u32" and ?a = "PTE_ADDR (page2pa F OR 7) + PGOFF (UTEMP + 4 * of_nat w)"
    have "vmap s A ?va = page2pa F OR 7" using m [of "4 * w"] w by simp
    moreover have "PGNUM ?a = F" "drop_bit 2 (PGOFF ?a) = of_nat w"
      using user_pa [of "page2pa F OR 7" ?va] page_at_words [OF U w] n by simp_all
    ultimately show ?thesis using F(1) P
      by (simp add: ustore32_def uwritable_def uaddr_def store32_def page_write_def)
  qed
qed

lemma filling_read:
  assumes "filling s A F r8 r32"
  shows "r8 va = Some b \<Longrightarrow> uload8 va s = Done b s" "r32 va = Some w \<Longrightarrow> uload32 va s = Done w s"
  using assms uload_rd [of s A] by (simp_all add: filling_def)

lemma filling_string: "filling s A F r8 r32 \<Longrightarrow> string_at r8 p bs \<Longrightarrow> string_at (urd8 s A) p bs"
  by (induction bs arbitrary: p) (auto simp: filling_def)

lemma ustrcpy_at:
  assumes "filling s A F r8 r32" "string_at r8 p bs" "j + length bs < 4096" "length bs < n"
  shows "ustrcpy n (UTEMP + of_nat j) p s = Done () (page_write F (put_bytes (pmem s F) j (bs @ [0])) s)"
  using assms
proof (induction bs arbitrary: p n j s)
  case Nil
  then obtain k where "n = Suc k" by (cases n) auto
  thus ?case using Nil filling_read(1) [OF Nil(1)] filling_store(1) [OF Nil(1), of j 0] by simp
next
  case (Cons b bs)
  then obtain k where k: "n = Suc k" by (cases n) auto
  let ?s = "page_write F (put_byte (pmem s F) j b) s"
  have e: "UTEMP + of_nat j + 1 = UTEMP + of_nat (Suc j)" by (simp add: algebra_simps)
  have "ustrcpy k (UTEMP + of_nat (Suc j)) (p + 1) ?s =
      Done () (page_write F (put_bytes (pmem ?s F) (Suc j) (bs @ [0])) ?s)"
    by (rule Cons.IH [OF filling_write [OF Cons.prems(1)]]) (use Cons.prems k in simp_all)
  thus ?case using Cons.prems k e filling_read(1) [OF Cons.prems(1)] filling_store(1) [OF Cons.prems(1), of j b]
    by simp
qed

lemma to_stack: "UTEMP2USTACK (UTEMP + of_nat j) = stack_page + of_nat j"
  by (simp add: UTEMP2USTACK_def UTEMP_def USTACKTOP_def stack_page_def)

lemma store_args_at:
  assumes "filling s A F r8 r32" "argv_at r8 r32 (argv + 4 * i) args" "argv_store + 4 * i = UTEMP + 4 * of_nat a"
    "a + length args \<le> 1024" "j + strings_len args \<le> 4096"
  shows "store_args (length args) argv argv_store (UTEMP + of_nat j) i s =
    Done (UTEMP + of_nat (j + strings_len args)) (page_write F (put_args (pmem s F) a j args) s)"
  using assms
proof (induction args arbitrary: i a j s)
  case (Cons bs args)
  obtain p where p: "r32 (argv + 4 * i) = Some p" "p \<noteq> 0" "string_at r8 p bs" "argv_at r8 r32 (argv + 4 * i + 4) args"
    using Cons.prems(2) by (auto split: option.splits)
  let ?m1 = "(pmem s F)(of_nat a := stack_page + of_nat j)" and ?s1 = "page_write F ((pmem s F)(of_nat a := stack_page + of_nat j)) s"
  let ?m2 = "put_bytes ?m1 j (bs @ [0])" let ?s2 = "page_write F ?m2 s"
  have f1: "filling ?s1 A F r8 r32" and f2: "filling ?s2 A F r8 r32" by (rule filling_write [OF Cons.prems(1)])+
  have len: "length bs < max_string" using Cons.prems(5) by (simp add: max_string_def)
  have w: "ustore32 (argv_store + 4 * i) (UTEMP2USTACK (UTEMP + of_nat j)) s = Done () ?s1"
    unfolding to_stack Cons.prems(3) by (rule filling_store(2) [OF Cons.prems(1)]) (use Cons.prems(4) in simp)
  have c: "ustrcpy max_string (UTEMP + of_nat j) p ?s1 = Done () ?s2"
    using ustrcpy_at [OF f1 p(3), of j max_string] Cons.prems(5) len by simp
  have l: "ustrlen p ?s2 = Done (of_nat (length bs)) ?s2"
    by (rule ustrlen_at [OF _ filling_string [OF f2 p(3)] len]) (use f2 in \<open>simp add: filling_def\<close>)
  have e: "argv + 4 * (i + 1) = argv + 4 * i + 4" "argv_store + 4 * (i + 1) = argv_store + 4 * i + 4"
    by (simp_all add: algebra_simps)
  have a': "argv_store + 4 * (i + 1) = UTEMP + 4 * of_nat (Suc a)" unfolding e Cons.prems(3) by (simp add: algebra_simps)
  have "store_args (length args) argv argv_store (UTEMP + of_nat (j + length bs + 1)) (i + 1) ?s2 =
      Done (UTEMP + of_nat (j + length bs + 1 + strings_len args))
        (page_write F (put_args (pmem ?s2 F) (Suc a) (j + length bs + 1) args) ?s2)"
  proof (rule Cons.IH [OF f2 _ a'])
    show "argv_at r8 r32 (argv + 4 * (i + 1)) args" unfolding e by (rule p(4))
  qed (use Cons.prems(4,5) in simp_all)
  moreover have "UTEMP + of_nat j + (of_nat (length bs) + 1) = UTEMP + of_nat (j + length bs + 1)"
    by (simp add: algebra_simps)
  ultimately show ?case using w c l filling_read(2) [OF f1 p(1)] filling_read(2) [OF f2 p(1)]
    by (simp add: algebra_simps)
qed simp

section \<open>Parent and child\<close>

text \<open>The environment \<open>c\<close> runs on \<open>A\<close>; its child \<open>e\<close>, with the id \<open>envid\<close>, has the address space \<open>B\<close>.\<close>

definition spawning :: "kst \<Rightarrow> nat \<Rightarrow> nat \<Rightarrow> u32 \<Rightarrow> u32 \<Rightarrow> u32 \<Rightarrow> u32 list \<Rightarrow> (u32 \<Rightarrow> nat) \<Rightarrow> bool" where
  "spawning s c e envid A B fl k \<longleftrightarrow> curenv s = Some c \<and> env_pgdir (envs s c) = A \<and> env_pgdir (envs s e) = B \<and>
     cur_pgdir s = A \<and> self_map s A \<and> pde_flags s A \<and> pair_inv s A B fl k \<and>
     envid2env envid True s = Done (Inr (Some e)) s"

lemma forking_spawning: "forking s c e envid A B fl k \<Longrightarrow> spawning s c e envid A B fl k"
  by (simp add: forking_def spawning_def)

lemma spawningD:
  assumes "spawning s c e envid A B fl k"
  shows "curenv s = Some c" "env_pgdir (envs s c) = A" "env_pgdir (envs s e) = B" "cur_pgdir s = A" "self_map s A"
    "pde_flags s A" "pair_inv s A B fl k" "envid2env envid True s = Done (Inr (Some e)) s"
    "as_inv s A fl (refs s B k)" "as_inv s B fl (refs s A k)" "vm_wf s A fl" "vm_wf s B fl" "page_rep s fl"
    "vm_frames s A \<inter> vm_frames s B = {}" "user_as s c A fl (refs s B k)"
  using assms by (simp_all add: spawning_def pair_inv_def as_inv_def user_as_def)

lemma spawning_vm:
  assumes "spawning s c e envid A B fl k" "vm_only s t" "self_map t A" "pde_flags t A" "pair_inv t A B fl' k'"
  shows "spawning t c e envid A B fl' k'"
  using spawningD(1-4) [OF assms(1)] envid2env_vm_only [OF assms(2) spawningD(8) [OF assms(1)]] vm_onlyD [OF assms(2)] assms(3-)
  by (simp add: spawning_def)

lemma pair_write:
  assumes inv: "pair_inv s A B fl k" and ok: "page_ok s A fl F" "page_ok s B fl F"
  shows "pair_inv (page_write F m s) A B fl k"
proof -
  have I: "as_inv s A fl (refs s B k)" "as_inv s B fl (refs s A k)" using inv by (simp_all add: pair_inv_def)
  note WA = as_inv_write [OF I(1) conjunct1 [OF page_ok_not_frame [OF ok(1)]] conjunct2 [OF page_ok_not_frame [OF ok(1)]],
      of m, folded page_write_def]
  note WB = as_inv_write [OF I(2) conjunct1 [OF page_ok_not_frame [OF ok(2)]] conjunct2 [OF page_ok_not_frame [OF ok(2)]],
      of m, folded page_write_def]
  have r: "refs (page_write F m s) A k = refs s A k" "refs (page_write F m s) B k = refs s B k"
    by (simp_all add: refs_def maps_def WA(2) WB(2) fun_eq_iff)
  have n: "npages (page_write F m s) = npages s" by (simp add: page_write_def)
  have "page_ok (page_write F m s) A fl q = page_ok s A fl q" "page_ok (page_write F m s) B fl q = page_ok s B fl q" for q
    by (simp_all add: page_ok_def WA(5) WB(5) n)
  thus ?thesis using inv WA(1) WB(1) unfolding pair_inv_def by (simp add: r WA WB)
qed

lemma spawning_write:
  assumes "spawning s c e envid A B fl k" "page_ok s A fl F" "page_ok s B fl F"
  shows "spawning (page_write F m s) c e envid A B fl k"
proof (rule spawning_vm [OF assms(1)])
  note S = spawningD [OF assms(1)]
  have "pd_frame A \<noteq> F" using assms(2) by (auto simp: page_ok_def)
  thus "self_map (page_write F m s) A" "pde_flags (page_write F m s) A"
    using S(5,6) by (simp_all add: self_map_def pde_flags_def pt_frame_def)
  show "vm_only s (page_write F m s)" by (simp add: vm_only_def rest_def page_write_def)
qed (rule pair_write [OF spawningD(7) [OF assms(1)] assms(2,3)])

section \<open>The scratch page\<close>

lemma UTEMP_facts: "UTEMP < UTOP" "PGOFF UTEMP = 0" "PGNUM UTEMP = 0x400"
  by (simp_all add: UTEMP_def PGOFF_def PGNUM_def)

lemma entry7: "F < 0x100000 \<Longrightarrow> PGNUM (page2pa F OR 7) = F"
    "(page2pa F OR 7) AND PTE_P \<noteq> 0" "(page2pa F OR 7) AND PTE_U \<noteq> 0" "(page2pa F OR 7) AND PTE_W \<noteq> 0"
  using entry_with_frame [of 7 "page2pa F"] by (simp_all add: entry_with_def or.assoc bit.conj_disj_distrib2)

lemma utemp_page:
  assumes sp: "spawning s c e envid A B (q # fl) k" and nP: "vmap s A UTEMP AND PTE_P = 0" and room: "fl \<noteq> []"
  shows "\<exists>t fl'. u_sys_page_alloc 0 UTEMP 7 s = Done 0 t \<and> spawning t c e envid A B fl' k \<and> length fl \<le> Suc (length fl') \<and>
    (\<forall>a < UTOP. vmap t A a = (if PGNUM a = PGNUM UTEMP then page2pa q OR 7 else vmap s A a)) \<and>
    (\<forall>a < UTOP. vmap t B a = vmap s B a) \<and> pp_ref (pages t q) = 1 \<and> page_ok t A fl' q \<and> page_ok t B fl' q \<and>
    (\<forall>f. f \<notin> vm_frames s A \<longrightarrow> f \<notin> set (q # fl) \<longrightarrow> pmem t f = pmem s f)"
proof -
  note S = spawningD [OF sp] and T = UTEMP_facts
  let ?u = "after_alloc 7 q s"
  note P = pair_alloc [OF S(7), of 7]
  have q: "pp_ref (pages s q) = 0" "q \<notin> set fl" "q < 0x100000"
    using S(13) page_rep_distinct [OF S(13)] by (auto simp: page_rep_def word_less_nat_alt word_le_nat_alt)
  have vo: "vm_only s ?u" by (simp add: vm_only_def rest_def after_alloc_def Let_def upd_page_def)
  have pd: "pmem ?u f = pmem s f" if "f \<noteq> q" for f using that by (simp add: after_alloc_def Let_def)
  have "pd_frame A \<noteq> q" using vm_wf_pgdir(5) [OF S(11)] by auto
  hence sm: "self_map ?u A" "pde_flags ?u A"
    using S(5,6) pd [of "pd_frame A"] P(6) by (simp_all add: self_map_def pde_flags_def)
  have sat: "pp_ref (pages ?u q) \<noteq> 0xFFFF" using q(1) by simp
  have nu: "\<not> vmap ?u A UTEMP AND PTE_P \<noteq> 0" using nP by (simp only: P(4) not_not)
  obtain t fl' where t: "page_insert A q UTEMP 7 ?u = Done 0 t" "pair_inv t B A fl' k"
    "\<forall>a < UTOP. vmap t A a = (if PGNUM a = PGNUM UTEMP then page2pa q OR 7 OR PTE_P else vmap ?u A a)"
    "\<forall>f \<in> vm_frames ?u B. pmem t f = pmem ?u f"
    "\<forall>f. f \<notin> vm_frames ?u A \<longrightarrow> f \<notin> set fl \<longrightarrow> pmem t f = pmem ?u f"
    "\<forall>x. x \<notin> set fl \<longrightarrow> pp_ref (pages t x) = (pp_ref (pages ?u x) + (if x = q then 1 else 0)) -
       (if vmap ?u A UTEMP AND PTE_P \<noteq> 0 \<and> x = PGNUM (vmap ?u A UTEMP) then 1 else 0)"
    "tables_step ?u A UTEMP fl t fl'" "vm_only ?u t"
    using pair_insert [OF pair_inv_sym [OF P(1)] T(1) P(3,2) sat, of 7] room by auto
  have P7: "page2pa q OR 7 OR PTE_P = page2pa q OR 7" by (simp add: or.assoc)
  have vA: "\<forall>a < UTOP. vmap t A a = (if PGNUM a = PGNUM UTEMP then page2pa q OR 7 else vmap s A a)"
    using t(3) P(4) unfolding P7 by simp
  have pair: "pair_inv t A B fl' k" by (rule pair_inv_sym [OF t(2)])
  have sp': "spawning t c e envid A B fl' k"
    by (rule spawning_vm [OF sp vm_only_trans [OF vo t(8)] tables_step_window [OF t(7) T(1) sm] pair])
  have m: "vmap t A UTEMP = page2pa q OR 7" using vA [rule_format, OF T(1)] by simp
  have ok: "page_ok t A fl' q"
    using vm_wf_mapped [OF spawningD(11) [OF sp'] T(1)] m entry7(1,2) [of q] q(3) by metis
  moreover have "page_ok t B fl' q" using pair T(1) m entry7(1,2) [of q] q(3) unfolding pair_inv_def by metis
  moreover have "length fl \<le> Suc (length fl')" using t(7) by (auto simp: tables_step_def split: if_splits)
  moreover have "pp_ref (pages t q) = 1" using t(6) q(1,2) nu by simp
  moreover have fr: "vm_frames ?u A = vm_frames s A" by (simp add: vm_frames_def P(6))
  moreover have "\<forall>a < UTOP. vmap t B a = vmap s B a" using vmap_frames_eq [OF t(4)] P(5) by simp
  moreover have "u_sys_page_alloc 0 UTEMP 7 s = Done 0 t"
    using S(1,2) vm_onlyD(4) [OF vo] t(1) page_alloc_cons [OF S(13), of 7] T
    by (simp add: u_sys_page_alloc_def usyscall_def syscall_def sys_page_alloc_def envid2env_0 bad_perm_def bad_user_va_def
        PTE_SYSCALL_def)
  ultimately show ?thesis using sp' vA t(5) pd by (intro exI [of _ t] exI [of _ fl'] conjI) auto
qed

text \<open>What the caller could read before it can read afterwards.\<close>

lemma utemp_filling:
  assumes wf: "vm_wf s A fl" and cur: "cur_pgdir t = A" and free: "vmap s A UTEMP AND PTE_P = 0"
    and q: "q < 0x100000" "q \<in> set fl"
    and v: "\<forall>a < UTOP. vmap t A a = (if PGNUM a = PGNUM UTEMP then page2pa q OR 7 else vmap s A a)"
    and ok: "page_ok t A fl' q" and m: "\<forall>f. f \<notin> vm_frames s A \<longrightarrow> f \<notin> set fl \<longrightarrow> pmem t f = pmem s f"
  shows "filling t A q (urd8 s A) (urd32 s A)"
proof -
  have mt: "vmap t A UTEMP = page2pa q OR 7" using v [rule_format, OF UTEMP_facts(1)] by simp
  have keep: "urd8 t A va = urd8 s A va \<and> urd32 t A va = urd32 s A va \<and> PGNUM (vmap t A va) \<noteq> q" if u: "user_at s A va" for va
  proof -
    have P: "va < UTOP" "vmap s A va AND PTE_P \<noteq> 0" using u by (simp_all add: user_at_def)
    have "PGNUM va \<noteq> PGNUM UTEMP" using vmap_same_page [of va UTEMP s A] P free by metis
    hence e: "vmap t A va = vmap s A va" using v P(1) by simp
    have k: "page_ok s A fl (PGNUM (vmap s A va))" by (rule vm_wf_mapped [OF wf P])
    hence "pmem t (PGNUM (vmap s A va)) = pmem s (PGNUM (vmap s A va))"
      using m page_ok_not_frame [OF k] by (simp add: page_ok_def)
    moreover have "PGNUM (vmap s A va) \<noteq> q" using k q(2) by (auto simp: page_ok_def)
    ultimately show ?thesis by (simp add: urd8_def urd32_def user_at_def e ubyte_frame)
  qed
  show ?thesis using cur mt q(1) ok keep unfolding filling_def page_ok_def
    by (auto simp: urd8_def urd32_def split: if_splits)
qed

lemma stack_page_facts: "stack_page < UTOP" "PGOFF stack_page = 0" "USTACKTOP - PGSIZE = stack_page"
  by (simp_all add: stack_page_def PGOFF_def USTACKTOP_def)

lemma hand_over:
  assumes sp: "spawning s c e envid A B fl k" and m: "vmap s A UTEMP = page2pa q OR 7" and q: "q < 0x100000"
    and ref: "pp_ref (pages s q) = 1" and room: "fl \<noteq> []" and nB: "vmap s B stack_page AND PTE_P = 0"
  shows "\<exists>t u fl' k'. u_sys_page_map 0 UTEMP envid stack_page 7 s = Done 0 t \<and> u_sys_page_unmap 0 UTEMP t = Done 0 u \<and>
    user_as u c A fl' k' \<and>
    (\<forall>a < UTOP. vmap u A a = (if PGNUM a = PGNUM UTEMP then 0 else vmap s A a)) \<and>
    (\<forall>a < UTOP. vmap u B a = (if PGNUM a = PGNUM stack_page then page2pa q OR 7 else vmap s B a)) \<and>
    pmem u q = pmem s q \<and> pp_ref (pages u q) = 1"
proof -
  note S = spawningD [OF sp] and T = UTEMP_facts and K = stack_page_facts and E = entry7 [of q]
  have P: "vmap s A UTEMP AND PTE_P \<noteq> 0" and pq: "PGNUM (vmap s A UTEMP) = q" unfolding m using E q by simp_all
  have ok: "page_ok s A fl q" "page_ok s B fl q"
    using vm_wf_mapped [OF S(11) T(1) P] S(7) T(1) P pq unfolding pair_inv_def by metis+
  have sat: "pp_ref (pages s q) \<noteq> 0xFFFF" using ref by simp
  obtain t fl1 where t: "page_insert B q stack_page 7 s = Done 0 t" "pair_inv t A B fl1 k"
    "\<forall>a < UTOP. vmap t B a = (if PGNUM a = PGNUM stack_page then page2pa q OR 7 OR PTE_P else vmap s B a)"
    "\<forall>f \<in> vm_frames s A. pmem t f = pmem s f"
    "\<forall>f. f \<notin> vm_frames s B \<longrightarrow> f \<notin> set fl \<longrightarrow> pmem t f = pmem s f"
    "\<forall>x. x \<notin> set fl \<longrightarrow> pp_ref (pages t x) = (pp_ref (pages s x) + (if x = q then 1 else 0)) -
       (if vmap s B stack_page AND PTE_P \<noteq> 0 \<and> x = PGNUM (vmap s B stack_page) then 1 else 0)" "vm_only s t"
    using pair_insert [OF S(7) K(1) ok sat, of 7] room by auto
  have pd: "pmem t (pd_frame A) = pmem s (pd_frame A)" using t(4) by (simp add: vm_frames_def)
  have sp': "spawning t c e envid A B fl1 k"
    by (rule spawning_vm [OF sp t(7) _ _ t(2)]) (use S(5,6) pd in \<open>simp_all add: self_map_def pde_flags_def pt_frame_def\<close>)
  have tA: "vmap t A a = vmap s A a" if "a < UTOP" for a by (rule vmap_frames_eq [OF t(4) that])
  have map: "u_sys_page_map 0 UTEMP envid stack_page 7 s = Done 0 t"
    by (rule u_page_map_to [OF S(1,8) _ T(1,2) K(1,2)])
       (use S(2,3,11) P m E t(1) pq in \<open>simp_all add: bad_perm_def PTE_SYSCALL_def\<close>)
  have P': "vmap t A UTEMP AND PTE_P \<noteq> 0" and pq': "PGNUM (vmap t A UTEMP) = q" using P pq tA [OF T(1)] by metis+
  obtain u fl' where u: "u_sys_page_unmap 0 UTEMP t = Done 0 u" "user_as u c A fl' (refs t B k)"
    "\<forall>a < UTOP. vmap u A a = (if PGNUM a = PGNUM UTEMP then 0 else vmap t A a)"
    "\<forall>x. pp_ref (pages u x) =
       (if x = PGNUM (vmap t A UTEMP) then pp_ref (pages t (PGNUM (vmap t A UTEMP))) - 1 else pp_ref (pages t x))"
    "\<forall>f. f \<notin> vm_frames t A \<longrightarrow> pmem u f = pmem t f"
    using user_unmap [OF spawningD(15) [OF sp'] T(1,2) P'] by blast
  have "\<forall>f \<in> vm_frames t B. pmem u f = pmem t f" using u(5) spawningD(14) [OF sp'] by blast
  hence uB: "vmap u B a = vmap t B a" if "a < UTOP" for a by (rule vmap_frames_eq [OF _ that])
  have "page_ok t A fl1 q" using vm_wf_mapped [OF spawningD(11) [OF sp'] T(1) P'] pq' by simp
  hence "pmem u q = pmem t q" using u(5) page_ok_not_frame by blast
  moreover have "pmem t q = pmem s q" using t(5) page_ok_not_frame [OF ok(2)] ok(2) by (simp add: page_ok_def)
  moreover have "q \<notin> set fl" using ok(1) by (simp add: page_ok_def)
  moreover have "pp_ref (pages u q) = 1" using u(4) t(6) \<open>q \<notin> set fl\<close> ref nB pq' by simp
  moreover have "page2pa q OR 7 OR PTE_P = page2pa q OR 7" by (simp add: or.assoc)
  ultimately show ?thesis using map u(1,2,3) uB t(3) tA
    by (intro exI [of _ t] exI [of _ u] exI [of _ fl'] exI [of _ "refs t B k"] conjI) simp_all
qed

section \<open>The layout of the page\<close>

lemma stack_layout:
  assumes "L \<le> 4096" "n + 3 \<le> (4096 - L) div 4"
  defines "j \<equiv> 4096 - L" and "a \<equiv> (4096 - L) div 4 - (n + 1)"
  shows "UTEMP + PGSIZE - of_nat L = UTEMP + of_nat j"
    "ROUNDDOWN (UTEMP + of_nat j) 4 - 4 * (of_nat n + 1) = UTEMP + 4 * of_nat a"
    "UTEMP + 4 * of_nat a - 8 = UTEMP + 4 * of_nat (a - 2)" "UTEMP + 4 * of_nat a - 4 = UTEMP + 4 * of_nat (a - 1)"
    "UTEMP + 4 * of_nat a + 4 * of_nat n = UTEMP + 4 * of_nat (a + n)" "\<not> UTEMP + 4 * of_nat (a - 2) < UTEMP"
    "2 \<le> a" "4 * (a + n + 1) \<le> j" "j + L = 4096" "a + n < 1024"
proof -
  show a: "2 \<le> a" "4 * (a + n + 1) \<le> j" "j + L = 4096" using assms(1,2) by (auto simp: j_def a_def)
  show an: "a + n < 1024" using a(2,3) by simp
  have b: "a \<le> 1024" "n \<le> 1024" "j \<le> 4096" "j div 4 = a + n + 1" using assms(2) by (auto simp: a_def j_def)
  show "UTEMP + PGSIZE - of_nat L = UTEMP + of_nat j" using assms(1) by (simp add: j_def of_nat_diff)
  show "UTEMP + 4 * of_nat a - 8 = UTEMP + 4 * of_nat (a - 2)" "UTEMP + 4 * of_nat a - 4 = UTEMP + 4 * of_nat (a - 1)"
    using a(1) by (simp_all add: of_nat_diff algebra_simps)
  show "UTEMP + 4 * of_nat a + 4 * of_nat n = UTEMP + 4 * of_nat (a + n)" by (simp add: algebra_simps)
  show "\<not> UTEMP + 4 * of_nat (a - 2) < UTEMP"
    using b(1) by (simp add: word_less_nat_alt unat_word_ariths unat_of_nat)
  have g: "x < 4294967296 \<Longrightarrow> unat r = x \<Longrightarrow> r = (of_nat x :: u32)" for x r
    by (simp add: word_unat_eq_iff unat_of_nat)
  have d: "(4194304 + j) div 4 = 1048576 + j div 4" by presburger
  have "unat (ROUNDDOWN (UTEMP + of_nat j) 4) = 0x400000 + 4 * (a + n + 1)"
    using b(3,4) by (simp add: unat_ROUNDDOWN unat_word_ariths unat_of_nat d)
  hence "ROUNDDOWN (UTEMP + of_nat j) 4 = of_nat (0x400000 + 4 * (a + n + 1))"
  proof (rule g [rotated])
    show "0x400000 + 4 * (a + n + 1) < 4294967296" using an by simp
  qed
  thus "ROUNDDOWN (UTEMP + of_nat j) 4 - 4 * (of_nat n + 1) = UTEMP + 4 * of_nat a" by (simp add: algebra_simps)
qed

definition args_fit :: "u8 list list \<Rightarrow> bool" where
  "args_fit args \<longleftrightarrow> strings_len args \<le> 4096 \<and> length args + 3 \<le> (4096 - strings_len args) div 4"

text \<open>Word index of the vector and the finished page.\<close>

definition args_word :: "u8 list list \<Rightarrow> nat" where
  "args_word args = (4096 - strings_len args) div 4 - (length args + 1)"

definition args_page :: "(u32 \<Rightarrow> u32) \<Rightarrow> u8 list list \<Rightarrow> u32 \<Rightarrow> u32" where
  "args_page m args = (let a = args_word args
     in (put_args m a (4096 - strings_len args) args)
       (of_nat (a + length args) := 0, of_nat (a - 1) := stack_page + 4 * of_nat a, of_nat (a - 2) := of_nat (length args)))"

lemma strings_len_elem: "bs \<in> set args \<Longrightarrow> length bs < strings_len args"
  by (induction args) auto

text \<open>What follows once the page is there fills it and hands it over.\<close>

lemma init_stack_fills:
  assumes sp: "spawning s c e child A B fl k" and al: "u_sys_page_alloc 0 UTEMP 7 s = Done 0 t"
    and argv: "argv_at (urd8 s A) (urd32 s A) argv args" and fit: "args_fit args" and f: "filling t A q (urd8 s A) (urd32 s A)"
  defines "a \<equiv> args_word args" and "v \<equiv> page_write q (args_page (pmem t q) args) t"
  shows "init_stack child argv s = kbind (u_sys_page_map 0 UTEMP child stack_page 7 v) (\<lambda>r s.
     if sint r < 0 then init_stack_fail r s
     else kbind (u_sys_page_unmap 0 UTEMP s) (\<lambda>r s.
          if sint r < 0 then init_stack_fail r s else Done (Inr (stack_page + 4 * of_nat (a - 2))) s))"
proof -
  let ?L = "strings_len args" and ?n = "length args" let ?j = "4096 - ?L" let ?p = "put_args (pmem t q) a ?j args"
  have fit': "?L \<le> 4096" "?n + 3 \<le> (4096 - ?L) div 4" using fit by (simp_all add: args_fit_def)
  note L = stack_layout [OF fit', folded args_word_def, folded a_def]
  have small: "\<forall>bs \<in> set args. length bs < max_string" using strings_len_elem fit' by (fastforce simp: max_string_def)
  have "?n < max_vector" using fit' by (simp add: max_vector_def)
  hence cnt: "count_args max_vector argv 0 0 s = Done (of_nat ?n, of_nat ?L) s"
    using count_args_at [OF spawningD(4) [OF sp], of argv 0 args max_vector 0] argv small by simp
  have un: "unat (of_nat ?n :: u32) = ?n" using L(10) by (simp add: unat_of_nat)
  let ?w1 = "?p(of_nat (a + ?n) := 0)" let ?w2 = "?w1(of_nat (a - 1) := stack_page + 4 * of_nat a)"
  have st: "store_args ?n argv (UTEMP + 4 * of_nat a) (UTEMP + of_nat ?j) 0 t = Done (UTEMP + of_nat 4096) (page_write q ?p t)"
    using store_args_at [OF f, of argv 0 args "UTEMP + 4 * of_nat a" a ?j] argv L(9,10) by simp
  have s1: "ustore32 (UTEMP + 4 * of_nat (a + ?n)) 0 (page_write q ?p t) = Done () (page_write q ?w1 t)"
    using filling_store(2) [OF filling_write [OF f, of ?p] L(10), of 0] by simp
  have s2: "ustore32 (UTEMP + 4 * of_nat (a - 1)) (stack_page + 4 * of_nat a) (page_write q ?w1 t) = Done () (page_write q ?w2 t)"
    using filling_store(2) [OF filling_write [OF f, of ?w1], of "a - 1"] L(10) by simp
  have s3: "ustore32 (UTEMP + 4 * of_nat (a - 2)) (of_nat ?n) (page_write q ?w2 t) = Done () v"
    using filling_store(2) [OF filling_write [OF f, of ?w2], of "a - 2"] L(10) by (simp add: v_def args_page_def Let_def a_def)
  have us: "UTEMP2USTACK (UTEMP + 4 * of_nat w) = stack_page + 4 * of_nat w" for w using to_stack [of "4 * w"] by simp
  have pp: "PTE_P OR PTE_U OR PTE_W = (7 :: u32)" by simp
  have asr: "uassert (UTEMP + of_nat 4096 = UTEMP + PGSIZE) m x = Done () x" for m x by (simp add: uassert_def)
  show ?thesis
    unfolding init_stack_def cnt kbind.simps prod.case Let_def L(1,2) L(3,4,5) un pp al st s1 asr us s2 s3
      stack_page_facts(3) using L(6) by simp
qed

section \<open>The arguments in the child\<close>

lemma stack_read:
  assumes m: "vmap t B stack_page = page2pa q OR 7" and q: "q < 0x100000"
  shows "j < 4096 \<Longrightarrow> urd8 t B (stack_page + of_nat j) = Some (page_byte (pmem t q) j)"
    "w < 1024 \<Longrightarrow> urd32 t B (stack_page + 4 * of_nat w) = Some (pmem t q (of_nat w))"
proof -
  note E = entry7 [of q] and K = stack_page_facts
  have v: "vmap t B (stack_page + of_nat i) = page2pa q OR 7" "stack_page + of_nat i < UTOP" if i: "i < 4096" for i
  proof -
    show "vmap t B (stack_page + of_nat i) = page2pa q OR 7"
      using vmap_same_page [OF page_at(1) [OF K(2) i]] m by simp
    show "stack_page + of_nat i < UTOP"
      using i by (simp add: stack_page_def word_less_nat_alt unat_word_ariths unat_of_nat)
  qed
  show "urd8 t B (stack_page + of_nat j) = Some (page_byte (pmem t q) j)" if j: "j < 4096"
    using v [OF j] E q page_at [OF K(2) j] byte_of_lane(1) [of "stack_page + of_nat j" "of_nat j"]
    by (simp add: urd8_def user_at_def ubyte_frame page_byte_def)
  show "urd32 t B (stack_page + 4 * of_nat w) = Some (pmem t q (of_nat w))" if w: "w < 1024"
    using v [of "4 * w"] E q page_at_words [OF K(2) w] w by (simp add: urd32_def user_at_def)
qed

lemma string_no_zero: "string_at r p bs \<Longrightarrow> 0 \<notin> set bs"
  by (induction bs arbitrary: p) auto

lemma argv_no_zero: "argv_at r8 r32 p args \<Longrightarrow> \<forall>bs \<in> set args. 0 \<notin> set bs"
  by (induction args arbitrary: p) (auto split: option.splits dest: string_no_zero)

lemma args_page_read:
  assumes m: "vmap t B stack_page = page2pa q OR 7" "q < 0x100000" and p: "pmem t q = args_page m0 args"
    and fit: "args_fit args" and nz: "\<forall>bs \<in> set args. 0 \<notin> set bs"
  defines "a \<equiv> args_word args"
  shows "urd32 t B (stack_page + 4 * of_nat (a - 2)) = Some (of_nat (length args))"
    "urd32 t B (stack_page + 4 * of_nat (a - 2) + 4) = Some (stack_page + 4 * of_nat a)"
    "argv_at (urd8 t B) (urd32 t B) (stack_page + 4 * of_nat a) args"
proof -
  let ?L = "strings_len args" and ?n = "length args" let ?j = "4096 - ?L" let ?p = "put_args m0 a ?j args"
  have fit': "?L \<le> 4096" "?n + 3 \<le> (4096 - ?L) div 4" using fit by (simp_all add: args_fit_def)
  note L = stack_layout [OF fit', folded args_word_def, folded a_def]
  note R = stack_read [OF m]
  have i: "(of_nat x :: u32) = of_nat y \<longleftrightarrow> x = y" if "x < 1024" "y < 1024" for x y using that of_nat_inj by simp
  have w: "pmem t q (of_nat x) = (if x = a - 2 then of_nat ?n else if x = a - 1 then stack_page + 4 * of_nat a
      else if x = a + ?n then 0 else ?p (of_nat x))" if "x < 1024" for x
    using i [OF that, of "a - 2"] i [OF that, of "a - 1"] i [OF that, of "a + ?n"] L(10)
    by (simp add: p args_page_def Let_def a_def del: of_nat_diff)
  have b: "page_byte (pmem t q) x = page_byte ?p x" if "?j \<le> x" "x < 4096" for x
  proof -
    have "a + ?n < x div 4" using that(1) L(8) by (simp add: less_eq_div_iff_mult_less_eq Suc_le_eq [symmetric])
    hence ne: "x div 4 \<noteq> a - 2" "x div 4 \<noteq> a - 1" "x div 4 \<noteq> a + ?n" by auto
    have "x div 4 < 1024" using that(2) by simp
    hence "pmem t q (of_nat (x div 4)) = ?p (of_nat (x div 4))" using w [of "x div 4"] by (simp only: ne if_False)
    thus ?thesis by (simp add: page_byte_def)
  qed
  show "urd32 t B (stack_page + 4 * of_nat (a - 2)) = Some (of_nat ?n)" using R(2) [of "a - 2"] w [of "a - 2"] L(10) by simp
  have e: "stack_page + 4 * of_nat (a - 2) + 4 = stack_page + 4 * of_nat (a - 1)" using L(7) by (simp add: of_nat_diff)
  have n1: "a - 1 \<noteq> a - 2" "a - 1 < 1024" using L(7,10) by auto
  show "urd32 t B (stack_page + 4 * of_nat (a - 2) + 4) = Some (stack_page + 4 * of_nat a)"
    unfolding e R(2) [OF n1(2)] w [OF n1(2)] using n1(1) by simp
  show "argv_at (urd8 t B) (urd32 t B) (stack_page + 4 * of_nat a) args"
  proof (rule put_args_read [where j = ?j and m = m0])
    show "urd32 t B (stack_page + 4 * of_nat x) = Some (?p (of_nat x))" if "a \<le> x" "x < a + ?n" for x
    proof -
      have ne: "x \<noteq> a - 2" "x \<noteq> a - 1" "x \<noteq> a + ?n" and lt: "x < 1024" using that L(7,10) by auto
      show ?thesis unfolding R(2) [OF lt] w [OF lt] by (simp only: ne if_False)
    qed
    show "urd32 t B (stack_page + 4 * of_nat (a + ?n)) = Some 0"
    proof -
      have ne: "a + ?n \<noteq> a - 2" "a + ?n \<noteq> a - 1" using L(7) by auto
      show ?thesis unfolding R(2) [OF L(10)] w [OF L(10)] by (simp only: ne if_False if_True simp_thms)
    qed
    show "urd8 t B (stack_page + of_nat x) = Some (page_byte ?p x)" if "?j \<le> x" "x < ?j + ?L" for x
      using R(1) [of x] b [of x] that L(9) by simp
  qed (use L(8,9) nz in simp_all)
qed

text \<open>C37: \<^verbatim>\<open>init_stack\<close> puts the arguments on the stack of the child: at the stack pointer that it gives, the
  child finds the number of arguments and, above it, the address of a vector of pointers that ends with a
  null pointer, and the pointers lead, in the child's address space, to the strings that the caller's
  vector led to.  The page is the child's alone, no other mapping of the child changes, and the parent is
  left without the page and with all its other mappings.\<close>

theorem init_stack_args:
  assumes sp: "spawning s c e child A B (q # fl) k" and room: "2 \<le> length fl"
    and free: "vmap s A UTEMP AND PTE_P = 0" "vmap s B stack_page AND PTE_P = 0"
    and argv: "argv_at (urd8 s A) (urd32 s A) argv args" and fit: "args_fit args"
  shows "\<exists>esp vec u fl' k'. init_stack child argv s = Done (Inr esp) u \<and> user_as u c A fl' k' \<and>
    urd32 u B esp = Some (of_nat (length args)) \<and> urd32 u B (esp + 4) = Some vec \<and>
    argv_at (urd8 u B) (urd32 u B) vec args \<and> PGNUM esp = PGNUM stack_page \<and> pp_ref (pages u q) = 1 \<and>
    (\<forall>a < UTOP. vmap u B a = (if PGNUM a = PGNUM stack_page then page2pa q OR 7 else vmap s B a)) \<and>
    (\<forall>a < UTOP. vmap u A a = (if PGNUM a = PGNUM UTEMP then 0 else vmap s A a))"
proof -
  note S = spawningD [OF sp]
  have q: "q < 0x100000" "q \<in> set (q # fl)"
    using S(13) by (auto simp: page_rep_def word_less_nat_alt word_le_nat_alt)
  have "fl \<noteq> []" using room by auto
  then obtain t fl1 where t: "u_sys_page_alloc 0 UTEMP 7 s = Done 0 t" "spawning t c e child A B fl1 k"
    "length fl \<le> Suc (length fl1)"
    "\<forall>a < UTOP. vmap t A a = (if PGNUM a = PGNUM UTEMP then page2pa q OR 7 else vmap s A a)"
    "\<forall>a < UTOP. vmap t B a = vmap s B a" "pp_ref (pages t q) = 1" "page_ok t A fl1 q" "page_ok t B fl1 q"
    "\<forall>f. f \<notin> vm_frames s A \<longrightarrow> f \<notin> set (q # fl) \<longrightarrow> pmem t f = pmem s f"
    using utemp_page [OF sp free(1)] by blast
  have mt: "vmap t A UTEMP = page2pa q OR 7" using t(4) [rule_format, OF UTEMP_facts(1)] by simp
  have f: "filling t A q (urd8 s A) (urd32 s A)"
    by (rule utemp_filling [OF S(11) spawningD(4) [OF t(2)] free(1) q t(4,7,9)])
  let ?v = "page_write q (args_page (pmem t q) args) t" and ?a = "args_word args"
  have W: "vmap ?v A = vmap t A" "vmap ?v B = vmap t B"
    by (rule page_write_maps(2); use t(7,8) in \<open>simp add: page_ok_def\<close>)+
  have spv: "spawning ?v c e child A B fl1 k" by (rule spawning_write [OF t(2,7,8)])
  have vB: "vmap ?v B stack_page AND PTE_P = 0" using t(5) free(2) stack_page_facts(1) by (simp add: W)
  have "fl1 \<noteq> []" using t(3) room by auto
  moreover have "vmap ?v A UTEMP = page2pa q OR 7" using mt by (simp add: W)
  moreover have "pp_ref (pages ?v q) = 1" using t(6) by (simp add: page_write_def)
  ultimately obtain x u fl' k' where u: "u_sys_page_map 0 UTEMP child stack_page 7 ?v = Done 0 x" "u_sys_page_unmap 0 UTEMP x = Done 0 u"
    "user_as u c A fl' k'" "\<forall>a < UTOP. vmap u A a = (if PGNUM a = PGNUM UTEMP then 0 else vmap ?v A a)"
    "\<forall>a < UTOP. vmap u B a = (if PGNUM a = PGNUM stack_page then page2pa q OR 7 else vmap ?v B a)"
    "pmem u q = pmem ?v q" "pp_ref (pages u q) = 1"
    using hand_over [OF spv _ q(1) _ _ vB] by blast
  have run: "init_stack child argv s = Done (Inr (stack_page + 4 * of_nat (?a - 2))) u"
    using init_stack_fills [OF sp t(1) argv fit f] u(1,2) by simp
  have mu: "vmap u B stack_page = page2pa q OR 7" using u(5) stack_page_facts(1) by simp
  have "pmem u q = args_page (pmem t q) args" using u(6) by simp
  note R = args_page_read [OF mu q(1) this fit argv_no_zero [OF argv]]
  have "?a < 1024" by (auto simp: args_word_def)
  hence "PGNUM (stack_page + 4 * of_nat (?a - 2)) = PGNUM stack_page"
    using page_at_words [OF stack_page_facts(2), of "?a - 2"] by simp
  thus ?thesis using run R u(3,4,5,7) t(4,5) unfolding W
    by (intro exI [of _ "stack_page + 4 * of_nat (?a - 2)"] exI [of _ "stack_page + 4 * of_nat ?a"] exI [of _ u]
        exI [of _ fl'] exI [of _ k'] conjI) simp_all
qed

text \<open>A vector of two arguments, \<open>ls\<close> and \<open>/\<close>, at the start of a page mapped at \<open>0x1000\<close>.\<close>

definition demo_vector :: "u32 \<Rightarrow> u32" where
  "demo_vector = (\<lambda>_. 0)(0 := 0x1010, 1 := 0x1013, 4 := 0x2F00736C)"

definition demo_args :: "u8 list list" where "demo_args = [[0x6C, 0x73], [0x2F]]"

lemma demo_vector_read:
  assumes m: "vmap s A 0x1000 = 0x9007" and p: "pmem s 9 = demo_vector"
  shows "argv_at (urd8 s A) (urd32 s A) 0x1000 demo_args"
proof -
  have v: "vmap s A (0x1000 + of_nat i) = 0x9007" "user_at s A (0x1000 + of_nat i)" if "i < 4096" for i
  proof -
    show "vmap s A (0x1000 + of_nat i) = 0x9007"
      using vmap_same_page [OF page_at(1) [of "0x1000", OF _ that]] m by (simp add: PGOFF_def)
    thus "user_at s A (0x1000 + of_nat i)"
      using that by (simp add: user_at_def word_less_nat_alt unat_word_ariths unat_of_nat)
  qed
  have P: "PGNUM 0x9007 = 9" "PGOFF 0x1000 = 0" by (simp_all add: PGNUM_def PGOFF_def)
  have r8: "urd8 s A (0x1000 + of_nat i) = Some (page_byte demo_vector i)" if "i < 4096" for i
    using v [OF that] P p page_at [OF P(2) that] byte_of_lane(1) [of "0x1000 + of_nat i" "of_nat i"]
    by (simp add: urd8_def ubyte_frame page_byte_def)
  have r32: "urd32 s A (0x1000 + 4 * of_nat w) = Some (demo_vector (of_nat w))" if "w < 1024" for w
    using v [of "4 * w"] P p page_at_words [OF P(2) that] that by (simp add: urd32_def)
  show ?thesis
    using r8 [of 16] r8 [of 17] r8 [of 18] r8 [of 19] r8 [of 20] r32 [of 0] r32 [of 1] r32 [of 2]
    by (simp add: demo_args_def demo_vector_def page_byte_def byte_of_def)
qed

lemma demo_spawning:
  obtains t child where "u_sys_exofork demo_cow = Done child t"
    "spawning t 0 3 child 0xF0008000 (frame_addr 3 0) [6, 10, 11] (\<lambda>_. 0)"
    "\<forall>a < UTOP. vmap t (frame_addr 3 0) a = 0" "vmap t 0xF0008000 = vmap demo_cow 0xF0008000"
  using exofork_forking [OF demo_cow_ready] forking_spawning by auto

theorem init_stack_args_witness:
  "\<exists>t child esp vec u. u_sys_exofork demo_cow = Done child t \<and>
     init_stack child 0x1000 (page_write 9 demo_vector t) = Done (Inr esp) u \<and>
     urd32 u (frame_addr 3 0) esp = Some 2 \<and> urd32 u (frame_addr 3 0) (esp + 4) = Some vec \<and>
     argv_at (urd8 u (frame_addr 3 0)) (urd32 u (frame_addr 3 0)) vec [[0x6C, 0x73], [0x2F]]"
proof -
  let ?A = "0xF0008000 :: u32" and ?B = "frame_addr 3 0"
  obtain t child where t: "u_sys_exofork demo_cow = Done child t" "spawning t 0 3 child ?A ?B [6, 10, 11] (\<lambda>_. 0)"
    "\<forall>a < UTOP. vmap t ?B a = 0" "vmap t ?A = vmap demo_cow ?A"
    by (rule demo_spawning)
  have l: "(0x1000 :: u32) < UTOP" by simp
  have P: "PGNUM 0x1000 = 1" "PGNUM 0x9007 = 9" by (simp_all add: PGNUM_def)
  have v: "vmap t ?A 0x1000 = 0x9007" using demo_cow_vmap [OF l] P t(4) by simp
  have v1: "vmap t ?A 0x1000 AND PTE_P \<noteq> 0" unfolding v by simp
  have both: "\<forall>va < UTOP. vmap t ?A va AND PTE_P \<noteq> 0 \<longrightarrow> page_ok t ?B [6, 10, 11] (PGNUM (vmap t ?A va))"
    using spawningD(7) [OF t(2)] unfolding pair_inv_def by blast
  have ok: "page_ok t ?A [6, 10, 11] 9" "page_ok t ?B [6, 10, 11] 9"
    using vm_wf_mapped [OF spawningD(11) [OF t(2)] l v1] both [rule_format, OF l v1] unfolding v P(2) by blast+
  let ?s = "page_write 9 demo_vector t"
  have W: "vmap ?s ?A = vmap t ?A" "vmap ?s ?B = vmap t ?B"
    by (rule page_write_maps(2); use ok in \<open>unfold page_ok_def, blast\<close>)+
  have argv: "argv_at (urd8 ?s ?A) (urd32 ?s ?A) 0x1000 demo_args"
    by (rule demo_vector_read) (use v W in simp_all)
  have fit: "args_fit demo_args" by (simp add: demo_args_def args_fit_def)
  have free: "vmap ?s ?A UTEMP AND PTE_P = 0" "vmap ?s ?B stack_page AND PTE_P = 0"
    using t(3,4) demo_cow_vmap [OF UTEMP_facts(1)] UTEMP_facts stack_page_facts(1) by (simp_all add: W)
  have room: "2 \<le> length [10, 11 :: u32]" by simp
  obtain esp vec u fl' k' where u: "init_stack child 0x1000 ?s = Done (Inr esp) u" "user_as u 0 ?A fl' k'"
    "urd32 u ?B esp = Some (of_nat (length demo_args))" "urd32 u ?B (esp + 4) = Some vec"
    "argv_at (urd8 u ?B) (urd32 u ?B) vec demo_args"
    using init_stack_args [OF spawning_write [OF t(2) ok] room free argv fit] by blast
  show ?thesis using t(1) u by (intro exI [of _ t] exI [of _ child] exI [of _ esp] exI [of _ vec] exI [of _ u])
    (simp add: demo_args_def)
qed

text \<open>Arguments that do not fit in the page are refused before anything is changed.\<close>

lemma init_stack_refuses:
  assumes cur: "cur_pgdir s = A" and argv: "argv_at (urd8 s A) (urd32 s A) argv args"
    and big: "\<not> args_fit args" and lim: "strings_len args \<le> 0x40000"
  shows "init_stack child argv s = Done (Inl (- E_NO_MEM)) s"
proof -
  let ?L = "strings_len args" and ?n = "length args"
  have n: "?n \<le> ?L" by (induction args) auto
  have small: "\<forall>bs \<in> set args. length bs < max_string" using strings_len_elem lim by (fastforce simp: max_string_def)
  have "?n < max_vector" using n lim by (simp add: max_vector_def)
  hence cnt: "count_args max_vector argv 0 0 s = Done (of_nat ?n, of_nat ?L) s"
    using count_args_at [OF cur, of argv 0 args max_vector 0] argv small by simp
  have r: "unat (UTEMP + PGSIZE - of_nat ?L) = 0x401000 - ?L"
    using lim by (simp add: unat_sub_if' unat_of_nat)
  let ?r = "ROUNDDOWN (UTEMP + PGSIZE - of_nat ?L) 4"
  have d: "unat ?r = (0x401000 - ?L) div 4 * 4" using r by (simp add: unat_ROUNDDOWN)
  have up: "x \<le> x div 4 * 4 + 3" for x :: nat by presburger
  have lo: "0x200000 + 4 * ?n \<le> unat ?r" using d n lim up [of "0x401000 - ?L"] by linarith
  have "unat (?r - 4 * (of_nat ?n + 1) - 8) = unat ?r - (4 * ?n + 12)"
  proof -
    have "4 * (of_nat ?n + 1) + 8 = (of_nat (4 * ?n + 12) :: u32)" by simp
    hence e: "?r - 4 * (of_nat ?n + 1) - 8 = ?r - of_nat (4 * ?n + 12)" by (simp only: diff_diff_eq)
    have k: "unat (of_nat (4 * ?n + 12) :: u32) = 4 * ?n + 12"
      using n lim by (simp add: unat_of_nat del: of_nat_add of_nat_mult)
    have "of_nat (4 * ?n + 12) \<le> ?r" unfolding word_le_nat_alt k using lo by linarith
    from unat_sub [OF this] show ?thesis unfolding e k .
  qed
  moreover have "unat ?r - (4 * ?n + 12) < 0x400000" using big d unfolding args_fit_def by auto
  ultimately have "?r - 4 * (of_nat ?n + 1) - 8 < UTEMP" by (simp add: word_less_nat_alt)
  thus ?thesis unfolding init_stack_def cnt kbind.simps prod.case Let_def by simp
qed

section \<open>The result of spawn\<close>

lemma spawn_start_stops: "spawn_start child ptf tf s \<noteq> Done r t"
  by (auto simp: spawn_start_def copy_shared_pages_def u_sys_env_set_trapframe_def usyscall_def syscall_unknown kbind_Done_iff)

lemma init_stack_error: "init_stack child argv s = Done (Inl r) t \<Longrightarrow> sint r < 0"
  by (auto simp: init_stack_def init_stack_fail_def Let_def kbind_Done_iff split: if_splits prod.splits)

text \<open>C38: no call of \<^verbatim>\<open>spawn\<close> gives a new environment: whenever it returns, its result is an error.  The kernel's
  dispatcher does not know \<^verbatim>\<open>SYS_env_set_trapframe\<close>, so that a call that got as far as starting the program
  stops in a panic.\<close>

theorem spawn_never_starts: "\<not> (\<exists>r t. spawn devs fsipc buf ebuf ptf prog argv s = Done r t \<and> 0 \<le> sint r)"
  by (auto simp: spawn_def spawn_fail_def Let_def kbind_Done_iff spawn_start_stops dest: init_stack_error split: if_splits sum.splits prod.splits)

end
