(* ===== verification/Smp.thy ===== *)
theory Smp
  imports TrapProps ForkSpec
begin

text \<open>
  All processors together.  A step of the machine is a trap of any kind on one processor (\<^verbatim>\<open>trap\<close>, from the
  saved registers to the return to user mode or to the halt), the start of a processor, or anything user
  programs do to memory.  The kernel lock makes the code of \<^verbatim>\<open>trap\<close> one step.  \<open>exclusive\<close> is the invariant:
  no environment is current on two processors, and none that is current can be picked by the scheduler or
  woken by a message.  Every step keeps it but three system calls, which are named.

  \<open>quiet\<close> is for code that does not touch what the invariant looks at, \<open>kpost\<close> for code that may also leave
  the kernel, where the invariant has to hold.
\<close>

section \<open>What the invariant looks at\<close>

definition sched_view ::
  "kst \<Rightarrow> (nat \<Rightarrow> nat option) \<times> nat \<times> (nat \<Rightarrow> env_stat) \<times> (nat \<Rightarrow> bool) \<times> (nat \<Rightarrow> nat option) \<times> nat option" where
  "sched_view s = (\<lambda>c. cpu_env (cpus s c), cpunum s, \<lambda>e. env_status (envs s e), \<lambda>e. env_ipc_recving (envs s e),
     \<lambda>e. env_link (envs s e), env_free_list s)"

lemma sched_viewD:
  assumes "sched_view t = sched_view s"
  shows "cpu_env (cpus t c) = cpu_env (cpus s c)" "cpunum t = cpunum s" "env_status (envs t e) = env_status (envs s e)"
    "env_ipc_recving (envs t e) = env_ipc_recving (envs s e)" "env_link (envs t e) = env_link (envs s e)"
    "env_free_list t = env_free_list s" "curenv t = curenv s" "env_rep t = env_rep s"
proof -
  have v: "(\<lambda>c. cpu_env (cpus t c)) = (\<lambda>c. cpu_env (cpus s c))" "cpunum t = cpunum s"
    "(\<lambda>e. env_status (envs t e)) = (\<lambda>e. env_status (envs s e))"
    "(\<lambda>e. env_ipc_recving (envs t e)) = (\<lambda>e. env_ipc_recving (envs s e))"
    "(\<lambda>e. env_link (envs t e)) = (\<lambda>e. env_link (envs s e))" "env_free_list t = env_free_list s"
    using assms by (simp_all add: sched_view_def)
  thus "cpu_env (cpus t c) = cpu_env (cpus s c)" "cpunum t = cpunum s" "env_status (envs t e) = env_status (envs s e)"
    "env_ipc_recving (envs t e) = env_ipc_recving (envs s e)" "env_link (envs t e) = env_link (envs s e)"
    "env_free_list t = env_free_list s" "curenv t = curenv s" for c e
    by (simp_all add: curenv_def fun_eq_iff)
  show "env_rep t = env_rep s" unfolding env_rep_def v(5,6) using v(3) by (simp add: fun_eq_iff)
qed

definition quiet :: "kst \<Rightarrow> ('a, kst) kres \<Rightarrow> bool" where
  "quiet s m = (case m of Done r t \<Rightarrow> sched_view t = sched_view s | Panic _ \<Rightarrow> True | NoReturn x t \<Rightarrow> x = Spinning)"

lemma quiet_simps [simp]:
  "quiet s (Done r t) = (sched_view t = sched_view s)" "quiet s (Panic m)" "quiet s (NoReturn x t) = (x = Spinning)"
  by (simp_all add: quiet_def)

lemma quiet_trans: "sched_view t = sched_view s \<Longrightarrow> quiet t m \<Longrightarrow> quiet s m"
  by (cases m) simp_all

lemma quiet_bind:
  "quiet s m \<Longrightarrow> (\<And>r t. sched_view t = sched_view s \<Longrightarrow> quiet t (f r t)) \<Longrightarrow> quiet s (kbind m f)"
  by (cases m) (auto intro: quiet_trans)

lemma view_rest: "rest t = rest s \<Longrightarrow> sched_view t = sched_view s"
proof -
  assume r: "rest t = rest s"
  have "sched_view (rest x) = sched_view x" for x by (simp add: sched_view_def rest_def)
  thus ?thesis using r by metis
qed

lemma view_steps [simp]:
  "sched_view (store32 a v s) = sched_view s" "sched_view (upd_page p f s) = sched_view s"
  "sched_view (page_incref p s) = sched_view s" "sched_view (zero_page a s) = sched_view s"
  "sched_view (s\<lparr>page_free_list := l\<rparr>) = sched_view s" "sched_view (tlb_invalidate g va s) = sched_view s"
  using view_rest rest_steps by blast+

lemma view_updates [simp]:
  "sched_view (s\<lparr>pmem := m\<rparr>) = sched_view s" "sched_view (s\<lparr>klock := k\<rparr>) = sched_view s"
  "sched_view (s\<lparr>cr3 := r\<rparr>) = sched_view s" "sched_view (s\<lparr>user_mem_check_addr := a\<rparr>) = sched_view s"
  "sched_view (lcr3 pa s) = sched_view s" "sched_view (set_cpu_status c s) = sched_view s"
  "sched_view (copy_page a b s) = sched_view s" "sched_view (store8 a w s) = sched_view s"
  by (simp_all add: sched_view_def lcr3_def set_cpu_status_def copy_page_def store8_def Let_def fun_eq_iff)

text \<open>Assignments to the other fields of an environment.\<close>

lemma view_upd_env:
  assumes "\<And>v. env_status (f v) = env_status v" "\<And>v. env_ipc_recving (f v) = env_ipc_recving v" "\<And>v. env_link (f v) = env_link v"
  shows "sched_view (upd_env e f s) = sched_view s"
  using assms by (simp add: sched_view_def upd_env_def fun_eq_iff)

named_theorems quiet_ops

lemma quiet_kva [quiet_ops]: "quiet s (PADDR a s)" "quiet s (KADDR a s)" "quiet s (page2kva a s)" "quiet s (pa2page a s)"
  "quiet s (kassert b m s)" "quiet s (lock_kernel s)"
  by (simp_all add: PADDR_def KADDR_def page2kva_def pa2page_def kassert_def lock_kernel_def split: option.splits)

lemma quiet_page_alloc [quiet_ops]: "quiet s (page_alloc f s)"
  by (auto simp: page_alloc_def Let_def split: option.splits intro!: quiet_bind quiet_trans [OF _ quiet_kva(3)])

lemma quiet_page_free [quiet_ops]: "quiet s (page_free p s)"
  by (simp add: page_free_def)

lemma quiet_page_decref [quiet_ops]: "quiet s (page_decref p s)"
  by (auto simp: page_decref_def Let_def intro!: quiet_trans [OF _ quiet_page_free])

lemma quiet_walk [quiet_ops]: "quiet s (pgdir_walk g va c s)"
  by (auto simp: pgdir_walk_def Let_def split: option.splits
      intro!: quiet_bind [OF quiet_page_alloc] quiet_bind [OF quiet_trans [OF _ quiet_kva(2)]] quiet_kva)

lemma quiet_lookup [quiet_ops]: "quiet s (page_lookup g va s)"
  by (auto simp: page_lookup_def intro!: quiet_bind [OF quiet_walk] quiet_bind [OF quiet_kva(4)])

lemma quiet_remove [quiet_ops]: "quiet s (page_remove g va s)"
  by (auto simp: page_remove_def Let_def split: option.splits
      intro!: quiet_bind [OF quiet_lookup] quiet_bind [OF quiet_walk] quiet_bind [OF quiet_page_decref]
        quiet_bind [OF quiet_trans [OF _ quiet_page_decref]])

lemma quiet_insert [quiet_ops]: "quiet s (page_insert g pp va perm s)"
  by (auto simp: page_insert_def Let_def intro!: quiet_bind [OF quiet_walk] quiet_bind [OF quiet_trans [OF _ quiet_remove]])

lemma quiet_check [quiet_ops]: "quiet s (user_mem_check e va len perm s)"
proof -
  have "quiet s (user_mem_check_loop n g v perm i f s)" for n g v i f and s :: kst
  proof (induction n arbitrary: i s)
    case (Suc n) thus ?case by (auto intro!: quiet_bind [OF quiet_walk])
  qed simp
  thus ?thesis by (simp add: user_mem_check_def Let_def)
qed

lemma quiet_vstore [quiet_ops]: "quiet s (vstore8 va b s)" "quiet s (vstore32 va w s)" "quiet s (vstores xs s)"
proof -
  show v8: "quiet s (vstore8 va b s)" for va b s by (simp add: vstore8_def Let_def)
  show v32: "quiet s (vstore32 va w s)" for va w s by (auto simp: vstore32_def intro!: quiet_bind v8)
  show "quiet s (vstores xs s)"
    by (induction "xs" arbitrary: s) (auto intro!: quiet_bind v32)
qed

lemma quiet_envid2env [quiet_ops]: "quiet s (envid2env envid c s)"
  by (simp add: envid2env_def Let_def split: option.splits)

lemma quiet_tables: "quiet s (unmap_table g d pt xs s)" "quiet s (free_tables e ds s)"
proof -
  show u: "quiet s (unmap_table g d pt xs s)" for g d pt xs s
    by (induction xs arbitrary: s) (auto intro!: quiet_bind [OF quiet_remove])
  show "quiet s (free_tables e ds s)"
  proof (induction ds arbitrary: s)
    case (Cons d ds)
    thus ?case
      by (auto simp: Let_def intro!: quiet_bind [OF quiet_kva(2)] quiet_bind [OF u] quiet_bind [OF quiet_page_decref]
          quiet_bind [OF quiet_trans [OF _ quiet_kva(4)]])
  qed simp
qed

lemma view_console:
  "sched_view (cputchar c s) = sched_view s" "sched_view (snd (cons_getc s)) = sched_view s"
proof -
  have u: "sched_view (s\<lparr>crt_pos := p\<rparr>) = sched_view s" "sched_view (s\<lparr>crt_buf := f\<rparr>) = sched_view s"
    "sched_view (s\<lparr>cons_out := o'\<rparr>) = sched_view s" "sched_view (s\<lparr>cons_buf := b\<rparr>) = sched_view s"
    "sched_view (s\<lparr>cons_wpos := w\<rparr>) = sched_view s" "sched_view (s\<lparr>cons_rpos := w\<rparr>) = sched_view s"
    "sched_view (s\<lparr>serial_in := i\<rparr>) = sched_view s" "sched_view (s\<lparr>kbd_in := i\<rparr>) = sched_view s"
    "sched_view (s\<lparr>kbd_shift := w\<rparr>) = sched_view s" for p f o' b w i s
    by (simp_all add: sched_view_def)
  have scroll: "sched_view (cga_scroll s) = sched_view s" for s
    by (simp add: cga_scroll_def u)
  have p1: "sched_view (cons_putc1 c s) = sched_view s" for c s
    by (simp add: cons_putc1_def cga_putc1_def cga_newline_def serial_putc_def Let_def scroll u)
  have "sched_view ((cons_putc1 c ^^ n) s) = sched_view s" for n c s by (induction n) (simp_all add: p1)
  thus "sched_view (cputchar c s) = sched_view s"
    by (simp add: cputchar_def cons_putc_def scroll p1 serial_putc_def u)
  have store: "sched_view (cons_store c s) = sched_view s" for c s by (simp add: cons_store_def Let_def u)
  have "sched_view (fold cons_store cs s) = sched_view s" for cs s by (induction cs arbitrary: s) (simp_all add: store)
  hence ser: "sched_view (serial_intr s) = sched_view s" for s by (simp add: serial_intr_def u)
  have "sched_view (snd (kbd_proc_data d s)) = sched_view s" for d s
    by (simp add: kbd_proc_data_def Let_def u)
  hence "sched_view (kbd_drain ds s) = sched_view s" for ds s
    by (induction ds arbitrary: s) (simp_all add: store split: prod.splits, metis snd_conv store)
  hence kbd: "sched_view (kbd_intr s) = sched_view s" for s by (simp add: kbd_intr_def u)
  show "sched_view (snd (cons_getc s)) = sched_view s"
    using ser kbd by (auto simp: cons_getc_def Let_def cons_fetch_def u split: option.splits)
qed

lemma quiet_print [quiet_ops]: "quiet s (vcprintf_kern fmt ap s)" "quiet s (sys_cgetc s)"
proof -
  have "sched_view (fold cputchar out s) = sched_view s" for out s
    by (induction out arbitrary: s) (simp_all add: view_console)
  thus "quiet s (vcprintf_kern fmt ap s)"
    by (auto simp: vcprintf_kern_def kernel_fault_def split: sum.splits perr.splits)
  show "quiet s (sys_cgetc s)"
    using view_console(2) [of s] by (cases "cons_getc s") (simp add: sys_cgetc_def)
qed

section \<open>The invariant\<close>

text \<open>\<open>in_kernel\<close> is what holds while a processor runs in the kernel, where its own environment may have any status;
  \<open>exclusive\<close> adds that environment's.  A receiver waits, so that a message never wakes an environment that is
  running or that the scheduler can pick.\<close>

definition in_kernel :: "kst \<Rightarrow> bool" where
  "in_kernel s \<longleftrightarrow>
     (\<forall>c d e. cpu_env (cpus s c) = Some e \<longrightarrow> cpu_env (cpus s d) = Some e \<longrightarrow> c = d) \<and>
     (\<forall>c e. c \<noteq> cpunum s \<longrightarrow> cpu_env (cpus s c) = Some e \<longrightarrow> env_status (envs s e) \<in> {ENV_RUNNING, ENV_DYING}) \<and>
     (\<forall>c e. cpu_env (cpus s c) = Some e \<longrightarrow> e < NENV \<and> env_status (envs s e) \<noteq> ENV_FREE) \<and>
     (\<forall>e. env_ipc_recving (envs s e) \<longrightarrow> env_status (envs s e) \<in> {ENV_FREE, ENV_NOT_RUNNABLE}) \<and>
     (\<exists>el. env_rep s el)"

definition exclusive :: "kst \<Rightarrow> bool" where
  "exclusive s \<longleftrightarrow> in_kernel s \<and> (\<forall>e. curenv s = Some e \<longrightarrow> env_status (envs s e) \<in> {ENV_RUNNING, ENV_DYING})"

lemma view_cong:
  assumes "sched_view t = sched_view s" shows "in_kernel t = in_kernel s" "exclusive t = exclusive s"
  unfolding exclusive_def in_kernel_def by (simp_all add: sched_viewD [OF assms])

lemmas view_keeps = view_cong(1) [THEN iffD2] view_cong(2) [THEN iffD2]

fun kpost :: "('a \<Rightarrow> kst \<Rightarrow> bool) \<Rightarrow> ('a, kst) kres \<Rightarrow> bool" where
  "kpost Q (Done r t) = Q r t"
| "kpost Q (Panic m) = True"
| "kpost Q (NoReturn x t) = (x = Spinning \<or> x = ToMonitor \<or> exclusive t)"

lemma kpost_bind: "kpost P m \<Longrightarrow> (\<And>r t. P r t \<Longrightarrow> kpost Q (f r t)) \<Longrightarrow> kpost Q (kbind m f)"
  by (cases m) simp_all

lemma kpost_quiet: "quiet s m \<Longrightarrow> (\<And>r t. m = Done r t \<Longrightarrow> sched_view t = sched_view s \<Longrightarrow> kpost Q (f r t)) \<Longrightarrow> kpost Q (kbind m f)"
  by (cases m) simp_all

lemma quiet_kpost: "quiet s m \<Longrightarrow> (\<And>r t. sched_view t = sched_view s \<Longrightarrow> Q r t) \<Longrightarrow> kpost Q m"
  by (cases m) simp_all

lemma kpost_mono: "kpost P m \<Longrightarrow> (\<And>r t. P r t \<Longrightarrow> Q r t) \<Longrightarrow> kpost Q m"
  by (cases m) simp_all

section \<open>The scheduler\<close>

lemma in_kernelD:
  assumes "in_kernel s"
  shows "cpu_env (cpus s c) = Some e \<Longrightarrow> cpu_env (cpus s d) = Some e \<Longrightarrow> c = d"
    "c \<noteq> cpunum s \<Longrightarrow> cpu_env (cpus s c) = Some e \<Longrightarrow> env_status (envs s e) \<in> {ENV_RUNNING, ENV_DYING}"
    "cpu_env (cpus s c) = Some e \<Longrightarrow> e < NENV" "cpu_env (cpus s c) = Some e \<Longrightarrow> env_status (envs s e) \<noteq> ENV_FREE"
    "env_ipc_recving (envs s e) \<Longrightarrow> env_status (envs s e) \<in> {ENV_FREE, ENV_NOT_RUNNABLE}" "\<exists>el. env_rep s el"
  using assms unfolding in_kernel_def by blast+

lemma in_kernel_step:
  assumes "in_kernel s" "cpunum t = cpunum s" "\<And>c. c \<noteq> cpunum s \<Longrightarrow> cpu_env (cpus t c) = cpu_env (cpus s c)"
    and own: "\<And>e. curenv t = Some e \<Longrightarrow> e < NENV \<and> env_status (envs t e) \<noteq> ENV_FREE \<and>
      (\<forall>c. c \<noteq> cpunum s \<longrightarrow> cpu_env (cpus s c) \<noteq> Some e)"
    and other: "\<And>c e. c \<noteq> cpunum s \<Longrightarrow> cpu_env (cpus s c) = Some e \<Longrightarrow> env_status (envs t e) \<in> {ENV_RUNNING, ENV_DYING}"
    and recv: "\<And>e. env_ipc_recving (envs t e) \<Longrightarrow> env_status (envs t e) \<in> {ENV_FREE, ENV_NOT_RUNNABLE}"
    and rep: "\<exists>el. env_rep t el"
  shows "in_kernel t"
proof -
  have o: "e < NENV \<and> env_status (envs t e) \<noteq> ENV_FREE" if "cpu_env (cpus t c) = Some e" for c e
  proof (cases "c = cpunum s")
    case True
    thus ?thesis using own [of e] that assms(2) by (simp add: curenv_def)
  next
    case False
    hence "cpu_env (cpus s c) = Some e" using that assms(3) by simp
    thus ?thesis using other [OF False] in_kernelD(3) [OF assms(1)] by force
  qed
  have d: "c = d" if "cpu_env (cpus t c) = Some e" "cpu_env (cpus t d) = Some e" for c d e
  proof (rule ccontr)
    assume n: "c \<noteq> d"
    have "curenv t = Some e" if "cpunum s = c \<or> cpunum s = d"
      using that \<open>cpu_env (cpus t c) = Some e\<close> \<open>cpu_env (cpus t d) = Some e\<close> assms(2) by (auto simp: curenv_def)
    hence "c \<noteq> cpunum s \<and> d \<noteq> cpunum s" using own [of e] that n assms(3) by metis
    thus False using that n assms(3) in_kernelD(1) [OF assms(1)] by metis
  qed
  show ?thesis unfolding in_kernel_def using d o other recv rep assms(2,3) by (metis (no_types, lifting))
qed

lemma env_rep_keep:
  assumes "env_rep s el" "env_free_list t = env_free_list s"
    "\<And>x. x \<in> set el \<Longrightarrow> env_link (envs t x) = env_link (envs s x) \<and> env_status (envs t x) = ENV_FREE"
  shows "env_rep t el"
proof -
  have "chain (\<lambda>e. env_link (envs t e)) (env_free_list s) el"
    using assms(1,3) by (subst chain_cong [where nxt' = "\<lambda>x. env_link (envs s x)"]) (auto simp: env_rep_def)
  thus ?thesis using assms by (simp add: env_rep_def)
qed

lemma in_kernel_upd:
  assumes "in_kernel s" "env_status (envs s e) \<noteq> ENV_FREE" "v = f (envs s e)" "env_link v = env_link (envs s e)"
    "env_status v \<noteq> ENV_FREE" "env_ipc_recving v \<longrightarrow> env_status v = ENV_NOT_RUNNABLE"
    "\<And>c. c \<noteq> cpunum s \<Longrightarrow> cpu_env (cpus s c) = Some e \<Longrightarrow> env_status v \<in> {ENV_RUNNING, ENV_DYING}"
  shows "in_kernel (upd_env e f s)"
proof -
  let ?t = "upd_env e f s"
  have v: "envs ?t x = (if x = e then v else envs s x)" for x using assms(3) by (simp add: envs_upd_env)
  have f: "cpus ?t = cpus s" "cpunum ?t = cpunum s" "env_free_list ?t = env_free_list s" by (simp_all add: upd_env_def)
  obtain el where "env_rep s el" using in_kernelD(6) [OF assms(1)] by blast
  hence "env_rep ?t el" by (rule env_rep_keep) (use v assms(2,4) f \<open>env_rep s el\<close> in \<open>auto simp: env_rep_def\<close>)
  moreover have "x < NENV \<and> env_status (envs ?t x) \<noteq> ENV_FREE \<and> (\<forall>c. c \<noteq> cpunum s \<longrightarrow> cpu_env (cpus s c) \<noteq> Some x)"
    if "curenv ?t = Some x" for x
  proof -
    have c: "cpu_env (cpus s (cpunum s)) = Some x" using that by (simp add: curenv_def f)
    show ?thesis using in_kernelD(1,3,4) [OF assms(1)] c v assms(5) by (metis (full_types))
  qed
  ultimately show ?thesis
    using assms in_kernelD(2,5) [OF assms(1)] v f
    by (intro in_kernel_step [OF assms(1)]) (auto split: if_splits)
qed

lemma switched_exclusive:
  assumes "in_kernel s" "e < NENV" "env_status (envs s e) = ENV_RUNNABLE \<or>
    curenv s = Some e \<and> env_status (envs s e) \<in> {ENV_RUNNING, ENV_DYING}"
  shows "exclusive (switched e s)"
proof -
  let ?t = "switched e s"
  have fields: "env_link (envs ?t x) = env_link (envs s x)" "env_ipc_recving (envs ?t x) = env_ipc_recving (envs s x)"
    "env_free_list ?t = env_free_list s" for x
    by (auto simp: switched_def Let_def requeue_def upd_env_def set_curenv_def split: option.splits)
  have nf: "env_status (envs s e) \<noteq> ENV_FREE" "\<not> env_ipc_recving (envs s e)"
    using assms(3) in_kernelD(5) [OF assms(1), of e] by auto
  have alone: "cpu_env (cpus s c) \<noteq> Some e" if "c \<noteq> cpunum s" for c
    using that assms(3) in_kernelD(1,2) [OF assms(1)] unfolding curenv_def by (metis env_stat.distinct insertE singletonD)
  obtain el where "env_rep s el" using in_kernelD(6) [OF assms(1)] by blast
  hence "env_rep ?t el"
    by (rule env_rep_keep) (use fields nf \<open>env_rep s el\<close> in \<open>auto simp: switched_status env_rep_def\<close>)
  moreover have "env_status (envs ?t x) \<in> {ENV_RUNNING, ENV_DYING}" if "c \<noteq> cpunum s" "cpu_env (cpus s c) = Some x" for c x
  proof -
    have "curenv s \<noteq> Some x" using that in_kernelD(1) [OF assms(1)] unfolding curenv_def by metis
    thus ?thesis using in_kernelD(2) [OF assms(1) that] by (simp add: switched_status)
  qed
  moreover have "env_status (envs ?t x) \<in> {ENV_FREE, ENV_NOT_RUNNABLE}" if "env_ipc_recving (envs ?t x)" for x
    using that in_kernelD(5) [OF assms(1), of x] nf(2) by (auto simp: fields switched_status)
  ultimately have "in_kernel ?t"
    using alone assms(2) by (intro in_kernel_step [OF assms(1)]) (auto simp: switched_status)
  thus ?thesis by (simp add: exclusive_def switched_status)
qed

lemma env_run_post:
  assumes "in_kernel s" "e < NENV" "env_status (envs s e) = ENV_RUNNABLE \<or>
    curenv s = Some e \<and> env_status (envs s e) \<in> {ENV_RUNNING, ENV_DYING}"
  shows "kpost Q (env_run e s)"
proof (cases "klock s = Some (cpunum s) \<and> KERNBASE \<le> env_pgdir (envs s e)")
  case True
  thus ?thesis using switched_exclusive [OF assms] by (simp add: env_run_enters)
next
  case False
  thus ?thesis using requeue_def [of s, symmetric]
    by (auto simp: env_run_def Let_def PADDR_def unlock_kernel_def lcr3_def set_curenv_def upd_env_def)
qed

lemma drop_curenv:
  assumes "in_kernel s" shows "exclusive (set_curenv None s)" "in_kernel (set_curenv None s)"
proof -
  have "env_rep (set_curenv None s) = env_rep s" by (simp add: fun_eq_iff env_rep_def set_curenv_def)
  hence "in_kernel (set_curenv None s)"
    using in_kernelD [OF assms]
    by (intro in_kernel_step [OF assms]) (auto simp: set_curenv_def curenv_def)
  thus "exclusive (set_curenv None s)" "in_kernel (set_curenv None s)" by (simp_all add: exclusive_def)
qed

lemma sched_halt_post:
  assumes "in_kernel s" shows "kpost Q (sched_halt s)"
proof -
  have "exclusive (set_cpu_status c (lcr3 pa (set_curenv None s))\<lparr>klock := k\<rparr>)" for c pa k
    by (rule view_cong(2) [THEN iffD2, OF _ drop_curenv(1) [OF assms]]) simp
  thus ?thesis by (simp add: sched_halt_def Let_def PADDR_def unlock_kernel_def)
qed

lemma sched_yield_post:
  assumes "in_kernel s" shows "kpost Q (sched_yield s)"
proof (cases "sched_scan (sched_start s) [0..<NENV] s")
  case (Some e)
  hence "e < 1024" "env_status (envs s e) = ENV_RUNNABLE" using sched_scan_Some [of "sched_start s" 0 NENV s e] by auto
  thus ?thesis using Some env_run_post [OF assms, of e Q] by (simp add: sched_yield_def)
next
  case None
  have "kpost Q (env_run c s)" if "curenv s = Some c" "env_status (envs s c) = ENV_RUNNING" for c
    using that in_kernelD(3) [OF assms, of "cpunum s" c] by (intro env_run_post [OF assms]) (auto simp: curenv_def)
  thus ?thesis using None sched_halt_post [OF assms, of Q] by (simp add: sched_yield_def split: option.splits)
qed


section \<open>Creating and destroying environments\<close>

lemma env_free_view: "kpost (\<lambda>_ t. sched_view t = sched_view (env_list_push e s)) (env_free e s)"
proof -
  have p: "sched_view (env_list_push e t) = sched_view (env_list_push e s)" if "sched_view t = sched_view s" for t
    using sched_viewD [OF that] by (auto simp: sched_view_def env_list_push_def envs_upd_env upd_env_def fun_eq_iff)
  have g: "sched_view (upd_env e (\<lambda>v. v\<lparr>env_pgdir := 0\<rparr>) t) = sched_view t" for t by (rule view_upd_env) simp_all
  have c: "quiet s (if curenv s = Some e then kbind (PADDR (kern_pgdir s) s) (\<lambda>pa s. Done () (lcr3 pa s)) else Done () s)"
    by (simp add: quiet_bind [OF quiet_kva(1)])
  show ?thesis unfolding env_free_def Let_def
    apply (rule kpost_quiet [OF c], rule kpost_quiet [OF quiet_tables(2)], rule kpost_quiet [OF quiet_kva(1)])
    apply (rule kpost_quiet [OF quiet_kva(4)], rule kpost_quiet [OF quiet_page_decref])
    apply (simp only: kpost.simps, rule p, simp only: g)
    done
qed

lemma env_free_post:
  assumes "in_kernel s" "e < NENV" "env_status (envs s e) \<noteq> ENV_FREE"
    and alone: "\<And>c. c \<noteq> cpunum s \<Longrightarrow> cpu_env (cpus s c) \<noteq> Some e"
  shows "kpost (\<lambda>_ t. in_kernel (set_curenv None t) \<and> curenv t = curenv s \<and> (curenv s \<noteq> Some e \<longrightarrow> in_kernel t)) (env_free e s)"
proof -
  have "in_kernel (set_curenv None t) \<and> curenv t = curenv s \<and> (curenv s \<noteq> Some e \<longrightarrow> in_kernel t)"
    if "sched_view t = sched_view (env_list_push e s)" for t
  proof -
    note v = sched_viewD [OF that]
    have k: "cpus (env_list_push e s) = cpus s" "cpunum (env_list_push e s) = cpunum s"
      "env_status (envs (env_list_push e s) x) = (if x = e then ENV_FREE else env_status (envs s x))"
      "env_ipc_recving (envs (env_list_push e s) x) = env_ipc_recving (envs s x)" for x
      by (simp_all add: env_list_push_def upd_env_def)
    obtain el where el: "env_rep s el" using in_kernelD(6) [OF assms(1)] by blast
    hence "e \<notin> set el" using assms(3) by (auto simp: env_rep_def)
    hence r: "env_rep t (e # el)" using env_rep_push [OF el _ assms(2)] v(8) by simp
    hence "env_rep (set_curenv None t) (e # el)" by (simp add: env_rep_def set_curenv_def)
    hence "in_kernel (set_curenv None t)"
      using alone in_kernelD(2,5) [OF assms(1)] v k
      by (intro in_kernel_step [OF assms(1)]) (auto simp: set_curenv_def curenv_def)
    moreover have "in_kernel t" if "curenv s \<noteq> Some e"
      using alone in_kernelD(1-5) [OF assms(1)] r v k that
      by (intro in_kernel_step [OF assms(1)]) (auto simp: curenv_def)
    ultimately show ?thesis using v(7) k by (simp add: curenv_def)
  qed
  thus ?thesis using env_free_view by (rule kpost_mono [rotated])
qed

text \<open>An environment that another processor runs can be marked as dying, but it must not be freed.\<close>

lemma env_destroy_post:
  assumes "in_kernel s" "e < NENV" "env_status (envs s e) \<noteq> ENV_FREE"
    "\<And>c. c \<noteq> cpunum s \<Longrightarrow> cpu_env (cpus s c) = Some e \<Longrightarrow> env_status (envs s e) \<noteq> ENV_DYING"
  shows "kpost (\<lambda>_ t. in_kernel t \<and> curenv s \<noteq> Some e) (env_destroy e s)"
proof (cases "env_status (envs s e) = ENV_RUNNING \<and> curenv s \<noteq> Some e")
  case True
  have "in_kernel (upd_env e (\<lambda>v. v\<lparr>env_status := ENV_DYING\<rparr>) s)"
    using True in_kernelD(5) [OF assms(1), of e] by (intro in_kernel_upd [OF assms(1,3) refl]) auto
  thus ?thesis using True by (simp add: env_destroy_def)
next
  case False
  have "cpu_env (cpus s c) \<noteq> Some e" if "c \<noteq> cpunum s" for c
    using False assms(4) in_kernelD(1,2) [OF assms(1)] that unfolding curenv_def by (metis insertE singletonD)
  note post = env_free_post [OF assms(1-3) this]
  have "kpost (\<lambda>_ t. in_kernel t \<and> curenv s \<noteq> Some e)
      (kbind (env_free e s) (\<lambda>_ s. if curenv s = Some e then sched_yield (set_curenv None s) else Done () s))"
    by (rule kpost_bind [OF post]) (use sched_yield_post in auto)
  thus ?thesis using False by (simp add: env_destroy_def)
qed

text \<open>The environment of the processor itself: no other processor runs it.\<close>

lemma own_env:
  assumes "in_kernel s" "curenv s = Some c"
  shows "d \<noteq> cpunum s \<Longrightarrow> cpu_env (cpus s d) \<noteq> Some c"
  using assms in_kernelD(1) [OF assms(1)] unfolding curenv_def by metis

lemma env_destroy_own:
  assumes "in_kernel s" "curenv s = Some c" "c < NENV" "env_status (envs s c) \<noteq> ENV_FREE"
  shows "kpost Q (env_destroy c s)"
  using env_destroy_post [OF assms(1,3,4)] own_env [OF assms(1,2)] assms(2) by (auto elim!: kpost_mono)

text \<open>A new environment comes from the free list, so no processor runs it.\<close>

lemma env_alloc_post:
  assumes "in_kernel s"
  shows "kpost (\<lambda>r t. in_kernel t \<and> (\<forall>x. curenv t = Some x \<longrightarrow> curenv s = Some x \<and>
      env_status (envs t x) = env_status (envs s x)) \<and> (\<forall>e. r = Inr e \<longrightarrow> env_status (envs t e) = ENV_RUNNABLE \<and>
    \<not> env_ipc_recving (envs t e) \<and> (\<forall>c. cpu_env (cpus t c) \<noteq> Some e))) (env_alloc parent s)"
proof (cases "env_free_list s")
  case None
  thus ?thesis using assms by (simp add: env_alloc_def)
next
  case (Some e)
  let ?f = "\<lambda>v. v\<lparr>env_id := new_env_id (env_id v) e, env_parent_id := parent, env_type := ENV_TYPE_USER,
    env_status := ENV_RUNNABLE, env_runs := 0, env_tf := fresh_tf, env_pgfault_upcall := 0, env_ipc_recving := False\<rparr>"
  obtain fl where fl: "env_rep s fl" using in_kernelD(6) [OF assms] by blast
  then obtain el where el: "env_rep s (e # el)" using Some by (cases fl) (auto simp: env_rep_def)
  have e: "env_status (envs s e) = ENV_FREE" "e \<notin> set el" "env_rep (env_list_pop e s) el"
    using el env_rep_pop [OF el] by (simp_all add: env_rep_def)
  have free: "cpu_env (cpus s c) \<noteq> Some e" for c using in_kernelD(4) [OF assms] e(1) by blast
  have q: "quiet s (env_setup_vm e s)"
  proof -
    have g: "sched_view (upd_env e (\<lambda>v. v\<lparr>env_pgdir := g\<rparr>) t) = sched_view t" for g t by (rule view_upd_env) simp_all
    show ?thesis unfolding env_setup_vm_def Let_def
      by (auto simp: g split: option.splits intro!: quiet_bind [OF quiet_page_alloc]
          quiet_bind [OF quiet_trans [OF _ quiet_kva(3)]] quiet_bind [OF quiet_trans [OF _ quiet_kva(1)]])
  qed
  have "in_kernel (env_list_pop e (upd_env e ?f t)) \<and> (\<forall>c. cpu_env (cpus t c) \<noteq> Some e) \<and> curenv t \<noteq> Some e"
    if t: "sched_view t = sched_view s" for t
  proof -
    note v = sched_viewD [OF t]
    let ?t = "env_list_pop e (upd_env e ?f t)"
    have k: "cpus ?t = cpus t" "cpunum ?t = cpunum t" "envs ?t x = (if x = e then ?f (envs t e) else envs t x)"
      "env_free_list ?t = env_link (envs s e)" for x
      by (simp_all add: env_list_pop_def upd_env_def v)
    have "env_rep ?t el"
      by (rule env_rep_keep [OF e(3)]) (use e(2,3) k v in \<open>auto simp: env_list_pop_def env_rep_def\<close>)
    hence "in_kernel ?t"
      using in_kernelD [OF assms] free v k
      by (intro in_kernel_step [OF assms]) (auto simp: curenv_def split: if_splits)
    thus ?thesis using free v by (simp add: curenv_def)
  qed
  note pop = this
  have c: "curenv (env_list_pop e (upd_env e ?f t)) = curenv t" for t by (simp add: curenv_def env_list_pop_def upd_env_def)
  have st: "envs (env_list_pop e (upd_env e ?f t)) x = (if x = e then ?f (envs t e) else envs t x)" for t x
    by (simp add: env_list_pop_def envs_upd_env)
  show ?thesis unfolding env_alloc_def Some option.case
  proof (rule kpost_quiet [OF q])
    fix r t
    assume t: "sched_view t = sched_view s"
    note v = sched_viewD [OF t]
    have "cpus (env_list_pop e (upd_env e ?f t)) = cpus t" by (simp add: env_list_pop_def upd_env_def)
    thus "kpost (\<lambda>r t. in_kernel t \<and> (\<forall>x. curenv t = Some x \<longrightarrow> curenv s = Some x \<and>
        env_status (envs t x) = env_status (envs s x)) \<and> (\<forall>e. r = Inr e \<longrightarrow> env_status (envs t e) = ENV_RUNNABLE \<and>
        \<not> env_ipc_recving (envs t e) \<and> (\<forall>c. cpu_env (cpus t c) \<noteq> Some e)))
      (if sint r < 0 then Done (Inl r) t else let s = upd_env e ?f t in Done (Inr e) (env_list_pop e s))"
      using pop [OF t] view_keeps(1) [OF t assms] v(3,7) c st by (auto simp: Let_def)
  qed
qed

section \<open>System calls\<close>

text \<open>The calls that can break the invariant: setting the status of an environment that another processor runs or
  that waits for a message, and destroying for the second time an environment that another processor runs.\<close>

definition runs_elsewhere :: "kst \<Rightarrow> nat \<Rightarrow> bool" where
  "runs_elsewhere s e \<longleftrightarrow> (\<exists>c. c \<noteq> cpunum s \<and> cpu_env (cpus s c) = Some e)"

definition harmless :: "u32 \<Rightarrow> u32 \<Rightarrow> kst \<Rightarrow> bool" where
  "harmless syscallno envid s \<longleftrightarrow> (case envid2env envid True s of
     Done (Inr (Some e)) _ \<Rightarrow>
       (syscallno = SYS_env_set_status \<longrightarrow> \<not> env_ipc_recving (envs s e) \<and> \<not> runs_elsewhere s e) \<and>
       (syscallno = SYS_env_destroy \<longrightarrow> env_status (envs s e) = ENV_DYING \<longrightarrow> \<not> runs_elsewhere s e)
   | _ \<Rightarrow> True)"

lemma exclusiveD: "exclusive s \<Longrightarrow> in_kernel s"
  "exclusive s \<Longrightarrow> curenv s = Some c \<Longrightarrow> c < NENV \<and> env_status (envs s c) \<in> {ENV_RUNNING, ENV_DYING} \<and> \<not> env_ipc_recving (envs s c)"
  unfolding exclusive_def using in_kernelD(3) [of s "cpunum s" c] in_kernelD(5) [of s c] by (auto simp: curenv_def)

lemma envid2env_target:
  assumes "in_kernel s" "envid2env envid cp s = Done (Inr (Some e)) t"
  shows "t = s" "e < NENV" "env_status (envs s e) \<noteq> ENV_FREE"
proof -
  have c: "envid = 0 \<Longrightarrow> curenv s = Some e \<and> t = s" using assms(2) by (auto simp: envid2env_def)
  show "t = s" using c envid2env_Inr(1) [OF assms(2)] by blast
  show "e < NENV" using c envid2env_Inr(2) [OF assms(2)] in_kernelD(3) [OF assms(1)] by (cases "envid = 0") (auto simp: curenv_def)
  show "env_status (envs s e) \<noteq> ENV_FREE"
    using c envid2env_Inr(4) [OF assms(2)] in_kernelD(4) [OF assms(1)] by (cases "envid = 0") (auto simp: curenv_def)
qed

lemma kernel_fault_post [simp]: "kpost Q kernel_fault" "quiet s kernel_fault"
  by (simp_all add: kernel_fault_def)

lemma user_mem_assert_post:
  assumes "exclusive s" "curenv s = Some c"
  shows "kpost (\<lambda>_ t. sched_view t = sched_view s) (user_mem_assert c va len perm s)"
proof -
  have "kpost (\<lambda>_ t. False) (env_destroy c t)" if "sched_view t = sched_view s" for t
  proof -
    have x: "exclusive t" "curenv t = Some c" using view_keeps(2) [OF that assms(1)] sched_viewD(7) [OF that] assms(2) by simp_all
    show ?thesis using exclusiveD(2) [OF x] by (intro env_destroy_own [OF exclusiveD(1) [OF x(1)] x(2)]) auto
  qed
  thus ?thesis unfolding user_mem_assert_def
    by (intro kpost_quiet [OF quiet_check]) (auto intro: kpost_mono [where P = "\<lambda>_ _. False"])
qed

lemma quiet_calls:
  "quiet s (sys_page_alloc envid va perm s)" "quiet s (sys_page_map a1 a2 a3 a4 a5 s)"
  "quiet s (sys_page_unmap envid va s)" "quiet s (sys_env_set_pgfault_upcall envid func s)"
  "quiet s (sys_getenvid s)"
proof -
  show "quiet s (sys_page_alloc envid va perm s)"
    by (auto simp: sys_page_alloc_def split: sum.splits option.splits intro!: quiet_bind [OF quiet_envid2env]
        quiet_bind [OF quiet_page_alloc] quiet_bind [OF quiet_insert] quiet_bind [OF quiet_page_free])
  show "quiet s (sys_page_map a1 a2 a3 a4 a5 s)"
    by (auto simp: sys_page_map_def split: sum.splits option.splits intro!: quiet_bind [OF quiet_envid2env]
        quiet_bind [OF quiet_lookup] quiet_insert)
  show "quiet s (sys_page_unmap envid va s)"
    by (auto simp: sys_page_unmap_def split: sum.splits option.splits intro!: quiet_bind [OF quiet_envid2env]
        quiet_bind [OF quiet_remove])
  have "sched_view (upd_env e (\<lambda>v. v\<lparr>env_pgfault_upcall := func\<rparr>) t) = sched_view t" for e t
    by (rule view_upd_env) simp_all
  thus "quiet s (sys_env_set_pgfault_upcall envid func s)"
    by (auto simp: sys_env_set_pgfault_upcall_def split: sum.splits option.splits intro!: quiet_bind [OF quiet_envid2env])
  show "quiet s (sys_getenvid s)" by (simp add: sys_getenvid_def with_curenv_def split: option.splits)
qed

lemma sys_ipc_try_send_post:
  assumes "in_kernel s" shows "kpost (\<lambda>_ t. in_kernel t) (sys_ipc_try_send envid value srcva perm s)"
proof -
  have deliver: "in_kernel (ipc_deliver e value cur (upd_env e (\<lambda>v. v\<lparr>env_ipc_perm := p\<rparr>) t))"
    if t: "sched_view t = sched_view s" and e: "env_status (envs s e) \<noteq> ENV_FREE" "env_ipc_recving (envs s e)" for e cur p t
  proof -
    let ?u = "upd_env e (\<lambda>v. v\<lparr>env_ipc_perm := p\<rparr>) t"
    have u: "sched_view ?u = sched_view s" using t view_upd_env [of "\<lambda>v. v\<lparr>env_ipc_perm := p\<rparr>" e t] by simp
    note v = sched_viewD [OF u]
    have "env_status (envs s e) = ENV_NOT_RUNNABLE" using in_kernelD(5) [OF assms e(2)] e(1) by simp
    hence "cpu_env (cpus s c) \<noteq> Some e" if "c \<noteq> cpunum s" for c using in_kernelD(2) [OF assms that, of e] by auto
    thus ?thesis unfolding ipc_deliver_def
      by (intro in_kernel_upd [OF view_keeps(1) [OF u assms] _ refl]) (use v e in auto)
  qed
  have q: "sched_view x = sched_view s \<Longrightarrow> in_kernel x" for x using view_keeps(1) assms by blast
  show ?thesis unfolding sys_ipc_try_send_def
    apply (rule kpost_quiet [OF quiet_envid2env])
    subgoal premises r for r t
      using r(2) r(1) envid2env_target [OF assms] sched_viewD(4) [OF r(2)]
      by (auto simp: with_curenv_def q deliver split: sum.splits option.splits
          intro!: kpost_quiet [OF quiet_lookup] kpost_quiet [OF quiet_insert])
    done
qed

lemma sys_ipc_recv_post:
  assumes "exclusive s" shows "kpost (\<lambda>_ t. in_kernel t) (sys_ipc_recv dstva s)"
proof -
  let ?f = "\<lambda>v. v\<lparr>env_ipc_recving := True, env_ipc_dstva := dstva, env_status := ENV_NOT_RUNNABLE,
    env_tf := (env_tf v)\<lparr>tf_regs := (tf_regs (env_tf v))\<lparr>reg_eax := 0\<rparr>\<rparr>\<rparr>"
  have "kpost Q (sys_yield (upd_env c ?f s))" if "curenv s = Some c" for c and Q :: "unit \<Rightarrow> kst \<Rightarrow> bool"
  proof -
    have "in_kernel (upd_env c ?f s)"
      using exclusiveD(2) [OF assms that] own_env [OF exclusiveD(1) [OF assms] that]
      by (intro in_kernel_upd [OF exclusiveD(1) [OF assms] _ refl]) auto
    thus ?thesis unfolding sys_yield_def by (rule sched_yield_post)
  qed
  thus ?thesis using exclusiveD(1) [OF assms]
    by (auto simp: sys_ipc_recv_def with_curenv_def Let_def split: option.splits intro!: kpost_bind)
qed

lemma sys_exofork_post:
  assumes "in_kernel s" shows "kpost (\<lambda>_ t. in_kernel t) (sys_exofork s)"
proof -
  have "kpost (\<lambda>_ t. in_kernel t) (case r of Inl error_code \<Rightarrow> Done error_code t
    | Inr env \<Rightarrow>
        let s = upd_env env (\<lambda>v. v\<lparr>env_status := ENV_NOT_RUNNABLE\<rparr>) t;
            s = upd_env env (\<lambda>v. v\<lparr>env_tf := env_tf (envs s cur)\<rparr>) s;
            s = upd_env env (\<lambda>v. v\<lparr>env_tf := (env_tf v)\<lparr>tf_regs := (tf_regs (env_tf v))\<lparr>reg_eax := 0\<rparr>\<rparr>\<rparr>) s
        in Done (env_id (envs s env)) s)"
    if r: "in_kernel t \<and> (\<forall>x. curenv t = Some x \<longrightarrow> curenv s = Some x \<and> env_status (envs t x) = env_status (envs s x)) \<and>
      (\<forall>e. r = Inr e \<longrightarrow> env_status (envs t e) = ENV_RUNNABLE \<and>
        \<not> env_ipc_recving (envs t e) \<and> (\<forall>c. cpu_env (cpus t c) \<noteq> Some e))" for r cur t
  proof (cases r)
    case (Inr e)
    let ?t = "upd_env e (\<lambda>v. v\<lparr>env_status := ENV_NOT_RUNNABLE\<rparr>) t"
    have "in_kernel ?t" using r Inr by (intro in_kernel_upd [OF _ _ refl]) auto
    hence "in_kernel (upd_env e (\<lambda>v. v\<lparr>env_tf := f v\<rparr>) (upd_env e (\<lambda>v. v\<lparr>env_tf := g v\<rparr>) ?t))" for f g
      by (rule view_keeps(1) [rotated]) (subst view_upd_env, simp_all, rule view_upd_env, simp_all)
    thus ?thesis by (simp add: Inr Let_def)
  qed (use r in simp)
  thus ?thesis using env_alloc_post [OF assms]
    by (auto simp: sys_exofork_def with_curenv_def split: option.splits intro!: kpost_bind)
qed

lemma sys_env_destroy_post:
  assumes "exclusive s" "harmless SYS_env_destroy envid s"
  shows "kpost (\<lambda>_ t. in_kernel t) (sys_env_destroy envid s)"
  unfolding sys_env_destroy_def
proof (rule kpost_quiet [OF quiet_envid2env])
  fix r t
  assume r: "envid2env envid True s = Done r t" "sched_view t = sched_view s"
  have k: "in_kernel t" using r(2) exclusiveD(1) [OF assms(1)] view_keeps(1) by blast
  have "kpost (\<lambda>_ t. in_kernel t) (env_destroy e t)" if "r = Inr (Some e)" for e
  proof -
    note e = envid2env_target [OF exclusiveD(1) [OF assms(1)] r(1) [unfolded that]]
    have "env_status (envs s e) = ENV_DYING \<longrightarrow> \<not> runs_elsewhere s e"
      using assms(2) r(1) that by (simp add: harmless_def)
    thus ?thesis using env_destroy_post [OF k [unfolded e(1)] e(2,3)] e(1)
      by (auto simp: runs_elsewhere_def intro: kpost_mono)
  qed
  thus "kpost (\<lambda>_ t. in_kernel t) (case r of Inl r \<Rightarrow> Done r t | Inr None \<Rightarrow> kernel_fault
      | Inr (Some e) \<Rightarrow> kbind (env_destroy e t) (\<lambda>_ s. Done 0 s))"
    using k by (auto split: sum.splits option.splits intro: kpost_bind)
qed

lemma sys_env_set_status_post:
  assumes "exclusive s" "harmless SYS_env_set_status envid s"
  shows "kpost (\<lambda>_ t. in_kernel t) (sys_env_set_status envid status s)"
proof (cases "settable_status status")
  case (Some st)
  have st: "st = ENV_RUNNABLE \<or> st = ENV_NOT_RUNNABLE" using Some by (auto simp: settable_status_def split: if_splits)
  note k = exclusiveD(1) [OF assms(1)]
  have "in_kernel (upd_env e (\<lambda>v. v\<lparr>env_status := st\<rparr>) t)" if "envid2env envid True s = Done (Inr (Some e)) t" for e t
  proof -
    note e = envid2env_target [OF k that]
    have "\<not> env_ipc_recving (envs s e)" "\<not> runs_elsewhere s e" using assms(2) that by (simp_all add: harmless_def)
    thus ?thesis unfolding e(1) using st
      by (intro in_kernel_upd [OF k e(3) refl]) (auto simp: runs_elsewhere_def)
  qed
  thus ?thesis using Some k view_keeps(1)
    by (auto simp: sys_env_set_status_def split: sum.splits option.splits intro!: kpost_quiet [OF quiet_envid2env])
qed (use exclusiveD(1) [OF assms(1)] in \<open>simp add: sys_env_set_status_def\<close>)

lemma sys_cputs_post:
  assumes "exclusive s" shows "kpost (\<lambda>_ t. sched_view t = sched_view s) (sys_cputs va len s)"
  using user_mem_assert_post [OF assms]
  by (auto simp: sys_cputs_def with_curenv_def Let_def split: option.splits
      intro!: kpost_bind [OF user_mem_assert_post [OF assms]] kpost_quiet [OF quiet_print(1)])

lemma syscall_keeps:
  assumes "exclusive s" "harmless syscallno a1 s"
  shows "kpost (\<lambda>_ t. in_kernel t) (syscall syscallno a1 a2 a3 a4 a5 s)"
proof -
  have q: "quiet s m \<Longrightarrow> kpost (\<lambda>_ t. in_kernel t) m" for m :: "(u32, kst) kres"
    using exclusiveD(1) [OF assms(1)] view_keeps(1) by (auto intro: quiet_kpost)
  have cputs: "kpost (\<lambda>_ t. in_kernel t) (kbind (sys_cputs a1 a2 s) (\<lambda>_ s. sys_cgetc s))"
    by (rule kpost_bind [OF sys_cputs_post [OF assms(1)]])
       (use exclusiveD(1) [OF assms(1)] view_keeps(1) in \<open>auto intro: quiet_kpost [OF quiet_print(2)]\<close>)
  have yield: "kpost (\<lambda>_ t. in_kernel t) (kbind (sys_yield s) (\<lambda>_ s. Done 0 s :: (u32, kst) kres))"
    by (rule kpost_bind [of "\<lambda>_ _. False"]) (simp_all add: sys_yield_def sched_yield_post exclusiveD(1) [OF assms(1)])
  have getenvid: "kpost (\<lambda>_ t. in_kernel t) (kbind (kassert (curenv s \<noteq> None) ''assertion failed: curenv'' s) (\<lambda>_ s. sys_getenvid s))"
    by (rule q) (auto intro: quiet_bind [OF quiet_kva(5)] quiet_calls)
  show ?thesis unfolding syscall_def
    using assms cputs yield getenvid q [OF quiet_print(2)] q [OF quiet_calls(1)] q [OF quiet_calls(2)] q [OF quiet_calls(3)]
      q [OF quiet_calls(4)] sys_env_destroy_post sys_exofork_post sys_env_set_status_post sys_ipc_recv_post
      sys_ipc_try_send_post exclusiveD(1) by auto
qed

section \<open>Traps\<close>

lemma view_tf: "sched_view (upd_env e (\<lambda>v. v\<lparr>env_tf := f v\<rparr>) s) = sched_view s"
  by (rule view_upd_env) simp_all

lemma page_fault_handler_post:
  assumes "exclusive s" shows "kpost (\<lambda>_ t. in_kernel t) (page_fault_handler va tf s)"
proof -
  note k = exclusiveD(1) [OF assms]
  have run: "kpost Q (env_run c t)" if "curenv s = Some c" "sched_view t = sched_view s" for c t and Q :: "unit \<Rightarrow> kst \<Rightarrow> bool"
    using exclusiveD(2) [OF assms that(1)] sched_viewD(3,7) [OF that(2)] that(1)
    by (intro env_run_post [OF view_keeps(1) [OF that(2) k]]) auto
  have destroy: "kpost (\<lambda>_ t. in_kernel t) (env_destroy c s)" if "curenv s = Some c" for c
    using exclusiveD(2) [OF assms that] by (intro env_destroy_own [OF k that]) auto
  have upcall: "kpost (\<lambda>_ t. in_kernel t)
      (kbind (user_mem_assert c u n perm t) (\<lambda>_ s. kbind (vstores xs s) (\<lambda>_ s.
         env_run c (upd_env c (\<lambda>v. v\<lparr>env_tf := (env_tf v)\<lparr>tf_eip := env_pgfault_upcall v, tf_esp := u\<rparr>\<rparr>) s))))"
    if c: "curenv s = Some c" and t: "sched_view t = sched_view s" for c u n perm t xs
  proof (rule kpost_bind [OF user_mem_assert_post [OF view_keeps(2) [OF t assms]]])
    show "curenv t = Some c" using sched_viewD(7) [OF t] c by simp
    fix r v
    assume v: "sched_view v = sched_view t"
    show "kpost (\<lambda>_ t. in_kernel t) (kbind (vstores xs v) (\<lambda>_ s.
        env_run c (upd_env c (\<lambda>v. v\<lparr>env_tf := (env_tf v)\<lparr>tf_eip := env_pgfault_upcall v, tf_esp := u\<rparr>\<rparr>) s)))"
      by (rule kpost_quiet [OF quiet_vstore(3)], rule run [OF c]) (simp only: view_tf v t)
  qed
  show ?thesis unfolding page_fault_handler_def with_curenv_def Let_def
    using destroy
    by (auto split: option.splits intro!: kpost_quiet [of s] upcall quiet_vstore)
qed

lemma trap_dispatch_post:
  assumes "exclusive s" "tf_trapno tf = of_nat T_SYSCALL \<longrightarrow> harmless (reg_eax (tf_regs tf)) (reg_edx (tf_regs tf)) s"
  shows "kpost (\<lambda>_ t. in_kernel t) (trap_dispatch loc cr2 tf s)"
proof -
  note k = exclusiveD(1) [OF assms(1)]
  have call: "kpost (\<lambda>_ t. in_kernel t) (kbind (syscall (reg_eax (tf_regs tf)) (reg_edx (tf_regs tf)) a2 a3 a4 a5 s)
      (\<lambda>v s. Done () (case loc of None \<Rightarrow> s
         | Some e \<Rightarrow> upd_env e (\<lambda>x. x\<lparr>env_tf := (env_tf x)\<lparr>tf_regs := (tf_regs (env_tf x))\<lparr>reg_eax := v\<rparr>\<rparr>\<rparr>) s)))"
    if "tf_trapno tf = of_nat T_SYSCALL" for a2 a3 a4 a5
    by (rule kpost_bind [OF syscall_keeps])
       (use assms that view_tf in \<open>auto intro: view_keeps(1) split: option.splits\<close>)
  have destroy: "kpost (\<lambda>_ t. in_kernel t) (env_destroy c s)" if "curenv s = Some c" for c
    using exclusiveD(2) [OF assms(1) that] by (intro env_destroy_own [OF k that]) auto
  show ?thesis unfolding trap_dispatch_def Let_def
    using page_fault_handler_post [OF assms(1)] call sched_yield_post [OF k] k destroy
    by (simp add: with_curenv_def split: option.splits del: T_SYSCALL_def)
qed

lemma harmless_cong:
  assumes "sched_view t = sched_view s" "\<And>e. env_id (envs t e) = env_id (envs s e)"
    "\<And>e. env_parent_id (envs t e) = env_parent_id (envs s e)"
  shows "harmless n a t = harmless n a s"
  using assms(2,3) sched_viewD [OF assms(1)]
  by (simp add: harmless_def envid2env_def runs_elsewhere_def Let_def split: option.splits)

text \<open>On the way in, a processor frees its environment when another one has destroyed it.\<close>

lemma trap_from_user_post:
  assumes "exclusive s"
  shows "kpost (\<lambda>c t. exclusive t \<and> (\<forall>n a. harmless n a t = harmless n a s)) (trap_from_user tf s)"
proof -
  let ?s = "s\<lparr>klock := Some (cpunum s)\<rparr>"
  have x: "exclusive ?s" by (rule view_keeps(2) [OF _ assms]) simp
  have dying: "kpost Q (kbind (kbind (env_free c ?s) (\<lambda>_ s. sched_yield (set_curenv None s))) f)"
    if "curenv ?s = Some c" for c f and Q :: "nat \<Rightarrow> kst \<Rightarrow> bool"
  proof (rule kpost_bind [where P = "\<lambda>_ _. False"], rule kpost_bind)
    show "kpost (\<lambda>_ t. in_kernel (set_curenv None t) \<and> curenv t = curenv ?s \<and>
        (curenv ?s \<noteq> Some c \<longrightarrow> in_kernel t)) (env_free c ?s)"
      using exclusiveD(2) [OF x that] own_env [OF exclusiveD(1) [OF x] that]
      by (intro env_free_post [OF exclusiveD(1) [OF x]]) auto
  qed (auto intro: sched_yield_post)
  have "exclusive (upd_env c (\<lambda>v. v\<lparr>env_tf := tf\<rparr>) ?s)" for c
    by (rule view_keeps(2) [OF _ x]) (rule view_tf)
  moreover have "harmless n a (upd_env c (\<lambda>v. v\<lparr>env_tf := tf\<rparr>) ?s) = harmless n a s" for n a c
    by (rule harmless_cong) (simp_all add: view_tf envs_upd_env)
  ultimately show ?thesis using dying
    by (simp add: trap_from_user_def lock_kernel_def with_curenv_def kassert_def split: option.splits)
qed

lemma trap_post:
  assumes "exclusive s" "tf_trapno tf = of_nat T_SYSCALL \<longrightarrow> harmless (reg_eax (tf_regs tf)) (reg_edx (tf_regs tf)) s"
  shows "kpost Q (trap cr2 tf s)"
proof -
  have start: "kpost (\<lambda>_ t. exclusive t \<and> (\<forall>n a. harmless n a t = harmless n a s)) (start_cpu s)"
  proof -
    have e: "envs (set_cpu_status CPU_STARTED s) = envs s" by (simp add: set_cpu_status_def)
    have "exclusive (set_cpu_status CPU_STARTED s)" "exclusive (set_cpu_status CPU_STARTED s\<lparr>klock := k\<rparr>)" for k
      by (rule view_keeps(2) [OF _ assms(1)], simp)+
    moreover have "harmless n a (set_cpu_status CPU_STARTED s) = harmless n a s"
      "harmless n a (set_cpu_status CPU_STARTED s\<lparr>klock := k\<rparr>) = harmless n a s" for n a k
      by (rule harmless_cong, simp_all add: e)+
    ultimately show ?thesis by (simp add: start_cpu_def Let_def lock_kernel_def split: option.splits)
  qed
  have ret: "kpost Q (trap_return t)" if "in_kernel t" for t
    using that env_run_post [OF that] in_kernelD(3) [OF that] sched_yield_post [OF that]
    by (auto simp: trap_return_def curenv_def split: option.splits)
  show ?thesis unfolding trap_def
  proof (rule kpost_bind [OF start], rule kpost_bind)
    fix r t
    assume t: "exclusive t \<and> (\<forall>n a. harmless n a t = harmless n a s)"
    have "kpost (\<lambda>_ t. in_kernel t) (kbind (trap_from_user tf t) (\<lambda>cur s. trap_dispatch (Some cur) cr2 tf s))"
      by (rule kpost_bind [OF trap_from_user_post], use t in blast, rule trap_dispatch_post) (use assms(2) t in auto)
    thus "kpost (\<lambda>_ t. in_kernel t) (if tf_cs tf AND 3 = 3
        then kbind (trap_from_user tf t) (\<lambda>cur s. trap_dispatch (Some cur) cr2 tf s) else trap_dispatch None cr2 tf t)"
      using trap_dispatch_post [of t tf None cr2] assms(2) t by auto
  qed (rule ret)
qed

text \<open>The creation of an environment from a program image.\<close>

lemma env_create_post:
  assumes "exclusive s" shows "kpost (\<lambda>_ t. exclusive t) (env_create binary type s)"
proof -
  have loop: "quiet s (region_alloc_loop n e i f s)" for n e i f s
    by (induction n arbitrary: i s) (auto split: option.splits intro!: quiet_bind [OF quiet_page_alloc] quiet_bind [OF quiet_insert])
  have region: "quiet s (region_alloc e va len s)" for e va len s by (simp add: region_alloc_def Let_def loop)
  have copy: "quiet s (memcpy_in n d a s)" for n d a s
    by (induction n arbitrary: d a s) (auto intro!: quiet_bind [OF quiet_vstore(1)])
  have zero: "quiet s (memset_in n d b s)" for n d b s
    by (induction n arbitrary: d s) (auto intro!: quiet_bind [OF quiet_vstore(1)])
  have segments: "quiet s (load_segments n e b ph s)" for n e b ph s
  proof (induction n arbitrary: ph s)
    case (Suc n) thus ?case by (auto simp: Let_def intro!: quiet_bind [OF region] quiet_bind [OF copy] zero quiet_bind)
  qed simp
  have icode: "quiet s (load_icode e binary s)" for e s
    by (auto simp: load_icode_def Let_def view_tf intro!: quiet_bind [OF quiet_kva(1)]
        quiet_bind [OF quiet_trans [OF _ segments]] quiet_trans [OF _ region])
  have ty: "sched_view (upd_env e (\<lambda>v. v\<lparr>env_type := y\<rparr>) s) = sched_view s" for e y s by (rule view_upd_env) simp_all
  show ?thesis unfolding env_create_def
    apply (rule kpost_bind [OF env_alloc_post [OF exclusiveD(1) [OF assms]]])
    subgoal premises a for r t
    proof (cases r)
      case (Inr e)
      have x: "exclusive t" using a assms by (auto simp: exclusive_def)
      show ?thesis unfolding Inr sum.case
        by (rule kpost_quiet [OF icode]) (auto simp: Let_def view_tf ty intro: view_keeps(2) [OF _ x])
    qed simp
    done
qed

section \<open>The machine\<close>

text \<open>A step of the machine.  The processors take turns between traps; user programs and devices may do anything
  to memory and to the input; a processor that starts enters the scheduler (the end of \<^verbatim>\<open>mp_main\<close>); every trap is
  taken as far as the return to user mode or the halt of the processor.  A kernel that panics or enters the
  monitor takes no more steps.\<close>

inductive smp_step :: "kst \<Rightarrow> kst \<Rightarrow> bool" where
  other_cpu: "smp_step s (s\<lparr>cpunum := c\<rparr>)"
| outside: "smp_step s (s\<lparr>pmem := m, serial_in := i, kbd_in := k\<rparr>)"
| start: "kbind (lock_kernel s) (\<lambda>_ s. sched_yield s) = NoReturn x t \<Longrightarrow> x = Halted \<or> x = ToUser e \<Longrightarrow> smp_step s t"
| create: "env_create binary type s = Done () t \<Longrightarrow> smp_step s t"
| trap: "trap cr2 tf s = NoReturn x t \<Longrightarrow> x = Halted \<or> x = ToUser e \<Longrightarrow>
    (tf_trapno tf = of_nat T_SYSCALL \<longrightarrow> harmless (reg_eax (tf_regs tf)) (reg_edx (tf_regs tf)) s) \<Longrightarrow> smp_step s t"

lemma smp_step_exclusive: "smp_step s t \<Longrightarrow> exclusive s \<Longrightarrow> exclusive t"
proof (induction rule: smp_step.induct)
  case (other_cpu s c)
  note k = in_kernelD [OF exclusiveD(1) [OF other_cpu]]
  have st: "env_status (envs s e) \<in> {ENV_RUNNING, ENV_DYING}" if "cpu_env (cpus s d) = Some e" for d e
    using that k(2) [of d e] exclusiveD(2) [OF other_cpu, of e] by (cases "d = cpunum s") (auto simp: curenv_def)
  moreover have "env_rep (s\<lparr>cpunum := c\<rparr>) = env_rep s" by (simp add: fun_eq_iff env_rep_def)
  ultimately show ?case using k unfolding exclusive_def in_kernel_def by (auto simp: curenv_def)
next
  case (outside s m i k)
  show ?case by (rule view_keeps(2) [OF _ outside]) (simp add: sched_view_def)
next
  case (start s x t e)
  have "kpost (\<lambda>_ _. True) (kbind (lock_kernel s) (\<lambda>_ s. sched_yield s))"
    by (rule kpost_quiet [OF quiet_kva(6)])
       (rule sched_yield_post, erule view_keeps(1), rule exclusiveD(1) [OF start(3)])
  thus ?case using start(1,2) by auto
next
  case (create binary type s t)
  thus ?case using env_create_post [of s binary type] by simp
next
  case (trap cr2 tf s x t e)
  thus ?case using trap_post [of s tf "\<lambda>_ _. True" cr2] by auto
qed

text \<open>What the calls left out do.  An environment that another processor runs and that is destroyed for the second
  time is freed while it runs, so that its slot can be given to a new environment; and a message to one that was
  made runnable while it waited makes it runnable while it runs.\<close>

lemma destroy_twice_frees_running:
  assumes "envid2env envid True s = Done (Inr (Some e)) s" "env_status (envs s e) = ENV_DYING"
    "c \<noteq> cpunum s" "cpu_env (cpus s c) = Some e" "curenv s \<noteq> Some e" "env_free e s = Done () u"
  shows "sys_env_destroy envid s = Done 0 u \<and> env_status (envs u e) = ENV_FREE \<and> env_free_list u = Some e \<and>
    cpu_env (cpus u c) = Some e"
proof -
  have "sched_view u = sched_view (env_list_push e s)" using env_free_view [of e s] assms(6) by simp
  note v = sched_viewD [OF this]
  have "curenv u \<noteq> Some e" using v(7) assms(5) by (simp add: curenv_def env_list_push_def upd_env_def)
  thus ?thesis using assms v by (simp add: sys_env_destroy_def env_destroy_def env_list_push_def upd_env_def)
qed

lemma message_wakes_running:
  assumes "envid2env envid False s = Done (Inr (Some e)) s" "env_ipc_recving (envs s e)" "curenv s = Some cur"
    "c \<noteq> cpunum s" "cpu_env (cpus s c) = Some e"
  shows "\<exists>t. sys_ipc_try_send envid value UTOP 0 s = Done 0 t \<and> env_status (envs t e) = ENV_RUNNABLE \<and>
    cpu_env (cpus t c) = Some e"
  using assms by (auto simp: sys_ipc_try_send_def with_curenv_def ipc_deliver_def envs_upd_env)

text \<open>The table as \<^verbatim>\<open>env_init\<close> leaves it, and the environments that the kernel creates before the first one runs.\<close>

lemma env_init_exclusive:
  assumes "\<And>c. cpu_env (cpus s c) = None" "\<And>e. envs s e = zero_env"
  shows "exclusive (env_init s)"
proof -
  have f: "cpus (fold env_init_step xs s) = cpus s" "cpunum (fold env_init_step xs s) = cpunum s" for xs and s :: kst
    by (induction xs arbitrary: s) (simp_all add: env_init_step_def upd_env_def)
  have k: "cpus (env_init s) = cpus s" "cpunum (env_init s) = cpunum s" by (simp_all add: env_init_def Let_def upd_env_def f)
  have "\<not> env_ipc_recving (envs (env_init s) e)" for e
    by (simp add: env_init_def Let_def envs_upd_env env_init_fold assms(2) zero_env_def del: upt_rec_numeral upt_Suc)
  moreover have "env_rep (env_init s) [0..<NENV]" by (rule env_init_rep) (simp add: assms(2) zero_env_def)
  ultimately have "in_kernel (env_init s)" unfolding in_kernel_def k assms(1) by blast
  thus ?thesis by (simp add: exclusive_def curenv_def k assms(1))
qed

text \<open>C14: In every run of the machine, from \<^verbatim>\<open>env_init\<close> on or from any state like it, whatever the order in which
  the processors trap and whatever the traps are (system calls, page faults, the timer, faults that destroy an
  environment), no environment is ever current on two processors, and an environment that is current is
  running or, when another processor has destroyed it, dying, but never runnable, free or waiting for a message.
  The three system calls that would break this are left out of the runs (\<open>harmless\<close>): setting the status of
  an environment that another processor runs or that waits for a message, and destroying one that another
  processor runs twice.\<close>

theorem processors_exclusive:
  assumes "smp_step\<^sup>*\<^sup>* s t" "exclusive s"
  shows "exclusive t \<and> (\<forall>c d e. cpu_env (cpus t c) = Some e \<longrightarrow> cpu_env (cpus t d) = Some e \<longrightarrow> c = d) \<and>
    (\<forall>c e. cpu_env (cpus t c) = Some e \<longrightarrow> env_status (envs t e) \<in> {ENV_RUNNING, ENV_DYING} \<and> \<not> env_ipc_recving (envs t e))"
proof -
  have x: "exclusive t" using assms by (induction rule: rtranclp_induct) (auto intro: smp_step_exclusive)
  note k = in_kernelD [OF exclusiveD(1) [OF x]]
  have st: "env_status (envs t e) \<in> {ENV_RUNNING, ENV_DYING}" if "cpu_env (cpus t d) = Some e" for d e
    using that k(2) [of d e] exclusiveD(2) [OF x, of e] by (cases "d = cpunum t") (auto simp: curenv_def)
  hence "\<not> env_ipc_recving (envs t e)" if "cpu_env (cpus t d) = Some e" for d e using k(5) [of e] that by fastforce
  thus ?thesis using x st k(1) by blast
qed

lemma demo_user_exclusive: "exclusive demo_user"
proof -
  have "env_free_list demo_user = None" by (simp add: demo_user_def demo_sched_def demo_mapped_def bss_kst_def)
  hence "env_rep demo_user []" by (simp add: env_rep_def)
  moreover have "\<not> env_ipc_recving (envs demo_sched e)" for e by (simp add: demo_sched_def zero_env_def)
  ultimately have "in_kernel demo_user" unfolding in_kernel_def by (auto simp: demo_sched_status)
  thus ?thesis by (simp add: exclusive_def)
qed

theorem processors_exclusive_witness:
  "\<exists>t e. smp_step demo_user t \<and> curenv t = Some e \<and> e \<noteq> 0 \<and> env_status (envs t e) \<in> {ENV_RUNNING, ENV_DYING} \<and>
     (\<forall>c. cpu_env (cpus t c) = Some e \<longrightarrow> c = cpunum t)"
proof -
  let ?tf = "env_tf zero_env\<lparr>tf_cs := 0x1B, tf_trapno := 32\<rparr>"
  let ?s = "entered 0 ?tf demo_user"
  have r: "trap_ready demo_user 0 ?tf" by (simp add: trap_ready_def)
  have "env_ids_ok ?s" using demo_sched_ids by (auto simp: env_ids_ok_def)
  hence "sched_ready ?s" by (simp add: sched_ready_def)
  from sched_yield_some [OF this, of 1] obtain e where
    e: "sched_yield ?s = NoReturn (ToUser e) (switched e ?s)" "env_status (envs ?s e) = ENV_RUNNABLE"
    by (auto simp: demo_sched_status)
  have "trap 0 ?tf demo_user = NoReturn (ToUser e) (switched e ?s)"
    unfolding trap_entered [OF r] by (simp add: trap_dispatch_def IRQ_OFFSET_def e(1))
  hence s: "smp_step demo_user (switched e ?s)" by (rule smp_step.trap) simp_all
  note x = processors_exclusive [OF r_into_rtranclp [of smp_step, OF s] demo_user_exclusive]
  have "curenv (switched e ?s) = Some e" by simp
  hence "cpu_env (cpus (switched e ?s) (cpunum (switched e ?s))) = Some e" unfolding curenv_def .
  moreover have "e \<noteq> 0" using e(2) by (auto simp: demo_sched_status split: if_splits)
  ultimately show ?thesis using s x by (metis curenv_def)
qed

end
