(* ===== verification/Spec2Isabelle.thy ===== *)
theory Spec2Isabelle
  imports Prelude Mmu Kstate FreeList Fifo PageAlloc Vm VmSpec VmProps EnvTab Sched EnvProps
    SchedProps Console Strings Errors Printfmt Stdio Args Syscalls SysProps Trap TrapProps
    BlockCache Fs FsBitmap FsBlocks FsFiles FileServ Kdebug Spinlock Pipe Ulib Fork ForkSpec ForkProps Pgfault FdTable Devices FdProps Shell ShellExec MemInit FreeCheck KernMap KernSpace KernCheck Spawn SpawnProps Smp
begin

text \<open>
  A verification development for the JOS operating system under \<^verbatim>\<open>src/tps\<close> (the kernel, its user
  library and its file server, in C for 32-bit x86) and for the shell under \<^verbatim>\<open>src/labs/shell\<close>.

  \<^bold>\<open>The program.\<close>  The kernel (\<^verbatim>\<open>kern/\<close>) hands out physical pages, keeps page tables and a table of
  environments (processes), schedules them on several processors under one big lock, and serves traps and
  system calls.  Everything else runs in user mode: the library (\<^verbatim>\<open>lib/\<close>) builds fork, messages, file
  descriptors, pipes and a console device from system calls, and the file server (\<^verbatim>\<open>fs/\<close>) is an
  environment that owns the disk and answers requests that arrive as messages.

  \<^bold>\<open>Theories and sources.\<close>
    \<^item> \<^verbatim>\<open>Prelude\<close>: machine integers, results of kernel code (\<open>Done\<close>, \<open>Panic\<close>, \<open>NoReturn\<close>), lists threaded
      through an array.  \<^verbatim>\<open>FreeList\<close> and \<^verbatim>\<open>Fifo\<close> are the interfaces: the locale \<open>lifo_allocator\<close> is
      interpreted by the page allocator and the table of environments, \<open>fifo\<close> by the console's input
      buffer and the pipe.
    \<^item> \<^verbatim>\<open>Mmu\<close> (\<^verbatim>\<open>inc/mmu.h\<close>, \<^verbatim>\<open>inc/memlayout.h\<close>, \<^verbatim>\<open>inc/types.h\<close>) and \<^verbatim>\<open>Kstate\<close> (\<^verbatim>\<open>inc/env.h\<close>,
      \<^verbatim>\<open>inc/trap.h\<close>, \<^verbatim>\<open>kern/cpu.h\<close>, \<^verbatim>\<open>kern/pmap.h\<close>): the data and the record \<open>kst\<close> of the kernel's
      globals, physical memory and devices.  Physical memory is a function from a frame number and a word
      index to a word; kernel addresses are physical ones plus \<open>KERNBASE\<close>.
    \<^item> \<^verbatim>\<open>PageAlloc\<close>, \<^verbatim>\<open>Vm\<close>, \<^verbatim>\<open>VmSpec\<close>, \<^verbatim>\<open>VmProps\<close> (\<^verbatim>\<open>kern/pmap.c\<close>): the page allocator against the
      list of free pages (\<open>page_rep\<close>); page tables against the map of an address space (\<open>vmap\<close>) with the
      well-formedness \<open>vm_wf\<close> and the reference counts \<open>rc_inv\<close>; the check of user memory.
    \<^item> \<^verbatim>\<open>EnvTab\<close>, \<^verbatim>\<open>EnvProps\<close> (\<^verbatim>\<open>kern/env.c\<close>), \<^verbatim>\<open>Sched\<close>, \<^verbatim>\<open>SchedProps\<close> (\<^verbatim>\<open>kern/sched.c\<close>): ids, the free
      list, loading of programs; lookup of ids against a search of the table, round robin and fairness.
    \<^item> \<^verbatim>\<open>Syscalls\<close>, \<^verbatim>\<open>SysProps\<close> (\<^verbatim>\<open>kern/syscall.c\<close>), \<^verbatim>\<open>Trap\<close>, \<^verbatim>\<open>TrapProps\<close> (\<^verbatim>\<open>kern/trap.c\<close>): every system
      call and the dispatcher; vectors, entry, dispatch and the page fault upcall.  \<^verbatim>\<open>Smp\<close> puts the processors
      together: traps of any kind, interleaved (\<open>smp_step\<close>, with the end of \<^verbatim>\<open>mp_main\<close> in \<^verbatim>\<open>kern/init.c\<close> as the start
      of a processor), and the invariant that no environment runs on two of them.
    \<^item> \<^verbatim>\<open>Console\<close> (\<^verbatim>\<open>kern/console.c\<close>), \<^verbatim>\<open>Spinlock\<close> (\<^verbatim>\<open>kern/spinlock.c\<close>), \<^verbatim>\<open>Kdebug\<close> (\<^verbatim>\<open>kern/kdebug.c\<close>):
      screen, keyboard and input buffer; the lock as a step relation of all processors; the search for
      debugging information.
    \<^item> \<^verbatim>\<open>Strings\<close>, \<^verbatim>\<open>Errors\<close>, \<^verbatim>\<open>Printfmt\<close>, \<^verbatim>\<open>Stdio\<close>, \<^verbatim>\<open>Args\<close> (\<^verbatim>\<open>lib/string.c\<close>, \<^verbatim>\<open>inc/error.h\<close>,
      \<^verbatim>\<open>lib/printfmt.c\<close>, \<^verbatim>\<open>lib/printf.c\<close>, \<^verbatim>\<open>lib/fprintf.c\<close>, \<^verbatim>\<open>lib/readline.c\<close>, \<^verbatim>\<open>lib/args.c\<close>): the routines
      that kernel and programs share, over a flat memory of bytes.
    \<^item> \<^verbatim>\<open>BlockCache\<close> (\<^verbatim>\<open>fs/ide.c\<close>, \<^verbatim>\<open>fs/bc.c\<close>), \<^verbatim>\<open>Fs\<close>, \<^verbatim>\<open>FsBitmap\<close>, \<^verbatim>\<open>FsBlocks\<close>, \<^verbatim>\<open>FsFiles\<close> (\<^verbatim>\<open>fs/fs.c\<close>),
      \<^verbatim>\<open>FileServ\<close> (\<^verbatim>\<open>fs/serv.c\<close>): the disk under its cache, the free-block bitmap, the blocks of a file, files
      as lists of bytes, and the table of open files with the request handlers.
    \<^item> \<^verbatim>\<open>Ulib\<close> (\<^verbatim>\<open>lib/syscall.c\<close>, \<^verbatim>\<open>lib/entry.S\<close>, \<^verbatim>\<open>lib/pageref.c\<close>, \<^verbatim>\<open>lib/pgfault.c\<close>, \<^verbatim>\<open>lib/ipc.c\<close>,
      \<^verbatim>\<open>lib/wait.c\<close>), \<^verbatim>\<open>Fork\<close>, \<^verbatim>\<open>ForkSpec\<close>, \<^verbatim>\<open>ForkProps\<close>, \<^verbatim>\<open>Pgfault\<close> (\<^verbatim>\<open>lib/fork.c\<close>), \<^verbatim>\<open>Pipe\<close>
      (\<^verbatim>\<open>lib/pipe.c\<close>): user programs as functions of the kernel's state, run by the current environment.
    \<^item> \<^verbatim>\<open>FdTable\<close> (\<^verbatim>\<open>lib/fd.c\<close>), \<^verbatim>\<open>Devices\<close> (\<^verbatim>\<open>lib/console.c\<close>, \<^verbatim>\<open>lib/file.c\<close>, \<^verbatim>\<open>lib/pipe.c\<close>,
      \<^verbatim>\<open>lib/exit.c\<close>), \<^verbatim>\<open>FdProps\<close>: descriptors as pages of the program's address space, the devices behind
      them, and how duplicates share an offset.  The exchange of messages with the file server is an
      argument.
    \<^item> \<^verbatim>\<open>Shell\<close> (\<^verbatim>\<open>readline.c\<close>, \<^verbatim>\<open>utils.c\<close>, \<^verbatim>\<open>types.h\<close>, \<^verbatim>\<open>createcmd.c\<close>, \<^verbatim>\<open>parsing.c\<close> under
      \<^verbatim>\<open>src/labs/shell\<close>) and \<^verbatim>\<open>ShellExec\<close> (\<^verbatim>\<open>exec.c\<close>, \<^verbatim>\<open>builtin.c\<close>, \<^verbatim>\<open>runcmd.c\<close>): the parser of command
      lines, and commands as the trees of processes they start, each with its program and descriptors or the
      place in the shell where it goes on (the test of the loop in \<^verbatim>\<open>sh.c\<close> included).  What the system allows,
      \<^verbatim>\<open>getenv\<close> and the sizes of heap blocks are arguments: the shell writes a byte more than it asks for, and
      \<open>run_pipeline\<close> says how much it needs.
    \<^item> \<^verbatim>\<open>MemInit\<close>, \<^verbatim>\<open>FreeCheck\<close>, \<^verbatim>\<open>KernMap\<close>, \<^verbatim>\<open>KernSpace\<close>, \<^verbatim>\<open>KernCheck\<close> (\<^verbatim>\<open>mem_init\<close> of \<^verbatim>\<open>kern/pmap.c\<close>): memory set
      up from its detection to the kernel's page directory, with every self test; the free list sorted by
      its links, the kernel's address space region by region, and the tests that check both.  The tests
      \<^verbatim>\<open>check_page\<close> and \<^verbatim>\<open>check_page_installed_pgdir\<close> are modelled, without a theorem that they succeed.
    \<^item> \<^verbatim>\<open>Spawn\<close> (\<^verbatim>\<open>lib/spawn.c\<close>) and \<^verbatim>\<open>SpawnProps\<close>: running a program from the file system.  A vector of
      strings in the caller's memory is found again, through the child's page tables, on the stack that
      \<^verbatim>\<open>init_stack\<close> builds; the loops over strings and vectors carry the number of bytes and words of a
      32-bit memory as fuel.

  \<^bold>\<open>What the lemmas show.\<close>  For a data structure there is an abstraction (\<open>page_rep\<close>, \<open>env_rep\<close>,
  \<open>cons_rep\<close>, \<open>pipe_rep\<close>, the map \<open>vmap\<close>, the bytes of a file) and each operation is shown to act on it as
  the interface says and to keep the invariant, on every branch: \<open>as_inv\<close> for one address space,
  \<open>pair_inv\<close> for a parent and its child, \<open>sched_ready\<close> for one processor and \<open>exclusive\<close> for all of them; the
  latter is kept by every trap except three uses of system calls, which are named in its theorem.  Concurrent
  code (the spin lock, the pipe) is a step relation with one memory access per step, and its invariants go
  by rule induction over the reachable states.  Where the code departs from its contract the departure is a
  theorem too: a lookup of an unmapped address that returns the page 0, a message mapped at an address that
  was not checked, a range of memory that is accepted unchecked, a status change and a second destruction that
  break the exclusion of processors, a pipe that loses its last bytes, a block of the shell that is a byte short.

  \<^bold>\<open>Bounds and fuel.\<close>  Loops that the code ends by a condition carry a count that is enough for every run,
  and the theorems on them say that they return: \<open>0x100000\<close> pages for the loops over the address space,
  \<open>2 ^ 32\<close> bytes for a string in the server's memory, the bytes left for a read or write of a file, the
  depth 4 for page faults of the block cache (a fault on the bitmap reads a block, which checks the
  bitmap).  Searches end by a termination proof.  A loop that may wait for ever (the lock, a pipe, the idle
  scheduler) is a step, or ends in \<open>NoReturn\<close>.

  \<^bold>\<open>Conventions.\<close>  Pointers to the arrays \<^verbatim>\<open>pages\<close> and \<^verbatim>\<open>envs\<close> are their indices, null is \<open>None\<close>.  A panic of
  kernel or user code is \<open>Panic\<close> with its message; the kernel's diagnostic output is left out, except for
  \<^verbatim>\<open>sys_cputs\<close>.  TLB invalidations are logged and translations always read the page tables in memory.

  \<^bold>\<open>Not modelled.\<close>  The boot loader and the processors' start-up (\<^verbatim>\<open>boot/\<close>, \<^verbatim>\<open>kern/entry.S\<close>,
  \<^verbatim>\<open>kern/mpentry.S\<close>, \<^verbatim>\<open>kern/init.c\<close>), the interrupt controllers and the clock (\<^verbatim>\<open>kern/lapic.c\<close>,
  \<^verbatim>\<open>kern/picirq.c\<close>, \<^verbatim>\<open>kern/kclock.c\<close>): they are device registers.  \<^verbatim>\<open>kern/entrypgdir.c\<close> is a table
  that the boot code uses once; \<^verbatim>\<open>kern/mpconfig.c\<close> reads tables of the firmware and \<^verbatim>\<open>kern/monitor.c\<close> is
  a prompt for the developer.  The second shell \<^verbatim>\<open>user/sh.c\<close>, the builder of the disk image
  \<^verbatim>\<open>fs/fsformat.c\<close> and the exercises under \<^verbatim>\<open>labs/fork\<close> and \<^verbatim>\<open>labs/pipes\<close> are left out.  The trap entry in assembly is part of the model of traps as far as it
  fills the trap frame.  Test programs under \<^verbatim>\<open>user/\<close> and \<^verbatim>\<open>fs/test.c\<close> exercise what is modelled and
  have no logic of their own.
\<close>

end
